(* ===== verification/C2_Prelude.thy ===== *)
theory C2_Prelude
  imports Main "HOL-Library.Word" "HOL-Library.Monad_Syntax"
begin

text \<open>
  Prelude of the c2db development: the byte and word types every component shares, the
  little-endian codecs of Go's \<^verbatim>\<open>encoding/binary\<close> as the code inlines them, runs of bytes
  written into and read out of a buffer (\<open>put_at\<close>, \<open>bslice\<close>), Go's bounds-checked
  indexing (a panic is \<open>None\<close>), and the word arithmetic that moves a proof from machine
  words to natural numbers.

  Conventions. A Go slice is a list; a parameter that the code compares with \<^verbatim>\<open>nil\<close> and for
  which \<^verbatim>\<open>nil\<close> and the empty slice behave differently is an \<open>option\<close>. Lengths, offsets and
  block numbers (\<^verbatim>\<open>uint64\<close> or \<^verbatim>\<open>int\<close> that index memory or a file) are \<open>nat\<close>: each is bounded
  by a buffer length or a device size before it is used, so it never wraps. Stored integers keep
  their width as words. A flag of type \<^verbatim>\<open>byte\<close> that only holds 0 or 1 is a \<open>bool\<close>.
\<close>

unbundle bit_operations_syntax

named_theorems word_nat \<open>words read as natural numbers\<close>

type_synonym byte = "8 word"
type_synonym bytes = "byte list"
type_synonym u16 = "16 word"
type_synonym u32 = "32 word"
type_synonym u64 = "64 word"

definition le_get16 :: "bytes \<Rightarrow> u16" where
  "le_get16 bs = ucast (bs ! 0) OR push_bit 8 (ucast (bs ! 1))"

definition le_get32 :: "bytes \<Rightarrow> u32" where
  "le_get32 bs = ucast (bs ! 0) OR push_bit 8 (ucast (bs ! 1))
     OR push_bit 16 (ucast (bs ! 2)) OR push_bit 24 (ucast (bs ! 3))"

definition le_get64 :: "bytes \<Rightarrow> u64" where
  "le_get64 bs = ucast (bs ! 0) OR push_bit 8 (ucast (bs ! 1))
     OR push_bit 16 (ucast (bs ! 2)) OR push_bit 24 (ucast (bs ! 3))
     OR push_bit 32 (ucast (bs ! 4)) OR push_bit 40 (ucast (bs ! 5))
     OR push_bit 48 (ucast (bs ! 6)) OR push_bit 56 (ucast (bs ! 7))"

definition le_put16 :: "u16 \<Rightarrow> bytes" where
  "le_put16 v = [ucast (v AND 0xff), ucast (drop_bit 8 v AND 0xff)]"
definition le_put32 :: "u32 \<Rightarrow> bytes" where
  "le_put32 v = [ucast (v AND 0xff), ucast (drop_bit 8 v AND 0xff),
     ucast (drop_bit 16 v AND 0xff), ucast (drop_bit 24 v AND 0xff)]"
definition le_put64 :: "u64 \<Rightarrow> bytes" where
  "le_put64 v = [ucast (v AND 0xff), ucast (drop_bit 8 v AND 0xff),
     ucast (drop_bit 16 v AND 0xff), ucast (drop_bit 24 v AND 0xff),
     ucast (drop_bit 32 v AND 0xff), ucast (drop_bit 40 v AND 0xff),
     ucast (drop_bit 48 v AND 0xff), ucast (drop_bit 56 v AND 0xff)]"

primrec of_le :: "bytes \<Rightarrow> 'a::len word" where
  "of_le [] = 0"
| "of_le (b # bs) = ucast b OR push_bit 8 (of_le bs)"

primrec to_le :: "nat \<Rightarrow> 'a::len word \<Rightarrow> bytes" where
  "to_le 0 v = []"
| "to_le (Suc n) v = ucast v # to_le n (drop_bit 8 v)"

primrec le_nat :: "bytes \<Rightarrow> nat" where
  "le_nat [] = 0"
| "le_nat (b # bs) = unat b + 256 * le_nat bs"

lemma mask8: "(0xff :: 'a :: len word) = mask 8"
  by (simp add: mask_eq_exp_minus_1)

lemma ucast_and_ff [simp]: "ucast (v AND 0xff :: 'a::len word) = (ucast v :: byte)"
  unfolding mask8 by (rule bit_word_eqI) (auto simp: bit_simps dest: bit_imp_le_length)

lemma to_le_length [simp]: "length (to_le n v) = n"
  by (induction n arbitrary: v) auto

lemma of_le_to_le: "of_le (to_le n v) = take_bit (8 * n) (v :: 'a::len word)"
proof (induction n arbitrary: v)
  case 0 then show ?case by simp
next
  case (Suc n)
  show ?case
    by (rule bit_word_eqI) (auto simp: Suc bit_simps)
qed

lemma byte_bit_less: "bit (b :: byte) k \<Longrightarrow> k < 8"
  using bit_imp_le_length [of b k] by simp

lemma bit_of_le_less: "bit (of_le bs :: 'a::len word) k \<Longrightarrow> k < 8 * length bs"
proof (induction bs arbitrary: k)
  case (Cons b bs)
  from Cons.prems consider "bit b k" | "8 \<le> k" "bit (of_le bs :: 'a word) (k - 8)"
    by (auto simp: bit_simps)
  then show ?case
  proof cases
    case 1 then show ?thesis by (auto dest: byte_bit_less)
  next
    case 2 then show ?thesis using Cons.IH [of "k - 8"] by simp
  qed
qed simp

lemma to_le_of_le:
  "8 * length bs \<le> LENGTH('a) \<Longrightarrow> to_le (length bs) (of_le bs :: 'a::len word) = bs"
proof (induction bs)
  case Nil then show ?case by simp
next
  case (Cons b bs)
  have 1: "ucast (ucast b OR push_bit 8 (of_le bs) :: 'a word) = b"
    using Cons.prems by (intro bit_word_eqI) (auto simp: bit_simps)
  have 2: "drop_bit 8 (ucast b OR push_bit 8 (of_le bs) :: 'a word) = of_le bs"
    using Cons.prems by (intro bit_word_eqI) (fastforce simp: bit_simps dest: byte_bit_less bit_of_le_less)
  show ?case using Cons 1 2 by simp
qed

lemma byte_unat_less: "unat (b :: byte) < 256"
  using unsigned_less [of b, where ?'a = nat] by simp

lemma byte_unat_le: "unat (b :: byte) \<le> 255"
  using byte_unat_less [of b] by linarith

lemma unat_ucast_byte:
  assumes "8 \<le> LENGTH('a)" shows "unat (ucast (b :: byte) :: 'a::len word) = unat b"
proof -
  have "(2::nat) ^ 8 \<le> 2 ^ LENGTH('a)" using assms by (intro power_increasing) auto
  then have "unat b < 2 ^ LENGTH('a)" using byte_unat_less [of b] by simp
  then show ?thesis by (simp add: unsigned_ucast_eq take_bit_nat_eq_self)
qed

lemma le_nat_bound: "le_nat bs < 256 ^ length bs"
proof (induction bs)
  case Nil then show ?case by simp
next
  case (Cons b bs)
  then show ?case using byte_unat_less [of b] by simp
qed

lemma unat_of_le:
  "8 * length bs \<le> LENGTH('a) \<Longrightarrow> unat (of_le bs :: 'a::len word) = le_nat bs"
proof (induction bs)
  case Nil then show ?case by simp
next
  case (Cons b bs)
  have disj: "ucast b AND push_bit 8 (of_le bs) = (0 :: 'a word)"
    by (rule bit_word_eqI) (auto simp: bit_simps dest: byte_bit_less)
  have ub: "unat (ucast b :: 'a word) = unat b"
    using Cons.prems by (simp add: unat_ucast_byte)
  have "256 * le_nat bs + 255 < 256 ^ Suc (length bs)"
    using le_nat_bound [of bs] by simp
  also have "\<dots> = 2 ^ (8 * Suc (length bs))"
    by (simp only: power_mult) simp
  also have "\<dots> \<le> 2 ^ LENGTH('a)"
    using Cons.prems by (intro power_increasing) auto
  finally have bnd: "256 * le_nat bs + 255 < 2 ^ LENGTH('a)" .
  have "unat (push_bit 8 (of_le bs) :: 'a word) = take_bit LENGTH('a) (push_bit 8 (le_nat bs))"
    using Cons by (simp add: unsigned_push_bit_eq)
  also have "\<dots> = 256 * le_nat bs"
    using bnd by (subst take_bit_nat_eq_self) (simp_all add: push_bit_eq_mult)
  finally have up: "unat (push_bit 8 (of_le bs) :: 'a word) = 256 * le_nat bs" .
  have "unat (ucast b + push_bit 8 (of_le bs) :: 'a word) = unat b + 256 * le_nat bs"
    using ub up bnd byte_unat_le [of b] by (simp add: unat_word_ariths)
  then show ?case using disj by (simp add: disjunctive_add_eq_or)
qed

lemma le_get16_of_le: "le_get16 bs = of_le [bs ! 0, bs ! 1]"
  by (simp add: le_get16_def)
lemma le_get32_of_le: "le_get32 bs = of_le [bs ! 0, bs ! 1, bs ! 2, bs ! 3]"
  by (simp add: le_get32_def or.assoc)
lemma le_get64_of_le:
  "le_get64 bs = of_le [bs ! 0, bs ! 1, bs ! 2, bs ! 3, bs ! 4, bs ! 5, bs ! 6, bs ! 7]"
  by (simp add: le_get64_def or.assoc)

lemma le_put16_to_le: "le_put16 v = to_le 2 v"
  by (simp add: le_put16_def numeral_eq_Suc)
lemma le_put32_to_le: "le_put32 v = to_le 4 v"
  by (simp add: le_put32_def eval_nat_numeral)
lemma le_put64_to_le: "le_put64 v = to_le 8 v"
  by (simp add: le_put64_def eval_nat_numeral)

lemma le_put_length [simp]:
  "length (le_put16 v) = 2" "length (le_put32 w) = 4" "length (le_put64 x) = 8"
  by (simp_all add: le_put16_to_le le_put32_to_le le_put64_to_le)

lemma list2_nth: "length xs = 2 \<Longrightarrow> [xs ! 0, xs ! 1] = xs"
  by (auto simp: numeral_eq_Suc length_Suc_conv)
lemma list4_nth: "length xs = 4 \<Longrightarrow> [xs ! 0, xs ! 1, xs ! 2, xs ! 3] = xs"
  by (auto simp: numeral_eq_Suc length_Suc_conv)
lemma list8_nth: "length xs = 8 \<Longrightarrow>
    [xs ! 0, xs ! 1, xs ! 2, xs ! 3, xs ! 4, xs ! 5, xs ! 6, xs ! 7] = xs"
  by (auto simp: numeral_eq_Suc length_Suc_conv)

lemma le_get_put [simp]:
  "le_get16 (le_put16 v) = v" "le_get32 (le_put32 w) = w" "le_get64 (le_put64 x) = x"
proof -
  show "le_get16 (le_put16 v) = v"
    by (simp only: le_get16_of_le list2_nth le_put_length) (simp add: le_put16_to_le of_le_to_le take_bit_word_eq_self)
  show "le_get32 (le_put32 w) = w"
    by (simp only: le_get32_of_le list4_nth le_put_length) (simp add: le_put32_to_le of_le_to_le take_bit_word_eq_self)
  show "le_get64 (le_put64 x) = x"
    by (simp only: le_get64_of_le list8_nth le_put_length) (simp add: le_put64_to_le of_le_to_le take_bit_word_eq_self)
qed

lemma le_get32_append [simp]: "length xs = 4 \<Longrightarrow> le_get32 (xs @ ys) = le_get32 xs"
  by (simp add: le_get32_def nth_append)
lemma le_get16_append [simp]: "length xs = 2 \<Longrightarrow> le_get16 (xs @ ys) = le_get16 xs"
  by (simp add: le_get16_def nth_append)
lemma le_get64_append [simp]: "length xs = 8 \<Longrightarrow> le_get64 (xs @ ys) = le_get64 xs"
  by (simp add: le_get64_def nth_append)
lemma le_get_take [simp]:
  "2 \<le> n \<Longrightarrow> le_get16 (take n xs) = le_get16 xs"
  "4 \<le> n \<Longrightarrow> le_get32 (take n xs) = le_get32 xs"
  "8 \<le> n \<Longrightarrow> le_get64 (take n xs) = le_get64 xs"
  by (simp_all add: le_get16_def le_get32_def le_get64_def)

subsection \<open>Writing and reading runs of bytes\<close>

primrec put_at :: "'a list \<Rightarrow> nat \<Rightarrow> 'a list \<Rightarrow> 'a list" where
  "put_at p a [] = p"
| "put_at p a (x # xs) = put_at (p[a := x]) (Suc a) xs"

definition bslice :: "'a list \<Rightarrow> nat \<Rightarrow> nat \<Rightarrow> 'a list" where
  "bslice p a n = take n (drop a p)"

lemma put_at_length [simp]: "length (put_at p a xs) = length p"
  by (induction xs arbitrary: p a) auto

lemma put_at_nth:
  "i < length p \<Longrightarrow> a + length xs \<le> length p \<Longrightarrow>
   put_at p a xs ! i = (if a \<le> i \<and> i < a + length xs then xs ! (i - a) else p ! i)"
proof (induction xs arbitrary: p a)
  case (Cons x xs)
  then show ?case
    by (auto simp: nth_Cons' nth_list_update Suc_le_eq not_less_eq_eq le_Suc_eq)
qed auto

lemma bslice_length [simp]: "length (bslice p a n) = min n (length p - a)"
  by (simp add: bslice_def)

lemma bslice_nth [simp]: "i < n \<Longrightarrow> a + i < length p \<Longrightarrow> bslice p a n ! i = p ! (a + i)"
  by (simp add: bslice_def)

lemma bslice_put_at_same [simp]:
  "a + length xs \<le> length p \<Longrightarrow> n = length xs \<Longrightarrow> bslice (put_at p a xs) a n = xs"
  by (rule nth_equalityI) (auto simp: put_at_nth)

lemma bslice_put_at_other [simp]:
  "b + n \<le> a \<or> a + length xs \<le> b \<Longrightarrow> a + length xs \<le> length p \<Longrightarrow> b + n \<le> length p \<Longrightarrow>
   bslice (put_at p a xs) b n = bslice p b n"
  by (rule nth_equalityI) (auto simp: put_at_nth)

lemma bslice_append: "bslice p a (m + n) = bslice p a m @ bslice p (a + m) n"
  by (simp add: bslice_def take_add add.commute)

subsection \<open>Go indexing: out of range is a panic (None)\<close>

definition go_get :: "'a list \<Rightarrow> nat \<Rightarrow> 'a option" where
  "go_get xs i = (if i < length xs then Some (xs ! i) else None)"

definition go_set :: "'a list \<Rightarrow> nat \<Rightarrow> 'a \<Rightarrow> 'a list option" where
  "go_set xs i x = (if i < length xs then Some (xs[i := x]) else None)"

text \<open>
  The copy loop \<open>for v = i; v < m; v++ { dst[a+v] = src[b+v] }\<close>.
\<close>

function copy_up :: "'a list \<Rightarrow> nat \<Rightarrow> 'a list \<Rightarrow> nat \<Rightarrow> nat \<Rightarrow> nat \<Rightarrow> 'a list option" where
  "copy_up dst a src b v m =
     (if v < m then do { x \<leftarrow> go_get src (b + v); d \<leftarrow> go_set dst (a + v) x;
                         copy_up d a src b (Suc v) m }
      else Some dst)"
  by pat_completeness auto
termination by (relation "measure (\<lambda>(dst, a, src, b, v, m). m - v)") auto

declare copy_up.simps [simp del]

lemma copy_up_ok:
  "v \<le> m \<Longrightarrow> a + m \<le> length dst \<Longrightarrow> b + m \<le> length src \<Longrightarrow>
   copy_up dst a src b v m = Some (put_at dst (a + v) (bslice src (b + v) (m - v)))"
proof (induction dst a src b v m rule: copy_up.induct)
  case (1 dst a src b v m)
  show ?case
  proof (cases "v < m")
    case True
    then have "bslice src (b + v) (m - v) = src ! (b + v) # bslice src (b + Suc v) (m - Suc v)"
      using 1 by (auto simp: bslice_def Cons_nth_drop_Suc [symmetric] Suc_diff_Suc [symmetric])
    then show ?thesis
      using True 1 by (simp add: copy_up.simps [of dst a src b v m] go_get_def go_set_def)
  next
    case False
    then show ?thesis
      using 1 by (subst copy_up.simps) (simp add: bslice_def)
  qed
qed

lemma copy_up_0:
  "a + m \<le> length dst \<Longrightarrow> b + m \<le> length src \<Longrightarrow>
   copy_up dst a src b 0 m = Some (put_at dst a (bslice src b m))"
  by (simp add: copy_up_ok)

subsection \<open>Words as natural numbers\<close>

lemma unat_and_mask: "unat (w AND mask n :: 'a::len word) = unat w mod 2 ^ n"
  by (metis take_bit_eq_mask unsigned_take_bit_eq take_bit_eq_mod)

lemma unat_and_ffffffff [word_nat]: "unat (w AND 0xffffffff :: u64) = unat w mod 2 ^ 32"
proof -
  have "(0xffffffff :: u64) = mask 32" by (simp add: mask_eq_exp_minus_1)
  then show ?thesis by (simp only: unat_and_mask)
qed

lemma unat_and_3 [word_nat]: "unat (w AND 3 :: u32) = unat w mod 4"
proof -
  have "(3 :: u32) = mask 2" by (simp add: mask_eq_exp_minus_1)
  then show ?thesis by (simp only: unat_and_mask) simp
qed

lemma unat_shr [word_nat]: "unat (drop_bit n w :: 'a::len word) = unat w div 2 ^ n"
  by (simp only: unat_drop_bit_eq) (simp only: drop_bit_eq_div)

lemma u32_less: "unat (w :: u32) < 2 ^ 32"
  using unsigned_less [of w, where ?'a = nat] by simp

lemma unat_up [word_nat]: "unat (ucast (w :: u32) :: u64) = unat w"
  using u32_less [of w] by (simp add: unsigned_ucast_eq take_bit_nat_eq_self)

lemma unat_down [word_nat]: "unat (ucast (w :: u64) :: u32) = unat w mod 2 ^ 32"
  by (simp add: unsigned_ucast_eq take_bit_eq_mod)

lemma unat_add_ok: "unat a + unat b < 2 ^ LENGTH('a) \<Longrightarrow> unat (a + b :: 'a::len word) = unat a + unat b"
  by (simp add: unat_word_ariths)
lemma unat_mult_ok: "unat a * unat b < 2 ^ LENGTH('a) \<Longrightarrow> unat (a * b :: 'a::len word) = unat a * unat b"
  by (simp add: unat_word_ariths)

lemma unat_le_get32: "unat (le_get32 bs) = le_nat [bs!0, bs!1, bs!2, bs!3]"
  unfolding le_get32_of_le by (rule unat_of_le) simp

lemma le_nat_append: "le_nat (xs @ ys) = le_nat xs + 256 ^ length xs * le_nat ys"
  by (induction xs) (auto simp: algebra_simps)

lemma le_nat_zeros [simp]: "le_nat (replicate n 0) = 0"
  by (induction n) auto

lemma unat_le_get32_take: "4 \<le> length bs \<Longrightarrow> unat (le_get32 bs) = le_nat (take 4 bs)"
  using list4_nth [of "take 4 bs"] by (simp only: unat_le_get32) simp

lemma le_nat_to_le: "le_nat (to_le n v) = unat (v :: 'a::len word) mod 256 ^ n"
proof (induction n arbitrary: v)
  case (Suc n)
  have "unat (ucast v :: byte) = unat v mod 256"
    by (simp add: unsigned_ucast_eq take_bit_eq_mod)
  then show ?case
    using mod_mult2_eq [of "unat v" 256 "256 ^ n"] by (simp add: Suc unat_shr)
qed simp

lemma le_nat_inj: "length xs = length ys \<Longrightarrow> le_nat xs = le_nat ys \<Longrightarrow> xs = ys"
proof (induction xs ys rule: list_induct2)
  case (Cons x xs y ys)
  have e: "unat x + 256 * le_nat xs = unat y + 256 * le_nat ys" using Cons.prems by simp
  have "unat x = unat y"
    using arg_cong [OF e, of "\<lambda>n. n mod 256"] byte_unat_less [of x] byte_unat_less [of y] by simp
  with e Cons.IH show ?case by (simp add: word_unat_eq_iff)
qed simp

lemma le_nat_le_put32: "le_nat (le_put32 v) = unat v"
  using u32_less [of v] by (simp add: le_put32_to_le le_nat_to_le)

subsection \<open>Operations that change a state and may fail\<close>

text \<open>
  A method with an error result is a function from the state to a result (\<open>Inl\<close> an error,
  \<open>Inr\<close> a value) and the state it leaves: Go code that returns early with an error keeps the
  changes made before. \<open>op_bind m f\<close> is \<^verbatim>\<open>if err := m(); err != nil { return err }\<close> followed
  by \<open>f\<close>.
\<close>

type_synonym ('s, 'e, 'a) op = "'s \<Rightarrow> ('e + 'a) \<times> 's"

definition op_ret :: "'a \<Rightarrow> ('s, 'e, 'a) op" where
  "op_ret x = (\<lambda>s. (Inr x, s))"

definition op_fail :: "'e \<Rightarrow> ('s, 'e, 'a) op" where
  "op_fail e = (\<lambda>s. (Inl e, s))"

definition op_bind :: "('s, 'e, 'a) op \<Rightarrow> ('a \<Rightarrow> ('s, 'e, 'b) op) \<Rightarrow> ('s, 'e, 'b) op" where
  "op_bind m f = (\<lambda>s. case m s of (Inl e, s') \<Rightarrow> (Inl e, s') | (Inr x, s') \<Rightarrow> f x s')"

lemma op_ret_app [simp]: "op_ret x s = (Inr x, s)"
  by (simp add: op_ret_def)
lemma op_fail_app [simp]: "op_fail e s = (Inl e, s)"
  by (simp add: op_fail_def)
lemma op_bind_Inr: "m s = (Inr x, s') \<Longrightarrow> op_bind m f s = f x s'"
  by (simp add: op_bind_def)
lemma op_bind_Inl: "m s = (Inl e, s') \<Longrightarrow> op_bind m f s = (Inl e, s')"
  by (simp add: op_bind_def)
lemma op_bind_InrE:
  assumes "op_bind m f s = (Inr y, s')"
  obtains x s1 where "m s = (Inr x, s1)" "f x s1 = (Inr y, s')"
  using assms by (auto simp: op_bind_def split: prod.splits sum.splits)

lemma op_bind_cong: "m = m' \<Longrightarrow> (\<And>x s1. m' s = (Inr x, s1) \<Longrightarrow> f x s1 = f' x s1) \<Longrightarrow> op_bind m f s = op_bind m' f' s"
  by (auto simp: op_bind_def split: prod.splits sum.splits)

subsection \<open>Reading what was written\<close>

lemma put_at_append: "a + length xs + length ys \<le> length p \<Longrightarrow>
    put_at (put_at p a xs) (a + length xs) ys = put_at p a (xs @ ys)"
  by (rule nth_equalityI) (auto simp: put_at_nth nth_append)

lemma put_at_0: "length xs \<le> length p \<Longrightarrow> put_at p 0 xs = xs @ drop (length xs) p"
  by (rule nth_equalityI) (auto simp: put_at_nth nth_append)

lemma put_at_all: "length xs = length p \<Longrightarrow> put_at p 0 xs = xs"
  by (simp add: put_at_0)

lemma list_update_put_at: "p[a := x] = put_at p a [x]"
  by simp

end
