(* ===== verification/Poly1305.thy ===== *)
theory Poly1305
  imports C2_Prelude
begin

text \<open>
  The one-time authenticator of \<^verbatim>\<open>src/pkg/c2poly1305/poly1305_gen.go\<close>, which seals every journal
  block, page and archive. The code works on five 32-bit limbs with 64-bit products and delayed
  carries; the model keeps every intermediate at its width. \<open>rfc_poly1305\<close> is the definition of
  RFC 8439 over the natural numbers, and \<open>Crypto_poly1305_rfc\<close> shows that the two agree on every
  key and message: no product or carry overflows and the final conditional subtraction is right.
\<close>

section \<open>The code\<close>

definition P1305 :: nat where
  "P1305 = 2 ^ 130 - 5"

record Crypto_poly1305_ctx =
  pC :: bytes
  pC_idx :: nat
  pR :: "u32 list"
  pPad :: "u32 list"
  pH :: "u32 list"

definition gap :: "u64 \<Rightarrow> u64 \<Rightarrow> u64" where
  "gap x pow_2 = (NOT x + 1) AND (pow_2 - 1)"

function load32_le_buf :: "u32 list \<Rightarrow> bytes \<Rightarrow> nat \<Rightarrow> nat \<Rightarrow> u32 list option" where
  "load32_le_buf dst src v3 sz =
     (if v3 < sz then
        (if v3 * 4 + 4 \<le> length src \<and> v3 < length dst
         then load32_le_buf (dst[v3 := le_get32 (drop (v3 * 4) src)]) src (Suc v3) sz
         else None)
      else Some dst)"
  by pat_completeness auto
termination by (relation "measure (\<lambda>(dst, src, v3, sz). sz - v3)") auto

declare load32_le_buf.simps [simp del]

definition poly_step ::
  "u32 \<times> u32 \<times> u32 \<times> u32 \<Rightarrow> u32 \<Rightarrow> bytes \<Rightarrow> u32 \<times> u32 \<times> u32 \<times> u32 \<times> u32
   \<Rightarrow> u32 \<times> u32 \<times> u32 \<times> u32 \<times> u32" where
  "poly_step = (\<lambda>(v9, v13, v17, v21) end' blk (v42, v46, v50, v54, v58).
     let v27 = ucast (drop_bit 2 (ucast v13 :: u64) + ucast v13) :: u32;
         v31 = ucast (drop_bit 2 (ucast v17 :: u64) + ucast v17) :: u32;
         v35 = ucast (drop_bit 2 (ucast v21 :: u64) + ucast v21) :: u32;
         v41 = v9 AND 3;
         v70 = (ucast v42 :: u64) + ucast (le_get32 blk);
         v77 = (ucast v46 :: u64) + ucast (le_get32 (drop 4 blk));
         v84 = (ucast v50 :: u64) + ucast (le_get32 (drop 8 blk));
         v91 = (ucast v54 :: u64) + ucast (le_get32 (drop 12 blk));
         v95 = v58 + end';
         v105 = (v70 * ucast v9 + v77 * ucast v35) + ((v84 * ucast v31) + (v91 * ucast v27
                  + ucast (v95 * ucast (drop_bit 2 (ucast v9 :: u64) * 5))));
         v115 = (v70 * ucast v13 + v77 * ucast v9) + ((v84 * ucast v35) + (v91 * ucast v31
                  + ucast (v95 * v27)));
         v125 = (v70 * ucast v17 + v77 * ucast v13) + ((v84 * ucast v9) + (v91 * ucast v35
                  + ucast (v95 * v31)));
         v135 = (v70 * ucast v21 + v77 * ucast v17) + ((v84 * ucast v13) + (v91 * ucast v9
                  + ucast (v95 * v35)));
         v138 = ucast ((ucast (v95 * v41) :: u64) + drop_bit 32 v135) :: u32;
         v148 = v105 AND 0xffffffff;
         v149 = (drop_bit 2 (ucast v138 :: u64) * 5) + v148;
         v154 = v115 AND 0xffffffff;
         v158 = (drop_bit 32 v149 + v154) + drop_bit 32 v105;
         v163 = v125 AND 0xffffffff;
         v167 = (drop_bit 32 v158 + v163) + drop_bit 32 v115;
         v172 = v135 AND 0xffffffff;
         v176 = (drop_bit 32 v167 + v172) + drop_bit 32 v125;
         v181 = v138 AND 3
     in (ucast (v149 AND 0xffffffff), ucast (v158 AND 0xffffffff), ucast (v167 AND 0xffffffff),
         ucast (v176 AND 0xffffffff), ucast (drop_bit 32 v176 + (ucast v181 :: u64))))"

fun poly_loop ::
  "u32 \<times> u32 \<times> u32 \<times> u32 \<Rightarrow> u32 \<Rightarrow> bytes \<Rightarrow> nat \<Rightarrow> nat \<Rightarrow> u32 \<times> u32 \<times> u32 \<times> u32 \<times> u32
   \<Rightarrow> (u32 \<times> u32 \<times> u32 \<times> u32 \<times> u32) option" where
  "poly_loop rs end' inp v4 0 h = Some h"
| "poly_loop rs end' inp v4 (Suc k) h =
     (if v4 + 16 \<le> length inp then poly_loop rs end' inp (v4 + 16) k (poly_step rs end' (drop v4 inp) h)
      else None)"

definition poly_blocks ::
  "Crypto_poly1305_ctx \<Rightarrow> bytes \<Rightarrow> nat \<Rightarrow> u32 \<Rightarrow> Crypto_poly1305_ctx option" where
  "poly_blocks ctx inp nb_blocks end' =
     (case (pR ctx, pH ctx) of
        ([r0, r1, r2, r3], [h0, h1, h2, h3, h4]) \<Rightarrow>
          (case poly_loop (r0, r1, r2, r3) end' inp 0 nb_blocks (h0, h1, h2, h3, h4) of
             None \<Rightarrow> None
           | Some (h0', h1', h2', h3', h4') \<Rightarrow> Some (ctx\<lparr>pH := [h0', h1', h2', h3', h4']\<rparr>))
      | _ \<Rightarrow> None)"

definition Crypto_poly1305_init :: "bytes \<Rightarrow> Crypto_poly1305_ctx option" where
  "Crypto_poly1305_init key = do {
     r \<leftarrow> load32_le_buf (replicate 4 0) key 0 4;
     pad \<leftarrow> (if 16 \<le> length key then load32_le_buf (replicate 4 0) (drop 16 key) 0 4 else None);
     Some \<lparr>pC = replicate 16 0, pC_idx = 0,
           pR = [r ! 0 AND 0xfffffff, r ! 1 AND 0xffffffc, r ! 2 AND 0xffffffc, r ! 3 AND 0xffffffc],
           pPad = pad, pH = [0, 0, 0, 0, 0]\<rparr>
   }"

fun poly_fill :: "Crypto_poly1305_ctx \<Rightarrow> bytes \<Rightarrow> nat \<Rightarrow> nat \<Rightarrow> Crypto_poly1305_ctx option" where
  "poly_fill ctx message v3 0 = Some ctx"
| "poly_fill ctx message v3 (Suc k) = do {
     b \<leftarrow> go_get message v3;
     c \<leftarrow> go_set (pC ctx) (pC_idx ctx) b;
     poly_fill (ctx\<lparr>pC := c, pC_idx := pC_idx ctx + 1\<rparr>) message (Suc v3) k
   }"

definition Crypto_poly1305_update ::
  "Crypto_poly1305_ctx \<Rightarrow> bytes \<Rightarrow> nat \<Rightarrow> Crypto_poly1305_ctx option" where
  "Crypto_poly1305_update ctx message message_size =
     (if message_size = 0 then Some ctx
      else let v14 = min (unat (gap (of_nat (pC_idx ctx)) 16)) message_size in do {
        ctx \<leftarrow> poly_fill ctx message 0 v14;
        ctx \<leftarrow> (if pC_idx ctx = 16
                then map_option (pC_idx_update (\<lambda>_. 0)) (poly_blocks ctx (pC ctx) 1 1)
                else Some ctx);
        let size1 = message_size - v14; v40 = size1 div 16 in do {
          ctx \<leftarrow> (if v14 \<le> length message then poly_blocks ctx (drop v14 message) v40 1 else None);
          poly_fill ctx message (v14 + v40 * 16) (size1 mod 16)
        }
      })"

definition poly_carry :: "u32 list \<Rightarrow> u64" where
  "poly_carry h =
     (let c = 5 + ucast (h ! 0); c = drop_bit 32 c + ucast (h ! 1); c = drop_bit 32 c + ucast (h ! 2);
          c = drop_bit 32 c + ucast (h ! 3); c = drop_bit 32 c + ucast (h ! 4)
      in drop_bit 2 c * 5)"

fun poly_emit :: "u64 \<Rightarrow> u32 list \<Rightarrow> u32 list \<Rightarrow> bytes" where
  "poly_emit c (h # hs) (p # ps) =
     (let c' = c + (ucast h + ucast p) in le_put32 (ucast c') @ poly_emit (drop_bit 32 c') hs ps)"
| "poly_emit c _ _ = []"

definition Crypto_poly1305_final :: "Crypto_poly1305_ctx \<Rightarrow> bytes \<Rightarrow> bytes option" where
  "Crypto_poly1305_final ctx mac = do {
     ctx \<leftarrow> (if pC_idx ctx \<noteq> 0
             then if pC_idx ctx < 16
               then let c = (put_at (pC ctx) (pC_idx ctx) (replicate (16 - pC_idx ctx) 0))[pC_idx ctx := 1]
                    in poly_blocks (ctx\<lparr>pC := c\<rparr>) c 1 0
               else None
             else Some ctx);
     (if 16 \<le> length mac
      then Some (put_at mac 0 (poly_emit (poly_carry (pH ctx)) (take 4 (pH ctx)) (pPad ctx)))
      else None)
   }"

definition Crypto_poly1305 :: "bytes \<Rightarrow> bytes \<Rightarrow> nat \<Rightarrow> bytes \<Rightarrow> bytes option" where
  "Crypto_poly1305 mac message message_size key = do {
     ctx \<leftarrow> Crypto_poly1305_init key;
     ctx \<leftarrow> Crypto_poly1305_update ctx message message_size;
     Crypto_poly1305_final ctx mac
   }"

section \<open>The reference of RFC 8439\<close>

definition rfc_clamp :: "bytes \<Rightarrow> bytes" where
  "rfc_clamp k = [k!0, k!1, k!2, k!3 AND 15, k!4 AND 252, k!5, k!6, k!7 AND 15,
                  k!8 AND 252, k!9, k!10, k!11 AND 15, k!12 AND 252, k!13, k!14, k!15 AND 15]"

function rfc_eval :: "nat \<Rightarrow> bytes \<Rightarrow> nat \<Rightarrow> nat" where
  "rfc_eval r msg acc =
     (if msg = [] then acc
      else rfc_eval r (drop 16 msg) (((acc + le_nat (take 16 msg @ [1])) * r) mod P1305))"
  by pat_completeness auto
termination by (relation "measure (\<lambda>(r, msg, acc). length msg)") auto

declare rfc_eval.simps [simp del]

definition rfc_poly1305 :: "bytes \<Rightarrow> bytes \<Rightarrow> bytes" where
  "rfc_poly1305 key msg =
     to_le 16 (of_nat (rfc_eval (le_nat (rfc_clamp key)) msg 0 + le_nat (take 16 (drop 16 key))) :: 128 word)"

section \<open>Reading limbs as numbers\<close>

fun hval :: "u32 \<times> u32 \<times> u32 \<times> u32 \<times> u32 \<Rightarrow> nat" where
  "hval (h0, h1, h2, h3, h4) = unat h0 + 2 ^ 32 * unat h1 + 2 ^ 64 * unat h2 + 2 ^ 96 * unat h3 + 2 ^ 128 * unat h4"

fun rval :: "u32 \<times> u32 \<times> u32 \<times> u32 \<Rightarrow> nat" where
  "rval (r0, r1, r2, r3) = unat r0 + 2 ^ 32 * unat r1 + 2 ^ 64 * unat r2 + 2 ^ 96 * unat r3"

fun r_ok :: "u32 \<times> u32 \<times> u32 \<times> u32 \<Rightarrow> bool" where
  "r_ok (r0, r1, r2, r3) \<longleftrightarrow> unat r0 < 2 ^ 28 \<and> unat r1 < 2 ^ 28 \<and> unat r2 < 2 ^ 28 \<and> unat r3 < 2 ^ 28
     \<and> 4 dvd unat r1 \<and> 4 dvd unat r2 \<and> 4 dvd unat r3"

fun h_ok :: "u32 \<times> u32 \<times> u32 \<times> u32 \<times> u32 \<Rightarrow> bool" where
  "h_ok (h0, h1, h2, h3, h4) \<longleftrightarrow> unat h4 \<le> 4"

definition bval :: "bytes \<Rightarrow> nat" where
  "bval blk = unat (le_get32 blk) + 2 ^ 32 * unat (le_get32 (drop 4 blk)) + 2 ^ 64 * unat (le_get32 (drop 8 blk))
     + 2 ^ 96 * unat (le_get32 (drop 12 blk))"

fun wval :: "u32 list \<Rightarrow> nat" where
  "wval [] = 0"
| "wval (w # ws) = unat w + 2 ^ 32 * wval ws"

definition ctx_ok :: "Crypto_poly1305_ctx \<Rightarrow> u32 \<times> u32 \<times> u32 \<times> u32 \<Rightarrow> u32 \<times> u32 \<times> u32 \<times> u32 \<times> u32 \<Rightarrow> bool" where
  "ctx_ok ctx rs h \<longleftrightarrow> (case rs of (r0, r1, r2, r3) \<Rightarrow> pR ctx = [r0, r1, r2, r3]) \<and>
     (case h of (h0, h1, h2, h3, h4) \<Rightarrow> pH ctx = [h0, h1, h2, h3, h4]) \<and> r_ok rs \<and> h_ok h \<and> length (pC ctx) = 16"

definition limbs :: "u32 \<times> u32 \<times> u32 \<times> u32 \<times> u32 \<Rightarrow> u32 list" where
  "limbs h = (case h of (h0, h1, h2, h3, h4) \<Rightarrow> [h0, h1, h2, h3, h4])"

section \<open>One block\<close>

lemma carry_chain:
  fixes B :: int
  assumes "x0 = B * a0 + b0" "x1 = B * a1 + b1" "x2 = B * a2 + b2" "x3 = B * a3 + b3"
    and "x4 = 4 * c + d - a3"
    and "m0 = 5 * c + b0 - B * q0" "m1 = q0 + b1 + a0 - B * q1"
    and "m2 = q1 + b2 + a1 - B * q2" "m3 = q2 + b3 + a2 - B * q3"
  shows "m0 + B * m1 + B^2 * m2 + B^3 * m3 + B^4 * (q3 + d) + c * (4 * B ^ 4 - 5)
         = x0 + B * x1 + B^2 * x2 + B^3 * x3 + B^4 * x4"
  unfolding assms by algebra

lemma mult_reduce:
  fixes B :: int
  assumes r: "r0 = 4 * t0 + d0" "r1 = 4 * t1" "r2 = 4 * t2" "r3 = 4 * t3"
    and x: "x0 = s0 * r0 + s1 * (5 * t3) + (s2 * (5 * t2) + (s3 * (5 * t1) + s4 * (5 * t0)))"
       "x1 = s0 * r1 + s1 * r0 + (s2 * (5 * t3) + (s3 * (5 * t2) + s4 * (5 * t1)))"
       "x2 = s0 * r2 + s1 * r1 + (s2 * r0 + (s3 * (5 * t3) + s4 * (5 * t2)))"
       "x3 = s0 * r3 + s1 * r2 + (s2 * r1 + (s3 * r0 + s4 * (5 * t3)))"
       "x4 = s4 * d0"
  shows "(s0 + B * s1 + B^2 * s2 + B^3 * s3 + B^4 * s4) * (r0 + B * r1 + B^2 * r2 + B^3 * r3)
     = x0 + B * x1 + B^2 * x2 + B^3 * x3 + B^4 * x4
       + (4 * B ^ 4 - 5) * ((s1 * t3 + s2 * t2 + s3 * t1 + s4 * t0) + B * (s2 * t3 + s3 * t2 + s4 * t1)
            + B^2 * (s3 * t3 + s4 * t2) + B^3 * (s4 * t3))"
  unfolding x r by algebra

lemma prod_bound:
  "unat (s :: u64) \<le> 2 ^ 33 \<Longrightarrow> unat (k :: u64) \<le> 0x14000000 \<Longrightarrow> unat s * unat k \<le> 5 * 2 ^ 59"
  using mult_le_mono [of "unat s" "2 ^ 33" "unat k" "0x14000000"] by simp

lemma prod_ok:
  "unat (s :: u64) \<le> 2 ^ 33 \<Longrightarrow> unat (k :: u64) \<le> 0x14000000 \<Longrightarrow> unat (s * k) = unat s * unat k"
  using prod_bound [of s k] by (intro unat_mult_ok) simp

lemma row_sum:
  fixes s0 s1 s2 s3 k0 k1 k2 k3 z :: u64
  assumes s: "unat s0 \<le> 2 ^ 33" "unat s1 \<le> 2 ^ 33" "unat s2 \<le> 2 ^ 33" "unat s3 \<le> 2 ^ 33"
    and k: "unat k0 \<le> 0x14000000" "unat k1 \<le> 0x14000000" "unat k2 \<le> 0x14000000" "unat k3 \<le> 0x14000000"
    and z: "unat z < 2 ^ 32"
  shows "unat ((s0 * k0 + s1 * k1) + ((s2 * k2) + (s3 * k3 + z)))
     = unat s0 * unat k0 + unat s1 * unat k1 + (unat s2 * unat k2 + (unat s3 * unat k3 + unat z))"
    and "unat ((s0 * k0 + s1 * k1) + ((s2 * k2) + (s3 * k3 + z))) < 5 * 2 ^ 61 + 2 ^ 32"
proof -
  note b = prod_bound [OF s(1) k(1)] prod_bound [OF s(2) k(2)] prod_bound [OF s(3) k(3)] prod_bound [OF s(4) k(4)]
  note e = prod_ok [OF s(1) k(1)] prod_ok [OF s(2) k(2)] prod_ok [OF s(3) k(3)] prod_ok [OF s(4) k(4)]
  have 1: "unat (s0 * k0 + s1 * k1) = unat s0 * unat k0 + unat s1 * unat k1"
    by (subst unat_add_ok) (use b e in simp_all)
  have 2: "unat (s3 * k3 + z) = unat s3 * unat k3 + unat z"
    by (subst unat_add_ok) (use b e z in simp_all)
  have 3: "unat ((s2 * k2) + (s3 * k3 + z)) = unat s2 * unat k2 + (unat s3 * unat k3 + unat z)"
    by (subst unat_add_ok) (use b e z 2 in simp_all)
  show 4: "unat ((s0 * k0 + s1 * k1) + ((s2 * k2) + (s3 * k3 + z)))
     = unat s0 * unat k0 + unat s1 * unat k1 + (unat s2 * unat k2 + (unat s3 * unat k3 + unat z))"
    by (subst unat_add_ok) (use b e z 1 2 3 in simp_all)
  show "unat ((s0 * k0 + s1 * k1) + ((s2 * k2) + (s3 * k3 + z))) < 5 * 2 ^ 61 + 2 ^ 32"
    unfolding 4 using b z by simp
qed






lemma rr_word:
  assumes "unat (r :: u32) < 2 ^ 28" "4 dvd unat r"
  shows "unat (ucast (drop_bit 2 (ucast r :: u64) + ucast r) :: u32) = 5 * (unat r div 4)"
proof -
  have "unat (drop_bit 2 (ucast r :: u64) + ucast r) = unat r div 4 + unat r"
    by (subst unat_add_ok) (use assms in \<open>simp_all add: word_nat\<close>)
  with assms show ?thesis by (auto simp: unat_down)
qed

lemma rr0_word:
  assumes "unat (r :: u32) < 2 ^ 28"
  shows "unat (ucast (drop_bit 2 (ucast r :: u64) * 5) :: u32) = 5 * (unat r div 4)"
proof -
  have "unat (drop_bit 2 (ucast r :: u64) * 5) = (unat r div 4) * 5"
    by (subst unat_mult_ok) (use assms in \<open>simp_all add: word_nat\<close>)
  with assms show ?thesis by (simp add: unat_down)
qed

lemma s_word: "unat ((ucast (h :: u32) :: u64) + ucast (m :: u32)) = unat h + unat m"
  by (subst unat_add_ok) (use u32_less [of h] u32_less [of m] in \<open>simp_all add: word_nat\<close>)

lemma s4_word:
  assumes "unat (s :: u32) \<le> 5" "unat (k :: u32) \<le> 0x14000000"
  shows "unat (s * k) = unat s * unat k"
  using mult_le_mono [OF assms] by (intro unat_mult_ok) simp

lemma carry_nat:
  fixes x0 x1 x2 x3 x4 u0 u1 u2 u3 u5 :: nat
  assumes u5: "u5 = x4 + x3 div 4294967296"
    and u0: "u0 = 5 * (u5 div 4) + x0 mod 4294967296"
    and u1: "u1 = u0 div 4294967296 + x1 mod 4294967296 + x0 div 4294967296"
    and u2: "u2 = u1 div 4294967296 + x2 mod 4294967296 + x1 div 4294967296"
    and u3: "u3 = u2 div 4294967296 + x3 mod 4294967296 + x2 div 4294967296"
  shows "u0 mod 4294967296 + 2 ^ 32 * (u1 mod 4294967296) + 2 ^ 64 * (u2 mod 4294967296)
       + 2 ^ 96 * (u3 mod 4294967296) + 2 ^ 128 * (u3 div 4294967296 + u5 mod 4)
       + (u5 div 4) * (2 ^ 130 - 5)
     = x0 + 2 ^ 32 * x1 + 2 ^ 64 * x2 + 2 ^ 96 * x3 + 2 ^ 128 * x4"
proof -
  let ?B = "4294967296 :: nat"
  have sp: "int n = numeral k * int (n div numeral k) + int (n mod numeral k)" for n :: nat and k
  proof -
    have "int n = int (numeral k * (n div numeral k) + n mod numeral k)" by (simp only: mult_div_mod_eq)
    then show ?thesis by (simp only: of_nat_add of_nat_mult of_nat_numeral)
  qed
  have sm: "int (n mod ?B) = int n - 4294967296 * int (n div ?B)" for n :: nat
    using sp [of n] by (metis add_diff_cancel_left')
  have "int u5 = 4 * int (u5 div 4) + int (u5 mod 4)" by (rule sp)
  then have x4: "int x4 = 4 * int (u5 div 4) + int (u5 mod 4) - int (x3 div ?B)"
    using arg_cong [OF u5, of int] by (simp only: of_nat_add)
  have m0: "int (u0 mod ?B) = 5 * int (u5 div 4) + int (x0 mod ?B) - 4294967296 * int (u0 div ?B)"
    unfolding sm [of u0] using arg_cong [OF u0, of int]
    by (simp only: of_nat_add of_nat_mult of_nat_numeral)
  have m1: "int (u1 mod ?B) = int (u0 div ?B) + int (x1 mod ?B) + int (x0 div ?B) - 4294967296 * int (u1 div ?B)"
    unfolding sm [of u1] using arg_cong [OF u1, of int]
    by (simp only: of_nat_add of_nat_mult of_nat_numeral)
  have m2: "int (u2 mod ?B) = int (u1 div ?B) + int (x2 mod ?B) + int (x1 div ?B) - 4294967296 * int (u2 div ?B)"
    unfolding sm [of u2] using arg_cong [OF u2, of int]
    by (simp only: of_nat_add of_nat_mult of_nat_numeral)
  have m3: "int (u3 mod ?B) = int (u2 div ?B) + int (x3 mod ?B) + int (x2 div ?B) - 4294967296 * int (u3 div ?B)"
    unfolding sm [of u3] using arg_cong [OF u3, of int]
    by (simp only: of_nat_add of_nat_mult of_nat_numeral)
  have k: "int (2 ^ 130 - 5) = 4 * 4294967296 ^ 4 - 5" "int (2 ^ 32) = 4294967296"
    "int (2 ^ 64) = 4294967296 ^ 2" "int (2 ^ 96) = 4294967296 ^ 3" "int (2 ^ 128) = 4294967296 ^ 4"
    by simp_all
  note c = carry_chain [OF sp [of x0] sp [of x1] sp [of x2] sp [of x3] x4 m0 m1 m2 m3]
  show ?thesis
    unfolding of_nat_eq_iff [where 'a = int, symmetric] of_nat_add of_nat_mult k by (rule c)
qed

lemma carry_words:
  fixes x0 x1 x2 x3 :: u64 and x4 :: u32
  assumes x: "unat x0 < 5 * 2 ^ 61 + 2 ^ 32" "unat x1 < 5 * 2 ^ 61 + 2 ^ 32"
      "unat x2 < 5 * 2 ^ 61 + 2 ^ 32" "unat x3 < 5 * 2 ^ 61 + 2 ^ 32" and x4: "unat x4 \<le> 15"
  defines "u5 \<equiv> ucast ((ucast x4 :: u64) + drop_bit 32 x3) :: u32"
  defines "u0 \<equiv> (drop_bit 2 (ucast u5 :: u64) * 5) + (x0 AND 0xffffffff)"
  defines "u1 \<equiv> (drop_bit 32 u0 + (x1 AND 0xffffffff)) + drop_bit 32 x0"
  defines "u2 \<equiv> (drop_bit 32 u1 + (x2 AND 0xffffffff)) + drop_bit 32 x1"
  defines "u3 \<equiv> (drop_bit 32 u2 + (x3 AND 0xffffffff)) + drop_bit 32 x2"
  defines "h \<equiv> (ucast (u0 AND 0xffffffff) :: u32, ucast (u1 AND 0xffffffff) :: u32, ucast (u2 AND 0xffffffff) :: u32,
         ucast (u3 AND 0xffffffff) :: u32, ucast (drop_bit 32 u3 + (ucast (u5 AND 3) :: u64)) :: u32)"
  shows "h_ok h" and "\<exists>c. hval h + c * (2 ^ 130 - 5) =
     unat x0 + 2 ^ 32 * unat x1 + 2 ^ 64 * unat x2 + 2 ^ 96 * unat x3 + 2 ^ 128 * unat x4"
proof -
  let ?B = "4294967296 :: nat"
  have d: "unat x0 div ?B \<le> 5 * 2 ^ 29 + 1" "unat x1 div ?B \<le> 5 * 2 ^ 29 + 1"
    "unat x2 div ?B \<le> 5 * 2 ^ 29 + 1" "unat x3 div ?B \<le> 5 * 2 ^ 29 + 1"
    using x by simp_all
  have "unat ((ucast x4 :: u64) + drop_bit 32 x3) = unat x4 + unat x3 div ?B"
    by (subst unat_add_ok) (use x4 d in \<open>simp_all add: word_nat\<close>)
  then have u5: "unat u5 = unat x4 + unat x3 div ?B"
    using d x4 by (simp add: u5_def word_nat)
  then have u5b: "unat u5 \<le> 5 * 2 ^ 29 + 16" using d x4 by simp
  then have u5c: "unat u5 div 4 \<le> 5 * 2 ^ 27 + 4" by simp
  have "unat (drop_bit 2 (ucast u5 :: u64) * 5) = (unat u5 div 4) * 5"
    by (subst unat_mult_ok) (use u5c in \<open>simp_all add: word_nat\<close>)
  then have u0: "unat u0 = 5 * (unat u5 div 4) + unat x0 mod ?B"
    unfolding u0_def by (subst unat_add_ok) (use u5c in \<open>simp_all add: word_nat\<close>)
  then have u0b: "unat u0 div ?B \<le> 1" using u5c by simp
  have step: "unat ((drop_bit 32 u + (y AND 0xffffffff)) + drop_bit 32 z)
      = unat u div ?B + unat y mod ?B + unat z div ?B"
    and stepb: "(unat u div ?B + unat y mod ?B + unat z div ?B) div ?B \<le> 1"
    if "unat u div ?B \<le> 1" "unat z div ?B \<le> 5 * 2 ^ 29 + 1" for u y z :: u64
  proof -
    have 1: "unat (drop_bit 32 u + (y AND 0xffffffff)) = unat u div ?B + unat y mod ?B"
      by (subst unat_add_ok) (use that in \<open>simp_all add: word_nat\<close>)
    show "unat ((drop_bit 32 u + (y AND 0xffffffff)) + drop_bit 32 z)
      = unat u div ?B + unat y mod ?B + unat z div ?B"
      by (subst unat_add_ok) (use that 1 in \<open>simp_all add: word_nat\<close>)
    show "(unat u div ?B + unat y mod ?B + unat z div ?B) div ?B \<le> 1"
      using that by simp
  qed
  have u1: "unat u1 = unat u0 div ?B + unat x1 mod ?B + unat x0 div ?B"
    unfolding u1_def by (rule step [OF u0b d(1)])
  then have u1b: "unat u1 div ?B \<le> 1" using stepb [OF u0b d(1)] by simp
  have u2: "unat u2 = unat u1 div ?B + unat x2 mod ?B + unat x1 div ?B"
    unfolding u2_def by (rule step [OF u1b d(2)])
  then have u2b: "unat u2 div ?B \<le> 1" using stepb [OF u1b d(2)] by simp
  have u3: "unat u3 = unat u2 div ?B + unat x3 mod ?B + unat x2 div ?B"
    unfolding u3_def by (rule step [OF u2b d(3)])
  then have u3b: "unat u3 div ?B \<le> 1" using stepb [OF u2b d(3)] by simp
  have "unat (drop_bit 32 u3 + (ucast (u5 AND 3) :: u64)) = unat u3 div ?B + unat u5 mod 4"
    by (subst unat_add_ok) (use u3b in \<open>simp_all add: word_nat\<close>)
  moreover have "unat u3 div ?B + unat u5 mod 4 \<le> 4" using u3b by simp
  ultimately have h4: "unat (ucast (drop_bit 32 u3 + (ucast (u5 AND 3) :: u64)) :: u32) = unat u3 div ?B + unat u5 mod 4"
    by (simp add: word_nat)
  show "h_ok h" using h4 u3b by (simp add: h_def)
  have "hval h + (unat u5 div 4) * (2 ^ 130 - 5) =
     unat x0 + 2 ^ 32 * unat x1 + 2 ^ 64 * unat x2 + 2 ^ 96 * unat x3 + 2 ^ 128 * unat x4"
    using carry_nat [OF u5 u0 u1 u2 u3] h4 by (simp add: h_def word_nat)
  then show "\<exists>c. hval h + c * (2 ^ 130 - 5) =
     unat x0 + 2 ^ 32 * unat x1 + 2 ^ 64 * unat x2 + 2 ^ 96 * unat x3 + 2 ^ 128 * unat x4"
    by blast
qed

lemma mult_nat:
  fixes s0 s1 s2 s3 s4 r0 r1 r2 r3 :: nat
  assumes "4 dvd r1" "4 dvd r2" "4 dvd r3"
    and x: "x0 = s0 * r0 + s1 * (5 * (r3 div 4)) + (s2 * (5 * (r2 div 4)) + (s3 * (5 * (r1 div 4)) + s4 * (5 * (r0 div 4))))"
       "x1 = s0 * r1 + s1 * r0 + (s2 * (5 * (r3 div 4)) + (s3 * (5 * (r2 div 4)) + s4 * (5 * (r1 div 4))))"
       "x2 = s0 * r2 + s1 * r1 + (s2 * r0 + (s3 * (5 * (r3 div 4)) + s4 * (5 * (r2 div 4))))"
       "x3 = s0 * r3 + s1 * r2 + (s2 * r1 + (s3 * r0 + s4 * (5 * (r3 div 4))))"
       "x4 = s4 * (r0 mod 4)"
  shows "\<exists>k. (s0 + 2^32 * s1 + 2^64 * s2 + 2^96 * s3 + 2^128 * s4) * (r0 + 2^32 * r1 + 2^64 * r2 + 2^96 * r3)
     = (x0 + 2^32 * x1 + 2^64 * x2 + 2^96 * x3 + 2^128 * x4) + k * (2 ^ 130 - 5)"
proof -
  obtain t1 t2 t3 where t: "r1 = 4 * t1" "r2 = 4 * t2" "r3 = 4 * t3"
    using assms(1-3) by (auto elim!: dvdE)
  have r0: "r0 = 4 * (r0 div 4) + r0 mod 4" by (simp only: mult_div_mod_eq)
  define t0 d0 where "t0 = r0 div 4" and "d0 = r0 mod 4"
  let ?i = "of_nat :: nat \<Rightarrow> int"
  have div4: "4 * t div 4 = t" for t :: nat by simp
  have k: "int (2 ^ 130 - 5) = 4 * 4294967296 ^ 4 - 5" "int (2 ^ 32) = 4294967296"
    "int (2 ^ 64) = 4294967296 ^ 2" "int (2 ^ 96) = 4294967296 ^ 3" "int (2 ^ 128) = 4294967296 ^ 4"
    by simp_all
  have ri: "?i r0 = 4 * ?i t0 + ?i d0" "?i r1 = 4 * ?i t1" "?i r2 = 4 * ?i t2" "?i r3 = 4 * ?i t3"
    using arg_cong [OF r0, of int] t by (simp_all only: t0_def d0_def of_nat_add of_nat_mult of_nat_numeral)
  have xi:
    "?i x0 = ?i s0 * ?i r0 + ?i s1 * (5 * ?i t3) + (?i s2 * (5 * ?i t2) + (?i s3 * (5 * ?i t1) + ?i s4 * (5 * ?i t0)))"
    "?i x1 = ?i s0 * ?i r1 + ?i s1 * ?i r0 + (?i s2 * (5 * ?i t3) + (?i s3 * (5 * ?i t2) + ?i s4 * (5 * ?i t1)))"
    "?i x2 = ?i s0 * ?i r2 + ?i s1 * ?i r1 + (?i s2 * ?i r0 + (?i s3 * (5 * ?i t3) + ?i s4 * (5 * ?i t2)))"
    "?i x3 = ?i s0 * ?i r3 + ?i s1 * ?i r2 + (?i s2 * ?i r1 + (?i s3 * ?i r0 + ?i s4 * (5 * ?i t3)))"
    "?i x4 = ?i s4 * ?i d0"
    by (simp_all only: x t div4 of_nat_add of_nat_mult of_nat_numeral t0_def d0_def)
  let ?k = "(s1 * t3 + s2 * t2 + s3 * t1 + s4 * t0) + 2^32 * (s2 * t3 + s3 * t2 + s4 * t1)
            + 2^64 * (s3 * t3 + s4 * t2) + 2^96 * (s4 * t3)"
  have "(s0 + 2^32 * s1 + 2^64 * s2 + 2^96 * s3 + 2^128 * s4) * (r0 + 2^32 * r1 + 2^64 * r2 + 2^96 * r3)
     = (x0 + 2^32 * x1 + 2^64 * x2 + 2^96 * x3 + 2^128 * x4) + (2 ^ 130 - 5) * ?k"
    unfolding of_nat_eq_iff [where 'a = int, symmetric] of_nat_add of_nat_mult k
    by (rule mult_reduce [OF ri xi])
  then show ?thesis by (metis mult.commute)
qed

lemma div_le_bound: "n < 268435456 \<Longrightarrow> n div 4 \<le> (67108864 :: nat)"
  by simp

lemma poly_step_correct:
  assumes r: "r_ok rs" and h: "h_ok h" and e: "unat e \<le> 1"
  shows "h_ok (poly_step rs e blk h)"
    and "hval (poly_step rs e blk h) mod P1305
       = ((hval h + bval blk + 2 ^ 128 * unat e) * rval rs) mod P1305"
proof -
  obtain r0 r1 r2 r3 where rs: "rs = (r0, r1, r2, r3)" by (cases rs)
  obtain h0 h1 h2 h3 h4 where hs: "h = (h0, h1, h2, h3, h4)" by (cases h)
  note rb = r [unfolded rs r_ok.simps]
  let ?m0 = "le_get32 blk" and ?m1 = "le_get32 (drop 4 blk)" and ?m2 = "le_get32 (drop 8 blk)"
    and ?m3 = "le_get32 (drop 12 blk)"
  define k1 k2 k3 where "k1 = (ucast (drop_bit 2 (ucast r1 :: u64) + ucast r1) :: u32)"
    and "k2 = (ucast (drop_bit 2 (ucast r2 :: u64) + ucast r2) :: u32)"
    and "k3 = (ucast (drop_bit 2 (ucast r3 :: u64) + ucast r3) :: u32)"
  define k0 where "k0 = (ucast (drop_bit 2 (ucast r0 :: u64) * 5) :: u32)"
  define s0 s1 s2 s3 where "s0 = (ucast h0 :: u64) + ucast ?m0" and "s1 = (ucast h1 :: u64) + ucast ?m1"
    and "s2 = (ucast h2 :: u64) + ucast ?m2" and "s3 = (ucast h3 :: u64) + ucast ?m3"
  define s4 where "s4 = h4 + e"
  have kv: "unat k1 = 5 * (unat r1 div 4)" "unat k2 = 5 * (unat r2 div 4)" "unat k3 = 5 * (unat r3 div 4)"
    "unat k0 = 5 * (unat r0 div 4)"
    using rb by (simp_all add: k1_def k2_def k3_def k0_def rr_word rr0_word)
  have kb: "unat k0 \<le> 0x14000000" "unat k1 \<le> 0x14000000" "unat k2 \<le> 0x14000000" "unat k3 \<le> 0x14000000"
    "unat r0 \<le> 0x14000000" "unat r1 \<le> 0x14000000" "unat r2 \<le> 0x14000000" "unat r3 \<le> 0x14000000"
    using rb by (auto simp: kv intro!: div_le_bound)
  have sv: "unat s0 = unat h0 + unat ?m0" "unat s1 = unat h1 + unat ?m1" "unat s2 = unat h2 + unat ?m2"
    "unat s3 = unat h3 + unat ?m3"
    by (simp_all add: s0_def s1_def s2_def s3_def s_word)
  have sb: "unat s0 \<le> 2 ^ 33" "unat s1 \<le> 2 ^ 33" "unat s2 \<le> 2 ^ 33" "unat s3 \<le> 2 ^ 33"
    using u32_less [of h0] u32_less [of h1] u32_less [of h2] u32_less [of h3]
      u32_less [of ?m0] u32_less [of ?m1] u32_less [of ?m2] u32_less [of ?m3] by (simp_all add: sv)
  have s4: "unat s4 = unat h4 + unat e" "unat s4 \<le> 5"
    using h e by (simp_all add: hs s4_def unat_add_ok)
  have wv: "unat (s4 * k) = unat s4 * unat k" if "unat k \<le> 0x14000000" for k
    using s4_word [OF s4(2) that] .
  define x0 x1 x2 x3 where
    "x0 = (s0 * ucast r0 + s1 * ucast k3) + ((s2 * ucast k2) + (s3 * ucast k1 + ucast (s4 * k0)))"
    and "x1 = (s0 * ucast r1 + s1 * ucast r0) + ((s2 * ucast k3) + (s3 * ucast k2 + ucast (s4 * k1)))"
    and "x2 = (s0 * ucast r2 + s1 * ucast r1) + ((s2 * ucast r0) + (s3 * ucast k3 + ucast (s4 * k2)))"
    and "x3 = (s0 * ucast r3 + s1 * ucast r2) + ((s2 * ucast r1) + (s3 * ucast r0 + ucast (s4 * k3)))"
  note row = row_sum [OF sb]
  have xb: "unat x0 < 5 * 2 ^ 61 + 2 ^ 32" "unat x1 < 5 * 2 ^ 61 + 2 ^ 32"
      "unat x2 < 5 * 2 ^ 61 + 2 ^ 32" "unat x3 < 5 * 2 ^ 61 + 2 ^ 32"
    unfolding x0_def x1_def x2_def x3_def by (intro row(2); simp only: kb u32_less unat_up)+
  have xv: "unat x0 = unat s0 * unat r0 + unat s1 * unat k3 + (unat s2 * unat k2 + (unat s3 * unat k1 + unat s4 * unat k0))"
    "unat x1 = unat s0 * unat r1 + unat s1 * unat r0 + (unat s2 * unat k3 + (unat s3 * unat k2 + unat s4 * unat k1))"
    "unat x2 = unat s0 * unat r2 + unat s1 * unat r1 + (unat s2 * unat r0 + (unat s3 * unat k3 + unat s4 * unat k2))"
    "unat x3 = unat s0 * unat r3 + unat s1 * unat r2 + (unat s2 * unat r1 + (unat s3 * unat r0 + unat s4 * unat k3))"
    unfolding x0_def x1_def x2_def x3_def by (subst row(1); (simp only: kb u32_less unat_up)?; simp only: kb wv unat_up)+
  have r3: "unat (r0 AND 3) \<le> 3" using mod_less_divisor [of 4 "unat r0"] by (simp add: unat_and_3)
  have x4: "unat (s4 * (r0 AND 3)) = unat s4 * (unat r0 mod 4)"
    using s4_word [OF s4(2), of "r0 AND 3"] r3 by (simp add: unat_and_3)
  have x4b: "unat (s4 * (r0 AND 3)) \<le> 15"
    using mult_le_mono [OF s4(2) r3] by (simp add: x4 unat_and_3)
  note cw = carry_words [OF xb x4b]
  have ps: "poly_step rs e blk h =
    (let u5 = ucast ((ucast (s4 * (r0 AND 3)) :: u64) + drop_bit 32 x3) :: u32;
         u0 = (drop_bit 2 (ucast u5 :: u64) * 5) + (x0 AND 0xffffffff);
         u1 = (drop_bit 32 u0 + (x1 AND 0xffffffff)) + drop_bit 32 x0;
         u2 = (drop_bit 32 u1 + (x2 AND 0xffffffff)) + drop_bit 32 x1;
         u3 = (drop_bit 32 u2 + (x3 AND 0xffffffff)) + drop_bit 32 x2
     in (ucast (u0 AND 0xffffffff), ucast (u1 AND 0xffffffff), ucast (u2 AND 0xffffffff),
         ucast (u3 AND 0xffffffff), ucast (drop_bit 32 u3 + (ucast (u5 AND 3) :: u64))))"
    unfolding poly_step_def rs hs Let_def prod.case
      x0_def x1_def x2_def x3_def s0_def s1_def s2_def s3_def s4_def k1_def k2_def k3_def k0_def
    by (rule refl)
  show "h_ok (poly_step rs e blk h)" unfolding ps Let_def by (rule cw(1))
  obtain c where c: "hval (poly_step rs e blk h) + c * P1305
      = unat x0 + 2 ^ 32 * unat x1 + 2 ^ 64 * unat x2 + 2 ^ 96 * unat x3 + 2 ^ 128 * (unat s4 * (unat r0 mod 4))"
    using cw(2) unfolding ps Let_def x4 P1305_def by blast
  obtain k where k: "(unat s0 + 2^32 * unat s1 + 2^64 * unat s2 + 2^96 * unat s3 + 2^128 * unat s4)
        * (unat r0 + 2^32 * unat r1 + 2^64 * unat r2 + 2^96 * unat r3)
     = (unat x0 + 2^32 * unat x1 + 2^64 * unat x2 + 2^96 * unat x3 + 2^128 * (unat s4 * (unat r0 mod 4)))
        + k * P1305"
    using mult_nat [of "unat r1" "unat r2" "unat r3", OF _ _ _ xv [unfolded kv] refl, folded P1305_def] rb by blast
  have "(hval h + bval blk + 2 ^ 128 * unat e) * rval rs = hval (poly_step rs e blk h) + (c + k) * P1305"
    using k c [symmetric] sv s4(1) by (simp add: rs hs bval_def algebra_simps)
  then show "hval (poly_step rs e blk h) mod P1305
       = ((hval h + bval blk + 2 ^ 128 * unat e) * rval rs) mod P1305"
    by (simp only: mod_mult_self1)
qed

section \<open>Key set-up and the block loop\<close>

lemma clamp_words:
  "le_get32 bs AND 0xfffffff = le_get32 [bs!0, bs!1, bs!2, bs!3 AND 15]"
  "le_get32 bs AND 0xffffffc = le_get32 [bs!0 AND 252, bs!1, bs!2, bs!3 AND 15]"
proof -
  have m: "(0xfffffff :: u32) = mask 28" "(15 :: byte) = mask 4" "(0xffffffc :: u32) = mask 28 AND NOT (mask 2)"
    "(252 :: byte) = NOT (mask 2)"
    by (simp_all add: mask_eq_exp_minus_1)
  show "le_get32 bs AND 0xfffffff = le_get32 [bs!0, bs!1, bs!2, bs!3 AND 15]"
    unfolding le_get32_def m by (rule bit_word_eqI) (auto simp: bit_simps dest: byte_bit_less)
  show "le_get32 bs AND 0xffffffc = le_get32 [bs!0 AND 252, bs!1, bs!2, bs!3 AND 15]"
    unfolding le_get32_def m by (rule bit_word_eqI) (auto simp: bit_simps dest: byte_bit_less)
qed


lemma load4: "16 \<le> length src \<Longrightarrow> load32_le_buf [a, b, c, d] src 0 4 =
    Some [le_get32 src, le_get32 (drop 4 src), le_get32 (drop 8 src), le_get32 (drop 12 src)]"
  by (simp add: load32_le_buf.simps eval_nat_numeral)




lemma take_16: "take 16 blk = take 4 blk @ take 4 (drop 4 blk) @ take 4 (drop 8 blk) @ take 4 (drop 12 blk)"
  using take_add [of 4 12 blk] take_add [of 4 8 "drop 4 blk"] take_add [of 4 4 "drop 8 blk"]
  by simp

lemma bval_le_nat: "16 \<le> length blk \<Longrightarrow> bval blk = le_nat (take 16 blk)"
  unfolding take_16 by (simp add: bval_def unat_le_get32_take le_nat_append algebra_simps)

lemma rfc_eval_mod: "rfc_eval r msg (acc mod P1305) mod P1305 = rfc_eval r msg acc mod P1305"
proof (cases "msg = []")
  case True then show ?thesis by (simp add: rfc_eval.simps [of r "[]"])
next
  case False
  have "((acc mod P + x) * r) mod P = ((acc + x) * r) mod P" for P x :: nat
    by (metis mod_add_left_eq mod_mult_left_eq)
  with False show ?thesis by (simp only: rfc_eval.simps [of r msg] if_False)
qed

lemma rfc_eval_mod_cong:
  "acc mod P1305 = acc' mod P1305 \<Longrightarrow> rfc_eval r msg acc mod P1305 = rfc_eval r msg acc' mod P1305"
  by (metis rfc_eval_mod)

lemma rfc_eval_append:
  "16 dvd length a \<Longrightarrow> rfc_eval r (a @ b) acc = rfc_eval r b (rfc_eval r a acc)"
proof (induction r a acc rule: rfc_eval.induct)
  case (1 r a acc)
  show ?case
  proof (cases "a = []")
    case True then show ?thesis by (simp add: rfc_eval.simps [of r "[]"])
  next
    case False
    with 1(2) have l: "16 \<le> length a" by (auto intro: dvd_imp_le)
    have "16 dvd length (drop 16 a)" using 1(2) l by simp
    then show ?thesis
      using False l 1(1) by (simp add: rfc_eval.simps [of r "a @ b"] rfc_eval.simps [of r a])
  qed
qed

lemma rfc_eval_less: "acc < P1305 \<Longrightarrow> rfc_eval r msg acc < P1305"
proof (induction r msg acc rule: rfc_eval.induct)
  case (1 r msg acc)
  then show ?case by (subst rfc_eval.simps) (simp add: P1305_def)
qed

lemma rfc_eval_block:
  "length b \<le> 16 \<Longrightarrow> b \<noteq> [] \<Longrightarrow> rfc_eval r b acc = ((acc + le_nat (b @ [1])) * r) mod P1305"
  by (simp add: rfc_eval.simps [of r b] rfc_eval.simps [of r "[]"])

lemma poly_loop_correct:
  assumes "r_ok rs"
  shows "h_ok h \<Longrightarrow> v4 + 16 * k \<le> length inp \<Longrightarrow>
    \<exists>h'. poly_loop rs 1 inp v4 k h = Some h' \<and> h_ok h' \<and>
      hval h' mod P1305 = rfc_eval (rval rs) (bslice inp v4 (16 * k)) (hval h) mod P1305"
proof (induction k arbitrary: h v4)
  case 0
  then show ?case by (simp add: bslice_def rfc_eval.simps [of _ "[]"])
next
  case (Suc k)
  let ?h = "poly_step rs 1 (drop v4 inp) h"
  have hk: "h_ok ?h" using poly_step_correct(1) [OF assms Suc.prems(1)] by simp
  have b: "bval (drop v4 inp) = le_nat (bslice inp v4 16)"
    using Suc.prems by (simp add: bval_le_nat bslice_def)
  have len: "length (bslice inp v4 16) = 16" using Suc.prems by simp
  have ne: "bslice inp v4 16 \<noteq> []" using len by (auto simp del: bslice_length)
  have e: "hval ?h mod P1305 = rfc_eval (rval rs) (bslice inp v4 16) (hval h) mod P1305"
    using poly_step_correct(2) [OF assms Suc.prems(1), of 1 "drop v4 inp"] len b
    by (subst rfc_eval_block) (simp_all add: ne le_nat_append add.assoc)
  obtain h' where h': "poly_loop rs 1 inp (v4 + 16) k ?h = Some h'" "h_ok h'"
    "hval h' mod P1305 = rfc_eval (rval rs) (bslice inp (v4 + 16) (16 * k)) (hval ?h) mod P1305"
    using Suc.IH [OF hk, of "v4 + 16"] Suc.prems by auto
  have "bslice inp v4 (16 * Suc k) = bslice inp v4 16 @ bslice inp (v4 + 16) (16 * k)"
    using bslice_append [of inp v4 16 "16 * k"] by simp
  then have "hval h' mod P1305 = rfc_eval (rval rs) (bslice inp v4 (16 * Suc k)) (hval h) mod P1305"
    using rfc_eval_mod_cong [OF e] h'(3) len by (simp only: rfc_eval_append dvd_refl)
  then show ?case using h'(1,2) Suc.prems by simp
qed

section \<open>Final carry and output\<close>

lemma mod_limb: "0 < B \<Longrightarrow> (a + B * x) mod (B * M) = a mod B + B * ((a div B + x) mod (M :: nat))"
  by (simp only: mod_mult2_eq) (simp add: add.commute)

lemma poly_emit_le_nat:
  "length hs = length ps \<Longrightarrow> unat c < 2 ^ 33 \<Longrightarrow>
   le_nat (poly_emit c hs ps) = (unat c + wval hs + wval ps) mod 2 ^ (32 * length hs)"
proof (induction hs ps arbitrary: c rule: list_induct2)
  case Nil
  then show ?case by simp
next
  case (Cons h hs p ps)
  define c' where "c' = c + (ucast h + ucast p)"
  have c': "unat c' = unat c + (unat h + unat p)"
    using Cons.prems u32_less [of h] u32_less [of p]
    by (simp add: c'_def unat_add_ok unat_up)
  then have d: "unat (drop_bit 32 c') < 2 ^ 33"
    using Cons.prems u32_less [of h] u32_less [of p] by (simp add: unat_shr)
  have "le_nat (poly_emit c (h # hs) (p # ps))
      = unat c' mod 2 ^ 32 + 2 ^ 32 * ((unat c' div 2 ^ 32 + wval hs + wval ps) mod 2 ^ (32 * length hs))"
    using Cons.IH [OF d] by (simp add: c'_def Let_def le_nat_append le_nat_le_put32 unat_down unat_shr)
  also have "\<dots> = (unat c' + 2 ^ 32 * (wval hs + wval ps)) mod (2 ^ 32 * 2 ^ (32 * length hs))"
    by (simp only: mod_limb add.assoc zero_less_power zero_less_numeral)
  finally show ?case by (simp add: c' power_add algebra_simps)
qed

lemma poly_carry_val:
  assumes "unat h4 \<le> 4"
  shows "unat (poly_carry [h0, h1, h2, h3, h4]) = 5 * ((hval (h0, h1, h2, h3, h4) + 5) div 2 ^ 130)"
proof -
  have st: "unat (drop_bit 32 c + ucast (h :: u32) :: u64) = unat c div 2 ^ 32 + unat h" for c h
    using u32_less [of h] unsigned_less [of c, where ?'a = nat]
    by (subst unat_add_ok) (simp_all add: unat_up unat_shr)
  have c0: "unat (5 + ucast h0 :: u64) = 5 + unat h0"
    using u32_less [of h0] by (subst unat_add_ok) (simp_all add: unat_up)
  let ?c = "((((5 + unat h0) div 2 ^ 32 + unat h1) div 2 ^ 32 + unat h2) div 2 ^ 32 + unat h3) div 2 ^ 32 + unat h4"
  have dd: "0 < B \<Longrightarrow> (a + B * x) div B = a div B + x" for a x B :: nat
    by simp
  have limbs: "(a0 + B * (a1 + B * (a2 + B * (a3 + B * a4)))) div (B * B * B * B * 4)
     = ((((a0 div B + a1) div B + a2) div B + a3) div B + a4) div 4" if "0 < B" for a0 a1 a2 a3 a4 B :: nat
    by (simp only: div_mult2_eq dd [OF that] add.assoc [symmetric])
  have "hval (h0, h1, h2, h3, h4) + 5
     = (5 + unat h0) + 2 ^ 32 * (unat h1 + 2 ^ 32 * (unat h2 + 2 ^ 32 * (unat h3 + 2 ^ 32 * unat h4)))"
    by simp
  moreover have "(2 :: nat) ^ 130 = 2 ^ 32 * 2 ^ 32 * 2 ^ 32 * 2 ^ 32 * 4" by simp
  ultimately have q: "(hval (h0, h1, h2, h3, h4) + 5) div 2 ^ 130 = ?c div 4"
    by (simp only: limbs zero_less_power zero_less_numeral)
  have "?c \<le> 5" using assms u32_less [of h1] u32_less [of h2] u32_less [of h3] u32_less [of h0] by simp
  then have "?c div 4 \<le> 1" by simp
  moreover have "poly_carry [h0, h1, h2, h3, h4] = drop_bit 2 (drop_bit 32 (drop_bit 32 (drop_bit 32 (drop_bit 32
      (5 + ucast h0) + ucast h1) + ucast h2) + ucast h3) + ucast h4) * 5"
    by (simp add: poly_carry_def Let_def eval_nat_numeral)
  ultimately have "unat (poly_carry [h0, h1, h2, h3, h4]) = (?c div 4) * 5"
    by (simp only:) (subst unat_mult_ok; simp only: unat_shr st c0; simp)
  then show ?thesis by (simp only: q mult.commute)
qed

lemma poly_fill_ok:
  "pC_idx ctx + k \<le> length (pC ctx) \<Longrightarrow> v3 + k \<le> length message \<Longrightarrow>
   poly_fill ctx message v3 k =
     Some (ctx\<lparr>pC := put_at (pC ctx) (pC_idx ctx) (bslice message v3 k), pC_idx := pC_idx ctx + k\<rparr>)"
proof (induction k arbitrary: ctx v3)
  case 0 then show ?case by (simp add: bslice_def)
next
  case (Suc k)
  then have "bslice message v3 (Suc k) = message ! v3 # bslice message (Suc v3) k"
    by (simp add: bslice_def Cons_nth_drop_Suc [symmetric])
  with Suc show ?case by (simp add: go_get_def go_set_def)
qed



lemma poly_blocks_loop:
  "ctx_ok ctx rs h \<Longrightarrow> poly_blocks ctx inp k e =
     map_option (\<lambda>h'. ctx\<lparr>pH := limbs h'\<rparr>) (poly_loop rs e inp 0 k h)"
  by (cases rs; cases h) (auto simp: poly_blocks_def ctx_ok_def limbs_def split: option.splits)

lemma ctx_ok_pH: "ctx_ok ctx rs h \<Longrightarrow> h_ok h' \<Longrightarrow> ctx_ok (ctx\<lparr>pH := limbs h'\<rparr>) rs h'"
  by (cases rs; cases h; cases h') (auto simp: ctx_ok_def limbs_def)

lemma poly_blocks_full:
  assumes "ctx_ok ctx rs h" "16 * k \<le> length inp"
  shows "\<exists>h'. poly_blocks ctx inp k 1 = Some (ctx\<lparr>pH := limbs h'\<rparr>) \<and> ctx_ok (ctx\<lparr>pH := limbs h'\<rparr>) rs h' \<and>
     hval h' mod P1305 = rfc_eval (rval rs) (take (16 * k) inp) (hval h) mod P1305"
proof -
  have "r_ok rs" "h_ok h" using assms by (auto simp: ctx_ok_def)
  from poly_loop_correct [OF this, of 0 k inp] assms(2) obtain h' where
    "poly_loop rs 1 inp 0 k h = Some h'" "h_ok h'"
    "hval h' mod P1305 = rfc_eval (rval rs) (take (16 * k) inp) (hval h) mod P1305"
    by (auto simp: bslice_def)
  then show ?thesis using assms(1) by (intro exI [of _ h']) (simp add: poly_blocks_loop ctx_ok_pH)
qed

lemma poly_blocks_tail:
  assumes "ctx_ok ctx rs h" "length tail < 16" "tail \<noteq> []"
  shows "\<exists>h'. poly_blocks ctx (tail @ [1] @ replicate (15 - length tail) 0) 1 0 = Some (ctx\<lparr>pH := limbs h'\<rparr>) \<and>
     ctx_ok (ctx\<lparr>pH := limbs h'\<rparr>) rs h' \<and>
     hval h' mod P1305 = rfc_eval (rval rs) tail (hval h) mod P1305"
proof -
  let ?b = "tail @ [1] @ replicate (15 - length tail) 0"
  let ?h = "poly_step rs 0 ?b h"
  have len: "length ?b = 16" using assms(2) by simp
  have ok: "r_ok rs" "h_ok h" using assms by (auto simp: ctx_ok_def)
  have "bval ?b = le_nat (tail @ [1])"
    using len bval_le_nat [of ?b] by (simp add: le_nat_append)
  then have "hval ?h mod P1305 = rfc_eval (rval rs) tail (hval h) mod P1305"
    using poly_step_correct(2) [OF ok, of 0 ?b] assms by (simp add: rfc_eval_block)
  moreover have "h_ok ?h" using poly_step_correct(1) [OF ok, of 0 ?b] by simp
  moreover have "poly_loop rs 0 ?b 0 1 h = Some ?h" using len by simp
  ultimately show ?thesis using assms(1)
    by (intro exI [of _ ?h] conjI) (simp_all only: poly_blocks_loop ctx_ok_pH option.map)
qed

lemma gap_0: "gap 0 16 = 0"
  by (simp add: gap_def)

lemma r_clamp_ok: "r_ok (a AND 0xfffffff, b AND 0xffffffc, c AND 0xffffffc, d AND 0xffffffc)"
proof -
  have m: "(0xfffffff :: u32) = mask 28" "(0xffffffc :: u32) = NOT (mask 2) AND mask 28"
    by (simp_all add: mask_eq_exp_minus_1)
  have 1: "unat (x AND 0xfffffff :: u32) < 2 ^ 28" for x
    unfolding m unat_and_mask by simp
  have 2: "unat (x AND 0xffffffc :: u32) < 2 ^ 28" for x
    unfolding m and.assoc [symmetric] unat_and_mask by simp
  have 3: "4 dvd unat (x AND 0xffffffc :: u32)" for x
  proof -
    have "(x AND 0xffffffc) AND 3 = 0" by (simp add: and.assoc)
    then have "unat ((x AND 0xffffffc) AND 3) = 0" by simp
    then show ?thesis by (simp add: unat_and_3 mod_eq_0_iff_dvd)
  qed
  show ?thesis using 1 2 3 by simp
qed

lemma init_ok:
  assumes "32 \<le> length key"
  shows "\<exists>rs pad. Crypto_poly1305_init key = Some \<lparr>pC = replicate 16 0, pC_idx = 0, pR = (case rs of (a,b,c,d) \<Rightarrow> [a,b,c,d]),
           pPad = pad, pH = [0, 0, 0, 0, 0]\<rparr> \<and> r_ok rs \<and> rval rs = le_nat (rfc_clamp key) \<and>
           length pad = 4 \<and> wval pad = le_nat (take 16 (drop 16 key))"
proof -
  let ?rs = "(le_get32 key AND 0xfffffff, le_get32 (drop 4 key) AND 0xffffffc,
     le_get32 (drop 8 key) AND 0xffffffc, le_get32 (drop 12 key) AND 0xffffffc)"
  let ?k = "drop 16 key"
  let ?pad = "[le_get32 ?k, le_get32 (drop 4 ?k), le_get32 (drop 8 ?k), le_get32 (drop 12 ?k)]"
  have rep: "replicate 4 (0 :: u32) = [0, 0, 0, 0]" by (simp add: eval_nat_numeral)
  have i: "Crypto_poly1305_init key = Some \<lparr>pC = replicate 16 0, pC_idx = 0, pR = (case ?rs of (a,b,c,d) \<Rightarrow> [a,b,c,d]),
           pPad = ?pad, pH = [0, 0, 0, 0, 0]\<rparr>"
    using assms unfolding Crypto_poly1305_init_def rep by (simp add: load4)
  have "rval ?rs = le_nat (rfc_clamp key)"
    using assms by (simp add: clamp_words unat_le_get32 rfc_clamp_def)
  moreover have "wval ?pad = le_nat (take 16 ?k)"
  proof -
    have "16 \<le> length ?k" using assms by simp
    from bval_le_nat [OF this] show ?thesis by (simp add: bval_def)
  qed
  ultimately show ?thesis using i r_clamp_ok by (intro exI [of _ ?rs] exI [of _ ?pad]) auto
qed

lemma poly_emit_length: "length hs = length ps \<Longrightarrow> length (poly_emit c hs ps) = 4 * length hs"
  by (induction c hs ps rule: poly_emit.induct) (auto simp: Let_def)

lemma recombine: "R + 2 ^ 130 * q = H + 5 * q \<Longrightarrow> H = w + 2 ^ 128 * h4 \<Longrightarrow>
    5 * q + w + p + 2 ^ 128 * h4 = R + p + 2 ^ 128 * (4 * q)" for R q H w h4 p :: nat
  by simp

lemma final_reduce:
  assumes "h_ok h" "length pad = 4"
  shows "poly_emit (poly_carry (limbs h)) (take 4 (limbs h)) pad
       = to_le 16 (of_nat (hval h mod P1305 + wval pad) :: 128 word)"
proof -
  obtain h0 h1 h2 h3 h4 where h: "h = (h0, h1, h2, h3, h4)" by (cases h)
  let ?q = "(hval h + 5) div 2 ^ 130"
  let ?w = "wval [h0, h1, h2, h3]"
  have h4: "unat h4 \<le> 4" using assms(1) by (simp add: h)
  have hv: "hval h = ?w + 2 ^ 128 * unat h4" by (simp add: h)
  have "?w < 2 ^ 128"
    using u32_less [of h0] u32_less [of h1] u32_less [of h2] u32_less [of h3] by simp
  then have hb: "hval h < 5 * 2 ^ 128" using h4 hv by simp
  then have q: "?q \<le> 1" by simp
  have c: "unat (poly_carry (limbs h)) = 5 * ?q"
    using poly_carry_val [OF h4] by (simp only: h limbs_def prod.case)
  have red: "hval h mod P1305 + 2 ^ 130 * ?q = hval h + 5 * ?q"
  proof (cases "hval h + 5 < 2 ^ 130")
    case True then show ?thesis by (simp add: P1305_def)
  next
    case False
    with q have "?q = 1" by simp
    moreover have "hval h mod P1305 = hval h - P1305"
      using False hb by (simp add: P1305_def mod_if)
    ultimately show ?thesis using False by (simp add: P1305_def)
  qed
  have four: "length [h0, h1, h2, h3] = length pad" using assms(2) by simp
  have "le_nat (poly_emit (poly_carry (limbs h)) [h0, h1, h2, h3] pad) = (5 * ?q + ?w + wval pad) mod 2 ^ 128"
    using poly_emit_le_nat [OF four, of "poly_carry (limbs h)"] c q by (simp del: wval.simps)
  also have "\<dots> = (5 * ?q + ?w + wval pad + 2 ^ 128 * unat h4) mod 2 ^ 128" by simp
  also have "5 * ?q + ?w + wval pad + 2 ^ 128 * unat h4 = hval h mod P1305 + wval pad + 2 ^ 128 * (4 * ?q)"
    using red hv by (rule recombine)
  also have "(hval h mod P1305 + wval pad + 2 ^ 128 * (4 * ?q)) mod 2 ^ 128 = (hval h mod P1305 + wval pad) mod 2 ^ 128"
    by (rule mod_mult_self2)
  also have "\<dots> = le_nat (to_le 16 (of_nat (hval h mod P1305 + wval pad) :: 128 word))"
    by (simp only: le_nat_to_le unat_of_nat) simp
  finally have "le_nat (poly_emit (poly_carry (limbs h)) [h0, h1, h2, h3] pad)
     = le_nat (to_le 16 (of_nat (hval h mod P1305 + wval pad) :: 128 word))" .
  moreover have "length (poly_emit (poly_carry (limbs h)) [h0, h1, h2, h3] pad) = 16"
    using poly_emit_length [OF four] by simp
  moreover have "take 4 (limbs h) = [h0, h1, h2, h3]" by (simp add: h limbs_def)
  ultimately show ?thesis by (simp add: le_nat_inj)
qed

lemma pad_block:
  assumes "length C = 16" "length tail < 16"
  shows "(put_at (put_at C 0 tail) (length tail) (replicate (16 - length tail) 0))[length tail := 1]
     = tail @ [1] @ replicate (15 - length tail) (0 :: byte)"
  using assms by (intro nth_equalityI) (auto simp: put_at_nth nth_append nth_Cons' nth_list_update)

lemma update_from_start:
  fixes msg :: bytes
  assumes c: "ctx_ok ctx rs (0, 0, 0, 0, 0)" and i: "pC_idx ctx = 0"
  defines "k \<equiv> length msg div 16"
  shows "\<exists>h. Crypto_poly1305_update ctx msg (length msg) =
      Some (ctx\<lparr>pH := limbs h, pC := put_at (pC ctx) 0 (drop (16 * k) msg), pC_idx := length msg mod 16\<rparr>) \<and>
     ctx_ok (ctx\<lparr>pH := limbs h\<rparr>) rs h \<and>
     hval h mod P1305 = rfc_eval (rval rs) (take (16 * k) msg) 0 mod P1305"
proof (cases "msg = []")
  case True
  then show ?thesis using c i
    by (intro exI [of _ "(0, 0, 0, 0, 0)"])
      (auto simp: Crypto_poly1305_update_def k_def ctx_ok_def limbs_def rfc_eval.simps [of _ "[]"])
next
  case False
  have k: "16 * k \<le> length msg" by (simp add: k_def)
  obtain h where h: "poly_blocks ctx msg k 1 = Some (ctx\<lparr>pH := limbs h\<rparr>)"
      "ctx_ok (ctx\<lparr>pH := limbs h\<rparr>) rs h"
      "hval h mod P1305 = rfc_eval (rval rs) (take (16 * k) msg) (hval (0, 0, 0, 0, 0)) mod P1305"
    using poly_blocks_full [OF c k] by blast
  have l: "length (pC ctx) = 16" using c by (auto simp: ctx_ok_def)
  have t: "16 * k + length msg mod 16 = length msg" by (simp add: k_def)
  have "bslice msg (16 * k) (length msg mod 16) = drop (16 * k) msg"
    using t by (simp add: bslice_def)
  then have "poly_fill (ctx\<lparr>pH := limbs h\<rparr>) msg (k * 16) (length msg mod 16)
     = Some (ctx\<lparr>pH := limbs h, pC := put_at (pC ctx) 0 (drop (16 * k) msg), pC_idx := length msg mod 16\<rparr>)"
    using l i t by (subst poly_fill_ok) (auto simp: mult.commute)
  then show ?thesis
    using False i h by (intro exI [of _ h]) (simp add: Crypto_poly1305_update_def gap_0 k_def [symmetric] Let_def)
qed

lemma final_tail:
  assumes c: "ctx_ok (ctx\<lparr>pH := limbs h\<rparr>) rs h" and tl: "length tail < 16" and pad: "length (pPad ctx) = 4"
    and C: "length C = 16" and mac: "16 \<le> length mac"
  shows "Crypto_poly1305_final (ctx\<lparr>pH := limbs h, pC := put_at C 0 tail, pC_idx := length tail\<rparr>) mac
    = Some (put_at mac 0 (to_le 16 (of_nat (rfc_eval (rval rs) tail (hval h) mod P1305 + wval (pPad ctx)) :: 128 word)))"
proof (cases "tail = []")
  case True
  then show ?thesis
    using c pad mac by (simp add: Crypto_poly1305_final_def final_reduce ctx_ok_def rfc_eval.simps [of _ "[]"])
next
  case False
  let ?c = "tail @ [1] @ replicate (15 - length tail) 0"
  have c': "ctx_ok (ctx\<lparr>pH := limbs h, pC_idx := length tail, pC := ?c\<rparr>) rs h"
    using c tl by (auto simp: ctx_ok_def)
  let ?ctx = "ctx\<lparr>pH := limbs h, pC_idx := length tail, pC := ?c\<rparr>"
  obtain h' where h': "poly_blocks ?ctx ?c 1 0 = Some (?ctx\<lparr>pH := limbs h'\<rparr>)"
      "ctx_ok (?ctx\<lparr>pH := limbs h'\<rparr>) rs h'"
      "hval h' mod P1305 = rfc_eval (rval rs) tail (hval h) mod P1305"
    using poly_blocks_tail [OF c' tl False] by blast
  have "h_ok h'" using h'(2) by (simp only: ctx_ok_def)
  then show ?thesis
    using tl False pad mac pad_block [OF C tl] h'(1,3)
    by (simp add: Crypto_poly1305_final_def final_reduce Let_def)
qed

lemma Crypto_poly1305_tag:
  assumes "32 \<le> length key" "16 \<le> length mac"
  shows "Crypto_poly1305 mac msg (length msg) key = Some (put_at mac 0 (rfc_poly1305 key msg))"
proof -
  let ?k = "length msg div 16"
  obtain rs pad where i: "Crypto_poly1305_init key = Some \<lparr>pC = replicate 16 0, pC_idx = 0,
        pR = (case rs of (a,b,c,d) \<Rightarrow> [a,b,c,d]), pPad = pad, pH = [0, 0, 0, 0, 0]\<rparr>"
    and r: "r_ok rs" "rval rs = le_nat (rfc_clamp key)"
    and p: "length pad = 4" "wval pad = le_nat (take 16 (drop 16 key))"
    using init_ok [OF assms(1)] by blast
  let ?c = "\<lparr>pC = replicate 16 0, pC_idx = 0, pR = (case rs of (a,b,c,d) \<Rightarrow> [a,b,c,d]), pPad = pad, pH = [0, 0, 0, 0, 0]\<rparr>"
  have c: "ctx_ok ?c rs (0, 0, 0, 0, 0)" using r by (cases rs) (simp add: ctx_ok_def)
  obtain h where u: "Crypto_poly1305_update ?c msg (length msg) =
      Some (?c\<lparr>pH := limbs h, pC := put_at (replicate 16 0) 0 (drop (16 * ?k) msg), pC_idx := length msg mod 16\<rparr>)"
    and h: "ctx_ok (?c\<lparr>pH := limbs h\<rparr>) rs h"
     "hval h mod P1305 = rfc_eval (rval rs) (take (16 * ?k) msg) 0 mod P1305"
    using update_from_start [OF c, of msg] by auto
  let ?t = "drop (16 * ?k) msg"
  have tl: "length ?t < 16" "length ?t = length msg mod 16"
    using mod_less_divisor [of 16 "length msg"] by (simp_all add: minus_mult_div_eq_mod)
  have d: "16 dvd length (take (16 * ?k) msg)" by (simp add: min_absorb2)
  have "rfc_eval (rval rs) ?t (hval h) mod P1305 = rfc_eval (rval rs) ?t (rfc_eval (rval rs) (take (16 * ?k) msg) 0) mod P1305"
    by (rule rfc_eval_mod_cong [OF h(2)])
  also have "\<dots> = rfc_eval (rval rs) msg 0 mod P1305"
    using rfc_eval_append [OF d, of "rval rs" ?t 0] by simp
  also have "\<dots> = rfc_eval (rval rs) msg 0"
    using rfc_eval_less [of 0 "rval rs" msg] by (simp add: P1305_def)
  finally have e: "rfc_eval (rval rs) ?t (hval h) mod P1305 = rfc_eval (rval rs) msg 0" .
  have "Crypto_poly1305_final (?c\<lparr>pH := limbs h, pC := put_at (replicate 16 0) 0 ?t, pC_idx := length ?t\<rparr>) mac
     = Some (put_at mac 0 (rfc_poly1305 key msg))"
    using final_tail [OF h(1) tl(1) _ _ assms(2), of "replicate 16 0"] p r
    by (simp add: e [unfolded r(2)] rfc_poly1305_def)
  then show ?thesis
    using i u tl(2) by (simp add: Crypto_poly1305_def)
qed

lemma rfc_poly1305_length [simp]: "length (rfc_poly1305 key msg) = 16"
  by (simp add: rfc_poly1305_def)

text \<open>
  C7. The one-shot authenticator computes the RFC 8439 tag: with a 32-byte key and room for 16 bytes it
  never panics and writes, for a message of any length, exactly the tag of the reference
  (clamped \<open>r\<close>, evaluation modulo \<open>2^130 - 5\<close>, addition of \<open>s\<close> modulo \<open>2^128\<close>).
\<close>
theorem Crypto_poly1305_rfc:
  assumes "32 \<le> length key" "16 \<le> length mac"
  shows "Crypto_poly1305 mac msg (length msg) key = Some (put_at mac 0 (rfc_poly1305 key msg))"
  using assms by (rule Crypto_poly1305_tag)

text \<open>The test vector of RFC 8439, section 2.5.2.\<close>
definition rfc_key :: bytes where
  "rfc_key = [0x85, 0xd6, 0xbe, 0x78, 0x57, 0x55, 0x6d, 0x33, 0x7f, 0x44, 0x52, 0xfe, 0x42, 0xd5, 0x06, 0xa8,
     0x01, 0x03, 0x80, 0x8a, 0xfb, 0x0d, 0xb2, 0xfd, 0x4a, 0xbf, 0xf6, 0xaf, 0x41, 0x49, 0xf5, 0x1b]"
definition rfc_msg :: bytes where
  "rfc_msg = [0x43, 0x72, 0x79, 0x70, 0x74, 0x6f, 0x67, 0x72, 0x61, 0x70, 0x68, 0x69, 0x63, 0x20, 0x46, 0x6f,
     0x72, 0x75, 0x6d, 0x20, 0x52, 0x65, 0x73, 0x65, 0x61, 0x72, 0x63, 0x68, 0x20, 0x47, 0x72, 0x6f, 0x75, 0x70]"
definition rfc_tag :: bytes where
  "rfc_tag = [0xa8, 0x06, 0x1d, 0xc1, 0x30, 0x51, 0x36, 0xc6, 0xc2, 0x2b, 0x8b, 0xaf, 0x0c, 0x01, 0x27, 0xa9]"

theorem Crypto_poly1305_rfc_witness:
  "Crypto_poly1305 (replicate 16 0) rfc_msg (length rfc_msg) rfc_key = Some rfc_tag"
proof -
  have "le_nat (rfc_poly1305 rfc_key rfc_msg) = le_nat rfc_tag"
    by (simp add: rfc_poly1305_def le_nat_to_le rfc_clamp_def rfc_key_def rfc_msg_def rfc_tag_def
        rfc_eval.simps P1305_def unat_of_nat)
  then have t: "rfc_poly1305 rfc_key rfc_msg = rfc_tag"
    by (intro le_nat_inj) (simp_all add: rfc_tag_def)
  have "32 \<le> length rfc_key" "16 \<le> length (replicate 16 (0 :: byte))" by (simp_all add: rfc_key_def)
  note e = Crypto_poly1305_rfc [OF this, of rfc_msg]
  have "put_at (replicate 16 0) 0 rfc_tag = rfc_tag" by code_simp
  then show ?thesis using e t by simp
qed

end
