(* ===== verification/Blake3.thy ===== *)
theory Blake3
  imports C2_Prelude
begin

text \<open>
  The hash of \<^verbatim>\<open>src/pkg/blake3\<close>: the scalar compression function of
  \<^verbatim>\<open>blake3archtsim_nosimd_gen.go\<close> and the incremental chunk and subtree stack of
  \<^verbatim>\<open>blake3.go\<close>. The fixed arrays of the code (8 and 16 words, 64 bytes, 54 stack slots)
  are lists of that length; an index outside them and a negative slice bound are panics.
\<close>

section \<open>Compression\<close>

definition BLAKE3ARCHTSIM_IV :: "u32 list" where
  "BLAKE3ARCHTSIM_IV = [0x6A09E667, 0xBB67AE85, 0x3C6EF372, 0xA54FF53A, 0x510E527F, 0x9B05688C,
     0x1F83D9AB, 0x5BE0CD19]"

definition BLAKE3ARCHTSIM_MSG_PERMUTATION :: "nat list" where
  "BLAKE3ARCHTSIM_MSG_PERMUTATION = [2, 6, 3, 10, 7, 0, 4, 13, 1, 11, 12, 5, 9, 14, 15, 8]"

definition blake3archtsim_rotr32 :: "u32 \<Rightarrow> nat \<Rightarrow> u32" where
  "blake3archtsim_rotr32 w c = word_rotl (32 - c) w"

definition blake3archtsim_g ::
  "u32 list \<Rightarrow> nat \<Rightarrow> nat \<Rightarrow> nat \<Rightarrow> nat \<Rightarrow> u32 \<Rightarrow> u32 \<Rightarrow> u32 list" where
  "blake3archtsim_g state a b c d mx my =
     (let s = state[a := (state ! a + state ! b) + mx];
          s = s[d := blake3archtsim_rotr32 (s ! d XOR s ! a) 16];
          s = s[c := s ! c + s ! d];
          s = s[b := blake3archtsim_rotr32 (s ! b XOR s ! c) 12];
          s = s[a := (s ! a + s ! b) + my];
          s = s[d := blake3archtsim_rotr32 (s ! d XOR s ! a) 8];
          s = s[c := s ! c + s ! d];
          s = s[b := blake3archtsim_rotr32 (s ! b XOR s ! c) 7]
      in s)"

definition blake3_round :: "u32 list \<Rightarrow> u32 list \<Rightarrow> u32 list" where
  "blake3_round v8 v9 =
     (let v8 = blake3archtsim_g v8 0 4 8 12 (v9 ! 0) (v9 ! 1);
          v8 = blake3archtsim_g v8 1 5 9 13 (v9 ! 2) (v9 ! 3);
          v8 = blake3archtsim_g v8 2 6 10 14 (v9 ! 4) (v9 ! 5);
          v8 = blake3archtsim_g v8 3 7 11 15 (v9 ! 6) (v9 ! 7);
          v8 = blake3archtsim_g v8 0 5 10 15 (v9 ! 8) (v9 ! 9);
          v8 = blake3archtsim_g v8 1 6 11 12 (v9 ! 10) (v9 ! 11);
          v8 = blake3archtsim_g v8 2 7 8 13 (v9 ! 12) (v9 ! 13);
          v8 = blake3archtsim_g v8 3 4 9 14 (v9 ! 14) (v9 ! 15)
      in v8)"

fun blake3_rounds :: "nat \<Rightarrow> u32 list \<Rightarrow> u32 list \<Rightarrow> u32 list" where
  "blake3_rounds 0 v8 v9 = v8"
| "blake3_rounds (Suc k) v8 v9 =
     blake3_rounds k (blake3_round v8 v9) (map (\<lambda>i. v9 ! i) BLAKE3ARCHTSIM_MSG_PERMUTATION)"

definition Blake3archtsim_compress ::
  "u32 list \<Rightarrow> bytes \<Rightarrow> byte \<Rightarrow> u64 \<Rightarrow> byte \<Rightarrow> u32 list" where
  "Blake3archtsim_compress cv block block_len counter flags =
     (let v8 = take 8 cv @ take 4 BLAKE3ARCHTSIM_IV @
            [ucast counter, ucast (drop_bit 32 counter), ucast block_len, ucast flags];
          v9 = map (\<lambda>i. le_get32 (drop (i * 4) block)) [0..<16];
          v8 = blake3_rounds 7 v8 v9
      in map (\<lambda>i. v8 ! i XOR v8 ! (i + 8)) [0..<8] @ map (\<lambda>i. v8 ! (i + 8) XOR cv ! i) [0..<8])"

section \<open>The incremental hasher\<close>

definition ChunkStart :: byte where
  [simp]: "ChunkStart = 1"
definition ChunkEnd :: byte where
  [simp]: "ChunkEnd = 2"
definition Parent :: byte where
  [simp]: "Parent = 4"
definition Root :: byte where
  [simp]: "Root = 8"
definition DeriveKeyContext :: byte where
  [simp]: "DeriveKeyContext = 32"
definition DeriveKeyMaterial :: byte where
  [simp]: "DeriveKeyMaterial = 64"

record chunkState =
  ccv :: "u32 list"
  chunkCounter :: u64
  cbuf :: bytes
  bufLen :: nat
  blocksCompressed :: nat
  cflags :: byte

record Digest =
  keyWords :: "u32 list"
  hasherFlags :: byte
  dstack :: "u32 list list"
  stackLen :: nat
  dchunk :: chunkState

definition wordsFromKey :: "bytes \<Rightarrow> u32 list" where
  "wordsFromKey key = map (\<lambda>i. le_get32 (drop (i * 4) key)) [0..<8]"

definition Digest_init :: "u32 list \<Rightarrow> byte \<Rightarrow> Digest" where
  "Digest_init kw fl =
     \<lparr>keyWords = kw, hasherFlags = fl, dstack = replicate 54 (replicate 8 0), stackLen = 0,
      dchunk = \<lparr>ccv = kw, chunkCounter = 0, cbuf = replicate 64 0, bufLen = 0,
                blocksCompressed = 0, cflags = fl\<rparr>\<rparr>"

definition Digest_Reset :: Digest where
  "Digest_Reset = Digest_init BLAKE3ARCHTSIM_IV 0"

definition chunk_output :: "chunkState \<Rightarrow> u32 list" where
  "chunk_output c =
     (let flags = cflags c OR ChunkEnd;
          flags = (if blocksCompressed c = 0 then flags OR ChunkStart else flags)
      in take 8 (Blake3archtsim_compress (ccv c) (cbuf c) (of_nat (bufLen c)) (chunkCounter c) flags))"

definition makeParentBlock :: "u32 list \<Rightarrow> u32 list \<Rightarrow> bytes" where
  "makeParentBlock l r = concat (map le_put32 (take 8 l)) @ concat (map le_put32 (take 8 r))"

text \<open>
  The merge loop of \<^verbatim>\<open>pushStack\<close>: while the chunk count is even, pop a subtree. The loop runs
  at most 64 times (the count is a 64-bit word and not zero, or the stack runs out and the
  index is a panic).
\<close>

function push_merge :: "Digest \<Rightarrow> nat \<Rightarrow> u32 list \<Rightarrow> (Digest \<times> u32 list) option" where
  "push_merge d totalChunks cv =
     (if even totalChunks then
        (if 0 < stackLen d then
           let parentBlock = makeParentBlock (dstack d ! (stackLen d - 1)) cv;
               parentOut = Blake3archtsim_compress (keyWords d) parentBlock 64 0 (Parent OR hasherFlags d)
           in push_merge (d\<lparr>stackLen := stackLen d - 1\<rparr>) (totalChunks div 2) (take 8 parentOut)
         else None)
      else Some (d, cv))"
  by pat_completeness auto
termination by (relation "measure (\<lambda>(d, t, cv). stackLen d)") auto

declare push_merge.simps [simp del]

definition pushStack :: "Digest \<Rightarrow> u32 list \<Rightarrow> Digest option" where
  "pushStack d cv = do {
     (d, cv) \<leftarrow> push_merge d (unat (chunkCounter (dchunk d) + 1)) cv;
     st \<leftarrow> go_set (dstack d) (stackLen d) cv;
     Some (d\<lparr>dstack := st, stackLen := stackLen d + 1\<rparr>)
   }"

definition flush_block :: "Digest \<Rightarrow> Digest option" where
  "flush_block d =
     (let c = dchunk d in
      if bufLen c = 64 then
        (if blocksCompressed c = 15 then do {
           d \<leftarrow> pushStack d (chunk_output c);
           Some (d\<lparr>dchunk := \<lparr>ccv = keyWords d, chunkCounter = chunkCounter c + 1,
                     cbuf = replicate 64 0, bufLen = 0, blocksCompressed = 0,
                     cflags = hasherFlags d\<rparr>\<rparr>)
         }
         else
           let flags = (if blocksCompressed c = 0 then cflags c OR ChunkStart else cflags c);
               out = Blake3archtsim_compress (ccv c) (cbuf c) 64 (chunkCounter c) flags
           in Some (d\<lparr>dchunk := c\<lparr>ccv := take 8 out, blocksCompressed := blocksCompressed c + 1,
                     bufLen := 0, cbuf := replicate 64 0\<rparr>\<rparr>))
      else Some d)"

function Digest_Write :: "Digest \<Rightarrow> bytes \<Rightarrow> Digest option" where
  "Digest_Write d p =
     (if p = [] then Some d
      else case flush_block d of
        None \<Rightarrow> None
      | Some d' \<Rightarrow>
          if bufLen (dchunk d') < 64 then
            let c = dchunk d'; want = min (64 - bufLen c) (length p)
            in Digest_Write (d'\<lparr>dchunk := c\<lparr>cbuf := put_at (cbuf c) (bufLen c) (take want p),
                                            bufLen := bufLen c + want\<rparr>\<rparr>) (drop want p)
          else None)"
  by pat_completeness auto
termination by (relation "measure (\<lambda>(d, p). length p)") auto

declare Digest_Write.simps [simp del]

function sum_merge :: "Digest \<Rightarrow> u32 list \<Rightarrow> u32 list" where
  "sum_merge d cv =
     (if 0 < stackLen d then
        let parentBlock = makeParentBlock (dstack d ! (stackLen d - 1)) cv;
            flags = Parent OR hasherFlags d;
            flags = (if stackLen d - 1 = 0 then flags OR Root else flags)
        in sum_merge (d\<lparr>stackLen := stackLen d - 1\<rparr>)
             (take 8 (Blake3archtsim_compress (keyWords d) parentBlock 64 0 flags))
      else cv)"
  by pat_completeness auto
termination by (relation "measure (\<lambda>(d, cv). stackLen d)") auto

declare sum_merge.simps [simp del]

definition Digest_SumFinal :: "Digest \<Rightarrow> bytes" where
  "Digest_SumFinal d =
     (let c = dchunk d in
      if stackLen d = 0 then
        let flags = cflags c OR ChunkEnd OR Root;
            flags = (if blocksCompressed c = 0 then flags OR ChunkStart else flags)
        in concat (map le_put32 (take 8
             (Blake3archtsim_compress (ccv c) (cbuf c) (of_nat (bufLen c)) (chunkCounter c) flags)))
      else concat (map le_put32 (take 8 (sum_merge d (chunk_output c)))))"

definition Sum256 :: "bytes \<Rightarrow> bytes option" where
  "Sum256 data = map_option Digest_SumFinal (Digest_Write Digest_Reset data)"

definition DeriveKey :: "bytes \<Rightarrow> bytes \<Rightarrow> bytes option" where
  "DeriveKey context keyMaterial = do {
     ctx \<leftarrow> Digest_Write (Digest_init BLAKE3ARCHTSIM_IV DeriveKeyContext) context;
     mat \<leftarrow> Digest_Write (Digest_init (wordsFromKey (Digest_SumFinal ctx)) DeriveKeyMaterial) keyMaterial;
     Some (Digest_SumFinal mat)
   }"

section \<open>The tree hash\<close>

definition pad64 :: "bytes \<Rightarrow> bytes" where
  "pad64 bs = bs @ replicate (64 - length bs) 0"

function spec_chunk :: "u32 list \<Rightarrow> u64 \<Rightarrow> byte \<Rightarrow> byte \<Rightarrow> byte \<Rightarrow> bytes \<Rightarrow> u32 list" where
  "spec_chunk cv ctr fl start xf bs =
     (if length bs \<le> 64
      then take 8 (Blake3archtsim_compress cv (pad64 bs) (of_nat (length bs)) ctr (fl OR ChunkEnd OR xf OR start))
      else spec_chunk (take 8 (Blake3archtsim_compress cv (take 64 bs) 64 ctr (fl OR start))) ctr fl 0 xf (drop 64 bs))"
  by pat_completeness auto
termination by (relation "measure (\<lambda>(cv, ctr, fl, start, xf, bs). length bs)") auto

declare spec_chunk.simps [simp del]

definition spec_leaf :: "u32 list \<Rightarrow> byte \<Rightarrow> byte \<Rightarrow> bytes \<Rightarrow> nat \<Rightarrow> u32 list" where
  "spec_leaf key fl xf bs i = spec_chunk key (of_nat i) fl ChunkStart xf (bslice bs (1024 * i) 1024)"

definition spec_parent :: "u32 list \<Rightarrow> byte \<Rightarrow> u32 list \<Rightarrow> u32 list \<Rightarrow> u32 list" where
  "spec_parent key fl l r = take 8 (Blake3archtsim_compress key (makeParentBlock l r) 64 0 fl)"

fun lp2 :: "nat \<Rightarrow> nat" where
  "lp2 n = (if n < 2 then 1 else 2 * lp2 (n div 2))"

declare lp2.simps [simp del]

lemma lp2_le: "0 < n \<Longrightarrow> lp2 n \<le> n"
proof (induction n rule: lp2.induct)
  case (1 n)
  show ?case
  proof (cases "n < 2")
    case True then show ?thesis using 1 by (subst lp2.simps) simp
  next
    case False
    then have "lp2 (n div 2) \<le> n div 2" using 1 by simp
    then show ?thesis using False by (subst lp2.simps) simp
  qed
qed

lemma lp2_pos: "0 < lp2 n"
  by (induction n rule: lp2.induct) (subst lp2.simps, simp)

text \<open>The left subtree holds the largest power of two of chunks that leaves one for the right.\<close>

function spec_tree :: "(nat \<Rightarrow> u32 list) \<Rightarrow> (byte \<Rightarrow> u32 list \<Rightarrow> u32 list \<Rightarrow> u32 list) \<Rightarrow> byte \<Rightarrow> nat \<Rightarrow> nat \<Rightarrow> u32 list" where
  "spec_tree leaf par xf lo n =
     (if n \<le> 1 then leaf lo
      else let p = lp2 (n - 1)
           in par xf (spec_tree leaf par 0 lo p) (spec_tree leaf par 0 (lo + p) (n - p)))"
  by pat_completeness auto
termination
proof (relation "measure (\<lambda>(leaf, par, xf, lo, n). n)")
  fix leaf :: "nat \<Rightarrow> u32 list" and par :: "byte \<Rightarrow> u32 list \<Rightarrow> u32 list \<Rightarrow> u32 list" and xf :: byte and lo n p :: nat
  assume n: "\<not> n \<le> 1" and p: "p = lp2 (n - 1)"
  have "p \<le> n - 1" using lp2_le [of "n - 1"] n p by simp
  then show "((leaf, par, 0, lo, p), (leaf, par, xf, lo, n)) \<in> measure (\<lambda>(leaf, par, xf, lo, n). n)"
    using n by simp
  show "((leaf, par, 0, lo + p, n - p), (leaf, par, xf, lo, n)) \<in> measure (\<lambda>(leaf, par, xf, lo, n). n)"
    using n p lp2_pos [of "n - 1"] by simp
qed auto

declare spec_tree.simps [simp del]

definition spec_chunks :: "bytes \<Rightarrow> nat" where
  "spec_chunks bs = (if bs = [] then 1 else (length bs - 1) div 1024 + 1)"

definition blake3_spec :: "u32 list \<Rightarrow> byte \<Rightarrow> bytes \<Rightarrow> bytes" where
  "blake3_spec key fl bs = concat (map le_put32
     (if spec_chunks bs = 1 then spec_leaf key fl Root bs 0
      else spec_tree (spec_leaf key fl 0 bs) (\<lambda>xf. spec_parent key (Parent OR fl OR xf)) Root 0 (spec_chunks bs)))"

section \<open>Complete subtrees and the stack they form\<close>

fun ctree :: "(nat \<Rightarrow> 'a) \<Rightarrow> ('a \<Rightarrow> 'a \<Rightarrow> 'a) \<Rightarrow> nat \<Rightarrow> nat \<Rightarrow> 'a" where
  "ctree leaf par 0 i = leaf i"
| "ctree leaf par (Suc j) i = par (ctree leaf par j (2 * i)) (ctree leaf par j (2 * i + 1))"

fun cstack :: "(nat \<Rightarrow> 'a) \<Rightarrow> ('a \<Rightarrow> 'a \<Rightarrow> 'a) \<Rightarrow> nat \<Rightarrow> nat \<Rightarrow> 'a list" where
  "cstack leaf par j n =
     (if n = 0 then [] else cstack leaf par (Suc j) (n div 2) @ (if odd n then [ctree leaf par j (n - 1)] else []))"

declare cstack.simps [simp del]

lemma cstack_zero [simp]: "cstack leaf par j 0 = []"
  by (simp add: cstack.simps [of leaf par j 0])

lemma cstack_even: "even n \<Longrightarrow> cstack leaf par j n = cstack leaf par (Suc j) (n div 2)"
  by (cases "n = 0") (simp_all add: cstack.simps [of leaf par j n])

lemma cstack_odd:
  "odd n \<Longrightarrow> cstack leaf par j n = cstack leaf par (Suc j) (n div 2) @ [ctree leaf par j (n - 1)]"
  using cstack.simps [of leaf par j n] by (auto elim: oddE)

lemma cstack_length: "n < 2 ^ k \<Longrightarrow> length (cstack leaf par j n) \<le> k"
proof (induction k arbitrary: j n)
  case 0 then show ?case by simp
next
  case (Suc k)
  then have "length (cstack leaf par (Suc j) (n div 2)) \<le> k" by simp
  then show ?case by (cases "odd n") (simp_all add: cstack_even cstack_odd)
qed

lemma cstack_0: "cstack leaf par j n = [] \<longleftrightarrow> n = 0"
proof (induction n arbitrary: j rule: less_induct)
  case (less n)
  consider "n = 0" | "odd n" | "even n" "n \<noteq> 0" by blast
  then show ?case
  proof cases
    case 2 then show ?thesis by (auto simp: cstack_odd intro: odd_pos)
  next
    case 3
    then have "n div 2 < n" "n div 2 \<noteq> 0" by (auto elim: evenE)
    then show ?thesis using less [of "n div 2" "Suc j"] 3 by (simp add: cstack_even)
  qed simp
qed

lemma lp2_eq: "0 < r \<Longrightarrow> r \<le> 2 ^ j \<Longrightarrow> lp2 (2 ^ j + r - 1) = 2 ^ j"
proof (induction j arbitrary: r)
  case 0 then show ?case by (subst lp2.simps) simp
next
  case (Suc j)
  have d: "(2 ^ Suc j + r - 1) div 2 = 2 ^ j + (r + 1) div 2 - 1" using Suc.prems by simp
  have "lp2 (2 ^ j + (r + 1) div 2 - 1) = 2 ^ j"
    using Suc.prems by (intro Suc.IH) auto
  moreover have "(2 :: nat) \<le> 2 ^ Suc j" by simp
  then have "\<not> 2 ^ Suc j + r - 1 < 2" using Suc.prems by linarith
  ultimately show ?case using lp2.simps [of "2 ^ Suc j + r - 1"] d by simp
qed

lemma spec_tree_join:
  assumes "0 < r" "r \<le> 2 ^ j"
  shows "spec_tree leaf par xf lo (2 ^ j + r) = par xf (spec_tree leaf par 0 lo (2 ^ j)) (spec_tree leaf par 0 (lo + 2 ^ j) r)"
proof -
  have "\<not> 2 ^ j + r \<le> 1" using assms(1) one_le_power [of "2 :: nat" j] by linarith
  then show ?thesis using lp2_eq [OF assms] by (subst spec_tree.simps) (simp add: Let_def)
qed

lemma spec_tree_complete: "spec_tree leaf par 0 (i * 2 ^ j) (2 ^ j) = ctree leaf (par 0) j i"
proof (induction j arbitrary: i)
  case 0 then show ?case by (simp add: spec_tree.simps)
next
  case (Suc j)
  have "spec_tree leaf par 0 (i * 2 ^ Suc j) (2 ^ Suc j)
      = par 0 (spec_tree leaf par 0 ((2 * i) * 2 ^ j) (2 ^ j)) (spec_tree leaf par 0 ((2 * i + 1) * 2 ^ j) (2 ^ j))"
    using spec_tree_join [of "2 ^ j" j leaf par 0 "i * 2 ^ Suc j"] by (simp add: algebra_simps mult_2)
  then show ?case by (simp only: Suc ctree.simps)
qed


lemma ctree_cong: "(\<And>k. k < (i + 1) * 2 ^ j \<Longrightarrow> f k = g k) \<Longrightarrow> ctree f par j i = ctree g par j i"
proof (induction j arbitrary: i)
  case (Suc j)
  have "ctree f par j (2 * i) = ctree g par j (2 * i)"
    using Suc.prems by (intro Suc.IH) simp
  moreover have "ctree f par j (2 * i + 1) = ctree g par j (2 * i + 1)"
    using Suc.prems by (intro Suc.IH) simp
  ultimately show ?case by simp
qed simp

lemma cstack_cong: "(\<And>k. k < n * 2 ^ j \<Longrightarrow> f k = g k) \<Longrightarrow> cstack f par j n = cstack g par j n"
proof (induction n arbitrary: j rule: less_induct)
  case (less n)
  show ?case
  proof (cases "n = 0")
    case False
    have le: "n div 2 * 2 ^ Suc j \<le> n * 2 ^ j"
      using mult_le_mono1 [of "n div 2 * 2" n "2 ^ j"] by (simp add: mult.assoc)
    have "cstack f par (Suc j) (n div 2) = cstack g par (Suc j) (n div 2)"
    proof (rule less.IH)
      show "n div 2 < n" using False by simp
      fix k :: nat assume "k < n div 2 * 2 ^ Suc j"
      then have "k < n * 2 ^ j" using le by (rule less_le_trans)
      then show "f k = g k" by (rule less.prems)
    qed
    moreover have "odd n \<Longrightarrow> ctree f par j (n - 1) = ctree g par j (n - 1)"
      using less.prems False by (intro ctree_cong) simp
    ultimately show ?thesis by (cases "even n") (simp_all add: cstack_even cstack_odd)
  qed simp
qed

section \<open>The subtree stack\<close>

lemma push_merge_ok:
  "take (stackLen d) (dstack d) = cstack leaf (spec_parent (keyWords d) (Parent OR hasherFlags d)) j n \<Longrightarrow>
   stackLen d \<le> length (dstack d) \<Longrightarrow>
   \<exists>k cv. push_merge d (n + 1) (ctree leaf (spec_parent (keyWords d) (Parent OR hasherFlags d)) j n)
        = Some (d\<lparr>stackLen := k\<rparr>, cv) \<and> k \<le> stackLen d \<and>
      take k (dstack d) @ [cv] = cstack leaf (spec_parent (keyWords d) (Parent OR hasherFlags d)) j (n + 1)"
proof (induction n arbitrary: j d rule: less_induct)
  case (less n)
  let ?par = "spec_parent (keyWords d) (Parent OR hasherFlags d)"
  show ?case
  proof (cases "even n")
    case True
    then show ?thesis
      using less.prems by (intro exI [of _ "stackLen d"]) (simp add: push_merge.simps cstack_odd cstack_even)
  next
    case False
    let ?k = "stackLen d - 1"
    have st: "take (stackLen d) (dstack d) = cstack leaf ?par (Suc j) (n div 2) @ [ctree leaf ?par j (n - 1)]"
      using less.prems False by (simp add: cstack_odd)
    then have pos: "0 < stackLen d" by (cases "stackLen d") auto
    then have split: "take (stackLen d) (dstack d) = take ?k (dstack d) @ [dstack d ! ?k]"
      using less.prems(2) take_Suc_conv_app_nth [of ?k "dstack d"] by simp
    have top: "dstack d ! ?k = ctree leaf ?par j (n - 1)" and
      rest: "take ?k (dstack d) = cstack leaf ?par (Suc j) (n div 2)"
      using st split by simp_all
    have cv: "?par (ctree leaf ?par j (n - 1)) (ctree leaf ?par j n) = ctree leaf ?par (Suc j) (n div 2)"
      using False by simp
    have "push_merge d (n + 1) (ctree leaf ?par j n)
        = push_merge (d\<lparr>stackLen := ?k\<rparr>) (n div 2 + 1) (ctree leaf ?par (Suc j) (n div 2))"
      using False pos top cv
      by (subst push_merge.simps) (simp add: Let_def spec_parent_def)
    moreover have "n div 2 < n" "?k \<le> length (dstack d)" using False less.prems(2) by (cases n; simp)+
    then obtain k cv where "push_merge (d\<lparr>stackLen := ?k\<rparr>) (n div 2 + 1) (ctree leaf ?par (Suc j) (n div 2))
          = Some (d\<lparr>stackLen := k\<rparr>, cv)" "k \<le> ?k"
        "take k (dstack d) @ [cv] = cstack leaf ?par (Suc j) (n div 2 + 1)"
      using less.IH [of "n div 2" "d\<lparr>stackLen := ?k\<rparr>" "Suc j"] rest by auto
    moreover have "cstack leaf ?par j (n + 1) = cstack leaf ?par (Suc j) (n div 2 + 1)"
      using False by (simp add: cstack_even [of "Suc n"])
    ultimately show ?thesis by (intro exI [of _ k] exI [of _ cv]) simp
  qed
qed

lemma sum_merge_ok:
  "take (stackLen d) (dstack d) = cstack leaf (par 0) j n \<Longrightarrow> 0 < n \<Longrightarrow> stackLen d \<le> length (dstack d) \<Longrightarrow>
   (\<And>xf l r. par xf l r = spec_parent (keyWords d) (Parent OR hasherFlags d OR xf) l r) \<Longrightarrow>
   0 < r \<Longrightarrow> r \<le> 2 ^ j \<Longrightarrow>
   sum_merge d (spec_tree leaf par 0 (n * 2 ^ j) r) = spec_tree leaf par Root 0 (n * 2 ^ j + r)"
proof (induction n arbitrary: j d r rule: less_induct)
  case (less n)
  show ?case
  proof (cases "even n")
    case True
    then have e: "n * 2 ^ j = n div 2 * 2 ^ Suc j" by (auto elim: evenE)
    have "n div 2 < n" "0 < n div 2" using less.prems True by (auto elim: evenE)
    then have "sum_merge d (spec_tree leaf par 0 (n div 2 * 2 ^ Suc j) r)
        = spec_tree leaf par Root 0 (n div 2 * 2 ^ Suc j + r)"
      using less.prems True by (intro less.IH) (simp_all only: cstack_even, simp_all)
    then show ?thesis by (simp only: e)
  next
    case False
    let ?k = "stackLen d - 1"
    have st: "take (stackLen d) (dstack d) = cstack leaf (par 0) (Suc j) (n div 2) @ [ctree leaf (par 0) j (n - 1)]"
      using less.prems(1) False by (simp add: cstack_odd)
    then have pos: "0 < stackLen d" by (cases "stackLen d") auto
    then have split: "take (stackLen d) (dstack d) = take ?k (dstack d) @ [dstack d ! ?k]"
      using less.prems(3) take_Suc_conv_app_nth [of ?k "dstack d"] by simp
    have top: "dstack d ! ?k = spec_tree leaf par 0 ((n - 1) * 2 ^ j) (2 ^ j)" and
      rest: "take ?k (dstack d) = cstack leaf (par 0) (Suc j) (n div 2)"
      using st split by (simp_all add: spec_tree_complete)
    have k0: "?k = 0 \<longleftrightarrow> n = 1"
    proof -
      have "?k = 0 \<longleftrightarrow> take ?k (dstack d) = []" using less.prems(3) pos by auto
      also have "\<dots> \<longleftrightarrow> n div 2 = 0" using rest cstack_0 by metis
      finally show ?thesis using False less.prems(2) by auto
    qed
    let ?xf = "if n = 1 then Root else 0"
    have n1: "(n - 1) * 2 ^ j + 2 ^ j = n * 2 ^ j" using less.prems(2) by (cases n) auto
    have "sum_merge d (spec_tree leaf par 0 (n * 2 ^ j) r)
       = sum_merge (d\<lparr>stackLen := ?k\<rparr>) (par ?xf (dstack d ! ?k) (spec_tree leaf par 0 (n * 2 ^ j) r))"
      using pos k0 less.prems(4) by (subst sum_merge.simps) (simp add: Let_def spec_parent_def or.assoc)
    also have "\<dots> = sum_merge (d\<lparr>stackLen := ?k\<rparr>) (spec_tree leaf par ?xf ((n - 1) * 2 ^ j) (2 ^ j + r))"
      using spec_tree_join [OF less.prems(5,6), of leaf par ?xf "(n - 1) * 2 ^ j"] top n1 by simp
    also have "\<dots> = spec_tree leaf par Root 0 (n * 2 ^ j + r)"
    proof (cases "n = 1")
      case True
      then show ?thesis using k0 by (simp add: sum_merge.simps)
    next
      case n: False
      have e: "(n - 1) * 2 ^ j = n div 2 * 2 ^ Suc j" "n div 2 < n" "0 < n div 2"
        using False n by (auto elim!: oddE)
      have "sum_merge (d\<lparr>stackLen := ?k\<rparr>) (spec_tree leaf par 0 (n div 2 * 2 ^ Suc j) (2 ^ j + r))
         = spec_tree leaf par Root 0 (n div 2 * 2 ^ Suc j + (2 ^ j + r))"
      proof (rule less.IH [OF e(2) _ e(3)])
        show "take (stackLen (d\<lparr>stackLen := ?k\<rparr>)) (dstack (d\<lparr>stackLen := ?k\<rparr>)) = cstack leaf (par 0) (Suc j) (n div 2)"
          using rest by simp
      qed (use less.prems(3,6) in \<open>simp_all add: less.prems(4)\<close>)
      moreover have "n div 2 * 2 ^ Suc j + (2 ^ j + r) = n * 2 ^ j + r" using e(1) n1 by simp
      ultimately show ?thesis by (simp only: n if_False e(1))
    qed
    finally show ?thesis .
  qed
qed

section \<open>The hasher's state after absorbing bytes\<close>

lemma pad64_length: "length bs \<le> 64 \<Longrightarrow> length (pad64 bs) = 64"
  by (simp add: pad64_def)

lemma pad64_full: "length bs = 64 \<Longrightarrow> pad64 bs = bs"
  by (simp add: pad64_def)

lemma pad64_put: "length bs + length xs \<le> 64 \<Longrightarrow> put_at (pad64 bs) (length bs) xs = pad64 (bs @ xs)"
  by (rule nth_equalityI) (auto simp: put_at_nth pad64_def nth_append)

definition absorbed :: "u32 list \<Rightarrow> byte \<Rightarrow> bytes \<Rightarrow> nat \<Rightarrow> nat \<Rightarrow> bytes \<Rightarrow> Digest \<Rightarrow> bool" where
  "absorbed key fl m n b tail d \<longleftrightarrow>
     length m = 1024 * n + 64 * b + length tail \<and> length tail \<le> 64 \<and> b \<le> 15 \<and>
     drop (1024 * n + 64 * b) m = tail \<and>
     keyWords d = key \<and> hasherFlags d = fl \<and> length (dstack d) = 54 \<and> stackLen d \<le> 54 \<and>
     take (stackLen d) (dstack d) = cstack (spec_leaf key fl 0 m) (spec_parent key (Parent OR fl)) 0 n \<and>
     (\<exists>cv. dchunk d = \<lparr>ccv = cv, chunkCounter = of_nat n, cbuf = pad64 tail, bufLen = length tail,
              blocksCompressed = b, cflags = fl\<rparr> \<and>
        (\<forall>xf rest. rest \<noteq> [] \<or> b = 0 \<longrightarrow>
           spec_chunk key (of_nat n) fl ChunkStart xf (bslice m (1024 * n) (64 * b) @ rest)
           = spec_chunk cv (of_nat n) fl (if b = 0 then ChunkStart else 0) xf rest))"

lemma absorbed_init: "absorbed key fl [] 0 0 [] (Digest_init key fl)"
  by (simp add: absorbed_def Digest_init_def bslice_def pad64_def)

lemma spec_leaf_append:
  "1024 * (i + 1) \<le> length m \<Longrightarrow> spec_leaf key fl xf (m @ p) i = spec_leaf key fl xf m i"
  by (simp add: spec_leaf_def bslice_def)

lemma absorbedE:
  assumes "absorbed key fl m n b tail d"
  obtains cv where "length m = 1024 * n + 64 * b + length tail" "length tail \<le> 64" "b \<le> 15"
    "drop (1024 * n + 64 * b) m = tail" "keyWords d = key" "hasherFlags d = fl" "length (dstack d) = 54"
    "stackLen d \<le> 54"
    "take (stackLen d) (dstack d) = cstack (spec_leaf key fl 0 m) (spec_parent key (Parent OR fl)) 0 n"
    "dchunk d = \<lparr>ccv = cv, chunkCounter = of_nat n, cbuf = pad64 tail, bufLen = length tail,
              blocksCompressed = b, cflags = fl\<rparr>"
    "\<And>xf rest. rest \<noteq> [] \<or> b = 0 \<Longrightarrow>
           spec_chunk key (of_nat n) fl ChunkStart xf (bslice m (1024 * n) (64 * b) @ rest)
           = spec_chunk cv (of_nat n) fl (if b = 0 then ChunkStart else 0) xf rest"
  using assms unfolding absorbed_def by blast

lemma absorbed_extend:
  assumes a: "absorbed key fl m n b tail d" and l: "length tail + length p \<le> 64"
  shows "absorbed key fl (m @ p) n b (tail @ p)
     (d\<lparr>dchunk := dchunk d\<lparr>cbuf := put_at (cbuf (dchunk d)) (bufLen (dchunk d)) p,
                            bufLen := bufLen (dchunk d) + length p\<rparr>\<rparr>)"
  using a
proof (rule absorbedE)
  fix cv
  assume f: "length m = 1024 * n + 64 * b + length tail" "length tail \<le> 64" "b \<le> 15"
    "drop (1024 * n + 64 * b) m = tail" "keyWords d = key" "hasherFlags d = fl" "length (dstack d) = 54"
    "stackLen d \<le> 54"
    "take (stackLen d) (dstack d) = cstack (spec_leaf key fl 0 m) (spec_parent key (Parent OR fl)) 0 n"
    and c: "dchunk d = \<lparr>ccv = cv, chunkCounter = of_nat n, cbuf = pad64 tail, bufLen = length tail,
              blocksCompressed = b, cflags = fl\<rparr>"
    and k: "\<And>xf rest. rest \<noteq> [] \<or> b = 0 \<Longrightarrow>
           spec_chunk key (of_nat n) fl ChunkStart xf (bslice m (1024 * n) (64 * b) @ rest)
           = spec_chunk cv (of_nat n) fl (if b = 0 then ChunkStart else 0) xf rest"
  have s: "cstack (spec_leaf key fl 0 (m @ p)) (spec_parent key (Parent OR fl)) 0 n
     = cstack (spec_leaf key fl 0 m) (spec_parent key (Parent OR fl)) 0 n"
    by (intro cstack_cong spec_leaf_append) (simp add: f(1))
  have e: "bslice (m @ p) (1024 * n) (64 * b) = bslice m (1024 * n) (64 * b)"
    by (simp add: bslice_def f(1))
  have d: "drop (1024 * n + 64 * b) (m @ p) = tail @ p" by (simp add: f(1) f(4))
  show ?thesis
    unfolding absorbed_def s e d
    by (intro conjI exI [of _ cv] allI impI k) (simp_all add: f(1,3,5-8) f(9) c pad64_put l)
qed

lemma absorbed_block:
  assumes a: "absorbed key fl m n b tail d" and l: "length tail = 64" and b: "b < 15"
  obtains d' where "flush_block d = Some d'" "absorbed key fl m n (b + 1) [] d'"
  using a
proof (rule absorbedE)
  fix cv
  assume f: "length m = 1024 * n + 64 * b + length tail" "length tail \<le> 64" "b \<le> 15"
    "drop (1024 * n + 64 * b) m = tail" "keyWords d = key" "hasherFlags d = fl" "length (dstack d) = 54"
    "stackLen d \<le> 54"
    "take (stackLen d) (dstack d) = cstack (spec_leaf key fl 0 m) (spec_parent key (Parent OR fl)) 0 n"
    and c: "dchunk d = \<lparr>ccv = cv, chunkCounter = of_nat n, cbuf = pad64 tail, bufLen = length tail,
              blocksCompressed = b, cflags = fl\<rparr>"
    and k: "\<And>xf rest. rest \<noteq> [] \<or> b = 0 \<Longrightarrow>
           spec_chunk key (of_nat n) fl ChunkStart xf (bslice m (1024 * n) (64 * b) @ rest)
           = spec_chunk cv (of_nat n) fl (if b = 0 then ChunkStart else 0) xf rest"
  let ?cv = "take 8 (Blake3archtsim_compress cv tail 64 (of_nat n) (fl OR (if b = 0 then ChunkStart else 0)))"
  let ?d = "d\<lparr>dchunk := dchunk d\<lparr>ccv := ?cv, blocksCompressed := b + 1, bufLen := 0, cbuf := replicate 64 0\<rparr>\<rparr>"
  have "bslice m (1024 * n + 64 * b) 64 = tail" by (simp add: bslice_def f(4) l)
  then have s: "bslice m (1024 * n) (64 * (b + 1)) = bslice m (1024 * n) (64 * b) @ tail"
    using bslice_append [of m "1024 * n" "64 * b" 64] by (simp add: algebra_simps)
  have k': "spec_chunk key (of_nat n) fl ChunkStart xf (bslice m (1024 * n) (64 * (b + 1)) @ rest)
      = spec_chunk ?cv (of_nat n) fl 0 xf rest" if r: "rest \<noteq> []" for xf rest
  proof -
    have "spec_chunk key (of_nat n) fl ChunkStart xf (bslice m (1024 * n) (64 * (b + 1)) @ rest)
       = spec_chunk cv (of_nat n) fl (if b = 0 then ChunkStart else 0) xf (tail @ rest)"
      unfolding s append_assoc by (rule k) (simp add: r)
    also have "\<dots> = spec_chunk ?cv (of_nat n) fl 0 xf rest"
      using r l by (subst spec_chunk.simps) (simp add: Suc_leI)
    finally show ?thesis .
  qed
  have "drop (1024 * n + 64 * (b + 1)) m = []" by (simp add: f(1) l)
  then have "absorbed key fl m n (b + 1) [] ?d"
    unfolding absorbed_def
    by (intro conjI exI [of _ ?cv] allI impI) (use k' b in \<open>simp_all add: f l c pad64_def\<close>)
  moreover have "flush_block d = Some ?d"
    using b l by (simp add: flush_block_def c Let_def pad64_full)
  ultimately show ?thesis using that by blast
qed

lemma absorbed_chunk_output:
  assumes a: "absorbed key fl m n b tail d" and t: "tail \<noteq> [] \<or> b = 0"
  shows "chunk_output (dchunk d) = spec_leaf key fl 0 m n"
    and "take 8 (Blake3archtsim_compress (ccv (dchunk d)) (cbuf (dchunk d)) (of_nat (bufLen (dchunk d)))
       (chunkCounter (dchunk d)) (cflags (dchunk d) OR ChunkEnd OR Root OR (if b = 0 then ChunkStart else 0)))
       = spec_leaf key fl Root m n"
proof -
  obtain cv where c: "dchunk d = \<lparr>ccv = cv, chunkCounter = of_nat n, cbuf = pad64 tail, bufLen = length tail,
              blocksCompressed = b, cflags = fl\<rparr>"
    and k: "\<And>xf rest. rest \<noteq> [] \<or> b = 0 \<Longrightarrow>
           spec_chunk key (of_nat n) fl ChunkStart xf (bslice m (1024 * n) (64 * b) @ rest)
           = spec_chunk cv (of_nat n) fl (if b = 0 then ChunkStart else 0) xf rest"
    and l: "length tail \<le> 64" "b \<le> 15" "drop (1024 * n + 64 * b) m = tail"
    using a by (elim absorbedE) blast
  have "bslice m (1024 * n + 64 * b) (1024 - 64 * b) = tail"
    using l(1,2) by (simp add: bslice_def l(3))
  then have "bslice m (1024 * n) 1024 = bslice m (1024 * n) (64 * b) @ tail"
    using bslice_append [of m "1024 * n" "64 * b" "1024 - 64 * b"] l(2) by simp
  then have e: "spec_leaf key fl xf m n = spec_chunk cv (of_nat n) fl (if b = 0 then ChunkStart else 0) xf tail" for xf
    using k [OF t] by (simp add: spec_leaf_def)
  show "chunk_output (dchunk d) = spec_leaf key fl 0 m n"
    using l(1) by (simp add: e c chunk_output_def spec_chunk.simps [of _ _ _ _ _ tail] or.assoc)
  show "take 8 (Blake3archtsim_compress (ccv (dchunk d)) (cbuf (dchunk d)) (of_nat (bufLen (dchunk d)))
       (chunkCounter (dchunk d)) (cflags (dchunk d) OR ChunkEnd OR Root OR (if b = 0 then ChunkStart else 0)))
       = spec_leaf key fl Root m n"
    using l(1) by (simp add: e c spec_chunk.simps [of _ _ _ _ _ tail] or.assoc)
qed


lemma absorbed_chunk:
  assumes a: "absorbed key fl m n 15 tail d" and l: "length tail = 64" and n: "n + 1 < 2 ^ 54"
  obtains d' where "flush_block d = Some d'" "absorbed key fl m (n + 1) 0 [] d'"
  using a
proof (rule absorbedE)
  fix cv
  assume f: "length m = 1024 * n + 64 * 15 + length tail" "drop (1024 * n + 64 * 15) m = tail"
    "keyWords d = key" "hasherFlags d = fl" "length (dstack d) = 54" "stackLen d \<le> 54"
    and st: "take (stackLen d) (dstack d) = cstack (spec_leaf key fl 0 m) (spec_parent key (Parent OR fl)) 0 n"
    and c: "dchunk d = \<lparr>ccv = cv, chunkCounter = of_nat n, cbuf = pad64 tail, bufLen = length tail,
              blocksCompressed = 15, cflags = fl\<rparr>"
  let ?leaf = "spec_leaf key fl 0 m" and ?par = "spec_parent key (Parent OR fl)"
  have out: "chunk_output (dchunk d) = ctree ?leaf ?par 0 n"
    using absorbed_chunk_output(1) [OF a] l by force
  have ctr: "unat (chunkCounter (dchunk d) + 1) = n + 1"
  proof -
    have "unat (of_nat n :: u64) = n" using n by (simp add: unat_of_nat)
    then show ?thesis using n by (subst unat_add_ok) (simp_all add: c)
  qed
  obtain k cv' where pm: "push_merge d (n + 1) (ctree ?leaf ?par 0 n) = Some (d\<lparr>stackLen := k\<rparr>, cv')"
      and k: "k \<le> stackLen d" and s: "take k (dstack d) @ [cv'] = cstack ?leaf ?par 0 (n + 1)"
    using push_merge_ok [of d ?leaf 0 n] st f by auto
  have "length (take k (dstack d) @ [cv']) \<le> 54"
    unfolding s by (rule cstack_length [OF n])
  then have k54: "k < 54" using k f(5,6) by simp
  let ?d = "d\<lparr>stackLen := k + 1, dstack := (dstack d)[k := cv']\<rparr>"
  let ?d' = "?d\<lparr>dchunk := \<lparr>ccv = key, chunkCounter = of_nat n + 1, cbuf = replicate 64 0, bufLen = 0,
                 blocksCompressed = 0, cflags = fl\<rparr>\<rparr>"
  have "pushStack d (chunk_output (dchunk d)) = Some ?d"
    unfolding pushStack_def out ctr pm using k54 by (simp add: go_set_def f(5))
  then have "flush_block d = Some ?d'"
    using l by (simp add: flush_block_def c Let_def f(3,4))
  moreover have "take (k + 1) ((dstack d)[k := cv']) = cstack ?leaf ?par 0 (n + 1)"
    unfolding s [symmetric] using k54 f(5) by (simp add: take_Suc_conv_app_nth)
  then have "absorbed key fl m (n + 1) 0 [] ?d'"
    using k54 by (simp add: absorbed_def f(3-5) f(1) l pad64_def bslice_def add.commute)
  ultimately show ?thesis using that by blast
qed

lemma absorbed_flush:
  assumes a: "absorbed key fl m n b tail d" and m: "length m < 2 ^ 63"
  obtains d' n' b' tail' where "flush_block d = Some d'" "absorbed key fl m n' b' tail' d'" "length tail' < 64"
proof -
  have f: "length m = 1024 * n + 64 * b + length tail" "length tail \<le> 64" "b \<le> 15"
    "bufLen (dchunk d) = length tail"
    using a by (auto elim: absorbedE)
  consider "length tail < 64" | "length tail = 64" "b < 15" | "length tail = 64" "b = 15"
    using f(2,3) by linarith
  then show ?thesis
  proof cases
    case 1
    then have "flush_block d = Some d" using f(4) by (simp add: flush_block_def Let_def)
    then show ?thesis using that a 1 by blast
  next
    case 2
    then show ?thesis using absorbed_block [OF a] that by (metis list.size(3) zero_less_numeral)
  next
    case 3
    have "n + 1 < 2 ^ 54" using f(1) m 3 by simp
    then show ?thesis using absorbed_chunk a 3 that by (metis list.size(3) zero_less_numeral)
  qed
qed

lemma Digest_Write_absorbed:
  "absorbed key fl m n b tail d \<Longrightarrow> (tail = [] \<longrightarrow> m = []) \<Longrightarrow> length m + length p < 2 ^ 63 \<Longrightarrow>
   \<exists>d' n' b' tail'. Digest_Write d p = Some d' \<and> absorbed key fl (m @ p) n' b' tail' d' \<and> (tail' = [] \<longrightarrow> m @ p = [])"
proof (induction "length p" arbitrary: m n b tail d p rule: less_induct)
  case less
  show ?case
  proof (cases "p = []")
    case True
    then show ?thesis using less.prems by (auto simp: Digest_Write.simps)
  next
    case False
    obtain d' n' b' tail' where fl: "flush_block d = Some d'" and a': "absorbed key fl m n' b' tail' d'"
        and t': "length tail' < 64"
    proof -
      have "length m < 2 ^ 63" using less.prems(3) by simp
      then show ?thesis using absorbed_flush [OF less.prems(1)] that by blast
    qed
    have bl: "bufLen (dchunk d') = length tail'" using a' by (auto elim: absorbedE)
    let ?w = "min (64 - length tail') (length p)"
    let ?c = "dchunk d'"
    let ?d = "d'\<lparr>dchunk := ?c\<lparr>cbuf := put_at (cbuf ?c) (bufLen ?c) (take ?w p), bufLen := bufLen ?c + ?w\<rparr>\<rparr>"
    have w: "length (take ?w p) = ?w" "0 < ?w" using False t' by auto
    have step: "Digest_Write d p = Digest_Write ?d (drop ?w p)"
      using False fl t' bl by (subst Digest_Write.simps) (simp add: Let_def)
    have "absorbed key fl (m @ take ?w p) n' b' (tail' @ take ?w p) ?d"
      using absorbed_extend [OF a', of "take ?w p"] w(1) t' by simp
    moreover have "length (drop ?w p) < length p" using w(2) False by simp
    moreover have "length (m @ take ?w p) + length (drop ?w p) < 2 ^ 63" using less.prems(3) by simp
    moreover have "tail' @ take ?w p \<noteq> []" using w by (metis length_0_conv append_is_Nil_conv less_numeral_extra(3))
    ultimately have "\<exists>d'' n'' b'' tail''. Digest_Write ?d (drop ?w p) = Some d'' \<and>
        absorbed key fl ((m @ take ?w p) @ drop ?w p) n'' b'' tail'' d'' \<and>
        (tail'' = [] \<longrightarrow> (m @ take ?w p) @ drop ?w p = [])"
      using less.hyps by blast
    then show ?thesis unfolding step by simp
  qed
qed

lemma SumFinal_absorbed:
  assumes a: "absorbed key fl m n b tail d" and t: "tail = [] \<longrightarrow> m = []"
  shows "Digest_SumFinal d = blake3_spec key fl m"
  using a
proof (rule absorbedE)
  fix cv
  assume f: "length m = 1024 * n + 64 * b + length tail" "length tail \<le> 64" "b \<le> 15"
    "keyWords d = key" "hasherFlags d = fl" "length (dstack d) = 54" "stackLen d \<le> 54"
    and st: "take (stackLen d) (dstack d) = cstack (spec_leaf key fl 0 m) (spec_parent key (Parent OR fl)) 0 n"
    and c: "dchunk d = \<lparr>ccv = cv, chunkCounter = of_nat n, cbuf = pad64 tail, bufLen = length tail,
              blocksCompressed = b, cflags = fl\<rparr>"
  let ?par = "\<lambda>xf. spec_parent key (Parent OR fl OR xf)"
  have n0: "stackLen d = 0 \<longleftrightarrow> n = 0"
    using cstack_0 [of "spec_leaf key fl 0 m" "spec_parent key (Parent OR fl)" 0 n] st f(6,7) by auto
  have tb: "tail \<noteq> [] \<or> b = 0" using t f(1) by auto
  have ch: "spec_chunks m = n + 1"
  proof (cases "m = []")
    case False
    then have "0 < length tail" using t by auto
    then have "length m - 1 = 64 * b + length tail - 1 + n * 1024" using f(1) by linarith
    moreover have "64 * b + length tail - 1 < 1024" using f(2,3) by linarith
    ultimately have "(length m - 1) div 1024 = n" by simp
    then show ?thesis using False by (simp add: spec_chunks_def)
  qed (use f in \<open>simp add: spec_chunks_def\<close>)
  show ?thesis
  proof (cases "n = 0")
    case True
    then show ?thesis
      using absorbed_chunk_output(2) [OF a tb] n0 ch
      by (simp add: Digest_SumFinal_def blake3_spec_def Let_def c or.assoc split: if_splits)
  next
    case False
    have "sum_merge d (spec_tree (spec_leaf key fl 0 m) ?par 0 (n * 2 ^ 0) 1)
       = spec_tree (spec_leaf key fl 0 m) ?par Root 0 (n * 2 ^ 0 + 1)"
      by (rule sum_merge_ok) (use st False in \<open>simp_all add: f\<close>)
    moreover have "spec_tree (spec_leaf key fl 0 m) ?par 0 n 1 = spec_leaf key fl 0 m n"
      by (simp add: spec_tree.simps)
    moreover have "length (spec_tree (spec_leaf key fl 0 m) ?par Root 0 (n + 1)) \<le> 8"
      using False by (subst spec_tree.simps) (simp add: Let_def spec_parent_def)
    ultimately show ?thesis
      using absorbed_chunk_output(1) [OF a tb] n0 ch False
      by (simp add: Digest_SumFinal_def blake3_spec_def Let_def)
  qed
qed


lemma compress_length [simp]: "length (Blake3archtsim_compress cv block bl ctr fl) = 16"
  by (simp add: Blake3archtsim_compress_def Let_def)

lemma spec_chunk_length [simp]: "length (spec_chunk cv ctr fl start xf bs) = 8"
  by (induction cv ctr fl start xf bs rule: spec_chunk.induct) (subst spec_chunk.simps, simp)

lemma spec_tree_length:
  "(\<And>i. length (leaf i) = 8) \<Longrightarrow> (\<And>xf l r. length (par xf l r) = 8) \<Longrightarrow> length (spec_tree leaf par xf lo n) = 8"
  by (subst spec_tree.simps) (simp add: Let_def)

lemma concat_le_put32_length [simp]: "length (concat (map le_put32 ws)) = 4 * length ws"
  by (induction ws) auto

lemma blake3_spec_length [simp]: "length (blake3_spec key fl m) = 32"
  by (simp add: blake3_spec_def spec_tree_length spec_leaf_def spec_parent_def)

lemma Digest_run:
  assumes "length p < 2 ^ 63"
  shows "map_option Digest_SumFinal (Digest_Write (Digest_init key fl) p) = Some (blake3_spec key fl p)"
proof -
  obtain d n b tail where "Digest_Write (Digest_init key fl) p = Some d"
      "absorbed key fl ([] @ p) n b tail d" "tail = [] \<longrightarrow> [] @ p = []"
    using Digest_Write_absorbed [OF absorbed_init] assms by fastforce
  then show ?thesis using SumFinal_absorbed by fastforce
qed



fun Digest_writes :: "Digest \<Rightarrow> bytes list \<Rightarrow> Digest option" where
  "Digest_writes d [] = Some d"
| "Digest_writes d (p # ps) = do { d \<leftarrow> Digest_Write d p; Digest_writes d ps }"

lemma Digest_writes_absorbed:
  "absorbed key fl m n b tail d \<Longrightarrow> (tail = [] \<longrightarrow> m = []) \<Longrightarrow> length (m @ concat ps) < 2 ^ 63 \<Longrightarrow>
   map_option Digest_SumFinal (Digest_writes d ps) = Some (blake3_spec key fl (m @ concat ps))"
proof (induction ps arbitrary: m n b tail d)
  case Nil then show ?case using SumFinal_absorbed by force
next
  case (Cons p ps)
  have l: "length m + length p < 2 ^ 63" using Cons.prems(3) by simp
  obtain d' n' b' tail' where "Digest_Write d p = Some d'" "absorbed key fl (m @ p) n' b' tail' d'"
      "tail' = [] \<longrightarrow> m @ p = []"
    using Digest_Write_absorbed [OF Cons.prems(1,2) l] by blast
  then show ?case using Cons.IH [of "m @ p" n' b' tail' d'] Cons.prems(3) by simp
qed

lemma DeriveKey_run:
  assumes "length context < 2 ^ 63" "length keyMaterial < 2 ^ 63"
  shows "DeriveKey context keyMaterial =
    Some (blake3_spec (wordsFromKey (blake3_spec BLAKE3ARCHTSIM_IV DeriveKeyContext context)) DeriveKeyMaterial keyMaterial)"
proof -
  obtain d where "Digest_Write (Digest_init BLAKE3ARCHTSIM_IV DeriveKeyContext) context = Some d"
      "Digest_SumFinal d = blake3_spec BLAKE3ARCHTSIM_IV DeriveKeyContext context"
    using Digest_run [OF assms(1), of BLAKE3ARCHTSIM_IV DeriveKeyContext] by auto
  then show ?thesis
    using Digest_run [OF assms(2), of "wordsFromKey (blake3_spec BLAKE3ARCHTSIM_IV DeriveKeyContext context)" DeriveKeyMaterial]
    by (auto simp: DeriveKey_def)
qed

text \<open>
  C8. The one-shot hash is the BLAKE3 tree hash: for every input that fits a Go slice the lazy
  block buffer and the subtree stack (54 slots) never run out of range, and the 32 bytes returned
  are those of the recursive definition, in which the left subtree of \<open>n\<close> chunks holds the
  largest power of two of chunks below \<open>n\<close> and only the last compression carries the root flag.
\<close>
theorem Sum256_tree:
  assumes "length data < 2 ^ 63"
  shows "Sum256 data = Some (blake3_spec BLAKE3ARCHTSIM_IV 0 data)"
  using Digest_run [OF assms] by (simp only: Sum256_def Digest_Reset_def)

theorem Sum256_tree_witness:
  "Sum256 (replicate 3000 7) = Some (blake3_spec BLAKE3ARCHTSIM_IV 0 (replicate 3000 7))"
  by (rule Sum256_tree) simp

text \<open>
  Incremental hashing: however the input is cut into writes, the digest is the tree hash of the
  concatenation, and no write panics.
\<close>
theorem Digest_writes_concat:
  assumes "length (concat ps) < 2 ^ 63"
  shows "map_option Digest_SumFinal (Digest_writes Digest_Reset ps) = Some (blake3_spec BLAKE3ARCHTSIM_IV 0 (concat ps))"
  using Digest_writes_absorbed [OF absorbed_init] assms by (simp add: Digest_Reset_def)

theorem Digest_writes_concat_witness:
  "map_option Digest_SumFinal (Digest_writes Digest_Reset [replicate 1000 1, [], replicate 100 2])
     = Some (blake3_spec BLAKE3ARCHTSIM_IV 0 (replicate 1000 1 @ replicate 100 2))"
  using Digest_writes_concat [of "[replicate 1000 1, [], replicate 100 2]"] by simp

end
