(* ===== verification/Kdf.thy ===== *)
theory Kdf
  imports Blake3
begin

text \<open>
  Key derivation and the ring of key epochs of \<^verbatim>\<open>src/pkg/c2db/kdf.go\<close>. The fixed arrays of the
  code are lists of the same length, \<^verbatim>\<open>binary.LittleEndian.PutUint16\<close> and \<^verbatim>\<open>PutUint64\<close> are
  \<open>le_put16\<close> and \<open>le_put64\<close>, and Go's \<^verbatim>\<open>copy\<close> (which stops at the shorter side) is
  \<open>go_copy\<close>. A derivation is an option because the hasher may panic; it never does.
\<close>

section \<open>Derivation\<close>

definition go_copy :: "'a list \<Rightarrow> nat \<Rightarrow> 'a list \<Rightarrow> 'a list" where
  "go_copy dst off src = put_at dst off (take (length dst - off) src)"

definition bytes_of :: "string \<Rightarrow> bytes" where
  "bytes_of s = map of_char s"

definition TenantMACContext :: bytes where
  "TenantMACContext = bytes_of ''c2db/tenant-mac/v1''"
definition SessionMACContext :: bytes where
  "SessionMACContext = bytes_of ''c2cluster/tenant-mac/v1''"
definition PageSealContext :: bytes where
  "PageSealContext = bytes_of ''c2db-page-seal/v1''"
definition WALSealContext :: bytes where
  "WALSealContext = bytes_of ''c2db-wal-seal/v1''"

definition deriveTenantMAC :: "bytes \<Rightarrow> bytes \<Rightarrow> u16 \<Rightarrow> bytes \<Rightarrow> bytes option" where
  "deriveTenantMAC domain master tenant epoch =
     (let mat = replicate 50 0;
          mat = go_copy mat 0 (take 32 master);
          mat = put_at mat 32 (le_put16 tenant);
          mat = go_copy mat 34 epoch
      in DeriveKey domain mat)"

definition DeriveTenantMAC :: "bytes \<Rightarrow> u16 \<Rightarrow> bytes \<Rightarrow> bytes option" where
  "DeriveTenantMAC master tenant epoch = deriveTenantMAC TenantMACContext master tenant epoch"

definition DeriveSessionMAC :: "bytes \<Rightarrow> u16 \<Rightarrow> bytes \<Rightarrow> bytes option" where
  "DeriveSessionMAC master tenant epoch = deriveTenantMAC SessionMACContext master tenant epoch"

definition DerivePageSealKey :: "bytes \<Rightarrow> u16 \<Rightarrow> u64 \<Rightarrow> bytes \<Rightarrow> bytes option" where
  "DerivePageSealKey master shard pageIdx pageContent =
     (let mat = replicate 74 0;
          mat = go_copy mat 0 (take 32 master);
          mat = put_at mat 32 (le_put16 shard);
          mat = put_at mat 34 (le_put64 pageIdx)
      in do {
        h \<leftarrow> Sum256 pageContent;
        DeriveKey PageSealContext (go_copy mat 42 h)
      })"

definition DeriveWALSealKey :: "bytes \<Rightarrow> bytes \<Rightarrow> bytes option" where
  "DeriveWALSealKey base canonicalMsg =
     (let mat = replicate (32 + (4080 - 4)) 0;
          mat = go_copy mat 0 (take 32 base);
          mat = go_copy mat 32 canonicalMsg
      in DeriveKey WALSealContext mat)"

section \<open>The ring of epochs\<close>

definition epochRingCap :: nat where
  [simp]: "epochRingCap = 8"

record epochSlot =
  es_epoch :: bytes
  es_gen :: u32
  es_mac :: bytes
  es_live :: bool

record EpochRing =
  er_slots :: "epochSlot list"
  er_gens :: "u32 list"
  er_n :: nat
  er_cur :: nat

definition zero_slot :: epochSlot where
  "zero_slot = \<lparr>es_epoch = replicate 16 0, es_gen = 0, es_mac = replicate 32 0, es_live = False\<rparr>"

definition new_ring :: EpochRing where
  "new_ring = \<lparr>er_slots = replicate epochRingCap zero_slot, er_gens = replicate epochRingCap 0, er_n = 0, er_cur = 0\<rparr>"

definition Install :: "EpochRing \<Rightarrow> bytes \<Rightarrow> bytes \<Rightarrow> EpochRing" where
  "Install r ep mc =
     (let (i, r) = (if er_n r < epochRingCap then (er_n r, r\<lparr>er_n := er_n r + 1\<rparr>)
                    else ((er_cur r + 1) mod epochRingCap, r));
          r = r\<lparr>er_gens := (er_gens r)[i := er_gens r ! i + 1]\<rparr>;
          r = r\<lparr>er_slots := (er_slots r)[i := \<lparr>es_epoch = ep, es_gen = er_gens r ! i, es_mac = mc, es_live = True\<rparr>]\<rparr>
      in r\<lparr>er_cur := i\<rparr>)"

definition Current :: "EpochRing \<Rightarrow> (bytes \<times> bytes \<times> u32) option" where
  "Current r =
     (if er_n r = 0 then None
      else let s = er_slots r ! er_cur r in
        if \<not> es_live s then None else Some (es_mac s, es_epoch s, es_gen s))"

fun lookup_from :: "EpochRing \<Rightarrow> bytes \<Rightarrow> nat \<Rightarrow> nat \<Rightarrow> (bytes \<times> u32) option" where
  "lookup_from r ep i 0 = None"
| "lookup_from r ep i (Suc k) =
     (let s = er_slots r ! i in
      if es_live s \<and> es_epoch s = ep then Some (es_mac s, es_gen s) else lookup_from r ep (Suc i) k)"

definition Lookup :: "EpochRing \<Rightarrow> bytes \<Rightarrow> (bytes \<times> u32) option" where
  "Lookup r ep = lookup_from r ep 0 (er_n r)"

fun revoke_from :: "EpochRing \<Rightarrow> bytes \<Rightarrow> nat \<Rightarrow> nat \<Rightarrow> bool \<times> EpochRing" where
  "revoke_from r ep i 0 = (False, r)"
| "revoke_from r ep i (Suc k) =
     (if es_live (er_slots r ! i) \<and> es_epoch (er_slots r ! i) = ep then
        let g = er_gens r ! i + 1
        in (True, r\<lparr>er_slots := (er_slots r)[i := (er_slots r ! i)\<lparr>es_live := False, es_mac := replicate 32 0, es_gen := g\<rparr>],
                   er_gens := (er_gens r)[i := g]\<rparr>)
      else revoke_from r ep (Suc i) k)"

definition Revoke :: "EpochRing \<Rightarrow> bytes \<Rightarrow> bool \<times> EpochRing" where
  "Revoke r ep = revoke_from r ep 0 (er_n r)"

section \<open>Derivations are total\<close>

lemma go_copy_length [simp]: "length (go_copy dst off src) = length dst"
  by (simp add: go_copy_def)

lemma go_copy_fit: "off + length src \<le> length dst \<Longrightarrow> go_copy dst off src = put_at dst off src"
  by (simp add: go_copy_def)

lemma DeriveKey_some:
  assumes "length ctx < 2 ^ 63" "length mat < 2 ^ 63"
  obtains k where "DeriveKey ctx mat = Some k" "length k = 32"
  using DeriveKey_run [OF assms] by simp

lemma context_length [simp]:
  "length TenantMACContext = 18" "length SessionMACContext = 23" "length PageSealContext = 17"
  "length WALSealContext = 16"
  by (simp_all add: TenantMACContext_def SessionMACContext_def PageSealContext_def WALSealContext_def bytes_of_def)

lemma DeriveWALSealKey_some:
  obtains k where "DeriveWALSealKey base msg = Some k" "length k = 32"
  by (rule DeriveKey_some [of WALSealContext]) (auto simp: DeriveWALSealKey_def Let_def)


lemma put_at_zeros3:
  assumes "length a + length b + length c + length d = m"
  shows "put_at (put_at (put_at (put_at (replicate m 0) 0 a) (length a) b) (length a + length b) c)
           (length a + length b + length c) d = a @ b @ c @ d"
  using assms by (intro nth_equalityI) (auto simp: put_at_nth nth_append)

text \<open>
  The page seal key is derived, without panic, from exactly the concatenation of the master key,
  the shard number, the page index (both little endian) and the BLAKE3 hash of the page's content,
  under the page-seal context.
\<close>
theorem DerivePageSealKey_material:
  assumes "length master = 32" "length pageContent < 2 ^ 63"
  shows "DerivePageSealKey master shard pageIdx pageContent =
    Some (blake3_spec (wordsFromKey (blake3_spec BLAKE3ARCHTSIM_IV DeriveKeyContext PageSealContext)) DeriveKeyMaterial
      (master @ le_put16 shard @ le_put64 pageIdx @ blake3_spec BLAKE3ARCHTSIM_IV 0 pageContent))"
proof -
  let ?h = "blake3_spec BLAKE3ARCHTSIM_IV 0 pageContent"
  have "Sum256 pageContent = Some ?h"
    using Digest_run [OF assms(2)] by (simp only: Sum256_def Digest_Reset_def)
  moreover have "put_at (put_at (put_at (put_at (replicate 74 0) 0 master) 32 (le_put16 shard)) 34 (le_put64 pageIdx)) 42 ?h
      = master @ le_put16 shard @ le_put64 pageIdx @ ?h"
    using put_at_zeros3 [of master "le_put16 shard" "le_put64 pageIdx" ?h 74] assms(1) by simp
  ultimately show ?thesis
    using assms(1) DeriveKey_run [of PageSealContext "master @ le_put16 shard @ le_put64 pageIdx @ ?h"]
    by (simp add: DerivePageSealKey_def Let_def go_copy_fit del: DeriveKeyContext_def DeriveKeyMaterial_def)
qed

theorem DerivePageSealKey_material_witness:
  "DerivePageSealKey (replicate 32 9) 3 17 (replicate 4096 1) =
    Some (blake3_spec (wordsFromKey (blake3_spec BLAKE3ARCHTSIM_IV DeriveKeyContext PageSealContext)) DeriveKeyMaterial
      (replicate 32 9 @ le_put16 3 @ le_put64 17 @ blake3_spec BLAKE3ARCHTSIM_IV 0 (replicate 4096 1)))"
  by (rule DerivePageSealKey_material) simp_all

section \<open>The ring keeps the last eight epochs\<close>

definition ring_ok :: "EpochRing \<Rightarrow> bool" where
  "ring_ok r \<longleftrightarrow> length (er_slots r) = 8 \<and> length (er_gens r) = 8 \<and> er_n r \<le> 8 \<and> er_cur r < 8 \<and>
     (er_n r < 8 \<longrightarrow> er_cur r = er_n r - 1)"

definition slot_key :: "epochSlot \<Rightarrow> bytes \<times> bytes \<times> bool" where
  "slot_key s = (es_epoch s, es_mac s, es_live s)"

definition ring_list :: "EpochRing \<Rightarrow> (bytes \<times> bytes \<times> bool) list" where
  "ring_list r = map slot_key
     (if er_n r < 8 then take (er_n r) (er_slots r) else rotate (er_cur r + 1) (er_slots r))"

lemma ring_ok_new: "ring_ok new_ring"
  by (simp add: ring_ok_def new_ring_def)

lemma ring_ok_Install: "ring_ok r \<Longrightarrow> ring_ok (Install r ep mc)"
  by (auto simp: ring_ok_def Install_def Let_def split: if_splits)

lemma ring_ok_revoke_from: "ring_ok r \<Longrightarrow> ring_ok (snd (revoke_from r ep i k))"
  by (induction r ep i k rule: revoke_from.induct) (auto simp: ring_ok_def Let_def)

lemma rotate_update:
  assumes "i < length xs"
  shows "rotate (Suc i) (xs[i := x]) = tl (rotate i xs) @ [x]"
proof -
  have "rotate i (xs[i := x]) = x # tl (rotate i xs)"
    using assms by (simp add: rotate_drop_take Cons_nth_drop_Suc [symmetric] drop_update_cancel)
  then show ?thesis by simp
qed

lemma ring_list_Install:
  assumes "ring_ok r"
  shows "ring_list (Install r ep mc) =
     drop (if length (ring_list r) < 8 then 0 else 1) (ring_list r) @ [(ep, mc, True)]"
proof (cases "er_n r < 8")
  case True
  let ?s = "\<lparr>es_epoch = ep, es_gen = er_gens r ! er_n r + 1, es_mac = mc, es_live = True\<rparr>"
  have t: "take (Suc (er_n r)) ((er_slots r)[er_n r := ?s]) = take (er_n r) (er_slots r) @ [?s]"
    using assms True by (simp add: ring_ok_def take_Suc_conv_app_nth)
  have l: "length (er_slots r) = 8" "length (er_gens r) = 8" using assms by (simp_all add: ring_ok_def)
  show ?thesis
  proof (cases "er_n r = 7")
    case True
    have "rotate 8 ((er_slots r)[7 := ?s]) = (er_slots r)[7 := ?s]"
      using rotate_id [of 8 "(er_slots r)[7 := ?s]"] l by simp
    moreover have "(er_slots r)[7 := ?s] = take 7 (er_slots r) @ [?s]" using t True l by simp
    ultimately show ?thesis
      using True l by (simp add: ring_list_def Install_def Let_def slot_key_def)
  qed (use True l t in \<open>simp add: ring_list_def Install_def Let_def slot_key_def\<close>)
next
  case False
  let ?i = "(er_cur r + 1) mod 8"
  let ?s = "\<lparr>es_epoch = ep, es_gen = er_gens r ! ?i + 1, es_mac = mc, es_live = True\<rparr>"
  have l: "length (er_slots r) = 8" "length (er_gens r) = 8" using assms by (simp_all add: ring_ok_def)
  have i: "?i < 8" by simp
  have "rotate (Suc ?i) ((er_slots r)[?i := ?s]) = tl (rotate ?i (er_slots r)) @ [?s]"
    using rotate_update [of ?i "er_slots r"] l i by simp
  moreover have "rotate ?i (er_slots r) = rotate (er_cur r + 1) (er_slots r)"
    using rotate_conv_mod [of "er_cur r + 1" "er_slots r"] l by simp
  ultimately show ?thesis
    using False l i by (simp add: ring_list_def Install_def Let_def slot_key_def map_tl drop_Suc)
qed


definition installs :: "EpochRing \<Rightarrow> (bytes \<times> bytes) list \<Rightarrow> EpochRing" where
  "installs r kvs = fold (\<lambda>(ep, mc) r. Install r ep mc) kvs r"

lemma installs_snoc: "installs r (kvs @ [(ep, mc)]) = Install (installs r kvs) ep mc"
  by (simp add: installs_def)

lemma ring_ok_installs: "ring_ok (installs new_ring kvs)"
proof (induction kvs rule: rev_induct)
  case Nil then show ?case by (simp add: installs_def ring_ok_new)
next
  case (snoc x xs)
  then show ?case by (cases x) (simp add: installs_snoc ring_ok_Install)
qed

lemma ring_list_installs:
  "ring_list (installs new_ring kvs) = map (\<lambda>(ep, mc). (ep, mc, True)) (drop (length kvs - 8) kvs)"
proof (induction kvs rule: rev_induct)
  case Nil then show ?case by (simp add: installs_def ring_list_def new_ring_def)
next
  case (snoc x xs)
  obtain ep mc where x: "x = (ep, mc)" by (cases x)
  show ?case
    using snoc ring_list_Install [OF ring_ok_installs, of xs ep mc]
    by (cases "length xs < 8") (simp_all add: x installs_snoc drop_map Suc_diff_le [symmetric])
qed

lemma lookup_from_find:
  "i + k \<le> length (er_slots r) \<Longrightarrow> lookup_from r ep i k =
   map_option (\<lambda>s. (es_mac s, es_gen s)) (find (\<lambda>s. es_live s \<and> es_epoch s = ep) (bslice (er_slots r) i k))"
proof (induction r ep i k rule: lookup_from.induct)
  case (2 r ep i k)
  then have "bslice (er_slots r) i (Suc k) = er_slots r ! i # bslice (er_slots r) (Suc i) k"
    by (simp add: bslice_def Cons_nth_drop_Suc [symmetric])
  then show ?case using 2 by (simp add: Let_def)
qed (simp add: bslice_def)

definition live_epochs :: "EpochRing \<Rightarrow> bytes list" where
  "live_epochs r = map es_epoch (filter es_live (take (er_n r) (er_slots r)))"

lemma find_distinct:
  "distinct (map f (filter P xs)) \<Longrightarrow> x \<in> set xs \<Longrightarrow> P x \<Longrightarrow> f x = y \<Longrightarrow>
   find (\<lambda>z. P z \<and> f z = y) xs = Some x"
  by (induction xs) (auto simp: image_iff split: if_splits)

lemma Lookup_find:
  "ring_ok r \<Longrightarrow> Lookup r ep = map_option (\<lambda>s. (es_mac s, es_gen s))
     (find (\<lambda>s. es_live s \<and> es_epoch s = ep) (take (er_n r) (er_slots r)))"
  by (simp add: Lookup_def lookup_from_find ring_ok_def bslice_def)

lemma distinct_filter_rotate:
  "distinct (map f (filter P (rotate k xs))) = distinct (map f (filter P xs))"
proof -
  let ?m = "k mod length xs"
  have "distinct (map f (filter P (take ?m xs @ drop ?m xs))) = distinct (map f (filter P (drop ?m xs @ take ?m xs)))"
    by (simp only: filter_append map_append distinct_append) (auto simp: Int_commute)
  then show ?thesis by (simp add: rotate_drop_take)
qed

lemma ring_list_facts:
  assumes "ring_ok r"
  shows "set (ring_list r) = slot_key ` set (take (er_n r) (er_slots r))"
    and "distinct (map fst (filter (\<lambda>(e, m, l). l) (ring_list r))) = distinct (live_epochs r)"
proof -
  have k: "map fst (filter (\<lambda>(e, m, l). l) (map slot_key ss)) = map es_epoch (filter es_live ss)" for ss
    by (induction ss) (auto simp: slot_key_def)
  show "set (ring_list r) = slot_key ` set (take (er_n r) (er_slots r))"
    using assms by (auto simp: ring_list_def ring_ok_def)
  show "distinct (map fst (filter (\<lambda>(e, m, l). l) (ring_list r))) = distinct (live_epochs r)"
    using assms unfolding ring_list_def k live_epochs_def
    by (auto simp: ring_ok_def distinct_filter_rotate simp del: rotate_Suc)
qed

text \<open>Rotation: after any sequence of installations of pairwise distinct epochs, the ring resolves
  exactly the last eight of them, each to the key it was installed with; every older epoch is gone.
\<close>
theorem installs_Lookup:
  assumes "distinct (map fst kvs)"
  shows "map_option fst (Lookup (installs new_ring kvs) ep) = map_of (drop (length kvs - 8) kvs) ep"
proof -
  let ?r = "installs new_ring kvs" and ?L = "drop (length kvs - 8) kvs"
  let ?T = "take (er_n ?r) (er_slots ?r)"
  have dL: "distinct (map fst ?L)" using distinct_drop [OF assms] by (simp add: drop_map)
  have "map fst (filter (\<lambda>(e, m, l). l) (map (\<lambda>(ep, mc). (ep, mc, True)) xs)) = map fst xs" for xs :: "(bytes \<times> bytes) list"
    by (induction xs) auto
  then have d: "distinct (live_epochs ?r)"
    using ring_list_facts(2) [OF ring_ok_installs, of kvs] dL by (simp add: ring_list_installs)
  have st: "slot_key ` set ?T = (\<lambda>(ep, mc). (ep, mc, True)) ` set ?L"
    using ring_list_facts(1) [OF ring_ok_installs, of kvs] by (simp add: ring_list_installs)
  show ?thesis
  proof (cases "map_of ?L ep")
    case None
    then have "ep \<notin> fst ` set ?L" by (simp add: map_of_eq_None_iff)
    have "\<not> (es_live s \<and> es_epoch s = ep)" if "s \<in> set ?T" for s
    proof
      assume "es_live s \<and> es_epoch s = ep"
      then have "(ep, es_mac s, True) \<in> slot_key ` set ?T" using that by (auto simp: slot_key_def intro!: rev_image_eqI)
      then show False using \<open>ep \<notin> fst ` set ?L\<close> unfolding st by (auto intro: rev_image_eqI)
    qed
    then have "find (\<lambda>s. es_live s \<and> es_epoch s = ep) ?T = None" by (simp add: find_None_iff)
    then show ?thesis using None by (simp add: Lookup_find ring_ok_installs)
  next
    case (Some mc)
    then have "(ep, mc) \<in> set ?L" by (rule map_of_SomeD)
    then have "(ep, mc, True) \<in> slot_key ` set ?T" unfolding st by (auto intro: rev_image_eqI)
    then obtain s where s: "s \<in> set ?T" "es_epoch s = ep" "es_mac s = mc" "es_live s" by (auto simp: slot_key_def)
    have "find (\<lambda>z. es_live z \<and> es_epoch z = ep) ?T = Some s"
      using d s by (intro find_distinct) (simp_all add: live_epochs_def)
    then show ?thesis using Some s by (simp add: Lookup_find ring_ok_installs)
  qed
qed

theorem installs_Lookup_witness:
  "map_option fst (Lookup (installs new_ring (map (\<lambda>i. ([i], [i + 100])) [1, 2, 3, 4, 5, 6, 7, 8, 9])) [1]) = None \<and>
   map_option fst (Lookup (installs new_ring (map (\<lambda>i. ([i], [i + 100])) [1, 2, 3, 4, 5, 6, 7, 8, 9])) [9]) = Some [109]"
  using installs_Lookup [of "map (\<lambda>i. ([i], [i + 100])) [1, 2, 3, 4, 5, 6, 7, 8, 9]"] by simp

definition revoked :: "EpochRing \<Rightarrow> nat \<Rightarrow> EpochRing" where
  "revoked r j = r\<lparr>er_slots := (er_slots r)[j := (er_slots r ! j)\<lparr>es_live := False,
       es_mac := replicate 32 0, es_gen := er_gens r ! j + 1\<rparr>], er_gens := (er_gens r)[j := er_gens r ! j + 1]\<rparr>"

lemma revoke_from_cases:
  "(revoke_from r ep i k = (False, r) \<and> (\<forall>j. i \<le> j \<and> j < i + k \<longrightarrow> \<not> (es_live (er_slots r ! j) \<and> es_epoch (er_slots r ! j) = ep)))
   \<or> (\<exists>j. i \<le> j \<and> j < i + k \<and> es_live (er_slots r ! j) \<and> es_epoch (er_slots r ! j) = ep \<and>
          revoke_from r ep i k = (True, revoked r j))"
proof (induction r ep i k rule: revoke_from.induct)
  case (2 r ep i k)
  show ?case
  proof (cases "es_live (er_slots r ! i) \<and> es_epoch (er_slots r ! i) = ep")
    case True
    then show ?thesis by (intro disjI2 exI [of _ i]) (simp add: revoked_def Let_def)
  next
    case False
    then have e: "revoke_from r ep i (Suc k) = revoke_from r ep (Suc i) k" by auto
    show ?thesis
      using 2 [OF False]
    proof (elim disjE exE conjE, goal_cases)
      case 1
      have "\<not> (es_live (er_slots r ! j) \<and> es_epoch (er_slots r ! j) = ep)" if "i \<le> j" "j < i + Suc k" for j
        using that 1(2) False by (cases "j = i") auto
      then show ?case using 1(1) e by auto
    next
      case (2 j)
      then show ?case using e by (intro disjI2 exI [of _ j]) auto
    qed
  qed
qed auto

lemma find_append: "find P (xs @ ys) = (case find P xs of None \<Rightarrow> find P ys | Some x \<Rightarrow> Some x)"
  by (induction xs) auto

lemma find_none: "(\<And>x. x \<in> set xs \<Longrightarrow> \<not> P x) \<Longrightarrow> find P xs = None"
  by (simp add: find_None_iff)

lemma revoked_active:
  assumes "ring_ok r" "j < er_n r"
  obtains A B s s' where "take (er_n r) (er_slots r) = A @ s # B" "s = er_slots r ! j"
    "take (er_n (revoked r j)) (er_slots (revoked r j)) = A @ s' # B" "\<not> es_live s'"
proof -
  let ?T = "take (er_n r) (er_slots r)" and ?s' = "(er_slots r ! j)\<lparr>es_live := False, es_mac := replicate 32 0, es_gen := er_gens r ! j + 1\<rparr>"
  have j: "j < length ?T" using assms by (simp add: ring_ok_def)
  have "?T = take j ?T @ er_slots r ! j # drop (Suc j) ?T" using id_take_nth_drop [OF j] assms(2) by simp
  moreover have "take (er_n (revoked r j)) (er_slots (revoked r j)) = take j ?T @ ?s' # drop (Suc j) ?T"
    using upd_conv_take_nth_drop [OF j, of ?s'] assms(2) by (simp add: revoked_def take_update_swap)
  ultimately show ?thesis using that [of "take j ?T" "er_slots r ! j" "drop (Suc j) ?T" ?s'] by simp
qed

text \<open>Revocation: in a ring whose live epochs are distinct, revoking an epoch that resolves reports
  success, erases its key, and makes it unresolvable, and every other epoch resolves as before;
  revoking one that does not resolve changes nothing.
\<close>
theorem Revoke_Lookup:
  assumes ok: "ring_ok r" and d: "distinct (live_epochs r)" and rv: "Revoke r ep = (b, r')"
  shows "b = (Lookup r ep \<noteq> None) \<and> Lookup r' ep = None \<and> (\<forall>ep'. ep' \<noteq> ep \<longrightarrow> Lookup r' ep' = Lookup r ep')
       \<and> ring_ok r' \<and> distinct (live_epochs r')"
proof -
  have n: "er_n r \<le> length (er_slots r)" using ok by (simp add: ring_ok_def)
  have ok': "ring_ok r'" using ring_ok_revoke_from [OF ok, of ep 0 "er_n r"] rv by (simp add: Revoke_def)
  from revoke_from_cases [of r ep 0 "er_n r"] show ?thesis
  proof (elim disjE exE conjE)
    assume "revoke_from r ep 0 (er_n r) = (False, r)"
      and none: "\<forall>j. 0 \<le> j \<and> j < 0 + er_n r \<longrightarrow> \<not> (es_live (er_slots r ! j) \<and> es_epoch (er_slots r ! j) = ep)"
    moreover have "find (\<lambda>s. es_live s \<and> es_epoch s = ep) (take (er_n r) (er_slots r)) = None"
      using none n by (intro find_none) (auto simp: in_set_conv_nth)
    ultimately show ?thesis using rv d ok by (auto simp: Revoke_def Lookup_find)
  next
    fix j assume j: "j < 0 + er_n r" and m: "es_live (er_slots r ! j)" "es_epoch (er_slots r ! j) = ep"
      and e: "revoke_from r ep 0 (er_n r) = (True, revoked r j)"
    have r': "b = True" "r' = revoked r j" using rv e by (simp_all add: Revoke_def)
    have "j < er_n r" using j by simp
    then obtain A B s s' where T: "take (er_n r) (er_slots r) = A @ s # B" "s = er_slots r ! j"
        "take (er_n r') (er_slots r') = A @ s' # B" "\<not> es_live s'"
      using revoked_active [OF ok] unfolding r'(2) by metis
    have dd: "distinct (map es_epoch (filter es_live (A @ s # B)))" using d unfolding live_epochs_def T(1) .
    then have other: "\<not> (es_live x \<and> es_epoch x = ep)" if "x \<in> set A \<union> set B" for x
      using that m unfolding T(2) [symmetric] by (auto simp: image_iff)
    have "find (\<lambda>s. es_live s \<and> es_epoch s = ep) (A @ s' # B) = None"
      using other T(4) by (intro find_none) auto
    moreover have "find (\<lambda>s. es_live s \<and> es_epoch s = ep) (A @ s # B) \<noteq> None"
      using m unfolding T(2) [symmetric] by (auto simp: find_None_iff)
    moreover have "find (\<lambda>s. es_live s \<and> es_epoch s = ep') (A @ s' # B) = find (\<lambda>s. es_live s \<and> es_epoch s = ep') (A @ s # B)"
      if "ep' \<noteq> ep" for ep' using that m T(4) unfolding T(2) [symmetric] by (auto simp: find_append split: option.split)
    moreover have "distinct (live_epochs r')" using dd T(4) unfolding live_epochs_def T(3) by (simp split: if_splits)
    ultimately show ?thesis using r'(1) ok ok' unfolding Lookup_find [OF ok] Lookup_find [OF ok'] T(1,3) by auto
  qed
qed

theorem Revoke_Lookup_witness:
  "let r = installs new_ring [([1], [11]), ([2], [12])]; p = Revoke r [1]
   in fst p \<and> Lookup (snd p) [1] = None \<and> Lookup (snd p) [2] = Some ([12], 1)"
proof -
  let ?r = "installs new_ring [([1], [11]), ([2], [12])]"
  have "distinct (live_epochs ?r)" by code_simp
  then have "fst (Revoke ?r [1]) = (Lookup ?r [1] \<noteq> None) \<and> Lookup (snd (Revoke ?r [1])) [1] = None \<and>
      (\<forall>ep'. ep' \<noteq> [1] \<longrightarrow> Lookup (snd (Revoke ?r [1])) ep' = Lookup ?r ep')"
    using Revoke_Lookup [OF ring_ok_installs, of _ "[1]" "fst (Revoke ?r [1])" "snd (Revoke ?r [1])"] by simp
  moreover have "Lookup ?r [1] \<noteq> None" by code_simp
  moreover have "Lookup ?r [2] = Some ([12], 1)" by code_simp
  ultimately show ?thesis by (simp add: Let_def)
qed

end
