(* ===== verification/Device.thy ===== *)
theory Device
  imports C2_Prelude
begin

text \<open>
  The block device of \<^verbatim>\<open>src/pkg/c2db/device.go\<close>. The kernel is outside the source: \<open>Kernel\<close>
  holds the file's bytes, the bytes that a successful \<^verbatim>\<open>fdatasync\<close> made durable, and a script of
  outcomes \<open>(n, err)\<close>, one per system call, that fixes what the kernel answers: how many bytes a
  transfer moved and whether it failed. Every finite run of the program consumes finitely many
  outcomes, so quantifying over scripts quantifies over all behaviours; past the end of the script
  calls succeed in full. The descriptor is open (\<open>d_fd\<close>) or closed. Buffer alignment is an
  address, which the model does not have: the callers under \<^verbatim>\<open>src/\<close> pass page-aligned mappings,
  and \<open>checkXfer\<close> takes the alignment as a flag.
\<close>

datatype dev_error = EBADF | EINVAL_align | DevicePoisoned | DeviceSize | DeviceGrow | BadLength
  | OutOfRange | ShortWrite | ShortRead | Errno nat

record Kernel =
  k_file :: bytes
  k_durable :: bytes
  k_io :: "(nat \<times> nat option) list"

record Device =
  d_fd :: bool
  d_size :: nat
  d_preadN :: nat
  d_pwriteN :: nat
  d_poisoned :: bool
  d_os :: Kernel

definition LBASize :: nat where
  [simp]: "LBASize = 4096"

section \<open>System calls\<close>

definition sys_outcome :: "nat \<Rightarrow> Kernel \<Rightarrow> (nat \<times> nat option) \<times> Kernel" where
  "sys_outcome dflt k = (case k_io k of [] \<Rightarrow> ((dflt, None), k) | x # xs \<Rightarrow> (x, k\<lparr>k_io := xs\<rparr>))"

definition sys_pwrite :: "bytes \<Rightarrow> nat \<Rightarrow> Kernel \<Rightarrow> (nat \<times> nat option) \<times> Kernel" where
  "sys_pwrite buf off k =
     (let ((n, e), k) = sys_outcome (length buf) k; n = min n (length buf)
      in ((n, e), k\<lparr>k_file := put_at (k_file k) off (take n buf)\<rparr>))"

definition sys_pread :: "nat \<Rightarrow> nat \<Rightarrow> Kernel \<Rightarrow> (bytes \<times> nat option) \<times> Kernel" where
  "sys_pread len off k =
     (let ((n, e), k) = sys_outcome len k in ((bslice (k_file k) off (min n len), e), k))"

definition sys_fdatasync :: "Kernel \<Rightarrow> nat option \<times> Kernel" where
  "sys_fdatasync k =
     (let ((n, e), k) = sys_outcome 0 k in (e, if e = None then k\<lparr>k_durable := k_file k\<rparr> else k))"

definition sys_resize :: "nat \<Rightarrow> Kernel \<Rightarrow> nat option \<times> Kernel" where
  "sys_resize sz k =
     (let ((n, e), k) = sys_outcome 0 k
      in (e, if e = None then k\<lparr>k_file := k_file k @ replicate (sz - length (k_file k)) 0\<rparr> else k))"

section \<open>The device\<close>

definition checkReady :: "(Device, dev_error, unit) op" where
  "checkReady d =
     (if \<not> d_fd d then (Inl EBADF, d) else if d_poisoned d then (Inl DevicePoisoned, d) else (Inr (), d))"

definition checkXfer :: "nat \<Rightarrow> bool \<Rightarrow> dev_error option" where
  "checkXfer n aligned =
     (if n = 0 \<or> n mod LBASize \<noteq> 0 then Some BadLength else if \<not> aligned then Some EINVAL_align else None)"

definition xferOff :: "Device \<Rightarrow> nat \<Rightarrow> nat \<Rightarrow> nat option" where
  "xferOff d lba nbytes =
     (let maxLBA = d_size d div LBASize; nLBA = nbytes div LBASize
      in if lba \<ge> maxLBA \<or> nLBA > maxLBA - lba then None else Some (lba * LBASize))"

function pwriteAll :: "bytes \<Rightarrow> nat \<Rightarrow> Device \<Rightarrow> (dev_error + unit) \<times> Device" where
  "pwriteAll buf off d =
     (if buf = [] then (Inr (), d)
      else case sys_pwrite buf off (d_os d) of ((n, e), k) \<Rightarrow>
        let d = d\<lparr>d_os := k\<rparr>;
            d = (if n > 0 then d\<lparr>d_pwriteN := d_pwriteN d + 1\<rparr> else d)
        in case e of
             Some err \<Rightarrow> (Inl (Errno err), d\<lparr>d_poisoned := True\<rparr>)
           | None \<Rightarrow> if n = 0 then (Inl ShortWrite, d\<lparr>d_poisoned := True\<rparr>)
                     else pwriteAll (drop n buf) (off + n) d)"
  by pat_completeness auto
termination by (relation "measure (\<lambda>(buf, off, d). length buf)") auto

declare pwriteAll.simps [simp del]

text \<open>\<^verbatim>\<open>preadAll\<close> fills its buffer from the front: the model returns the bytes of a full buffer.\<close>

function preadAll :: "nat \<Rightarrow> nat \<Rightarrow> Device \<Rightarrow> (dev_error + bytes) \<times> Device" where
  "preadAll len off d =
     (if len = 0 then (Inr [], d)
      else case sys_pread len off (d_os d) of ((got, e), k) \<Rightarrow>
        let d = d\<lparr>d_os := k\<rparr>;
            d = (if length got > 0 then d\<lparr>d_preadN := d_preadN d + 1\<rparr> else d)
        in case e of
             Some err \<Rightarrow> (Inl (Errno err), d\<lparr>d_poisoned := True\<rparr>)
           | None \<Rightarrow> if got = [] then (Inl ShortRead, d)
                     else (case preadAll (len - length got) (off + length got) d of
                             (Inl err, d) \<Rightarrow> (Inl err, d)
                           | (Inr rest, d) \<Rightarrow> (Inr (got @ rest), d)))"
  by pat_completeness auto
termination by (relation "measure (\<lambda>(len, off, d). len)") auto

declare preadAll.simps [simp del]

definition dev_Write :: "nat \<Rightarrow> bytes \<Rightarrow> bool \<Rightarrow> (Device, dev_error, unit) op" where
  "dev_Write lba buf aligned = op_bind checkReady (\<lambda>_ d.
     case checkXfer (length buf) aligned of Some e \<Rightarrow> (Inl e, d)
     | None \<Rightarrow> (case xferOff d lba (length buf) of None \<Rightarrow> (Inl OutOfRange, d)
               | Some off \<Rightarrow> pwriteAll buf off d))"

definition dev_Read :: "nat \<Rightarrow> nat \<Rightarrow> bool \<Rightarrow> (Device, dev_error, bytes) op" where
  "dev_Read lba len aligned = op_bind checkReady (\<lambda>_ d.
     case checkXfer len aligned of Some e \<Rightarrow> (Inl e, d)
     | None \<Rightarrow> (case xferOff d lba len of None \<Rightarrow> (Inl OutOfRange, d)
               | Some off \<Rightarrow> preadAll len off d))"

definition dev_Grow :: "nat \<Rightarrow> (Device, dev_error, unit) op" where
  "dev_Grow newSize = op_bind checkReady (\<lambda>_ d.
     if newSize = 0 \<or> newSize mod LBASize \<noteq> 0 then (Inl DeviceSize, d)
     else if newSize < d_size d then (Inl DeviceGrow, d)
     else if newSize = d_size d then (Inr (), d)
     else if newSize > 2 ^ 63 - 1 then (Inl DeviceSize, d)
     else case sys_resize newSize (d_os d) of
         (None, k) \<Rightarrow> (Inr (), d\<lparr>d_os := k, d_size := newSize\<rparr>)
       | (Some err, k) \<Rightarrow>
           if err = 28 \<or> err = 95 \<or> err = 22 then
             (case sys_resize newSize k of
                (None, k) \<Rightarrow> (Inr (), d\<lparr>d_os := k, d_size := newSize\<rparr>)
              | (Some err, k) \<Rightarrow> (Inl (Errno err), d\<lparr>d_os := k\<rparr>))
           else (Inl (Errno err), d\<lparr>d_os := k\<rparr>))"

definition dev_Flush :: "(Device, dev_error, unit) op" where
  "dev_Flush = op_bind checkReady (\<lambda>_ d.
     case sys_fdatasync (d_os d) of
       (Some err, k) \<Rightarrow> (Inl (Errno err), d\<lparr>d_os := k, d_poisoned := True\<rparr>)
     | (None, k) \<Rightarrow> (Inr (), d\<lparr>d_os := k\<rparr>))"

definition dev_Close :: "(Device, dev_error, unit) op" where
  "dev_Close d =
     (if \<not> d_fd d then (Inl EBADF, d)
      else case sys_outcome 0 (d_os d) of ((n, e), k) \<Rightarrow>
        ((case e of None \<Rightarrow> Inr () | Some err \<Rightarrow> Inl (Errno err)), d\<lparr>d_fd := False, d_os := k\<rparr>))"

definition dev_Open :: "Kernel \<Rightarrow> dev_error + Device" where
  "dev_Open k =
     (if length (k_file k) mod LBASize \<noteq> 0 then Inl BadLength
      else Inr \<lparr>d_fd = True, d_size = length (k_file k), d_preadN = 0, d_pwriteN = 0, d_poisoned = False, d_os = k\<rparr>)"

section \<open>Transfers\<close>

definition dev_ok :: "Device \<Rightarrow> bool" where
  "dev_ok d \<longleftrightarrow> d_size d = length (k_file (d_os d)) \<and> d_size d mod 4096 = 0"

abbreviation d_file :: "Device \<Rightarrow> bytes" where
  "d_file d \<equiv> k_file (d_os d)"

lemma sys_pwrite_cases:
  obtains n e k where "sys_pwrite buf off os = ((n, e), k)" "n \<le> length buf"
    "k_file k = put_at (k_file os) off (take n buf)" "k_durable k = k_durable os"
proof -
  obtain m e k where "sys_outcome (length buf) os = ((m, e), k)" "k_file k = k_file os" "k_durable k = k_durable os"
    by (cases "k_io os") (auto simp: sys_outcome_def)
  then show ?thesis using that [of "min m (length buf)" e] by (simp add: sys_pwrite_def Let_def)
qed

lemma bslice_self: "bslice p a (length (bslice p a n)) = bslice p a n"
  unfolding bslice_def by (metis append_take_drop_id append_eq_conv_conj)

lemma sys_pread_cases:
  obtains g e k where "sys_pread len off os = ((g, e), k)" "length g \<le> len"
    "k_file k = k_file os" "k_durable k = k_durable os" "g = bslice (k_file os) off (length g)"
proof -
  obtain m e k where "sys_outcome len os = ((m, e), k)" "k_file k = k_file os" "k_durable k = k_durable os"
    by (cases "k_io os") (auto simp: sys_outcome_def)
  then show ?thesis
    using that [of "bslice (k_file os) off (min m len)" e k] bslice_self [of "k_file os" off "min m len"]
    by (simp add: sys_pread_def Let_def)
qed

lemma pwriteAll_sound:
  "pwriteAll buf off d = (r, d') \<Longrightarrow> off + length buf \<le> length (d_file d) \<Longrightarrow>
   d_fd d' = d_fd d \<and> d_size d' = d_size d \<and> k_durable (d_os d') = k_durable (d_os d) \<and>
    (if isl r then d_poisoned d' \<and> (\<exists>n \<le> length buf. d_file d' = put_at (d_file d) off (take n buf))
     else d_file d' = put_at (d_file d) off buf \<and> d_poisoned d' = d_poisoned d)"
proof (induction buf off d rule: pwriteAll.induct)
  case (1 buf off d)
  obtain n e k where sp: "sys_pwrite buf off (d_os d) = ((n, e), k)" "n \<le> length buf"
      "k_file k = put_at (d_file d) off (take n buf)" "k_durable k = k_durable (d_os d)"
    by (rule sys_pwrite_cases)
  let ?d = "if n > 0 then d\<lparr>d_os := k, d_pwriteN := d_pwriteN d + 1\<rparr> else d\<lparr>d_os := k\<rparr>"
  show ?case
  proof (cases "buf = [] \<or> e \<noteq> None \<or> n = 0")
    case True
    then show ?thesis
      using "1.prems" sp
      by (auto simp: pwriteAll.simps [of buf off d] Let_def split: option.splits if_splits intro: exI [of _ 0] exI [of _ n])
  next
    case False
    have "pwriteAll (drop n buf) (off + n) ?d = (r, d')"
      using "1.prems"(1) sp(1) False by (subst (asm) pwriteAll.simps) (auto simp: Let_def)
    moreover have "off + n + length (drop n buf) \<le> length (d_file ?d)" using "1.prems"(2) sp by simp
    ultimately have IH: "d_fd d' = d_fd ?d \<and> d_size d' = d_size ?d \<and> k_durable (d_os d') = k_durable (d_os ?d) \<and>
      (if isl r then d_poisoned d' \<and> (\<exists>i \<le> length (drop n buf). d_file d' = put_at (d_file ?d) (off + n) (take i (drop n buf)))
       else d_file d' = put_at (d_file ?d) (off + n) (drop n buf) \<and> d_poisoned d' = d_poisoned ?d)"
      using "1.IH" sp(1) False by auto
    have j: "put_at (k_file k) (off + n) (take i (drop n buf)) = put_at (d_file d) off (take (n + i) buf)"
      if "i \<le> length buf - n" for i
      using put_at_append [of off "take n buf" "take i (drop n buf)" "d_file d"] "1.prems"(2) that sp(2,3)
      by (simp add: take_add)
    have all: "put_at (k_file k) (off + n) (drop n buf) = put_at (d_file d) off buf"
      using j [of "length buf - n"] sp(2) by simp
    have "\<exists>m \<le> length buf. d_file d' = put_at (d_file d) off (take m buf)" if l: "isl r"
    proof -
      obtain i where "i \<le> length buf - n" "d_file d' = put_at (k_file k) (off + n) (take i (drop n buf))"
        using IH l False by auto
      then show ?thesis using j sp(2) by (intro exI [of _ "n + i"]) simp
    qed
    then show ?thesis using IH all sp False by auto
  qed
qed

lemma preadAll_sound:
  "preadAll len off d = (r, d') \<Longrightarrow>
   d_fd d' = d_fd d \<and> d_size d' = d_size d \<and> d_file d' = d_file d \<and> k_durable (d_os d') = k_durable (d_os d) \<and>
   (case r of Inr buf \<Rightarrow> buf = bslice (d_file d) off len \<and> length buf = len \<and> d_poisoned d' = d_poisoned d | Inl _ \<Rightarrow> True)"
proof (induction len off d arbitrary: r d' rule: preadAll.induct)
  case (1 len off d)
  obtain g e k where sp: "sys_pread len off (d_os d) = ((g, e), k)" "length g \<le> len"
      "k_file k = d_file d" "k_durable k = k_durable (d_os d)" "g = bslice (d_file d) off (length g)"
    by (rule sys_pread_cases)
  let ?d = "if g = [] then d\<lparr>d_os := k\<rparr> else d\<lparr>d_os := k, d_preadN := d_preadN d + 1\<rparr>"
  show ?case
  proof (cases "len = 0 \<or> e \<noteq> None \<or> g = []")
    case True
    then show ?thesis
      using "1.prems" sp(1-4) by (auto simp: preadAll.simps [of len off d] Let_def bslice_def split: option.splits if_splits)
  next
    case False
    obtain r1 d1 where rest: "preadAll (len - length g) (off + length g) ?d = (r1, d1)" by (metis surj_pair)
    have IH: "d_fd d1 = d_fd ?d \<and> d_size d1 = d_size ?d \<and> d_file d1 = d_file ?d \<and> k_durable (d_os d1) = k_durable (d_os ?d) \<and>
       (case r1 of Inr buf \<Rightarrow> buf = bslice (d_file ?d) (off + length g) (len - length g) \<and> length buf = len - length g
                     \<and> d_poisoned d1 = d_poisoned ?d | Inl _ \<Rightarrow> True)"
      using "1.IH" sp(1) False rest by auto
    have e: "(r, d') = (case r1 of Inl err \<Rightarrow> (Inl err, d1) | Inr buf \<Rightarrow> (Inr (g @ buf), d1))"
      using "1.prems" sp(1) False rest by (subst (asm) preadAll.simps) (auto split: sum.splits)
    have "bslice (d_file d) off len = g @ bslice (d_file d) (off + length g) (len - length g)"
      using bslice_append [of "d_file d" off "length g" "len - length g"] sp(2,5) by simp
    then show ?thesis using e IH sp(1-4) False by (cases r1) auto
  qed
qed

section \<open>Whole operations\<close>

definition blk :: "Device \<Rightarrow> nat \<Rightarrow> bytes" where
  "blk d i = bslice (d_file d) (i * 4096) 4096"

abbreviation d_cap :: "Device \<Rightarrow> nat" where
  "d_cap d \<equiv> d_size d div 4096"

lemma xferOff_range:
  assumes "xferOff d lba n = Some off" "dev_ok d" "n mod 4096 = 0"
  shows "off = lba * 4096" "off + n \<le> length (d_file d)" "lba < d_cap d"
proof -
  have g: "lba < d_cap d" "n div 4096 \<le> d_cap d - lba" "off = lba * 4096"
    using assms(1) by (auto simp: xferOff_def Let_def split: if_splits)
  then show "off = lba * 4096" "lba < d_cap d" by simp_all
  have "n = n div 4096 * 4096" using assms(3) by (metis add.right_neutral div_mult_mod_eq)
  moreover have "d_size d = d_cap d * 4096"
    using assms(2) by (metis dev_ok_def add.right_neutral div_mult_mod_eq)
  ultimately have "off + n = (lba + n div 4096) * 4096" "lba + n div 4096 \<le> d_cap d"
    using g by (simp_all add: algebra_simps)
  then have "off + n \<le> d_cap d * 4096" by (metis mult_le_mono1)
  then show "off + n \<le> length (d_file d)"
    using assms(2) \<open>d_size d = d_cap d * 4096\<close> by (simp add: dev_ok_def)
qed

text \<open>What a write leaves, whatever the kernel answered.\<close>

lemma dev_Write_cases:
  assumes "dev_Write lba buf al d = (r, d')" "dev_ok d"
  shows "dev_ok d' \<and> d_size d' = d_size d \<and> d_fd d' = d_fd d \<and> k_durable (d_os d') = k_durable (d_os d) \<and>
    (if isl r then d' = d \<or> d_poisoned d' \<and> (\<exists>n \<le> length buf. d_file d' = put_at (d_file d) (lba * 4096) (take n buf))
     else d_fd d \<and> \<not> d_poisoned d \<and> \<not> d_poisoned d' \<and> lba < d_cap d \<and> lba * 4096 + length buf \<le> length (d_file d) \<and>
       d_file d' = put_at (d_file d) (lba * 4096) buf)"
proof (cases "d_fd d \<and> \<not> d_poisoned d \<and> checkXfer (length buf) al = None \<and> xferOff d lba (length buf) \<noteq> None")
  case False
  then have "d' = d \<and> isl r"
    using assms(1) by (auto simp: dev_Write_def checkReady_def op_bind_def split: if_splits option.splits)
  then show ?thesis using assms(2) by simp
next
  case True
  then obtain off where off: "xferOff d lba (length buf) = Some off" by blast
  have pw: "pwriteAll buf off d = (r, d')"
    using assms(1) True off by (simp add: dev_Write_def checkReady_def op_bind_def)
  have "length buf mod 4096 = 0" using True by (simp add: checkXfer_def split: if_splits)
  note x = xferOff_range [OF off assms(2) this]
  show ?thesis
    using pwriteAll_sound [OF pw x(2)] x True assms(2) by (auto simp: dev_ok_def)
qed

lemma dev_Read_cases:
  assumes "dev_Read lba len al d = (r, d')" "dev_ok d"
  shows "dev_ok d' \<and> d_size d' = d_size d \<and> d_fd d' = d_fd d \<and> d_file d' = d_file d \<and>
     k_durable (d_os d') = k_durable (d_os d) \<and>
     (case r of Inl _ \<Rightarrow> True
      | Inr buf \<Rightarrow> d_fd d \<and> \<not> d_poisoned d \<and> \<not> d_poisoned d' \<and> lba < d_cap d \<and>
          buf = bslice (d_file d) (lba * 4096) len \<and> length buf = len)"
proof (cases "d_fd d \<and> \<not> d_poisoned d \<and> checkXfer len al = None \<and> xferOff d lba len \<noteq> None")
  case False
  then have "d' = d \<and> isl r"
    using assms(1) by (auto simp: dev_Read_def checkReady_def op_bind_def split: if_splits option.splits)
  then show ?thesis using assms(2) by (cases r) simp_all
next
  case True
  then obtain off where off: "xferOff d lba len = Some off" by blast
  have pr: "preadAll len off d = (r, d')"
    using assms(1) True off by (simp add: dev_Read_def checkReady_def op_bind_def)
  have "len mod 4096 = 0" using True by (simp add: checkXfer_def split: if_splits)
  note x = xferOff_range [OF off assms(2) this]
  show ?thesis
    using preadAll_sound [OF pr] x True assms(2) by (cases r) (auto simp: dev_ok_def)
qed

lemma dev_Flush_cases:
  assumes "dev_Flush d = (r, d')" "dev_ok d"
  shows "dev_ok d' \<and> d_size d' = d_size d \<and> d_fd d' = d_fd d \<and> d_file d' = d_file d \<and>
    (if isl r then (d' = d \<or> d_poisoned d') \<and> k_durable (d_os d') = k_durable (d_os d)
     else d_fd d \<and> \<not> d_poisoned d' \<and> k_durable (d_os d') = d_file d)"
  using assms
  by (auto simp: dev_Flush_def checkReady_def op_bind_def sys_fdatasync_def sys_outcome_def dev_ok_def Let_def
      split: if_splits option.splits list.splits prod.splits)

text \<open>A poisoned device answers every operation with the same error and does nothing.\<close>

lemma poisoned_stuck:
  assumes "d_fd d" "d_poisoned d"
  shows "dev_Write lba buf al d = (Inl DevicePoisoned, d)" "dev_Read lba len al d = (Inl DevicePoisoned, d)"
    "dev_Grow sz d = (Inl DevicePoisoned, d)" "dev_Flush d = (Inl DevicePoisoned, d)"
  using assms by (simp_all add: dev_Write_def dev_Read_def dev_Grow_def dev_Flush_def op_bind_def checkReady_def)

section \<open>The block-store interface\<close>

text \<open>The block loops the journal runs on its device, over a read and a write of one block.\<close>

fun move_down :: "(nat \<Rightarrow> ('s, 'e, bytes) op) \<Rightarrow> (nat \<Rightarrow> bytes \<Rightarrow> ('s, 'e, unit) op) \<Rightarrow> nat \<Rightarrow> nat \<Rightarrow> nat \<Rightarrow> ('s, 'e, unit) op" where
  "move_down rd wr src i 0 = op_ret ()"
| "move_down rd wr src i (Suc k) =
     op_bind (rd (src + i)) (\<lambda>b. op_bind (wr i b) (\<lambda>_. move_down rd wr src (Suc i) k))"

fun shift_up :: "(nat \<Rightarrow> ('s, 'e, bytes) op) \<Rightarrow> (nat \<Rightarrow> bytes \<Rightarrow> ('s, 'e, unit) op) \<Rightarrow> nat \<Rightarrow> ('s, 'e, unit) op" where
  "shift_up rd wr 0 = op_ret ()"
| "shift_up rd wr (Suc i) = op_bind (rd i) (\<lambda>b. op_bind (wr (Suc i) b) (\<lambda>_. shift_up rd wr i))"

fun zero_range :: "(nat \<Rightarrow> bytes \<Rightarrow> ('s, 'e, unit) op) \<Rightarrow> nat \<Rightarrow> nat \<Rightarrow> ('s, 'e, unit) op" where
  "zero_range wr i 0 = op_ret ()"
| "zero_range wr i (Suc k) = op_bind (wr i (replicate 4096 0)) (\<lambda>_. zero_range wr (Suc i) k)"

text \<open>
  What a client may rely on: a successful read returns the stored block and changes no block, a
  successful write replaces one block and no other, and the invariant and the capacity persist.
\<close>

locale block_store =
  fixes rd :: "nat \<Rightarrow> ('s, 'e, bytes) op"
    and wr :: "nat \<Rightarrow> bytes \<Rightarrow> ('s, 'e, unit) op"
    and inv :: "'s \<Rightarrow> bool"
    and blocks :: "'s \<Rightarrow> nat \<Rightarrow> bytes"
    and cap :: "'s \<Rightarrow> nat"
  assumes rd_law: "inv s \<Longrightarrow> rd i s = (Inr b, s') \<Longrightarrow>
      inv s' \<and> blocks s' = blocks s \<and> cap s' = cap s \<and> i < cap s \<and> b = blocks s i \<and> length b = 4096"
    and wr_law: "inv s \<Longrightarrow> length b = 4096 \<Longrightarrow> wr i b s = (Inr u, s') \<Longrightarrow>
      inv s' \<and> blocks s' = (blocks s)(i := b) \<and> cap s' = cap s \<and> i < cap s"
begin

lemma move_down_blocks:
  "inv s \<Longrightarrow> move_down rd wr src i k s = (Inr u, s') \<Longrightarrow>
   inv s' \<and> cap s' = cap s \<and> blocks s' = (\<lambda>j. if i \<le> j \<and> j < i + k then blocks s (src + j) else blocks s j)"
proof (induction k arbitrary: i s)
  case (Suc k)
  from Suc.prems(2) obtain b s1 s2 where r: "rd (src + i) s = (Inr b, s1)" and w: "wr i b s1 = (Inr (), s2)"
      and m: "move_down rd wr src (Suc i) k s2 = (Inr u, s')"
    by (auto elim!: op_bind_InrE)
  note r' = rd_law [OF Suc.prems(1) r]
  note w' = wr_law [of s1 b i "()" s2]
  have b: "blocks s2 = (blocks s)(i := blocks s (src + i))" "inv s2" "cap s2 = cap s"
    using r' w' w by auto
  show ?case
    using Suc.IH [OF b(2) m] b by (auto simp: fun_eq_iff)
qed (auto simp: fun_eq_iff)

lemma shift_up_blocks:
  "inv s \<Longrightarrow> shift_up rd wr k s = (Inr u, s') \<Longrightarrow>
   inv s' \<and> cap s' = cap s \<and> blocks s' = (\<lambda>j. if 0 < j \<and> j \<le> k then blocks s (j - 1) else blocks s j)"
proof (induction k arbitrary: s)
  case (Suc k)
  from Suc.prems(2) obtain b s1 s2 where r: "rd k s = (Inr b, s1)" and w: "wr (Suc k) b s1 = (Inr (), s2)"
      and m: "shift_up rd wr k s2 = (Inr u, s')"
    by (auto elim!: op_bind_InrE)
  note r' = rd_law [OF Suc.prems(1) r]
  note w' = wr_law [of s1 b "Suc k" "()" s2]
  have b: "blocks s2 = (blocks s)(Suc k := blocks s k)" "inv s2" "cap s2 = cap s"
    using r' w' w by auto
  show ?case
    using Suc.IH [OF b(2) m] b by (auto simp: fun_eq_iff le_Suc_eq)
qed auto

lemma zero_range_blocks:
  "inv s \<Longrightarrow> zero_range wr i k s = (Inr u, s') \<Longrightarrow>
   inv s' \<and> cap s' = cap s \<and> blocks s' = (\<lambda>j. if i \<le> j \<and> j < i + k then replicate 4096 0 else blocks s j)"
proof (induction k arbitrary: i s)
  case (Suc k)
  from Suc.prems(2) obtain s1 where w: "wr i (replicate 4096 0) s = (Inr (), s1)"
      and m: "zero_range wr (Suc i) k s1 = (Inr u, s')"
    by (auto elim!: op_bind_InrE)
  note w' = wr_law [OF Suc.prems(1) _ w]
  show ?case
    using Suc.IH [OF _ m] w' by (auto simp: fun_eq_iff)
qed (auto simp: fun_eq_iff)

end

text \<open>A store that also answers: reads and writes below the capacity succeed while it is \<open>live\<close>.\<close>

locale live_store = block_store rd wr inv blocks cap
  for rd :: "nat \<Rightarrow> ('s, 'e, bytes) op" and wr :: "nat \<Rightarrow> bytes \<Rightarrow> ('s, 'e, unit) op"
    and inv :: "'s \<Rightarrow> bool" and blocks :: "'s \<Rightarrow> nat \<Rightarrow> bytes" and cap :: "'s \<Rightarrow> nat" +
  fixes live :: "'s \<Rightarrow> bool"
  assumes rd_live: "inv s \<Longrightarrow> live s \<Longrightarrow> i < cap s \<Longrightarrow> \<exists>b s'. rd i s = (Inr b, s') \<and> live s'"
    and wr_live: "inv s \<Longrightarrow> live s \<Longrightarrow> i < cap s \<Longrightarrow> length b = 4096 \<Longrightarrow> \<exists>s'. wr i b s = (Inr (), s') \<and> live s'"
begin

lemma move_down_live:
  "inv s \<Longrightarrow> live s \<Longrightarrow> src + i + k \<le> cap s \<Longrightarrow> \<exists>s'. move_down rd wr src i k s = (Inr (), s') \<and> live s'"
proof (induction k arbitrary: i s)
  case (Suc k)
  obtain b s1 where r: "rd (src + i) s = (Inr b, s1)" "live s1" using rd_live [of s "src + i"] Suc.prems by auto
  note r' = rd_law [OF Suc.prems(1) r(1)]
  obtain s2 where w: "wr i b s1 = (Inr (), s2)" "live s2" using wr_live [of s1 i b] r' r(2) Suc.prems(3) by auto
  have "inv s2" "cap s2 = cap s" using wr_law [of s1 b i "()" s2] r' w(1) by auto
  then show ?case using Suc.IH [of s2 "Suc i"] w r Suc.prems(3) by (simp add: op_bind_def)
qed simp

lemma shift_up_live: "inv s \<Longrightarrow> live s \<Longrightarrow> k < cap s \<Longrightarrow> \<exists>s'. shift_up rd wr k s = (Inr (), s') \<and> live s'"
proof (induction k arbitrary: s)
  case (Suc k)
  obtain b s1 where r: "rd k s = (Inr b, s1)" "live s1" using rd_live [of s k] Suc.prems by auto
  note r' = rd_law [OF Suc.prems(1) r(1)]
  obtain s2 where w: "wr (Suc k) b s1 = (Inr (), s2)" "live s2" using wr_live [of s1 "Suc k" b] r' r(2) Suc.prems(3) by auto
  have "inv s2" "cap s2 = cap s" using wr_law [of s1 b "Suc k" "()" s2] r' w(1) by auto
  then show ?case using Suc.IH [of s2] w r Suc.prems(3) by (simp add: op_bind_def)
qed simp

lemma zero_range_live:
  "inv s \<Longrightarrow> live s \<Longrightarrow> i + k \<le> cap s \<Longrightarrow> \<exists>s'. zero_range wr i k s = (Inr (), s') \<and> live s'"
proof (induction k arbitrary: i s)
  case (Suc k)
  obtain s2 where w: "wr i (replicate 4096 0) s = (Inr (), s2)" "live s2" using wr_live [of s i "replicate 4096 0"] Suc.prems by auto
  have "inv s2" "cap s2 = cap s" using wr_law [OF Suc.prems(1) _ w(1)] by auto
  then show ?case using Suc.IH [of s2 "Suc i"] w Suc.prems(3) by (simp add: op_bind_def)
qed simp

end

lemma bslice_put_block:
  assumes "lba * 4096 + 4096 \<le> length f" "length b = 4096"
  shows "bslice (put_at f (lba * 4096) b) (i * 4096) 4096 = (if i = lba then b else bslice f (i * 4096) 4096)"
proof (cases "i = lba")
  case False
  then have "i * 4096 + 4096 \<le> lba * 4096 \<or> lba * 4096 + 4096 \<le> i * 4096" by (cases "i < lba") auto
  then show ?thesis
    using False assms by (intro nth_equalityI) (auto simp: put_at_nth)
qed (use assms in auto)

interpretation dev: block_store "\<lambda>i. dev_Read i 4096 True" "\<lambda>i b. dev_Write i b True" dev_ok blk d_cap
proof
  fix s i b and s' :: Device
  assume "dev_ok s" "dev_Read i 4096 True s = (Inr b, s')"
  then show "dev_ok s' \<and> blk s' = blk s \<and> d_cap s' = d_cap s \<and> i < d_cap s \<and> b = blk s i \<and> length b = 4096"
    using dev_Read_cases [of i 4096 True s "Inr b" s'] by (auto simp: blk_def fun_eq_iff)
next
  fix s b i u and s' :: Device
  assume "dev_ok s" "length b = 4096" "dev_Write i b True s = (Inr u, s')"
  then show "dev_ok s' \<and> blk s' = (blk s)(i := b) \<and> d_cap s' = d_cap s \<and> i < d_cap s"
    using dev_Write_cases [of i b True s "Inr u" s'] by (auto simp: blk_def fun_eq_iff bslice_put_block)
qed

lemma put_at_take_drop:
  "take a (put_at p a (take n xs)) = take a p \<and> drop (a + length xs) (put_at p a (take n xs)) = drop (a + length xs) p"
proof (induction xs arbitrary: p a n)
  case (Cons x xs)
  show ?case
  proof (cases n)
    case (Suc m)
    have "take a (put_at (p[a := x]) (Suc a) (take m xs)) = take a (take (Suc a) (put_at (p[a := x]) (Suc a) (take m xs)))" by simp
    also have "\<dots> = take a p" using Cons [of "Suc a" "p[a := x]" m] by simp
    finally show ?thesis using Cons [of "Suc a" "p[a := x]" m] Suc by simp
  qed simp
qed simp

section \<open>Runs of the device\<close>

inductive dev_step :: "Device \<Rightarrow> Device \<Rightarrow> bool" where
  step_write: "dev_Write lba buf al d = (r, d') \<Longrightarrow> dev_step d d'"
| step_read: "dev_Read lba len al d = (r', d') \<Longrightarrow> dev_step d d'"
| step_grow: "dev_Grow sz d = (r, d') \<Longrightarrow> dev_step d d'"
| step_flush: "dev_Flush d = (r, d') \<Longrightarrow> dev_step d d'"
| step_close: "dev_Close d = (r, d') \<Longrightarrow> dev_step d d'"

lemma closed_stuck:
  assumes "\<not> d_fd d"
  shows "dev_Write lba buf al d = (Inl EBADF, d)" "dev_Read lba len al d = (Inl EBADF, d)"
    "dev_Grow sz d = (Inl EBADF, d)" "dev_Flush d = (Inl EBADF, d)" "dev_Close d = (Inl EBADF, d)"
  using assms by (simp_all add: dev_Write_def dev_Read_def dev_Grow_def dev_Flush_def dev_Close_def op_bind_def checkReady_def)

lemma dev_Close_frame:
  "dev_Close d = (r, d') \<Longrightarrow> d_poisoned d' = d_poisoned d \<and> d_file d' = d_file d \<and> k_durable (d_os d') = k_durable (d_os d)"
  by (auto simp: dev_Close_def sys_outcome_def split: if_splits list.splits)

lemma dev_step_poisoned:
  "dev_step d d' \<Longrightarrow> d_poisoned d \<Longrightarrow>
   d_poisoned d' \<and> d_file d' = d_file d \<and> k_durable (d_os d') = k_durable (d_os d)"
  by (cases "d_fd d") (auto elim!: dev_step.cases simp: poisoned_stuck closed_stuck dest: dev_Close_frame)

text \<open>Fail-stop: once a transfer or a barrier has failed, the device is poisoned, and no later sequence
  of operations changes the file or what is durable, or clears the mark.
\<close>
theorem poisoned_forever:
  assumes "dev_step\<^sup>*\<^sup>* d d'" "d_poisoned d"
  shows "d_poisoned d' \<and> d_file d' = d_file d \<and> k_durable (d_os d') = k_durable (d_os d)"
  using assms by (induction rule: rtranclp_induct) (auto dest: dev_step_poisoned)

text \<open>A device of one block whose kernel first moves 5 bytes and then fails with EIO (5).\<close>
definition faulty_dev :: Device where
  "faulty_dev = \<lparr>d_fd = True, d_size = 4096, d_preadN = 0, d_pwriteN = 0, d_poisoned = False,
     d_os = \<lparr>k_file = replicate 4096 0, k_durable = replicate 4096 0, k_io = [(5, None), (0, Some 5)]\<rparr>\<rparr>"

lemma faulty_write:
  "fst (dev_Write 0 (replicate 4096 1) True faulty_dev) = Inl (Errno 5)"
  "d_poisoned (snd (dev_Write 0 (replicate 4096 1) True faulty_dev))"
  by (simp_all add: dev_Write_def op_bind_def checkReady_def checkXfer_def xferOff_def faulty_dev_def
      pwriteAll.simps sys_pwrite_def sys_outcome_def Let_def)

theorem poisoned_forever_witness:
  "let d = snd (dev_Write 0 (replicate 4096 1) True faulty_dev); d' = snd (dev_Flush (snd (dev_Write 0 (replicate 4096 2) True d)))
   in d_poisoned d' \<and> d_file d' = d_file d"
proof -
  let ?d = "snd (dev_Write 0 (replicate 4096 1) True faulty_dev)"
  let ?w = "dev_Write 0 (replicate 4096 2) True ?d"
  have "dev_step ?d (snd ?w)" by (rule step_write [of _ _ _ _ "fst ?w"]) simp
  moreover have "dev_step (snd ?w) (snd (dev_Flush (snd ?w)))" by (rule step_flush [of _ "fst (dev_Flush (snd ?w))"]) simp
  ultimately have "dev_step\<^sup>*\<^sup>* ?d (snd (dev_Flush (snd ?w)))" by (meson rtranclp.rtrancl_into_rtrancl rtranclp.rtrancl_refl)
  from poisoned_forever [OF this faulty_write(2)] show ?thesis by (simp add: Let_def)
qed

text \<open>Transfers are exact whatever short counts the kernel returns: a read that succeeds after a write
  that succeeded returns the written bytes where they overlap and the older bytes elsewhere, and a
  write that fails leaves the device as it was, or poisoned with no byte outside its range changed.
\<close>
theorem read_after_write:
  assumes "dev_ok d" "dev_Write lba buf al d = (r, d')"
  shows "(isl r \<longrightarrow> d' = d \<or> (d_poisoned d' \<and> take (lba * 4096) (d_file d') = take (lba * 4096) (d_file d)
              \<and> drop (lba * 4096 + length buf) (d_file d') = drop (lba * 4096 + length buf) (d_file d))) \<and>
    (\<not> isl r \<longrightarrow> (\<forall>lba' len b d''. dev_Read lba' len True d' = (Inr b, d'') \<longrightarrow>
              b = bslice (put_at (d_file d) (lba * 4096) buf) (lba' * 4096) len))"
proof (intro conjI impI)
  note c = dev_Write_cases [OF assms(2,1)]
  have l: "length (d_file d') = length (d_file d)" using c assms(1) by (simp add: dev_ok_def)
  assume "isl r"
  then have "d' = d \<or> d_poisoned d' \<and> (\<exists>n \<le> length buf. d_file d' = put_at (d_file d) (lba * 4096) (take n buf))"
    using c by simp
  then show "d' = d \<or> (d_poisoned d' \<and> take (lba * 4096) (d_file d') = take (lba * 4096) (d_file d)
              \<and> drop (lba * 4096 + length buf) (d_file d') = drop (lba * 4096 + length buf) (d_file d))"
    by (metis put_at_take_drop)
next
  note c = dev_Write_cases [OF assms(2,1)]
  assume "\<not> isl r"
  then have w: "dev_ok d'" "d_file d' = put_at (d_file d) (lba * 4096) buf" using c by simp_all
  show "\<forall>lba' len b d''. dev_Read lba' len True d' = (Inr b, d'') \<longrightarrow>
              b = bslice (put_at (d_file d) (lba * 4096) buf) (lba' * 4096) len"
    using dev_Read_cases [OF _ w(1)] unfolding w(2) [symmetric] by fastforce
qed

theorem read_after_write_witness:
  "let d = faulty_dev\<lparr>d_os := (d_os faulty_dev)\<lparr>k_io := [(5, None), (1, None)]\<rparr>\<rparr>;
       d' = snd (dev_Write 0 (replicate 4096 1) True d)
   in \<forall>b d''. dev_Read 0 4096 True d' = (Inr b, d'') \<longrightarrow> b = replicate 4096 1"
proof -
  let ?d = "faulty_dev\<lparr>d_os := (d_os faulty_dev)\<lparr>k_io := [(5, None), (1, None)]\<rparr>\<rparr>"
  let ?w = "dev_Write 0 (replicate 4096 1) True ?d"
  have ok: "dev_ok ?d" by (simp add: dev_ok_def faulty_dev_def)
  have w: "dev_Write 0 (replicate 4096 1) True ?d = (fst ?w, snd ?w)" by simp
  have nl: "\<not> isl (fst ?w)"
    by (simp add: dev_Write_def op_bind_def checkReady_def checkXfer_def xferOff_def faulty_dev_def
      pwriteAll.simps sys_pwrite_def sys_outcome_def Let_def)
  have b: "bslice (put_at (d_file ?d) (0 * 4096) (replicate 4096 1)) (0 * 4096) 4096 = replicate 4096 1"
    by (simp add: faulty_dev_def)
  have "\<forall>lba' len b d''. dev_Read lba' len True (snd ?w) = (Inr b, d'') \<longrightarrow>
      b = bslice (put_at (d_file ?d) (0 * 4096) (replicate 4096 1)) (lba' * 4096) len"
    using read_after_write [OF ok w] nl by blast
  then have "\<forall>b d''. dev_Read 0 4096 True (snd ?w) = (Inr b, d'') \<longrightarrow> b = replicate 4096 1"
    using b by metis
  then show ?thesis by (simp only: Let_def)
qed

end
