(* ===== verification/Device_Live.thy ===== *)
theory Device_Live
  imports Device
begin

text \<open>
  Liveness of the block device: on a device whose system calls succeed, reads, writes and flushes of
  blocks in range return. The theorems about clients that must succeed rest on these facts.
\<close>

section \<open>A healthy device\<close>

definition healthy :: "Device \<Rightarrow> bool" where
  "healthy d \<longleftrightarrow> dev_ok d \<and> d_fd d \<and> \<not> d_poisoned d \<and> k_io (d_os d) = []"

lemma xferOff_in: "i < d_cap d \<Longrightarrow> 0 < n \<Longrightarrow> i + n \<le> d_cap d \<Longrightarrow> xferOff d i (n * 4096) = Some (i * 4096)"
  by (simp add: xferOff_def Let_def)

lemma blk_length: "dev_ok d \<Longrightarrow> i < d_cap d \<Longrightarrow> length (blk d i) = 4096"
proof -
  assume ok: "dev_ok d" and i: "i < d_cap d"
  have "(i + 1) * 4096 \<le> d_cap d * 4096" using i by (intro mult_le_mono1) simp
  also have "\<dots> \<le> d_size d" by simp
  finally show "length (blk d i) = 4096" using ok by (simp add: blk_def dev_ok_def)
qed

lemma dev_Read_healthy:
  assumes "healthy d" "i < d_cap d"
  shows "\<exists>d'. dev_Read i 4096 True d = (Inr (blk d i), d') \<and> healthy d'"
proof -
  have ok: "dev_ok d" using assms(1) by (simp add: healthy_def)
  have x: "xferOff d i 4096 = Some (i * 4096)" using xferOff_in [of i d 1] assms(2) by simp
  have l: "length (bslice (d_file d) (i * 4096) 4096) = 4096" using blk_length [OF ok assms(2)] by (simp only: blk_def)
  then have ne: "bslice (d_file d) (i * 4096) 4096 \<noteq> []" by (metis list.size(3) zero_neq_numeral)
  have sp: "sys_pread 4096 (i * 4096) (d_os d) = ((blk d i, None), d_os d)"
    using assms(1) by (simp add: sys_pread_def sys_outcome_def healthy_def blk_def)
  let ?d = "d\<lparr>d_preadN := d_preadN d + 1\<rparr>"
  have "preadAll 4096 (i * 4096) d = (Inr (blk d i), ?d)"
    using sp l ne by (subst preadAll.simps) (simp add: Let_def preadAll.simps [of 0] blk_def del: bslice_length)
  then have "dev_Read i 4096 True d = (Inr (blk d i), ?d)"
    using assms x by (simp add: dev_Read_def op_bind_def checkReady_def checkXfer_def healthy_def)
  moreover have "healthy ?d" using assms(1) by (auto simp: healthy_def dev_ok_def)
  ultimately show ?thesis by blast
qed

lemma dev_Write_healthy:
  assumes "healthy d" "length buf = n * 4096" "0 < n" "i + n \<le> d_cap d"
  shows "\<exists>d'. dev_Write i buf True d = (Inr (), d') \<and> healthy d'"
proof -
  have i: "i < d_cap d" using assms(3,4) by simp
  have x: "xferOff d i (length buf) = Some (i * 4096)" using xferOff_in [OF i assms(3,4)] assms(2) by simp
  have ne: "buf \<noteq> []" using assms(2,3) by auto
  have fit: "i * 4096 + length buf \<le> length (d_file d)"
    using xferOff_range(2) [OF x] assms(1,2) by (simp add: healthy_def)
  let ?k = "(d_os d)\<lparr>k_file := put_at (d_file d) (i * 4096) buf\<rparr>"
  have sp: "sys_pwrite buf (i * 4096) (d_os d) = ((length buf, None), ?k)"
    using assms(1) by (simp add: sys_pwrite_def sys_outcome_def healthy_def Let_def)
  let ?d = "d\<lparr>d_os := ?k, d_pwriteN := d_pwriteN d + 1\<rparr>"
  have "pwriteAll buf (i * 4096) d = (Inr (), ?d)"
    using sp ne by (subst pwriteAll.simps) (simp add: Let_def pwriteAll.simps [of "[]"])
  then have "dev_Write i buf True d = (Inr (), ?d)"
    using assms x by (simp add: dev_Write_def op_bind_def checkReady_def checkXfer_def healthy_def)
  moreover have "healthy ?d" using assms(1) by (auto simp: healthy_def dev_ok_def)
  ultimately show ?thesis by blast
qed

lemma dev_Flush_healthy: "healthy d \<Longrightarrow> \<exists>d'. dev_Flush d = (Inr (), d') \<and> healthy d'"
  by (auto simp: dev_Flush_def op_bind_def checkReady_def healthy_def sys_fdatasync_def sys_outcome_def dev_ok_def Let_def)

interpretation dev_live: live_store "\<lambda>i. dev_Read i 4096 True" "\<lambda>i b. dev_Write i b True" dev_ok blk d_cap healthy
proof
  fix d i assume "healthy d" "i < d_cap d"
  then show "\<exists>b d'. dev_Read i 4096 True d = (Inr b, d') \<and> healthy d'" using dev_Read_healthy by blast
next
  fix d i and b :: bytes assume "healthy d" "i < d_cap d" "length b = 4096"
  then show "\<exists>d'. dev_Write i b True d = (Inr (), d') \<and> healthy d'" using dev_Write_healthy [of d b 1 i] by simp
qed

definition zero_dev :: "nat \<Rightarrow> Device" where
  "zero_dev n = \<lparr>d_fd = True, d_size = n * 4096, d_preadN = 0, d_pwriteN = 0, d_poisoned = False,
     d_os = \<lparr>k_file = replicate (n * 4096) 0, k_durable = replicate (n * 4096) 0, k_io = []\<rparr>\<rparr>"

lemma zero_dev_blk: "i < n \<Longrightarrow> blk (zero_dev n) i = replicate 4096 0"
proof -
  assume "i < n"
  then have "(i + 1) * 4096 \<le> n * 4096" by (intro mult_le_mono1) simp
  then show ?thesis by (simp add: blk_def zero_dev_def bslice_def)
qed

lemma zero_dev_ok: "dev_ok (zero_dev n)" "healthy (zero_dev n)" "d_cap (zero_dev n) = n"
  by (simp_all add: dev_ok_def zero_dev_def healthy_def)

end
