(* ===== verification/Wal_Block.thy ===== *)
theory Wal_Block
  imports C2_Prelude
begin

text \<open>
  The 4096-byte journal block of \<^verbatim>\<open>src/pkg/c2db/db_wal_gen.go\<close>: a magic number, the payload
  length, a 16-byte record id, a type byte, the payload, zero padding and a 16-byte tag slot.
  The helpers test their block against \<^verbatim>\<open>nil\<close> and then clamp \<open>n\<close> to its length; a nil block has
  length 0, so both tests give the same answer and the model takes the block as a list. The id and
  payload arguments, where nil and empty differ, are options.
\<close>

record Db_wal_desc_t =
  d_Magic :: u32
  d_Len :: u32
  d_Typ :: byte
  d_Plen :: u32
  d_Ok :: bool

definition Db_wal_bounds :: "bytes \<Rightarrow> nat \<Rightarrow> nat \<Rightarrow> nat \<Rightarrow> bool" where
  "Db_wal_bounds block n addr len =
     (let n = min n (length block); len = min len (length block)
      in n = 0x1000 \<and> addr < n \<and> len \<le> n - addr)"

definition Db_wal_type_ok :: "byte \<Rightarrow> bool" where
  "Db_wal_type_ok t \<longleftrightarrow> t \<in> {0, 1, 2, 3, 4, 5, 6, 7, 8, 9}"

definition Db_wal_payload_off :: nat where
  "Db_wal_payload_off = 25"

definition Db_wal_tag_off :: nat where
  "Db_wal_tag_off = 0xff0"

definition wal_read8 :: "bytes \<Rightarrow> nat \<Rightarrow> nat \<Rightarrow> byte" where
  "wal_read8 block n addr =
     (let n = min n (length block) in if addr < n \<and> 1 \<le> n - addr then block ! addr else 0)"

definition wal_read32 :: "bytes \<Rightarrow> nat \<Rightarrow> nat \<Rightarrow> u32" where
  "wal_read32 block n addr =
     (let n = min n (length block) in
      if addr < n \<and> 4 \<le> n - addr then le_get32 (drop addr block) else 0)"

definition wal_write8 :: "bytes \<Rightarrow> nat \<Rightarrow> nat \<Rightarrow> byte \<Rightarrow> bytes" where
  "wal_write8 block n addr val =
     (let n = min n (length block) in
      if addr < n \<and> 1 \<le> n - addr then block[addr := val] else block)"

definition wal_write32 :: "bytes \<Rightarrow> nat \<Rightarrow> nat \<Rightarrow> u32 \<Rightarrow> bytes" where
  "wal_write32 block n addr val =
     (let n = min n (length block) in
      if addr < n \<and> 4 \<le> n - addr then put_at block addr (le_put32 val) else block)"

definition wal_copy16_in :: "bytes \<Rightarrow> nat \<Rightarrow> nat \<Rightarrow> bytes \<Rightarrow> bytes option" where
  "wal_copy16_in block n addr src =
     (if addr < n \<and> 16 \<le> n - addr then copy_up block addr src 0 0 16 else Some block)"

definition wal_copy16_out :: "bytes \<Rightarrow> nat \<Rightarrow> nat \<Rightarrow> bytes \<Rightarrow> bytes option" where
  "wal_copy16_out block n addr dst =
     (if addr < n \<and> 16 \<le> n - addr then copy_up dst 0 block addr 0 16 else Some dst)"

text \<open>The payload loop and the zero-padding loop of \<^verbatim>\<open>Db_wal_pack\<close>, with their guards.\<close>

fun pack_payload :: "bytes \<Rightarrow> nat \<Rightarrow> bytes \<Rightarrow> nat \<Rightarrow> nat \<Rightarrow> bytes option" where
  "pack_payload block n payload v6 0 = Some block"
| "pack_payload block n payload v6 (Suc k) =
     (if 25 + v6 < n \<and> 1 \<le> n - (25 + v6) then do {
        x \<leftarrow> go_get payload v6;
        b \<leftarrow> go_set block (25 + v6) x;
        pack_payload b n payload (Suc v6) k
      }
      else pack_payload block n payload (Suc v6) k)"

fun pack_zero :: "bytes \<Rightarrow> nat \<Rightarrow> nat \<Rightarrow> nat \<Rightarrow> bytes option" where
  "pack_zero block n v6 0 = Some block"
| "pack_zero block n v6 (Suc k) =
     (if v6 < n \<and> 1 \<le> n - v6 then do {
        b \<leftarrow> go_set block v6 0;
        pack_zero b n (Suc v6) k
      }
      else pack_zero block n (Suc v6) k)"

definition Db_wal_pack ::
  "bytes \<Rightarrow> nat \<Rightarrow> bytes option \<Rightarrow> byte \<Rightarrow> bytes option \<Rightarrow> nat \<Rightarrow> (bool \<times> bytes) option" where
  "Db_wal_pack block n rid typ payload plen =
     (if block = [] \<or> n \<noteq> 0x1000 then Some (False, block)
      else if rid = None then Some (False, block)
      else if \<not> Db_wal_type_ok typ then Some (False, block)
      else if plen > 0xfd7 then Some (False, block)
      else if plen > 0 \<and> payload = None then Some (False, block)
      else if \<not> Db_wal_bounds block n 0 4 then Some (False, block)
      else if \<not> Db_wal_bounds block n 8 16 then Some (False, block)
      else if \<not> Db_wal_bounds block n 24 1 then Some (False, block)
      else
        let b = wal_write32 block n 0 0x43324442;
            b = wal_write32 b n 4 (of_nat plen)
        in do {
          b \<leftarrow> wal_copy16_in b n 8 (the rid);
          let b = wal_write8 b n 24 typ in do {
            b \<leftarrow> pack_payload b n (case payload of None \<Rightarrow> [] | Some p \<Rightarrow> p) 0 plen;
            b \<leftarrow> pack_zero b n (25 + plen) (0xff0 - (25 + plen));
            Some (True, b)
          }
        })"

definition Db_wal_unpack ::
  "bytes \<Rightarrow> nat \<Rightarrow> bytes option \<Rightarrow> (Db_wal_desc_t \<times> bytes option) option" where
  "Db_wal_unpack block n rid =
     (let z = \<lparr>d_Magic = 0, d_Len = 0, d_Typ = 0, d_Plen = 0, d_Ok = False\<rparr> in
      if block = [] \<or> n \<noteq> 0x1000 then Some (z, rid)
      else if \<not> Db_wal_bounds block n 0 4 then Some (z, rid)
      else if \<not> Db_wal_bounds block n 0xff0 16 then Some (z, rid)
      else
        let v31 = wal_read32 block n 0;
            v34 = wal_read32 block n 4;
            v3 = z\<lparr>d_Magic := v31, d_Len := v34, d_Typ := wal_read8 block n 24\<rparr>
        in if v31 \<noteq> 0x43324442 then Some (v3, rid)
           else if unat v34 > 0xfd7 then Some (v3, rid)
           else
             let v3 = v3\<lparr>d_Plen := v34, d_Ok := True\<rparr> in
             case rid of
               None \<Rightarrow> Some (v3, None)
             | Some buf \<Rightarrow> do {
                 buf \<leftarrow> wal_copy16_out block n 8 buf;
                 Some (v3, Some buf)
               })"

definition Db_wal_tag_slot ::
  "bytes \<Rightarrow> nat \<Rightarrow> bytes option \<Rightarrow> bytes option \<Rightarrow> (bool \<times> bytes \<times> bytes option) option" where
  "Db_wal_tag_slot block n src dst =
     (if block = [] \<or> n \<noteq> 0x1000 then Some (False, block, dst)
      else if \<not> Db_wal_bounds block n 0xff0 16 then Some (False, block, dst)
      else do {
        b \<leftarrow> (case src of None \<Rightarrow> Some block | Some s \<Rightarrow> wal_copy16_in block n 0xff0 s);
        d \<leftarrow> (case dst of None \<Rightarrow> Some None
              | Some d \<Rightarrow> map_option Some (wal_copy16_out b n 0xff0 d));
        Some (True, b, d)
      })"

section \<open>The packed layout\<close>

definition wal_image :: "bytes \<Rightarrow> byte \<Rightarrow> bytes \<Rightarrow> bytes \<Rightarrow> bytes" where
  "wal_image rid typ payload tag =
     le_put32 0x43324442 @ le_put32 (of_nat (length payload)) @ rid @ [typ] @ payload
       @ replicate (0xfd7 - length payload) 0 @ tag"

lemma wal_image_length [simp]:
  "length rid = 16 \<Longrightarrow> length payload \<le> 0xfd7 \<Longrightarrow> length (wal_image rid typ payload tag) = 0xff0 + length tag"
  by (simp add: wal_image_def)

lemma pack_payload_ok:
  "length block = n \<Longrightarrow> 25 + v6 + k \<le> n \<Longrightarrow> v6 + k \<le> length payload \<Longrightarrow>
   pack_payload block n payload v6 k = Some (put_at block (25 + v6) (bslice payload v6 k))"
proof (induction k arbitrary: block v6)
  case 0 then show ?case by (simp add: bslice_def)
next
  case (Suc k)
  then have "bslice payload v6 (Suc k) = payload ! v6 # bslice payload (Suc v6) k"
    by (simp add: bslice_def Cons_nth_drop_Suc [symmetric])
  moreover have "Suc 0 \<le> n - (25 + v6)" using Suc.prems by simp
  ultimately show ?case using Suc by (simp add: go_get_def go_set_def)
qed

lemma pack_zero_ok:
  "length block = n \<Longrightarrow> v6 + k \<le> n \<Longrightarrow> pack_zero block n v6 k = Some (put_at block v6 (replicate k 0))"
proof (induction k arbitrary: block v6)
  case (Suc k)
  moreover have "Suc 0 \<le> n - v6" using Suc.prems by simp
  ultimately show ?case by (simp add: go_set_def)
qed simp

lemma Db_wal_pack_image:
  assumes "length block = 0x1000" "length rid = 16" "Db_wal_type_ok typ" "length payload \<le> 0xfd7"
  shows "Db_wal_pack block 0x1000 (Some rid) typ (Some payload) (length payload)
       = Some (True, wal_image rid typ payload (drop 0xff0 block))"
proof -
  let ?m = "le_put32 0x43324442" and ?l = "le_put32 (of_nat (length payload))"
  let ?z = "replicate (0xfd7 - length payload) (0 :: byte)"
  have ne: "block \<noteq> []" using assms(1) by auto
  have z: "0xff0 - (25 + length payload) = 0xfd7 - length payload" using assms(4) by simp
  have p: "put_at (put_at (put_at (put_at (put_at (put_at block 0 ?m) 4 ?l) 8 rid) 24 [typ]) 25 payload)
       (25 + length payload) ?z = put_at block 0 (?m @ ?l @ rid @ [typ] @ payload @ ?z)"
    using assms put_at_append [of 0 ?m ?l block] put_at_append [of 0 "?m @ ?l" rid block]
      put_at_append [of 0 "?m @ ?l @ rid" "[typ]" block] put_at_append [of 0 "?m @ ?l @ rid @ [typ]" payload block]
      put_at_append [of 0 "?m @ ?l @ rid @ [typ] @ payload" ?z block]
    by simp
  have "?m @ ?l @ rid @ [typ] @ payload @ ?z @ drop 0xff0 block = put_at block 0 (?m @ ?l @ rid @ [typ] @ payload @ ?z)"
    using assms by (subst put_at_0) simp_all
  then show ?thesis
    using assms ne z p
    by (simp add: Db_wal_pack_def Db_wal_bounds_def wal_write32_def wal_write8_def wal_copy16_in_def
        copy_up_0 pack_payload_ok pack_zero_ok Let_def wal_image_def bslice_def)
qed

lemma wal_image_fields:
  assumes "length rid = 16" "length payload \<le> 0xfd7"
  shows "wal_read32 (wal_image rid typ payload tag) n 0 = (if 4 \<le> n then 0x43324442 else 0)"
    and "8 \<le> n \<Longrightarrow> wal_read32 (wal_image rid typ payload tag) n 4 = of_nat (length payload)"
    and "wal_image rid typ payload tag ! 24 = typ"
    and "bslice (wal_image rid typ payload tag) 8 16 = rid"
    and "bslice (wal_image rid typ payload tag) 25 (length payload) = payload"
    and "take 0xff0 (wal_image rid typ payload tag) = wal_image rid typ payload []"
    and "drop 0xff0 (wal_image rid typ payload tag) = tag"
  using assms by (auto simp: wal_read32_def wal_image_def Let_def bslice_def nth_append min_def)

lemma Db_wal_unpack_image:
  assumes "length rid = 16" "length payload \<le> 0xfd7" "length tag = 16" "16 \<le> length buf"
  shows "Db_wal_unpack (wal_image rid typ payload tag) 0x1000 (Some buf)
     = Some (\<lparr>d_Magic = 0x43324442, d_Len = of_nat (length payload), d_Typ = typ,
              d_Plen = of_nat (length payload), d_Ok = True\<rparr>, Some (put_at buf 0 rid))"
proof -
  have ne: "wal_image rid typ payload tag \<noteq> []" by (simp add: wal_image_def le_put32_def)
  have u: "unat (of_nat (length payload) :: u32) = length payload"
    using assms(2) by (simp add: unat_of_nat)
  show ?thesis
    using assms ne u
    by (simp add: Db_wal_unpack_def Db_wal_bounds_def Let_def wal_image_fields wal_read8_def
        wal_copy16_out_def copy_up_0)
qed

end
