(* ===== verification/Wal.thy ===== *)
theory Wal
  imports Kdf Poly1305 Wal_Block Device
begin

text \<open>
  The write-ahead log of \<^verbatim>\<open>src/pkg/c2db/wal.go\<close>. The handle \<open>WAL\<close> has the fields of the Go
  struct, except the scratch mappings \<^verbatim>\<open>block\<close> and \<^verbatim>\<open>probeBuf\<close>, which every use overwrites
  before reading (a read returns its bytes instead); the 128 KiB quantum buffer is a list of 32
  blocks, and \<open>w_open\<close> says that the device pointer is not nil. Methods are operations that
  return an error or a value and the handle they leave (\<open>op\<close>).

  \<^verbatim>\<open>writeOne\<close>, \<^verbatim>\<open>flushPending\<close> and \<^verbatim>\<open>TruncateCheckpoint\<close> call each other. The model gives the
  nest of calls a depth; a call below depth 0 is the error \<open>WStack\<close> (a Go stack that is exhausted).
  The lemmas show that a depth of two is enough unless records are still pending when the log is
  full and a checkpoint exists, and that no depth is enough then.
\<close>

section \<open>Types\<close>

datatype wal_error = WDev dev_error | WTooLong | WBadTag | WMagic | WCorruptedMedian | WFull | WTooLarge
  | WPayload | WProbe wal_error | WQuarantine | WPanic | WStack

definition WALMagic :: u32 where
  [simp]: "WALMagic = 0x43324442"
definition walMaxPayload :: nat where
  [simp]: "walMaxPayload = 4055"
definition walQuantumLBAs :: nat where
  [simp]: "walQuantumLBAs = 32"
definition walChunkMagic :: u32 where
  [simp]: "walChunkMagic = 0x4332434B"
definition walChunkHdrSize :: nat where
  [simp]: "walChunkHdrSize = 16"
definition walChunkMaxData :: nat where
  [simp]: "walChunkMaxData = 4039"
definition walBatchHdr :: nat where
  [simp]: "walBatchHdr = 21"

definition RecCommitBatch :: byte where
  [simp]: "RecCommitBatch = 3"
definition RecCheckpointBegin :: byte where
  [simp]: "RecCheckpointBegin = 4"
definition RecCheckpointEnd :: byte where
  [simp]: "RecCheckpointEnd = 5"

record Record =
  rID :: bytes
  rType :: byte
  rPayload :: bytes

record WAL =
  w_open :: bool
  w_dev :: Device
  w_key :: bytes
  w_next :: nat
  w_lsn :: nat
  w_checkLBA :: nat
  w_hasCheck :: bool
  w_packDepth :: nat
  w_pending :: "Record list"
  w_pendingN :: nat
  w_qBuf :: "bytes list"
  w_qLBA :: nat
  w_qCount :: nat
  w_synced :: bool

definition newWAL :: "Device \<Rightarrow> bytes \<Rightarrow> WAL" where
  "newWAL dev key = \<lparr>w_open = True, w_dev = dev, w_key = key, w_next = 0, w_lsn = 0, w_checkLBA = 0,
     w_hasCheck = False, w_packDepth = 0, w_pending = [], w_pendingN = 0,
     w_qBuf = replicate 32 (replicate 4096 0), w_qLBA = 0, w_qCount = 0, w_synced = False\<rparr>"

definition walIsCheckpoint :: "byte \<Rightarrow> bool" where
  "walIsCheckpoint t \<longleftrightarrow> t = RecCheckpointBegin \<or> t = RecCheckpointEnd"

definition on_dev :: "(Device, dev_error, 'a) op \<Rightarrow> (WAL, wal_error, 'a) op" where
  "on_dev m w = (case m (w_dev w) of (r, d) \<Rightarrow>
     ((case r of Inl e \<Rightarrow> Inl (WDev e) | Inr x \<Rightarrow> Inr x), w\<lparr>w_dev := d\<rparr>))"

abbreviation maxLBA :: "WAL \<Rightarrow> nat" where
  "maxLBA w \<equiv> d_size (w_dev w) div 4096"

definition wal_rd :: "nat \<Rightarrow> (WAL, wal_error, bytes) op" where
  "wal_rd lba = on_dev (dev_Read lba 4096 True)"

definition wal_wr :: "nat \<Rightarrow> bytes \<Rightarrow> (WAL, wal_error, unit) op" where
  "wal_wr lba b = on_dev (dev_Write lba b True)"

definition wal_ready :: "(WAL, wal_error, unit) op" where
  "wal_ready w = (if \<not> w_open w then (Inl (WDev EBADF), w) else on_dev checkReady w)"

section \<open>Seals\<close>

definition sealWAL :: "bytes \<Rightarrow> bytes \<Rightarrow> bytes option" where
  "sealWAL block key =
     (let canonicalMsg = bslice block 4 (4080 - 4) in do {
        derivedKey \<leftarrow> DeriveWALSealKey key canonicalMsg;
        tag \<leftarrow> Crypto_poly1305 (bslice block 4080 16) canonicalMsg (length canonicalMsg) derivedKey;
        Some (put_at block 4080 tag)
      })"

definition verifyWAL :: "bytes \<Rightarrow> bytes \<Rightarrow> bool option" where
  "verifyWAL block key =
     (let canonicalMsg = bslice block 4 (4080 - 4) in do {
        derivedKey \<leftarrow> DeriveWALSealKey key canonicalMsg;
        tag \<leftarrow> Crypto_poly1305 (replicate 16 0) canonicalMsg (length canonicalMsg) derivedKey;
        Some (tag = bslice block 4080 16)
      })"

section \<open>Batches\<close>

definition packedRecSize :: "Record \<Rightarrow> nat" where
  "packedRecSize r = walBatchHdr + length (rPayload r)"

fun packBatch_loop :: "bytes \<Rightarrow> nat \<Rightarrow> Record list \<Rightarrow> bytes" where
  "packBatch_loop out off [] = out"
| "packBatch_loop out off (r # rs) =
     (let out = out[off := rType r];
          out = put_at out (off + 1) (take 16 (rID r));
          out = put_at out (off + 17) (le_put32 (of_nat (length (rPayload r))));
          off = off + walBatchHdr;
          out = go_copy out off (rPayload r)
      in packBatch_loop out (off + length (rPayload r)) rs)"

definition packBatch :: "Record list \<Rightarrow> bytes" where
  "packBatch recs = packBatch_loop (replicate (sum_list (map packedRecSize recs)) 0) 0 recs"

function unpackBatch :: "bytes \<Rightarrow> Record list option" where
  "unpackBatch payload =
     (if payload = [] then Some []
      else if length payload < walBatchHdr then None
      else
        let typ = payload ! 0;
            rid = bslice payload 1 16;
            plen = le_get32 (drop 17 payload);
            payload = drop walBatchHdr payload
        in if (of_nat (length payload) :: u32) < plen then None
           else do {
             out \<leftarrow> unpackBatch (drop (unat plen) payload);
             Some (\<lparr>rID = rid, rType = typ, rPayload = take (unat plen) payload\<rparr> # out)
           })"
  by pat_completeness auto
termination by (relation "measure length") auto

declare unpackBatch.simps [simp del]

section \<open>Appending\<close>

definition flushQuantum :: "(WAL, wal_error, unit) op" where
  "flushQuantum w =
     (if w_qCount w = 0 then (Inr (), w)
      else op_bind (wal_wr (w_qLBA w) (concat (take (w_qCount w) (w_qBuf w))))
        (\<lambda>_ w. (Inr (), w\<lparr>w_qCount := 0, w_qLBA := w_next w, w_synced := False\<rparr>)) w)"

text \<open>The tail of \<^verbatim>\<open>writeOne\<close>: pack and seal the record into the quantum, flush a full quantum.\<close>

definition write_slot :: "Record \<Rightarrow> (WAL, wal_error, unit) op" where
  "write_slot rec w =
     (let w = (if w_qCount w = 0 then w\<lparr>w_qLBA := w_next w\<rparr> else w) in
      case go_get (w_qBuf w) (w_qCount w) of
        None \<Rightarrow> (Inl WPanic, w)
      | Some target \<Rightarrow>
          (case Db_wal_pack target 4096 (Some (rID rec)) (rType rec) (Some (rPayload rec)) (length (rPayload rec)) of
             None \<Rightarrow> (Inl WPanic, w)
           | Some (False, _) \<Rightarrow> (Inl WTooLong, w)
           | Some (True, b) \<Rightarrow>
               (case sealWAL b (w_key w) of
                  None \<Rightarrow> (Inl WPanic, w)
                | Some b \<Rightarrow>
                    let w = w\<lparr>w_qBuf := (w_qBuf w)[w_qCount w := b], w_qCount := w_qCount w + 1,
                              w_next := w_next w + 1, w_lsn := w_lsn w + 1, w_synced := False\<rparr>
                    in if w_qCount w = walQuantumLBAs then flushQuantum w else (Inr (), w))))"

text \<open>The test the code repeats before it takes a block: recycle the log if it is full and may be.\<close>

definition make_room :: "nat \<Rightarrow> (WAL, wal_error, unit) op \<Rightarrow> (WAL, wal_error, unit) op" where
  "make_room need recycle w =
     (if w_next w + need > maxLBA w then
        op_bind (if w_hasCheck w then recycle else op_ret ())
          (\<lambda>_ w. if w_next w + need > maxLBA w then (Inl WFull, w) else (Inr (), w)) w
      else (Inr (), w))"

text \<open>\<^verbatim>\<open>compactTo\<close> with an empty archive path, after its first flush of the pending records.\<close>

definition zero_id :: bytes where
  "zero_id = replicate 16 0"

definition check_record :: "nat \<Rightarrow> Record" where
  "check_record n = \<lparr>rID = zero_id, rType = RecCheckpointEnd, rPayload = le_put64 (of_nat n)\<rparr>"

definition pack_seal :: "Record \<Rightarrow> bytes \<Rightarrow> wal_error + bytes" where
  "pack_seal rec key =
     (case Db_wal_pack (replicate 4096 0) 4096 (Some (rID rec)) (rType rec) (Some (rPayload rec)) (length (rPayload rec)) of
        None \<Rightarrow> Inl WPanic
      | Some (False, _) \<Rightarrow> Inl WTooLong
      | Some (True, b) \<Rightarrow> (case sealWAL b key of None \<Rightarrow> Inl WPanic | Some b \<Rightarrow> Inr b))"

definition compact_first :: "nat \<Rightarrow> nat \<Rightarrow> (WAL, wal_error, bool) op" where
  "compact_first src nKeep =
     (if nKeep > 0 then op_bind (wal_rd src) (\<lambda>b. op_ret (walIsCheckpoint (b ! 24))) else op_ret False)"

definition compact_tail :: "(WAL, wal_error, unit) op" where
  "compact_tail w =
     (if \<not> w_hasCheck w then (Inr (), w)
      else
        let oldNext = w_next w; src = min (w_checkLBA w) oldNext; nKeep = oldNext - src
        in op_bind (compact_first src nKeep) (\<lambda>firstIsCheck.
           op_bind (move_down wal_rd wal_wr src 0 nKeep) (\<lambda>_.
           op_bind (if firstIsCheck then op_ret nKeep
                    else (\<lambda>w. if nKeep \<ge> maxLBA w then (Inl WFull, w)
                          else op_bind (shift_up wal_rd wal_wr nKeep) (\<lambda>_. op_ret (nKeep + 1)) w)) (\<lambda>nKeep w.
           case pack_seal (check_record nKeep) (w_key w) of
             Inl e \<Rightarrow> (Inl e, w)
           | Inr b \<Rightarrow>
               op_bind (wal_wr 0 b) (\<lambda>_.
               op_bind (zero_range wal_wr nKeep (oldNext - nKeep)) (\<lambda>_.
               op_bind (on_dev dev_Flush) (\<lambda>_ w.
               (Inr (), w\<lparr>w_next := nKeep, w_checkLBA := 0, w_hasCheck := True\<rparr>)))) w))) w)"

fun writeOne :: "nat \<Rightarrow> Record \<Rightarrow> (WAL, wal_error, unit) op"
  and flushPending :: "nat \<Rightarrow> (WAL, wal_error, unit) op"
  and TruncateCheckpoint :: "nat \<Rightarrow> (WAL, wal_error, unit) op" where
  "writeOne 0 rec w = (Inl WStack, w)"
| "writeOne (Suc f) rec w = op_bind (make_room 1 (TruncateCheckpoint f)) (\<lambda>_. write_slot rec) w"
| "flushPending f w =
     (if w_pending w = [] then (Inr (), w)
      else
        let rec = (if length (w_pending w) = 1 then w_pending w ! 0
                   else \<lparr>rID = rID (last (w_pending w)), rType = RecCommitBatch, rPayload = packBatch (w_pending w)\<rparr>)
        in op_bind (writeOne f rec) (\<lambda>_ w. (Inr (), w\<lparr>w_pending := [], w_pendingN := 0\<rparr>)) w)"
| "TruncateCheckpoint f w =
     op_bind wal_ready (\<lambda>_. op_bind (flushPending f) (\<lambda>_. op_bind flushQuantum (\<lambda>_. compact_tail))) w"

text \<open>The depth the methods run with.\<close>

definition walDepth :: nat where
  [simp]: "walDepth = 2"

definition chunk_payload :: "Record \<Rightarrow> nat \<Rightarrow> nat \<Rightarrow> bytes" where
  "chunk_payload rec numChunks i =
     (let totalLen = length (rPayload rec); start = i * walChunkMaxData;
          end' = min (start + walChunkMaxData) totalLen;
          chunkData = bslice (rPayload rec) start (end' - start);
          p = replicate (walChunkHdrSize + length chunkData) 0;
          p = put_at p 0 (le_put32 walChunkMagic);
          p = put_at p 4 (le_put16 (of_nat i));
          p = put_at p 6 (le_put16 (of_nat numChunks));
          p = put_at p 8 (le_put32 (of_nat totalLen));
          p = p[12 := rType rec]
      in go_copy p walChunkHdrSize chunkData)"

fun chunk_loop :: "Record \<Rightarrow> nat \<Rightarrow> nat \<Rightarrow> nat \<Rightarrow> (WAL, wal_error, unit) op" where
  "chunk_loop rec numChunks i 0 = op_ret ()"
| "chunk_loop rec numChunks i (Suc k) =
     op_bind (writeOne walDepth \<lparr>rID = rID rec, rType = rType rec, rPayload = chunk_payload rec numChunks i\<rparr>)
       (\<lambda>_. chunk_loop rec numChunks (Suc i) k)"

definition writeChunked :: "Record \<Rightarrow> (WAL, wal_error, unit) op" where
  "writeChunked rec =
     (let numChunks = (length (rPayload rec) + walChunkMaxData - 1) div walChunkMaxData
      in if numChunks > 0xFFFF then op_fail WTooLarge
         else op_bind (make_room numChunks (TruncateCheckpoint walDepth))
                (\<lambda>_. chunk_loop rec numChunks 0 numChunks))"

definition appendPacked :: "Record \<Rightarrow> (WAL, wal_error, unit) op" where
  "appendPacked rec =
     (let sz = packedRecSize rec in
      if sz > walMaxPayload then op_fail WTooLong
      else op_bind (make_room 1 (TruncateCheckpoint walDepth)) (\<lambda>_ w.
           op_bind (if w_pending w \<noteq> [] \<and> w_pendingN w + sz > walMaxPayload
                    then op_bind (flushPending walDepth) (\<lambda>_. make_room 1 (TruncateCheckpoint walDepth))
                    else op_ret ())
             (\<lambda>_ w. (Inr (), w\<lparr>w_pending := w_pending w @ [rec], w_pendingN := w_pendingN w + sz\<rparr>)) w))"

definition Append :: "Record \<Rightarrow> (WAL, wal_error, unit) op" where
  "Append rec =
     op_bind wal_ready (\<lambda>_.
     op_bind (make_room 1 (TruncateCheckpoint walDepth)) (\<lambda>_ w.
       if walIsCheckpoint (rType rec) then op_bind (flushPending walDepth) (\<lambda>_. writeOne walDepth rec) w
       else if length (rPayload rec) > walMaxPayload then op_bind (flushPending walDepth) (\<lambda>_. writeChunked rec) w
       else if w_packDepth w > 0 then appendPacked rec w
       else writeOne walDepth rec w))"

definition wal_Flush :: "(WAL, wal_error, unit) op" where
  "wal_Flush =
     op_bind wal_ready (\<lambda>_.
     op_bind (flushPending walDepth) (\<lambda>_.
     op_bind flushQuantum (\<lambda>_.
     op_bind (on_dev dev_Flush) (\<lambda>_ w. (Inr (), w\<lparr>w_synced := True\<rparr>)))))"

definition BeginPack :: "WAL \<Rightarrow> WAL" where
  "BeginPack w = w\<lparr>w_packDepth := w_packDepth w + 1\<rparr>"

definition EndPackNoFlush :: "WAL \<Rightarrow> WAL" where
  "EndPackNoFlush w = w\<lparr>w_packDepth := w_packDepth w - 1\<rparr>"

definition EndPack :: "(WAL, wal_error, unit) op" where
  "EndPack w =
     (let w = w\<lparr>w_packDepth := w_packDepth w - 1\<rparr>
      in if w_packDepth w > 0 then (Inr (), w) else wal_Flush w)"

definition SyncIfDirty :: "(WAL, wal_error, unit) op" where
  "SyncIfDirty w =
     (if w_pendingN w > 0 \<or> w_qCount w > 0 \<or> \<not> w_synced w then wal_Flush w else (Inr (), w))"

definition DiscardPack :: "WAL \<Rightarrow> WAL" where
  "DiscardPack w = w\<lparr>w_pending := [], w_pendingN := 0, w_qCount := 0, w_next := w_qLBA w, w_lsn := w_qLBA w,
     w_packDepth := w_packDepth w - 1\<rparr>"

definition rollbackTo :: "nat \<Rightarrow> WAL \<Rightarrow> WAL" where
  "rollbackTo initialNext w =
     (let w = w\<lparr>w_pending := [], w_pendingN := 0\<rparr>;
          w = (if initialNext \<ge> w_qLBA w \<and> initialNext \<le> w_next w
               then w\<lparr>w_next := initialNext, w_qCount := initialNext - w_qLBA w, w_lsn := initialNext\<rparr> else w)
      in w\<lparr>w_packDepth := w_packDepth w - 1\<rparr>)"

definition Checkpoint :: "(WAL, wal_error, unit) op" where
  "Checkpoint =
     op_bind wal_ready (\<lambda>_ w.
       let check = w_next w in
       op_bind (Append (check_record (check + 1))) (\<lambda>_.
       op_bind wal_Flush (\<lambda>_ w. (Inr (), w\<lparr>w_checkLBA := check, w_hasCheck := True\<rparr>))) w)"

definition NeedsRecycle :: "WAL \<Rightarrow> bool" where
  "NeedsRecycle w \<longleftrightarrow> w_open w \<and> w_next w \<ge> maxLBA w div 2"

definition wal_Close :: "(WAL, wal_error, unit) op" where
  "wal_Close =
     op_bind wal_ready (\<lambda>_ w.
       let w = snd (flushPending walDepth w); w = snd (flushQuantum w)
       in case on_dev dev_Close w of (r, w) \<Rightarrow> (r, w\<lparr>w_open := False, w_qBuf := []\<rparr>))"

definition KillWithoutFlush :: "(WAL, wal_error, unit) op" where
  "KillWithoutFlush w =
     (if \<not> w_open w then (Inl (WDev EBADF), w)
      else case on_dev dev_Close w of (r, w) \<Rightarrow> (r, w\<lparr>w_open := False, w_qBuf := []\<rparr>))"

section \<open>Replay\<close>

record chunkCollector =
  c_origType :: byte
  c_total :: u16
  c_totalLen :: u32
  c_parts :: "u16 \<rightharpoonup> bytes"
  c_count :: u16

type_synonym replay_state = "(bytes \<rightharpoonup> chunkCollector) \<times> Record list \<times> nat"

fun join_parts :: "(u16 \<rightharpoonup> bytes) \<Rightarrow> nat \<Rightarrow> nat \<Rightarrow> bytes \<Rightarrow> nat \<Rightarrow> bytes option" where
  "join_parts parts ci 0 full written = Some full"
| "join_parts parts ci (Suc k) full written =
     (if written > length full then None
      else let pData = (case parts (of_nat ci) of None \<Rightarrow> [] | Some p \<Rightarrow> p)
           in join_parts parts (Suc ci) k (go_copy full written pData) (written + length pData))"

definition replay_chunk :: "replay_state \<Rightarrow> Record \<Rightarrow> wal_error + replay_state" where
  "replay_chunk st rec =
     (let (chunks, out, resumeAt) = st; p = rPayload rec;
          idx = le_get16 (drop 4 p); total = le_get16 (drop 6 p); totalLen = le_get32 (drop 8 p);
          origType = p ! 12; data = drop walChunkHdrSize p;
          col = (case chunks (rID rec) of
                   None \<Rightarrow> \<lparr>c_origType = origType, c_total = total, c_totalLen = totalLen, c_parts = Map.empty, c_count = 0\<rparr>
                 | Some col \<Rightarrow> col);
          col = (if c_parts col idx = None
                 then col\<lparr>c_parts := (c_parts col)(idx \<mapsto> data), c_count := c_count col + 1\<rparr> else col)
      in if c_count col = c_total col then
           (case join_parts (c_parts col) 0 (unat (c_total col)) (replicate (unat (c_totalLen col)) 0) 0 of
              None \<Rightarrow> Inl WPanic
            | Some full \<Rightarrow>
                Inr (chunks(rID rec := None), out @ [\<lparr>rID = rID rec, rType = c_origType col, rPayload = full\<rparr>], resumeAt))
         else Inr (chunks(rID rec \<mapsto> col), out, resumeAt))"

definition replay_record :: "replay_state \<Rightarrow> Record \<Rightarrow> wal_error + replay_state" where
  "replay_record st rec =
     (let (chunks, out, resumeAt) = st in
      if rType rec = RecCommitBatch then
        (case unpackBatch (rPayload rec) of None \<Rightarrow> Inl WPayload | Some inner \<Rightarrow> Inr (chunks, out @ inner, resumeAt))
      else if length (rPayload rec) \<ge> walChunkHdrSize \<and> le_get32 (rPayload rec) = walChunkMagic then replay_chunk st rec
      else Inr (chunks, out @ [rec], if walIsCheckpoint (rType rec) then length out + 1 else resumeAt))"

definition read_record :: "bytes \<Rightarrow> bytes \<Rightarrow> wal_error + Record" where
  "read_record block key =
     (if le_get32 block \<noteq> WALMagic then Inl WMagic
      else case verifyWAL block key of
        None \<Rightarrow> Inl WPanic
      | Some False \<Rightarrow> Inl WBadTag
      | Some True \<Rightarrow>
          (case Db_wal_unpack block 4096 (Some (replicate 16 0)) of
             Some (d, Some rid) \<Rightarrow>
               if \<not> d_Ok d then (if d_Magic d \<noteq> WALMagic then Inl WMagic else Inl WTooLong)
               else Inr \<lparr>rID = rid, rType = d_Typ d, rPayload = bslice block Db_wal_payload_off (unat (d_Plen d))\<rparr>
           | _ \<Rightarrow> Inl WPanic))"

fun replay_loop :: "nat \<Rightarrow> nat \<Rightarrow> replay_state \<Rightarrow> (WAL, wal_error, replay_state) op" where
  "replay_loop lba 0 st = op_ret st"
| "replay_loop lba (Suc k) st =
     op_bind (wal_rd lba) (\<lambda>block w.
       case read_record block (w_key w) of
         Inl e \<Rightarrow> (Inl e, w)
       | Inr rec \<Rightarrow> (case replay_record st rec of Inl e \<Rightarrow> (Inl e, w) | Inr st \<Rightarrow> replay_loop (Suc lba) k st w))"

definition ReplayResumable :: "(WAL, wal_error, Record list \<times> nat) op" where
  "ReplayResumable =
     op_bind wal_ready (\<lambda>_.
     op_bind (flushPending walDepth) (\<lambda>_.
     op_bind flushQuantum (\<lambda>_ w.
     op_bind (replay_loop 0 (w_next w) (Map.empty, [], 0)) (\<lambda>(chunks, out, resumeAt). op_ret (out, resumeAt)) w)))"

definition Replay :: "(WAL, wal_error, Record list) op" where
  "Replay = op_bind ReplayResumable (\<lambda>(recs, _). op_ret recs)"

section \<open>Opening\<close>

definition header_ok :: "bytes \<Rightarrow> bool" where
  "header_ok block \<longleftrightarrow> le_get32 block = WALMagic \<and>
     (case Db_wal_unpack block 4096 (Some (replicate 16 0)) of Some (d, _) \<Rightarrow> d_Ok d | None \<Rightarrow> False)"

fun checkMedianRupture :: "nat \<Rightarrow> nat \<Rightarrow> (WAL, wal_error, unit) op" where
  "checkMedianRupture probeLBA 0 w = (Inr (), w)"
| "checkMedianRupture probeLBA (Suc k) w =
     (case wal_rd probeLBA w of
        (Inl e, w) \<Rightarrow> (Inl (WProbe e), w)
      | (Inr b, w) \<Rightarrow>
          if header_ok b then
            (case verifyWAL b (w_key w) of
               None \<Rightarrow> (Inl WPanic, w)
             | Some True \<Rightarrow> (Inl WCorruptedMedian, w)
             | Some False \<Rightarrow> checkMedianRupture (Suc probeLBA) k w)
          else checkMedianRupture (Suc probeLBA) k w)"

fun scan_loop :: "nat \<Rightarrow> nat \<Rightarrow> (WAL, wal_error, unit) op" where
  "scan_loop lba 0 w = (Inr (), w)"
| "scan_loop lba (Suc k) w =
     op_bind (wal_rd lba) (\<lambda>b w.
       if \<not> header_ok b then checkMedianRupture (lba + 1) k w
       else
         let w = (if walIsCheckpoint (b ! 24) then w\<lparr>w_hasCheck := True, w_checkLBA := lba\<rparr> else w)
         in scan_loop (Suc lba) k (w\<lparr>w_next := lba + 1\<rparr>)) w"

definition scanTip :: "(WAL, wal_error, unit) op" where
  "scanTip w =
     op_bind (scan_loop 0 (maxLBA w)) (\<lambda>_ w. (Inr (), w\<lparr>w_lsn := w_next w, w_qLBA := w_next w\<rparr>))
       (w\<lparr>w_next := 0, w_hasCheck := False, w_checkLBA := 0\<rparr>)"

definition CreateWAL :: "Device \<Rightarrow> bytes \<Rightarrow> WAL" where
  "CreateWAL dev key = newWAL dev key"

definition OpenWAL :: "Device \<Rightarrow> bytes \<Rightarrow> wal_error + WAL" where
  "OpenWAL dev key = (case scanTip (newWAL dev key) of (Inl e, _) \<Rightarrow> Inl e | (Inr _, w) \<Rightarrow> Inr w)"

section \<open>Repair\<close>

record walRepairScan =
  sc_startLBA :: nat
  sc_prefixHasCheck :: bool
  sc_prefixCheckLBA :: nat
  sc_downstream :: bool
  sc_downstreamCheck :: bool
  sc_downstreamCheckLBA :: nat
  sc_oldTip :: nat

record WALRepairReport =
  rp_Repaired :: bool
  rp_StartLBA :: nat
  rp_DiscardedBlocks :: nat
  rp_DownstreamCheckpoint :: bool
  rp_DownstreamCheckLBA :: nat
  rp_Quarantine :: "(string \<times> bytes) option"
  rp_Next :: nat
  rp_HasCheck :: bool
  rp_CheckLBA :: nat

text \<open>The two loops of \<^verbatim>\<open>analyzeRepair\<close>; the first also says whether it met an invalid block.\<close>

fun repair_prefix :: "nat \<Rightarrow> nat \<Rightarrow> walRepairScan \<Rightarrow> (WAL, wal_error, bool \<times> walRepairScan) op" where
  "repair_prefix lba 0 sc w = (Inr (True, sc), w)"
| "repair_prefix lba (Suc k) sc w =
     op_bind (wal_rd lba) (\<lambda>b w.
       if \<not> header_ok b then (Inr (False, sc\<lparr>sc_startLBA := lba\<rparr>), w)
       else
         let sc = (if walIsCheckpoint (b ! 24) then sc\<lparr>sc_prefixHasCheck := True, sc_prefixCheckLBA := lba\<rparr> else sc)
         in repair_prefix (Suc lba) k sc w) w"

fun repair_suffix :: "nat \<Rightarrow> nat \<Rightarrow> walRepairScan \<Rightarrow> (WAL, wal_error, walRepairScan) op" where
  "repair_suffix lba 0 sc w = (Inr sc, w)"
| "repair_suffix lba (Suc k) sc w =
     op_bind (wal_rd lba) (\<lambda>b w.
       if le_get32 b \<noteq> WALMagic then repair_suffix (Suc lba) k sc w
       else
         let sc = (if lba + 1 > sc_oldTip sc then sc\<lparr>sc_oldTip := lba + 1\<rparr> else sc)
         in if header_ok b then
              (case verifyWAL b (w_key w) of
                 None \<Rightarrow> (Inl WPanic, w)
               | Some True \<Rightarrow>
                   repair_suffix (Suc lba) k
                     (if walIsCheckpoint (b ! 24)
                      then sc\<lparr>sc_downstream := True, sc_downstreamCheck := True, sc_downstreamCheckLBA := lba\<rparr>
                      else sc\<lparr>sc_downstream := True\<rparr>) w
               | Some False \<Rightarrow> repair_suffix (Suc lba) k sc w)
            else repair_suffix (Suc lba) k sc w) w"

definition analyzeRepair :: "(WAL, wal_error, walRepairScan) op" where
  "analyzeRepair w =
     (let sc = \<lparr>sc_startLBA = maxLBA w, sc_prefixHasCheck = False, sc_prefixCheckLBA = 0, sc_downstream = False,
                sc_downstreamCheck = False, sc_downstreamCheckLBA = 0, sc_oldTip = 0\<rparr>
      in op_bind (repair_prefix 0 (maxLBA w) sc) (\<lambda>(prefixValid, sc) w.
           if prefixValid then (Inr sc, w)
           else repair_suffix (sc_startLBA sc) (maxLBA w - sc_startLBA sc) sc w) w)"

definition reportFor :: "walRepairScan \<Rightarrow> bool \<Rightarrow> WALRepairReport" where
  "reportFor sc repaired =
     \<lparr>rp_Repaired = repaired, rp_StartLBA = sc_startLBA sc, rp_DiscardedBlocks = 0,
      rp_DownstreamCheckpoint = sc_downstreamCheck sc, rp_DownstreamCheckLBA = sc_downstreamCheckLBA sc,
      rp_Quarantine = None, rp_Next = sc_startLBA sc, rp_HasCheck = sc_prefixHasCheck sc,
      rp_CheckLBA = sc_prefixCheckLBA sc\<rparr>"

definition previewMedianRupture :: "(WAL, wal_error, WALRepairReport) op" where
  "previewMedianRupture = op_bind wal_ready (\<lambda>_. op_bind analyzeRepair (\<lambda>sc. op_ret (reportFor sc False)))"

text \<open>
  The quarantine file is the operating system's: \<open>qfile\<close> takes the bytes \<^verbatim>\<open>writeQuarantine\<close>
  copies and answers the path and the SHA-256 it stored them under, or nothing if it could not.
\<close>

fun read_range :: "nat \<Rightarrow> nat \<Rightarrow> (WAL, wal_error, bytes) op" where
  "read_range lba 0 = op_ret []"
| "read_range lba (Suc k) = op_bind (wal_rd lba) (\<lambda>b. op_bind (read_range (Suc lba) k) (\<lambda>bs. op_ret (b @ bs)))"

definition writeQuarantine ::
  "(bytes \<Rightarrow> (string \<times> bytes) option) \<Rightarrow> nat \<Rightarrow> nat \<Rightarrow> (WAL, wal_error, string \<times> bytes) op" where
  "writeQuarantine qfile startLBA oldTip =
     op_bind (read_range startLBA (oldTip - startLBA)) (\<lambda>bs.
       case qfile bs of None \<Rightarrow> op_fail WQuarantine | Some q \<Rightarrow> op_ret q)"

definition repairMedianRupture ::
  "(bytes \<Rightarrow> (string \<times> bytes) option) \<Rightarrow> (WAL, wal_error, WALRepairReport) op" where
  "repairMedianRupture qfile =
     op_bind wal_ready (\<lambda>_.
     op_bind analyzeRepair (\<lambda>sc.
       if \<not> sc_downstream sc then op_ret (reportFor sc False)
       else
         let oldTip = (if sc_oldTip sc \<le> sc_startLBA sc then sc_startLBA sc + 1 else sc_oldTip sc)
         in op_bind (writeQuarantine qfile (sc_startLBA sc) oldTip) (\<lambda>q.
            op_bind (zero_range wal_wr (sc_startLBA sc) (oldTip - sc_startLBA sc)) (\<lambda>_.
            op_bind (on_dev dev_Flush) (\<lambda>_ w.
              let w = w\<lparr>w_next := sc_startLBA sc, w_lsn := sc_startLBA sc, w_qLBA := sc_startLBA sc, w_qCount := 0,
                        w_pending := [], w_pendingN := 0, w_hasCheck := sc_prefixHasCheck sc,
                        w_checkLBA := sc_prefixCheckLBA sc\<rparr>
              in (Inr ((reportFor sc True)\<lparr>rp_DiscardedBlocks := oldTip - sc_startLBA sc, rp_Quarantine := Some q,
                         rp_Next := w_next w, rp_HasCheck := w_hasCheck w, rp_CheckLBA := w_checkLBA w\<rparr>), w))))))"

end
