(* ===== verification/Wal_Log.thy ===== *)
theory Wal_Log
  imports Wal
begin

text \<open>
  What the journal's handle stands for: the list of records its blocks hold, on the device and in the
  quantum buffer, and the list of records a replay of them returns. The lemmas show that appends,
  flushes and replays act on these lists.
\<close>

section \<open>Sealed blocks\<close>

definition wal_tag :: "bytes \<Rightarrow> bytes \<Rightarrow> bytes" where
  "wal_tag key msg = rfc_poly1305 (the (DeriveWALSealKey key msg)) msg"

lemma wal_tag_length [simp]: "length (wal_tag key msg) = 16"
  by (simp add: wal_tag_def)

lemma seal_run:
  assumes "16 \<le> length mac"
  shows "Option.bind (DeriveWALSealKey key msg) (Crypto_poly1305 mac msg (length msg)) = Some (put_at mac 0 (wal_tag key msg))"
  by (rule DeriveWALSealKey_some [of key msg]) (simp add: Crypto_poly1305_tag assms wal_tag_def)

lemma sealWAL_eq:
  assumes "length block = 4096"
  shows "sealWAL block key = Some (take 4080 block @ wal_tag key (bslice block 4 4076))"
proof -
  let ?m = "bslice block 4 4076"
  have p: "put_at block 4080 (put_at (bslice block 4080 16) 0 (wal_tag key ?m)) = take 4080 block @ wal_tag key ?m"
    using assms by (simp add: put_at_all) (rule nth_equalityI, auto simp: put_at_nth nth_append)
  obtain k where k: "DeriveWALSealKey key ?m = Some k" by (rule DeriveWALSealKey_some)
  show ?thesis
    using seal_run [of "bslice block 4080 16" key ?m] assms k p by (simp add: sealWAL_def Let_def)
qed

lemma verifyWAL_eq:
  "verifyWAL block key = Some (wal_tag key (bslice block 4 4076) = bslice block 4080 16)"
proof -
  let ?m = "bslice block 4 4076"
  obtain k where k: "DeriveWALSealKey key ?m = Some k" by (rule DeriveWALSealKey_some)
  show ?thesis
    using seal_run [of "replicate 16 0" key ?m] k by (simp add: verifyWAL_def Let_def put_at_all)
qed

definition rec_ok :: "Record \<Rightarrow> bool" where
  "rec_ok r \<longleftrightarrow> length (rID r) = 16 \<and> Db_wal_type_ok (rType r) \<and> length (rPayload r) \<le> 4055"

definition sealed :: "bytes \<Rightarrow> Record \<Rightarrow> bytes" where
  "sealed key r =
     (let img = wal_image (rID r) (rType r) (rPayload r) [] in img @ wal_tag key (drop 4 img))"

lemma sealed_image:
  "sealed key r = wal_image (rID r) (rType r) (rPayload r) (wal_tag key (drop 4 (wal_image (rID r) (rType r) (rPayload r) [])))"
  by (simp add: sealed_def Let_def wal_image_def)

lemma sealed_length [simp]: "rec_ok r \<Longrightarrow> length (sealed key r) = 4096"
  by (simp add: sealed_def Let_def rec_ok_def)

lemma pack_sealed:
  assumes "rec_ok r" "length b = 4096"
  shows "\<exists>b'. Db_wal_pack b 4096 (Some (rID r)) (rType r) (Some (rPayload r)) (length (rPayload r)) = Some (True, b')
       \<and> sealWAL b' key = Some (sealed key r)"
proof -
  let ?img = "wal_image (rID r) (rType r) (rPayload r)"
  have p: "Db_wal_pack b 4096 (Some (rID r)) (rType r) (Some (rPayload r)) (length (rPayload r)) = Some (True, ?img (drop 4080 b))"
    using Db_wal_pack_image [of b "rID r" "rType r" "rPayload r"] assms by (simp add: rec_ok_def)
  have t: "take 4080 (?img (drop 4080 b)) = ?img []"
    using wal_image_fields(6) [of "rID r" "rPayload r"] assms(1) by (simp add: rec_ok_def)
  have "bslice (?img (drop 4080 b)) 4 4076 = drop 4 (take 4080 (?img (drop 4080 b)))"
    by (simp add: bslice_def drop_take)
  then have "sealWAL (?img (drop 4080 b)) key = Some (sealed key r)"
    using sealWAL_eq [of "?img (drop 4080 b)" key] assms t by (simp add: sealed_def Let_def rec_ok_def)
  then show ?thesis using p by blast
qed

lemma pack_seal_eq: "rec_ok r \<Longrightarrow> pack_seal r key = Inr (sealed key r)"
  using pack_sealed [of r "replicate 4096 0" key] by (auto simp: pack_seal_def)

lemma verify_sealed:
  assumes "rec_ok r" shows "verifyWAL (sealed key r) key = Some True"
proof -
  let ?img = "wal_image (rID r) (rType r) (rPayload r) []"
  have l: "length ?img = 4080" using assms by (simp add: rec_ok_def)
  then have "bslice (sealed key r) 4 4076 = drop 4 ?img" "bslice (sealed key r) 4080 16 = wal_tag key (drop 4 ?img)"
    by (simp_all add: sealed_def Let_def bslice_def)
  then show ?thesis by (simp add: verifyWAL_eq)
qed

lemma sealed_magic: "le_get32 (sealed key r) = WALMagic"
  by (simp add: sealed_image wal_image_def)

lemma sealed_type: "rec_ok r \<Longrightarrow> sealed key r ! 24 = rType r"
  using wal_image_fields(3) [of "rID r" "rPayload r"] by (simp add: sealed_image rec_ok_def)

lemma unpack_sealed:
  assumes "rec_ok r"
  shows "Db_wal_unpack (sealed key r) 4096 (Some (replicate 16 0)) =
    Some (\<lparr>d_Magic = 0x43324442, d_Len = of_nat (length (rPayload r)), d_Typ = rType r,
           d_Plen = of_nat (length (rPayload r)), d_Ok = True\<rparr>, Some (rID r))"
  using Db_wal_unpack_image [of "rID r" "rPayload r" _ "replicate 16 0"] assms
  by (simp add: sealed_image rec_ok_def put_at_all)

lemma header_ok_sealed: "rec_ok r \<Longrightarrow> header_ok (sealed key r)"
  by (simp add: header_ok_def sealed_magic unpack_sealed)

lemma read_sealed:
  assumes "rec_ok r" shows "read_record (sealed key r) key = Inr r"
proof -
  have u: "unat (of_nat (length (rPayload r)) :: u32) = length (rPayload r)"
    using assms by (simp add: rec_ok_def unat_of_nat)
  have "bslice (sealed key r) 25 (length (rPayload r)) = rPayload r"
    using wal_image_fields(5) [of "rID r" "rPayload r"] assms by (simp add: sealed_image rec_ok_def)
  then show ?thesis
    using assms by (simp add: read_record_def sealed_magic verify_sealed unpack_sealed u Db_wal_payload_off_def)
qed

lemma header_ok_zero: "\<not> header_ok (replicate 4096 0)"
  by (simp add: header_ok_def le_get32_def)

section \<open>The journal over the block store\<close>

interpretation wal: block_store wal_rd wal_wr "\<lambda>w. dev_ok (w_dev w) \<and> w\<lparr>w_dev := w_dev w0\<rparr> = w0"
  "\<lambda>w. blk (w_dev w)" maxLBA for w0
proof
  fix s i b and s' :: WAL
  assume a: "dev_ok (w_dev s) \<and> s\<lparr>w_dev := w_dev w0\<rparr> = w0" "wal_rd i s = (Inr b, s')"
  then obtain d where d: "dev_Read i 4096 True (w_dev s) = (Inr b, d)" "s' = s\<lparr>w_dev := d\<rparr>"
    by (auto simp: wal_rd_def on_dev_def split: prod.splits sum.splits)
  show "(dev_ok (w_dev s') \<and> s'\<lparr>w_dev := w_dev w0\<rparr> = w0) \<and> blk (w_dev s') = blk (w_dev s) \<and>
      maxLBA s' = maxLBA s \<and> i < maxLBA s \<and> b = blk (w_dev s) i \<and> length b = 4096"
    using dev.rd_law [OF _ d(1)] a(1) d(2) by auto
next
  fix s b i u and s' :: WAL
  assume a: "dev_ok (w_dev s) \<and> s\<lparr>w_dev := w_dev w0\<rparr> = w0" "length b = 4096" "wal_wr i b s = (Inr u, s')"
  then obtain d where d: "dev_Write i b True (w_dev s) = (Inr (), d)" "s' = s\<lparr>w_dev := d\<rparr>"
    by (auto simp: wal_wr_def on_dev_def split: prod.splits sum.splits)
  show "(dev_ok (w_dev s') \<and> s'\<lparr>w_dev := w_dev w0\<rparr> = w0) \<and> blk (w_dev s') = (blk (w_dev s))(i := b) \<and>
      maxLBA s' = maxLBA s \<and> i < maxLBA s"
    using dev.wr_law [OF _ a(2) d(1)] a(1) d(2) by simp
qed

lemma concat_block_nth:
  "(\<And>b. b \<in> set bs \<Longrightarrow> length b = n) \<Longrightarrow> k < length bs \<Longrightarrow> j < n \<Longrightarrow> concat bs ! (k * n + j) = bs ! k ! j"
proof (induction bs arbitrary: k)
  case (Cons b bs)
  then show ?case by (cases k) (auto simp: nth_append add.assoc)
qed simp

lemma concat_block_length: "(\<And>b. b \<in> set bs \<Longrightarrow> length b = n) \<Longrightarrow> length (concat bs) = length bs * n"
  by (induction bs) auto

lemma bslice_put_blocks:
  assumes l: "\<And>b. b \<in> set bs \<Longrightarrow> length b = 4096" and f: "lba * 4096 + length (concat bs) \<le> length f"
  shows "bslice (put_at f (lba * 4096) (concat bs)) (i * 4096) 4096
     = (if lba \<le> i \<and> i < lba + length bs then bs ! (i - lba) else bslice f (i * 4096) 4096)"
proof -
  have len: "length (concat bs) = length bs * 4096" using l by (rule concat_block_length)
  show ?thesis
  proof (cases "lba \<le> i \<and> i < lba + length bs")
    case True
    then have k: "i - lba < length bs" "(i - lba) * 4096 + lba * 4096 = i * 4096" by (auto simp: diff_mult_distrib)
    then have "(i - lba + 1) * 4096 \<le> length bs * 4096" by (intro mult_le_mono1) simp
    then have fit: "i * 4096 + 4096 \<le> lba * 4096 + length (concat bs)" using k len by simp
    have "length (bs ! (i - lba)) = 4096" using l k by simp
    moreover have "put_at f (lba * 4096) (concat bs) ! (i * 4096 + j) = bs ! (i - lba) ! j" if "j < 4096" for j
    proof -
      have "i * 4096 + j - lba * 4096 = (i - lba) * 4096 + j" using k by simp
      then show ?thesis
        using concat_block_nth [of bs 4096 "i - lba" j] l k that fit f by (subst put_at_nth) auto
    qed
    ultimately show ?thesis using True fit f by (intro nth_equalityI) auto
  next
    case False
    then have "i * 4096 + 4096 \<le> lba * 4096 \<or> lba * 4096 + length bs * 4096 \<le> i * 4096"
      by (cases "i < lba") auto
    then show ?thesis
      using False f len by (intro nth_equalityI) (auto simp: put_at_nth)
  qed
qed

section \<open>The block log\<close>

text \<open>
  \<open>wal_holds w L\<close>: the handle's blocks \<open>0 .. w_next\<close> hold the sealed records \<open>L\<close>, the last
  \<open>w_qCount\<close> of them still in the quantum buffer, and no block of the device from there on has a
  valid header. Between operations (\<open>wal_inv\<close>) the quantum has a free slot.
\<close>

definition wal_holds :: "WAL \<Rightarrow> Record list \<Rightarrow> bool" where
  "wal_holds w L \<longleftrightarrow> dev_ok (w_dev w) \<and> length (w_qBuf w) = 32 \<and> (\<forall>b \<in> set (w_qBuf w). length b = 4096) \<and>
     w_qCount w \<le> 32 \<and> w_next w = length L \<and> length L \<le> maxLBA w \<and> w_qCount w \<le> length L \<and>
     (0 < w_qCount w \<longrightarrow> w_qLBA w + w_qCount w = length L) \<and> (\<forall>r \<in> set L. rec_ok r) \<and>
     (\<forall>i < length L - w_qCount w. blk (w_dev w) i = sealed (w_key w) (L ! i)) \<and>
     (\<forall>i < w_qCount w. w_qBuf w ! i = sealed (w_key w) (L ! (length L - w_qCount w + i))) \<and>
     (\<forall>i. length L - w_qCount w \<le> i \<and> i < maxLBA w \<longrightarrow> \<not> header_ok (blk (w_dev w) i))"

definition wal_inv :: "WAL \<Rightarrow> Record list \<Rightarrow> bool" where
  "wal_inv w L \<longleftrightarrow> wal_holds w L \<and> w_qCount w < 32"

lemma flushQuantum_frame:
  assumes "flushQuantum w = (Inr u, w')"
  shows "w_qCount w' = 0 \<and> w_next w' = w_next w \<and> w_pending w' = w_pending w \<and> w_pendingN w' = w_pendingN w \<and>
    w_hasCheck w' = w_hasCheck w \<and> w_checkLBA w' = w_checkLBA w \<and> w_key w' = w_key w \<and> w_open w' = w_open w \<and>
    w_packDepth w' = w_packDepth w"
  using assms
  by (auto simp: flushQuantum_def op_bind_def wal_wr_def on_dev_def split: if_splits prod.splits sum.splits)

lemma flush_blocks:
  assumes i: "length (w_qBuf w) = 32" "\<forall>b \<in> set (w_qBuf w). length b = 4096" "w_qCount w \<le> 32" "dev_ok (w_dev w)"
    and f: "flushQuantum w = (Inr u, w')" and q: "0 < w_qCount w"
  shows "dev_ok (w_dev w') \<and> d_size (w_dev w') = d_size (w_dev w) \<and> w_qBuf w' = w_qBuf w \<and> w_qLBA w' = w_next w \<and>
     blk (w_dev w') = (\<lambda>i. if w_qLBA w \<le> i \<and> i < w_qLBA w + w_qCount w then w_qBuf w ! (i - w_qLBA w) else blk (w_dev w) i)"
proof -
  let ?bs = "take (w_qCount w) (w_qBuf w)"
  obtain d where d: "dev_Write (w_qLBA w) (concat ?bs) True (w_dev w) = (Inr (), d)"
      "w' = w\<lparr>w_dev := d, w_qCount := 0, w_qLBA := w_next w, w_synced := False\<rparr>"
    using f q by (auto simp: flushQuantum_def op_bind_def wal_wr_def on_dev_def split: prod.splits sum.splits)
  have l: "\<And>b. b \<in> set ?bs \<Longrightarrow> length b = 4096" using i(2) by (meson in_set_takeD)
  note c = dev_Write_cases [OF d(1) i(4)]
  have "blk d j = (if w_qLBA w \<le> j \<and> j < w_qLBA w + w_qCount w then w_qBuf w ! (j - w_qLBA w) else blk (w_dev w) j)" for j
    using bslice_put_blocks [OF l, where lba = "w_qLBA w" and f = "d_file (w_dev w)" and i = j] c i(1,3)
    by (auto simp: blk_def)
  then show ?thesis using c d(2) by (simp add: fun_eq_iff)
qed

lemma flushQuantum_holds:
  assumes inv: "wal_holds w L" and f: "flushQuantum w = (Inr u, w')"
  shows "wal_holds w' L \<and> w_qCount w' = 0"
proof (cases "w_qCount w = 0")
  case True
  then show ?thesis using f inv by (simp add: flushQuantum_def)
next
  case False
  note fr = flushQuantum_frame [OF f]
  have b: "dev_ok (w_dev w') \<and> d_size (w_dev w') = d_size (w_dev w) \<and> w_qBuf w' = w_qBuf w \<and> w_qLBA w' = w_next w \<and>
     blk (w_dev w') = (\<lambda>i. if w_qLBA w \<le> i \<and> i < w_qLBA w + w_qCount w then w_qBuf w ! (i - w_qLBA w) else blk (w_dev w) i)"
    using flush_blocks [OF _ _ _ _ f] inv False by (simp add: wal_holds_def)
  have q: "w_qLBA w + w_qCount w = length L" using inv False by (simp add: wal_holds_def)
  have "blk (w_dev w') i = sealed (w_key w) (L ! i)" if "i < length L" for i
  proof (cases "i < w_qLBA w")
    case True
    then have "i < length L - w_qCount w" using q by simp
    then show ?thesis using inv b True by (simp add: wal_holds_def)
  next
    case lo: False
    then have "i - w_qLBA w < w_qCount w" "length L - w_qCount w + (i - w_qLBA w) = i" using that q by auto
    then have "w_qBuf w ! (i - w_qLBA w) = sealed (w_key w) (L ! i)" using inv unfolding wal_holds_def by metis
    then show ?thesis using b lo that q by simp
  qed
  moreover have "\<not> header_ok (blk (w_dev w') i)" if "length L \<le> i" "i < maxLBA w" for i
    using inv b that q by (simp add: wal_holds_def)
  ultimately show ?thesis
    using inv fr b by (simp add: wal_holds_def)
qed

lemma flushQuantum_inv: "wal_inv w L \<Longrightarrow> flushQuantum w = (Inr u, w') \<Longrightarrow> wal_inv w' L \<and> w_qCount w' = 0"
  unfolding wal_inv_def using flushQuantum_holds [of w L u w'] by simp

text \<open>The handle after a record has been sealed into the next slot of the quantum.\<close>

definition slotted :: "Record \<Rightarrow> WAL \<Rightarrow> WAL" where
  "slotted rec w = w\<lparr>w_qLBA := (if w_qCount w = 0 then w_next w else w_qLBA w),
     w_qBuf := (w_qBuf w)[w_qCount w := sealed (w_key w) rec], w_qCount := w_qCount w + 1,
     w_next := w_next w + 1, w_lsn := w_lsn w + 1, w_synced := False\<rparr>"

lemma write_slot_eq:
  assumes "wal_inv w L" "rec_ok rec"
  shows "write_slot rec w = (if w_qCount w = 31 then flushQuantum (slotted rec w) else (Inr (), slotted rec w))"
proof -
  have q: "w_qCount w < length (w_qBuf w)" "length (w_qBuf w ! w_qCount w) = 4096"
    using assms(1) by (auto simp: wal_inv_def wal_holds_def)
  then obtain t where t: "go_get (w_qBuf w) (w_qCount w) = Some t" "length t = 4096" by (simp add: go_get_def)
  obtain b' where "Db_wal_pack t 4096 (Some (rID rec)) (rType rec) (Some (rPayload rec))
        (length (rPayload rec)) = Some (True, b')" "sealWAL b' (w_key w) = Some (sealed (w_key w) rec)"
    using pack_sealed [OF assms(2) t(2)] by blast
  then show ?thesis
    using t(1) by (cases "w_qCount w = 0") (simp_all add: write_slot_def Let_def slotted_def)
qed

lemma slotted_holds:
  assumes inv: "wal_inv w L" and r: "rec_ok rec" and room: "length L < maxLBA w"
  shows "wal_holds (slotted rec w) (L @ [rec])"
proof -
  let ?q = "w_qCount w" and ?w = "slotted rec w"
  have h: "wal_holds w L" "?q < 32" using inv by (simp_all add: wal_inv_def)
  have buf: "w_qBuf ?w ! i = sealed (w_key w) ((L @ [rec]) ! (length L - ?q + i))" if "i < Suc ?q" for i
  proof (cases "i = ?q")
    case True
    then show ?thesis using h by (simp add: slotted_def wal_holds_def nth_append)
  next
    case False
    then have "i < ?q" "length L - ?q + i < length L" using that h by (auto simp: wal_holds_def)
    then show ?thesis using h by (simp add: slotted_def wal_holds_def nth_append)
  qed
  have "\<forall>b \<in> set (w_qBuf ?w). length b = 4096"
    using h r set_update_subset_insert [of "w_qBuf w" ?q "sealed (w_key w) rec"] by (auto simp: slotted_def wal_holds_def)
  moreover have "blk (w_dev w) i = sealed (w_key w) ((L @ [rec]) ! i)" if "i < length L - ?q" for i
  proof -
    have "i < length L" using that by simp
    then show ?thesis using h that by (simp add: wal_holds_def nth_append)
  qed
  ultimately show ?thesis
    using h buf room r by (auto simp: wal_holds_def slotted_def)
qed

definition same_frame :: "WAL \<Rightarrow> WAL \<Rightarrow> bool" where
  "same_frame w w' \<longleftrightarrow> w_pending w' = w_pending w \<and> w_pendingN w' = w_pendingN w \<and> w_hasCheck w' = w_hasCheck w \<and>
     w_checkLBA w' = w_checkLBA w \<and> w_key w' = w_key w \<and> w_open w' = w_open w \<and> w_packDepth w' = w_packDepth w \<and>
     d_size (w_dev w') = d_size (w_dev w)"

lemma flushQuantum_same:
  assumes "flushQuantum w = (Inr u, w')" "dev_ok (w_dev w)" shows "same_frame w w'"
proof -
  have "d_size (w_dev w') = d_size (w_dev w)"
    using assms by (auto simp: flushQuantum_def op_bind_def wal_wr_def on_dev_def
        split: if_splits prod.splits sum.splits dest: dev_Write_cases)
  then show ?thesis using flushQuantum_frame [OF assms(1)] by (simp add: same_frame_def)
qed

lemma write_slot_inv:
  assumes inv: "wal_inv w L" and r: "rec_ok rec" and room: "length L < maxLBA w"
    and w: "write_slot rec w = (Inr u, w')"
  shows "wal_inv w' (L @ [rec]) \<and> same_frame w w'"
proof (cases "w_qCount w = 31")
  case False
  then have "w' = slotted rec w" using w write_slot_eq [OF inv r] by simp
  moreover have "w_qCount (slotted rec w) < 32" using inv False by (simp add: slotted_def wal_inv_def)
  moreover have "same_frame w (slotted rec w)" by (simp add: same_frame_def slotted_def)
  ultimately show ?thesis using slotted_holds [OF inv r room] by (simp add: wal_inv_def)
next
  case True
  then have f: "flushQuantum (slotted rec w) = (Inr u, w')" using w write_slot_eq [OF inv r] by simp
  have h: "wal_holds (slotted rec w) (L @ [rec])" by (rule slotted_holds [OF inv r room])
  then have "dev_ok (w_dev (slotted rec w))" by (simp add: wal_holds_def)
  note s = flushQuantum_same [OF f this]
  show ?thesis using flushQuantum_holds [OF h f] s by (simp add: wal_inv_def same_frame_def slotted_def)
qed

end
