(* ===== verification/Wal_Codec.thy ===== *)
theory Wal_Codec
  imports Wal
begin

text \<open>
  The two encodings the journal uses for records that do not fill a block of their own: several records
  packed into the payload of a \<open>RecCommitBatch\<close>, and a large record cut into chunks. Both are
  inverted by the replay.
\<close>

section \<open>Batches\<close>

definition batch_enc :: "Record \<Rightarrow> bytes" where
  "batch_enc r = rType r # rID r @ le_put32 (of_nat (length (rPayload r))) @ rPayload r"

lemma batch_enc_length: "length (rID r) = 16 \<Longrightarrow> length (batch_enc r) = packedRecSize r"
  by (simp add: batch_enc_def packedRecSize_def)

lemma put_at_shift: "put_at (pre @ p) (length pre + a) xs = pre @ put_at p a xs"
proof (induction xs arbitrary: p a)
  case (Cons x xs)
  show ?case using Cons [of "p[a := x]" "Suc a"] by (simp add: list_update_append)
qed simp

lemma packBatch_step:
  assumes "length (rID r) = 16"
  shows "packBatch_loop (pre @ replicate (packedRecSize r + m) 0) (length pre) (r # rs)
       = packBatch_loop (pre @ batch_enc r @ replicate m 0) (length pre + packedRecSize r) rs"
proof -
  let ?n = "packedRecSize r + m" and ?l = "le_put32 (of_nat (length (rPayload r)))"
  have "put_at (put_at (put_at (put_at (replicate ?n 0) 0 [rType r]) 1 (rID r)) 17 ?l) 21 (rPayload r)
      = batch_enc r @ replicate m 0"
    using assms
    by (intro nth_equalityI)
      (auto simp: put_at_nth batch_enc_def packedRecSize_def nth_append nth_Cons' numeral_eq_Suc)
  then have p: "put_at (put_at (put_at (put_at (pre @ replicate ?n 0) (length pre + 0) [rType r]) (length pre + 1) (rID r)) (length pre + 17) ?l)
      (length pre + 21) (rPayload r) = pre @ batch_enc r @ replicate m 0"
    by (simp only: put_at_shift append_assoc)
  show ?thesis
    using assms p by (simp add: go_copy_def packedRecSize_def Let_def add.assoc)
qed

lemma packBatch_loop_concat:
  "\<forall>r \<in> set rs. length (rID r) = 16 \<Longrightarrow>
   packBatch_loop (pre @ replicate (sum_list (map packedRecSize rs)) 0) (length pre) rs = pre @ concat (map batch_enc rs)"
proof (induction rs arbitrary: pre)
  case (Cons r rs)
  have "packBatch_loop (pre @ replicate (sum_list (map packedRecSize (r # rs))) 0) (length pre) (r # rs)
      = packBatch_loop ((pre @ batch_enc r) @ replicate (sum_list (map packedRecSize rs)) 0) (length (pre @ batch_enc r)) rs"
    using Cons.prems packBatch_step [of r pre "sum_list (map packedRecSize rs)" rs] by (simp add: batch_enc_length)
  also have "\<dots> = (pre @ batch_enc r) @ concat (map batch_enc rs)" using Cons by (intro Cons.IH) simp
  finally show ?case by simp
qed simp

lemma packBatch_concat:
  "\<forall>r \<in> set rs. length (rID r) = 16 \<Longrightarrow> packBatch rs = concat (map batch_enc rs)"
  using packBatch_loop_concat [of rs "[]"] by (simp add: packBatch_def)

lemma unpackBatch_Cons:
  assumes "length (rID r) = 16" "length (batch_enc r @ rest) < 2 ^ 32"
  shows "unpackBatch (batch_enc r @ rest) = map_option (Cons r) (unpackBatch rest)"
proof -
  have pl: "length (rPayload r) + length rest < 2 ^ 32" using assms by (simp add: batch_enc_def)
  then have u: "unat (of_nat (length (rPayload r)) :: u32) = length (rPayload r)" by (simp add: unat_of_nat)
  have "unat (of_nat (length (rPayload r) + length rest) :: u32) = length (rPayload r) + length rest"
    using pl by (simp only: unat_of_nat) simp
  then have nlt: "\<not> (of_nat (length (rPayload r) + length rest) :: u32) < of_nat (length (rPayload r))"
    using u by (simp only: word_less_nat_alt not_less)
  have parts: "(batch_enc r @ rest) ! 0 = rType r" "bslice (batch_enc r @ rest) 1 16 = rID r"
     "le_get32 (drop 17 (batch_enc r @ rest)) = of_nat (length (rPayload r))"
     "drop 21 (batch_enc r @ rest) = rPayload r @ rest" "21 \<le> length (batch_enc r @ rest)"
    using assms(1) by (simp_all add: batch_enc_def bslice_def)
  have "unpackBatch (batch_enc r @ rest) =
     do { out \<leftarrow> unpackBatch rest; Some (\<lparr>rID = rID r, rType = rType r, rPayload = rPayload r\<rparr> # out) }"
    unfolding unpackBatch.simps [of "batch_enc r @ rest"] using parts nlt u by (auto simp: Let_def)
  then show ?thesis by (cases "unpackBatch rest") simp_all
qed

lemma unpack_concat:
  "\<forall>r \<in> set rs. length (rID r) = 16 \<Longrightarrow> length (concat (map batch_enc rs)) < 2 ^ 32 \<Longrightarrow>
   unpackBatch (concat (map batch_enc rs)) = Some rs"
proof (induction rs)
  case Nil then show ?case by (simp add: unpackBatch.simps)
next
  case (Cons r rs)
  then show ?case using unpackBatch_Cons [of r "concat (map batch_enc rs)"] by simp
qed

text \<open>
  Batches round-trip: unpacking the payload that several records were packed into gives back the
  records, with their types, identifiers and payloads, in order.
\<close>
theorem unpack_packBatch:
  assumes "\<forall>r \<in> set rs. length (rID r) = 16" "sum_list (map packedRecSize rs) < 2 ^ 32"
  shows "unpackBatch (packBatch rs) = Some rs"
proof -
  have "length (concat (map batch_enc rs)) = sum_list (map packedRecSize rs)"
    using assms(1) by (induction rs) (auto simp: batch_enc_length)
  then show ?thesis using assms unpack_concat by (simp add: packBatch_concat)
qed

theorem unpack_packBatch_witness:
  "unpackBatch (packBatch [\<lparr>rID = replicate 16 1, rType = 1, rPayload = [7, 8]\<rparr>, \<lparr>rID = replicate 16 2, rType = 2, rPayload = []\<rparr>])
     = Some [\<lparr>rID = replicate 16 1, rType = 1, rPayload = [7, 8]\<rparr>, \<lparr>rID = replicate 16 2, rType = 2, rPayload = []\<rparr>]"
  by (rule unpack_packBatch) (simp_all add: packedRecSize_def)

section \<open>Chunks\<close>

definition num_chunks :: "Record \<Rightarrow> nat" where
  "num_chunks rec = (length (rPayload rec) + 4039 - 1) div 4039"

definition chunk_rec :: "Record \<Rightarrow> nat \<Rightarrow> Record" where
  "chunk_rec rec i = \<lparr>rID = rID rec, rType = rType rec, rPayload = chunk_payload rec (num_chunks rec) i\<rparr>"

definition part :: "Record \<Rightarrow> nat \<Rightarrow> bytes" where
  "part rec i = bslice (rPayload rec) (i * 4039) 4039"

lemma chunk_payload_eq:
  "chunk_payload rec n i =
     le_put32 walChunkMagic @ le_put16 (of_nat i) @ le_put16 (of_nat n) @ le_put32 (of_nat (length (rPayload rec)))
       @ [rType rec, 0, 0, 0] @ part rec i"
proof -
  let ?t = "length (rPayload rec)"
  have data: "bslice (rPayload rec) (i * 4039) (min (i * 4039 + 4039) ?t - i * 4039) = part rec i"
    by (auto simp: part_def bslice_def min_def)
  have "put_at (put_at (put_at (put_at (put_at (put_at (replicate (16 + length (part rec i)) 0) 0 (le_put32 walChunkMagic))
      4 (le_put16 (of_nat i))) 6 (le_put16 (of_nat n))) 8 (le_put32 (of_nat ?t))) 12 [rType rec]) 16 (part rec i)
    = le_put32 walChunkMagic @ le_put16 (of_nat i) @ le_put16 (of_nat n) @ le_put32 (of_nat ?t) @ [rType rec, 0, 0, 0] @ part rec i"
    by (intro nth_equalityI) (auto simp: put_at_nth nth_append nth_Cons')
  then show ?thesis
    by (simp add: chunk_payload_def Let_def data go_copy_def del: walChunkMagic_def bslice_length)
qed

lemma join_step:
  assumes "c * 4039 \<le> length p"
  shows "go_copy (take (c * 4039) p @ replicate (length p - c * 4039) 0) (c * 4039) (bslice p (c * 4039) 4039)
    = take (Suc c * 4039) p @ replicate (length p - Suc c * 4039) 0"
proof -
  let ?x = "bslice p (c * 4039) 4039"
  have l: "length ?x \<le> length p - c * 4039" by simp
  have "go_copy (take (c * 4039) p @ replicate (length p - c * 4039) 0) (c * 4039) ?x
      = take (c * 4039) p @ put_at (replicate (length p - c * 4039) 0) 0 ?x"
    using put_at_shift [of "take (c * 4039) p" "replicate (length p - c * 4039) 0" 0 ?x] assms
    by (simp add: go_copy_def)
  also have "\<dots> = (take (c * 4039) p @ ?x) @ replicate (length p - Suc c * 4039) 0"
    using l by (subst put_at_0) auto
  also have "take (c * 4039) p @ ?x = take (Suc c * 4039) p"
    by (simp add: bslice_def take_add [symmetric] add.commute)
  finally show ?thesis .
qed

lemma join_parts_all:
  "(\<And>i. i < c + k \<Longrightarrow> parts (of_nat i) = Some (bslice p (i * 4039) 4039)) \<Longrightarrow>
   (k = 0 \<or> (c + k - 1) * 4039 < length p) \<Longrightarrow> length p \<le> (c + k) * 4039 \<Longrightarrow>
   join_parts parts c k (take (c * 4039) p @ replicate (length p - c * 4039) 0) (min (c * 4039) (length p)) = Some p"
proof (induction k arbitrary: c)
  case 0 then show ?case by simp
next
  case (Suc k)
  have c: "c * 4039 \<le> length p"
  proof -
    have "c * 4039 \<le> (c + k) * 4039" by simp
    then show ?thesis using Suc.prems(2) by simp
  qed
  have pc: "parts (of_nat c) = Some (bslice p (c * 4039) 4039)" using Suc.prems(1) [of c] by simp
  have "join_parts parts c (Suc k) (take (c * 4039) p @ replicate (length p - c * 4039) 0) (min (c * 4039) (length p))
      = join_parts parts (Suc c) k (take (Suc c * 4039) p @ replicate (length p - Suc c * 4039) 0) (min (Suc c * 4039) (length p))"
  proof -
    have m: "min (c * 4039) (length p) = c * 4039" using c by simp
    have w: "c * 4039 + length (bslice p (c * 4039) 4039) = min (Suc c * 4039) (length p)" using c by simp
    show ?thesis
      unfolding m join_parts.simps pc option.case Let_def join_step [OF c] w using c by simp
  qed
  also have "\<dots> = Some p"
    using Suc.prems by (intro Suc.IH) auto
  finally show ?case .
qed

fun replay_log :: "replay_state \<Rightarrow> Record list \<Rightarrow> wal_error + replay_state" where
  "replay_log st [] = Inr st"
| "replay_log st (r # rs) = (case replay_record st r of Inl e \<Rightarrow> Inl e | Inr st \<Rightarrow> replay_log st rs)"

lemma replay_log_append:
  "replay_log st (rs @ rs') = (case replay_log st rs of Inl e \<Rightarrow> Inl e | Inr st \<Rightarrow> replay_log st rs')"
  by (induction rs arbitrary: st) (auto split: sum.splits)

definition collector :: "Record \<Rightarrow> nat \<Rightarrow> chunkCollector" where
  "collector rec i = \<lparr>c_origType = rType rec, c_total = of_nat (num_chunks rec),
     c_totalLen = of_nat (length (rPayload rec)),
     c_parts = (\<lambda>j. if unat j < i then Some (part rec (unat j)) else None), c_count = of_nat i\<rparr>"


lemma num_chunks_bounds:
  assumes "0 < length (rPayload rec)"
  shows "(num_chunks rec - 1) * 4039 < length (rPayload rec)" "length (rPayload rec) \<le> num_chunks rec * 4039"
    "0 < num_chunks rec"
proof -
  let ?n = "length (rPayload rec)"
  have "num_chunks rec = (?n + 4038) div 4039" by (simp add: num_chunks_def add.commute)
  then have e: "?n + 4038 = num_chunks rec * 4039 + (?n + 4038) mod 4039"
    using div_mult_mod_eq [of "?n + 4038" 4039] by simp
  have m: "(?n + 4038) mod 4039 < 4039" by simp
  then show "length (rPayload rec) \<le> num_chunks rec * 4039" using e by linarith
  show p: "0 < num_chunks rec"
  proof (rule ccontr)
    assume "\<not> 0 < num_chunks rec"
    then have "?n + 4038 = (?n + 4038) mod 4039" using e by simp
    then show False using m assms by linarith
  qed
  have "(num_chunks rec - 1) * 4039 + 4039 = num_chunks rec * 4039" using p by (cases "num_chunks rec") auto
  then show "(num_chunks rec - 1) * 4039 < length (rPayload rec)" using e by linarith
qed

lemma chunk_fields:
  shows "rID (chunk_rec rec i) = rID rec" "rType (chunk_rec rec i) = rType rec"
    "le_get32 (rPayload (chunk_rec rec i)) = walChunkMagic" "16 \<le> length (rPayload (chunk_rec rec i))"
    "le_get16 (drop 4 (rPayload (chunk_rec rec i))) = of_nat i"
    "le_get16 (drop 6 (rPayload (chunk_rec rec i))) = of_nat (num_chunks rec)"
    "le_get32 (drop 8 (rPayload (chunk_rec rec i))) = of_nat (length (rPayload rec))"
    "rPayload (chunk_rec rec i) ! 12 = rType rec" "drop 16 (rPayload (chunk_rec rec i)) = part rec i"
  by (simp_all add: chunk_rec_def chunk_payload_eq nth_append)

lemma replay_record_chunk:
  "rType rec \<noteq> 3 \<Longrightarrow> replay_record st (chunk_rec rec i) = replay_chunk st (chunk_rec rec i)"
  using chunk_fields [of rec i] by (simp add: replay_record_def split: prod.split)

lemma unat_of_nat_u16: "i < 65536 \<Longrightarrow> unat (of_nat i :: u16) = i"
  by (simp add: unat_of_nat)

lemma collector_step:
  assumes "i < 65536"
  shows "(collector rec i)\<lparr>c_parts := (c_parts (collector rec i))(of_nat i \<mapsto> part rec i), c_count := c_count (collector rec i) + 1\<rparr>
    = collector rec (Suc i)" and "c_parts (collector rec i) (of_nat i) = None"
proof -
  have "(if j = of_nat i then Some (part rec i) else if unat j < i then Some (part rec (unat j)) else None)
      = (if unat j < Suc i then Some (part rec (unat j)) else None)" for j :: u16
    using unat_of_nat_u16 [OF assms] by (auto simp: less_Suc_eq dest: arg_cong [of _ _ "of_nat :: nat \<Rightarrow> u16"])
  then show "(collector rec i)\<lparr>c_parts := (c_parts (collector rec i))(of_nat i \<mapsto> part rec i), c_count := c_count (collector rec i) + 1\<rparr>
    = collector rec (Suc i)"
    by (simp add: collector_def fun_eq_iff add.commute)
  show "c_parts (collector rec i) (of_nat i) = None"
    using unat_of_nat_u16 [OF assms] by (simp add: collector_def)
qed

lemma replay_chunk_step:
  assumes i: "i < num_chunks rec" and n: "num_chunks rec \<le> 65535" and p: "0 < length (rPayload rec)"
    and c: "chunks (rID rec) = (if i = 0 then None else Some (collector rec i))"
  shows "replay_chunk (chunks, out, ri) (chunk_rec rec i) =
    (if Suc i = num_chunks rec then Inr (chunks(rID rec := None), out @ [rec], ri)
     else Inr (chunks(rID rec \<mapsto> collector rec (Suc i)), out, ri))"
proof -
  have i16: "i < 65536" using i n by simp
  have z: "\<lparr>c_origType = rType rec, c_total = of_nat (num_chunks rec), c_totalLen = of_nat (length (rPayload rec)),
      c_parts = Map.empty, c_count = 0\<rparr> = collector rec 0"
    by (simp add: collector_def)
  have len: "length (rPayload rec) < 2 ^ 32"
  proof -
    have "num_chunks rec * 4039 \<le> 65535 * 4039" using n by (rule mult_le_mono1)
    then show ?thesis using num_chunks_bounds(2) [OF p] by simp
  qed
  have j: "join_parts (c_parts (collector rec (num_chunks rec))) 0 (num_chunks rec) (replicate (length (rPayload rec)) 0) 0
      = Some (rPayload rec)"
  proof -
    have "join_parts (c_parts (collector rec (num_chunks rec))) 0 (num_chunks rec)
        (take (0 * 4039) (rPayload rec) @ replicate (length (rPayload rec) - 0 * 4039) 0) (min (0 * 4039) (length (rPayload rec)))
      = Some (rPayload rec)"
      using num_chunks_bounds [OF p] n
      by (intro join_parts_all) (auto simp: collector_def part_def unat_of_nat_u16)
    then show ?thesis by simp
  qed
  have eq: "c_count (collector rec (Suc i)) = c_total (collector rec (Suc i)) \<longleftrightarrow> Suc i = num_chunks rec"
  proof -
    have "(of_nat (Suc i) :: u16) = of_nat (num_chunks rec) \<longleftrightarrow> Suc i = num_chunks rec"
      using i n by (simp only: word_unat_eq_iff unat_of_nat_u16)
    then show ?thesis by (simp add: collector_def)
  qed
  have u: "unat (c_total (collector rec (Suc i))) = num_chunks rec"
    "unat (c_totalLen (collector rec (Suc i))) = length (rPayload rec)"
    "c_origType (collector rec (Suc i)) = rType rec"
    using n len by (simp_all add: collector_def unat_of_nat)
  have rc: "\<lparr>rID = rID rec, rType = rType rec, rPayload = rPayload rec\<rparr> = rec" by simp
  show ?thesis
    using c collector_step [OF i16] eq u j z
    by (cases "i = 0"; cases "Suc i = num_chunks rec") (simp_all add: replay_chunk_def Let_def chunk_fields)
qed


lemma replay_chunks_from:
  "i + k = num_chunks rec \<Longrightarrow> 0 < k \<Longrightarrow> num_chunks rec \<le> 65535 \<Longrightarrow> 0 < length (rPayload rec) \<Longrightarrow> rType rec \<noteq> 3 \<Longrightarrow>
   chunks (rID rec) = (if i = 0 then None else Some (collector rec i)) \<Longrightarrow>
   replay_log (chunks, out, ri) (map (chunk_rec rec) [i..<i + k]) = Inr (chunks(rID rec := None), out @ [rec], ri)"
proof (induction k arbitrary: i chunks)
  case (Suc k)
  have s: "replay_record (chunks, out, ri) (chunk_rec rec i) =
    (if Suc i = num_chunks rec then Inr (chunks(rID rec := None), out @ [rec], ri)
     else Inr (chunks(rID rec \<mapsto> collector rec (Suc i)), out, ri))"
    using Suc.prems replay_chunk_step [of i rec chunks out ri] by (simp add: replay_record_chunk)
  have u: "map (chunk_rec rec) [i..<i + Suc k] = chunk_rec rec i # map (chunk_rec rec) [Suc i..<Suc i + k]"
    by (simp add: upt_conv_Cons del: upt_Suc)
  show ?case
  proof (cases "k = 0")
    case True
    then show ?thesis unfolding u using s Suc.prems(1) by (simp add: fun_upd_def)
  next
    case False
    then show ?thesis
      unfolding u using s Suc.prems Suc.IH [of "Suc i" "chunks(rID rec \<mapsto> collector rec (Suc i))"] by (simp add: fun_upd_def cong: if_cong)
  qed
qed simp

lemma replay_chunks:
  assumes "0 < length (rPayload rec)" "num_chunks rec \<le> 65535" "rType rec \<noteq> 3" "chunks (rID rec) = None"
  shows "replay_log (chunks, out, ri) (map (chunk_rec rec) [0..<num_chunks rec]) = Inr (chunks, out @ [rec], ri)"
proof -
  have "chunks(rID rec := None) = chunks" using assms(4) by (simp add: fun_upd_idem)
  then show ?thesis
    using replay_chunks_from [of 0 "num_chunks rec" rec chunks out ri] num_chunks_bounds(3) [OF assms(1)] assms by simp
qed

text \<open>Large records round-trip: a record cut into at most 65535 chunks is put together again by the
  replay of its chunk blocks, as one record with its type and payload, without a panic and without
  leaving a partial collection behind.
\<close>
theorem replay_chunked:
  assumes "walMaxPayload < length (rPayload rec)" "num_chunks rec \<le> 65535" "rType rec \<noteq> RecCommitBatch" "chunks (rID rec) = None"
  shows "replay_log (chunks, out, ri) (map (\<lambda>i. \<lparr>rID = rID rec, rType = rType rec,
            rPayload = chunk_payload rec (num_chunks rec) i\<rparr>) [0..<num_chunks rec]) = Inr (chunks, out @ [rec], ri)"
proof -
  have "0 < length (rPayload rec)" using assms(1) by (cases "rPayload rec") auto
  then show ?thesis
    using replay_chunks [of rec chunks out ri] assms(2-4) by (simp add: chunk_rec_def [abs_def] del: length_greater_0_conv)
qed

theorem replay_chunked_witness:
  "let rec = \<lparr>rID = replicate 16 5, rType = 1, rPayload = replicate 10000 9\<rparr>
   in replay_log (Map.empty, [], 0) (map (\<lambda>i. \<lparr>rID = rID rec, rType = rType rec,
            rPayload = chunk_payload rec (num_chunks rec) i\<rparr>) [0..<num_chunks rec]) = Inr (Map.empty, [rec], 0)"
  using replay_chunked [of "\<lparr>rID = replicate 16 5, rType = 1, rPayload = replicate 10000 9\<rparr>" Map.empty "[]" 0]
  by (simp add: num_chunks_def Let_def)

end
