(* ===== verification/Wal_Refine.thy ===== *)
theory Wal_Refine
  imports Wal_Log Wal_Codec
begin

text \<open>
  The journal refines a list of records: \<open>log_rep w rs\<close> relates a handle to the records its log
  stands for, appends add one record at the end, flushing keeps the list, and a replay returns it.
\<close>

declare writeOne.simps [simp del] flushPending.simps [simp del] TruncateCheckpoint.simps [simp del]

section \<open>Replaying the blocks\<close>

lemma replay_loop_log:
  "dev_ok (w_dev w) \<Longrightarrow> (\<forall>i < length L. blk (w_dev w) (lba + i) = sealed (w_key w) (L ! i) \<and> rec_ok (L ! i)) \<Longrightarrow>
   replay_loop lba (length L) st w = (Inr st', w') \<Longrightarrow> replay_log st L = Inr st'"
proof (induction L arbitrary: lba st w)
  case (Cons r L)
  from Cons.prems(3) obtain b w1 where rd: "wal_rd lba w = (Inr b, w1)"
      and k: "(case read_record b (w_key w1) of Inl e \<Rightarrow> (Inl e, w1)
        | Inr rec \<Rightarrow> (case replay_record st rec of Inl e \<Rightarrow> (Inl e, w1) | Inr st \<Rightarrow> replay_loop (Suc lba) (length L) st w1)) = (Inr st', w')"
    by (auto elim!: op_bind_InrE)
  have w1: "dev_ok (w_dev w1)" "blk (w_dev w1) = blk (w_dev w)" "w_key w1 = w_key w" "b = blk (w_dev w) lba"
    using wal.rd_law [of w w lba b w1] rd Cons.prems(1) by (auto, metis WAL.select_convs(3) WAL.surjective WAL.update_convs(2))
  have "read_record b (w_key w1) = Inr r"
    using Cons.prems(2) [rule_format, of 0] w1 by (simp add: read_sealed)
  then obtain st1 where st1: "replay_record st r = Inr st1" "replay_loop (Suc lba) (length L) st1 w1 = (Inr st', w')"
    using k by (auto split: sum.splits)
  have "\<forall>i < length L. blk (w_dev w1) (Suc lba + i) = sealed (w_key w1) (L ! i) \<and> rec_ok (L ! i)"
    using Cons.prems(2) w1 by (metis Suc_less_eq add_Suc_shift length_Cons nth_Cons_Suc)
  then show ?case using Cons.IH [OF w1(1) _ st1(2)] st1(1) by simp
qed simp

section \<open>The record log\<close>

definition plain :: "Record \<Rightarrow> bool" where
  "plain r \<longleftrightarrow> length (rID r) = 16 \<and> Db_wal_type_ok (rType r) \<and> rType r \<noteq> 3 \<and>
     \<not> (16 \<le> length (rPayload r) \<and> length (rPayload r) \<le> 4055 \<and> le_get32 (rPayload r) = walChunkMagic)"

definition resume_at :: "Record list \<Rightarrow> nat" where
  "resume_at rs = length rs - length (takeWhile (\<lambda>r. \<not> walIsCheckpoint (rType r)) (rev rs))"

lemma resume_at_Nil [simp]: "resume_at [] = 0"
  by (simp add: resume_at_def)

lemma resume_at_snoc: "resume_at (rs @ [r]) = (if walIsCheckpoint (rType r) then length rs + 1 else resume_at rs)"
  by (simp add: resume_at_def)

lemma resume_at_append: "\<forall>r \<in> set qs. \<not> walIsCheckpoint (rType r) \<Longrightarrow> resume_at (rs @ qs) = resume_at rs"
proof (induction qs rule: rev_induct)
  case (snoc q qs)
  then show ?case using resume_at_snoc [of "rs @ qs" q] by simp
qed simp

definition pending_ok :: "WAL \<Rightarrow> bool" where
  "pending_ok w \<longleftrightarrow> (\<forall>r \<in> set (w_pending w). plain r \<and> \<not> walIsCheckpoint (rType r)) \<and>
     w_pendingN w = sum_list (map packedRecSize (w_pending w)) \<and> w_pendingN w \<le> 4055 \<and>
     (w_pending w \<noteq> [] \<longrightarrow> w_next w < maxLBA w)"

definition log_rep :: "WAL \<Rightarrow> Record list \<Rightarrow> bool" where
  "log_rep w rs \<longleftrightarrow> pending_ok w \<and>
     (\<exists>L rs0. wal_inv w L \<and> replay_log (Map.empty, [], 0) L = Inr (Map.empty, rs0, resume_at rs0) \<and> rs = rs0 @ w_pending w)"

lemma log_rep_room: "log_rep w rs \<Longrightarrow> w_pending w = [] \<or> w_next w < maxLBA w"
  by (auto simp: log_rep_def pending_ok_def)

lemma replay_plain:
  assumes "plain r" "length (rPayload r) \<le> 4055"
  shows "replay_record (c, rs, resume_at rs) r = Inr (c, rs @ [r], resume_at (rs @ [r]))"
  using assms by (auto simp: replay_record_def plain_def resume_at_snoc)

lemma replay_batch:
  assumes "\<forall>q \<in> set qs. plain q \<and> \<not> walIsCheckpoint (rType q)" "sum_list (map packedRecSize qs) \<le> 4055"
  shows "replay_record (c, rs, resume_at rs) \<lparr>rID = i, rType = 3, rPayload = packBatch qs\<rparr> = Inr (c, rs @ qs, resume_at (rs @ qs))"
proof -
  have ids: "\<forall>q \<in> set qs. length (rID q) = 16" using assms(1) by (simp add: plain_def)
  have "length (concat (map batch_enc qs)) = sum_list (map packedRecSize qs)"
    using ids by (induction qs) (auto simp: batch_enc_length)
  then have "unpackBatch (packBatch qs) = Some qs"
    using assms(2) ids unpack_concat [OF ids] by (simp add: packBatch_concat)
  then show ?thesis using assms(1) by (simp add: replay_record_def resume_at_append)
qed

lemma packBatch_length: "\<forall>q \<in> set qs. length (rID q) = 16 \<Longrightarrow> length (packBatch qs) = sum_list (map packedRecSize qs)"
  by (simp add: packBatch_concat) (induction qs, auto simp: batch_enc_length)

text \<open>Without recycling, a write of one record is a write of one slot.\<close>

lemma writeOne_room: "w_next w < maxLBA w \<Longrightarrow> writeOne (Suc f) rec w = write_slot rec w"
  by (simp add: writeOne.simps make_room_def op_bind_def)

definition pend_rec :: "Record list \<Rightarrow> Record" where
  "pend_rec qs = (if length qs = 1 then qs ! 0
     else \<lparr>rID = rID (last qs), rType = RecCommitBatch, rPayload = packBatch qs\<rparr>)"

lemma pend_rec_facts:
  assumes "\<forall>q \<in> set qs. plain q \<and> \<not> walIsCheckpoint (rType q)" "sum_list (map packedRecSize qs) \<le> 4055" "qs \<noteq> []"
  shows "rec_ok (pend_rec qs)" "replay_record (c, rs, resume_at rs) (pend_rec qs) = Inr (c, rs @ qs, resume_at (rs @ qs))"
proof -
  have ids: "\<forall>q \<in> set qs. length (rID q) = 16" using assms(1) by (simp add: plain_def)
  show "rec_ok (pend_rec qs)"
  proof (cases "length qs = 1")
    case True
    then obtain q where "qs = [q]" by (auto simp: length_Suc_conv)
    then show ?thesis using assms by (simp add: pend_rec_def rec_ok_def plain_def packedRecSize_def)
  next
    case False
    then show ?thesis
      using ids assms by (simp add: pend_rec_def rec_ok_def packBatch_length Db_wal_type_ok_def)
  qed
  show "replay_record (c, rs, resume_at rs) (pend_rec qs) = Inr (c, rs @ qs, resume_at (rs @ qs))"
  proof (cases "length qs = 1")
    case True
    then obtain q where "qs = [q]" by (auto simp: length_Suc_conv)
    then show ?thesis using assms replay_plain [of q c rs] by (simp add: pend_rec_def packedRecSize_def)
  next
    case False
    then show ?thesis using replay_batch [OF assms(1,2)] by (simp add: pend_rec_def)
  qed
qed

lemma flushPending_room:
  "w_pending w \<noteq> [] \<Longrightarrow> w_next w < maxLBA w \<Longrightarrow> flushPending (Suc f) w =
     op_bind (write_slot (pend_rec (w_pending w))) (\<lambda>_ w. (Inr (), w\<lparr>w_pending := [], w_pendingN := 0\<rparr>)) w"
  by (simp add: flushPending.simps op_bind_def pend_rec_def Let_def writeOne_room)

lemma flushPending_rep:
  assumes rep: "log_rep w rs" and f: "flushPending (Suc f) w = (Inr u, w')"
  shows "log_rep w' rs \<and> w_pending w' = [] \<and> w_next w' \<le> w_next w + 1 \<and> w_hasCheck w' = w_hasCheck w \<and>
     w_checkLBA w' = w_checkLBA w \<and> w_key w' = w_key w \<and> w_open w' = w_open w \<and> w_packDepth w' = w_packDepth w \<and>
     d_size (w_dev w') = d_size (w_dev w)"
proof (cases "w_pending w = []")
  case True
  then show ?thesis using f rep by (simp add: flushPending.simps)
next
  case False
  note room = log_rep_room [OF rep]
  obtain L rs0 where L: "wal_inv w L" "replay_log (Map.empty, [], 0) L = Inr (Map.empty, rs0, resume_at rs0)"
      "rs = rs0 @ w_pending w" and p: "pending_ok w"
    using rep by (auto simp: log_rep_def)
  have n: "w_next w = length L" using L(1) by (simp add: wal_inv_def wal_holds_def)
  obtain w1 where s: "write_slot (pend_rec (w_pending w)) w = (Inr (), w1)" "w' = w1\<lparr>w_pending := [], w_pendingN := 0\<rparr>"
  proof -
    have "op_bind (write_slot (pend_rec (w_pending w))) (\<lambda>_ w. (Inr (), w\<lparr>w_pending := [], w_pendingN := 0\<rparr>)) w = (Inr u, w')"
      using f False room flushPending_room [of w f] by simp
    then show ?thesis using that by (auto elim!: op_bind_InrE)
  qed
  note pf = pend_rec_facts [of "w_pending w"]
  have r: "rec_ok (pend_rec (w_pending w))" using pf(1) p False by (simp add: pending_ok_def)
  have i: "wal_inv w1 (L @ [pend_rec (w_pending w)])" "same_frame w w1"
    using write_slot_inv [OF L(1) r _ s(1)] room False n by simp_all
  have "wal_inv w' (L @ [pend_rec (w_pending w)])" using i(1) s(2) by (simp add: wal_inv_def wal_holds_def)
  moreover have "replay_log (Map.empty, [], 0) (L @ [pend_rec (w_pending w)]) = Inr (Map.empty, rs, resume_at rs)"
    using pf(2) [of Map.empty rs0] p False L(2,3) by (simp add: replay_log_append pending_ok_def)
  moreover have "pending_ok w'" "w_pending w' = []" using s(2) by (simp_all add: pending_ok_def)
  ultimately have "log_rep w' rs" unfolding log_rep_def by (metis append_Nil2)
  moreover have "w_next w' = w_next w + 1"
    using \<open>wal_inv w' (L @ [pend_rec (w_pending w)])\<close> n by (simp add: wal_inv_def wal_holds_def)
  ultimately show ?thesis using i(2) s(2) by (simp add: same_frame_def)
qed

lemma make_room_ok: "w_next w + need \<le> maxLBA w \<Longrightarrow> make_room need rc w = (Inr (), w)"
  by (simp add: make_room_def)

section \<open>Appending a record\<close>

lemma same_frame_trans: "same_frame a b \<Longrightarrow> same_frame b c \<Longrightarrow> same_frame a c"
  by (simp add: same_frame_def)

lemma chunk_rec_ok: "length (rID rec) = 16 \<Longrightarrow> Db_wal_type_ok (rType rec) \<Longrightarrow> rec_ok (chunk_rec rec i)"
  by (simp add: rec_ok_def chunk_rec_def chunk_payload_eq part_def)

lemma chunk_loop_inv:
  "wal_inv w L \<Longrightarrow> length L + k \<le> maxLBA w \<Longrightarrow> length (rID rec) = 16 \<Longrightarrow> Db_wal_type_ok (rType rec) \<Longrightarrow>
   chunk_loop rec (num_chunks rec) i k w = (Inr u, w') \<Longrightarrow>
   wal_inv w' (L @ map (chunk_rec rec) [i..<i + k]) \<and> same_frame w w'"
proof (induction k arbitrary: i w L)
  case 0 then show ?case by (simp add: same_frame_def)
next
  case (Suc k)
  have n: "w_next w = length L" using Suc.prems(1) by (simp add: wal_inv_def wal_holds_def)
  have "chunk_loop rec (num_chunks rec) i (Suc k) w
      = op_bind (write_slot (chunk_rec rec i)) (\<lambda>_. chunk_loop rec (num_chunks rec) (Suc i) k) w"
    using Suc.prems(2) n writeOne_room [of w "Suc 0" "chunk_rec rec i"]
    by (simp add: op_bind_def chunk_rec_def numeral_2_eq_2)
  then obtain w1 where s: "write_slot (chunk_rec rec i) w = (Inr (), w1)"
      and c: "chunk_loop rec (num_chunks rec) (Suc i) k w1 = (Inr u, w')"
    using Suc.prems(5) by (auto elim!: op_bind_InrE)
  have i: "wal_inv w1 (L @ [chunk_rec rec i])" "same_frame w w1"
    using write_slot_inv [OF Suc.prems(1) chunk_rec_ok _ s] Suc.prems by simp_all
  have "maxLBA w1 = maxLBA w" using i(2) by (simp add: same_frame_def)
  then have "wal_inv w' ((L @ [chunk_rec rec i]) @ map (chunk_rec rec) [Suc i..<Suc i + k]) \<and> same_frame w1 w'"
    using Suc.IH [OF i(1) _ _ _ c] Suc.prems(2-4) by simp
  moreover have "[i..<i + Suc k] = i # [Suc i..<Suc i + k]" by (simp add: upt_conv_Cons del: upt_Suc)
  ultimately show ?case using same_frame_trans [OF i(2)] by simp
qed

text \<open>A step of the log with nothing pending: blocks \<open>M\<close> are added, whose replay adds \<open>rec\<close>.\<close>

lemma log_rep_extend:
  assumes "log_rep w rs" "w_pending w = []"
  obtains L where "wal_inv w L" "replay_log (Map.empty, [], 0) L = Inr (Map.empty, rs, resume_at rs)" "length L = w_next w"
proof -
  obtain L rs0 where "wal_inv w L" "replay_log (Map.empty, [], 0) L = Inr (Map.empty, rs0, resume_at rs0)" "rs = rs0"
    using assms by (auto simp: log_rep_def)
  then show ?thesis using that by (auto simp: wal_inv_def wal_holds_def)
qed

lemma log_rep_intro:
  "wal_inv w L \<Longrightarrow> replay_log (Map.empty, [], 0) L = Inr (Map.empty, rs, resume_at rs) \<Longrightarrow> w_pending w = [] \<Longrightarrow> w_pendingN w = 0 \<Longrightarrow>
   log_rep w rs"
  by (auto simp: log_rep_def pending_ok_def)

lemma pendingN_0: "pending_ok w \<Longrightarrow> w_pending w = [] \<Longrightarrow> w_pendingN w = 0"
  by (simp add: pending_ok_def)

lemma write_slot_rep:
  assumes rep: "log_rep w rs" "w_pending w = []" and r: "plain rec" "length (rPayload rec) \<le> 4055"
    and room: "w_next w < maxLBA w" and s: "write_slot rec w = (Inr u, w')"
  shows "log_rep w' (rs @ [rec]) \<and> same_frame w w'"
proof -
  obtain L where L: "wal_inv w L" "replay_log (Map.empty, [], 0) L = Inr (Map.empty, rs, resume_at rs)" "length L = w_next w"
    by (rule log_rep_extend [OF rep])
  have ok: "rec_ok rec" using r by (simp add: plain_def rec_ok_def)
  have i: "wal_inv w' (L @ [rec])" "same_frame w w'"
    using write_slot_inv [OF L(1) ok _ s] room L(3) by simp_all
  have "replay_log (Map.empty, [], 0) (L @ [rec]) = Inr (Map.empty, rs @ [rec], resume_at (rs @ [rec]))"
    using replay_plain [OF r] L(2) by (simp add: replay_log_append)
  moreover have "w_pending w' = []" "w_pendingN w' = 0"
    using i(2) rep by (auto simp: same_frame_def log_rep_def pendingN_0)
  ultimately show ?thesis using i log_rep_intro by blast
qed

lemma writeChunked_rep:
  assumes rep: "log_rep w rs" "w_pending w = []" and r: "plain rec" "4055 < length (rPayload rec)" "\<not> walIsCheckpoint (rType rec)"
    and room: "w_next w + num_chunks rec \<le> maxLBA w" and s: "writeChunked rec w = (Inr u, w')"
  shows "log_rep w' (rs @ [rec]) \<and> same_frame w w'"
proof -
  obtain L where L: "wal_inv w L" "replay_log (Map.empty, [], 0) L = Inr (Map.empty, rs, resume_at rs)" "length L = w_next w"
    by (rule log_rep_extend [OF rep])
  have pos: "0 < length (rPayload rec)" using r(2) by linarith
  have nc: "(length (rPayload rec) + walChunkMaxData - 1) div walChunkMaxData = num_chunks rec"
    by (simp add: num_chunks_def)
  have n: "num_chunks rec \<le> 65535" and c: "chunk_loop rec (num_chunks rec) 0 (num_chunks rec) w = (Inr u, w')"
    using s room unfolding writeChunked_def nc Let_def
    by (auto simp: make_room_ok op_bind_Inr split: if_splits)
  have i: "wal_inv w' (L @ map (chunk_rec rec) [0..<num_chunks rec])" "same_frame w w'"
    using chunk_loop_inv [OF L(1) _ _ _ c] r(1) room L(3) by (simp_all add: plain_def)
  have "replay_log (Map.empty, rs, resume_at rs) (map (chunk_rec rec) [0..<num_chunks rec]) = Inr (Map.empty, rs @ [rec], resume_at rs)"
    using replay_chunks [OF pos n] r(1) by (simp add: plain_def)
  then have "replay_log (Map.empty, [], 0) (L @ map (chunk_rec rec) [0..<num_chunks rec]) = Inr (Map.empty, rs @ [rec], resume_at (rs @ [rec]))"
    using L(2) r(3) by (simp add: replay_log_append resume_at_snoc)
  moreover have "w_pending w' = []" "w_pendingN w' = 0"
    using i(2) rep by (auto simp: same_frame_def log_rep_def pendingN_0)
  ultimately show ?thesis using i log_rep_intro by blast
qed

lemma log_rep_pend:
  assumes rep: "log_rep w rs" and r: "plain rec" "\<not> walIsCheckpoint (rType rec)"
    and fit: "w_pendingN w + packedRecSize rec \<le> 4055" and room: "w_next w < maxLBA w"
  shows "log_rep (w\<lparr>w_pending := w_pending w @ [rec], w_pendingN := w_pendingN w + packedRecSize rec\<rparr>) (rs @ [rec])"
proof -
  obtain L rs0 where L: "wal_inv w L" "replay_log (Map.empty, [], 0) L = Inr (Map.empty, rs0, resume_at rs0)"
      "rs = rs0 @ w_pending w" and p: "pending_ok w"
    using rep by (auto simp: log_rep_def)
  have "wal_inv (w\<lparr>w_pending := w_pending w @ [rec], w_pendingN := w_pendingN w + packedRecSize rec\<rparr>) L"
    using L(1) by (simp add: wal_inv_def wal_holds_def)
  then show ?thesis using L(2,3) p r fit room by (auto simp: log_rep_def pending_ok_def)
qed

lemma appendPacked_rep:
  assumes rep: "log_rep w rs" and r: "plain rec" "\<not> walIsCheckpoint (rType rec)" and room: "w_next w + 2 \<le> maxLBA w"
    and s: "appendPacked rec w = (Inr u, w')"
  shows "log_rep w' (rs @ [rec])"
proof -
  let ?sz = "packedRecSize rec"
  have sz: "?sz \<le> 4055" using s by (simp add: appendPacked_def Let_def split: if_splits)
  have mr: "make_room 1 (TruncateCheckpoint walDepth) w = (Inr (), w)" using room by (simp add: make_room_ok)
  show ?thesis
  proof (cases "w_pending w \<noteq> [] \<and> w_pendingN w + ?sz > 4055")
    case False
    then have "w' = w\<lparr>w_pending := w_pending w @ [rec], w_pendingN := w_pendingN w + ?sz\<rparr>"
      using s sz mr by (auto simp: appendPacked_def Let_def op_bind_def split: if_splits)
    moreover have "w_pendingN w + ?sz \<le> 4055"
      using False sz rep by (auto simp: log_rep_def pendingN_0)
    ultimately show ?thesis using log_rep_pend [OF rep r] room by simp
  next
    case True
    obtain w1 where f: "flushPending 2 w = (Inr (), w1)"
        and w1: "op_bind (make_room 1 (TruncateCheckpoint walDepth))
          (\<lambda>_ w. (Inr (), w\<lparr>w_pending := w_pending w @ [rec], w_pendingN := w_pendingN w + ?sz\<rparr>)) w1 = (Inr u, w')"
      using s sz mr True by (auto simp: appendPacked_def Let_def op_bind_def split: prod.splits sum.splits)
    have F: "log_rep w1 rs" "w_pending w1 = []" "w_next w1 \<le> w_next w + 1" "maxLBA w1 = maxLBA w"
      using flushPending_rep [OF rep f [unfolded numeral_2_eq_2]] room by simp_all
    have "make_room 1 (TruncateCheckpoint walDepth) w1 = (Inr (), w1)" using F room by (simp add: make_room_ok)
    then have "w' = w1\<lparr>w_pending := w_pending w1 @ [rec], w_pendingN := w_pendingN w1 + ?sz\<rparr>"
      using w1 by (simp add: op_bind_def)
    moreover have "w_pendingN w1 + ?sz \<le> 4055" using F sz by (simp add: log_rep_def pendingN_0)
    ultimately show ?thesis using log_rep_pend [OF F(1) r] F room by simp
  qed
qed

section \<open>Operations on the record log\<close>

lemma ready_ok:
  assumes "wal_ready w = (Inr u, w')" shows "w' = w \<and> w_open w \<and> d_fd (w_dev w) \<and> \<not> d_poisoned (w_dev w)"
  using assms by (auto simp: wal_ready_def on_dev_def checkReady_def split: if_splits)

lemma Append_cases:
  assumes "Append rec w = (Inr u, w')" "w_next w < maxLBA w"
  shows "(if walIsCheckpoint (rType rec) then op_bind (flushPending walDepth) (\<lambda>_. writeOne walDepth rec) w
       else if length (rPayload rec) > walMaxPayload then op_bind (flushPending walDepth) (\<lambda>_. writeChunked rec) w
       else if w_packDepth w > 0 then appendPacked rec w
       else writeOne walDepth rec w) = (Inr u, w')"
  using assms by (auto simp: Append_def make_room_ok op_bind_Inr elim!: op_bind_InrE dest!: ready_ok)

lemma Append_rep:
  assumes rep: "log_rep w rs" and r: "plain rec" and pk: "w_packDepth w = 0 \<longrightarrow> w_pending w = []"
    and room: "w_next w + 1 + max 1 (num_chunks rec) \<le> maxLBA w" and s: "Append rec w = (Inr u, w')"
  shows "log_rep w' (rs @ [rec])"
proof -
  have r2: "w_next w + 2 \<le> maxLBA w" using room by simp
  note c = Append_cases [OF s]
  consider (flush) "walIsCheckpoint (rType rec) \<or> length (rPayload rec) > 4055" | (pack) "\<not> walIsCheckpoint (rType rec)"
      "length (rPayload rec) \<le> 4055" "w_packDepth w > 0"
    | (direct) "\<not> walIsCheckpoint (rType rec)" "length (rPayload rec) \<le> 4055" "w_packDepth w = 0"
    by linarith
  then show ?thesis
  proof cases
    case flush
    then obtain w1 where f: "flushPending 2 w = (Inr (), w1)"
        and w1: "(if walIsCheckpoint (rType rec) then writeOne 2 rec w1 else writeChunked rec w1) = (Inr u, w')"
      using c r2 by (auto elim!: op_bind_InrE split: if_splits)
    have F: "log_rep w1 rs" "w_pending w1 = []" "w_next w1 \<le> w_next w + 1" "maxLBA w1 = maxLBA w"
      using flushPending_rep [OF rep f [unfolded numeral_2_eq_2]] r2 by simp_all
    show ?thesis
    proof (cases "walIsCheckpoint (rType rec)")
      case True
      have ws: "write_slot rec w1 = (Inr u, w')"
        using w1 True F r2 writeOne_room [of w1 1 rec] by (simp add: numeral_2_eq_2)
      have "length (rPayload rec) \<le> 4055"
      proof (rule ccontr)
        assume "\<not> length (rPayload rec) \<le> 4055"
        then have "Db_wal_pack b 4096 (Some (rID rec)) (rType rec) (Some (rPayload rec)) (length (rPayload rec)) = Some (False, b)" for b
          by (simp add: Db_wal_pack_def)
        then show False using ws by (auto simp: write_slot_def Let_def split: if_splits option.splits)
      qed
      then show ?thesis using write_slot_rep [OF F(1,2) r _ _ ws] F r2 by simp
    next
      case False
      then show ?thesis using writeChunked_rep [OF F(1,2) r _ False, of u w'] w1 F room flush by simp
    qed
  next
    case pack
    then have "appendPacked rec w = (Inr u, w')" using c r2 by simp
    then show ?thesis using appendPacked_rep [OF rep r pack(1) r2] by simp
  next
    case direct
    then have "write_slot rec w = (Inr u, w')"
      using c r2 writeOne_room [of w 1 rec] by (simp add: numeral_2_eq_2)
    then show ?thesis using write_slot_rep [OF rep _ r direct(2)] pk direct(3) r2 by simp
  qed
qed

lemma flushQuantum_rep:
  assumes "log_rep w rs" "flushQuantum w = (Inr u, w')"
  shows "log_rep w' rs \<and> w_qCount w' = 0 \<and> w_pending w' = w_pending w \<and> w_key w' = w_key w \<and> w_next w' = w_next w"
proof -
  have fr: "w_pending w' = w_pending w" "w_pendingN w' = w_pendingN w" "w_key w' = w_key w" "w_next w' = w_next w" "w_qCount w' = 0"
    using flushQuantum_frame [OF assms(2)] by simp_all
  obtain L rs0 where L: "wal_inv w L" "replay_log (Map.empty, [], 0) L = Inr (Map.empty, rs0, resume_at rs0)" "rs = rs0 @ w_pending w"
    and p: "pending_ok w" using assms(1) by (auto simp: log_rep_def)
  have "wal_inv w' L" using flushQuantum_inv [OF L(1) assms(2)] by simp
  moreover have "dev_ok (w_dev w)" using L(1) by (simp add: wal_inv_def wal_holds_def)
  then have "maxLBA w' = maxLBA w" using flushQuantum_same [OF assms(2)] by (simp add: same_frame_def)
  ultimately show ?thesis using L(2,3) p fr by (auto simp: log_rep_def pending_ok_def)
qed

lemma wal_Flush_rep:
  assumes rep: "log_rep w rs" and f: "wal_Flush w = (Inr u, w')"
  shows "log_rep w' rs \<and> w_pending w' = [] \<and> w_qCount w' = 0 \<and> w_key w' = w_key w \<and> w_synced w' \<and>
     k_durable (d_os (w_dev w')) = d_file (w_dev w')"
proof -
  obtain w1 w2 w3 where f1: "flushPending 2 w = (Inr (), w1)" and f2: "flushQuantum w1 = (Inr (), w2)"
      and f3: "on_dev dev_Flush w2 = (Inr (), w3)" and w': "w' = w3\<lparr>w_synced := True\<rparr>"
    using f by (auto simp: wal_Flush_def elim!: op_bind_InrE dest!: ready_ok)
  have r1: "log_rep w1 rs" "w_pending w1 = []" "w_key w1 = w_key w"
    using flushPending_rep [OF rep f1 [unfolded numeral_2_eq_2]] by simp_all
  have r2: "log_rep w2 rs" "w_qCount w2 = 0" "w_pending w2 = []" "w_key w2 = w_key w"
    using flushQuantum_rep [OF r1(1) f2] r1 by simp_all
  obtain d where d: "dev_Flush (w_dev w2) = (Inr (), d)" "w3 = w2\<lparr>w_dev := d\<rparr>"
    using f3 by (auto simp: on_dev_def split: prod.splits sum.splits)
  obtain L where L: "wal_inv w2 L" "replay_log (Map.empty, [], 0) L = Inr (Map.empty, rs, resume_at rs)" "length L = w_next w2"
    by (rule log_rep_extend [OF r2(1,3)])
  have ok: "dev_ok (w_dev w2)" using L(1) by (simp add: wal_inv_def wal_holds_def)
  note c = dev_Flush_cases [OF d(1) ok]
  have "wal_inv w' L" using L(1) c d(2) w' by (simp add: wal_inv_def wal_holds_def blk_def)
  then have "log_rep w' rs"
    using log_rep_intro [of w' L rs] L(2) r2 d(2) w' by (auto simp: log_rep_def pendingN_0)
  then show ?thesis using c d(2) w' r2 by simp
qed

lemma Replay_rep:
  assumes rep: "log_rep w rs" and f: "ReplayResumable w = (Inr (out, ri), w')"
  shows "out = rs \<and> ri = resume_at rs"
proof -
  obtain w1 w2 c w3 where f1: "flushPending 2 w = (Inr (), w1)" and f2: "flushQuantum w1 = (Inr (), w2)"
      and f3: "replay_loop 0 (w_next w2) (Map.empty, [], 0) w2 = (Inr (c, out, ri), w3)"
    using f by (auto simp: ReplayResumable_def elim!: op_bind_InrE dest!: ready_ok)
  have r1: "log_rep w1 rs" "w_pending w1 = []"
    using flushPending_rep [OF rep f1 [unfolded numeral_2_eq_2]] by simp_all
  have r2: "log_rep w2 rs" "w_qCount w2 = 0" "w_pending w2 = []"
    using flushQuantum_rep [OF r1(1) f2] r1 by simp_all
  obtain L where L: "wal_inv w2 L" "replay_log (Map.empty, [], 0) L = Inr (Map.empty, rs, resume_at rs)" "length L = w_next w2"
    by (rule log_rep_extend [OF r2(1,3)])
  have "replay_log (Map.empty, [], 0) L = Inr (c, out, ri)"
    using replay_loop_log [of w2 L 0 "(Map.empty, [], 0)"] f3 L(1,3) r2(2) by (simp add: wal_inv_def wal_holds_def)
  then show ?thesis using L(2) by auto
qed

section \<open>Opening a journal\<close>

lemma wal_rd_cases:
  assumes "dev_ok (w_dev w)" "wal_rd i w = (r, w')"
  shows "dev_ok (w_dev w') \<and> w' = w\<lparr>w_dev := w_dev w'\<rparr> \<and> d_size (w_dev w') = d_size (w_dev w) \<and> blk (w_dev w') = blk (w_dev w) \<and>
    (case r of Inr b \<Rightarrow> b = blk (w_dev w) i | Inl e \<Rightarrow> \<exists>de. e = WDev de)"
proof -
  obtain r1 d where d: "dev_Read i 4096 True (w_dev w) = (r1, d)" by (metis surj_pair)
  show ?thesis
    using dev_Read_cases [OF d assms(1)] assms(2) d
    by (auto simp: wal_rd_def on_dev_def blk_def fun_eq_iff split: sum.splits)
qed

lemma checkMedian_clear:
  "dev_ok (w_dev w) \<Longrightarrow> \<forall>i < k. \<not> header_ok (blk (w_dev w) (lba + i)) \<Longrightarrow> checkMedianRupture lba k w = (r, w') \<Longrightarrow>
   dev_ok (w_dev w') \<and> w' = w\<lparr>w_dev := w_dev w'\<rparr> \<and> d_size (w_dev w') = d_size (w_dev w) \<and> blk (w_dev w') = blk (w_dev w) \<and>
   (r = Inr () \<or> (\<exists>e. r = Inl (WProbe (WDev e))))"
proof (induction k arbitrary: lba w)
  case (Suc k)
  obtain r1 w1 where rd: "wal_rd lba w = (r1, w1)" by (metis surj_pair)
  note c = wal_rd_cases [OF Suc.prems(1) rd]
  show ?case
  proof (cases r1)
    case (Inl e)
    then show ?thesis using c rd Suc.prems(3) by auto
  next
    case (Inr b)
    then have "\<not> header_ok b" using c Suc.prems(2) [rule_format, of 0] by simp
    then have m: "checkMedianRupture (Suc lba) k w1 = (r, w')" using Suc.prems(3) rd Inr by simp
    have "\<forall>i < k. \<not> header_ok (blk (w_dev w1) (Suc lba + i))"
      using Suc.prems(2) c by (metis Suc_less_eq add_Suc_shift)
    then show ?thesis using Suc.IH [of w1 "Suc lba", OF _ _ m] c by (metis (no_types, lifting) WAL.surjective WAL.update_convs(2))
  qed
qed auto

definition after_scan :: "nat \<Rightarrow> Record list \<Rightarrow> WAL \<Rightarrow> WAL" where
  "after_scan lba L w = w\<lparr>w_next := (if L = [] then w_next w else lba + length L),
     w_hasCheck := (w_hasCheck w \<or> 0 < resume_at L),
     w_checkLBA := (if 0 < resume_at L then lba + resume_at L - 1 else w_checkLBA w)\<rparr>"

lemma resume_at_Cons: "resume_at (r # L) = (if 0 < resume_at L then Suc (resume_at L)
    else if walIsCheckpoint (rType r) then 1 else 0)"
proof (induction L rule: rev_induct)
  case Nil show ?case using resume_at_snoc [of "[]" r] by simp
next
  case (snoc q L)
  have "resume_at ((r # L) @ [q]) = (if walIsCheckpoint (rType q) then length (r # L) + 1 else resume_at (r # L))"
    by (rule resume_at_snoc)
  then show ?case using snoc by (simp add: resume_at_snoc)
qed

lemma after_scan_Cons:
  "after_scan (Suc lba) L ((if walIsCheckpoint (rType r) then w\<lparr>w_hasCheck := True, w_checkLBA := lba\<rparr> else w)\<lparr>w_next := lba + 1\<rparr>)
     = after_scan lba (r # L) w"
  by (auto simp: after_scan_def resume_at_Cons)

lemma after_scan_dev: "(after_scan lba L (w\<lparr>w_dev := d\<rparr>))\<lparr>w_dev := e\<rparr> = (after_scan lba L w)\<lparr>w_dev := e\<rparr>"
  by (simp add: after_scan_def)

lemma scan_loop_ok:
  "dev_ok (w_dev w) \<Longrightarrow> \<forall>i < length L. blk (w_dev w) (lba + i) = sealed (w_key w) (L ! i) \<and> rec_ok (L ! i) \<Longrightarrow>
   \<forall>i < t. \<not> header_ok (blk (w_dev w) (lba + length L + i)) \<Longrightarrow> scan_loop lba (length L + t) w = (r, w') \<Longrightarrow>
   dev_ok (w_dev w') \<and> d_size (w_dev w') = d_size (w_dev w) \<and> blk (w_dev w') = blk (w_dev w) \<and>
   (case r of Inr _ \<Rightarrow> w' = (after_scan lba L w)\<lparr>w_dev := w_dev w'\<rparr> | Inl e \<Rightarrow> (\<exists>de. e = WDev de \<or> e = WProbe (WDev de)))"
proof (induction L arbitrary: lba w)
  case Nil
  show ?case
  proof (cases t)
    case 0
    then show ?thesis using Nil by (auto simp: after_scan_def)
  next
    case (Suc k)
    obtain r1 w1 where rd: "wal_rd lba w = (r1, w1)" by (metis surj_pair)
    note c = wal_rd_cases [OF Nil.prems(1) rd]
    show ?thesis
    proof (cases r1)
      case (Inl e)
      then show ?thesis using c rd Nil.prems(4) Suc by (auto simp: op_bind_def)
    next
      case (Inr b)
      then have "\<not> header_ok b" using c Nil.prems(3) [rule_format, of 0] Suc by simp
      then have m: "checkMedianRupture (lba + 1) k w1 = (r, w')" using Nil.prems(4) rd Inr Suc by (simp add: op_bind_def)
      have "\<forall>i < k. \<not> header_ok (blk (w_dev w1) (lba + 1 + i))"
      proof (intro allI impI)
        fix i assume "i < k"
        then show "\<not> header_ok (blk (w_dev w1) (lba + 1 + i))" using Nil.prems(3) [rule_format, of "Suc i"] c Suc by simp
      qed
      note q = checkMedian_clear [OF _ this m]
      have "w' = w\<lparr>w_dev := w_dev w'\<rparr>" using q c by (metis (no_types, lifting) WAL.surjective WAL.update_convs(2))
      then show ?thesis using q c by (auto simp: after_scan_def split: sum.splits)
    qed
  qed
next
  case (Cons q L)
  obtain r1 w1 where rd: "wal_rd lba w = (r1, w1)" by (metis surj_pair)
  note c = wal_rd_cases [OF Cons.prems(1) rd]
  show ?case
  proof (cases r1)
    case (Inl e)
    then show ?thesis using c rd Cons.prems(4) by (auto simp: op_bind_def)
  next
    case (Inr b)
    let ?w = "(if walIsCheckpoint (rType q) then w1\<lparr>w_hasCheck := True, w_checkLBA := lba\<rparr> else w1)\<lparr>w_next := lba + 1\<rparr>"
    have b: "b = sealed (w_key w) q" "rec_ok q" using c Inr Cons.prems(2) [rule_format, of 0] by simp_all
    have k: "w_key w1 = w_key w" using c by (metis WAL.select_convs(3) WAL.surjective WAL.update_convs(2))
    have s: "scan_loop (Suc lba) (length L + t) ?w = (r, w')"
      using Cons.prems(4) rd Inr b by (simp add: op_bind_def header_ok_sealed sealed_type Let_def)
    have e: "blk (w_dev ?w) = blk (w_dev w)" "dev_ok (w_dev ?w)" "w_key ?w = w_key w" "d_size (w_dev ?w) = d_size (w_dev w)"
      using c k by auto
    have 1: "\<forall>i < length L. blk (w_dev ?w) (Suc lba + i) = sealed (w_key ?w) (L ! i) \<and> rec_ok (L ! i)"
      using Cons.prems(2) e by (metis Suc_less_eq add_Suc_shift length_Cons nth_Cons_Suc)
    have 2: "\<forall>i < t. \<not> header_ok (blk (w_dev ?w) (Suc lba + length L + i))"
      using Cons.prems(3) e by simp
    note q = Cons.IH [OF e(2) 1 2 s]
    have "(after_scan lba (q # L) w1)\<lparr>w_dev := w_dev w'\<rparr> = (after_scan lba (q # L) w)\<lparr>w_dev := w_dev w'\<rparr>"
      using c after_scan_dev by metis
    then show ?thesis using q e after_scan_Cons [of lba L q w1] by (auto split: sum.splits)
  qed
qed


text \<open>A device that holds the sealed records \<open>L\<close> and no valid header after them.\<close>

definition dev_holds :: "bytes \<Rightarrow> Device \<Rightarrow> Record list \<Rightarrow> bool" where
  "dev_holds key d L \<longleftrightarrow> dev_ok d \<and> length L \<le> d_cap d \<and> (\<forall>r \<in> set L. rec_ok r) \<and>
     (\<forall>i < length L. blk d i = sealed key (L ! i)) \<and> (\<forall>i. length L \<le> i \<and> i < d_cap d \<longrightarrow> \<not> header_ok (blk d i))"

lemma OpenWAL_holds:
  assumes h: "dev_holds key d L" and o: "OpenWAL d key = Inr w"
  shows "wal_inv w L \<and> w_key w = key \<and> w_pending w = [] \<and> w_pendingN w = 0 \<and>
     w_hasCheck w = (0 < resume_at L) \<and> (0 < resume_at L \<longrightarrow> w_checkLBA w = resume_at L - 1) \<and> w_qLBA w = length L \<and> w_lsn w = length L"
proof -
  let ?w0 = "(newWAL d key)\<lparr>w_next := 0, w_hasCheck := False, w_checkLBA := 0\<rparr>"
  obtain w1 where s: "scan_loop 0 (d_cap d) ?w0 = (Inr (), w1)" and w: "w = w1\<lparr>w_lsn := w_next w1, w_qLBA := w_next w1\<rparr>"
    using o by (auto simp: OpenWAL_def scanTip_def newWAL_def op_bind_def split: prod.splits sum.splits)
  have "d_cap d = length L + (d_cap d - length L)" using h by (simp add: dev_holds_def)
  with s have s': "scan_loop 0 (length L + (d_cap d - length L)) ?w0 = (Inr (), w1)" by simp
  have 1: "\<forall>i < length L. blk (w_dev ?w0) (0 + i) = sealed (w_key ?w0) (L ! i) \<and> rec_ok (L ! i)"
    using h by (simp add: dev_holds_def newWAL_def)
  have 2: "\<forall>i < d_cap d - length L. \<not> header_ok (blk (w_dev ?w0) (0 + length L + i))"
    using h by (simp add: dev_holds_def newWAL_def)
  have ok: "dev_ok (w_dev ?w0)" using h by (simp add: dev_holds_def newWAL_def)
  note q = scan_loop_ok [OF ok 1 2 s']
  have w1: "w1 = (after_scan 0 L ?w0)\<lparr>w_dev := w_dev w1\<rparr>" "dev_ok (w_dev w1)" "d_size (w_dev w1) = d_size d" "blk (w_dev w1) = blk d"
    using q by (simp_all add: newWAL_def)
  have f: "w_next w1 = length L" "w_key w1 = key" "w_pending w1 = []" "w_pendingN w1 = 0" "w_qCount w1 = 0"
     "w_qBuf w1 = replicate 32 (replicate 4096 0)" "w_hasCheck w1 = (0 < resume_at L)" "0 < resume_at L \<longrightarrow> w_checkLBA w1 = resume_at L - 1"
    by (subst w1(1), simp add: after_scan_def newWAL_def)+
  then show ?thesis
    using h w w1(2-4) by (auto simp: wal_inv_def wal_holds_def dev_holds_def)
qed

end
