(* ===== verification/Wal_Props.thy ===== *)
theory Wal_Props
  imports Wal_Refine Device_Live
begin

text \<open>
  The journal on a device that answers every call (\<open>healthy\<close>), and the properties of the
  journal: appends, durability across a crash and a reopen, recycling, and the limits of both.
\<close>

section \<open>A healthy journal\<close>

abbreviation wal_healthy :: "WAL \<Rightarrow> bool" where
  "wal_healthy w \<equiv> w_open w \<and> healthy (w_dev w)"

lemma ready_healthy: "wal_healthy w \<Longrightarrow> wal_ready w = (Inr (), w)"
  by (simp add: wal_ready_def on_dev_def checkReady_def healthy_def)

lemma wal_rd_healthy:
  assumes "healthy (w_dev w)" "i < maxLBA w"
  shows "\<exists>d'. wal_rd i w = (Inr (blk (w_dev w) i), w\<lparr>w_dev := d'\<rparr>) \<and> healthy d' \<and> d_size d' = d_size (w_dev w) \<and> blk d' = blk (w_dev w)"
proof -
  obtain d' where d: "dev_Read i 4096 True (w_dev w) = (Inr (blk (w_dev w) i), d')" "healthy d'"
    using dev_Read_healthy [OF assms] by blast
  have "dev_ok (w_dev w)" using assms(1) by (simp add: healthy_def)
  from dev_Read_cases [OF d(1) this] d show ?thesis by (auto simp: wal_rd_def on_dev_def blk_def fun_eq_iff)
qed

lemma flushQuantum_healthy:
  assumes inv: "wal_holds w L" and h: "healthy (w_dev w)"
  shows "\<exists>w'. flushQuantum w = (Inr (), w') \<and> healthy (w_dev w')"
proof (cases "w_qCount w = 0")
  case False
  let ?bs = "take (w_qCount w) (w_qBuf w)"
  have "length (concat ?bs) = length ?bs * 4096"
    using inv by (intro concat_block_length) (auto simp: wal_holds_def dest: in_set_takeD)
  then have "length (concat ?bs) = w_qCount w * 4096" using inv by (simp add: wal_holds_def)
  moreover have "w_qLBA w + w_qCount w \<le> d_cap (w_dev w)" using inv False by (simp add: wal_holds_def)
  ultimately obtain d' where "dev_Write (w_qLBA w) (concat ?bs) True (w_dev w) = (Inr (), d')" "healthy d'"
    using dev_Write_healthy [OF h] False by blast
  then show ?thesis using False by (simp add: flushQuantum_def op_bind_def wal_wr_def on_dev_def)
qed (use h in \<open>simp add: flushQuantum_def\<close>)

lemma write_slot_healthy:
  assumes inv: "wal_inv w L" and h: "healthy (w_dev w)" and r: "rec_ok rec" and room: "length L < maxLBA w"
  shows "\<exists>w'. write_slot rec w = (Inr (), w') \<and> healthy (w_dev w')"
proof (cases "w_qCount w = 31")
  case True
  have "healthy (w_dev (slotted rec w))" using h by (simp add: slotted_def)
  then show ?thesis
    using True write_slot_eq [OF inv r] flushQuantum_healthy [OF slotted_holds [OF inv r room]] by simp
qed (use h write_slot_eq [OF inv r] in \<open>simp add: slotted_def\<close>)

lemma flushPending_healthy:
  assumes rep: "log_rep w rs" and h: "healthy (w_dev w)"
  shows "\<exists>w'. flushPending (Suc f) w = (Inr (), w') \<and> healthy (w_dev w')"
proof (cases "w_pending w = []")
  case False
  note room = log_rep_room [OF rep]
  obtain L where L: "wal_inv w L" and p: "pending_ok w" using rep by (auto simp: log_rep_def)
  have n: "w_next w = length L" using L by (simp add: wal_inv_def wal_holds_def)
  have "rec_ok (pend_rec (w_pending w))" using pend_rec_facts(1) p False by (simp add: pending_ok_def)
  then obtain w' where "write_slot (pend_rec (w_pending w)) w = (Inr (), w')" "healthy (w_dev w')"
    using write_slot_healthy [OF L h] room False n by auto
  then show ?thesis using flushPending_room [OF False] room False by (simp add: op_bind_def)
qed (use h in \<open>simp add: flushPending.simps\<close>)

lemma wal_Flush_healthy:
  assumes rep: "log_rep w rs" and h: "wal_healthy w"
  shows "\<exists>w'. wal_Flush w = (Inr (), w')"
proof -
  obtain w1 where w1: "flushPending 2 w = (Inr (), w1)" "healthy (w_dev w1)"
    using flushPending_healthy [OF rep, of 1] h by (auto simp: numeral_2_eq_2)
  have r1: "log_rep w1 rs" using flushPending_rep [OF rep w1(1) [unfolded numeral_2_eq_2]] by simp
  then obtain L where "wal_holds w1 L" by (auto simp: log_rep_def wal_inv_def)
  then obtain w2 where w2: "flushQuantum w1 = (Inr (), w2)" "healthy (w_dev w2)"
    using flushQuantum_healthy w1(2) by blast
  obtain d' where "dev_Flush (w_dev w2) = (Inr (), d')" using dev_Flush_healthy [OF w2(2)] by blast
  then show ?thesis using w1(1) w2(1) h by (simp add: wal_Flush_def op_bind_def ready_healthy on_dev_def)
qed

lemma checkMedian_healthy:
  "healthy (w_dev w) \<Longrightarrow> \<forall>i < k. \<not> header_ok (blk (w_dev w) (lba + i)) \<Longrightarrow> lba + k \<le> maxLBA w \<Longrightarrow>
   \<exists>d'. checkMedianRupture lba k w = (Inr (), w\<lparr>w_dev := d'\<rparr>) \<and> healthy d'"
proof (induction k arbitrary: lba w)
  case 0 then show ?case by (auto intro: exI [of _ "w_dev w"])
next
  case (Suc k)
  obtain d1 where d1: "wal_rd lba w = (Inr (blk (w_dev w) lba), w\<lparr>w_dev := d1\<rparr>)" "healthy d1"
      "d_size d1 = d_size (w_dev w)" "blk d1 = blk (w_dev w)"
    using wal_rd_healthy [OF Suc.prems(1), of lba] Suc.prems(3) by auto
  have "\<not> header_ok (blk (w_dev w) lba)" using Suc.prems(2) [rule_format, of 0] by simp
  moreover have "\<forall>i < k. \<not> header_ok (blk (w_dev (w\<lparr>w_dev := d1\<rparr>)) (Suc lba + i))"
    using Suc.prems(2) d1(4) by (auto dest: spec [of _ "Suc _"])
  then have "\<exists>d'. checkMedianRupture (Suc lba) k (w\<lparr>w_dev := d1\<rparr>) = (Inr (), w\<lparr>w_dev := d1\<rparr>\<lparr>w_dev := d'\<rparr>) \<and> healthy d'"
    using Suc.IH [of "w\<lparr>w_dev := d1\<rparr>" "Suc lba"] d1 Suc.prems(3) by simp
  ultimately show ?case using d1(1) by simp
qed


lemma scan_healthy:
  "healthy (w_dev w) \<Longrightarrow> \<forall>i < length L. blk (w_dev w) (lba + i) = sealed (w_key w) (L ! i) \<and> rec_ok (L ! i) \<Longrightarrow>
   \<forall>i < t. \<not> header_ok (blk (w_dev w) (lba + length L + i)) \<Longrightarrow> lba + length L + t \<le> maxLBA w \<Longrightarrow>
   \<exists>w'. scan_loop lba (length L + t) w = (Inr (), w') \<and> healthy (w_dev w') \<and> w_open w' = w_open w"
proof (induction L arbitrary: lba w)
  case Nil
  show ?case
  proof (cases t)
    case 0 then show ?thesis using Nil by simp
  next
    case (Suc k)
    obtain d1 where d1: "wal_rd lba w = (Inr (blk (w_dev w) lba), w\<lparr>w_dev := d1\<rparr>)" "healthy d1"
        "d_size d1 = d_size (w_dev w)" "blk d1 = blk (w_dev w)"
      using wal_rd_healthy [OF Nil.prems(1), of lba] Nil.prems(4) Suc by auto
    have "\<not> header_ok (blk (w_dev w) lba)" using Nil.prems(3) [rule_format, of 0] Suc by simp
    moreover have "\<forall>i < k. \<not> header_ok (blk (w_dev (w\<lparr>w_dev := d1\<rparr>)) (lba + 1 + i))"
      using Nil.prems(3) d1(4) Suc by (auto dest: spec [of _ "Suc _"])
    then obtain d2 where "checkMedianRupture (lba + 1) k (w\<lparr>w_dev := d1\<rparr>) = (Inr (), w\<lparr>w_dev := d1\<rparr>\<lparr>w_dev := d2\<rparr>)" "healthy d2"
      using checkMedian_healthy [of "w\<lparr>w_dev := d1\<rparr>" k "lba + 1"] d1(2,3) Nil.prems(4) Suc by auto
    ultimately show ?thesis using d1(1) Suc by (simp add: op_bind_def)
  qed
next
  case (Cons q L)
  obtain d1 where d1: "wal_rd lba w = (Inr (blk (w_dev w) lba), w\<lparr>w_dev := d1\<rparr>)" "healthy d1"
      "d_size d1 = d_size (w_dev w)" "blk d1 = blk (w_dev w)"
    using wal_rd_healthy [OF Cons.prems(1), of lba] Cons.prems(4) by auto
  let ?w1 = "w\<lparr>w_dev := d1\<rparr>"
  let ?w = "(if walIsCheckpoint (rType q) then ?w1\<lparr>w_hasCheck := True, w_checkLBA := lba\<rparr> else ?w1)\<lparr>w_next := lba + 1\<rparr>"
  have b: "blk (w_dev w) lba = sealed (w_key w) q" "rec_ok q" using Cons.prems(2) [rule_format, of 0] by simp_all
  have s: "scan_loop lba (length (q # L) + t) w = scan_loop (Suc lba) (length L + t) ?w"
    using d1(1) b by (simp add: op_bind_def header_ok_sealed sealed_type Let_def)
  have "\<exists>w'. scan_loop (Suc lba) (length L + t) ?w = (Inr (), w') \<and> healthy (w_dev w') \<and> w_open w' = w_open ?w"
  proof (rule Cons.IH)
    show "\<forall>i < length L. blk (w_dev ?w) (Suc lba + i) = sealed (w_key ?w) (L ! i) \<and> rec_ok (L ! i)"
      using Cons.prems(2) d1(4) by (auto dest: spec [of _ "Suc _"])
    show "\<forall>i < t. \<not> header_ok (blk (w_dev ?w) (Suc lba + length L + i))" using Cons.prems(3) d1(4) by simp
  qed (use d1 Cons.prems(4) in simp_all)
  then show ?case unfolding s by (cases "walIsCheckpoint (rType q)") simp_all
qed

lemma OpenWAL_healthy:
  assumes h: "dev_holds key d L" and f: "healthy d"
  shows "\<exists>w. OpenWAL d key = Inr w \<and> wal_healthy w"
proof -
  let ?w0 = "(newWAL d key)\<lparr>w_next := 0, w_hasCheck := False, w_checkLBA := 0\<rparr>"
  have e: "d_cap d = length L + (d_cap d - length L)" using h by (simp add: dev_holds_def)
  obtain w' where "scan_loop 0 (length L + (d_cap d - length L)) ?w0 = (Inr (), w')" "healthy (w_dev w')" "w_open w' = w_open ?w0"
    using scan_healthy [of ?w0 L 0 "d_cap d - length L"] h f by (auto simp: dev_holds_def newWAL_def)
  then have "scan_loop 0 (d_cap d) ?w0 = (Inr (), w')" "healthy (w_dev w')" "w_open w'" using e by (simp_all add: newWAL_def)
  then show ?thesis by (simp add: OpenWAL_def scanTip_def op_bind_def newWAL_def)
qed

lemma replay_loop_healthy:
  "healthy (w_dev w) \<Longrightarrow> \<forall>i < length L. blk (w_dev w) (lba + i) = sealed (w_key w) (L ! i) \<and> rec_ok (L ! i) \<Longrightarrow>
   lba + length L \<le> maxLBA w \<Longrightarrow> replay_log st L = Inr st' \<Longrightarrow> \<exists>w'. replay_loop lba (length L) st w = (Inr st', w')"
proof (induction L arbitrary: lba st w)
  case (Cons q L)
  obtain d1 where d1: "wal_rd lba w = (Inr (blk (w_dev w) lba), w\<lparr>w_dev := d1\<rparr>)" "healthy d1"
      "d_size d1 = d_size (w_dev w)" "blk d1 = blk (w_dev w)"
    using wal_rd_healthy [OF Cons.prems(1), of lba] Cons.prems(3) by auto
  have b: "read_record (blk (w_dev w) lba) (w_key w) = Inr q"
    using Cons.prems(2) [rule_format, of 0] by (simp add: read_sealed)
  obtain st1 where st1: "replay_record st q = Inr st1" "replay_log st1 L = Inr st'"
    using Cons.prems(4) by (auto split: sum.splits)
  have "\<forall>i < length L. blk (w_dev (w\<lparr>w_dev := d1\<rparr>)) (Suc lba + i) = sealed (w_key (w\<lparr>w_dev := d1\<rparr>)) (L ! i) \<and> rec_ok (L ! i)"
    using Cons.prems(2) d1(4) by (auto dest: spec [of _ "Suc _"])
  then show ?case
    using Cons.IH [of "w\<lparr>w_dev := d1\<rparr>" "Suc lba" st1] d1 b st1 Cons.prems(3) by (simp add: op_bind_def)
qed simp

lemma Replay_healthy:
  assumes rep: "log_rep w rs" and h: "wal_healthy w"
  shows "\<exists>w'. ReplayResumable w = (Inr (rs, resume_at rs), w')"
proof -
  obtain w1 where w1: "flushPending 2 w = (Inr (), w1)" "healthy (w_dev w1)"
    using flushPending_healthy [OF rep, of 1] h by (auto simp: numeral_2_eq_2)
  have r1: "log_rep w1 rs" "w_pending w1 = []"
    using flushPending_rep [OF rep w1(1) [unfolded numeral_2_eq_2]] by simp_all
  then obtain M where "wal_holds w1 M" by (auto simp: log_rep_def wal_inv_def)
  then obtain w2 where w2: "flushQuantum w1 = (Inr (), w2)" "healthy (w_dev w2)"
    using flushQuantum_healthy w1(2) by blast
  have r2: "log_rep w2 rs" "w_qCount w2 = 0" "w_pending w2 = []"
    using flushQuantum_rep [OF r1(1) w2(1)] r1 by simp_all
  obtain L where L: "wal_inv w2 L" "replay_log (Map.empty, [], 0) L = Inr (Map.empty, rs, resume_at rs)" "length L = w_next w2"
    by (rule log_rep_extend [OF r2(1,3)])
  have "\<exists>w3. replay_loop 0 (length L) (Map.empty, [], 0) w2 = (Inr (Map.empty, rs, resume_at rs), w3)"
    by (rule replay_loop_healthy) (use w2(2) L(1,2) r2(2) in \<open>simp_all add: wal_inv_def wal_holds_def\<close>)
  then show ?thesis
    using w1(1) w2(1) h L(3) by (auto simp: ReplayResumable_def op_bind_def ready_healthy)
qed

section \<open>Properties\<close>

lemma log_rep_new:
  assumes "dev_ok d" "\<forall>i < d_cap d. \<not> header_ok (blk d i)"
  shows "log_rep (newWAL d key) []"
proof -
  have "wal_inv (newWAL d key) []" using assms by (simp add: wal_inv_def wal_holds_def newWAL_def)
  then show ?thesis by (rule log_rep_intro) (simp_all add: newWAL_def)
qed

text \<open>
  C2. Appending refines appending to a list: while the log has room, a successful append (direct,
  packed into a batch, as a checkpoint marker, or cut into chunks) adds exactly its record at the end
  of the records the log stands for, whatever the device did on the way. The record's type is not
  the batch type and its payload, if it fits a block, does not begin with the chunk magic.
\<close>
theorem Append_refines:
  assumes "log_rep w rs" "plain rec" "w_packDepth w = 0 \<longrightarrow> w_pending w = []"
    "w_next w + 1 + max 1 (num_chunks rec) \<le> maxLBA w" "Append rec w = (Inr u, w')"
  shows "log_rep w' (rs @ [rec])"
  using assms by (rule Append_rep)

lemma zero_dev_blank: "\<forall>i < d_cap (zero_dev n). \<not> header_ok (blk (zero_dev n) i)"
  using zero_dev_blk header_ok_zero by (simp add: zero_dev_def)

definition sample_rec :: Record where
  "sample_rec = \<lparr>rID = replicate 16 3, rType = 1, rPayload = [1, 2, 3]\<rparr>"

lemma sample_rec_facts: "plain sample_rec" "rec_ok sample_rec" "num_chunks sample_rec = 1"
  by (simp_all add: sample_rec_def plain_def rec_ok_def Db_wal_type_ok_def num_chunks_def)

lemma Append_healthy:
  assumes "log_rep w rs" "wal_healthy w" "w_packDepth w = 0" "w_pending w = []" "plain rec"
    "length (rPayload rec) \<le> 4055" "w_next w < maxLBA w"
  shows "\<exists>w'. Append rec w = (Inr (), w') \<and> log_rep w' (rs @ [rec]) \<and> wal_healthy w' \<and> same_frame w w'"
proof -
  obtain L where L: "wal_inv w L" "length L = w_next w" using log_rep_extend [OF assms(1,4)] by metis
  have ok: "rec_ok rec" using assms(5,6) by (simp add: plain_def rec_ok_def)
  obtain w' where w': "write_slot rec w = (Inr (), w')" "healthy (w_dev w')"
    using write_slot_healthy [OF L(1) _ ok] assms(2,7) L(2) by auto
  have "log_rep w' (rs @ [rec])" "same_frame w w'" using write_slot_rep [OF assms(1,4,5,6,7) w'(1)] by simp_all
  moreover have "flushPending 2 w = (Inr (), w)" using assms(4) by (simp add: flushPending.simps)
  moreover have "writeOne 2 rec w = (Inr (), w')" using writeOne_room [OF assms(7), of 1] w' by (simp add: numeral_2_eq_2)
  ultimately show ?thesis
    using assms(2,3,6,7) w'(2) by (simp add: Append_def op_bind_def ready_healthy make_room_ok same_frame_def)
qed

lemma chunk_loop_healthy:
  "wal_inv w L \<Longrightarrow> length L + k \<le> maxLBA w \<Longrightarrow> length (rID rec) = 16 \<Longrightarrow> Db_wal_type_ok (rType rec) \<Longrightarrow> healthy (w_dev w) \<Longrightarrow>
   \<exists>w'. chunk_loop rec (num_chunks rec) i k w = (Inr (), w')"
proof (induction k arbitrary: i w L)
  case (Suc k)
  have n: "w_next w < maxLBA w" using Suc.prems(1,2) by (simp add: wal_inv_def wal_holds_def)
  note ok = chunk_rec_ok [OF Suc.prems(3,4), of i]
  obtain w1 where s: "write_slot (chunk_rec rec i) w = (Inr (), w1)" "healthy (w_dev w1)"
    using write_slot_healthy [OF Suc.prems(1,5) ok] Suc.prems(2) by auto
  have i: "wal_inv w1 (L @ [chunk_rec rec i])" "same_frame w w1"
    using write_slot_inv [OF Suc.prems(1) ok _ s(1)] Suc.prems(2) by simp_all
  have "maxLBA w1 = maxLBA w" using i(2) by (simp add: same_frame_def)
  then obtain w' where "chunk_loop rec (num_chunks rec) (Suc i) k w1 = (Inr (), w')"
    using Suc.IH [OF i(1) _ Suc.prems(3,4) s(2)] Suc.prems(2) by auto
  then show ?case using s(1) n writeOne_room [of w "Suc 0" "chunk_rec rec i"] by (simp add: op_bind_def chunk_rec_def numeral_2_eq_2)
qed simp

lemma write_slot_long:
  assumes "wal_inv w L" "4055 < length (rPayload rec)"
  shows "fst (write_slot rec w) = Inl WTooLong"
proof -
  have "w_qCount w < length (w_qBuf w)" using assms(1) by (auto simp: wal_inv_def wal_holds_def)
  then have "\<exists>t. go_get (w_qBuf w) (w_qCount w) = Some t" by (simp add: go_get_def)
  then show ?thesis using assms(2) by (auto simp: write_slot_def Let_def Db_wal_pack_def)
qed

text \<open>The flush an append begins with, on a healthy device: the log it leaves and the room that is left.\<close>

lemma Append_flush_healthy:
  assumes "log_rep w rs" "wal_healthy w" "w_next w < maxLBA w"
  obtains w1 where "flushPending 2 w = (Inr (), w1)" "log_rep w1 rs" "w_pending w1 = []" "wal_healthy w1" "maxLBA w1 = maxLBA w"
    "w_next w1 \<le> w_next w + (if w_pending w = [] then 0 else 1)"
proof -
  obtain w1 where w1: "flushPending 2 w = (Inr (), w1)" "healthy (w_dev w1)"
    using flushPending_healthy [OF assms(1), of 1] assms(2) by (auto simp: numeral_2_eq_2)
  note f = flushPending_rep [OF assms(1) w1(1) [unfolded numeral_2_eq_2]]
  have "w_pending w = [] \<Longrightarrow> w1 = w" using w1(1) by (simp add: flushPending.simps)
  then show ?thesis using that [OF w1(1)] f w1(2) assms(2) by auto
qed

lemma appendPacked_healthy:
  assumes "log_rep w rs" "wal_healthy w" "plain rec" "\<not> walIsCheckpoint (rType rec)" "length (rPayload rec) \<le> 4034"
    "w_next w + (if w_pending w = [] then 0 else 1) < maxLBA w"
  shows "\<exists>w'. appendPacked rec w = (Inr (), w') \<and> log_rep w' (rs @ [rec])"
proof -
  let ?sz = "packedRecSize rec"
  let ?put = "\<lambda>w. w\<lparr>w_pending := w_pending w @ [rec], w_pendingN := w_pendingN w + ?sz\<rparr>"
  have sz: "?sz \<le> 4055" using assms(5) by (simp add: packedRecSize_def)
  have room: "w_next w < maxLBA w" using assms(6) by (simp split: if_splits)
  have mr: "make_room 1 (TruncateCheckpoint 2) w = (Inr (), w)" using room by (simp add: make_room_ok)
  show ?thesis
  proof (cases "w_pending w \<noteq> [] \<and> w_pendingN w + ?sz > 4055")
    case False
    have "appendPacked rec w = (Inr (), ?put w)" using sz mr False by (auto simp: appendPacked_def Let_def op_bind_def)
    moreover have "w_pendingN w + ?sz \<le> 4055" using False sz assms(1) by (auto simp: log_rep_def pendingN_0)
    ultimately show ?thesis using log_rep_pend [OF assms(1,3,4) _ room] by simp
  next
    case True
    obtain w1 where w1: "flushPending 2 w = (Inr (), w1)" "log_rep w1 rs" "w_pending w1 = []" "maxLBA w1 = maxLBA w" "w_next w1 \<le> w_next w + 1"
      by (rule Append_flush_healthy [OF assms(1,2) room]) (use True in simp)
    have r1: "w_next w1 < maxLBA w1" using w1(4,5) assms(6) True by simp
    have "make_room 1 (TruncateCheckpoint 2) w1 = (Inr (), w1)" using r1 by (simp add: make_room_ok)
    then have "appendPacked rec w = (Inr (), ?put w1)" using sz mr True w1(1) by (simp add: appendPacked_def Let_def op_bind_def)
    moreover have "w_pendingN w1 + ?sz \<le> 4055" using w1(2,3) sz by (simp add: log_rep_def pendingN_0)
    ultimately show ?thesis using log_rep_pend [OF w1(2) assms(3,4) _ r1] by simp
  qed
qed

text \<open>The blocks an append may take: one for the pending records it flushes, and those of the record itself.\<close>

definition append_blocks :: "Record \<Rightarrow> WAL \<Rightarrow> nat" where
  "append_blocks rec w = (if w_pending w = [] then 0 else 1) + (if length (rPayload rec) \<le> 4055 then 1 else num_chunks rec)"

text \<open>The records an append refuses, and the error: a checkpoint marker that does not fit a block, a record of
  more than 65535 chunks, and inside a pack a record that would fit a block but not a batch of one.\<close>

definition append_refused :: "Record \<Rightarrow> WAL \<Rightarrow> wal_error option" where
  "append_refused rec w =
     (let n = length (rPayload rec) in
      if walIsCheckpoint (rType rec) then (if n > 4055 then Some WTooLong else None)
      else if n > 4055 then (if num_chunks rec > 65535 then Some WTooLarge else None)
      else if w_packDepth w > 0 \<and> n > 4034 then Some WTooLong else None)"

text \<open>
  C3. Which appends go through: on a device that answers its calls, with room in the log for the blocks the append
  may take and, outside a pack, nothing pending, an append fails exactly for the refused records, with their
  error, and every other record is appended. A record is one whose type is not the batch type and whose payload,
  if it fits a block, does not begin with the chunk magic.
\<close>
theorem Append_succeeds:
  assumes "log_rep w rs" "wal_healthy w" "w_packDepth w = 0 \<longrightarrow> w_pending w = []" "plain rec"
    "w_next w + append_blocks rec w \<le> maxLBA w"
  shows "case append_refused rec w of Some e \<Rightarrow> fst (Append rec w) = Inl e
     | None \<Rightarrow> \<exists>w'. Append rec w = (Inr (), w') \<and> log_rep w' (rs @ [rec])"
proof -
  have nc: "4055 < length (rPayload rec) \<Longrightarrow> 0 < num_chunks rec" by (cases "length (rPayload rec)") (simp_all add: num_chunks_def div_greater_zero_iff)
  have room: "w_next w < maxLBA w" using assms(5) nc by (auto simp: append_blocks_def split: if_splits)
  have id: "length (rID rec) = 16" "Db_wal_type_ok (rType rec)" using assms(4) by (simp_all add: plain_def)
  have A: "Append rec w =
      (if walIsCheckpoint (rType rec) then op_bind (flushPending 2) (\<lambda>_. writeOne 2 rec) w
       else if length (rPayload rec) > 4055 then op_bind (flushPending 2) (\<lambda>_. writeChunked rec) w
       else if w_packDepth w > 0 then appendPacked rec w
       else writeOne 2 rec w)"
    using ready_healthy [OF assms(2)] room by (simp add: Append_def op_bind_def make_room_ok)
  consider (check) "walIsCheckpoint (rType rec)" | (chunks) "\<not> walIsCheckpoint (rType rec)" "4055 < length (rPayload rec)"
    | (pack) "\<not> walIsCheckpoint (rType rec)" "length (rPayload rec) \<le> 4055" "w_packDepth w > 0"
    | (direct) "\<not> walIsCheckpoint (rType rec)" "length (rPayload rec) \<le> 4055" "w_packDepth w = 0"
    by linarith
  then show ?thesis
  proof cases
    case check
    obtain w1 where w1: "flushPending 2 w = (Inr (), w1)" "log_rep w1 rs" "w_pending w1 = []" "wal_healthy w1" "maxLBA w1 = maxLBA w"
        "w_next w1 \<le> w_next w + (if w_pending w = [] then 0 else 1)"
      by (rule Append_flush_healthy [OF assms(1,2) room])
    obtain L where L: "wal_inv w1 L" "length L = w_next w1" using log_rep_extend [OF w1(2,3)] by metis
    have r1: "w_next w1 < maxLBA w1" using w1(5,6) assms(5) nc by (auto simp: append_blocks_def split: if_splits)
    have e: "Append rec w = write_slot rec w1"
      using A check w1(1) writeOne_room [OF r1, of 1] by (simp add: op_bind_def numeral_2_eq_2)
    show ?thesis
    proof (cases "length (rPayload rec) \<le> 4055")
      case True
      then obtain w' where s: "write_slot rec w1 = (Inr (), w')"
        using write_slot_healthy [OF L(1)] w1(4) L(2) r1 id by (auto simp: rec_ok_def)
      then show ?thesis using write_slot_rep [OF w1(2,3) assms(4) True r1 s] e check True by (simp add: append_refused_def)
    next
      case False then show ?thesis using write_slot_long [OF L(1)] e check by (simp add: append_refused_def)
    qed
  next
    case chunks
    obtain w1 where w1: "flushPending 2 w = (Inr (), w1)" "log_rep w1 rs" "w_pending w1 = []" "wal_healthy w1" "maxLBA w1 = maxLBA w"
        "w_next w1 \<le> w_next w + (if w_pending w = [] then 0 else 1)"
      by (rule Append_flush_healthy [OF assms(1,2) room])
    obtain L where L: "wal_inv w1 L" "length L = w_next w1" using log_rep_extend [OF w1(2,3)] by metis
    have r1: "w_next w1 + num_chunks rec \<le> maxLBA w1" using w1(5,6) assms(5) chunks(2) by (auto simp: append_blocks_def split: if_splits)
    have nn: "(length (rPayload rec) + walChunkMaxData - 1) div walChunkMaxData = num_chunks rec" by (simp add: num_chunks_def)
    have e: "Append rec w = writeChunked rec w1" using A chunks w1(1) by (simp add: op_bind_def)
    show ?thesis
    proof (cases "65535 < num_chunks rec")
      case True
      then have "fst (writeChunked rec w1) = Inl WTooLarge" unfolding writeChunked_def nn Let_def by simp
      then show ?thesis using e chunks True by (simp add: append_refused_def)
    next
      case False
      obtain w' where "chunk_loop rec (num_chunks rec) 0 (num_chunks rec) w1 = (Inr (), w')"
        using chunk_loop_healthy [OF L(1) _ id] L(2) r1 w1(4) by auto
      then have s: "writeChunked rec w1 = (Inr (), w')"
        using False r1 unfolding writeChunked_def nn Let_def by (simp add: make_room_ok op_bind_def)
      then show ?thesis
        using writeChunked_rep [OF w1(2,3) assms(4) chunks(2,1) r1 s] e chunks False by (simp add: append_refused_def)
    qed
  next
    case pack
    show ?thesis
    proof (cases "length (rPayload rec) \<le> 4034")
      case True
      then have "w_next w + (if w_pending w = [] then 0 else 1) < maxLBA w" using assms(5) pack(2) by (simp add: append_blocks_def)
      from appendPacked_healthy [OF assms(1,2,4) pack(1) True this] show ?thesis using A pack True by (simp add: append_refused_def)
    next
      case False
      then have "fst (appendPacked rec w) = Inl WTooLong" by (simp add: appendPacked_def packedRecSize_def)
      then show ?thesis using A pack False by (simp add: append_refused_def)
    qed
  next
    case direct
    then show ?thesis using Append_healthy [OF assms(1,2) direct(3) _ assms(4) direct(2) room] assms(3) by (auto simp: append_refused_def)
  qed
qed

lemma sample_append:
  obtains w where "Append sample_rec (newWAL (zero_dev 4) (replicate 32 7)) = (Inr (), w)" "wal_healthy w"
    "log_rep w [sample_rec]" "w_pending w = []" "w_key w = replicate 32 7"
proof -
  let ?w = "newWAL (zero_dev 4) (replicate 32 7)"
  have f: "w_packDepth ?w = 0" "w_pending ?w = []" "w_next ?w < maxLBA ?w" "wal_healthy ?w" "w_key ?w = replicate 32 7"
    using zero_dev_ok(2) [of 4] by (simp_all add: newWAL_def) (simp add: zero_dev_def)
  have "length (rPayload sample_rec) \<le> 4055" by (simp add: sample_rec_def)
  from Append_healthy [OF log_rep_new [OF zero_dev_ok(1) zero_dev_blank] f(4,1,2) sample_rec_facts(1) this f(3)]
  show ?thesis using that f by (auto simp: same_frame_def)
qed

theorem Append_refines_witness:
  "\<exists>w'. Append sample_rec (newWAL (zero_dev 4) (replicate 32 7)) = (Inr (), w') \<and> log_rep w' [sample_rec]"
proof -
  obtain w where w: "Append sample_rec (newWAL (zero_dev 4) (replicate 32 7)) = (Inr (), w)" using sample_append by blast
  have "log_rep w ([] @ [sample_rec])"
    by (rule Append_refines [OF log_rep_new [OF zero_dev_ok(1) zero_dev_blank] sample_rec_facts(1) _ _ w])
      (simp_all add: newWAL_def zero_dev_def sample_rec_facts)
  then show ?thesis using w by simp
qed

text \<open>A record of three bytes goes through in a pack; one of 4040 bytes, which a single block holds, does not.\<close>

theorem Append_succeeds_witness:
  "(\<exists>w'. Append sample_rec (BeginPack (newWAL (zero_dev 4) (replicate 32 7))) = (Inr (), w') \<and> log_rep w' ([] @ [sample_rec])) \<and>
   fst (Append (sample_rec\<lparr>rPayload := replicate 4040 1\<rparr>) (BeginPack (newWAL (zero_dev 4) (replicate 32 7)))) = Inl WTooLong \<and>
   (\<exists>w'. Append (sample_rec\<lparr>rPayload := replicate 4040 1\<rparr>) (newWAL (zero_dev 4) (replicate 32 7)) = (Inr (), w'))"
proof -
  let ?v = "newWAL (zero_dev 4) (replicate 32 7)" and ?long = "sample_rec\<lparr>rPayload := replicate 4040 1\<rparr>"
  have "replicate 4040 (1 :: byte) = 1 # 1 # 1 # 1 # replicate 4036 1" by (simp add: numeral_eq_Suc)
  moreover have "le_get32 (1 # 1 # 1 # 1 # xs) \<noteq> walChunkMagic" for xs by (simp add: le_get32_def)
  ultimately have m: "le_get32 (replicate 4040 1) \<noteq> walChunkMagic" by metis
  have r: "log_rep ?v []" by (rule log_rep_new [OF zero_dev_ok(1) zero_dev_blank])
  have rb: "log_rep (BeginPack ?v) []"
    using r by (simp add: log_rep_def pending_ok_def wal_inv_def wal_holds_def BeginPack_def)
  have h: "wal_healthy ?v" "wal_healthy (BeginPack ?v)" using zero_dev_ok(2) [of 4] by (simp_all add: newWAL_def BeginPack_def)
  have p: "plain ?long" using m sample_rec_facts(1) by (simp add: plain_def sample_rec_def)
  have f: "maxLBA ?v = 4" "maxLBA (BeginPack ?v) = 4" "w_pending ?v = []" "w_pending (BeginPack ?v) = []" "w_next ?v = 0"
    "w_next (BeginPack ?v) = 0" "w_packDepth ?v = 0" "w_packDepth (BeginPack ?v) = 1"
    by (simp_all add: newWAL_def BeginPack_def zero_dev_def)
  have b: "append_blocks sample_rec (BeginPack ?v) = 1" "append_blocks ?long (BeginPack ?v) = 1" "append_blocks ?long ?v = 1"
    using f by (simp_all add: append_blocks_def sample_rec_def)
  have x: "append_refused sample_rec (BeginPack ?v) = None" "append_refused ?long (BeginPack ?v) = Some WTooLong" "append_refused ?long ?v = None"
    using f by (simp_all add: append_refused_def sample_rec_def walIsCheckpoint_def Let_def)
  show ?thesis
    using Append_succeeds [OF rb h(2) _ sample_rec_facts(1)] Append_succeeds [OF rb h(2) _ p] Append_succeeds [OF r h(1) _ p]
    unfolding b x f by auto
qed

text \<open>
  C1. Durability: once a flush has returned, a crash that leaves the device with what the barrier
  made durable loses nothing. Reopening the journal with the same key and replaying it returns all the
  records appended before the flush, in order, and resumes after the last checkpoint marker; on a
  device that answers its calls, reopening and replaying do succeed.
\<close>
theorem flush_durable:
  assumes "log_rep w rs" "wal_Flush w = (Inr u, w1)"
    "k_file k = k_durable (d_os (w_dev w1))" "k_io k = []"
  shows "\<exists>d w2 w3. dev_Open k = Inr d \<and> OpenWAL d (w_key w) = Inr w2 \<and> ReplayResumable w2 = (Inr (rs, resume_at rs), w3)"
proof -
  have f: "log_rep w1 rs" "w_pending w1 = []" "w_qCount w1 = 0" "w_key w1 = w_key w" "k_durable (d_os (w_dev w1)) = d_file (w_dev w1)"
    using wal_Flush_rep [OF assms(1,2)] by simp_all
  obtain L where L: "wal_inv w1 L" "replay_log (Map.empty, [], 0) L = Inr (Map.empty, rs, resume_at rs)" "length L = w_next w1"
    by (rule log_rep_extend [OF f(1,2)])
  define d where "d = \<lparr>d_fd = True, d_size = length (k_file k), d_preadN = 0, d_pwriteN = 0, d_poisoned = False, d_os = k\<rparr>"
  have fl: "d_file d = d_file (w_dev w1)" using assms(3) f(5) by (simp add: d_def)
  have ok: "dev_ok (w_dev w1)" using L(1) by (simp add: wal_inv_def wal_holds_def)
  then have sz: "d_size d = d_size (w_dev w1)" "length (k_file k) mod 4096 = 0" using fl by (auto simp: d_def dev_ok_def)
  have o: "dev_Open k = Inr d" using sz(2) by (simp add: dev_Open_def d_def)
  have h: "healthy d" using sz(2) assms(4) by (simp add: healthy_def dev_ok_def d_def)
  have "blk d = blk (w_dev w1)" using fl by (simp add: blk_def fun_eq_iff)
  then have dh: "dev_holds (w_key w) d L"
    using L(1) f(3,4) sz h by (auto simp: wal_inv_def wal_holds_def dev_holds_def healthy_def)
  obtain w2 where w2: "OpenWAL d (w_key w) = Inr w2" "wal_healthy w2" using OpenWAL_healthy [OF dh h] by blast
  have i: "wal_inv w2 L" "w_pending w2 = []" "w_pendingN w2 = 0" using OpenWAL_holds [OF dh w2(1)] by simp_all
  have "log_rep w2 rs" using log_rep_intro [OF i(1) L(2) i(2,3)] .
  then obtain w3 where "ReplayResumable w2 = (Inr (rs, resume_at rs), w3)" using Replay_healthy [OF _ w2(2)] by blast
  then show ?thesis using o w2(1) by blast
qed

theorem flush_durable_witness:
  "\<exists>w w1 d w2 w3. Append sample_rec (newWAL (zero_dev 4) (replicate 32 7)) = (Inr (), w) \<and> wal_Flush w = (Inr (), w1) \<and>
     dev_Open \<lparr>k_file = k_durable (d_os (w_dev w1)), k_durable = k_durable (d_os (w_dev w1)), k_io = []\<rparr> = Inr d \<and>
     OpenWAL d (w_key w) = Inr w2 \<and> ReplayResumable w2 = (Inr ([sample_rec], 0), w3)"
proof -
  obtain w where w: "Append sample_rec (newWAL (zero_dev 4) (replicate 32 7)) = (Inr (), w)" "wal_healthy w"
    "log_rep w [sample_rec]" "w_pending w = []" by (rule sample_append)
  obtain w1 where w1: "wal_Flush w = (Inr (), w1)" using wal_Flush_healthy [OF w(3,2)] by blast
  have "resume_at [sample_rec] = 0" by (simp add: resume_at_def sample_rec_def walIsCheckpoint_def)
  then show ?thesis
    using flush_durable [OF w(3) w1, of "\<lparr>k_file = k_durable (d_os (w_dev w1)), k_durable = k_durable (d_os (w_dev w1)), k_io = []\<rparr>"]
      w(1,4) w1 by fastforce
qed

end
