(* ===== verification/Wal_Compact.thy ===== *)
theory Wal_Compact
  imports Wal_Props
begin

text \<open>
  Recycling the journal up to its last checkpoint (\<^verbatim>\<open>TruncateCheckpoint\<close>), and the calls
  \<^verbatim>\<open>writeOne\<close>, \<^verbatim>\<open>flushPending\<close> and \<^verbatim>\<open>TruncateCheckpoint\<close> make of each other.
\<close>

section \<open>What a truncation keeps\<close>

definition compacted :: "nat \<Rightarrow> Record list \<Rightarrow> Record list" where
  "compacted check L =
     (let K = drop (min check (length L)) L in
      if K \<noteq> [] \<and> walIsCheckpoint (rType (hd K)) then check_record (length K) # tl K
      else check_record (length K + 1) # K)"

lemma check_record_ok: "rec_ok (check_record n)"
  by (simp add: rec_ok_def check_record_def zero_id_def Db_wal_type_ok_def)

abbreviation wal_frame :: "WAL \<Rightarrow> WAL \<Rightarrow> bool" where
  "wal_frame w0 w \<equiv> dev_ok (w_dev w) \<and> w\<lparr>w_dev := w_dev w0\<rparr> = w0"

lemma dev_ok_size: "dev_ok d \<Longrightarrow> d_size d = d_cap d * 4096"
  unfolding dev_ok_def by (metis add.right_neutral div_mult_mod_eq)

lemma compact_tail_steps:
  assumes ok: "dev_ok (w_dev w)" and c: "w_hasCheck w" and s: "compact_tail w = (Inr u, w')"
  defines "src \<equiv> min (w_checkLBA w) (w_next w)"
  defines "n0 \<equiv> w_next w - src"
  defines "first \<equiv> 0 < n0 \<and> walIsCheckpoint (blk (w_dev w) src ! 24)"
  defines "n1 \<equiv> if first then n0 else n0 + 1"
  obtains d where "w' = w\<lparr>w_dev := d, w_next := n1, w_checkLBA := 0, w_hasCheck := True\<rparr>" "dev_ok d" "d_size d = d_size (w_dev w)"
    "first \<or> n0 < maxLBA w" "k_durable (d_os d) = d_file d"
    "\<forall>j. blk d j = (if j = 0 then sealed (w_key w) (check_record n1)
        else if n1 \<le> j \<and> j < w_next w then replicate 4096 0
        else if first \<and> j < n0 then blk (w_dev w) (src + j)
        else if \<not> first \<and> j \<le> n0 then blk (w_dev w) (src + (j - 1))
        else blk (w_dev w) j)"
proof -
  let ?B = "blk (w_dev w)"
  have fr: "wal_frame w w" using ok by simp
  obtain fi w1 w2 n w3 b w4 w5 w6 where
      s1: "compact_first src n0 w = (Inr fi, w1)" and
      s2: "move_down wal_rd wal_wr src 0 n0 w1 = (Inr (), w2)" and
      s3: "(if fi then op_ret n0 else (\<lambda>w. if n0 \<ge> maxLBA w then (Inl WFull, w)
             else op_bind (shift_up wal_rd wal_wr n0) (\<lambda>_. op_ret (n0 + 1)) w)) w2 = (Inr n, w3)" and
      b: "pack_seal (check_record n) (w_key w3) = Inr b" and
      s4: "wal_wr 0 b w3 = (Inr (), w4)" and
      s5: "zero_range wal_wr n (w_next w - n) w4 = (Inr (), w5)" and
      s6: "on_dev dev_Flush w5 = (Inr (), w6)" and
      w': "w' = w6\<lparr>w_next := n, w_checkLBA := 0, w_hasCheck := True\<rparr>"
    using s c unfolding compact_tail_def Let_def src_def [symmetric] n0_def [symmetric]
    by (auto elim!: op_bind_InrE split: sum.splits)
  have f1: "wal_frame w w1" "blk (w_dev w1) = ?B" "maxLBA w1 = maxLBA w" "fi = first"
    using s1 fr wal.rd_law [OF fr]
    by (auto simp: compact_first_def first_def op_bind_def split: if_splits prod.splits sum.splits)
  have f2: "wal_frame w w2" "maxLBA w2 = maxLBA w" "blk (w_dev w2) = (\<lambda>j. if j < n0 then ?B (src + j) else ?B j)"
    using wal.move_down_blocks [OF f1(1) s2] f1(2,3) by (auto simp: fun_eq_iff)
  have f3: "wal_frame w w3" "maxLBA w3 = maxLBA w" "n = n1" "first \<or> n0 < maxLBA w"
      "blk (w_dev w3) = (\<lambda>j. if first then (if j < n0 then ?B (src + j) else ?B j)
          else if 0 < j \<and> j \<le> n0 then ?B (src + (j - 1)) else if j = 0 \<and> 0 < n0 then ?B src else ?B j)"
  proof -
    have "wal_frame w w3 \<and> maxLBA w3 = maxLBA w \<and> n = n1 \<and> (first \<or> n0 < maxLBA w) \<and>
      blk (w_dev w3) = (\<lambda>j. if first then (if j < n0 then ?B (src + j) else ?B j)
          else if 0 < j \<and> j \<le> n0 then ?B (src + (j - 1)) else if j = 0 \<and> 0 < n0 then ?B src else ?B j)"
    proof (cases first)
      case True
      then show ?thesis using s3 f1(4) f2 by (auto simp: n1_def)
    next
      case False
      then have n: "n0 < maxLBA w" "n = n0 + 1" and sh: "shift_up wal_rd wal_wr n0 w2 = (Inr (), w3)"
        using s3 f1(4) f2(2) by (auto split: if_splits elim!: op_bind_InrE)
      show ?thesis
        using wal.shift_up_blocks [OF f2(1) sh] f2 n False by (auto simp: n1_def fun_eq_iff)
    qed
    then show "wal_frame w w3" "maxLBA w3 = maxLBA w" "n = n1" "first \<or> n0 < maxLBA w"
      "blk (w_dev w3) = (\<lambda>j. if first then (if j < n0 then ?B (src + j) else ?B j)
          else if 0 < j \<and> j \<le> n0 then ?B (src + (j - 1)) else if j = 0 \<and> 0 < n0 then ?B src else ?B j)"
      by blast+
  qed
  have k: "w_key w3 = w_key w" using f3(1) by (metis WAL.select_convs(3) WAL.surjective WAL.update_convs(2))
  have b': "b = sealed (w_key w) (check_record n1)" "length b = 4096"
    using b k f3(3) pack_seal_eq [OF check_record_ok] check_record_ok by auto
  have f4: "wal_frame w w4" "maxLBA w4 = maxLBA w" "blk (w_dev w4) = (blk (w_dev w3))(0 := b)"
    using wal.wr_law [OF f3(1) b'(2) s4] f3(2) by simp_all
  have f5: "wal_frame w w5" "maxLBA w5 = maxLBA w"
      "blk (w_dev w5) = (\<lambda>j. if n \<le> j \<and> j < n + (w_next w - n) then replicate 4096 0 else blk (w_dev w4) j)"
    using wal.zero_range_blocks [OF f4(1) s5] f4(2) by simp_all
  obtain d where d: "dev_Flush (w_dev w5) = (Inr (), d)" "w6 = w5\<lparr>w_dev := d\<rparr>"
    using s6 by (auto simp: on_dev_def split: prod.splits sum.splits)
  have "dev_ok (w_dev w5)" using f5(1) by simp
  note df = dev_Flush_cases [OF d(1) this]
  have "w5 = w\<lparr>w_dev := w_dev w5\<rparr>" using f5(1) by (metis WAL.surjective WAL.update_convs(2))
  then have w6: "w' = w\<lparr>w_dev := d, w_next := n1, w_checkLBA := 0, w_hasCheck := True\<rparr>"
    using w' d(2) f3(3) by (metis WAL.surjective WAL.update_convs(2))
  have sz: "d_size d = d_size (w_dev w)"
    using df f5(2) dev_ok_size [of d] dev_ok_size [OF ok] by simp
  have n1: "0 < n1" by (auto simp: n1_def first_def)
  have "blk d j = (if j = 0 then sealed (w_key w) (check_record n1)
        else if n1 \<le> j \<and> j < w_next w then replicate 4096 0
        else if first \<and> j < n0 then blk (w_dev w) (src + j)
        else if \<not> first \<and> j \<le> n0 then blk (w_dev w) (src + (j - 1))
        else blk (w_dev w) j)" for j
  proof -
    have "blk d j = blk (w_dev w5) j" using df by (simp add: blk_def)
    also have "\<dots> = (if n1 \<le> j \<and> j < w_next w then replicate 4096 0 else if j = 0 then b else blk (w_dev w3) j)"
      using f5(3) f4(3) f3(3) by auto
    finally show ?thesis using n1 b'(1) f3(5) by auto
  qed
  then show ?thesis using that [OF w6 _ sz f3(4)] df by auto
qed


lemma compact_tail_inv:
  assumes inv: "wal_inv w L" and q: "w_qCount w = 0" and c: "w_hasCheck w" and s: "compact_tail w = (Inr u, w')"
  shows "wal_inv w' (compacted (w_checkLBA w) L) \<and> w_checkLBA w' = 0 \<and> w_hasCheck w' \<and> w_pending w' = w_pending w \<and>
     w_pendingN w' = w_pendingN w \<and> w_key w' = w_key w \<and> w_qLBA w' = w_qLBA w \<and> w_qCount w' = 0 \<and>
     k_durable (d_os (w_dev w')) = d_file (w_dev w') \<and> maxLBA w' = maxLBA w \<and> w_open w' = w_open w"
proof -
  have h: "dev_ok (w_dev w)" "w_next w = length L" "\<forall>r \<in> set L. rec_ok r" "length L \<le> maxLBA w"
      "\<And>i. i < length L \<Longrightarrow> blk (w_dev w) i = sealed (w_key w) (L ! i)"
      "\<And>i. length L \<le> i \<Longrightarrow> i < maxLBA w \<Longrightarrow> \<not> header_ok (blk (w_dev w) i)"
    using inv q by (auto simp: wal_inv_def wal_holds_def)
  define src where "src = min (w_checkLBA w) (w_next w)"
  define n0 where "n0 = w_next w - src"
  define first where "first = (0 < n0 \<and> walIsCheckpoint (blk (w_dev w) src ! 24))"
  define n1 where "n1 = (if first then n0 else n0 + 1)"
  let ?K = "drop src L" and ?L = "compacted (w_checkLBA w) L"
  obtain d where w': "w' = w\<lparr>w_dev := d, w_next := n1, w_checkLBA := 0, w_hasCheck := True\<rparr>" "dev_ok d" "d_size d = d_size (w_dev w)"
    "first \<or> n0 < maxLBA w" "k_durable (d_os d) = d_file d"
    and B: "\<forall>j. blk d j = (if j = 0 then sealed (w_key w) (check_record n1)
        else if n1 \<le> j \<and> j < w_next w then replicate 4096 0
        else if first \<and> j < n0 then blk (w_dev w) (src + j)
        else if \<not> first \<and> j \<le> n0 then blk (w_dev w) (src + (j - 1))
        else blk (w_dev w) j)"
    by (rule compact_tail_steps [OF h(1) c s, folded src_def, folded n0_def, folded first_def, folded n1_def])
  have K: "length ?K = n0" "src \<le> length L" "src + n0 = length L" using h(2) by (simp_all add: n0_def src_def)
  have hdK: "0 < n0 \<Longrightarrow> hd ?K = L ! src" using K by (simp add: hd_drop_conv_nth)
  have fst: "first \<longleftrightarrow> ?K \<noteq> [] \<and> walIsCheckpoint (rType (hd ?K))"
    using h(3,5) K hdK by (auto simp: first_def sealed_type)
  have L': "?L = (if first then check_record n0 # tl ?K else check_record (n0 + 1) # ?K)"
  proof -
    have e: "min (w_checkLBA w) (length L) = src" using h(2) by (simp add: src_def)
    show ?thesis by (simp only: compacted_def Let_def e K(1) fst)
  qed
  have len: "length ?L = n1" using L' K(1) by (auto simp: n1_def first_def)
  have nth: "blk d j = sealed (w_key w) (?L ! j)" if j: "j < n1" for j
  proof (cases "j = 0")
    case True then show ?thesis using B L' by (simp add: n1_def)
  next
    case False
    show ?thesis
    proof (cases first)
      case True
      then have "j < n0" "?L ! j = L ! (src + j)" using j False L' K by (auto simp: n1_def nth_tl nth_Cons')
      then show ?thesis using B True False h(5) K j by (simp add: n1_def)
    next
      case nf: False
      then have "j \<le> n0" "?L ! j = L ! (src + (j - 1))" using j False L' K by (auto simp: n1_def nth_Cons')
      then show ?thesis using B nf False h(5) [of "src + (j - 1)"] K j by (simp add: n1_def)
    qed
  qed
  have clear: "\<not> header_ok (blk d j)" if "n1 \<le> j" "j < maxLBA w" for j
  proof (cases "j < w_next w")
    case True
    have "0 < n1" by (auto simp: n1_def first_def)
    then have "j \<noteq> 0" using that by simp
    then have "blk d j = replicate 4096 0" using B True that by simp
    then show ?thesis using header_ok_zero by simp
  next
    case False
    then have "blk d j = blk (w_dev w) j" using B that K h(2) by (auto simp: n1_def first_def)
    then show ?thesis using h(6) False that h(2) by simp
  qed
  have ok: "\<forall>r \<in> set ?L. rec_ok r"
  proof -
    have "set (tl ?K) \<subseteq> set L" by (metis drop_Suc tl_drop set_drop_subset)
    then show ?thesis using L' h(3) check_record_ok by (auto split: if_splits dest: in_set_dropD)
  qed
  have cap: "n1 \<le> maxLBA w" using w'(4) h(2,4) by (auto simp: n1_def n0_def)
  have "wal_inv w' ?L"
    using inv q w' len nth clear ok cap by (simp add: wal_inv_def wal_holds_def)
  then show ?thesis using w' q by simp
qed

section \<open>The nest of calls\<close>

text \<open>Operations that never report an exhausted stack: all of them but the three calls themselves.\<close>

definition no_stack :: "(WAL, wal_error, 'a) op \<Rightarrow> bool" where
  "no_stack m \<longleftrightarrow> (\<forall>w. fst (m w) \<noteq> Inl WStack)"

lemma no_stackD: "no_stack m \<Longrightarrow> fst (m w) \<noteq> Inl WStack"
  by (simp add: no_stack_def)

lemma no_stack_bind_at: "fst (m w) \<noteq> Inl WStack \<Longrightarrow> (\<And>x. no_stack (f x)) \<Longrightarrow> fst (op_bind m f w) \<noteq> Inl WStack"
  by (auto simp: no_stack_def op_bind_def split: prod.split sum.split)

lemma no_stack_bind: "no_stack m \<Longrightarrow> (\<And>x. no_stack (f x)) \<Longrightarrow> no_stack (op_bind m f)"
  using no_stack_bind_at unfolding no_stack_def by metis

lemma no_stack_simple [simp]: "no_stack (op_ret x)" "e \<noteq> WStack \<Longrightarrow> no_stack (op_fail e)" "no_stack (on_dev m)" "no_stack wal_ready"
  "no_stack (Pair (Inr x))" "no_stack (\<lambda>w. (Inr x, f w))"
  by (auto simp: no_stack_def on_dev_def wal_ready_def split: prod.split sum.split)

lemma no_stack_store [simp]: "no_stack (wal_rd i)" "no_stack (wal_wr i b)"
  by (simp_all add: wal_rd_def wal_wr_def)

lemma no_stack_move: "no_stack (move_down wal_rd wal_wr src i k)"
  by (induction k arbitrary: i) (auto intro!: no_stack_bind)

lemma no_stack_shift: "no_stack (shift_up wal_rd wal_wr k)"
  by (induction k) (auto intro!: no_stack_bind)

lemma no_stack_zero: "no_stack (zero_range wal_wr i k)"
  by (induction k arbitrary: i) (auto intro!: no_stack_bind)

lemma no_stack_flush: "no_stack flushQuantum"
proof (unfold no_stack_def, intro allI)
  fix w show "fst (flushQuantum w) \<noteq> Inl WStack"
    unfolding flushQuantum_def by (split if_split, intro conjI impI no_stack_bind_at no_stackD [OF no_stack_store(2)]) simp_all
qed

lemma no_stack_slot: "no_stack (write_slot rec)"
  using no_stackD [OF no_stack_flush] by (auto simp: no_stack_def write_slot_def Let_def split: option.split bool.split)

lemma no_stack_first: "no_stack (compact_first src n)"
  by (auto simp: compact_first_def intro!: no_stack_bind)

lemma no_stack_seal: "no_stack (\<lambda>w. case pack_seal r (w_key w) of Inl e \<Rightarrow> (Inl e, w) | Inr b \<Rightarrow> f b w)" if "\<And>b. no_stack (f b)"
  using that by (auto simp: no_stack_def pack_seal_def split: option.split bool.split)

lemma no_stack_if: "no_stack a \<Longrightarrow> no_stack b \<Longrightarrow> no_stack (\<lambda>w. if P w then a w else b w)"
  by (simp add: no_stack_def)

lemma no_stack_compact: "no_stack compact_tail"
proof -
  have last: "no_stack (\<lambda>w. case pack_seal (check_record k) (w_key w) of Inl e \<Rightarrow> (Inl e, w)
     | Inr b \<Rightarrow> op_bind (wal_wr 0 b) (\<lambda>_. op_bind (zero_range wal_wr k n) (\<lambda>_. op_bind (on_dev dev_Flush) (\<lambda>_ w.
          (Inr (), w\<lparr>w_next := k, w_checkLBA := 0, w_hasCheck := True\<rparr>)))) w)" for k n
    by (intro no_stack_seal no_stack_bind no_stack_zero) simp_all
  have mid: "no_stack (if fi then op_ret n else (\<lambda>w. if n \<ge> maxLBA w then (Inl WFull, w)
       else op_bind (shift_up wal_rd wal_wr n) (\<lambda>_. op_ret (n + 1)) w))" for fi :: bool and n
    using no_stackD [OF no_stack_bind [OF no_stack_shift [of n]], of "\<lambda>_. op_ret (n + 1)"] by (simp add: no_stack_def)
  show ?thesis
  proof (unfold no_stack_def, intro allI)
    fix w show "fst (compact_tail w) \<noteq> Inl WStack"
      unfolding compact_tail_def Let_def
      by (split if_split, intro conjI impI no_stack_bind_at no_stackD [OF no_stack_first] no_stack_bind no_stack_move mid last) simp
  qed
qed

lemma no_stack_room: "no_stack rc \<Longrightarrow> no_stack (make_room k rc)"
proof (unfold no_stack_def [of "make_room k rc"], intro allI)
  assume rc: "no_stack rc"
  fix w show "fst (make_room k rc w) \<noteq> Inl WStack"
    unfolding make_room_def
    by (split if_split, intro conjI impI no_stack_bind_at) (use rc in \<open>simp_all add: no_stack_def\<close>)
qed

text \<open>With nothing pending, with room for the pending block, or without a checkpoint, depth two is enough.\<close>

abbreviation nest_free :: "WAL \<Rightarrow> bool" where
  "nest_free w \<equiv> w_pending w = [] \<or> w_next w < maxLBA w \<or> \<not> w_hasCheck w"

lemma Truncate_empty:
  "w_pending w = [] \<Longrightarrow> TruncateCheckpoint f w = op_bind wal_ready (\<lambda>_. op_bind flushQuantum (\<lambda>_. compact_tail)) w"
  by (auto simp: TruncateCheckpoint.simps flushPending.simps op_bind_def dest!: ready_ok split: prod.splits sum.splits)

lemma writeOne_deeper:
  assumes "nest_free w" shows "writeOne (Suc (Suc f)) rec w = writeOne 2 rec w \<and> fst (writeOne 2 rec w) \<noteq> Inl WStack"
proof -
  consider (room) "w_next w < maxLBA w" | (empty) "\<not> w_next w < maxLBA w" "w_pending w = []" | (full) "\<not> w_next w < maxLBA w" "\<not> w_hasCheck w"
    using assms by blast
  then show ?thesis
  proof cases
    case room then show ?thesis using writeOne_room no_stackD [OF no_stack_slot] by (simp add: numeral_2_eq_2)
  next
    case empty
    let ?rc = "op_bind wal_ready (\<lambda>_. op_bind flushQuantum (\<lambda>_. compact_tail))"
    have rc: "no_stack ?rc" by (intro no_stack_bind no_stack_flush no_stack_compact) simp
    have "writeOne (Suc (Suc g)) rec w = op_bind (make_room 1 ?rc) (\<lambda>_. write_slot rec) w" for g
      using empty Truncate_empty [OF empty(2)] by (simp add: writeOne.simps make_room_def op_bind_def)
    moreover have "no_stack (op_bind (make_room 1 ?rc) (\<lambda>_. write_slot rec))"
      by (intro no_stack_bind no_stack_room rc no_stack_slot)
    ultimately show ?thesis using no_stackD by (simp add: numeral_2_eq_2)
  next
    case full then show ?thesis by (simp add: numeral_2_eq_2 writeOne.simps make_room_def op_bind_def)
  qed
qed

lemma flushPending_deeper:
  assumes "nest_free w" shows "flushPending (Suc (Suc f)) w = flushPending 2 w \<and> fst (flushPending 2 w) \<noteq> Inl WStack"
proof (cases "w_pending w = []")
  case False
  then consider (room) "w_next w < maxLBA w" | (full) "\<not> w_next w < maxLBA w" "\<not> w_hasCheck w" using assms by blast
  then show ?thesis
  proof cases
    case room
    have "no_stack (op_bind (write_slot r) (\<lambda>_ w. (Inr (), w\<lparr>w_pending := [], w_pendingN := 0\<rparr>)))" for r
      by (intro no_stack_bind no_stack_slot) simp
    from no_stackD [OF this] show ?thesis using flushPending_room [OF False room] by (simp add: numeral_2_eq_2)
  next
    case full then show ?thesis using False by (simp add: numeral_2_eq_2 flushPending.simps writeOne.simps make_room_def op_bind_def Let_def)
  qed
qed (simp add: flushPending.simps)

lemma Truncate_deeper:
  assumes "nest_free w" "wal_ready w = (Inr u, w)"
  shows "TruncateCheckpoint (Suc (Suc f)) w = TruncateCheckpoint 2 w \<and> fst (TruncateCheckpoint 2 w) \<noteq> Inl WStack"
proof -
  have T: "TruncateCheckpoint g w = op_bind (flushPending g) (\<lambda>_. op_bind flushQuantum (\<lambda>_. compact_tail)) w" for g
    unfolding TruncateCheckpoint.simps by (rule op_bind_Inr) (rule assms(2))
  note p = flushPending_deeper [OF assms(1), of f]
  have "TruncateCheckpoint (Suc (Suc f)) w = TruncateCheckpoint 2 w" unfolding T using p by (simp add: op_bind_def)
  moreover have "fst (TruncateCheckpoint 2 w) \<noteq> Inl WStack"
    unfolding T using p by (intro no_stack_bind_at no_stack_bind no_stack_flush no_stack_compact) simp
  ultimately show ?thesis by simp
qed

text \<open>
  With records pending, a full log and a checkpoint, the calls nest without end: \<^verbatim>\<open>writeOne\<close> truncates,
  the truncation flushes the pending records, and the flush calls \<^verbatim>\<open>writeOne\<close> in the same state.
\<close>

lemma nest_no_end:
  assumes "w_pending w \<noteq> []" "w_next w \<ge> maxLBA w" "w_hasCheck w" "wal_ready w = (Inr u, w)"
  shows "writeOne f rec w = (Inl WStack, w)"
proof (induction f arbitrary: rec)
  case 0 show ?case by (simp add: writeOne.simps)
next
  case (Suc f)
  have "flushPending f w = (Inl WStack, w)" using assms(1) Suc by (simp add: flushPending.simps op_bind_def Let_def)
  then have "TruncateCheckpoint f w = (Inl WStack, w)" using assms(4) by (simp add: TruncateCheckpoint.simps op_bind_def)
  then show ?case using assms(2,3) by (simp add: writeOne.simps make_room_def op_bind_def)
qed

lemma nest_no_end_calls:
  assumes "w_pending w \<noteq> []" "w_next w \<ge> maxLBA w" "w_hasCheck w" "wal_ready w = (Inr u, w)"
  shows "flushPending f w = (Inl WStack, w) \<and> TruncateCheckpoint f w = (Inl WStack, w)"
proof -
  have "flushPending f w = (Inl WStack, w)" using assms(1) nest_no_end [OF assms] by (simp add: flushPending.simps op_bind_def Let_def)
  then show ?thesis using assms(4) by (simp add: TruncateCheckpoint.simps op_bind_def)
qed

section \<open>Truncation on a healthy device\<close>

interpretation wal_live: live_store wal_rd wal_wr "\<lambda>w. dev_ok (w_dev w) \<and> w\<lparr>w_dev := w_dev w0\<rparr> = w0"
  "\<lambda>w. blk (w_dev w)" maxLBA "\<lambda>w. healthy (w_dev w)" for w0
proof
  fix s :: WAL and i
  assume "healthy (w_dev s)" "i < maxLBA s"
  then show "\<exists>b s'. wal_rd i s = (Inr b, s') \<and> healthy (w_dev s')"
    using wal_rd_healthy [of s i] by fastforce
next
  fix s :: WAL and i and b :: bytes
  assume "healthy (w_dev s)" "i < maxLBA s" "length b = 4096"
  then show "\<exists>s'. wal_wr i b s = (Inr (), s') \<and> healthy (w_dev s')"
    using dev_Write_healthy [of "w_dev s" b 1 i] by (auto simp: wal_wr_def on_dev_def)
qed

lemma compact_tail_healthy:
  assumes inv: "wal_inv w L" and q: "w_qCount w = 0" and c: "w_hasCheck w" and h: "healthy (w_dev w)"
    and fit: "length (compacted (w_checkLBA w) L) \<le> maxLBA w"
  shows "\<exists>w'. compact_tail w = (Inr (), w') \<and> healthy (w_dev w')"
proof -
  have i: "dev_ok (w_dev w)" "w_next w = length L" "length L \<le> maxLBA w" "\<forall>r \<in> set L. rec_ok r"
      "\<And>i. i < length L \<Longrightarrow> blk (w_dev w) i = sealed (w_key w) (L ! i)"
    using inv q by (auto simp: wal_inv_def wal_holds_def)
  define src where "src = min (w_checkLBA w) (w_next w)"
  define n0 where "n0 = w_next w - src"
  have fr: "wal_frame w w" using i(1) by simp
  have sn: "src + n0 = length L" using i(2) by (simp add: n0_def src_def)
  obtain fi w1 where s1: "compact_first src n0 w = (Inr fi, w1)" "healthy (w_dev w1)" "wal_frame w w1" "maxLBA w1 = maxLBA w"
      "fi = (0 < n0 \<and> walIsCheckpoint (blk (w_dev w) src ! 24))"
  proof (cases "0 < n0")
    case True
    then have "src < maxLBA w" using sn i(3) by simp
    then obtain b w1 where r: "wal_rd src w = (Inr b, w1)" "healthy (w_dev w1)" using wal_live.rd_live [OF fr h] by blast
    then show ?thesis using wal.rd_law [OF fr r(1)] True that [of _ w1] by (auto simp: compact_first_def op_bind_def)
  qed (use that [of False w] h fr in \<open>simp add: compact_first_def\<close>)
  obtain w2 where s2: "move_down wal_rd wal_wr src 0 n0 w1 = (Inr (), w2)" "healthy (w_dev w2)"
    using wal_live.move_down_live [OF s1(3,2), of src 0 n0] s1(4) sn i(3) by auto
  have f2: "wal_frame w w2" "maxLBA w2 = maxLBA w" using wal.move_down_blocks [OF s1(3) s2(1)] s1(4) by simp_all
  define n1 where "n1 = (if fi then n0 else n0 + 1)"
  have nfit: "n1 \<le> maxLBA w"
  proof -
    have e: "min (w_checkLBA w) (length L) = src" using i(2) by (simp add: src_def)
    have l: "length (drop src L) = n0" using sn by simp
    have "fi = (drop src L \<noteq> [] \<and> walIsCheckpoint (rType (hd (drop src L))))"
      using s1(5) i(4,5) sn by (auto simp: sealed_type hd_drop_conv_nth)
    then have "length (compacted (w_checkLBA w) L) = n1"
      using l s1(5) unfolding compacted_def Let_def e by (auto simp: n1_def)
    then show ?thesis using fit by simp
  qed
  obtain w3 where s3: "(if fi then op_ret n0 else (\<lambda>w. if n0 \<ge> maxLBA w then (Inl WFull, w)
             else op_bind (shift_up wal_rd wal_wr n0) (\<lambda>_. op_ret (n0 + 1)) w)) w2 = (Inr n1, w3)"
      "healthy (w_dev w3)" "wal_frame w w3" "maxLBA w3 = maxLBA w"
  proof (cases fi)
    case True then show ?thesis using that [of w2] s2(2) f2 by (simp add: n1_def)
  next
    case False
    then have n0: "n0 < maxLBA w2" using nfit f2(2) by (simp add: n1_def)
    then obtain w3 where sh: "shift_up wal_rd wal_wr n0 w2 = (Inr (), w3)" "healthy (w_dev w3)"
      using wal_live.shift_up_live [OF f2(1) s2(2)] by blast
    then show ?thesis using wal.shift_up_blocks [OF f2(1) sh(1)] that [of w3] False n0 f2(2) by (simp add: n1_def op_bind_def)
  qed
  have b: "pack_seal (check_record n1) (w_key w3) = Inr (sealed (w_key w3) (check_record n1))" by (rule pack_seal_eq [OF check_record_ok])
  have lb: "length (sealed (w_key w3) (check_record n1)) = 4096" using check_record_ok by simp
  have "0 < n1" using s1(5) by (auto simp: n1_def)
  then obtain w4 where s4: "wal_wr 0 (sealed (w_key w3) (check_record n1)) w3 = (Inr (), w4)" "healthy (w_dev w4)"
    using wal_live.wr_live [OF s3(3,2) _ lb, of 0] nfit s3(4) by auto
  have f4: "wal_frame w w4" "maxLBA w4 = maxLBA w" using wal.wr_law [OF s3(3) lb s4(1)] s3(4) by simp_all
  obtain w5 where s5: "zero_range wal_wr n1 (w_next w - n1) w4 = (Inr (), w5)" "healthy (w_dev w5)"
  proof -
    have "n1 + (w_next w - n1) \<le> maxLBA w4" using nfit i(2,3) f4(2) by (cases "n1 \<le> length L") auto
    then show ?thesis using wal_live.zero_range_live [OF f4(1) s4(2)] that by blast
  qed
  obtain d where s6: "dev_Flush (w_dev w5) = (Inr (), d)" "healthy d" using dev_Flush_healthy [OF s5(2)] by blast
  show ?thesis
    using c s1(1) s2(1) s3(1) b s4(1) s5(1) s6
    unfolding compact_tail_def Let_def src_def [symmetric] n0_def [symmetric]
    by (simp add: op_bind_def on_dev_def)
qed

section \<open>Properties\<close>

lemma Truncate_tail:
  assumes "w_pending w = []" "w_qCount w = 0" "TruncateCheckpoint f w = (Inr u, w')"
  shows "compact_tail w = (Inr u, w')"
  using assms by (auto simp: TruncateCheckpoint.simps flushPending.simps flushQuantum_def elim!: op_bind_InrE dest!: ready_ok)

text \<open>The log once its pending records are flushed, and the part of a log after its last checkpoint marker.\<close>

definition flushed_log :: "WAL \<Rightarrow> Record list \<Rightarrow> Record list" where
  "flushed_log w L = (if w_pending w = [] then L else L @ [pend_rec (w_pending w)])"

abbreviation is_check :: "Record \<Rightarrow> bool" where
  "is_check r \<equiv> walIsCheckpoint (rType r)"

definition after_check :: "Record list \<Rightarrow> Record list" where
  "after_check L = rev (takeWhile (\<lambda>r. \<not> is_check r) (rev L))"

lemma after_check_append: "after_check (A @ B) = (if \<exists>r \<in> set B. is_check r then after_check B else after_check A @ B)"
  by (auto simp: after_check_def takeWhile_append)

lemma after_check_Cons: "is_check r \<Longrightarrow> after_check (r # K) = after_check K"
proof (cases "\<exists>x \<in> set K. is_check x")
  case True then show ?thesis using after_check_append [of "[r]" K] by simp
next
  case False
  then have "takeWhile (\<lambda>r. \<not> is_check r) (rev K) = rev K" by (simp add: takeWhile_eq_all_conv)
  then have "after_check K = K" by (simp only: after_check_def rev_rev_ident)
  moreover assume "is_check r"
  then have "after_check [r] = []" by (simp add: after_check_def)
  ultimately show ?thesis using False after_check_append [of "[r]" K] by simp
qed

lemma compacted_after_check:
  assumes "c \<le> i" "i < length M" "is_check (M ! i)"
  shows "after_check (compacted c M) = after_check M"
proof -
  let ?K = "drop (min c (length M)) M"
  have "?K ! (i - c) = M ! i" "i - c < length ?K" using assms(1,2) by simp_all
  then have "M ! i \<in> set ?K" by (metis nth_mem)
  then have K: "after_check M = after_check ?K" using after_check_append [of "take (min c (length M)) M" ?K] assms(3) by auto
  have r: "is_check (check_record n)" for n by (simp add: check_record_def walIsCheckpoint_def)
  have "is_check (hd ?K) \<Longrightarrow> ?K \<noteq> [] \<Longrightarrow> after_check ?K = after_check (tl ?K)" by (metis after_check_Cons list.collapse)
  then show ?thesis unfolding K by (auto simp: compacted_def Let_def after_check_Cons r)
qed

lemma flushPending_log:
  assumes inv: "wal_inv w L" and p: "pending_ok w" and f: "flushPending (Suc f) w = (Inr u, w')"
  shows "wal_inv w' (flushed_log w L) \<and> w_pending w' = [] \<and> w_hasCheck w' = w_hasCheck w \<and> w_checkLBA w' = w_checkLBA w \<and>
    (w_pending w = [] \<longrightarrow> w' = w)"
proof (cases "w_pending w = []")
  case True then show ?thesis using f inv by (simp add: flushPending.simps flushed_log_def)
next
  case False
  have room: "w_next w < maxLBA w" "w_next w = length L" using p False inv by (simp_all add: pending_ok_def wal_inv_def wal_holds_def)
  obtain w1 where s: "write_slot (pend_rec (w_pending w)) w = (Inr (), w1)" "w' = w1\<lparr>w_pending := [], w_pendingN := 0\<rparr>"
    using f flushPending_room [OF False room(1)] by (auto elim!: op_bind_InrE)
  have r: "rec_ok (pend_rec (w_pending w))" using pend_rec_facts(1) p False by (simp add: pending_ok_def)
  have "wal_inv w1 (flushed_log w L)" "same_frame w w1"
    using write_slot_inv [OF inv r _ s(1)] room False by (simp_all add: flushed_log_def)
  then show ?thesis using s(2) False by (simp add: wal_inv_def wal_holds_def same_frame_def)
qed

lemma Truncate_steps:
  assumes inv: "wal_inv w L" and p: "pending_ok w" and t: "TruncateCheckpoint 2 w = (Inr u, w')"
  obtains w2 where "wal_inv w2 (flushed_log w L)" "w_qCount w2 = 0" "w_pending w2 = []" "w_hasCheck w2 = w_hasCheck w"
    "w_checkLBA w2 = w_checkLBA w" "w_pending w = [] \<and> w_qCount w = 0 \<longrightarrow> w2 = w" "compact_tail w2 = (Inr u, w')"
proof -
  obtain w1 w2 where f: "flushPending (Suc 1) w = (Inr (), w1)" and q: "flushQuantum w1 = (Inr (), w2)" and c: "compact_tail w2 = (Inr u, w')"
    using t by (auto simp: TruncateCheckpoint.simps numeral_2_eq_2 elim!: op_bind_InrE dest!: ready_ok)
  note f1 = flushPending_log [OF inv p f]
  note q1 = flushQuantum_inv [OF conjunct1 [OF f1] q] flushQuantum_frame [OF q]
  have "w_qCount w1 = 0 \<Longrightarrow> w2 = w1" using q by (simp add: flushQuantum_def)
  then show ?thesis using that [OF _ _ _ _ _ _ c] f1 q1 by simp
qed

text \<open>
  C4. What a truncation keeps. After a successful truncation of a journal with a checkpoint, its pending records
  flushed first, the log holds a fresh marker at block 0, followed by the blocks behind the recorded checkpoint
  position if a marker stands there, or else by the blocks from that position on: sealed, in order, with the
  blocks behind them free, nothing pending, and durable. So whenever the recorded position is at or before the
  last marker, everything behind the last marker is kept unchanged. With nothing buffered the truncation does not
  move the quantum position. (A position behind the last marker loses records: \<open>Checkpoint_full_stale\<close>.)
\<close>
theorem TruncateCheckpoint_keeps:
  assumes "wal_inv w L" "w_hasCheck w" "pending_ok w" "TruncateCheckpoint walDepth w = (Inr u, w')"
  shows "wal_inv w' (compacted (w_checkLBA w) (flushed_log w L)) \<and> w_pending w' = [] \<and> w_checkLBA w' = 0 \<and> w_hasCheck w' \<and>
     k_durable (d_os (w_dev w')) = d_file (w_dev w') \<and>
     (w_pending w = [] \<and> w_qCount w = 0 \<longrightarrow> w_qLBA w' = w_qLBA w) \<and>
     ((\<exists>i < length (flushed_log w L). w_checkLBA w \<le> i \<and> is_check (flushed_log w L ! i)) \<longrightarrow>
        after_check (compacted (w_checkLBA w) (flushed_log w L)) = after_check (flushed_log w L))"
proof -
  obtain w2 where w2: "wal_inv w2 (flushed_log w L)" "w_qCount w2 = 0" "w_pending w2 = []" "w_hasCheck w2 = w_hasCheck w"
    "w_checkLBA w2 = w_checkLBA w" "w_pending w = [] \<and> w_qCount w = 0 \<longrightarrow> w2 = w" "compact_tail w2 = (Inr u, w')"
    using Truncate_steps [OF assms(1,3)] assms(4) unfolding walDepth_def by blast
  have "w_hasCheck w2" using w2(4) assms(2) by simp
  note c = compact_tail_inv [OF w2(1,2) this w2(7), unfolded w2(5)]
  show ?thesis using c w2(3,6) compacted_after_check [of "w_checkLBA w" _ "flushed_log w L"] by auto
qed

text \<open>A journal of three blocks on a healthy device: a checkpoint marker, then two records.\<close>

definition demo_log :: "Record list" where
  "demo_log = [sample_rec, check_record 2, sample_rec]"

definition demo_file :: "bytes \<Rightarrow> nat \<Rightarrow> bytes" where
  "demo_file key n = concat (map (sealed key) demo_log) @ replicate (n * 4096) 0"

definition demo_wal :: "bytes \<Rightarrow> nat \<Rightarrow> WAL" where
  "demo_wal key n = (newWAL \<lparr>d_fd = True, d_size = (3 + n) * 4096, d_preadN = 0, d_pwriteN = 0, d_poisoned = False,
      d_os = \<lparr>k_file = demo_file key n, k_durable = demo_file key n, k_io = []\<rparr>\<rparr> key)
      \<lparr>w_next := 3, w_lsn := 3, w_qLBA := 3, w_hasCheck := True, w_checkLBA := 1\<rparr>"

lemma demo_wal_inv: "wal_inv (demo_wal key n) demo_log" "wal_healthy (demo_wal key n)"
proof -
  have ok: "\<forall>r \<in> set demo_log. rec_ok r" using sample_rec_facts(2) check_record_ok by (simp add: demo_log_def)
  have l: "length (sealed key sample_rec) = 4096" "length (sealed key (check_record 2)) = 4096"
    using sample_rec_facts(2) check_record_ok by simp_all
  have len: "length (demo_file key n) = (3 + n) * 4096" using l by (simp add: demo_file_def demo_log_def)
  have b: "bslice (demo_file key n) (0 * 4096) 4096 = sealed key sample_rec" "bslice (demo_file key n) (1 * 4096) 4096 = sealed key (check_record 2)"
     "bslice (demo_file key n) (2 * 4096) 4096 = sealed key sample_rec"
    using l by (simp_all add: demo_file_def demo_log_def bslice_def)
  have z: "bslice (demo_file key n) (i * 4096) 4096 = replicate 4096 0" if "3 \<le> i" "i < 3 + n" for i
  proof -
    have "(i - 3 + 1) * 4096 \<le> n * 4096" using that by (intro mult_le_mono1) simp
    then show ?thesis using l that by (simp add: demo_file_def demo_log_def bslice_def diff_mult_distrib)
  qed
  have "blk (w_dev (demo_wal key n)) i = sealed key (demo_log ! i)" if "i < 3" for i
  proof -
    from that consider "i = 0" | "i = 1" | "i = 2" by linarith
    then show ?thesis by cases (use b in \<open>simp_all add: blk_def demo_wal_def newWAL_def demo_log_def\<close>)
  qed
  moreover have "\<not> header_ok (blk (w_dev (demo_wal key n)) i)" if "3 \<le> i" "i < 3 + n" for i
    using z [OF that] header_ok_zero by (simp add: blk_def demo_wal_def newWAL_def)
  ultimately show "wal_inv (demo_wal key n) demo_log"
    using ok len by (simp add: wal_inv_def wal_holds_def demo_wal_def newWAL_def dev_ok_def demo_log_def)
  show "wal_healthy (demo_wal key n)" using len by (simp add: healthy_def demo_wal_def newWAL_def dev_ok_def)
qed

lemma demo_compacted: "compacted 1 demo_log = [check_record 2, sample_rec]"
  by (simp add: compacted_def demo_log_def Let_def check_record_def walIsCheckpoint_def)

lemma demo_truncate:
  obtains w' where "TruncateCheckpoint walDepth (demo_wal key n) = (Inr (), w')" "healthy (w_dev w')"
proof -
  have f: "w_pending (demo_wal key n) = []" "w_qCount (demo_wal key n) = 0" "w_hasCheck (demo_wal key n)" "w_checkLBA (demo_wal key n) = 1"
      "maxLBA (demo_wal key n) = 3 + n"
    by (simp_all add: demo_wal_def newWAL_def)
  obtain w' where "compact_tail (demo_wal key n) = (Inr (), w')" "healthy (w_dev w')"
    using compact_tail_healthy [OF demo_wal_inv(1) f(2,3)] demo_wal_inv(2) f(4,5) demo_compacted by auto
  then show ?thesis
    using that demo_wal_inv(2) [of key n] f(1,2)
    by (simp add: TruncateCheckpoint.simps flushPending.simps flushQuantum_def op_bind_def ready_healthy)
qed

theorem TruncateCheckpoint_keeps_witness:
  "\<exists>w'. TruncateCheckpoint walDepth (demo_wal (replicate 32 7) 1) = (Inr (), w') \<and> wal_inv w' [check_record 2, sample_rec] \<and>
     after_check [check_record 2, sample_rec] = after_check demo_log"
proof -
  let ?w = "demo_wal (replicate 32 7) 1"
  obtain w' where t: "TruncateCheckpoint walDepth ?w = (Inr (), w')" using demo_truncate by blast
  have f: "w_hasCheck ?w" "pending_ok ?w" "w_checkLBA ?w = 1" "flushed_log ?w demo_log = demo_log"
    by (simp_all add: demo_wal_def newWAL_def pending_ok_def flushed_log_def)
  have i: "\<exists>i < length demo_log. 1 \<le> i \<and> is_check (demo_log ! i)"
    by (intro exI [of _ 1]) (simp add: demo_log_def check_record_def walIsCheckpoint_def)
  show ?thesis using TruncateCheckpoint_keeps [OF demo_wal_inv(1) f(1,2) t, unfolded f(3,4) demo_compacted] t i by blast
qed

text \<open>After a truncation, discarding an empty pack loses the position of the log: the truncation does not
  move the quantum position, and \<^verbatim>\<open>DiscardPack\<close> sets the next block from it, so the next block is the
  old tip again and the block right after the kept records, which is now inside the log, has no valid
  header.
\<close>
theorem DiscardPack_after_truncate:
  assumes "wal_inv w L" "w_hasCheck w" "w_pending w = []" "w_qCount w = 0" "w_qLBA w = length L"
    "TruncateCheckpoint walDepth w = (Inr u, w')" "length (compacted (w_checkLBA w) L) < length L"
  shows "w_next (DiscardPack (BeginPack w')) = length L \<and> w_next w' < length L \<and>
     \<not> header_ok (blk (w_dev (DiscardPack (BeginPack w'))) (w_next w'))"
proof -
  let ?L = "compacted (w_checkLBA w) L"
  have c: "wal_inv w' ?L" "w_qLBA w' = w_qLBA w" "w_qCount w' = 0" "maxLBA w' = maxLBA w"
    using compact_tail_inv [OF assms(1,4,2) Truncate_tail [OF assms(3,4,6)]] by simp_all
  have n: "w_next w' = length ?L" "\<not> header_ok (blk (w_dev w') (length ?L))"
    using c(1,3,4) assms(1,7) by (auto simp: wal_inv_def wal_holds_def)
  then show ?thesis using c(2) assms(5,7) by (simp add: DiscardPack_def BeginPack_def)
qed

theorem DiscardPack_after_truncate_witness:
  "\<exists>w'. TruncateCheckpoint walDepth (demo_wal (replicate 32 7) 1) = (Inr (), w') \<and> w_next w' < 3 \<and>
     w_next (DiscardPack (BeginPack w')) = 3"
proof -
  obtain w' where t: "TruncateCheckpoint walDepth (demo_wal (replicate 32 7) 1) = (Inr (), w')" using demo_truncate by blast
  have f: "w_hasCheck (demo_wal (replicate 32 7) 1)" "w_pending (demo_wal (replicate 32 7) 1) = []" "w_qCount (demo_wal (replicate 32 7) 1) = 0"
     "w_qLBA (demo_wal (replicate 32 7) 1) = length demo_log" "length (compacted (w_checkLBA (demo_wal (replicate 32 7) 1)) demo_log) < length demo_log"
    using demo_compacted by (simp_all add: demo_wal_def newWAL_def demo_log_def)
  show ?thesis
    using DiscardPack_after_truncate [OF demo_wal_inv(1) f(1-4) t f(5)] t by (auto simp: demo_log_def)
qed

text \<open>
  A pack refuses a band of payload sizes: inside a pack, with room in the log, a record whose payload has 4035 to
  4055 bytes is rejected as too long, and the log does not change.
\<close>
theorem packed_band_rejected:
  assumes "wal_ready w = (Inr (), w)" "w_packDepth w > 0" "w_next w < maxLBA w" "\<not> walIsCheckpoint (rType rec)"
    "4034 < length (rPayload rec)" "length (rPayload rec) \<le> walMaxPayload"
  shows "Append rec w = (Inl WTooLong, w)"
  using assms by (simp add: Append_def op_bind_def make_room_ok appendPacked_def packedRecSize_def)

theorem packed_band_rejected_witness:
  "Append (sample_rec\<lparr>rPayload := replicate 4040 1\<rparr>) (BeginPack (newWAL (zero_dev 4) (replicate 32 7)))
     = (Inl WTooLong, BeginPack (newWAL (zero_dev 4) (replicate 32 7)))"
proof (rule packed_band_rejected)
  have "wal_healthy (BeginPack (newWAL (zero_dev 4) (replicate 32 7)))"
    using zero_dev_ok(2) [of 4] by (simp add: BeginPack_def newWAL_def)
  then show "wal_ready (BeginPack (newWAL (zero_dev 4) (replicate 32 7))) = (Inr (), BeginPack (newWAL (zero_dev 4) (replicate 32 7)))"
    by (rule ready_healthy)
qed (simp_all add: BeginPack_def newWAL_def zero_dev_def sample_rec_def walIsCheckpoint_def)

text \<open>
  C9. The mutual calls of write, flush and truncation. In a log that is full, with records pending under a
  checkpoint, no depth is enough for any of the three: each nests forever. In every other state depth two is
  enough for all three: they end, with a result or an error other than the exhausted stack, and any greater
  depth gives the same outcome.
\<close>
theorem write_nesting:
  assumes "wal_ready w = (Inr (), w)"
  shows "if w_pending w \<noteq> [] \<and> w_next w \<ge> maxLBA w \<and> w_hasCheck w
     then \<forall>f. writeOne f rec w = (Inl WStack, w) \<and> flushPending f w = (Inl WStack, w) \<and> TruncateCheckpoint f w = (Inl WStack, w)
     else fst (writeOne 2 rec w) \<noteq> Inl WStack \<and> fst (flushPending 2 w) \<noteq> Inl WStack \<and> fst (TruncateCheckpoint 2 w) \<noteq> Inl WStack \<and>
       (\<forall>f. writeOne (f + 2) rec w = writeOne 2 rec w \<and> flushPending (f + 2) w = flushPending 2 w \<and>
            TruncateCheckpoint (f + 2) w = TruncateCheckpoint 2 w)"
  using nest_no_end [OF _ _ _ assms] nest_no_end_calls [OF _ _ _ assms] writeOne_deeper [of w] flushPending_deeper [of w] Truncate_deeper [OF _ assms]
  by auto

theorem write_nesting_witness:
  "writeOne 10 sample_rec ((demo_wal (replicate 32 7) 1)\<lparr>w_next := 4, w_pending := [sample_rec]\<rparr>)
     = (Inl WStack, (demo_wal (replicate 32 7) 1)\<lparr>w_next := 4, w_pending := [sample_rec]\<rparr>)"
proof -
  let ?w = "(demo_wal (replicate 32 7) 1)\<lparr>w_next := 4, w_pending := [sample_rec]\<rparr>"
  have "wal_healthy ?w" using demo_wal_inv(2) by simp
  then have r: "wal_ready ?w = (Inr (), ?w)" by (rule ready_healthy)
  have "w_pending ?w \<noteq> [] \<and> w_next ?w \<ge> maxLBA ?w \<and> w_hasCheck ?w" by (simp add: demo_wal_def newWAL_def)
  then have "\<forall>f. writeOne f sample_rec ?w = (Inl WStack, ?w)" using write_nesting [OF r, of sample_rec] by presburger
  then show ?thesis by blast
qed


lemma Checkpoint_full:
  assumes inv: "wal_inv w L" and f: "w_hasCheck w" "w_pending w = []" "w_qCount w = 0" "length L = maxLBA w"
    and s: "Checkpoint w = (Inr u, w')"
  obtains L' where "wal_inv w' L'" "maxLBA w' = maxLBA w" "w_checkLBA w' = length L"
proof -
  have n: "w_next w = length L" using inv by (simp add: wal_inv_def wal_holds_def)
  let ?r = "check_record (length L + 1)"
  obtain w2 w3 where a: "Append ?r w = (Inr (), w2)" and fl: "wal_Flush w2 = (Inr (), w3)"
      and w': "w' = w3\<lparr>w_checkLBA := length L, w_hasCheck := True\<rparr>"
    using s n by (auto simp: Checkpoint_def Let_def elim!: op_bind_InrE dest!: ready_ok)
  have cp: "walIsCheckpoint (rType ?r)" by (simp add: check_record_def walIsCheckpoint_def)
  obtain w1 w1' where t: "TruncateCheckpoint 2 w = (Inr (), w1)" and nx: "w_next w1 < maxLBA w1"
      and fp: "flushPending 2 w1 = (Inr (), w1')" and wo: "writeOne 2 ?r w1' = (Inr (), w2)"
    using a f n cp by (auto simp: Append_def make_room_def elim!: op_bind_InrE dest!: ready_ok split: if_splits)
  have c: "wal_inv w1 (compacted (w_checkLBA w) L)" "w_pending w1 = []" "maxLBA w1 = maxLBA w"
    using compact_tail_inv [OF inv f(3,1) Truncate_tail [OF f(2,3) t]] f(2) by simp_all
  have ws: "write_slot ?r w1 = (Inr (), w2)"
    using wo fp c(2) writeOne_room [OF nx, of 1 ?r] by (simp add: flushPending.simps numeral_2_eq_2)
  have c2: "wal_inv w2 (compacted (w_checkLBA w) L @ [?r])" "same_frame w1 w2"
    using write_slot_inv [OF c(1) check_record_ok _ ws] nx c(1) by (simp_all add: wal_inv_def wal_holds_def)
  have p2: "w_pending w2 = []" using c2(2) c(2) by (simp add: same_frame_def)
  obtain w2' wf where fq: "flushQuantum w2 = (Inr (), w2')" and df: "on_dev dev_Flush w2' = (Inr (), wf)"
      and w3: "w3 = wf\<lparr>w_synced := True\<rparr>"
    using fl p2 by (auto simp: wal_Flush_def flushPending.simps elim!: op_bind_InrE dest!: ready_ok)
  have c3: "wal_inv w2' (compacted (w_checkLBA w) L @ [?r])" using flushQuantum_inv [OF c2(1) fq] by simp
  have ok: "dev_ok (w_dev w2)" "dev_ok (w_dev w2')" using c2(1) c3 by (simp_all add: wal_inv_def wal_holds_def)
  have m2: "maxLBA w2' = maxLBA w" using flushQuantum_same [OF fq ok(1)] c2(2) c(3) by (simp add: same_frame_def)
  obtain d where d: "dev_Flush (w_dev w2') = (Inr (), d)" "w3 = w2'\<lparr>w_dev := d, w_synced := True\<rparr>"
    using df w3 by (auto simp: on_dev_def split: prod.splits sum.splits)
  note dc = dev_Flush_cases [OF d(1) ok(2)]
  have "wal_inv w' (compacted (w_checkLBA w) L @ [?r])"
    using c3 dc d(2) w' by (simp add: wal_inv_def wal_holds_def blk_def)
  then show ?thesis using that dc d(2) w' m2 by simp
qed

text \<open>
  A checkpoint taken when the log is full records a stale position: the append truncates the log and writes
  the marker at a low block, but the recorded position is still the old tip, the size of the log. Any
  later truncation before the next checkpoint then keeps none of the records appended since.
\<close>
theorem Checkpoint_full_stale:
  assumes "wal_inv w L" "w_hasCheck w" "w_pending w = []" "w_qCount w = 0" "length L = maxLBA w" "Checkpoint w = (Inr u, w')"
  shows "\<exists>L'. wal_inv w' L' \<and> w_checkLBA w' = maxLBA w' \<and>
     (\<forall>M. length (L' @ M) \<le> maxLBA w' \<longrightarrow> compacted (w_checkLBA w') (L' @ M) = [check_record 1])"
proof -
  obtain L' where "wal_inv w' L'" "maxLBA w' = maxLBA w" "w_checkLBA w' = length L" by (rule Checkpoint_full [OF assms])
  then show ?thesis using assms(5) by (intro exI [of _ L']) (simp add: compacted_def Let_def)
qed


lemma demo_checkpoint: obtains w' where "Checkpoint (demo_wal key 0) = (Inr (), w')"
proof -
  let ?w = "demo_wal key 0" and ?r = "check_record (3 + 1)"
  have f: "w_pending ?w = []" "w_qCount ?w = 0" "w_hasCheck ?w" "w_checkLBA ?w = 1" "maxLBA ?w = 3" "w_next ?w = 3"
    by (simp_all add: demo_wal_def newWAL_def)
  obtain w1 where t: "TruncateCheckpoint 2 ?w = (Inr (), w1)" "healthy (w_dev w1)" using demo_truncate [of key 0] by auto
  have c: "wal_inv w1 [check_record 2, sample_rec]" "w_pending w1 = []" "w_open w1" "maxLBA w1 = 3"
    using compact_tail_inv [OF demo_wal_inv(1) f(2,3) Truncate_tail [OF f(1,2) t(1)]] f demo_compacted
    by (simp_all add: demo_wal_def newWAL_def)
  have n: "w_next w1 = 2" using c(1) by (simp add: wal_inv_def wal_holds_def)
  obtain w2 where w2: "write_slot ?r w1 = (Inr (), w2)" "healthy (w_dev w2)"
    using write_slot_healthy [OF c(1) t(2) check_record_ok] c(4) by auto
  have i2: "wal_inv w2 ([check_record 2, sample_rec] @ [?r])" "same_frame w1 w2"
    using write_slot_inv [OF c(1) check_record_ok _ w2(1)] c(4) by simp_all
  have wo: "writeOne 2 ?r w1 = (Inr (), w2)" using writeOne_room [of w1 1 ?r] w2(1) n c(4) by (simp add: numeral_2_eq_2)
  have cp: "walIsCheckpoint (rType ?r)" by (simp add: check_record_def walIsCheckpoint_def)
  have rd: "wal_ready ?w = (Inr (), ?w)" by (rule ready_healthy [OF demo_wal_inv(2)])
  have a: "Append ?r ?w = (Inr (), w2)"
    using rd t(1) f n c cp wo by (simp add: Append_def op_bind_def make_room_def flushPending.simps)
  obtain w3 where fq: "flushQuantum w2 = (Inr (), w3)" "healthy (w_dev w3)"
    using flushQuantum_healthy [OF _ w2(2)] i2(1) by (auto simp: wal_inv_def)
  obtain d where d: "dev_Flush (w_dev w3) = (Inr (), d)" using dev_Flush_healthy [OF fq(2)] by blast
  have "wal_healthy w2" "w_pending w2 = []" using w2(2) i2(2) c(2,3) by (simp_all add: same_frame_def)
  then have "wal_Flush w2 = (Inr (), w3\<lparr>w_dev := d, w_synced := True\<rparr>)"
    using fq(1) d by (simp add: wal_Flush_def op_bind_def ready_healthy flushPending.simps on_dev_def)
  then show ?thesis using that rd a f(6) by (simp add: Checkpoint_def op_bind_def Let_def)
qed

theorem Checkpoint_full_stale_witness:
  "\<exists>w' L'. Checkpoint (demo_wal (replicate 32 7) 0) = (Inr (), w') \<and> wal_inv w' L' \<and> w_checkLBA w' = maxLBA w' \<and>
     compacted (w_checkLBA w') L' = [check_record 1]"
proof -
  obtain w' where c: "Checkpoint (demo_wal (replicate 32 7) 0) = (Inr (), w')" by (rule demo_checkpoint)
  have f: "w_hasCheck (demo_wal (replicate 32 7) 0)" "w_pending (demo_wal (replicate 32 7) 0) = []"
     "w_qCount (demo_wal (replicate 32 7) 0) = 0" "length demo_log = maxLBA (demo_wal (replicate 32 7) 0)"
    by (simp_all add: demo_wal_def newWAL_def demo_log_def)
  obtain L' where L': "wal_inv w' L'" "w_checkLBA w' = maxLBA w'"
      "\<forall>M. length (L' @ M) \<le> maxLBA w' \<longrightarrow> compacted (w_checkLBA w') (L' @ M) = [check_record 1]"
    using Checkpoint_full_stale [OF demo_wal_inv(1) f c] by blast
  then have "compacted (w_checkLBA w') L' = [check_record 1]"
    using spec [OF L'(3), of "[]"] by (simp add: wal_inv_def wal_holds_def)
  then show ?thesis using c L' by blast
qed

end
