(* ===== verification/Wal_Repair.thy ===== *)
theory Wal_Repair
  imports Wal_Compact
begin

text \<open>
  Recovery of a damaged journal: the detection of a median hole when a journal is opened, and the
  repair that cuts the log at the hole (\<^verbatim>\<open>analyzeRepair\<close>, \<^verbatim>\<open>repairMedianRupture\<close>).
\<close>

section \<open>Scanning\<close>

definition same_blocks :: "WAL \<Rightarrow> WAL \<Rightarrow> bool" where
  "same_blocks w w' \<longleftrightarrow> w' = w\<lparr>w_dev := w_dev w'\<rparr> \<and> dev_ok (w_dev w') \<and> blk (w_dev w') = blk (w_dev w) \<and> maxLBA w' = maxLBA w"

lemma same_blocks_rd:
  assumes "dev_ok (w_dev w)" "wal_rd i w = (r, w')"
  shows "same_blocks w w'" and "\<And>b. r = Inr b \<Longrightarrow> b = blk (w_dev w) i"
  using wal_rd_cases [OF assms] by (auto simp: same_blocks_def split: sum.splits)

lemma same_blocks_trans: "same_blocks a b \<Longrightarrow> same_blocks b c \<Longrightarrow> same_blocks a c"
  unfolding same_blocks_def by (metis (no_types, lifting) WAL.surjective WAL.update_convs(2))

lemma same_blocks_key: "same_blocks w w' \<Longrightarrow> w_key w' = w_key w"
  unfolding same_blocks_def by (metis WAL.select_convs(3) WAL.surjective WAL.update_convs(2))

lemma range_step: "(\<forall>i. lba \<le> i \<and> i < lba + Suc k \<longrightarrow> P i) \<longleftrightarrow> P lba \<and> (\<forall>i. Suc lba \<le> i \<and> i < Suc lba + k \<longrightarrow> P i)"
  by (auto simp: le_Suc_eq) (metis Suc_le_eq add_Suc le_neq_implies_less add_Suc_right)

lemma range_ex_step: "(\<exists>i. lba \<le> i \<and> i < lba + Suc k \<and> P i) \<longleftrightarrow> P lba \<or> (\<exists>i. Suc lba \<le> i \<and> i < Suc lba + k \<and> P i)"
  using range_step [of lba k "\<lambda>i. \<not> P i"] by blast

lemma repair_prefix_ok:
  "dev_ok (w_dev w) \<Longrightarrow> repair_prefix lba k sc w = (Inr (v, sc'), w') \<Longrightarrow>
   same_blocks w w' \<and> sc_downstream sc' = sc_downstream sc \<and> sc_oldTip sc' = sc_oldTip sc \<and>
   (if v then sc_startLBA sc' = sc_startLBA sc \<and> (\<forall>i. lba \<le> i \<and> i < lba + k \<longrightarrow> header_ok (blk (w_dev w) i))
    else lba \<le> sc_startLBA sc' \<and> sc_startLBA sc' < lba + k \<and> \<not> header_ok (blk (w_dev w) (sc_startLBA sc')) \<and>
      (\<forall>i. lba \<le> i \<and> i < sc_startLBA sc' \<longrightarrow> header_ok (blk (w_dev w) i)))"
proof (induction k arbitrary: lba sc w)
  case 0 then show ?case by (auto simp: same_blocks_def)
next
  case (Suc k)
  obtain b w1 where rd: "wal_rd lba w = (Inr b, w1)" and
    k: "(if \<not> header_ok b then (Inr (False, sc\<lparr>sc_startLBA := lba\<rparr>), w1)
       else repair_prefix (Suc lba) k (if walIsCheckpoint (b ! 24) then sc\<lparr>sc_prefixHasCheck := True, sc_prefixCheckLBA := lba\<rparr> else sc) w1) = (Inr (v, sc'), w')"
    using Suc.prems(2) unfolding repair_prefix.simps Let_def
    by (cases "wal_rd lba w"; cases "fst (wal_rd lba w)") (simp_all add: op_bind_def)
  note s = same_blocks_rd [OF Suc.prems(1) rd]
  have w1: "dev_ok (w_dev w1)" "blk (w_dev w1) = blk (w_dev w)" using s(1) by (simp_all add: same_blocks_def)
  show ?case
  proof (cases "header_ok b")
    case False
    then have "v = False" "sc' = sc\<lparr>sc_startLBA := lba\<rparr>" "w' = w1" using k by simp_all
    then show ?thesis using s False by auto
  next
    case True
    let ?sc = "if walIsCheckpoint (b ! 24) then sc\<lparr>sc_prefixHasCheck := True, sc_prefixCheckLBA := lba\<rparr> else sc"
    have "repair_prefix (Suc lba) k ?sc w1 = (Inr (v, sc'), w')" using k True by simp
    note ih = Suc.IH [OF w1(1) this]
    have "sc_startLBA ?sc = sc_startLBA sc" "sc_downstream ?sc = sc_downstream sc" "sc_oldTip ?sc = sc_oldTip sc" by simp_all
    then show ?thesis
      using ih same_blocks_trans [OF s(1)] w1(2) True s(2) by (auto simp: range_step split: if_splits) (metis Suc_leI le_neq_implies_less)+
  qed
qed

lemma repair_suffix_ok:
  "dev_ok (w_dev w) \<Longrightarrow> repair_suffix lba k sc w = (Inr sc', w') \<Longrightarrow>
   same_blocks w w' \<and> sc_startLBA sc' = sc_startLBA sc \<and> sc_oldTip sc \<le> sc_oldTip sc' \<and> sc_oldTip sc' \<le> max (sc_oldTip sc) (lba + k) \<and>
   (\<forall>i. lba \<le> i \<and> i < lba + k \<longrightarrow> le_get32 (blk (w_dev w) i) = WALMagic \<longrightarrow> i < sc_oldTip sc') \<and>
   (sc_downstream sc' \<longleftrightarrow> sc_downstream sc \<or>
      (\<exists>i. lba \<le> i \<and> i < lba + k \<and> header_ok (blk (w_dev w) i) \<and> verifyWAL (blk (w_dev w) i) (w_key w) = Some True))"
proof (induction k arbitrary: lba sc w)
  case 0 then show ?case by (auto simp: same_blocks_def)
next
  case (Suc k)
  obtain b w1 where rd: "wal_rd lba w = (Inr b, w1)" and
    k: "(if le_get32 b \<noteq> WALMagic then repair_suffix (Suc lba) k sc w1
       else
         let sc = (if lba + 1 > sc_oldTip sc then sc\<lparr>sc_oldTip := lba + 1\<rparr> else sc)
         in if header_ok b then
              (case verifyWAL b (w_key w1) of
                 None \<Rightarrow> (Inl WPanic, w1)
               | Some True \<Rightarrow>
                   repair_suffix (Suc lba) k
                     (if walIsCheckpoint (b ! 24)
                      then sc\<lparr>sc_downstream := True, sc_downstreamCheck := True, sc_downstreamCheckLBA := lba\<rparr>
                      else sc\<lparr>sc_downstream := True\<rparr>) w1
               | Some False \<Rightarrow> repair_suffix (Suc lba) k sc w1)
            else repair_suffix (Suc lba) k sc w1) = (Inr sc', w')"
    using Suc.prems(2) by (cases "wal_rd lba w"; cases "fst (wal_rd lba w)") (simp_all add: op_bind_def)
  note s = same_blocks_rd [OF Suc.prems(1) rd]
  have w1: "dev_ok (w_dev w1)" "blk (w_dev w1) = blk (w_dev w)" "w_key w1 = w_key w" "b = blk (w_dev w) lba"
    using s same_blocks_key [OF s(1)] by (simp_all add: same_blocks_def)
  have hm: "header_ok b \<Longrightarrow> le_get32 b = WALMagic" by (simp add: header_ok_def)
  obtain sc1 where sc1: "repair_suffix (Suc lba) k sc1 w1 = (Inr sc', w')" "sc_startLBA sc1 = sc_startLBA sc"
      "sc_oldTip sc1 = (if le_get32 b = WALMagic then max (sc_oldTip sc) (lba + 1) else sc_oldTip sc)"
      "sc_downstream sc1 \<longleftrightarrow> sc_downstream sc \<or> header_ok b \<and> verifyWAL b (w_key w) = Some True"
  proof (cases "le_get32 b = WALMagic")
    case False
    then show ?thesis using that [of sc] k hm by auto
  next
    case True
    let ?s = "if lba + 1 > sc_oldTip sc then sc\<lparr>sc_oldTip := lba + 1\<rparr> else sc"
    have s: "sc_startLBA ?s = sc_startLBA sc" "sc_oldTip ?s = max (sc_oldTip sc) (lba + 1)" "sc_downstream ?s = sc_downstream sc"
      by (simp_all add: max_def)
    show ?thesis
    proof (cases "header_ok b \<and> verifyWAL b (w_key w) = Some True")
      case True
      let ?t = "if walIsCheckpoint (b ! 24) then ?s\<lparr>sc_downstream := True, sc_downstreamCheck := True, sc_downstreamCheckLBA := lba\<rparr>
        else ?s\<lparr>sc_downstream := True\<rparr>"
      have "repair_suffix (Suc lba) k ?t w1 = (Inr sc', w')"
        using k True \<open>le_get32 b = WALMagic\<close> w1(3) unfolding Let_def by simp
      moreover have "sc_startLBA ?t = sc_startLBA ?s" "sc_oldTip ?t = sc_oldTip ?s" "sc_downstream ?t" by simp_all
      ultimately show ?thesis by (intro that [of ?t]) (use s True \<open>le_get32 b = WALMagic\<close> in \<open>simp_all only: if_True simp_thms\<close>)
    next
      case False
      have "repair_suffix (Suc lba) k ?s w1 = (Inr sc', w')"
        using k False \<open>le_get32 b = WALMagic\<close> w1(3) unfolding Let_def
        by (cases "header_ok b"; cases "verifyWAL b (w_key w)") (simp_all split: bool.splits)
      then show ?thesis by (intro that [of ?s]) (use s False \<open>le_get32 b = WALMagic\<close> in \<open>simp_all only: if_True simp_thms\<close>)
    qed
  qed
  note ih = Suc.IH [OF w1(1) sc1(1)]
  have old: "sc_oldTip sc \<le> sc_oldTip sc1" "sc_oldTip sc1 \<le> max (sc_oldTip sc) (lba + Suc k)" using sc1(3) by auto
  have lba: "le_get32 b = WALMagic \<longrightarrow> lba < sc_oldTip sc'" using ih sc1(3) by auto
  show ?case
  proof (intro conjI)
    show "same_blocks w w'" using ih same_blocks_trans [OF s(1)] by blast
    show "sc_startLBA sc' = sc_startLBA sc" "sc_oldTip sc \<le> sc_oldTip sc'" "sc_oldTip sc' \<le> max (sc_oldTip sc) (lba + Suc k)"
      using ih sc1(2) old by auto
    show "\<forall>i. lba \<le> i \<and> i < lba + Suc k \<longrightarrow> le_get32 (blk (w_dev w) i) = WALMagic \<longrightarrow> i < sc_oldTip sc'"
      unfolding range_step using ih lba w1(2,4) by simp
    show "sc_downstream sc' \<longleftrightarrow> sc_downstream sc \<or> (\<exists>i. lba \<le> i \<and> i < lba + Suc k \<and>
        header_ok (blk (w_dev w) i) \<and> verifyWAL (blk (w_dev w) i) (w_key w) = Some True)"
      unfolding range_ex_step using ih sc1(4) w1(2-4) by simp
  qed
qed

definition valid_at :: "WAL \<Rightarrow> nat \<Rightarrow> bool" where
  "valid_at w i \<longleftrightarrow> header_ok (blk (w_dev w) i) \<and> verifyWAL (blk (w_dev w) i) (w_key w) = Some True"

text \<open>The first block without a valid header, or the size of the log.\<close>

definition first_hole :: "WAL \<Rightarrow> nat" where
  "first_hole w = length (takeWhile (\<lambda>i. header_ok (blk (w_dev w) i)) [0..<maxLBA w])"

lemma first_hole_eq:
  assumes "n \<le> maxLBA w" "\<forall>i < n. header_ok (blk (w_dev w) i)" "n < maxLBA w \<longrightarrow> \<not> header_ok (blk (w_dev w) n)"
  shows "first_hole w = n"
proof -
  have "[0..<maxLBA w] = [0..<n] @ [n..<maxLBA w]" using assms(1) upt_add_eq_append [of 0 n "maxLBA w - n"] by simp
  moreover have "takeWhile (\<lambda>i. header_ok (blk (w_dev w) i)) [n..<maxLBA w] = []"
    using assms(1,3) by (cases "n < maxLBA w") (simp_all add: upt_conv_Cons)
  moreover have "takeWhile (\<lambda>i. header_ok (blk (w_dev w) i)) ([0..<n] @ [n..<maxLBA w]) =
      [0..<n] @ takeWhile (\<lambda>i. header_ok (blk (w_dev w) i)) [n..<maxLBA w]"
    by (rule takeWhile_append2) (use assms(2) in simp)
  ultimately show ?thesis by (simp add: first_hole_def)
qed

lemma analyzeRepair_ok:
  assumes "dev_ok (w_dev w)" "analyzeRepair w = (Inr sc, w')"
  shows "same_blocks w w' \<and> sc_startLBA sc = first_hole w \<and> sc_oldTip sc \<le> maxLBA w \<and>
    (\<forall>i < maxLBA w. first_hole w \<le> i \<longrightarrow> le_get32 (blk (w_dev w) i) = WALMagic \<longrightarrow> i < sc_oldTip sc) \<and>
    (sc_downstream sc \<longleftrightarrow> (\<exists>i < maxLBA w. first_hole w < i \<and> valid_at w i))"
proof -
  let ?s0 = "\<lparr>sc_startLBA = maxLBA w, sc_prefixHasCheck = False, sc_prefixCheckLBA = 0, sc_downstream = False,
                sc_downstreamCheck = False, sc_downstreamCheckLBA = 0, sc_oldTip = 0\<rparr>"
  obtain v sc1 w1 where p: "repair_prefix 0 (maxLBA w) ?s0 w = (Inr (v, sc1), w1)" and
      k: "(if v then (Inr sc1, w1) else repair_suffix (sc_startLBA sc1) (maxLBA w1 - sc_startLBA sc1) sc1 w1) = (Inr sc, w')"
    using assms(2) unfolding analyzeRepair_def Let_def by (auto elim!: op_bind_InrE)
  note pf = repair_prefix_ok [OF assms(1) p]
  have s1: "same_blocks w w1" using pf by blast
  show ?thesis
  proof (cases v)
    case True
    then have "first_hole w = maxLBA w" using pf by (intro first_hole_eq) auto
    then show ?thesis using True k pf by auto
  next
    case False
    let ?n = "sc_startLBA sc1"
    have n: "?n < maxLBA w" "\<not> header_ok (blk (w_dev w) ?n)" "\<forall>i < ?n. header_ok (blk (w_dev w) i)"
      using pf False by auto
    then have h: "first_hole w = ?n" by (intro first_hole_eq) auto
    have w1: "dev_ok (w_dev w1)" "blk (w_dev w1) = blk (w_dev w)" "maxLBA w1 = maxLBA w" "w_key w1 = w_key w"
      using s1 same_blocks_key [OF s1] by (simp_all add: same_blocks_def)
    have sx: "repair_suffix ?n (maxLBA w - ?n) sc1 w1 = (Inr sc, w')" using k False w1(3) by simp
    note sf = repair_suffix_ok [OF w1(1) sx, unfolded w1(2,4)]
    have z: "sc_oldTip sc1 = 0" "sc_downstream sc1 = False" using pf by simp_all
    have e: "?n + (maxLBA w - ?n) = maxLBA w" using n(1) by simp
    have d: "(\<exists>i. ?n \<le> i \<and> i < maxLBA w \<and> header_ok (blk (w_dev w) i) \<and> verifyWAL (blk (w_dev w) i) (w_key w) = Some True)
        \<longleftrightarrow> (\<exists>i < maxLBA w. ?n < i \<and> valid_at w i)"
      unfolding valid_at_def using n(2) by (metis le_neq_implies_less less_imp_le)
    show ?thesis unfolding h using sf z d same_blocks_trans [OF s1] unfolding e by simp
  qed
qed

section \<open>Opening a damaged journal\<close>

lemma median_healthy:
  "healthy (w_dev w) \<Longrightarrow> lba + k \<le> maxLBA w \<Longrightarrow>
   \<exists>d'. healthy d' \<and> checkMedianRupture lba k w =
     (if \<exists>i. lba \<le> i \<and> i < lba + k \<and> valid_at w i then Inl WCorruptedMedian else Inr (), w\<lparr>w_dev := d'\<rparr>)"
proof (induction k arbitrary: lba w)
  case 0 then show ?case by (auto intro: exI [of _ "w_dev w"])
next
  case (Suc k)
  obtain d1 where d1: "wal_rd lba w = (Inr (blk (w_dev w) lba), w\<lparr>w_dev := d1\<rparr>)" "healthy d1"
      "d_size d1 = d_size (w_dev w)" "blk d1 = blk (w_dev w)"
    using wal_rd_healthy [OF Suc.prems(1), of lba] Suc.prems(2) by auto
  obtain v where v: "verifyWAL (blk (w_dev w) lba) (w_key w) = Some v" using verifyWAL_eq by blast
  let ?w = "w\<lparr>w_dev := d1\<rparr>"
  have va: "valid_at ?w = valid_at w" using d1(4) by (simp add: valid_at_def fun_eq_iff)
  obtain d' where d': "healthy d'" "checkMedianRupture (Suc lba) k ?w =
     (if \<exists>i. Suc lba \<le> i \<and> i < Suc lba + k \<and> valid_at w i then Inl WCorruptedMedian else Inr (), ?w\<lparr>w_dev := d'\<rparr>)"
    using Suc.IH [of ?w "Suc lba"] d1 Suc.prems(2) va by auto
  show ?case
  proof (cases "valid_at w lba")
    case True
    then have "checkMedianRupture lba (Suc k) w = (Inl WCorruptedMedian, ?w)" using d1(1) v by (simp add: valid_at_def)
    then show ?thesis unfolding range_ex_step using True d1(2) by auto
  next
    case False
    then have "checkMedianRupture lba (Suc k) w = checkMedianRupture (Suc lba) k ?w" using d1(1) v by (auto simp: valid_at_def)
    then show ?thesis unfolding range_ex_step using False d' by auto
  qed
qed

text \<open>The scan from a block: it ends at the first hole, or finds a valid block behind it.\<close>

lemma scan_healthy_hole:
  "healthy (w_dev w) \<Longrightarrow> n < maxLBA w \<Longrightarrow> lba + k = n \<Longrightarrow> \<forall>i. lba \<le> i \<and> i < n \<longrightarrow> header_ok (blk (w_dev w) i) \<Longrightarrow>
   \<not> header_ok (blk (w_dev w) n) \<Longrightarrow>
   \<exists>w'. (k = 0 \<or> w_next w' = n) \<and> (k = 0 \<longrightarrow> w_next w' = w_next w) \<and> scan_loop lba (maxLBA w - lba) w =
     (if \<exists>i. n < i \<and> i < maxLBA w \<and> valid_at w i then Inl WCorruptedMedian else Inr (), w')"
proof (induction k arbitrary: lba w)
  case 0
  obtain d1 where d1: "wal_rd n w = (Inr (blk (w_dev w) n), w\<lparr>w_dev := d1\<rparr>)" "healthy d1"
      "d_size d1 = d_size (w_dev w)" "blk d1 = blk (w_dev w)"
    using wal_rd_healthy [OF 0(1,2)] by auto
  have e: "maxLBA w - n = Suc (maxLBA w - Suc n)" using 0(2) by simp
  have v: "valid_at (w\<lparr>w_dev := d1\<rparr>) = valid_at w" using d1(4) by (simp add: valid_at_def fun_eq_iff)
  obtain d2 where d2: "checkMedianRupture (Suc n) (maxLBA w - Suc n) (w\<lparr>w_dev := d1\<rparr>) =
     (if \<exists>i. Suc n \<le> i \<and> i < Suc n + (maxLBA w - Suc n) \<and> valid_at w i then Inl WCorruptedMedian else Inr (), w\<lparr>w_dev := d2\<rparr>)"
    using median_healthy [of "w\<lparr>w_dev := d1\<rparr>" "Suc n" "maxLBA w - Suc n"] d1(2,3) 0(2) v by auto
  have "scan_loop n (maxLBA w - n) w = checkMedianRupture (Suc n) (maxLBA w - Suc n) (w\<lparr>w_dev := d1\<rparr>)"
    unfolding e using d1(1) 0(5) by (simp add: op_bind_def)
  moreover have "Suc n + (maxLBA w - Suc n) = maxLBA w" using 0(2) by simp
  ultimately show ?case
    using 0(3) d2 by (intro exI [of _ "w\<lparr>w_dev := d2\<rparr>"]) (simp add: Suc_le_eq)
next
  case (Suc k)
  have lt: "lba < maxLBA w" "lba < n" using Suc.prems(2,3) by simp_all
  obtain d1 where d1: "wal_rd lba w = (Inr (blk (w_dev w) lba), w\<lparr>w_dev := d1\<rparr>)" "healthy d1"
      "d_size d1 = d_size (w_dev w)" "blk d1 = blk (w_dev w)"
    using wal_rd_healthy [OF Suc.prems(1) lt(1)] by auto
  let ?w1 = "w\<lparr>w_dev := d1\<rparr>"
  let ?w = "(if walIsCheckpoint (blk (w_dev w) lba ! 24) then ?w1\<lparr>w_hasCheck := True, w_checkLBA := lba\<rparr> else ?w1)\<lparr>w_next := lba + 1\<rparr>"
  have f: "w_dev ?w = d1" "w_key ?w = w_key w" "w_next ?w = lba + 1" by simp_all
  have v: "valid_at ?w = valid_at w" by (rule ext) (simp only: valid_at_def f d1(4))
  have e: "maxLBA w - lba = Suc (maxLBA w - Suc lba)" using lt by simp
  have "header_ok (blk (w_dev w) lba)" using Suc.prems(4) lt(2) by simp
  then have s: "scan_loop lba (maxLBA w - lba) w = scan_loop (Suc lba) (maxLBA w - Suc lba) ?w"
    unfolding e using d1(1) by (simp add: op_bind_def Let_def)
  have "\<exists>w'. (k = 0 \<or> w_next w' = n) \<and> (k = 0 \<longrightarrow> w_next w' = w_next ?w) \<and> scan_loop (Suc lba) (maxLBA ?w - Suc lba) ?w =
     (if \<exists>i. n < i \<and> i < maxLBA ?w \<and> valid_at ?w i then Inl WCorruptedMedian else Inr (), w')"
  proof (rule Suc.IH)
    show "healthy (w_dev ?w)" "n < maxLBA ?w" "\<not> header_ok (blk (w_dev ?w) n)"
      "\<forall>i. Suc lba \<le> i \<and> i < n \<longrightarrow> header_ok (blk (w_dev ?w) i)"
      unfolding f d1(3,4) using d1(2) Suc.prems(2,4,5) by simp_all
  qed (use Suc.prems(3) in simp)
  then show ?case unfolding s v f d1(3) using Suc.prems(3) by (elim exE) (rule_tac x = w' in exI, auto)
qed

lemma scan_healthy_full:
  "healthy (w_dev w) \<Longrightarrow> lba + k = maxLBA w \<Longrightarrow> \<forall>i. lba \<le> i \<and> i < maxLBA w \<longrightarrow> header_ok (blk (w_dev w) i) \<Longrightarrow>
   \<exists>w'. scan_loop lba k w = (Inr (), w') \<and> w_next w' = (if k = 0 then w_next w else maxLBA w)"
proof (induction k arbitrary: lba w)
  case (Suc k)
  have lt: "lba < maxLBA w" using Suc.prems(2) by simp
  obtain d1 where d1: "wal_rd lba w = (Inr (blk (w_dev w) lba), w\<lparr>w_dev := d1\<rparr>)" "healthy d1"
      "d_size d1 = d_size (w_dev w)" "blk d1 = blk (w_dev w)"
    using wal_rd_healthy [OF Suc.prems(1) lt] by auto
  let ?w1 = "w\<lparr>w_dev := d1\<rparr>"
  let ?w = "(if walIsCheckpoint (blk (w_dev w) lba ! 24) then ?w1\<lparr>w_hasCheck := True, w_checkLBA := lba\<rparr> else ?w1)\<lparr>w_next := lba + 1\<rparr>"
  have f: "w_dev ?w = d1" "w_next ?w = lba + 1" by simp_all
  have "header_ok (blk (w_dev w) lba)" using Suc.prems(3) lt by simp
  then have s: "scan_loop lba (Suc k) w = scan_loop (Suc lba) k ?w" using d1(1) by (simp add: op_bind_def Let_def)
  have "\<exists>w'. scan_loop (Suc lba) k ?w = (Inr (), w') \<and> w_next w' = (if k = 0 then w_next ?w else maxLBA ?w)"
  proof (rule Suc.IH)
    show "\<forall>i. Suc lba \<le> i \<and> i < maxLBA ?w \<longrightarrow> header_ok (blk (w_dev ?w) i)" unfolding f d1(3,4) using Suc.prems(3) by simp
    show "healthy (w_dev ?w)" "Suc lba + k = maxLBA ?w" unfolding f d1(3) using d1(2) Suc.prems(2) by simp_all
  qed
  then show ?case unfolding s f d1(3) using Suc.prems(2) by auto
qed simp

lemma first_hole_cases:
  obtains "first_hole w = maxLBA w" "\<forall>i < maxLBA w. header_ok (blk (w_dev w) i)"
  | "first_hole w < maxLBA w" "\<forall>i < first_hole w. header_ok (blk (w_dev w) i)" "\<not> header_ok (blk (w_dev w) (first_hole w))"
proof -
  let ?P = "\<lambda>i. header_ok (blk (w_dev w) i)"
  have le: "first_hole w \<le> maxLBA w" using length_takeWhile_le [of ?P "[0..<maxLBA w]"] by (simp add: first_hole_def)
  have a: "\<forall>i < first_hole w. ?P i"
  proof (intro allI impI)
    fix i assume i: "i < first_hole w"
    then have "[0..<maxLBA w] ! i = i" using le by simp
    then have "takeWhile ?P [0..<maxLBA w] ! i = i" using i takeWhile_nth [of i ?P "[0..<maxLBA w]"] by (simp add: first_hole_def)
    then show "?P i" using i nth_mem [of i "takeWhile ?P [0..<maxLBA w]"] by (auto simp: first_hole_def dest: set_takeWhileD)
  qed
  show ?thesis
  proof (cases "first_hole w < maxLBA w")
    case True
    then have "\<not> ?P ([0..<maxLBA w] ! first_hole w)"
      using nth_length_takeWhile [of ?P "[0..<maxLBA w]"] by (simp add: first_hole_def)
    then show ?thesis using that(2) True a by simp
  qed (use that(1) le a in simp)
qed

lemma OpenWAL_scan:
  "OpenWAL d key = (case scan_loop 0 (d_cap d) (newWAL d key) of
     (Inl e, _) \<Rightarrow> Inl e | (Inr _, w) \<Rightarrow> Inr (w\<lparr>w_lsn := w_next w, w_qLBA := w_next w\<rparr>))"
proof -
  have "(newWAL d key)\<lparr>w_next := 0, w_hasCheck := False, w_checkLBA := 0\<rparr> = newWAL d key" "maxLBA (newWAL d key) = d_cap d"
    by (simp_all add: newWAL_def)
  then show ?thesis by (simp add: OpenWAL_def scanTip_def op_bind_def split: prod.splits sum.splits)
qed

text \<open>
  C5. Opening fails closed on damage inside the log: on a device that answers its calls, a journal whose
  first block without a valid header is followed by a block with a valid header and seal is refused as
  corrupted, and every other journal opens, with the log ending at that first block.
\<close>
theorem OpenWAL_fail_closed:
  assumes "healthy d"
  shows "if \<exists>i. first_hole (newWAL d key) < i \<and> i < d_cap d \<and> valid_at (newWAL d key) i
    then OpenWAL d key = Inl WCorruptedMedian
    else \<exists>w. OpenWAL d key = Inr w \<and> w_next w = first_hole (newWAL d key)"
proof -
  let ?w = "newWAL d key"
  have w0: "maxLBA ?w = d_cap d" "w_dev ?w = d" "w_next ?w = 0" by (simp_all add: newWAL_def)
  have h: "healthy (w_dev ?w)" using assms w0 by simp
  show ?thesis
  proof (rule first_hole_cases [of ?w])
    assume f: "first_hole ?w = maxLBA ?w" "\<forall>i < maxLBA ?w. header_ok (blk (w_dev ?w) i)"
    obtain w' where "scan_loop 0 (maxLBA ?w) ?w = (Inr (), w')" "w_next w' = (if maxLBA ?w = 0 then w_next ?w else maxLBA ?w)"
      using scan_healthy_full [OF h, of 0 "maxLBA ?w"] f(2) by auto
    then show ?thesis using f(1) w0 by (auto simp: OpenWAL_scan split: if_splits)
  next
    assume f: "first_hole ?w < maxLBA ?w" "\<forall>i < first_hole ?w. header_ok (blk (w_dev ?w) i)"
      "\<not> header_ok (blk (w_dev ?w) (first_hole ?w))"
    obtain w' where s: "first_hole ?w = 0 \<or> w_next w' = first_hole ?w" "first_hole ?w = 0 \<longrightarrow> w_next w' = w_next ?w"
        "scan_loop 0 (maxLBA ?w) ?w =
         (if \<exists>i. first_hole ?w < i \<and> i < maxLBA ?w \<and> valid_at ?w i then Inl WCorruptedMedian else Inr (), w')"
      using scan_healthy_hole [OF h f(1), of 0 "first_hole ?w"] f(2,3) by auto
    then have "w_next w' = first_hole ?w" using w0(3) by auto
    then show ?thesis using s(3) w0 by (auto simp: OpenWAL_scan)
  qed
qed

section \<open>Repair\<close>

lemma read_range_blocks:
  "dev_ok (w_dev w) \<Longrightarrow> read_range lba k w = (Inr bs, w') \<Longrightarrow>
   same_blocks w w' \<and> bs = concat (map (blk (w_dev w)) [lba..<lba + k])"
proof (induction k arbitrary: lba w bs)
  case 0 then show ?case by (auto simp: same_blocks_def)
next
  case (Suc k)
  obtain b w1 cs where rd: "wal_rd lba w = (Inr b, w1)" and k: "read_range (Suc lba) k w1 = (Inr cs, w')" and bs: "bs = b @ cs"
    using Suc.prems(2) by (auto elim!: op_bind_InrE)
  note s = same_blocks_rd [OF Suc.prems(1) rd]
  have w1: "dev_ok (w_dev w1)" "blk (w_dev w1) = blk (w_dev w)" using s(1) by (simp_all add: same_blocks_def)
  have e: "[lba..<lba + Suc k] = lba # [Suc lba..<Suc lba + k]" by (simp add: upt_conv_Cons)
  show ?case using Suc.IH [OF w1(1) k] s same_blocks_trans [OF s(1)] bs w1(2) unfolding e by auto
qed

lemma zero_not_magic: "le_get32 (replicate 4096 0) \<noteq> WALMagic"
  by (simp add: le_get32_def)

lemma repair_run:
  assumes "wal_ready w = (Inr (), w)" "analyzeRepair w = (Inr sc, w1)" "sc_downstream sc"
    "ot = (if sc_oldTip sc \<le> sc_startLBA sc then sc_startLBA sc + 1 else sc_oldTip sc)"
  shows "repairMedianRupture qfile w = op_bind (writeQuarantine qfile (sc_startLBA sc) ot) (\<lambda>q.
            op_bind (zero_range wal_wr (sc_startLBA sc) (ot - sc_startLBA sc)) (\<lambda>_.
            op_bind (on_dev dev_Flush) (\<lambda>_ w.
              let w = w\<lparr>w_next := sc_startLBA sc, w_lsn := sc_startLBA sc, w_qLBA := sc_startLBA sc, w_qCount := 0,
                        w_pending := [], w_pendingN := 0, w_hasCheck := sc_prefixHasCheck sc,
                        w_checkLBA := sc_prefixCheckLBA sc\<rparr>
              in (Inr ((reportFor sc True)\<lparr>rp_DiscardedBlocks := ot - sc_startLBA sc, rp_Quarantine := Some q,
                         rp_Next := w_next w, rp_HasCheck := w_hasCheck w, rp_CheckLBA := w_checkLBA w\<rparr>), w)))) w1"
  using assms unfolding repairMedianRupture_def Let_def by (simp add: op_bind_def split del: if_split)

text \<open>
  C6. Repair cuts the log at the hole and loses nothing silently: it repairs exactly when a sealed block
  lies behind the first block without a valid header; it then writes zeros over the discarded range and
  over nothing else, after the bytes of that range went to the quarantine, leaves no block with the
  journal magic behind the cut, makes the cut durable and continues at the hole. Without such a block
  it changes nothing.
\<close>
theorem repairMedianRupture_cuts:
  assumes "dev_ok (w_dev w)" "repairMedianRupture qfile w = (Inr rep, w')"
  defines "n \<equiv> first_hole w" and "m \<equiv> rp_DiscardedBlocks rep"
  shows "rp_StartLBA rep = n \<and>
    (if \<exists>i. n < i \<and> i < maxLBA w \<and> valid_at w i
     then rp_Repaired rep \<and> rp_Quarantine rep = qfile (concat (map (blk (w_dev w)) [n..<n + m])) \<and> rp_Quarantine rep \<noteq> None \<and>
       blk (w_dev w') = (\<lambda>j. if n \<le> j \<and> j < n + m then replicate 4096 0 else blk (w_dev w) j) \<and>
       (\<forall>i < maxLBA w. n \<le> i \<longrightarrow> le_get32 (blk (w_dev w') i) \<noteq> WALMagic) \<and>
       k_durable (d_os (w_dev w')) = d_file (w_dev w') \<and> w_next w' = n \<and> w_qCount w' = 0 \<and> w_pending w' = []
     else \<not> rp_Repaired rep \<and> blk (w_dev w') = blk (w_dev w) \<and> w_next w' = w_next w)"
proof -
  obtain w0 sc w1 where rdy: "wal_ready w = (Inr (), w0)" and an: "analyzeRepair w0 = (Inr sc, w1)"
    using assms(2) unfolding repairMedianRupture_def by (auto elim!: op_bind_InrE)
  have w0: "w0 = w" using ready_ok [OF rdy] by blast
  note a = analyzeRepair_ok [OF assms(1) an [unfolded w0]]
  have s1: "same_blocks w w1" and st: "sc_startLBA sc = n" using a by (simp_all add: n_def)
  have ok1: "dev_ok (w_dev w1)" "blk (w_dev w1) = blk (w_dev w)" "maxLBA w1 = maxLBA w" "w_next w1 = w_next w"
    using s1 by (simp_all add: same_blocks_def) (metis WAL.select_convs(4) WAL.surjective WAL.update_convs(2))
  define ot where "ot = (if sc_oldTip sc \<le> sc_startLBA sc then sc_startLBA sc + 1 else sc_oldTip sc)"
  have ds: "sc_downstream sc \<longleftrightarrow> (\<exists>i. n < i \<and> i < maxLBA w \<and> valid_at w i)" using a by (auto simp: n_def)
  show ?thesis
  proof (cases "sc_downstream sc")
    case False
    then have "rep = reportFor sc False" "w' = w1"
      using assms(2) rdy an unfolding repairMedianRupture_def w0 by (simp_all add: op_bind_def)
    then show ?thesis using False ds st ok1 by (simp add: reportFor_def)
  next
    case True
    note k = assms(2) [unfolded repair_run [OF rdy [unfolded w0] an [unfolded w0] True ot_def]]
    obtain q w2 w3 w4 where q: "writeQuarantine qfile n ot w1 = (Inr q, w2)" and z: "zero_range wal_wr n (ot - n) w2 = (Inr (), w3)"
        and fl: "on_dev dev_Flush w3 = (Inr (), w4)"
        and w': "w' = w4\<lparr>w_next := n, w_lsn := n, w_qLBA := n, w_qCount := 0,
                        w_pending := [], w_pendingN := 0, w_hasCheck := sc_prefixHasCheck sc, w_checkLBA := sc_prefixCheckLBA sc\<rparr>"
        and r: "rep = (reportFor sc True)\<lparr>rp_DiscardedBlocks := ot - n, rp_Quarantine := Some q, rp_Next := n,
            rp_HasCheck := sc_prefixHasCheck sc, rp_CheckLBA := sc_prefixCheckLBA sc\<rparr>"
      using k unfolding Let_def st by (auto elim!: op_bind_InrE)
    have rep: "rp_Repaired rep" "rp_StartLBA rep = n" "m = ot - n" "rp_Quarantine rep = Some q"
      unfolding m_def r using st by (simp_all add: reportFor_def)
    obtain bs where bs: "read_range n (ot - n) w1 = (Inr bs, w2)" "qfile bs = Some q"
      using q by (auto simp: writeQuarantine_def elim!: op_bind_InrE split: option.splits)
    note rr = read_range_blocks [OF ok1(1) bs(1)]
    have ok2: "dev_ok (w_dev w2)" "blk (w_dev w2) = blk (w_dev w)" "maxLBA w2 = maxLBA w" using rr ok1 by (simp_all add: same_blocks_def)
    have zb: "dev_ok (w_dev w3)" "maxLBA w3 = maxLBA w"
        "blk (w_dev w3) = (\<lambda>j. if n \<le> j \<and> j < n + m then replicate 4096 0 else blk (w_dev w) j)"
      using wal.zero_range_blocks [of w2 w2, OF _ z] ok2 rep(3) by (auto simp: fun_eq_iff)
    obtain d where d: "dev_Flush (w_dev w3) = (Inr (), d)" "w4 = w3\<lparr>w_dev := d\<rparr>"
      using fl by (auto simp: on_dev_def split: prod.splits sum.splits)
    note df = dev_Flush_cases [OF d(1) zb(1)]
    have b': "blk (w_dev w') = blk (w_dev w3)" "k_durable (d_os (w_dev w')) = d_file (w_dev w')"
      using df d(2) w' by (simp_all add: blk_def fun_eq_iff)
    have mg: "le_get32 (blk (w_dev w') i) \<noteq> WALMagic" if i: "i < maxLBA w" "n \<le> i" for i
    proof (cases "i < n + m")
      case True then show ?thesis using zero_not_magic b'(1) zb(3) i(2) by simp
    next
      case False
      then have "\<not> i < sc_oldTip sc" using rep(3) st i(2) unfolding ot_def by (auto split: if_splits)
      then have "le_get32 (blk (w_dev w) i) \<noteq> WALMagic" using a i by (auto simp: n_def)
      then show ?thesis using b'(1) zb(3) False by simp
    qed
    have q': "rp_Quarantine rep = qfile (concat (map (blk (w_dev w)) [n..<n + m]))" using rr ok1(2) bs(2) rep(3,4) by simp
    have "w_next w' = n" "w_qCount w' = 0" "w_pending w' = []" using w' by simp_all
    then show ?thesis using True ds rep(1,2,4) q' b' zb(3) mg by simp
  qed
qed

text \<open>On a device that answers its calls, with a quarantine that accepts the bytes, the repair returns.\<close>

lemma repair_prefix_healthy:
  "healthy (w_dev w) \<Longrightarrow> lba + k \<le> maxLBA w \<Longrightarrow>
   \<exists>r w'. repair_prefix lba k sc w = (Inr r, w') \<and> healthy (w_dev w')"
proof (induction k arbitrary: lba sc w)
  case (Suc k)
  obtain d1 where d1: "wal_rd lba w = (Inr (blk (w_dev w) lba), w\<lparr>w_dev := d1\<rparr>)" "healthy d1" "d_size d1 = d_size (w_dev w)"
    using wal_rd_healthy [OF Suc.prems(1), of lba] Suc.prems(2) by auto
  have "\<And>sc. \<exists>r w'. repair_prefix (Suc lba) k sc (w\<lparr>w_dev := d1\<rparr>) = (Inr r, w') \<and> healthy (w_dev w')"
    by (rule Suc.IH) (use d1 Suc.prems(2) in simp_all)
  then show ?case using d1 by (auto simp: op_bind_def Let_def)
qed auto

lemma repair_suffix_healthy:
  "healthy (w_dev w) \<Longrightarrow> lba + k \<le> maxLBA w \<Longrightarrow>
   \<exists>sc' w'. repair_suffix lba k sc w = (Inr sc', w') \<and> healthy (w_dev w')"
proof (induction k arbitrary: lba sc w)
  case (Suc k)
  obtain d1 where d1: "wal_rd lba w = (Inr (blk (w_dev w) lba), w\<lparr>w_dev := d1\<rparr>)" "healthy d1" "d_size d1 = d_size (w_dev w)"
    using wal_rd_healthy [OF Suc.prems(1), of lba] Suc.prems(2) by auto
  have "\<And>sc. \<exists>sc' w'. repair_suffix (Suc lba) k sc (w\<lparr>w_dev := d1\<rparr>) = (Inr sc', w') \<and> healthy (w_dev w')"
    by (rule Suc.IH) (use d1 Suc.prems(2) in simp_all)
  then show ?case using d1 by (simp add: op_bind_def Let_def verifyWAL_eq split: bool.splits)
qed simp

lemma read_range_healthy:
  "healthy (w_dev w) \<Longrightarrow> lba + k \<le> maxLBA w \<Longrightarrow> \<exists>bs w'. read_range lba k w = (Inr bs, w') \<and> healthy (w_dev w')"
proof (induction k arbitrary: lba w)
  case (Suc k)
  obtain d1 where d1: "wal_rd lba w = (Inr (blk (w_dev w) lba), w\<lparr>w_dev := d1\<rparr>)" "healthy d1" "d_size d1 = d_size (w_dev w)"
    using wal_rd_healthy [OF Suc.prems(1), of lba] Suc.prems(2) by auto
  obtain bs w' where "read_range (Suc lba) k (w\<lparr>w_dev := d1\<rparr>) = (Inr bs, w')" "healthy (w_dev w')"
    using Suc.IH [of "w\<lparr>w_dev := d1\<rparr>" "Suc lba"] d1 Suc.prems(2) by auto
  then show ?case using d1 by (simp add: op_bind_def)
qed simp

lemma repair_healthy:
  assumes "wal_healthy w" "\<And>bs. qfile bs \<noteq> None"
  shows "\<exists>rep w'. repairMedianRupture qfile w = (Inr rep, w')"
proof -
  have ok: "dev_ok (w_dev w)" using assms(1) by (simp add: healthy_def)
  let ?s0 = "\<lparr>sc_startLBA = maxLBA w, sc_prefixHasCheck = False, sc_prefixCheckLBA = 0, sc_downstream = False,
                sc_downstreamCheck = False, sc_downstreamCheckLBA = 0, sc_oldTip = 0\<rparr>"
  obtain v sc1 w1 where p: "repair_prefix 0 (maxLBA w) ?s0 w = (Inr (v, sc1), w1)" "healthy (w_dev w1)"
    using repair_prefix_healthy [of w 0 "maxLBA w" ?s0] assms(1) by auto
  have m1: "maxLBA w1 = maxLBA w" using repair_prefix_ok [OF ok p(1)] by (simp add: same_blocks_def)
  obtain sc w2 where a: "analyzeRepair w = (Inr sc, w2)" "healthy (w_dev w2)"
  proof (cases v)
    case True then show ?thesis using that p by (simp add: analyzeRepair_def op_bind_def Let_def)
  next
    case False
    then have "sc_startLBA sc1 + (maxLBA w1 - sc_startLBA sc1) \<le> maxLBA w1" using repair_prefix_ok [OF ok p(1)] m1 by auto
    then obtain sc2 w2 where "repair_suffix (sc_startLBA sc1) (maxLBA w1 - sc_startLBA sc1) sc1 w1 = (Inr sc2, w2)" "healthy (w_dev w2)"
      using repair_suffix_healthy [OF p(2)] by blast
    then show ?thesis using that p(1) False by (simp add: analyzeRepair_def op_bind_def Let_def)
  qed
  note an = analyzeRepair_ok [OF ok a(1)]
  have m2: "maxLBA w2 = maxLBA w" using an by (simp add: same_blocks_def)
  show ?thesis
  proof (cases "sc_downstream sc")
    case False
    then show ?thesis using a assms(1) by (simp add: repairMedianRupture_def op_bind_def ready_healthy)
  next
    case True
    define n ot where "n = sc_startLBA sc" and "ot = (if sc_oldTip sc \<le> sc_startLBA sc then sc_startLBA sc + 1 else sc_oldTip sc)"
    have fit: "n + (ot - n) \<le> maxLBA w2" using an True m2 by (auto simp: n_def ot_def)
    obtain bs w3 where r: "read_range n (ot - n) w2 = (Inr bs, w3)" "healthy (w_dev w3)" using read_range_healthy [OF a(2) fit] by blast
    obtain q where q: "qfile bs = Some q" using assms(2) by blast
    have ok2: "dev_ok (w_dev w2)" "dev_ok (w_dev w3)" using a(2) r(2) by (simp_all add: healthy_def)
    have "maxLBA w3 = maxLBA w2" using read_range_blocks [OF ok2(1) r(1)] by (simp add: same_blocks_def)
    then obtain w4 where z: "zero_range wal_wr n (ot - n) w3 = (Inr (), w4)" "healthy (w_dev w4)"
      using wal_live.zero_range_live [of w3 w3 n "ot - n"] ok2(2) r(2) fit by auto
    obtain d where "dev_Flush (w_dev w4) = (Inr (), d)" using dev_Flush_healthy [OF z(2)] by blast
    then have f: "on_dev dev_Flush w4 = (Inr (), w4\<lparr>w_dev := d\<rparr>)" by (simp add: on_dev_def)
    show ?thesis
      unfolding repair_run [OF ready_healthy [OF assms(1)] a(1) True ot_def] writeQuarantine_def n_def [symmetric]
      using r(1) q z(1) f by (simp add: op_bind_def Let_def)
  qed
qed

text \<open>A journal of three blocks with the middle one wiped.\<close>

definition hole_dev :: "bytes \<Rightarrow> Device" where
  "hole_dev key = (let f = sealed key sample_rec @ replicate 4096 0 @ sealed key sample_rec
     in \<lparr>d_fd = True, d_size = 3 * 4096, d_preadN = 0, d_pwriteN = 0, d_poisoned = False,
         d_os = \<lparr>k_file = f, k_durable = f, k_io = []\<rparr>\<rparr>)"

lemma hole_dev_facts:
  "healthy (hole_dev key)" "d_cap (hole_dev key) = 3" "first_hole (newWAL (hole_dev key) key) = 1" "valid_at (newWAL (hole_dev key) key) 2"
proof -
  have l: "length (sealed key sample_rec) = 4096" using sample_rec_facts(2) by simp
  have b: "blk (hole_dev key) 0 = sealed key sample_rec" "blk (hole_dev key) 1 = replicate 4096 0" "blk (hole_dev key) 2 = sealed key sample_rec"
    using l by (simp_all add: blk_def hole_dev_def bslice_def Let_def)
  show "healthy (hole_dev key)" using l by (simp add: healthy_def hole_dev_def dev_ok_def Let_def)
  show "d_cap (hole_dev key) = 3" by (simp add: hole_dev_def Let_def)
  then show "first_hole (newWAL (hole_dev key) key) = 1"
    using b header_ok_sealed sample_rec_facts(2) header_ok_zero by (intro first_hole_eq) (auto simp: newWAL_def)
  show "valid_at (newWAL (hole_dev key) key) 2"
    using b header_ok_sealed sample_rec_facts(2) verify_sealed by (simp add: valid_at_def newWAL_def)
qed

theorem OpenWAL_fail_closed_witness: "OpenWAL (hole_dev (replicate 32 7)) (replicate 32 7) = Inl WCorruptedMedian"
proof -
  have "\<exists>i. first_hole (newWAL (hole_dev (replicate 32 7)) (replicate 32 7)) < i \<and> i < d_cap (hole_dev (replicate 32 7)) \<and>
      valid_at (newWAL (hole_dev (replicate 32 7)) (replicate 32 7)) i"
    by (intro exI [of _ 2]) (simp add: hole_dev_facts)
  then show ?thesis using OpenWAL_fail_closed [OF hole_dev_facts(1), of "replicate 32 7" "replicate 32 7"] by simp
qed

theorem repairMedianRupture_cuts_witness:
  "\<exists>rep w'. repairMedianRupture (\<lambda>bs. Some (''q'', bs)) (newWAL (hole_dev (replicate 32 7)) (replicate 32 7)) = (Inr rep, w') \<and>
     rp_Repaired rep \<and> rp_StartLBA rep = 1 \<and> w_next w' = 1 \<and> le_get32 (blk (w_dev w') 2) \<noteq> WALMagic"
proof -
  let ?k = "replicate 32 (7 :: byte)"
  let ?w = "newWAL (hole_dev ?k) ?k"
  have w: "wal_healthy ?w" "maxLBA ?w = 3" "dev_ok (w_dev ?w)"
    using hole_dev_facts(1,2) [of ?k] by (simp_all add: newWAL_def healthy_def)
  obtain rep w' where r: "repairMedianRupture (\<lambda>bs. Some (''q'', bs)) ?w = (Inr rep, w')"
    using repair_healthy [OF w(1), of "\<lambda>bs. Some (''q'', bs)"] by auto
  have ex: "\<exists>i. 1 < i \<and> i < 3 \<and> valid_at ?w i" using hole_dev_facts(4) by (intro exI [of _ 2]) simp
  have "rp_StartLBA rep = 1" "rp_Repaired rep" "w_next w' = 1" "\<forall>i < 3. 1 \<le> i \<longrightarrow> le_get32 (blk (w_dev w') i) \<noteq> WALMagic"
    using repairMedianRupture_cuts [OF w(3) r, unfolded hole_dev_facts(3) w(2) if_P [OF ex]] by blast+
  moreover have "(2 :: nat) < 3" "(1 :: nat) \<le> 2" by simp_all
  ultimately show ?thesis using r by blast
qed

end
