(* ===== verification/Locks.thy ===== *)
theory Locks
  imports C2_Prelude "HOL-Library.AList"
begin

text \<open>
  The advisory file locks of \<^verbatim>\<open>src/pkg/c2db/vfs_locks.go\<close>: five levels per connection, the
  transitions \<^verbatim>\<open>Lock\<close> and \<^verbatim>\<open>Unlock\<close>, and the registry of files. A method holds the mutex of its
  file for its whole body, so a concurrent history of calls is a sequence of the steps below.
  The two maps of the code are association lists with distinct keys; the value of an absent
  connection is Go's zero value, \<open>LockNone\<close>.
\<close>

section \<open>Levels and holders\<close>

type_synonym LockState = int

definition LockNone :: LockState where [simp]: "LockNone = 0"
definition LockShared :: LockState where [simp]: "LockShared = 1"
definition LockReserved :: LockState where [simp]: "LockReserved = 2"
definition LockPending :: LockState where [simp]: "LockPending = 3"
definition LockExclusive :: LockState where [simp]: "LockExclusive = 4"

datatype lock_error = ErrBusy | ErrLockSequence

record FileLockState =
  holders :: "(u64 \<times> LockState) list"

definition Level :: "FileLockState \<Rightarrow> u64 \<Rightarrow> LockState" where
  "Level s c = (case map_of (holders s) c of None \<Rightarrow> 0 | Some st \<Rightarrow> st)"

definition maxLock :: "FileLockState \<Rightarrow> LockState" where
  "maxLock s = fold (\<lambda>(c, st) mx. if st > mx then st else mx) (holders s) 0"

definition maxOther :: "FileLockState \<Rightarrow> u64 \<Rightarrow> LockState" where
  "maxOther s except = fold (\<lambda>(c, st) mx. if c \<noteq> except \<and> st > mx then st else mx) (holders s) 0"

definition hasOther :: "FileLockState \<Rightarrow> u64 \<Rightarrow> bool" where
  "hasOther s except = list_ex (\<lambda>(c, st). c \<noteq> except) (holders s)"

definition set_holder :: "u64 \<Rightarrow> LockState \<Rightarrow> FileLockState \<Rightarrow> FileLockState" where
  "set_holder c st s = s\<lparr>holders := AList.update c st (holders s)\<rparr>"

section \<open>Operations\<close>

definition Lock :: "FileLockState \<Rightarrow> u64 \<Rightarrow> LockState \<Rightarrow> lock_error option \<times> FileLockState" where
  "Lock s connID target =
     (if target < LockNone \<or> target > LockExclusive then (Some ErrLockSequence, s)
      else
        let cur = Level s connID in
        if target \<le> cur then (None, s)
        else if target = LockShared then
          (if maxLock s \<ge> LockPending then (Some ErrBusy, s) else (None, set_holder connID target s))
        else if target = LockReserved then
          (if cur \<noteq> LockShared then (Some ErrLockSequence, s)
           else if maxOther s connID \<ge> LockReserved then (Some ErrBusy, s)
           else (None, set_holder connID target s))
        else if target = LockPending then
          (if cur \<noteq> LockReserved then (Some ErrLockSequence, s)
           else if maxOther s connID \<ge> LockPending then (Some ErrBusy, s)
           else (None, set_holder connID target s))
        else if target = LockExclusive then
          (if cur \<noteq> LockShared \<and> cur \<noteq> LockReserved \<and> cur \<noteq> LockPending then (Some ErrLockSequence, s)
           else if maxOther s connID \<ge> LockPending then (Some ErrBusy, s)
           else
             let s = (if cur < LockPending then set_holder connID LockPending s else s)
             in if hasOther s connID then (Some ErrBusy, s) else (None, set_holder connID LockExclusive s))
        else (Some ErrLockSequence, s))"

definition Unlock :: "FileLockState \<Rightarrow> u64 \<Rightarrow> LockState \<Rightarrow> lock_error option \<times> FileLockState" where
  "Unlock s connID target =
     (if target < LockNone \<or> target > LockExclusive then (Some ErrLockSequence, s)
      else
        let cur = Level s connID in
        if target \<ge> cur then (None, s)
        else if target = LockReserved \<and> maxOther s connID \<ge> LockReserved then (Some ErrBusy, s)
        else if target = LockNone then (None, s\<lparr>holders := AList.delete connID (holders s)\<rparr>)
        else (None, set_holder connID target s))"

definition CheckReservedLock :: "FileLockState \<Rightarrow> bool" where
  "CheckReservedLock s \<longleftrightarrow> maxLock s \<ge> LockReserved"

section \<open>The registry\<close>

record FileLockRegistry =
  files :: "(string \<times> FileLockState) list"

definition NewFileLockRegistry :: FileLockRegistry where
  "NewFileLockRegistry = \<lparr>files = []\<rparr>"

definition File :: "FileLockRegistry \<Rightarrow> string \<Rightarrow> FileLockState \<times> FileLockRegistry" where
  "File r fid =
     (case map_of (files r) fid of
        Some st \<Rightarrow> (st, r)
      | None \<Rightarrow> let st = \<lparr>holders = []\<rparr> in (st, r\<lparr>files := AList.update fid st (files r)\<rparr>))"

section \<open>The invariant\<close>

text \<open>
  No stored level is \<open>LockNone\<close>, two connections are never both at reserved nor both at pending or
  above, and an exclusive holder is alone.
\<close>

definition lock_inv :: "FileLockState \<Rightarrow> bool" where
  "lock_inv s \<longleftrightarrow> distinct (map fst (holders s)) \<and>
     (\<forall>c st. map_of (holders s) c = Some st \<longrightarrow> LockShared \<le> st \<and> st \<le> LockExclusive) \<and>
     (\<forall>a b. a \<noteq> b \<longrightarrow> \<not> (Level s a = LockReserved \<and> Level s b = LockReserved)) \<and>
     (\<forall>a b. a \<noteq> b \<longrightarrow> \<not> (Level s a \<ge> LockPending \<and> Level s b \<ge> LockPending)) \<and>
     (\<forall>a b. a \<noteq> b \<longrightarrow> Level s a = LockExclusive \<longrightarrow> Level s b = LockNone)"

lemma fold_max_other:
  "fold (\<lambda>(c, st) mx. if P c \<and> st > mx then st else mx) xs m \<ge> (k :: int) \<longleftrightarrow> m \<ge> k \<or> (\<exists>(c, st) \<in> set xs. P c \<and> st \<ge> k)"
  by (induction xs arbitrary: m) (auto split: if_splits)

lemma Level_mem:
  assumes "distinct (map fst (holders s))" "k > 0"
  shows "k \<le> Level s c \<longleftrightarrow> (\<exists>st. (c, st) \<in> set (holders s) \<and> k \<le> st)"
  unfolding map_of_eq_Some_iff [OF assms(1), symmetric] using assms(2) by (auto simp: Level_def split: option.splits)

lemma maxOther_ge:
  assumes "distinct (map fst (holders s))" "k > 0"
  shows "maxOther s c \<ge> k \<longleftrightarrow> (\<exists>a. a \<noteq> c \<and> Level s a \<ge> k)"
  using assms unfolding Level_mem [OF assms] by (auto simp: maxOther_def fold_max_other)

lemma maxLock_ge:
  assumes "distinct (map fst (holders s))" "k > 0"
  shows "maxLock s \<ge> k \<longleftrightarrow> (\<exists>a. Level s a \<ge> k)"
  using assms fold_max_other [where P = "\<lambda>_. True", of k "holders s" 0]
  unfolding Level_mem [OF assms] by (auto simp: maxLock_def)

lemma lock_inv_range:
  assumes "lock_inv s" shows "0 \<le> Level s c \<and> Level s c \<le> 4"
proof -
  have "\<forall>c st. map_of (holders s) c = Some st \<longrightarrow> 1 \<le> st \<and> st \<le> 4" using assms by (simp add: lock_inv_def)
  then show ?thesis by (cases "map_of (holders s) c") (fastforce simp: Level_def)+
qed

lemma hasOther_Level:
  assumes "lock_inv s"
  shows "hasOther s c \<longleftrightarrow> (\<exists>a. a \<noteq> c \<and> Level s a \<ge> 1)"
proof -
  have d: "distinct (map fst (holders s))" using assms by (simp add: lock_inv_def)
  have "(\<exists>a st. (a, st) \<in> set (holders s) \<and> a \<noteq> c) \<longleftrightarrow> (\<exists>a st. a \<noteq> c \<and> (a, st) \<in> set (holders s) \<and> 1 \<le> st)"
    using assms unfolding map_of_eq_Some_iff [OF d, symmetric] lock_inv_def by (metis LockShared_def)
  then show ?thesis using Level_mem [OF d, of 1] by (auto simp: hasOther_def list_ex_iff)
qed

lemma Level_set [simp]: "Level (set_holder c st s) a = (if a = c then st else Level s a)"
  by (simp add: Level_def set_holder_def update_conv)

lemma Level_delete [simp]: "Level (s\<lparr>holders := AList.delete c (holders s)\<rparr>) a = (if a = c then 0 else Level s a)"
  by (simp add: Level_def delete_conv)

lemma inv_set_holder:
  assumes "lock_inv s" "1 \<le> st" "st \<le> 4"
    and o: "\<And>a. a \<noteq> c \<Longrightarrow> Level s a < 4 \<and> (st = 2 \<longrightarrow> Level s a \<noteq> 2) \<and> (st \<ge> 3 \<longrightarrow> Level s a < 3) \<and> (st = 4 \<longrightarrow> Level s a = 0)"
  shows "lock_inv (set_holder c st s)"
proof -
  have "\<forall>a x. map_of (holders (set_holder c st s)) a = Some x \<longrightarrow> 1 \<le> x \<and> x \<le> 4"
    using assms(1-3) by (simp add: lock_inv_def set_holder_def update_conv)
  moreover have "distinct (map fst (holders (set_holder c st s)))"
    using assms(1) by (simp add: lock_inv_def set_holder_def distinct_update)
  moreover have "\<forall>a. a \<noteq> c \<longrightarrow> \<not> Level s a \<ge> 4 \<and> Level s a \<noteq> 4 \<and> (st \<ge> 3 \<longrightarrow> \<not> Level s a \<ge> 3)" using o by fastforce
  ultimately show ?thesis using assms unfolding lock_inv_def Level_set by auto
qed

lemma inv_set_low:
  assumes "lock_inv s" "1 \<le> st" "st \<le> 3" and o: "\<forall>a. a \<noteq> c \<longrightarrow> Level s a < (if st = 2 then 2 else 3)"
  shows "lock_inv (set_holder c st s)"
proof (rule inv_set_holder [OF assms(1,2)])
  fix a assume "a \<noteq> c"
  then show "Level s a < 4 \<and> (st = 2 \<longrightarrow> Level s a \<noteq> 2) \<and> (st \<ge> 3 \<longrightarrow> Level s a < 3) \<and> (st = 4 \<longrightarrow> Level s a = 0)"
    using o [rule_format, of a] assms(3) by (auto split: if_splits)
qed (use assms(3) in simp)

lemma inv_delete: "lock_inv s \<Longrightarrow> lock_inv (s\<lparr>holders := AList.delete c (holders s)\<rparr>)"
  unfolding lock_inv_def Level_delete by (auto simp: distinct_delete delete_conv split: if_splits)


lemma lock_inv_distinct: "lock_inv s \<Longrightarrow> distinct (map fst (holders s))"
  by (simp add: lock_inv_def)

lemmas lock_tests = maxOther_ge [OF lock_inv_distinct] maxLock_ge [OF lock_inv_distinct] hasOther_Level

lemma lock_inv_excl:
  assumes "lock_inv s" "a \<noteq> b"
  shows "\<not> (Level s a = 2 \<and> Level s b = 2)" "\<not> (Level s a \<ge> 3 \<and> Level s b \<ge> 3)" "Level s a = 4 \<Longrightarrow> Level s b = 0"
  using assms by (auto simp: lock_inv_def)

lemma Lock_inv:
  assumes i: "lock_inv s" shows "lock_inv (snd (Lock s c t))"
proof -
  consider "t < 0 \<or> t > 4 \<or> t \<le> Level s c" | "t = 1" "Level s c < 1" | "t = 2" "Level s c < 2" | "t = 3" "Level s c < 3" | "t = 4" "Level s c < 4"
    using lock_inv_range [OF i, of c] by fastforce
  then show ?thesis
  proof cases
    case 1 then show ?thesis using i by (auto simp: Lock_def Let_def)
  next
    case 2
    show ?thesis
    proof (cases "maxLock s \<ge> 3")
      case False
      then have "\<forall>a. Level s a < 3" using lock_tests(2) [OF i, of 3] by (simp add: not_le)
      then have "lock_inv (set_holder c 1 s)" by (intro inv_set_low [OF i]) simp_all
      then show ?thesis using 2 False i by (simp add: Lock_def Let_def)
    qed (use 2 i in \<open>simp add: Lock_def Let_def\<close>)
  next
    case 3
    show ?thesis
    proof (cases "maxOther s c \<ge> 2")
      case False
      then have "\<forall>a. a \<noteq> c \<longrightarrow> Level s a < 2" using lock_tests(1) [OF i, of 2 c] by (simp add: not_le) blast
      then have "lock_inv (set_holder c 2 s)" by (intro inv_set_low [OF i]) simp_all
      then show ?thesis using 3 False i by (simp add: Lock_def Let_def)
    qed (use 3 i in \<open>simp add: Lock_def Let_def\<close>)
  next
    case 4
    show ?thesis
    proof (cases "maxOther s c \<ge> 3")
      case False
      then have "\<forall>a. a \<noteq> c \<longrightarrow> Level s a < 3" using lock_tests(1) [OF i, of 3 c] by (simp add: not_le) blast
      then have "lock_inv (set_holder c 3 s)" by (intro inv_set_low [OF i]) simp_all
      then show ?thesis using 4 False i by (simp add: Lock_def Let_def)
    qed (use 4 i in \<open>simp add: Lock_def Let_def\<close>)
  next
    case 5
    show ?thesis
    proof (cases "maxOther s c \<ge> 3")
      case False
      then have o: "\<forall>a. a \<noteq> c \<longrightarrow> Level s a < 3" using lock_tests(1) [OF i, of 3 c] by (simp add: not_le) blast
      let ?s = "if Level s c < 3 then set_holder c 3 s else s"
      have s': "lock_inv ?s" using o i by (auto intro!: inv_set_low)
      have "lock_inv (set_holder c 4 ?s)" if "\<not> hasOther ?s c"
      proof (rule inv_set_holder [OF s'])
        fix a assume "a \<noteq> c"
        then have "\<not> Level ?s a \<ge> 1" using that lock_tests(3) [OF s', of c] by blast
        then have "Level ?s a = 0" using lock_inv_range [OF s', of a] by linarith
        then show "Level ?s a < 4 \<and> ((4 :: int) = 2 \<longrightarrow> Level ?s a \<noteq> 2) \<and> ((4 :: int) \<ge> 3 \<longrightarrow> Level ?s a < 3) \<and> ((4 :: int) = 4 \<longrightarrow> Level ?s a = 0)"
          by simp
      qed simp_all
      then show ?thesis using 5 False i s' by (cases "Level s c < 3") (auto simp: Lock_def Let_def)
    qed (use 5 i in \<open>simp add: Lock_def Let_def\<close>)
  qed
qed

lemma Unlock_inv:
  assumes i: "lock_inv s" shows "lock_inv (snd (Unlock s c t))"
proof -
  have "lock_inv (set_holder c t s)" if t: "1 \<le> t" "t < Level s c" "t = 2 \<Longrightarrow> \<not> maxOther s c \<ge> 2"
  proof (rule inv_set_holder [OF i t(1)])
    show "t \<le> 4" using t(2) lock_inv_range [OF i, of c] by simp
    fix a assume a: "a \<noteq> c"
    have "t = 2 \<longrightarrow> \<not> Level s a \<ge> 2" using lock_tests(1) [OF i, of 2 c] t(3) a by auto
    then show "Level s a < 4 \<and> (t = 2 \<longrightarrow> Level s a \<noteq> 2) \<and> (t \<ge> 3 \<longrightarrow> Level s a < 3) \<and> (t = 4 \<longrightarrow> Level s a = 0)"
      using lock_inv_excl [OF i a] lock_inv_range [OF i, of c] lock_inv_range [OF i, of a] t(1,2) by (cases "Level s a = 4") auto
  qed
  then show ?thesis using i inv_delete [OF i] by (auto simp: Unlock_def Let_def)
qed

section \<open>Histories\<close>

text \<open>A step of a history: one call of one connection; a run is any interleaving of calls.\<close>

datatype lock_call = CallLock u64 LockState | CallUnlock u64 LockState

fun call :: "FileLockState \<Rightarrow> lock_call \<Rightarrow> FileLockState" where
  "call s (CallLock c t) = snd (Lock s c t)"
| "call s (CallUnlock c t) = snd (Unlock s c t)"

fun caller :: "lock_call \<Rightarrow> u64" where
  "caller (CallLock c t) = c"
| "caller (CallUnlock c t) = c"

inductive lock_step :: "FileLockState \<Rightarrow> FileLockState \<Rightarrow> bool" where
  lock_step: "lock_step s (call s x)"

inductive_cases lock_stepE: "lock_step s s'"

lemma call_inv: "lock_inv s \<Longrightarrow> lock_inv (call s x)"
  by (cases x) (simp_all add: Lock_inv Unlock_inv)

lemma reach_call: "lock_step\<^sup>*\<^sup>* s t \<Longrightarrow> lock_step\<^sup>*\<^sup>* s (call t x)"
  by (erule rtranclp.rtrancl_into_rtrancl) (rule lock_step.lock_step)

lemma lock_inv_new: "lock_inv \<lparr>holders = []\<rparr>"
  by (simp add: lock_inv_def Level_def)

lemma reachable_inv: "lock_step\<^sup>*\<^sup>* \<lparr>holders = []\<rparr> s \<Longrightarrow> lock_inv s"
  by (induction rule: rtranclp_induct) (auto intro: lock_inv_new call_inv elim!: lock_stepE)


text \<open>
  C11. Mutual exclusion: after any interleaving of lock and unlock calls from any number of connections,
  an exclusive holder is the only holder, at most one connection is at pending or above and at most
  one exactly at reserved, every level is one of the five, and \<^verbatim>\<open>CheckReservedLock\<close> answers whether
  some connection is at reserved or above.
\<close>
theorem lock_exclusion:
  assumes "lock_step\<^sup>*\<^sup>* \<lparr>holders = []\<rparr> s" "a \<noteq> b"
  shows "(Level s a = LockExclusive \<longrightarrow> Level s b = LockNone) \<and>
    \<not> (LockPending \<le> Level s a \<and> LockPending \<le> Level s b) \<and> \<not> (Level s a = LockReserved \<and> Level s b = LockReserved) \<and>
    LockNone \<le> Level s a \<and> Level s a \<le> LockExclusive \<and> (CheckReservedLock s \<longleftrightarrow> (\<exists>c. LockReserved \<le> Level s c))"
proof -
  note i = reachable_inv [OF assms(1)]
  show ?thesis using lock_inv_excl [OF i assms(2)] lock_inv_range [OF i] lock_tests(2) [OF i] by (simp add: CheckReservedLock_def)
qed

theorem lock_exclusion_witness:
  "Level (call (call \<lparr>holders = []\<rparr> (CallLock 1 LockShared)) (CallLock 1 LockExclusive)) 1 = LockExclusive \<and>
   Level (call (call \<lparr>holders = []\<rparr> (CallLock 1 LockShared)) (CallLock 1 LockExclusive)) 2 = LockNone"
proof -
  let ?s = "call (call \<lparr>holders = []\<rparr> (CallLock 1 LockShared)) (CallLock 1 LockExclusive)"
  have "Level ?s 1 = LockExclusive"
    by (simp add: Lock_def Level_def maxLock_def maxOther_def hasOther_def set_holder_def)
  moreover have "lock_step\<^sup>*\<^sup>* \<lparr>holders = []\<rparr> ?s" by (intro reach_call rtranclp.rtrancl_refl)
  ultimately show ?thesis using lock_exclusion [of ?s 1 2] by simp
qed

lemma Lock_other: "a \<noteq> c \<Longrightarrow> Level (snd (Lock s c t)) a = Level s a"
  by (auto simp: Lock_def Let_def)

lemma Unlock_other: "a \<noteq> c \<Longrightarrow> Level (snd (Unlock s c t)) a = Level s a"
  by (auto simp: Unlock_def Let_def)

lemma call_other: "caller x \<noteq> a \<Longrightarrow> Level (call s x) a = Level s a"
  by (cases x) (simp_all add: Lock_other Unlock_other)

lemma call_no_entry:
  assumes i: "lock_inv s" and p: "Level s c = 3" and x: "caller x \<noteq> c" and z: "Level s a = 0"
  shows "Level (call s x) a = 0"
proof (cases "caller x = a")
  case True
  have "maxLock s \<ge> 3" using lock_tests(2) [OF i, of 3] p by (metis order_refl zero_less_numeral)
  then show ?thesis using True z by (cases x) (auto simp: Lock_def Unlock_def Let_def)
qed (use z in \<open>simp add: call_other\<close>)

lemma run_inv: "lock_inv s \<Longrightarrow> lock_inv (foldl call s xs)"
  by (induction xs arbitrary: s) (simp_all add: call_inv)

lemma run_pending:
  assumes "lock_inv s" "Level s c = 3" "\<forall>x \<in> set xs. caller x \<noteq> c"
  shows "Level (foldl call s xs) c = 3 \<and> (\<forall>a. Level s a = 0 \<longrightarrow> Level (foldl call s xs) a = 0)"
  using assms
proof (induction xs arbitrary: s)
  case (Cons x xs)
  have "Level (call s x) c = 3" using Cons.prems(2,3) by (simp add: call_other)
  moreover have "\<forall>a. Level s a = 0 \<longrightarrow> Level (call s x) a = 0" using call_no_entry [OF Cons.prems(1,2)] Cons.prems(3) by auto
  ultimately show ?case using Cons.IH [OF call_inv [OF Cons.prems(1)]] Cons.prems(3) by simp
qed simp

text \<open>A waiting writer is not overtaken: once a connection is at pending, whatever the other connections
  call, it stays at pending and no connection without a lock obtains one; and as soon as the others
  have released theirs, its request for the exclusive lock is granted.
\<close>
theorem pending_drains:
  assumes "lock_step\<^sup>*\<^sup>* \<lparr>holders = []\<rparr> s" "Level s c = LockPending" "\<forall>x \<in> set xs. caller x \<noteq> c"
  defines "s' \<equiv> foldl call s xs"
  shows "Level s' c = LockPending \<and> (\<forall>a. Level s a = LockNone \<longrightarrow> Level s' a = LockNone) \<and>
    ((\<forall>a. a \<noteq> c \<longrightarrow> Level s' a = LockNone) \<longrightarrow>
       (\<exists>s''. Lock s' c LockExclusive = (None, s'') \<and> Level s'' c = LockExclusive))"
proof -
  note i = reachable_inv [OF assms(1)]
  have i': "lock_inv s'" unfolding s'_def by (rule run_inv [OF i])
  have r: "Level s' c = 3" "\<forall>a. Level s a = 0 \<longrightarrow> Level s' a = 0" using run_pending [OF i _ assms(3)] assms(2) by (simp_all add: s'_def)
  have "\<exists>s''. Lock s' c LockExclusive = (None, s'') \<and> Level s'' c = LockExclusive" if o: "\<forall>a. a \<noteq> c \<longrightarrow> Level s' a = 0"
  proof -
    have "\<not> maxOther s' c \<ge> 3" "\<not> hasOther s' c" using lock_tests(1) [OF i', of 3 c] lock_tests(3) [OF i', of c] o by auto
    then show ?thesis using r(1) by (simp add: Lock_def Let_def)
  qed
  then show ?thesis using r by simp
qed

theorem pending_drains_witness:
  "\<exists>s''. Lock (foldl call (call (call (call \<lparr>holders = []\<rparr> (CallLock 1 LockShared)) (CallLock 2 LockShared)) (CallLock 1 LockExclusive))
     [CallLock 3 LockShared, CallUnlock 2 LockNone]) 1 LockExclusive = (None, s'')"
proof -
  let ?s = "call (call (call \<lparr>holders = []\<rparr> (CallLock 1 LockShared)) (CallLock 2 LockShared)) (CallLock 1 LockExclusive)"
  let ?xs = "[CallLock 3 LockShared, CallUnlock 2 LockNone]"
  have s: "?s = \<lparr>holders = [(1, 3), (2, 1)]\<rparr>"
    by (simp add: Lock_def Level_def maxLock_def maxOther_def hasOther_def set_holder_def)
  have s': "foldl call ?s ?xs = \<lparr>holders = [(1, 3)]\<rparr>"
    unfolding s by (simp add: Lock_def Unlock_def Level_def maxLock_def maxOther_def hasOther_def set_holder_def AList.delete_eq)
  have r: "lock_step\<^sup>*\<^sup>* \<lparr>holders = []\<rparr> ?s" by (intro reach_call rtranclp.rtrancl_refl)
  have p: "Level ?s 1 = LockPending" unfolding s by (simp add: Level_def)
  have "\<forall>a. a \<noteq> 1 \<longrightarrow> Level (foldl call ?s ?xs) a = LockNone" unfolding s' by (simp add: Level_def)
  then show ?thesis using pending_drains [OF r p, of ?xs] by auto
qed

lemma File_stable: "fst (File (snd (File r fid)) fid) = fst (File r fid)"
  by (auto simp: File_def Let_def update_conv split: option.splits)

end
