(* ===== verification/Uuid.thy ===== *)
theory Uuid
  imports C2_Prelude Kdf
begin

text \<open>
  Identifiers: the UUIDv7 package \<^verbatim>\<open>src/pkg/c2uuidv7\<close> (composition, the lock-free generator, hexadecimal
  text, the accessors and the strict parser) and the record identifiers of \<^verbatim>\<open>src/pkg/c2db/id.go\<close>,
  which put a kind, a collection, a shard and a counter into the 62 random bits. A \<open>UUID\<close> is a
  list of 16 bytes, a Go string a list of bytes. The clock reading and the bytes of \<^verbatim>\<open>crypto/rand\<close> are
  arguments.
\<close>

section \<open>Composition\<close>

type_synonym UUID = bytes

definition Nil_UUID :: UUID where
  "Nil_UUID = replicate 16 0"

definition Max_UUID :: UUID where
  "Max_UUID = replicate 16 0xFF"

definition Compose :: "u64 \<Rightarrow> u64 \<Rightarrow> UUID" where
  "Compose tsNs seqOrRand =
     (let tsMs = tsNs div 1000000;
          fracNs = ucast (tsNs mod 1000000) :: u32;
          subMs12 = (fracNs * 4096) div 1000000
      in [ucast (drop_bit 40 tsMs AND 0xff), ucast (drop_bit 32 tsMs AND 0xff), ucast (drop_bit 24 tsMs AND 0xff),
          ucast (drop_bit 16 tsMs AND 0xff), ucast (drop_bit 8 tsMs AND 0xff), ucast (tsMs AND 0xff),
          ucast (0x70 OR (drop_bit 8 subMs12 AND 0x0F)), ucast (subMs12 AND 0xff),
          ucast (0x80 OR (drop_bit 56 seqOrRand AND 0x3F)), ucast (drop_bit 48 seqOrRand AND 0xff),
          ucast (drop_bit 40 seqOrRand AND 0xff), ucast (drop_bit 32 seqOrRand AND 0xff),
          ucast (drop_bit 24 seqOrRand AND 0xff), ucast (drop_bit 16 seqOrRand AND 0xff),
          ucast (drop_bit 8 seqOrRand AND 0xff), ucast (seqOrRand AND 0xff)])"

section \<open>The generator\<close>

record generator =
  gUUIDLastTimestamp :: u64
  gUUIDPRNGState :: u64

definition nextPRNG :: "generator \<Rightarrow> u64 \<times> generator" where
  "nextPRNG g =
     (let z = gUUIDPRNGState g + 0x9e3779b97f4a7c15;
          g = g\<lparr>gUUIDPRNGState := z\<rparr>;
          z = (z XOR drop_bit 30 z) * 0xbf58476d1ce4e5b9;
          z = (z XOR drop_bit 27 z) * 0x94d049bb133111eb
      in (z XOR drop_bit 31 z, g))"

definition clock_stamp :: "u64 \<Rightarrow> u64 \<Rightarrow> u64" where
  "clock_stamp secs nanos =
     (let msecs = nanos div 1000000; frac = nanos - msecs * 1000000
      in push_bit 12 (secs * 1000 + msecs) + (frac * 4096) div 1000000)"

text \<open>One turn of the loop: \<open>prev\<close> is what the load returned, the exchange succeeds if it is still current.\<close>

definition v7_attempt :: "u64 \<Rightarrow> u64 \<Rightarrow> generator \<Rightarrow> u64 option \<times> generator" where
  "v7_attempt timestamp prev g =
     (let cur = (if timestamp \<le> prev then prev + 1 else timestamp)
      in if gUUIDLastTimestamp g = prev then (Some cur, g\<lparr>gUUIDLastTimestamp := cur\<rparr>) else (None, g))"

definition v7_bytes :: "u64 \<Rightarrow> u64 \<Rightarrow> UUID" where
  "v7_bytes cur rnd =
     (let tsMs = drop_bit 12 cur; subMs12 = ucast (cur AND 0x0FFF) :: u32
      in [ucast (drop_bit 40 tsMs AND 0xff), ucast (drop_bit 32 tsMs AND 0xff), ucast (drop_bit 24 tsMs AND 0xff),
          ucast (drop_bit 16 tsMs AND 0xff), ucast (drop_bit 8 tsMs AND 0xff), ucast (tsMs AND 0xff),
          ucast (0x70 OR (drop_bit 8 subMs12 AND 0x0F)), ucast (subMs12 AND 0xff),
          ucast (0x80 OR (drop_bit 56 rnd AND 0x3F)), ucast (drop_bit 48 rnd AND 0xff),
          ucast (drop_bit 40 rnd AND 0xff), ucast (drop_bit 32 rnd AND 0xff),
          ucast (drop_bit 24 rnd AND 0xff), ucast (drop_bit 16 rnd AND 0xff),
          ucast (drop_bit 8 rnd AND 0xff), ucast (rnd AND 0xff)])"

text \<open>A call that meets no other thread: its first exchange succeeds.\<close>

definition NewV7Fast :: "u64 \<Rightarrow> u64 \<Rightarrow> generator \<Rightarrow> UUID \<times> generator" where
  "NewV7Fast secs nanos g =
     (case v7_attempt (clock_stamp secs nanos) (gUUIDLastTimestamp g) g of
        (Some cur, g) \<Rightarrow> (case nextPRNG g of (rnd, g) \<Rightarrow> (v7_bytes cur rnd, g))
      | (None, g) \<Rightarrow> (Nil_UUID, g))"

definition NewV7 :: "u64 \<Rightarrow> u64 \<Rightarrow> bytes \<Rightarrow> generator \<Rightarrow> UUID \<times> generator" where
  "NewV7 secs nanos cryptoRand g =
     (case NewV7Fast secs nanos g of (u, g) \<Rightarrow>
        let u = u[8 := 0x80 OR (cryptoRand ! 0 AND 0x3F)]
        in (go_copy u 9 (drop 1 (take 10 cryptoRand)), g))"

definition NewV4 :: "bytes \<Rightarrow> UUID" where
  "NewV4 rnd = (let u = take 16 rnd; u = u[6 := (u ! 6 AND 0x0F) OR 0x40] in u[8 := (u ! 8 AND 0x3F) OR 0x80])"

section \<open>Text\<close>

definition archtimeHexDecode :: "byte list" where
  "archtimeHexDecode = replicate 48 0xFF @ [0, 1, 2, 3, 4, 5, 6, 7, 8, 9] @ replicate 7 0xFF @ [10, 11, 12, 13, 14, 15] @
     replicate 26 0xFF @ [10, 11, 12, 13, 14, 15] @ replicate 153 0xFF"

definition archtimeHexChars :: bytes where
  "archtimeHexChars = bytes_of ''0123456789abcdef''"

definition hex_pair :: "byte \<Rightarrow> bytes" where
  "hex_pair b = [archtimeHexChars ! unat (drop_bit 4 b), archtimeHexChars ! unat (b AND 0x0F)]"

definition EncodeHex :: "UUID \<Rightarrow> bytes" where
  "EncodeHex u = hex_pair (u ! 0) @ hex_pair (u ! 1) @ hex_pair (u ! 2) @ hex_pair (u ! 3) @ [45] @
     hex_pair (u ! 4) @ hex_pair (u ! 5) @ [45] @ hex_pair (u ! 6) @ hex_pair (u ! 7) @ [45] @
     hex_pair (u ! 8) @ hex_pair (u ! 9) @ [45] @ hex_pair (u ! 10) @ hex_pair (u ! 11) @ hex_pair (u ! 12) @
     hex_pair (u ! 13) @ hex_pair (u ! 14) @ hex_pair (u ! 15)"

definition String_UUID :: "UUID \<Rightarrow> bytes" where
  "String_UUID u = EncodeHex u"

fun hex_loop :: "bytes \<Rightarrow> nat list \<Rightarrow> UUID option" where
  "hex_loop b [] = Some []"
| "hex_loop b (off # offsets) =
     (let h1 = archtimeHexDecode ! unat (b ! off); h2 = archtimeHexDecode ! unat (b ! (off + 1))
      in if (h1 OR h2) AND 0xF0 \<noteq> 0 then None
         else case hex_loop b offsets of None \<Rightarrow> None | Some u \<Rightarrow> Some ((push_bit 4 h1 OR h2) # u))"

definition ParseBytes :: "bytes \<Rightarrow> UUID option" where
  "ParseBytes b =
     (let b = (if length b \<ge> 9 \<and> take 9 b = bytes_of ''urn:uuid:'' then drop 9 b else b);
          b = (if length b = 38 \<and> b ! 0 = 123 \<and> b ! 37 = 125 then bslice b 1 36 else b)
      in if length b = 36 then
           (if b ! 8 \<noteq> 45 \<or> b ! 13 \<noteq> 45 \<or> b ! 18 \<noteq> 45 \<or> b ! 23 \<noteq> 45 then None
            else hex_loop b [0, 2, 4, 6, 9, 11, 14, 16, 19, 21, 24, 26, 28, 30, 32, 34])
         else if length b = 32 then hex_loop b (map (\<lambda>i. i * 2) [0..<16])
         else None)"

definition Parse :: "bytes \<Rightarrow> UUID option" where
  "Parse s = ParseBytes s"

definition UnmarshalBinary :: "bytes \<Rightarrow> UUID option" where
  "UnmarshalBinary data = (if length data \<noteq> 16 then None else Some data)"

datatype scan_source = ScanString bytes | ScanBytes bytes | ScanOther

fun Scan :: "scan_source \<Rightarrow> UUID option" where
  "Scan (ScanString v) = Parse v"
| "Scan (ScanBytes v) = (if length v = 16 then Some v else ParseBytes v)"
| "Scan ScanOther = None"

section \<open>Fields and order\<close>

definition TimestampMs :: "UUID \<Rightarrow> u64" where
  "TimestampMs u = push_bit 40 (ucast (u ! 0)) OR push_bit 32 (ucast (u ! 1)) OR push_bit 24 (ucast (u ! 2)) OR
     push_bit 16 (ucast (u ! 3)) OR push_bit 8 (ucast (u ! 4)) OR ucast (u ! 5)"

definition Version :: "UUID \<Rightarrow> nat" where
  "Version u = unat (drop_bit 4 (u ! 6))"

definition Variant :: "UUID \<Rightarrow> nat" where
  "Variant u =
     (let v = u ! 8 in
      if v AND 0x80 = 0 then 0 else if v AND 0xC0 = 0x80 then 2 else if v AND 0xE0 = 0xC0 then 6 else 7)"

definition IsV7 :: "UUID \<Rightarrow> bool" where
  "IsV7 u \<longleftrightarrow> Version u = 7 \<and> Variant u = 2"

definition IsV4 :: "UUID \<Rightarrow> bool" where
  "IsV4 u \<longleftrightarrow> Version u = 4 \<and> Variant u = 2"

definition IsNil :: "UUID \<Rightarrow> bool" where
  "IsNil u \<longleftrightarrow> u = Nil_UUID"

definition IsMax :: "UUID \<Rightarrow> bool" where
  "IsMax u \<longleftrightarrow> u = Max_UUID"

fun Compare :: "UUID \<Rightarrow> UUID \<Rightarrow> int" where
  "Compare (x # xs) (y # ys) = (if x < y then -1 else if x > y then 1 else Compare xs ys)"
| "Compare _ _ = 0"

definition ParseV7 :: "bytes \<Rightarrow> UUID option" where
  "ParseV7 s =
     (if length s \<noteq> 36 then None
      else case Parse s of None \<Rightarrow> None | Some u \<Rightarrow> if \<not> IsV7 u then None else Some u)"

definition IsV7String :: "bytes \<Rightarrow> bool" where
  "IsV7String s \<longleftrightarrow> ParseV7 s \<noteq> None"

section \<open>Record identifiers\<close>

datatype id_error = BadShard u16 | BadKind byte

definition NewIDKind :: "u64 \<Rightarrow> u16 \<Rightarrow> u64 \<Rightarrow> byte \<Rightarrow> byte \<Rightarrow> id_error + UUID" where
  "NewIDKind tsNs shard counter kind coll =
     (if shard \<ge> 1024 then Inl (BadShard shard)
      else if (ucast kind :: u16) \<ge> 16 then Inl (BadKind kind)
      else Inr (Compose tsNs (push_bit 58 (ucast kind) OR push_bit 50 (ucast coll) OR push_bit 40 (ucast shard) OR
             (counter AND (push_bit 40 1 - 1)))))"

definition NewID :: "u64 \<Rightarrow> u16 \<Rightarrow> u64 \<Rightarrow> id_error + UUID" where
  "NewID tsNs shard counter = NewIDKind tsNs shard counter 0 0"

definition overlay62 :: "UUID \<Rightarrow> u64" where
  "overlay62 u = push_bit 56 (ucast (u ! 8 AND 0x3F)) OR push_bit 48 (ucast (u ! 9)) OR push_bit 40 (ucast (u ! 10)) OR
     push_bit 32 (ucast (u ! 11)) OR push_bit 24 (ucast (u ! 12)) OR push_bit 16 (ucast (u ! 13)) OR
     push_bit 8 (ucast (u ! 14)) OR ucast (u ! 15)"

definition ShardOf :: "UUID \<Rightarrow> u16" where
  "ShardOf u = ucast (drop_bit 40 (overlay62 u) AND (1024 - 1))"

definition CounterOf :: "UUID \<Rightarrow> u64" where
  "CounterOf u = overlay62 u AND (push_bit 40 1 - 1)"

definition KindOf :: "UUID \<Rightarrow> byte" where
  "KindOf u = ucast (drop_bit 58 (overlay62 u))"

definition CollOf :: "UUID \<Rightarrow> byte" where
  "CollOf u = ucast (drop_bit 50 (overlay62 u) AND (256 - 1))"

section \<open>Hexadecimal digits\<close>

definition lower :: "byte \<Rightarrow> byte" where
  "lower c = (if 65 \<le> c \<and> c \<le> 90 then c + 32 else c)"

lemma all_bytes: "(\<forall>b :: byte. P b) \<longleftrightarrow> (\<forall>n \<in> set [0..<256]. P (of_nat n))"
proof
  assume "\<forall>n \<in> set [0..<256]. P (of_nat n)"
  then have "P (of_nat (unat b))" for b :: byte using byte_unat_less [of b] by (metis atLeast0LessThan lessThan_iff set_upt)
  then show "\<forall>b. P b" by simp
qed blast

lemma decode_digit: "\<forall>d \<in> set [0..<16]. archtimeHexDecode ! unat (archtimeHexChars ! d) = of_nat d"
  by code_simp

lemma decode_char: "\<forall>c :: byte. archtimeHexDecode ! unat c AND 0xF0 = 0 \<longrightarrow> archtimeHexChars ! unat (archtimeHexDecode ! unat c) = lower c \<and> unat (archtimeHexDecode ! unat c) < 16"
  unfolding all_bytes by code_simp

lemma lower_char: "\<forall>c :: byte. \<forall>d \<in> set [0..<16]. lower c = archtimeHexChars ! d \<longrightarrow> archtimeHexDecode ! unat c = of_nat d"
  unfolding all_bytes by code_simp


lemma decode_nibble:
  assumes "n < 16" shows "archtimeHexDecode ! unat (archtimeHexChars ! n) = of_nat n"
  using decode_digit assms by simp

lemma nibbles:
  "push_bit 4 (of_nat (unat (drop_bit 4 b))) OR of_nat (unat (b AND 0x0F)) = (b :: byte)"
  "unat (drop_bit 4 b) < 16" "unat (b AND 0x0F) < 16"
  "(of_nat (unat (drop_bit 4 b)) OR of_nat (unat (b AND 0x0F))) AND (0xF0 :: byte) = 0"
proof -
  have "\<forall>b :: byte. push_bit 4 (of_nat (unat (drop_bit 4 b))) OR of_nat (unat (b AND 0x0F)) = b \<and>
     unat (drop_bit 4 b) < 16 \<and> unat (b AND 0x0F) < 16 \<and>
     (of_nat (unat (drop_bit 4 b)) OR of_nat (unat (b AND 0x0F))) AND (0xF0 :: byte) = 0"
    unfolding all_bytes by code_simp
  then show "push_bit 4 (of_nat (unat (drop_bit 4 b))) OR of_nat (unat (b AND 0x0F)) = b"
    "unat (drop_bit 4 b) < 16" "unat (b AND 0x0F) < 16"
    "(of_nat (unat (drop_bit 4 b)) OR of_nat (unat (b AND 0x0F))) AND (0xF0 :: byte) = 0" by blast+
qed

lemma join_nibbles: "\<forall>d \<in> set [0..<16]. \<forall>e \<in> set [0..<16].
    unat (drop_bit 4 (push_bit 4 (of_nat d) OR of_nat e :: byte)) = d \<and> unat ((push_bit 4 (of_nat d) OR of_nat e) AND 0x0F :: byte) = e"
  by code_simp

lemma decode_pair:
  fixes c1 c2 :: byte
  defines "h1 \<equiv> archtimeHexDecode ! unat c1" and "h2 \<equiv> archtimeHexDecode ! unat c2"
  shows "(h1 OR h2) AND 0xF0 = 0 \<and> x = push_bit 4 h1 OR h2 \<longleftrightarrow> hex_pair x = [lower c1, lower c2]"
proof
  assume a: "(h1 OR h2) AND 0xF0 = 0 \<and> x = push_bit 4 h1 OR h2"
  then have "h1 AND 0xF0 = 0" "h2 AND 0xF0 = 0" by (simp_all add: bit.conj_disj_distrib2 or_eq_0_iff)
  then have c: "archtimeHexChars ! unat h1 = lower c1" "unat h1 < 16" "archtimeHexChars ! unat h2 = lower c2" "unat h2 < 16"
    using decode_char by (simp_all add: h1_def h2_def)
  have "unat (drop_bit 4 x) = unat h1" "unat (x AND 0x0F) = unat h2"
    using join_nibbles [rule_format, of "unat h1" "unat h2"] c(2,4) a by simp_all
  then show "hex_pair x = [lower c1, lower c2]" using c by (simp add: hex_pair_def)
next
  assume "hex_pair x = [lower c1, lower c2]"
  then have "h1 = of_nat (unat (drop_bit 4 x))" "h2 = of_nat (unat (x AND 0x0F))"
    using lower_char nibbles(2,3) [of x] by (simp_all add: hex_pair_def h1_def h2_def)
  then show "(h1 OR h2) AND 0xF0 = 0 \<and> x = push_bit 4 h1 OR h2" using nibbles(1,4) [of x] by simp
qed

lemma hex_loop_iff:
  "hex_loop b offs = Some xs \<longleftrightarrow> map (\<lambda>off. [lower (b ! off), lower (b ! (off + 1))]) offs = map hex_pair xs"
proof (induction offs arbitrary: xs)
  case (Cons off offs)
  let ?h1 = "archtimeHexDecode ! unat (b ! off)" and ?h2 = "archtimeHexDecode ! unat (b ! (off + 1))"
  have "hex_loop b (off # offs) = Some xs \<longleftrightarrow>
      (\<exists>x ys. xs = x # ys \<and> ((?h1 OR ?h2) AND 0xF0 = 0 \<and> x = push_bit 4 ?h1 OR ?h2) \<and> hex_loop b offs = Some ys)"
    by (auto simp: Let_def split: option.splits)
  then show ?case unfolding decode_pair Cons.IH by (cases xs) auto
qed auto

lemma EncodeHex_length: "length (EncodeHex u) = 36"
  by (simp add: EncodeHex_def hex_pair_def)

lemma list16_nth: "length u = 16 \<Longrightarrow> [u ! 0, u ! 1, u ! 2, u ! 3, u ! 4, u ! 5, u ! 6, u ! 7, u ! 8, u ! 9, u ! 10, u ! 11,
    u ! 12, u ! 13, u ! 14, u ! 15] = u"
  by (auto simp: numeral_eq_Suc length_Suc_conv)

text \<open>The canonical 36 characters, up to the case of the digits.\<close>

lemma list36: "length b = 36 \<Longrightarrow> b = [b ! 0, b ! 1, b ! 2, b ! 3, b ! 4, b ! 5, b ! 6, b ! 7, b ! 8, b ! 9, b ! 10, b ! 11, b ! 12,
    b ! 13, b ! 14, b ! 15, b ! 16, b ! 17, b ! 18, b ! 19, b ! 20, b ! 21, b ! 22, b ! 23, b ! 24, b ! 25, b ! 26, b ! 27, b ! 28,
    b ! 29, b ! 30, b ! 31, b ! 32, b ! 33, b ! 34, b ! 35]"
  by (auto simp: numeral_eq_Suc length_Suc_conv)

lemma lower_dash: "lower c = 45 \<longleftrightarrow> c = 45"
proof -
  have "\<forall>c :: byte. lower c = 45 \<longleftrightarrow> c = 45" unfolding all_bytes by code_simp
  then show ?thesis by blast
qed

lemma hex_pair_two: "length (hex_pair x) = 2"
  by (simp add: hex_pair_def)

lemma hex_pair_eq: "hex_pair x = [p, q] \<longleftrightarrow> archtimeHexChars ! unat (drop_bit 4 x) = p \<and> archtimeHexChars ! unat (x AND 0x0F) = q"
  by (simp add: hex_pair_def)

lemma canonical_iff:
  assumes "length b = 36" "length u = 16"
  shows "map lower b = EncodeHex u \<longleftrightarrow> b ! 8 = 45 \<and> b ! 13 = 45 \<and> b ! 18 = 45 \<and> b ! 23 = 45 \<and>
    hex_loop b [0, 2, 4, 6, 9, 11, 14, 16, 19, 21, 24, 26, 28, 30, 32, 34] = Some u"
proof -
  let ?l = "\<lambda>i. lower (b ! i)"
  have L: "map lower b = map ?l [0..<36]" using assms(1) by (intro nth_equalityI) simp_all
  have "?l 8 = 45 \<longleftrightarrow> b ! 8 = 45" "?l 13 = 45 \<longleftrightarrow> b ! 13 = 45" "?l 18 = 45 \<longleftrightarrow> b ! 18 = 45" "?l 23 = 45 \<longleftrightarrow> b ! 23 = 45"
    by (simp_all add: lower_dash)
  moreover have U: "map hex_pair u = map hex_pair [u ! 0, u ! 1, u ! 2, u ! 3, u ! 4, u ! 5, u ! 6, u ! 7, u ! 8, u ! 9, u ! 10, u ! 11,
    u ! 12, u ! 13, u ! 14, u ! 15]" using list16_nth [OF assms(2)] by simp
  moreover have "[0..<36] = [0, 1, 2, 3, 4, 5, 6, 7, 8, 9, 10, 11, 12, 13, 14, 15, 16, 17, 18, 19, 20, 21, 22, 23, 24, 25, 26, 27, 28, 29,
     30, 31, 32, 33, 34, 35]" by (simp add: upt_rec)
  ultimately show ?thesis
    unfolding hex_loop_iff L U EncodeHex_def hex_pair_def
    by (simp only: list.map append.simps list.inject simp_thms arith_simps numeral_plus_one) blast
qed


lemma hex_loop_length: "hex_loop b offs = Some u \<Longrightarrow> length u = length offs"
  unfolding hex_loop_iff by (drule arg_cong [where f = length]) simp

lemma digits: "\<forall>n \<in> set [0..<16]. archtimeHexChars ! n \<noteq> 117 \<and> archtimeHexChars ! n \<noteq> 123 \<and> archtimeHexChars ! n \<noteq> 45 \<and> lower (archtimeHexChars ! n) = archtimeHexChars ! n"
  by code_simp

lemma hex_pair_digits: "c \<in> set (hex_pair x) \<Longrightarrow> c \<noteq> 117 \<and> c \<noteq> 123 \<and> c \<noteq> 45 \<and> lower c = c"
  using digits nibbles(2,3) [of x] by (auto simp: hex_pair_def)

lemma EncodeHex_lower: "map lower (EncodeHex u) = EncodeHex u"
proof (rule map_idI)
  fix c assume "c \<in> set (EncodeHex u)"
  then consider "c = 45" | x where "c \<in> set (hex_pair x)" unfolding EncodeHex_def by auto
  then show "lower c = c" by cases (use hex_pair_digits lower_dash in auto)
qed

lemma EncodeHex_first: "EncodeHex u ! 0 \<noteq> 117" "EncodeHex u ! 0 \<noteq> 123"
  using hex_pair_digits [of "hex_pair (u ! 0) ! 0" "u ! 0"] by (simp_all add: EncodeHex_def hex_pair_def)

lemma urn_prefix: "take 9 b = bytes_of ''urn:uuid:'' \<Longrightarrow> b ! 0 = 117"
proof -
  assume "take 9 b = bytes_of ''urn:uuid:''"
  then have "take 9 b ! 0 = bytes_of ''urn:uuid:'' ! 0" by simp
  then show ?thesis by (simp add: bytes_of_def)
qed

lemma ParseBytes_36:
  assumes "length b = 36"
  shows "ParseBytes b = Some u \<longleftrightarrow> length u = 16 \<and> map lower b = EncodeHex u"
proof (cases "take 9 b = bytes_of ''urn:uuid:''")
  case True
  have "lower 117 = 117" by (simp add: lower_def)
  then have "map lower b \<noteq> EncodeHex u" using urn_prefix [OF True] EncodeHex_first(1) [of u] assms by (metis nth_map zero_less_numeral)
  then show ?thesis using True assms by (simp add: ParseBytes_def)
next
  case False
  have "length u = 16" if "hex_loop b [0, 2, 4, 6, 9, 11, 14, 16, 19, 21, 24, 26, 28, 30, 32, 34] = Some u"
    using hex_loop_length [OF that] by simp
  then show ?thesis using False assms canonical_iff [OF assms, of u] by (auto simp: ParseBytes_def)
qed

lemma ParseBytes_urn: "length b = 36 \<Longrightarrow> b ! 0 \<noteq> 117 \<Longrightarrow> ParseBytes (bytes_of ''urn:uuid:'' @ b) = ParseBytes b"
  using urn_prefix [of b] by (auto simp: ParseBytes_def bytes_of_def)

lemma ParseBytes_brace: "length b = 36 \<Longrightarrow> b ! 0 \<noteq> 117 \<Longrightarrow> ParseBytes (123 # b @ [125]) = ParseBytes b"
  using urn_prefix [of b] urn_prefix [of "123 # b @ [125]"] by (auto simp: ParseBytes_def nth_append bslice_def)

lemma hex_pairs_nth:
  "i < length u \<Longrightarrow> concat (map hex_pair u) ! (2 * i) = hex_pair (u ! i) ! 0 \<and> concat (map hex_pair u) ! (2 * i + 1) = hex_pair (u ! i) ! 1"
proof (induction u arbitrary: i)
  case (Cons x u)
  then show ?case by (cases i) (auto simp: nth_append hex_pair_two)
qed simp

lemma hex_pairs_length: "length (concat (map hex_pair u)) = 2 * length u"
  by (induction u) (simp_all add: hex_pair_two)

lemma ParseBytes_compact:
  assumes "length u = 16" shows "ParseBytes (concat (map hex_pair u)) = Some u"
proof -
  let ?b = "concat (map hex_pair u)"
  have l: "length ?b = 32" using assms by (simp add: hex_pairs_length)
  have lo: "lower (hex_pair x ! 0) = hex_pair x ! 0" "lower (hex_pair x ! 1) = hex_pair x ! 1" for x
    using hex_pair_digits [of _ x] by (simp_all add: hex_pair_def)
  have "map (\<lambda>off. [lower (?b ! off), lower (?b ! (off + 1))]) (map (\<lambda>i. i * 2) [0..<16]) = map hex_pair u"
  proof (rule nth_equalityI)
    fix i assume "i < length (map (\<lambda>off. [lower (?b ! off), lower (?b ! (off + 1))]) (map (\<lambda>i. i * 2) [0..<16]))"
    then have i: "i < length u" using assms by simp
    then have "map (\<lambda>off. [lower (?b ! off), lower (?b ! (off + 1))]) (map (\<lambda>i. i * 2) [0..<16]) ! i = [lower (?b ! (2 * i)), lower (?b ! (2 * i + 1))]"
      using assms by (simp add: mult.commute)
    also have "\<dots> = hex_pair (u ! i)" using hex_pairs_nth [OF i] lo by (simp add: hex_pair_def)
    finally show "map (\<lambda>off. [lower (?b ! off), lower (?b ! (off + 1))]) (map (\<lambda>i. i * 2) [0..<16]) ! i = map hex_pair u ! i"
      using i by simp
  qed (use assms in simp)
  then have h: "hex_loop ?b (map (\<lambda>i. i * 2) [0..<16]) = Some u" unfolding hex_loop_iff .
  have "?b ! 0 = hex_pair (u ! 0) ! 0" using hex_pairs_nth [of 0 u] assms by simp
  then have "?b ! 0 \<noteq> 117" using hex_pair_digits [of "hex_pair (u ! 0) ! 0" "u ! 0"] by (simp add: hex_pair_def)
  then show ?thesis using urn_prefix [of ?b] l h by (auto simp: ParseBytes_def)
qed

text \<open>Every identifier survives its text: parsing the canonical 36 characters of an identifier, with or
  without the URN prefix or braces, and the 32 compact digits, gives it back.
\<close>
theorem Parse_String:
  assumes "length u = 16"
  shows "Parse (String_UUID u) = Some u \<and> Parse (bytes_of ''urn:uuid:'' @ String_UUID u) = Some u \<and>
    Parse (123 # String_UUID u @ [125]) = Some u \<and> Parse (concat (map hex_pair u)) = Some u"
proof -
  have "ParseBytes (EncodeHex u) = Some u" using ParseBytes_36 [OF EncodeHex_length] assms EncodeHex_lower by blast
  then show ?thesis
    using ParseBytes_urn [OF EncodeHex_length EncodeHex_first(1)] ParseBytes_brace [OF EncodeHex_length EncodeHex_first(1)]
      ParseBytes_compact [OF assms] by (simp add: Parse_def String_UUID_def)
qed

theorem Parse_String_witness: "Parse (String_UUID (Compose 1700000000123456789 42)) = Some (Compose 1700000000123456789 42)"
  using Parse_String [of "Compose 1700000000123456789 42"] by (simp add: Compose_def Let_def)

text \<open>
  The strict parser accepts exactly the canonical text, up to the case of its digits, of identifiers
  of version 7 and the RFC variant, and returns that identifier.
\<close>
theorem ParseV7_canonical:
  "ParseV7 s = Some u \<longleftrightarrow> length u = 16 \<and> map lower s = String_UUID u \<and> IsV7 u"
proof (cases "length s = 36")
  case True
  then have "ParseV7 s = Some u \<longleftrightarrow> ParseBytes s = Some u \<and> IsV7 u"
    by (auto simp: ParseV7_def Parse_def split: option.splits if_splits)
  then show ?thesis unfolding ParseBytes_36 [OF True] String_UUID_def by blast
next
  case False
  then have "map lower s \<noteq> EncodeHex u" using EncodeHex_length [of u] by (metis length_map)
  then show ?thesis using False by (simp add: ParseV7_def String_UUID_def)
qed

end
