(* ===== verification/Record_Id.thy ===== *)
theory Record_Id
  imports Uuid
begin

text \<open>
  The order of identifiers: an identifier read as a big-endian number, the strict growth of the
  generator's output under every interleaving of its lock-free loop, and the fields of a record
  identifier.
\<close>

section \<open>Identifiers as numbers\<close>

definition be_nat :: "bytes \<Rightarrow> nat" where
  "be_nat u = le_nat (rev u)"

lemma be_nat_Cons: "be_nat (x # xs) = unat x * 256 ^ length xs + be_nat xs"
  by (simp add: be_nat_def le_nat_append)

lemma be_nat_bound: "be_nat xs < 256 ^ length xs"
  using le_nat_bound [of "rev xs"] by (simp add: be_nat_def)

lemma Compare_be_nat:
  "length u = length v \<Longrightarrow> Compare u v = (if be_nat u < be_nat v then -1 else if be_nat u > be_nat v then 1 else 0)"
proof (induction u v rule: list_induct2)
  case (Cons x xs y ys)
  have b: "be_nat xs < 256 ^ length xs" "be_nat ys < 256 ^ length xs" using be_nat_bound Cons.hyps by metis+
  consider "unat x < unat y" | "unat x > unat y" | "x = y" by (metis linorder_neqE_nat unsigned_word_eqI)
  then show ?case
  proof cases
    case 1
    then have "(unat x + 1) * 256 ^ length xs \<le> unat y * 256 ^ length xs" by (intro mult_le_mono1) simp
    then have "be_nat (x # xs) < be_nat (y # ys)" using b Cons.hyps by (simp add: be_nat_Cons)
    then show ?thesis using 1 by (simp add: word_less_nat_alt)
  next
    case 2
    then have "(unat y + 1) * 256 ^ length xs \<le> unat x * 256 ^ length xs" by (intro mult_le_mono1) simp
    then have "be_nat (x # xs) > be_nat (y # ys)" using b Cons.hyps by (simp add: be_nat_Cons)
    then show ?thesis using 2 by (simp add: word_less_nat_alt)
  next
    case 3 then show ?thesis using Cons by (simp add: be_nat_Cons)
  qed
qed (simp add: be_nat_def)

lemma le_nat_to_le_mod:
  assumes "8 * n \<le> LENGTH('a::len)" shows "le_nat (to_le n (v :: 'a word)) = unat v mod 2 ^ (8 * n)"
proof -
  have "le_nat (to_le n v) = unat (of_le (to_le n v) :: 'a word)" using unat_of_le [where ?'a = 'a, of "to_le n v"] assms by simp
  then show ?thesis unfolding of_le_to_le
    by (simp only: unsigned_take_bit_eq [where ?'a = nat]) (simp add: take_bit_eq_mod)
qed

text \<open>The sixteen bytes both constructors lay out: 48 and 12 bits of time, 62 bits of the rest.\<close>

definition v7_layout :: "u64 \<Rightarrow> u32 \<Rightarrow> u64 \<Rightarrow> UUID" where
  "v7_layout ms sub r =
     [ucast (drop_bit 40 ms AND 0xff), ucast (drop_bit 32 ms AND 0xff), ucast (drop_bit 24 ms AND 0xff),
      ucast (drop_bit 16 ms AND 0xff), ucast (drop_bit 8 ms AND 0xff), ucast (ms AND 0xff),
      ucast (0x70 OR (drop_bit 8 sub AND 0x0F)), ucast (sub AND 0xff),
      ucast (0x80 OR (drop_bit 56 r AND 0x3F)), ucast (drop_bit 48 r AND 0xff),
      ucast (drop_bit 40 r AND 0xff), ucast (drop_bit 32 r AND 0xff),
      ucast (drop_bit 24 r AND 0xff), ucast (drop_bit 16 r AND 0xff),
      ucast (drop_bit 8 r AND 0xff), ucast (r AND 0xff)]"

lemma Compose_layout:
  "Compose tsNs r = v7_layout (tsNs div 1000000) ((ucast (tsNs mod 1000000) * 4096) div 1000000) r"
  by (simp add: Compose_def v7_layout_def Let_def)

lemma v7_bytes_layout: "v7_bytes cur r = v7_layout (drop_bit 12 cur) (ucast (cur AND 0x0FFF)) r"
  by (simp add: v7_bytes_def v7_layout_def Let_def)

lemma v7_layout_le:
  "v7_layout ms sub r = rev (to_le 6 ms) @ [ucast (0x70 OR (drop_bit 8 sub AND 0x0F)), ucast sub,
     ucast (0x80 OR (drop_bit 56 r AND 0x3F))] @ rev (to_le 7 r)"
  by (simp add: v7_layout_def eval_nat_numeral)

lemma v7_layout_length [simp]: "length (v7_layout ms sub r) = 16"
  by (simp add: v7_layout_def)

lemma version_byte: "unat (ucast (0x70 OR (drop_bit 8 sub AND 0x0F) :: u32) :: byte) = 112 + unat sub div 256 mod 16"
proof -
  have m: "(0x0F :: u32) = mask 4" by (simp add: mask_eq_exp_minus_1)
  have n: "unat (drop_bit 8 sub AND 0x0F) = unat sub div 256 mod 16"
    unfolding m take_bit_eq_mask [symmetric] unsigned_take_bit_eq [where ?'a = nat] unsigned_drop_bit_eq [where ?'a = nat]
    using unsigned_less [of sub, where ?'a = nat] by (simp add: take_bit_eq_mod drop_bit_eq_div)
  have "0x70 OR (drop_bit 8 sub AND 0x0F) = 0x70 + (drop_bit 8 sub AND 0x0F)"
  proof (rule disjunctive_add_eq_or [symmetric])
    show "0x70 AND (drop_bit 8 sub AND 0x0F) = (0 :: u32)" by (subst and.left_commute) simp
  qed
  moreover have "unat (0x70 + (drop_bit 8 sub AND 0x0F) :: u32) = 112 + unat sub div 256 mod 16"
    using n by (simp add: unat_word_ariths)
  ultimately show ?thesis by (simp add: unsigned_ucast_eq take_bit_eq_mod)
qed

lemma variant_byte: "unat (ucast (0x80 OR (drop_bit 56 r AND 0x3F) :: u64) :: byte) = 128 + unat r div 2 ^ 56 mod 64"
proof -
  have m: "(0x3F :: u64) = mask 6" by (simp add: mask_eq_exp_minus_1)
  have n: "unat (drop_bit 56 r AND 0x3F) = unat r div 2 ^ 56 mod 64"
    unfolding m take_bit_eq_mask [symmetric] unsigned_take_bit_eq [where ?'a = nat] unsigned_drop_bit_eq [where ?'a = nat]
    using unsigned_less [of r, where ?'a = nat] by (simp add: take_bit_eq_mod drop_bit_eq_div)
  have "0x80 OR (drop_bit 56 r AND 0x3F) = 0x80 + (drop_bit 56 r AND 0x3F)"
  proof (rule disjunctive_add_eq_or [symmetric])
    show "0x80 AND (drop_bit 56 r AND 0x3F) = (0 :: u64)" by (subst and.left_commute) simp
  qed
  moreover have "unat (0x80 + (drop_bit 56 r AND 0x3F) :: u64) = 128 + unat r div 2 ^ 56 mod 64"
    using n by (simp add: unat_word_ariths)
  ultimately show ?thesis by (simp add: unsigned_ucast_eq take_bit_eq_mod)
qed

lemma be_nat_layout:
  assumes "unat sub < 4096"
  shows "be_nat (v7_layout ms sub r) = (unat ms mod 2 ^ 48) * 2 ^ 80 + 7 * 2 ^ 76 + unat sub * 2 ^ 64 + 2 ^ 63 + unat r mod 2 ^ 62"
proof -
  have a: "le_nat (to_le 6 ms) = unat ms mod 2 ^ 48" "le_nat (to_le 7 r) = unat r mod 2 ^ 56" by (simp_all add: le_nat_to_le_mod)
  have s: "unat sub div 256 mod 16 = unat sub div 256" using assms by simp
  have b: "unat (ucast sub :: byte) = unat sub mod 256" by (simp add: unsigned_ucast_eq take_bit_eq_mod)
  have r: "unat r mod 2 ^ 62 = (unat r div 2 ^ 56 mod 64) * 2 ^ 56 + unat r mod 2 ^ 56"
    using mod_mult2_eq [of "unat r" "2 ^ 56" 64] by simp
  define q m where "q = unat sub div 256" and "m = unat sub mod 256"
  have sub: "unat sub = q * 256 + m" by (simp add: q_def m_def)
  have s': "unat sub div 256 mod 16 = q" and b': "unat (ucast sub :: byte) = m" using s b by (simp_all add: q_def m_def)
  have "be_nat (v7_layout ms sub r) = unat r mod 2 ^ 56 + 2 ^ 56 * (128 + unat r div 2 ^ 56 mod 64) +
     2 ^ 64 * m + 2 ^ 72 * (112 + q) + 2 ^ 80 * (unat ms mod 2 ^ 48)"
    unfolding v7_layout_le be_nat_def by (simp add: le_nat_append a b' s' version_byte variant_byte)
  also have "\<dots> = (unat ms mod 2 ^ 48) * 2 ^ 80 + 7 * 2 ^ 76 + (q * 256 + m) * 2 ^ 64 + 2 ^ 63 +
      ((unat r div 2 ^ 56 mod 64) * 2 ^ 56 + unat r mod 2 ^ 56)"
    by (simp add: algebra_simps)
  finally show ?thesis unfolding r [symmetric] sub [symmetric] .
qed


section \<open>Order of composed identifiers\<close>

definition sub_ms :: "u64 \<Rightarrow> nat" where
  "sub_ms ts = (unat ts mod 1000000) * 4096 div 1000000"

lemma sub_ms_less: "sub_ms ts < 4096"
proof -
  have "unat ts mod 1000000 * 4096 < 4096 * 1000000" by simp
  then show ?thesis unfolding sub_ms_def by (simp only: div_less_iff_less_mult)
qed

lemma Compose_sub: "unat ((ucast (ts mod 1000000 :: u64) * 4096 :: u32) div 1000000) = sub_ms ts"
proof -
  have m: "unat (ts mod 1000000) = unat ts mod 1000000" by (simp add: unat_mod)
  have "unat ts mod 1000000 < 1000000" by simp
  then have u: "unat (ucast (ts mod 1000000) :: u32) = unat ts mod 1000000" using m by (simp add: unsigned_ucast_eq take_bit_eq_mod)
  have "unat (ucast (ts mod 1000000) * 4096 :: u32) = unat ts mod 1000000 * 4096"
    using u \<open>unat ts mod 1000000 < 1000000\<close> by (simp add: unat_word_ariths)
  then show ?thesis by (simp add: unat_div sub_ms_def)
qed

lemma ms_less: "unat (ts div 1000000 :: u64) = unat ts div 1000000" "unat ts div 1000000 < 2 ^ 48"
  using unsigned_less [of ts, where ?'a = nat] by (simp_all add: unat_div)

lemma be_nat_Compose:
  "be_nat (Compose ts r) = (unat ts div 1000000) * 2 ^ 80 + 7 * 2 ^ 76 + sub_ms ts * 2 ^ 64 + 2 ^ 63 + unat r mod 2 ^ 62"
  unfolding Compose_layout using be_nat_layout [of "(ucast (ts mod 1000000) * 4096 :: u32) div 1000000" "ts div 1000000" r]
  by (simp only: Compose_sub sub_ms_less ms_less(1)) (simp add: ms_less(2) [simplified])

definition id_before :: "u64 \<Rightarrow> u64 \<Rightarrow> u64 \<Rightarrow> u64 \<Rightarrow> bool" where
  "id_before t1 r1 t2 r2 \<longleftrightarrow> unat t1 div 1000000 < unat t2 div 1000000 \<or>
     unat t1 div 1000000 = unat t2 div 1000000 \<and> (sub_ms t1 < sub_ms t2 \<or> sub_ms t1 = sub_ms t2 \<and> unat r1 mod 2 ^ 62 < unat r2 mod 2 ^ 62)"

lemma v7_lex:
  fixes a b c a' b' c' :: nat
  assumes "b < 4096" "b' < 4096" "c < 2 ^ 62" "c' < 2 ^ 62"
  shows "a * 2 ^ 80 + 7 * 2 ^ 76 + b * 2 ^ 64 + 2 ^ 63 + c < a' * 2 ^ 80 + 7 * 2 ^ 76 + b' * 2 ^ 64 + 2 ^ 63 + c' \<longleftrightarrow>
      a < a' \<or> a = a' \<and> (b < b' \<or> b = b' \<and> c < c')"
  using assms by (cases a a' rule: linorder_cases; cases b b' rule: linorder_cases) simp_all

lemma id_before_be: "id_before t1 r1 t2 r2 \<longleftrightarrow> be_nat (Compose t1 r1) < be_nat (Compose t2 r2)"
  unfolding id_before_def be_nat_Compose by (rule v7_lex [symmetric]) (simp_all add: sub_ms_less)

text \<open>
  Identifiers sort by time, then by their 62 low bits: comparing two composed identifiers is comparing
  the millisecond, then the 4096th of the millisecond, then the rest.
\<close>
theorem Compare_Compose:
  "Compare (Compose t1 r1) (Compose t2 r2) =
     (if id_before t1 r1 t2 r2 then -1 else if id_before t2 r2 t1 r1 then 1 else 0)"
  unfolding id_before_be by (rule Compare_be_nat) (simp add: Compose_layout)

section \<open>The generator\<close>

lemma be_nat_v7:
  assumes "unat c < 2 ^ 60"
  shows "be_nat (v7_bytes c r) = (unat c div 4096) * 2 ^ 80 + 7 * 2 ^ 76 + (unat c mod 4096) * 2 ^ 64 + 2 ^ 63 + unat r mod 2 ^ 62"
proof -
  have m: "(0x0FFF :: u64) = mask 12" by (simp add: mask_eq_exp_minus_1)
  have a: "unat (c AND 0x0FFF) = unat c mod 4096"
    unfolding m take_bit_eq_mask [symmetric] unsigned_take_bit_eq [where ?'a = nat] by (simp add: take_bit_eq_mod)
  then have s: "unat (ucast (c AND 0x0FFF) :: u32) = unat c mod 4096"
    by (simp add: unsigned_ucast_eq take_bit_nat_eq_self)
  have d: "unat (drop_bit 12 c) = unat c div 4096"
    unfolding unsigned_drop_bit_eq [where ?'a = nat] using unsigned_less [of c, where ?'a = nat] by (simp add: take_bit_nat_eq_self drop_bit_eq_div)
  have "unat c div 4096 < 2 ^ 48" using assms by simp
  then show ?thesis unfolding v7_bytes_layout using be_nat_layout [of "ucast (c AND 0x0FFF)" "drop_bit 12 c" r] s d by simp
qed

lemma v7_mono:
  assumes "unat c < unat d" "unat d < 2 ^ 60"
  shows "Compare (v7_bytes c r) (v7_bytes d q) = -1"
proof -
  have "unat c div 4096 \<le> unat d div 4096" using assms(1) by (intro div_le_mono) simp
  then have "unat c div 4096 < unat d div 4096 \<or> unat c div 4096 = unat d div 4096 \<and> unat c mod 4096 < unat d mod 4096"
    using assms(1) by (metis div_mult_mod_eq le_neq_implies_less nat_add_left_cancel_less)
  then have "be_nat (v7_bytes c r) < be_nat (v7_bytes d q)"
    using assms be_nat_v7 [of c r] be_nat_v7 [of d q]
      v7_lex [of "unat c mod 4096" "unat d mod 4096" "unat r mod 2 ^ 62" "unat q mod 2 ^ 62" "unat c div 4096" "unat d div 4096"] by auto
  then show ?thesis by (subst Compare_be_nat) (simp_all add: v7_bytes_layout)
qed

text \<open>
  A history of the generator: every entry is one turn of the loop of some thread, with the clock reading,
  the value its load returned (current or stale) and the random bits it uses if its exchange succeeds.
\<close>

fun v7_run :: "generator \<Rightarrow> (u64 \<times> u64 \<times> u64) list \<Rightarrow> UUID list" where
  "v7_run g [] = []"
| "v7_run g ((timestamp, prev, rnd) # xs) =
     (case v7_attempt timestamp prev g of
        (Some cur, g) \<Rightarrow> v7_bytes cur rnd # v7_run g xs
      | (None, g) \<Rightarrow> v7_run g xs)"

lemma attempt_cases:
  assumes "unat (gUUIDLastTimestamp g) \<le> m" "unat ts \<le> m" "m + 1 < 2 ^ 60"
  obtains "v7_attempt ts p g = (None, g)"
  | c where "v7_attempt ts p g = (Some c, g\<lparr>gUUIDLastTimestamp := c\<rparr>)" "unat (gUUIDLastTimestamp g) < unat c" "unat c \<le> m + 1"
proof (cases "gUUIDLastTimestamp g = p")
  case True
  have "unat (p + 1) = unat p + 1" using True assms by (subst unat_add_lem [THEN iffD1]) simp_all
  then show ?thesis using that(2) True assms by (auto simp: v7_attempt_def Let_def word_le_nat_alt)
qed (use that(1) in \<open>simp add: v7_attempt_def\<close>)

lemma v7_run_later:
  "unat (gUUIDLastTimestamp g) \<le> m \<Longrightarrow> \<forall>x \<in> set xs. unat (fst x) \<le> m \<Longrightarrow> m + length xs < 2 ^ 60 \<Longrightarrow>
   sorted_wrt (\<lambda>u v. Compare u v = -1) (v7_run g xs) \<and>
   (\<forall>u \<in> set (v7_run g xs). \<exists>c r. u = v7_bytes c r \<and> unat (gUUIDLastTimestamp g) < unat c \<and> unat c < 2 ^ 60)"
proof (induction xs arbitrary: g m)
  case (Cons x xs)
  obtain ts p r where x: "x = (ts, p, r)" by (cases x) auto
  have b: "unat ts \<le> m" "m + 1 < 2 ^ 60" using Cons.prems x by auto
  show ?case
  proof (rule attempt_cases [OF Cons.prems(1) b, of p])
    assume "v7_attempt ts p g = (None, g)"
    then show ?thesis using Cons.IH [OF Cons.prems(1)] Cons.prems x by simp
  next
    fix c assume c: "v7_attempt ts p g = (Some c, g\<lparr>gUUIDLastTimestamp := c\<rparr>)" "unat (gUUIDLastTimestamp g) < unat c" "unat c \<le> m + 1"
    let ?g = "g\<lparr>gUUIDLastTimestamp := c\<rparr>"
    have "\<forall>x \<in> set xs. unat (fst x) \<le> m + 1" using Cons.prems(2) by fastforce
    then have ih: "sorted_wrt (\<lambda>u v. Compare u v = -1) (v7_run ?g xs)"
        "\<forall>u \<in> set (v7_run ?g xs). \<exists>d q. u = v7_bytes d q \<and> unat c < unat d \<and> unat d < 2 ^ 60"
      using Cons.IH [of ?g "m + 1"] c(3) Cons.prems(3) by fastforce+
    have "\<forall>u \<in> set (v7_run ?g xs). Compare (v7_bytes c r) u = -1" using ih(2) v7_mono by metis
    moreover have "\<forall>u \<in> set (v7_run ?g xs). \<exists>d q. u = v7_bytes d q \<and> unat (gUUIDLastTimestamp g) < unat d \<and> unat d < 2 ^ 60"
      using ih(2) c(2) by (meson less_trans)
    moreover have "unat c < 2 ^ 60" using c(3) b(2) by simp
    ultimately show ?thesis using ih(1) c(1,2) x by auto
  qed
qed simp

text \<open>
  C12. The lock-free generator never repeats and never goes back: over any interleaving of the turns of
  its loop by any number of threads, with any clock readings (a clock that stands still or goes
  backwards included), stale loads and any random bits, the identifiers come out in strictly
  increasing order, as long as the 60-bit time does not overflow.
\<close>
theorem v7_strictly_increasing:
  assumes "unat (gUUIDLastTimestamp g) + length xs < 2 ^ 60" "\<forall>x \<in> set xs. unat (fst x) + length xs < 2 ^ 60"
  shows "sorted_wrt (\<lambda>u v. Compare u v = -1) (v7_run g xs)"
proof -
  let ?m = "2 ^ 60 - 1 - length xs"
  have "unat (gUUIDLastTimestamp g) \<le> ?m" "\<forall>x \<in> set xs. unat (fst x) \<le> ?m" "?m + length xs < 2 ^ 60"
    using assms by auto
  then show ?thesis using v7_run_later by blast
qed

theorem v7_strictly_increasing_witness:
  "let us = v7_run \<lparr>gUUIDLastTimestamp = 0, gUUIDPRNGState = 0\<rparr> [(5, 0, 9), (5, 0, 3), (5, 5, 1), (2, 6, 0)]
   in length us = 3 \<and> sorted_wrt (\<lambda>u v. Compare u v = -1) us"
  using v7_strictly_increasing [of "\<lparr>gUUIDLastTimestamp = 0, gUUIDPRNGState = 0\<rparr>" "[(5, 0, 9), (5, 0, 3), (5, 5, 1), (2, 6, 0)]"]
  by (simp add: v7_attempt_def Let_def)


section \<open>Record identifiers\<close>

lemma list16_layout:
  "v7_layout ms sub r ! 0 = ucast (drop_bit 40 ms)" "v7_layout ms sub r ! 1 = ucast (drop_bit 32 ms)"
  "v7_layout ms sub r ! 2 = ucast (drop_bit 24 ms)" "v7_layout ms sub r ! 3 = ucast (drop_bit 16 ms)"
  "v7_layout ms sub r ! 4 = ucast (drop_bit 8 ms)" "v7_layout ms sub r ! 5 = ucast ms"
  "v7_layout ms sub r ! 6 = ucast (0x70 OR (drop_bit 8 sub AND 0x0F))"
  "v7_layout ms sub r ! 8 = ucast (0x80 OR (drop_bit 56 r AND 0x3F))"
  "v7_layout ms sub r ! 9 = ucast (drop_bit 48 r)" "v7_layout ms sub r ! 10 = ucast (drop_bit 40 r)"
  "v7_layout ms sub r ! 11 = ucast (drop_bit 32 r)" "v7_layout ms sub r ! 12 = ucast (drop_bit 24 r)"
  "v7_layout ms sub r ! 13 = ucast (drop_bit 16 r)" "v7_layout ms sub r ! 14 = ucast (drop_bit 8 r)"
  "v7_layout ms sub r ! 15 = ucast r"
  by (simp_all add: v7_layout_def)

lemma to_le_6: "to_le 6 v = [ucast v, ucast (drop_bit 8 v), ucast (drop_bit 16 v), ucast (drop_bit 24 v), ucast (drop_bit 32 v), ucast (drop_bit 40 v)]"
  by (simp add: eval_nat_numeral)

lemma to_le_8: "to_le 8 v = [ucast v, ucast (drop_bit 8 v), ucast (drop_bit 16 v), ucast (drop_bit 24 v), ucast (drop_bit 32 v),
    ucast (drop_bit 40 v), ucast (drop_bit 48 v), ucast (drop_bit 56 v)]"
  by (simp add: eval_nat_numeral)

lemma TimestampMs_layout: "TimestampMs (v7_layout ms sub r) = take_bit 48 ms"
proof -
  let ?u = "v7_layout ms sub r"
  have "TimestampMs ?u = of_le [?u ! 5, ?u ! 4, ?u ! 3, ?u ! 2, ?u ! 1, ?u ! 0]"
    by (simp add: TimestampMs_def push_bit_or ac_simps)
  also have "[?u ! 5, ?u ! 4, ?u ! 3, ?u ! 2, ?u ! 1, ?u ! 0] = to_le 6 ms"
    by (simp only: list16_layout to_le_6)
  finally show ?thesis by (simp add: of_le_to_le)
qed

lemma overlay62_layout: "overlay62 (v7_layout ms sub r) = take_bit 62 r"
proof -
  let ?u = "v7_layout ms sub r"
  have "overlay62 ?u = of_le [?u ! 15, ?u ! 14, ?u ! 13, ?u ! 12, ?u ! 11, ?u ! 10, ?u ! 9, ?u ! 8 AND 0x3F]"
    by (simp add: overlay62_def push_bit_or ac_simps)
  also have "[?u ! 15, ?u ! 14, ?u ! 13, ?u ! 12, ?u ! 11, ?u ! 10, ?u ! 9, ?u ! 8 AND 0x3F] = to_le 8 (take_bit 62 r)"
  proof -
    have m: "(0x3F :: byte) = mask 6" "(0x3F :: u64) = mask 6" by (simp_all add: mask_eq_exp_minus_1)
    have b: "n < 6 \<Longrightarrow> \<not> bit (0x80 :: u64) n" for n using bit_push_bit_iff [of 7 "1 :: u64" n] by simp
    have "ucast (0x80 OR (drop_bit 56 r AND 0x3F)) AND 0x3F = (ucast (drop_bit 56 (take_bit 62 r)) :: byte)"
      unfolding m by (rule bit_word_eqI) (auto simp: bit_simps dest: b)
    moreover have "ucast (drop_bit k (take_bit 62 r)) = (ucast (drop_bit k r) :: byte)" if "k \<le> 48" for k
      using that by (intro bit_word_eqI) (auto simp: bit_simps)
    moreover have "ucast (take_bit 62 r) = (ucast r :: byte)" by (rule bit_word_eqI) (auto simp: bit_simps)
    ultimately show ?thesis by (simp add: list16_layout to_le_8)
  qed
  finally show ?thesis by (simp add: of_le_to_le take_bit_word_eq_self)
qed

lemma IsV7_layout: "IsV7 (v7_layout ms sub r)"
proof -
  have "Version (v7_layout ms sub r) = (112 + unat sub div 256 mod 16) div 16"
    unfolding Version_def list16_layout unsigned_drop_bit_eq [where ?'a = nat] version_byte
    by (simp add: take_bit_eq_mod drop_bit_eq_div)
  also have "\<dots> = 7" by (simp add: div_add1_eq)
  finally have v: "Version (v7_layout ms sub r) = 7" .
  have "\<forall>b :: byte. 128 \<le> unat b \<and> unat b < 192 \<longrightarrow> b AND 0x80 \<noteq> 0 \<and> b AND 0xC0 = 0x80" unfolding all_bytes by code_simp
  moreover have "unat r div 2 ^ 56 mod 64 < 64" by simp
  then have "128 \<le> unat (v7_layout ms sub r ! 8) \<and> unat (v7_layout ms sub r ! 8) < 192"
    unfolding list16_layout variant_byte by linarith
  ultimately show ?thesis using v by (simp add: IsV7_def Variant_def Let_def)
qed

lemma bits_below:
  fixes x :: "'a::len word"
  assumes "x < 2 ^ k" "k < LENGTH('a)" "bit x n" shows "n < k"
proof -
  have "take_bit k x = x" using less_mask_eq [OF assms(1)] by (simp add: take_bit_eq_mask)
  then show ?thesis using assms(3) by (metis bit_take_bit_iff)
qed

lemma id_fields:
  fixes kind coll :: byte and shard :: u16 and counter :: u64
  assumes "kind < 2 ^ 4" "shard < 2 ^ 10"
  defines "s \<equiv> push_bit 58 (ucast kind) OR push_bit 50 (ucast coll) OR push_bit 40 (ucast shard) OR (counter AND (push_bit 40 1 - 1)) :: u64"
  shows "ucast (drop_bit 58 (take_bit 62 s)) = kind" "ucast (drop_bit 50 (take_bit 62 s) AND (256 - 1)) = coll"
    "ucast (drop_bit 40 (take_bit 62 s) AND (1024 - 1)) = shard" "take_bit 62 s AND (push_bit 40 1 - 1) = take_bit 40 counter"
proof -
  have k: "bit kind n \<Longrightarrow> n < 4" for n using bits_below [OF assms(1)] by simp
  have h: "bit shard n \<Longrightarrow> n < 10" for n using bits_below [OF assms(2)] by simp
  have c: "bit coll n \<Longrightarrow> n < 8" for n by (rule byte_bit_less)
  have m: "push_bit 40 1 - 1 = (mask 40 :: u64)" "256 - 1 = (mask 8 :: u64)" "1024 - 1 = (mask 10 :: u64)"
    by (simp_all add: mask_eq_exp_minus_1 push_bit_eq_mult)
  show "ucast (drop_bit 58 (take_bit 62 s)) = kind"
    unfolding s_def m by (rule bit_word_eqI) (auto simp: bit_simps dest: k h c)
  show "ucast (drop_bit 50 (take_bit 62 s) AND (256 - 1)) = coll"
    unfolding s_def m by (rule bit_word_eqI) (auto simp: bit_simps dest: k h c)
  show "ucast (drop_bit 40 (take_bit 62 s) AND (1024 - 1)) = shard"
    unfolding s_def m by (rule bit_word_eqI) (auto simp: bit_simps dest: k h c)
  show "take_bit 62 s AND (push_bit 40 1 - 1) = take_bit 40 counter"
    unfolding s_def m by (rule bit_word_eqI) (auto simp: bit_simps dest: k h c)
qed


text \<open>
  C13. The fields of a record identifier: for a shard below 1024 and a kind below 16 the constructor
  returns a version 7 identifier from which the accessors read back kind, collection, shard, the low 40
  bits of the counter and the millisecond; it refuses every other shard and kind.
\<close>
theorem NewIDKind_fields:
  "case NewIDKind tsNs shard counter kind coll of
     Inr u \<Rightarrow> unat shard < 1024 \<and> unat kind < 16 \<and> length u = 16 \<and> IsV7 u \<and> KindOf u = kind \<and> CollOf u = coll \<and> ShardOf u = shard \<and>
       CounterOf u = take_bit 40 counter \<and> TimestampMs u = tsNs div 1000000
   | Inl e \<Rightarrow> (if unat shard \<ge> 1024 then e = BadShard shard else unat kind \<ge> 16 \<and> e = BadKind kind)"
proof (cases "unat shard < 1024 \<and> unat kind < 16")
  case True
  have k: "kind < 2 ^ 4" "shard < 2 ^ 10" using True by (simp_all add: word_less_nat_alt)
  have uk: "unat (ucast kind :: u16) = unat kind" by (rule unat_ucast_byte) simp
  have "take_bit 48 (tsNs div 1000000) = tsNs div 1000000"
    by (rule word_unat_eq_iff [THEN iffD2]) (simp only: unsigned_take_bit_eq [where ?'a = nat] ms_less(1) take_bit_nat_eq_self [OF ms_less(2)])
  then show ?thesis
    using True uk id_fields [OF k, of coll counter]
    by (simp add: NewIDKind_def word_le_nat_alt Compose_layout IsV7_layout KindOf_def CollOf_def ShardOf_def CounterOf_def
        overlay62_layout TimestampMs_layout)
next
  case False
  have uk: "unat (ucast kind :: u16) = unat kind" by (rule unat_ucast_byte) simp
  show ?thesis using False uk by (auto simp: NewIDKind_def word_le_nat_alt)
qed

end
