(* ===== verification/Topo.thy ===== *)
theory Topo
  imports Device_Live Poly1305
begin

text \<open>
  The topology journal of \<^verbatim>\<open>src/pkg/c2db/topo.go\<close>: one artifact per block, sealed with Poly1305 under the
  key of the database, appended at the tip, the tip found on opening as the first block of zeros.
\<close>

section \<open>The journal\<close>

datatype topo_error = TDev dev_error | TFull nat | TBadTag | TPanic

record Artifact =
  a_Kind :: byte
  a_ID :: bytes
  a_Ref :: bytes

record Topo =
  t_open :: bool
  t_dev :: Device
  t_key :: bytes
  t_next :: nat

definition on_tdev :: "(Device, dev_error, 'a) op \<Rightarrow> (Topo, topo_error, 'a) op" where
  "on_tdev m j = (case m (t_dev j) of (r, d) \<Rightarrow>
     ((case r of Inl e \<Rightarrow> Inl (TDev e) | Inr x \<Rightarrow> Inr x), j\<lparr>t_dev := d\<rparr>))"

definition newTopo :: "Device \<Rightarrow> bytes \<Rightarrow> Topo" where
  "newTopo dev key = \<lparr>t_open = True, t_dev = dev, t_key = key, t_next = 0\<rparr>"

definition topo_ready :: "(Topo, topo_error, unit) op" where
  "topo_ready j = (if \<not> t_open j then (Inl (TDev EBADF), j) else on_tdev checkReady j)"

definition sealTopo :: "bytes \<Rightarrow> bytes \<Rightarrow> bytes option" where
  "sealTopo block key = do {
     tag \<leftarrow> Crypto_poly1305 (bslice block 4080 16) (take 4080 block) 4080 key;
     Some (put_at block 4080 tag)
   }"

definition verifyTopo :: "bytes \<Rightarrow> bytes \<Rightarrow> bool option" where
  "verifyTopo block key = do {
     tag \<leftarrow> Crypto_poly1305 (replicate 16 0) (take 4080 block) 4080 key;
     Some (tag = bslice block 4080 16)
   }"

definition topoBlockEmpty :: "bytes \<Rightarrow> bool" where
  "topoBlockEmpty block = list_all (\<lambda>b. b = 0) block"

definition topo_Append :: "Artifact \<Rightarrow> (Topo, topo_error, unit) op" where
  "topo_Append a = op_bind topo_ready (\<lambda>_ j.
     if t_next j \<ge> d_cap (t_dev j) then (Inl (TFull (t_next j)), j)
     else
       let block = replicate 4096 0;
           block = block[0 := a_Kind a];
           block = put_at block 1 (take 16 (a_ID a));
           block = put_at block 17 (take 32 (a_Ref a))
       in case sealTopo block (t_key j) of
            None \<Rightarrow> (Inl TPanic, j)
          | Some block \<Rightarrow> op_bind (on_tdev (dev_Write (t_next j) block True)) (\<lambda>_ j. (Inr (), j\<lparr>t_next := t_next j + 1\<rparr>)) j)"

definition topo_read :: "bytes \<Rightarrow> Artifact" where
  "topo_read block = \<lparr>a_Kind = block ! 0, a_ID = bslice block 1 16, a_Ref = bslice block 17 32\<rparr>"

fun topo_loop :: "nat \<Rightarrow> nat \<Rightarrow> (Topo, topo_error, Artifact list) op" where
  "topo_loop lba 0 = op_ret []"
| "topo_loop lba (Suc k) = op_bind (on_tdev (dev_Read lba 4096 True)) (\<lambda>block j.
     case verifyTopo block (t_key j) of
       None \<Rightarrow> (Inl TPanic, j)
     | Some False \<Rightarrow> (Inl TBadTag, j)
     | Some True \<Rightarrow> op_bind (topo_loop (Suc lba) k) (\<lambda>out. op_ret (topo_read block # out)) j)"

definition topo_Replay :: "(Topo, topo_error, Artifact list) op" where
  "topo_Replay = op_bind topo_ready (\<lambda>_ j. topo_loop 0 (t_next j) j)"

definition topo_Flush :: "(Topo, topo_error, unit) op" where
  "topo_Flush = op_bind topo_ready (\<lambda>_. on_tdev dev_Flush)"

definition topo_Close :: "(Topo, topo_error, unit) op" where
  "topo_Close = op_bind topo_ready (\<lambda>_ j. case on_tdev dev_Close j of (r, j) \<Rightarrow> (r, j\<lparr>t_open := False\<rparr>))"

fun topo_scan :: "nat \<Rightarrow> nat \<Rightarrow> (Topo, topo_error, unit) op" where
  "topo_scan lba 0 = op_ret ()"
| "topo_scan lba (Suc k) = op_bind (on_tdev (dev_Read lba 4096 True)) (\<lambda>block j.
     if topoBlockEmpty block then (Inr (), j) else topo_scan (Suc lba) k (j\<lparr>t_next := lba + 1\<rparr>))"

definition topo_scanTip :: "(Topo, topo_error, unit) op" where
  "topo_scanTip j = topo_scan 0 (d_cap (t_dev j)) (j\<lparr>t_next := 0\<rparr>)"

definition CreateTopo :: "Device \<Rightarrow> bytes \<Rightarrow> Topo" where
  "CreateTopo dev key = newTopo dev key"

definition OpenTopo :: "Device \<Rightarrow> bytes \<Rightarrow> topo_error + Topo" where
  "OpenTopo dev key = (case topo_scanTip (newTopo dev key) of (Inl e, _) \<Rightarrow> Inl e | (Inr _, j) \<Rightarrow> Inr j)"

section \<open>Sealed artifacts\<close>

definition art_ok :: "Artifact \<Rightarrow> bool" where
  "art_ok a \<longleftrightarrow> length (a_ID a) = 16 \<and> length (a_Ref a) = 32"

definition art_msg :: "Artifact \<Rightarrow> bytes" where
  "art_msg a = a_Kind a # a_ID a @ a_Ref a @ replicate 4031 0"

definition sealed_art :: "bytes \<Rightarrow> Artifact \<Rightarrow> bytes" where
  "sealed_art key a = art_msg a @ rfc_poly1305 key (art_msg a)"

lemma art_msg_length [simp]: "art_ok a \<Longrightarrow> length (art_msg a) = 4080"
  by (simp add: art_msg_def art_ok_def)

lemma sealed_art_length [simp]: "art_ok a \<Longrightarrow> length (sealed_art key a) = 4096"
  by (simp add: sealed_art_def)

lemma put_art:
  assumes "art_ok a"
  shows "put_at (put_at ((replicate 4096 0)[0 := a_Kind a]) 1 (take 16 (a_ID a))) 17 (take 32 (a_Ref a)) = art_msg a @ replicate 16 0"
  using assms
  by (intro nth_equalityI) (auto simp: art_msg_def art_ok_def put_at_nth nth_append nth_Cons' nth_list_update)

lemma sealTopo_art:
  assumes "art_ok a" "length key = 32"
  shows "sealTopo (art_msg a @ replicate 16 0) key = Some (sealed_art key a)"
proof -
  have "put_at (art_msg a @ replicate 16 0) 4080 (rfc_poly1305 key (art_msg a)) = sealed_art key a"
    using assms(1) by (intro nth_equalityI) (auto simp: sealed_art_def put_at_nth nth_append)
  then show ?thesis
    using assms Crypto_poly1305_tag [of key "replicate 16 0" "art_msg a"] by (simp add: sealTopo_def bslice_def put_at_all)
qed

lemma verifyTopo_art:
  assumes "art_ok a" "length key = 32"
  shows "verifyTopo (sealed_art key a) key = Some True"
  using assms Crypto_poly1305_tag [of key "replicate 16 0" "art_msg a"]
  by (simp add: verifyTopo_def sealed_art_def bslice_def put_at_all)

lemma topo_read_art: "art_ok a \<Longrightarrow> topo_read (sealed_art key a) = a"
  by (simp add: topo_read_def sealed_art_def art_msg_def art_ok_def bslice_def)

section \<open>The journal as a list of artifacts\<close>

definition art_nonzero :: "Artifact \<Rightarrow> bool" where
  "art_nonzero a \<longleftrightarrow> \<not> topoBlockEmpty (a_Kind a # a_ID a @ a_Ref a)"

definition topo_rep :: "Topo \<Rightarrow> Artifact list \<Rightarrow> bool" where
  "topo_rep j as \<longleftrightarrow> t_open j \<and> dev_ok (t_dev j) \<and> length (t_key j) = 32 \<and> list_all art_ok as \<and> list_all art_nonzero as \<and>
     t_next j = length as \<and> length as \<le> d_cap (t_dev j) \<and>
     (\<forall>i < length as. blk (t_dev j) i = sealed_art (t_key j) (as ! i)) \<and>
     (\<forall>i. length as \<le> i \<longrightarrow> i < d_cap (t_dev j) \<longrightarrow> blk (t_dev j) i = replicate 4096 0)"

lemma sealed_nonempty: "art_nonzero a \<Longrightarrow> \<not> topoBlockEmpty (sealed_art key a)"
  by (auto simp: art_nonzero_def topoBlockEmpty_def sealed_art_def art_msg_def)

lemma zero_block_empty: "topoBlockEmpty (replicate n 0)"
  by (simp add: topoBlockEmpty_def list_all_iff)

lemma on_tdev_InrE:
  assumes "on_tdev m j = (Inr x, j')"
  obtains d where "m (t_dev j) = (Inr x, d)" "j' = j\<lparr>t_dev := d\<rparr>"
  using assms by (auto simp: on_tdev_def split: prod.splits sum.splits)

lemma topo_ready_Inr: "topo_ready j = (Inr u, j') \<Longrightarrow> j' = j \<and> t_open j"
  by (auto simp: topo_ready_def checkReady_def on_tdev_def split: if_splits prod.splits)

lemma topo_Append_rep:
  assumes rep: "topo_rep j as" and a: "art_ok a" "art_nonzero a" and ap: "topo_Append a j = (Inr u, j')"
  shows "topo_rep j' (as @ [a]) \<and> t_key j' = t_key j"
proof -
  have k: "length (t_key j) = 32" and n: "t_next j = length as" and ok: "dev_ok (t_dev j)" using rep by (auto simp: topo_rep_def)
  obtain d where w: "dev_Write (length as) (sealed_art (t_key j) a) True (t_dev j) = (Inr (), d)"
    and j': "j' = j\<lparr>t_dev := d, t_next := length as + 1\<rparr>"
    using ap n unfolding topo_Append_def
    by (auto elim!: op_bind_InrE on_tdev_InrE dest!: topo_ready_Inr simp: Let_def put_art [OF a(1), simplified] sealTopo_art [OF a(1) k] split: if_splits)
  have l: "length (sealed_art (t_key j) a) = 4096" using a(1) by simp
  have d: "dev_ok d" "blk d = (blk (t_dev j))(length as := sealed_art (t_key j) a)" "d_cap d = d_cap (t_dev j)" "length as < d_cap (t_dev j)"
    using dev.wr_law [OF ok l w] by simp_all
  show ?thesis
    using rep a d j' by (auto simp: topo_rep_def nth_append less_Suc_eq)
qed

lemma topo_loop_live:
  "healthy (t_dev j) \<Longrightarrow> t_open j \<Longrightarrow> length (t_key j) = 32 \<Longrightarrow> list_all art_ok as \<Longrightarrow> lba + length as \<le> d_cap (t_dev j) \<Longrightarrow>
   (\<forall>i < length as. blk (t_dev j) (lba + i) = sealed_art (t_key j) (as ! i)) \<Longrightarrow>
   \<exists>j'. topo_loop lba (length as) j = (Inr as, j')"
proof (induction as arbitrary: lba j)
  case (Cons a as)
  have c: "lba < d_cap (t_dev j)" and b: "blk (t_dev j) lba = sealed_art (t_key j) a" using Cons.prems(5,6) by auto
  obtain d where d: "dev_Read lba 4096 True (t_dev j) = (Inr (sealed_art (t_key j) a), d)" "healthy d"
    using dev_Read_healthy [OF Cons.prems(1) c] b by auto
  have l: "blk d = blk (t_dev j)" "d_cap d = d_cap (t_dev j)"
    using dev.rd_law [OF _ d(1)] Cons.prems(1) by (auto simp: healthy_def)
  let ?j = "j\<lparr>t_dev := d\<rparr>"
  have "\<forall>i < length as. blk d (Suc lba + i) = sealed_art (t_key j) (as ! i)"
    using l(1) Cons.prems(6) [rule_format, of "Suc i" for i] by simp
  then obtain j' where "topo_loop (Suc lba) (length as) ?j = (Inr as, j')"
    using Cons.IH [of ?j "Suc lba"] Cons.prems d(2) l by auto
  then show ?case
    using Cons.prems(3,4) d(1) by (simp add: op_bind_def on_tdev_def verifyTopo_art topo_read_art)
qed simp

lemma topo_Replay_live:
  assumes "topo_rep j as" "healthy (t_dev j)"
  shows "\<exists>j'. topo_Replay j = (Inr as, j')"
proof -
  have "topo_ready j = (Inr (), j)"
    using assms by (simp add: topo_ready_def topo_rep_def on_tdev_def checkReady_def healthy_def)
  then show ?thesis
    using topo_loop_live [of j as 0] assms by (simp add: topo_Replay_def op_bind_def topo_rep_def)
qed

text \<open>Opening finds the tip: the first block of zeros, or the end of the device.\<close>

lemma topo_scan_live:
  "healthy (t_dev j) \<Longrightarrow> list_all art_nonzero (drop lba as) \<Longrightarrow> t_next j = lba \<Longrightarrow> lba \<le> length as \<Longrightarrow> length as \<le> d_cap (t_dev j) \<Longrightarrow>
   k = d_cap (t_dev j) - lba \<Longrightarrow>
   (\<forall>i < length as. blk (t_dev j) i = sealed_art key (as ! i)) \<Longrightarrow>
   (\<forall>i. length as \<le> i \<longrightarrow> i < d_cap (t_dev j) \<longrightarrow> blk (t_dev j) i = replicate 4096 0) \<Longrightarrow>
   \<exists>d. topo_scan lba k j = (Inr (), j\<lparr>t_next := length as, t_dev := d\<rparr>) \<and> healthy d \<and> blk d = blk (t_dev j) \<and> d_cap d = d_cap (t_dev j)"
proof (induction k arbitrary: lba j)
  case 0
  then have "length as = t_next j" by simp
  then have "j = j\<lparr>t_next := length as, t_dev := t_dev j\<rparr>" by simp
  then show ?case using "0.prems"(1) by (intro exI [of _ "t_dev j"]) auto
next
  case (Suc k)
  have c: "lba < d_cap (t_dev j)" using Suc.prems(6) by simp
  obtain d where d: "dev_Read lba 4096 True (t_dev j) = (Inr (blk (t_dev j) lba), d)" "healthy d"
    using dev_Read_healthy [OF Suc.prems(1) c] by auto
  have l: "blk d = blk (t_dev j)" "d_cap d = d_cap (t_dev j)"
    using dev.rd_law [OF _ d(1)] Suc.prems(1) by (auto simp: healthy_def)
  show ?case
  proof (cases "lba = length as")
    case True
    then have "blk (t_dev j) lba = replicate 4096 0" using Suc.prems(8) c by simp
    moreover have "j\<lparr>t_dev := d\<rparr> = j\<lparr>t_next := length as, t_dev := d\<rparr>" using True Suc.prems(3) by simp
    ultimately show ?thesis
      using d l by (intro exI [of _ d]) (simp add: op_bind_def on_tdev_def zero_block_empty)
  next
    case False
    then have lt: "lba < length as" using Suc.prems(4) by simp
    then have dr: "drop lba as = as ! lba # drop (Suc lba) as" by (rule Cons_nth_drop_Suc [symmetric])
    have ne: "\<not> topoBlockEmpty (blk (t_dev j) lba)" using Suc.prems(2,7) lt dr by (simp add: sealed_nonempty)
    let ?j = "j\<lparr>t_dev := d, t_next := Suc lba\<rparr>"
    have "\<exists>d'. topo_scan (Suc lba) k ?j = (Inr (), ?j\<lparr>t_next := length as, t_dev := d'\<rparr>) \<and> healthy d' \<and> blk d' = blk (t_dev ?j) \<and> d_cap d' = d_cap (t_dev ?j)"
      using Suc.prems(2-) dr d(2) l lt by (intro Suc.IH) simp_all
    then show ?thesis
      using d(1) ne l by (simp add: op_bind_def on_tdev_def)
  qed
qed

lemma OpenTopo_live:
  assumes "topo_rep j as" "healthy d" "d_file d = d_file (t_dev j)"
  shows "\<exists>j'. OpenTopo d (t_key j) = Inr j' \<and> topo_rep j' as \<and> healthy (t_dev j')"
proof -
  have e: "blk d = blk (t_dev j)" "d_cap d = d_cap (t_dev j)"
    using assms by (auto simp: blk_def fun_eq_iff topo_rep_def healthy_def dev_ok_def)
  let ?j = "newTopo d (t_key j)"
  have "\<exists>d'. topo_scan 0 (d_cap d) ?j = (Inr (), ?j\<lparr>t_next := length as, t_dev := d'\<rparr>) \<and> healthy d' \<and> blk d' = blk (t_dev ?j) \<and> d_cap d' = d_cap (t_dev ?j)"
    using assms e by (intro topo_scan_live [where key = "t_key j"]) (simp_all add: newTopo_def topo_rep_def)
  then obtain d' where "topo_scan 0 (d_cap d) ?j = (Inr (), ?j\<lparr>t_next := length as, t_dev := d'\<rparr>)" "healthy d'"
    "blk d' = blk d" "d_cap d' = d_cap d" by (auto simp: newTopo_def)
  then show ?thesis
    using assms(1) e by (auto simp: OpenTopo_def topo_scanTip_def newTopo_def topo_rep_def healthy_def)
qed

section \<open>Durability\<close>

lemma topo_Flush_rep:
  assumes "topo_rep j as" "topo_Flush j = (Inr u, j')"
  shows "topo_rep j' as \<and> t_key j' = t_key j \<and> k_durable (d_os (t_dev j')) = d_file (t_dev j')"
proof -
  obtain d where d: "dev_Flush (t_dev j) = (Inr (), d)" "j' = j\<lparr>t_dev := d\<rparr>"
    using assms(2) unfolding topo_Flush_def by (auto elim!: op_bind_InrE on_tdev_InrE dest!: topo_ready_Inr)
  have c: "dev_ok d" "d_size d = d_size (t_dev j)" "d_file d = d_file (t_dev j)" "k_durable (d_os d) = d_file d"
    using dev_Flush_cases [OF d(1)] assms(1) by (simp_all add: topo_rep_def)
  then have "blk d = blk (t_dev j)" by (simp add: blk_def fun_eq_iff)
  then show ?thesis using assms(1) c d(2) by (simp add: topo_rep_def)
qed

text \<open>
  C10. Durability of the topology journal: when an artifact has been appended to a journal that holds
  \<open>as\<close> and the flush returned, a machine that restarts on the durable bytes opens the journal, finds
  its tip, and replays \<open>as\<close> followed by that artifact, every tag verified. Opening takes a block of
  zeros for the tip, so the artifacts are not all zeros.
\<close>
theorem topo_durable:
  assumes "topo_rep j as" "art_ok a" "art_nonzero a"
    "topo_Append a j = (Inr u, j1)" "topo_Flush j1 = (Inr v, j2)"
    "k_file k = k_durable (d_os (t_dev j2))" "k_io k = []"
  shows "\<exists>d j3 j4. dev_Open k = Inr d \<and> OpenTopo d (t_key j) = Inr j3 \<and> topo_Replay j3 = (Inr (as @ [a]), j4)"
proof -
  have r1: "topo_rep j1 (as @ [a])" "t_key j1 = t_key j" using topo_Append_rep [OF assms(1-4)] by simp_all
  have r2: "topo_rep j2 (as @ [a])" "t_key j2 = t_key j" "k_durable (d_os (t_dev j2)) = d_file (t_dev j2)"
    using topo_Flush_rep [OF r1(1) assms(5)] r1(2) by simp_all
  define d where "d = \<lparr>d_fd = True, d_size = length (k_file k), d_preadN = 0, d_pwriteN = 0, d_poisoned = False, d_os = k\<rparr>"
  have f: "d_file d = d_file (t_dev j2)" using assms(6) r2(3) by (simp add: d_def)
  then have m: "length (k_file k) mod 4096 = 0" using r2(1) by (auto simp: d_def topo_rep_def dev_ok_def)
  have o: "dev_Open k = Inr d" using m by (simp add: dev_Open_def d_def)
  have h: "healthy d" using m assms(7) by (simp add: healthy_def dev_ok_def d_def)
  obtain j3 where j3: "OpenTopo d (t_key j2) = Inr j3" "topo_rep j3 (as @ [a])" "healthy (t_dev j3)"
    using OpenTopo_live [OF r2(1) h f] by blast
  obtain j4 where "topo_Replay j3 = (Inr (as @ [a]), j4)" using topo_Replay_live [OF j3(2,3)] by blast
  then show ?thesis using o j3(1) r2(2) by auto
qed

lemma topo_Append_live:
  assumes rep: "topo_rep j as" and h: "healthy (t_dev j)" and a: "art_ok a" and room: "length as < d_cap (t_dev j)"
  shows "\<exists>j'. topo_Append a j = (Inr (), j') \<and> healthy (t_dev j')"
proof -
  have k: "length (t_key j) = 32" and n: "t_next j = length as" using rep by (auto simp: topo_rep_def)
  obtain d where "dev_Write (length as) (sealed_art (t_key j) a) True (t_dev j) = (Inr (), d)" "healthy d"
    using dev_Write_healthy [OF h, of "sealed_art (t_key j) a" 1 "length as"] a room by auto
  moreover have "topo_ready j = (Inr (), j)"
    using rep h by (simp add: topo_ready_def topo_rep_def on_tdev_def checkReady_def healthy_def)
  ultimately show ?thesis
    using n room by (simp add: topo_Append_def op_bind_def Let_def put_art [OF a, simplified] sealTopo_art [OF a k] on_tdev_def)
qed

definition sample_art :: Artifact where
  "sample_art = \<lparr>a_Kind = 1, a_ID = replicate 16 2, a_Ref = replicate 32 3\<rparr>"

lemma sample_art_ok: "art_ok sample_art" "art_nonzero sample_art"
  by (simp_all add: sample_art_def art_ok_def art_nonzero_def topoBlockEmpty_def)

lemma CreateTopo_rep: "length key = 32 \<Longrightarrow> topo_rep (CreateTopo (zero_dev n) key) []"
  by (simp add: CreateTopo_def newTopo_def topo_rep_def zero_dev_ok zero_dev_blk)

theorem topo_durable_witness:
  "\<exists>j1 j2 d j3 j4. topo_Append sample_art (CreateTopo (zero_dev 2) (replicate 32 7)) = (Inr (), j1) \<and> topo_Flush j1 = (Inr (), j2) \<and>
     dev_Open \<lparr>k_file = k_durable (d_os (t_dev j2)), k_durable = k_durable (d_os (t_dev j2)), k_io = []\<rparr> = Inr d \<and>
     OpenTopo d (replicate 32 7) = Inr j3 \<and> topo_Replay j3 = (Inr [sample_art], j4)"
proof -
  let ?j = "CreateTopo (zero_dev 2) (replicate 32 7)"
  have r: "topo_rep ?j []" by (rule CreateTopo_rep) simp
  have t: "t_dev ?j = zero_dev 2" "t_key ?j = replicate 32 7" by (simp_all add: CreateTopo_def newTopo_def)
  have h: "healthy (t_dev ?j)" and c: "0 < d_cap (t_dev ?j)" using zero_dev_ok [of 2] t(1) by simp_all
  obtain j1 where j1: "topo_Append sample_art ?j = (Inr (), j1)" "healthy (t_dev j1)"
    using topo_Append_live [OF r h sample_art_ok(1)] c by auto
  have o: "t_open j1" using topo_Append_rep [OF r sample_art_ok j1(1)] by (simp add: topo_rep_def)
  obtain d where "dev_Flush (t_dev j1) = (Inr (), d)" using dev_Flush_healthy [OF j1(2)] by blast
  then have j2: "topo_Flush j1 = (Inr (), j1\<lparr>t_dev := d\<rparr>)"
    using j1(2) o by (simp add: topo_Flush_def op_bind_def topo_ready_def on_tdev_def checkReady_def healthy_def)
  from topo_durable [OF r sample_art_ok j1(1) j2, of "\<lparr>k_file = k_durable (d_os (t_dev (j1\<lparr>t_dev := d\<rparr>))), k_durable = k_durable (d_os (t_dev (j1\<lparr>t_dev := d\<rparr>))), k_io = []\<rparr>"]
  show ?thesis using j1(1) j2 t(2) by fastforce
qed

end
