(* ===== verification/Go_Std.thy ===== *)
theory Go_Std
  imports C2_Prelude "HOL-Library.Char_ord" "HOL-Library.List_Lexorder"
begin

text \<open>
  What the log and page code uses of Go's standard library: CRC-32C of \<^verbatim>\<open>hash/crc32\<close>
  (\<^verbatim>\<open>crc32.MakeTable(crc32.Castagnoli)\<close>, written bit by bit), \<^verbatim>\<open>bytes.Compare\<close>, decimal
  formatting (\<^verbatim>\<open>%08d\<close>) and parsing (\<^verbatim>\<open>strconv.ParseUint(s, 10, 32)\<close>).
\<close>

section \<open>CRC-32C\<close>

definition crc_bit :: "u32 \<Rightarrow> u32" where
  "crc_bit c = (if c AND 1 = 1 then drop_bit 1 c XOR 0x82F63B78 else drop_bit 1 c)"

definition crc_byte :: "u32 \<Rightarrow> byte \<Rightarrow> u32" where
  "crc_byte c b = (crc_bit ^^ 8) (c XOR ucast b)"

definition crc32_Update :: "u32 \<Rightarrow> bytes \<Rightarrow> u32" where
  "crc32_Update crc bs = NOT (foldl crc_byte (NOT crc) bs)"

definition crc32_Checksum :: "bytes \<Rightarrow> u32" where
  "crc32_Checksum bs = crc32_Update 0 bs"

lemma crc32_Update_append: "crc32_Update (crc32_Update c xs) ys = crc32_Update c (xs @ ys)"
  by (simp add: crc32_Update_def)

lemma crc32_Checksum_append [simp]: "crc32_Update (crc32_Checksum xs) ys = crc32_Checksum (xs @ ys)"
  by (simp add: crc32_Checksum_def crc32_Update_append)

section \<open>Byte order\<close>

fun bytes_Compare :: "bytes \<Rightarrow> bytes \<Rightarrow> int" where
  "bytes_Compare [] [] = 0"
| "bytes_Compare [] (y # ys) = -1"
| "bytes_Compare (x # xs) [] = 1"
| "bytes_Compare (x # xs) (y # ys) = (if x < y then -1 else if y < x then 1 else bytes_Compare xs ys)"

lemma bytes_Compare_lex: "bytes_Compare x y = (if x < y then -1 else if y < x then 1 else 0)"
  by (induction x y rule: bytes_Compare.induct) auto

lemma bytes_Compare_simps:
  "bytes_Compare x y > 0 \<longleftrightarrow> y < x" "bytes_Compare x y < 0 \<longleftrightarrow> x < y" "bytes_Compare x y \<le> 0 \<longleftrightarrow> x \<le> y"
  "bytes_Compare x y \<ge> 0 \<longleftrightarrow> y \<le> x" "bytes_Compare x y = 0 \<longleftrightarrow> x = y"
  by (auto simp: bytes_Compare_lex)

section \<open>Decimal numbers\<close>

fun dec_digits :: "nat \<Rightarrow> string" where
  "dec_digits n = (if n < 10 then [char_of (48 + n)] else dec_digits (n div 10) @ [char_of (48 + n mod 10)])"

declare dec_digits.simps [simp del]

text \<open>\<^verbatim>\<open>%08d\<close>: at least eight digits.\<close>

definition fmt_08d :: "nat \<Rightarrow> string" where
  "fmt_08d n = replicate (8 - length (dec_digits n)) CHR 0x30 @ dec_digits n"

definition is_digit :: "char \<Rightarrow> bool" where
  "is_digit c \<longleftrightarrow> (48::nat) \<le> of_char c \<and> of_char c \<le> (57::nat)"

definition dec_value :: "string \<Rightarrow> nat" where
  "dec_value s = foldl (\<lambda>v c. v * 10 + (of_char c - 48)) 0 s"

definition ParseUint32 :: "string \<Rightarrow> u32 option" where
  "ParseUint32 s = (if s = [] \<or> \<not> list_all is_digit s \<or> dec_value s \<ge> 2 ^ 32 then None else Some (of_nat (dec_value s)))"

lemma of_char_digit: "n < 10 \<Longrightarrow> of_char (char_of (48 + n) :: char) = (48 + n :: nat)"
  by (simp add: take_bit_nat_eq_self)

lemma dec_digits_digit: "list_all is_digit (dec_digits n)"
proof (induction n rule: dec_digits.induct)
  case (1 n)
  have d: "is_digit (char_of (48 + m))" if "m < 10" for m :: nat using that by (simp add: is_digit_def of_char_digit del: of_char_of)
  then show ?case using 1 by (subst dec_digits.simps) auto
qed

lemma dec_value_snoc: "dec_value (xs @ [c]) = dec_value xs * 10 + (of_char c - 48)"
  by (simp add: dec_value_def)

lemma dec_value_digits: "dec_value (dec_digits n) = n"
proof (induction n rule: dec_digits.induct)
  case (1 n)
  have "n mod 10 < 10" by simp
  then show ?case using 1 by (subst dec_digits.simps) (auto simp: dec_value_snoc of_char_digit dec_value_def simp del: of_char_of)
qed

lemma dec_value_pad: "dec_value (replicate k CHR 0x30 @ s) = dec_value s"
proof -
  have "foldl (\<lambda>v c. v * 10 + (of_char c - 48)) 0 (replicate k CHR 0x30) = (0::nat)" by (induction k) simp_all
  then show ?thesis by (simp add: dec_value_def)
qed

lemma fmt_08d_digit: "list_all is_digit (fmt_08d n)" "fmt_08d n \<noteq> []" "dec_value (fmt_08d n) = n"
proof -
  have "is_digit CHR 0x30" by (simp add: is_digit_def)
  then show "list_all is_digit (fmt_08d n)" using dec_digits_digit by (auto simp: fmt_08d_def list_all_iff)
  show "fmt_08d n \<noteq> []" unfolding fmt_08d_def by (subst (2) dec_digits.simps) simp
  show "dec_value (fmt_08d n) = n" by (simp only: fmt_08d_def dec_value_pad dec_value_digits)
qed

lemma ParseUint32_fmt: "ParseUint32 (fmt_08d (unat (n :: u32))) = Some n"
proof -
  have "\<not> 2 ^ 32 \<le> unat n" using u32_less [of n] by (simp only: not_le)
  then show ?thesis
    by (simp only: ParseUint32_def fmt_08d_digit simp_thms if_False option.simps) simp
qed

section \<open>Filling a buffer from the front\<close>

definition filled :: "nat \<Rightarrow> bytes \<Rightarrow> bytes" where
  "filled n xs = xs @ replicate (n - length xs) 0"

lemma filled_Nil: "replicate n 0 = filled n []"
  by (simp add: filled_def)

lemma filled_full: "length xs = n \<Longrightarrow> filled n xs = xs"
  by (simp add: filled_def)

lemma filled_length [simp]: "length xs \<le> n \<Longrightarrow> length (filled n xs) = n"
  by (simp add: filled_def)

lemma put_at_filled: "a = length xs \<Longrightarrow> length xs + length ys \<le> n \<Longrightarrow> put_at (filled n xs) a ys = filled n (xs @ ys)"
  by (rule nth_equalityI) (auto simp: filled_def put_at_nth nth_append)

lemma take_filled: "length xs = a \<Longrightarrow> take a (filled n xs) = xs"
  by (simp add: filled_def)

lemma filled_skip: "length xs + k \<le> n \<Longrightarrow> filled n xs = filled n (xs @ replicate k 0)"
  by (simp add: filled_def replicate_add [symmetric])

end
