(* ===== verification/Segments.thy ===== *)
theory Segments
  imports Go_Std
begin

text \<open>
  Segmented append-only logs. The transaction log (\<^verbatim>\<open>src/pkg/c2db/txnlog.go\<close>) and the history
  (\<^verbatim>\<open>src/pkg/c2db/history.go\<close>) keep their records in files \<^verbatim>\<open><prefix>NNNNNNNN.seg\<close> of one
  directory and share, word for word, the code that opens, rotates and appends to a segment; this
  theory holds that code once, over a directory, with the laws of the two record codecs as a locale.

  The directory is a list of names and contents with distinct names. A script of outcomes says what
  the operating system answers: \<open>None\<close> is success, \<open>Some n\<close> a failure, which a write meets after
  \<open>n\<close> bytes; past the end of the script calls succeed. Subdirectories, which the code skips, are not
  in the list.
\<close>

section \<open>The directory\<close>

record Fs =
  fs_files :: "(string \<times> bytes) list"
  fs_io :: "nat option list"

datatype 'e seg_error = SegIO nat | SegNoFile | SegFileClosed | SegErr 'e

definition fs_check :: "(Fs, 'e seg_error, unit) op" where
  "fs_check fs = (case fs_io fs of [] \<Rightarrow> (Inr (), fs)
     | None # io \<Rightarrow> (Inr (), fs\<lparr>fs_io := io\<rparr>) | Some n # io \<Rightarrow> (Inl (SegIO n), fs\<lparr>fs_io := io\<rparr>))"

definition fs_ReadDir :: "(Fs, 'e seg_error, (string \<times> bytes) list) op" where
  "fs_ReadDir = op_bind fs_check (\<lambda>_ fs. (Inr (sort_key fst (fs_files fs)), fs))"

definition fs_ReadFile :: "string \<Rightarrow> (Fs, 'e seg_error, bytes) op" where
  "fs_ReadFile name = op_bind fs_check (\<lambda>_ fs.
     case map_of (fs_files fs) name of None \<Rightarrow> (Inl SegNoFile, fs) | Some d \<Rightarrow> (Inr d, fs))"

definition fs_OpenAppend :: "bool \<Rightarrow> string \<Rightarrow> (Fs, 'e seg_error, unit) op" where
  "fs_OpenAppend create name = op_bind fs_check (\<lambda>_ fs.
     case map_of (fs_files fs) name of Some _ \<Rightarrow> (Inr (), fs)
     | None \<Rightarrow> if create then (Inr (), fs\<lparr>fs_files := fs_files fs @ [(name, [])]\<rparr>) else (Inl SegNoFile, fs))"

definition fs_Stat :: "string \<Rightarrow> (Fs, 'e seg_error, nat) op" where
  "fs_Stat name = op_bind fs_check (\<lambda>_ fs.
     case map_of (fs_files fs) name of None \<Rightarrow> (Inl SegNoFile, fs) | Some d \<Rightarrow> (Inr (length d), fs))"

definition set_file :: "string \<Rightarrow> (bytes \<Rightarrow> bytes) \<Rightarrow> (string \<times> bytes) list \<Rightarrow> (string \<times> bytes) list" where
  "set_file name f = map (\<lambda>(n, d). (n, if n = name then f d else d))"

definition fs_Write :: "string \<Rightarrow> bytes \<Rightarrow> (Fs, 'e seg_error, nat) op" where
  "fs_Write name buf fs = (case fs_check fs of
       (Inl (SegIO n), fs) \<Rightarrow> (Inl (SegIO n), fs\<lparr>fs_files := set_file name (\<lambda>d. d @ take n buf) (fs_files fs)\<rparr>)
     | (Inl e, fs) \<Rightarrow> (Inl e, fs)
     | (Inr _, fs) \<Rightarrow> (Inr (length buf), fs\<lparr>fs_files := set_file name (\<lambda>d. d @ buf) (fs_files fs)\<rparr>))"

definition fs_Truncate :: "string \<Rightarrow> nat \<Rightarrow> (Fs, 'e seg_error, unit) op" where
  "fs_Truncate name len = op_bind fs_check (\<lambda>_ fs. (Inr (), fs\<lparr>fs_files := set_file name (take len) (fs_files fs)\<rparr>))"

section \<open>The log\<close>

text \<open>
  \<open>sl_f\<close> is the handle of the current segment: \<open>None\<close> for \<^verbatim>\<open>nil\<close>, \<open>Some True\<close> for an open file
  and \<open>Some False\<close> for one that was closed and not forgotten (after a failed \<^verbatim>\<open>rotate\<close> or
  \<^verbatim>\<open>Close\<close>). It always belongs to segment \<open>sl_segIndex\<close>.
\<close>

record SegLog =
  sl_fs :: Fs
  sl_maxSegmentBytes :: nat
  sl_f :: "bool option"
  sl_segIndex :: u32
  sl_segCount :: nat
  sl_curBytes :: nat
  sl_totalBytes :: nat
  sl_seq :: u64
  sl_closed :: bool

definition on_fs :: "(Fs, 'e seg_error, 'a) op \<Rightarrow> ('x SegLog_scheme, 'e seg_error, 'a) op" where
  "on_fs m l = (case m (sl_fs l) of (r, fs) \<Rightarrow> (r, l\<lparr>sl_fs := fs\<rparr>))"

definition handle_Sync :: "('x SegLog_scheme, 'e seg_error, unit) op" where
  "handle_Sync l = (if sl_f l = Some True then on_fs fs_check l else (Inl SegFileClosed, l))"

definition handle_Close :: "('x SegLog_scheme, 'e seg_error, unit) op" where
  "handle_Close l = (if sl_f l = Some True then on_fs fs_check (l\<lparr>sl_f := Some False\<rparr>) else (Inl SegFileClosed, l))"

definition seg_Sync :: "('x SegLog_scheme, 'e seg_error, unit) op" where
  "seg_Sync l = (if sl_f l = None then (Inr (), l) else handle_Sync l)"

definition seg_Close :: "('x SegLog_scheme, 'e seg_error, unit) op" where
  "seg_Close l =
     (if sl_closed l then (Inr (), l)
      else let l = l\<lparr>sl_closed := True\<rparr>
      in if sl_f l = None then (Inr (), l)
      else case handle_Sync l of
          (Inl e, l) \<Rightarrow> (Inl e, snd (handle_Close l :: ('e seg_error + unit) \<times> _))
        | (Inr _, l) \<Rightarrow> (case handle_Close l of (r, l) \<Rightarrow> (r, l\<lparr>sl_f := None\<rparr>)))"

definition seg_rotate :: "('x SegLog_scheme, 'e seg_error, unit) op" where
  "seg_rotate l =
     (if sl_f l = None then (Inr (), l\<lparr>sl_segIndex := sl_segIndex l + 1\<rparr>)
      else case handle_Sync l of
          (Inl e, l) \<Rightarrow> (Inl e, snd (handle_Close l :: ('e seg_error + unit) \<times> _))
        | (Inr _, l) \<Rightarrow> (case handle_Close l of
              (Inl e, l) \<Rightarrow> (Inl e, l)
            | (Inr _, l) \<Rightarrow> (Inr (), l\<lparr>sl_f := None, sl_segIndex := sl_segIndex l + 1\<rparr>)))"

text \<open>When \<^verbatim>\<open>Stat\<close> fails the new handle is closed and not kept; the segment then exists.\<close>

definition seg_openSegment :: "(u32 \<Rightarrow> string) \<Rightarrow> ('x SegLog_scheme, 'e seg_error, unit) op" where
  "seg_openSegment name l =
     op_bind (on_fs (fs_OpenAppend True (name (sl_segIndex l)))) (\<lambda>_ l.
       case on_fs (fs_Stat (name (sl_segIndex l))) l of
         (Inl e, l) \<Rightarrow> (Inl e, snd (on_fs (fs_check :: (Fs, 'e seg_error, unit) op) l))
       | (Inr sz, l) \<Rightarrow> (Inr (), l\<lparr>sl_f := Some True, sl_curBytes := sz, sl_segCount := sl_segCount l + 1\<rparr>)) l"

text \<open>The tail of \<^verbatim>\<open>Emit\<close> and of \<^verbatim>\<open>History.Append\<close>; it returns the offset and the length of the write.\<close>

definition seg_room :: "bytes \<Rightarrow> ('x SegLog_scheme, 'e seg_error, unit) op" where
  "seg_room buf l = (if sl_f l \<noteq> None \<and> sl_curBytes l > 0 \<and> sl_curBytes l + length buf > sl_maxSegmentBytes l then seg_rotate l else (Inr (), l))"

definition seg_ensure :: "(u32 \<Rightarrow> string) \<Rightarrow> ('x SegLog_scheme, 'e seg_error, unit) op" where
  "seg_ensure name l = (if sl_f l = None then seg_openSegment name l else (Inr (), l))"

definition seg_write :: "(u32 \<Rightarrow> string) \<Rightarrow> bytes \<Rightarrow> ('x SegLog_scheme, 'e seg_error, nat \<times> nat) op" where
  "seg_write name buf l =
     (if sl_f l \<noteq> Some True then (Inl SegFileClosed, l)
      else case on_fs (fs_Write (name (sl_segIndex l)) buf) l of
         (Inl e, l) \<Rightarrow> (Inl e, l)
       | (Inr n, l) \<Rightarrow> (Inr (sl_curBytes l, n), l\<lparr>sl_curBytes := sl_curBytes l + n, sl_totalBytes := sl_totalBytes l + n\<rparr>))"

definition seg_append :: "(u32 \<Rightarrow> string) \<Rightarrow> bytes \<Rightarrow> ('x SegLog_scheme, 'e seg_error, nat \<times> nat) op" where
  "seg_append name buf = op_bind (seg_room buf) (\<lambda>_. op_bind (seg_ensure name) (\<lambda>_. seg_write name buf))"

text \<open>The scan of the directory on opening: segments counted, their bytes added, the highest index found.\<close>

fun seg_scan :: "(string \<Rightarrow> u32 option) \<Rightarrow> (string \<times> bytes) list \<Rightarrow> u32 option \<Rightarrow> ('x SegLog_scheme, 'e seg_error, u32 option) op" where
  "seg_scan parse [] high l = (Inr high, l)"
| "seg_scan parse ((name, d) # es) high l = (case parse name of
       None \<Rightarrow> seg_scan parse es high l
     | Some idx \<Rightarrow> op_bind (on_fs fs_check) (\<lambda>_ l.
         seg_scan parse es (case high of None \<Rightarrow> Some idx | Some h \<Rightarrow> if idx \<ge> h then Some idx else high)
           (l\<lparr>sl_totalBytes := sl_totalBytes l + length d\<rparr>)) (l\<lparr>sl_segCount := sl_segCount l + 1\<rparr>))"

definition seg_open :: "(u32 \<Rightarrow> string) \<Rightarrow> (string \<Rightarrow> u32 option) \<Rightarrow> ('x SegLog_scheme, 'e seg_error, bool) op" where
  "seg_open name parse =
     op_bind (on_fs fs_check) (\<lambda>_.
     op_bind (on_fs fs_ReadDir) (\<lambda>entries.
     op_bind (seg_scan parse entries None) (\<lambda>high.
       case high of None \<Rightarrow> op_ret False
       | Some highest \<Rightarrow>
           op_bind (on_fs (fs_OpenAppend False (name highest))) (\<lambda>_ l.
             case on_fs (fs_Stat (name highest)) l of
               (Inl e, l) \<Rightarrow> (Inl e, snd (on_fs (fs_check :: (Fs, 'e seg_error, unit) op) l))
             | (Inr sz, l) \<Rightarrow> (Inr True, l\<lparr>sl_f := Some True, sl_segIndex := highest, sl_curBytes := sz\<rparr>)))))"

section \<open>Reading segments\<close>

text \<open>
  The decoding loop of both formats: \<^verbatim>\<open>for off < len(data)\<close> decode, collect, advance. Both codecs
  consume at least their header (law \<open>dec_pos\<close> below), so the loop ends; the branch \<open>n = 0\<close> only
  makes the function total and is never taken.
\<close>

function decode_all :: "(bytes \<Rightarrow> 'e + ('r \<times> nat)) \<Rightarrow> bytes \<Rightarrow> 'e + 'r list" where
  "decode_all dec data =
     (if data = [] then Inr []
      else case dec data of
          Inl e \<Rightarrow> Inl e
        | Inr (r, n) \<Rightarrow> if n = 0 then Inr [r]
            else (case decode_all dec (drop n data) of Inl e \<Rightarrow> Inl e | Inr rs \<Rightarrow> Inr (r # rs)))"
  by pat_completeness auto
termination by (relation "measure (\<lambda>(dec, data). length data)") auto

declare decode_all.simps [simp del]

text \<open>The segments of a directory in the order of their indices, and the reader of a whole directory.\<close>

definition seg_names :: "(string \<Rightarrow> u32 option) \<Rightarrow> (string \<times> bytes) list \<Rightarrow> (u32 \<times> string) list" where
  "seg_names parse entries =
     sort_key fst (List.map_filter (\<lambda>(name, d). map_option (\<lambda>idx. (idx, name)) (parse name)) entries)"

definition read_segment :: "(bytes \<Rightarrow> 'e + ('r \<times> nat)) \<Rightarrow> string \<Rightarrow> (Fs, 'e seg_error, 'r list) op" where
  "read_segment dec path = op_bind (fs_ReadFile path) (\<lambda>data fs.
     case decode_all dec data of Inl e \<Rightarrow> (Inl (SegErr e), fs) | Inr rs \<Rightarrow> (Inr rs, fs))"

fun read_segments :: "(bytes \<Rightarrow> 'e + ('r \<times> nat)) \<Rightarrow> (u32 \<times> string) list \<Rightarrow> (Fs, 'e seg_error, 'r list) op" where
  "read_segments dec [] = op_ret []"
| "read_segments dec ((idx, path) # segs) =
     op_bind (read_segment dec path) (\<lambda>rs. op_bind (read_segments dec segs) (\<lambda>out. op_ret (rs @ out)))"

definition read_dir :: "(string \<Rightarrow> u32 option) \<Rightarrow> (bytes \<Rightarrow> 'e + ('r \<times> nat)) \<Rightarrow> (Fs, 'e seg_error, 'r list) op" where
  "read_dir parse dec = op_bind fs_ReadDir (\<lambda>entries. read_segments dec (seg_names parse entries))"

section \<open>Names of segments\<close>

definition seg_name :: "string \<Rightarrow> u32 \<Rightarrow> string" where
  "seg_name prefix idx = prefix @ fmt_08d (unat idx) @ ''.seg''"

definition seg_parse :: "string \<Rightarrow> string \<Rightarrow> u32 option" where
  "seg_parse prefix name =
     (if take (length prefix) name \<noteq> prefix \<or> length name < 4 \<or> drop (length name - 4) name \<noteq> ''.seg'' then None
      else ParseUint32 (take (length name - 4 - length prefix) (drop (length prefix) name)))"

lemma seg_parse_name: "seg_parse prefix (seg_name prefix idx) = Some idx"
  by (simp add: seg_parse_def seg_name_def ParseUint32_fmt)

section \<open>The records a log holds\<close>

definition encs :: "('r \<Rightarrow> bytes \<Rightarrow> bool) \<Rightarrow> 'r list \<Rightarrow> bytes \<Rightarrow> bool" where
  "encs enc rs d \<longleftrightarrow> (\<exists>bs. list_all2 enc rs bs \<and> d = concat bs)"

text \<open>The segment files of the directory are exactly those of \<open>L\<close>, in the order of their indices.\<close>

definition dir_holds :: "(u32 \<Rightarrow> string) \<Rightarrow> (string \<Rightarrow> u32 option) \<Rightarrow> (string \<times> bytes) list \<Rightarrow> (u32 \<times> bytes) list \<Rightarrow> bool" where
  "dir_holds name parse files L \<longleftrightarrow> distinct (map fst files) \<and> sorted_wrt (<) (map fst L) \<and>
     (\<forall>(n, d) \<in> set files. \<forall>i. parse n = Some i \<longrightarrow> n = name i) \<and> (\<forall>i d. (i, d) \<in> set L \<longleftrightarrow> (name i, d) \<in> set files)"

definition at_end :: "'x SegLog_scheme \<Rightarrow> (u32 \<times> bytes) list \<Rightarrow> bool" where
  "at_end l L \<longleftrightarrow> (case sl_f l of
       None \<Rightarrow> (\<forall>i \<in> fst ` set L. i \<le> sl_segIndex l)
     | Some True \<Rightarrow> L \<noteq> [] \<and> last L = (sl_segIndex l, snd (last L)) \<and> sl_curBytes l = length (snd (last L))
     | Some False \<Rightarrow> True)"

definition seg_at :: "(u32 \<Rightarrow> string) \<Rightarrow> (string \<Rightarrow> u32 option) \<Rightarrow> 'x SegLog_scheme \<Rightarrow> (u32 \<times> bytes) list \<Rightarrow> bool" where
  "seg_at name parse l L \<longleftrightarrow> dir_holds name parse (fs_files (sl_fs l)) L \<and> at_end l L"

definition log_holds :: "('r \<Rightarrow> bytes \<Rightarrow> bool) \<Rightarrow> (u32 \<Rightarrow> string) \<Rightarrow> (string \<Rightarrow> u32 option) \<Rightarrow> 'x SegLog_scheme \<Rightarrow> 'r list \<Rightarrow> bool" where
  "log_holds enc name parse l rs \<longleftrightarrow> (\<exists>L rss. seg_at name parse l L \<and>
     list_all2 (\<lambda>(i, d) r. encs enc r d) L rss \<and> rs = concat rss)"

lemma seg_at_cong:
  "sl_fs l = sl_fs l' \<Longrightarrow> sl_f l = sl_f l' \<Longrightarrow> sl_segIndex l = sl_segIndex l' \<Longrightarrow> sl_curBytes l = sl_curBytes l' \<Longrightarrow>
   seg_at name parse l L = seg_at name parse l' L"
  unfolding seg_at_def at_end_def by presburger

lemma log_holds_seq [simp]:
  "seg_at name parse (l\<lparr>sl_seq := x\<rparr>) L = seg_at name parse l L" "log_holds enc name parse (l\<lparr>sl_seq := x\<rparr>) rs = log_holds enc name parse l rs"
  by (simp_all add: log_holds_def seg_at_cong [of "l\<lparr>sl_seq := x\<rparr>" l])

subsection \<open>Directories\<close>

lemma map_filter_set: "set (List.map_filter f xs) = {y. \<exists>x \<in> set xs. f x = Some y}"
  by (induction xs) (auto simp: map_filter_simps split: option.splits)

text \<open>What a log needs of its names: the parser reads back the index a name was made of.\<close>

locale seg_naming =
  fixes name :: "u32 \<Rightarrow> string"
    and parse :: "string \<Rightarrow> u32 option"
  assumes parse_name: "parse (name i) = Some i"
begin

lemma name_eq [simp]: "name i = name j \<longleftrightarrow> i = j"
  using parse_name by (metis option.inject)

lemma dir_holds_map_of:
  assumes "dir_holds name parse files L"
  shows "map_of files (name i) = map_of L i"
proof -
  have d: "distinct (map fst L)" "distinct (map fst files)"
    using assms strict_sorted_iff by (auto simp: dir_holds_def)
  have "map_of files (name i) = Some x \<longleftrightarrow> map_of L i = Some x" for x
    using assms d by (auto simp: dir_holds_def map_of_eq_Some_iff)
  then show ?thesis by (metis option.exhaust)
qed

lemma dir_holds_add:
  assumes "dir_holds name parse files L" "map_of files (name i) = None" "\<forall>j \<in> fst ` set L. j \<le> i"
  shows "dir_holds name parse (files @ [(name i, [])]) (L @ [(i, [])])"
proof -
  have n: "name i \<notin> fst ` set files" using assms(2) by (simp add: map_of_eq_None_iff)
  have "i \<notin> fst ` set L" using assms(2) dir_holds_map_of [OF assms(1)] by (simp add: map_of_eq_None_iff)
  then have "\<forall>j \<in> fst ` set L. j < i" using assms(3) by (metis order_le_imp_less_or_eq)
  then show ?thesis using assms(1) n by (auto simp: dir_holds_def parse_name sorted_wrt_append)
qed

lemma dir_holds_set:
  assumes "dir_holds name parse files (xs @ [(i, d)])"
  shows "dir_holds name parse (set_file (name i) f files) (xs @ [(i, f d)])"
proof -
  have k: "map fst (set_file (name i) f files) = map fst files" by (auto simp: set_file_def)
  have m: "set (set_file (name i) f files) = {(n, if n = name i then f e else e) | n e. (n, e) \<in> set files}"
    unfolding set_file_def by force
  have i: "(name i, e) \<in> set files \<longleftrightarrow> e = d" for e
  proof -
    have "i \<notin> fst ` set xs" using assms by (auto simp: dir_holds_def sorted_wrt_append)
    then have "(i, e) \<in> set (xs @ [(i, d)]) \<longleftrightarrow> e = d" by force
    then show ?thesis using assms by (auto simp: dir_holds_def)
  qed
  have "(j, e) \<in> set (xs @ [(i, f d)]) \<longleftrightarrow> (name j, e) \<in> set (set_file (name i) f files)" for j e
  proof (cases "j = i")
    case True
    have "i \<notin> fst ` set xs" using assms by (auto simp: dir_holds_def sorted_wrt_append)
    then have "(i, e) \<in> set (xs @ [(i, f d)]) \<longleftrightarrow> e = f d" by force
    then show ?thesis using True i by (auto simp: m)
  next
    case False
    then show ?thesis using assms by (auto simp: m dir_holds_def)
  qed
  then show ?thesis using assms k by (auto simp: dir_holds_def m)
qed

lemma map_filter_distinct:
  "distinct (map fst es) \<Longrightarrow> (\<And>n d i. (n, d) \<in> set es \<Longrightarrow> parse n = Some i \<Longrightarrow> n = name i) \<Longrightarrow>
   distinct (map fst (List.map_filter (\<lambda>(name, d). map_option (\<lambda>idx. (idx, name)) (parse name)) es))"
proof (induction es)
  case (Cons e es)
  obtain n d where e: "e = (n, d)" by (cases e)
  let ?f = "\<lambda>(name, d). map_option (\<lambda>idx. (idx, name)) (parse name)"
  have ih: "distinct (map fst (List.map_filter ?f es))" by (rule Cons.IH) (use Cons.prems in auto)
  show ?case
  proof (cases "parse n")
    case None
    then show ?thesis using ih e by (simp add: map_filter_simps)
  next
    case (Some i)
    have "parse n' \<noteq> Some i" if "(n', d') \<in> set es" for n' d'
    proof
      assume "parse n' = Some i"
      then have "n' = n" using Cons.prems(2) [of n' d' i] Cons.prems(2) [of n d i] Some e that by simp
      then show False using Cons.prems(1) e that by force
    qed
    then show ?thesis using ih e Some by (auto simp: map_filter_simps map_filter_set)
  qed
qed (simp add: map_filter_simps)

lemma seg_names_holds:
  assumes "dir_holds name parse files L" "set entries = set files" "distinct entries"
  shows "seg_names parse entries = map (\<lambda>(i, d). (i, name i)) L"
proof -
  let ?f = "\<lambda>(name, d). map_option (\<lambda>idx. (idx, name)) (parse name)"
  let ?l = "List.map_filter ?f entries"
  have can: "(n, d) \<in> set files \<Longrightarrow> parse n = Some i \<Longrightarrow> n = name i" for n d i using assms(1) by (auto simp: dir_holds_def)
  have dk: "distinct (map fst files)" using assms(1) by (simp add: dir_holds_def)
  have "distinct (map fst entries)" using dk assms(2,3) by (metis distinct_map inj_on_def)
  then have dl: "distinct (map fst ?l)" by (rule map_filter_distinct) (use can assms(2) in blast)
  have s: "set ?l = set (map (\<lambda>(i, d). (i, name i)) L)"
  proof (rule set_eqI)
    fix x :: "u32 \<times> string"
    obtain i n where x: "x = (i, n)" by (cases x)
    have "x \<in> set ?l \<longleftrightarrow> parse n = Some i \<and> (\<exists>d. (n, d) \<in> set files)"
      unfolding x by (auto simp: map_filter_set assms(2) intro!: bexI [where x = "(n, _)"])
    also have "\<dots> \<longleftrightarrow> n = name i \<and> (\<exists>d. (n, d) \<in> set files)" using can parse_name by blast
    also have "\<dots> \<longleftrightarrow> n = name i \<and> (\<exists>d. (i, d) \<in> set L)" using assms(1) by (auto simp: dir_holds_def)
    also have "\<dots> \<longleftrightarrow> x \<in> set (map (\<lambda>(i, d). (i, name i)) L)" unfolding x by force
    finally show "x \<in> set ?l \<longleftrightarrow> x \<in> set (map (\<lambda>(i, d). (i, name i)) L)" .
  qed
  have m: "map fst (map (\<lambda>(i, d). (i, name i)) L) = map fst L" by auto
  have so: "sorted (map fst L)" "distinct (map fst L)"
    using assms(1) by (auto simp: dir_holds_def strict_sorted_iff)
  let ?s = "sort_key fst ?l"
  have ds: "distinct (map fst ?s)" using dl by (simp add: distinct_map)
  have "inj_on fst (set ?s \<union> set (map (\<lambda>(i, d). (i, name i)) L))" using ds s by (simp add: distinct_map)
  then show ?thesis
    unfolding seg_names_def
    by (rule map_sorted_distinct_set_unique) (use so ds s in \<open>simp_all only: m sorted_sort_key set_sort\<close>)
qed

lemma fs_check_files: "fs_check fs = (r, fs') \<Longrightarrow> fs_files fs' = fs_files fs"
  by (auto simp: fs_check_def split: list.splits option.splits)

lemma seg_rotate_files:
  assumes "seg_rotate l = (Inr u, l')"
  shows "\<exists>fs. l' = l\<lparr>sl_fs := fs, sl_f := None, sl_segIndex := sl_segIndex l + 1\<rparr> \<and> fs_files fs = fs_files (sl_fs l)"
proof (cases "sl_f l")
  case None
  then have "l' = l\<lparr>sl_fs := sl_fs l, sl_f := None, sl_segIndex := sl_segIndex l + 1\<rparr>"
    using assms by (intro SegLog.equality) (auto simp: seg_rotate_def)
  then show ?thesis by blast
next
  case (Some b)
  then show ?thesis using assms
    by (auto simp: seg_rotate_def handle_Sync_def handle_Close_def on_fs_def dest!: fs_check_files split: if_splits sum.splits prod.splits)
qed

lemma dir_holds_last:
  assumes "dir_holds name parse files L" "(i, d) \<in> set L" "\<forall>j \<in> fst ` set L. j \<le> i"
  shows "\<exists>xs. L = xs @ [(i, d)]"
proof -
  obtain ys zs where L: "L = ys @ (i, d) # zs" using assms(2) by (meson split_list)
  have "z \<in> set zs \<Longrightarrow> i < fst z" for z using assms(1) L by (auto simp: dir_holds_def sorted_wrt_append)
  then have "zs = []" using assms(3) L by (cases zs) force+
  then show ?thesis using L by blast
qed

text \<open>Opening a segment: the last one of the directory, found or created.\<close>

lemma seg_openSegment_at:
  assumes "seg_openSegment name l = (Inr u :: 'e seg_error + unit, l')" "seg_at name parse l L" "sl_f l = None"
  shows "\<exists>xs d fs. (L = xs @ [(sl_segIndex l, d)] \<or> L = xs \<and> d = []) \<and> dir_holds name parse (fs_files fs) (xs @ [(sl_segIndex l, d)]) \<and>
     l' = l\<lparr>sl_fs := fs, sl_f := Some True, sl_curBytes := length d, sl_segCount := sl_segCount l + 1\<rparr>"
proof -
  let ?i = "sl_segIndex l"
  have L: "dir_holds name parse (fs_files (sl_fs l)) L" "\<forall>j \<in> fst ` set L. j \<le> ?i"
    using assms(2,3) by (auto simp: seg_at_def at_end_def)
  obtain fs1 fs2 sz where o: "fs_OpenAppend True (name ?i) (sl_fs l) = (Inr () :: 'e seg_error + unit, fs1)"
    and st: "fs_Stat (name ?i) fs1 = (Inr sz :: 'e seg_error + nat, fs2)"
    and l': "l' = l\<lparr>sl_fs := fs2, sl_f := Some True, sl_curBytes := sz, sl_segCount := sl_segCount l + 1\<rparr>"
    using assms(1) by (auto simp: seg_openSegment_def on_fs_def op_bind_def split: prod.splits sum.splits)
  obtain xs d where x: "L = xs @ [(?i, d)] \<or> L = xs \<and> d = []" "dir_holds name parse (fs_files fs1) (xs @ [(?i, d)])"
  proof (cases "map_of (fs_files (sl_fs l)) (name ?i)")
    case None
    then have "fs_files fs1 = fs_files (sl_fs l) @ [(name ?i, [])]"
      using o by (auto simp: fs_OpenAppend_def op_bind_def dest!: fs_check_files split: sum.splits prod.splits)
    then show ?thesis using that [of L "[]"] dir_holds_add [OF L(1) None L(2)] by simp
  next
    case (Some d)
    have f: "fs_files fs1 = fs_files (sl_fs l)"
      using o Some by (auto simp: fs_OpenAppend_def op_bind_def dest!: fs_check_files split: sum.splits prod.splits option.splits)
    have "(?i, d) \<in> set L" using Some dir_holds_map_of [OF L(1)] by (simp add: map_of_SomeD)
    then show ?thesis using dir_holds_last [OF L(1) _ L(2)] that f L(1) by fastforce
  qed
  have f: "fs_files fs2 = fs_files fs1"
    using st by (auto simp: fs_Stat_def op_bind_def dest!: fs_check_files split: sum.splits prod.splits option.splits)
  have "?i \<notin> fst ` set xs" using x(2) by (auto simp: dir_holds_def sorted_wrt_append)
  then have "map_of (fs_files fs1) (name ?i) = Some d"
    using dir_holds_map_of [OF x(2), of ?i] by (simp add: map_add_def map_of_eq_None_iff [symmetric])
  then have "sz = length d"
    using st by (auto simp: fs_Stat_def op_bind_def dest!: fs_check_files split: sum.splits prod.splits option.splits)
  then show ?thesis using x f l' by metis
qed

lemma fs_Write_files: "fs_Write n buf fs = (Inr k, fs') \<Longrightarrow> k = length buf \<and> fs_files fs' = set_file n (\<lambda>d. d @ buf) (fs_files fs)"
  by (auto simp: fs_Write_def dest!: fs_check_files split: sum.splits prod.splits seg_error.splits)

text \<open>A successful append puts its bytes at the end of the last segment, which it may have created.\<close>

lemma at_end_le:
  assumes "dir_holds name parse files L" "at_end l L" "sl_f l \<noteq> Some False" "j \<in> fst ` set L"
  shows "j \<le> sl_segIndex l"
proof (cases "sl_f l")
  case None then show ?thesis using assms(2,4) by (auto simp: at_end_def)
next
  case (Some b)
  then obtain xs d where "L = xs @ [(sl_segIndex l, d)]"
    using assms(2,3) by (cases b) (auto simp: at_end_def, metis append_butlast_last_id)
  then show ?thesis using assms(1,4) by (auto simp: dir_holds_def sorted_wrt_append intro: less_imp_le)
qed

lemma seg_room_at:
  assumes "seg_room b l = (Inr u :: 'e seg_error + unit, l')" "seg_at name parse l L" "sl_segIndex l \<noteq> -1"
  shows "seg_at name parse l' L \<and> (\<exists>fs f i. l' = l\<lparr>sl_fs := fs, sl_f := f, sl_segIndex := i\<rparr>)"
proof (cases "l' = l")
  case True
  have "l = l\<lparr>sl_fs := sl_fs l, sl_f := sl_f l, sl_segIndex := sl_segIndex l\<rparr>" by simp
  then show ?thesis using assms(2) True by metis
next
  case False
  then have rot: "seg_rotate l = (Inr u :: 'e seg_error + unit, l')" using assms(1) by (auto simp: seg_room_def split: if_splits)
  then obtain fs where fs: "l' = l\<lparr>sl_fs := fs, sl_f := None, sl_segIndex := sl_segIndex l + 1\<rparr>" "fs_files fs = fs_files (sl_fs l)"
    using seg_rotate_files by blast
  have "sl_f l \<noteq> Some False" using rot by (auto simp: seg_rotate_def handle_Sync_def split: if_splits)
  then have "\<forall>j \<in> fst ` set L. j \<le> sl_segIndex l" using at_end_le assms(2) unfolding seg_at_def by blast
  moreover have "1 + sl_segIndex l \<noteq> 0" using assms(3) by (metis add_eq_0_iff)
  then have "sl_segIndex l \<le> sl_segIndex l + 1" using unatSuc [of "sl_segIndex l"] by (simp add: word_le_nat_alt add.commute)
  ultimately have "at_end l' L" using fs(1) by (auto simp: at_end_def intro: order_trans)
  then show ?thesis using assms(2) fs by (auto simp: seg_at_def)
qed

lemma seg_ensure_at:
  assumes "seg_ensure name l = (Inr u :: 'e seg_error + unit, l')" "seg_at name parse l L" "sl_f l' = Some True"
  shows "\<exists>xs d. (L = xs @ [(sl_segIndex l', d)] \<or> L = xs \<and> d = []) \<and> dir_holds name parse (fs_files (sl_fs l')) (xs @ [(sl_segIndex l', d)]) \<and>
    sl_curBytes l' = length d \<and> (\<exists>fs c k. l' = l\<lparr>sl_fs := fs, sl_f := Some True, sl_curBytes := c, sl_segCount := k\<rparr>)"
proof (cases "sl_f l")
  case None
  then have "seg_openSegment name l = (Inr u :: 'e seg_error + unit, l')" using assms(1) by (simp add: seg_ensure_def)
  from seg_openSegment_at [OF this assms(2) None] show ?thesis by fastforce
next
  case (Some b)
  then have l: "l' = l" using assms(1) by (simp add: seg_ensure_def)
  then obtain xs d where "L = xs @ [(sl_segIndex l, d)]" "sl_curBytes l = length d"
    using assms(2,3) by (auto simp: seg_at_def at_end_def) (metis append_butlast_last_id)
  moreover have "l = l\<lparr>sl_fs := sl_fs l, sl_f := Some True, sl_curBytes := sl_curBytes l, sl_segCount := sl_segCount l\<rparr>"
    using assms(3) l by (intro SegLog.equality) simp_all
  ultimately show ?thesis using assms(2) l unfolding seg_at_def by metis
qed

lemma seg_append_at:
  assumes "seg_append name b l = (Inr (off, n) :: 'e seg_error + nat \<times> nat, l')" "seg_at name parse l L" "sl_segIndex l \<noteq> -1"
  shows "\<exists>xs d. (L = xs @ [(sl_segIndex l', d)] \<or> L = xs \<and> d = []) \<and> seg_at name parse l' (xs @ [(sl_segIndex l', d @ b)]) \<and>
    off = length d \<and> n = length b \<and> sl_closed l' = sl_closed l \<and> sl_seq l' = sl_seq l \<and> SegLog.more l' = SegLog.more l"
proof -
  obtain l1 l2 where r: "seg_room b l = (Inr () :: 'e seg_error + unit, l1)" and o: "seg_ensure name l1 = (Inr () :: 'e seg_error + unit, l2)"
    and w: "seg_write name b l2 = (Inr (off, n) :: 'e seg_error + nat \<times> nat, l')"
    using assms(1) unfolding seg_append_def by (auto elim!: op_bind_InrE)
  obtain fs3 where f2: "sl_f l2 = Some True" and fw: "fs_Write (name (sl_segIndex l2)) b (sl_fs l2) = (Inr n :: 'e seg_error + nat, fs3)"
    and l': "off = sl_curBytes l2" "l' = l2\<lparr>sl_fs := fs3, sl_curBytes := sl_curBytes l2 + n, sl_totalBytes := sl_totalBytes l2 + n\<rparr>"
    using w by (auto simp: seg_write_def on_fs_def split: if_splits prod.splits sum.splits)
  obtain fs f i where l1: "seg_at name parse l1 L" "l1 = l\<lparr>sl_fs := fs, sl_f := f, sl_segIndex := i\<rparr>"
    using seg_room_at [OF r assms(2,3)] by blast
  obtain xs d fs2 c k where x: "L = xs @ [(sl_segIndex l2, d)] \<or> L = xs \<and> d = []"
    "dir_holds name parse (fs_files (sl_fs l2)) (xs @ [(sl_segIndex l2, d)])" "sl_curBytes l2 = length d"
    "l2 = l1\<lparr>sl_fs := fs2, sl_f := Some True, sl_curBytes := c, sl_segCount := k\<rparr>"
    using seg_ensure_at [OF o l1(1) f2] by blast
  have n: "n = length b" "fs_files fs3 = set_file (name (sl_segIndex l2)) (\<lambda>d. d @ b) (fs_files (sl_fs l2))"
    using fs_Write_files [OF fw] by simp_all
  have "dir_holds name parse (fs_files fs3) (xs @ [(sl_segIndex l2, d @ b)])" using dir_holds_set [OF x(2)] n(2) by simp
  then have "seg_at name parse l' (xs @ [(sl_segIndex l', d @ b)])"
    using l'(2) f2 x(3) n(1) by (simp add: seg_at_def at_end_def)
  moreover have "l' = l\<lparr>sl_fs := fs3, sl_f := Some True, sl_segIndex := i, sl_curBytes := sl_curBytes l2 + n, sl_segCount := k, sl_totalBytes := sl_totalBytes l2 + n\<rparr>"
    using l'(2) x(4) l1(2) by simp
  then have "sl_closed l' = sl_closed l" "sl_seq l' = sl_seq l" "SegLog.more l' = SegLog.more l" by simp_all
  moreover have "sl_segIndex l' = sl_segIndex l2" using l'(2) by simp
  ultimately show ?thesis using x(1,3) l'(1) n(1) by metis
qed

text \<open>Opening on a directory that answers: the handle is on the last segment.\<close>

lemma seg_scan_max:
  "fs_io (sl_fs l) = [] \<Longrightarrow>
   \<exists>k t. seg_scan parse es high l = (Inr (fold (\<lambda>x h. case h of None \<Rightarrow> Some x | Some y \<Rightarrow> if x \<ge> y then Some x else h)
       (List.map_filter (\<lambda>(n, d). parse n) es) high) :: 'e seg_error + u32 option, l\<lparr>sl_segCount := k, sl_totalBytes := t\<rparr>)"
proof (induction es arbitrary: high l)
  case Nil
  show ?case by (intro exI [of _ "sl_segCount l"] exI [of _ "sl_totalBytes l"]) (simp add: map_filter_simps)
next
  case (Cons e es)
  obtain n d where e: "e = (n, d)" by (cases e)
  show ?case
  proof (cases "parse n")
    case None
    then show ?thesis using Cons e by (simp add: map_filter_simps)
  next
    case (Some i)
    let ?l = "l\<lparr>sl_segCount := sl_segCount l + 1, sl_totalBytes := sl_totalBytes l + length d\<rparr>"
    let ?h = "case high of None \<Rightarrow> Some i | Some h \<Rightarrow> if i \<ge> h then Some i else high"
    have "fs_check (sl_fs l) = (Inr () :: 'e seg_error + unit, sl_fs l)" using Cons.prems by (simp add: fs_check_def)
    then have "seg_scan parse (e # es) high l = (seg_scan parse es ?h ?l :: ('e seg_error + u32 option) \<times> _)"
      using e Some by (simp add: op_bind_def on_fs_def)
    then show ?thesis using Cons.IH [of ?l ?h] Cons.prems e Some by (simp add: map_filter_simps)
  qed
qed

lemma fold_highest:
  fixes xs :: "u32 list"
  defines "f \<equiv> (\<lambda>x h. case h of None \<Rightarrow> Some x | Some y \<Rightarrow> if x \<ge> y then Some x else h)"
  shows "fold f xs (Some h) = Some (Max (insert h (set xs)))"
proof (induction xs arbitrary: h)
  case (Cons x xs)
  have "f x (Some h) = Some (max x h)" by (auto simp: f_def max_def not_le intro: antisym)
  then show ?case using Cons.IH [of "max x h"] by (auto simp: insert_commute Max_insert2 max.commute) (cases "xs = []"; simp add: max.left_commute max.commute)
qed simp

lemma holds_indices:
  assumes "dir_holds name parse files L" "set entries = set files"
  shows "set (List.map_filter (\<lambda>(n, d). parse n) entries) = fst ` set L"
proof (rule set_eqI)
  fix i
  have can: "(n, d) \<in> set files \<Longrightarrow> parse n = Some i \<Longrightarrow> n = name i" for n d using assms(1) by (auto simp: dir_holds_def)
  have "i \<in> set (List.map_filter (\<lambda>(n, d). parse n) entries) \<longleftrightarrow> (\<exists>n d. (n, d) \<in> set files \<and> parse n = Some i)"
    by (force simp: map_filter_set assms(2))
  also have "\<dots> \<longleftrightarrow> (\<exists>d. (name i, d) \<in> set files)" using can parse_name by blast
  also have "\<dots> \<longleftrightarrow> i \<in> fst ` set L" using assms(1) by (force simp: dir_holds_def)
  finally show "i \<in> set (List.map_filter (\<lambda>(n, d). parse n) entries) \<longleftrightarrow> i \<in> fst ` set L" .
qed

lemma seg_open_at:
  assumes "dir_holds name parse (fs_files (sl_fs l)) L" "fs_io (sl_fs l) = []"
  shows "\<exists>k t. seg_open name parse l = (Inr (L \<noteq> []) :: 'e seg_error + bool,
     (if L = [] then l else l\<lparr>sl_f := Some True, sl_segIndex := fst (last L), sl_curBytes := length (snd (last L))\<rparr>)\<lparr>sl_segCount := k, sl_totalBytes := t\<rparr>)"
proof -
  let ?es = "sort_key fst (fs_files (sl_fs l))"
  let ?xs = "List.map_filter (\<lambda>(n, d). parse n) ?es"
  let ?f = "\<lambda>x h. case h of None \<Rightarrow> Some x | Some y \<Rightarrow> if x \<ge> y then Some x else h"
  have ix: "set ?xs = fst ` set L" by (rule holds_indices [OF assms(1)]) simp
  obtain k t where sc: "seg_scan parse ?es None l = (Inr (fold ?f ?xs None) :: 'e seg_error + u32 option, l\<lparr>sl_segCount := k, sl_totalBytes := t\<rparr>)"
    using seg_scan_max [OF assms(2)] by blast
  have fc: "fs_check (sl_fs l) = (Inr () :: 'e seg_error + unit, sl_fs l)" using assms(2) by (simp add: fs_check_def)
  show ?thesis
  proof (cases "L = []")
    case True
    then have "?xs = []" using ix by simp
    then show ?thesis using sc fc True
      by (intro exI [of _ k] exI [of _ t]) (simp add: seg_open_def op_bind_def on_fs_def fs_ReadDir_def)
  next
    case False
    then obtain xs i d where L: "L = xs @ [(i, d)]" by (metis append_butlast_last_id surj_pair)
    obtain y ys where ys: "?xs = y # ys" using ix False by (cases ?xs) auto
    have "fold ?f ?xs None = Some (Max (insert y (set ys)))" using fold_highest [of ys y] ys by simp
    also have "Max (insert y (set ys)) = Max (fst ` set L)" using ix ys by simp
    also have "\<dots> = i"
    proof (rule Max_eqI)
      show "j \<le> i" if "j \<in> fst ` set L" for j
        using that assms(1) L by (auto simp: dir_holds_def sorted_wrt_append intro: less_imp_le)
    qed (use L in auto)
    finally have h: "fold ?f ?xs None = Some i" .
    have "i \<notin> fst ` set xs" using assms(1) L by (auto simp: dir_holds_def sorted_wrt_append)
    then have m: "map_of (fs_files (sl_fs l)) (name i) = Some d"
      using dir_holds_map_of [OF assms(1), of i] L by (simp add: map_add_def map_of_eq_None_iff [symmetric])
    have sc': "seg_scan parse ?es None l = (Inr (Some i) :: 'e seg_error + u32 option, l\<lparr>sl_segCount := k, sl_totalBytes := t\<rparr>)"
      using sc h by simp
    show ?thesis using sc' fc m L
      by (intro exI [of _ k] exI [of _ t]) (simp add: seg_open_def op_bind_def on_fs_def fs_ReadDir_def fs_OpenAppend_def fs_Stat_def)
  qed
qed

end

section \<open>Laws of a record codec\<close>

text \<open>
  What the log needs of its codec: decoding reads back what was encoded, whatever follows, and tells
  its length; it never consumes nothing; and a proper part of an encoding from its start is refused.
\<close>

locale record_codec =
  fixes enc :: "'r \<Rightarrow> bytes \<Rightarrow> bool"
    and dec :: "bytes \<Rightarrow> 'e + ('r \<times> nat)"
  assumes dec_enc: "enc r b \<Longrightarrow> dec (b @ rest) = Inr (r, length b)"
    and dec_pos: "dec b = Inr (r, n) \<Longrightarrow> 0 < n"
    and dec_torn: "enc r b \<Longrightarrow> k < length b \<Longrightarrow> isl (dec (take k b))"
begin

lemma encs_Nil [simp]: "encs enc [] d \<longleftrightarrow> d = []"
  by (simp add: encs_def)

lemma enc_nonempty: "enc r b \<Longrightarrow> b \<noteq> []"
  using dec_enc [of r b "[]"] dec_pos by force

lemma encs_Cons: "encs enc (r # rs) d \<longleftrightarrow> (\<exists>b d'. enc r b \<and> encs enc rs d' \<and> d = b @ d')"
proof
  assume "\<exists>b d'. enc r b \<and> encs enc rs d' \<and> d = b @ d'"
  then obtain b bs where "enc r b" "list_all2 enc rs bs" "d = b @ concat bs" by (auto simp: encs_def)
  then have "list_all2 enc (r # rs) (b # bs)" "d = concat (b # bs)" by simp_all
  then show "encs enc (r # rs) d" unfolding encs_def by blast
next
  assume "encs enc (r # rs) d"
  then obtain b bs where "enc r b" "list_all2 enc rs bs" "d = b @ concat bs" by (auto simp: encs_def list_all2_Cons1)
  then show "\<exists>b d'. enc r b \<and> encs enc rs d' \<and> d = b @ d'" unfolding encs_def by blast
qed

lemma encs_append: "encs enc rs d \<Longrightarrow> encs enc rs' d' \<Longrightarrow> encs enc (rs @ rs') (d @ d')"
  by (induction rs arbitrary: d) (auto simp: encs_Cons)

lemma encs_snoc: "encs enc rs d \<Longrightarrow> enc r b \<Longrightarrow> encs enc (rs @ [r]) (d @ b)"
  by (rule encs_append) (auto simp: encs_Cons)

lemma decode_encs: "encs enc rs d \<Longrightarrow> decode_all dec d = Inr rs"
proof (induction rs arbitrary: d)
  case Nil then show ?case by (simp add: decode_all.simps)
next
  case (Cons r rs)
  then obtain b d' where d: "enc r b" "encs enc rs d'" "d = b @ d'" by (auto simp: encs_Cons)
  then have "b \<noteq> []" by (simp add: enc_nonempty)
  then show ?case using d dec_enc [OF d(1)] Cons.IH [OF d(2)] by (subst decode_all.simps) simp
qed

lemma decode_encs_app: "encs enc rs d \<Longrightarrow> decode_all dec (d @ t) = (case decode_all dec t of Inl e \<Rightarrow> Inl e | Inr rs' \<Rightarrow> Inr (rs @ rs'))"
proof (induction rs arbitrary: d)
  case Nil then show ?case by (simp split: sum.splits)
next
  case (Cons r rs)
  then obtain b d' where d: "enc r b" "encs enc rs d'" "d = b @ d'" by (auto simp: encs_Cons)
  then have "b \<noteq> []" by (simp add: enc_nonempty)
  then have "decode_all dec (d @ t) = (case decode_all dec (d' @ t) of Inl e \<Rightarrow> Inl e | Inr rs \<Rightarrow> Inr (r # rs))"
    using d dec_enc [OF d(1)] by (subst decode_all.simps) simp
  then show ?case using Cons.IH [OF d(2)] by (simp split: sum.splits)
qed

lemma decode_bad: "t \<noteq> [] \<Longrightarrow> isl (dec t) \<Longrightarrow> encs enc rs d \<Longrightarrow> isl (decode_all dec (d @ t))"
  using decode_encs_app by (subst decode_encs_app; simp add: decode_all.simps [of dec t]) (auto split: sum.splits)

end

section \<open>A log as a list of records\<close>

locale seg_records = record_codec enc dec + seg_naming name parse
  for enc :: "'r \<Rightarrow> bytes \<Rightarrow> bool" and dec :: "bytes \<Rightarrow> 'e + ('r \<times> nat)"
    and name :: "u32 \<Rightarrow> string" and parse :: "string \<Rightarrow> u32 option"
begin

lemma read_segments_holds:
  assumes "dir_holds name parse (fs_files fs) L" "fs_io fs = []" "set L' \<subseteq> set L"
    "list_all2 (\<lambda>(i, d) r. encs enc r d) L' rss"
  shows "read_segments dec (map (\<lambda>(i, d). (i, name i)) L') fs = (Inr (concat rss), fs)"
  using assms(4,3)
proof (induction rule: list_all2_induct)
  case (Cons x L' rs rss)
  obtain i d where x: "x = (i, d)" by (cases x)
  have "map_of L i = Some d"
    using assms(1) Cons.prems x by (auto simp: dir_holds_def strict_sorted_iff map_of_eq_Some_iff)
  then have "map_of (fs_files fs) (name i) = Some d" using dir_holds_map_of [OF assms(1)] by simp
  then have "read_segment dec (name i) fs = (Inr rs, fs)"
    using Cons.hyps(1) x assms(2) by (simp add: read_segment_def fs_ReadFile_def fs_check_def op_bind_def decode_encs)
  then show ?case using Cons x by (simp add: op_bind_def)
qed simp

lemma read_dir_holds:
  assumes "log_holds enc name parse l rs" "fs_io (sl_fs l) = []"
  shows "read_dir parse dec (sl_fs l) = (Inr rs, sl_fs l)"
proof -
  obtain L rss where L: "dir_holds name parse (fs_files (sl_fs l)) L" "list_all2 (\<lambda>(i, d) r. encs enc r d) L rss" "rs = concat rss"
    using assms(1) by (auto simp: log_holds_def seg_at_def)
  have "distinct (fs_files (sl_fs l))" using L(1) by (auto simp: dir_holds_def distinct_map)
  then have "seg_names parse (sort_key fst (fs_files (sl_fs l))) = map (\<lambda>(i, d). (i, name i)) L"
    by (intro seg_names_holds [OF L(1)]) simp_all
  then show ?thesis
    using read_segments_holds [OF L(1) assms(2) order_refl L(2)] L(3) assms(2)
    by (simp add: read_dir_def fs_ReadDir_def op_bind_def fs_check_def)
qed

lemma read_segments_bad:
  assumes "dir_holds name parse (fs_files fs) L" "fs_io fs = []" "(i, d) \<in> set L" "isl (decode_all dec d)"
  shows "set L' \<subseteq> set L \<Longrightarrow> (i, d) \<in> set L' \<Longrightarrow> isl (fst (read_segments dec (map (\<lambda>(i, d). (i, name i)) L') fs))"
proof (induction L')
  case (Cons x L')
  obtain j e where x: "x = (j, e)" by (cases x)
  have "map_of L j = Some e"
    using assms(1) Cons.prems(1) x by (auto simp: dir_holds_def strict_sorted_iff map_of_eq_Some_iff)
  then have "map_of (fs_files fs) (name j) = Some e" using dir_holds_map_of [OF assms(1)] by simp
  then have r: "read_segment dec (name j) fs = (case decode_all dec e of Inl e \<Rightarrow> (Inl (SegErr e), fs) | Inr rs \<Rightarrow> (Inr rs, fs))"
    using assms(2) by (simp add: read_segment_def fs_ReadFile_def fs_check_def op_bind_def)
  show ?case
  proof (cases "decode_all dec e")
    case (Inl err) then show ?thesis using r x by (simp add: op_bind_def)
  next
    case (Inr rs)
    then have "(i, d) \<in> set L'" using Cons.prems(2) assms(4) x by auto
    then have "isl (fst (read_segments dec (map (\<lambda>(i, d). (i, name i)) L') fs))" using Cons by simp
    then show ?thesis using r x Inr by (auto simp: op_bind_def split: prod.splits sum.splits)
  qed
qed simp

lemma read_dir_bad:
  assumes "dir_holds name parse (fs_files fs) L" "fs_io fs = []" "(i, d) \<in> set L" "isl (decode_all dec d)"
  shows "isl (fst (read_dir parse dec fs))"
proof -
  have "distinct (fs_files fs)" using assms(1) by (auto simp: dir_holds_def distinct_map)
  then have "seg_names parse (sort_key fst (fs_files fs)) = map (\<lambda>(i, d). (i, name i)) L"
    by (intro seg_names_holds [OF assms(1)]) simp_all
  then show ?thesis
    using read_segments_bad [OF assms order_refl assms(3)] assms(2)
    by (simp add: read_dir_def fs_ReadDir_def op_bind_def fs_check_def)
qed

text \<open>A successful append adds exactly the record.\<close>

lemma seg_append_holds:
  assumes "seg_append name b l = (Inr (off, n) :: 'f seg_error + nat \<times> nat, l')" "enc r b" "log_holds enc name parse l rs" "sl_segIndex l \<noteq> -1"
  shows "log_holds enc name parse l' (rs @ [r])"
proof -
  obtain L rss where L: "seg_at name parse l L" "list_all2 (\<lambda>(i, d) r. encs enc r d) L rss" "rs = concat rss"
    using assms(3) by (auto simp: log_holds_def)
  obtain xs d where x: "L = xs @ [(sl_segIndex l', d)] \<or> L = xs \<and> d = []" "seg_at name parse l' (xs @ [(sl_segIndex l', d @ b)])"
    using seg_append_at [OF assms(1) L(1) assms(4)] by blast
  obtain rss1 rs1 where r: "list_all2 (\<lambda>(i, d) r. encs enc r d) xs rss1" "encs enc rs1 d" "concat rss = concat rss1 @ rs1"
  proof (cases "L = xs \<and> d = []")
    case True
    then show ?thesis using that [of rss "[]"] L(2) by simp
  next
    case False
    then have "L = xs @ [(sl_segIndex l', d)]" using x(1) by blast
    then obtain us z where "rss = us @ [z]" "list_all2 (\<lambda>(i, d) r. encs enc r d) xs us" "encs enc z d"
      using L(2) by (auto simp: list_all2_append1 list_all2_Cons1)
    then show ?thesis using that [of us z] by simp
  qed
  have "list_all2 (\<lambda>(i, d) r. encs enc r d) (xs @ [(sl_segIndex l', d @ b)]) (rss1 @ [rs1 @ [r]])"
    using r(1,2) encs_snoc [OF r(2) assms(2)] by (auto intro: list_all2_appendI)
  then show ?thesis using x(2) L(3) r(3) by (force simp: log_holds_def)
qed

end

end
