(* ===== verification/Txnlog.thy ===== *)
theory Txnlog
  imports Segments
begin

text \<open>
  The transaction event log of \<^verbatim>\<open>src/pkg/c2db/txnlog.go\<close>: the fixed 64-byte header codec with its
  CRC-32C, and the segmented log over a directory.
\<close>

section \<open>Events\<close>

datatype txLog_error = errTxLogShort | errTxLogMagic | errTxLogSchema | errTxLogKind | errTxLogRange | errTxLogCRC | errTxLogClosed

definition TxLogMagic :: u32 where "TxLogMagic = 0x434C4F47"
definition versionSchema :: u16 where "versionSchema = 1"
definition txnEventHeaderSize :: nat where [simp]: "txnEventHeaderSize = 64"
definition txnEventMaxKey :: nat where [simp]: "txnEventMaxKey = 65536"
definition txnEventMaxPayload :: nat where [simp]: "txnEventMaxPayload = 2 ^ 24"
definition DefaultTxLogSegmentBytes :: nat where "DefaultTxLogSegmentBytes = 64 * 2 ^ 20"

type_synonym EventKind = byte

definition EventKind_String :: "EventKind \<Rightarrow> string" where
  "EventKind_String k =
     (if k = 1 then ''mutation'' else if k = 2 then ''compaction'' else if k = 3 then ''prune''
      else if k = 4 then ''archive'' else if k = 5 then ''refusal'' else ''invalid'')"

definition EventKind_Valid :: "EventKind \<Rightarrow> bool" where
  "EventKind_Valid k \<longleftrightarrow> k \<ge> 1 \<and> k \<le> 5"

record TxnEvent =
  te_Kind :: EventKind
  te_Shard :: u16
  te_Seq :: u64
  te_Timestamp :: u64
  te_VersionID :: bytes
  te_Watermark :: u64
  te_Key :: bytes
  te_Payload :: bytes

definition EncodeTxnEvent :: "TxnEvent \<Rightarrow> txLog_error + bytes" where
  "EncodeTxnEvent ev =
     (if \<not> EventKind_Valid (te_Kind ev) then Inl errTxLogKind
      else if te_Shard ev \<ge> 1024 then Inl errTxLogRange
      else if length (te_Key ev) > txnEventMaxKey then Inl errTxLogRange
      else if length (te_Payload ev) > txnEventMaxPayload then Inl errTxLogRange
      else
        let hdr = replicate txnEventHeaderSize 0;
            hdr = put_at hdr 0 (le_put32 TxLogMagic);
            hdr = put_at hdr 4 (le_put16 versionSchema);
            hdr = hdr[6 := te_Kind ev];
            hdr = hdr[7 := 0];
            hdr = put_at hdr 8 (le_put16 (te_Shard ev));
            hdr = put_at hdr 10 (le_put16 0);
            hdr = put_at hdr 12 (le_put64 (te_Seq ev));
            hdr = put_at hdr 20 (le_put64 (te_Timestamp ev));
            hdr = put_at hdr 28 (take 16 (te_VersionID ev));
            hdr = put_at hdr 44 (le_put64 (te_Watermark ev));
            hdr = put_at hdr 52 (le_put32 (of_nat (length (te_Key ev))));
            hdr = put_at hdr 56 (le_put32 (of_nat (length (te_Payload ev))));
            crc = crc32_Checksum (take 60 hdr);
            crc = crc32_Update crc (te_Key ev);
            crc = crc32_Update crc (te_Payload ev);
            hdr = put_at hdr 60 (le_put32 crc)
        in Inr (hdr @ te_Key ev @ te_Payload ev))"

definition DecodeTxnEvent :: "bytes \<Rightarrow> txLog_error + (TxnEvent \<times> nat)" where
  "DecodeTxnEvent buf =
     (if length buf < txnEventHeaderSize then Inl errTxLogShort
      else if le_get32 buf \<noteq> TxLogMagic then Inl errTxLogMagic
      else if le_get16 (drop 4 buf) \<noteq> versionSchema then Inl errTxLogSchema
      else if \<not> EventKind_Valid (buf ! 6) then Inl errTxLogKind
      else
        let keyLen = unat (le_get32 (drop 52 buf)); payloadLen = unat (le_get32 (drop 56 buf))
        in if keyLen > txnEventMaxKey \<or> payloadLen > txnEventMaxPayload then Inl errTxLogRange
        else
          let total = txnEventHeaderSize + keyLen + payloadLen
          in if length buf < total then Inl errTxLogShort
          else
            let key = bslice buf txnEventHeaderSize keyLen;
                payload = bslice buf (txnEventHeaderSize + keyLen) payloadLen;
                crc = crc32_Checksum (take 60 buf);
                crc = crc32_Update crc key;
                crc = crc32_Update crc payload
            in if crc \<noteq> le_get32 (drop 60 buf) then Inl errTxLogCRC
            else Inr (\<lparr>te_Kind = buf ! 6, te_Shard = le_get16 (drop 8 buf), te_Seq = le_get64 (drop 12 buf),
                  te_Timestamp = le_get64 (drop 20 buf), te_VersionID = bslice buf 28 16,
                  te_Watermark = le_get64 (drop 44 buf), te_Key = key, te_Payload = payload\<rparr>, total))"

section \<open>The log\<close>

type_synonym TxLog = SegLog

definition txLogSegmentName :: "u32 \<Rightarrow> string" where
  "txLogSegmentName = seg_name ''txnlog-''"

definition parseTxLogSegmentName :: "string \<Rightarrow> u32 option" where
  "parseTxLogSegmentName = seg_parse ''txnlog-''"

definition ReadTxLogSegment :: "string \<Rightarrow> (Fs, txLog_error seg_error, TxnEvent list) op" where
  "ReadTxLogSegment = read_segment DecodeTxnEvent"

definition ReadTxLogDir :: "(Fs, txLog_error seg_error, TxnEvent list) op" where
  "ReadTxLogDir = read_dir parseTxLogSegmentName DecodeTxnEvent"

definition txLog_openSegment :: "(TxLog, txLog_error seg_error, unit) op" where
  "txLog_openSegment = seg_openSegment txLogSegmentName"

definition txLog_rotate :: "(TxLog, txLog_error seg_error, unit) op" where
  "txLog_rotate = seg_rotate"

definition OpenTxLog :: "Fs \<Rightarrow> int \<Rightarrow> txLog_error seg_error + TxLog" where
  "OpenTxLog fs maxSegmentBytes =
     (let m = (if maxSegmentBytes \<le> 0 then DefaultTxLogSegmentBytes else nat maxSegmentBytes);
          l = \<lparr>sl_fs = fs, sl_maxSegmentBytes = m, sl_f = None, sl_segIndex = 0, sl_segCount = 0, sl_curBytes = 0,
               sl_totalBytes = 0, sl_seq = 0, sl_closed = False\<rparr>
      in case seg_open txLogSegmentName parseTxLogSegmentName l of
           (Inl e, l) \<Rightarrow> Inl e
         | (Inr False, l) \<Rightarrow> Inr l
         | (Inr True, l) \<Rightarrow> (case on_fs (ReadTxLogSegment (txLogSegmentName (sl_segIndex l))) l of
               (Inr evs, l) \<Rightarrow> Inr (if evs \<noteq> [] then l\<lparr>sl_seq := te_Seq (last evs)\<rparr> else l)
             | (Inl _, l) \<Rightarrow> Inr l))"

definition stamp_seq :: "TxnEvent \<Rightarrow> TxLog \<Rightarrow> TxnEvent \<times> TxLog" where
  "stamp_seq ev l =
     (if te_Seq ev = 0 then (ev\<lparr>te_Seq := sl_seq l + 1\<rparr>, l\<lparr>sl_seq := sl_seq l + 1\<rparr>)
      else if te_Seq ev > sl_seq l then (ev, l\<lparr>sl_seq := te_Seq ev\<rparr>) else (ev, l))"

definition Emit :: "TxnEvent \<Rightarrow> (TxLog, txLog_error seg_error, unit) op" where
  "Emit ev l =
     (if sl_closed l then (Inl (SegErr errTxLogClosed), l)
      else let (ev, l) = stamp_seq ev l
      in case EncodeTxnEvent ev of
           Inl e \<Rightarrow> (Inl (SegErr e), l)
         | Inr rec \<Rightarrow> op_bind (seg_append txLogSegmentName rec) (\<lambda>_. op_ret ()) l)"

definition txLog_Sync :: "(TxLog, txLog_error seg_error, unit) op" where
  "txLog_Sync = seg_Sync"

definition txLog_Close :: "(TxLog, txLog_error seg_error, unit) op" where
  "txLog_Close = seg_Close"

section \<open>The codec\<close>

definition ev_ok :: "TxnEvent \<Rightarrow> bool" where
  "ev_ok ev \<longleftrightarrow> length (te_VersionID ev) = 16"

text \<open>The header as one sequence of fields.\<close>

definition txn_fields :: "TxnEvent \<Rightarrow> bytes" where
  "txn_fields ev = le_put32 TxLogMagic @ le_put16 versionSchema @ [te_Kind ev, 0] @ le_put16 (te_Shard ev) @ [0, 0] @
     le_put64 (te_Seq ev) @ le_put64 (te_Timestamp ev) @ te_VersionID ev @ le_put64 (te_Watermark ev) @
     le_put32 (of_nat (length (te_Key ev))) @ le_put32 (of_nat (length (te_Payload ev)))"

definition txn_enc :: "TxnEvent \<Rightarrow> bytes \<Rightarrow> bool" where
  "txn_enc ev b \<longleftrightarrow> ev_ok ev \<and> EncodeTxnEvent ev = Inr b"

definition txn_bytes :: "TxnEvent \<Rightarrow> bytes" where
  "txn_bytes ev = txn_fields ev @ le_put32 (crc32_Checksum (txn_fields ev @ te_Key ev @ te_Payload ev)) @ te_Key ev @ te_Payload ev"

definition txn_valid :: "TxnEvent \<Rightarrow> bool" where
  "txn_valid ev \<longleftrightarrow> ev_ok ev \<and> EventKind_Valid (te_Kind ev) \<and> te_Shard ev < 1024 \<and> length (te_Key ev) \<le> txnEventMaxKey \<and>
     length (te_Payload ev) \<le> txnEventMaxPayload"

lemma txn_fields_length: "ev_ok ev \<Longrightarrow> length (txn_fields ev) = 60"
  by (simp add: txn_fields_def ev_ok_def)

lemma le_put16_0: "le_put16 0 = [0, 0]"
  by (simp add: le_put16_def)

lemma txn_enc_bytes: "txn_enc ev b \<longleftrightarrow> txn_valid ev \<and> b = txn_bytes ev"
proof (cases "txn_valid ev")
  case True
  then have l: "length (te_VersionID ev) = 16" by (simp add: txn_valid_def ev_ok_def)
  have "EncodeTxnEvent ev = Inr (txn_bytes ev)"
    using True l
    by (simp add: EncodeTxnEvent_def txn_valid_def Let_def filled_Nil list_update_put_at put_at_filled take_filled filled_full
        txn_bytes_def txn_fields_def le_put16_0 not_le not_less del: put_at.simps)
  then show ?thesis using True by (auto simp: txn_enc_def txn_valid_def)
next
  case False
  then show ?thesis by (auto simp: txn_enc_def txn_valid_def EncodeTxnEvent_def split: if_splits)
qed

lemma of_nat_u32: "n < 2 ^ 32 \<Longrightarrow> unat (of_nat n :: u32) = n"
  by (simp add: unat_of_nat take_bit_nat_eq_self)

lemma txn_bytes_length: "ev_ok ev \<Longrightarrow> length (txn_bytes ev) = 64 + length (te_Key ev) + length (te_Payload ev)"
  by (simp add: txn_bytes_def txn_fields_length)

lemma txn_head:
  assumes "ev_ok ev" "b = txn_fields ev @ rest"
  shows "le_get32 b = TxLogMagic" "le_get16 (drop 4 b) = versionSchema" "b ! 6 = te_Kind ev"
    "le_get16 (drop 8 b) = te_Shard ev" "le_get64 (drop 12 b) = te_Seq ev" "le_get64 (drop 20 b) = te_Timestamp ev"
    "bslice b 28 16 = te_VersionID ev" "le_get64 (drop 44 b) = te_Watermark ev"
    "le_get32 (drop 52 b) = of_nat (length (te_Key ev))" "le_get32 (drop 56 b) = of_nat (length (te_Payload ev))"
  using assms(1) unfolding assms(2)
  by (simp_all add: txn_fields_def ev_ok_def bslice_def nth_append)

lemma Decode_txn_bytes:
  assumes "txn_valid ev"
  shows "DecodeTxnEvent (txn_bytes ev @ rest) = Inr (ev, length (txn_bytes ev))"
proof -
  let ?b = "txn_bytes ev @ rest" and ?k = "te_Key ev" and ?p = "te_Payload ev"
  let ?c = "crc32_Checksum (txn_fields ev @ ?k @ ?p)"
  have ok: "ev_ok ev" using assms by (simp add: txn_valid_def)
  have l: "length (txn_fields ev) = 60" using ok by (rule txn_fields_length)
  have b: "?b = txn_fields ev @ le_put32 ?c @ ?k @ ?p @ rest" by (simp add: txn_bytes_def)
  note h = txn_head [OF ok b]
  have n: "unat (of_nat (length ?k) :: u32) = length ?k" "unat (of_nat (length ?p) :: u32) = length ?p"
    using assms by (auto intro!: of_nat_u32 simp: txn_valid_def)
  have s: "bslice ?b 64 (length ?k) = ?k" "bslice ?b (64 + length ?k) (length ?p) = ?p" "take 60 ?b = txn_fields ev" "le_get32 (drop 60 ?b) = ?c"
    using l unfolding b by (simp_all add: bslice_def)
  have len: "length ?b = 64 + length ?k + length ?p + length rest" using l by (simp add: txn_bytes_def)
  show ?thesis
    unfolding DecodeTxnEvent_def Let_def h txnEventHeaderSize_def n s
    using assms by (simp add: txn_valid_def not_le not_less txn_bytes_length ok len)
qed

lemma Decode_pos: "DecodeTxnEvent b = Inr (ev, n) \<Longrightarrow> 64 \<le> n"
  by (auto simp: DecodeTxnEvent_def Let_def split: if_splits)

lemma Decode_short: "length b < 64 \<Longrightarrow> isl (DecodeTxnEvent b)"
  by (simp add: DecodeTxnEvent_def)

text \<open>A torn record, cut anywhere, is recognised by its length.\<close>

lemma Decode_torn:
  assumes "txn_valid ev" "k < length (txn_bytes ev)"
  shows "isl (DecodeTxnEvent (take k (txn_bytes ev)))"
proof (cases "k < 64")
  case True
  then show ?thesis by (intro Decode_short) simp
next
  case False
  let ?b = "take k (txn_bytes ev)"
  have ok: "ev_ok ev" using assms by (simp add: txn_valid_def)
  have b: "?b = txn_fields ev @ take (k - 60) (drop 60 (txn_bytes ev))"
    using False txn_fields_length [OF ok] by (simp add: txn_bytes_def take_append)
  note h = txn_head [OF ok b]
  have n: "unat (of_nat (length (te_Key ev)) :: u32) = length (te_Key ev)" "unat (of_nat (length (te_Payload ev)) :: u32) = length (te_Payload ev)"
    using assms(1) by (auto intro!: of_nat_u32 simp: txn_valid_def)
  show ?thesis
    unfolding DecodeTxnEvent_def Let_def h n using assms False txn_bytes_length [OF ok] by (auto simp: txn_valid_def)
qed

interpretation txl: seg_records txn_enc DecodeTxnEvent txLogSegmentName parseTxLogSegmentName
proof
  show "txn_enc r b \<Longrightarrow> DecodeTxnEvent (b @ rest) = Inr (r, length b)" for r b rest by (simp add: txn_enc_bytes Decode_txn_bytes)
  show "DecodeTxnEvent b = Inr (r, n) \<Longrightarrow> 0 < n" for b r n using Decode_pos by fastforce
  show "txn_enc r b \<Longrightarrow> k < length b \<Longrightarrow> isl (DecodeTxnEvent (take k b))" for r b k by (simp add: txn_enc_bytes Decode_torn)
  show "parseTxLogSegmentName (txLogSegmentName i) = Some i" for i
    by (simp add: parseTxLogSegmentName_def txLogSegmentName_def seg_parse_name)
qed

section \<open>The log as a list of events\<close>

definition txlog_holds :: "TxLog \<Rightarrow> TxnEvent list \<Rightarrow> bool" where
  "txlog_holds l evs \<longleftrightarrow> log_holds txn_enc txLogSegmentName parseTxLogSegmentName l evs"

text \<open>
  C16. An emitted event is appended: on a log that holds the events \<open>evs\<close>, \<^verbatim>\<open>Emit\<close>, when it
  returns without an error, leaves a log that holds \<open>evs\<close> and then the event with its sequence number,
  through rotation and creation of segments; and whenever the directory can be read, \<^verbatim>\<open>ReadTxLogDir\<close>
  returns exactly the events the log holds, in order, each with its checksum verified.
\<close>
theorem Emit_refines:
  assumes "txlog_holds l evs" "ev_ok ev" "sl_segIndex l \<noteq> -1" "Emit ev l = (Inr u, l')"
  shows "txlog_holds l' (evs @ [fst (stamp_seq ev l)]) \<and> sl_seq l' = sl_seq (snd (stamp_seq ev l)) \<and>
    (fs_io (sl_fs l') = [] \<longrightarrow> ReadTxLogDir (sl_fs l') = (Inr (evs @ [fst (stamp_seq ev l)]), sl_fs l'))"
proof -
  obtain ev' l1 where st: "stamp_seq ev l = (ev', l1)" by (metis surj_pair)
  have l1: "txlog_holds l1 evs" "sl_segIndex l1 = sl_segIndex l" "ev_ok ev'"
    using st assms(1,2) by (auto simp: stamp_seq_def txlog_holds_def ev_ok_def split: if_splits)
  obtain b off n where b: "EncodeTxnEvent ev' = Inr b" and ap: "seg_append txLogSegmentName b l1 = (Inr (off, n) :: txLog_error seg_error + nat \<times> nat, l')"
    using assms(4) st unfolding Emit_def by (auto elim!: op_bind_InrE split: if_splits sum.splits)
  have e: "txn_enc ev' b" using b l1(3) by (simp add: txn_enc_def)
  have h: "txlog_holds l' (evs @ [ev'])"
    using txl.seg_append_holds [OF ap e] l1 assms(3) by (simp add: txlog_holds_def)
  obtain L where "seg_at txLogSegmentName parseTxLogSegmentName l1 L" using l1(1) by (auto simp: txlog_holds_def log_holds_def)
  then have "sl_seq l' = sl_seq l1" using txl.seg_append_at [OF ap] assms(3) l1(2) by fastforce
  then show ?thesis using h st txl.read_dir_holds [of l' "evs @ [ev']"] by (simp add: txlog_holds_def ReadTxLogDir_def)
qed

definition sample_ev :: TxnEvent where
  "sample_ev = \<lparr>te_Kind = 1, te_Shard = 3, te_Seq = 0, te_Timestamp = 9, te_VersionID = replicate 16 5, te_Watermark = 2,
     te_Key = [1, 2], te_Payload = [3]\<rparr>"

definition empty_dir :: Fs where
  "empty_dir = \<lparr>fs_files = [], fs_io = []\<rparr>"

lemma OpenTxLog_empty:
  "\<exists>l. OpenTxLog empty_dir m = Inr l \<and> txlog_holds l [] \<and> fs_io (sl_fs l) = [] \<and> fs_files (sl_fs l) = [] \<and> sl_f l = None \<and> \<not> sl_closed l \<and> sl_segIndex l = 0"
proof -
  have "log_holds txn_enc txLogSegmentName parseTxLogSegmentName l []" if "fs_files (sl_fs l) = []" "sl_f l = None" for l :: TxLog
    using that unfolding log_holds_def
    by (intro exI [of _ "[]"]) (auto simp: seg_at_def dir_holds_def at_end_def)
  then show ?thesis
    by (simp add: OpenTxLog_def Let_def seg_open_def op_bind_def on_fs_def fs_check_def fs_ReadDir_def empty_dir_def txlog_holds_def)
qed

lemma seg_append_live:
  assumes "fs_io (sl_fs l) = []" "fs_files (sl_fs l) = []" "sl_f l = None"
  shows "\<exists>x l'. seg_append name b l = (Inr x, l') \<and> fs_io (sl_fs l') = []"
  using assms
  by (auto simp: seg_append_def op_bind_def seg_room_def seg_ensure_def seg_openSegment_def on_fs_def fs_OpenAppend_def fs_check_def
      fs_Stat_def seg_write_def fs_Write_def)

theorem Emit_refines_witness:
  "\<exists>l l'. OpenTxLog empty_dir 0 = Inr l \<and> Emit sample_ev l = (Inr (), l') \<and>
     ReadTxLogDir (sl_fs l') = (Inr [fst (stamp_seq sample_ev l)], sl_fs l')"
proof -
  obtain l where l: "OpenTxLog empty_dir 0 = Inr l" "txlog_holds l []" "fs_io (sl_fs l) = []" "fs_files (sl_fs l) = []"
    "sl_f l = None" "\<not> sl_closed l" "sl_segIndex l = 0" using OpenTxLog_empty by blast
  obtain ev' l1 where st: "stamp_seq sample_ev l = (ev', l1)" by (metis surj_pair)
  then have l1: "fs_io (sl_fs l1) = []" "fs_files (sl_fs l1) = []" "sl_f l1 = None" using l by (auto simp: stamp_seq_def split: if_splits)
  have "txn_valid ev'" using st
    by (auto simp: stamp_seq_def sample_ev_def txn_valid_def ev_ok_def EventKind_Valid_def split: if_splits)
  then have enc: "EncodeTxnEvent ev' = Inr (txn_bytes ev')" using txn_enc_bytes by (metis txn_enc_def)
  obtain x l' where a: "seg_append txLogSegmentName (txn_bytes ev') l1 = (Inr x :: txLog_error seg_error + nat \<times> nat, l')" "fs_io (sl_fs l') = []"
    using seg_append_live [OF l1, of txLogSegmentName "txn_bytes ev'"] by blast
  then have e: "Emit sample_ev l = (Inr (), l')" using l(6) st enc by (simp add: Emit_def op_bind_def)
  have "ev_ok sample_ev" "sl_segIndex l \<noteq> -1" using l(7) by (simp_all add: sample_ev_def ev_ok_def)
  from Emit_refines [OF l(2) this e] show ?thesis using l(1) e a(2) by auto
qed

section \<open>A torn tail\<close>

lemma torn_magic:
  assumes "0 < k" "k < 4" "ev_ok ev" "ev_ok ev'"
  shows "isl (DecodeTxnEvent (take k (txn_bytes ev) @ txn_bytes ev'))"
proof -
  have l: "length (txn_bytes ev') \<ge> 64" using txn_bytes_length [OF assms(4)] by simp
  define m where "m = [0x47, 0x4F, 0x4C, 0x43 :: byte]"
  have p: "take 4 (txn_bytes e) = m" for e by (simp add: txn_bytes_def txn_fields_def TxLogMagic_def le_put32_def m_def)
  have t: "take k (txn_bytes ev) = take k m" using p [of ev] assms(2) by (metis min.strict_order_iff take_take min.commute)
  let ?b = "take k (txn_bytes ev) @ txn_bytes ev'"
  have "take 4 ?b = take 4 (take k m @ m)"
    using p [of ev'] t l assms(1,2) by (auto simp: take_append)
  then have "le_get32 ?b = le_get32 (take 4 (take k m @ m))" by (metis le_get_take(2) order_refl)
  moreover have "k = 1 \<or> k = 2 \<or> k = 3" using assms(1,2) by auto
  ultimately have "le_get32 ?b \<noteq> TxLogMagic" by (auto simp: m_def le_get32_def TxLogMagic_def)
  then show ?thesis by (simp add: DecodeTxnEvent_def)
qed

text \<open>A directory whose last segment ends in the first \<open>k\<close> bytes of a record, after the events \<open>evs\<close>.\<close>

definition txlog_torn :: "Fs \<Rightarrow> TxnEvent list \<Rightarrow> nat \<Rightarrow> bool" where
  "txlog_torn fs evs k \<longleftrightarrow> (\<exists>xs i d ev b. dir_holds txLogSegmentName parseTxLogSegmentName (fs_files fs) (xs @ [(i, d @ take k b)]) \<and>
     encs txn_enc evs d \<and> txn_enc ev b \<and> 0 < k \<and> k < length b)"

lemma OpenTxLog_bad_last:
  assumes h: "dir_holds txLogSegmentName parseTxLogSegmentName (fs_files fs) (xs @ [(i, e)])" and bad: "isl (decode_all DecodeTxnEvent e)"
    and io: "fs_io fs = []"
  shows "\<exists>l. OpenTxLog fs m = Inr l \<and> sl_seq l = 0 \<and> seg_at txLogSegmentName parseTxLogSegmentName l (xs @ [(i, e)])"
proof -
  let ?l = "\<lparr>sl_fs = fs, sl_maxSegmentBytes = if m \<le> 0 then DefaultTxLogSegmentBytes else nat m, sl_f = None, sl_segIndex = 0, sl_segCount = 0, sl_curBytes = 0,
               sl_totalBytes = 0, sl_seq = 0, sl_closed = False\<rparr>"
  obtain c t where o: "seg_open txLogSegmentName parseTxLogSegmentName ?l = (Inr True :: txLog_error seg_error + bool,
     ?l\<lparr>sl_f := Some True, sl_segIndex := i, sl_curBytes := length e, sl_segCount := c, sl_totalBytes := t\<rparr>)"
    using txl.seg_open_at [of ?l "xs @ [(i, e)]", where ?'e = txLog_error] h io by auto
  define l where "l = ?l\<lparr>sl_f := Some True, sl_segIndex := i, sl_curBytes := length e, sl_segCount := c, sl_totalBytes := t\<rparr>"
  have "i \<notin> fst ` set xs" using h by (auto simp: dir_holds_def sorted_wrt_append)
  then have "map_of (fs_files fs) (txLogSegmentName i) = Some e"
    using txl.dir_holds_map_of [OF h, of i] by (simp add: map_add_def map_of_eq_None_iff [symmetric])
  then have "isl (fst (ReadTxLogSegment (txLogSegmentName i) fs)) \<and> snd (ReadTxLogSegment (txLogSegmentName i) fs) = fs"
    using bad io by (auto simp: ReadTxLogSegment_def read_segment_def op_bind_def fs_ReadFile_def fs_check_def split: sum.splits)
  then have "OpenTxLog fs m = Inr l"
    using o by (auto simp: OpenTxLog_def Let_def l_def on_fs_def split: prod.splits sum.splits)
  moreover have "seg_at txLogSegmentName parseTxLogSegmentName l (xs @ [(i, e)])" using h by (simp add: seg_at_def at_end_def l_def)
  ultimately show ?thesis by (auto simp: l_def)
qed

lemma Emit_after_torn:
  assumes at: "seg_at txLogSegmentName parseTxLogSegmentName l (xs @ [(i, d @ take k (txn_bytes ev))])"
    and bad: "isl (decode_all DecodeTxnEvent (d @ take k (txn_bytes ev)))" and h: "encs txn_enc evs d" "0 < k" "k < 4" "ev_ok ev"
    and e: "ev_ok ev1" "sl_segIndex l \<noteq> -1" "Emit ev1 l = (Inr (), l')" "fs_io (sl_fs l') = []"
  shows "isl (fst (ReadTxLogDir (sl_fs l')))"
proof -
  let ?t = "take k (txn_bytes ev)"
  obtain ev2 l1 where st: "stamp_seq ev1 l = (ev2, l1)" by (metis surj_pair)
  have l1: "seg_at txLogSegmentName parseTxLogSegmentName l1 (xs @ [(i, d @ ?t)])" "sl_segIndex l1 = sl_segIndex l" "ev_ok ev2"
    using st at e(1) by (auto simp: stamp_seq_def ev_ok_def split: if_splits)
  obtain b2 off n where b2: "EncodeTxnEvent ev2 = Inr b2" and ap: "seg_append txLogSegmentName b2 l1 = (Inr (off, n) :: txLog_error seg_error + nat \<times> nat, l')"
    using e(3) st unfolding Emit_def by (auto elim!: op_bind_InrE split: if_splits sum.splits)
  have b2': "b2 = txn_bytes ev2" using b2 l1(3) txn_enc_bytes by (auto simp: txn_enc_def)
  obtain ys dd where y: "xs @ [(i, d @ ?t)] = ys @ [(sl_segIndex l', dd)] \<or> xs @ [(i, d @ ?t)] = ys \<and> dd = []"
    "seg_at txLogSegmentName parseTxLogSegmentName l' (ys @ [(sl_segIndex l', dd @ b2)])"
    using txl.seg_append_at [OF ap l1(1)] e(2) l1(2) by auto
  have dh: "dir_holds txLogSegmentName parseTxLogSegmentName (fs_files (sl_fs l')) (ys @ [(sl_segIndex l', dd @ b2)])"
    using y(2) by (simp add: seg_at_def)
  have "\<exists>j e. (j, e) \<in> set (ys @ [(sl_segIndex l', dd @ b2)]) \<and> isl (decode_all DecodeTxnEvent e)"
  proof (cases "ys = xs @ [(i, d @ ?t)]")
    case True then show ?thesis using bad by auto
  next
    case False
    then have "dd = d @ ?t" using y(1) by auto
    moreover have "?t @ b2 \<noteq> []" using b2' txn_bytes_length [OF l1(3)] by auto
    then have "isl (decode_all DecodeTxnEvent (d @ ?t @ b2))"
      by (rule txl.decode_bad) (use h(1) torn_magic [OF h(2-4) l1(3)] b2' in auto)
    ultimately show ?thesis by auto
  qed
  then show ?thesis using txl.read_dir_bad [OF dh e(4)] by (auto simp: ReadTxLogDir_def)
qed

text \<open>The transaction log does not repair a torn tail. When a crash left a record cut short at the end
  of the last segment, \<^verbatim>\<open>OpenTxLog\<close> still succeeds, but restarts its sequence numbers at 0, and
  the directory cannot be read; and when fewer than four bytes of the record were written, no event
  emitted afterwards makes it readable again.
\<close>
theorem OpenTxLog_torn:
  assumes "txlog_torn fs evs k" "fs_io fs = []"
  shows "\<exists>l. OpenTxLog fs m = Inr l \<and> sl_seq l = 0 \<and> isl (fst (ReadTxLogDir fs)) \<and>
    (k < 4 \<longrightarrow> (\<forall>ev l'. ev_ok ev \<and> sl_segIndex l \<noteq> -1 \<and> Emit ev l = (Inr (), l') \<and> fs_io (sl_fs l') = [] \<longrightarrow> isl (fst (ReadTxLogDir (sl_fs l')))))"
proof -
  obtain xs i d ev b where h: "dir_holds txLogSegmentName parseTxLogSegmentName (fs_files fs) (xs @ [(i, d @ take k b)])"
    "encs txn_enc evs d" "txn_enc ev b" "0 < k" "k < length b" using assms(1) by (auto simp: txlog_torn_def)
  have b: "b = txn_bytes ev" "ev_ok ev" using h(3) txn_enc_bytes by (auto simp: txn_enc_def)
  have "take k b \<noteq> []" using h(4,5) by (cases b) auto
  then have bad: "isl (decode_all DecodeTxnEvent (d @ take k b))" using txl.decode_bad txl.dec_torn [OF h(3,5)] h(2) by blast
  obtain l where l: "OpenTxLog fs m = Inr l" "sl_seq l = 0" "seg_at txLogSegmentName parseTxLogSegmentName l (xs @ [(i, d @ take k b)])"
    using OpenTxLog_bad_last [OF h(1) bad assms(2)] by blast
  have "isl (fst (ReadTxLogDir fs))" using txl.read_dir_bad [OF h(1) assms(2) _ bad, of i] by (simp add: ReadTxLogDir_def)
  then show ?thesis using l Emit_after_torn [of l xs i d k ev evs] bad h(2,4) b by auto
qed

theorem OpenTxLog_torn_witness:
  "\<exists>l. OpenTxLog \<lparr>fs_files = [(txLogSegmentName 0, take 3 (txn_bytes sample_ev))], fs_io = []\<rparr> 0 = Inr l \<and> sl_seq l = 0"
proof -
  let ?fs = "\<lparr>fs_files = [(txLogSegmentName 0, take 3 (txn_bytes sample_ev))], fs_io = []\<rparr>"
  have v: "txn_valid sample_ev" by (simp add: sample_ev_def txn_valid_def ev_ok_def EventKind_Valid_def)
  have "dir_holds txLogSegmentName parseTxLogSegmentName (fs_files ?fs) ([] @ [(0, [] @ take 3 (txn_bytes sample_ev))])"
    by (auto simp: dir_holds_def txl.parse_name)
  moreover have "length (txn_bytes sample_ev) > 3" using v txn_bytes_length by (simp add: txn_valid_def)
  ultimately have "txlog_torn ?fs [] 3" unfolding txlog_torn_def using v txn_enc_bytes by (metis txl.encs_Nil zero_less_numeral)
  from OpenTxLog_torn [OF this, of 0] show ?thesis by auto
qed

end
