(* ===== verification/History.thy ===== *)
theory History
  imports Segments
begin

text \<open>
  The history of superseded versions, \<^verbatim>\<open>src/pkg/c2db/history.go\<close>: the 48-byte header codec, the
  segmented log, the index from keys to the places of their versions, built on opening with the torn
  tail of the last segment cut off, and the resolution of a key at a snapshot.
\<close>

section \<open>Records\<close>

datatype history_error = errHistoryShort | errHistoryMagic | errHistorySchema | errHistoryRange | errHistoryCRC | errHistoryClosed

definition HistoryMagic :: u32 where "HistoryMagic = 0x48535452"
definition historyVersionSchema :: u16 where "historyVersionSchema = 1"
definition historyRecordHeaderSize :: nat where [simp]: "historyRecordHeaderSize = 48"
definition historyMaxKey :: nat where [simp]: "historyMaxKey = 65536"
definition historyMaxValue :: nat where [simp]: "historyMaxValue = 2 ^ 24"
definition historyFlagTombstone :: byte where [simp]: "historyFlagTombstone = 1"
definition DefaultHistorySegmentBytes :: nat where "DefaultHistorySegmentBytes = 64 * 2 ^ 20"

record HistoryRecord =
  hr_Key :: bytes
  hr_VersionID :: bytes
  hr_Value :: bytes
  hr_Tombstone :: bool

definition EncodeHistoryRecord :: "HistoryRecord \<Rightarrow> history_error + bytes" where
  "EncodeHistoryRecord rec =
     (if hr_Key rec = [] then Inl errHistoryRange
      else if length (hr_Key rec) > historyMaxKey then Inl errHistoryRange
      else if length (hr_Value rec) > historyMaxValue then Inl errHistoryRange
      else if hr_Tombstone rec \<and> hr_Value rec \<noteq> [] then Inl errHistoryRange
      else
        let hdr = replicate historyRecordHeaderSize 0;
            hdr = put_at hdr 0 (le_put32 HistoryMagic);
            hdr = put_at hdr 4 (le_put16 historyVersionSchema);
            hdr = (if hr_Tombstone rec then hdr[6 := historyFlagTombstone] else hdr);
            hdr = put_at hdr 16 (take 16 (hr_VersionID rec));
            hdr = put_at hdr 32 (le_put32 (of_nat (length (hr_Key rec))));
            hdr = put_at hdr 36 (le_put32 (of_nat (length (hr_Value rec))));
            crc = crc32_Checksum (take 44 hdr);
            crc = crc32_Update crc (hr_Key rec);
            crc = crc32_Update crc (hr_Value rec);
            hdr = put_at hdr 44 (le_put32 crc)
        in Inr (hdr @ hr_Key rec @ hr_Value rec))"

definition DecodeHistoryRecord :: "bytes \<Rightarrow> history_error + (HistoryRecord \<times> nat)" where
  "DecodeHistoryRecord buf =
     (if length buf < historyRecordHeaderSize then Inl errHistoryShort
      else if le_get32 buf \<noteq> HistoryMagic then Inl errHistoryMagic
      else if le_get16 (drop 4 buf) \<noteq> historyVersionSchema then Inl errHistorySchema
      else
        let keyLen = unat (le_get32 (drop 32 buf)); valueLen = unat (le_get32 (drop 36 buf))
        in if keyLen = 0 \<or> keyLen > historyMaxKey \<or> valueLen > historyMaxValue then Inl errHistoryRange
        else
          let total = historyRecordHeaderSize + keyLen + valueLen
          in if length buf < total then Inl errHistoryShort
          else
            let key = bslice buf historyRecordHeaderSize keyLen;
                val = bslice buf (historyRecordHeaderSize + keyLen) valueLen;
                crc = crc32_Checksum (take 44 buf);
                crc = crc32_Update crc key;
                crc = crc32_Update crc val
            in if crc \<noteq> le_get32 (drop 44 buf) then Inl errHistoryCRC
            else Inr (\<lparr>hr_Key = key, hr_VersionID = bslice buf 16 16, hr_Value = val,
                  hr_Tombstone = (buf ! 6 AND historyFlagTombstone \<noteq> 0)\<rparr>, total))"

section \<open>The log and its index\<close>

record historyLoc =
  loc_seg :: u32
  loc_off :: nat
  loc_length :: nat
  loc_version :: bytes
  loc_tomb :: bool

record History = SegLog +
  h_index :: "bytes \<Rightarrow> historyLoc list"
  h_readBytes :: nat

definition historySegmentName :: "u32 \<Rightarrow> string" where
  "historySegmentName = seg_name ''history-''"

definition parseHistorySegmentName :: "string \<Rightarrow> u32 option" where
  "parseHistorySegmentName = seg_parse ''history-''"

definition history_openSegment :: "(History, history_error seg_error, unit) op" where
  "history_openSegment = seg_openSegment historySegmentName"

definition history_rotate :: "(History, history_error seg_error, unit) op" where
  "history_rotate = seg_rotate"

definition history_Sync :: "(History, history_error seg_error, unit) op" where
  "history_Sync = seg_Sync"

definition history_Close :: "(History, history_error seg_error, unit) op" where
  "history_Close = seg_Close"

definition indexAppend :: "bytes \<Rightarrow> historyLoc \<Rightarrow> (bytes \<Rightarrow> historyLoc list) \<Rightarrow> bytes \<Rightarrow> historyLoc list" where
  "indexAppend key loc index = index(key := index key @ [loc])"

definition history_Append :: "HistoryRecord \<Rightarrow> (History, history_error seg_error, unit) op" where
  "history_Append rec h =
     (if sl_closed h then (Inl (SegErr errHistoryClosed), h)
      else case EncodeHistoryRecord rec of
         Inl e \<Rightarrow> (Inl (SegErr e), h)
       | Inr buf \<Rightarrow> op_bind (seg_append historySegmentName buf) (\<lambda>(off, n) h.
           let h = h\<lparr>sl_seq := sl_seq h + 1\<rparr>
           in (Inr (), if n = length buf
             then h\<lparr>h_index := indexAppend (hr_Key rec) \<lparr>loc_seg = sl_segIndex h, loc_off = off, loc_length = n,
                    loc_version = hr_VersionID rec, loc_tomb = hr_Tombstone rec\<rparr> (h_index h)\<rparr>
             else h)) h)"

lemma DecodeHistory_pos: "DecodeHistoryRecord b = Inr (rec, n) \<Longrightarrow> 48 < n \<and> n \<le> length b"
  by (auto simp: DecodeHistoryRecord_def Let_def split: if_splits)

text \<open>
  The inner loop of \<^verbatim>\<open>buildIndex\<close> over the bytes of segment \<open>seg\<close> from offset \<open>off\<close>; it ends at the
  end of the data or at the first record that does not decode, and returns the index, the number of
  records, and the error with the offset it met.
\<close>

function index_segment :: "u32 \<Rightarrow> nat \<Rightarrow> bytes \<Rightarrow> (bytes \<Rightarrow> historyLoc list) \<Rightarrow> nat \<Rightarrow>
    (bytes \<Rightarrow> historyLoc list) \<times> nat \<times> (history_error \<times> nat) option" where
  "index_segment seg off data index count =
     (if data = [] then (index, count, None)
      else case DecodeHistoryRecord data of
          Inl e \<Rightarrow> (index, count, Some (e, off))
        | Inr (rec, n) \<Rightarrow>
            index_segment seg (off + n) (drop n data)
              (indexAppend (hr_Key rec) \<lparr>loc_seg = seg, loc_off = off, loc_length = n, loc_version = hr_VersionID rec,
                 loc_tomb = hr_Tombstone rec\<rparr> index) (count + 1))"
  by pat_completeness auto
termination
  by (relation "measure (\<lambda>(seg, off, data, index, count). length data)") (auto dest!: DecodeHistory_pos simp: not_le intro: diff_less)

declare index_segment.simps [simp del]

fun index_segments :: "(u32 \<times> string) list \<Rightarrow> (bytes \<Rightarrow> historyLoc list) \<Rightarrow> nat \<Rightarrow>
    (History, history_error seg_error, (bytes \<Rightarrow> historyLoc list) \<times> nat) op" where
  "index_segments [] index count = op_ret (index, count)"
| "index_segments ((idx, path) # segs) index count = op_bind (on_fs (fs_ReadFile path)) (\<lambda>data h.
     case index_segment idx 0 data index count of
       (index, count, None) \<Rightarrow> index_segments segs index count h
     | (index, count, Some (e, off)) \<Rightarrow>
         if idx \<noteq> sl_segIndex h then (Inl (SegErr e), h)
         else op_bind (on_fs (fs_Truncate path off)) (\<lambda>_ h.
           index_segments segs index count (h\<lparr>sl_totalBytes := sl_totalBytes h - (length data - off), sl_curBytes := off\<rparr>)) h)"

definition buildIndex :: "(History, history_error seg_error, unit) op" where
  "buildIndex = op_bind (on_fs fs_ReadDir) (\<lambda>entries.
     op_bind (index_segments (seg_names parseHistorySegmentName entries) (\<lambda>_. []) 0) (\<lambda>(index, count) h.
       (Inr (), h\<lparr>h_index := index, sl_seq := of_nat count\<rparr>)))"

definition OpenHistory :: "Fs \<Rightarrow> int \<Rightarrow> history_error seg_error + History" where
  "OpenHistory fs maxSegmentBytes =
     (let m = (if maxSegmentBytes \<le> 0 then DefaultHistorySegmentBytes else nat maxSegmentBytes);
          h = \<lparr>sl_fs = fs, sl_maxSegmentBytes = m, sl_f = None, sl_segIndex = 0, sl_segCount = 0, sl_curBytes = 0,
               sl_totalBytes = 0, sl_seq = 0, sl_closed = False, h_index = (\<lambda>_. []), h_readBytes = 0\<rparr>
      in case op_bind (seg_open historySegmentName parseHistorySegmentName) (\<lambda>_. buildIndex) h of
           (Inl e, h) \<Rightarrow> Inl e
         | (Inr _, h) \<Rightarrow> Inr h)"

section \<open>Resolution\<close>

text \<open>The choice of the best candidate, over locations as over records.\<close>

fun best_version :: "('a \<Rightarrow> bytes) \<Rightarrow> bytes \<Rightarrow> 'a option \<Rightarrow> 'a list \<Rightarrow> 'a option" where
  "best_version ver snap best [] = best"
| "best_version ver snap best (x # xs) =
     (if bytes_Compare (ver x) snap > 0 then best_version ver snap best xs
      else case best of
          None \<Rightarrow> best_version ver snap (Some x) xs
        | Some y \<Rightarrow> best_version ver snap (if bytes_Compare (ver x) (ver y) > 0 then Some x else best) xs)"

definition fs_ReadAt :: "string \<Rightarrow> nat \<Rightarrow> nat \<Rightarrow> (Fs, 'e seg_error, bytes) op" where
  "fs_ReadAt path off len = op_bind (fs_ReadFile path) (\<lambda>data. op_bind fs_check (\<lambda>_ fs.
     if length (bslice data off len) < len then (Inl (SegIO 0), fs) else (Inr (bslice data off len), fs)))"

definition readLoc :: "historyLoc \<Rightarrow> (History, history_error seg_error, HistoryRecord) op" where
  "readLoc loc = op_bind (on_fs (fs_ReadAt (historySegmentName (loc_seg loc)) (loc_off loc) (loc_length loc))) (\<lambda>buf h.
     case DecodeHistoryRecord buf of
       Inl e \<Rightarrow> (Inl (SegErr e), h)
     | Inr (rec, n) \<Rightarrow> if n \<noteq> loc_length loc then (Inl (SegErr errHistoryRange), h)
                      else (Inr rec, h\<lparr>h_readBytes := h_readBytes h + loc_length loc\<rparr>))"

definition Resolve :: "bytes \<Rightarrow> bytes \<Rightarrow> (History, history_error seg_error, HistoryRecord option) op" where
  "Resolve key snap h =
     (if sl_closed h then (Inl (SegErr errHistoryClosed), h)
      else case best_version loc_version snap None (h_index h key) of
          None \<Rightarrow> (Inr None, h)
        | Some best \<Rightarrow> op_bind (readLoc best) (\<lambda>rec. op_ret (Some rec)) h)"

definition HasTombstone :: "bytes \<Rightarrow> bytes \<Rightarrow> History \<Rightarrow> bool" where
  "HasTombstone key vid h \<longleftrightarrow> list_ex (\<lambda>loc. loc_tomb loc \<and> loc_version loc = vid) (h_index h key)"

definition ReadHistorySegment :: "string \<Rightarrow> (Fs, history_error seg_error, HistoryRecord list) op" where
  "ReadHistorySegment = read_segment DecodeHistoryRecord"

definition ReadHistoryDir :: "(Fs, history_error seg_error, HistoryRecord list) op" where
  "ReadHistoryDir = read_dir parseHistorySegmentName DecodeHistoryRecord"

definition ResolveHistoryDir :: "bytes \<Rightarrow> bytes \<Rightarrow> (Fs, history_error seg_error, HistoryRecord option) op" where
  "ResolveHistoryDir key snap = op_bind ReadHistoryDir (\<lambda>recs.
     op_ret (best_version hr_VersionID snap None (filter (\<lambda>r. hr_Key r = key) recs)))"

section \<open>The codec\<close>

definition hist_valid :: "HistoryRecord \<Rightarrow> bool" where
  "hist_valid rec \<longleftrightarrow> length (hr_VersionID rec) = 16 \<and> hr_Key rec \<noteq> [] \<and> length (hr_Key rec) \<le> historyMaxKey \<and>
     length (hr_Value rec) \<le> historyMaxValue \<and> (hr_Tombstone rec \<longrightarrow> hr_Value rec = [])"

definition hist_enc :: "HistoryRecord \<Rightarrow> bytes \<Rightarrow> bool" where
  "hist_enc rec b \<longleftrightarrow> length (hr_VersionID rec) = 16 \<and> EncodeHistoryRecord rec = Inr b"

definition hist_fields :: "HistoryRecord \<Rightarrow> bytes" where
  "hist_fields rec = le_put32 HistoryMagic @ le_put16 historyVersionSchema @ [if hr_Tombstone rec then 1 else 0] @ replicate 9 0 @
     hr_VersionID rec @ le_put32 (of_nat (length (hr_Key rec))) @ le_put32 (of_nat (length (hr_Value rec))) @ replicate 4 0"

definition hist_bytes :: "HistoryRecord \<Rightarrow> bytes" where
  "hist_bytes rec = hist_fields rec @ le_put32 (crc32_Checksum (hist_fields rec @ hr_Key rec @ hr_Value rec)) @ hr_Key rec @ hr_Value rec"

lemma hist_fields_length: "length (hr_VersionID rec) = 16 \<Longrightarrow> length (hist_fields rec) = 44"
  by (simp add: hist_fields_def)

lemma hist_header:
  assumes "length v = 16"
  shows "put_at (put_at (put_at (if tb then (put_at (put_at (replicate 48 0) 0 (le_put32 m)) 4 (le_put16 s))[6 := 1] else put_at (put_at (replicate 48 0) 0 (le_put32 m)) 4 (le_put16 s)) 16 v) 32 (le_put32 k)) 36 (le_put32 l) =
    filled 48 (le_put32 m @ le_put16 s @ [if tb then 1 else 0] @ replicate 9 0 @ v @ le_put32 k @ le_put32 l @ replicate 4 0)"
proof -
  let ?f = "if tb then 1 else 0 :: byte"
  have a: "put_at (put_at (replicate 48 0) 0 (le_put32 m)) 4 (le_put16 s) = filled 48 (le_put32 m @ le_put16 s)"
    by (simp add: filled_Nil put_at_filled)
  have tb: "(if tb then (filled 48 (le_put32 m @ le_put16 s))[6 := 1] else filled 48 (le_put32 m @ le_put16 s)) = filled 48 (le_put32 m @ le_put16 s @ [?f])"
  proof (cases tb)
    case True then show ?thesis by (simp add: list_update_put_at put_at_filled del: put_at.simps)
  next
    case False then show ?thesis using filled_skip [of "le_put32 m @ le_put16 s" 1 48] by simp
  qed
  have "filled 48 (le_put32 m @ le_put16 s @ [?f]) = filled 48 (le_put32 m @ le_put16 s @ [?f] @ replicate 9 0)"
    using filled_skip [of "le_put32 m @ le_put16 s @ [?f]" 9 48] by simp
  then have b: "(if tb then (filled 48 (le_put32 m @ le_put16 s))[6 := 1] else filled 48 (le_put32 m @ le_put16 s)) =
      filled 48 (le_put32 m @ le_put16 s @ [?f] @ replicate 9 0)" using tb by metis
  have c: "put_at (put_at (put_at (filled 48 (le_put32 m @ le_put16 s @ [?f] @ replicate 9 0)) 16 v) 32 (le_put32 k)) 36 (le_put32 l) =
      filled 48 (le_put32 m @ le_put16 s @ [?f] @ replicate 9 0 @ v @ le_put32 k @ le_put32 l)"
    using assms by (simp add: put_at_filled)
  show ?thesis
    unfolding a b c
    using assms filled_skip [of "le_put32 m @ le_put16 s @ [?f] @ replicate 9 0 @ v @ le_put32 k @ le_put32 l" 4 48] by simp
qed

lemma hist_enc_bytes: "hist_enc rec b \<longleftrightarrow> hist_valid rec \<and> b = hist_bytes rec"
proof (cases "hist_valid rec")
  case True
  then have l: "length (hr_VersionID rec) = 16" by (simp add: hist_valid_def)
  have t: "take 44 (filled 48 (hist_fields rec)) = hist_fields rec" using hist_fields_length [OF l] by (rule take_filled)
  have p: "put_at (filled 48 (hist_fields rec)) 44 (le_put32 c) = hist_fields rec @ le_put32 c" for c
    using hist_fields_length [OF l] by (simp add: put_at_filled filled_full)
  have "EncodeHistoryRecord rec = Inr (hist_bytes rec)"
    unfolding EncodeHistoryRecord_def Let_def historyRecordHeaderSize_def historyFlagTombstone_def
    using True l by (simp only: hist_header take_all order_refl hist_fields_def [symmetric] t p)
      (simp add: hist_valid_def hist_bytes_def not_less)
  then show ?thesis using True by (auto simp: hist_enc_def hist_valid_def)
next
  case False
  then show ?thesis by (auto simp: hist_enc_def hist_valid_def EncodeHistoryRecord_def split: if_splits)
qed

lemma hist_bytes_length: "length (hr_VersionID rec) = 16 \<Longrightarrow> length (hist_bytes rec) = 48 + length (hr_Key rec) + length (hr_Value rec)"
  by (simp add: hist_bytes_def hist_fields_length)

lemma hist_head:
  assumes "length (hr_VersionID rec) = 16" "b = hist_fields rec @ rest"
  shows "le_get32 b = HistoryMagic" "le_get16 (drop 4 b) = historyVersionSchema" "b ! 6 = (if hr_Tombstone rec then 1 else 0)"
    "bslice b 16 16 = hr_VersionID rec"
    "le_get32 (drop 32 b) = of_nat (length (hr_Key rec))" "le_get32 (drop 36 b) = of_nat (length (hr_Value rec))"
  using assms(1) unfolding assms(2)
  by (simp_all add: hist_fields_def bslice_def nth_append)

lemma unat_len32: "n < 2 ^ 32 \<Longrightarrow> unat (of_nat n :: u32) = n"
  by (simp add: unat_of_nat take_bit_nat_eq_self)

lemma Decode_hist_bytes:
  assumes "hist_valid rec"
  shows "DecodeHistoryRecord (hist_bytes rec @ rest) = Inr (rec, length (hist_bytes rec))"
proof -
  let ?b = "hist_bytes rec @ rest" and ?k = "hr_Key rec" and ?p = "hr_Value rec"
  let ?c = "crc32_Checksum (hist_fields rec @ ?k @ ?p)"
  have ok: "length (hr_VersionID rec) = 16" using assms by (simp add: hist_valid_def)
  have l: "length (hist_fields rec) = 44" using ok by (rule hist_fields_length)
  have b: "?b = hist_fields rec @ le_put32 ?c @ ?k @ ?p @ rest" by (simp add: hist_bytes_def)
  note h = hist_head [OF ok b]
  have n: "unat (of_nat (length ?k) :: u32) = length ?k" "unat (of_nat (length ?p) :: u32) = length ?p"
    using assms by (auto intro!: unat_len32 simp: hist_valid_def)
  have s: "bslice ?b 48 (length ?k) = ?k" "bslice ?b (48 + length ?k) (length ?p) = ?p" "take 44 ?b = hist_fields rec" "le_get32 (drop 44 ?b) = ?c"
    using l unfolding b by (simp_all add: bslice_def)
  have len: "length ?b = 48 + length ?k + length ?p + length rest" using l by (simp add: hist_bytes_def)
  have fl: "((if hr_Tombstone rec then 1 else 0) AND historyFlagTombstone \<noteq> 0) = hr_Tombstone rec" by simp
  show ?thesis
    unfolding DecodeHistoryRecord_def Let_def h historyRecordHeaderSize_def n s fl
    using assms by (simp add: hist_valid_def not_le not_less hist_bytes_length ok len)
qed

lemma DecodeHistory_short: "length b < 48 \<Longrightarrow> isl (DecodeHistoryRecord b)"
  by (simp add: DecodeHistoryRecord_def)

lemma DecodeHistory_torn:
  assumes "hist_valid rec" "k < length (hist_bytes rec)"
  shows "isl (DecodeHistoryRecord (take k (hist_bytes rec)))"
proof (cases "k < 48")
  case True
  then show ?thesis by (intro DecodeHistory_short) simp
next
  case False
  let ?b = "take k (hist_bytes rec)"
  have ok: "length (hr_VersionID rec) = 16" using assms by (simp add: hist_valid_def)
  have b: "?b = hist_fields rec @ take (k - 44) (drop 44 (hist_bytes rec))"
    using False hist_fields_length [OF ok] by (simp add: hist_bytes_def take_append)
  note h = hist_head [OF ok b]
  have n: "unat (of_nat (length (hr_Key rec)) :: u32) = length (hr_Key rec)" "unat (of_nat (length (hr_Value rec)) :: u32) = length (hr_Value rec)"
    using assms(1) by (auto intro!: unat_len32 simp: hist_valid_def)
  show ?thesis
    unfolding DecodeHistoryRecord_def Let_def h n using assms False hist_bytes_length [OF ok] by (auto simp: hist_valid_def)
qed

interpretation hst: seg_records hist_enc DecodeHistoryRecord historySegmentName parseHistorySegmentName
proof
  show "hist_enc r b \<Longrightarrow> DecodeHistoryRecord (b @ rest) = Inr (r, length b)" for r b rest by (simp add: hist_enc_bytes Decode_hist_bytes)
  show "DecodeHistoryRecord b = Inr (r, n) \<Longrightarrow> 0 < n" for b r n using DecodeHistory_pos by fastforce
  show "hist_enc r b \<Longrightarrow> k < length b \<Longrightarrow> isl (DecodeHistoryRecord (take k b))" for r b k by (simp add: hist_enc_bytes DecodeHistory_torn)
  show "parseHistorySegmentName (historySegmentName i) = Some i" for i
    by (simp add: parseHistorySegmentName_def historySegmentName_def seg_parse_name)
qed

section \<open>The history as a list of records\<close>

definition mk_loc :: "u32 \<Rightarrow> nat \<Rightarrow> HistoryRecord \<Rightarrow> historyLoc" where
  "mk_loc seg off r = \<lparr>loc_seg = seg, loc_off = off, loc_length = length (hist_bytes r), loc_version = hr_VersionID r, loc_tomb = hr_Tombstone r\<rparr>"

fun seg_locs :: "u32 \<Rightarrow> nat \<Rightarrow> HistoryRecord list \<Rightarrow> (HistoryRecord \<times> historyLoc) list" where
  "seg_locs seg off [] = []"
| "seg_locs seg off (r # rs) = (r, mk_loc seg off r) # seg_locs seg (off + length (hist_bytes r)) rs"

definition all_locs :: "(u32 \<times> bytes) list \<Rightarrow> HistoryRecord list list \<Rightarrow> (HistoryRecord \<times> historyLoc) list" where
  "all_locs L rss = concat (map2 (\<lambda>(i, d). seg_locs i 0) L rss)"

definition index_of :: "(HistoryRecord \<times> historyLoc) list \<Rightarrow> bytes \<Rightarrow> historyLoc list" where
  "index_of ps key = map snd (filter (\<lambda>p. hr_Key (fst p) = key) ps)"

text \<open>
  A history that holds the records \<open>rs\<close>: its segments are their encodings, in order, and the index
  lists for every key the places of its records, in order.
\<close>

definition hist_holds :: "History \<Rightarrow> HistoryRecord list \<Rightarrow> bool" where
  "hist_holds h rs \<longleftrightarrow> (\<exists>L rss. seg_at historySegmentName parseHistorySegmentName h L \<and>
     list_all2 (\<lambda>(i, d) r. encs hist_enc r d) L rss \<and> rs = concat rss \<and> h_index h = index_of (all_locs L rss))"

lemma map_fst_seg_locs: "map fst (seg_locs seg off rs) = rs"
  by (induction rs arbitrary: off) auto

lemma map_fst_all_locs: "length L = length rss \<Longrightarrow> map fst (all_locs L rss) = concat rss"
  by (induction L rss rule: list_induct2) (auto simp: all_locs_def map_fst_seg_locs)

lemma seg_locs_snoc:
  "encs hist_enc rs d \<Longrightarrow> seg_locs seg off (rs @ [r]) = seg_locs seg off rs @ [(r, mk_loc seg (off + length d) r)]"
proof (induction rs arbitrary: off d)
  case (Cons x rs)
  then obtain b d' where d: "hist_enc x b" "encs hist_enc rs d'" "d = b @ d'" by (auto simp: hst.encs_Cons)
  then have "length (hist_bytes x) = length b" by (simp add: hist_enc_bytes)
  then show ?case using Cons.IH [OF d(2), of "off + length b"] d(3) by (simp add: add.assoc)
qed simp

lemma all_locs_append: "length L = length rss \<Longrightarrow> all_locs (L @ L') (rss @ rss') = all_locs L rss @ all_locs L' rss'"
  by (simp add: all_locs_def)

lemma seg_locs_slice:
  "(r, loc) \<in> set (seg_locs seg off rs) \<Longrightarrow> encs hist_enc rs d \<Longrightarrow>
   hist_valid r \<and> (\<exists>o'. loc = mk_loc seg (off + o') r \<and> bslice d o' (length (hist_bytes r)) = hist_bytes r)"
proof (induction rs arbitrary: off d)
  case (Cons x rs)
  then obtain b d' where d: "hist_enc x b" "encs hist_enc rs d'" "d = b @ d'" by (auto simp: hst.encs_Cons)
  then have b: "b = hist_bytes x" "hist_valid x" by (simp_all add: hist_enc_bytes)
  show ?case
  proof (cases "(r, loc) = (x, mk_loc seg off x)")
    case True
    then show ?thesis using b d(3) by (auto intro!: exI [of _ 0] simp: bslice_def)
  next
    case False
    then have "(r, loc) \<in> set (seg_locs seg (off + length b) rs)" using Cons.prems(1) b by auto
    from Cons.IH [OF this d(2)] obtain o' where "hist_valid r" "loc = mk_loc seg (off + length b + o') r" "bslice d' o' (length (hist_bytes r)) = hist_bytes r"
      by blast
    then show ?thesis using d(3) by (auto intro!: exI [of _ "length b + o'"] simp: bslice_def add.assoc)
  qed
qed simp

lemma all_locs_slice:
  assumes "(r, loc) \<in> set (all_locs L rss)" "list_all2 (\<lambda>(i, d) r. encs hist_enc r d) L rss"
  shows "hist_valid r \<and> (\<exists>i d o'. (i, d) \<in> set L \<and> loc = mk_loc i o' r \<and> bslice d o' (length (hist_bytes r)) = hist_bytes r)"
proof -
  obtain i d rs where m: "((i, d), rs) \<in> set (zip L rss)" "(r, loc) \<in> set (seg_locs i 0 rs)"
    using assms(1) by (auto simp: all_locs_def)
  then have "encs hist_enc rs d" using assms(2) by (auto simp: list_all2_iff)
  from seg_locs_slice [OF m(2) this] obtain o' where "hist_valid r" "loc = mk_loc i o' r" "bslice d o' (length (hist_bytes r)) = hist_bytes r"
    by auto
  moreover have "(i, d) \<in> set L" using m(1) by (meson set_zip_leftD)
  ultimately show ?thesis by blast
qed

subsection \<open>Appending\<close>

lemma history_Append_holds:
  assumes "hist_holds h rs" "length (hr_VersionID r) = 16" "sl_segIndex h \<noteq> -1" "history_Append r h = (Inr u, h')"
  shows "hist_holds h' (rs @ [r]) \<and> sl_closed h' = sl_closed h"
proof -
  obtain L rss where L: "seg_at historySegmentName parseHistorySegmentName h L" "list_all2 (\<lambda>(i, d) r. encs hist_enc r d) L rss"
    "rs = concat rss" "h_index h = index_of (all_locs L rss)" using assms(1) by (auto simp: hist_holds_def)
  obtain b off n h1 where b: "EncodeHistoryRecord r = Inr b"
    and ap: "seg_append historySegmentName b h = (Inr (off, n) :: history_error seg_error + nat \<times> nat, h1)"
    and h': "h' = (let h = h1\<lparr>sl_seq := sl_seq h1 + 1\<rparr> in if n = length b
             then h\<lparr>h_index := indexAppend (hr_Key r) \<lparr>loc_seg = sl_segIndex h, loc_off = off, loc_length = n,
                    loc_version = hr_VersionID r, loc_tomb = hr_Tombstone r\<rparr> (h_index h)\<rparr> else h)"
    using assms(4) unfolding history_Append_def by (auto elim!: op_bind_InrE simp: Let_def split: if_splits sum.splits)
  have e: "hist_enc r b" "b = hist_bytes r" using b assms(2) hist_enc_bytes by (auto simp: hist_enc_def)
  obtain xs d where x: "L = xs @ [(sl_segIndex h1, d)] \<or> L = xs \<and> d = []"
    "seg_at historySegmentName parseHistorySegmentName h1 (xs @ [(sl_segIndex h1, d @ b)])" "off = length d" "n = length b"
    "sl_closed h1 = sl_closed h" "sl_seq h1 = sl_seq h" "SegLog.more h1 = SegLog.more h"
    using hst.seg_append_at [OF ap L(1) assms(3)] by blast
  have ix: "h_index h1 = h_index h" "sl_closed h1 = sl_closed h" using x(5,7) by (cases h; cases h1; simp)+
  obtain rss1 rs1 where r: "list_all2 (\<lambda>(i, d) r. encs hist_enc r d) xs rss1" "encs hist_enc rs1 d" "concat rss = concat rss1 @ rs1"
    "all_locs L rss = all_locs xs rss1 @ seg_locs (sl_segIndex h1) 0 rs1"
  proof (cases "L = xs \<and> d = []")
    case True
    then show ?thesis using that [of rss "[]"] L(2) by simp
  next
    case False
    then have Lx: "L = xs @ [(sl_segIndex h1, d)]" using x(1) by blast
    then obtain us z where "rss = us @ [z]" "list_all2 (\<lambda>(i, d) r. encs hist_enc r d) xs us" "encs hist_enc z d"
      using L(2) by (auto simp: list_all2_append1 list_all2_Cons1)
    then show ?thesis using that [of us z] Lx by (simp add: all_locs_append list_all2_lengthD) (simp add: all_locs_def)
  qed
  let ?L = "xs @ [(sl_segIndex h1, d @ b)]" and ?rss = "rss1 @ [rs1 @ [r]]"
  have "list_all2 (\<lambda>(i, d) r. encs hist_enc r d) ?L ?rss" using r(1,2) hst.encs_snoc [OF r(2) e(1)] by (auto intro: list_all2_appendI)
  moreover have "all_locs ?L ?rss = all_locs L rss @ [(r, mk_loc (sl_segIndex h1) (length d) r)]"
    using r(1,4) seg_locs_snoc [OF r(2), of "sl_segIndex h1" 0 r] by (simp add: all_locs_append list_all2_lengthD) (simp add: all_locs_def)
  then have "h_index h' = index_of (all_locs ?L ?rss)"
    using h' x(3,4) ix L(4) e(2) by (auto simp: Let_def indexAppend_def index_of_def fun_eq_iff mk_loc_def)
  moreover have "seg_at historySegmentName parseHistorySegmentName h' ?L"
    using x(2) seg_at_cong [of h' h1] h' by (simp add: Let_def)
  ultimately have "hist_holds h' (rs @ [r])" unfolding hist_holds_def using L(3) r(3) by fastforce
  moreover have "sl_closed h' = sl_closed h" using h' ix by (auto simp: Let_def split: if_splits)
  ultimately show ?thesis by blast
qed

subsection \<open>Resolving\<close>

lemma best_version_map:
  "best_version ver snap (map_option f b) (map f xs) = map_option f (best_version (\<lambda>x. ver (f x)) snap b xs)"
proof (induction xs arbitrary: b)
  case (Cons x xs)
  show ?case using Cons.IH [of b] Cons.IH [of "Some x"] by (cases b) simp_all
qed simp

lemma best_version_cong:
  "(\<And>x. x \<in> set xs \<union> set_option b \<Longrightarrow> v1 x = v2 x) \<Longrightarrow> best_version v1 snap b xs = best_version v2 snap b xs"
proof (induction xs arbitrary: b)
  case (Cons x xs)
  have "best_version v1 snap b xs = best_version v2 snap b xs" "best_version v1 snap (Some x) xs = best_version v2 snap (Some x) xs"
    using Cons.prems by (intro Cons.IH; auto)+
  then show ?case using Cons.prems by (cases b) auto
qed simp

lemma best_version_set: "best_version ver snap b xs = Some y \<Longrightarrow> y \<in> set xs \<or> b = Some y"
proof (induction xs arbitrary: b)
  case (Cons x xs)
  then show ?case by (cases b) (auto split: if_splits)
qed simp

text \<open>The choice is the greatest version that is not above the snapshot.\<close>

lemma best_version_greatest:
  assumes "\<forall>y \<in> set_option b. ver y \<le> snap"
  shows "case best_version ver snap b xs of
      None \<Rightarrow> b = None \<and> (\<forall>x \<in> set xs. \<not> ver x \<le> snap)
    | Some y \<Rightarrow> ver y \<le> snap \<and> (\<forall>x \<in> set xs \<union> set_option b. ver x \<le> snap \<longrightarrow> ver x \<le> ver y)"
  using assms
proof (induction xs arbitrary: b)
  case Nil then show ?case by (cases b) auto
next
  case (Cons x xs)
  show ?case
  proof (cases "ver x \<le> snap")
    case False
    then show ?thesis using Cons.IH [OF Cons.prems] by (auto simp: bytes_Compare_simps split: option.splits)
  next
    case True
    let ?b = "case b of None \<Rightarrow> Some x | Some y \<Rightarrow> if bytes_Compare (ver x) (ver y) > 0 then Some x else b"
    have e: "best_version ver snap b (x # xs) = best_version ver snap ?b xs"
      using True by (cases b) (auto simp: bytes_Compare_simps not_less)
    have "\<forall>y \<in> set_option ?b. ver y \<le> snap" using True Cons.prems by (auto split: option.splits if_splits)
    from Cons.IH [OF this] show ?thesis
      unfolding e using True Cons.prems by (cases b) (auto simp: bytes_Compare_simps not_less split: option.splits if_splits)
  qed
qed

lemma readLoc_live:
  assumes "seg_at historySegmentName parseHistorySegmentName h L" "(i, d) \<in> set L" "bslice d o' (length (hist_bytes r)) = hist_bytes r"
    "hist_valid r" "fs_io (sl_fs h) = []"
  shows "readLoc (mk_loc i o' r) h = (Inr r, h\<lparr>h_readBytes := h_readBytes h + length (hist_bytes r)\<rparr>)"
proof -
  have dh: "dir_holds historySegmentName parseHistorySegmentName (fs_files (sl_fs h)) L" using assms(1) by (simp add: seg_at_def)
  have "map_of L i = Some d" using dh assms(2) by (auto simp: dir_holds_def strict_sorted_iff map_of_eq_Some_iff)
  then have "map_of (fs_files (sl_fs h)) (historySegmentName i) = Some d" using hst.dir_holds_map_of [OF dh] by simp
  then have "fs_ReadAt (historySegmentName i) o' (length (hist_bytes r)) (sl_fs h) = (Inr (hist_bytes r) :: history_error seg_error + bytes, sl_fs h)"
    using assms(3,5) by (simp add: fs_ReadAt_def fs_ReadFile_def op_bind_def fs_check_def del: bslice_length)
  moreover have "DecodeHistoryRecord (hist_bytes r) = Inr (r, length (hist_bytes r))" using Decode_hist_bytes [OF assms(4), of "[]"] by simp
  ultimately show ?thesis by (simp add: readLoc_def mk_loc_def op_bind_def on_fs_def)
qed

definition resolve_spec :: "HistoryRecord list \<Rightarrow> bytes \<Rightarrow> bytes \<Rightarrow> HistoryRecord option" where
  "resolve_spec rs key snap = best_version hr_VersionID snap None (filter (\<lambda>r. hr_Key r = key) rs)"

lemma Resolve_live:
  assumes "hist_holds h rs" "fs_io (sl_fs h) = []" "\<not> sl_closed h"
  shows "\<exists>h'. Resolve key snap h = (Inr (resolve_spec rs key snap), h') \<and> sl_fs h' = sl_fs h"
proof -
  obtain L rss where L: "seg_at historySegmentName parseHistorySegmentName h L" "list_all2 (\<lambda>(i, d) r. encs hist_enc r d) L rss"
    "rs = concat rss" "h_index h = index_of (all_locs L rss)" using assms(1) by (auto simp: hist_holds_def)
  let ?ps = "filter (\<lambda>p. hr_Key (fst p) = key) (all_locs L rss)"
  let ?best = "best_version (\<lambda>p. loc_version (snd p)) snap None ?ps"
  have v: "loc_version (snd p) = hr_VersionID (fst p)" if "p \<in> set ?ps" for p
    using that all_locs_slice [OF _ L(2), of "fst p" "snd p"] by (auto simp: mk_loc_def)
  have "filter (\<lambda>r. hr_Key r = key) rs = map fst ?ps"
    unfolding L(3) map_fst_all_locs [OF list_all2_lengthD [OF L(2)], symmetric] by (simp add: filter_map comp_def)
  then have r: "resolve_spec rs key snap = map_option fst ?best"
    using best_version_map [of hr_VersionID snap fst None ?ps] best_version_cong [of ?ps None "\<lambda>p. loc_version (snd p)" "\<lambda>p. hr_VersionID (fst p)"] v
    by (simp add: resolve_spec_def)
  have l: "best_version loc_version snap None (h_index h key) = map_option snd ?best"
    using best_version_map [of loc_version snap snd None ?ps] by (simp add: L(4) index_of_def)
  show ?thesis
  proof (cases ?best)
    case None then show ?thesis using r l assms(3) by (simp add: Resolve_def)
  next
    case (Some p)
    then have p: "(fst p, snd p) \<in> set (all_locs L rss)" using best_version_set by fastforce
    obtain i d o' where s: "hist_valid (fst p)" "(i, d) \<in> set L" "snd p = mk_loc i o' (fst p)" "bslice d o' (length (hist_bytes (fst p))) = hist_bytes (fst p)"
      using all_locs_slice [OF p L(2)] by blast
    show ?thesis
      using readLoc_live [OF L(1) s(2,4,1) assms(2)] r l Some s(3) assms(3) by (simp add: Resolve_def op_bind_def)
  qed
qed

text \<open>
  C15. A read at a snapshot finds the right version. On a history that holds the records \<open>rs\<close>,
  \<^verbatim>\<open>Resolve\<close> returns the record of the key with the greatest version that is not above the
  snapshot, or none when the key has no such version; reading the one record that the index names gives
  the same answer as reading the whole directory.
\<close>
theorem Resolve_greatest:
  assumes "hist_holds h rs" "fs_io (sl_fs h) = []" "\<not> sl_closed h"
  shows "\<exists>best h'. Resolve key snap h = (Inr best, h') \<and> ResolveHistoryDir key snap (sl_fs h) = (Inr best, sl_fs h) \<and>
    (case best of
       None \<Rightarrow> \<forall>r \<in> set rs. hr_Key r = key \<longrightarrow> bytes_Compare (hr_VersionID r) snap > 0
     | Some r \<Rightarrow> r \<in> set rs \<and> hr_Key r = key \<and> bytes_Compare (hr_VersionID r) snap \<le> 0 \<and>
         (\<forall>r' \<in> set rs. hr_Key r' = key \<longrightarrow> bytes_Compare (hr_VersionID r') snap \<le> 0 \<longrightarrow> bytes_Compare (hr_VersionID r') (hr_VersionID r) \<le> 0))"
proof -
  obtain h' where h': "Resolve key snap h = (Inr (resolve_spec rs key snap), h')" using Resolve_live [OF assms] by blast
  have "log_holds hist_enc historySegmentName parseHistorySegmentName h rs" using assms(1) by (auto simp: hist_holds_def log_holds_def)
  from hst.read_dir_holds [OF this assms(2)]
  have "ResolveHistoryDir key snap (sl_fs h) = (Inr (resolve_spec rs key snap), sl_fs h)"
    by (simp add: ResolveHistoryDir_def ReadHistoryDir_def op_bind_def resolve_spec_def)
  moreover have "case resolve_spec rs key snap of
       None \<Rightarrow> \<forall>r \<in> set rs. hr_Key r = key \<longrightarrow> bytes_Compare (hr_VersionID r) snap > 0
     | Some r \<Rightarrow> r \<in> set rs \<and> hr_Key r = key \<and> bytes_Compare (hr_VersionID r) snap \<le> 0 \<and>
         (\<forall>r' \<in> set rs. hr_Key r' = key \<longrightarrow> bytes_Compare (hr_VersionID r') snap \<le> 0 \<longrightarrow> bytes_Compare (hr_VersionID r') (hr_VersionID r) \<le> 0)"
    using best_version_greatest [of None hr_VersionID snap "filter (\<lambda>r. hr_Key r = key) rs"]
      best_version_set [of hr_VersionID snap None "filter (\<lambda>r. hr_Key r = key) rs"]
    unfolding resolve_spec_def bytes_Compare_simps
    by (cases "best_version hr_VersionID snap None (filter (\<lambda>r. hr_Key r = key) rs)") (simp_all add: not_le)
  ultimately show ?thesis using h' by blast
qed

subsection \<open>Opening\<close>

lemma fold_index_of:
  "fold (\<lambda>p. indexAppend (hr_Key (fst p)) (snd p)) ps (index_of qs) = index_of (qs @ ps)"
proof (induction ps arbitrary: qs)
  case (Cons p ps)
  have "indexAppend (hr_Key (fst p)) (snd p) (index_of qs) = index_of (qs @ [p])" by (auto simp: indexAppend_def index_of_def fun_eq_iff)
  then show ?case using Cons.IH [of "qs @ [p]"] by simp
qed simp

lemma index_segment_encs:
  "encs hist_enc rs d \<Longrightarrow> index_segment seg off (d @ t) ix c =
     index_segment seg (off + length d) t (fold (\<lambda>p. indexAppend (hr_Key (fst p)) (snd p)) (seg_locs seg off rs) ix) (c + length rs)"
proof (induction rs arbitrary: d off ix c)
  case (Cons r rs)
  then obtain b d' where d: "hist_enc r b" "encs hist_enc rs d'" "d = b @ d'" by (auto simp: hst.encs_Cons)
  then have b: "b = hist_bytes r" "b \<noteq> []" using hst.enc_nonempty by (auto simp: hist_enc_bytes)
  have "index_segment seg off (d @ t) ix c = index_segment seg (off + length b) (d' @ t) (indexAppend (hr_Key r) (mk_loc seg off r) ix) (c + 1)"
    using hst.dec_enc [OF d(1), of "d' @ t"] d(3) b by (subst index_segment.simps) (simp add: mk_loc_def)
  also have "\<dots> = index_segment seg (off + length b + length d') t
      (fold (\<lambda>p. indexAppend (hr_Key (fst p)) (snd p)) (seg_locs seg (off + length b) rs) (indexAppend (hr_Key r) (mk_loc seg off r) ix)) (c + 1 + length rs)"
    by (rule Cons.IH [OF d(2)])
  finally show ?case using b(1) d(3) by (simp add: add.assoc)
qed simp

lemma index_segments_full:
  assumes "dir_holds historySegmentName parseHistorySegmentName (fs_files (sl_fs h)) L" "fs_io (sl_fs h) = []"
  shows "list_all2 (\<lambda>(i, d) r. encs hist_enc r d) xs rss \<Longrightarrow> set xs \<subseteq> set L \<Longrightarrow>
    index_segments (map (\<lambda>(i, d). (i, historySegmentName i)) xs @ segs) (index_of qs) c h =
    index_segments segs (index_of (qs @ all_locs xs rss)) (c + length (concat rss)) h"
proof (induction xs rss arbitrary: qs c rule: list_all2_induct)
  case Nil then show ?case by (simp add: all_locs_def)
next
  case (Cons x xs rs rss)
  obtain i d where x: "x = (i, d)" by (cases x)
  have "map_of L i = Some d" using assms(1) Cons.prems x by (auto simp: dir_holds_def strict_sorted_iff map_of_eq_Some_iff)
  then have "map_of (fs_files (sl_fs h)) (historySegmentName i) = Some d" using hst.dir_holds_map_of [OF assms(1)] by simp
  then have rd: "on_fs (fs_ReadFile (historySegmentName i)) h = (Inr d :: history_error seg_error + bytes, h)"
    using assms(2) by (simp add: on_fs_def fs_ReadFile_def fs_check_def op_bind_def)
  have "index_segment i 0 (d @ []) (index_of qs) c = (index_of (qs @ seg_locs i 0 rs), c + length rs, None)"
    using index_segment_encs [of rs d i 0 "[]" "index_of qs" c] Cons.hyps(1) x by (simp add: index_segment.simps [of _ _ "[]"] fold_index_of)
  then show ?case
    using rd x Cons.IH [of "qs @ seg_locs i 0 rs" "c + length rs"] Cons.prems
    by (simp add: op_bind_def all_locs_def add.assoc)
qed

text \<open>The segments of a directory up to a tail of the last one that does not decode.\<close>

definition hist_on_disk :: "Fs \<Rightarrow> HistoryRecord list \<Rightarrow> bytes \<Rightarrow> bool" where
  "hist_on_disk fs rs t \<longleftrightarrow> (\<exists>xs i d rss rs1. dir_holds historySegmentName parseHistorySegmentName (fs_files fs) (xs @ [(i, d @ t)]) \<and>
     list_all2 (\<lambda>(i, d) r. encs hist_enc r d) xs rss \<and> encs hist_enc rs1 d \<and> rs = concat rss @ rs1)"

lemma index_last:
  assumes dh: "dir_holds historySegmentName parseHistorySegmentName (fs_files (sl_fs h)) (xs @ [(i, d @ t)])" and io: "fs_io (sl_fs h) = []"
    and e: "encs hist_enc rs1 d" and t: "isl (DecodeHistoryRecord t)" and i: "sl_segIndex h = i" and cur: "sl_curBytes h = length (d @ t)"
  shows "\<exists>fs k. index_segments [(i, historySegmentName i)] (index_of qs) c h =
      (Inr (index_of (qs @ seg_locs i 0 rs1), c + length rs1), h\<lparr>sl_fs := fs, sl_curBytes := length d, sl_totalBytes := k\<rparr>) \<and>
      dir_holds historySegmentName parseHistorySegmentName (fs_files fs) (xs @ [(i, d)]) \<and> fs_io fs = []"
proof -
  have "i \<notin> fst ` set xs" using dh by (auto simp: dir_holds_def sorted_wrt_append)
  then have "map_of (fs_files (sl_fs h)) (historySegmentName i) = Some (d @ t)"
    using hst.dir_holds_map_of [OF dh, of i] by (simp add: map_add_def map_of_eq_None_iff [symmetric])
  then have rd: "on_fs (fs_ReadFile (historySegmentName i)) h = (Inr (d @ t) :: history_error seg_error + bytes, h)"
    using io by (simp add: on_fs_def fs_ReadFile_def fs_check_def op_bind_def)
  note ix = index_segment_encs [OF e, of i 0 t "index_of qs" c, unfolded fold_index_of]
  show ?thesis
  proof (cases "t = []")
    case True
    then have "h = h\<lparr>sl_fs := sl_fs h, sl_curBytes := length d, sl_totalBytes := sl_totalBytes h\<rparr>" using cur by simp
    then show ?thesis using rd ix True dh io by (intro exI [of _ "sl_fs h"] exI [of _ "sl_totalBytes h"]) (simp add: op_bind_def index_segment.simps [of _ _ "[]"])
  next
    case False
    then obtain er where "DecodeHistoryRecord t = Inl er" using t by (cases "DecodeHistoryRecord t") auto
    then have ix': "index_segment i 0 (d @ t) (index_of qs) c = (index_of (qs @ seg_locs i 0 rs1), c + length rs1, Some (er, length d))"
      using ix False by (simp add: index_segment.simps [of _ _ t])
    let ?fs = "(sl_fs h)\<lparr>fs_files := set_file (historySegmentName i) (take (length d)) (fs_files (sl_fs h))\<rparr>"
    have "dir_holds historySegmentName parseHistorySegmentName (fs_files ?fs) (xs @ [(i, d)])" using hst.dir_holds_set [OF dh, of "take (length d)"] by simp
    then show ?thesis using rd ix' i io
      by (intro exI [of _ ?fs] exI [of _ "sl_totalBytes h - length t"]) (simp add: op_bind_def on_fs_def fs_Truncate_def fs_check_def)
  qed
qed

lemma buildIndex_at:
  assumes dh: "dir_holds historySegmentName parseHistorySegmentName (fs_files (sl_fs h)) (xs @ [(i, d @ t)])"
    and e: "list_all2 (\<lambda>(i, d) r. encs hist_enc r d) xs rss" "encs hist_enc rs1 d" and t: "isl (DecodeHistoryRecord t)"
    and io: "fs_io (sl_fs h) = []" and h: "sl_segIndex h = i" "sl_curBytes h = length (d @ t)" "sl_f h = Some True"
  shows "\<exists>h'. buildIndex h = (Inr (), h') \<and> hist_holds h' (concat rss @ rs1) \<and> sl_closed h' = sl_closed h \<and> fs_io (sl_fs h') = [] \<and> sl_f h' = Some True"
proof -
  have "distinct (fs_files (sl_fs h))" using dh by (auto simp: dir_holds_def distinct_map)
  then have sn: "seg_names parseHistorySegmentName (sort_key fst (fs_files (sl_fs h))) = map (\<lambda>(i, d). (i, historySegmentName i)) xs @ [(i, historySegmentName i)]"
    using hst.seg_names_holds [OF dh, of "sort_key fst (fs_files (sl_fs h))"] by simp
  have nil: "(\<lambda>_. []) = index_of []" by (simp add: index_of_def fun_eq_iff)
  have "index_segments (seg_names parseHistorySegmentName (sort_key fst (fs_files (sl_fs h)))) (index_of []) 0 h =
     index_segments [(i, historySegmentName i)] (index_of (all_locs xs rss)) (length (concat rss)) h"
    unfolding sn using index_segments_full [OF dh io e(1), of "[(i, historySegmentName i)]" "[]" 0]
    by (simp del: index_segments.simps add: subset_insertI)
  moreover obtain fs2 tb where l: "index_segments [(i, historySegmentName i)] (index_of (all_locs xs rss)) (length (concat rss)) h =
      (Inr (index_of (all_locs xs rss @ seg_locs i 0 rs1), length (concat rss) + length rs1), h\<lparr>sl_fs := fs2, sl_curBytes := length d, sl_totalBytes := tb\<rparr>)"
    and fs2: "dir_holds historySegmentName parseHistorySegmentName (fs_files fs2) (xs @ [(i, d)])" "fs_io fs2 = []"
    using index_last [OF dh io e(2) t h(1,2)] by blast
  ultimately have bi: "index_segments (seg_names parseHistorySegmentName (sort_key fst (fs_files (sl_fs h)))) (\<lambda>_. []) 0 h =
      (Inr (index_of (all_locs xs rss @ seg_locs i 0 rs1), length (concat rss) + length rs1), h\<lparr>sl_fs := fs2, sl_curBytes := length d, sl_totalBytes := tb\<rparr>)"
    by (simp only: nil)
  define h' where "h' = h\<lparr>sl_fs := fs2, sl_curBytes := length d, sl_totalBytes := tb, h_index := index_of (all_locs xs rss @ seg_locs i 0 rs1), sl_seq := of_nat (length (concat rss) + length rs1)\<rparr>"
  have "on_fs fs_ReadDir h = (Inr (sort_key fst (fs_files (sl_fs h))) :: history_error seg_error + (string \<times> bytes) list, h)"
    using io by (simp add: on_fs_def fs_ReadDir_def op_bind_def fs_check_def)
  then have b: "buildIndex h = (Inr (), h')" using bi by (simp add: buildIndex_def op_bind_def h'_def)
  have "seg_at historySegmentName parseHistorySegmentName h' (xs @ [(i, d)])" using fs2(1) h by (simp add: h'_def seg_at_def at_end_def)
  moreover have "list_all2 (\<lambda>(i, d) r. encs hist_enc r d) (xs @ [(i, d)]) (rss @ [rs1])" using e by (auto intro: list_all2_appendI)
  moreover have "all_locs (xs @ [(i, d)]) (rss @ [rs1]) = all_locs xs rss @ seg_locs i 0 rs1"
    using e(1) by (simp add: all_locs_append list_all2_lengthD) (simp add: all_locs_def)
  ultimately have "hist_holds h' (concat rss @ rs1)"
    unfolding hist_holds_def by (auto simp: h'_def intro!: exI [of _ "xs @ [(i, d)]"] exI [of _ "rss @ [rs1]"])
  then show ?thesis using b fs2(2) h(3) by (simp add: h'_def)
qed

lemma OpenHistory_at:
  assumes "hist_on_disk fs rs t" "isl (DecodeHistoryRecord t)" "fs_io fs = []"
  shows "\<exists>h. OpenHistory fs m = Inr h \<and> hist_holds h rs \<and> \<not> sl_closed h \<and> fs_io (sl_fs h) = [] \<and> sl_f h = Some True"
proof -
  obtain xs i d rss rs1 where dh: "dir_holds historySegmentName parseHistorySegmentName (fs_files fs) (xs @ [(i, d @ t)])"
    and e: "list_all2 (\<lambda>(i, d) r. encs hist_enc r d) xs rss" "encs hist_enc rs1 d" and rs: "rs = concat rss @ rs1"
    using assms(1) by (auto simp: hist_on_disk_def)
  let ?h = "\<lparr>sl_fs = fs, sl_maxSegmentBytes = if m \<le> 0 then DefaultHistorySegmentBytes else nat m, sl_f = None, sl_segIndex = 0, sl_segCount = 0,
     sl_curBytes = 0, sl_totalBytes = 0, sl_seq = 0, sl_closed = False, h_index = (\<lambda>_. []), h_readBytes = 0\<rparr>"
  obtain c k where o: "seg_open historySegmentName parseHistorySegmentName ?h = (Inr True :: history_error seg_error + bool,
     ?h\<lparr>sl_f := Some True, sl_segIndex := i, sl_curBytes := length (d @ t), sl_segCount := c, sl_totalBytes := k\<rparr>)"
    using hst.seg_open_at [of ?h "xs @ [(i, d @ t)]", where ?'e = history_error] dh assms(3) by auto
  define h1 where "h1 = ?h\<lparr>sl_f := Some True, sl_segIndex := i, sl_curBytes := length (d @ t), sl_segCount := c, sl_totalBytes := k\<rparr>"
  have h1: "sl_fs h1 = fs" "sl_segIndex h1 = i" "sl_curBytes h1 = length (d @ t)" "sl_f h1 = Some True" "\<not> sl_closed h1" by (simp_all add: h1_def)
  obtain h where h: "buildIndex h1 = (Inr (), h)" "hist_holds h rs" "sl_closed h = sl_closed h1" "fs_io (sl_fs h) = []" "sl_f h = Some True"
    using buildIndex_at [OF _ e assms(2), of h1 i] dh assms(3) h1 rs by auto
  have "OpenHistory fs m = Inr h" using o h(1) by (simp add: OpenHistory_def Let_def op_bind_def h1_def)
  then show ?thesis using h h1(5) by auto
qed

text \<open>
  C14. Recovery after a crash: when the directory holds the records \<open>rs\<close> and then the first \<open>k\<close> bytes
  of a record that was being appended, \<^verbatim>\<open>OpenHistory\<close> succeeds, cuts the torn record off, and every
  key resolves at every snapshot as it does over \<open>rs\<close>; records appended from then on follow \<open>rs\<close>.
\<close>
theorem OpenHistory_recovers:
  assumes "hist_on_disk fs rs (take k b)" "hist_enc r b" "k < length b" "fs_io fs = []"
  shows "\<exists>h. OpenHistory fs m = Inr h \<and> (\<forall>key snap. \<exists>h'. Resolve key snap h = (Inr (resolve_spec rs key snap), h')) \<and>
    (\<forall>r' u h'. length (hr_VersionID r') = 16 \<and> sl_segIndex h \<noteq> -1 \<and> history_Append r' h = (Inr u, h') \<longrightarrow> hist_holds h' (rs @ [r']))"
proof -
  obtain h where h: "OpenHistory fs m = Inr h" "hist_holds h rs" "\<not> sl_closed h" "fs_io (sl_fs h) = []"
    using OpenHistory_at [OF assms(1) hst.dec_torn [OF assms(2,3)] assms(4)] by blast
  then show ?thesis using Resolve_live [OF h(2,4,3)] history_Append_holds [OF h(2)] by blast
qed

section \<open>Concrete histories\<close>

definition sample_hist :: HistoryRecord where
  "sample_hist = \<lparr>hr_Key = [1, 2], hr_VersionID = replicate 16 5, hr_Value = [3], hr_Tombstone = False\<rparr>"

definition sample_dir :: Fs where
  "sample_dir = \<lparr>fs_files = [(historySegmentName 0, hist_bytes sample_hist @ take 7 (hist_bytes sample_hist))], fs_io = []\<rparr>"

lemma sample_hist_enc: "hist_enc sample_hist (hist_bytes sample_hist)" "length (hist_bytes sample_hist) = 51"
  by (simp_all add: hist_enc_bytes hist_valid_def hist_bytes_length sample_hist_def)

lemma sample_on_disk: "hist_on_disk sample_dir [sample_hist] (take 7 (hist_bytes sample_hist))"
proof -
  have "dir_holds historySegmentName parseHistorySegmentName (fs_files sample_dir) ([] @ [(0, hist_bytes sample_hist @ take 7 (hist_bytes sample_hist))])"
    by (auto simp: dir_holds_def hst.parse_name sample_dir_def)
  moreover have "encs hist_enc [sample_hist] (hist_bytes sample_hist)" using sample_hist_enc by (auto simp: hst.encs_Cons)
  ultimately show ?thesis unfolding hist_on_disk_def by fastforce
qed

lemma replicate_16: "replicate 16 x = x # replicate 15 x"
  by (simp add: numeral_eq_Suc)

theorem OpenHistory_recovers_witness:
  "\<exists>h h'. OpenHistory sample_dir 0 = Inr h \<and> Resolve [1, 2] (replicate 16 9) h = (Inr (Some sample_hist), h')"
proof -
  have "resolve_spec [sample_hist] [1, 2] (replicate 16 9) = Some sample_hist"
    by (simp add: resolve_spec_def sample_hist_def replicate_16)
  moreover have "7 < length (hist_bytes sample_hist)" "fs_io sample_dir = []" by (simp_all add: sample_hist_enc sample_dir_def)
  ultimately show ?thesis using OpenHistory_recovers [OF sample_on_disk sample_hist_enc(1), of 0] by metis
qed

theorem Resolve_greatest_witness:
  "\<exists>h h'. OpenHistory sample_dir 0 = Inr h \<and> Resolve [1, 2] (replicate 16 4) h = (Inr None, h')"
proof -
  have "isl (DecodeHistoryRecord (take 7 (hist_bytes sample_hist)))" using hst.dec_torn [OF sample_hist_enc(1)] sample_hist_enc(2) by simp
  then obtain h where h: "OpenHistory sample_dir 0 = Inr h" "hist_holds h [sample_hist]" "\<not> sl_closed h" "fs_io (sl_fs h) = []"
    using OpenHistory_at [OF sample_on_disk] by (force simp: sample_dir_def)
  have c: "bytes_Compare (hr_VersionID sample_hist) (replicate 16 4) = 1" by (simp add: sample_hist_def replicate_16)
  obtain best h' where b: "Resolve [1, 2] (replicate 16 4) h = (Inr best, h')"
    "case best of None \<Rightarrow> True | Some r \<Rightarrow> r \<in> set [sample_hist] \<and> bytes_Compare (hr_VersionID r) (replicate 16 4) \<le> 0"
    using Resolve_greatest [OF h(2,4,3), of "[1, 2]" "replicate 16 4"] by (fastforce split: option.splits)
  then have "best = None" using c by (cases best) auto
  then show ?thesis using h(1) b(1) by blast
qed

section \<open>After a failed write\<close>

lemma hist_torn_magic:
  assumes "0 < k" "k < 4" "length (hr_VersionID r2) = 16"
  shows "isl (DecodeHistoryRecord (take k (hist_bytes r1) @ hist_bytes r2))"
proof -
  have l: "length (hist_bytes r2) \<ge> 48" using hist_bytes_length [OF assms(3)] by simp
  define m where "m = [0x52, 0x54, 0x53, 0x48 :: byte]"
  have p: "take 4 (hist_bytes e) = m" for e by (simp add: hist_bytes_def hist_fields_def HistoryMagic_def le_put32_def m_def)
  have t: "take k (hist_bytes r1) = take k m" using p [of r1] assms(2) by (metis min.strict_order_iff take_take min.commute)
  let ?b = "take k (hist_bytes r1) @ hist_bytes r2"
  have "take 4 ?b = take 4 (take k m @ m)" using p [of r2] t l assms(1,2) by (auto simp: take_append)
  then have "le_get32 ?b = le_get32 (take 4 (take k m @ m))" by (metis le_get_take(2) order_refl)
  moreover have "k = 1 \<or> k = 2 \<or> k = 3" using assms(1,2) by auto
  ultimately have "le_get32 ?b \<noteq> HistoryMagic" by (auto simp: m_def le_get32_def HistoryMagic_def)
  then show ?thesis by (simp add: DecodeHistoryRecord_def)
qed

text \<open>A record appended after a failed write is lost. When the write of \<^verbatim>\<open>Append\<close> fails part-way
  (here after one to three bytes) and the history goes on being used, the next record lands behind the
  debris: its append reports success, and the next opening takes debris and record for a torn tail,
  cuts both off and holds only the records from before.
\<close>
theorem append_after_failed_write_lost:
  assumes "hist_holds h rs" "sl_f h = Some True" "\<not> sl_closed h" "hist_enc r1 b1" "hist_enc r2 b2" "0 < n" "n < 4"
    "fs_io (sl_fs h) = [Some n]" "sl_curBytes h + length b1 \<le> sl_maxSegmentBytes h" "sl_curBytes h + length b2 \<le> sl_maxSegmentBytes h"
  shows "\<exists>h1 h2 h3. history_Append r1 h = (Inl (SegIO n), h1) \<and> history_Append r2 h1 = (Inr (), h2) \<and>
     OpenHistory (sl_fs h2) m = Inr h3 \<and> hist_holds h3 rs"
proof -
  obtain L rss where L: "seg_at historySegmentName parseHistorySegmentName h L" "list_all2 (\<lambda>(i, d) r. encs hist_enc r d) L rss" "rs = concat rss"
    using assms(1) by (auto simp: hist_holds_def)
  let ?i = "sl_segIndex h"
  obtain xs d where x: "L = xs @ [(?i, d)]" using L(1) assms(2) by (auto simp: seg_at_def at_end_def) (metis append_butlast_last_id)
  then obtain us z where rss: "rss = us @ [z]" "list_all2 (\<lambda>(i, d) r. encs hist_enc r d) xs us" "encs hist_enc z d"
    using L(2) by (auto simp: list_all2_append1 list_all2_Cons1)
  have b: "EncodeHistoryRecord r1 = Inr b1" "EncodeHistoryRecord r2 = Inr b2" "b1 = hist_bytes r1" "b2 = hist_bytes r2" "length (hr_VersionID r2) = 16"
    using assms(4,5) hist_enc_bytes by (auto simp: hist_enc_def)
  let ?f = "\<lambda>t. set_file (historySegmentName ?i) (\<lambda>d. d @ t)"
  let ?h1 = "h\<lparr>sl_fs := \<lparr>fs_files = ?f (take n b1) (fs_files (sl_fs h)), fs_io = []\<rparr>\<rparr>"
  have a1: "history_Append r1 h = (Inl (SegIO n), ?h1)"
    using assms b(1) by (simp add: history_Append_def seg_append_def op_bind_def seg_room_def seg_ensure_def seg_write_def on_fs_def fs_Write_def fs_check_def)
  have "\<exists>h2. history_Append r2 ?h1 = (Inr (), h2) \<and> sl_fs h2 = \<lparr>fs_files = ?f b2 (?f (take n b1) (fs_files (sl_fs h))), fs_io = []\<rparr>"
    using assms b(2) by (simp add: history_Append_def seg_append_def op_bind_def seg_room_def seg_ensure_def seg_write_def on_fs_def fs_Write_def fs_check_def Let_def)
  then obtain h2 where h2: "history_Append r2 ?h1 = (Inr (), h2)" "sl_fs h2 = \<lparr>fs_files = ?f b2 (?f (take n b1) (fs_files (sl_fs h))), fs_io = []\<rparr>" by blast
  have "dir_holds historySegmentName parseHistorySegmentName (fs_files (sl_fs h)) (xs @ [(?i, d)])" using L(1) x by (simp add: seg_at_def)
  then have "dir_holds historySegmentName parseHistorySegmentName (fs_files (sl_fs h2)) (xs @ [(?i, (d @ take n b1) @ b2)])"
    using hst.dir_holds_set [OF hst.dir_holds_set, of _ xs ?i d "\<lambda>d. d @ b2" "\<lambda>d. d @ take n b1"] h2(2) by simp
  then have "hist_on_disk (sl_fs h2) rs (take n b1 @ b2)" unfolding hist_on_disk_def using rss L(3) by fastforce
  moreover have "isl (DecodeHistoryRecord (take n b1 @ b2))" using hist_torn_magic [OF assms(6,7) b(5)] b(3,4) by simp
  ultimately obtain h3 where "OpenHistory (sl_fs h2) m = Inr h3" "hist_holds h3 rs" using OpenHistory_at [of "sl_fs h2" rs "take n b1 @ b2" m] h2(2) by auto
  then show ?thesis using a1 h2(1) by blast
qed

theorem append_after_failed_write_lost_witness:
  "\<exists>h h1 h2 h3. hist_holds h [sample_hist] \<and> history_Append sample_hist h = (Inl (SegIO 2), h1) \<and>
     history_Append sample_hist h1 = (Inr (), h2) \<and> OpenHistory (sl_fs h2) 0 = Inr h3 \<and> hist_holds h3 [sample_hist]"
proof -
  have "isl (DecodeHistoryRecord (take 7 (hist_bytes sample_hist)))" using hst.dec_torn [OF sample_hist_enc(1)] sample_hist_enc(2) by simp
  then obtain g where g: "hist_holds g [sample_hist]" "\<not> sl_closed g" "sl_f g = Some True"
    using OpenHistory_at [OF sample_on_disk] by (force simp: sample_dir_def)
  let ?h = "g\<lparr>sl_fs := (sl_fs g)\<lparr>fs_io := [Some 2]\<rparr>, sl_maxSegmentBytes := sl_curBytes g + 51\<rparr>"
  have h: "hist_holds ?h [sample_hist]" using g(1,3) by (simp add: hist_holds_def seg_at_def at_end_def)
  from append_after_failed_write_lost [OF h _ _ sample_hist_enc(1) sample_hist_enc(1), of 2 0] h g(2,3) show ?thesis
    by (auto simp: sample_hist_enc(2))
qed

end
