(* ===== verification/Pager.thy ===== *)
theory Pager
  imports Device_Live Poly1305 Kdf
begin

text \<open>
  The page cache of \<^verbatim>\<open>src/pkg/c2db/pager.go\<close> and the page seals of
  \<^verbatim>\<open>src/pkg/c2db/pager_seal.go\<close>: a write-back cache of 16-KiB pages over a device, with one Poly1305
  tag per page, under a key derived from the page, kept in blocks of a second device.

  \<^verbatim>\<open>GetPage\<close> hands out the slot's buffer; the model returns its bytes, so it covers callers that do
  not write into the buffer they were given. A read that fails part-way leaves its buffer undefined: a
  slot is invalid then, so that its bytes are never used, and the model keeps the old ones; the tag
  block, which stays valid, becomes \<open>pg_junk\<close>, an arbitrary value. Trace emission has no effect on
  the state.
\<close>

datatype pager_error = PDev dev_error | PAlign nat | PRange nat | PLength nat | PSeal | PReserve nat | PPanic

record pageSlot =
  ps_lba :: nat
  ps_buf :: bytes
  ps_valid :: bool
  ps_dirty :: bool

record Pager =
  pg_open :: bool
  pg_dev :: Device
  pg_slots :: "pageSlot list"
  pg_clock :: u64
  pg_flushes :: u64
  pg_sealKey :: bytes
  pg_sealShard :: u16
  pg_tags :: "Device option"
  pg_tagBlk :: bytes
  pg_tagBlkLBA :: nat
  pg_tagBlkValid :: bool
  pg_tagBlkDirty :: bool
  pg_sealed :: bool
  pg_junk :: bytes

definition pageN :: nat where [simp]: "pageN = 16384"
definition PagerSlots :: nat where "PagerSlots = 256"
definition pageLBAs :: nat where [simp]: "pageLBAs = 4"
definition tagsPerLBA :: nat where [simp]: "tagsPerLBA = 256"
definition tagHeaderLBAs :: nat where [simp]: "tagHeaderLBAs = 1"

definition on_pdev :: "(Device, dev_error, 'a) op \<Rightarrow> (Pager, pager_error, 'a) op" where
  "on_pdev m p = (case m (pg_dev p) of (r, d) \<Rightarrow> ((case r of Inl e \<Rightarrow> Inl (PDev e) | Inr x \<Rightarrow> Inr x), p\<lparr>pg_dev := d\<rparr>))"

text \<open>Operations on the tag device; a nil device would panic.\<close>

definition on_tags :: "(Device, dev_error, 'a) op \<Rightarrow> (Pager, pager_error, 'a) op" where
  "on_tags m p = (case pg_tags p of None \<Rightarrow> (Inl PPanic, p)
     | Some d \<Rightarrow> (case m d of (r, d) \<Rightarrow> ((case r of Inl e \<Rightarrow> Inl (PDev e) | Inr x \<Rightarrow> Inr x), p\<lparr>pg_tags := Some d\<rparr>)))"

definition pager_ready :: "(Pager, pager_error, unit) op" where
  "pager_ready p = (if \<not> pg_open p then (Inl (PDev EBADF), p) else on_pdev checkReady p)"

definition checkPageLBA :: "nat \<Rightarrow> pager_error option" where
  "checkPageLBA lba = (if lba mod pageLBAs \<noteq> 0 then Some (PAlign lba) else None)"

definition pager_checkLBA :: "nat \<Rightarrow> (Pager, pager_error, unit) op" where
  "pager_checkLBA lba p = (case checkPageLBA lba of
       Some e \<Rightarrow> (Inl e, p)
     | None \<Rightarrow> if \<not> pg_open p then (Inl (PDev EBADF), p)
         else let maxLBA = d_size (pg_dev p) div LBASize
         in if lba \<ge> maxLBA \<or> pageLBAs > maxLBA - lba then (Inl (PRange lba), p) else (Inr (), p))"

definition NewPager :: "bytes \<Rightarrow> Device \<Rightarrow> pager_error + Pager" where
  "NewPager junk dev = (case checkReady dev of (Inl e, _) \<Rightarrow> Inl (PDev e)
     | (Inr _, dev) \<Rightarrow> Inr \<lparr>pg_open = True, pg_dev = dev,
         pg_slots = replicate PagerSlots \<lparr>ps_lba = 0, ps_buf = replicate pageN 0, ps_valid = False, ps_dirty = False\<rparr>,
         pg_clock = 0, pg_flushes = 0, pg_sealKey = replicate 32 0, pg_sealShard = 0, pg_tags = None, pg_tagBlk = [],
         pg_tagBlkLBA = 0, pg_tagBlkValid = False, pg_tagBlkDirty = False, pg_sealed = False, pg_junk = junk\<rparr>)"

section \<open>Seals\<close>

definition SetSeal :: "bytes \<Rightarrow> Device option \<Rightarrow> u16 \<Rightarrow> Pager \<Rightarrow> Pager" where
  "SetSeal key tags shard p =
     p\<lparr>pg_sealKey := key, pg_sealShard := shard, pg_tags := tags, pg_tagBlk := replicate LBASize 0, pg_sealed := True\<rparr>"

definition pageIndex :: "nat \<Rightarrow> nat" where
  "pageIndex lba = lba div pageLBAs"

definition flushTagBlk :: "(Pager, pager_error, unit) op" where
  "flushTagBlk p =
     (if \<not> pg_tagBlkDirty p \<or> \<not> pg_tagBlkValid p then (Inr (), p)
      else op_bind (on_tags (dev_Write (pg_tagBlkLBA p) (pg_tagBlk p) True)) (\<lambda>_ p. (Inr (), p\<lparr>pg_tagBlkDirty := False\<rparr>)) p)"

definition loadTagBlk :: "nat \<Rightarrow> (Pager, pager_error, unit) op" where
  "loadTagBlk tb p =
     (if pg_tagBlkValid p \<and> pg_tagBlkLBA p = tb then (Inr (), p)
      else op_bind flushTagBlk (\<lambda>_ p. case on_tags (dev_Read tb 4096 True) p of
          (Inl e, p) \<Rightarrow> (Inl e, p\<lparr>pg_tagBlk := pg_junk p\<rparr>)
        | (Inr b, p) \<Rightarrow> (Inr (), p\<lparr>pg_tagBlk := b, pg_tagBlkLBA := tb, pg_tagBlkValid := True, pg_tagBlkDirty := False\<rparr>)) p)"

definition readTag :: "nat \<Rightarrow> (Pager, pager_error, bytes) op" where
  "readTag idx = op_bind (loadTagBlk (tagHeaderLBAs + idx div tagsPerLBA)) (\<lambda>_ p.
     (Inr (bslice (pg_tagBlk p) (idx mod tagsPerLBA * 16) 16), p))"

definition writeTag :: "nat \<Rightarrow> bytes \<Rightarrow> (Pager, pager_error, unit) op" where
  "writeTag idx tag = op_bind (loadTagBlk (tagHeaderLBAs + idx div tagsPerLBA)) (\<lambda>_ p.
     (Inr (), p\<lparr>pg_tagBlk := put_at (pg_tagBlk p) (idx mod tagsPerLBA * 16) tag, pg_tagBlkDirty := True\<rparr>))"

definition flushTags :: "(Pager, pager_error, unit) op" where
  "flushTags p = (if \<not> pg_sealed p \<or> pg_tags p = None then (Inr (), p)
     else op_bind flushTagBlk (\<lambda>_. on_tags dev_Flush) p)"

definition page_tag :: "bytes \<Rightarrow> u16 \<Rightarrow> nat \<Rightarrow> bytes \<Rightarrow> bytes option" where
  "page_tag key shard idx buf = do {
     derivedKey \<leftarrow> DerivePageSealKey key shard (of_nat idx) buf;
     Crypto_poly1305 (replicate 16 0) buf (length buf) derivedKey
   }"

definition verifyPage :: "nat \<Rightarrow> bytes \<Rightarrow> (Pager, pager_error, unit) op" where
  "verifyPage lba buf p =
     (if \<not> pg_sealed p \<or> pg_tags p = None then (Inr (), p)
      else let idx = pageIndex lba
      in op_bind (readTag idx) (\<lambda>tag p.
        if tag = replicate 16 0 then
          (if idx = 0 then (Inl PSeal, p)
           else if buf ! 20 = 0 \<and> le_get16 (drop 22 buf) = 0 then (Inr (), p)
           else (Inl PSeal, p))
        else case page_tag (pg_sealKey p) (pg_sealShard p) idx buf of
            None \<Rightarrow> (Inl PPanic, p)
          | Some got \<Rightarrow> if got \<noteq> tag then (Inl PSeal, p) else (Inr (), p)) p)"

definition sealPage :: "nat \<Rightarrow> bytes \<Rightarrow> (Pager, pager_error, unit) op" where
  "sealPage lba buf p =
     (if \<not> pg_sealed p \<or> pg_tags p = None then (Inr (), p)
      else let idx = pageIndex lba
      in case page_tag (pg_sealKey p) (pg_sealShard p) idx buf of
           None \<Rightarrow> (Inl PPanic, p)
         | Some tag \<Rightarrow> writeTag idx tag p)"

section \<open>Flushing\<close>

text \<open>The loop over the slots from \<open>i\<close> on; \<open>n\<close> counts the pages written.\<close>

fun flush_slots :: "nat \<Rightarrow> nat \<Rightarrow> nat \<Rightarrow> (Pager, pager_error, nat) op" where
  "flush_slots i 0 n p = (Inr n, p)"
| "flush_slots i (Suc k) n p =
     (if \<not> ps_valid (pg_slots p ! i) \<or> \<not> ps_dirty (pg_slots p ! i) then flush_slots (Suc i) k n p
      else op_bind (on_pdev (dev_Write (ps_lba (pg_slots p ! i)) (ps_buf (pg_slots p ! i)) True)) (\<lambda>_ p.
        op_bind (sealPage (ps_lba (pg_slots p ! i)) (ps_buf (pg_slots p ! i))) (\<lambda>_ p.
          flush_slots (Suc i) k (n + 1) (p\<lparr>pg_slots := (pg_slots p)[i := (pg_slots p ! i)\<lparr>ps_dirty := False\<rparr>]\<rparr>)) p) p)"

definition FlushDirty :: "(Pager, pager_error, nat) op" where
  "FlushDirty = op_bind pager_ready (\<lambda>_ p. op_bind (flush_slots 0 (length (pg_slots p)) 0) (\<lambda>n p.
     if n > 0 then
       op_bind (on_pdev dev_Flush) (\<lambda>_. op_bind flushTags (\<lambda>_. op_ret n)) (p\<lparr>pg_flushes := pg_flushes p + 1\<rparr>)
     else (Inr n, p)) p)"

definition FlushDirtyNoBarrier :: "(Pager, pager_error, nat) op" where
  "FlushDirtyNoBarrier = op_bind pager_ready (\<lambda>_ p. op_bind (flush_slots 0 (length (pg_slots p)) 0) (\<lambda>n.
     if n > 0 then op_bind flushTagBlk (\<lambda>_. op_ret n) else op_ret n) p)"

definition NDirty :: "Pager \<Rightarrow> nat" where
  "NDirty p = length (filter (\<lambda>s. ps_valid s \<and> ps_dirty s) (pg_slots p))"

section \<open>Slots\<close>

fun find_from :: "pageSlot list \<Rightarrow> nat \<Rightarrow> nat \<Rightarrow> nat option" where
  "find_from [] lba i = None"
| "find_from (s # ss) lba i = (if ps_valid s \<and> ps_lba s = lba then Some i else find_from ss lba (Suc i))"

definition pager_find :: "nat \<Rightarrow> Pager \<Rightarrow> nat option" where
  "pager_find lba p = find_from (pg_slots p) lba 0"

fun invalid_from :: "pageSlot list \<Rightarrow> nat \<Rightarrow> nat option" where
  "invalid_from [] i = None"
| "invalid_from (s # ss) i = (if \<not> ps_valid s then Some i else invalid_from ss (Suc i))"

definition take_slot :: "nat \<Rightarrow> nat \<Rightarrow> Pager \<Rightarrow> Pager" where
  "take_slot i lba p = p\<lparr>pg_slots := (pg_slots p)[i := (pg_slots p ! i)\<lparr>ps_lba := lba, ps_valid := True, ps_dirty := False\<rparr>]\<rparr>"

definition clock_hand :: "Pager \<Rightarrow> nat" where
  "clock_hand p = unat (pg_clock p mod of_nat (length (pg_slots p)))"

fun clock_loop :: "nat \<Rightarrow> Pager \<Rightarrow> nat option \<times> Pager" where
  "clock_loop 0 p = (None, p)"
| "clock_loop (Suc k) p =
     (let i = clock_hand p; p = p\<lparr>pg_clock := pg_clock p + 1\<rparr>
      in if \<not> ps_dirty (pg_slots p ! i) then (Some i, p) else clock_loop k p)"

definition pager_alloc :: "nat \<Rightarrow> (Pager, pager_error, nat) op" where
  "pager_alloc lba p = (case pager_find lba p of
       Some i \<Rightarrow> (Inr i, p)
     | None \<Rightarrow> (case invalid_from (pg_slots p) 0 of
           Some i \<Rightarrow> (Inr i, take_slot i lba p)
         | None \<Rightarrow> (case clock_loop (length (pg_slots p)) p of
               (Some i, p) \<Rightarrow> (Inr i, take_slot i lba p)
             | (None, p) \<Rightarrow> op_bind FlushDirty (\<lambda>_ p.
                 let i = clock_hand p in (Inr i, take_slot i lba (p\<lparr>pg_clock := pg_clock p + 1\<rparr>))) p)))"

section \<open>Pages\<close>

definition drop_slot :: "nat \<Rightarrow> Pager \<Rightarrow> Pager" where
  "drop_slot i p = p\<lparr>pg_slots := (pg_slots p)[i := (pg_slots p ! i)\<lparr>ps_valid := False\<rparr>]\<rparr>"

definition fill_slot :: "nat \<Rightarrow> bytes \<Rightarrow> Pager \<Rightarrow> Pager" where
  "fill_slot i b p = p\<lparr>pg_slots := (pg_slots p)[i := (pg_slots p ! i)\<lparr>ps_buf := b\<rparr>]\<rparr>"

text \<open>Read the page into slot \<open>i\<close> and verify it; the slot becomes invalid when the read fails.\<close>

definition read_slot :: "nat \<Rightarrow> nat \<Rightarrow> (Pager, pager_error, unit) op" where
  "read_slot i lba p = (case on_pdev (dev_Read lba pageN True) p of
       (Inl e, p) \<Rightarrow> (Inl e, drop_slot i p)
     | (Inr b, p) \<Rightarrow> (Inr (), fill_slot i b p))"

definition GetPage :: "nat \<Rightarrow> (Pager, pager_error, bytes) op" where
  "GetPage lba = op_bind pager_ready (\<lambda>_. op_bind (pager_checkLBA lba) (\<lambda>_ p.
     case pager_find lba p of
       Some i \<Rightarrow> (Inr (ps_buf (pg_slots p ! i)), p)
     | None \<Rightarrow> op_bind (pager_alloc lba) (\<lambda>i. op_bind (read_slot i lba) (\<lambda>_ p.
         case verifyPage lba (ps_buf (pg_slots p ! i)) p of
           (Inr _, p) \<Rightarrow> (Inr (ps_buf (pg_slots p ! i)), p)
         | (Inl _, p) \<Rightarrow> op_bind (read_slot i lba) (\<lambda>_ p.
             case verifyPage lba (ps_buf (pg_slots p ! i)) p of
               (Inr _, p) \<Rightarrow> (Inr (ps_buf (pg_slots p ! i)), p)
             | (Inl e, p) \<Rightarrow> (Inl e, drop_slot i p)) p)) p))"

definition PutPage :: "nat \<Rightarrow> bytes \<Rightarrow> (Pager, pager_error, unit) op" where
  "PutPage lba src = op_bind pager_ready (\<lambda>_. op_bind (pager_checkLBA lba) (\<lambda>_ p.
     if length src \<noteq> pageN then (Inl (PLength (length src)), p)
     else op_bind (pager_alloc lba) (\<lambda>i p.
       (Inr (), p\<lparr>pg_slots := (pg_slots p)[i := (pg_slots p ! i)\<lparr>ps_buf := src, ps_dirty := True\<rparr>]\<rparr>)) p))"

definition pager_release :: "Pager \<Rightarrow> Pager" where
  "pager_release p = p\<lparr>pg_open := False, pg_slots := [], pg_tagBlk := [], pg_tags := None, pg_sealed := False\<rparr>"

definition pager_Close :: "(Pager, pager_error, unit) op" where
  "pager_Close = op_bind pager_ready (\<lambda>_ p. case FlushDirty p of (r, p) \<Rightarrow>
     ((case r of Inl e \<Rightarrow> Inl e | Inr _ \<Rightarrow> Inr ()), pager_release p))"

definition CloseWithoutFlush :: "(Pager, pager_error, unit) op" where
  "CloseWithoutFlush = op_bind pager_ready (\<lambda>_ p. (Inr (), pager_release p))"

definition Reserve :: "nat \<Rightarrow> (Pager, pager_error, unit) op" where
  "Reserve needed = op_bind pager_ready (\<lambda>_ p.
     if needed \<le> length (pg_slots p) then (Inr (), p)
     else if needed > 65536 then (Inl (PReserve needed), p)
     else (Inr (), p\<lparr>pg_slots := pg_slots p @ replicate (needed - length (pg_slots p))
            \<lparr>ps_lba = 0, ps_buf = replicate pageN 0, ps_valid = False, ps_dirty = False\<rparr>\<rparr>))"

end
