(* ===== verification/Pager_Cache.thy ===== *)
theory Pager_Cache
  imports Pager
begin

text \<open>
  The page cache as a memory of pages: through hits, misses, evictions, flushes and device failures a
  page reads as it was last put. The abstraction (\<open>pg_view\<close>) is the cached page, or the page of the
  device; the invariant says that a clean slot equals the device.
\<close>

section \<open>Slots over a device\<close>

definition dev_page :: "Device \<Rightarrow> nat \<Rightarrow> bytes" where
  "dev_page d lba = bslice (d_file d) (lba * 4096) 16384"

definition page_lba :: "Device \<Rightarrow> nat \<Rightarrow> bool" where
  "page_lba d lba \<longleftrightarrow> lba mod 4 = 0 \<and> lba + 4 \<le> d_cap d"

definition slots_inv :: "Device \<Rightarrow> pageSlot list \<Rightarrow> bool" where
  "slots_inv d ss \<longleftrightarrow>
     (\<forall>s \<in> set ss. length (ps_buf s) = 16384 \<and>
        (ps_valid s \<longrightarrow> page_lba d (ps_lba s) \<and> (\<not> ps_dirty s \<longrightarrow> ps_buf s = dev_page d (ps_lba s)))) \<and>
     (\<forall>i < length ss. \<forall>j < length ss. ps_valid (ss ! i) \<longrightarrow> ps_valid (ss ! j) \<longrightarrow> ps_lba (ss ! i) = ps_lba (ss ! j) \<longrightarrow> i = j)"

definition slots_view :: "Device \<Rightarrow> pageSlot list \<Rightarrow> nat \<Rightarrow> bytes" where
  "slots_view d ss lba = (case find_from ss lba 0 of Some i \<Rightarrow> ps_buf (ss ! i) | None \<Rightarrow> dev_page d lba)"

lemma find_from_Some:
  "find_from ss lba k = Some i \<Longrightarrow> k \<le> i \<and> i < k + length ss \<and> ps_valid (ss ! (i - k)) \<and> ps_lba (ss ! (i - k)) = lba"
proof (induction ss arbitrary: k)
  case (Cons s ss)
  show ?case
  proof (cases "ps_valid s \<and> ps_lba s = lba")
    case True then show ?thesis using Cons.prems by auto
  next
    case False
    then have "find_from ss lba (Suc k) = Some i" using Cons.prems by auto
    from Cons.IH [OF this] show ?thesis by (auto simp: nth_Cons' Suc_diff_le)
  qed
qed simp

lemma find_from_None: "find_from ss lba k = None \<Longrightarrow> j < length ss \<Longrightarrow> \<not> (ps_valid (ss ! j) \<and> ps_lba (ss ! j) = lba)"
proof (induction ss arbitrary: k j)
  case (Cons s ss)
  then show ?case by (cases j) (auto split: if_splits)
qed simp

lemma slots_view_hit:
  assumes "slots_inv d ss" "i < length ss" "ps_valid (ss ! i)" "ps_lba (ss ! i) = lba"
  shows "slots_view d ss lba = ps_buf (ss ! i)"
proof (cases "find_from ss lba 0")
  case None then show ?thesis using find_from_None [OF None assms(2)] assms(3,4) by simp
next
  case (Some j)
  then have "j < length ss" "ps_valid (ss ! j)" "ps_lba (ss ! j) = lba" using find_from_Some [OF Some] by simp_all
  then have "j = i" using assms by (auto simp: slots_inv_def)
  then show ?thesis using Some by (simp add: slots_view_def)
qed

lemma slots_view_miss:
  assumes "\<And>j. j < length ss \<Longrightarrow> ps_valid (ss ! j) \<Longrightarrow> ps_lba (ss ! j) \<noteq> lba"
  shows "slots_view d ss lba = dev_page d lba"
  using assms find_from_Some [of ss lba 0] by (fastforce simp: slots_view_def split: option.splits)

text \<open>Replacing slot \<open>i\<close>, which is free, clean, or holds the same page, by a slot for page \<open>lba\<close>.\<close>

lemma replace_slot:
  assumes inv: "slots_inv d ss" and i: "i < length ss"
    and old: "ps_valid (ss ! i) \<Longrightarrow> ps_dirty (ss ! i) \<Longrightarrow> ps_valid s \<and> ps_lba (ss ! i) = ps_lba s"
    and uniq: "\<And>j. j < length ss \<Longrightarrow> j \<noteq> i \<Longrightarrow> ps_valid (ss ! j) \<Longrightarrow> ps_valid s \<Longrightarrow> ps_lba (ss ! j) \<noteq> ps_lba s"
    and new: "length (ps_buf s) = 16384" "ps_valid s \<Longrightarrow> page_lba d (ps_lba s) \<and> (\<not> ps_dirty s \<longrightarrow> ps_buf s = dev_page d (ps_lba s))"
  shows "slots_inv d (ss[i := s]) \<and>
    (\<forall>l. slots_view d (ss[i := s]) l = (if ps_valid s \<and> l = ps_lba s then ps_buf s else slots_view d ss l))"
proof (intro conjI allI)
  let ?ss = "ss[i := s]"
  have el: "length (ps_buf x) = 16384 \<and> (ps_valid x \<longrightarrow> page_lba d (ps_lba x) \<and> (\<not> ps_dirty x \<longrightarrow> ps_buf x = dev_page d (ps_lba x)))"
    if "x \<in> set ?ss" for x
    using set_update_subset_insert [of ss i s] that inv new by (auto simp: slots_inv_def)
  have dist: "a = b" if "a < length ?ss" "b < length ?ss" "ps_valid (?ss ! a)" "ps_valid (?ss ! b)" "ps_lba (?ss ! a) = ps_lba (?ss ! b)" for a b
    using that inv uniq [of a] uniq [of b] i by (auto simp: slots_inv_def nth_list_update split: if_splits)
  show inv': "slots_inv d ?ss" using el dist unfolding slots_inv_def by blast
  fix l
  show "slots_view d ?ss l = (if ps_valid s \<and> l = ps_lba s then ps_buf s else slots_view d ss l)"
  proof (cases "ps_valid s \<and> l = ps_lba s")
    case True then show ?thesis using slots_view_hit [OF inv', of i l] i by simp
  next
    case False
    show ?thesis
    proof (cases "\<exists>j < length ss. j \<noteq> i \<and> ps_valid (ss ! j) \<and> ps_lba (ss ! j) = l")
      case True
      then obtain j where j: "j < length ss" "j \<noteq> i" "ps_valid (ss ! j)" "ps_lba (ss ! j) = l" by blast
      then show ?thesis using slots_view_hit [OF inv j(1,3,4)] slots_view_hit [OF inv', of j l] False by auto
    next
      case miss: False
      have "slots_view d ?ss l = dev_page d l" by (rule slots_view_miss) (use miss False i in \<open>auto simp: nth_list_update split: if_splits\<close>)
      moreover have "slots_view d ss l = dev_page d l"
      proof (cases "ps_valid (ss ! i) \<and> ps_lba (ss ! i) = l")
        case True
        then have "\<not> ps_dirty (ss ! i)" using old False by auto
        moreover have "ss ! i \<in> set ss" using i by simp
        ultimately have "ps_buf (ss ! i) = dev_page d l" using inv True unfolding slots_inv_def by blast
        then show ?thesis using slots_view_hit [OF inv i] True by simp
      next
        case False
        then show ?thesis by (intro slots_view_miss) (use miss in blast)
      qed
      ultimately show ?thesis using False by auto
    qed
  qed
qed

text \<open>Writing the page of a slot to the device, whole or in part.\<close>

lemma dev_page_put:
  assumes "page_lba d l" "page_lba d lba" "length b \<le> 16384" "dev_ok d" "l \<noteq> lba"
  shows "bslice (put_at (d_file d) (lba * 4096) b) (l * 4096) 16384 = bslice (d_file d) (l * 4096) 16384"
proof -
  have le: "x * 4096 + 16384 \<le> length (d_file d)" if "page_lba d x" for x
  proof -
    have "(x + 4) * 4096 \<le> d_cap d * 4096" using that by (intro mult_le_mono1) (simp add: page_lba_def)
    also have "\<dots> \<le> d_size d" by simp
    finally show ?thesis using assms(4) by (simp add: dev_ok_def)
  qed
  obtain a b' where ab: "l = 4 * a" "lba = 4 * b'" using assms(1,2) by (auto simp: page_lba_def mod_eq_0_iff_dvd elim!: dvdE)
  then have "a < b' \<or> b' < a" using assms(5) by auto
  then have "l + 4 \<le> lba \<or> lba + 4 \<le> l" using ab by auto
  then have "l * 4096 + 16384 \<le> lba * 4096 \<or> lba * 4096 + 16384 \<le> l * 4096" by auto
  then show ?thesis using le [OF assms(1)] le [OF assms(2)] assms(3) by (intro bslice_put_at_other) auto
qed

definition same_pages :: "Device \<Rightarrow> pageSlot list \<Rightarrow> Device \<Rightarrow> pageSlot list \<Rightarrow> bool" where
  "same_pages d ss d' ss' \<longleftrightarrow> dev_ok d' \<and> d_size d' = d_size d \<and> slots_inv d' ss' \<and> length ss' = length ss \<and>
     (\<forall>l. page_lba d l \<longrightarrow> slots_view d' ss' l = slots_view d ss l)"

lemma same_pages_trans [trans]: "same_pages d ss d' ss' \<Longrightarrow> same_pages d' ss' d'' ss'' \<Longrightarrow> same_pages d ss d'' ss''"
  by (simp add: same_pages_def page_lba_def)

lemma same_pages_refl: "dev_ok d \<Longrightarrow> slots_inv d ss \<Longrightarrow> same_pages d ss d ss"
  by (simp add: same_pages_def)

lemma same_pages_file:
  assumes "dev_ok d" "slots_inv d ss" "dev_ok d'" "d_size d' = d_size d" "d_file d' = d_file d"
  shows "same_pages d ss d' ss"
proof -
  have "dev_page d' = dev_page d" "page_lba d' = page_lba d" using assms by (auto simp: dev_page_def page_lba_def fun_eq_iff)
  then have "slots_view d' ss = slots_view d ss" "slots_inv d' ss = slots_inv d ss" by (simp_all add: slots_view_def [abs_def] slots_inv_def cong: option.case_cong)
  then show ?thesis using assms by (simp add: same_pages_def)
qed

text \<open>A device write of the dirty slot \<open>i\<close>, successful or not, changes no page as the cache sees it.\<close>

lemma write_dirty:
  assumes ok: "dev_ok d" and inv: "slots_inv d ss" and i: "i < length ss" "ps_valid (ss ! i)" "ps_dirty (ss ! i)"
    and w: "dev_Write (ps_lba (ss ! i)) (ps_buf (ss ! i)) True d = (r, d')"
  shows "same_pages d ss d' ss \<and> (\<not> isl r \<longrightarrow> dev_page d' (ps_lba (ss ! i)) = ps_buf (ss ! i))"
proof -
  let ?s = "ss ! i"
  have s: "length (ps_buf ?s) = 16384" "page_lba d (ps_lba ?s)" using inv i by (auto simp: slots_inv_def)
  note c = dev_Write_cases [OF w ok]
  have f: "d' = d \<or> (\<exists>b. length b \<le> 16384 \<and> d_file d' = put_at (d_file d) (ps_lba ?s * 4096) b)"
  proof (cases "isl r")
    case True
    then have "d' = d \<or> (\<exists>n. d_file d' = put_at (d_file d) (ps_lba ?s * 4096) (take n (ps_buf ?s)))" using c by auto
    moreover have "length (take n (ps_buf ?s)) \<le> 16384" for n using s(1) by simp
    ultimately show ?thesis by blast
  next
    case False then show ?thesis using c s(1) by (intro disjI2 exI [of _ "ps_buf ?s"]) simp
  qed
  have pg: "dev_page d' l = dev_page d l" if "page_lba d l" "l \<noteq> ps_lba ?s" for l
    using f dev_page_put [OF that(1) s(2) _ ok that(2)] by (auto simp: dev_page_def)
  have lb: "page_lba d' = page_lba d" using c by (auto simp: page_lba_def fun_eq_iff)
  have other: "x \<noteq> ?s \<Longrightarrow> x \<in> set ss \<Longrightarrow> ps_valid x \<Longrightarrow> ps_lba x \<noteq> ps_lba ?s" for x
    using inv i by (auto simp: slots_inv_def in_set_conv_nth)
  have inv': "slots_inv d' ss"
    using inv i(3) pg lb other unfolding slots_inv_def by (metis (no_types, lifting))
  have "slots_view d' ss l = slots_view d ss l" if "page_lba d l" for l
  proof (cases "\<exists>j < length ss. ps_valid (ss ! j) \<and> ps_lba (ss ! j) = l")
    case True then show ?thesis using slots_view_hit [OF inv] slots_view_hit [OF inv'] by metis
  next
    case False
    then have "l \<noteq> ps_lba ?s" using i by blast
    then show ?thesis using slots_view_miss [of ss l] False pg [OF that] by metis
  qed
  moreover have "dev_page d' (ps_lba ?s) = ps_buf ?s" if "\<not> isl r"
    using c that s(1) by (simp add: dev_page_def)
  ultimately show ?thesis using c inv' by (simp add: same_pages_def)
qed

section \<open>Frames\<close>

text \<open>The seals touch the tag block and the tag device only.\<close>

definition seal_frame :: "Pager \<Rightarrow> Pager \<Rightarrow> bool" where
  "seal_frame p p' \<longleftrightarrow> pg_dev p' = pg_dev p \<and> pg_slots p' = pg_slots p \<and> pg_open p' = pg_open p \<and> pg_clock p' = pg_clock p \<and>
     pg_sealKey p' = pg_sealKey p \<and> pg_sealShard p' = pg_sealShard p \<and> pg_sealed p' = pg_sealed p \<and> (pg_tags p' = None \<longleftrightarrow> pg_tags p = None) \<and>
     pg_junk p' = pg_junk p"

lemma seal_frame_refl [simp]: "seal_frame p p"
  by (simp add: seal_frame_def)

lemma seal_frame_trans: "seal_frame p p' \<Longrightarrow> seal_frame p' p'' \<Longrightarrow> seal_frame p p''"
  by (auto simp: seal_frame_def)

lemma on_tags_frame: "on_tags m p = (r, p') \<Longrightarrow> seal_frame p p'"
  by (auto simp: on_tags_def seal_frame_def split: option.splits prod.splits)

lemma flushTagBlk_frame: "flushTagBlk p = (r, p') \<Longrightarrow> seal_frame p p'"
  by (auto simp: flushTagBlk_def op_bind_def seal_frame_def dest!: on_tags_frame split: if_splits prod.splits sum.splits)

lemma loadTagBlk_frame: "loadTagBlk tb p = (r, p') \<Longrightarrow> seal_frame p p'"
  by (auto simp: loadTagBlk_def op_bind_def seal_frame_def dest!: on_tags_frame flushTagBlk_frame split: if_splits prod.splits sum.splits)

lemma tag_frames:
  "readTag i p = (r, p') \<Longrightarrow> seal_frame p p'" "writeTag i tag p = (u, p') \<Longrightarrow> seal_frame p p'" "flushTags p = (u, p') \<Longrightarrow> seal_frame p p'"
  by (auto simp: readTag_def writeTag_def flushTags_def op_bind_def seal_frame_def dest!: on_tags_frame loadTagBlk_frame flushTagBlk_frame
      split: if_splits prod.splits sum.splits)

lemma verifyPage_frame: "verifyPage lba b p = (r, p') \<Longrightarrow> seal_frame p p'"
  by (auto simp: verifyPage_def Let_def op_bind_def dest!: tag_frames split: if_splits prod.splits sum.splits option.splits)

lemma sealPage_frame: "sealPage lba b p = (r, p') \<Longrightarrow> seal_frame p p'"
  by (auto simp: sealPage_def Let_def dest!: tag_frames split: if_splits option.splits)

section \<open>The pager\<close>

definition pg_inv :: "Pager \<Rightarrow> bool" where
  "pg_inv p \<longleftrightarrow> dev_ok (pg_dev p) \<and> slots_inv (pg_dev p) (pg_slots p) \<and> 0 < length (pg_slots p) \<and> length (pg_slots p) \<le> 65536"

definition pg_view :: "Pager \<Rightarrow> nat \<Rightarrow> bytes" where
  "pg_view p lba = slots_view (pg_dev p) (pg_slots p) lba"

definition keeps :: "Pager \<Rightarrow> Pager \<Rightarrow> bool" where
  "keeps p p' \<longleftrightarrow> same_pages (pg_dev p) (pg_slots p) (pg_dev p') (pg_slots p') \<and> pg_open p' = pg_open p"

lemma keeps_trans: "keeps p p' \<Longrightarrow> keeps p' p'' \<Longrightarrow> keeps p p''"
  unfolding keeps_def using same_pages_trans by metis

lemma keeps_inv: "pg_inv p \<Longrightarrow> keeps p p' \<Longrightarrow> pg_inv p'"
  by (simp add: pg_inv_def keeps_def same_pages_def)

lemma keeps_frame: "pg_inv p \<Longrightarrow> pg_dev p' = pg_dev p \<Longrightarrow> pg_slots p' = pg_slots p \<Longrightarrow> pg_open p' = pg_open p \<Longrightarrow> keeps p p'"
  by (simp add: keeps_def pg_inv_def same_pages_refl)

lemma keeps_seal: "pg_inv p \<Longrightarrow> seal_frame p p' \<Longrightarrow> keeps p p'"
  by (simp add: seal_frame_def keeps_frame)

lemma keeps_view: "keeps p p' \<Longrightarrow> page_lba (pg_dev p) l \<Longrightarrow> pg_view p' l = pg_view p l"
  by (simp add: keeps_def same_pages_def pg_view_def)

text \<open>One slot flushed: its page is on the device, and the slot is clean.\<close>

lemma flush_one:
  assumes inv: "pg_inv p" and i: "i < length (pg_slots p)" and v: "ps_valid (pg_slots p ! i) \<and> ps_dirty (pg_slots p ! i)"
    and w: "dev_Write (ps_lba (pg_slots p ! i)) (ps_buf (pg_slots p ! i)) True (pg_dev p) = (Inr u, d1)"
  shows "same_pages (pg_dev p) (pg_slots p) d1 ((pg_slots p)[i := (pg_slots p ! i)\<lparr>ps_dirty := False\<rparr>])"
proof -
  let ?s = "pg_slots p ! i"
  have wd: "same_pages (pg_dev p) (pg_slots p) d1 (pg_slots p)" "dev_page d1 (ps_lba ?s) = ps_buf ?s"
    using write_dirty [OF _ _ i _ _ w] v inv by (auto simp: pg_inv_def)
  have inv1: "slots_inv d1 (pg_slots p)" "dev_ok d1" using wd(1) by (auto simp: same_pages_def)
  have "slots_inv d1 ((pg_slots p)[i := ?s\<lparr>ps_dirty := False\<rparr>]) \<and>
    (\<forall>l. slots_view d1 ((pg_slots p)[i := ?s\<lparr>ps_dirty := False\<rparr>]) l = (if ps_valid ?s \<and> l = ps_lba ?s then ps_buf ?s else slots_view d1 (pg_slots p) l))"
    using replace_slot [OF inv1(1) i, of "?s\<lparr>ps_dirty := False\<rparr>"] inv1(1) i v wd(2) by (force simp: slots_inv_def)
  moreover have "slots_view d1 (pg_slots p) (ps_lba ?s) = ps_buf ?s" using slots_view_hit [OF inv1(1) i] v by simp
  ultimately have "same_pages d1 (pg_slots p) d1 ((pg_slots p)[i := ?s\<lparr>ps_dirty := False\<rparr>])"
    using inv1(2) by (auto simp: same_pages_def)
  then show ?thesis using same_pages_trans [OF wd(1)] by blast
qed

lemma flush_slots_keeps:
  "pg_inv p \<Longrightarrow> i + k = length (pg_slots p) \<Longrightarrow> flush_slots i k n p = (r, p') \<Longrightarrow> keeps p p'"
proof (induction k arbitrary: i n p)
  case 0 then show ?case by (auto intro: keeps_frame)
next
  case (Suc k)
  let ?s = "pg_slots p ! i"
  show ?case
  proof (cases "ps_valid ?s \<and> ps_dirty ?s")
    case False then show ?thesis using Suc.prems Suc.IH [of p "Suc i" n] by auto
  next
    case True
    obtain rw d1 where w: "dev_Write (ps_lba ?s) (ps_buf ?s) True (pg_dev p) = (rw, d1)" by (metis surj_pair)
    let ?p1 = "p\<lparr>pg_dev := d1\<rparr>"
    have i: "i < length (pg_slots p)" using Suc.prems(2) by simp
    have wd: "same_pages (pg_dev p) (pg_slots p) d1 (pg_slots p)" "\<not> isl rw \<Longrightarrow> dev_page d1 (ps_lba ?s) = ps_buf ?s"
      using write_dirty [OF _ _ i _ _ w] True Suc.prems(1) by (auto simp: pg_inv_def)
    have k1: "keeps p ?p1" using wd(1) by (simp add: keeps_def)
    show ?thesis
    proof (cases rw)
      case (Inl e) then show ?thesis using Suc.prems(3) True w k1 by (auto simp: op_bind_def on_pdev_def)
    next
      case (Inr u)
      obtain rs p2 where se: "sealPage (ps_lba ?s) (ps_buf ?s) ?p1 = (rs, p2)" by (metis surj_pair)
      note fr = sealPage_frame [OF se]
      have inv1: "pg_inv ?p1" using keeps_inv [OF Suc.prems(1) k1] .
      have k2: "keeps p p2" using keeps_trans [OF k1 keeps_seal [OF inv1 fr]] .
      show ?thesis
      proof (cases rs)
        case (Inl e) then show ?thesis using Suc.prems(3) True w Inr se k2 by (auto simp: op_bind_def on_pdev_def)
      next
        case r2: (Inr u2)
        let ?p3 = "p2\<lparr>pg_slots := (pg_slots p2)[i := (pg_slots p2 ! i)\<lparr>ps_dirty := False\<rparr>]\<rparr>"
        have e2: "pg_dev p2 = d1" "pg_slots p2 = pg_slots p" "pg_open p2 = pg_open p" using fr by (auto simp: seal_frame_def)
        have k3: "keeps p ?p3" using flush_one [OF Suc.prems(1) i True] w Inr e2 by (simp add: keeps_def)
        have "flush_slots (Suc i) k (n + 1) ?p3 = (r, p')" using Suc.prems(3) True w Inr se r2 e2 by (simp add: op_bind_def on_pdev_def)
        then have "keeps ?p3 p'" using Suc.IH [of ?p3 "Suc i" "n + 1"] keeps_inv [OF Suc.prems(1) k3] Suc.prems(2) e2 by simp
        then show ?thesis using keeps_trans [OF k3] by blast
      qed
    qed
  qed
qed

lemma on_pdev_keeps:
  assumes "pg_inv p" "on_pdev m p = (r, p')" "\<And>r d'. m (pg_dev p) = (r, d') \<Longrightarrow> dev_ok d' \<and> d_size d' = d_size (pg_dev p) \<and> d_file d' = d_file (pg_dev p)"
  shows "keeps p p' \<and> pg_slots p' = pg_slots p"
proof -
  obtain r' d' where m: "m (pg_dev p) = (r', d')" "p' = p\<lparr>pg_dev := d'\<rparr>" using assms(2) by (auto simp: on_pdev_def split: prod.splits)
  then show ?thesis using assms(1) assms(3) [OF m(1)] same_pages_file [of "pg_dev p" "pg_slots p" d'] by (simp add: keeps_def pg_inv_def)
qed

lemma ready_keeps: "pg_inv p \<Longrightarrow> pager_ready p = (r, p') \<Longrightarrow> keeps p p' \<and> (\<not> isl r \<longrightarrow> p' = p)"
  by (auto simp: pager_ready_def on_pdev_def checkReady_def split: if_splits intro!: keeps_frame)

lemma flush_dev_keeps:
  assumes "pg_inv p" "on_pdev dev_Flush p = (r, p')"
  shows "keeps p p'"
proof -
  have "dev_ok d' \<and> d_size d' = d_size (pg_dev p) \<and> d_file d' = d_file (pg_dev p)" if "dev_Flush (pg_dev p) = (r', d')" for r' d'
    using dev_Flush_cases [OF that] assms(1) by (auto simp: pg_inv_def)
  then show ?thesis using on_pdev_keeps [OF assms] by blast
qed

lemma FlushDirty_keeps:
  assumes "pg_inv p" "FlushDirty p = (r, p')"
  shows "keeps p p'"
proof -
  obtain r1 p1 where rd: "pager_ready p = (r1, p1)" by (metis surj_pair)
  note k1 = ready_keeps [OF assms(1) rd]
  show ?thesis
  proof (cases r1)
    case (Inl e) then show ?thesis using assms(2) rd k1 by (auto simp: FlushDirty_def op_bind_def)
  next
    case (Inr u)
    then have p1: "p1 = p" using k1 by simp
    obtain r2 p2 where fl: "flush_slots 0 (length (pg_slots p)) 0 p = (r2, p2)" by (metis surj_pair)
    have k2: "keeps p p2" using flush_slots_keeps [OF assms(1) _ fl] by simp
    have inv2: "pg_inv p2" using keeps_inv [OF assms(1) k2] .
    let ?p3 = "p2\<lparr>pg_flushes := pg_flushes p2 + 1\<rparr>"
    have k3: "keeps p ?p3" using keeps_trans [OF k2] keeps_frame [OF inv2, of ?p3] by simp
    have inv3: "pg_inv ?p3" using keeps_inv [OF assms(1) k3] .
    show ?thesis
    proof (cases "isl r2 \<or> projr r2 = 0")
      case True
      then show ?thesis using assms(2) rd Inr p1 fl k2 by (cases r2) (auto simp: FlushDirty_def op_bind_def)
    next
      case False
      obtain r4 p4 where df: "on_pdev dev_Flush ?p3 = (r4, p4)" by (metis surj_pair)
      have k4: "keeps p p4" using keeps_trans [OF k3 flush_dev_keeps [OF inv3 df]] .
      obtain r5 p5 where ft: "flushTags p4 = (r5, p5)" by (metis surj_pair)
      have k5: "keeps p p5" using keeps_trans [OF k4 keeps_seal [OF keeps_inv [OF assms(1) k4] tag_frames(3) [OF ft]]] .
      show ?thesis using assms(2) rd Inr p1 fl False df ft k4 k5
        by (cases r2; cases r4; cases r5) (auto simp: FlushDirty_def op_bind_def)
    qed
  qed
qed

section \<open>Allocation\<close>

lemma invalid_from_Some: "invalid_from ss k = Some i \<Longrightarrow> k \<le> i \<and> i < k + length ss \<and> \<not> ps_valid (ss ! (i - k))"
proof (induction ss arbitrary: k)
  case (Cons s ss)
  show ?case
  proof (cases "ps_valid s")
    case False then show ?thesis using Cons.prems by auto
  next
    case True
    then have "invalid_from ss (Suc k) = Some i" using Cons.prems by auto
    from Cons.IH [OF this] show ?thesis by (auto simp: nth_Cons' Suc_diff_le)
  qed
qed simp

lemma clock_hand_less:
  assumes "pg_inv p" shows "clock_hand p < length (pg_slots p)"
proof -
  have n: "0 < length (pg_slots p)" "length (pg_slots p) \<le> 65536" using assms by (auto simp: pg_inv_def)
  then have "unat (of_nat (length (pg_slots p)) :: u64) = length (pg_slots p)" by (simp add: unat_of_nat take_bit_nat_eq_self)
  then show ?thesis using n(1) by (simp add: clock_hand_def unat_mod_distrib)
qed

lemma clock_loop_keeps:
  "pg_inv p \<Longrightarrow> clock_loop k p = (r, p') \<Longrightarrow> pg_dev p' = pg_dev p \<and> pg_slots p' = pg_slots p \<and> pg_open p' = pg_open p \<and>
    (case r of Some i \<Rightarrow> i < length (pg_slots p) \<and> \<not> ps_dirty (pg_slots p ! i) | None \<Rightarrow> True)"
proof (induction k arbitrary: p)
  case (Suc k)
  let ?p = "p\<lparr>pg_clock := pg_clock p + 1\<rparr>"
  have "pg_inv ?p" using Suc.prems(1) by (simp add: pg_inv_def)
  then show ?case using Suc.IH [of ?p] Suc.prems clock_hand_less [OF Suc.prems(1)] by (auto simp: Let_def split: if_splits option.splits)
qed auto

text \<open>A flush clears dirty marks and changes no other field of a slot.\<close>

abbreviation slot_key :: "pageSlot \<Rightarrow> nat \<times> bytes \<times> bool" where
  "slot_key s \<equiv> (ps_lba s, ps_buf s, ps_valid s)"

lemma map_update_id: "(map f xs)[i := f (xs ! i)] = map f xs"
  by (simp only: map_update [symmetric] list_update_id)

lemma flush_slots_slots:
  "flush_slots i k n p = (r, p') \<Longrightarrow> i + k \<le> length (pg_slots p) \<Longrightarrow>
   map slot_key (pg_slots p') = map slot_key (pg_slots p) \<and>
   (\<not> isl r \<longrightarrow> (\<forall>j < i. \<not> (ps_valid (pg_slots p ! j) \<and> ps_dirty (pg_slots p ! j))) \<longrightarrow>
      (\<forall>j < i + k. \<not> (ps_valid (pg_slots p' ! j) \<and> ps_dirty (pg_slots p' ! j))))"
proof (induction k arbitrary: i n p)
  case 0 then show ?case by auto
next
  case (Suc k)
  let ?s = "pg_slots p ! i"
  show ?case
  proof (cases "ps_valid ?s \<and> ps_dirty ?s")
    case False
    then have "flush_slots (Suc i) k n p = (r, p')" using Suc.prems(1) by auto
    from Suc.IH [OF this] Suc.prems(2) False show ?thesis by (auto simp: less_Suc_eq)
  next
    case True
    obtain rw p1 where w: "on_pdev (dev_Write (ps_lba ?s) (ps_buf ?s) True) p = (rw, p1)" by (metis surj_pair)
    then have p1: "pg_slots p1 = pg_slots p" by (auto simp: on_pdev_def split: prod.splits)
    obtain rs p2 where se: "sealPage (ps_lba ?s) (ps_buf ?s) p1 = (rs, p2)" by (metis surj_pair)
    have p2: "pg_slots p2 = pg_slots p" using sealPage_frame [OF se] p1 by (simp add: seal_frame_def)
    let ?p3 = "p2\<lparr>pg_slots := (pg_slots p2)[i := (pg_slots p2 ! i)\<lparr>ps_dirty := False\<rparr>]\<rparr>"
    show ?thesis
    proof (cases "isl rw \<or> isl rs")
      case True
      then show ?thesis using Suc.prems(1) \<open>ps_valid ?s \<and> ps_dirty ?s\<close> w se p1 p2
        by (cases rw; cases rs) (auto simp: op_bind_def)
    next
      case False
      then have "flush_slots (Suc i) k (n + 1) ?p3 = (r, p')"
        using Suc.prems(1) True w se p1 p2 by (cases rw; cases rs) (auto simp: op_bind_def)
      from Suc.IH [OF this] have ih: "map slot_key (pg_slots p') = map slot_key (pg_slots ?p3) \<and>
        (\<not> isl r \<longrightarrow> (\<forall>j < Suc i. \<not> (ps_valid (pg_slots ?p3 ! j) \<and> ps_dirty (pg_slots ?p3 ! j))) \<longrightarrow>
          (\<forall>j < Suc i + k. \<not> (ps_valid (pg_slots p' ! j) \<and> ps_dirty (pg_slots p' ! j))))" using Suc.prems(2) p2 by simp
      have "map slot_key (pg_slots ?p3) = map slot_key (pg_slots p)"
        using p2 map_update_id [of slot_key "pg_slots p" i] by (simp add: map_update)
      then show ?thesis using ih Suc.prems(2) p2 by (auto simp: less_Suc_eq nth_list_update)
    qed
  qed
qed

lemma FlushDirty_slots:
  assumes "FlushDirty p = (Inr n, p')"
  shows "map slot_key (pg_slots p') = map slot_key (pg_slots p) \<and> (\<forall>s \<in> set (pg_slots p'). \<not> (ps_valid s \<and> ps_dirty s))"
proof -
  obtain p1 m p2 where rd: "pager_ready p = (Inr (), p1)" and fl1: "flush_slots 0 (length (pg_slots p1)) 0 p1 = (Inr m, p2)"
    and rest: "(if m > 0 then op_bind (on_pdev dev_Flush) (\<lambda>_. op_bind flushTags (\<lambda>_. op_ret m)) (p2\<lparr>pg_flushes := pg_flushes p2 + 1\<rparr>)
      else (Inr m, p2)) = (Inr n, p')"
    using assms unfolding FlushDirty_def by (auto elim!: op_bind_InrE)
  have "p1 = p" using rd by (auto simp: pager_ready_def on_pdev_def checkReady_def split: if_splits)
  then have fl: "flush_slots 0 (length (pg_slots p)) 0 p = (Inr m, p2)" using fl1 by simp
  have e: "pg_slots p' = pg_slots p2"
  proof (cases "m > 0")
    case True
    then obtain p3 p4 where "on_pdev dev_Flush (p2\<lparr>pg_flushes := pg_flushes p2 + 1\<rparr>) = (Inr (), p3)" "flushTags p3 = (Inr (), p4)" "p' = p4"
      using rest by (auto elim!: op_bind_InrE)
    then show ?thesis using tag_frames(3) [of p3 "Inr ()" p4] by (auto simp: on_pdev_def seal_frame_def split: prod.splits)
  qed (use rest in simp)
  note fl = fl e
  have m: "map slot_key (pg_slots p2) = map slot_key (pg_slots p)" and c: "\<forall>j < length (pg_slots p). \<not> (ps_valid (pg_slots p2 ! j) \<and> ps_dirty (pg_slots p2 ! j))"
    using flush_slots_slots [OF fl(1)] by simp_all
  have "length (pg_slots p2) = length (pg_slots p)" by (rule map_eq_imp_length_eq [OF m])
  then have "\<forall>s \<in> set (pg_slots p2). \<not> (ps_valid s \<and> ps_dirty s)" using c by (metis in_set_conv_nth)
  then show ?thesis using m fl(2) by simp
qed

lemma slot_keys_nth:
  assumes "map slot_key ss' = map slot_key ss" "j < length ss"
  shows "ps_lba (ss' ! j) = ps_lba (ss ! j) \<and> ps_valid (ss' ! j) = ps_valid (ss ! j) \<and> length ss' = length ss"
proof -
  have l: "length ss' = length ss" using assms(1) by (rule map_eq_imp_length_eq)
  have "map slot_key ss' ! j = map slot_key ss ! j" using assms(1) by simp
  then show ?thesis using assms(2) l by simp
qed

text \<open>What \<^verbatim>\<open>alloc\<close> returns: a slot that holds the page, or a slot taken over that was free or clean.\<close>

lemma alloc_cases:
  assumes "pg_inv p" "pager_alloc lba p = (r, p')"
  shows "(\<exists>e. r = Inl e \<and> keeps p p') \<or>
    (\<exists>i p0. r = Inr i \<and> keeps p p0 \<and> i < length (pg_slots p0) \<and>
      (p' = p0 \<and> pager_find lba p = Some i \<and> ps_valid (pg_slots p0 ! i) \<and> ps_lba (pg_slots p0 ! i) = lba \<or>
       p' = take_slot i lba p0 \<and> pager_find lba p = None \<and> \<not> (ps_valid (pg_slots p0 ! i) \<and> ps_dirty (pg_slots p0 ! i)) \<and>
         (\<forall>j < length (pg_slots p0). ps_valid (pg_slots p0 ! j) \<longrightarrow> ps_lba (pg_slots p0 ! j) \<noteq> lba)))"
proof (cases "pager_find lba p")
  case (Some i)
  then show ?thesis using assms find_from_Some [of "pg_slots p" lba 0 i] keeps_frame [OF assms(1), of p]
    by (auto simp: pager_alloc_def pager_find_def)
next
  case None
  have miss: "\<forall>j < length (pg_slots p). ps_valid (pg_slots p ! j) \<longrightarrow> ps_lba (pg_slots p ! j) \<noteq> lba"
    using find_from_None None by (auto simp: pager_find_def)
  show ?thesis
  proof (cases "invalid_from (pg_slots p) 0")
    case (Some i)
    then show ?thesis using assms None invalid_from_Some [OF Some] miss keeps_frame [OF assms(1), of p] by (auto simp: pager_alloc_def)
  next
    case full: None
    obtain rc p1 where c: "clock_loop (length (pg_slots p)) p = (rc, p1)" by (metis surj_pair)
    note c1 = clock_loop_keeps [OF assms(1) c]
    have k1: "keeps p p1" using c1 keeps_frame [OF assms(1), of p1] by simp
    have inv1: "pg_inv p1" using keeps_inv [OF assms(1) k1] .
    show ?thesis
    proof (cases rc)
      case (Some i)
      then show ?thesis using assms(2) None full c c1 k1 miss by (intro disjI2 exI [of _ i] exI [of _ p1]) (simp add: pager_alloc_def)
    next
      case all: None
      obtain rf p2 where f: "FlushDirty p1 = (rf, p2)" by (metis surj_pair)
      have k2: "keeps p p2" using keeps_trans [OF k1 FlushDirty_keeps [OF inv1 f]] .
      have inv2: "pg_inv p2" using keeps_inv [OF assms(1) k2] .
      show ?thesis
      proof (cases rf)
        case (Inl e) then show ?thesis using assms(2) None full c all f k2 by (auto simp: pager_alloc_def op_bind_def)
      next
        case (Inr n)
        let ?p0 = "p2\<lparr>pg_clock := pg_clock p2 + 1\<rparr>" and ?i = "clock_hand p2"
        have r: "r = Inr ?i" "p' = take_slot ?i lba ?p0" using assms(2) None full c all f Inr by (simp_all add: pager_alloc_def op_bind_def Let_def)
        have s: "map slot_key (pg_slots p2) = map slot_key (pg_slots p1)" "\<forall>s \<in> set (pg_slots p2). \<not> (ps_valid s \<and> ps_dirty s)"
          using FlushDirty_slots [of p1 n p2] f Inr by simp_all
        have k0: "keeps p ?p0" using keeps_trans [OF k2] keeps_frame [OF inv2, of ?p0] by simp
        have i: "?i < length (pg_slots p2)" by (rule clock_hand_less [OF inv2])
        have "\<forall>j < length (pg_slots p2). ps_valid (pg_slots p2 ! j) \<longrightarrow> ps_lba (pg_slots p2 ! j) \<noteq> lba"
          using miss c1 slot_keys_nth [OF s(1)] map_eq_imp_length_eq [OF s(1)] by simp
        moreover have "\<not> (ps_valid (pg_slots p2 ! ?i) \<and> ps_dirty (pg_slots p2 ! ?i))" using s(2) i by simp
        ultimately show ?thesis using r k0 i None by (intro disjI2 exI [of _ ?i] exI [of _ ?p0]) simp
      qed
    qed
  qed
qed

section \<open>Put and get\<close>

definition may_take :: "nat \<Rightarrow> nat \<Rightarrow> Pager \<Rightarrow> bool" where
  "may_take i lba p \<longleftrightarrow> pg_inv p \<and> i < length (pg_slots p) \<and> page_lba (pg_dev p) lba \<and>
     (ps_valid (pg_slots p ! i) \<and> ps_dirty (pg_slots p ! i) \<longrightarrow> ps_lba (pg_slots p ! i) = lba) \<and>
     (\<forall>j < length (pg_slots p). j \<noteq> i \<longrightarrow> ps_valid (pg_slots p ! j) \<longrightarrow> ps_lba (pg_slots p ! j) \<noteq> lba)"

definition with_slot :: "nat \<Rightarrow> pageSlot \<Rightarrow> Pager \<Rightarrow> Pager" where
  "with_slot i s p = p\<lparr>pg_slots := (pg_slots p)[i := s]\<rparr>"

lemma with_slot_twice [simp]: "with_slot i s (with_slot i s' p) = with_slot i s p"
  by (simp add: with_slot_def)

lemma put_slot:
  assumes m: "may_take i lba p" and s: "ps_lba s = lba" "ps_valid s" "length (ps_buf s) = 16384" "ps_dirty s \<or> ps_buf s = dev_page (pg_dev p) lba"
  shows "pg_inv (with_slot i s p) \<and> (\<forall>l. pg_view (with_slot i s p) l = (if l = lba then ps_buf s else pg_view p l))"
proof -
  have "slots_inv (pg_dev p) ((pg_slots p)[i := s]) \<and>
      (\<forall>l. slots_view (pg_dev p) ((pg_slots p)[i := s]) l = (if ps_valid s \<and> l = ps_lba s then ps_buf s else slots_view (pg_dev p) (pg_slots p) l))"
    by (rule replace_slot) (use m s in \<open>auto simp: may_take_def pg_inv_def\<close>)
  then show ?thesis using m s by (simp add: may_take_def pg_inv_def pg_view_def with_slot_def)
qed

lemma drop_slot_keeps:
  assumes m: "may_take i lba p" and clean: "\<not> (ps_valid (pg_slots p ! i) \<and> ps_dirty (pg_slots p ! i))" and s: "\<not> ps_valid s" "length (ps_buf s) = 16384"
  shows "keeps p (with_slot i s p)"
proof -
  have "slots_inv (pg_dev p) ((pg_slots p)[i := s]) \<and>
      (\<forall>l. slots_view (pg_dev p) ((pg_slots p)[i := s]) l = (if ps_valid s \<and> l = ps_lba s then ps_buf s else slots_view (pg_dev p) (pg_slots p) l))"
    by (rule replace_slot) (use m s clean in \<open>auto simp: may_take_def pg_inv_def\<close>)
  then show ?thesis using m s by (simp add: may_take_def pg_inv_def keeps_def same_pages_def with_slot_def)
qed

lemma clean_view: "may_take i lba p \<Longrightarrow> \<not> (ps_valid (pg_slots p ! i) \<and> ps_dirty (pg_slots p ! i)) \<Longrightarrow> pg_view p lba = dev_page (pg_dev p) lba"
proof -
  assume m: "may_take i lba p" and c: "\<not> (ps_valid (pg_slots p ! i) \<and> ps_dirty (pg_slots p ! i))"
  have inv: "slots_inv (pg_dev p) (pg_slots p)" and i: "i < length (pg_slots p)" using m by (simp_all add: may_take_def pg_inv_def)
  show "pg_view p lba = dev_page (pg_dev p) lba"
  proof (cases "ps_valid (pg_slots p ! i) \<and> ps_lba (pg_slots p ! i) = lba")
    case True
    moreover have "pg_slots p ! i \<in> set (pg_slots p)" using i by simp
    ultimately have "ps_buf (pg_slots p ! i) = dev_page (pg_dev p) lba" using inv c unfolding slots_inv_def by blast
    then show ?thesis using slots_view_hit [OF inv i] True by (simp add: pg_view_def)
  next
    case False
    have "slots_view (pg_dev p) (pg_slots p) lba = dev_page (pg_dev p) lba"
    proof (rule slots_view_miss)
      fix j assume "j < length (pg_slots p)" "ps_valid (pg_slots p ! j)"
      then show "ps_lba (pg_slots p ! j) \<noteq> lba" using m False by (cases "j = i") (auto simp: may_take_def)
    qed
    then show ?thesis by (simp add: pg_view_def)
  qed
qed

text \<open>Reading into a slot that was taken over from state \<open>p0\<close>.\<close>

lemma read_slot_cases:
  assumes m: "may_take i lba p0" and c: "\<not> (ps_valid (pg_slots p0 ! i) \<and> ps_dirty (pg_slots p0 ! i))"
    and s: "ps_lba s = lba" "ps_valid s" "\<not> ps_dirty s" "length (ps_buf s) = 16384"
    and r: "read_slot i lba (with_slot i s p0) = (r, p')"
  shows "keeps p0 p' \<and> (\<not> isl r \<longrightarrow> may_take i lba p' \<and> ps_valid (pg_slots p' ! i) \<and> \<not> ps_dirty (pg_slots p' ! i) \<and>
     ps_lba (pg_slots p' ! i) = lba \<and> ps_buf (pg_slots p' ! i) = pg_view p0 lba)"
proof -
  have inv: "pg_inv p0" and i: "i < length (pg_slots p0)" and lb: "page_lba (pg_dev p0) lba" using m by (simp_all add: may_take_def)
  obtain rr d where rd: "dev_Read lba pageN True (pg_dev p0) = (rr, d)" by (metis surj_pair)
  have ok: "dev_ok (pg_dev p0)" using inv by (simp add: pg_inv_def)
  note dc = dev_Read_cases [OF rd ok]
  let ?q = "p0\<lparr>pg_dev := d\<rparr>"
  have kq: "keeps p0 ?q" using same_pages_file [of "pg_dev p0" "pg_slots p0" d] dc inv by (simp add: keeps_def pg_inv_def)
  have mq: "may_take i lba ?q" using m keeps_inv [OF inv kq] dc by (simp add: may_take_def page_lba_def)
  have pe: "dev_page d lba = dev_page (pg_dev p0) lba" using dc by (simp add: dev_page_def)
  show ?thesis
  proof (cases rr)
    case (Inl e)
    then have "p' = with_slot i (s\<lparr>ps_valid := False\<rparr>) ?q" "isl r"
      using r rd i by (auto simp: read_slot_def on_pdev_def with_slot_def drop_slot_def)
    moreover have "keeps ?q (with_slot i (s\<lparr>ps_valid := False\<rparr>) ?q)" by (rule drop_slot_keeps [OF mq]) (use c s in auto)
    ultimately show ?thesis using keeps_trans [OF kq] by simp
  next
    case (Inr b)
    have b: "b = dev_page d lba" "length b = 16384" using dc Inr by (auto simp: dev_page_def)
    let ?s = "s\<lparr>ps_buf := b\<rparr>"
    have p': "p' = with_slot i ?s ?q" "r = Inr ()" using r rd i Inr by (auto simp: read_slot_def on_pdev_def with_slot_def fill_slot_def)
    have pi: "pg_inv (with_slot i ?s ?q) \<and> (\<forall>l. pg_view (with_slot i ?s ?q) l = (if l = lba then b else pg_view ?q l))"
      using put_slot [OF mq, of ?s] s b by simp
    have v: "pg_view ?q lba = b" using clean_view [OF mq] c b by simp
    then have "\<forall>l. pg_view p' l = pg_view ?q l" using pi p' by simp
    then have "keeps ?q p'" using pi p' by (simp add: keeps_def same_pages_def pg_inv_def pg_view_def with_slot_def)
    then have k: "keeps p0 p'" using keeps_trans [OF kq] by blast
    moreover have "may_take i lba p'" using mq keeps_inv [OF inv k] p' s i by (auto simp: may_take_def with_slot_def nth_list_update)
    moreover have "pg_view p0 lba = b" using keeps_view [OF kq lb] v by simp
    ultimately show ?thesis using p' s i by (simp add: with_slot_def)
  qed
qed

lemma checkLBA_cases: "pager_checkLBA lba p = (r, p') \<Longrightarrow> p' = p \<and> (\<not> isl r \<longrightarrow> page_lba (pg_dev p) lba)"
  by (auto simp: pager_checkLBA_def checkPageLBA_def Let_def page_lba_def split: if_splits)

lemma alloc_take:
  assumes "pg_inv p" "page_lba (pg_dev p) lba" "pager_alloc lba p = (Inr i, p')"
  obtains p0 where "keeps p p0" "may_take i lba p0" "p' = p0 \<and> pager_find lba p = Some i \<and> ps_valid (pg_slots p0 ! i) \<and> ps_lba (pg_slots p0 ! i) = lba \<or>
     p' = with_slot i ((pg_slots p0 ! i)\<lparr>ps_lba := lba, ps_valid := True, ps_dirty := False\<rparr>) p0 \<and> pager_find lba p = None \<and>
       \<not> (ps_valid (pg_slots p0 ! i) \<and> ps_dirty (pg_slots p0 ! i))"
proof -
  obtain p0 where k: "keeps p p0" and i: "i < length (pg_slots p0)"
    and c: "p' = p0 \<and> pager_find lba p = Some i \<and> ps_valid (pg_slots p0 ! i) \<and> ps_lba (pg_slots p0 ! i) = lba \<or>
       p' = take_slot i lba p0 \<and> pager_find lba p = None \<and> \<not> (ps_valid (pg_slots p0 ! i) \<and> ps_dirty (pg_slots p0 ! i)) \<and>
         (\<forall>j < length (pg_slots p0). ps_valid (pg_slots p0 ! j) \<longrightarrow> ps_lba (pg_slots p0 ! j) \<noteq> lba)"
    using alloc_cases [OF assms(1,3)] by blast
  have inv: "pg_inv p0" using keeps_inv [OF assms(1) k] .
  have "page_lba (pg_dev p0) lba" using assms(2) k by (simp add: page_lba_def keeps_def same_pages_def)
  moreover have "\<forall>j < length (pg_slots p0). j \<noteq> i \<longrightarrow> ps_valid (pg_slots p0 ! j) \<longrightarrow> ps_lba (pg_slots p0 ! j) \<noteq> lba"
    using c inv i by (auto simp: pg_inv_def slots_inv_def)
  ultimately have "may_take i lba p0" using inv i c by (auto simp: may_take_def)
  then show ?thesis using that [OF k] c by (auto simp: take_slot_def with_slot_def)
qed

lemma slot_length: "pg_inv p \<Longrightarrow> i < length (pg_slots p) \<Longrightarrow> length (ps_buf (pg_slots p ! i)) = 16384"
  by (auto simp: pg_inv_def slots_inv_def)

lemma PutPage_view:
  assumes inv: "pg_inv p" and put: "PutPage lba src p = (r, p')"
  shows "pg_inv p' \<and> (isl r \<longrightarrow> keeps p p') \<and>
    (\<not> isl r \<longrightarrow> page_lba (pg_dev p) lba \<and> d_size (pg_dev p') = d_size (pg_dev p) \<and>
       (\<forall>l. page_lba (pg_dev p) l \<longrightarrow> pg_view p' l = (if l = lba then src else pg_view p l)))"
proof -
  obtain r1 p1 where rd: "pager_ready p = (r1, p1)" by (metis surj_pair)
  note k1 = ready_keeps [OF inv rd]
  obtain r2 p2 where ck: "pager_checkLBA lba p1 = (r2, p2)" by (metis surj_pair)
  note c2 = checkLBA_cases [OF ck]
  show ?thesis
  proof (cases "isl r1 \<or> isl r2 \<or> length src \<noteq> 16384")
    case True
    then have "isl r \<and> p' = p1" using put rd ck c2 k1 by (cases r1; cases r2) (auto simp: PutPage_def op_bind_def)
    then show ?thesis using k1 keeps_inv [OF inv] by auto
  next
    case False
    then have e: "p1 = p" "p2 = p" "page_lba (pg_dev p) lba" using k1 c2 by auto
    obtain ra p3 where al: "pager_alloc lba p = (ra, p3)" by (metis surj_pair)
    show ?thesis
    proof (cases ra)
      case (Inl er)
      then have "isl r \<and> p' = p3" using put rd ck False e al by (cases r1; cases r2) (auto simp: PutPage_def op_bind_def)
      then show ?thesis using alloc_cases [OF inv al] Inl keeps_inv [OF inv] by auto
    next
      case (Inr i)
      obtain p0 where k0: "keeps p p0" and m: "may_take i lba p0" and s: "p3 = p0 \<and> pager_find lba p = Some i \<and> ps_valid (pg_slots p0 ! i) \<and> ps_lba (pg_slots p0 ! i) = lba \<or>
        p3 = with_slot i ((pg_slots p0 ! i)\<lparr>ps_lba := lba, ps_valid := True, ps_dirty := False\<rparr>) p0 \<and> pager_find lba p = None \<and>
         \<not> (ps_valid (pg_slots p0 ! i) \<and> ps_dirty (pg_slots p0 ! i))"
        using alloc_take [OF inv e(3)] al Inr by metis
      have i: "i < length (pg_slots p0)" using m by (simp add: may_take_def)
      let ?s = "(pg_slots p3 ! i)\<lparr>ps_buf := src, ps_dirty := True\<rparr>"
      have "r = Inr ()" "p' = with_slot i ?s p3"
        using put rd ck False e al Inr by (cases r1; cases r2; auto simp: PutPage_def op_bind_def with_slot_def)+
      moreover have "with_slot i ?s p3 = with_slot i ?s p0" using s by auto
      ultimately have p': "r = Inr ()" "p' = with_slot i ?s p0" by simp_all
      have "ps_lba ?s = lba" "ps_valid ?s" "length (ps_buf ?s) = 16384" "ps_dirty ?s" using s i False by (auto simp: with_slot_def)
      then have ps: "pg_inv p' \<and> (\<forall>l. pg_view p' l = (if l = lba then src else pg_view p0 l))" using put_slot [OF m, of ?s] p' by simp
      moreover have "d_size (pg_dev p') = d_size (pg_dev p)" using p' k0 by (simp add: with_slot_def keeps_def same_pages_def)
      ultimately show ?thesis using p'(1) e(3) keeps_view [OF k0] by simp
    qed
  qed
qed

lemma may_take_seal: "may_take i lba p \<Longrightarrow> seal_frame p p' \<Longrightarrow> may_take i lba p'"
  by (simp add: may_take_def seal_frame_def pg_inv_def)

text \<open>The read of a page that is not cached, from the slot taken for it on.\<close>

lemma load_page:
  assumes m: "may_take i lba p0" and c: "\<not> (ps_valid (pg_slots p0 ! i) \<and> ps_dirty (pg_slots p0 ! i))"
    and s: "ps_lba s = lba" "ps_valid s" "\<not> ps_dirty s" "length (ps_buf s) = 16384"
    and l: "op_bind (read_slot i lba) (\<lambda>_ p. case verifyPage lba (ps_buf (pg_slots p ! i)) p of
           (Inr _, p) \<Rightarrow> (Inr (ps_buf (pg_slots p ! i)), p)
         | (Inl _, p) \<Rightarrow> op_bind (read_slot i lba) (\<lambda>_ p.
             case verifyPage lba (ps_buf (pg_slots p ! i)) p of
               (Inr _, p) \<Rightarrow> (Inr (ps_buf (pg_slots p ! i)), p)
             | (Inl e, p) \<Rightarrow> (Inl e, drop_slot i p)) p) (with_slot i s p0) = (r, p')"
  shows "keeps p0 p' \<and> (case r of Inr b \<Rightarrow> b = pg_view p0 lba | Inl _ \<Rightarrow> True)"
proof -
  have inv: "pg_inv p0" and lb: "page_lba (pg_dev p0) lba" using m by (simp_all add: may_take_def)
  obtain r1 p1 where r1: "read_slot i lba (with_slot i s p0) = (r1, p1)" by (metis surj_pair)
  note c1 = read_slot_cases [OF m c s r1]
  show ?thesis
  proof (cases r1)
    case (Inl e) then show ?thesis using l r1 c1 by (auto simp: op_bind_def)
  next
    case (Inr u)
    obtain v1 p2 where v1: "verifyPage lba (ps_buf (pg_slots p1 ! i)) p1 = (v1, p2)" by (metis surj_pair)
    note f1 = verifyPage_frame [OF v1]
    have inv1: "pg_inv p1" using c1 keeps_inv [OF inv] by blast
    have k2: "keeps p0 p2" using c1 keeps_trans keeps_seal [OF inv1 f1] by blast
    have s2: "may_take i lba p2" "ps_valid (pg_slots p2 ! i)" "\<not> ps_dirty (pg_slots p2 ! i)" "ps_lba (pg_slots p2 ! i) = lba"
      "ps_buf (pg_slots p2 ! i) = pg_view p0 lba"
      using c1 Inr may_take_seal [OF _ f1] f1 by (auto simp: seal_frame_def)
    show ?thesis
    proof (cases v1)
      case (Inr w) then show ?thesis using l r1 v1 \<open>r1 = Inr u\<close> k2 s2 by (auto simp: op_bind_def)
    next
      case bad: (Inl e)
      have i2: "i < length (pg_slots p2)" "pg_inv p2" using s2(1) by (simp_all add: may_take_def)
      have id: "with_slot i (pg_slots p2 ! i) p2 = p2" by (simp add: with_slot_def)
      obtain r2 p3 where r2: "read_slot i lba p2 = (r2, p3)" by (metis surj_pair)
      have c2: "keeps p2 p3 \<and> (\<not> isl r2 \<longrightarrow> may_take i lba p3 \<and> ps_valid (pg_slots p3 ! i) \<and> \<not> ps_dirty (pg_slots p3 ! i) \<and>
         ps_lba (pg_slots p3 ! i) = lba \<and> ps_buf (pg_slots p3 ! i) = pg_view p2 lba)"
        using read_slot_cases [OF s2(1), of "pg_slots p2 ! i" r2 p3] s2 r2 id slot_length [OF i2(2,1)] by simp
      have k3: "keeps p0 p3" using keeps_trans [OF k2] c2 by blast
      show ?thesis
      proof (cases r2)
        case (Inl e2) then show ?thesis using l r1 v1 bad \<open>r1 = Inr u\<close> r2 k3 by (auto simp: op_bind_def)
      next
        case ok2: (Inr u2)
        obtain v2 p4 where v2: "verifyPage lba (ps_buf (pg_slots p3 ! i)) p3 = (v2, p4)" by (metis surj_pair)
        note f2 = verifyPage_frame [OF v2]
        have inv3: "pg_inv p3" using keeps_inv [OF inv k3] .
        have k4: "keeps p0 p4" using keeps_trans [OF k3 keeps_seal [OF inv3 f2]] .
        have s4: "may_take i lba p4" "\<not> ps_dirty (pg_slots p4 ! i)" "ps_buf (pg_slots p4 ! i) = pg_view p2 lba"
          using c2 ok2 may_take_seal [OF _ f2] f2 by (auto simp: seal_frame_def)
        have i4: "i < length (pg_slots p4)" "pg_inv p4" using s4(1) by (simp_all add: may_take_def)
        have "drop_slot i p4 = with_slot i ((pg_slots p4 ! i)\<lparr>ps_valid := False\<rparr>) p4" by (simp add: drop_slot_def with_slot_def)
        then have "keeps p4 (drop_slot i p4)" using drop_slot_keeps [OF s4(1)] s4(2) slot_length [OF i4(2,1)] by simp
        then have "keeps p0 (drop_slot i p4)" using keeps_trans [OF k4] by blast
        moreover have "pg_view p2 lba = pg_view p0 lba" using keeps_view [OF k2 lb] .
        ultimately show ?thesis using l r1 v1 bad \<open>r1 = Inr u\<close> r2 ok2 v2 k4 s4(3) by (cases v2) (auto simp: op_bind_def)
      qed
    qed
  qed
qed

lemma GetPage_view:
  assumes inv: "pg_inv p" and get: "GetPage lba p = (r, p')"
  shows "keeps p p' \<and> (case r of Inr b \<Rightarrow> page_lba (pg_dev p) lba \<and> b = pg_view p lba | Inl _ \<Rightarrow> True)"
proof -
  obtain r1 p1 where rd: "pager_ready p = (r1, p1)" by (metis surj_pair)
  note k1 = ready_keeps [OF inv rd]
  obtain r2 p2 where ck: "pager_checkLBA lba p1 = (r2, p2)" by (metis surj_pair)
  note c2 = checkLBA_cases [OF ck]
  show ?thesis
  proof (cases "isl r1 \<or> isl r2")
    case True
    then have "isl r \<and> p' = p1" using get rd ck c2 k1 by (cases r1; cases r2) (auto simp: GetPage_def op_bind_def)
    then show ?thesis using k1 by (cases r) auto
  next
    case False
    then have e: "p1 = p" "p2 = p" "page_lba (pg_dev p) lba" using k1 c2 by auto
    show ?thesis
    proof (cases "pager_find lba p")
      case (Some i)
      then have "r = Inr (ps_buf (pg_slots p ! i))" "p' = p" using get rd ck False e by (cases r1; cases r2; auto simp: GetPage_def op_bind_def)+
      moreover have "pg_view p lba = ps_buf (pg_slots p ! i)" using Some by (simp add: pg_view_def slots_view_def pager_find_def)
      ultimately show ?thesis using e(3) keeps_frame [OF inv, of p] by simp
    next
      case None
      obtain ra p3 where al: "pager_alloc lba p = (ra, p3)" by (metis surj_pair)
      show ?thesis
      proof (cases ra)
        case (Inl er)
        then have "isl r \<and> p' = p3" using get rd ck False e al None by (cases r1; cases r2) (auto simp: GetPage_def op_bind_def)
        then show ?thesis using alloc_cases [OF inv al] Inl by (cases r) auto
      next
        case (Inr i)
        obtain p0 where k0: "keeps p p0" and m: "may_take i lba p0" and s: "p3 = with_slot i ((pg_slots p0 ! i)\<lparr>ps_lba := lba, ps_valid := True, ps_dirty := False\<rparr>) p0"
          "\<not> (ps_valid (pg_slots p0 ! i) \<and> ps_dirty (pg_slots p0 ! i))"
          using alloc_take [OF inv e(3)] al Inr None by (metis option.distinct(1))
        have i: "i < length (pg_slots p0)" "pg_inv p0" using m by (simp_all add: may_take_def)
        have "keeps p0 p' \<and> (case r of Inr b \<Rightarrow> b = pg_view p0 lba | Inl _ \<Rightarrow> True)"
          by (rule load_page [OF m s(2), of "(pg_slots p0 ! i)\<lparr>ps_lba := lba, ps_valid := True, ps_dirty := False\<rparr>"])
            (use slot_length [OF i(2,1)] get rd ck False e al Inr None s(1) in \<open>cases r1; cases r2; simp add: GetPage_def op_bind_def\<close>)+
        then show ?thesis using keeps_trans [OF k0] keeps_view [OF k0 e(3)] e(3) by (auto split: sum.splits)
      qed
    qed
  qed
qed

section \<open>Runs of the pager\<close>

lemma FlushDirtyNoBarrier_keeps:
  assumes "pg_inv p" "FlushDirtyNoBarrier p = (r, p')"
  shows "keeps p p'"
proof -
  obtain r1 p1 where rd: "pager_ready p = (r1, p1)" by (metis surj_pair)
  note k1 = ready_keeps [OF assms(1) rd]
  show ?thesis
  proof (cases r1)
    case (Inl e) then show ?thesis using assms(2) rd k1 by (auto simp: FlushDirtyNoBarrier_def op_bind_def)
  next
    case (Inr u)
    then have p1: "p1 = p" using k1 by simp
    obtain r2 p2 where fl: "flush_slots 0 (length (pg_slots p)) 0 p = (r2, p2)" by (metis surj_pair)
    have k2: "keeps p p2" using flush_slots_keeps [OF assms(1) _ fl] by simp
    obtain r3 p3 where ft: "flushTagBlk p2 = (r3, p3)" by (metis surj_pair)
    have k3: "keeps p p3" using keeps_trans [OF k2 keeps_seal [OF keeps_inv [OF assms(1) k2] flushTagBlk_frame [OF ft]]] .
    show ?thesis using assms(2) rd Inr p1 fl ft k2 k3
      by (cases r2; cases r3) (auto simp: FlushDirtyNoBarrier_def op_bind_def op_ret_def split: if_splits)
  qed
qed

lemma find_from_append_invalid: "(\<And>s. s \<in> set ts \<Longrightarrow> \<not> ps_valid s) \<Longrightarrow> find_from (ss @ ts) lba k = find_from ss lba k"
proof (induction ss arbitrary: k)
  case Nil
  then have "find_from ts lba k = None" for k by (induction ts arbitrary: k) auto
  then show ?case by simp
qed auto

lemma Reserve_view:
  assumes inv: "pg_inv p" and res: "Reserve n p = (r, p')"
  shows "pg_inv p' \<and> pg_dev p' = pg_dev p \<and> (\<forall>l. pg_view p' l = pg_view p l)"
proof (cases "p' = p")
  case False
  let ?t = "replicate (n - length (pg_slots p)) \<lparr>ps_lba = 0, ps_buf = replicate pageN 0, ps_valid = False, ps_dirty = False\<rparr>"
  have p': "p' = p\<lparr>pg_slots := pg_slots p @ ?t\<rparr>" "length (pg_slots p) < n" "n \<le> 65536"
    using res False by (auto simp: Reserve_def op_bind_def pager_ready_def on_pdev_def checkReady_def split: if_splits)
  have "slots_inv (pg_dev p) (pg_slots p @ ?t)"
    using inv by (auto simp: pg_inv_def slots_inv_def nth_append)
  moreover have "slots_view (pg_dev p) (pg_slots p @ ?t) l = slots_view (pg_dev p) (pg_slots p) l" for l
  proof -
    have f: "find_from (pg_slots p @ ?t) l 0 = find_from (pg_slots p) l 0" by (rule find_from_append_invalid) auto
    show ?thesis
      unfolding slots_view_def f using find_from_Some [of "pg_slots p" l 0] by (auto simp: nth_append split: option.splits)
  qed
  ultimately show ?thesis using inv p' by (simp add: pg_inv_def pg_view_def)
qed (use inv in simp)

datatype pager_call = CallPut nat bytes | CallGet nat | CallFlush | CallFlushNoBarrier | CallReserve nat

fun pager_exec :: "pager_call \<Rightarrow> (Pager, pager_error, bytes option) op" where
  "pager_exec (CallPut lba src) = op_bind (PutPage lba src) (\<lambda>_. op_ret None)"
| "pager_exec (CallGet lba) = op_bind (GetPage lba) (\<lambda>b. op_ret (Some b))"
| "pager_exec CallFlush = op_bind FlushDirty (\<lambda>_. op_ret None)"
| "pager_exec CallFlushNoBarrier = op_bind FlushDirtyNoBarrier (\<lambda>_. op_ret None)"
| "pager_exec (CallReserve n) = op_bind (Reserve n) (\<lambda>_. op_ret None)"

text \<open>The memory of pages that the calls describe: a successful put stores its page, nothing else changes it.\<close>

fun mem_step :: "pager_call \<Rightarrow> pager_error + bytes option \<Rightarrow> (nat \<Rightarrow> bytes) \<Rightarrow> nat \<Rightarrow> bytes" where
  "mem_step (CallPut lba src) (Inr _) mem = mem(lba := src)"
| "mem_step _ _ mem = mem"

fun answers :: "pager_call list \<Rightarrow> Pager \<Rightarrow> (nat \<Rightarrow> bytes) \<Rightarrow> bool" where
  "answers [] p mem = True"
| "answers (c # cs) p mem = (case pager_exec c p of (r, p') \<Rightarrow>
     (case (c, r) of (CallGet lba, Inr (Some b)) \<Rightarrow> b = mem lba | _ \<Rightarrow> True) \<and> answers cs p' (mem_step c r mem))"

definition agrees :: "Pager \<Rightarrow> (nat \<Rightarrow> bytes) \<Rightarrow> bool" where
  "agrees p mem \<longleftrightarrow> pg_inv p \<and> (\<forall>l. page_lba (pg_dev p) l \<longrightarrow> pg_view p l = mem l)"

lemma agrees_keeps: "agrees p mem \<Longrightarrow> keeps p p' \<Longrightarrow> agrees p' mem"
  using keeps_inv keeps_view by (auto simp: agrees_def keeps_def same_pages_def page_lba_def)

lemma pager_exec_agrees:
  assumes "agrees p mem" "pager_exec c p = (r, p')"
  shows "agrees p' (mem_step c r mem) \<and> (case (c, r) of (CallGet lba, Inr (Some b)) \<Rightarrow> b = mem lba | _ \<Rightarrow> True)"
proof -
  have inv: "pg_inv p" using assms(1) by (simp add: agrees_def)
  show ?thesis
  proof (cases c)
    case (CallPut lba src)
    then obtain r1 where pp: "PutPage lba src p = (r1, p')" "isl r1 = isl r" "\<not> isl r \<longrightarrow> r = Inr None"
      using assms(2) by (auto simp: op_bind_def split: prod.splits sum.splits)
    note v = PutPage_view [OF inv pp(1)]
    show ?thesis
    proof (cases "isl r")
      case True
      then show ?thesis using v pp(2) agrees_keeps [OF assms(1)] CallPut by (cases r) auto
    next
      case False
      then have "page_lba (pg_dev p') l = page_lba (pg_dev p) l" for l using v pp(2) by (simp add: page_lba_def)
      then show ?thesis using v pp False assms(1) CallPut by (auto simp: agrees_def)
    qed
  next
    case (CallGet lba)
    then obtain r1 where gp: "GetPage lba p = (r1, p')" "r = (case r1 of Inl e \<Rightarrow> Inl e | Inr b \<Rightarrow> Inr (Some b))"
      using assms(2) by (auto simp: op_bind_def split: prod.splits sum.splits)
    then show ?thesis using GetPage_view [OF inv gp(1)] agrees_keeps [OF assms(1)] assms(1) CallGet by (cases r1) (auto simp: agrees_def)
  next
    case CallFlush
    then obtain r1 where "FlushDirty p = (r1, p')" using assms(2) by (auto simp: op_bind_def split: prod.splits sum.splits)
    then show ?thesis using FlushDirty_keeps [OF inv] agrees_keeps [OF assms(1)] CallFlush by simp
  next
    case CallFlushNoBarrier
    then obtain r1 where "FlushDirtyNoBarrier p = (r1, p')" using assms(2) by (auto simp: op_bind_def split: prod.splits sum.splits)
    then show ?thesis using FlushDirtyNoBarrier_keeps [OF inv] agrees_keeps [OF assms(1)] CallFlushNoBarrier by simp
  next
    case (CallReserve n)
    then obtain r1 where "Reserve n p = (r1, p')" using assms(2) by (auto simp: op_bind_def split: prod.splits sum.splits)
    then show ?thesis using Reserve_view [OF inv] assms(1) CallReserve by (auto simp: agrees_def)
  qed
qed

text \<open>
  C17. The page cache is a memory. Over any sequence of calls, with any failures and short transfers of the
  device, with evictions, flushes and growth of the cache in between, every page that \<^verbatim>\<open>GetPage\<close>
  returns is the one last stored by a successful \<^verbatim>\<open>PutPage\<close>, or the one the device held when the
  pager was opened.
\<close>
theorem pager_memory:
  assumes "pg_inv p"
  shows "answers cs p (pg_view p)"
proof -
  have "answers cs p mem" if "agrees p mem" for p mem
    using that
  proof (induction cs arbitrary: p mem)
    case (Cons c cs)
    obtain r p' where e: "pager_exec c p = (r, p')" by (metis surj_pair)
    show ?case using pager_exec_agrees [OF Cons.prems e] Cons.IH e by simp
  qed simp
  then show ?thesis using assms by (simp add: agrees_def)
qed

lemma NewPager_inv:
  assumes "dev_ok d" "NewPager junk d = Inr p"
  shows "pg_inv p \<and> pg_view p = dev_page d \<and> pg_dev p = d"
proof -
  let ?s = "\<lparr>ps_lba = 0, ps_buf = replicate pageN 0, ps_valid = False, ps_dirty = False\<rparr>"
  have p: "pg_dev p = d" "pg_slots p = replicate 256 ?s"
    using assms(2) by (auto simp: NewPager_def checkReady_def PagerSlots_def split: if_splits)
  then have "pg_inv p" using assms(1) by (simp add: pg_inv_def slots_inv_def)
  moreover have "pg_view p l = dev_page d l" for l unfolding pg_view_def p by (rule slots_view_miss) simp
  ultimately show ?thesis using p by (auto simp: fun_eq_iff)
qed

theorem pager_memory_witness:
  "\<exists>p. NewPager [] (zero_dev 8) = Inr p \<and> answers [CallPut 4 (replicate 16384 1), CallFlush, CallGet 4] p (dev_page (zero_dev 8))"
proof -
  obtain p where p: "NewPager [] (zero_dev 8) = Inr p" by (simp add: NewPager_def checkReady_def zero_dev_def)
  have "pg_inv p" "pg_view p = dev_page (zero_dev 8)" using NewPager_inv [OF zero_dev_ok(1) p] by simp_all
  then have "answers [CallPut 4 (replicate 16384 1), CallFlush, CallGet 4] p (dev_page (zero_dev 8))" by (metis pager_memory)
  then show ?thesis using p by blast
qed

section \<open>Durability\<close>

lemma flush_slots_dev:
  "pg_inv p \<Longrightarrow> i + k = length (pg_slots p) \<Longrightarrow> flush_slots i k n p = (Inr m, p') \<Longrightarrow>
   k_durable (d_os (pg_dev p')) = k_durable (d_os (pg_dev p)) \<and> d_fd (pg_dev p') = d_fd (pg_dev p) \<and> pg_open p' = pg_open p \<and>
   (\<not> d_poisoned (pg_dev p) \<longrightarrow> \<not> d_poisoned (pg_dev p'))"
proof (induction k arbitrary: i n p)
  case (Suc k)
  let ?s = "pg_slots p ! i"
  show ?case
  proof (cases "ps_valid ?s \<and> ps_dirty ?s")
    case False then show ?thesis using Suc.prems Suc.IH [of p "Suc i" n] by auto
  next
    case True
    let ?p3 = "\<lambda>p2. p2\<lparr>pg_slots := (pg_slots p2)[i := (pg_slots p2 ! i)\<lparr>ps_dirty := False\<rparr>]\<rparr>"
    from Suc.prems(3) True obtain p1 p2 where w: "on_pdev (dev_Write (ps_lba ?s) (ps_buf ?s) True) p = (Inr (), p1)"
      and se: "sealPage (ps_lba (pg_slots p1 ! i)) (ps_buf (pg_slots p1 ! i)) p1 = (Inr (), p2)" and rest: "flush_slots (Suc i) k (n + 1) (?p3 p2) = (Inr m, p')"
      by (auto elim!: op_bind_InrE)
    obtain d1 where d1: "dev_Write (ps_lba ?s) (ps_buf ?s) True (pg_dev p) = (Inr (), d1)" "p1 = p\<lparr>pg_dev := d1\<rparr>"
      using w by (auto simp: on_pdev_def split: prod.splits sum.splits)
    have ok: "dev_ok (pg_dev p)" using Suc.prems(1) by (simp add: pg_inv_def)
    note c = dev_Write_cases [OF d1(1) ok]
    have e2: "pg_dev p2 = d1" "pg_slots p2 = pg_slots p" "pg_open p2 = pg_open p" using sealPage_frame [OF se] d1(2) by (auto simp: seal_frame_def)
    have "keeps p (?p3 p2)" using flush_one [OF Suc.prems(1) _ True d1(1)] Suc.prems(2) e2 by (simp add: keeps_def)
    then have inv: "pg_inv (?p3 p2)" by (rule keeps_inv [OF Suc.prems(1)])
    show ?thesis using Suc.IH [OF inv _ rest] Suc.prems(2) e2 c by simp
  qed
qed auto


text \<open>With no dirty slot, the pages of the cache are the pages of the device.\<close>

lemma flushed_view:
  assumes "pg_inv p" "\<forall>s \<in> set (pg_slots p). \<not> (ps_valid s \<and> ps_dirty s)"
  shows "pg_view p l = dev_page (pg_dev p) l"
proof (cases "\<exists>j < length (pg_slots p). ps_valid (pg_slots p ! j) \<and> ps_lba (pg_slots p ! j) = l")
  case True
  then obtain j where j: "j < length (pg_slots p)" "ps_valid (pg_slots p ! j)" "ps_lba (pg_slots p ! j) = l" by blast
  have inv: "slots_inv (pg_dev p) (pg_slots p)" using assms(1) by (simp add: pg_inv_def)
  have "\<not> ps_dirty (pg_slots p ! j)" using assms(2) j by (meson nth_mem)
  then have "ps_buf (pg_slots p ! j) = dev_page (pg_dev p) l" using inv j by (auto simp: slots_inv_def)
  then show ?thesis using slots_view_hit [OF inv j] by (simp add: pg_view_def)
next
  case False then show ?thesis unfolding pg_view_def using slots_view_miss by metis
qed

lemma ready_same: "pager_ready p = (Inr u, p1) \<Longrightarrow> p1 = p"
  by (auto simp: pager_ready_def on_pdev_def checkReady_def split: if_splits)

lemma flush_slots_clean:
  "(\<And>j. i \<le> j \<Longrightarrow> j < i + k \<Longrightarrow> \<not> (ps_valid (pg_slots p ! j) \<and> ps_dirty (pg_slots p ! j))) \<Longrightarrow> flush_slots i k n p = (Inr n, p)"
proof (induction k arbitrary: i)
  case (Suc k)
  have "flush_slots (Suc i) k n p = (Inr n, p)" using Suc.prems by (intro Suc.IH) simp
  then show ?case using Suc.prems [of i] by auto
qed simp

lemma FlushDirty_synced:
  assumes inv: "pg_inv p" and f: "FlushDirty p = (Inr n, p')" and n: "0 < n"
  shows "k_durable (d_os (pg_dev p')) = d_file (pg_dev p')"
proof -
  obtain p1 m p2 where rd: "pager_ready p = (Inr (), p1)" and fl: "flush_slots 0 (length (pg_slots p1)) 0 p1 = (Inr m, p2)"
    and rest: "(if m > 0 then op_bind (on_pdev dev_Flush) (\<lambda>_. op_bind flushTags (\<lambda>_. op_ret m)) (p2\<lparr>pg_flushes := pg_flushes p2 + 1\<rparr>)
      else (Inr m, p2)) = (Inr n, p')"
    using f unfolding FlushDirty_def by (auto elim!: op_bind_InrE)
  have p1: "p1 = p" using ready_same [OF rd] .
  have "keeps p p2" using flush_slots_keeps [OF inv _ fl [unfolded p1]] by simp
  then have ok: "dev_ok (pg_dev p2)" using keeps_inv [OF inv] by (simp add: pg_inv_def)
  have "m > 0" using rest n by (cases "m > 0") auto
  then obtain p3 p4 where d: "on_pdev dev_Flush (p2\<lparr>pg_flushes := pg_flushes p2 + 1\<rparr>) = (Inr (), p3)" and t: "flushTags p3 = (Inr (), p4)" "p' = p4"
    using rest by (auto elim!: op_bind_InrE simp: op_ret_def)
  from d obtain d3 where "dev_Flush (pg_dev p2) = (Inr (), d3)" "pg_dev p3 = d3" by (auto simp: on_pdev_def split: prod.splits sum.splits)
  with dev_Flush_cases [OF _ ok] have "k_durable (d_os (pg_dev p3)) = d_file (pg_dev p3)" by fastforce
  then show ?thesis using tag_frames(3) [OF t(1)] t(2) by (simp add: seal_frame_def)
qed

text \<open>C18: A flush that wrote a page makes every page durable: whatever the kernel does with the bytes that
  were not yet synchronised, opening the durable bytes again gives a pager that reads each page as the
  flushed one did.\<close>

theorem FlushDirty_durable:
  assumes inv: "pg_inv p" and f: "FlushDirty p = (Inr n, p')" and n: "0 < n" and crash: "k_file k = k_durable (d_os (pg_dev p'))"
  shows "\<exists>d q. dev_Open k = Inr d \<and> NewPager junk d = Inr q \<and> pg_inv q \<and> (\<forall>l. page_lba (pg_dev p) l \<longrightarrow> pg_view q l = pg_view p l)"
proof -
  note kp = FlushDirty_keeps [OF inv f]
  have inv': "pg_inv p'" using keeps_inv [OF inv kp] .
  have fileq: "k_file k = d_file (pg_dev p')" using crash FlushDirty_synced [OF inv f n] by simp
  have ok: "dev_ok (pg_dev p')" using inv' by (simp add: pg_inv_def)
  then obtain d where d: "dev_Open k = Inr d" "d_file d = d_file (pg_dev p')" "dev_ok d" "checkReady d = (Inr (), d)"
    using fileq by (auto simp: dev_Open_def dev_ok_def checkReady_def)
  obtain q where q: "NewPager junk d = Inr q" using d(4) by (simp add: NewPager_def)
  note nq = NewPager_inv [OF d(3) q]
  have "pg_view q l = pg_view p l" if "page_lba (pg_dev p) l" for l
    using nq flushed_view [OF inv' conjunct2 [OF FlushDirty_slots [OF f]]] keeps_view [OF kp that] d(2) by (simp add: dev_page_def)
  then show ?thesis using d(1) q nq by blast
qed

text \<open>The barrier that \<^verbatim>\<open>FlushDirtyNoBarrier\<close> leaves to the next \<^verbatim>\<open>FlushDirty\<close> is never issued when no
  page was dirtied in between: that call reports success with no page written, and the bytes on stable
  storage are still the old ones.\<close>

theorem deferred_barrier_skipped:
  assumes inv: "pg_inv p" and f: "FlushDirtyNoBarrier p = (Inr n, p1)"
  shows "FlushDirty p1 = (Inr 0, p1) \<and> k_durable (d_os (pg_dev p1)) = k_durable (d_os (pg_dev p))"
proof -
  obtain p0 m p2 where rd: "pager_ready p = (Inr (), p0)" and fl: "flush_slots 0 (length (pg_slots p0)) 0 p0 = (Inr m, p2)"
    and rest: "(if m > 0 then op_bind flushTagBlk (\<lambda>_. op_ret m) else op_ret m) p2 = (Inr n, p1)"
    using f unfolding FlushDirtyNoBarrier_def by (auto elim!: op_bind_InrE)
  have p0: "p0 = p" using ready_same [OF rd] .
  have fr: "seal_frame p2 p1" using rest by (cases "m > 0") (auto elim!: op_bind_InrE dest!: flushTagBlk_frame simp: op_ret_def)
  note c = flush_slots_dev [OF inv _ fl [unfolded p0]]
  have rdy: "pg_open p" "d_fd (pg_dev p)" "\<not> d_poisoned (pg_dev p)"
    using rd by (auto simp: pager_ready_def on_pdev_def checkReady_def split: if_splits)
  then have rdy1: "pager_ready p1 = (Inr (), p1)"
    using c fr by (auto simp: pager_ready_def on_pdev_def checkReady_def seal_frame_def)
  note sl = flush_slots_slots [OF fl, unfolded p0 add_0, OF order_refl]
  have "length (pg_slots p1) = length (pg_slots p)" "pg_slots p1 = pg_slots p2"
    using map_eq_imp_length_eq [OF conjunct1 [OF sl]] fr by (simp_all add: seal_frame_def)
  then have clean: "\<not> (ps_valid (pg_slots p1 ! j) \<and> ps_dirty (pg_slots p1 ! j))" if "j < length (pg_slots p1)" for j
    using conjunct2 [OF sl] that by simp
  have "flush_slots 0 (length (pg_slots p1)) 0 p1 = (Inr 0, p1)" by (rule flush_slots_clean) (simp add: clean)
  then have "FlushDirty p1 = (Inr 0, p1)" using rdy1 by (simp add: FlushDirty_def op_bind_def)
  then show ?thesis using c fr by (simp add: seal_frame_def)
qed

lemma zero_pager:
  obtains p where "NewPager [] (zero_dev 8) = Inr p" "pg_inv p" "pg_open p" "pg_dev p = zero_dev 8" "\<not> pg_sealed p \<and> \<not> pg_tagBlkDirty p"
    "pg_slots p = replicate 256 \<lparr>ps_lba = 0, ps_buf = replicate 16384 0, ps_valid = False, ps_dirty = False\<rparr>"
proof -
  obtain p where p: "NewPager [] (zero_dev 8) = Inr p" by (simp add: NewPager_def checkReady_def zero_dev_def)
  show thesis
    using that [OF p] NewPager_inv [OF zero_dev_ok(1) p] p by (auto simp: NewPager_def checkReady_def PagerSlots_def zero_dev_def)
qed


lemma zero_pager_put:
  obtains p q where "NewPager [] (zero_dev 8) = Inr p" "PutPage 4 (replicate 16384 1) p = (Inr (), q)" "pg_inv q"
    "pg_open q" "pg_dev q = zero_dev 8" "\<not> pg_sealed q \<and> \<not> pg_tagBlkDirty q" "pg_view q 4 = replicate 16384 1"
    "pg_slots q = \<lparr>ps_lba = 4, ps_buf = replicate 16384 1, ps_valid = True, ps_dirty = True\<rparr> #
       replicate 255 \<lparr>ps_lba = 0, ps_buf = replicate 16384 0, ps_valid = False, ps_dirty = False\<rparr>"
proof -
  let ?z = "\<lparr>ps_lba = 0, ps_buf = replicate 16384 0 :: bytes, ps_valid = False, ps_dirty = False\<rparr>"
  obtain p where p: "NewPager [] (zero_dev 8) = Inr p" "pg_inv p" "pg_open p" "pg_dev p = zero_dev 8" "\<not> pg_sealed p \<and> \<not> pg_tagBlkDirty p" "pg_slots p = replicate 256 ?z"
    by (rule zero_pager)
  have "replicate (Suc 255) ?z = ?z # replicate 255 ?z" by (rule replicate_Suc)
  then have s: "pg_slots p = ?z # replicate 255 ?z" using p(6) by simp
  have "find_from (replicate k ?z) 4 i = None" for k i by (induction k arbitrary: i) auto
  then have f: "pager_find 4 p = None" by (simp add: pager_find_def p(6))
  define q where "q = snd (PutPage 4 (replicate 16384 1) p)"
  have r: "pager_ready p = (Inr (), p)" "pager_checkLBA 4 p = (Inr (), p)"
    using p(3,4) by (simp_all add: pager_ready_def on_pdev_def checkReady_def pager_checkLBA_def checkPageLBA_def zero_dev_def)
  have al: "pager_alloc 4 p = (Inr 0, take_slot 0 4 p)" using f s by (simp add: pager_alloc_def)
  have q: "PutPage 4 (replicate 16384 1) p = (Inr (), q)" and
    qq: "q = p\<lparr>pg_slots := \<lparr>ps_lba = 4, ps_buf = replicate 16384 1, ps_valid = True, ps_dirty = True\<rparr> # replicate 255 ?z\<rparr>"
    using r al s by (simp_all add: q_def PutPage_def op_bind_def take_slot_def)
  show thesis using that [OF p(1) q] PutPage_view [OF p(2) q] qq p(3-5) by (auto simp: pg_view_def slots_view_def)
qed

lemma zero_pager_flush:
  assumes "pg_open q" "pg_dev q = zero_dev 8" "\<not> pg_sealed q \<and> \<not> pg_tagBlkDirty q"
    "pg_slots q = \<lparr>ps_lba = 4, ps_buf = replicate 16384 1, ps_valid = True, ps_dirty = True\<rparr> #
       replicate 255 \<lparr>ps_lba = 0, ps_buf = replicate 16384 0, ps_valid = False, ps_dirty = False\<rparr>"
  obtains q' where "flush_slots 0 (length (pg_slots q)) 0 q = (Inr 1, q')" "healthy (pg_dev q')" "\<not> pg_sealed q' \<and> \<not> pg_tagBlkDirty q'" "pager_ready q = (Inr (), q)"
proof -
  let ?b = "replicate 16384 1 :: bytes"
  obtain d where d: "dev_Write 4 ?b True (zero_dev 8) = (Inr (), d)" "healthy d"
    using dev_Write_healthy [of "zero_dev 8" ?b 4 4] zero_dev_ok [of 8] by auto
  let ?p = "q\<lparr>pg_dev := d, pg_slots := (pg_slots q)[0 := (pg_slots q ! 0)\<lparr>ps_dirty := False\<rparr>]\<rparr>"
  have "flush_slots 1 255 1 ?p = (Inr 1, ?p)"
    by (rule flush_slots_clean) (auto simp: assms(4) nth_Cons')
  then have "flush_slots 0 (Suc 255) 0 q = (Inr 1, ?p)"
    using d(1) assms by (simp only: flush_slots.simps) (simp add: op_bind_def on_pdev_def sealPage_def)
  then have "flush_slots 0 (length (pg_slots q)) 0 q = (Inr 1, ?p)" using assms(4) by simp
  moreover have "pager_ready q = (Inr (), q)" using assms by (simp add: pager_ready_def on_pdev_def checkReady_def zero_dev_def)
  ultimately show thesis using that [of ?p] d(2) assms(3) by simp
qed

theorem FlushDirty_durable_witness:
  "\<exists>p q q' d r. NewPager [] (zero_dev 8) = Inr p \<and> PutPage 4 (replicate 16384 1) p = (Inr (), q) \<and> FlushDirty q = (Inr 1, q') \<and>
     dev_Open ((d_os (pg_dev q'))\<lparr>k_file := k_durable (d_os (pg_dev q'))\<rparr>) = Inr d \<and> NewPager [] d = Inr r \<and> pg_view r 4 = replicate 16384 1"
proof -
  obtain p q where z: "NewPager [] (zero_dev 8) = Inr p" "PutPage 4 (replicate 16384 1) p = (Inr (), q)" "pg_inv q"
    "pg_open q" "pg_dev q = zero_dev 8" "\<not> pg_sealed q \<and> \<not> pg_tagBlkDirty q" "pg_view q 4 = replicate 16384 1"
    "pg_slots q = \<lparr>ps_lba = 4, ps_buf = replicate 16384 1, ps_valid = True, ps_dirty = True\<rparr> #
       replicate 255 \<lparr>ps_lba = 0, ps_buf = replicate 16384 0, ps_valid = False, ps_dirty = False\<rparr>"
    by (rule zero_pager_put)
  obtain q1 where q1: "flush_slots 0 (length (pg_slots q)) 0 q = (Inr 1, q1)" "healthy (pg_dev q1)" "\<not> pg_sealed q1 \<and> \<not> pg_tagBlkDirty q1" "pager_ready q = (Inr (), q)"
    by (rule zero_pager_flush [OF z(4-6,8)])
  obtain d1 where d1: "dev_Flush (pg_dev q1) = (Inr (), d1)" using dev_Flush_healthy [OF q1(2)] by blast
  let ?q = "q1\<lparr>pg_flushes := pg_flushes q1 + 1, pg_dev := d1\<rparr>"
  have f: "FlushDirty q = (Inr 1, ?q)" using q1 d1 by (simp add: FlushDirty_def op_bind_def on_pdev_def flushTags_def op_ret_def)
  let ?k = "(d_os (pg_dev ?q))\<lparr>k_file := k_durable (d_os (pg_dev ?q))\<rparr>"
  obtain d r where r: "dev_Open ?k = Inr d" "NewPager [] d = Inr r" "\<forall>l. page_lba (pg_dev q) l \<longrightarrow> pg_view r l = pg_view q l"
    using FlushDirty_durable [OF z(3) f, of ?k "[]"] by auto
  moreover have "page_lba (pg_dev q) 4" by (simp add: z(5) page_lba_def zero_dev_ok)
  ultimately show ?thesis using z(1,2,7) f by metis
qed

theorem deferred_barrier_skipped_witness:
  "\<exists>p q q1. NewPager [] (zero_dev 8) = Inr p \<and> PutPage 4 (replicate 16384 1) p = (Inr (), q) \<and> FlushDirtyNoBarrier q = (Inr 1, q1) \<and>
     FlushDirty q1 = (Inr 0, q1) \<and> k_durable (d_os (pg_dev q1)) = k_durable (d_os (zero_dev 8))"
proof -
  obtain p q where z: "NewPager [] (zero_dev 8) = Inr p" "PutPage 4 (replicate 16384 1) p = (Inr (), q)" "pg_inv q"
    "pg_open q" "pg_dev q = zero_dev 8" "\<not> pg_sealed q \<and> \<not> pg_tagBlkDirty q" "pg_view q 4 = replicate 16384 1"
    "pg_slots q = \<lparr>ps_lba = 4, ps_buf = replicate 16384 1, ps_valid = True, ps_dirty = True\<rparr> #
       replicate 255 \<lparr>ps_lba = 0, ps_buf = replicate 16384 0, ps_valid = False, ps_dirty = False\<rparr>"
    by (rule zero_pager_put)
  obtain q1 where q1: "flush_slots 0 (length (pg_slots q)) 0 q = (Inr 1, q1)" "healthy (pg_dev q1)" "\<not> pg_sealed q1 \<and> \<not> pg_tagBlkDirty q1" "pager_ready q = (Inr (), q)"
    by (rule zero_pager_flush [OF z(4-6,8)])
  obtain q2 where f: "FlushDirtyNoBarrier q = (Inr 1, q2)"
    using q1 by (simp add: FlushDirtyNoBarrier_def op_bind_def flushTagBlk_def op_ret_def)
  from deferred_barrier_skipped [OF z(3) f] show ?thesis using z(1,2,5) f by metis
qed

end
