(* ===== verification/Page.thy ===== *)
theory Page
  imports Go_Std
begin

text \<open>
  The 16-KiB page: the header and slot accessors of \<^verbatim>\<open>src/pkg/c2db/db_page_gen.go\<close> and the page
  checksum over the whole page of \<^verbatim>\<open>src/pkg/c2db/c2db_crc32c_fullpage_gen.go\<close>. A nil page has length 0
  and takes the same branches as an empty one, so a page is a list. Addresses are natural numbers: an
  index reaches an address only below the slot count, so that no sum wraps.
\<close>

record Db_page_hdr_t =
  ph_Nslots :: nat
  ph_Free_lo :: u16
  ph_Free_hi :: u16
  ph_Crc :: u32

record Db_page_slot_t =
  sl_Off :: u64
  sl_Len :: u64
  sl_Valid :: bool

definition Crc32c_table256 :: "u32 list" where
  "Crc32c_table256 = [
     0x00000000, 0xf26b8303, 0xe13b70f7, 0x1350f3f4, 0xc79a971f, 0x35f1141c, 0x26a1e7e8, 0xd4ca64eb,
     0x8ad958cf, 0x78b2dbcc, 0x6be22838, 0x9989ab3b, 0x4d43cfd0, 0xbf284cd3, 0xac78bf27, 0x5e133c24,
     0x105ec76f, 0xe235446c, 0xf165b798, 0x030e349b, 0xd7c45070, 0x25afd373, 0x36ff2087, 0xc494a384,
     0x9a879fa0, 0x68ec1ca3, 0x7bbcef57, 0x89d76c54, 0x5d1d08bf, 0xaf768bbc, 0xbc267848, 0x4e4dfb4b,
     0x20bd8ede, 0xd2d60ddd, 0xc186fe29, 0x33ed7d2a, 0xe72719c1, 0x154c9ac2, 0x061c6936, 0xf477ea35,
     0xaa64d611, 0x580f5512, 0x4b5fa6e6, 0xb93425e5, 0x6dfe410e, 0x9f95c20d, 0x8cc531f9, 0x7eaeb2fa,
     0x30e349b1, 0xc288cab2, 0xd1d83946, 0x23b3ba45, 0xf779deae, 0x05125dad, 0x1642ae59, 0xe4292d5a,
     0xba3a117e, 0x4851927d, 0x5b016189, 0xa96ae28a, 0x7da08661, 0x8fcb0562, 0x9c9bf696, 0x6ef07595,
     0x417b1dbc, 0xb3109ebf, 0xa0406d4b, 0x522bee48, 0x86e18aa3, 0x748a09a0, 0x67dafa54, 0x95b17957,
     0xcba24573, 0x39c9c670, 0x2a993584, 0xd8f2b687, 0x0c38d26c, 0xfe53516f, 0xed03a29b, 0x1f682198,
     0x5125dad3, 0xa34e59d0, 0xb01eaa24, 0x42752927, 0x96bf4dcc, 0x64d4cecf, 0x77843d3b, 0x85efbe38,
     0xdbfc821c, 0x2997011f, 0x3ac7f2eb, 0xc8ac71e8, 0x1c661503, 0xee0d9600, 0xfd5d65f4, 0x0f36e6f7,
     0x61c69362, 0x93ad1061, 0x80fde395, 0x72966096, 0xa65c047d, 0x5437877e, 0x4767748a, 0xb50cf789,
     0xeb1fcbad, 0x197448ae, 0x0a24bb5a, 0xf84f3859, 0x2c855cb2, 0xdeeedfb1, 0xcdbe2c45, 0x3fd5af46,
     0x7198540d, 0x83f3d70e, 0x90a324fa, 0x62c8a7f9, 0xb602c312, 0x44694011, 0x5739b3e5, 0xa55230e6,
     0xfb410cc2, 0x092a8fc1, 0x1a7a7c35, 0xe811ff36, 0x3cdb9bdd, 0xceb018de, 0xdde0eb2a, 0x2f8b6829,
     0x82f63b78, 0x709db87b, 0x63cd4b8f, 0x91a6c88c, 0x456cac67, 0xb7072f64, 0xa457dc90, 0x563c5f93,
     0x082f63b7, 0xfa44e0b4, 0xe9141340, 0x1b7f9043, 0xcfb5f4a8, 0x3dde77ab, 0x2e8e845f, 0xdce5075c,
     0x92a8fc17, 0x60c37f14, 0x73938ce0, 0x81f80fe3, 0x55326b08, 0xa759e80b, 0xb4091bff, 0x466298fc,
     0x1871a4d8, 0xea1a27db, 0xf94ad42f, 0x0b21572c, 0xdfeb33c7, 0x2d80b0c4, 0x3ed04330, 0xccbbc033,
     0xa24bb5a6, 0x502036a5, 0x4370c551, 0xb11b4652, 0x65d122b9, 0x97baa1ba, 0x84ea524e, 0x7681d14d,
     0x2892ed69, 0xdaf96e6a, 0xc9a99d9e, 0x3bc21e9d, 0xef087a76, 0x1d63f975, 0x0e330a81, 0xfc588982,
     0xb21572c9, 0x407ef1ca, 0x532e023e, 0xa145813d, 0x758fe5d6, 0x87e466d5, 0x94b49521, 0x66df1622,
     0x38cc2a06, 0xcaa7a905, 0xd9f75af1, 0x2b9cd9f2, 0xff56bd19, 0x0d3d3e1a, 0x1e6dcdee, 0xec064eed,
     0xc38d26c4, 0x31e6a5c7, 0x22b65633, 0xd0ddd530, 0x0417b1db, 0xf67c32d8, 0xe52cc12c, 0x1747422f,
     0x49547e0b, 0xbb3ffd08, 0xa86f0efc, 0x5a048dff, 0x8ecee914, 0x7ca56a17, 0x6ff599e3, 0x9d9e1ae0,
     0xd3d3e1ab, 0x21b862a8, 0x32e8915c, 0xc083125f, 0x144976b4, 0xe622f5b7, 0xf5720643, 0x07198540,
     0x590ab964, 0xab613a67, 0xb831c993, 0x4a5a4a90, 0x9e902e7b, 0x6cfbad78, 0x7fab5e8c, 0x8dc0dd8f,
     0xe330a81a, 0x115b2b19, 0x020bd8ed, 0xf0605bee, 0x24aa3f05, 0xd6c1bc06, 0xc5914ff2, 0x37faccf1,
     0x69e9f0d5, 0x9b8273d6, 0x88d28022, 0x7ab90321, 0xae7367ca, 0x5c18e4c9, 0x4f48173d, 0xbd23943e,
     0xf36e6f75, 0x0105ec76, 0x12551f82, 0xe03e9c81, 0x34f4f86a, 0xc69f7b69, 0xd5cf889d, 0x27a40b9e,
     0x79b737ba, 0x8bdcb4b9, 0x988c474d, 0x6ae7c44e, 0xbe2da0a5, 0x4c4623a6, 0x5f16d052, 0xad7d5351]"

section \<open>Fields\<close>

definition Db_page_bounds :: "bytes \<Rightarrow> nat \<Rightarrow> nat \<Rightarrow> nat \<Rightarrow> bool" where
  "Db_page_bounds page n addr len =
     (let n = min n (length page); len = min len (length page)
      in n = 0x4000 \<and> addr < n \<and> len \<le> n - addr)"

definition db_read8 :: "bytes \<Rightarrow> nat \<Rightarrow> nat \<Rightarrow> byte" where
  "db_read8 page n addr =
     (let n = min n (length page) in if addr < n \<and> 1 \<le> n - addr then page ! addr else 0)"

text \<open>The second byte is shifted as a 16-bit number and then cut down to a byte.\<close>

definition db_read16 :: "bytes \<Rightarrow> nat \<Rightarrow> nat \<Rightarrow> u16" where
  "db_read16 page n addr =
     (let n = min n (length page)
      in if addr < n \<and> 2 \<le> n - addr
         then ucast (page ! addr OR (ucast (push_bit 8 (ucast (page ! (addr + 1)) :: u16)) :: byte)) else 0)"

definition db_read32 :: "bytes \<Rightarrow> nat \<Rightarrow> nat \<Rightarrow> u32" where
  "db_read32 page n addr =
     (let n = min n (length page) in if addr < n \<and> 4 \<le> n - addr then le_get32 (drop addr page) else 0)"

definition db_read64 :: "bytes \<Rightarrow> nat \<Rightarrow> nat \<Rightarrow> u64" where
  "db_read64 page n addr =
     (let n = min n (length page) in if addr < n \<and> 8 \<le> n - addr then le_get64 (drop addr page) else 0)"

definition db_write8 :: "bytes \<Rightarrow> nat \<Rightarrow> nat \<Rightarrow> byte \<Rightarrow> bytes" where
  "db_write8 page n addr val =
     (let n = min n (length page) in if addr < n \<and> 1 \<le> n - addr then page[addr := val] else page)"

definition db_write16 :: "bytes \<Rightarrow> nat \<Rightarrow> nat \<Rightarrow> u16 \<Rightarrow> bytes" where
  "db_write16 page n addr val =
     (let n = min n (length page) in if addr < n \<and> 2 \<le> n - addr then put_at page addr (le_put16 val) else page)"

definition db_write32 :: "bytes \<Rightarrow> nat \<Rightarrow> nat \<Rightarrow> u32 \<Rightarrow> bytes" where
  "db_write32 page n addr val =
     (let n = min n (length page) in if addr < n \<and> 4 \<le> n - addr then put_at page addr (le_put32 val) else page)"

definition db_write64 :: "bytes \<Rightarrow> nat \<Rightarrow> nat \<Rightarrow> u64 \<Rightarrow> bytes" where
  "db_write64 page n addr val =
     (let n = min n (length page) in if addr < n \<and> 8 \<le> n - addr then put_at page addr (le_put64 val) else page)"

section \<open>Header and slots\<close>

definition Db_page_hdr_read :: "bytes \<Rightarrow> nat \<Rightarrow> Db_page_hdr_t" where
  "Db_page_hdr_read page n =
     (let n = min n (length page);
          v2 = \<lparr>ph_Nslots = 0, ph_Free_lo = 0, ph_Free_hi = 0, ph_Crc = 0\<rparr>
      in if n \<noteq> 0x4000 then v2
         else if \<not> Db_page_bounds page n 22 8 then v2
         else \<lparr>ph_Nslots = unat (db_read16 page n 22), ph_Free_lo = db_read16 page n 24,
               ph_Free_hi = db_read16 page n 26, ph_Crc = db_read32 page n 28\<rparr>)"

definition Db_page_hdr_write :: "bytes \<Rightarrow> nat \<Rightarrow> Db_page_hdr_t \<Rightarrow> bool \<times> bytes" where
  "Db_page_hdr_write page n hdr =
     (let n = min n (length page)
      in if n \<noteq> 0x4000 then (False, page)
         else if \<not> Db_page_bounds page n 22 8 then (False, page)
         else let p = db_write16 page n 22 (of_nat (ph_Nslots hdr));
                  p = db_write16 p n 24 (ph_Free_lo hdr);
                  p = db_write16 p n 26 (ph_Free_hi hdr)
              in (True, db_write32 p n 28 (ph_Crc hdr)))"

definition Db_page_slot_get :: "bytes \<Rightarrow> nat \<Rightarrow> nat \<Rightarrow> Db_page_slot_t" where
  "Db_page_slot_get page n idx =
     (let n = min n (length page);
          v3 = \<lparr>sl_Off = 0, sl_Len = 0, sl_Valid = False\<rparr>;
          v22 = 64 + idx * 16
      in if n \<noteq> 0x4000 then v3
         else if idx \<ge> ph_Nslots (Db_page_hdr_read page n) then v3
         else if \<not> Db_page_bounds page n v22 16 then v3
         else let off = db_read64 page n v22; len = db_read64 page n (v22 + 8)
              in if \<not> Db_page_bounds page n (unat off) (unat len) then v3
                 else \<lparr>sl_Off = off, sl_Len = len, sl_Valid = True\<rparr>)"

definition Db_page_slot_set :: "bytes \<Rightarrow> nat \<Rightarrow> nat \<Rightarrow> Db_page_slot_t \<Rightarrow> bool \<times> bytes" where
  "Db_page_slot_set page n idx slot =
     (let n = min n (length page); v21 = 64 + idx * 16
      in if n \<noteq> 0x4000 then (False, page)
         else if idx \<ge> ph_Nslots (Db_page_hdr_read page n) then (False, page)
         else if \<not> Db_page_bounds page n v21 16 then (False, page)
         else if \<not> Db_page_bounds page n (unat (sl_Off slot)) (unat (sl_Len slot)) then (False, page)
         else (True, db_write64 (db_write64 page n v21 (sl_Off slot)) n (v21 + 8) (sl_Len slot)))"

section \<open>Checksums\<close>

definition crc_table_step :: "u32 list \<Rightarrow> u32 \<Rightarrow> byte \<Rightarrow> u32" where
  "crc_table_step table v3 b = drop_bit 8 v3 XOR table ! unat ((v3 XOR ucast b) AND 0xff)"

fun page_crc_loop :: "bytes \<Rightarrow> nat \<Rightarrow> nat \<Rightarrow> u32 \<Rightarrow> u32" where
  "page_crc_loop page v4 0 v3 = v3"
| "page_crc_loop page v4 (Suc k) v3 = page_crc_loop page (Suc v4) k (crc_table_step Crc32c_table256 v3 (page ! v4))"

definition Db_page_crc32c :: "bytes \<Rightarrow> nat \<Rightarrow> u32" where
  "Db_page_crc32c page n =
     (let n = min n (length page)
      in if n \<noteq> 0x4000 then 0
         else if \<not> Db_page_bounds page n 64 0x3fc0 then 0
         else NOT (page_crc_loop page 64 (n - 64) 0xffffffff))"

definition Db_page_crc32c_store :: "bytes \<Rightarrow> nat \<Rightarrow> bool \<times> bytes" where
  "Db_page_crc32c_store page n =
     (let n = min n (length page)
      in if n \<noteq> 0x4000 then (False, page) else (True, db_write32 page n 28 (Db_page_crc32c page n)))"

text \<open>The second generated file repeats the table with the same numbers.\<close>

definition C2db_crc32c_table256 :: "u32 list" where
  "C2db_crc32c_table256 = Crc32c_table256"

fun fullpage_loop :: "bytes \<Rightarrow> nat \<Rightarrow> nat \<Rightarrow> u32 \<Rightarrow> u32" where
  "fullpage_loop page v4 0 v3 = v3"
| "fullpage_loop page v4 (Suc k) v3 =
     (let v5 = (if v4 \<ge> 28 \<and> v4 < 32 then 0 else page ! v4)
      in fullpage_loop page (Suc v4) k (crc_table_step C2db_crc32c_table256 v3 v5))"

definition C2db_crc32c_fullpage :: "bytes \<Rightarrow> nat \<Rightarrow> u32" where
  "C2db_crc32c_fullpage page n =
     (let n = min n (length page) in if n \<noteq> 0x4000 then 0 else NOT (fullpage_loop page 0 n 0xffffffff))"

definition C2db_crc32c_fullpage_store :: "bytes \<Rightarrow> nat \<Rightarrow> bool \<times> bytes" where
  "C2db_crc32c_fullpage_store page n =
     (let n = min n (length page)
      in if n \<noteq> 0x4000 then (False, page)
         else (True, put_at page 28 (le_put32 (C2db_crc32c_fullpage page n))))"

definition PageCRC32CFull :: "bytes \<Rightarrow> u32" where
  "PageCRC32CFull page = C2db_crc32c_fullpage page (length page)"

definition PageCRC32CFullStore :: "bytes \<Rightarrow> bool \<times> bytes" where
  "PageCRC32CFullStore page = C2db_crc32c_fullpage_store page (length page)"

section \<open>The table\<close>

text \<open>Eight steps of the bitwise division are linear, shift out a zero byte, and agree with the table
  on the byte that is shifted out.\<close>

lemma crc_bit_linear: "crc_bit (x XOR y) = crc_bit x XOR crc_bit y"
proof -
  have b: "c AND 1 = 1 \<longleftrightarrow> bit c 0" for c :: u32 by (simp add: bit_0 odd_iff_mod_2_eq_one and_one_eq)
  show ?thesis unfolding crc_bit_def b by (rule bit_word_eqI) (auto simp: bit_simps)
qed

lemma crc_bits_linear: "(crc_bit ^^ n) (x XOR y) = (crc_bit ^^ n) x XOR (crc_bit ^^ n) y"
  by (induction n arbitrary: x y) (auto simp: crc_bit_linear)

lemma crc_bits_shift: "take_bit n x = 0 \<Longrightarrow> (crc_bit ^^ n) x = drop_bit n x"
proof (induction n arbitrary: x)
  case (Suc n)
  have "\<not> bit (take_bit (Suc n) x) 0" using Suc.prems by simp
  then have "\<not> bit x 0" by (simp add: bit_simps)
  then have "crc_bit x = drop_bit 1 x" by (simp add: crc_bit_def bit_0 and_one_eq odd_iff_mod_2_eq_one)
  moreover have "take_bit n (drop_bit 1 x) = 0"
    using Suc.prems take_bit_drop_bit [of n 1 x] by simp
  ultimately show ?case using Suc.IH [of "drop_bit 1 x"] by (simp add: funpow_swap1 drop_bit_drop_bit add.commute)
qed simp

lemma crc_bits8: "(crc_bit ^^ 8) x = crc_bit (crc_bit (crc_bit (crc_bit (crc_bit (crc_bit (crc_bit (crc_bit x)))))))"
  by (simp add: eval_nat_numeral)

lemma crc_table_check: "map (crc_bit ^^ 8) (map of_nat [0..<256]) = Crc32c_table256"
proof -
  have "map of_nat [0..<256] = ([0, 1, 2, 3, 4, 5, 6, 7, 8, 9, 10, 11, 12, 13, 14, 15,
     16, 17, 18, 19, 20, 21, 22, 23, 24, 25, 26, 27, 28, 29, 30, 31,
     32, 33, 34, 35, 36, 37, 38, 39, 40, 41, 42, 43, 44, 45, 46, 47,
     48, 49, 50, 51, 52, 53, 54, 55, 56, 57, 58, 59, 60, 61, 62, 63,
     64, 65, 66, 67, 68, 69, 70, 71, 72, 73, 74, 75, 76, 77, 78, 79,
     80, 81, 82, 83, 84, 85, 86, 87, 88, 89, 90, 91, 92, 93, 94, 95,
     96, 97, 98, 99, 100, 101, 102, 103, 104, 105, 106, 107, 108, 109, 110, 111,
     112, 113, 114, 115, 116, 117, 118, 119, 120, 121, 122, 123, 124, 125, 126, 127,
     128, 129, 130, 131, 132, 133, 134, 135, 136, 137, 138, 139, 140, 141, 142, 143,
     144, 145, 146, 147, 148, 149, 150, 151, 152, 153, 154, 155, 156, 157, 158, 159,
     160, 161, 162, 163, 164, 165, 166, 167, 168, 169, 170, 171, 172, 173, 174, 175,
     176, 177, 178, 179, 180, 181, 182, 183, 184, 185, 186, 187, 188, 189, 190, 191,
     192, 193, 194, 195, 196, 197, 198, 199, 200, 201, 202, 203, 204, 205, 206, 207,
     208, 209, 210, 211, 212, 213, 214, 215, 216, 217, 218, 219, 220, 221, 222, 223,
     224, 225, 226, 227, 228, 229, 230, 231, 232, 233, 234, 235, 236, 237, 238, 239,
     240, 241, 242, 243, 244, 245, 246, 247, 248, 249, 250, 251, 252, 253, 254, 255] :: u32 list)" by (simp add: upt_rec)
  then show ?thesis by (simp only:) (simp add: crc_bits8 crc_bit_def Crc32c_table256_def)
qed

lemma crc_table_lookup:
  assumes "unat b < 256" shows "Crc32c_table256 ! unat b = (crc_bit ^^ 8) b"
proof -
  have "map (crc_bit ^^ 8) (map of_nat [0..<256]) ! unat b = (crc_bit ^^ 8) (of_nat (unat b))" using assms by simp
  then show ?thesis unfolding crc_table_check by simp
qed

lemma crc_table_step_byte: "crc_table_step Crc32c_table256 c b = crc_byte c b"
proof -
  let ?x = "c XOR ucast b" and ?lo = "(c XOR ucast b) AND 0xff" and ?hi = "push_bit 8 (drop_bit 8 (c XOR ucast b)) :: u32"
  have lo: "?lo = take_bit 8 ?x" by (simp only: mask8 take_bit_eq_mask)
  have "?x = ?hi XOR ?lo" unfolding lo by (rule bit_word_eqI) (auto simp: bit_simps)
  then have "(crc_bit ^^ 8) ?x = (crc_bit ^^ 8) ?hi XOR (crc_bit ^^ 8) ?lo" by (metis crc_bits_linear)
  moreover have "(crc_bit ^^ 8) ?hi = drop_bit 8 ?hi" by (rule crc_bits_shift) (rule bit_word_eqI, auto simp: bit_simps)
  moreover have "drop_bit 8 ?hi = drop_bit 8 c" by (rule bit_word_eqI) (auto simp: bit_simps dest: byte_bit_less bit_imp_le_length)
  moreover have "unat ?lo = unat ?x mod 2 ^ 8" unfolding mask8 by (rule unat_and_mask)
  then have "unat ?lo < 256" by simp
  ultimately show ?thesis using crc_table_lookup [of ?lo] by (simp add: crc_table_step_def crc_byte_def)
qed

lemma page_crc_loop_fold: "v4 + k \<le> length page \<Longrightarrow> page_crc_loop page v4 k c = foldl crc_byte c (bslice page v4 k)"
proof (induction k arbitrary: v4 c)
  case (Suc k)
  then have "bslice page v4 (Suc k) = page ! v4 # bslice page (Suc v4) k" by (simp add: bslice_def Cons_nth_drop_Suc flip: take_Suc_Cons)
  then show ?case using Suc by (simp add: crc_table_step_byte)
qed (simp add: bslice_def)

text \<open>The page with the four bytes of its checksum field cleared.\<close>

definition crc_cleared :: "bytes \<Rightarrow> bytes" where
  "crc_cleared page = put_at page 28 [0, 0, 0, 0]"

lemma fullpage_loop_fold:
  "v4 + k \<le> length page \<Longrightarrow> 32 \<le> length page \<Longrightarrow> fullpage_loop page v4 k c = foldl crc_byte c (bslice (crc_cleared page) v4 k)"
proof (induction k arbitrary: v4 c)
  case (Suc k)
  then have "bslice (crc_cleared page) v4 (Suc k) = crc_cleared page ! v4 # bslice (crc_cleared page) (Suc v4) k"
    by (simp add: bslice_def Cons_nth_drop_Suc crc_cleared_def flip: take_Suc_Cons del: put_at.simps)
  moreover have "crc_cleared page ! v4 = (if 28 \<le> v4 \<and> v4 < 32 then 0 else page ! v4)"
    using Suc.prems by (auto simp: crc_cleared_def put_at_nth nth_Cons' simp del: put_at.simps)
  ultimately show ?case using Suc by (simp add: crc_table_step_byte C2db_crc32c_table256_def Let_def)
qed (simp add: bslice_def)

lemma ones32 [simp]: "(0xffffffff :: u32) = - 1"
  by simp

lemma page_crc: "length page = 16384 \<Longrightarrow> Db_page_crc32c page 16384 = crc32_Checksum (drop 64 page)"
  by (simp add: Db_page_crc32c_def Db_page_bounds_def page_crc_loop_fold crc32_Checksum_def crc32_Update_def bslice_def)

lemma fullpage_crc: "length page = 16384 \<Longrightarrow> C2db_crc32c_fullpage page 16384 = crc32_Checksum (crc_cleared page)"
  by (simp add: C2db_crc32c_fullpage_def fullpage_loop_fold crc32_Checksum_def crc32_Update_def bslice_def crc_cleared_def del: put_at.simps)

lemma crc_cleared_put: "length page = 16384 \<Longrightarrow> length xs = 4 \<Longrightarrow> crc_cleared (put_at page 28 xs) = crc_cleared page"
  by (rule nth_equalityI) (auto simp: crc_cleared_def put_at_nth simp del: put_at.simps)

text \<open>The table-driven checksums are CRC-32C: of the page body from byte 64 on, and of the whole page with
  the checksum field read as zero. A page that was stored with its checksum verifies: the field holds
  the checksum of the stored page, and no other byte changed. A slice of another length gives 0 and is
  left alone.
\<close>
theorem page_checksum:
  "if length page = 16384 then
     Db_page_crc32c page 16384 = crc32_Checksum (drop 64 page) \<and>
     PageCRC32CFull page = crc32_Checksum (take 28 page @ [0, 0, 0, 0] @ drop 32 page) \<and>
     (case PageCRC32CFullStore page of (ok, page') \<Rightarrow> ok \<and> le_get32 (drop 28 page') = PageCRC32CFull page' \<and>
        length page' = 16384 \<and> take 28 page' = take 28 page \<and> drop 32 page' = drop 32 page)
   else PageCRC32CFull page = 0 \<and> PageCRC32CFullStore page = (False, page)"
proof (cases "length page = 16384")
  case True
  let ?c = "C2db_crc32c_fullpage page 16384" and ?p = "put_at page 28 (le_put32 (C2db_crc32c_fullpage page 16384))"
  have l: "length ?p = 16384" using True by simp
  have st: "PageCRC32CFullStore page = (True, ?p)" using True by (simp add: PageCRC32CFullStore_def C2db_crc32c_fullpage_store_def)
  have "C2db_crc32c_fullpage ?p 16384 = ?c" using True crc_cleared_put [of page "le_put32 ?c"] fullpage_crc [OF l] by (simp add: fullpage_crc)
  moreover have "le_get32 (drop 28 ?p) = ?c"
  proof -
    have "bslice ?p 28 4 = le_put32 ?c" using True by simp
    then have "take 4 (drop 28 ?p) = le_put32 ?c" by (simp add: bslice_def)
    then show ?thesis by (metis le_get_put(2) le_get_take(2) order_refl)
  qed
  ultimately have f: "le_get32 (drop 28 ?p) = PageCRC32CFull ?p" using l by (simp add: PageCRC32CFull_def)
  have k: "take 28 ?p = take 28 page" "drop 32 ?p = drop 32 page"
    using True by (auto intro!: nth_equalityI simp: put_at_nth simp del: put_at.simps)
  have "crc_cleared page = take 28 page @ [0, 0, 0, 0] @ drop 32 page"
    using True by (auto intro!: nth_equalityI simp: crc_cleared_def put_at_nth nth_append nth_Cons' simp del: put_at.simps)
  then have "PageCRC32CFull page = crc32_Checksum (take 28 page @ [0, 0, 0, 0] @ drop 32 page)" using True fullpage_crc by (simp add: PageCRC32CFull_def)
  then show ?thesis using True page_crc [OF True] f k l unfolding st by simp
next
  case False
  then show ?thesis by (simp add: PageCRC32CFull_def PageCRC32CFullStore_def C2db_crc32c_fullpage_def C2db_crc32c_fullpage_store_def)
qed

section \<open>Header and slots read back\<close>

lemma le_get_slice: "le_get32 (drop a p) = le_get32 (bslice p a 4)" "le_get64 (drop a p) = le_get64 (bslice p a 8)"
  by (simp_all add: bslice_def)

lemma db_read16_low: "length page = 16384 \<Longrightarrow> addr + 2 \<le> 16384 \<Longrightarrow> db_read16 page 16384 addr = ucast (page ! addr)"
proof -
  have "(ucast (push_bit 8 (ucast b :: u16)) :: byte) = 0" for b :: byte by (rule bit_word_eqI) (auto simp: bit_simps)
  then show "length page = 16384 \<Longrightarrow> addr + 2 \<le> 16384 \<Longrightarrow> ?thesis" by (auto simp: db_read16_def)
qed

text \<open>The header reads back as written only where its 16-bit fields fit a byte: the reader drops their high
  bytes.\<close>

lemma hdr_read_write:
  assumes "length page = 16384" "Db_page_hdr_write page 16384 hdr = (ok, page')"
  shows "ok \<and> Db_page_hdr_read page' 16384 =
    \<lparr>ph_Nslots = ph_Nslots hdr mod 256, ph_Free_lo = ph_Free_lo hdr AND 0xff, ph_Free_hi = ph_Free_hi hdr AND 0xff, ph_Crc = ph_Crc hdr\<rparr>"
proof -
  let ?p = "put_at (put_at (put_at (put_at page 22 (le_put16 (of_nat (ph_Nslots hdr)))) 24 (le_put16 (ph_Free_lo hdr))) 26 (le_put16 (ph_Free_hi hdr))) 28 (le_put32 (ph_Crc hdr))"
  have p: "ok" "page' = ?p" "length ?p = 16384"
    using assms by (auto simp: Db_page_hdr_write_def Db_page_bounds_def db_write16_def db_write32_def)
  have b: "?p ! 22 = ucast (of_nat (ph_Nslots hdr) :: u16)" "?p ! 24 = ucast (ph_Free_lo hdr)" "?p ! 26 = ucast (ph_Free_hi hdr)"
    using assms(1) by (simp_all add: put_at_nth le_put16_def)
  have c: "le_get32 (drop 28 ?p) = ph_Crc hdr" unfolding le_get_slice using assms(1) by simp
  have u: "(ucast (ucast v :: byte) :: u16) = v AND 0xff" for v :: u16
    unfolding mask8 by (rule bit_word_eqI) (auto simp: bit_simps)
  have m: "unat (of_nat k AND 0xff :: u16) = k mod 256" for k
    unfolding mask8 by (simp add: unat_and_mask unat_of_nat take_bit_eq_mod mod_mod_cancel)
  show ?thesis unfolding p(2) using p(1,3) b c
    by (simp add: Db_page_hdr_read_def Db_page_bounds_def db_read16_low db_read32_def u m)
qed

text \<open>A slot that was set is read back, and the header is untouched.\<close>

lemma slot_get_set:
  assumes "length page = 16384" "Db_page_slot_set page 16384 idx slot = (True, page')" "sl_Valid slot"
  shows "Db_page_slot_get page' 16384 idx = slot \<and> Db_page_hdr_read page' 16384 = Db_page_hdr_read page 16384"
proof -
  let ?a = "64 + idx * 16"
  have g: "idx < ph_Nslots (Db_page_hdr_read page 16384)" "Db_page_bounds page 16384 ?a 16"
      "Db_page_bounds page 16384 (unat (sl_Off slot)) (unat (sl_Len slot))"
    and p: "page' = db_write64 (db_write64 page 16384 ?a (sl_Off slot)) 16384 (?a + 8) (sl_Len slot)"
    using assms(1,2) by (auto simp: Db_page_slot_set_def Let_def split: if_splits)
  have a: "?a + 16 \<le> 16384" using g(2) assms(1) by (auto simp: Db_page_bounds_def)
  have p': "page' = put_at (put_at page ?a (le_put64 (sl_Off slot))) (?a + 8) (le_put64 (sl_Len slot))"
    using p a assms(1) by (auto simp: db_write64_def)
  have l: "length page' = 16384" using p' assms(1) by simp
  have r: "db_read64 page' 16384 ?a = sl_Off slot" "db_read64 page' 16384 (?a + 8) = sl_Len slot"
    using a assms(1) l unfolding db_read64_def le_get_slice(2) by (auto simp: p')
  have h: "page' ! j = page ! j" if "j < 64" for j using that a assms(1) by (simp add: p' put_at_nth)
  have c: "db_read32 page' 16384 28 = db_read32 page 16384 28"
    using l assms(1) h by (simp add: db_read32_def le_get32_def)
  have hd: "Db_page_hdr_read page' 16384 = Db_page_hdr_read page 16384"
    using l assms(1) h c by (simp add: Db_page_hdr_read_def Db_page_bounds_def db_read16_low)
  have "Db_page_slot_get page' 16384 idx = slot"
    using g l assms(1,3) r hd by (simp add: Db_page_slot_get_def Db_page_bounds_def Let_def)
  then show ?thesis using hd by simp
qed

end
