(* ===== verification/Blake3_Empty.thy ===== *)
theory Blake3_Empty
  imports Blake3
begin

text \<open>
  The hash of the empty string, computed in the kernel through the seven rounds: the test vector of BLAKE3
  for the input of length 0. The rounds are evaluated by rewriting on literal words; \<open>with_val\<close> makes the
  simplifier compute a value before it is used, and \<open>quarter\<close> is one call of \<^verbatim>\<open>blake3archtsim_g\<close>.
\<close>

definition with_val :: "u32 \<Rightarrow> (u32 \<Rightarrow> 'a) \<Rightarrow> 'a" where
  "with_val x f = f x"

lemma with_val_cong: "x = y \<Longrightarrow> with_val x f = with_val y f"
  by simp

lemma with_val_simps: "with_val (numeral n) f = f (numeral n)" "with_val 0 f = f 0" "with_val 1 f = f 1"
  by (simp_all add: with_val_def)

definition quarter :: "u32 \<Rightarrow> u32 \<Rightarrow> u32 \<Rightarrow> u32 \<Rightarrow> (u32 \<Rightarrow> u32 \<Rightarrow> u32 \<Rightarrow> u32 \<Rightarrow> 'a) \<Rightarrow> 'a" where
  "quarter a b c d f =
     with_val (a + b) (\<lambda>a. with_val (blake3archtsim_rotr32 (d XOR a) 16) (\<lambda>d. with_val (c + d) (\<lambda>c.
     with_val (blake3archtsim_rotr32 (b XOR c) 12) (\<lambda>b. with_val (a + b) (\<lambda>a.
     with_val (blake3archtsim_rotr32 (d XOR a) 8) (\<lambda>d. with_val (c + d) (\<lambda>c.
     with_val (blake3archtsim_rotr32 (b XOR c) 7) (\<lambda>b. f a b c d))))))))"

lemma rotr_or:
  assumes "0 < c" "c < 32"
  shows "blake3archtsim_rotr32 w c = push_bit (32 - c) (take_bit c w) OR drop_bit c w"
proof (rule bit_word_eqI)
  fix n assume "n < LENGTH(32)"
  then show "bit (blake3archtsim_rotr32 w c) n = bit (push_bit (32 - c) (take_bit c w) OR drop_bit c w) n"
    using assms by (auto simp: blake3archtsim_rotr32_def bit_simps mod_if ac_simps dest: bit_imp_le_length)
qed

text \<open>The eight calls of a round on an explicit state.\<close>

lemma g_cols:
  "blake3archtsim_g [v0, v1, v2, v3, v4, v5, v6, v7, v8, v9, v10, v11, v12, v13, v14, v15] 0 4 8 12 0 0 =
     quarter v0 v4 v8 v12 (\<lambda>a b c d. [a, v1, v2, v3, b, v5, v6, v7, c, v9, v10, v11, d, v13, v14, v15])"
  "blake3archtsim_g [v0, v1, v2, v3, v4, v5, v6, v7, v8, v9, v10, v11, v12, v13, v14, v15] (Suc 0) 5 9 13 0 0 =
     quarter v1 v5 v9 v13 (\<lambda>a b c d. [v0, a, v2, v3, v4, b, v6, v7, v8, c, v10, v11, v12, d, v14, v15])"
  "blake3archtsim_g [v0, v1, v2, v3, v4, v5, v6, v7, v8, v9, v10, v11, v12, v13, v14, v15] 2 6 10 14 0 0 =
     quarter v2 v6 v10 v14 (\<lambda>a b c d. [v0, v1, a, v3, v4, v5, b, v7, v8, v9, c, v11, v12, v13, d, v15])"
  "blake3archtsim_g [v0, v1, v2, v3, v4, v5, v6, v7, v8, v9, v10, v11, v12, v13, v14, v15] 3 7 11 15 0 0 =
     quarter v3 v7 v11 v15 (\<lambda>a b c d. [v0, v1, v2, a, v4, v5, v6, b, v8, v9, v10, c, v12, v13, v14, d])"
  "blake3archtsim_g [v0, v1, v2, v3, v4, v5, v6, v7, v8, v9, v10, v11, v12, v13, v14, v15] 0 5 10 15 0 0 =
     quarter v0 v5 v10 v15 (\<lambda>a b c d. [a, v1, v2, v3, v4, b, v6, v7, v8, v9, c, v11, v12, v13, v14, d])"
  "blake3archtsim_g [v0, v1, v2, v3, v4, v5, v6, v7, v8, v9, v10, v11, v12, v13, v14, v15] (Suc 0) 6 11 12 0 0 =
     quarter v1 v6 v11 v12 (\<lambda>a b c d. [v0, a, v2, v3, v4, v5, b, v7, v8, v9, v10, c, d, v13, v14, v15])"
  "blake3archtsim_g [v0, v1, v2, v3, v4, v5, v6, v7, v8, v9, v10, v11, v12, v13, v14, v15] 2 7 8 13 0 0 =
     quarter v2 v7 v8 v13 (\<lambda>a b c d. [v0, v1, a, v3, v4, v5, v6, b, c, v9, v10, v11, v12, d, v14, v15])"
  "blake3archtsim_g [v0, v1, v2, v3, v4, v5, v6, v7, v8, v9, v10, v11, v12, v13, v14, v15] 3 4 9 14 0 0 =
     quarter v3 v4 v9 v14 (\<lambda>a b c d. [v0, v1, v2, a, b, v5, v6, v7, v8, c, v10, v11, v12, v13, d, v15])"
  by (simp_all add: blake3archtsim_g_def quarter_def with_val_def Let_def eval_nat_numeral)

lemma quarter_push: "blake3archtsim_g (quarter a b c d f) i j k l mx my = quarter a b c d (\<lambda>a b c d. blake3archtsim_g (f a b c d) i j k l mx my)"
  by (simp add: quarter_def with_val_def)

lemma blake3_round_zero:
  "blake3_round [v0, v1, v2, v3, v4, v5, v6, v7, v8, v9, v10, v11, v12, v13, v14, v15] (replicate 16 0) =
    quarter v0 v4 v8 v12 (\<lambda>v0 v4 v8 v12.
    quarter v1 v5 v9 v13 (\<lambda>v1 v5 v9 v13.
    quarter v2 v6 v10 v14 (\<lambda>v2 v6 v10 v14.
    quarter v3 v7 v11 v15 (\<lambda>v3 v7 v11 v15.
    quarter v0 v5 v10 v15 (\<lambda>v0 v5 v10 v15.
    quarter v1 v6 v11 v12 (\<lambda>v1 v6 v11 v12.
    quarter v2 v7 v8 v13 (\<lambda>v2 v7 v8 v13.
    quarter v3 v4 v9 v14 (\<lambda>v3 v4 v9 v14. [v0, v1, v2, v3, v4, v5, v6, v7, v8, v9, v10, v11, v12, v13, v14, v15]))))))))"
  by (simp add: blake3_round_def g_cols quarter_push)

text \<open>The states after each round.\<close>

lemma empty_round1:
  "blake3_round [0x6A09E667, 0xBB67AE85, 0x3C6EF372, 0xA54FF53A, 0x510E527F, 0x9B05688C, 0x1F83D9AB, 0x5BE0CD19,
     0x6A09E667, 0xBB67AE85, 0x3C6EF372, 0xA54FF53A, 0, 0, 0, 0xB] (replicate 16 0) =
    [0x775146DC, 0x91D99567, 0x8D7EB8E2, 0xBA28BE49, 0xBF7B53FF, 0xE7661B5D, 0x7F835244, 0x24BF2E76,
     0xE15F5DCD, 0x1AEB5F15, 0x809EAE90, 0xF32C027F, 0xE0253D07, 0x5D9F85CC, 0xAA5E2248, 0x180DAFF3]"
  by (simp add: blake3_round_zero quarter_def rotr_or with_val_simps cong: with_val_cong)

lemma empty_round2:
  "blake3_round [0x775146DC, 0x91D99567, 0x8D7EB8E2, 0xBA28BE49, 0xBF7B53FF, 0xE7661B5D, 0x7F835244, 0x24BF2E76,
     0xE15F5DCD, 0x1AEB5F15, 0x809EAE90, 0xF32C027F, 0xE0253D07, 0x5D9F85CC, 0xAA5E2248, 0x180DAFF3] (replicate 16 0) =
    [0x2C13A84B, 0x7391D71C, 0xAC838B2B, 0x24EB933C, 0xFF2B859C, 0x6F4FC75, 0xF59E03F7, 0xC9B120BE,
     0x6F6B735B, 0x14640C27, 0x11D275E2, 0x3CAC1DB, 0xD66C43C9, 0x913071C2, 0xD615CC6A, 0x3FE126BF]"
  by (simp add: blake3_round_zero quarter_def rotr_or with_val_simps cong: with_val_cong)

lemma empty_round3:
  "blake3_round [0x2C13A84B, 0x7391D71C, 0xAC838B2B, 0x24EB933C, 0xFF2B859C, 0x6F4FC75, 0xF59E03F7, 0xC9B120BE,
     0x6F6B735B, 0x14640C27, 0x11D275E2, 0x3CAC1DB, 0xD66C43C9, 0x913071C2, 0xD615CC6A, 0x3FE126BF] (replicate 16 0) =
    [0xC701A3DB, 0xFAFDDA68, 0x4500AEFC, 0x8B2BD935, 0xE03FD3D0, 0x39BA3382, 0xFC9E75F5, 0xE3F3E7BA,
     0xB5B666A0, 0xDC8EE13A, 0x286F0345, 0x18E70302, 0x6755352C, 0xD1F41721, 0xF237235A, 0xE962EC1A]"
  by (simp add: blake3_round_zero quarter_def rotr_or with_val_simps cong: with_val_cong)

lemma empty_round4:
  "blake3_round [0xC701A3DB, 0xFAFDDA68, 0x4500AEFC, 0x8B2BD935, 0xE03FD3D0, 0x39BA3382, 0xFC9E75F5, 0xE3F3E7BA,
     0xB5B666A0, 0xDC8EE13A, 0x286F0345, 0x18E70302, 0x6755352C, 0xD1F41721, 0xF237235A, 0xE962EC1A] (replicate 16 0) =
    [0xDF9AD597, 0xDD7BB3BD, 0x28638E71, 0x42BDD2FD, 0xEE85FEE0, 0x718E6EE5, 0x5338FD61, 0x36178D26,
     0x1B151726, 0xBCBD45B6, 0x4D29026E, 0xD4F01F6F, 0xEFDBBBF9, 0x7EED492C, 0xF25FDF03, 0x9C34FE18]"
  by (simp add: blake3_round_zero quarter_def rotr_or with_val_simps cong: with_val_cong)

lemma empty_round5:
  "blake3_round [0xDF9AD597, 0xDD7BB3BD, 0x28638E71, 0x42BDD2FD, 0xEE85FEE0, 0x718E6EE5, 0x5338FD61, 0x36178D26,
     0x1B151726, 0xBCBD45B6, 0x4D29026E, 0xD4F01F6F, 0xEFDBBBF9, 0x7EED492C, 0xF25FDF03, 0x9C34FE18] (replicate 16 0) =
    [0x311341A0, 0xE7BF7AD7, 0xFA040CAA, 0x8DEA573B, 0xE6872C9A, 0x87743C00, 0xAE95E0DC, 0xB868CCDD,
     0x1E84F6DB, 0x5064AB73, 0x519B6EB0, 0x256C35C7, 0xD141CF1A, 0x68F28D7, 0x886EF14, 0xA3E1E93E]"
  by (simp add: blake3_round_zero quarter_def rotr_or with_val_simps cong: with_val_cong)

lemma empty_round6:
  "blake3_round [0x311341A0, 0xE7BF7AD7, 0xFA040CAA, 0x8DEA573B, 0xE6872C9A, 0x87743C00, 0xAE95E0DC, 0xB868CCDD,
     0x1E84F6DB, 0x5064AB73, 0x519B6EB0, 0x256C35C7, 0xD141CF1A, 0x68F28D7, 0x886EF14, 0xA3E1E93E] (replicate 16 0) =
    [0x4F570EAD, 0x60477936, 0xDE1FA32D, 0x1526F2B6, 0x18479E2E, 0x8A7C3BF6, 0x803141A7, 0x64FE24E9,
     0x50EC3591, 0x8A762305, 0xBB54E5AB, 0xE920F0AA, 0x7A754DAF, 0x90963B58, 0x50E0B2C2, 0xAD11DEA3]"
  by (simp add: blake3_round_zero quarter_def rotr_or with_val_simps cong: with_val_cong)

lemma empty_round7:
  "blake3_round [0x4F570EAD, 0x60477936, 0xDE1FA32D, 0x1526F2B6, 0x18479E2E, 0x8A7C3BF6, 0x803141A7, 0x64FE24E9,
     0x50EC3591, 0x8A762305, 0xBB54E5AB, 0xE920F0AA, 0x7A754DAF, 0x90963B58, 0x50E0B2C2, 0xAD11DEA3] (replicate 16 0) =
    [0x3443FA28, 0x7634CDC6, 0x49D319AD, 0xBCB61AC1, 0x78F414D7, 0xAADB11A4, 0xF59BEAFB, 0x3F6DA91,
     0x8D0AE987, 0xD0953433, 0xA39E590D, 0xF57FC6F7, 0xB1D1DF4C, 0x1DC9D009, 0x3F087037, 0x61C4C575]"
  by (simp add: blake3_round_zero quarter_def rotr_or with_val_simps cong: with_val_cong)

lemmas empty_rounds = empty_round1 empty_round2 empty_round3 empty_round4 empty_round5 empty_round6 empty_round7

lemma empty_rounds_7:
  "blake3_rounds 7 [0x6A09E667, 0xBB67AE85, 0x3C6EF372, 0xA54FF53A, 0x510E527F, 0x9B05688C, 0x1F83D9AB, 0x5BE0CD19,
     0x6A09E667, 0xBB67AE85, 0x3C6EF372, 0xA54FF53A, 0, 0, 0, 0xB] (replicate 16 0) =
    [0x3443FA28, 0x7634CDC6, 0x49D319AD, 0xBCB61AC1, 0x78F414D7, 0xAADB11A4, 0xF59BEAFB, 0x3F6DA91,
     0x8D0AE987, 0xD0953433, 0xA39E590D, 0xF57FC6F7, 0xB1D1DF4C, 0x1DC9D009, 0x3F087037, 0x61C4C575]"
proof -
  have z: "map (\<lambda>i. replicate 16 (0 :: u32) ! i) BLAKE3ARCHTSIM_MSG_PERMUTATION = replicate 16 0"
    by (simp add: BLAKE3ARCHTSIM_MSG_PERMUTATION_def eval_nat_numeral)
  have seven: "7 = Suc (Suc (Suc (Suc (Suc (Suc (Suc 0))))))" by simp
  have "blake3_rounds 7 v (replicate 16 0) = blake3_round (blake3_round (blake3_round (blake3_round (blake3_round
      (blake3_round (blake3_round v (replicate 16 0)) (replicate 16 0)) (replicate 16 0)) (replicate 16 0)) (replicate 16 0))
      (replicate 16 0)) (replicate 16 0)" for v
    unfolding seven by (simp only: blake3_rounds.simps z)
  then show ?thesis unfolding empty_rounds by (simp only: empty_rounds)
qed

lemma blake3_empty:
  "blake3_spec BLAKE3ARCHTSIM_IV 0 [] =
    [0xaf, 0x13, 0x49, 0xb9, 0xf5, 0xf9, 0xa1, 0xa6, 0xa0, 0x40, 0x4d, 0xea, 0x36, 0xdc, 0xc9, 0x49,
     0x9b, 0xcb, 0x25, 0xc9, 0xad, 0xc1, 0x12, 0xb7, 0xcc, 0x9a, 0x93, 0xca, 0xe4, 0x1f, 0x32, 0x62]"
proof -
  have m: "map (\<lambda>i. le_get32 (drop (i * 4) (replicate 64 0))) [0..<16] = replicate 16 0"
    by (simp add: le_get32_def upt_conv_Cons numeral_eq_Suc)
  have "Blake3archtsim_compress BLAKE3ARCHTSIM_IV (replicate 64 0) 0 0 11 = map (\<lambda>i. X ! i XOR X ! (i + 8)) [0..<8] @ map (\<lambda>i. X ! (i + 8) XOR BLAKE3ARCHTSIM_IV ! i) [0..<8]"
    if "X = [0x3443FA28, 0x7634CDC6, 0x49D319AD, 0xBCB61AC1, 0x78F414D7, 0xAADB11A4, 0xF59BEAFB, 0x3F6DA91,
     0x8D0AE987, 0xD0953433, 0xA39E590D, 0xF57FC6F7, 0xB1D1DF4C, 0x1DC9D009, 0x3F087037, 0x61C4C575]" for X
    using that m empty_rounds_7 by (simp add: Blake3archtsim_compress_def BLAKE3ARCHTSIM_IV_def Let_def)
  then show ?thesis
    by (simp add: blake3_spec_def spec_chunks_def spec_leaf_def spec_chunk.simps pad64_def ChunkStart_def ChunkEnd_def Root_def
      BLAKE3ARCHTSIM_IV_def upt_conv_Cons bslice_def le_put32_def)
qed

end
