(* ===== verification/Cas.thy ===== *)
theory Cas
  imports Device_Live Blake3_Empty
begin

text \<open>
  The content-addressed store of \<^verbatim>\<open>src/pkg/c2db/cas.go\<close>: an append-only device of blobs, each behind its
  BLAKE3 hash and its length, padded to whole blocks, with an index from hashes to block numbers that is
  rebuilt by a scan when the store is opened. The buffer \<^verbatim>\<open>hdr\<close> is read before every use and is not part
  of the state; the anonymous mappings succeed.
\<close>

datatype cas_error = CDev dev_error | CNotFound | CTooLong nat | CFull nat nat | CRange nat nat | CPanic

record CAS =
  c_open :: bool
  c_dev :: Device
  c_index :: "bytes \<Rightarrow> nat option"
  c_next :: nat

definition casHashSize :: nat where [simp]: "casHashSize = 32"
definition casHdrSize :: nat where [simp]: "casHdrSize = 36"

definition on_cdev :: "(Device, dev_error, 'a) op \<Rightarrow> (CAS, cas_error, 'a) op" where
  "on_cdev m c = (case m (c_dev c) of (r, d) \<Rightarrow> ((case r of Inl e \<Rightarrow> Inl (CDev e) | Inr x \<Rightarrow> Inr x), c\<lparr>c_dev := d\<rparr>))"

definition cas_ready :: "(CAS, cas_error, unit) op" where
  "cas_ready c = (if \<not> c_open c then (Inl (CDev EBADF), c) else on_cdev checkReady c)"

definition newCAS :: "Device \<Rightarrow> CAS" where
  "newCAS dev = \<lparr>c_open = True, c_dev = dev, c_index = Map.empty, c_next = 0\<rparr>"

definition packedLBAs :: "nat \<Rightarrow> nat" where
  "packedLBAs payloadLen = (casHdrSize + payloadLen + LBASize - 1) div LBASize"

definition casVacant :: "bytes \<Rightarrow> nat \<Rightarrow> bool" where
  "casVacant hdr plen \<longleftrightarrow> plen = 0 \<and> hdr ! 0 = 0 \<and> hdr ! 1 = 0 \<and> hdr ! 2 = 0 \<and> hdr ! 3 = 0"

definition cas_blk :: "bytes \<Rightarrow> bytes \<Rightarrow> bytes" where
  "cas_blk h buf =
     (let blk = replicate (packedLBAs (length buf) * LBASize) 0;
          blk = put_at blk 0 h;
          blk = put_at blk casHashSize (le_put32 (of_nat (length buf)))
      in put_at blk casHdrSize buf)"

definition cas_Put :: "bytes \<Rightarrow> (CAS, cas_error, bytes) op" where
  "cas_Put buf = op_bind cas_ready (\<lambda>_ c. case Sum256 buf of
       None \<Rightarrow> (Inl CPanic, c)
     | Some h \<Rightarrow>
         if c_index c h \<noteq> None then (Inr h, c)
         else if length buf > 2 ^ 32 - 1 then (Inl (CTooLong (length buf)), c)
         else let nLBA = packedLBAs (length buf); maxLBA = d_size (c_dev c) div LBASize
           in if c_next c \<ge> maxLBA \<or> nLBA > maxLBA - c_next c then (Inl (CFull (c_next c) nLBA), c)
              else op_bind (on_cdev (dev_Write (c_next c) (cas_blk h buf) True)) (\<lambda>_.
                op_bind (on_cdev dev_Flush) (\<lambda>_ c.
                  (Inr h, c\<lparr>c_index := (c_index c)(h \<mapsto> c_next c), c_next := c_next c + nLBA\<rparr>))) c)"

definition cas_plen :: "bytes \<Rightarrow> nat" where
  "cas_plen hdr = unat (le_get32 (drop casHashSize hdr))"

definition cas_Get :: "bytes \<Rightarrow> (CAS, cas_error, bytes) op" where
  "cas_Get h = op_bind cas_ready (\<lambda>_ c. case c_index c h of
       None \<Rightarrow> (Inl CNotFound, c)
     | Some lba \<Rightarrow> op_bind (on_cdev (dev_Read lba LBASize True)) (\<lambda>hdr c.
         let plen = cas_plen hdr; nLBA = packedLBAs plen; maxLBA = d_size (c_dev c) div LBASize
         in if lba \<ge> maxLBA \<or> nLBA > maxLBA - lba then (Inl (CRange lba plen), c)
            else if nLBA > 1 then
              op_bind (on_cdev (dev_Read lba (nLBA * LBASize) True)) (\<lambda>blk. op_ret (bslice blk casHdrSize plen)) c
            else (Inr (bslice hdr casHdrSize plen), c)) c)"

definition cas_Close :: "(CAS, cas_error, unit) op" where
  "cas_Close = op_bind cas_ready (\<lambda>_ c. case on_cdev dev_Close c of (r, c) \<Rightarrow> (r, c\<lparr>c_open := False, c_index := Map.empty\<rparr>))"

lemma packedLBAs_pos: "0 < packedLBAs n"
  by (simp add: packedLBAs_def)

function replay_from :: "nat \<Rightarrow> nat \<Rightarrow> (CAS, cas_error, unit) op" where
  "replay_from maxLBA lba c =
     (if lba < maxLBA then
        (case on_cdev (dev_Read lba LBASize True) c of
           (Inl e, c) \<Rightarrow> (Inl e, c)
         | (Inr hdr, c) \<Rightarrow>
             let plen = cas_plen hdr; nLBA = packedLBAs plen
             in if casVacant hdr plen then (Inr (), c)
                else if lba \<ge> maxLBA \<or> nLBA > maxLBA - lba then (Inl (CRange lba plen), c)
                else replay_from maxLBA (lba + nLBA)
                       (c\<lparr>c_index := (c_index c)(take casHashSize hdr \<mapsto> lba), c_next := lba + nLBA\<rparr>))
      else (Inr (), c))"
  by pat_completeness auto
termination by (relation "measure (\<lambda>(m, l, c). m - l)") (auto simp: packedLBAs_pos diff_less_mono2)

declare replay_from.simps [simp del]

definition cas_replay :: "(CAS, cas_error, unit) op" where
  "cas_replay c = replay_from (d_size (c_dev c) div LBASize) 0 (c\<lparr>c_next := 0, c_index := Map.empty\<rparr>)"

definition OpenCAS :: "Device \<Rightarrow> cas_error + CAS" where
  "OpenCAS dev = (case cas_replay (newCAS dev) of (Inl e, c) \<Rightarrow> Inl e | (Inr _, c) \<Rightarrow> Inr c)"

section \<open>The log of blobs\<close>

definition blob_hash :: "bytes \<Rightarrow> bytes" where
  "blob_hash b = blake3_spec BLAKE3ARCHTSIM_IV 0 b"

text \<open>An entry is a hash with a body; the entries that insertions write have the hash of their body.\<close>

type_synonym entry = "bytes \<times> bytes"

abbreviation cas_entry :: "entry \<Rightarrow> bytes" where
  "cas_entry b \<equiv> cas_blk (fst b) (snd b)"

abbreviation entry_lbas :: "entry \<Rightarrow> nat" where
  "entry_lbas b \<equiv> packedLBAs (length (snd b))"

fun blob_lbas :: "nat \<Rightarrow> entry list \<Rightarrow> (bytes \<times> nat) list" where
  "blob_lbas i [] = []"
| "blob_lbas i (b # bs) = (fst b, i) # blob_lbas (i + entry_lbas b) bs"

definition blobs_size :: "entry list \<Rightarrow> nat" where
  "blobs_size bs = sum_list (map entry_lbas bs)"

text \<open>An empty body is told from the free space by its hash, which does not begin with four zeros.\<close>

definition entry_ok :: "entry \<Rightarrow> bool" where
  "entry_ok b \<longleftrightarrow> length (fst b) = 32 \<and> length (snd b) < 2 ^ 32 \<and> \<not> casVacant (fst b) (length (snd b))"

text \<open>The store holds the entries \<open>bs\<close>, in the order of their insertion, and nothing behind them.\<close>

definition cas_holds :: "CAS \<Rightarrow> entry list \<Rightarrow> bool" where
  "cas_holds c bs \<longleftrightarrow> c_open c \<and> dev_ok (c_dev c) \<and> list_all entry_ok bs \<and> distinct (map fst bs) \<and>
     c_index c = map_of (blob_lbas 0 bs) \<and> c_next c = blobs_size bs \<and> blobs_size bs \<le> d_cap (c_dev c) \<and>
     d_file (c_dev c) = concat (map cas_entry bs) @ replicate ((d_cap (c_dev c) - blobs_size bs) * 4096) 0"

lemma Sum256_hash: "length b < 2 ^ 32 \<Longrightarrow> Sum256 b = Some (blob_hash b)"
  using Digest_run [of b BLAKE3ARCHTSIM_IV 0] by (simp add: Sum256_def Digest_Reset_def blob_hash_def)

lemma blob_hash_length [simp]: "length (blob_hash b) = 32"
  by (simp add: blob_hash_def)

lemma blob_entry_ok: "length b < 2 ^ 32 \<Longrightarrow> entry_ok (blob_hash b, b)"
  using blake3_empty by (auto simp: entry_ok_def casVacant_def blob_hash_def)

lemma packed_fit: "36 + n \<le> packedLBAs n * 4096"
  by (simp add: packedLBAs_def)

lemma cas_blk_length [simp]: "length (cas_blk h b) = packedLBAs (length b) * 4096"
  by (simp add: cas_blk_def)

lemma cas_blk_fields:
  assumes "length h = 32"
  shows "take 32 (cas_blk h b) = h" "bslice (cas_blk h b) 32 4 = le_put32 (of_nat (length b))" "bslice (cas_blk h b) 36 (length b) = b"
proof -
  let ?z = "replicate (packedLBAs (length b) * 4096) (0::byte)"
  note f = packed_fit [of "length b"]
  have e: "cas_blk h b = put_at (put_at (put_at ?z 0 h) 32 (le_put32 (of_nat (length b)))) 36 b" by (simp add: cas_blk_def)
  have "bslice (cas_blk h b) 0 32 = h" unfolding e using f assms by simp
  then show "take 32 (cas_blk h b) = h" by (simp add: bslice_def)
  show "bslice (cas_blk h b) 32 4 = le_put32 (of_nat (length b))" unfolding e using f assms by simp
  show "bslice (cas_blk h b) 36 (length b) = b" unfolding e using f assms by simp
qed

lemma blob_lbas_append: "blob_lbas i (xs @ ys) = blob_lbas i xs @ blob_lbas (i + blobs_size xs) ys"
  by (induction xs arbitrary: i) (auto simp: blobs_size_def add.assoc)

lemma blob_lbas_keys [simp]: "map fst (blob_lbas i bs) = map fst bs"
  by (induction bs arbitrary: i) auto

lemma blobs_size_simps [simp]:
  "blobs_size [] = 0" "blobs_size (b # bs) = entry_lbas b + blobs_size bs" "blobs_size (xs @ ys) = blobs_size xs + blobs_size ys"
  by (simp_all add: blobs_size_def)

lemma image_length [simp]: "length (concat (map cas_entry bs)) = blobs_size bs * 4096"
  by (induction bs) (auto simp: algebra_simps)

lemma blob_lookup:
  "map_of (blob_lbas i bs) h = Some lba \<Longrightarrow> \<exists>xs b ys. bs = xs @ b # ys \<and> h = fst b \<and> lba = i + blobs_size xs"
proof (induction bs arbitrary: i)
  case (Cons b bs)
  show ?case
  proof (cases "h = fst b")
    case True then show ?thesis using Cons.prems by (intro exI [of _ "[]"] exI [of _ b] exI [of _ bs]) auto
  next
    case False
    then have "map_of (blob_lbas (i + entry_lbas b) bs) h = Some lba" using Cons.prems by (simp split: if_splits)
    from Cons.IH [OF this] obtain xs b' ys where "bs = xs @ b' # ys" "h = fst b'" "lba = i + entry_lbas b + blobs_size xs" by blast
    then show ?thesis by (intro exI [of _ "b # xs"] exI [of _ b'] exI [of _ ys]) simp
  qed
qed simp

lemma blob_lookup_None: "map_of (blob_lbas i bs) h = None \<longleftrightarrow> h \<notin> fst ` set bs"
  by (metis blob_lbas_keys list.set_map map_of_eq_None_iff)

lemma blob_lbas_snoc:
  assumes "fst b \<notin> fst ` set bs"
  shows "map_of (blob_lbas 0 (bs @ [b])) = (map_of (blob_lbas 0 bs))(fst b \<mapsto> blobs_size bs)"
proof -
  have "map_of (blob_lbas 0 bs) (fst b) = None" using assms by (simp only: blob_lookup_None) simp
  then show ?thesis by (auto simp: blob_lbas_append map_add_def fun_eq_iff split: option.splits)
qed

text \<open>Reading the blocks of an entry.\<close>

lemma entry_slice:
  assumes "f = concat (map cas_entry (xs @ b # ys)) @ z"
  shows "bslice f (blobs_size xs * 4096) (entry_lbas b * 4096) = cas_entry b"
    "bslice f (blobs_size xs * 4096) 4096 = take 4096 (cas_entry b)"
proof -
  have d: "drop (blobs_size xs * 4096) f = cas_entry b @ concat (map cas_entry ys) @ z"
    unfolding assms by (metis (no_types, lifting) append_assoc append_eq_conv_conj concat.simps(2) concat_append image_length list.map(2) map_append)
  show "bslice f (blobs_size xs * 4096) (entry_lbas b * 4096) = cas_entry b" unfolding bslice_def d by simp
  have "4096 \<le> length (cas_entry b)" using packedLBAs_pos [of "length (snd b)"] by simp
  then show "bslice f (blobs_size xs * 4096) 4096 = take 4096 (cas_entry b)" unfolding bslice_def d by simp
qed

lemma entry_head:
  assumes "entry_ok b"
  shows "cas_plen (take 4096 (cas_entry b)) = length (snd b)" "take 32 (take 4096 (cas_entry b)) = fst b"
    "\<not> casVacant (take 4096 (cas_entry b)) (length (snd b))"
proof -
  have l: "length (fst b) = 32" using assms by (simp add: entry_ok_def)
  have "take 4 (drop 32 (take 4096 (cas_entry b))) = bslice (cas_entry b) 32 4" by (simp add: bslice_def take_drop)
  also have "\<dots> = le_put32 (of_nat (length (snd b)))" by (rule cas_blk_fields) (rule l)
  finally have "le_get32 (drop 32 (take 4096 (cas_entry b))) = of_nat (length (snd b))" by (metis le_get_put(2) le_get_take(2) order_refl)
  then show "cas_plen (take 4096 (cas_entry b)) = length (snd b)" using assms by (simp add: entry_ok_def cas_plen_def unat_of_nat take_bit_nat_eq_self)
  show t: "take 32 (take 4096 (cas_entry b)) = fst b" using cas_blk_fields(1) [OF l, of "snd b"] by simp
  have n: "take 4096 (cas_entry b) ! i = fst b ! i" if "i < 32" for i using t that by (metis nth_take)
  show "\<not> casVacant (take 4096 (cas_entry b)) (length (snd b))"
    using assms n [of 0] n [of 1] n [of 2] n [of 3] by (simp only: entry_ok_def casVacant_def) simp
qed

lemma cas_holds_dev:
  "cas_holds c bs \<Longrightarrow> dev_ok d \<Longrightarrow> d_size d = d_size (c_dev c) \<Longrightarrow> d_file d = d_file (c_dev c) \<Longrightarrow> cas_holds (c\<lparr>c_dev := d\<rparr>) bs"
  by (simp add: cas_holds_def)

lemma on_cdev_Inr: "on_cdev m c = (Inr x, c') \<longleftrightarrow> (\<exists>d. m (c_dev c) = (Inr x, d) \<and> c' = c\<lparr>c_dev := d\<rparr>)"
  by (auto simp: on_cdev_def split: prod.splits sum.splits)

lemma cas_ready_Inr: "cas_ready c = (Inr u, c') \<Longrightarrow> c' = c \<and> c_open c \<and> d_fd (c_dev c) \<and> \<not> d_poisoned (c_dev c)"
  by (auto simp: cas_ready_def on_cdev_def checkReady_def split: if_splits)

lemma read_holds:
  assumes "cas_holds c bs" "on_cdev (dev_Read lba len True) c = (Inr x, c')"
  shows "cas_holds c' bs \<and> x = bslice (d_file (c_dev c)) (lba * 4096) len \<and> d_size (c_dev c') = d_size (c_dev c) \<and> d_file (c_dev c') = d_file (c_dev c)"
proof -
  obtain d where d: "dev_Read lba len True (c_dev c) = (Inr x, d)" "c' = c\<lparr>c_dev := d\<rparr>" using assms(2) by (auto simp: on_cdev_Inr)
  have "dev_ok (c_dev c)" using assms(1) by (simp add: cas_holds_def)
  from dev_Read_cases [OF d(1) this] show ?thesis using assms(1) d(2) by (auto intro: cas_holds_dev)
qed

lemma cas_Get_holds:
  assumes h: "cas_holds c bs" and g: "cas_Get k c = (Inr b, c')"
  shows "cas_holds c' bs \<and> (k, b) \<in> set bs"
proof -
  obtain c0 where r: "cas_ready c = (Inr (), c0)" and c1: "(case c_index c0 k of None \<Rightarrow> (Inl CNotFound, c0)
     | Some lba \<Rightarrow> op_bind (on_cdev (dev_Read lba LBASize True)) (\<lambda>hdr c.
         let plen = cas_plen hdr; nLBA = packedLBAs plen; maxLBA = d_size (c_dev c) div LBASize
         in if lba \<ge> maxLBA \<or> nLBA > maxLBA - lba then (Inl (CRange lba plen), c)
            else if nLBA > 1 then
              op_bind (on_cdev (dev_Read lba (nLBA * LBASize) True)) (\<lambda>blk. op_ret (bslice blk casHdrSize plen)) c
            else (Inr (bslice hdr casHdrSize plen), c)) c0) = (Inr b, c')"
    using g unfolding cas_Get_def by (auto elim!: op_bind_InrE)
  have c0: "c0 = c" using cas_ready_Inr [OF r] by simp
  then obtain lba where l: "c_index c k = Some lba" using c1 by (cases "c_index c k") auto
  then obtain xs v ys where bs: "bs = xs @ v # ys" "k = fst v" "lba = blobs_size xs"
    using blob_lookup [of 0 bs k lba] h by (auto simp: cas_holds_def)
  have v: "entry_ok v" using h bs(1) by (simp add: cas_holds_def)
  have f: "d_file (c_dev c) = concat (map cas_entry (xs @ v # ys)) @ replicate ((d_cap (c_dev c) - blobs_size bs) * 4096) 0"
    using h bs(1) by (simp add: cas_holds_def)
  note sl = entry_slice [OF f] and hd = entry_head [OF v]
  obtain hdr c2 where rd: "on_cdev (dev_Read lba 4096 True) c = (Inr hdr, c2)"
    and rest: "(let plen = cas_plen hdr; nLBA = packedLBAs plen; maxLBA = d_size (c_dev c2) div LBASize
         in if lba \<ge> maxLBA \<or> nLBA > maxLBA - lba then (Inl (CRange lba plen), c2)
            else if nLBA > 1 then
              op_bind (on_cdev (dev_Read lba (nLBA * LBASize) True)) (\<lambda>blk. op_ret (bslice blk casHdrSize plen)) c2
            else (Inr (bslice hdr casHdrSize plen), c2)) = (Inr b, c')"
    using c1 c0 l by (auto elim!: op_bind_InrE)
  note r2 = read_holds [OF h rd]
  have hdr: "hdr = take 4096 (cas_entry v)" using r2 sl(2) bs(3) by simp
  have pl: "cas_plen hdr = length (snd v)" using hdr hd(1) by simp
  have body: "bslice (cas_entry v) 36 (length (snd v)) = snd v" by (rule cas_blk_fields) (use v in \<open>simp add: entry_ok_def\<close>)
  show ?thesis
  proof (cases "packedLBAs (length (snd v)) > 1")
    case True
    then obtain blk where b2: "on_cdev (dev_Read lba (packedLBAs (length (snd v)) * 4096) True) c2 = (Inr blk, c')" "b = bslice blk 36 (length (snd v))"
      using rest pl by (auto simp: Let_def elim!: op_bind_InrE split: if_splits)
    note r3 = read_holds [OF conjunct1 [OF r2] b2(1)]
    have "blk = cas_entry v" using r3 r2 sl(1) bs(3) by simp
    then show ?thesis using r3 b2(2) body bs by simp
  next
    case False
    then have one: "packedLBAs (length (snd v)) = 1" using packedLBAs_pos [of "length (snd v)"] by simp
    then have "hdr = cas_entry v" using hdr by simp
    then have "b = snd v" "c' = c2" using rest pl False body by (auto simp: Let_def split: if_splits)
    then show ?thesis using r2 bs by simp
  qed
qed

section \<open>Insertion\<close>

lemma put_at_zeros: "length xs \<le> n \<Longrightarrow> put_at (ys @ replicate n 0) (length ys) xs = ys @ xs @ replicate (n - length xs) 0"
  by (rule nth_equalityI) (auto simp: put_at_nth nth_append)

lemma cas_Put_holds:
  assumes h: "cas_holds c bs" and len: "length b < 2 ^ 32" and put: "cas_Put b c = (Inr k, c')"
  shows "k = blob_hash b \<and> cas_holds c' (if k \<in> fst ` set bs then bs else bs @ [(k, b)]) \<and>
    (if k \<in> fst ` set bs then c' = c else k_durable (d_os (c_dev c')) = d_file (c_dev c')) \<and> d_size (c_dev c') = d_size (c_dev c)"
proof -
  let ?n = "packedLBAs (length b)"
  obtain c0 where r: "cas_ready c = (Inr (), c0)" and rest: "(if c_index c0 (blob_hash b) \<noteq> None then (Inr (blob_hash b), c0)
         else if length b > 2 ^ 32 - 1 then (Inl (CTooLong (length b)), c0)
         else let nLBA = ?n; maxLBA = d_size (c_dev c0) div LBASize
           in if c_next c0 \<ge> maxLBA \<or> nLBA > maxLBA - c_next c0 then (Inl (CFull (c_next c0) nLBA), c0)
              else op_bind (on_cdev (dev_Write (c_next c0) (cas_blk (blob_hash b) b) True)) (\<lambda>_.
                op_bind (on_cdev dev_Flush) (\<lambda>_ c.
                  (Inr (blob_hash b), c\<lparr>c_index := (c_index c)(blob_hash b \<mapsto> c_next c), c_next := c_next c + nLBA\<rparr>))) c0) = (Inr k, c')"
    using put unfolding cas_Put_def Sum256_hash [OF len] by (auto elim!: op_bind_InrE)
  have c0: "c0 = c" using cas_ready_Inr [OF r] by simp
  show ?thesis
  proof (cases "c_index c (blob_hash b) = None")
    case False
    then have "map_of (blob_lbas 0 bs) (blob_hash b) \<noteq> None" using h by (simp add: cas_holds_def)
    then have "blob_hash b \<in> fst ` set bs" unfolding blob_lookup_None by simp
    then show ?thesis using rest c0 False h by auto
  next
    case True
    then have new: "blob_hash b \<notin> fst ` set bs" using h by (simp add: cas_holds_def blob_lookup_None)
    have room: "?n \<le> d_cap (c_dev c) - c_next c" "c_next c < d_cap (c_dev c)" using rest c0 True len by (auto simp: Let_def split: if_splits)
    then obtain d1 d2 where w: "dev_Write (c_next c) (cas_blk (blob_hash b) b) True (c_dev c) = (Inr (), d1)" and fl: "dev_Flush d1 = (Inr (), d2)"
      and c': "k = blob_hash b" "c' = c\<lparr>c_dev := d2, c_index := (c_index c)(blob_hash b \<mapsto> c_next c), c_next := c_next c + ?n\<rparr>"
      using rest c0 True len by (auto simp: Let_def on_cdev_Inr elim!: op_bind_InrE split: if_splits)
    have ok: "dev_ok (c_dev c)" and nx: "c_next c = blobs_size bs" using h by (simp_all add: cas_holds_def)
    note wc = dev_Write_cases [OF w ok]
    have d2: "dev_ok d2 \<and> d_size d2 = d_size (c_dev c) \<and> d_file d2 = put_at (d_file (c_dev c)) (c_next c * 4096) (cas_blk (blob_hash b) b) \<and> k_durable (d_os d2) = d_file d2"
      using dev_Flush_cases [OF fl] wc by simp
    let ?m = "d_cap (c_dev c) - blobs_size bs"
    have fit: "length (cas_blk (blob_hash b) b) \<le> ?m * 4096" using room(1) nx by simp
    have "d_file d2 = concat (map cas_entry bs) @ cas_blk (blob_hash b) b @ replicate (?m * 4096 - length (cas_blk (blob_hash b) b)) 0"
      using h d2 put_at_zeros [OF fit, of "concat (map cas_entry bs)"] nx by (simp add: cas_holds_def)
    then have f: "d_file d2 = concat (map cas_entry (bs @ [(blob_hash b, b)])) @ replicate ((d_cap d2 - blobs_size (bs @ [(blob_hash b, b)])) * 4096) 0"
      using d2 by (simp add: diff_mult_distrib)
    have lk: "map_of (blob_lbas 0 (bs @ [(blob_hash b, b)])) = (c_index c)(blob_hash b \<mapsto> c_next c)"
      using h nx blob_lbas_snoc [of "(blob_hash b, b)" bs] new by (simp add: cas_holds_def)
    have "cas_holds c' (bs @ [(blob_hash b, b)])"
      using h blob_entry_ok [OF len] new f lk d2 room nx c'(2) by (auto simp: cas_holds_def)
    then show ?thesis using c' new d2 by simp
  qed
qed

section \<open>Opening\<close>

lemma replay_from_ok:
  assumes "healthy (c_dev c)" "d_cap (c_dev c) = m" "distinct (map fst (xs @ ys))" "list_all entry_ok (xs @ ys)"
    "blobs_size (xs @ ys) \<le> m" "d_file (c_dev c) = concat (map cas_entry (xs @ ys)) @ replicate ((m - blobs_size (xs @ ys)) * 4096) 0"
    "c_open c" "c_index c = map_of (blob_lbas 0 xs)" "c_next c = blobs_size xs"
  shows "\<exists>c'. replay_from m (blobs_size xs) c = (Inr (), c') \<and> cas_holds c' (xs @ ys) \<and> healthy (c_dev c')"
  using assms
proof (induction ys arbitrary: xs c)
  case Nil
  have ok: "dev_ok (c_dev c)" using Nil.prems(1) by (simp add: healthy_def)
  have hold: "cas_holds (c\<lparr>c_dev := d\<rparr>) xs" if "healthy d" "d_size d = d_size (c_dev c)" "d_file d = d_file (c_dev c)" for d
    using Nil.prems that by (simp add: cas_holds_def healthy_def)
  show ?case
  proof (cases "blobs_size xs < m")
    case False then show ?thesis using Nil.prems hold [of "c_dev c"] by (subst replay_from.simps) simp
  next
    case True
    obtain d where d: "dev_Read (blobs_size xs) 4096 True (c_dev c) = (Inr (blk (c_dev c) (blobs_size xs)), d)" "healthy d"
      using dev_Read_healthy [OF Nil.prems(1)] True Nil.prems(2) by blast
    note rc = dev_Read_cases [OF d(1) ok]
    have "blk (c_dev c) (blobs_size xs) = take 4096 (replicate ((m - blobs_size xs) * 4096) 0)"
      using Nil.prems(6) by (simp add: blk_def bslice_def)
    also have "\<dots> = replicate 4096 0" using True by (simp add: min_def)
    finally have z: "blk (c_dev c) (blobs_size xs) = replicate 4096 0" .
    have "casVacant (replicate 4096 0) (cas_plen (replicate 4096 0))"
      by (simp add: casVacant_def cas_plen_def le_get32_def)
    then have "replay_from m (blobs_size xs) c = (Inr (), c\<lparr>c_dev := d\<rparr>)"
      using True d(1) z by (subst replay_from.simps) (simp add: on_cdev_def Let_def)
    then show ?thesis using hold [OF d(2)] rc d(2) by auto
  qed
next
  case (Cons b ys)
  have ok: "dev_ok (c_dev c)" using Cons.prems(1) by (simp add: healthy_def)
  have b: "entry_ok b" using Cons.prems(4) by simp
  have lt: "blobs_size xs < m" "entry_lbas b \<le> m - blobs_size xs"
    using Cons.prems(5) packedLBAs_pos [of "length (snd b)"] by simp_all
  obtain d where d: "dev_Read (blobs_size xs) 4096 True (c_dev c) = (Inr (blk (c_dev c) (blobs_size xs)), d)" "healthy d"
    using dev_Read_healthy [OF Cons.prems(1)] lt(1) Cons.prems(2) by blast
  note rc = dev_Read_cases [OF d(1) ok]
  have z: "blk (c_dev c) (blobs_size xs) = take 4096 (cas_entry b)" unfolding blk_def by (rule entry_slice(2) [OF Cons.prems(6)])
  let ?c = "c\<lparr>c_dev := d, c_index := (c_index c)(fst b \<mapsto> blobs_size xs), c_next := blobs_size xs + entry_lbas b\<rparr>"
  have st: "replay_from m (blobs_size xs) c = replay_from m (blobs_size (xs @ [b])) ?c"
    using lt d(1) z entry_head [OF b] by (subst replay_from.simps) (simp add: on_cdev_def Let_def)
  have "fst b \<notin> fst ` set xs" using Cons.prems(3) by auto
  then have lk: "map_of (blob_lbas 0 (xs @ [b])) = (c_index c)(fst b \<mapsto> blobs_size xs)"
    using Cons.prems(8) blob_lbas_snoc by simp
  show ?case unfolding st using Cons.IH [of ?c "xs @ [b]"] Cons.prems d(2) rc lk by simp
qed

lemma OpenCAS_holds:
  assumes "healthy d" "distinct (map fst bs)" "list_all entry_ok bs" "blobs_size bs \<le> d_cap d"
    "d_file d = concat (map cas_entry bs) @ replicate ((d_cap d - blobs_size bs) * 4096) 0"
  shows "\<exists>c. OpenCAS d = Inr c \<and> cas_holds c bs \<and> healthy (c_dev c)"
  using replay_from_ok [of "newCAS d" "d_cap d" "[]" bs] assms by (auto simp: OpenCAS_def cas_replay_def newCAS_def)

section \<open>Reading on a device that answers\<close>

lemma dev_Read_healthy_n:
  assumes h: "healthy d" and n: "0 < n" "i + n \<le> d_cap d"
  shows "\<exists>d'. dev_Read i (n * 4096) True d = (Inr (bslice (d_file d) (i * 4096) (n * 4096)), d') \<and> healthy d'"
proof -
  let ?x = "bslice (d_file d) (i * 4096) (n * 4096)"
  have ok: "dev_ok d" using h by (simp add: healthy_def)
  have off: "xferOff d i (n * 4096) = Some (i * 4096)" using xferOff_in n by simp
  have "i * 4096 + n * 4096 \<le> length (d_file d)" using xferOff_range(2) [OF off ok] by simp
  then have l: "length ?x = n * 4096" by simp
  then have ne: "?x \<noteq> []" using n(1) by (metis list.size(3) mult_is_0 not_gr0 zero_neq_numeral)
  have sp: "sys_pread (n * 4096) (i * 4096) (d_os d) = ((?x, None), d_os d)"
    using h by (simp add: sys_pread_def sys_outcome_def healthy_def)
  let ?d = "d\<lparr>d_preadN := d_preadN d + 1\<rparr>"
  have "preadAll (n * 4096) (i * 4096) d = (Inr ?x, ?d)"
    using sp l ne n by (subst preadAll.simps) (simp add: Let_def preadAll.simps [of 0] del: bslice_length)
  then have "dev_Read i (n * 4096) True d = (Inr ?x, ?d)"
    using h n off by (simp add: dev_Read_def op_bind_def checkReady_def checkXfer_def healthy_def)
  moreover have "healthy ?d" using h by (auto simp: healthy_def dev_ok_def)
  ultimately show ?thesis by blast
qed

lemma read_live:
  assumes "cas_holds c bs" "healthy (c_dev c)" "0 < n" "i + n \<le> d_cap (c_dev c)"
  obtains x c' where "on_cdev (dev_Read i (n * 4096) True) c = (Inr x, c')" "healthy (c_dev c')"
  using dev_Read_healthy_n [OF assms(2-4)] by (auto simp: on_cdev_def)

lemma cas_Get_live:
  assumes h: "cas_holds c bs" and d: "healthy (c_dev c)" and e: "(k, b) \<in> set bs"
  shows "\<exists>c'. cas_Get k c = (Inr b, c') \<and> cas_holds c' bs \<and> healthy (c_dev c')"
proof -
  have dist: "distinct (map fst bs)" using h by (simp add: cas_holds_def)
  have "map_of (blob_lbas 0 bs) k \<noteq> None" unfolding blob_lookup_None using e by force
  then obtain lba where l: "c_index c k = Some lba" using h by (auto simp: cas_holds_def)
  then obtain xs v ys where bs: "bs = xs @ v # ys" "k = fst v" "lba = blobs_size xs"
    using blob_lookup [of 0 bs k lba] h by (auto simp: cas_holds_def)
  have v: "entry_ok v" using h bs(1) by (simp add: cas_holds_def)
  have f: "d_file (c_dev c) = concat (map cas_entry (xs @ v # ys)) @ replicate ((d_cap (c_dev c) - blobs_size bs) * 4096) 0"
    using h bs(1) by (simp add: cas_holds_def)
  have fit: "lba + entry_lbas v \<le> d_cap (c_dev c)" using h bs by (simp add: cas_holds_def)
  have pos: "0 < entry_lbas v" by (rule packedLBAs_pos)
  obtain hdr c1 where r1: "on_cdev (dev_Read lba 4096 True) c = (Inr hdr, c1)" "healthy (c_dev c1)"
    using read_live [OF h d, of 1 lba] fit pos by auto
  note i1 = read_holds [OF h r1(1)]
  obtain blk c2 where r2: "on_cdev (dev_Read lba (entry_lbas v * 4096) True) c1 = (Inr blk, c2)" "healthy (c_dev c2)"
    using read_live [OF conjunct1 [OF i1] r1(2) pos, of lba] fit i1 by auto
  note i2 = read_holds [OF conjunct1 [OF i1] r2(1)]
  have pl: "cas_plen hdr = length (snd v)" using i1 entry_slice(2) [OF f] entry_head(1) [OF v] bs(3) by simp
  have rdy: "cas_ready c = (Inr (), c)" using h d by (simp add: cas_ready_def on_cdev_def checkReady_def cas_holds_def healthy_def)
  have "\<exists>x c'. cas_Get k c = (Inr x, c') \<and> healthy (c_dev c')"
    using rdy l r1 r2 pl fit pos i1 by (auto simp: cas_Get_def op_bind_def Let_def)
  then obtain x c' where g: "cas_Get k c = (Inr x, c')" "healthy (c_dev c')" by blast
  note gh = cas_Get_holds [OF h g(1)]
  have "x = b" using gh e dist by (metis eq_key_imp_eq_value)
  then show ?thesis using g gh by blast
qed

text \<open>
  C19. What \<^verbatim>\<open>Put\<close> stored survives a crash: when a put of a blob whose hash is not yet in the store has
  returned, the store opened again on the durable bytes returns that blob and every blob put before, the
  empty one included, each under its hash.
\<close>
theorem cas_durable:
  assumes h: "cas_holds c (map (\<lambda>b. (blob_hash b, b)) bs)" and b: "length b < 2 ^ 32"
    and put: "cas_Put b c = (Inr k, c')" "k \<notin> blob_hash ` set bs"
    and crash: "k_file os = k_durable (d_os (c_dev c'))" "k_io os = []"
  shows "\<exists>d c2. dev_Open os = Inr d \<and> OpenCAS d = Inr c2 \<and> (\<forall>v \<in> set (bs @ [b]). \<exists>c3. cas_Get (blob_hash v) c2 = (Inr v, c3))"
proof -
  let ?e = "map (\<lambda>b. (blob_hash b, b)) (bs @ [b])"
  have new: "k \<notin> fst ` set (map (\<lambda>b. (blob_hash b, b)) bs)" using put(2) by auto
  note q = cas_Put_holds [OF h b put(1), unfolded if_not_P [OF new]]
  from q have k: "k = blob_hash b" by blast
  have p: "cas_holds c' ?e" "k_durable (d_os (c_dev c')) = d_file (c_dev c')" using q unfolding k by simp_all
  have "dev_ok (c_dev c')" using p(1) unfolding cas_holds_def by blast
  then have len: "length (d_file (c_dev c')) = d_size (c_dev c')" "d_size (c_dev c') mod 4096 = 0" unfolding dev_ok_def by metis+
  obtain d where d: "dev_Open os = Inr d" "healthy d" "d_file d = d_file (c_dev c')" "d_cap d = d_cap (c_dev c')"
    using crash p(2) len by (simp add: dev_Open_def healthy_def dev_ok_def)
  have e: "distinct (map fst ?e)" "list_all entry_ok ?e" "blobs_size ?e \<le> d_cap d"
      "d_file d = concat (map cas_entry ?e) @ replicate ((d_cap d - blobs_size ?e) * 4096) 0"
    using p(1) unfolding cas_holds_def d(3,4) by blast+
  obtain c2 where c2: "OpenCAS d = Inr c2" "cas_holds c2 ?e" "healthy (c_dev c2)"
    using OpenCAS_holds [OF d(2) e] by blast
  have "\<exists>c3. cas_Get (blob_hash v) c2 = (Inr v, c3)" if "v \<in> set (bs @ [b])" for v
  proof -
    have "(blob_hash v, v) \<in> set ?e" using that by auto
    from cas_Get_live [OF c2(2,3) this] show ?thesis by blast
  qed
  then show ?thesis using d(1) c2(1) by blast
qed

text \<open>A crash in the middle of \<^verbatim>\<open>Put\<close> can make a wrong blob permanent. When only the first \<open>n\<close> bytes of
  the entry reached the disk, \<open>n\<close> covering the header, the opened store has the hash in its index: a
  second \<^verbatim>\<open>Put\<close> of the same blob reports success and writes nothing, and \<^verbatim>\<open>Get\<close> returns the torn
  bytes, padded with zeros, without comparing them with the hash.
\<close>
theorem torn_put_kept:
  assumes d: "healthy d" and n: "36 \<le> n" "n \<le> 36 + length b" and b: "b \<noteq> []" "length b < 2 ^ 32"
    and fit: "packedLBAs (length b) \<le> d_cap d"
    and torn: "d_file d = take n (cas_blk (blob_hash b) b) @ replicate (d_size d - n) 0"
  shows "\<exists>c c'. OpenCAS d = Inr c \<and> cas_Put b c = (Inr (blob_hash b), c) \<and>
    cas_Get (blob_hash b) c = (Inr (take (n - 36) b @ replicate (length b - (n - 36)) 0), c')"
proof -
  let ?t = "take (n - 36) b @ replicate (length b - (n - 36)) 0" and ?h = "blob_hash b"
  have lt: "length ?t = length b" using n by simp
  let ?P = "packedLBAs (length b)"
  have fb: "36 + length b \<le> ?P * 4096" by (rule packed_fit)
  have eq: "take n (cas_blk ?h b) @ replicate (?P * 4096 - n) 0 = cas_blk ?h ?t"
  proof (rule nth_equalityI)
    show "length (take n (cas_blk ?h b) @ replicate (?P * 4096 - n) 0) = length (cas_blk ?h ?t)" using n fb lt by simp
    fix i assume i: "i < length (take n (cas_blk ?h b) @ replicate (?P * 4096 - n) 0)"
    show "(take n (cas_blk ?h b) @ replicate (?P * 4096 - n) 0) ! i = cas_blk ?h ?t ! i"
      using i n fb lt by (auto simp: nth_append cas_blk_def put_at_nth)
  qed
  have sz: "d_size d = d_cap d * 4096" using d by (auto simp: healthy_def dev_ok_def)
  have "?P * 4096 \<le> d_cap d * 4096" using fit by simp
  then have "replicate (d_size d - n) 0 = replicate (?P * 4096 - n) 0 @ replicate ((d_cap d - ?P) * 4096) (0::byte)"
    using sz n fb by (simp add: diff_mult_distrib flip: replicate_add)
  then have "d_file d = cas_blk ?h ?t @ replicate ((d_cap d - ?P) * 4096) 0" unfolding torn eq [symmetric] by (simp only: append_assoc)
  moreover have "blobs_size [(?h, ?t)] = ?P" by (simp only: blobs_size_simps snd_conv lt add_0_right)
  ultimately have f: "d_file d = concat (map cas_entry [(?h, ?t)]) @ replicate ((d_cap d - blobs_size [(?h, ?t)]) * 4096) 0"
    by (simp only: list.map concat.simps fst_conv snd_conv append_Nil2)
  have "length ?t \<noteq> 0" "length ?t < 2 ^ 32" using b lt by (metis length_0_conv, metis)
  then have "entry_ok (?h, ?t)" by (simp only: entry_ok_def casVacant_def fst_conv snd_conv blob_hash_length) simp
  then obtain c where c: "OpenCAS d = Inr c" "cas_holds c [(?h, ?t)]" "healthy (c_dev c)"
    using OpenCAS_holds [OF d, of "[(?h, ?t)]"] f fit lt by auto
  have "map_of (blob_lbas 0 [(?h, ?t)]) ?h = Some 0" by simp
  then have ix: "c_index c ?h = Some 0" using c(2) unfolding cas_holds_def by metis
  have rdy: "cas_ready c = (Inr (), c)" using c(2,3) by (simp add: cas_ready_def on_cdev_def checkReady_def cas_holds_def healthy_def)
  have "cas_Put b c = (Inr ?h, c)" using rdy ix Sum256_hash [OF b(2)] by (simp add: cas_Put_def op_bind_def)
  then show ?thesis using c(1) cas_Get_live [OF c(2,3), of ?h ?t] by auto
qed

lemma new_cas_holds: "cas_holds (newCAS (zero_dev n)) []"
  by (simp add: cas_holds_def newCAS_def zero_dev_def dev_ok_def)

theorem cas_durable_witness:
  "\<exists>k c' d c2 c3. cas_Put [] (newCAS (zero_dev 2)) = (Inr k, c') \<and>
     dev_Open ((d_os (c_dev c'))\<lparr>k_file := k_durable (d_os (c_dev c')), k_io := []\<rparr>) = Inr d \<and>
     OpenCAS d = Inr c2 \<and> cas_Get (blob_hash []) c2 = (Inr [], c3)"
proof -
  let ?c = "newCAS (zero_dev 2)" and ?b = "[] :: bytes"
  have one: "packedLBAs 0 = 1" by (simp add: packedLBAs_def)
  have z: "healthy (zero_dev 2)" "d_cap (zero_dev 2) = 2" by (rule zero_dev_ok)+
  have "length (cas_blk (blob_hash ?b) ?b) = 1 * 4096" using one by simp
  then obtain d1 where w: "dev_Write 0 (cas_blk (blob_hash ?b) ?b) True (zero_dev 2) = (Inr (), d1)" "healthy d1"
    using dev_Write_healthy [OF z(1) _ zero_less_one, of _ 0] z(2) by fastforce
  obtain d2 where f: "dev_Flush d1 = (Inr (), d2)" using dev_Flush_healthy [OF w(2)] by blast
  have "cas_ready ?c = (Inr (), ?c)" by (simp add: cas_ready_def newCAS_def on_cdev_def checkReady_def zero_dev_def)
  then have put: "\<exists>c'. cas_Put ?b ?c = (Inr (blob_hash ?b), c')"
    using w(1) f one z(2) Sum256_hash [of ?b] by (simp add: cas_Put_def op_bind_def newCAS_def on_cdev_def Let_def)
  then obtain c' where c': "cas_Put ?b ?c = (Inr (blob_hash ?b), c')" by blast
  show ?thesis
    using cas_durable [of ?c "[]" ?b "blob_hash ?b" c' "(d_os (c_dev c'))\<lparr>k_file := k_durable (d_os (c_dev c')), k_io := []\<rparr>"] new_cas_holds c' by auto
qed

definition torn_dev :: Device where
  "torn_dev = (zero_dev 2)\<lparr>d_os := \<lparr>k_file = take 40 (cas_blk (blob_hash (replicate 8 7)) (replicate 8 7)) @ replicate 8152 0,
     k_durable = [], k_io = []\<rparr>\<rparr>"

theorem torn_put_kept_witness:
  "\<exists>c c'. OpenCAS torn_dev = Inr c \<and> cas_Put (replicate 8 7) c = (Inr (blob_hash (replicate 8 7)), c) \<and>
     cas_Get (blob_hash (replicate 8 7)) c = (Inr [7, 7, 7, 7, 0, 0, 0, 0], c')"
proof -
  let ?b = "replicate 8 7 :: bytes"
  have p: "packedLBAs 8 = 1" by (simp add: packedLBAs_def)
  have l: "length (cas_blk (blob_hash ?b) ?b) = 4096" using p by simp
  have h: "healthy torn_dev" using l by (simp add: healthy_def dev_ok_def torn_dev_def zero_dev_def)
  have s: "d_size torn_dev = 8192" "d_file torn_dev = take 40 (cas_blk (blob_hash ?b) ?b) @ replicate 8152 0" by (simp_all add: torn_dev_def zero_dev_def)
  have v: "take 4 ?b @ replicate 4 0 = [7, 7, 7, 7, 0, 0, 0, 0]" by (simp add: numeral_eq_Suc)
  show ?thesis using torn_put_kept [OF h, of 40 ?b] p s v by simp
qed

end
