(* ===== verification/Lz4.thy ===== *)
theory Lz4
  imports C2_Prelude
begin

text \<open>
  The LZ4 block codec of \<^verbatim>\<open>src/pkg/c2lz4/c2lz4_gen.go\<close> and its entry points in \<^verbatim>\<open>c2lz4.go\<close>. A nil
  slice takes the branches of an empty one. Lengths are natural numbers: a Go slice is shorter than
  \<open>2 ^ 63\<close>, and the sums of the code are bounded by twice the length of a slice. An index out of range
  is a panic, the value None. The compressor writes its output from the front, one byte after the other:
  the model keeps the bytes written so far, and None is the code's return value 0 for a full buffer.
\<close>

section \<open>Decompression\<close>

text \<open>The length bytes after a nibble of 15.\<close>

function read_ext :: "bytes \<Rightarrow> nat \<Rightarrow> nat \<Rightarrow> (nat \<times> nat) option" where
  "read_ext src v18 v27 =
     (if v18 < length src then
        do { b \<leftarrow> go_get src v18;
             if b \<noteq> 0xff then Some (v18 + 1, v27 + unat b) else read_ext src (v18 + 1) (v27 + unat b) }
      else Some (v18, v27))"
  by pat_completeness auto
termination by (relation "measure (\<lambda>(src, v18, v27). length src - v18)") auto

declare read_ext.simps [simp del]

text \<open>The copy of a match reads bytes that the same loop has written; a negative index is a panic.\<close>

fun match_copy :: "bytes \<Rightarrow> nat \<Rightarrow> nat \<Rightarrow> nat \<Rightarrow> bytes option" where
  "match_copy dst v20 off 0 = Some dst"
| "match_copy dst v20 off (Suc k) =
     do { x \<leftarrow> (if v20 < off then None else go_get dst (v20 - off)); d \<leftarrow> go_set dst v20 x; match_copy d (Suc v20) off k }"

lemma read_ext_step:
  "v18 < length src \<Longrightarrow> read_ext src v18 v27
     = (if src ! v18 \<noteq> 0xff then Some (v18 + 1, v27 + unat (src ! v18)) else read_ext src (v18 + 1) (v27 + unat (src ! v18)))"
  "\<not> v18 < length src \<Longrightarrow> read_ext src v18 v27 = Some (v18, v27)"
  by (subst read_ext.simps, simp add: go_get_def)+

lemma read_ext_total: "\<exists>p l. read_ext src v18 v27 = Some (p, l) \<and> v18 \<le> p"
proof (induction "length src - v18" arbitrary: v18 v27 rule: less_induct)
  case less
  show ?case
  proof (cases "v18 < length src")
    case True
    then have "\<exists>p l. read_ext src (v18 + 1) (v27 + unat (src ! v18)) = Some (p, l) \<and> v18 + 1 \<le> p" by (intro less) simp
    then show ?thesis using True by (auto simp: read_ext_step(1) dest: Suc_leD)
  qed (simp add: read_ext_step(2))
qed

definition run_len :: "nat \<Rightarrow> bytes \<Rightarrow> nat \<Rightarrow> nat \<Rightarrow> (nat \<times> nat) option" where
  "run_len full src p v = (if v = full then read_ext src p v else Some (p, v))"

lemma run_len_total: "\<exists>p l. run_len full src q v = Some (p, l) \<and> q \<le> p"
  using read_ext_total by (simp add: run_len_def)

lemma run_len_ge: "run_len full src q v = Some (p, l) \<Longrightarrow> q \<le> p"
  using run_len_total [of full src q v] by auto

function dec_loop :: "bytes \<Rightarrow> nat \<Rightarrow> nat \<Rightarrow> bytes \<Rightarrow> (int \<times> bytes) option" where
  "dec_loop src v18 v20 dst =
     (if v18 < length src then do {
        v26 \<leftarrow> go_get src v18;
        (p, v27) \<leftarrow> run_len 15 src (v18 + 1) (unat ((drop_bit 4 v26) AND 15));
        if v20 + v27 > length dst \<or> p + v27 > length src then Some (-2, dst)
        else do {
          dst \<leftarrow> copy_up dst v20 src p 0 v27;
          let v20 = v20 + v27; p = p + v27
          in if p \<ge> length src then Some (int v20, dst)
             else if p + 2 > length src then Some (-3, dst)
             else do {
               lo \<leftarrow> go_get src p;
               hi \<leftarrow> go_get src (p + 1);
               let v74 = unat ((ucast lo :: u16) OR push_bit 8 (ucast hi)); p = p + 2
               in if v74 = 0 \<or> v74 > v20 then Some (-4, dst)
                  else do {
                    (p, v85) \<leftarrow> run_len 19 src p (unat ((v26 AND 15) + 4));
                    if v20 + v85 > length dst then Some (-5, dst)
                    else do {
                      dst \<leftarrow> match_copy dst v20 v74 v85;
                      dec_loop src p (v20 + v85) dst
                    }
                  }
             }
        }
      }
      else Some (int v20, dst))"
  by pat_completeness auto
termination
  by (relation "measure (\<lambda>(src, v18, v20, dst). length src - v18)") (auto dest!: run_len_ge)

declare dec_loop.simps [simp del]

definition Lz4_decompress_safe :: "bytes \<Rightarrow> bytes \<Rightarrow> (int \<times> bytes) option" where
  "Lz4_decompress_safe src dst = (if src = [] \<or> dst = [] then Some (-1, dst) else dec_loop src 0 0 dst)"

definition Decompress :: "bytes \<Rightarrow> bytes \<Rightarrow> (nat \<times> bool \<times> bytes) option" where
  "Decompress src dst =
     (if src = [] \<or> dst = [] then Some (0, False, dst)
      else do {
        (n, dst) \<leftarrow> Lz4_decompress_safe src dst;
        Some (if n < 0 then (0, False, dst) else (nat n, True, dst))
      })"

section \<open>Compression\<close>

definition emit :: "nat \<Rightarrow> byte \<Rightarrow> bytes \<Rightarrow> bytes option" where
  "emit dst_max_len b out = (if length out \<ge> dst_max_len then None else Some (out @ [b]))"

fun emit_all :: "nat \<Rightarrow> bytes \<Rightarrow> bytes \<Rightarrow> bytes option" where
  "emit_all m [] out = Some out"
| "emit_all m (b # bs) out = do { out \<leftarrow> emit m b out; emit_all m bs out }"

fun emit_ext :: "nat \<Rightarrow> nat \<Rightarrow> bytes \<Rightarrow> bytes option" where
  "emit_ext m v139 out =
     (if v139 \<ge> 255 then do { out \<leftarrow> emit m 0xff out; emit_ext m (v139 - 255) out }
      else emit m (of_nat v139) out)"

declare emit_ext.simps [simp del]

definition lz4_read32 :: "bytes \<Rightarrow> nat \<Rightarrow> u32" where
  "lz4_read32 src i = le_get32 (drop i src)"

definition lz4_hash :: "u32 \<Rightarrow> nat" where
  "lz4_hash v56 = unat (drop_bit 20 (v56 * 0x9e3779b1))"

function match_len :: "bytes \<Rightarrow> nat \<Rightarrow> nat \<Rightarrow> nat \<Rightarrow> nat" where
  "match_len src v16 v63 v98 =
     (if v16 + v98 < length src \<and> v63 + v98 < v16 \<and> src ! (v16 + v98) = src ! (v63 + v98)
      then match_len src v16 v63 (v98 + 1) else v98)"
  by pat_completeness auto
termination by (relation "measure (\<lambda>(src, v16, v63, v98). length src - (v16 + v98))") auto

declare match_len.simps [simp del]

text \<open>One sequence: the literals from \<open>v20\<close> to \<open>v16\<close>, then a match of \<open>v98\<close> bytes at distance \<open>v16 - v63\<close>.\<close>

definition emit_match :: "nat \<Rightarrow> bytes \<Rightarrow> nat \<Rightarrow> nat \<Rightarrow> nat \<Rightarrow> nat \<Rightarrow> bytes \<Rightarrow> bytes option" where
  "emit_match m src v20 v16 v63 v98 out =
     (let v114 = v16 - v20; v119 = min v114 15; v128 = min (v98 - 4) 15
      in do {
        out \<leftarrow> emit m (push_bit 4 (of_nat v119) OR of_nat v128) out;
        out \<leftarrow> (if v119 = 15 then emit_ext m (v114 - 15) out else Some out);
        out \<leftarrow> emit_all m (bslice src v20 v114) out;
        out \<leftarrow> (if length out + 2 > m then None else Some (out @ le_put16 (of_nat (v16 - v63))));
        if v128 = 15 then emit_ext m (v98 - 4 - 15) out else Some out
      })"

definition emit_last :: "nat \<Rightarrow> bytes \<Rightarrow> nat \<Rightarrow> bytes \<Rightarrow> bytes option" where
  "emit_last m src v20 out =
     (let v207 = length src - v20; v213 = min v207 15
      in if v207 > 0 then do {
           out \<leftarrow> emit m (push_bit 4 (of_nat v213)) out;
           out \<leftarrow> (if v213 = 15 then emit_ext m (v207 - 15) out else Some out);
           emit_all m (bslice src v20 v207) out
         }
         else Some out)"

lemma match_len_ge: "v98 \<le> match_len src v16 v63 v98"
  by (induction src v16 v63 v98 rule: match_len.induct) (subst match_len.simps, auto)

text \<open>The table gives an earlier position in reach with the same four bytes.\<close>

definition lz4_candidate :: "bytes \<Rightarrow> nat \<Rightarrow> int \<Rightarrow> bool" where
  "lz4_candidate src v16 v63 \<longleftrightarrow>
     v63 \<ge> 0 \<and> int v16 - v63 < 0x10000 \<and> v63 + 4 \<le> int (length src) \<and> lz4_read32 src v16 = lz4_read32 src (nat v63)"

lemma match_len_pos: "0 < match_len src v16 v63 4"
  using match_len_ge [of 4 src v16 v63] by simp

function comp_loop :: "bytes \<Rightarrow> nat \<Rightarrow> nat \<Rightarrow> nat \<Rightarrow> int list \<Rightarrow> bytes \<Rightarrow> bytes option" where
  "comp_loop src m v16 v20 v22 out =
     (if v16 + 4 \<le> length src then
        let v56 = lz4_read32 src v16;
            v61 = lz4_hash v56;
            v63 = v22 ! v61;
            v22 = v22[v61 := int v16]
        in if lz4_candidate src v16 v63 then
             (let v98 = match_len src v16 (nat v63) 4
              in do {
                out \<leftarrow> emit_match m src v20 v16 (nat v63) v98 out;
                comp_loop src m (v16 + v98) (v16 + v98) v22 out
              })
           else comp_loop src m (v16 + 1) v20 v22 out
      else emit_last m src v20 out)"
  by pat_completeness auto
termination
  by (relation "measure (\<lambda>(src, m, v16, v20, v22, out). length src - v16)")
    (simp_all add: match_len_pos diff_less_mono2)

declare comp_loop.simps [simp del]

definition Lz4_compress_fast :: "bytes \<Rightarrow> nat \<Rightarrow> bytes option" where
  "Lz4_compress_fast src dst_max_len =
     (if src = [] \<or> dst_max_len = 0 then None else comp_loop src dst_max_len 0 0 (replicate 4096 (-1)) [])"

text \<open>The bytes written to a buffer of \<open>m\<close> bytes, or None where the code returns 0.\<close>

definition Compress :: "bytes \<Rightarrow> nat \<Rightarrow> bytes option" where
  "Compress src m = (if src = [] \<or> m = 0 then None else Lz4_compress_fast src m)"

section \<open>No input makes the decompressor fail\<close>

text \<open>The copy stays within the buffer and reads only bytes in front of the place it writes.\<close>

lemma match_copy_det:
  "0 < off \<Longrightarrow> off \<le> v20 \<Longrightarrow> v20 + k \<le> length dst \<Longrightarrow> length dst2 = length dst \<Longrightarrow> take v20 dst2 = take v20 dst \<Longrightarrow>
   \<exists>d d2. match_copy dst v20 off k = Some d \<and> match_copy dst2 v20 off k = Some d2 \<and> length d = length dst \<and>
     length d2 = length dst \<and> take (v20 + k) d2 = take (v20 + k) d"
proof (induction k arbitrary: v20 dst dst2)
  case (Suc k)
  let ?d = "dst[v20 := dst ! (v20 - off)]" and ?d2 = "dst2[v20 := dst2 ! (v20 - off)]"
  have "dst2 ! (v20 - off) = dst ! (v20 - off)" using Suc.prems by (metis diff_less less_le_trans nth_take)
  then have "take (Suc v20) ?d2 = take (Suc v20) ?d" using Suc.prems by (simp add: take_Suc_conv_app_nth)
  then show ?case using Suc.IH [of "Suc v20" ?d ?d2] Suc.prems by (auto simp: go_get_def go_set_def)
qed simp

text \<open>What one turn of the loop does once its literals fit.\<close>

lemma dec_loop_step:
  assumes "v18 < length src" "run_len 15 src (v18 + 1) (unat (drop_bit 4 (src ! v18) AND 15)) = Some (p, l)"
    "v20 + l \<le> length dst" "p + l \<le> length src"
  shows "dec_loop src v18 v20 dst =
    (let d = put_at dst v20 (bslice src p l); off = unat (le_get16 (drop (p + l) src));
         (p2, n) = the (run_len 19 src (p + l + 2) (unat ((src ! v18 AND 15) + 4)))
     in if p + l \<ge> length src then Some (int (v20 + l), d)
        else if p + l + 2 > length src then Some (-3, d)
        else if off = 0 \<or> off > v20 + l then Some (-4, d)
        else if v20 + l + n > length dst then Some (-5, d)
        else do { d \<leftarrow> match_copy d (v20 + l) off n; dec_loop src p2 (v20 + l + n) d })"
proof -
  obtain p2 n where pn: "run_len 19 src (p + l + 2) (unat ((src ! v18 AND 15) + 4)) = Some (p2, n)" using run_len_total by blast
  have cp: "copy_up dst v20 src p 0 l = Some (put_at dst v20 (bslice src p l))" using assms by (simp add: copy_up_0)
  have off: "le_get16 (drop (p + l) src) = ucast (src ! (p + l)) OR push_bit 8 (ucast (src ! Suc (p + l)))" if "p + l + 2 \<le> length src"
    using that by (simp add: le_get16_def)
  show ?thesis
    using assms(1,3,4) cp pn assms(2) off unfolding dec_loop.simps [of src v18 v20 dst] Let_def by (simp add: go_get_def)
qed

lemma take_put_eq:
  assumes "take v dst2 = take v dst" "v + k \<le> length dst" "length dst2 = length dst" "length xs = k"
  shows "take (v + k) (put_at dst2 v xs) = take (v + k) (put_at dst v xs)"
proof (rule nth_equalityI)
  fix i assume "i < length (take (v + k) (put_at dst2 v xs))"
  then have i: "i < v + k" using assms by simp
  have "i < v \<Longrightarrow> dst2 ! i = dst ! i" using assms(1) by (metis nth_take)
  then show "take (v + k) (put_at dst2 v xs) ! i = take (v + k) (put_at dst v xs) ! i" using i assms by (simp add: put_at_nth)
qed (use assms in simp)

lemma dec_loop_det:
  "v20 \<le> length dst \<Longrightarrow> length dst2 = length dst \<Longrightarrow> take v20 dst2 = take v20 dst \<Longrightarrow>
   \<exists>r d d2. dec_loop src v18 v20 dst = Some (r, d) \<and> dec_loop src v18 v20 dst2 = Some (r, d2) \<and>
     length d = length dst \<and> r \<le> int (length dst) \<and> take (nat r) d2 = take (nat r) d"
proof (induction "length src - v18" arbitrary: v18 v20 dst dst2 rule: less_induct)
  case less
  show ?case
  proof (cases "v18 < length src")
    case False then show ?thesis using less.prems by (simp add: dec_loop.simps [of src v18])
  next
    case v18: True
    obtain p l where pl: "run_len 15 src (v18 + 1) (unat (drop_bit 4 (src ! v18) AND 15)) = Some (p, l)" using run_len_total by blast
    show ?thesis
    proof (cases "v20 + l \<le> length dst \<and> p + l \<le> length src")
      case False then show ?thesis using v18 pl less.prems by (auto simp: dec_loop.simps [of src v18] go_get_def)
    next
      case fit: True
      obtain p2 n where pn: "run_len 19 src (p + l + 2) (unat ((src ! v18 AND 15) + 4)) = Some (p2, n)" using run_len_total by blast
      let ?d = "put_at dst v20 (bslice src p l)" and ?d2 = "put_at dst2 v20 (bslice src p l)"
      let ?off = "unat (le_get16 (drop (p + l) src))"
      have eq: "take (v20 + l) ?d2 = take (v20 + l) ?d" by (rule take_put_eq) (use fit less.prems in auto)
      have fit2: "v20 + l \<le> length dst2" using fit less.prems(2) by simp
      note st = dec_loop_step [OF v18 pl conjunct1 [OF fit] conjunct2 [OF fit], unfolded pn Let_def option.sel split_conv]
        dec_loop_step [OF v18 pl fit2 conjunct2 [OF fit], unfolded pn Let_def option.sel split_conv]
      show ?thesis
      proof (cases "p + l + 2 \<le> length src \<and> 0 < ?off \<and> ?off \<le> v20 + l \<and> v20 + l + n \<le> length dst")
        case False then show ?thesis unfolding st using fit eq less.prems(2) by (auto simp: nat_add_distrib simp flip: of_nat_add)
      next
        case go: True
        obtain d d2 where d: "match_copy ?d (v20 + l) ?off n = Some d" "match_copy ?d2 (v20 + l) ?off n = Some d2"
          "length d = length ?d" "length d2 = length ?d" "take (v20 + l + n) d2 = take (v20 + l + n) d"
          using match_copy_det [of ?off "v20 + l" n ?d ?d2] go eq less.prems(2) by auto
        have "length src - p2 < length src - v18" using run_len_ge [OF pl] run_len_ge [OF pn] v18 by linarith
        then show ?thesis unfolding st using less.hyps [of p2 "v20 + l + n" d d2] go d less.prems(2) by auto
      qed
    qed
  qed
qed

section \<open>Compressed data decompresses\<close>

fun ext_bytes :: "nat \<Rightarrow> bytes" where
  "ext_bytes v = (if v \<ge> 255 then 0xff # ext_bytes (v - 255) else [of_nat v])"

declare ext_bytes.simps [simp del]

lemma emit_Some: "emit m b out = Some out' \<longleftrightarrow> length out < m \<and> out' = out @ [b]"
  by (auto simp: emit_def)

lemma emit_all_Some: "emit_all m bs out = Some out' \<Longrightarrow> length out \<le> m \<Longrightarrow> out' = out @ bs \<and> length out' \<le> m"
  by (induction bs arbitrary: out) (fastforce simp: emit_Some split: bind_splits)+

lemma emit_ext_Some: "emit_ext m v out = Some out' \<Longrightarrow> out' = out @ ext_bytes v \<and> length out' \<le> m"
proof (induction m v out rule: emit_ext.induct)
  case (1 m v out)
  show ?case
  proof (cases "v \<ge> 255")
    case True
    then have "length out < m" "emit_ext m (v - 255) (out @ [0xff]) = Some out'"
      using "1.prems" by (auto simp: emit_ext.simps [of m v] emit_Some split: bind_splits)
    then show ?thesis using "1.IH" [OF True, of "out @ [0xff]"] True by (auto simp: emit_Some ext_bytes.simps [of v])
  next
    case False
    then show ?thesis using "1.prems" by (auto simp: emit_ext.simps [of m v] emit_Some ext_bytes.simps [of v])
  qed
qed

lemma read_ext_bytes: "read_ext (pre @ ext_bytes v @ post) (length pre) acc = Some (length pre + length (ext_bytes v), acc + v)"
proof (induction v arbitrary: pre acc rule: ext_bytes.induct)
  case (1 v)
  show ?case
  proof (cases "v \<ge> 255")
    case True
    have "unat (0xff :: byte) = 255" by simp
    then show ?thesis using "1.IH" [OF True, of "pre @ [0xff]" "acc + 255"] True
      by (simp add: ext_bytes.simps [of v] read_ext_step)
  next
    case False
    have u: "unat (of_nat v :: byte) = v" using False by (simp add: unat_of_nat take_bit_nat_eq_self)
    then have "(of_nat v :: byte) \<noteq> 0xff" using False by auto
    then show ?thesis using u False by (simp add: ext_bytes.simps [of v] read_ext_step)
  qed
qed

definition ext :: "nat \<Rightarrow> nat \<Rightarrow> bytes" where
  "ext full n = (if n \<ge> full then ext_bytes (n - full) else [])"

lemma run_len_ext:
  assumes "src = pre @ ext full n @ post" "q = length pre"
  shows "run_len full src q (min n full) = Some (q + length (ext full n), n)"
  using assms read_ext_bytes [of pre "n - full" post full] by (auto simp: run_len_def ext_def min_def)

definition seq_head :: "nat \<Rightarrow> nat \<Rightarrow> byte" where
  "seq_head a b = push_bit 4 (of_nat a) OR of_nat b"

lemma seq_head_nibbles:
  assumes "a < 16" "b < 16"
  shows "unat (drop_bit 4 (seq_head a b) AND 15) = a" "unat ((seq_head a b AND 15) + 4) = b + 4"
proof -
  have m: "(15 :: byte) = mask 4" by (simp add: mask_eq_exp_minus_1)
  have ta: "take_bit 4 (of_nat a :: byte) = of_nat a" and tb: "take_bit 4 (of_nat b :: byte) = of_nat b"
    using assms by (simp_all add: take_bit_of_nat take_bit_nat_eq_self)
  have hi: "drop_bit 4 (seq_head a b) = of_nat a"
  proof (rule bit_word_eqI)
    fix n assume "n < LENGTH(8)"
    have "bit (of_nat a :: byte) n \<Longrightarrow> n < 4" "bit (of_nat b :: byte) (4 + n) \<Longrightarrow> False"
      using ta tb by (metis bit_take_bit_iff, metis bit_take_bit_iff not_add_less1)
    then show "bit (drop_bit 4 (seq_head a b)) n = bit (of_nat a :: byte) n" by (auto simp: seq_head_def bit_simps)
  qed
  have lo: "seq_head a b AND 15 = of_nat b"
    unfolding m by (subst tb [symmetric]) (rule bit_word_eqI, auto simp: seq_head_def bit_simps)
  have "unat (of_nat k :: byte) = k" if "k < 256" for k using that by (simp add: unat_of_nat take_bit_nat_eq_self)
  from this [of a] this [of "b + 4"] have u: "unat (of_nat a :: byte) = a" "unat (of_nat (b + 4) :: byte) = b + 4" using assms by simp_all
  show "unat (drop_bit 4 (seq_head a b) AND 15) = a" unfolding hi m using ta u by (simp flip: take_bit_eq_mask)
  show "unat ((seq_head a b AND 15) + 4) = b + 4" unfolding lo using u(2) by simp
qed

definition seq_bytes :: "bytes \<Rightarrow> nat \<Rightarrow> nat \<Rightarrow> bytes" where
  "seq_bytes lits off mlen = seq_head (min (length lits) 15) (min (mlen - 4) 15) # ext 15 (length lits) @ lits @
     le_put16 (of_nat off) @ ext 19 mlen"

definition last_bytes :: "bytes \<Rightarrow> bytes" where
  "last_bytes lits = seq_head (min (length lits) 15) 0 # ext 15 (length lits) @ lits"

lemma emit_match_Some:
  assumes "emit_match m src v20 v16 v63 v98 out = Some out'" "v20 \<le> v16" "v16 \<le> length src" "4 \<le> v98"
  shows "out' = out @ seq_bytes (bslice src v20 (v16 - v20)) (v16 - v63) v98 \<and> length out' \<le> m"
proof -
  let ?n = "v16 - v20" and ?lits = "bslice src v20 (v16 - v20)"
  have ln: "length ?lits = ?n" using assms(2,3) by simp
  let ?o = "le_put16 (of_nat (v16 - v63))"
  obtain o1 o2 o3 o4 where e: "emit m (seq_head (min ?n 15) (min (v98 - 4) 15)) out = Some o1"
    "(if min ?n 15 = 15 then emit_ext m (?n - 15) o1 else Some o1) = Some o2" "emit_all m ?lits o2 = Some o3"
    "(if length o3 + 2 > m then None else Some (o3 @ ?o)) = Some o4"
    "(if min (v98 - 4) 15 = 15 then emit_ext m (v98 - 4 - 15) o4 else Some o4) = Some out'"
    using assms(1) unfolding emit_match_def Let_def seq_head_def Option.bind_eq_Some_conv by blast
  have o1: "o1 = out @ [seq_head (min ?n 15) (min (v98 - 4) 15)]" "length o1 \<le> m" using e(1) by (auto simp: emit_Some)
  have o2: "o2 = o1 @ ext 15 ?n" "length o2 \<le> m"
    using e(2) emit_ext_Some [of m "?n - 15" o1] o1(2) by (auto simp: ext_def min_def split: if_splits)
  have o3: "o3 = o2 @ ?lits" using emit_all_Some [OF e(3) o2(2)] by simp
  have o4: "o4 = o3 @ ?o" "length o4 \<le> m" using e(4) by (auto split: if_splits)
  have o5: "out' = o4 @ ext 19 v98" "length out' \<le> m"
    using e(5) assms(4) emit_ext_Some [of m "v98 - 4 - 15" o4] o4(2) by (auto simp: ext_def min_def split: if_splits)
  show ?thesis using o5 o4(1) o3 o2(1) o1(1) ln by (auto simp: seq_bytes_def)
qed

lemma emit_last_Some:
  assumes "emit_last m src v20 out = Some out'" "v20 \<le> length src" "length out \<le> m"
  shows "out' = out @ (if v20 < length src then last_bytes (drop v20 src) else []) \<and> length out' \<le> m"
proof (cases "v20 < length src")
  case False then show ?thesis using assms by (simp add: emit_last_def)
next
  case True
  let ?n = "length src - v20"
  obtain o1 o2 where e: "emit m (seq_head (min ?n 15) 0) out = Some o1"
    "(if min ?n 15 = 15 then emit_ext m (?n - 15) o1 else Some o1) = Some o2" "emit_all m (bslice src v20 ?n) o2 = Some out'"
    using assms(1) True unfolding emit_last_def Let_def seq_head_def by (auto split: bind_splits if_splits)
  have o1: "o1 = out @ [seq_head (min ?n 15) 0]" "length o1 \<le> m" using e(1) by (auto simp: emit_Some)
  have o2: "o2 = o1 @ ext 15 ?n" "length o2 \<le> m"
    using e(2) emit_ext_Some [of m "?n - 15" o1] o1(2) by (auto simp: ext_def min_def split: if_splits)
  show ?thesis using emit_all_Some [OF e(3) o2(2)] o2(1) o1(1) True by (auto simp: last_bytes_def bslice_def)
qed

lemma lits_head:
  assumes "fin = pre @ (seq_head (min (length lits) 15) b # ext 15 (length lits) @ lits) @ post" "b < 16"
  shows "length pre < length fin" "fin ! length pre = seq_head (min (length lits) 15) b"
    "run_len 15 fin (length pre + 1) (unat (drop_bit 4 (fin ! length pre) AND 15)) = Some (length pre + 1 + length (ext 15 (length lits)), length lits)"
    "bslice fin (length pre + 1 + length (ext 15 (length lits))) (length lits) = lits"
    "length pre + 1 + length (ext 15 (length lits)) + length lits \<le> length fin"
proof -
  let ?t = "seq_head (min (length lits) 15) b"
  show "length pre < length fin" "length pre + 1 + length (ext 15 (length lits)) + length lits \<le> length fin" by (simp_all add: assms(1))
  show t: "fin ! length pre = ?t" by (simp add: assms(1) nth_append)
  have "fin = (pre @ [?t]) @ ext 15 (length lits) @ (lits @ post)" by (simp add: assms(1))
  from run_len_ext [OF this refl]
  show "run_len 15 fin (length pre + 1) (unat (drop_bit 4 (fin ! length pre) AND 15)) = Some (length pre + 1 + length (ext 15 (length lits)), length lits)"
    unfolding t using seq_head_nibbles(1) [of "min (length lits) 15" b] assms(2) by simp
  show "bslice fin (length pre + 1 + length (ext 15 (length lits))) (length lits) = lits" by (simp add: assms(1) bslice_def)
qed

lemma dec_last:
  assumes "fin = pre @ last_bytes lits" "v20 + length lits \<le> length dst"
  shows "dec_loop fin (length pre) v20 dst = Some (int (v20 + length lits), put_at dst v20 lits)"
proof -
  have f: "fin = pre @ (seq_head (min (length lits) 15) 0 # ext 15 (length lits) @ lits) @ []" using assms(1) by (simp add: last_bytes_def)
  note h = lits_head [OF f]
  have "length fin = length pre + 1 + length (ext 15 (length lits)) + length lits" by (simp add: f)
  then show ?thesis using dec_loop_step [OF h(1) h(3) assms(2) h(5)] h(4) by (simp add: Let_def split_beta)
qed

lemma dec_seq:
  assumes fin: "fin = pre @ seq_bytes lits off mlen @ post" and len: "v20 + length lits + mlen \<le> length dst"
    and off: "0 < off" "off \<le> v20 + length lits" "off < 65536" and mlen: "4 \<le> mlen"
  shows "dec_loop fin (length pre) v20 dst =
    do { d \<leftarrow> match_copy (put_at dst v20 lits) (v20 + length lits) off mlen;
         dec_loop fin (length pre + length (seq_bytes lits off mlen)) (v20 + length lits + mlen) d }"
proof -
  let ?b = "min (mlen - 4) 15" and ?o = "le_put16 (of_nat off)"
  let ?p = "length pre + 1 + length (ext 15 (length lits))"
  have f: "fin = pre @ (seq_head (min (length lits) 15) ?b # ext 15 (length lits) @ lits) @ (?o @ ext 19 mlen @ post)"
    using fin by (simp add: seq_bytes_def)
  have b: "?b < 16" by simp
  note h = lits_head [OF f b]
  have d: "drop (?p + length lits) fin = ?o @ ext 19 mlen @ post" by (simp add: f)
  have "unat (of_nat off :: u16) = off" using off(3) by (simp add: unat_of_nat take_bit_nat_eq_self)
  then have o: "unat (le_get16 (drop (?p + length lits) fin)) = off" unfolding d by simp
  have g: "fin = (pre @ (seq_head (min (length lits) 15) ?b # ext 15 (length lits) @ lits) @ ?o) @ ext 19 mlen @ post" by (simp add: f)
  have "?b + 4 = min mlen 19" using mlen by auto
  then have nb: "unat ((seq_head (min (length lits) 15) ?b AND 15) + 4) = min mlen 19"
    using seq_head_nibbles(2) [of "min (length lits) 15" ?b] by simp
  have r: "run_len 19 fin (?p + length lits + 2) (unat ((fin ! length pre AND 15) + 4)) = Some (?p + length lits + 2 + length (ext 19 mlen), mlen)"
    unfolding h(2) nb using run_len_ext [OF g, of "?p + length lits + 2"] by simp
  have l: "?p + length lits + 2 \<le> length fin" by (simp add: f)
  have e: "?p + length lits + 2 + length (ext 19 mlen) = length pre + length (seq_bytes lits off mlen)" by (simp add: seq_bytes_def)
  have "v20 + length lits \<le> length dst" using len by simp
  from dec_loop_step [OF h(1) h(3) this h(5)] show ?thesis
    unfolding r h(4) o Let_def option.sel split_conv e using l off(1,2) len by simp
qed

lemma match_copy_src:
  "0 < off \<Longrightarrow> off \<le> v \<Longrightarrow> v + k \<le> length src \<Longrightarrow> length src \<le> length dst \<Longrightarrow> take v dst = take v src \<Longrightarrow>
   (\<And>i. i < k \<Longrightarrow> src ! (v + i) = src ! (v + i - off)) \<Longrightarrow>
   \<exists>d. match_copy dst v off k = Some d \<and> take (v + k) d = take (v + k) src \<and> length d = length dst"
proof (induction k arbitrary: v dst)
  case (Suc k)
  let ?d = "dst[v := dst ! (v - off)]"
  have "dst ! (v - off) = src ! (v - off)" using Suc.prems by (metis diff_less less_le_trans nth_take)
  also have "\<dots> = src ! v" using Suc.prems(6) [of 0] by simp
  finally have x: "?d = dst[v := src ! v]" by simp
  have t: "take (Suc v) ?d = take (Suc v) src" unfolding x using Suc.prems by (simp add: take_Suc_conv_app_nth)
  have "src ! (Suc v + i) = src ! (Suc v + i - off)" if "i < k" for i using Suc.prems(6) [of "Suc i"] that by simp
  then obtain d where "match_copy ?d (Suc v) off k = Some d" "take (Suc v + k) d = take (Suc v + k) src" "length d = length ?d"
    using Suc.IH [of "Suc v" ?d] Suc.prems t by auto
  then show ?case using Suc.prems by (simp add: go_get_def go_set_def)
qed simp

lemma match_len_sound:
  "(\<And>i. i < k \<Longrightarrow> src ! (v16 + i) = src ! (v63 + i)) \<Longrightarrow> v16 + k \<le> length src \<Longrightarrow>
   v16 + match_len src v16 v63 k \<le> length src \<and> (\<forall>i < match_len src v16 v63 k. src ! (v16 + i) = src ! (v63 + i))"
proof (induction src v16 v63 k rule: match_len.induct)
  case (1 src v16 v63 k)
  show ?case
  proof (cases "v16 + k < length src \<and> v63 + k < v16 \<and> src ! (v16 + k) = src ! (v63 + k)")
    case True
    have "src ! (v16 + i) = src ! (v63 + i)" if "i < k + 1" for i using that True "1.prems"(1) by (cases "i = k") auto
    then show ?thesis using "1.IH" [OF True] True by (subst (1 2) match_len.simps) simp
  next
    case False then show ?thesis using "1.prems" by (subst (1 2) match_len.simps) auto
  qed
qed

lemma read32_eq:
  assumes "lz4_read32 src a = lz4_read32 src b" "a + 4 \<le> length src" "b + 4 \<le> length src" "i < 4"
  shows "src ! (a + i) = src ! (b + i)"
proof -
  have e: "le_put32 (le_get32 (drop k src)) = bslice src k 4" if "k + 4 \<le> length src" for k
  proof -
    have "le_get32 (drop k src) = of_le (bslice src k 4)"
      using list4_nth [of "bslice src k 4"] that by (simp only: le_get32_of_le) (simp add: bslice_def)
    then show ?thesis using to_le_of_le [of "bslice src k 4", where 'a = 32] that by (simp add: le_put32_to_le)
  qed
  have "bslice src a 4 = bslice src b 4" using e [OF assms(2)] e [OF assms(3)] assms(1) by (simp add: lz4_read32_def)
  then have "bslice src a 4 ! i = bslice src b 4 ! i" by simp
  then show ?thesis using assms by simp
qed

lemma lz4_hash_less: "lz4_hash w < 4096"
proof -
  have "unat (w * 0x9e3779b1) div 2 ^ 20 < 2 ^ 12" using u32_less [of "w * 0x9e3779b1"] by (simp add: less_mult_imp_div_less)
  then show ?thesis by (simp add: lz4_hash_def unat_shr)
qed

lemma take_put_lits:
  assumes "take v20 dst = take v20 src" "v20 \<le> v16" "v16 \<le> length src" "length src \<le> length dst"
  shows "take v16 (put_at dst v20 (bslice src v20 (v16 - v20))) = take v16 src"
proof (rule nth_equalityI)
  fix i assume "i < length (take v16 (put_at dst v20 (bslice src v20 (v16 - v20))))"
  then have i: "i < v16" using assms by simp
  show "take v16 (put_at dst v20 (bslice src v20 (v16 - v20))) ! i = take v16 src ! i"
  proof (cases "i < v20")
    case True
    then have "dst ! i = src ! i" using assms(1) by (metis nth_take)
    then show ?thesis using True i assms by (simp add: put_at_nth)
  next
    case False then show ?thesis using i assms by (simp add: put_at_nth)
  qed
qed (use assms in simp)

text \<open>From any state of the compressor, what it adds to the output takes a decompressor that has the first
  \<open>v20\<close> bytes to the whole input.\<close>

definition decodes :: "bytes \<Rightarrow> bytes \<Rightarrow> nat \<Rightarrow> nat \<Rightarrow> bool" where
  "decodes fin src v18 v20 \<longleftrightarrow> (\<forall>dst. length src \<le> length dst \<longrightarrow> take v20 dst = take v20 src \<longrightarrow>
     (\<exists>dst'. dec_loop fin v18 v20 dst = Some (int (length src), dst') \<and> take (length src) dst' = src))"

lemma decodes_last:
  assumes "emit_last m src v20 out = Some fin" "v20 \<le> length src" "length out \<le> m"
  shows "(\<exists>rest. fin = out @ rest) \<and> length fin \<le> m \<and> decodes fin src (length out) v20"
proof -
  note e = emit_last_Some [OF assms]
  have "decodes fin src (length out) v20"
    unfolding decodes_def
  proof (intro allI impI)
    fix dst assume d: "length src \<le> length dst" "take v20 dst = take v20 src"
    show "\<exists>dst'. dec_loop fin (length out) v20 dst = Some (int (length src), dst') \<and> take (length src) dst' = src"
    proof (cases "v20 < length src")
      case False
      then show ?thesis using e d assms(2) by (intro exI [of _ dst]) (subst dec_loop.simps, auto)
    next
      case True
      have f: "fin = out @ last_bytes (drop v20 src)" using e True by simp
      have "take (length src) (put_at dst v20 (drop v20 src)) = src"
        using take_put_lits [OF d(2) assms(2) order_refl d(1)] by (simp add: bslice_def)
      then show ?thesis using dec_last [OF f, of v20 dst] d True by simp
    qed
  qed
  then show ?thesis using e by blast
qed

lemma comp_loop_decodes:
  "comp_loop src m v16 v20 v22 out = Some fin \<Longrightarrow> v20 \<le> v16 \<Longrightarrow> v16 \<le> length src \<Longrightarrow> length out \<le> m \<Longrightarrow>
   length v22 = 4096 \<Longrightarrow> (\<forall>x \<in> set v22. x < int v16) \<Longrightarrow>
   (\<exists>rest. fin = out @ rest) \<and> length fin \<le> m \<and> decodes fin src (length out) v20"
proof (induction "length src - v16" arbitrary: v16 v20 v22 out rule: less_induct)
  case less
  show ?case
  proof (cases "v16 + 4 \<le> length src")
    case False
    then have "emit_last m src v20 out = Some fin" using less.prems(1) by (simp add: comp_loop.simps [of src m v16])
    from decodes_last [OF this _ less.prems(4)] less.prems show ?thesis by simp
  next
    case four: True
    let ?h = "lz4_hash (lz4_read32 src v16)"
    let ?v63 = "v22 ! ?h" and ?t = "v22[?h := int v16]"
    have h: "?h < length v22" using less.prems(5) lz4_hash_less by simp
    have tab: "\<forall>x \<in> set ?t. x < int (v16 + k)" if "0 < k" for k
      using less.prems(6) that by (auto dest!: set_update_subset_insert [THEN subsetD])
    show ?thesis
    proof (cases "lz4_candidate src v16 ?v63")
      case False
      then have "comp_loop src m (v16 + 1) v20 ?t out = Some fin" using less.prems(1) four by (simp add: comp_loop.simps [of src m v16] Let_def)
      then show ?thesis using less.hyps [of "v16 + 1" v20 ?t out] less.prems four tab [of 1] by simp
    next
      case cand: True
      let ?c = "nat ?v63"
      define k where "k = match_len src v16 ?c 4"
      have c: "0 \<le> ?v63" "int v16 - ?v63 < 65536" "?v63 + 4 \<le> int (length src)" "lz4_read32 src v16 = lz4_read32 src ?c"
        using cand by (auto simp: lz4_candidate_def)
      have lt: "?v63 < int v16" using less.prems(6) h by auto
      obtain o2 where em: "emit_match m src v20 v16 ?c k out = Some o2" and rec: "comp_loop src m (v16 + k) (v16 + k) ?t o2 = Some fin"
        using less.prems(1) four cand by (auto simp: comp_loop.simps [of src m v16] Let_def k_def split: bind_splits)
      have k4: "4 \<le> k" unfolding k_def by (rule match_len_ge)
      have ml: "v16 + k \<le> length src \<and> (\<forall>i < k. src ! (v16 + i) = src ! (?c + i))"
        unfolding k_def using match_len_sound [of 4 src v16 ?c] read32_eq [OF c(4) four] c(1,3) four by (simp add: nat_add_distrib le_nat_iff)
      let ?lits = "bslice src v20 (v16 - v20)" and ?off = "v16 - ?c"
      note o2 = emit_match_Some [OF em less.prems(2,3) k4]
      have dec: "(\<exists>rest. fin = o2 @ rest) \<and> length fin \<le> m \<and> decodes fin src (length o2) (v16 + k)"
      proof (rule less.hyps [OF _ rec order_refl])
        show "length src - (v16 + k) < length src - v16" using four k4 by simp
        show "length o2 \<le> m" using o2 by blast
        show "v16 + k \<le> length src" "length ?t = 4096" using ml less.prems(5) by simp_all
        show "\<forall>x \<in> set ?t. x < int (v16 + k)" using k4 by (intro tab) simp
      qed
      then obtain rest where fin: "fin = o2 @ rest" by blast
      have ll: "v20 + length ?lits = v16" using less.prems(2,3) by simp
      have off: "0 < ?off" "?off \<le> v16" "?off < 65536" "v16 + i - ?off = ?c + i" for i using lt c(1,2) by auto
      have "decodes fin src (length out) v20"
        unfolding decodes_def
      proof (intro allI impI)
        fix dst assume d: "length src \<le> length dst" "take v20 dst = take v20 src"
        have f: "fin = out @ seq_bytes ?lits ?off k @ rest" using fin o2 by simp
        note t = take_put_lits [OF d(2) less.prems(2,3) d(1)]
        obtain d2 where d2: "match_copy (put_at dst v20 ?lits) v16 ?off k = Some d2" "take (v16 + k) d2 = take (v16 + k) src" "length d2 = length dst"
          using match_copy_src [OF off(1,2) _ _ t, of k] ml off(4) d(1) by auto
        have "dec_loop fin (length out) v20 dst = dec_loop fin (length o2) (v16 + k) d2"
          using dec_seq [OF f, of v20 dst] ll off(1-3) k4 ml d(1) d2(1) o2 by simp
        then show "\<exists>dst'. dec_loop fin (length out) v20 dst = Some (int (length src), dst') \<and> take (length src) dst' = src"
          using dec d2(2,3) d(1) by (simp add: decodes_def)
      qed
      then show ?thesis using dec fin o2 by auto
    qed
  qed
qed

section \<open>The compressor needs at most twice its input\<close>

lemma ext_bytes_length: "length (ext_bytes v) = v div 255 + 1"
proof (induction v rule: ext_bytes.induct)
  case (1 v)
  show ?case
  proof (cases "v \<ge> 255")
    case True
    then have "v div 255 = Suc ((v - 255) div 255)" by (simp add: le_div_geq)
    then show ?thesis using "1.IH" [OF True] True by (subst ext_bytes.simps) simp
  next
    case False then show ?thesis by (subst ext_bytes.simps) simp
  qed
qed

lemma emit_all_room: "length out + length bs \<le> m \<Longrightarrow> emit_all m bs out = Some (out @ bs)"
  by (induction bs arbitrary: out) (simp_all add: emit_def)

lemma emit_ext_room: "length out + length (ext_bytes v) \<le> m \<Longrightarrow> emit_ext m v out = Some (out @ ext_bytes v)"
proof (induction v arbitrary: out rule: ext_bytes.induct)
  case (1 v)
  show ?case
  proof (cases "v \<ge> 255")
    case True
    then have "ext_bytes v = 0xff # ext_bytes (v - 255)" by (subst ext_bytes.simps) simp
    then show ?thesis using "1.IH" [OF True, of "out @ [0xff]"] "1.prems" True by (subst emit_ext.simps) (simp add: emit_def)
  next
    case False
    then have "ext_bytes v = [of_nat v]" by (subst ext_bytes.simps) simp
    then show ?thesis using "1.prems" False by (subst emit_ext.simps) (simp add: emit_def)
  qed
qed

lemma ext_length: "length (ext full n) = (if n \<ge> full then (n - full) div 255 + 1 else 0)"
  by (simp add: ext_def ext_bytes_length)

lemma emit_match_room:
  assumes "v20 \<le> v16" "v16 \<le> length src" "4 \<le> v98" "length out + length (seq_bytes (bslice src v20 (v16 - v20)) (v16 - v63) v98) \<le> m"
  shows "emit_match m src v20 v16 v63 v98 out = Some (out @ seq_bytes (bslice src v20 (v16 - v20)) (v16 - v63) v98)"
proof -
  let ?n = "v16 - v20" and ?lits = "bslice src v20 (v16 - v20)"
  have ln: "length ?lits = ?n" using assms(1,2) by simp
  let ?o1 = "out @ [seq_head (min ?n 15) (min (v98 - 4) 15)]"
  have len: "length out + 1 + length (ext 15 ?n) + ?n + 2 + length (ext 19 v98) \<le> m" using assms(4) ln by (simp add: seq_bytes_def)
  have e1: "emit m (push_bit 4 (of_nat (min ?n 15)) OR of_nat (min (v98 - 4) 15)) out = Some ?o1" using len by (simp add: emit_def seq_head_def)
  have e2: "(if min ?n 15 = 15 then emit_ext m (?n - 15) ?o1 else Some ?o1) = Some (?o1 @ ext 15 ?n)"
    using len emit_ext_room [of ?o1 "?n - 15" m] by (auto simp: ext_def min_def split: if_splits)
  have e3: "emit_all m ?lits (?o1 @ ext 15 ?n) = Some ((?o1 @ ext 15 ?n) @ ?lits)" by (rule emit_all_room) (use len ln in simp)
  let ?o4 = "((?o1 @ ext 15 ?n) @ ?lits) @ le_put16 (of_nat (v16 - v63))"
  have "min (v98 - 4) 15 = 15 \<longleftrightarrow> 19 \<le> v98" using assms(3) by auto
  then have e5: "(if min (v98 - 4) 15 = 15 then emit_ext m (v98 - 4 - 15) ?o4 else Some ?o4) = Some (?o4 @ ext 19 v98)"
    using len ln emit_ext_room [of ?o4 "v98 - 4 - 15" m] by (auto simp: ext_def split: if_splits)
  have e4: "(if length ((?o1 @ ext 15 ?n) @ ?lits) + 2 > m then None else Some (((?o1 @ ext 15 ?n) @ ?lits) @ le_put16 (of_nat (v16 - v63)))) = Some ?o4"
    using len ln by simp
  show ?thesis unfolding emit_match_def Let_def e1 bind.bind_lunit e2 e3 e4 e5 by (simp add: seq_bytes_def ln del: bslice_length)
qed

lemma ext_short: "0 < full \<Longrightarrow> length (ext full n) \<le> n"
  using div_le_dividend [of "n - full" 255] by (auto simp: ext_length)

lemma seq_bytes_short: "4 \<le> k \<Longrightarrow> length (seq_bytes lits off k) \<le> 2 * (length lits + k)"
  using ext_short [of 15 "length lits"] ext_short [of 19 k] by (simp add: seq_bytes_def)

lemma emit_last_room:
  assumes "v20 < length src" "length out + length (last_bytes (drop v20 src)) \<le> m"
  shows "emit_last m src v20 out = Some (out @ last_bytes (drop v20 src))"
proof -
  let ?n = "length src - v20"
  let ?o1 = "out @ [seq_head (min ?n 15) 0]"
  have len: "length out + 1 + length (ext 15 ?n) + ?n \<le> m" using assms by (simp add: last_bytes_def)
  have e1: "emit m (push_bit 4 (of_nat (min ?n 15))) out = Some ?o1" using len by (simp add: emit_def seq_head_def)
  have e2: "(if min ?n 15 = 15 then emit_ext m (?n - 15) ?o1 else Some ?o1) = Some (?o1 @ ext 15 ?n)"
    using len emit_ext_room [of ?o1 "?n - 15" m] by (auto simp: ext_def min_def split: if_splits)
  have e3: "emit_all m (bslice src v20 ?n) (?o1 @ ext 15 ?n) = Some ((?o1 @ ext 15 ?n) @ drop v20 src)"
    using emit_all_room [of "?o1 @ ext 15 ?n" "drop v20 src" m] len by (simp add: bslice_def)
  show ?thesis unfolding emit_last_def Let_def e1 bind.bind_lunit e2 e3 using assms(1) by (simp add: last_bytes_def)
qed

lemma comp_loop_room:
  "2 * length src + 1 \<le> m \<Longrightarrow> v20 \<le> v16 \<Longrightarrow> v16 \<le> length src \<Longrightarrow> length out \<le> 2 * v20 \<Longrightarrow>
   length v22 = 4096 \<Longrightarrow> (\<forall>x \<in> set v22. x < int v16) \<Longrightarrow> comp_loop src m v16 v20 v22 out \<noteq> None"
proof (induction "length src - v16" arbitrary: v16 v20 v22 out rule: less_induct)
  case less
  show ?case
  proof (cases "v16 + 4 \<le> length src")
    case False
    have "length (last_bytes (drop v20 src)) \<le> 2 * (length src - v20) + 1"
      using ext_short [of 15 "length src - v20"] by (simp add: last_bytes_def)
    then have "emit_last m src v20 out \<noteq> None"
      using emit_last_room [of v20 src out m] less.prems(1-4) by (cases "v20 < length src") (auto simp: emit_last_def)
    then show ?thesis using False by (subst comp_loop.simps) simp
  next
    case four: True
    let ?h = "lz4_hash (lz4_read32 src v16)"
    let ?v63 = "v22 ! ?h" and ?t = "v22[?h := int v16]"
    have tab: "\<forall>x \<in> set ?t. x < int (v16 + k)" if "0 < k" for k
      using less.prems(6) that by (auto dest!: set_update_subset_insert [THEN subsetD])
    show ?thesis
    proof (cases "lz4_candidate src v16 ?v63")
      case False
      have "comp_loop src m (v16 + 1) v20 ?t out \<noteq> None" using less.hyps [of "v16 + 1" v20 out ?t] less.prems four tab [of 1] by simp
      then show ?thesis using four False by (subst comp_loop.simps) (simp add: Let_def)
    next
      case cand: True
      define k where "k = match_len src v16 (nat ?v63) 4"
      have c: "0 \<le> ?v63" "?v63 + 4 \<le> int (length src)" "lz4_read32 src v16 = lz4_read32 src (nat ?v63)"
        using cand by (auto simp: lz4_candidate_def)
      have k4: "4 \<le> k" unfolding k_def by (rule match_len_ge)
      have ml: "v16 + k \<le> length src"
        unfolding k_def using match_len_sound [of 4 src v16 "nat ?v63"] read32_eq [OF c(3) four] c(1,2) four by (simp add: nat_add_distrib le_nat_iff)
      let ?lits = "bslice src v20 (v16 - v20)"
      let ?o2 = "out @ seq_bytes ?lits (v16 - nat ?v63) k"
      have "length (seq_bytes ?lits (v16 - nat ?v63) k) \<le> 2 * (v16 - v20 + k)"
        using seq_bytes_short [OF k4, of ?lits "v16 - nat ?v63"] less.prems(2,3) by simp
      then have o2: "length ?o2 \<le> 2 * (v16 + k)" using less.prems(2,4) by simp
      have em: "emit_match m src v20 v16 (nat ?v63) k out = Some ?o2"
        using emit_match_room [OF less.prems(2,3) k4, of out "nat ?v63" m] o2 ml less.prems(1) by simp
      have "comp_loop src m (v16 + k) (v16 + k) ?t ?o2 \<noteq> None"
      proof (rule less.hyps [OF _ less.prems(1) order_refl ml o2])
        show "length src - (v16 + k) < length src - v16" using four k4 by simp
        show "length ?t = 4096" using less.prems(5) by simp
        show "\<forall>x \<in> set ?t. x < int (v16 + k)" using k4 by (intro tab) simp
      qed
      then show ?thesis using four cand em k_def by (subst comp_loop.simps) (simp add: Let_def)
    qed
  qed
qed

lemma Compress_room: "src \<noteq> [] \<Longrightarrow> 2 * length src + 1 \<le> m \<Longrightarrow> \<exists>packed. Compress src m = Some packed"
  using comp_loop_room [of src m 0 0 "[]" "replicate 4096 (-1)"] by (simp add: Compress_def Lz4_compress_fast_def)

text \<open>
  C20. What the compressor writes into a buffer of \<open>m\<close> bytes fits there, and the decompressor turns it back into
  the input, in any buffer of at least the input's length.
\<close>
theorem Decompress_Compress:
  assumes "Compress src m = Some packed" "length src \<le> length dst"
  shows "length packed \<le> m \<and> (\<exists>dst'. Decompress packed dst = Some (length src, True, dst') \<and> take (length src) dst' = src)"
proof -
  have ne: "src \<noteq> []" and c: "comp_loop src m 0 0 (replicate 4096 (-1)) [] = Some packed"
    using assms(1) by (auto simp: Compress_def Lz4_compress_fast_def split: if_splits)
  note p = comp_loop_decodes [OF c, simplified]
  then obtain dst' where d: "dec_loop packed 0 0 dst = Some (int (length src), dst')" "take (length src) dst' = src"
    using assms(2) by (auto simp: decodes_def)
  have "packed \<noteq> []" using d(1) ne by (auto simp: dec_loop.simps [of "[]"])
  moreover have "dst \<noteq> []" using assms(2) ne by auto
  ultimately show ?thesis using d p by (simp add: Decompress_def Lz4_decompress_safe_def)
qed

text \<open>
  C21. Whatever the input, the decompressor returns: no index is out of range or negative, no byte is written
  outside the destination, and a length it reports lies within it. What it reports, and the bytes it delivers,
  depend on the input alone: two destinations of one length, whatever they held, get the same answer and the
  same bytes, so that no match reads a byte the call has not written.
\<close>
theorem Decompress_safe:
  "\<exists>n ok dst'. Decompress src dst = Some (n, ok, dst') \<and> length dst' = length dst \<and> n \<le> length dst \<and>
     (\<forall>dst2. length dst2 = length dst \<longrightarrow> (\<exists>d2. Decompress src dst2 = Some (n, ok, d2) \<and> take n d2 = take n dst'))"
proof (cases "src = [] \<or> dst = []")
  case True
  then have "Decompress src d = Some (0, False, d)" if "length d = length dst" for d using that by (auto simp: Decompress_def)
  then show ?thesis by (intro exI [of _ 0] exI [of _ False] exI [of _ dst]) simp
next
  case False
  then obtain r d where r: "dec_loop src 0 0 dst = Some (r, d)" "length d = length dst" "r \<le> int (length dst)"
    using dec_loop_det [of 0 dst dst src 0] by auto
  have all: "\<exists>d2. dec_loop src 0 0 dst2 = Some (r, d2) \<and> take (nat r) d2 = take (nat r) d" if "length dst2 = length dst" for dst2
    using dec_loop_det [of 0 dst dst2 src 0] that r by auto
  let ?n = "if r < 0 then 0 else nat r"
  have D: "dec_loop src 0 0 e = Some (r, d') \<Longrightarrow> length e = length dst \<Longrightarrow> Decompress src e = Some (?n, \<not> r < 0, d')" for e d'
    using False by (auto simp: Decompress_def Lz4_decompress_safe_def)
  have "\<exists>d2. Decompress src e = Some (?n, \<not> r < 0, d2) \<and> take ?n d2 = take ?n d" if "length e = length dst" for e
    using all [OF that] D that by fastforce
  moreover have "?n \<le> length dst" using r(3) by (simp add: nat_le_iff)
  ultimately show ?thesis using D [OF r(1) refl] r(2) by blast
qed

text \<open>The two guards at work: a match at distance 0, and an input cut inside the two bytes of a distance.\<close>

theorem Decompress_safe_witness:
  "Decompress [0x10, 7, 0, 0, 0] [1, 2, 3, 4, 5, 6] = Some (0, False, [7, 2, 3, 4, 5, 6]) \<and>
   Decompress [0x10, 7, 1] [1, 2, 3, 4, 5, 6] = Some (0, False, [7, 2, 3, 4, 5, 6]) \<and>
   (\<exists>d2. Decompress [0x10, 7, 1, 0] (replicate 6 9) = Some (5, True, d2) \<and> take 5 d2 = [7, 7, 7, 7, 7])"
proof -
  have a: "Decompress [0x10, 7, 1, 0] [1, 2, 3, 4, 5, 6] = Some (5, True, [7, 7, 7, 7, 7, 6])" by code_simp
  have "Decompress [0x10, 7, 0, 0, 0] [1, 2, 3, 4, 5, 6] = Some (0, False, [7, 2, 3, 4, 5, 6])"
    "Decompress [0x10, 7, 1] [1, 2, 3, 4, 5, 6] = Some (0, False, [7, 2, 3, 4, 5, 6])" by code_simp+
  moreover have "\<exists>d2. Decompress [0x10, 7, 1, 0] (replicate 6 9) = Some (5, True, d2) \<and> take 5 d2 = take 5 [7, 7, 7, 7, 7, 6 :: byte]"
    using Decompress_safe [of "[0x10, 7, 1, 0]" "[1, 2, 3, 4, 5, 6]"] unfolding a by auto
  ultimately show ?thesis by simp
qed

theorem Decompress_Compress_witness:
  "\<exists>packed dst'. Compress [1, 2, 3, 4, 1, 2, 3, 4, 5] 20 = Some packed \<and>
     Decompress packed (replicate 9 0) = Some (9, True, dst') \<and> take 9 dst' = [1, 2, 3, 4, 1, 2, 3, 4, 5]"
proof -
  have "Compress [1, 2, 3, 4, 1, 2, 3, 4, 5] 20 \<noteq> None" by code_simp
  then obtain packed where p: "Compress [1, 2, 3, 4, 1, 2, 3, 4, 5] 20 = Some packed" by blast
  have n: "length [1, 2, 3, 4, 1, 2, 3, 4, 5 :: byte] = 9" by simp
  from Decompress_Compress [OF p, of "replicate 9 0", unfolded n] show ?thesis using p by simp
qed

end
