(* ===== verification/Delta.thy ===== *)
theory Delta
  imports Cas Lz4 Go_Std
begin

text \<open>
  The page deltas of \<^verbatim>\<open>src/pkg/c2db/delta.go\<close>: the blocks of \<open>dst\<close> that differ from \<open>src\<close>, as full blocks
  or, when a content store is given, as hashes of blobs in it, between two CRC-32C checksums; plain or
  compressed with LZ4. The store is an argument that may be nil: the state of the operations is an
  optional \<open>CAS\<close>. The loops take the store's operations as parameters, so that what they need of the
  store can be stated as an interface.
\<close>

datatype delta_error = DPage | DTrunc | DSrcCRC | DDstCRC | DMode | DLBA | DNoCAS | DRef | DCas cas_error | DPanic

definition deltaHdrSize :: nat where [simp]: "deltaHdrSize = 12"
definition deltaLBAMax :: nat where [simp]: "deltaLBAMax = 2 ^ 18"
definition deltaEntHdr :: nat where [simp]: "deltaEntHdr = 5"
definition deltaModeFullPage :: byte where [simp]: "deltaModeFullPage = 0"
definition deltaModeContentRef :: byte where [simp]: "deltaModeContentRef = 2"

definition on_cas :: "(CAS, cas_error, 'a) op \<Rightarrow> (CAS option, delta_error, 'a) op" where
  "on_cas m s = (case s of None \<Rightarrow> (Inl DNoCAS, s)
     | Some c \<Rightarrow> (case m c of (Inl e, c) \<Rightarrow> (Inl (DCas e), Some c) | (Inr x, c) \<Rightarrow> (Inr x, Some c)))"

text \<open>The loop over the blocks \<open>i\<close> to \<open>i + k\<close>; \<open>put\<close> is None when there is no store.\<close>

fun enc_loop :: "(bytes \<Rightarrow> ('s, delta_error, bytes) op) option \<Rightarrow> bytes \<Rightarrow> bytes \<Rightarrow> nat \<Rightarrow> nat \<Rightarrow> nat \<Rightarrow> bytes \<Rightarrow>
    ('s, delta_error, bytes \<times> nat) op" where
  "enc_loop put src dst i 0 n pack = op_ret (pack, n)"
| "enc_loop put src dst i (Suc k) n pack =
     (if bslice src (i * LBASize) LBASize = bslice dst (i * LBASize) LBASize then enc_loop put src dst (Suc i) k n pack
      else case put of
          Some p \<Rightarrow> op_bind (p (bslice dst (i * LBASize) LBASize)) (\<lambda>h.
            enc_loop put src dst (Suc i) k (n + 1) (pack @ le_put32 (of_nat i) @ [deltaModeContentRef] @ h))
        | None \<Rightarrow> enc_loop put src dst (Suc i) k (n + 1)
            (pack @ le_put32 (of_nat i) @ [deltaModeFullPage] @ bslice dst (i * LBASize) LBASize))"

definition EncodeDelta :: "bytes \<Rightarrow> bytes \<Rightarrow> (CAS option, delta_error, bytes) op" where
  "EncodeDelta src dst s =
     (if src = [] \<or> length src mod LBASize \<noteq> 0 \<or> length src \<noteq> length dst then (Inl DPage, s)
      else let lbaCount = length src div LBASize
      in if lbaCount > deltaLBAMax then (Inl DPage, s)
         else op_bind (enc_loop (if s = None then None else Some (\<lambda>b. on_cas (cas_Put b))) src dst 0 lbaCount 0
                (le_put32 (crc32_Checksum src) @ le_put32 (crc32_Checksum dst) @ replicate 4 0))
              (\<lambda>(pack, n). op_ret (put_at pack 8 (le_put32 (of_nat n)))) s)"

text \<open>The loop over the remaining entries, from offset \<open>off\<close> of the pack.\<close>

fun apply_loop :: "(bytes \<Rightarrow> ('s, delta_error, bytes) op) option \<Rightarrow> nat \<Rightarrow> bytes \<Rightarrow> nat \<Rightarrow> nat \<Rightarrow> bytes \<Rightarrow> ('s, delta_error, bytes) op" where
  "apply_loop get lbaCount pack 0 off dst = op_ret dst"
| "apply_loop get lbaCount pack (Suc k) off dst =
     (if off > length pack \<or> length pack - off < deltaEntHdr then op_fail DTrunc
      else let lba = unat (le_get32 (drop off pack)); mode = pack ! (off + 4); off = off + deltaEntHdr
      in if lba \<ge> lbaCount then op_fail DLBA
         else if mode = deltaModeFullPage then
           (if off > length pack \<or> length pack - off < LBASize then op_fail DTrunc
            else apply_loop get lbaCount pack k (off + LBASize) (put_at dst (lba * LBASize) (bslice pack off LBASize)))
         else if mode = deltaModeContentRef then
           (case get of None \<Rightarrow> op_fail DNoCAS
            | Some g \<Rightarrow>
                if off > length pack \<or> length pack - off < casHashSize then op_fail DTrunc
                else op_bind (g (bslice pack off casHashSize)) (\<lambda>got.
                  if length got \<noteq> LBASize then op_fail DRef
                  else apply_loop get lbaCount pack k (off + casHashSize) (put_at dst (lba * LBASize) got)))
         else op_fail DMode)"

definition ApplyDelta :: "bytes \<Rightarrow> bytes \<Rightarrow> (CAS option, delta_error, bytes) op" where
  "ApplyDelta src pack s =
     (if src = [] \<or> length src mod LBASize \<noteq> 0 then (Inl DPage, s)
      else let lbaCount = length src div LBASize
      in if lbaCount > deltaLBAMax then (Inl DPage, s)
         else if length pack < deltaHdrSize then (Inl DTrunc, s)
         else let srcCRC = le_get32 pack; dstCRC = le_get32 (drop 4 pack); n = unat (le_get32 (drop 8 pack))
           in if crc32_Checksum src \<noteq> srcCRC then (Inl DSrcCRC, s)
              else op_bind (apply_loop (if s = None then None else Some (\<lambda>h. on_cas (cas_Get h))) lbaCount pack n deltaHdrSize src)
                (\<lambda>dst. if crc32_Checksum dst \<noteq> dstCRC then op_fail DDstCRC else op_ret dst) s)"

definition EncodeDeltaLZ4 :: "bytes \<Rightarrow> bytes \<Rightarrow> (CAS option, delta_error, bytes) op" where
  "EncodeDeltaLZ4 src dst = op_bind (EncodeDelta src dst) (\<lambda>pack s.
     case Compress pack (length pack * 2 + 65536) of
       None \<Rightarrow> (Inl DPage, s)
     | Some z \<Rightarrow> if z = [] then (Inl DPage, s) else (Inr (le_put32 (of_nat (length pack)) @ z), s))"

definition ApplyDeltaLZ4 :: "bytes \<Rightarrow> bytes \<Rightarrow> (CAS option, delta_error, bytes) op" where
  "ApplyDeltaLZ4 src packed s =
     (if length packed < 4 then (Inl DTrunc, s)
      else let rawLen = unat (le_get32 packed)
      in if rawLen = 0 then (Inl DTrunc, s)
         else case Decompress (drop 4 packed) (replicate rawLen 0) of
             None \<Rightarrow> (Inl DPanic, s)
           | Some (n, ok, raw) \<Rightarrow> if \<not> ok \<or> n \<noteq> rawLen then (Inl DTrunc, s) else ApplyDelta src (take n raw) s)"

section \<open>The pack\<close>

text \<open>What the loops need of a content store: blocks that were put are held, and the blocks held are
  returned under their hash.\<close>

locale content_store =
  fixes put get :: "bytes \<Rightarrow> ('s, delta_error, bytes) op"
    and hash :: "bytes \<Rightarrow> bytes" and holds :: "'s \<Rightarrow> bytes set \<Rightarrow> bool" and live :: "'s \<Rightarrow> bool"
  assumes hash_length: "length (hash b) = 32"
    and put_holds: "holds s bs \<Longrightarrow> length b = 4096 \<Longrightarrow> inj_on hash (insert b bs) \<Longrightarrow> put b s = (Inr h, s') \<Longrightarrow>
      h = hash b \<and> holds s' (insert b bs)"
    and get_holds: "holds s bs \<Longrightarrow> live s \<Longrightarrow> b \<in> bs \<Longrightarrow> \<exists>s'. get (hash b) s = (Inr b, s') \<and> holds s' bs \<and> live s'"

definition delta_diffs :: "bytes \<Rightarrow> bytes \<Rightarrow> nat \<Rightarrow> nat \<Rightarrow> nat list" where
  "delta_diffs src dst i k = filter (\<lambda>j. bslice src (j * 4096) 4096 \<noteq> bslice dst (j * 4096) 4096) [i..<i + k]"

definition delta_entry :: "(bytes \<Rightarrow> bytes) option \<Rightarrow> bytes \<Rightarrow> nat \<Rightarrow> bytes" where
  "delta_entry hash dst j = le_put32 (of_nat j) @ (case hash of None \<Rightarrow> 0 # bslice dst (j * 4096) 4096 | Some h \<Rightarrow> 2 # h (bslice dst (j * 4096) 4096))"

lemma delta_diffs_Suc:
  "delta_diffs src dst i (Suc k) =
     (if bslice src (i * 4096) 4096 = bslice dst (i * 4096) 4096 then [] else [i]) @ delta_diffs src dst (Suc i) k"
proof -
  have "[i..<i + Suc k] = i # [Suc i..<Suc i + k]" by (simp add: upt_rec [of i])
  then show ?thesis by (simp only: delta_diffs_def filter.simps) simp
qed

lemma enc_loop_plain:
  "enc_loop None src dst i k n pack s =
     (Inr (pack @ concat (map (delta_entry None dst) (delta_diffs src dst i k)), n + length (delta_diffs src dst i k)), s)"
proof (induction k arbitrary: i n pack)
  case 0 then show ?case by (simp add: delta_diffs_def)
next
  case (Suc k) then show ?case by (simp add: delta_diffs_Suc delta_entry_def)
qed

context content_store
begin

lemma enc_loop_store:
  "enc_loop (Some put) src dst i k n pack s = (Inr (pack', n'), s') \<Longrightarrow> (i + k) * 4096 \<le> length dst \<Longrightarrow> holds s bs \<Longrightarrow>
   inj_on hash (bs \<union> (\<lambda>j. bslice dst (j * 4096) 4096) ` set (delta_diffs src dst i k)) \<Longrightarrow>
   pack' = pack @ concat (map (delta_entry (Some hash) dst) (delta_diffs src dst i k)) \<and> n' = n + length (delta_diffs src dst i k) \<and>
   holds s' (bs \<union> (\<lambda>j. bslice dst (j * 4096) 4096) ` set (delta_diffs src dst i k))"
proof (induction k arbitrary: i n pack s bs)
  case 0 then show ?case by (simp add: delta_diffs_def)
next
  case (Suc k)
  show ?case
  proof (cases "bslice src (i * 4096) 4096 = bslice dst (i * 4096) 4096")
    case True then show ?thesis using Suc.IH [of "Suc i" n pack s bs] Suc.prems by (simp add: delta_diffs_Suc)
  next
    case False
    let ?b = "bslice dst (i * 4096) 4096"
    obtain h s1 where p: "put ?b s = (Inr h, s1)"
      and rest: "enc_loop (Some put) src dst (Suc i) k (n + 1) (pack @ le_put32 (of_nat i) @ [2] @ h) s1 = (Inr (pack', n'), s')"
      using Suc.prems(1) False by (auto elim!: op_bind_InrE)
    have len: "length ?b = 4096" using Suc.prems(2) by simp
    have inj: "inj_on hash (insert ?b bs)" using Suc.prems(4) False by (auto simp: delta_diffs_Suc intro: inj_on_subset)
    note ph = put_holds [OF Suc.prems(3) len inj p]
    have un: "insert ?b bs \<union> (\<lambda>j. bslice dst (j * 4096) 4096) ` set (delta_diffs src dst (Suc i) k) =
        bs \<union> (\<lambda>j. bslice dst (j * 4096) 4096) ` set (delta_diffs src dst i (Suc k))" using False by (auto simp: delta_diffs_Suc)
    have "pack' = (pack @ le_put32 (of_nat i) @ [2] @ h) @ concat (map (delta_entry (Some hash) dst) (delta_diffs src dst (Suc i) k)) \<and>
        n' = n + 1 + length (delta_diffs src dst (Suc i) k) \<and> holds s' (insert ?b bs \<union> (\<lambda>j. bslice dst (j * 4096) 4096) ` set (delta_diffs src dst (Suc i) k))"
    proof (rule Suc.IH [OF rest _ conjunct2 [OF ph]])
      show "(Suc i + k) * 4096 \<le> length dst" using Suc.prems(2) by simp
      show "inj_on hash (insert ?b bs \<union> (\<lambda>j. bslice dst (j * 4096) 4096) ` set (delta_diffs src dst (Suc i) k))" unfolding un by (rule Suc.prems(4))
    qed
    then show ?thesis using ph False un by (simp add: delta_diffs_Suc delta_entry_def [of _ _ i])
  qed
qed

end

abbreviation patch :: "bytes \<Rightarrow> nat \<Rightarrow> bytes \<Rightarrow> bytes" where
  "patch dst \<equiv> \<lambda>j d. put_at d (j * 4096) (bslice dst (j * 4096) 4096)"

text \<open>An entry of the pack, read back.\<close>

lemma entry_fields:
  assumes "pack = pre @ delta_entry ho dst j @ post" "j < 2 ^ 32"
  shows "unat (le_get32 (drop (length pre) pack)) = j" "pack ! (length pre + 4) = (if ho = None then 0 else 2)"
    "length pre + 5 \<le> length pack"
    "ho = None \<Longrightarrow> (j + 1) * 4096 \<le> length dst \<Longrightarrow> bslice pack (length pre + 5) 4096 = bslice dst (j * 4096) 4096 \<and> length pre + 5 + 4096 \<le> length pack"
    "ho = Some h \<Longrightarrow> length (h (bslice dst (j * 4096) 4096)) = 32 \<Longrightarrow>
       bslice pack (length pre + 5) 32 = h (bslice dst (j * 4096) 4096) \<and> length pre + 5 + 32 \<le> length pack"
proof -
  have "unat (of_nat j :: u32) = j" using assms(2) by (simp add: unat_of_nat take_bit_nat_eq_self)
  then show "unat (le_get32 (drop (length pre) pack)) = j" by (simp add: assms(1) delta_entry_def)
  show "pack ! (length pre + 4) = (if ho = None then 0 else 2)" "length pre + 5 \<le> length pack"
    by (auto simp: assms(1) delta_entry_def nth_append split: option.splits)
  have d: "drop (length pre + 5) pack = drop 5 (delta_entry ho dst j) @ post" by (simp add: assms(1) delta_entry_def split: option.splits)
  show "ho = None \<Longrightarrow> (j + 1) * 4096 \<le> length dst \<Longrightarrow> bslice pack (length pre + 5) 4096 = bslice dst (j * 4096) 4096 \<and> length pre + 5 + 4096 \<le> length pack"
    unfolding bslice_def [of pack] d by (simp add: delta_entry_def assms(1))
  show "ho = Some h \<Longrightarrow> length (h (bslice dst (j * 4096) 4096)) = 32 \<Longrightarrow>
       bslice pack (length pre + 5) 32 = h (bslice dst (j * 4096) 4096) \<and> length pre + 5 + 32 \<le> length pack"
    unfolding bslice_def [of pack] d by (simp add: delta_entry_def assms(1))
qed

lemma apply_loop_plain:
  "pack = pre @ concat (map (delta_entry None dst) js) \<Longrightarrow> (\<forall>j \<in> set js. j < cnt) \<Longrightarrow> cnt \<le> 2 ^ 18 \<Longrightarrow> cnt * 4096 \<le> length dst \<Longrightarrow>
   apply_loop get cnt pack (length js) (length pre) d s = (Inr (fold (patch dst) js d), s)"
proof (induction js arbitrary: pre d)
  case (Cons j js)
  have j: "j < cnt" "j < 2 ^ 32" "(j + 1) * 4096 \<le> length dst" using Cons.prems(2-4) by (auto intro: order_trans [rotated])
  have p: "pack = pre @ delta_entry None dst j @ concat (map (delta_entry None dst) js)" using Cons.prems(1) by simp
  note f = entry_fields [OF p j(2)]
  have "length (delta_entry None dst j) = 4101" using j(3) by (simp add: delta_entry_def)
  then have "apply_loop get cnt pack (length js) (length pre + 5 + 4096) (patch dst j d) s = (Inr (fold (patch dst) js (patch dst j d)), s)"
    using Cons.IH [of "pre @ delta_entry None dst j"] p Cons.prems(2-4) by (simp add: add.commute)
  then show ?case using f(1-3) f(4) [OF refl j(3)] j(1) by (simp add: Let_def) linarith
qed simp

context content_store
begin

lemma apply_loop_store:
  "pack = pre @ concat (map (delta_entry (Some hash) dst) js) \<Longrightarrow> (\<forall>j \<in> set js. j < cnt \<and> bslice dst (j * 4096) 4096 \<in> bs) \<Longrightarrow> cnt \<le> 2 ^ 18 \<Longrightarrow>
   cnt * 4096 \<le> length dst \<Longrightarrow> holds s bs \<Longrightarrow> live s \<Longrightarrow>
   \<exists>s'. apply_loop (Some get) cnt pack (length js) (length pre) d s = (Inr (fold (patch dst) js d), s')"
proof (induction js arbitrary: pre d s)
  case (Cons j js)
  let ?b = "bslice dst (j * 4096) 4096"
  have j: "j < cnt" "j < 2 ^ 32" "(j + 1) * 4096 \<le> length dst" using Cons.prems(2-4) by (auto intro: order_trans [rotated])
  have p: "pack = pre @ delta_entry (Some hash) dst j @ concat (map (delta_entry (Some hash) dst) js)" using Cons.prems(1) by simp
  note f = entry_fields [OF p j(2)]
  have len: "length ?b = 4096" using j(3) by simp
  obtain s1 where g: "get (hash ?b) s = (Inr ?b, s1)" "holds s1 bs" "live s1" using get_holds [OF Cons.prems(5,6)] Cons.prems(2) by auto
  have "length (delta_entry (Some hash) dst j) = 37" by (simp add: delta_entry_def hash_length)
  then obtain s' where "apply_loop (Some get) cnt pack (length js) (length pre + 5 + 32) (patch dst j d) s1 = (Inr (fold (patch dst) js (patch dst j d)), s')"
    using Cons.IH [of "pre @ delta_entry (Some hash) dst j" s1] p Cons.prems(2-4) g(2,3) by (fastforce simp: add.commute)
  then show ?case using f(1-3) f(5) [OF refl hash_length] j(1) g(1) len by (simp add: Let_def op_bind_def del: bslice_length) linarith
qed simp

end

text \<open>Patching the differing blocks of \<open>src\<close> gives \<open>dst\<close>.\<close>

lemma patch_nth:
  "length d = length dst \<Longrightarrow> (\<forall>j \<in> set js. (j + 1) * 4096 \<le> length dst) \<Longrightarrow> x < length dst \<Longrightarrow>
   length (fold (patch dst) js d) = length dst \<and> fold (patch dst) js d ! x = (if x div 4096 \<in> set js then dst ! x else d ! x)"
proof (induction js arbitrary: d)
  case (Cons j js)
  have "patch dst j d ! x = (if x div 4096 = j then dst ! x else d ! x)"
  proof (cases "j * 4096 \<le> x \<and> x < j * 4096 + 4096")
    case True
    then have "x div 4096 = j" by (metis add.commute div_nat_eqI mult.commute mult_Suc)
    moreover have "patch dst j d ! x = dst ! x" using True Cons.prems by (subst put_at_nth) auto
    ultimately show ?thesis by simp
  next
    case False
    then have "x div 4096 \<noteq> j" using div_mult_mod_eq [of x 4096] mod_less_divisor [of 4096 x] by auto
    then show ?thesis using False Cons.prems by (auto simp: put_at_nth)
  qed
  then show ?case using Cons.IH [of "patch dst j d"] Cons.prems by auto
qed simp

lemma patch_diffs:
  assumes "length src = length dst" "length dst = cnt * 4096"
  shows "fold (patch dst) (delta_diffs src dst 0 cnt) src = dst"
proof -
  have js: "\<forall>j \<in> set (delta_diffs src dst 0 cnt). (j + 1) * 4096 \<le> length dst" using assms(2) by (auto simp: delta_diffs_def)
  have p: "length (fold (patch dst) (delta_diffs src dst 0 cnt) src) = length dst \<and>
      fold (patch dst) (delta_diffs src dst 0 cnt) src ! x = (if x div 4096 \<in> set (delta_diffs src dst 0 cnt) then dst ! x else src ! x)" if "x < length dst" for x
    using patch_nth [OF assms(1) js that] .
  show ?thesis
  proof (cases "dst = []")
    case True then show ?thesis using assms by (simp add: delta_diffs_def)
  next
    case False
    show ?thesis
    proof (rule nth_equalityI)
      show "length (fold (patch dst) (delta_diffs src dst 0 cnt) src) = length dst" using p [of 0] False by simp
      fix x assume "x < length (fold (patch dst) (delta_diffs src dst 0 cnt) src)"
      then have x: "x < length dst" using p [of 0] False by simp
      have "src ! x = dst ! x" if "x div 4096 \<notin> set (delta_diffs src dst 0 cnt)"
      proof -
        have "x div 4096 < cnt" using x assms(2) by (simp add: less_mult_imp_div_less)
        then have "bslice src (x div 4096 * 4096) 4096 ! (x mod 4096) = bslice dst (x div 4096 * 4096) 4096 ! (x mod 4096)"
          using that by (auto simp: delta_diffs_def)
        then show ?thesis using x assms(1) by (simp add: div_mult_mod_eq)
      qed
      then show "fold (patch dst) (delta_diffs src dst 0 cnt) src ! x = dst ! x" using p [OF x] by auto
    qed
  qed
qed

section \<open>The content store as a provider\<close>

definition cas_store :: "CAS option \<Rightarrow> bytes set \<Rightarrow> bool" where
  "cas_store s bs \<longleftrightarrow> (\<exists>c xs. s = Some c \<and> cas_holds c (map (\<lambda>b. (blob_hash b, b)) xs) \<and> set xs = bs)"

definition cas_live :: "CAS option \<Rightarrow> bool" where
  "cas_live s \<longleftrightarrow> (\<exists>c. s = Some c \<and> healthy (c_dev c))"

interpretation cas: content_store "\<lambda>b. on_cas (cas_Put b)" "\<lambda>h. on_cas (cas_Get h)" blob_hash cas_store cas_live
proof
  fix b show "length (blob_hash b) = 32" by simp
next
  fix s bs b h s'
  assume s: "cas_store s bs" and b: "length b = 4096" and inj: "inj_on blob_hash (insert b bs)" and p: "on_cas (cas_Put b) s = (Inr h, s')"
  let ?e = "\<lambda>xs. map (\<lambda>b. (blob_hash b, b)) xs"
  obtain c xs where c: "s = Some c" "cas_holds c (?e xs)" "set xs = bs" using s by (auto simp: cas_store_def)
  obtain c' where p': "cas_Put b c = (Inr h, c')" "s' = Some c'" using p c(1) by (auto simp: on_cas_def split: prod.splits sum.splits)
  have "length b < 2 ^ 32" using b by simp
  note q = cas_Put_holds [OF c(2) this p'(1)]
  have mem: "h \<in> fst ` set (?e xs) \<longleftrightarrow> b \<in> set xs" using q inj c(3) by (auto simp: image_iff inj_on_def)
  have h: "h = blob_hash b" using q by simp
  show "h = blob_hash b \<and> cas_store s' (insert b bs)"
  proof (cases "b \<in> set xs")
    case True
    then have "cas_holds c' (?e xs)" using q [unfolded mem] c(2) by simp
    then show ?thesis using h p'(2) c(3) True by (auto simp: cas_store_def)
  next
    case False
    have "cas_holds c' (if b \<in> set xs then ?e xs else ?e xs @ [(h, b)])" using q [unfolded mem] by blast
    then have "cas_holds c' (?e (xs @ [b]))" unfolding if_not_P [OF False] h by simp
    then show ?thesis unfolding cas_store_def using h p'(2) c(3) by (intro conjI exI [of _ c'] exI [of _ "xs @ [b]"]) auto
  qed
next
  fix s bs b assume s: "cas_store s bs" and l: "cas_live s" and b: "b \<in> bs"
  obtain c xs where c: "s = Some c" "cas_holds c (map (\<lambda>b. (blob_hash b, b)) xs)" "set xs = bs" using s by (auto simp: cas_store_def)
  have "healthy (c_dev c)" "(blob_hash b, b) \<in> set (map (\<lambda>b. (blob_hash b, b)) xs)" using l c b by (auto simp: cas_live_def)
  from cas_Get_live [OF c(2) this] obtain c' where g: "cas_Get (blob_hash b) c = (Inr b, c')" "cas_holds c' (map (\<lambda>b. (blob_hash b, b)) xs)" "healthy (c_dev c')" by blast
  then show "\<exists>s'. on_cas (cas_Get (blob_hash b)) s = (Inr b, s') \<and> cas_store s' bs \<and> cas_live s'"
    using c by (auto simp: on_cas_def cas_store_def cas_live_def)
qed

section \<open>Round trip\<close>

definition dst_blocks :: "bytes \<Rightarrow> bytes set" where
  "dst_blocks dst = (\<lambda>j. bslice dst (j * 4096) 4096) ` {..<length dst div 4096}"

text \<open>The pack of an encoding, with or without a store, and its application.\<close>

lemma pack_head:
  assumes "pack = put_at (le_put32 a @ le_put32 b @ replicate 4 0 @ rest) 8 (le_put32 c)"
  shows "pack = (le_put32 a @ le_put32 b @ le_put32 c) @ rest" "le_get32 pack = a" "le_get32 (drop 4 pack) = b" "le_get32 (drop 8 pack) = c"
proof -
  show p: "pack = (le_put32 a @ le_put32 b @ le_put32 c) @ rest"
    unfolding assms by (rule nth_equalityI) (auto simp: put_at_nth nth_append)
  show "le_get32 pack = a" "le_get32 (drop 4 pack) = b" "le_get32 (drop 8 pack) = c" by (simp_all add: p)
qed

lemma delta_diffs_facts:
  "length (delta_diffs src dst 0 cnt) \<le> cnt" "\<forall>j \<in> set (delta_diffs src dst 0 cnt). j < cnt"
  using length_filter_le [of "\<lambda>j. bslice src (j * 4096) 4096 \<noteq> bslice dst (j * 4096) 4096" "[0..<cnt]"] by (auto simp: delta_diffs_def)

lemma delta_apply:
  assumes e: "EncodeDelta src dst s = (Inr pack, s')"
    and st: "s \<noteq> None \<Longrightarrow> cas_live s' \<and> (\<exists>bs. cas_store s bs \<and> inj_on blob_hash (bs \<union> dst_blocks dst))"
  shows "\<exists>s''. ApplyDelta src pack s' = (Inr dst, s'') \<and> length pack < 2 ^ 32 \<and> pack \<noteq> []"
proof -
  let ?cnt = "length src div 4096"
  let ?js = "delta_diffs src dst 0 ?cnt" and ?ho = "if s = None then None else Some blob_hash"
  have g: "src \<noteq> []" "length src mod 4096 = 0" "length src = length dst" "?cnt \<le> 2 ^ 18" and
    l: "\<exists>pk n. enc_loop (if s = None then None else Some (\<lambda>b. on_cas (cas_Put b))) src dst 0 ?cnt 0
          (le_put32 (crc32_Checksum src) @ le_put32 (crc32_Checksum dst) @ replicate 4 0) s = (Inr (pk, n), s') \<and> pack = put_at pk 8 (le_put32 (of_nat n))"
    using e by (auto simp: EncodeDelta_def Let_def elim!: op_bind_InrE split: if_splits prod.splits)
  have cnt: "length dst = ?cnt * 4096" using g(2,3) by auto
  have blocks: "(\<lambda>j. bslice dst (j * 4096) 4096) ` set ?js \<subseteq> dst_blocks dst"
    using g(3) delta_diffs_facts(2) [of src dst ?cnt] by (auto simp: dst_blocks_def)
  have "\<exists>bs. pack = put_at (le_put32 (crc32_Checksum src) @ le_put32 (crc32_Checksum dst) @ replicate 4 0 @ concat (map (delta_entry ?ho dst) ?js)) 8 (le_put32 (of_nat (length ?js))) \<and>
      (s = None \<and> s' = None \<or> s' \<noteq> None \<and> s \<noteq> None \<and> cas_store s' bs \<and> (\<lambda>j. bslice dst (j * 4096) 4096) ` set ?js \<subseteq> bs)"
  proof (cases "s = None")
    case True then show ?thesis using l by (auto simp: enc_loop_plain)
  next
    case False
    then obtain bs where bs: "cas_store s bs" "inj_on blob_hash (bs \<union> dst_blocks dst)" using st by blast
    have "inj_on blob_hash (bs \<union> (\<lambda>j. bslice dst (j * 4096) 4096) ` set ?js)" using bs(2) blocks by (auto intro: inj_on_subset)
    moreover obtain pk n where pk: "enc_loop (Some (\<lambda>b. on_cas (cas_Put b))) src dst 0 ?cnt 0
          (le_put32 (crc32_Checksum src) @ le_put32 (crc32_Checksum dst) @ replicate 4 0) s = (Inr (pk, n), s')" "pack = put_at pk 8 (le_put32 (of_nat n))"
      using l False by auto
    ultimately have "pk = (le_put32 (crc32_Checksum src) @ le_put32 (crc32_Checksum dst) @ replicate 4 0) @ concat (map (delta_entry (Some blob_hash) dst) ?js) \<and>
        n = length ?js \<and> cas_store s' (bs \<union> (\<lambda>j. bslice dst (j * 4096) 4096) ` set ?js)"
      using cas.enc_loop_store [OF pk(1) _ bs(1)] cnt by simp
    then show ?thesis using pk(2) False by (intro exI [of _ "bs \<union> (\<lambda>j. bslice dst (j * 4096) 4096) ` set ?js"]) (auto simp: cas_store_def)
  qed
  then obtain bs where pk: "pack = put_at (le_put32 (crc32_Checksum src) @ le_put32 (crc32_Checksum dst) @ replicate 4 0 @ concat (map (delta_entry ?ho dst) ?js)) 8 (le_put32 (of_nat (length ?js)))"
    and s': "s = None \<and> s' = None \<or> s' \<noteq> None \<and> s \<noteq> None \<and> cas_store s' bs \<and> (\<lambda>j. bslice dst (j * 4096) 4096) ` set ?js \<subseteq> bs" by blast
  note hd = pack_head [OF pk]
  let ?pre = "le_put32 (crc32_Checksum src) @ le_put32 (crc32_Checksum dst) @ le_put32 (of_nat (length ?js))"
  have n: "unat (of_nat (length ?js) :: u32) = length ?js"
    using delta_diffs_facts(1) [of src dst ?cnt] g(4) by (simp add: unat_of_nat take_bit_nat_eq_self)
  have ap: "\<exists>s''. apply_loop (if s' = None then None else Some (\<lambda>h. on_cas (cas_Get h))) ?cnt pack (length ?js) 12 src s' = (Inr (fold (patch dst) ?js src), s'')"
  proof (cases "s = None")
    case True
    then show ?thesis using s' apply_loop_plain [of pack ?pre dst ?js ?cnt _ src s'] hd(1) delta_diffs_facts(2) [of src dst ?cnt] g(4) cnt by simp
  next
    case False
    then have c: "cas_live s'" "cas_store s' bs" "(\<lambda>j. bslice dst (j * 4096) 4096) ` set ?js \<subseteq> bs" "s' \<noteq> None" using st s' by auto
    have "\<forall>j \<in> set ?js. j < ?cnt \<and> bslice dst (j * 4096) 4096 \<in> bs" using c(3) delta_diffs_facts(2) [of src dst ?cnt] by blast
    moreover have "pack = ?pre @ concat (map (delta_entry (Some blob_hash) dst) ?js)" using hd(1) False by (simp only: if_False)
    ultimately show ?thesis using cas.apply_loop_store [of pack ?pre dst ?js ?cnt bs s' src] c(1,2,4) g(4) cnt by (auto simp del: append_assoc)
  qed
  have "length (delta_entry ?ho dst j) \<le> 4101" for j by (simp add: delta_entry_def)
  then have "length (concat (map (delta_entry ?ho dst) xs)) \<le> length xs * 4101" for xs by (induction xs) (auto intro: add_mono)
  then have "length pack \<le> 12 + length ?js * 4101" unfolding hd(1) by simp
  also have "\<dots> < 2 ^ 32" using delta_diffs_facts(1) [of src dst ?cnt] g(4) by simp
  finally have len: "length pack < 2 ^ 32" "12 \<le> length pack" by (simp_all add: hd(1))
  then have "\<exists>s''. ApplyDelta src pack s' = (Inr dst, s'')"
    using ap g patch_diffs [OF g(3) cnt] hd(2-4) n by (auto simp: ApplyDelta_def Let_def op_bind_def)
  then show ?thesis using len by auto
qed

text \<open>
  C22. Applying a compressed delta to the source gives the destination back: for every pair of images of equal
  length for which the encoder returned a pack, without a store, and also with one, when the device of
  the store answers and the blocks involved have distinct hashes.
\<close>
theorem delta_roundtrip:
  assumes e: "EncodeDeltaLZ4 src dst s = (Inr z, s')"
    and st: "s \<noteq> None \<Longrightarrow> cas_live s' \<and> (\<exists>bs. cas_store s bs \<and> inj_on blob_hash (bs \<union> dst_blocks dst))"
  shows "\<exists>s''. ApplyDeltaLZ4 src z s' = (Inr dst, s'')"
proof -
  obtain pack w where p: "EncodeDelta src dst s = (Inr pack, s')" "Compress pack (length pack * 2 + 65536) = Some w" "z = le_put32 (of_nat (length pack)) @ w"
    using e by (auto simp: EncodeDeltaLZ4_def elim!: op_bind_InrE split: option.splits if_splits)
  from delta_apply [OF p(1) st] obtain s'' where a: "ApplyDelta src pack s' = (Inr dst, s'')" "length pack < 2 ^ 32" "pack \<noteq> []" by blast
  have n: "unat (le_get32 z) = length pack" using a(2) by (simp add: p(3) unat_of_nat take_bit_nat_eq_self)
  from Decompress_Compress [OF p(2), of "replicate (length pack) 0"]
  obtain raw where "Decompress w (replicate (length pack) 0) = Some (length pack, True, raw)" "take (length pack) raw = pack" by auto
  then have "ApplyDeltaLZ4 src z s' = ApplyDelta src pack s'" using n a(3) by (simp add: ApplyDeltaLZ4_def p(3))
  then show ?thesis using a(1) by simp
qed


text \<open>Without a store the encoder returns a pack for all images of a size it accepts.\<close>

lemma EncodeDeltaLZ4_plain:
  assumes "src \<noteq> []" "length src mod 4096 = 0" "length src = length dst" "length src div 4096 \<le> 2 ^ 18"
  shows "\<exists>z. EncodeDeltaLZ4 src dst None = (Inr z, None)"
proof -
  obtain pack where p: "EncodeDelta src dst None = (Inr pack, None)"
    using assms by (auto simp: EncodeDelta_def enc_loop_plain op_bind_def)
  have ne: "pack \<noteq> []" using delta_apply [OF p] by simp
  obtain z where z: "Compress pack (length pack * 2 + 65536) = Some z" using Compress_room [OF ne, of "length pack * 2 + 65536"] by auto
  have "z \<noteq> []" using Decompress_Compress [OF z order_refl] ne by (auto simp: Decompress_def)
  then show ?thesis using p z by (simp add: EncodeDeltaLZ4_def op_bind_def)
qed

lemma cas_Put_live:
  assumes h: "cas_holds c bs" and d: "healthy (c_dev c)" and b: "length b < 2 ^ 32" "blobs_size bs + packedLBAs (length b) \<le> d_cap (c_dev c)"
    and new: "blob_hash b \<notin> fst ` set bs"
  shows "\<exists>c'. cas_Put b c = (Inr (blob_hash b), c') \<and> healthy (c_dev c')"
proof -
  have rdy: "cas_ready c = (Inr (), c)" using h d by (simp add: cas_ready_def on_cdev_def checkReady_def cas_holds_def healthy_def)
  have nx: "c_next c = blobs_size bs" "c_index c = map_of (blob_lbas 0 bs)" using h by (simp_all add: cas_holds_def)
  have ix: "c_index c (blob_hash b) = None" using new unfolding nx(2) blob_lookup_None by simp
  obtain d1 where w: "dev_Write (c_next c) (cas_blk (blob_hash b) b) True (c_dev c) = (Inr (), d1)" "healthy d1"
    using dev_Write_healthy [OF d, of "cas_blk (blob_hash b) b" "packedLBAs (length b)" "c_next c"] b(2) nx(1) packedLBAs_pos by auto
  obtain d2 where f: "dev_Flush d1 = (Inr (), d2)" "healthy d2" using dev_Flush_healthy [OF w(2)] by blast
  have "c_next c < d_cap (c_dev c)" "packedLBAs (length b) \<le> d_cap (c_dev c) - c_next c"
    using b(2) nx(1) packedLBAs_pos [of "length b"] by linarith+
  then show ?thesis using rdy ix w(1) f b(1) Sum256_hash [OF b(1)] by (simp add: cas_Put_def op_bind_def on_cdev_def Let_def)
qed

theorem delta_roundtrip_witness:
  "\<exists>z c' s''. EncodeDeltaLZ4 (replicate 4096 0) (replicate 4096 1) (Some (newCAS (zero_dev 2))) = (Inr z, Some c') \<and>
     ApplyDeltaLZ4 (replicate 4096 0) z (Some c') = (Inr (replicate 4096 1), s'')"
proof -
  let ?c = "newCAS (zero_dev 2)" and ?s = "replicate 4096 0 :: bytes" and ?d = "replicate 4096 1 :: bytes"
  have hc: "cas_holds ?c []" by (rule new_cas_holds)
  have "healthy (c_dev ?c)" "d_cap (c_dev ?c) = 2" by (simp_all only: newCAS_def CAS.select_convs zero_dev_ok)
  then obtain c' where p: "cas_Put ?d ?c = (Inr (blob_hash ?d), c')" "healthy (c_dev c')"
    using cas_Put_live [OF hc, of ?d] by (auto simp: packedLBAs_def)
  have "?s ! 0 \<noteq> ?d ! 0" by simp
  then have ne: "?s \<noteq> ?d" by metis
  have b: "bslice ?s 0 4096 = ?s" "bslice ?d 0 4096 = ?d" by (simp_all add: bslice_def)
  obtain pack where pk: "EncodeDelta ?s ?d (Some ?c) = (Inr pack, Some c')"
    using p(1) ne b by (simp add: EncodeDelta_def op_bind_def on_cas_def)
  have st: "cas_store (Some ?c) {}" unfolding cas_store_def using hc by (intro exI [of _ ?c] exI [of _ "[]"]) simp
  have live: "cas_live (Some c')" using p(2) by (simp add: cas_live_def)
  have inj: "inj_on blob_hash ({} \<union> dst_blocks ?d)" by (simp add: dst_blocks_def lessThan_Suc)
  have all: "cas_live (Some c') \<and> (\<exists>bs. cas_store (Some ?c) bs \<and> inj_on blob_hash (bs \<union> dst_blocks ?d))" using st live inj by blast
  have ne2: "pack \<noteq> []" using delta_apply [OF pk all] by blast
  obtain w where w: "Compress pack (length pack * 2 + 65536) = Some w" using Compress_room [OF ne2, of "length pack * 2 + 65536"] by auto
  have "w \<noteq> []" using Decompress_Compress [OF w order_refl] ne2 by (auto simp: Decompress_def)
  then obtain z where z: "EncodeDeltaLZ4 ?s ?d (Some ?c) = (Inr z, Some c')" using pk w by (simp add: EncodeDeltaLZ4_def op_bind_def)
  have "\<exists>s''. ApplyDeltaLZ4 ?s z (Some c') = (Inr ?d, s'')" by (rule delta_roundtrip [OF z all])
  then show ?thesis using z by blast
qed

end
