(* ===== verification/Btree.thy ===== *)
theory Btree
  imports Page
begin

text \<open>
  The page kernels of the B+tree, \<^verbatim>\<open>src/pkg/c2db/db_btree_gen.go\<close>: bytes and cells of a 16-KiB page, leaf
  pages of keys and of versioned keys, the walk from the root to a leaf, deletion, and prefix scans. A
  heap is one slice of pages, \<open>base\<close> the offset of a page in it.

  The callers pass the length of a slice beside it. Keys, identifiers and values are lists, and their
  length is the length argument; the length \<open>n\<close> of a heap is kept as an argument and is at most the
  length of the slice (\<^verbatim>\<open>len(src) >= s.shardBytes\<close> in the engine), so that no index guarded by it is out
  of range. A nil heap takes the branches of an empty one. Offsets are natural numbers: they are sums of
  16-bit fields, of a page number below the number of pages, and of lengths of slices.
\<close>

record Db_bt_state_t =
  bs_Nkeys :: nat
  bs_Ok :: bool
  bs_Copied :: bool

record Db_bt_get_t =
  bg_Len :: nat
  bg_Walked :: nat
  bg_Found :: bool
  bg_Fallback :: bool

record Db_bt_heap_st_t =
  hs_Root :: nat
  hs_Used :: nat
  hs_Nkeys :: nat
  hs_Pages :: u64
  hs_Ok :: bool
  hs_Full :: bool

record Db_bt_scan_t =
  sc_Nfound :: nat
  sc_Ok :: bool

section \<open>Bytes of a page\<close>

definition bt_bounds :: "bytes \<Rightarrow> nat \<Rightarrow> nat \<Rightarrow> nat \<Rightarrow> bool" where
  "bt_bounds page n addr len =
     (let n = min n (length page); len = min len (length page)
      in n = 0x4000 \<and> addr < n \<and> len \<le> n - addr)"

definition bt_read8 :: "bytes \<Rightarrow> nat \<Rightarrow> nat \<Rightarrow> byte" where
  "bt_read8 page n addr = (let n = min n (length page) in if addr < n \<and> 1 \<le> n - addr then page ! addr else 0)"

definition bt_read16 :: "bytes \<Rightarrow> nat \<Rightarrow> nat \<Rightarrow> u16" where
  "bt_read16 page n addr =
     (let n = min n (length page) in if addr < n \<and> 2 \<le> n - addr then le_get16 (drop addr page) else 0)"

definition bt_read64 :: "bytes \<Rightarrow> nat \<Rightarrow> nat \<Rightarrow> u64" where
  "bt_read64 page n addr =
     (let n = min n (length page) in if addr < n \<and> 8 \<le> n - addr then le_get64 (drop addr page) else 0)"

definition bt_write8 :: "bytes \<Rightarrow> nat \<Rightarrow> nat \<Rightarrow> byte \<Rightarrow> bytes" where
  "bt_write8 page n addr val = (let n = min n (length page) in if addr < n \<and> 1 \<le> n - addr then page[addr := val] else page)"

definition bt_write16 :: "bytes \<Rightarrow> nat \<Rightarrow> nat \<Rightarrow> u16 \<Rightarrow> bytes" where
  "bt_write16 page n addr val =
     (let n = min n (length page) in if addr < n \<and> 2 \<le> n - addr then put_at page addr (le_put16 val) else page)"

definition bt_write32 :: "bytes \<Rightarrow> nat \<Rightarrow> nat \<Rightarrow> u32 \<Rightarrow> bytes" where
  "bt_write32 page n addr val =
     (let n = min n (length page) in if addr < n \<and> 4 \<le> n - addr then put_at page addr (le_put32 val) else page)"

definition bt_write64 :: "bytes \<Rightarrow> nat \<Rightarrow> nat \<Rightarrow> u64 \<Rightarrow> bytes" where
  "bt_write64 page n addr val =
     (let n = min n (length page) in if addr < n \<and> 8 \<le> n - addr then put_at page addr (le_put64 val) else page)"

fun bt_copy_bytes :: "bytes \<Rightarrow> nat \<Rightarrow> nat \<Rightarrow> bytes \<Rightarrow> nat \<Rightarrow> nat \<Rightarrow> nat \<Rightarrow> bytes" where
  "bt_copy_bytes dst dn doff src sn soff 0 = dst"
| "bt_copy_bytes dst dn doff src sn soff (Suc k) =
     bt_copy_bytes (if doff < dn \<and> soff < sn then dst[doff := src ! soff] else dst) dn (Suc doff) src sn (Suc soff) k"

definition bt_cow :: "bytes \<Rightarrow> bytes \<Rightarrow> nat \<Rightarrow> bytes" where
  "bt_cow pub dirty n = (if n = 0 then dirty else put_at dirty 0 (take n pub))"

text \<open>Copy page \<open>pg\<close> to the dirty heap once: the mask remembers the pages below 64.\<close>

definition bt_cow_page :: "bytes \<Rightarrow> bytes \<Rightarrow> nat \<Rightarrow> nat \<Rightarrow> u64 \<Rightarrow> u64 \<times> bytes" where
  "bt_cow_page pub dirty nbytes pg msk =
     (let v13 = pg * 0x4000
      in if v13 \<ge> nbytes then (msk, dirty)
         else if 0x4000 > nbytes - v13 then (msk, dirty)
         else if pg \<ge> 64 then (msk, put_at dirty v13 (bslice pub v13 16384))
         else let v24 = push_bit pg 1
           in if msk AND v24 \<noteq> 0 then (msk, dirty)
              else (msk OR v24, put_at dirty v13 (bslice pub v13 16384)))"

fun bt_copy_in :: "bytes \<Rightarrow> nat \<Rightarrow> nat \<Rightarrow> bytes \<Rightarrow> bytes" where
  "bt_copy_in page n addr [] = page"
| "bt_copy_in page n addr (x # xs) = bt_copy_in (if addr < n then page[addr := x] else page) n (Suc addr) xs"

text \<open>The first \<open>k\<close> bytes at \<open>addr\<close>, into the front of \<open>dst\<close> from position \<open>i\<close>.\<close>

fun copy_out_from :: "bytes \<Rightarrow> nat \<Rightarrow> nat \<Rightarrow> bytes \<Rightarrow> nat \<Rightarrow> nat \<Rightarrow> bytes" where
  "copy_out_from page n addr dst i 0 = dst"
| "copy_out_from page n addr dst i (Suc k) =
     copy_out_from page n addr (if addr + i < n then dst[i := page ! (addr + i)] else dst) (Suc i) k"
  for page n addr

definition bt_copy_out :: "bytes \<Rightarrow> nat \<Rightarrow> nat \<Rightarrow> bytes \<Rightarrow> nat \<Rightarrow> bytes" where
  "bt_copy_out page n addr dst len = copy_out_from page n addr dst 0 len"

section \<open>Keys\<close>

fun bt_keyeq :: "bytes \<Rightarrow> nat \<Rightarrow> nat \<Rightarrow> bytes \<Rightarrow> bool" where
  "bt_keyeq page n koff [] = True"
| "bt_keyeq page n koff (x # xs) = (if koff < n then (if page ! koff \<noteq> x then False else bt_keyeq page n (Suc koff) xs) else False)"

text \<open>The comparison loop over positions \<open>i\<close> to \<open>i + k\<close>, and what follows it.\<close>

fun cmp_loop :: "(nat \<Rightarrow> byte) \<Rightarrow> (nat \<Rightarrow> byte) \<Rightarrow> nat \<Rightarrow> nat \<Rightarrow> int" where
  "cmp_loop f g i 0 = 0"
| "cmp_loop f g i (Suc k) = (if f i < g i then -1 else if f i > g i then 1 else cmp_loop f g (Suc i) k)"

definition cmp_len :: "nat \<Rightarrow> nat \<Rightarrow> int \<Rightarrow> int" where
  "cmp_len alen blen c = (if c \<noteq> 0 then c else if alen < blen then -1 else if alen > blen then 1 else 0)"

definition bt_keycmp :: "bytes \<Rightarrow> bytes \<Rightarrow> int" where
  "bt_keycmp a b = cmp_len (length a) (length b) (cmp_loop (\<lambda>i. a ! i) (\<lambda>i. b ! i) 0 (min (length a) (length b)))"

definition heap_byte :: "bytes \<Rightarrow> nat \<Rightarrow> nat \<Rightarrow> nat \<Rightarrow> byte" where
  "heap_byte page n off i = (if off < n \<and> i < n - off then page ! (off + i) else 0)"

definition bt_keycmp_at :: "bytes \<Rightarrow> nat \<Rightarrow> nat \<Rightarrow> nat \<Rightarrow> bytes \<Rightarrow> int" where
  "bt_keycmp_at page n aoff alen b =
     cmp_len alen (length b) (cmp_loop (heap_byte page n aoff) (\<lambda>i. b ! i) 0 (min alen (length b)))"

definition bt_keycmp_pp :: "bytes \<Rightarrow> nat \<Rightarrow> nat \<Rightarrow> nat \<Rightarrow> nat \<Rightarrow> nat \<Rightarrow> int" where
  "bt_keycmp_pp page n aoff alen boff blen =
     (let n = min n (length page); alen = min alen (length page); blen = min blen (length page)
      in cmp_len alen blen (cmp_loop (heap_byte page n aoff) (heap_byte page n boff) 0 (min alen blen)))"

definition bt_off_ok :: "nat \<Rightarrow> nat \<Rightarrow> nat \<Rightarrow> nat \<Rightarrow> bool" where
  "bt_off_ok n base off len =
     (if off \<ge> 0x4000 then False
      else if len > 0x4000 - off then False
      else if base \<ge> n then False
      else if 0x4000 > n - base then False
      else base + off < n \<and> len \<le> n - (base + off))"

section \<open>Leaves of keys\<close>

fun find_loop :: "bytes \<Rightarrow> nat \<Rightarrow> bytes \<Rightarrow> nat \<Rightarrow> nat \<Rightarrow> nat \<Rightarrow> nat" where
  "find_loop page n key v11 v5 0 = v11"
| "find_loop page n key v11 v5 (Suc k) =
     (let v16 = 64 + v5 * 2
      in if \<not> bt_bounds page n v16 2 then v11
         else let v21 = unat (bt_read16 page n v16)
           in if bt_bounds page n v21 4 \<and> unat (bt_read16 page n v21) = length key \<and> bt_keyeq page n (v21 + 4) key then v5
              else find_loop page n key v11 (Suc v5) k)"

definition bt_find :: "bytes \<Rightarrow> nat \<Rightarrow> bytes \<Rightarrow> nat" where
  "bt_find page n key = (let v11 = unat (bt_read16 page n 22) in find_loop page n key v11 0 v11)"

fun find_at_loop :: "bytes \<Rightarrow> nat \<Rightarrow> nat \<Rightarrow> bytes \<Rightarrow> nat \<Rightarrow> nat \<Rightarrow> nat \<Rightarrow> nat" where
  "find_at_loop heap n base key v13 v6 0 = v13"
| "find_at_loop heap n base key v13 v6 (Suc k) =
     (let v18 = 64 + v6 * 2
      in if \<not> bt_off_ok n base v18 2 then v13
         else let v24 = unat (bt_read16 heap n (base + v18))
           in if bt_off_ok n base v24 4 \<and> unat (bt_read16 heap n (base + v24)) = length key \<and> bt_keyeq heap n (base + v24 + 4) key then v6
              else find_at_loop heap n base key v13 (Suc v6) k)"

definition bt_find_at :: "bytes \<Rightarrow> nat \<Rightarrow> nat \<Rightarrow> bytes \<Rightarrow> nat" where
  "bt_find_at heap n base key = (let v13 = unat (bt_read16 heap n (base + 22)) in find_at_loop heap n base key v13 0 v13)"

definition get_none :: Db_bt_get_t where
  "get_none = \<lparr>bg_Len = 0, bg_Walked = 0, bg_Found = False, bg_Fallback = False\<rparr>"

text \<open>The value of a cell goes to \<open>out\<close> (None for nil) up to \<open>outn\<close> bytes.\<close>

definition give_value :: "bytes \<Rightarrow> nat \<Rightarrow> nat \<Rightarrow> nat \<Rightarrow> bytes option \<Rightarrow> nat \<Rightarrow> Db_bt_get_t \<times> bytes option" where
  "give_value heap n off vlen out outn =
     (get_none\<lparr>bg_Len := vlen, bg_Found := True\<rparr>,
      map_option (\<lambda>dst. if min vlen outn > 0 then bt_copy_out heap n off dst (min vlen outn) else dst) out)"

definition bt_get_at :: "bytes \<Rightarrow> nat \<Rightarrow> nat \<Rightarrow> bytes \<Rightarrow> bytes option \<Rightarrow> nat \<Rightarrow> Db_bt_get_t \<times> bytes option" where
  "bt_get_at heap n base key out outn =
     (if heap = [] \<or> key = [] \<or> length key > 0xffff then (get_none, out)
      else if bt_read8 heap n (base + 20) \<noteq> 1 then (get_none, out)
      else let v42 = bt_find_at heap n base key; v46 = 64 + v42 * 2
      in if v42 \<ge> unat (bt_read16 heap n (base + 22)) then (get_none, out)
         else if \<not> bt_off_ok n base v46 2 then (get_none, out)
         else let v53 = unat (bt_read16 heap n (base + v46))
      in if \<not> bt_off_ok n base v53 4 then (get_none, out)
         else let v58 = base + v53; v59 = unat (bt_read16 heap n v58); v64 = unat (bt_read16 heap n (v58 + 2))
      in if v59 \<noteq> length key then (get_none, out)
         else if \<not> bt_off_ok n base v53 (4 + v59 + v64) then (get_none, out)
         else give_value heap n (base + v53 + 4 + v59) v64 out outn)"

text \<open>Write the cell \<open>klen vlen parts\<close> at \<open>addr\<close>.\<close>

definition put_cell :: "bytes \<Rightarrow> nat \<Rightarrow> nat \<Rightarrow> bytes \<Rightarrow> bytes \<Rightarrow> bytes \<Rightarrow> bytes" where
  "put_cell heap n addr key id16 val =
     (let h = bt_write16 heap n addr (of_nat (length key));
          h = bt_write16 h n (addr + 2) (of_nat (length val));
          h = bt_copy_in h n (addr + 4) key;
          h = bt_copy_in h n (addr + 4 + length key) id16
      in if length val > 0 then bt_copy_in h n (addr + 4 + length key + length id16) val else h)"

definition bt_insert_at :: "bytes \<Rightarrow> nat \<Rightarrow> nat \<Rightarrow> bytes \<Rightarrow> bytes \<Rightarrow> Db_bt_state_t \<times> bytes" where
  "bt_insert_at heap n base key val =
     (let v7 = \<lparr>bs_Nkeys = 0, bs_Ok = False, bs_Copied = False\<rparr>
      in if heap = [] \<or> key = [] \<or> length key > 0xffff \<or> length val > 0xffff then (v7, heap)
         else if bt_read8 heap n (base + 20) \<noteq> 1 then (v7, heap)
         else let v8 = unat (bt_read16 heap n (base + 22)); v55 = unat (bt_read16 heap n (base + 24)); v60 = unat (bt_read16 heap n (base + 26));
                  v7 = v7\<lparr>bs_Nkeys := v8\<rparr>
      in if v55 < 64 \<or> v60 > 0x4000 \<or> v55 > v60 then (v7, heap)
         else let v65 = 4 + length key + length val; v68 = bt_find_at heap n base key
      in if v68 \<ge> v8 \<and> (v55 \<ge> 0x4000 \<or> 2 > 0x4000 - v55) then (v7, heap)
         else let v12 = (if v68 < v8 then v55 else v55 + 2); v17 = (if v68 < v8 then v68 else v8)
      in if v65 > v60 then (v7, heap)
         else let v75 = v60 - v65; v79 = 64 + v17 * 2
      in if v12 > v75 \<or> \<not> bt_off_ok n base v75 v65 \<or> \<not> bt_off_ok n base v79 2 then (v7, heap)
         else let h = put_cell heap n (base + v75) key [] val;
                  h = bt_write16 h n (base + v79) (of_nat v75);
                  v8' = (if v68 \<ge> v8 then v8 + 1 else v8);
                  h = (if v68 \<ge> v8 then bt_write16 (bt_write16 h n (base + 22) (of_nat v8')) n (base + 24) (of_nat v12) else h);
                  h = bt_write16 h n (base + 26) (of_nat v75)
      in (v7\<lparr>bs_Nkeys := v8', bs_Ok := True\<rparr>, h))"

definition Db_bt_leaf_init :: "bytes \<Rightarrow> nat \<Rightarrow> Db_bt_state_t \<times> bytes" where
  "Db_bt_leaf_init page n =
     (let v2 = \<lparr>bs_Nkeys = 0, bs_Ok = False, bs_Copied = False\<rparr>
      in if page = [] \<or> n \<noteq> 0x4000 then (v2, page)
         else if \<not> bt_bounds page n 20 1 then (v2, page)
         else if \<not> bt_bounds page n 22 6 then (v2, page)
         else let p = bt_write8 page n 20 1;
                  p = bt_write16 p n 22 0;
                  p = bt_write16 p n 24 64;
                  p = bt_write16 p n 26 0x4000
      in (v2\<lparr>bs_Ok := True\<rparr>, p))"

definition Db_bt_insert :: "bytes \<Rightarrow> bytes \<Rightarrow> nat \<Rightarrow> bytes \<Rightarrow> bytes \<Rightarrow> Db_bt_state_t \<times> bytes" where
  "Db_bt_insert pub dirty n key val =
     (let v8 = \<lparr>bs_Nkeys = 0, bs_Ok = False, bs_Copied = False\<rparr>
      in if pub = [] \<or> dirty = [] \<or> n \<noteq> 0x4000 then (v8, dirty)
         else let d = bt_cow pub dirty n; v8 = v8\<lparr>bs_Copied := True\<rparr>
      in if key = [] \<or> length key > 0xffff \<or> length val > 0xffff then (v8, d)
         else if bt_read8 d n 20 \<noteq> 1 then (v8, d)
         else let v9 = unat (bt_read16 d n 22); v57 = unat (bt_read16 d n 24); v60 = unat (bt_read16 d n 26);
                  v8 = v8\<lparr>bs_Nkeys := v9\<rparr>
      in if v57 < 64 \<or> v60 > n \<or> v57 > v60 then (v8, d)
         else let v64 = 4 + length key + length val; v66 = bt_find d n key
      in if v66 \<ge> v9 \<and> (v57 \<ge> n \<or> 2 > n - v57) then (v8, d)
         else let v13 = (if v66 < v9 then v57 else v57 + 2); v18 = (if v66 < v9 then v66 else v9)
      in if v64 > v60 then (v8, d)
         else let v71 = v60 - v64; v75 = 64 + v18 * 2
      in if v13 > v71 \<or> \<not> bt_bounds d n v71 v64 \<or> \<not> bt_bounds d n v75 2 then (v8, d)
         else let h = put_cell d n v71 key [] val;
                  h = bt_write16 h n v75 (of_nat v71);
                  v9' = (if v66 \<ge> v9 then v9 + 1 else v9);
                  h = (if v66 \<ge> v9 then bt_write16 (bt_write16 h n 22 (of_nat v9')) n 24 (of_nat v13) else h);
                  h = bt_write16 h n 26 (of_nat v71)
      in (v8\<lparr>bs_Nkeys := v9', bs_Ok := True\<rparr>, h))"

definition Db_bt_get :: "bytes \<Rightarrow> nat \<Rightarrow> bytes \<Rightarrow> bytes option \<Rightarrow> nat \<Rightarrow> Db_bt_get_t \<times> bytes option" where
  "Db_bt_get page n key out outn =
     (if page = [] \<or> n \<noteq> 0x4000 \<or> key = [] \<or> length key > 0xffff then (get_none, out)
      else if bt_read8 page n 20 \<noteq> 1 then (get_none, out)
      else let v43 = bt_find page n key; v47 = 64 + v43 * 2
      in if v43 \<ge> unat (bt_read16 page n 22) then (get_none, out)
         else if \<not> bt_bounds page n v47 2 then (get_none, out)
         else let v54 = unat (bt_read16 page n v47)
      in if \<not> bt_bounds page n v54 4 then (get_none, out)
         else let v60 = unat (bt_read16 page n v54); v64 = unat (bt_read16 page n (v54 + 2))
      in if v60 \<noteq> length key then (get_none, out)
         else if \<not> bt_bounds page n v54 (4 + v60 + v64) then (get_none, out)
         else give_value page n (v54 + 4 + v60) v64 out outn)"

section \<open>Leaves of versioned keys\<close>

text \<open>
  A cell is \<open>klen vlen key id value\<close> with a 16-byte identifier; the slots are sorted by key, then by
  identifier. The inner loop of the slot shift computes the predecessor of the slot.
\<close>

fun ver_pos_loop :: "bytes \<Rightarrow> nat \<Rightarrow> bytes \<Rightarrow> bytes \<Rightarrow> nat \<Rightarrow> nat \<Rightarrow> nat" where
  "ver_pos_loop page n key id16 v6 0 = v6"
| "ver_pos_loop page n key id16 v6 (Suc k) =
     (let v18 = 64 + v6 * 2
      in if \<not> bt_bounds page n v18 2 then v6
         else let v23 = unat (bt_read16 page n v18)
      in if \<not> bt_bounds page n v23 4 then v6
         else let v27 = unat (bt_read16 page n v23)
      in if \<not> bt_bounds page n v23 (4 + v27 + 16) then v6
         else let v10 = bt_keycmp_at page n (v23 + 4) v27 key
      in if v10 > 0 then v6
         else if v10 = 0 \<and> bt_keycmp_at page n (v23 + 4 + v27) 16 id16 > 0 then v6
         else ver_pos_loop page n key id16 (Suc v6) k)"

definition bt_find_ver_pos :: "bytes \<Rightarrow> nat \<Rightarrow> bytes \<Rightarrow> bytes \<Rightarrow> nat" where
  "bt_find_ver_pos page n key id16 = ver_pos_loop page n key id16 0 (unat (bt_read16 page n 22))"

fun slot_shift :: "bytes \<Rightarrow> nat \<Rightarrow> nat \<Rightarrow> nat \<Rightarrow> nat \<Rightarrow> bytes" where
  "slot_shift heap n base pos 0 = heap"
| "slot_shift heap n base pos (Suc v6) =
     (if Suc v6 > pos
      then slot_shift (bt_write16 heap n (base + (64 + Suc v6 * 2)) (bt_read16 heap n (base + (64 + v6 * 2)))) n base pos v6
      else heap)"

definition bt_slot_insert_at :: "bytes \<Rightarrow> nat \<Rightarrow> nat \<Rightarrow> nat \<Rightarrow> nat \<Rightarrow> u16 \<Rightarrow> bytes" where
  "bt_slot_insert_at heap n base pos nslots cell_off =
     (let n = min n (length heap)
      in bt_write16 (slot_shift heap n base pos nslots) n (base + (64 + pos * 2)) cell_off)"

definition bt_slot_insert :: "bytes \<Rightarrow> nat \<Rightarrow> nat \<Rightarrow> nat \<Rightarrow> u16 \<Rightarrow> bytes" where
  "bt_slot_insert page n pos nslots cell_off =
     (let n = min n (length page)
      in bt_write16 (slot_shift page n 0 pos nslots) n (64 + pos * 2) cell_off)"

fun ver_pos_at_loop :: "bytes \<Rightarrow> nat \<Rightarrow> nat \<Rightarrow> bytes \<Rightarrow> bytes \<Rightarrow> nat \<Rightarrow> nat \<Rightarrow> nat" where
  "ver_pos_at_loop heap n base key id16 v7 0 = v7"
| "ver_pos_at_loop heap n base key id16 v7 (Suc k) =
     (let v20 = 64 + v7 * 2
      in if \<not> bt_off_ok n base v20 2 then v7
         else let v26 = unat (bt_read16 heap n (base + v20))
      in if \<not> bt_off_ok n base v26 4 then v7
         else let v31 = unat (bt_read16 heap n (base + v26))
      in if \<not> bt_off_ok n base v26 (4 + v31 + 16) then v7
         else let v11 = bt_keycmp_at heap n (base + v26 + 4) v31 key
      in if v11 > 0 then v7
         else if v11 = 0 \<and> bt_keycmp_at heap n (base + v26 + 4 + v31) 16 id16 > 0 then v7
         else ver_pos_at_loop heap n base key id16 (Suc v7) k)"

definition bt_find_ver_pos_at :: "bytes \<Rightarrow> nat \<Rightarrow> nat \<Rightarrow> bytes \<Rightarrow> bytes \<Rightarrow> nat" where
  "bt_find_ver_pos_at heap n base key id16 = ver_pos_at_loop heap n base key id16 0 (unat (bt_read16 heap n (base + 22)))"

definition bt_insert_ver_at :: "bytes \<Rightarrow> nat \<Rightarrow> nat \<Rightarrow> bytes \<Rightarrow> bytes \<Rightarrow> bytes \<Rightarrow> Db_bt_state_t \<times> bytes" where
  "bt_insert_ver_at heap n base key id16 val =
     (let v8 = \<lparr>bs_Nkeys = 0, bs_Ok = False, bs_Copied = False\<rparr>
      in if heap = [] \<or> key = [] \<or> length key > 0xffff \<or> length val > 0xffff \<or> id16 = [] then (v8, heap)
         else if bt_read8 heap n (base + 20) \<noteq> 1 then (v8, heap)
         else let v9 = unat (bt_read16 heap n (base + 22)); v56 = unat (bt_read16 heap n (base + 24)); v61 = unat (bt_read16 heap n (base + 26));
                  v8 = v8\<lparr>bs_Nkeys := v9\<rparr>; v68 = 4 + length key + 16 + length val
      in if v56 < 64 \<or> v61 > 0x4000 \<or> v56 > v61 then (v8, heap)
         else if v56 \<ge> 0x4000 \<or> 2 > 0x4000 - v56 then (v8, heap)
         else if v68 > v61 then (v8, heap)
         else let v74 = v56 + 2; v75 = v61 - v68
      in if v74 > v75 \<or> \<not> bt_off_ok n base v75 v68 then (v8, heap)
         else let v16 = min (bt_find_ver_pos_at heap n base key id16) v9;
                  h = put_cell heap n (base + v75) key id16 val;
                  h = bt_slot_insert_at h n base v16 v9 (of_nat v75);
                  h = bt_write16 h n (base + 22) (of_nat (v9 + 1));
                  h = bt_write16 h n (base + 24) (of_nat v74);
                  h = bt_write16 h n (base + 26) (of_nat v75)
      in (v8\<lparr>bs_Nkeys := v9 + 1, bs_Ok := True\<rparr>, h))"

definition Db_bt_insert_ver :: "bytes \<Rightarrow> bytes \<Rightarrow> nat \<Rightarrow> bytes \<Rightarrow> bytes \<Rightarrow> bytes \<Rightarrow> Db_bt_state_t \<times> bytes" where
  "Db_bt_insert_ver pub dirty n key id16 val =
     (let v8 = \<lparr>bs_Nkeys = 0, bs_Ok = False, bs_Copied = False\<rparr>
      in if pub = [] \<or> dirty = [] \<or> n \<noteq> 0x4000 then (v8, dirty)
         else let d = bt_cow pub dirty n; v8 = v8\<lparr>bs_Copied := True\<rparr>
      in if key = [] \<or> length key > 0xffff \<or> length val > 0xffff \<or> id16 = [] then (v8, d)
         else if bt_read8 d n 20 \<noteq> 1 then (v8, d)
         else let v9 = unat (bt_read16 d n 22); v57 = unat (bt_read16 d n 24); v60 = unat (bt_read16 d n 26);
                  v8 = v8\<lparr>bs_Nkeys := v9\<rparr>; v66 = 4 + length key + 16 + length val
      in if v57 < 64 \<or> v60 > n \<or> v57 > v60 then (v8, d)
         else if v57 \<ge> n \<or> 2 > n - v57 then (v8, d)
         else if v66 > v60 then (v8, d)
         else let v70 = v57 + 2; v71 = v60 - v66
      in if v70 > v71 \<or> \<not> bt_bounds d n v71 v66 then (v8, d)
         else let v16 = min (bt_find_ver_pos d n key id16) v9;
                  h = put_cell d n v71 key id16 val;
                  h = bt_slot_insert h n v16 v9 (of_nat v71);
                  h = bt_write16 h n 22 (of_nat (v9 + 1));
                  h = bt_write16 h n 24 (of_nat v70);
                  h = bt_write16 h n 26 (of_nat v71)
      in (v8\<lparr>bs_Nkeys := v9 + 1, bs_Ok := True\<rparr>, h))"

text \<open>
  The loop of a read keeps the newest version seen so far, its cell offset and the offset of its
  identifier, and gives Inl when a slot or a cell is out of bounds (the read then returns not found).
\<close>

type_synonym best = "(nat \<times> nat) option"

fun as_of_loop :: "bytes \<Rightarrow> nat \<Rightarrow> nat \<Rightarrow> bytes \<Rightarrow> bytes \<Rightarrow> best \<Rightarrow> nat \<Rightarrow> nat \<Rightarrow> unit + best" where
  "as_of_loop heap n base key snap16 b v10 0 = Inr b"
| "as_of_loop heap n base key snap16 b v10 (Suc k) =
     (let v57 = 64 + v10 * 2
      in if \<not> bt_off_ok n base v57 2 then Inl ()
         else let v64 = unat (bt_read16 heap n (base + v57))
      in if \<not> bt_off_ok n base v64 4 then Inl ()
         else let v16 = unat (bt_read16 heap n (base + v64)); v17 = unat (bt_read16 heap n (base + v64 + 2))
      in if \<not> bt_off_ok n base v64 (4 + v16 + 16 + v17) then Inl ()
         else let v90 = bt_keycmp_at heap n (base + v64 + 4) v16 key; v14' = base + v64 + 4 + v16
      in if v90 > 0 then Inr b
         else if v90 = 0 \<and> bt_keycmp_at heap n v14' 16 snap16 \<le> 0
         then (case b of
             None \<Rightarrow> as_of_loop heap n base key snap16 (Some (v64, v14')) (Suc v10) k
           | Some (v13, v14) \<Rightarrow>
               as_of_loop heap n base key snap16 (if bt_keycmp_pp heap n v14' 16 v14 16 > 0 then Some (v64, v14') else b) (Suc v10) k)
         else as_of_loop heap n base key snap16 b (Suc v10) k)"

definition bt_get_as_of_at :: "bytes \<Rightarrow> nat \<Rightarrow> nat \<Rightarrow> bytes \<Rightarrow> bytes \<Rightarrow> bytes option \<Rightarrow> nat \<Rightarrow> Db_bt_get_t \<times> bytes option" where
  "bt_get_as_of_at heap n base key snap16 out outn =
     (if heap = [] \<or> key = [] \<or> snap16 = [] \<or> length key > 0xffff then (get_none, out)
      else if bt_read8 heap n (base + 20) \<noteq> 1 then (get_none, out)
      else case as_of_loop heap n base key snap16 None 0 (unat (bt_read16 heap n (base + 22))) of
        Inl _ \<Rightarrow> (get_none, out)
      | Inr None \<Rightarrow> (get_none, out)
      | Inr (Some (v13, v14)) \<Rightarrow>
          let v129 = base + v13; v16 = unat (bt_read16 heap n v129); v136 = unat (bt_read16 heap n (v129 + 2))
          in give_value heap n (base + v13 + 4 + v16 + 16) v136 out outn)"

text \<open>The single-page read visits every slot: it has no early exit after the key.\<close>

fun page_as_of_loop :: "bytes \<Rightarrow> nat \<Rightarrow> bytes \<Rightarrow> bytes \<Rightarrow> best \<Rightarrow> nat \<Rightarrow> nat \<Rightarrow> unit + best" where
  "page_as_of_loop page n key snap16 b v9 0 = Inr b"
| "page_as_of_loop page n key snap16 b v9 (Suc k) =
     (let v58 = 64 + v9 * 2
      in if \<not> bt_bounds page n v58 2 then Inl ()
         else let v65 = unat (bt_read16 page n v58)
      in if \<not> bt_bounds page n v65 4 then Inl ()
         else let v15 = unat (bt_read16 page n v65); v16 = unat (bt_read16 page n (v65 + 2))
      in if \<not> bt_bounds page n v65 (4 + v15 + 16 + v16) then Inl ()
         else let v13' = v65 + 4 + v15
      in if bt_keycmp_at page n (v65 + 4) v15 key = 0 \<and> bt_keycmp_at page n v13' 16 snap16 \<le> 0
         then (case b of
             None \<Rightarrow> page_as_of_loop page n key snap16 (Some (v65, v13')) (Suc v9) k
           | Some (v12, v13) \<Rightarrow>
               page_as_of_loop page n key snap16 (if bt_keycmp_pp page n v13' 16 v13 16 > 0 then Some (v65, v13') else b) (Suc v9) k)
         else page_as_of_loop page n key snap16 b (Suc v9) k)"

definition Db_bt_get_as_of :: "bytes \<Rightarrow> nat \<Rightarrow> bytes \<Rightarrow> bytes \<Rightarrow> bytes option \<Rightarrow> nat \<Rightarrow> Db_bt_get_t \<times> bytes option" where
  "Db_bt_get_as_of page n key snap16 out outn =
     (if page = [] \<or> n \<noteq> 0x4000 \<or> key = [] \<or> snap16 = [] \<or> length key > 0xffff then (get_none, out)
      else if bt_read8 page n 20 \<noteq> 1 then (get_none, out)
      else case page_as_of_loop page n key snap16 None 0 (unat (bt_read16 page n 22)) of
        Inl _ \<Rightarrow> (get_none, out)
      | Inr None \<Rightarrow> (get_none, out)
      | Inr (Some (v12, v13)) \<Rightarrow>
          let v15 = unat (bt_read16 page n v12); v129 = unat (bt_read16 page n (v12 + 2))
          in give_value page n (v12 + 4 + v15 + 16) v129 out outn)"

text \<open>
  Rewriting the newest version in place when its value is unchanged: the loop finds the newest version
  of the key (its cell offset), the identifier is overwritten.
\<close>

fun newest_loop :: "bytes \<Rightarrow> nat \<Rightarrow> nat \<Rightarrow> bytes \<Rightarrow> nat option \<Rightarrow> nat \<Rightarrow> nat \<Rightarrow> unit + nat option" where
  "newest_loop heap n base key b v9 0 = Inr b"
| "newest_loop heap n base key b v9 (Suc k) =
     (let v62 = 64 + v9 * 2
      in if \<not> bt_off_ok n base v62 2 then Inl ()
         else let v70 = unat (bt_read16 heap n (base + v62))
      in if \<not> bt_off_ok n base v70 4 then Inl ()
         else let v14 = unat (bt_read16 heap n (base + v70)); v15 = unat (bt_read16 heap n (base + v70 + 2))
      in if \<not> bt_off_ok n base v70 (4 + v14 + 16 + v15) then Inl ()
         else if v14 = length key \<and> bt_keyeq heap n (base + v70 + 4) key
         then newest_loop heap n base key
                (case b of None \<Rightarrow> Some v70
                 | Some v12 \<Rightarrow> if bt_keycmp_pp heap n (base + v70 + 4 + v14) 16 (base + v12 + 4 + v14) 16 > 0 then Some v70 else b) (Suc v9) k
         else newest_loop heap n base key b (Suc v9) k)"

definition bt_replace_same_value_at :: "bytes \<Rightarrow> nat \<Rightarrow> nat \<Rightarrow> bytes \<Rightarrow> bytes \<Rightarrow> bytes \<Rightarrow> bool \<times> bytes" where
  "bt_replace_same_value_at heap n base key id16 val =
     (if heap = [] \<or> key = [] \<or> length key > 0xffff \<or> length val > 0xffff \<or> id16 = [] then (False, heap)
      else if bt_read8 heap n (base + 20) \<noteq> 1 then (False, heap)
      else case newest_loop heap n base key None 0 (unat (bt_read16 heap n (base + 22))) of
        Inl _ \<Rightarrow> (False, heap)
      | Inr None \<Rightarrow> (False, heap)
      | Inr (Some v12) \<Rightarrow>
          let v14 = unat (bt_read16 heap n (base + v12)); v15 = unat (bt_read16 heap n (base + v12 + 2))
          in if v15 \<noteq> length val then (False, heap)
             else if \<not> bt_off_ok n base v12 (4 + v14 + 16 + v15) then (False, heap)
             else if length val > 0 \<and> bt_keycmp_at heap n (base + v12 + 4 + v14 + 16) (length val) val \<noteq> 0 then (False, heap)
             else (True, bt_copy_in heap n (base + (v12 + 4 + v14)) id16))"

section \<open>Deletion and collection of old versions\<close>

text \<open>
  Both loops read the number of slots from the page at every step, as the code does, and move the kept
  slots down. The first component is False when a slot or a cell is out of bounds: the slots moved so far
  stay moved.
\<close>

function del_loop :: "bytes \<Rightarrow> nat \<Rightarrow> nat \<Rightarrow> bytes \<Rightarrow> nat \<Rightarrow> nat \<Rightarrow> bool \<Rightarrow> (bool \<times> nat \<times> bool) \<times> bytes" where
  "del_loop heap n base key v6 v7 v13 =
     (if v6 < unat (bt_read16 heap n (base + 22))
      then let v44 = 64 + v6 * 2
        in if \<not> bt_off_ok n base v44 2 then ((False, v7, v13), heap)
           else let v51 = bt_read16 heap n (base + v44); v52 = unat v51
        in if \<not> bt_off_ok n base v52 4 then ((False, v7, v13), heap)
           else let v59 = unat (bt_read16 heap n (base + v52))
        in if \<not> bt_off_ok n base v52 (4 + v59) then ((False, v7, v13), heap)
           else if v59 = length key \<and> bt_keyeq heap n (base + v52 + 4) key then del_loop heap n base key (Suc v6) v7 True
           else del_loop (if v7 \<noteq> v6 then bt_write16 heap n (base + 64 + v7 * 2) v51 else heap) n base key (Suc v6) (Suc v7) v13
      else ((True, v7, v13), heap))"
  by pat_completeness auto
termination
proof (relation "measure (\<lambda>(heap, n, base, key, v6, v7, v13). 65536 - v6)")
  have lt: "unat (w :: u16) < 65536" for w using unsigned_less [of w, where ?'a = nat] by simp
  fix heap n base key v6 v7 v13 v44 v51 v52 v59
  assume "v6 < unat (bt_read16 heap n (base + 22))"
  then have "v6 < 65536" using lt less_trans by blast
  then show "((heap, n, base, key, Suc v6, v7, True), heap, n, base, key, v6, v7, v13) \<in> measure (\<lambda>(heap, n, base, key, v6, v7, v13). 65536 - v6)"
    and "((if v7 \<noteq> v6 then bt_write16 heap n (base + 64 + v7 * 2) v51 else heap, n, base, key, Suc v6, Suc v7, v13), heap, n, base, key, v6, v7, v13)
      \<in> measure (\<lambda>(heap, n, base, key, v6, v7, v13). 65536 - v6)" by auto
qed simp

definition bt_del_at :: "bytes \<Rightarrow> nat \<Rightarrow> nat \<Rightarrow> bytes \<Rightarrow> bool \<times> bytes" where
  "bt_del_at heap n base key =
     (if heap = [] \<or> key = [] \<or> length key > 0xffff then (False, heap)
      else if bt_read8 heap n (base + 20) \<noteq> 1 then (False, heap)
      else case del_loop heap n base key 0 0 False of
        ((False, _, _), h) \<Rightarrow> (False, h)
      | ((True, v7, v13), h) \<Rightarrow>
          (v13, bt_write16 (bt_write16 h n (base + 22) (of_nat v7)) n (base + 24) (of_nat (64 + v7 * 2))))"

function gc_loop :: "bytes \<Rightarrow> nat \<Rightarrow> bytes \<Rightarrow> nat \<Rightarrow> nat \<Rightarrow> (bool \<times> nat) \<times> bytes" where
  "gc_loop dirty n min_id16 v6 v7 =
     (if v6 < unat (bt_read16 dirty n 22)
      then let v41 = 64 + v6 * 2
        in if \<not> bt_bounds dirty n v41 2 then ((False, v7), dirty)
           else let v45 = bt_read16 dirty n v41; v46 = unat v45
        in if \<not> bt_bounds dirty n v46 4 then ((False, v7), dirty)
           else let v50 = unat (bt_read16 dirty n v46)
        in if \<not> bt_bounds dirty n v46 (4 + v50 + 16) then ((False, v7), dirty)
           else if bt_keycmp_at dirty n (v46 + 4 + v50) 16 min_id16 \<ge> 0
           then gc_loop (if v7 \<noteq> v6 then bt_write16 dirty n (64 + v7 * 2) v45 else dirty) n min_id16 (Suc v6) (Suc v7)
           else gc_loop dirty n min_id16 (Suc v6) v7
      else ((True, v7), dirty))"
  by pat_completeness auto
termination
proof (relation "measure (\<lambda>(dirty, n, m, v6, v7). 65536 - v6)")
  have lt: "unat (w :: u16) < 65536" for w using unsigned_less [of w, where ?'a = nat] by simp
  fix dirty n m v6 v7 v41 v45 v46 v50
  assume "v6 < unat (bt_read16 dirty n 22)"
  then have "v6 < 65536" using lt less_trans by blast
  then show "((if v7 \<noteq> v6 then bt_write16 dirty n (64 + v7 * 2) v45 else dirty, n, m, Suc v6, Suc v7), dirty, n, m, v6, v7)
      \<in> measure (\<lambda>(dirty, n, m, v6, v7). 65536 - v6)"
    and "((dirty, n, m, Suc v6, v7), dirty, n, m, v6, v7) \<in> measure (\<lambda>(dirty, n, m, v6, v7). 65536 - v6)" by auto
qed simp

declare del_loop.simps [simp del] gc_loop.simps [simp del]

definition Db_bt_gc_before :: "bytes \<Rightarrow> bytes \<Rightarrow> nat \<Rightarrow> bytes \<Rightarrow> Db_bt_state_t \<times> bytes" where
  "Db_bt_gc_before pub dirty n min_id16 =
     (let v4 = \<lparr>bs_Nkeys = 0, bs_Ok = False, bs_Copied = False\<rparr>
      in if pub = [] \<or> dirty = [] \<or> n \<noteq> 0x4000 \<or> min_id16 = [] then (v4, dirty)
         else let d = bt_cow pub dirty n; v4 = v4\<lparr>bs_Copied := True\<rparr>
      in if bt_read8 d n 20 \<noteq> 1 then (v4, d)
         else case gc_loop d n min_id16 0 0 of
           ((False, _), h) \<Rightarrow> (v4, h)
         | ((True, v7), h) \<Rightarrow>
             (v4\<lparr>bs_Nkeys := v7, bs_Ok := True\<rparr>,
              bt_write16 (bt_write16 h n 22 (of_nat v7)) n 24 (of_nat (64 + v7 * 2))))"

section \<open>Prefix scans of a leaf\<close>

fun prefix_loop :: "bytes \<Rightarrow> nat \<Rightarrow> nat \<Rightarrow> bytes \<Rightarrow> bool" where
  "prefix_loop page n v18 [] = True"
| "prefix_loop page n v18 (x # xs) = (if v18 < n \<and> 1 \<le> n - v18 then (if page ! v18 \<noteq> x then False else prefix_loop page n (Suc v18) xs) else False)"

definition bt_keyhas_prefix :: "bytes \<Rightarrow> nat \<Rightarrow> nat \<Rightarrow> nat \<Rightarrow> bytes \<Rightarrow> bool" where
  "bt_keyhas_prefix page n koff klen prefix =
     (if prefix = [] then True
      else if page = [] then False
      else if klen < length prefix then False
      else prefix_loop page n koff prefix)"

text \<open>The offsets of the matching cells go to \<open>out\<close> (None for nil) as 32-bit words after the first \<open>already\<close>.\<close>

fun scan_loop :: "bytes \<Rightarrow> nat \<Rightarrow> nat \<Rightarrow> bytes \<Rightarrow> nat \<Rightarrow> nat \<Rightarrow> Db_bt_scan_t \<times> bytes option \<Rightarrow> nat \<Rightarrow> nat \<Rightarrow> Db_bt_scan_t \<times> bytes option" where
  "scan_loop heap n base prefix outn already (v8, out) v10 0 = (v8\<lparr>sc_Ok := True\<rparr>, out)"
| "scan_loop heap n base prefix outn already (v8, out) v10 (Suc k) =
     (let v43 = 64 + v10 * 2
      in if \<not> bt_off_ok n base v43 2 then (v8, out)
         else let v50 = unat (bt_read16 heap n (base + v43))
      in if \<not> bt_off_ok n base v50 4 then (v8, out)
         else let v57 = unat (bt_read16 heap n (base + v50))
      in if v57 > 0x4000 \<or> 4 > 0x4000 - v57 then (v8, out)
         else if \<not> bt_off_ok n base v50 (4 + v57) then (v8, out)
         else if v50 \<ge> 0x4000 \<or> 4 > 0x4000 - v50 then (v8, out)
         else let v71 = v50 + 4
      in if base \<ge> n \<or> v71 > n - base then (v8, out)
         else if bt_keyhas_prefix heap n (base + v71) v57 prefix
         then (if already > 0x7fffffffffffffff - sc_Nfound v8 then (v8, out)
               else let v81 = already + sc_Nfound v8; v84 = v81 * 4
               in if v81 > 0x7fffffffffffffff then (v8, out)
                  else if v84 \<ge> outn \<or> 4 > outn - v84 then (v8, out)
                  else scan_loop heap n base prefix outn already
                         (v8\<lparr>sc_Nfound := sc_Nfound v8 + 1\<rparr>, map_option (\<lambda>b. bt_write32 b outn v84 (of_nat (base + v50))) out) (Suc v10) k)
         else scan_loop heap n base prefix outn already (v8, out) (Suc v10) k)"

definition bt_scan_prefix_at ::
    "bytes \<Rightarrow> nat \<Rightarrow> nat \<Rightarrow> bytes \<Rightarrow> bytes option \<Rightarrow> nat \<Rightarrow> nat \<Rightarrow> Db_bt_scan_t \<times> bytes option" where
  "bt_scan_prefix_at heap n base prefix out outn already =
     (let v8 = \<lparr>sc_Nfound = 0, sc_Ok = False\<rparr>
      in if heap = [] then (v8, out)
         else if bt_read8 heap n (base + 20) \<noteq> 1 then (v8, out)
         else scan_loop heap n base prefix outn already (v8, out) 0 (unat (bt_read16 heap n (base + 22))))"

definition Db_bt_scan_prefix :: "bytes \<Rightarrow> nat \<Rightarrow> bytes \<Rightarrow> bytes option \<Rightarrow> nat \<Rightarrow> Db_bt_scan_t \<times> bytes option" where
  "Db_bt_scan_prefix page n prefix out outn =
     (if page = [] \<or> n \<noteq> 0x4000 then (\<lparr>sc_Nfound = 0, sc_Ok = False\<rparr>, out)
      else bt_scan_prefix_at page n 0 prefix out outn 0)"

fun memcmp_n :: "bytes \<Rightarrow> bytes \<Rightarrow> nat \<Rightarrow> int" where
  "memcmp_n (x # a) (y # b) (Suc n) = (if x \<noteq> y then (if x < y then -1 else 1) else memcmp_n a b n)"
| "memcmp_n _ _ _ = 0"

fun has_prefix_loop :: "bytes \<Rightarrow> nat \<Rightarrow> bytes \<Rightarrow> nat \<Rightarrow> nat \<Rightarrow> bool" where
  "has_prefix_loop page n pref v5 0 = False"
| "has_prefix_loop page n pref v5 (Suc k) =
     (let v40 = 64 + v5 * 2
      in if \<not> bt_bounds page n v40 2 then False
         else let v48 = unat (bt_read16 page n v40)
      in if \<not> bt_bounds page n v48 4 then False
         else let v55 = unat (bt_read16 page n v48)
      in if v55 < length pref then has_prefix_loop page n pref (Suc v5) k
         else if \<not> bt_bounds page n v48 (4 + v55) then False
         else if memcmp_n (drop (v48 + 4) page) pref (length pref) = 0 then True
         else has_prefix_loop page n pref (Suc v5) k)"

definition Db_bt_leaf_has_prefix :: "bytes \<Rightarrow> nat \<Rightarrow> bytes \<Rightarrow> bool" where
  "Db_bt_leaf_has_prefix page n pref =
     (if page = [] \<or> n \<noteq> 0x4000 then False
      else if pref = [] \<or> length pref > 0xffff then False
      else if bt_read8 page n 20 \<noteq> 1 then False
      else has_prefix_loop page n pref 0 (unat (bt_read16 page n 22)))"

text \<open>Union of two sorted runs into the first \<open>cap\<close> places of the output: the words written, in order.\<close>

fun merge_rest :: "u64 list \<Rightarrow> nat \<Rightarrow> nat \<Rightarrow> u64 list" where
  "merge_rest [] cap v8 = []"
| "merge_rest (x # xs) cap v8 = (if v8 < cap then x # merge_rest xs cap (Suc v8) else [])"

fun merge_loop :: "u64 list \<Rightarrow> u64 list \<Rightarrow> nat \<Rightarrow> nat \<Rightarrow> u64 list" where
  "merge_loop (x # a) (y # b) cap v8 =
     (if v8 < cap
      then if x < y then x # merge_loop a (y # b) cap (Suc v8)
        else if y < x then y # merge_loop (x # a) b cap (Suc v8)
        else x # merge_loop a b cap (Suc v8)
      else [])"
| "merge_loop a [] cap v8 = merge_rest a cap v8"
| "merge_loop [] b cap v8 = merge_rest b cap v8"

definition Db_bt_merge_u64 :: "u64 list option \<Rightarrow> u64 list option \<Rightarrow> u64 list option \<Rightarrow> nat \<Rightarrow> nat \<times> u64 list option" where
  "Db_bt_merge_u64 a b out cap =
     (case (a, b, out) of
       (Some xs, Some ys, Some dst) \<Rightarrow> (let w = merge_loop xs ys cap 0 in (length w, Some (w @ drop (length w) dst)))
     | _ \<Rightarrow> (0, out))"

end
