(* ===== verification/Btree_Walk.thy ===== *)
theory Btree_Walk
  imports Btree
begin

text \<open>
  Trees of pages, \<^verbatim>\<open>src/pkg/c2db/db_btree_gen.go\<close>: the child of an internal page, the walk from the root to a
  leaf and along the chain of leaves, deletion in the leaf a key belongs to, scans of all leaves. A page
  is internal when its byte 20 is 2 and a leaf when it is 1; its link (the next leaf, or the leftmost
  child) is the word at offset 8.

  \<open>nbytes\<close> and \<open>npages\<close> are kept as the code passes them; the callers use a slice of at least \<open>nbytes\<close> bytes.
\<close>

section \<open>Internal pages\<close>

fun child_loop :: "bytes \<Rightarrow> nat \<Rightarrow> nat \<Rightarrow> bytes \<Rightarrow> nat \<Rightarrow> nat \<Rightarrow> nat \<Rightarrow> nat" where
  "child_loop heap n base key v9 v6 0 = v9"
| "child_loop heap n base key v9 v6 (Suc k) =
     (let v23 = 64 + v6 * 2
      in if \<not> bt_off_ok n base v23 2 then v9
         else let v29 = unat (bt_read16 heap n (base + v23))
      in if \<not> bt_off_ok n base v29 4 then v9
         else let v34 = unat (bt_read16 heap n (base + v29))
      in if \<not> bt_off_ok n base v29 (4 + v34 + 8) then v9
         else if bt_keycmp_at heap n (base + v29 + 4) v34 key > 0 then v9
         else child_loop heap n base key (unat (bt_read64 heap n (base + v29 + 4 + v34))) (Suc v6) k)"

definition bt_internal_child :: "bytes \<Rightarrow> nat \<Rightarrow> nat \<Rightarrow> bytes \<Rightarrow> nat" where
  "bt_internal_child heap n base key =
     child_loop heap n base key (unat (bt_read64 heap n (base + 8))) 0 (unat (bt_read16 heap n (base + 22)))"

definition Db_bt_child_of :: "bytes \<Rightarrow> nat \<Rightarrow> nat \<Rightarrow> nat \<Rightarrow> bytes \<Rightarrow> nat" where
  "Db_bt_child_of heap nbytes npages root key =
     (if heap = [] \<or> npages = 0 then npages
      else if nbytes div 0x4000 \<noteq> npages then npages
      else if npages * 0x4000 \<noteq> nbytes then npages
      else if root \<ge> npages then npages
      else if key = [] \<or> length key > 0xffff then npages
      else let v26 = root * 0x4000
        in if bt_read8 heap nbytes (v26 + 20) = 2 then bt_internal_child heap nbytes v26 key else root)"

section \<open>The chain of leaves\<close>

fun nkeys_loop :: "bytes \<Rightarrow> nat \<Rightarrow> nat \<Rightarrow> nat \<Rightarrow> nat \<Rightarrow> nat \<Rightarrow> nat" where
  "nkeys_loop heap nbytes npages v4 v7 0 = v7"
| "nkeys_loop heap nbytes npages v4 v7 (Suc k) =
     (if v4 \<ge> npages then v7
      else let v8 = v4 * 0x4000;
               v7 = (if bt_read8 heap nbytes (v8 + 20) = 1 then v7 + unat (bt_read16 heap nbytes (v8 + 22)) else v7);
               v34 = unat (bt_read64 heap nbytes (v8 + 8))
      in if v34 = 0 then v7
         else if v34 = v4 then v7
         else nkeys_loop heap nbytes npages v34 v7 k)"

definition bt_heap_nkeys :: "bytes \<Rightarrow> nat \<Rightarrow> nat \<Rightarrow> nat \<Rightarrow> nat" where
  "bt_heap_nkeys heap nbytes npages root =
     (if root \<ge> npages then 0
      else let v8 = root * 0x4000;
               v4 = (if bt_read8 heap nbytes (v8 + 20) = 2 then unat (bt_read64 heap nbytes (v8 + 8)) else root)
      in nkeys_loop heap nbytes npages v4 0 npages)"

fun scan_heap_loop :: "bytes \<Rightarrow> nat \<Rightarrow> nat \<Rightarrow> bytes \<Rightarrow> nat \<Rightarrow> Db_bt_scan_t \<Rightarrow> bytes option \<Rightarrow> nat \<Rightarrow> nat \<Rightarrow> Db_bt_scan_t \<times> bytes option" where
  "scan_heap_loop heap nbytes npages prefix outn v8 out v10 0 = (v8\<lparr>sc_Ok := True\<rparr>, out)"
| "scan_heap_loop heap nbytes npages prefix outn v8 out v10 (Suc k) =
     (if v10 \<ge> npages then (v8, out)
      else let v13 = v10 * 0x4000; v14 = bt_read8 heap nbytes (v13 + 20); v12 = unat (bt_read64 heap nbytes (v13 + 8))
      in if v14 = 1
         then (case bt_scan_prefix_at heap nbytes v13 prefix out outn (sc_Nfound v8) of (v9, out) \<Rightarrow>
             if \<not> sc_Ok v9 then (v8, out)
             else let v8 = v8\<lparr>sc_Nfound := sc_Nfound v8 + sc_Nfound v9\<rparr>
               in if v12 = 0 \<or> v12 = v10 \<or> v12 \<ge> npages then (v8\<lparr>sc_Ok := True\<rparr>, out)
                  else scan_heap_loop heap nbytes npages prefix outn v8 out v12 k)
         else if v14 = 2
         then (if v12 \<ge> npages \<or> v12 = v10 then (v8, out)
               else scan_heap_loop heap nbytes npages prefix outn v8 out v12 k)
         else (v8, out))"

definition Db_bt_scan_prefix_heap ::
    "bytes \<Rightarrow> nat \<Rightarrow> nat \<Rightarrow> nat \<Rightarrow> bytes \<Rightarrow> bytes option \<Rightarrow> nat \<Rightarrow> Db_bt_scan_t \<times> bytes option" where
  "Db_bt_scan_prefix_heap heap nbytes npages root prefix out outn =
     (let v8 = \<lparr>sc_Nfound = 0, sc_Ok = False\<rparr>
      in if heap = [] \<or> npages = 0 then (v8, out)
         else if nbytes div 0x4000 \<noteq> npages then (v8, out)
         else if npages * 0x4000 \<noteq> nbytes then (v8, out)
         else if root \<ge> npages then (v8, out)
         else let v13 = root * 0x4000;
                  v10 = (if bt_read8 heap nbytes (v13 + 20) = 2 then unat (bt_read64 heap nbytes (v13 + 8)) else root)
         in scan_heap_loop heap nbytes npages prefix outn v8 out v10 npages)"

section \<open>From the root to a leaf\<close>

text \<open>
  The descent is shared by the two reads: Inl is the number of pages walked when a child is out of range
  or the page itself, Inr the page where it stops and the depth.
\<close>

fun descend :: "bytes \<Rightarrow> nat \<Rightarrow> nat \<Rightarrow> bytes \<Rightarrow> nat \<Rightarrow> nat \<Rightarrow> nat \<Rightarrow> nat + (nat \<times> nat)" where
  "descend heap nbytes npages key v9 v10 0 = Inr (v9, v10)"
| "descend heap nbytes npages key v9 v10 (Suc k) =
     (let v12 = v9 * 0x4000
      in if bt_read8 heap nbytes (v12 + 20) = 2
         then let v38 = bt_internal_child heap nbytes v12 key
           in if v38 \<ge> npages then Inl (v10 + 1)
              else if v38 = v9 then Inl (v10 + 1)
              else descend heap nbytes npages key v38 (Suc v10) k
         else Inr (v9, v10))"

text \<open>With a leaf as root, the chain of leaves is read until the key is found; \<open>get\<close> reads one leaf.\<close>

fun chain_get :: "bytes \<Rightarrow> nat \<Rightarrow> nat \<Rightarrow> (nat \<Rightarrow> bytes option \<Rightarrow> Db_bt_get_t \<times> bytes option) \<Rightarrow> Db_bt_get_t \<Rightarrow> bytes option
    \<Rightarrow> nat \<Rightarrow> nat \<Rightarrow> nat \<Rightarrow> Db_bt_get_t \<times> bytes option" where
  "chain_get heap nbytes npages get v8 out v9 v10 0 = (v8\<lparr>bg_Walked := v10, bg_Fallback := False\<rparr>, out)"
| "chain_get heap nbytes npages get v8 out v9 v10 (Suc k) =
     (if v9 \<ge> npages then (v8\<lparr>bg_Walked := v10\<rparr>, out)
      else let v12 = v9 * 0x4000
      in case get v12 out of (v8, out) \<Rightarrow>
         let v66 = unat (bt_read64 heap nbytes (v12 + 8))
         in if bg_Found v8 \<or> v66 = 0 \<or> v66 = v9 then (v8\<lparr>bg_Walked := v10 + 1, bg_Fallback := False\<rparr>, out)
            else chain_get heap nbytes npages get v8 out v66 (Suc v10) k)"

definition heap_get :: "bytes \<Rightarrow> nat \<Rightarrow> nat \<Rightarrow> nat \<Rightarrow> bytes \<Rightarrow> (nat \<Rightarrow> bytes option \<Rightarrow> Db_bt_get_t \<times> bytes option) \<Rightarrow> bytes option
    \<Rightarrow> Db_bt_get_t \<times> bytes option" where
  "heap_get heap nbytes npages root key get out =
     (if root \<ge> npages then (get_none, out)
      else case descend heap nbytes npages key root 0 npages of
        Inl w \<Rightarrow> (get_none\<lparr>bg_Walked := w\<rparr>, out)
      | Inr (v9, v10) \<Rightarrow>
          if bt_read8 heap nbytes (v9 * 0x4000 + 20) = 2 then (get_none\<lparr>bg_Walked := v10\<rparr>, out)
          else if v10 \<noteq> 0 then (case get (v9 * 0x4000) out of (v8, out) \<Rightarrow> (v8\<lparr>bg_Walked := v10 + 1, bg_Fallback := False\<rparr>, out))
          else chain_get heap nbytes npages get get_none out v9 v10 npages)"

definition Db_bt_get_heap :: "bytes \<Rightarrow> nat \<Rightarrow> nat \<Rightarrow> nat \<Rightarrow> bytes \<Rightarrow> bytes option \<Rightarrow> nat \<Rightarrow> Db_bt_get_t \<times> bytes option" where
  "Db_bt_get_heap heap nbytes npages root key out outn =
     (if heap = [] \<or> npages = 0 then (get_none, out)
      else if nbytes div 0x4000 \<noteq> npages then (get_none, out)
      else if npages * 0x4000 \<noteq> nbytes then (get_none, out)
      else heap_get heap nbytes npages root key (\<lambda>base out. bt_get_at heap nbytes base key out outn) out)"

definition Db_bt_get_as_of_heap :: "bytes \<Rightarrow> nat \<Rightarrow> nat \<Rightarrow> nat \<Rightarrow> bytes \<Rightarrow> bytes \<Rightarrow> bytes option \<Rightarrow> nat \<Rightarrow> Db_bt_get_t \<times> bytes option" where
  "Db_bt_get_as_of_heap heap nbytes npages root key snap16 out outn =
     (if heap = [] \<or> npages = 0 then (get_none, out)
      else if nbytes div 0x4000 \<noteq> npages then (get_none, out)
      else if npages * 0x4000 \<noteq> nbytes then (get_none, out)
      else if key = [] \<or> snap16 = [] \<or> length key > 0xffff then (get_none, out)
      else heap_get heap nbytes npages root key (\<lambda>base out. bt_get_as_of_at heap nbytes base key snap16 out outn) out)"

text \<open>The engine's read of a heap (\<^verbatim>\<open>getRawAsOfHeap\<close>, engine.go): None is not found.\<close>

definition getRawAsOfHeap :: "bytes \<Rightarrow> nat \<Rightarrow> bytes \<Rightarrow> bytes \<Rightarrow> bytes option" where
  "getRawAsOfHeap heap root key snap =
     (if length heap \<ge> 0x4000 \<and> heap ! 20 = 0 then None
      else let nbytes = length heap; npages = nbytes div 0x4000;
               probe = fst (Db_bt_get_as_of_heap heap nbytes npages root key snap None 0)
      in if \<not> bg_Found probe then None
         else case Db_bt_get_as_of_heap heap nbytes npages root key snap (Some (replicate (bg_Len probe) 0)) (bg_Len probe) of (got, out) \<Rightarrow>
           if \<not> bg_Found got then None else map_option (take (bg_Len got)) out)"

section \<open>Deletion\<close>

text \<open>Every page of the path is copied to the dirty heap before it is read. None is the return with \<open>Ok = 0\<close>.\<close>

fun del_walk :: "bytes \<Rightarrow> nat \<Rightarrow> nat \<Rightarrow> bytes \<Rightarrow> bytes \<Rightarrow> u64 \<Rightarrow> nat \<Rightarrow> nat \<Rightarrow> u64 option \<times> bytes" where
  "del_walk pub nbytes npages key dirty v14 v8 0 = (Some v14, dirty)"
| "del_walk pub nbytes npages key dirty v14 v8 (Suc k) =
     (if v8 \<ge> npages then (None, dirty)
      else case bt_cow_page pub dirty nbytes v8 v14 of (v14, dirty) \<Rightarrow>
        let v48 = v8 * 0x4000; v51 = bt_read8 dirty nbytes (v48 + 20)
        in if v51 = 2
           then let v54 = bt_internal_child dirty nbytes v48 key
             in if v54 \<ge> npages then (None, dirty)
                else if v54 = v8 then (None, dirty)
                else del_walk pub nbytes npages key dirty v14 v54 k
           else if v51 = 1 then (Some v14, snd (bt_del_at dirty nbytes v48 key))
           else (None, dirty))"

definition Db_bt_del_heap :: "bytes \<Rightarrow> bytes \<Rightarrow> nat \<Rightarrow> nat \<Rightarrow> Db_bt_heap_st_t \<Rightarrow> bytes \<Rightarrow> Db_bt_heap_st_t \<times> bytes" where
  "Db_bt_del_heap pub dirty nbytes npages st key =
     (let v7 = \<lparr>hs_Root = 0, hs_Used = 0, hs_Nkeys = 0, hs_Pages = 0, hs_Ok = False, hs_Full = False\<rparr>
      in if pub = [] \<or> dirty = [] \<or> npages = 0 then (v7, dirty)
         else if nbytes div 0x4000 \<noteq> npages then (v7, dirty)
         else if npages * 0x4000 \<noteq> nbytes then (v7, dirty)
         else if key = [] \<or> length key > 0xffff then (v7, dirty)
         else let v10 = (if hs_Used st = 0 then 1 else hs_Used st)
      in if hs_Root st \<ge> npages then (v7, dirty)
         else case del_walk pub nbytes npages key dirty 0 (hs_Root st) npages of
           (None, dirty) \<Rightarrow> (v7, dirty)
         | (Some v14, dirty) \<Rightarrow>
             (v7\<lparr>hs_Root := hs_Root st, hs_Used := v10, hs_Nkeys := bt_heap_nkeys dirty nbytes npages (hs_Root st), hs_Pages := v14, hs_Ok := True\<rparr>,
              dirty))"

end
