(* ===== verification/Btree_Leaf.thy ===== *)
theory Btree_Leaf
  imports Btree "HOL-Library.List_Lexorder" "HOL-Library.Product_Lexorder"
begin

text \<open>
  Leaves of versioned keys as sorted lists of cells: a well-formed leaf, the cells it holds, and what
  the kernels do to them.
\<close>

section \<open>Comparison of keys\<close>

definition ord3 :: "'a::linorder \<Rightarrow> 'a \<Rightarrow> int" where
  "ord3 a b = (if a < b then -1 else if a > b then 1 else 0)"

lemma ord3_simps [simp]:
  "ord3 a b > 0 \<longleftrightarrow> b < a" "ord3 a b < 0 \<longleftrightarrow> a < b" "ord3 a b = 0 \<longleftrightarrow> a = b" "ord3 a b \<le> 0 \<longleftrightarrow> a \<le> b" "ord3 a b \<ge> 0 \<longleftrightarrow> b \<le> a"
  by (auto simp: ord3_def)

lemma cmp_loop_cong:
  "(\<And>j. i \<le> j \<Longrightarrow> j < i + k \<Longrightarrow> f j = f' j \<and> g j = g' j) \<Longrightarrow> cmp_loop f g i k = cmp_loop f' g' i k"
  by (induction k arbitrary: i) auto

lemma cmp_loop_shift: "cmp_loop f g (Suc i) k = cmp_loop (\<lambda>j. f (Suc j)) (\<lambda>j. g (Suc j)) i k"
  by (induction k arbitrary: i) auto

lemma cmp_lists: "cmp_len (length a) (length b) (cmp_loop (nth a) (nth b) 0 (min (length a) (length b))) = ord3 a (b :: bytes)"
proof (induction a arbitrary: b)
  case (Cons x a)
  show ?case
  proof (cases b)
    case (Cons y c)
    have *: "cmp_loop (nth (x # a)) (nth (y # c)) 0 (min (length (x # a)) (length (y # c)))
        = (if x < y then -1 else if y < x then 1 else cmp_loop (nth a) (nth c) 0 (min (length a) (length c)))"
      by (simp add: cmp_loop_shift)
    show ?thesis
    proof (cases x y rule: linorder_cases)
      case equal
      have "ord3 (x # a) (y # c) = ord3 a c" by (simp add: equal ord3_def)
      moreover have "cmp_len (length (x # a)) (length (y # c)) r = cmp_len (length a) (length c) r" for r by (simp add: cmp_len_def)
      ultimately show ?thesis unfolding Cons using Cons.IH [of c] * equal by simp
    qed (simp_all only: Cons *, auto simp: cmp_len_def ord3_def)
  qed (simp add: cmp_len_def ord3_def)
next
  case Nil
  then show ?case by (cases b) (auto simp: cmp_len_def ord3_def)
qed

lemma keycmp_at_ord3:
  "aoff + alen \<le> n \<Longrightarrow> n \<le> length h \<Longrightarrow> bt_keycmp_at h n aoff alen b = ord3 (bslice h aoff alen) b"
proof -
  assume "aoff + alen \<le> n" "n \<le> length h"
  then have "cmp_loop (heap_byte h n aoff) (nth b) 0 (min alen (length b)) = cmp_loop (nth (bslice h aoff alen)) (nth b) 0 (min alen (length b))"
    by (intro cmp_loop_cong) (auto simp: heap_byte_def)
  with \<open>aoff + alen \<le> n\<close> \<open>n \<le> length h\<close> cmp_lists [of "bslice h aoff alen" b] show ?thesis
    by (simp add: bt_keycmp_at_def)
qed

lemma keycmp_pp_ord3:
  "aoff + alen \<le> n \<Longrightarrow> boff + blen \<le> n \<Longrightarrow> n \<le> length h
    \<Longrightarrow> bt_keycmp_pp h n aoff alen boff blen = ord3 (bslice h aoff alen) (bslice h boff blen)"
proof -
  assume *: "aoff + alen \<le> n" "boff + blen \<le> n" "n \<le> length h"
  then have "cmp_loop (heap_byte h n aoff) (heap_byte h n boff) 0 (min alen blen)
      = cmp_loop (nth (bslice h aoff alen)) (nth (bslice h boff blen)) 0 (min alen blen)"
    by (intro cmp_loop_cong) (auto simp: heap_byte_def)
  moreover have "length (bslice h aoff alen) = alen" "length (bslice h boff blen) = blen" "min n (length h) = n" "min alen (length h) = alen" "min blen (length h) = blen"
    using * by auto
  ultimately show ?thesis
    using cmp_lists [of "bslice h aoff alen" "bslice h boff blen"] by (simp only: bt_keycmp_pp_def Let_def)
qed

lemma keyeq_bslice: "koff + length key \<le> n \<Longrightarrow> n \<le> length h \<Longrightarrow> bt_keyeq h n koff key \<longleftrightarrow> bslice h koff (length key) = key"
  by (induction key arbitrary: koff) (auto simp: bslice_def Cons_nth_drop_Suc [symmetric])

section \<open>Reads and writes inside a page\<close>

definition get16 :: "bytes \<Rightarrow> nat \<Rightarrow> nat" where
  "get16 h a = unat (le_get16 (bslice h a 2))"

lemma get16_read [simp]: "a + 2 \<le> n \<Longrightarrow> n \<le> length h \<Longrightarrow> unat (bt_read16 h n a) = get16 h a"
  by (auto simp: bt_read16_def get16_def bslice_def Let_def)

lemma get16_less [simp]: "get16 h a < 65536"
  using unsigned_less [of "le_get16 (bslice h a 2)", where ?'a = nat] by (simp add: get16_def)

lemma get16_put [simp]: "a + 2 \<le> length h \<Longrightarrow> get16 (put_at h a (le_put16 v)) a = unat v"
  by (simp add: get16_def)

lemma get16_put_other [simp]: "a + 2 \<le> b \<or> b + length xs \<le> a \<Longrightarrow> b + length xs \<le> length h \<Longrightarrow> a + 2 \<le> length h \<Longrightarrow> get16 (put_at h b xs) a = get16 h a"
  unfolding get16_def by (subst bslice_put_at_other) auto

lemma write16_put [simp]: "a + 2 \<le> n \<Longrightarrow> n \<le> length h \<Longrightarrow> bt_write16 h n a v = put_at h a (le_put16 v)"
  by (auto simp: bt_write16_def Let_def)

lemma write16_length [simp]: "length (bt_write16 h n a v) = length h"
  by (simp add: bt_write16_def Let_def)

lemma copy_in_put [simp]: "a + length xs \<le> n \<Longrightarrow> n \<le> length h \<Longrightarrow> bt_copy_in h n a xs = put_at h a xs"
  by (induction xs arbitrary: a h) auto

lemma off_ok_page [simp]: "base + 0x4000 \<le> n \<Longrightarrow> bt_off_ok n base off len \<longleftrightarrow> off < 0x4000 \<and> off + len \<le> 0x4000"
  by (auto simp: bt_off_ok_def)

lemma read8_nth [simp]: "a < n \<Longrightarrow> n \<le> length h \<Longrightarrow> bt_read8 h n a = h ! a"
  by (auto simp: bt_read8_def Let_def)

section \<open>The cells of a leaf\<close>

type_synonym cell = "bytes \<times> bytes \<times> bytes"

definition cell_size :: "bytes \<Rightarrow> nat \<Rightarrow> nat" where
  "cell_size h a = 4 + get16 h a + 16 + get16 h (a + 2)"

definition cell_at :: "bytes \<Rightarrow> nat \<Rightarrow> cell" where
  "cell_at h a = (let k = get16 h a; v = get16 h (a + 2)
     in (bslice h (a + 4) k, bslice h (a + 4 + k) 16, bslice h (a + 4 + k + 16) v))"

definition leaf_slot :: "bytes \<Rightarrow> nat \<Rightarrow> nat \<Rightarrow> nat" where
  "leaf_slot h base i = get16 h (base + (64 + i * 2))"

definition leaf_cells :: "bytes \<Rightarrow> nat \<Rightarrow> cell list" where
  "leaf_cells h base = map (\<lambda>i. cell_at h (base + leaf_slot h base i)) [0..<get16 h (base + 22)]"

abbreviation ver :: "cell \<Rightarrow> bytes \<times> bytes" where
  "ver c \<equiv> (fst c, fst (snd c))"

text \<open>The layout of a leaf: the header, the slots below the lower bound, and the cells above the upper bound.\<close>

definition leaf_layout :: "bytes \<Rightarrow> nat \<Rightarrow> nat \<Rightarrow> bool" where
  "leaf_layout h n base \<longleftrightarrow>
     base + 0x4000 \<le> n \<and> n \<le> length h \<and> h ! (base + 20) = 1
     \<and> get16 h (base + 24) = 64 + get16 h (base + 22) * 2
     \<and> get16 h (base + 24) \<le> get16 h (base + 26) \<and> get16 h (base + 26) \<le> 0x4000
     \<and> (\<forall>i < get16 h (base + 22). get16 h (base + 26) \<le> leaf_slot h base i
          \<and> leaf_slot h base i + cell_size h (base + leaf_slot h base i) \<le> 0x4000)"

definition leaf_wf :: "bytes \<Rightarrow> nat \<Rightarrow> nat \<Rightarrow> bool" where
  "leaf_wf h n base \<longleftrightarrow> leaf_layout h n base \<and> sorted (map ver (leaf_cells h base))"

definition leaf_free :: "bytes \<Rightarrow> nat \<Rightarrow> nat" where
  "leaf_free h base = get16 h (base + 26) - get16 h (base + 24)"

definition insert_ver :: "cell \<Rightarrow> cell list \<Rightarrow> cell list" where
  "insert_ver c cs = takeWhile (\<lambda>d. ver d \<le> ver c) cs @ [c] @ dropWhile (\<lambda>d. ver d \<le> ver c) cs"

lemma sorted_insert_by:
  fixes f :: "'a \<Rightarrow> 'b::linorder"
  shows "sorted (map f cs) \<Longrightarrow> sorted (map f (takeWhile (\<lambda>d. f d \<le> f c) cs @ [c] @ dropWhile (\<lambda>d. f d \<le> f c) cs))"
proof (induction cs)
  case (Cons d cs)
  then show ?case
    by (auto dest: set_takeWhileD set_dropWhileD)
qed simp

lemma sorted_insert_ver: "sorted (map ver cs) \<Longrightarrow> sorted (map ver (insert_ver c cs))"
  unfolding insert_ver_def by (rule sorted_insert_by)

lemma length_insert_ver [simp]: "length (insert_ver c cs) = Suc (length cs)"
  unfolding insert_ver_def by (induction cs) auto

lemma leaf_layoutD:
  assumes "leaf_layout h n base"
  shows "base + 0x4000 \<le> n" "n \<le> length h" "h ! (base + 20) = 1" "get16 h (base + 24) = 64 + get16 h (base + 22) * 2"
    "get16 h (base + 24) \<le> get16 h (base + 26)" "get16 h (base + 26) \<le> 0x4000"
    "i < get16 h (base + 22) \<Longrightarrow> get16 h (base + 26) \<le> leaf_slot h base i"
    "i < get16 h (base + 22) \<Longrightarrow> leaf_slot h base i + cell_size h (base + leaf_slot h base i) \<le> 0x4000"
  using assms by (auto simp: leaf_layout_def)

section \<open>Finding the place of a version\<close>

lemma ver_pos_at_loop_takeWhile:
  assumes "leaf_layout h n base"
  shows "v + k \<le> get16 h (base + 22) \<Longrightarrow> ver_pos_at_loop h n base key id16 v k
    = v + length (takeWhile (\<lambda>d. ver d \<le> (key, id16)) (map (\<lambda>i. cell_at h (base + leaf_slot h base i)) [v..<v + k]))"
proof (induction k arbitrary: v)
  case (Suc k)
  note L = leaf_layoutD [OF assms]
  define s where "s = leaf_slot h base v"
  have b: "64 + v * 2 + 2 \<le> 0x4000" and c: "s + cell_size h (base + s) \<le> 0x4000"
    using L(4,5,6) L(8) [of v] Suc.prems by (auto simp: s_def)
  have u: "[v..<v + Suc k] = v # [Suc v..<Suc v + k]" using upt_conv_Cons by simp
  have r: "unat (bt_read16 h n (base + (64 + v * 2))) = s"
    using b L(1,2) by (subst get16_read) (auto simp: s_def leaf_slot_def)
  have k1: "unat (bt_read16 h n (base + s)) = get16 h (base + s)" using c L(1,2) by (subst get16_read) (auto simp: cell_size_def)
  have k2: "bt_keycmp_at h n (base + s + 4) (get16 h (base + s)) key = ord3 (fst (cell_at h (base + s))) key"
    "bt_keycmp_at h n (base + s + 4 + get16 h (base + s)) 16 id16 = ord3 (fst (snd (cell_at h (base + s)))) id16"
    using c L(1,2) by (simp_all add: keycmp_at_ord3 cell_at_def cell_size_def Let_def)
  have o: "bt_off_ok n base (64 + v * 2) 2" "bt_off_ok n base s 4" "bt_off_ok n base s (4 + get16 h (base + s) + 16)"
    using b c L(1) by (auto simp: cell_size_def)
  have IH: "ver_pos_at_loop h n base key id16 (Suc v) k = Suc v + length (takeWhile (\<lambda>d. ver d \<le> (key, id16)) (map (\<lambda>i. cell_at h (base + leaf_slot h base i)) [Suc v..<Suc v + k]))"
    using Suc.IH [of "Suc v"] Suc.prems by simp
  show ?case
    unfolding u list.map takeWhile.simps s_def [symmetric]
    by (simp only: ver_pos_at_loop.simps Let_def r k1 k2 o IH ord3_simps) (auto simp: not_le not_less)
qed simp

lemma find_ver_pos_at:
  assumes "leaf_layout h n base"
  shows "bt_find_ver_pos_at h n base key id16 = length (takeWhile (\<lambda>d. ver d \<le> (key, id16)) (leaf_cells h base))"
  using ver_pos_at_loop_takeWhile [OF assms, of 0] leaf_layoutD(1,2) [OF assms]
  by (simp add: bt_find_ver_pos_at_def leaf_cells_def)

section \<open>Writing a cell and its slot\<close>

definition cell_bytes :: "cell \<Rightarrow> bytes" where
  "cell_bytes c = (case c of (key, id16, val) \<Rightarrow> le_put16 (of_nat (length key)) @ le_put16 (of_nat (length val)) @ key @ id16 @ val)"

lemma cell_bytes_length: "length (cell_bytes (key, id16, val)) = 4 + length key + length id16 + length val"
  by (simp add: cell_bytes_def)

lemma put_at_app: "b = a + length xs \<Longrightarrow> b + length ys \<le> length p \<Longrightarrow> put_at (put_at p a xs) b ys = put_at p a (xs @ ys)"
  by (simp add: put_at_append)

lemma put_cell_put:
  assumes "a + 4 + length key + length id16 + length val \<le> n" "n \<le> length h"
  shows "put_cell h n a key id16 val = put_at h a (cell_bytes (key, id16, val))"
proof (cases "val = []")
  case True
  with assms show ?thesis by (simp add: put_cell_def cell_bytes_def put_at_app)
next
  case False
  with assms show ?thesis by (simp add: put_cell_def cell_bytes_def put_at_app)
qed

lemma slot_shift_effect:
  assumes "base + 64 + m * 2 + 2 \<le> n" "n \<le> length h" "pos \<le> m"
  shows "length (slot_shift h n base pos m) = length h \<and>
    (\<forall>a k. a + k \<le> length h \<longrightarrow> a + k \<le> base + 64 + pos * 2 + 2 \<or> base + 64 + m * 2 + 2 \<le> a \<longrightarrow> bslice (slot_shift h n base pos m) a k = bslice h a k) \<and>
    (\<forall>i \<le> m. leaf_slot (slot_shift h n base pos m) base i = leaf_slot h base (if pos < i then i - 1 else i))"
  using assms
proof (induction m arbitrary: h)
  case (Suc m)
  show ?case
  proof (cases "pos \<le> m")
    case True
    define h1 where "h1 = put_at h (base + (64 + Suc m * 2)) (le_put16 (bt_read16 h n (base + (64 + m * 2))))"
    have w: "slot_shift h n base pos (Suc m) = slot_shift h1 n base pos m"
      using True Suc.prems by (simp add: h1_def)
    have l1: "length h1 = length h" by (simp add: h1_def)
    note IH = Suc.IH [of h1, unfolded l1]
    have IH': "length (slot_shift h1 n base pos m) = length h"
      "\<And>a k. a + k \<le> length h \<Longrightarrow> a + k \<le> base + 64 + pos * 2 + 2 \<or> base + 64 + m * 2 + 2 \<le> a \<Longrightarrow> bslice (slot_shift h1 n base pos m) a k = bslice h1 a k"
      "\<And>i. i \<le> m \<Longrightarrow> leaf_slot (slot_shift h1 n base pos m) base i = leaf_slot h1 base (if pos < i then i - 1 else i)"
      using IH True Suc.prems by auto
    have f1: "bslice h1 a k = bslice h a k" if "a + k \<le> length h" "a + k \<le> base + (64 + Suc m * 2) \<or> base + 64 + Suc m * 2 + 2 \<le> a" for a k
      unfolding h1_def using that Suc.prems by (intro bslice_put_at_other) auto
    have s1: "leaf_slot h1 base i = leaf_slot h base i" if "i \<le> m" for i
      unfolding leaf_slot_def get16_def using that Suc.prems by (subst f1) auto
    have top: "leaf_slot h1 base (Suc m) = leaf_slot h base m"
      unfolding leaf_slot_def h1_def using Suc.prems by (subst get16_put) auto
    have t2: "leaf_slot (slot_shift h1 n base pos m) base (Suc m) = leaf_slot h1 base (Suc m)"
      unfolding leaf_slot_def get16_def using Suc.prems IH'(2) by simp
    show ?thesis
      unfolding w
    proof (intro conjI allI impI)
      show "length (slot_shift h1 n base pos m) = length h" by (rule IH'(1))
    next
      fix a k assume "a + k \<le> length h" "a + k \<le> base + 64 + pos * 2 + 2 \<or> base + 64 + Suc m * 2 + 2 \<le> a"
      then show "bslice (slot_shift h1 n base pos m) a k = bslice h a k"
        using True by (subst IH'(2)) (auto intro!: f1)
    next
      fix i assume "i \<le> Suc m"
      then show "leaf_slot (slot_shift h1 n base pos m) base i = leaf_slot h base (if pos < i then i - 1 else i)"
        using True s1 top t2 IH'(3) by (cases "i = Suc m") (auto simp: le_Suc_eq)
    qed
  next
    case False
    with Suc.prems have "pos = Suc m" by simp
    then show ?thesis by simp
  qed
qed auto

lemma slot_insert_effect:
  fixes v :: u16
  assumes "base + 64 + m * 2 + 2 \<le> n" "n \<le> length h" "pos \<le> m"
  defines "t \<equiv> bt_slot_insert_at h n base pos m v"
  shows "length t = length h"
    "a + k \<le> length h \<Longrightarrow> a + k \<le> base + 64 + pos * 2 \<or> base + 64 + m * 2 + 2 \<le> a \<Longrightarrow> bslice t a k = bslice h a k"
    "i \<le> m \<Longrightarrow> leaf_slot t base i = (if i = pos then unat v else leaf_slot h base (if pos < i then i - 1 else i))"
proof -
  define g where "g = slot_shift h n base pos m"
  have mn: "min n (length h) = n" using assms by simp
  note S = slot_shift_effect [OF assms(1-3), folded g_def]
  have t: "t = put_at g (base + (64 + pos * 2)) (le_put16 v)"
    unfolding t_def bt_slot_insert_at_def Let_def mn g_def [symmetric]
    using S assms(1-3) by (subst write16_put) auto
  show "length t = length h" using S by (simp add: t)
  have f: "bslice t a k = bslice g a k" if "a + k \<le> length h" "a + k \<le> base + 64 + pos * 2 \<or> base + 64 + pos * 2 + 2 \<le> a" for a k
    unfolding t using S that assms(1-3) by (intro bslice_put_at_other) auto
  show "bslice t a k = bslice h a k" if "a + k \<le> length h" "a + k \<le> base + 64 + pos * 2 \<or> base + 64 + m * 2 + 2 \<le> a"
    using that assms(3) S f [of a k] by auto
  show "leaf_slot t base i = (if i = pos then unat v else leaf_slot h base (if pos < i then i - 1 else i))" if "i \<le> m"
  proof (cases "i = pos")
    case True
    then show ?thesis unfolding t leaf_slot_def using S assms(1-3) by (subst True, subst get16_put) auto
  next
    case False
    then have "leaf_slot t base i = leaf_slot g base i"
      unfolding leaf_slot_def get16_def using that assms(1-3) by (subst f) auto
    with False that S show ?thesis by simp
  qed
qed

section \<open>Insertion of a version\<close>

definition ver_len :: "cell \<Rightarrow> nat" where
  "ver_len c = 4 + length (fst c) + 16 + length (snd (snd c))"

definition cell_ok :: "cell \<Rightarrow> bool" where
  "cell_ok c \<longleftrightarrow> fst c \<noteq> [] \<and> length (fst c) \<le> 0xffff \<and> length (fst (snd c)) = 16 \<and> length (snd (snd c)) \<le> 0xffff"

text \<open>Without room for the cell and its slot the leaf is left alone.\<close>

lemma insert_ver_full:
  assumes L: "leaf_layout h n base" and "\<not> ver_len (key, id16, val) + 2 \<le> leaf_free h base"
  shows "\<not> bs_Ok (fst (bt_insert_ver_at h n base key id16 val)) \<and> snd (bt_insert_ver_at h n base key id16 val) = h"
proof -
  note D = leaf_layoutD [OF L]
  have r: "unat (bt_read16 h n (base + a)) = get16 h (base + a)" if "a \<le> 26" for a
    using D(1,2) that by (subst get16_read) auto
  have o: "ver_len (key, id16, val) = 4 + length key + 16 + length val" by (simp add: ver_len_def)
  show ?thesis
    using assms(2) D(5) unfolding leaf_free_def o
    by (auto simp: bt_insert_ver_at_def r Let_def)
qed

lemma insert_ver_steps:
  assumes L: "leaf_layout h n base" and ok: "cell_ok (key, id16, val)" and room: "ver_len (key, id16, val) + 2 \<le> leaf_free h base"
  defines "m \<equiv> get16 h (base + 22)" and "c \<equiv> get16 h (base + 26) - ver_len (key, id16, val)"
    and "pos \<equiv> length (takeWhile (\<lambda>d. ver d \<le> (key, id16)) (leaf_cells h base))"
  shows "bt_insert_ver_at h n base key id16 val =
    (\<lparr>bs_Nkeys = m + 1, bs_Ok = True, bs_Copied = False\<rparr>,
     put_at (put_at (put_at
       (bt_slot_insert_at (put_at h (base + c) (cell_bytes (key, id16, val))) n base pos m (of_nat c))
       (base + 22) (le_put16 (of_nat (m + 1)))) (base + 24) (le_put16 (of_nat (64 + m * 2 + 2)))) (base + 26) (le_put16 (of_nat c)))"
proof -
  note D = leaf_layoutD [OF L]
  have r: "unat (bt_read16 h n (base + a)) = get16 h (base + a)" if "a \<le> 26" for a
    using D(1,2) that by (subst get16_read) auto
  have r8: "bt_read8 h n (base + 20) = 1" using D(1,2,3) by simp
  have len: "ver_len (key, id16, val) = 4 + length key + 16 + length val" "length id16 = 16" "key \<noteq> []" "id16 \<noteq> []" "h \<noteq> []"
    using ok D(1,2) by (auto simp: ver_len_def cell_ok_def)
  have cell: "c + (4 + length key + 16 + length val) = get16 h (base + 26)" "66 + m * 2 \<le> c"
    using room D(4,5) unfolding c_def m_def leaf_free_def len(1) by auto
  have pos: "pos \<le> m" using length_takeWhile_le [of _ "leaf_cells h base"] by (simp add: pos_def m_def leaf_cells_def)
  have p: "put_cell h n (base + c) key id16 val = put_at h (base + c) (cell_bytes (key, id16, val))"
    using cell D(1,2,6) len(2) by (intro put_cell_put) auto
  have f: "min (bt_find_ver_pos_at h n base key id16) m = pos"
    using find_ver_pos_at [OF L] pos by (simp add: pos_def)
  have q: "length (bt_slot_insert_at (put_at h (base + c) (cell_bytes (key, id16, val))) n base pos m (of_nat c)) = length h"
    using cell D(1,2,6) pos by (subst slot_insert_effect(1)) auto
  have c': "get16 h (base + 26) - (4 + length key + 16 + length val) = c" using cell by simp
  have g: "\<not> (get16 h (base + 24) \<ge> 0x4000 \<or> 2 > 0x4000 - get16 h (base + 24))" "\<not> (4 + length key + 16 + length val > get16 h (base + 26))"
    "\<not> (get16 h (base + 24) < 64 \<or> get16 h (base + 26) > 0x4000 \<or> get16 h (base + 24) > get16 h (base + 26))"
    "\<not> (get16 h (base + 24) + 2 > c \<or> \<not> bt_off_ok n base c (4 + length key + 16 + length val))"
    "\<not> (length key > 0xffff \<or> length val > 0xffff)"
    using cell D(1,4,5,6) len ok by (auto simp: m_def cell_ok_def)
  have w: "bt_write16 x n (base + 22) v = put_at x (base + 22) (le_put16 v)" "bt_write16 x n (base + 24) v = put_at x (base + 24) (le_put16 v)"
    "bt_write16 x n (base + 26) v = put_at x (base + 26) (le_put16 v)" if "length x = length h" for x v
    using that D(1,2) by (simp_all add: write16_put)
  show ?thesis
    unfolding bt_insert_ver_at_def
    using len(3-5) g q r8 p f D(4) c'
    by (simp add: r w Let_def m_def [symmetric])
qed

lemma unat_u16 [simp]: "x < 65536 \<Longrightarrow> unat (of_nat x :: u16) = x"
  by (simp add: unsigned_of_nat take_bit_nat_eq_self)

lemma hdr_frame:
  assumes "base + 28 \<le> length x" "length p = 2" "length q = 2" "length r = 2"
    "a + k \<le> length x" "a + k \<le> base + 22 \<or> base + 28 \<le> a"
  shows "bslice (put_at (put_at (put_at x (base + 22) p) (base + 24) q) (base + 26) r) a k = bslice x a k"
proof -
  have "bslice (put_at (put_at (put_at x (base + 22) p) (base + 24) q) (base + 26) r) a k = bslice (put_at (put_at x (base + 22) p) (base + 24) q) a k"
    using assms by (intro bslice_put_at_other) auto
  also have "\<dots> = bslice (put_at x (base + 22) p) a k" using assms by (intro bslice_put_at_other) auto
  also have "\<dots> = bslice x a k" using assms by (intro bslice_put_at_other) auto
  finally show ?thesis .
qed

lemma insert_ver_effect:
  assumes L: "leaf_layout h n base" and ok: "cell_ok (key, id16, val)" and room: "ver_len (key, id16, val) + 2 \<le> leaf_free h base"
  defines "m \<equiv> get16 h (base + 22)" and "c \<equiv> get16 h (base + 26) - ver_len (key, id16, val)"
    and "pos \<equiv> length (takeWhile (\<lambda>d. ver d \<le> (key, id16)) (leaf_cells h base))"
    and "h' \<equiv> snd (bt_insert_ver_at h n base key id16 val)"
  shows "length h' = length h"
    "get16 h' (base + 22) = m + 1" "get16 h' (base + 24) = 64 + m * 2 + 2" "get16 h' (base + 26) = c"
    "i \<le> m \<Longrightarrow> leaf_slot h' base i = (if i = pos then c else leaf_slot h base (if pos < i then i - 1 else i))"
    "a + k \<le> length h \<Longrightarrow> a + k \<le> base + 22 \<or> base + 28 \<le> a \<and> a + k \<le> base + 64 \<or> base + get16 h (base + 26) \<le> a \<Longrightarrow> bslice h' a k = bslice h a k"
    "bslice h' (base + c) (ver_len (key, id16, val)) = cell_bytes (key, id16, val)"
    "66 + m * 2 \<le> c" "c + ver_len (key, id16, val) = get16 h (base + 26)" "pos \<le> m"
proof -
  note D = leaf_layoutD [OF L]
  show c: "66 + m * 2 \<le> c" "c + ver_len (key, id16, val) = get16 h (base + 26)"
    using room D(4,5) unfolding c_def m_def leaf_free_def by auto
  show pos: "pos \<le> m" using length_takeWhile_le [of _ "leaf_cells h base"] by (simp add: pos_def m_def leaf_cells_def)
  have len: "length (cell_bytes (key, id16, val)) = ver_len (key, id16, val)" using ok by (simp add: cell_bytes_length ver_len_def cell_ok_def)
  define h1 where "h1 = put_at h (base + c) (cell_bytes (key, id16, val))"
  define h2 where "h2 = bt_slot_insert_at h1 n base pos m (of_nat c)"
  have l1: "length h1 = length h" by (simp add: h1_def)
  have sl: "base + 64 + m * 2 + 2 \<le> n" "n \<le> length h1" using c D(1,2,6) l1 by auto
  note S = slot_insert_effect [OF sl pos, where v = "of_nat c", folded h2_def, unfolded l1]
  have cl: "c < 65536" using c D(6) by simp
  have h': "h' = put_at (put_at (put_at h2 (base + 22) (le_put16 (of_nat (m + 1)))) (base + 24) (le_put16 (of_nat (64 + m * 2 + 2)))) (base + 26) (le_put16 (of_nat c))"
    unfolding h'_def insert_ver_steps [OF L ok room] h2_def h1_def m_def c_def pos_def by simp
  have l: "base + 0x4000 \<le> length h" using D(1,2) by simp
  show "length h' = length h" using S(1) by (simp add: h')
  show "get16 h' (base + 22) = m + 1" "get16 h' (base + 24) = 64 + m * 2 + 2" "get16 h' (base + 26) = c"
    unfolding h' using S(1) l c D(6) cl by (simp_all del: of_nat_Suc of_nat_add)
  have F: "bslice h' a k = bslice h2 a k" if "a + k \<le> length h" "a + k \<le> base + 22 \<or> base + 28 \<le> a" for a k
    unfolding h' using that l S(1) by (intro hdr_frame) auto
  have G: "bslice h1 a k = bslice h a k" if "a + k \<le> length h" "a + k \<le> base + c \<or> base + get16 h (base + 26) \<le> a" for a k
    unfolding h1_def using that c l D(6) len by (intro bslice_put_at_other) auto
  show "bslice h' a k = bslice h a k"
    if "a + k \<le> length h" "a + k \<le> base + 22 \<or> base + 28 \<le> a \<and> a + k \<le> base + 64 \<or> base + get16 h (base + 26) \<le> a" for a k
    using that c F [of a k] S(2) [of a k] G [of a k] by auto
  show "bslice h' (base + c) (ver_len (key, id16, val)) = cell_bytes (key, id16, val)"
    using c l D(6) F [of "base + c"] S(2) [of "base + c"] len by (simp add: h1_def)
  show "leaf_slot h' base i = (if i = pos then c else leaf_slot h base (if pos < i then i - 1 else i))" if "i \<le> m" for i
  proof -
    have "leaf_slot h' base i = leaf_slot h2 base i" unfolding leaf_slot_def get16_def using that c l D(6) by (subst F) auto
    moreover have "leaf_slot h1 base j = leaf_slot h base j" if "j \<le> m" for j
      unfolding leaf_slot_def get16_def using that c l D(6) by (subst G) auto
    ultimately show ?thesis using S(3) [OF that] that cl by auto
  qed
qed

lemma bslice_bslice: "d + k \<le> s \<Longrightarrow> bslice (bslice p a s) d k = bslice p (a + d) k"
  by (simp add: bslice_def drop_take add.commute)

lemma get16_bslice: "d + 2 \<le> s \<Longrightarrow> get16 h (a + d) = get16 (bslice h a s) d"
  by (simp add: get16_def bslice_bslice)

lemma bslice_part: "bslice p a s = q \<Longrightarrow> d + k \<le> s \<Longrightarrow> bslice p (a + d) k = bslice q d k"
  by (simp add: bslice_bslice [symmetric])

lemma cell_at_cong:
  assumes eq: "bslice h' a (cell_size h a) = bslice h a (cell_size h a)"
  shows "cell_at h' a = cell_at h a" "cell_size h' a = cell_size h a"
proof -
  have p: "bslice h' (a + d) k = bslice h (a + d) k" if "d + k \<le> cell_size h a" for d k
    using bslice_part [OF eq that] bslice_part [OF refl that, of h a] by simp
  have g: "get16 h' a = get16 h a" "get16 h' (a + 2) = get16 h (a + 2)"
    using p [of 0 2] p [of 2 2] by (simp_all add: get16_def cell_size_def)
  then show "cell_size h' a = cell_size h a" by (simp add: cell_size_def)
  have "bslice h' (a + 4) (get16 h a) = bslice h (a + 4) (get16 h a)"
    "bslice h' (a + (4 + get16 h a)) 16 = bslice h (a + (4 + get16 h a)) 16"
    "bslice h' (a + (4 + get16 h a + 16)) (get16 h (a + 2)) = bslice h (a + (4 + get16 h a + 16)) (get16 h (a + 2))"
    by (rule p, simp add: cell_size_def)+
  then show "cell_at h' a = cell_at h a"
    unfolding cell_at_def g Let_def by (simp add: add.assoc)
qed

lemma cell_at_bytes:
  assumes eq: "bslice h a (ver_len c) = cell_bytes c" and ok: "cell_ok c"
  shows "cell_at h a = c" "cell_size h a = ver_len c"
proof -
  obtain key id16 val where c: "c = (key, id16, val)" by (cases c)
  have l: "length key \<le> 65535" "length id16 = 16" "length val \<le> 65535" using ok by (auto simp: cell_ok_def c)
  have g: "get16 h a = length key" "get16 h (a + 2) = length val"
    using l eq get16_bslice [of 0 "ver_len c" h a] get16_bslice [of 2 "ver_len c" h a]
    by (simp_all add: ver_len_def c cell_bytes_def get16_def bslice_def)
  then show "cell_size h a = ver_len c" by (simp add: cell_size_def ver_len_def c)
  have s: "bslice h (a + d) k = bslice (cell_bytes c) d k" if "d + k \<le> ver_len c" for d k
    by (rule bslice_part [OF eq that])
  have "bslice h (a + 4) (length key) = key" "bslice h (a + (4 + length key)) 16 = id16" "bslice h (a + (4 + length key + 16)) (length val) = val"
    using l by (subst s; simp add: ver_len_def c cell_bytes_def bslice_def)+
  then show "cell_at h a = c" unfolding cell_at_def g Let_def by (simp add: c add.assoc)
qed

lemma map_insert_at:
  "p \<le> m \<Longrightarrow> map (\<lambda>i. if i = p then c else f (if p < i then i - 1 else i)) [0..<Suc m] = take p (map f [0..<m]) @ [c] @ drop p (map f [0..<m])"
  by (rule nth_equalityI) (auto simp: nth_append nth_Cons' simp del: upt_Suc)

lemma insert_ver_cells:
  assumes L: "leaf_layout h n base" and ok: "cell_ok (key, id16, val)" and room: "ver_len (key, id16, val) + 2 \<le> leaf_free h base"
  defines "h' \<equiv> snd (bt_insert_ver_at h n base key id16 val)"
  shows "leaf_cells h' base = insert_ver (key, id16, val) (leaf_cells h base)" "leaf_layout h' n base"
proof -
  note D = leaf_layoutD [OF L] and E = insert_ver_effect [OF L ok room, folded h'_def]
  define m where "m = get16 h (base + 22)"
  define c where "c = get16 h (base + 26) - ver_len (key, id16, val)"
  define pos where "pos = length (takeWhile (\<lambda>d. ver d \<le> (key, id16)) (leaf_cells h base))"
  note E = E [folded m_def c_def pos_def]
  have new: "cell_at h' (base + c) = (key, id16, val)" "cell_size h' (base + c) = ver_len (key, id16, val)"
    using cell_at_bytes [OF E(7) ok] by auto
  have old: "cell_at h' (base + leaf_slot h base i) = cell_at h (base + leaf_slot h base i)"
    "cell_size h' (base + leaf_slot h base i) = cell_size h (base + leaf_slot h base i)" if "i < m" for i
  proof -
    have "bslice h' (base + leaf_slot h base i) (cell_size h (base + leaf_slot h base i)) = bslice h (base + leaf_slot h base i) (cell_size h (base + leaf_slot h base i))"
      using that D(1,2) D(7,8) [of i] by (intro E(6)) (auto simp: m_def)
    then show "cell_at h' (base + leaf_slot h base i) = cell_at h (base + leaf_slot h base i)"
      "cell_size h' (base + leaf_slot h base i) = cell_size h (base + leaf_slot h base i)" by (rule cell_at_cong)+
  qed
  have "leaf_cells h' base = map (\<lambda>i. if i = pos then (key, id16, val) else cell_at h (base + leaf_slot h base (if pos < i then i - 1 else i))) [0..<Suc m]"
    unfolding leaf_cells_def E(2) Suc_eq_plus1 [symmetric]
  proof (rule map_cong [OF refl])
    fix i assume "i \<in> set [0..<Suc m]"
    then have i: "i \<le> m" by auto
    then have "i \<noteq> pos \<Longrightarrow> (if pos < i then i - 1 else i) < m" using E(10) by auto
    then show "cell_at h' (base + leaf_slot h' base i) = (if i = pos then (key, id16, val) else cell_at h (base + leaf_slot h base (if pos < i then i - 1 else i)))"
      using E(5) [OF i] new(1) old(1) by presburger
  qed
  also have "\<dots> = take pos (leaf_cells h base) @ [(key, id16, val)] @ drop pos (leaf_cells h base)"
    using map_insert_at [OF E(10), of "(key, id16, val)" "\<lambda>i. cell_at h (base + leaf_slot h base i)"] by (simp only: leaf_cells_def m_def)
  finally show "leaf_cells h' base = insert_ver (key, id16, val) (leaf_cells h base)"
    by (simp add: insert_ver_def pos_def takeWhile_eq_take [symmetric] dropWhile_eq_drop [symmetric])
  have "h' ! (base + 20) = h ! (base + 20)"
  proof -
    have "bslice h' (base + 20) 1 = bslice h (base + 20) 1" using D(1,2) by (intro E(6)) auto
    then show ?thesis using D(1,2) E(1) bslice_nth [of 0 1 "base + 20" h'] bslice_nth [of 0 1 "base + 20" h] by simp
  qed
  moreover have "c \<le> leaf_slot h' base i \<and> leaf_slot h' base i + cell_size h' (base + leaf_slot h' base i) \<le> 0x4000" if "i < Suc m" for i
  proof (cases "i = pos")
    case True
    then show ?thesis using that E(5) [of i] E(9) D(6) new by simp
  next
    case False
    define j where "j = (if pos < i then i - 1 else i)"
    have "j < m" using False that E(10) by (auto simp: j_def)
    moreover have "leaf_slot h' base i = leaf_slot h base j" using E(5) [of i] False that by (simp add: j_def)
    ultimately show ?thesis using old(2) [of j] D(7,8) [of j] E(9) by (simp add: m_def)
  qed
  ultimately show "leaf_layout h' n base"
    unfolding leaf_layout_def E(1-4) using D(1,2,3,6) E(8,9) by auto
qed

theorem insert_ver_refines:
  assumes "leaf_wf h n base" "cell_ok (key, id16, val)"
  shows "case bt_insert_ver_at h n base key id16 val of (st, h') \<Rightarrow>
    if ver_len (key, id16, val) + 2 \<le> leaf_free h base
    then bs_Ok st \<and> bs_Nkeys st = length (leaf_cells h' base) \<and> leaf_wf h' n base
      \<and> leaf_cells h' base = insert_ver (key, id16, val) (leaf_cells h base)
      \<and> take (base + 22) h' = take (base + 22) h \<and> drop (base + 0x4000) h' = drop (base + 0x4000) h
    else \<not> bs_Ok st \<and> h' = h"
proof (cases "ver_len (key, id16, val) + 2 \<le> leaf_free h base")
  case True
  have L: "leaf_layout h n base" using assms(1) by (simp add: leaf_wf_def)
  note E = insert_ver_effect [OF L assms(2) True] and C = insert_ver_cells [OF L assms(2) True] and D = leaf_layoutD [OF L]
  have "bslice (snd (bt_insert_ver_at h n base key id16 val)) 0 (base + 22) = bslice h 0 (base + 22)"
    using D(1,2) by (intro E(6)) auto
  moreover have "bslice (snd (bt_insert_ver_at h n base key id16 val)) (base + 0x4000) (length h - (base + 0x4000)) = bslice h (base + 0x4000) (length h - (base + 0x4000))"
    using D(1,2,6) by (intro E(6)) auto
  ultimately have F: "take (base + 22) (snd (bt_insert_ver_at h n base key id16 val)) = take (base + 22) h"
    "drop (base + 0x4000) (snd (bt_insert_ver_at h n base key id16 val)) = drop (base + 0x4000) h"
    using E(1) by (simp_all add: bslice_def)
  have "fst (bt_insert_ver_at h n base key id16 val) = \<lparr>bs_Nkeys = get16 h (base + 22) + 1, bs_Ok = True, bs_Copied = False\<rparr>"
    by (simp add: insert_ver_steps [OF L assms(2) True])
  then show ?thesis
    unfolding case_prod_beta
    using True C F assms(1) sorted_insert_ver [of "leaf_cells h base" "(key, id16, val)"]
    by (simp add: leaf_wf_def) (simp add: leaf_cells_def)
next
  case False
  then show ?thesis using insert_ver_full [of h n base key id16 val] assms(1) by (simp add: leaf_wf_def case_prod_beta)
qed

section \<open>Reading a version\<close>

text \<open>
  What a read at a snapshot returns of a list of cells: among the versions of the key that are not newer
  than the snapshot, the first of those with the greatest identifier.
\<close>

definition visible :: "bytes \<Rightarrow> bytes \<Rightarrow> cell list \<Rightarrow> cell list" where
  "visible key snap cs = filter (\<lambda>d. fst d = key \<and> fst (snd d) \<le> snap) cs"

definition as_of :: "bytes \<Rightarrow> bytes \<Rightarrow> cell list \<Rightarrow> cell option" where
  "as_of key snap cs = (let vs = visible key snap cs in if vs = [] then None else find (\<lambda>d. fst (snd d) = fst (snd (last vs))) vs)"

text \<open>The loop keeps the newest cell so far; it is the first of the greatest on a sorted list.\<close>

definition newer :: "cell option \<Rightarrow> cell \<Rightarrow> cell option" where
  "newer b d = (case b of None \<Rightarrow> Some d | Some c \<Rightarrow> if fst (snd c) < fst (snd d) then Some d else b)"

lemma foldl_newer:
  "sorted (map (\<lambda>d. fst (snd d)) (c # vs)) \<Longrightarrow> foldl newer (Some c) vs = find (\<lambda>d. fst (snd d) = fst (snd (last (c # vs)))) (c # vs)"
proof (induction vs arbitrary: c)
  case (Cons d vs)
  have s: "sorted (map (\<lambda>d. fst (snd d)) (d # vs))" "fst (snd c) \<le> fst (snd d)" "sorted (map (\<lambda>d. fst (snd d)) (c # vs))" using Cons.prems by auto
  have last: "fst (snd d) \<le> fst (snd (last (d # vs)))" using s(1) last_in_set [of vs] by auto
  show ?case
  proof (cases "fst (snd c) = fst (snd d)")
    case True
    then show ?thesis using Cons.IH [OF s(3)] Cons.IH [OF s(1)] by (auto simp: newer_def)
  next
    case False
    then show ?thesis using Cons.IH [OF s(1)] s(2) last by (auto simp: newer_def)
  qed
qed simp

definition pick :: "bytes \<Rightarrow> bytes \<Rightarrow> cell option \<Rightarrow> cell \<Rightarrow> cell option" where
  "pick key snap b d = (if fst d = key \<and> fst (snd d) \<le> snap then newer b d else b)"

lemma foldl_pick_visible: "foldl (pick key snap) b cs = foldl newer b (visible key snap cs)"
  by (induction cs arbitrary: b) (auto simp: visible_def pick_def)

lemma foldl_pick_above: "\<forall>d \<in> set cs. key < fst d \<Longrightarrow> foldl (pick key snap) b cs = b"
  by (induction cs) (auto simp: pick_def)

lemma sorted_visible: "sorted (map ver cs) \<Longrightarrow> sorted (map (\<lambda>d. fst (snd d)) (visible key snap cs))"
  by (induction cs) (auto simp: visible_def)

lemma foldl_pick_as_of:
  assumes "sorted (map ver cs)"
  shows "foldl (pick key snap) None cs = as_of key snap cs"
proof (cases "visible key snap cs")
  case Nil
  then show ?thesis by (simp add: foldl_pick_visible as_of_def)
next
  case (Cons c vs)
  have "newer None c = Some c" by (simp add: newer_def)
  then have "foldl (pick key snap) None cs = foldl newer (Some c) vs" by (simp add: foldl_pick_visible Cons)
  then show ?thesis using foldl_newer [of c vs] sorted_visible [OF assms, of key snap] by (simp add: Cons as_of_def)
qed

definition enc :: "bytes \<Rightarrow> nat \<Rightarrow> nat option \<Rightarrow> best" where
  "enc h base = map_option (\<lambda>s. (s, base + s + 4 + get16 h (base + s)))"

lemma enc_simps [simp]: "enc h base None = None" "enc h base (Some s) = Some (s, base + s + 4 + get16 h (base + s))"
  by (simp_all add: enc_def)

definition in_page :: "bytes \<Rightarrow> nat \<Rightarrow> nat option \<Rightarrow> bool" where
  "in_page h base b \<longleftrightarrow> (case b of None \<Rightarrow> True | Some s \<Rightarrow> s + cell_size h (base + s) \<le> 0x4000)"

lemma as_of_step:
  assumes L: "leaf_layout h n base" and v: "v < get16 h (base + 22)" and b: "in_page h base b"
  defines "s \<equiv> leaf_slot h base v"
  defines "d \<equiv> cell_at h (base + s)"
  shows "as_of_loop h n base key snap (enc h base b) v (Suc k) =
    (if key < fst d then Inr (enc h base b)
     else as_of_loop h n base key snap
       (enc h base (if fst d = key \<and> fst (snd d) \<le> snap
         then (case b of None \<Rightarrow> Some s | Some t \<Rightarrow> if fst (snd (cell_at h (base + t))) < fst (snd d) then Some s else b) else b)) (Suc v) k)"
proof -
  note D = leaf_layoutD [OF L]
  have c: "s + cell_size h (base + s) \<le> 0x4000" "64 + v * 2 + 2 \<le> 0x4000" using D(4,5,6) D(8) [OF v] v by (auto simp: s_def)
  have r: "unat (bt_read16 h n (base + (64 + v * 2))) = s" "unat (bt_read16 h n (base + s)) = get16 h (base + s)"
    "unat (bt_read16 h n (base + s + 2)) = get16 h (base + s + 2)"
    using c D(1,2) by (subst get16_read; simp add: s_def leaf_slot_def cell_size_def)+
  have o: "bt_off_ok n base (64 + v * 2) 2" "bt_off_ok n base s 4" "bt_off_ok n base s (4 + get16 h (base + s) + 16 + get16 h (base + s + 2))"
    using c D(1) by (auto simp: cell_size_def)
  have k: "bt_keycmp_at h n (base + s + 4) (get16 h (base + s)) key = ord3 (fst d) key"
    "bt_keycmp_at h n (base + s + 4 + get16 h (base + s)) 16 snap = ord3 (fst (snd d)) snap"
    using c D(1,2) by (simp_all add: keycmp_at_ord3 d_def cell_at_def cell_size_def Let_def)
  have p: "bt_keycmp_pp h n (base + s + 4 + get16 h (base + s)) 16 (base + t + 4 + get16 h (base + t)) 16 = ord3 (fst (snd d)) (fst (snd (cell_at h (base + t))))"
    if "b = Some t" for t
    using that b c D(1,2) by (simp add: keycmp_pp_ord3 d_def cell_at_def cell_size_def Let_def in_page_def)
  show ?thesis
  proof (cases b)
    case None
    show ?thesis by (simp only: as_of_loop.simps Let_def r o k ord3_simps None enc_simps option.case) auto
  next
    case (Some t)
    show ?thesis by (simp only: as_of_loop.simps Let_def r o k p [OF Some] ord3_simps Some enc_simps option.case prod.case) auto
  qed
qed

lemma as_of_loop_foldl:
  assumes L: "leaf_layout h n base"
  defines "cells \<equiv> \<lambda>v k. map (\<lambda>i. cell_at h (base + leaf_slot h base i)) [v..<v + k]"
  shows "v + k \<le> get16 h (base + 22) \<Longrightarrow> sorted (map ver (cells v k)) \<Longrightarrow> in_page h base b \<Longrightarrow>
    \<exists>r. as_of_loop h n base key snap (enc h base b) v k = Inr (enc h base r) \<and> in_page h base r
      \<and> map_option (\<lambda>s. cell_at h (base + s)) r = foldl (pick key snap) (map_option (\<lambda>s. cell_at h (base + s)) b) (cells v k)"
proof (induction k arbitrary: v b)
  case (Suc k)
  define s where "s = leaf_slot h base v"
  define d where "d = cell_at h (base + s)"
  define b' where "b' = (if fst d = key \<and> fst (snd d) \<le> snap
    then (case b of None \<Rightarrow> Some s | Some t \<Rightarrow> if fst (snd (cell_at h (base + t))) < fst (snd d) then Some s else b) else b)"
  have v: "v < get16 h (base + 22)" using Suc.prems by simp
  have u: "cells v (Suc k) = d # cells (Suc v) k"
    unfolding cells_def d_def s_def using upt_conv_Cons [of v "v + Suc k"] by simp
  note step = as_of_step [OF L v Suc.prems(3), of key snap k, folded s_def, folded d_def, folded b'_def]
  show ?case
  proof (cases "key < fst d")
    case True
    then have "\<forall>e \<in> set (cells v (Suc k)). key < fst e" using Suc.prems(2) unfolding u by auto
    then show ?thesis using Suc.prems(3) step True by (auto simp: foldl_pick_above)
  next
    case False
    have "in_page h base b'"
      using Suc.prems(3) leaf_layoutD(8) [OF L v] by (auto simp: b'_def in_page_def s_def split: option.splits)
    moreover have "map_option (\<lambda>s. cell_at h (base + s)) b' = pick key snap (map_option (\<lambda>s. cell_at h (base + s)) b) d"
      by (auto simp: b'_def pick_def newer_def d_def split: option.splits)
    ultimately show ?thesis
      using Suc.IH [of "Suc v" b'] Suc.prems(1,2) step False unfolding u by auto
  qed
qed (auto simp: cells_def)

lemma bslice_none [simp]: "bslice h a 0 = []"
  by (simp add: bslice_def)

lemma copy_out_from_put:
  "a + (i + k) \<le> n \<Longrightarrow> n \<le> length h \<Longrightarrow> i + k \<le> length dst \<Longrightarrow> copy_out_from h n a dst i k = put_at dst i (bslice h (a + i) k)"
proof (induction k arbitrary: dst i)
  case (Suc k)
  have "bslice h (a + i) (Suc k) = h ! (a + i) # bslice h (a + Suc i) k"
    using Suc.prems by (simp add: bslice_def Cons_nth_drop_Suc [symmetric])
  with Suc show ?case by simp
qed (simp add: bslice_def)

text \<open>What a read reports of a cell, and what it leaves in the output buffer.\<close>

definition read_result :: "cell option \<Rightarrow> bytes option \<Rightarrow> nat \<Rightarrow> Db_bt_get_t \<times> bytes option" where
  "read_result c out outn =
     (case c of None \<Rightarrow> (get_none, out)
      | Some (k, i, v) \<Rightarrow> (get_none\<lparr>bg_Len := length v, bg_Found := True\<rparr>, map_option (\<lambda>dst. put_at dst 0 (take outn v)) out))"

lemma give_value_cell:
  assumes "base + 0x4000 \<le> n" "n \<le> length h" "s + cell_size h (base + s) \<le> 0x4000" "\<And>dst. out = Some dst \<Longrightarrow> outn \<le> length dst"
  shows "give_value h n (base + s + 4 + get16 h (base + s) + 16) (get16 h (base + s + 2)) out outn = read_result (Some (cell_at h (base + s))) out outn"
proof (cases out)
  case (Some dst)
  have "bt_copy_out h n (base + s + 4 + get16 h (base + s) + 16) dst (min (get16 h (base + s + 2)) outn)
      = put_at dst 0 (take outn (bslice h (base + s + 4 + get16 h (base + s) + 16) (get16 h (base + s + 2))))"
    using assms(1-3) assms(4) [OF Some] copy_out_from_put [of "base + s + 4 + get16 h (base + s) + 16" 0 "min (get16 h (base + s + 2)) outn" n h dst]
    by (simp add: bt_copy_out_def cell_size_def bslice_def min.commute)
  then show ?thesis
    using assms(1-3) by (auto simp: give_value_def read_result_def cell_at_def Let_def Some cell_size_def)
qed (use assms(1-3) in \<open>simp add: give_value_def read_result_def cell_at_def Let_def cell_size_def\<close>)

theorem get_as_of_reads:
  assumes wf: "leaf_wf h n base" and key: "key \<noteq> []" "length key \<le> 0xffff" and snap: "length snap = 16"
    and out: "\<And>dst. out = Some dst \<Longrightarrow> outn \<le> length dst"
  shows "bt_get_as_of_at h n base key snap out outn = read_result (as_of key snap (leaf_cells h base)) out outn"
proof -
  have L: "leaf_layout h n base" and S: "sorted (map ver (leaf_cells h base))" using wf by (auto simp: leaf_wf_def)
  note D = leaf_layoutD [OF L]
  obtain r where r: "as_of_loop h n base key snap None 0 (get16 h (base + 22)) = Inr (enc h base r)" "in_page h base r"
      "map_option (\<lambda>s. cell_at h (base + s)) r = foldl (pick key snap) None (leaf_cells h base)"
    using as_of_loop_foldl [OF L, of 0 "get16 h (base + 22)" None key snap] S by (auto simp: leaf_cells_def in_page_def)
  have m: "unat (bt_read16 h n (base + 22)) = get16 h (base + 22)" using D(1,2) by simp
  have ne: "h \<noteq> []" "snap \<noteq> []" "bt_read8 h n (base + 20) = 1" using D(1,2,3) snap by auto
  note as_of = r(3) [unfolded foldl_pick_as_of [OF S]]
  show ?thesis
  proof (cases r)
    case None
    then show ?thesis using as_of r(1) ne key by (simp add: bt_get_as_of_at_def m read_result_def)
  next
    case (Some s)
    have s: "s + cell_size h (base + s) \<le> 0x4000" using r(2) by (simp add: in_page_def Some)
    have "unat (bt_read16 h n (base + s)) = get16 h (base + s)" "unat (bt_read16 h n (base + s + 2)) = get16 h (base + s + 2)"
      using s D(1,2) by (subst get16_read; simp add: cell_size_def)+
    then have "bt_get_as_of_at h n base key snap out outn
        = give_value h n (base + s + 4 + get16 h (base + s) + 16) (get16 h (base + s + 2)) out outn"
      using r(1) ne key by (simp add: bt_get_as_of_at_def m Some Let_def)
    also have "\<dots> = read_result (as_of key snap (leaf_cells h base)) out outn"
      using give_value_cell [OF D(1,2) s out] as_of by (simp add: Some)
    finally show ?thesis .
  qed
qed

end
