(* ===== verification/Btree_Versions.thy ===== *)
theory Btree_Versions
  imports Btree_Leaf
begin

text \<open>
  Leaves as stores of versions. \<open>version_store\<close> is what the layers above rely on: a snapshot read does not
  see versions newer than the snapshot and sees the newest of the others. It is proved once from the laws
  that snapshots are stable under later writes, and the laws hold for the leaf kernels of \<open>Btree\<close>.
\<close>

section \<open>The contract of a version store\<close>

text \<open>A sequence of writes of versions, each of which must find room where it is made.\<close>

fun puts :: "('s \<Rightarrow> 'k \<Rightarrow> 'i \<Rightarrow> 'v \<Rightarrow> 's) \<Rightarrow> 's \<Rightarrow> ('k \<times> 'i \<times> 'v) list \<Rightarrow> 's" where
  "puts put s [] = s"
| "puts put s ((k, i, v) # ops) = puts put (put s k i v) ops"

fun puts_fit :: "('s \<Rightarrow> 'k \<Rightarrow> 'i \<Rightarrow> 'v \<Rightarrow> 's) \<Rightarrow> ('s \<Rightarrow> 'k \<Rightarrow> 'i \<Rightarrow> 'v \<Rightarrow> bool) \<Rightarrow> 's \<Rightarrow> ('k \<times> 'i \<times> 'v) list \<Rightarrow> bool" where
  "puts_fit put fits s [] = True"
| "puts_fit put fits s ((k, i, v) # ops) = (fits s k i v \<and> puts_fit put fits (put s k i v) ops)"

locale version_store =
  fixes wf :: "'s \<Rightarrow> bool"
    and fits :: "'s \<Rightarrow> 'k \<Rightarrow> 'i::linorder \<Rightarrow> 'v \<Rightarrow> bool"
    and put :: "'s \<Rightarrow> 'k \<Rightarrow> 'i \<Rightarrow> 'v \<Rightarrow> 's"
    and get :: "'s \<Rightarrow> 'k \<Rightarrow> 'i \<Rightarrow> 'v option"
    and has :: "'s \<Rightarrow> 'k \<Rightarrow> 'i \<Rightarrow> bool"
    and key_ok :: "'k \<Rightarrow> bool"
    and id_ok :: "'i \<Rightarrow> bool"
  assumes put_wf: "wf s \<Longrightarrow> fits s k i v \<Longrightarrow> wf (put s k i v)"
    and has_put: "wf s \<Longrightarrow> fits s k i v \<Longrightarrow> has (put s k i v) k' j \<longleftrightarrow> has s k' j \<or> k' = k \<and> j = i"
    and get_put_other: "wf s \<Longrightarrow> fits s k i v \<Longrightarrow> key_ok k' \<Longrightarrow> id_ok j \<Longrightarrow> k' \<noteq> k \<or> j < i \<Longrightarrow> get (put s k i v) k' j = get s k' j"
    and get_put_new: "wf s \<Longrightarrow> fits s k i v \<Longrightarrow> key_ok k \<Longrightarrow> id_ok j \<Longrightarrow> (\<And>i'. has s k i' \<Longrightarrow> i' < i) \<Longrightarrow> i \<le> j \<Longrightarrow> get (put s k i v) k j = Some v"
begin

lemma puts_wf: "wf s \<Longrightarrow> puts_fit put fits s ops \<Longrightarrow> wf (puts put s ops)"
  by (induction ops arbitrary: s) (auto simp: put_wf)

text \<open>A snapshot is stable: versions newer than it, of any key, do not change what it reads.\<close>

lemma snapshot_stable:
  "wf s \<Longrightarrow> puts_fit put fits s ops \<Longrightarrow> key_ok k \<Longrightarrow> id_ok j \<Longrightarrow> \<forall>(k', i, v) \<in> set ops. k' \<noteq> k \<or> j < i \<Longrightarrow> get (puts put s ops) k j = get s k j"
  by (induction ops arbitrary: s) (auto simp: get_put_other put_wf)

text \<open>The newest write is read by every snapshot that is not older.\<close>

lemma newest_read:
  assumes "wf s" "puts_fit put fits s (ops @ [(k, i, v)])" "key_ok k" "id_ok j" "i \<le> j"
    and old: "\<And>i'. has s k i' \<Longrightarrow> i' < i" and ops: "\<forall>(k', i', v') \<in> set ops. k' = k \<longrightarrow> i' < i"
  shows "get (puts put s (ops @ [(k, i, v)])) k j = Some v"
  using assms
proof (induction ops arbitrary: s)
  case Nil
  then show ?case by (auto intro: get_put_new)
next
  case (Cons op ops)
  obtain k' i' v' where op: "op = (k', i', v')" by (cases op)
  have w: "wf (put s k' i' v')" "\<And>i''. has (put s k' i' v') k i'' \<Longrightarrow> i'' < i"
    using Cons.prems(1,2,6,7) by (auto simp: op has_put intro: put_wf)
  then show ?case using Cons.IH [OF w(1)] Cons.prems by (auto simp: op)
qed

end

section \<open>The leaf kernels meet it\<close>

lemma visible_insert:
  "visible k j (insert_ver c cs) = (if fst c = k \<and> fst (snd c) \<le> j
     then visible k j (takeWhile (\<lambda>d. ver d \<le> ver c) cs) @ [c] @ visible k j (dropWhile (\<lambda>d. ver d \<le> ver c) cs) else visible k j cs)"
proof -
  have "visible k j cs = visible k j (takeWhile (\<lambda>d. ver d \<le> ver c) cs) @ visible k j (dropWhile (\<lambda>d. ver d \<le> ver c) cs)"
    unfolding visible_def by (simp only: filter_append [symmetric] takeWhile_dropWhile_id)
  then show ?thesis by (simp add: insert_ver_def visible_def)
qed

lemma as_of_insert_other: "k \<noteq> fst c \<or> j < fst (snd c) \<Longrightarrow> as_of k j (insert_ver c cs) = as_of k j cs"
  unfolding as_of_def visible_insert by auto

lemma set_insert_ver: "set (insert_ver c cs) = insert c (set cs)"
  using arg_cong [OF takeWhile_dropWhile_id [of "\<lambda>d. ver d \<le> ver c" cs], of set] unfolding insert_ver_def set_append by auto

lemma find_snoc_new: "\<forall>d \<in> set vs. \<not> P d \<Longrightarrow> P c \<Longrightarrow> find P (vs @ [c]) = Some c"
  by (induction vs) auto

lemma as_of_insert_new:
  assumes "sorted (map ver cs)" "\<forall>d \<in> set cs. fst d = fst c \<longrightarrow> fst (snd d) < fst (snd c)" "fst (snd c) \<le> j"
  shows "as_of (fst c) j (insert_ver c cs) = Some c"
proof -
  define P where "P = (\<lambda>d. ver d \<le> ver c)"
  have np: "\<not> P d" if "d \<in> set (dropWhile P cs)" for d
  proof -
    obtain e es where e: "dropWhile P cs = e # es" using \<open>d \<in> set (dropWhile P cs)\<close> by (cases "dropWhile P cs") auto
    have "\<not> P e" using hd_dropWhile [of P cs] e by simp
    moreover have "sorted (map ver (takeWhile P cs) @ map ver (dropWhile P cs))"
      using assms(1) by (simp only: map_append [symmetric] takeWhile_dropWhile_id)
    then have "sorted (map ver (e # es))" by (simp add: sorted_append e)
    ultimately show ?thesis using that e by (auto simp: P_def)
  qed
  have "visible (fst c) j (dropWhile P cs) = []"
    unfolding visible_def filter_empty_conv
  proof (intro ballI notI)
    fix d assume d: "d \<in> set (dropWhile P cs)" "fst d = fst c \<and> fst (snd d) \<le> j"
    then have "fst (snd d) < fst (snd c)" using assms(2) set_dropWhileD [OF d(1)] by blast
    with d(2) have "P d" by (simp add: P_def)
    with np [OF d(1)] show False by contradiction
  qed
  then have "visible (fst c) j (insert_ver c cs) = visible (fst c) j (takeWhile P cs) @ [c]"
    using assms(3) by (simp add: visible_insert P_def)
  moreover have "\<forall>d \<in> set (visible (fst c) j (takeWhile P cs)). fst (snd d) \<noteq> fst (snd c)"
    using assms(2) by (auto simp: visible_def dest!: set_takeWhileD)
  ultimately show ?thesis by (simp add: as_of_def find_snoc_new)
qed

text \<open>A second version under an identifier already present is never read: the first one stays.\<close>

lemma find_app: "find P (xs @ ys) = (case find P xs of None \<Rightarrow> find P ys | Some x \<Rightarrow> Some x)"
  by (induction xs) auto

lemma as_of_insert_same:
  assumes "sorted (map ver cs)" "d \<in> set cs" "ver d = ver c"
  shows "as_of k j (insert_ver c cs) = as_of k j cs"
proof (cases "fst c = k \<and> fst (snd c) \<le> j")
  case True
  define P where "P = (\<lambda>d. ver d \<le> ver c)"
  define A where "A = visible k j (takeWhile P cs)"
  define B where "B = visible k j (dropWhile P cs)"
  have split: "visible k j cs = A @ B"
    unfolding A_def B_def visible_def by (simp only: filter_append [symmetric] takeWhile_dropWhile_id)
  have srt: "sorted (map ver (takeWhile P cs) @ map ver (dropWhile P cs))"
    using assms(1) by (simp only: map_append [symmetric] takeWhile_dropWhile_id)
  have "d \<in> set (takeWhile P cs)"
  proof (rule ccontr)
    assume "d \<notin> set (takeWhile P cs)"
    moreover have "d \<in> set (takeWhile P cs @ dropWhile P cs)" using assms(2) by (simp only: takeWhile_dropWhile_id)
    ultimately have d: "d \<in> set (dropWhile P cs)" unfolding set_append by blast
    then obtain e es where e: "dropWhile P cs = e # es" by (cases "dropWhile P cs") auto
    have "\<not> P e" using hd_dropWhile [of P cs] e by simp
    moreover have "ver e \<le> ver d" using srt d e by (auto simp: sorted_append)
    ultimately show False using assms(3) by (simp add: P_def)
  qed
  then have dA: "d \<in> set A" using True assms(3) by (simp add: A_def visible_def)
  have lA: "fst (snd (last A)) = fst (snd c)"
  proof -
    have "sorted (map ver (takeWhile P cs))" using srt by (simp add: sorted_append)
    then have "sorted (map (\<lambda>d. fst (snd d)) A)" unfolding A_def by (rule sorted_visible)
    moreover have ne: "A \<noteq> []" using dA by auto
    ultimately have "fst (snd d) \<le> fst (snd (last A))" using dA by (induction A) (auto split: if_splits)
    moreover have "last A \<in> set A" using ne by simp
    then have "P (last A)" "fst (last A) = k" unfolding A_def visible_def by (auto dest: set_takeWhileD)
    ultimately show ?thesis using True assms(3) by (auto simp: P_def)
  qed
  have fA: "find (\<lambda>d. fst (snd d) = fst (snd c)) A \<noteq> None"
    using dA assms(3) unfolding find_None_iff by blast
  have ins: "visible k j (insert_ver c cs) = A @ [c] @ B" using True by (simp add: visible_insert A_def B_def P_def)
  have neA: "A \<noteq> []" using dA by auto
  show ?thesis
  proof (cases "B = []")
    case True
    then show ?thesis unfolding as_of_def split ins Let_def using neA lA fA by (auto simp: find_app)
  next
    case False
    have "find Q (A @ [c] @ B) = find Q (A @ B)" if "Q = (\<lambda>d. fst (snd d) = fst (snd (last B)))" for Q
      using fA dA assms(3) by (cases "Q c") (auto simp: find_app that split: option.splits)
    then show ?thesis unfolding as_of_def split ins Let_def using False neA by simp
  qed
next
  case False
  then have "visible k j (insert_ver c cs) = visible k j cs" unfolding visible_insert by (rule if_not_P)
  then show ?thesis by (simp only: as_of_def)
qed

text \<open>
  Reading one leaf the way the engine reads a heap: a probe for the length, then the value into a buffer
  of that length.
\<close>

definition read_ver :: "bytes \<Rightarrow> nat \<Rightarrow> nat \<Rightarrow> bytes \<Rightarrow> bytes \<Rightarrow> bytes option" where
  "read_ver h n base key snap =
     (let g = fst (bt_get_as_of_at h n base key snap None 0)
      in if bg_Found g then snd (bt_get_as_of_at h n base key snap (Some (replicate (bg_Len g) 0)) (bg_Len g)) else None)"

definition read_key :: "bytes \<Rightarrow> bool" where
  "read_key key \<longleftrightarrow> key \<noteq> [] \<and> length key \<le> 0xffff"

lemma read_ver_as_of:
  assumes "leaf_wf h n base" "read_key key" "length snap = 16"
  shows "read_ver h n base key snap = map_option (\<lambda>c. snd (snd c)) (as_of key snap (leaf_cells h base))"
proof -
  have g: "bt_get_as_of_at h n base key snap out outn = read_result (as_of key snap (leaf_cells h base)) out outn"
    if "\<And>dst. out = Some dst \<Longrightarrow> outn \<le> length dst" for out outn
    using assms that by (intro get_as_of_reads) (auto simp: read_key_def)
  have "bt_get_as_of_at h n base key snap None 0 = read_result (as_of key snap (leaf_cells h base)) None 0"
    "bt_get_as_of_at h n base key snap (Some (replicate m 0)) m = read_result (as_of key snap (leaf_cells h base)) (Some (replicate m 0)) m" for m
    by (rule g, simp)+
  then show ?thesis
    by (auto simp: read_ver_def read_result_def get_none_def put_at_0 split: option.splits)
qed

definition ver_fits :: "bytes \<Rightarrow> nat \<Rightarrow> bytes \<Rightarrow> bytes \<Rightarrow> bytes \<Rightarrow> bool" where
  "ver_fits h base key id16 val \<longleftrightarrow> cell_ok (key, id16, val) \<and> ver_len (key, id16, val) + 2 \<le> leaf_free h base"

definition put_ver :: "nat \<Rightarrow> nat \<Rightarrow> bytes \<Rightarrow> bytes \<Rightarrow> bytes \<Rightarrow> bytes \<Rightarrow> bytes" where
  "put_ver n base h key id16 val = snd (bt_insert_ver_at h n base key id16 val)"

definition has_ver :: "bytes \<Rightarrow> nat \<Rightarrow> bytes \<Rightarrow> bytes \<Rightarrow> bool" where
  "has_ver h base key id16 \<longleftrightarrow> (key, id16) \<in> ver ` set (leaf_cells h base)"

lemma put_ver_cells:
  assumes "leaf_wf h n base" "ver_fits h base key id16 val"
  shows "leaf_wf (put_ver n base h key id16 val) n base"
    "leaf_cells (put_ver n base h key id16 val) base = insert_ver (key, id16, val) (leaf_cells h base)"
  using insert_ver_refines [of h n base key id16 val] assms by (auto simp: put_ver_def ver_fits_def case_prod_beta)

lemma leaf_wf_sorted: "leaf_wf h n base \<Longrightarrow> sorted (map ver (leaf_cells h base))"
  by (simp add: leaf_wf_def)

interpretation leaf: version_store "\<lambda>h. leaf_wf h n base" "\<lambda>h. ver_fits h base" "put_ver n base" "\<lambda>h. read_ver h n base"
    "\<lambda>h. has_ver h base" read_key "\<lambda>i. length i = 16" for n base
proof (unfold_locales, goal_cases)
  case (1 s k i v)
  then show ?case by (rule put_ver_cells)
next
  case (2 s k i v k' j)
  then show ?case by (auto simp: has_ver_def put_ver_cells set_insert_ver)
next
  case (3 s k i v k' j)
  then show ?case by (simp add: read_ver_as_of put_ver_cells as_of_insert_other)
next
  case (4 s k i v j)
  then have "\<forall>d \<in> set (leaf_cells s base). fst d = k \<longrightarrow> fst (snd d) < i" by (force simp: has_ver_def)
  with 4 show ?case
    using as_of_insert_new [OF leaf_wf_sorted [OF 4(1)], of "(k, i, v)" j] by (simp add: read_ver_as_of put_ver_cells)
qed

section \<open>An empty leaf\<close>

lemma leaf_init_wf:
  assumes "length page = 0x4000"
  defines "p \<equiv> snd (Db_bt_leaf_init page 0x4000)"
  shows "leaf_wf p 0x4000 0" "leaf_cells p 0 = []" "leaf_free p 0 = 0x3fc0"
proof -
  have p: "p = put_at (put_at (put_at (page[20 := 1]) 22 (le_put16 0)) 24 (le_put16 64)) 26 (le_put16 0x4000)"
    using assms(1) by (auto simp: p_def Db_bt_leaf_init_def bt_bounds_def bt_write8_def Let_def)
  have g: "get16 p 22 = 0" "get16 p 24 = 64" "get16 p 26 = 0x4000" using assms(1) by (simp_all add: p)
  moreover have "p ! 20 = 1" using assms(1) by (simp add: p put_at_nth)
  moreover have "length p = 0x4000" using assms(1) by (simp add: p)
  ultimately show "leaf_wf p 0x4000 0" "leaf_cells p 0 = []" "leaf_free p 0 = 0x3fc0"
    by (simp_all add: leaf_wf_def leaf_layout_def leaf_cells_def leaf_free_def)
qed

section \<open>Properties\<close>

text \<open>C23: Inserting a version in a well-formed leaf of the B+tree (every slot points to a cell inside the
  page, above the slots; cells sorted by key, then by identifier) either finds room, and then the leaf is
  well-formed again and holds the old cells with the new one at its sorted place, or reports failure and
  changes no byte. The bytes before the slot count and the other pages of the heap never change.\<close>

theorem insert_ver_at_type:
  assumes "leaf_wf h n base" "cell_ok (key, id16, val)"
  shows "case bt_insert_ver_at h n base key id16 val of (st, h') \<Rightarrow>
    leaf_wf h' n base
    \<and> take (base + 22) h' = take (base + 22) h \<and> drop (base + 0x4000) h' = drop (base + 0x4000) h
    \<and> (if ver_len (key, id16, val) + 2 \<le> leaf_free h base
       then bs_Ok st \<and> bs_Nkeys st = length (leaf_cells h' base) \<and> leaf_cells h' base = insert_ver (key, id16, val) (leaf_cells h base)
       else \<not> bs_Ok st \<and> h' = h)"
  using insert_ver_refines [OF assms] assms(1)
  by (cases "ver_len (key, id16, val) + 2 \<le> leaf_free h base") (simp_all add: case_prod_beta)

theorem insert_ver_at_type_witness:
  "leaf_wf (snd (bt_insert_ver_at (snd (Db_bt_leaf_init (replicate 0x4000 0) 0x4000)) 0x4000 0 [7] (replicate 16 1) [42])) 0x4000 0"
  using insert_ver_at_type [OF leaf_init_wf(1) [of "replicate 0x4000 0"], of "[7]" "replicate 16 1" "[42]"]
  by (simp add: cell_ok_def case_prod_beta)

text \<open>C24: A read at a snapshot is stable: after any sequence of insertions of versions that fit in the leaf
  and are newer than the snapshot, or belong to other keys, it returns what it returned before.\<close>

theorem leaf_snapshot_stable:
  assumes "leaf_wf h n base" "puts_fit (put_ver n base) (\<lambda>h. ver_fits h base) h ops" "read_key key" "length snap = 16"
    and "\<forall>(k, i, v) \<in> set ops. k \<noteq> key \<or> snap < i"
  shows "read_ver (puts (put_ver n base) h ops) n base key snap = read_ver h n base key snap"
  using assms by (rule leaf.snapshot_stable)

theorem leaf_snapshot_stable_witness:
  "read_ver (puts (put_ver 0x4000 0) (snd (Db_bt_leaf_init (replicate 0x4000 0) 0x4000)) [([7], replicate 16 2, [1])]) 0x4000 0 [7] (replicate 16 1)
    = read_ver (snd (Db_bt_leaf_init (replicate 0x4000 0) 0x4000)) 0x4000 0 [7] (replicate 16 1)"
proof (rule leaf_snapshot_stable)
  show "leaf_wf (snd (Db_bt_leaf_init (replicate 0x4000 0) 0x4000)) 0x4000 0" by (rule leaf_init_wf) simp
  show "puts_fit (put_ver 0x4000 0) (\<lambda>h. ver_fits h 0) (snd (Db_bt_leaf_init (replicate 0x4000 0) 0x4000)) [([7], replicate 16 2, [1])]"
    using leaf_init_wf(3) [of "replicate 0x4000 0"] by (simp add: ver_fits_def cell_ok_def ver_len_def)
  show "read_key [7]" "length (replicate 16 (1 :: byte)) = 16" by (simp_all add: read_key_def)
  show "\<forall>(k, i, v) \<in> set [([7 :: byte], replicate 16 (2 :: byte), [1 :: byte])]. k \<noteq> [7] \<or> replicate 16 1 < i"
    by (simp add: numeral_eq_Suc)
qed

text \<open>The newest version of a key is what every snapshot that is not older reads, whatever was written
  under other keys or under older identifiers before it.\<close>

theorem leaf_newest_read:
  assumes "leaf_wf h n base" "puts_fit (put_ver n base) (\<lambda>h. ver_fits h base) h (ops @ [(key, id16, val)])"
    "read_key key" "length snap = 16" "id16 \<le> snap" "\<And>i. has_ver h base key i \<Longrightarrow> i < id16"
    "\<forall>(k, i, v) \<in> set ops. k = key \<longrightarrow> i < id16"
  shows "read_ver (puts (put_ver n base) h (ops @ [(key, id16, val)])) n base key snap = Some val"
  using assms by (rule leaf.newest_read)

theorem leaf_newest_read_witness:
  "read_ver (puts (put_ver 0x4000 0) (snd (Db_bt_leaf_init (replicate 0x4000 0) 0x4000)) [([7], replicate 16 2, [42])]) 0x4000 0 [7] (replicate 16 2) = Some [42]"
proof -
  have "read_ver (puts (put_ver 0x4000 0) (snd (Db_bt_leaf_init (replicate 0x4000 0) 0x4000)) ([] @ [([7], replicate 16 2, [42])])) 0x4000 0 [7] (replicate 16 2) = Some [42]"
    using leaf_init_wf [of "replicate 0x4000 0"]
    by (intro leaf_newest_read) (simp_all add: ver_fits_def cell_ok_def ver_len_def read_key_def has_ver_def)
  then show ?thesis by simp
qed

text \<open>A second version of a key under an identifier the leaf already holds for it is stored and never
  read: every read returns what it returned before. All writes of one transaction carry the identifier
  of the transaction, so that the second write of a key in a transaction is lost.\<close>

theorem same_id_update_lost:
  assumes "leaf_wf h n base" "ver_fits h base key id16 val" "has_ver h base key id16" "read_key k" "length snap = 16"
  shows "read_ver (put_ver n base h key id16 val) n base k snap = read_ver h n base k snap"
proof -
  obtain d where "d \<in> set (leaf_cells h base)" "ver d = (key, id16)" using assms(3) by (auto simp: has_ver_def)
  then have "as_of k snap (insert_ver (key, id16, val) (leaf_cells h base)) = as_of k snap (leaf_cells h base)"
    using leaf_wf_sorted [OF assms(1)] by (intro as_of_insert_same) auto
  with assms show ?thesis by (simp add: read_ver_as_of put_ver_cells)
qed

theorem same_id_update_lost_witness:
  "let h = put_ver 0x4000 0 (snd (Db_bt_leaf_init (replicate 0x4000 0) 0x4000)) [7] (replicate 16 2) [42]
   in read_ver (put_ver 0x4000 0 h [7] (replicate 16 2) [43]) 0x4000 0 [7] (replicate 16 2) = Some [42]"
proof -
  define e where "e = snd (Db_bt_leaf_init (replicate 0x4000 0) 0x4000)"
  define h where "h = put_ver 0x4000 0 e [7] (replicate 16 2) [42]"
  have e: "leaf_wf e 0x4000 0" "leaf_cells e 0 = []" "leaf_free e 0 = 0x3fc0" using leaf_init_wf [of "replicate 0x4000 0"] by (simp_all add: e_def)
  have fit: "ver_fits e 0 [7] (replicate 16 2) [42]" by (simp add: ver_fits_def cell_ok_def ver_len_def e)
  note h = put_ver_cells [OF e(1) fit, folded h_def]
  have lay: "leaf_layout e 0x4000 0" using e(1) by (simp add: leaf_wf_def)
  have "leaf_free h 0 = 0x3fc0 - 24"
    using insert_ver_effect(3,4) [OF lay, of "[7]" "replicate 16 2" "[42]"] leaf_layoutD(4) [OF lay] fit e(2,3)
    by (simp add: h_def put_ver_def ver_fits_def leaf_free_def ver_len_def leaf_cells_def)
  then have "read_ver (put_ver 0x4000 0 h [7] (replicate 16 2) [43]) 0x4000 0 [7] (replicate 16 2) = read_ver h 0x4000 0 [7] (replicate 16 2)"
    using h by (intro same_id_update_lost) (simp_all add: ver_fits_def cell_ok_def ver_len_def read_key_def has_ver_def e insert_ver_def)
  also have "\<dots> = Some [42]"
    using h by (simp add: read_ver_as_of read_key_def e insert_ver_def as_of_def visible_def)
  finally show ?thesis by (simp add: h_def e_def)
qed

end
