(* ===== verification/Btree_Del.thy ===== *)
theory Btree_Del
  imports Btree_Versions
begin

text \<open>
  Deletion in a leaf removes the slots of every version of the key and keeps the others in order.
\<close>

definition slots_ok :: "bytes \<Rightarrow> nat \<Rightarrow> nat \<Rightarrow> nat \<Rightarrow> bool" where
  "slots_ok h n base v \<longleftrightarrow> base + 0x4000 \<le> n \<and> n \<le> length h \<and> 64 + get16 h (base + 22) * 2 \<le> 0x4000
     \<and> (\<forall>i. v \<le> i \<longrightarrow> i < get16 h (base + 22) \<longrightarrow> 64 + get16 h (base + 22) * 2 \<le> leaf_slot h base i
          \<and> leaf_slot h base i + cell_size h (base + leaf_slot h base i) \<le> 0x4000)"

definition slots_from :: "bytes \<Rightarrow> nat \<Rightarrow> nat \<Rightarrow> nat list" where
  "slots_from h base v = map (leaf_slot h base) [v..<get16 h (base + 22)]"

definition kept :: "bytes \<Rightarrow> nat \<Rightarrow> bytes \<Rightarrow> nat \<Rightarrow> nat list" where
  "kept h base key v = filter (\<lambda>s. fst (cell_at h (base + s)) \<noteq> key) (slots_from h base v)"

lemma slots_from_Cons: "v < get16 h (base + 22) \<Longrightarrow> slots_from h base v = leaf_slot h base v # slots_from h base (Suc v)"
  by (simp add: slots_from_def upt_conv_Cons)

text \<open>A heap that differs only in slots before \<open>v\<close> has the same slots and cells from there on.\<close>

definition same_from :: "bytes \<Rightarrow> bytes \<Rightarrow> nat \<Rightarrow> nat \<Rightarrow> nat \<Rightarrow> bool" where
  "same_from h h' base lo hi \<longleftrightarrow> length h' = length h \<and>
     (\<forall>a k. a + k \<le> length h \<longrightarrow> a + k \<le> base + 64 + lo * 2 \<or> base + 64 + hi * 2 \<le> a \<longrightarrow> bslice h' a k = bslice h a k)"

lemma same_fromD:
  assumes "same_from h h' base lo hi" "slots_ok h n base v" "hi \<le> v" "hi \<le> get16 h (base + 22)"
  shows "get16 h' (base + 22) = get16 h (base + 22)" "slots_from h' base v = slots_from h base v"
    "slots_ok h' n base v" "s \<in> set (slots_from h base v) \<Longrightarrow> cell_at h' (base + s) = cell_at h (base + s)"
proof -
  have F: "bslice h' a k = bslice h a k" if "a + k \<le> length h" "a + k \<le> base + 64 + lo * 2 \<or> base + 64 + hi * 2 \<le> a" for a k
    using assms(1) that unfolding same_from_def by blast
  have B: "base + 0x4000 \<le> length h" "64 + get16 h (base + 22) * 2 \<le> 0x4000" using assms(2) by (auto simp: slots_ok_def)
  show m: "get16 h' (base + 22) = get16 h (base + 22)" unfolding get16_def using B by (subst F) auto
  have s: "leaf_slot h' base i = leaf_slot h base i" if "v \<le> i" "i < get16 h (base + 22)" for i
    unfolding leaf_slot_def get16_def using that B assms(3) by (subst F) auto
  show "slots_from h' base v = slots_from h base v" by (simp add: slots_from_def m s)
  have c: "cell_at h' (base + leaf_slot h base i) = cell_at h (base + leaf_slot h base i)"
      "cell_size h' (base + leaf_slot h base i) = cell_size h (base + leaf_slot h base i)" if "v \<le> i" "i < get16 h (base + 22)" for i
  proof -
    have "bslice h' (base + leaf_slot h base i) (cell_size h (base + leaf_slot h base i)) = bslice h (base + leaf_slot h base i) (cell_size h (base + leaf_slot h base i))"
      using that assms(2,4) B by (intro F) (auto simp: slots_ok_def)
    then show "cell_at h' (base + leaf_slot h base i) = cell_at h (base + leaf_slot h base i)"
      "cell_size h' (base + leaf_slot h base i) = cell_size h (base + leaf_slot h base i)" by (rule cell_at_cong)+
  qed
  show "slots_ok h' n base v"
    using assms(1,2) s c(2) unfolding slots_ok_def m same_from_def by simp
  show "s \<in> set (slots_from h base v) \<Longrightarrow> cell_at h' (base + s) = cell_at h (base + s)"
    using c(1) by (auto simp: slots_from_def)
qed

lemma del_step:
  assumes ok: "slots_ok h n base v6" and v: "v6 < get16 h (base + 22)" and key: "length key \<le> 0xffff"
  defines "s \<equiv> leaf_slot h base v6"
  shows "del_loop h n base key v6 v7 f =
    (if fst (cell_at h (base + s)) = key then del_loop h n base key (Suc v6) v7 True
     else del_loop (if v7 \<noteq> v6 then bt_write16 h n (base + 64 + v7 * 2) (of_nat s) else h) n base key (Suc v6) (Suc v7) f)"
proof -
  have B: "base + 0x4000 \<le> n" "n \<le> length h" "64 + v6 * 2 + 2 \<le> 0x4000" "s + cell_size h (base + s) \<le> 0x4000"
    using ok v by (auto simp: slots_ok_def s_def)
  have r: "unat (bt_read16 h n (base + 22)) = get16 h (base + 22)" "unat (bt_read16 h n (base + (64 + v6 * 2))) = s"
    "unat (bt_read16 h n (base + s)) = get16 h (base + s)"
    using B by (subst get16_read; simp add: s_def leaf_slot_def cell_size_def)+
  have w: "bt_read16 h n (base + (64 + v6 * 2)) = of_nat s" unfolding r(2) [symmetric] by simp
  have u: "unat (of_nat s :: u16) = s" using r(2) by (simp add: w)
  have o: "bt_off_ok n base (64 + v6 * 2) 2" "bt_off_ok n base s 4" "bt_off_ok n base s (4 + get16 h (base + s))"
    using B by (auto simp: cell_size_def)
  have e: "get16 h (base + s) = length key \<and> bt_keyeq h n (base + s + 4) key \<longleftrightarrow> fst (cell_at h (base + s)) = key"
  proof (cases "get16 h (base + s) = length key")
    case True
    then show ?thesis using B keyeq_bslice [of "base + s + 4" key n h] by (simp add: cell_at_def Let_def cell_size_def)
  next
    case False
    then have "length (fst (cell_at h (base + s))) \<noteq> length key" using B by (simp add: cell_at_def Let_def cell_size_def)
    then show ?thesis using False by auto
  qed
  show ?thesis
    by (subst del_loop.simps) (simp only: Let_def w u r v o e if_True if_False not_True_eq_False)
qed

lemma slot_write:
  assumes "base + 0x4000 \<le> n" "n \<le> length h" "64 + v * 2 + 2 \<le> 0x4000" "s < 65536"
  defines "h' \<equiv> bt_write16 h n (base + 64 + v * 2) (of_nat s)"
  shows "same_from h h' base v (Suc v)" "leaf_slot h' base v = s"
proof -
  have h': "h' = put_at h (base + 64 + v * 2) (le_put16 (of_nat s))"
    unfolding h'_def using assms(1-3) by (intro write16_put) auto
  show "same_from h h' base v (Suc v)"
    unfolding same_from_def h' using assms(1-3) by (auto intro!: bslice_put_at_other)
  show "leaf_slot h' base v = s"
    unfolding leaf_slot_def h' add.assoc using assms(1-4) by (subst get16_put) auto
qed

lemma same_from_trans: "same_from h h1 base lo hi \<Longrightarrow> same_from h1 h2 base lo' hi' \<Longrightarrow> lo \<le> lo' \<Longrightarrow> hi \<le> hi' \<Longrightarrow> same_from h h2 base lo hi'"
  by (auto simp: same_from_def)

lemma same_from_slot: "same_from h h' base lo hi \<Longrightarrow> base + 64 + i * 2 + 2 \<le> length h \<Longrightarrow> i < lo \<Longrightarrow> leaf_slot h' base i = leaf_slot h base i"
  by (auto simp: same_from_def leaf_slot_def get16_def)

lemma kept_same:
  assumes "same_from h h' base lo hi" "slots_ok h n base v" "hi \<le> v" "hi \<le> get16 h (base + 22)"
  shows "kept h' base key v = kept h base key v"
  unfolding kept_def same_fromD(2) [OF assms] using same_fromD(4) [OF assms] by (auto intro: filter_cong)

lemma del_loop_effect:
  assumes "slots_ok h n base v6" "v7 \<le> v6" "v6 \<le> get16 h (base + 22)" "length key \<le> 0xffff"
  shows "\<exists>h'. del_loop h n base key v6 v7 f = ((True, v7 + length (kept h base key v6), f \<or> (\<exists>s \<in> set (slots_from h base v6). fst (cell_at h (base + s)) = key)), h')
    \<and> same_from h h' base v7 (get16 h (base + 22))
    \<and> map (leaf_slot h' base) [v7..<v7 + length (kept h base key v6)] = kept h base key v6"
  using assms
proof (induction "get16 h (base + 22) - v6" arbitrary: h v6 v7 f)
  case 0
  have "unat (bt_read16 h n (base + 22)) = get16 h (base + 22)" using 0(2) by (subst get16_read) (auto simp: slots_ok_def)
  then have "del_loop h n base key v6 v7 f = ((True, v7, f), h)" using 0 by (subst del_loop.simps) simp
  then show ?case using 0 by (auto simp: kept_def slots_from_def same_from_def)
next
  case (Suc d)
  have v: "v6 < get16 h (base + 22)" using Suc(2) by simp
  define s where "s = leaf_slot h base v6"
  have ok: "slots_ok h n base (Suc v6)" using Suc.prems(1) by (simp add: slots_ok_def)
  note step = del_step [OF Suc.prems(1) v Suc.prems(4), folded s_def, of v7 f]
  show ?case
  proof (cases "fst (cell_at h (base + s)) = key")
    case True
    have "kept h base key v6 = kept h base key (Suc v6)" using True by (simp add: kept_def slots_from_Cons [OF v] s_def)
    moreover have "\<exists>t \<in> set (slots_from h base v6). fst (cell_at h (base + t)) = key" using True by (simp add: slots_from_Cons [OF v] s_def)
    ultimately show ?thesis
      using Suc.hyps(1) [of h "Suc v6" v7 True] Suc.hyps(2) ok Suc.prems step True by simp
  next
    case False
    define h1 where "h1 = (if v7 \<noteq> v6 then bt_write16 h n (base + 64 + v7 * 2) (of_nat s) else h)"
    have b: "base + 0x4000 \<le> n" "n \<le> length h" "64 + v7 * 2 + 2 \<le> 0x4000" "s < 65536"
      using Suc.prems(1,2) v by (auto simp: slots_ok_def s_def leaf_slot_def)
    have same: "same_from h h1 base v7 (Suc v7)" and slot: "leaf_slot h1 base v7 = s"
      using slot_write [OF b] by (auto simp: h1_def same_from_def s_def)
    have hi: "Suc v7 \<le> Suc v6" "Suc v7 \<le> get16 h (base + 22)" using Suc.prems(2) v by auto
    note S = same_fromD [OF same ok hi] and K = kept_same [OF same ok hi]
    have kc: "kept h base key v6 = s # kept h base key (Suc v6)" using False by (simp add: kept_def slots_from_Cons [OF v] s_def)
    have ex: "(\<exists>t \<in> set (slots_from h base v6). fst (cell_at h (base + t)) = key) \<longleftrightarrow> (\<exists>t \<in> set (slots_from h1 base (Suc v6)). fst (cell_at h1 (base + t)) = key)"
      using False S(2,4) by (auto simp: slots_from_Cons [OF v] s_def)
    have p: "d = get16 h1 (base + 22) - Suc v6" "Suc v7 \<le> Suc v6" "Suc v6 \<le> get16 h1 (base + 22)"
      using Suc.hyps(2) S(1) Suc.prems(2) v by auto
    obtain h' where h': "del_loop h1 n base key (Suc v6) (Suc v7) f
        = ((True, Suc v7 + length (kept h1 base key (Suc v6)), f \<or> (\<exists>t \<in> set (slots_from h1 base (Suc v6)). fst (cell_at h1 (base + t)) = key)), h')"
      "same_from h1 h' base (Suc v7) (get16 h1 (base + 22))"
      "map (leaf_slot h' base) [Suc v7..<Suc v7 + length (kept h1 base key (Suc v6))] = kept h1 base key (Suc v6)"
      using Suc.hyps(1) [OF p(1) S(3) p(2,3) Suc.prems(4), of f] by blast
    have "leaf_slot h' base v7 = s"
      using same_from_slot [OF h'(2), of v7] b slot same by (simp add: same_from_def)
    then have "map (leaf_slot h' base) [v7..<v7 + length (kept h base key v6)] = kept h base key v6"
      using h'(3) unfolding kc K by (simp add: upt_conv_Cons del: upt_Suc)
    moreover have "same_from h h' base v7 (get16 h (base + 22))"
      using same_from_trans [OF same h'(2)] S(1) hi by simp
    ultimately show ?thesis
      using step h'(1) False K by (auto simp: h1_def [symmetric] kc ex)
  qed
qed

lemma leaf_layout_slots: "leaf_layout h n base \<Longrightarrow> slots_ok h n base 0"
  by (auto simp: leaf_layout_def slots_ok_def)

lemma leaf_cells_slots: "leaf_cells h base = map (\<lambda>s. cell_at h (base + s)) (slots_from h base 0)"
  by (simp add: leaf_cells_def slots_from_def)

lemma kept_cells: "map (\<lambda>s. cell_at h (base + s)) (kept h base key 0) = filter (\<lambda>c. fst c \<noteq> key) (leaf_cells h base)"
  by (simp add: kept_def leaf_cells_slots filter_map o_def)

lemma del_at_effect:
  assumes L: "leaf_layout h n base" and key: "key \<noteq> []" "length key \<le> 0xffff"
  defines "ks \<equiv> kept h base key 0" and "m \<equiv> get16 h (base + 22)" and "h' \<equiv> snd (bt_del_at h n base key)"
  shows "fst (bt_del_at h n base key) \<longleftrightarrow> key \<in> fst ` set (leaf_cells h base)" "length h' = length h"
    "get16 h' (base + 22) = length ks" "get16 h' (base + 24) = 64 + length ks * 2" "slots_from h' base 0 = ks" "length ks \<le> m"
    "a + k \<le> length h \<Longrightarrow> a + k \<le> base + 22 \<or> base + 26 \<le> a \<and> a + k \<le> base + 64 \<or> base + 64 + m * 2 \<le> a \<Longrightarrow> bslice h' a k = bslice h a k"
proof -
  note D = leaf_layoutD [OF L] and ok = leaf_layout_slots [OF L]
  show km: "length ks \<le> m" unfolding ks_def kept_def slots_from_def m_def by (rule order_trans [OF length_filter_le]) simp
  obtain h1 where h1: "del_loop h n base key 0 0 False = ((True, length ks, \<exists>s \<in> set (slots_from h base 0). fst (cell_at h (base + s)) = key), h1)"
      "same_from h h1 base 0 m" "map (leaf_slot h1 base) [0..<length ks] = ks"
    using del_loop_effect [OF ok, of 0 key False] key(2) by (auto simp: ks_def m_def)
  have l1: "length h1 = length h" using h1(2) by (simp add: same_from_def)
  have ne: "h \<noteq> []" "bt_read8 h n (base + 20) = 1" using D(1,2,3) by auto
  have "(\<exists>s \<in> set (slots_from h base 0). fst (cell_at h (base + s)) = key) \<longleftrightarrow> key \<in> fst ` set (leaf_cells h base)"
    by (auto simp: leaf_cells_slots)
  then have del: "bt_del_at h n base key = (key \<in> fst ` set (leaf_cells h base),
      put_at (put_at h1 (base + 22) (le_put16 (of_nat (length ks)))) (base + 24) (le_put16 (of_nat (64 + length ks * 2))))"
    using key ne h1(1) l1 D(1,2) by (simp add: bt_del_at_def)
  then show "fst (bt_del_at h n base key) \<longleftrightarrow> key \<in> fst ` set (leaf_cells h base)" by simp
  have h': "h' = put_at (put_at h1 (base + 22) (le_put16 (of_nat (length ks)))) (base + 24) (le_put16 (of_nat (64 + length ks * 2)))"
    by (simp add: h'_def del)
  show l': "length h' = length h" by (simp add: h' l1)
  have mb: "64 + m * 2 \<le> 0x4000" using D(4,5,6) by (auto simp: m_def)
  show g: "get16 h' (base + 22) = length ks" "get16 h' (base + 24) = 64 + length ks * 2"
    unfolding h' using l1 D(1,2) km mb by (simp_all del: of_nat_add of_nat_mult)
  have F: "bslice h' a k = bslice h1 a k" if "a + k \<le> length h" "a + k \<le> base + 22 \<or> base + 26 \<le> a" for a k
  proof -
    have "bslice h' a k = bslice (put_at h1 (base + 22) (le_put16 (of_nat (length ks)))) a k"
      unfolding h' using that D(1,2) l1 by (intro bslice_put_at_other) auto
    also have "\<dots> = bslice h1 a k" using that D(1,2) l1 by (intro bslice_put_at_other) auto
    finally show ?thesis .
  qed
  then show "bslice h' a k = bslice h a k"
    if "a + k \<le> length h" "a + k \<le> base + 22 \<or> base + 26 \<le> a \<and> a + k \<le> base + 64 \<or> base + 64 + m * 2 \<le> a" for a k
    using that h1(2) unfolding same_from_def by auto
  have "leaf_slot h' base i = ks ! i" if "i < length ks" for i
  proof -
    have "leaf_slot h' base i = leaf_slot h1 base i" unfolding leaf_slot_def get16_def using that km mb D(1,2) by (subst F) auto
    then show ?thesis using that arg_cong [OF h1(3), of "\<lambda>xs. xs ! i"] by simp
  qed
  then show "slots_from h' base 0 = ks" by (intro nth_equalityI) (auto simp: slots_from_def g)
qed

text \<open>C26: Deleting a key in a well-formed leaf leaves a well-formed leaf with exactly the cells of the other
  keys, in their order, and reports whether the key was there. No cell, no header byte before the slot
  count and no other page changes.\<close>

theorem del_at_refines:
  assumes "leaf_wf h n base" "key \<noteq> []" "length key \<le> 0xffff"
  shows "case bt_del_at h n base key of (found, h') \<Rightarrow>
    leaf_wf h' n base \<and> leaf_cells h' base = filter (\<lambda>c. fst c \<noteq> key) (leaf_cells h base)
    \<and> (found \<longleftrightarrow> key \<in> fst ` set (leaf_cells h base))
    \<and> take (base + 22) h' = take (base + 22) h \<and> drop (base + get16 h (base + 26)) h' = drop (base + get16 h (base + 26)) h"
proof -
  have L: "leaf_layout h n base" and srt: "sorted (map ver (leaf_cells h base))" using assms(1) by (auto simp: leaf_wf_def)
  note D = leaf_layoutD [OF L]
  define h' where "h' = snd (bt_del_at h n base key)"
  define m where "m = get16 h (base + 22)"
  define ks where "ks = kept h base key 0"
  note E = del_at_effect [OF L assms(2,3), folded h'_def m_def ks_def]
  have mb: "64 + m * 2 \<le> get16 h (base + 26)" "get16 h (base + 26) \<le> 0x4000" using D(4,5,6) by (auto simp: m_def)
  have g26: "get16 h' (base + 26) = get16 h (base + 26)" unfolding get16_def using D(1,2) by (subst E(7)) auto
  have c: "cell_at h' (base + s) = cell_at h (base + s) \<and> cell_size h' (base + s) = cell_size h (base + s)
    \<and> get16 h (base + 26) \<le> s \<and> s + cell_size h (base + s) \<le> 0x4000" if s: "s \<in> set ks" for s
  proof -
    obtain j where "j < m" "s = leaf_slot h base j" using s by (auto simp: ks_def kept_def slots_from_def m_def)
    then have b: "get16 h (base + 26) \<le> s" "s + cell_size h (base + s) \<le> 0x4000" using D(7,8) [of j] by (auto simp: m_def)
    then have "bslice h' (base + s) (cell_size h (base + s)) = bslice h (base + s) (cell_size h (base + s))"
      using mb D(1,2) by (intro E(7)) auto
    then show ?thesis using b cell_at_cong [of h' "base + s" h] by blast
  qed
  have "leaf_cells h' base = map (\<lambda>s. cell_at h (base + s)) ks" unfolding leaf_cells_slots E(5) using c by auto
  then have cells: "leaf_cells h' base = filter (\<lambda>c. fst c \<noteq> key) (leaf_cells h base)" by (simp add: ks_def kept_cells)
  have "h' ! (base + 20) = 1"
    using E(7) [of "base + 20" 1] D(1,2,3) E(2) bslice_nth [of 0 1 "base + 20" h'] bslice_nth [of 0 1 "base + 20" h] by simp
  moreover have "leaf_slot h' base i \<in> set ks" if "i < length ks" for i
  proof -
    have "leaf_slot h' base i \<in> set (slots_from h' base 0)" using that E(3) by (simp add: slots_from_def)
    then show ?thesis by (simp only: E(5))
  qed
  ultimately have "leaf_layout h' n base"
    unfolding leaf_layout_def using D(1,2) E(2,3,4,6) g26 mb c by auto
  moreover have "sorted (map ver (filter (\<lambda>c. fst c \<noteq> key) (leaf_cells h base)))" using srt by (rule sorted_filter)
  ultimately have "leaf_wf h' n base" by (simp add: leaf_wf_def cells)
  moreover have "take (base + 22) h' = take (base + 22) h" using E(7) [of 0 "base + 22"] D(1,2) by (simp add: bslice_def)
  moreover have "drop (base + get16 h (base + 26)) h' = drop (base + get16 h (base + 26)) h"
    using E(7) [of "base + get16 h (base + 26)" "length h - (base + get16 h (base + 26))"] D(1,2) mb E(2) by (simp add: bslice_def)
  ultimately show ?thesis using cells E(1) by (simp add: h'_def case_prod_beta)
qed

theorem del_at_refines_witness:
  "let h = put_ver 0x4000 0 (snd (Db_bt_leaf_init (replicate 0x4000 0) 0x4000)) [7] (replicate 16 1) [42]
   in leaf_cells h 0 = [([7], replicate 16 1, [42])]
     \<and> fst (bt_del_at h 0x4000 0 [7]) \<and> leaf_cells (snd (bt_del_at h 0x4000 0 [7])) 0 = []
     \<and> \<not> fst (bt_del_at h 0x4000 0 [8]) \<and> leaf_cells (snd (bt_del_at h 0x4000 0 [8])) 0 = [([7], replicate 16 1, [42])]"
proof -
  define p where "p = snd (Db_bt_leaf_init (replicate 0x4000 0) 0x4000)"
  define h where "h = put_ver 0x4000 0 p [7] (replicate 16 1) [42]"
  have p: "leaf_wf p 0x4000 0" "leaf_cells p 0 = []" "leaf_free p 0 = 0x3fc0"
    unfolding p_def by (rule leaf_init_wf, simp)+
  have "ver_fits p 0 [7] (replicate 16 1) [42]" by (simp add: ver_fits_def cell_ok_def ver_len_def p)
  then have h: "leaf_wf h 0x4000 0" "leaf_cells h 0 = [([7], replicate 16 1, [42])]"
    using put_ver_cells [OF p(1)] p(2) by (simp_all add: h_def insert_ver_def)
  show ?thesis
    unfolding Let_def p_def [symmetric] h_def [symmetric]
    using del_at_refines [OF h(1), of "[7]"] del_at_refines [OF h(1), of "[8]"] h(2) by (auto simp: case_prod_beta)
qed
end
