(* ===== verification/Btree_Search.thy ===== *)
theory Btree_Search
  imports Btree_Walk Btree_Del
begin

text \<open>
  Search from the root: on a well-formed tree of pages a snapshot read descends to the one leaf that can
  hold the key and returns what the whole tree holds of it.
\<close>

section \<open>Internal pages\<close>

definition get64 :: "bytes \<Rightarrow> nat \<Rightarrow> nat" where
  "get64 h a = unat (le_get64 (bslice h a 8))"

lemma get64_read: "a + 8 \<le> n \<Longrightarrow> n \<le> length h \<Longrightarrow> unat (bt_read64 h n a) = get64 h a"
  by (auto simp: bt_read64_def get64_def bslice_def Let_def)

definition sep_key :: "bytes \<Rightarrow> nat \<Rightarrow> bytes" where
  "sep_key h a = bslice h (a + 4) (get16 h a)"

definition sep_child :: "bytes \<Rightarrow> nat \<Rightarrow> nat" where
  "sep_child h a = get64 h (a + 4 + get16 h a)"

definition seps :: "bytes \<Rightarrow> nat \<Rightarrow> bytes list" where
  "seps h base = map (\<lambda>i. sep_key h (base + leaf_slot h base i)) [0..<get16 h (base + 22)]"

definition children :: "bytes \<Rightarrow> nat \<Rightarrow> nat list" where
  "children h base = get64 h (base + 8) # map (\<lambda>i. sep_child h (base + leaf_slot h base i)) [0..<get16 h (base + 22)]"

definition int_layout :: "bytes \<Rightarrow> nat \<Rightarrow> nat \<Rightarrow> bool" where
  "int_layout h n base \<longleftrightarrow> base + 0x4000 \<le> n \<and> n \<le> length h \<and> h ! (base + 20) = 2 \<and> 64 + get16 h (base + 22) * 2 \<le> 0x4000
     \<and> (\<forall>i < get16 h (base + 22). leaf_slot h base i + 4 + get16 h (base + leaf_slot h base i) + 8 \<le> 0x4000)"

lemma child_loop_nth:
  assumes L: "int_layout h n base"
  shows "v + k = get16 h (base + 22) \<Longrightarrow> child_loop h n base key (children h base ! v) v k
    = children h base ! (v + length (takeWhile (\<lambda>s. s \<le> key) (drop v (seps h base))))"
proof (induction k arbitrary: v)
  case 0
  then show ?case by (simp add: seps_def)
next
  case (Suc k)
  define s where "s = leaf_slot h base v"
  have v: "v < get16 h (base + 22)" using Suc.prems by simp
  have B: "base + 0x4000 \<le> n" "n \<le> length h" "64 + v * 2 + 2 \<le> 0x4000" "s + 4 + get16 h (base + s) + 8 \<le> 0x4000"
    using L v by (auto simp: int_layout_def s_def)
  have r: "unat (bt_read16 h n (base + (64 + v * 2))) = s" "unat (bt_read16 h n (base + s)) = get16 h (base + s)"
    using B by (subst get16_read; simp add: s_def leaf_slot_def)+
  have r64: "unat (bt_read64 h n (base + s + 4 + get16 h (base + s))) = children h base ! Suc v"
    using B v by (subst get64_read) (auto simp: children_def sep_child_def s_def)
  have o: "bt_off_ok n base (64 + v * 2) 2" "bt_off_ok n base s 4" "bt_off_ok n base s (4 + get16 h (base + s) + 8)" using B by auto
  have c: "bt_keycmp_at h n (base + s + 4) (get16 h (base + s)) key = ord3 (sep_key h (base + s)) key"
    using B by (simp add: keycmp_at_ord3 sep_key_def)
  have d: "drop v (seps h base) = sep_key h (base + s) # drop (Suc v) (seps h base)"
    using v upt_conv_Cons [of v "get16 h (base + 22)"] by (simp add: seps_def s_def drop_map)
  have IH: "child_loop h n base key (children h base ! Suc v) (Suc v) k
      = children h base ! (Suc v + length (takeWhile (\<lambda>s. s \<le> key) (drop (Suc v) (seps h base))))"
    using Suc.IH [of "Suc v"] Suc.prems by simp
  show ?case
    by (simp only: child_loop.simps Let_def r o c d ord3_simps r64 IH takeWhile.simps) auto
qed

lemma internal_child:
  assumes "int_layout h n base"
  shows "bt_internal_child h n base key = children h base ! length (takeWhile (\<lambda>s. s \<le> key) (seps h base))"
proof -
  have "base + 0x4000 \<le> n" "n \<le> length h" using assms by (auto simp: int_layout_def)
  then have "unat (bt_read64 h n (base + 8)) = children h base ! 0" "unat (bt_read16 h n (base + 22)) = get16 h (base + 22)"
    by (simp_all add: get64_read children_def)
  then show ?thesis using child_loop_nth [OF assms, of 0 "get16 h (base + 22)" key] by (simp add: bt_internal_child_def)
qed

section \<open>Trees\<close>

text \<open>\<open>btree h n np d p cs\<close>: under page \<open>p\<close> hangs a tree of depth \<open>d\<close> whose leaves hold the cells \<open>cs\<close>, and the
  keys under every child lie between the separators around it.\<close>

inductive btree :: "bytes \<Rightarrow> nat \<Rightarrow> nat \<Rightarrow> nat \<Rightarrow> nat \<Rightarrow> cell list \<Rightarrow> bool" for h n np where
  leaf: "p < np \<Longrightarrow> leaf_wf h n (p * 0x4000) \<Longrightarrow> btree h n np 0 p (leaf_cells h (p * 0x4000))"
| node: "p < np \<Longrightarrow> int_layout h n (p * 0x4000) \<Longrightarrow> sorted (seps h (p * 0x4000))
    \<Longrightarrow> length css = length (children h (p * 0x4000))
    \<Longrightarrow> (\<And>i. i < length css \<Longrightarrow> children h (p * 0x4000) ! i \<noteq> p \<and> btree h n np d (children h (p * 0x4000) ! i) (css ! i))
    \<Longrightarrow> (\<And>i c. i < length (seps h (p * 0x4000)) \<Longrightarrow> c \<in> set (css ! i) \<Longrightarrow> fst c < seps h (p * 0x4000) ! i)
    \<Longrightarrow> (\<And>i c. i < length (seps h (p * 0x4000)) \<Longrightarrow> c \<in> set (css ! Suc i) \<Longrightarrow> seps h (p * 0x4000) ! i \<le> fst c)
    \<Longrightarrow> btree h n np (Suc d) p (concat css)"

lemma visible_concat: "visible key snap (concat css) = concat (map (visible key snap) css)"
  by (induction css) (auto simp: visible_def)

lemma concat_single: "i < length xss \<Longrightarrow> (\<And>j. j < length xss \<Longrightarrow> j \<noteq> i \<Longrightarrow> xss ! j = []) \<Longrightarrow> concat xss = xss ! i"
proof (induction xss arbitrary: i)
  case (Cons xs xss)
  show ?case
  proof (cases i)
    case 0
    have "xss ! j = []" if "j < length xss" for j using Cons.prems(2) [of "Suc j"] that 0 by simp
    then have "\<forall>x \<in> set xss. x = []" by (auto simp: in_set_conv_nth)
    then show ?thesis by (simp add: 0)
  next
    case (Suc k)
    have "xs = []" using Cons.prems(2) [of 0] Suc by simp
    moreover have "xss ! j = []" if "j < length xss" "j \<noteq> k" for j using Cons.prems(2) [of "Suc j"] that Suc by simp
    ultimately show ?thesis using Cons.IH [of k] Cons.prems(1) Suc by simp
  qed
qed simp

lemma as_of_concat:
  assumes "i < length css" "\<And>j c. j < length css \<Longrightarrow> j \<noteq> i \<Longrightarrow> c \<in> set (css ! j) \<Longrightarrow> fst c \<noteq> key"
  shows "as_of key snap (concat css) = as_of key snap (css ! i)"
proof -
  have "map (visible key snap) css ! j = []" if "j < length css" "j \<noteq> i" for j
    using assms(2) [of j] that by (auto simp: visible_def filter_empty_conv)
  then have "visible key snap (concat css) = visible key snap (css ! i)"
    using concat_single [of i "map (visible key snap) css"] assms(1) by (simp add: visible_concat)
  then show ?thesis by (simp add: as_of_def)
qed

lemma takeWhile_pos:
  fixes ks :: "bytes list" and key :: bytes
  assumes "sorted ks"
  defines "i \<equiv> length (takeWhile (\<lambda>s. s \<le> key) ks)"
  shows "i \<le> length ks" "j < i \<Longrightarrow> ks ! j \<le> key" "i \<le> j \<Longrightarrow> j < length ks \<Longrightarrow> key < ks ! j"
proof -
  show "i \<le> length ks" by (simp add: i_def length_takeWhile_le)
  show "j < i \<Longrightarrow> ks ! j \<le> key" unfolding i_def using nth_mem [of j "takeWhile (\<lambda>s. s \<le> key) ks"]
    by (metis set_takeWhileD takeWhile_nth)
  assume "i \<le> j" "j < length ks"
  then have "key < ks ! i" using nth_length_takeWhile [of "\<lambda>s. s \<le> key" ks] by (simp add: i_def)
  also have "ks ! i \<le> ks ! j" using assms(1) \<open>i \<le> j\<close> \<open>j < length ks\<close> by (rule sorted_nth_mono)
  finally show "key < ks ! j" .
qed

lemma descend_leaf:
  assumes "btree h n np d p cs"
  shows "d \<le> k \<Longrightarrow> \<exists>q. descend h n np key p v k = Inr (q, v + d) \<and> q < np \<and> leaf_wf h n (q * 0x4000) \<and> (d = 0 \<longrightarrow> q = p)
    \<and> as_of key snap (leaf_cells h (q * 0x4000)) = as_of key snap cs"
  using assms
proof (induction arbitrary: k v rule: btree.induct)
  case (leaf p)
  have "bt_read8 h n (p * 0x4000 + 20) = 1"
    using leaf(2) leaf_layoutD(1,2,3) [of h n "p * 0x4000"] by (auto simp: leaf_wf_def)
  then have "descend h n np key p v k = Inr (p, v)" by (cases k) auto
  with leaf show ?case by auto
next
  case (node p css d)
  let ?b = "p * 0x4000"
  define i where "i = length (takeWhile (\<lambda>s. s \<le> key) (seps h ?b))"
  note pos = takeWhile_pos [OF node.hyps(3), where key = key, folded i_def]
  have len: "length css = Suc (length (seps h ?b))" using node.hyps(4) by (simp add: children_def seps_def)
  have i: "i < length css" using pos(1) len by simp
  have ch: "bt_internal_child h n ?b key = children h ?b ! i" by (simp add: internal_child [OF node.hyps(2)] i_def)
  have b8: "bt_read8 h n (?b + 20) = 2" using node.hyps(2) by (auto simp: int_layout_def)
  have np: "children h ?b ! i < np" "children h ?b ! i \<noteq> p"
    using node.IH [OF i] by (auto elim: btree.cases)
  obtain k' where k: "k = Suc k'" "d \<le> k'" using node.prems by (cases k) auto
  have other: "fst c \<noteq> key" if j: "j < length css" "j \<noteq> i" "c \<in> set (css ! j)" for j c
  proof (cases "j < i")
    case True
    then show ?thesis using node.hyps(5) [of j c] pos(1) pos(2) [of j] j(3) by auto
  next
    case False
    then obtain j' where j': "j = Suc j'" "i \<le> j'" using j(2) by (cases j) auto
    then show ?thesis using node.hyps(6) [of j' c] pos(3) [of j'] j(1,3) len by auto
  qed
  have "as_of key snap (css ! i) = as_of key snap (concat css)" using as_of_concat [OF i other] by simp
  moreover have "descend h n np key p v k = descend h n np key (children h ?b ! i) (Suc v) k'"
    using np ch b8 by (simp add: k Let_def)
  moreover obtain q where "descend h n np key (children h ?b ! i) (Suc v) k' = Inr (q, Suc v + d)" "q < np" "leaf_wf h n (q * 0x4000)"
      "as_of key snap (leaf_cells h (q * 0x4000)) = as_of key snap (css ! i)"
    using node.IH [OF i] k(2) by blast
  ultimately show ?case by auto
qed

lemma get_heap_btree:
  assumes t: "btree h n np d p cs" and np: "n = np * 0x4000" "d < np" "p < np" and link: "d = 0 \<Longrightarrow> get64 h (p * 0x4000 + 8) = 0"
    and key: "key \<noteq> []" "length key \<le> 0xffff" "length snap = 16" and out: "\<And>dst. out = Some dst \<Longrightarrow> outn \<le> length dst"
  shows "Db_bt_get_as_of_heap h n np p key snap out outn
    = (case read_result (as_of key snap cs) out outn of (g, o') \<Rightarrow> (g\<lparr>bg_Walked := d + 1\<rparr>, o'))"
proof -
  obtain q where q: "descend h n np key p 0 np = Inr (q, d)" "q < np" "leaf_wf h n (q * 0x4000)" "d = 0 \<Longrightarrow> q = p"
      "as_of key snap (leaf_cells h (q * 0x4000)) = as_of key snap cs"
    using descend_leaf [OF t, of np key 0 snap] np(2) by auto
  have L: "leaf_layout h n (q * 0x4000)" using q(3) by (simp add: leaf_wf_def)
  have b8: "bt_read8 h n (q * 0x4000 + 20) = 1" using leaf_layoutD(1,2,3) [OF L] by auto
  have rd: "bt_get_as_of_at h n (q * 0x4000) key snap out outn = read_result (as_of key snap cs) out outn"
    using get_as_of_reads [OF q(3) key out] q(5) by simp
  have h: "h \<noteq> []" "snap \<noteq> []" "np \<noteq> 0" using leaf_layoutD(1,2) [OF L] key np(2) by auto
  have fb: "bg_Fallback (fst (read_result c out outn)) = False" for c by (simp add: read_result_def get_none_def split: option.splits prod.splits)
  show ?thesis
  proof (cases "d = 0")
    case True
    have "get64 h (q * 0x4000 + 8) = 0" using link True q(4) by simp
    then have l: "unat (bt_read64 h n (q * 0x4000 + 8)) = 0" using leaf_layoutD(1,2) [OF L] by (subst get64_read) auto
    obtain np' where "np = Suc np'" using np(2) by (cases np) auto
    then have "chain_get h n np (\<lambda>base out. bt_get_as_of_at h n base key snap out outn) get_none out q 0 np
        = (case read_result (as_of key snap cs) out outn of (g, o') \<Rightarrow> (g\<lparr>bg_Walked := 1, bg_Fallback := False\<rparr>, o'))"
      using q(2) rd l by (simp add: Let_def)
    then show ?thesis using h key np q b8 True fb [of "as_of key snap cs"]
      by (auto simp: Db_bt_get_as_of_heap_def heap_get_def split: prod.splits)
  next
    case False
    then show ?thesis using h key np q b8 rd fb [of "as_of key snap cs"]
      by (auto simp: Db_bt_get_as_of_heap_def heap_get_def split: prod.splits)
  qed
qed

section \<open>Reads of the engine\<close>

text \<open>C25: On a heap whose pages form a well-formed tree, the engine's read of a key at a snapshot returns
  exactly what the tree holds: the value of the newest version of the key not newer than the snapshot,
  and not found when there is none. The walk visits one page per level.\<close>

theorem getRawAsOfHeap_reads:
  assumes "btree h (length h) np d root cs" "length h = np * 0x4000" "d < np" "root < np" "h ! 20 \<noteq> 0"
    and "d = 0 \<longrightarrow> get64 h (root * 0x4000 + 8) = 0" "key \<noteq> []" "length key \<le> 0xffff" "length snap = 16"
  shows "getRawAsOfHeap h root key snap = map_option (\<lambda>c. snd (snd c)) (as_of key snap cs)
    \<and> bg_Walked (fst (Db_bt_get_as_of_heap h (length h) np root key snap None 0)) = d + 1"
proof -
  have g: "Db_bt_get_as_of_heap h (length h) np root key snap out outn
      = (case read_result (as_of key snap cs) out outn of (g, o') \<Rightarrow> (g\<lparr>bg_Walked := d + 1\<rparr>, o'))"
    if "\<And>dst. out = Some dst \<Longrightarrow> outn \<le> length dst" for out outn
    using assms that by (intro get_heap_btree) auto
  have "Db_bt_get_as_of_heap h (length h) np root key snap None 0
      = (case read_result (as_of key snap cs) None 0 of (g, o') \<Rightarrow> (g\<lparr>bg_Walked := d + 1\<rparr>, o'))"
    "Db_bt_get_as_of_heap h (length h) np root key snap (Some (replicate m 0)) m
      = (case read_result (as_of key snap cs) (Some (replicate m 0)) m of (g, o') \<Rightarrow> (g\<lparr>bg_Walked := d + 1\<rparr>, o'))" for m
    by (rule g, simp)+
  moreover have "length h div 0x4000 = np" using assms(2) by simp
  ultimately show ?thesis
    using assms(5) by (auto simp: getRawAsOfHeap_def read_result_def get_none_def put_at_0 split: option.splits)
qed

theorem getRawAsOfHeap_reads_witness:
  "getRawAsOfHeap (put_ver 0x4000 0 (snd (Db_bt_leaf_init (replicate 0x4000 0) 0x4000)) [7] (replicate 16 2) [42]) 0 [7] (replicate 16 2) = Some [42]"
proof -
  define e where "e = snd (Db_bt_leaf_init (replicate 0x4000 0) 0x4000)"
  define h where "h = put_ver 0x4000 0 e [7] (replicate 16 2) [42]"
  have e: "leaf_wf e 0x4000 0" "leaf_cells e 0 = []" "leaf_free e 0 = 0x3fc0" using leaf_init_wf [of "replicate 0x4000 0"] by (simp_all add: e_def)
  have p: "e = put_at (put_at (put_at ((replicate 0x4000 0)[20 := 1]) 22 (le_put16 0)) 24 (le_put16 64)) 26 (le_put16 0x4000)"
    by (simp add: e_def Db_bt_leaf_init_def bt_bounds_def bt_write8_def Let_def)
  have le: "length e = 0x4000" by (simp add: p)
  have fit: "cell_ok ([7], replicate 16 2, [42])" "ver_len ([7], replicate 16 2, [42]) + 2 \<le> leaf_free e 0" by (simp_all add: cell_ok_def ver_len_def e)
  have lay: "leaf_layout e 0x4000 0" using e(1) by (simp add: leaf_wf_def)
  note h = put_ver_cells [OF e(1), of "[7]" "replicate 16 2" "[42]", folded h_def]
  have hc: "leaf_wf h 0x4000 0" "leaf_cells h 0 = [([7], replicate 16 2, [42])]" using h fit by (simp_all add: ver_fits_def e insert_ver_def)
  have lh: "length h = 0x4000" using insert_ver_effect(1) [OF lay fit] le by (simp add: h_def put_ver_def)
  have fr: "bslice h 8 8 = bslice e 8 8" using insert_ver_effect(6) [OF lay fit, of 8 8] le by (simp add: h_def put_ver_def)
  have "e ! i = 0" if "8 \<le> i" "i < 16" for i using that by (simp add: p put_at_nth)
  then have "bslice e 8 8 = replicate 8 0" using le by (intro nth_equalityI) auto
  moreover have "le_get64 (replicate 8 0) = 0" by (simp add: le_get64_def nth_replicate)
  ultimately have lk: "get64 h 8 = 0" by (simp only: get64_def fr unsigned_0)
  have "btree h (length h) 1 0 0 (leaf_cells h (0 * 0x4000))" using hc(1) lh by (intro btree.leaf) auto
  moreover have "h ! 20 \<noteq> 0" using hc(1) leaf_layoutD(3) [of h "0x4000" 0] by (simp add: leaf_wf_def)
  ultimately have "getRawAsOfHeap h 0 [7] (replicate 16 2) = map_option (\<lambda>c. snd (snd c)) (as_of [7] (replicate 16 2) (leaf_cells h (0 * 0x4000)))"
    using getRawAsOfHeap_reads [of h 1 0 0 "leaf_cells h (0 * 0x4000)" "[7]" "replicate 16 2"] lh lk by simp
  then have "getRawAsOfHeap h 0 [7] (replicate 16 2) = Some [42]" by (simp add: hc as_of_def visible_def)
  then show ?thesis by (simp only: h_def e_def)
qed

end
