(* ===== verification/Shard.thy ===== *)
theory Shard
  imports Btree
begin

text \<open>
  The heap of a shard, \<^verbatim>\<open>src/pkg/c2db/engine.go\<close>: the published image \<open>pub\<close>, the working image \<open>dirty\<close>, and the
  set of pages in which they differ (a bit mask, a list in order of marking, and a flag when the list is
  full). The fields of the shard that concern the journal, locks, views and options are not part of this
  record. A page number fits the 32 bits of the list: a shard has at most 2^16 pages.
\<close>

definition pageN :: nat where
  "pageN = 16384"

record Shard =
  sh_pub :: bytes
  sh_dirty :: bytes
  sh_heapRoot :: nat
  sh_heapUsed :: nat
  sh_heapGen :: nat
  sh_heapPages :: nat
  sh_shardBytes :: nat
  sh_heapWatermark :: nat
  sh_dirtyMask :: "u64 list"
  sh_dirtyList :: "nat list"
  sh_dirtyListCap :: nat
  sh_dirtyOverflow :: bool

definition heapRootOff :: nat where "heapRootOff = 32"
definition heapUsedOff :: nat where "heapUsedOff = 40"
definition heapGenOff :: nat where "heapGenOff = 48"

text \<open>The list is its first \<open>dirtyListLen\<close> entries, its capacity a separate field.\<close>

definition markDirty :: "Shard \<Rightarrow> nat \<Rightarrow> Shard" where
  "markDirty s pg =
     (if pg \<ge> sh_heapPages s then s
      else let w = pg div 64
      in if w \<ge> length (sh_dirtyMask s) then s
         else let bit = push_bit (pg mod 64) 1
         in if sh_dirtyMask s ! w AND bit \<noteq> 0 then s
            else let s = s\<lparr>sh_dirtyMask := (sh_dirtyMask s)[w := sh_dirtyMask s ! w OR bit]\<rparr>
            in if length (sh_dirtyList s) < sh_dirtyListCap s
               then s\<lparr>sh_dirtyList := sh_dirtyList s @ [pg]\<rparr>
               else s\<lparr>sh_dirtyOverflow := True\<rparr>)"

definition stampHeap :: "Shard \<Rightarrow> bytes \<Rightarrow> bytes" where
  "stampHeap s buf =
     (if length buf < heapGenOff + 8 then buf
      else put_at (put_at (put_at buf heapRootOff (le_put64 (of_nat (sh_heapRoot s))))
             heapUsedOff (le_put64 (of_nat (sh_heapUsed s))))
             heapGenOff (le_put64 (of_nat (sh_heapGen s))))"

definition adoptHeap :: "Shard \<Rightarrow> Db_bt_heap_st_t \<Rightarrow> Shard" where
  "adoptHeap s st =
     (let s = s\<lparr>sh_heapRoot := hs_Root st, sh_heapUsed := (if hs_Used st < 1 then 1 else hs_Used st)\<rparr>
      in s\<lparr>sh_dirty := stampHeap s (sh_dirty s)\<rparr>)"

definition heapState :: "Shard \<Rightarrow> Db_bt_heap_st_t" where
  "heapState s = \<lparr>hs_Root = sh_heapRoot s, hs_Used = (if sh_heapUsed s < 1 then 1 else sh_heapUsed s),
     hs_Nkeys = 0, hs_Pages = 0, hs_Ok = True, hs_Full = False\<rparr>"

text \<open>The bits of a word from the lowest: \<open>TrailingZeros64\<close> and the clearing of the lowest bit visit them in this order.\<close>

definition set_bits :: "u64 \<Rightarrow> nat list" where
  "set_bits w = filter (bit w) [0..<64]"

definition recordDirtyPages :: "Shard \<Rightarrow> Db_bt_heap_st_t \<Rightarrow> Db_bt_heap_st_t \<Rightarrow> Shard" where
  "recordDirtyPages s hst st =
     (let s = markDirty (markDirty (markDirty s 0) (hs_Root st)) (hs_Root hst);
          s = (if length (sh_dirtyMask s) > 0 then foldl markDirty s (set_bits (hs_Pages st)) else s)
      in foldl markDirty s (filter (\<lambda>p. p < sh_heapPages s) [hs_Used hst..<Suc (hs_Used st)]))"

definition copy_page :: "bytes \<Rightarrow> bytes \<Rightarrow> nat \<Rightarrow> bytes" where
  "copy_page dst src pg =
     (if pg * pageN + pageN \<le> length src \<and> pg * pageN + pageN \<le> length dst
      then put_at dst (pg * pageN) (bslice src (pg * pageN) pageN) else dst)"

fun mask_pages :: "nat \<Rightarrow> u64 list \<Rightarrow> nat list" where
  "mask_pages w [] = []"
| "mask_pages w (word # ws) = map (\<lambda>b. w * 64 + b) (set_bits word) @ mask_pages (Suc w) ws"

definition clear_bit :: "u64 list \<Rightarrow> nat \<Rightarrow> u64 list" where
  "clear_bit m pg = m[pg div 64 := m ! (pg div 64) AND NOT (push_bit (pg mod 64) 1)]"

definition convergeDirtyFromPub :: "Shard \<Rightarrow> Shard" where
  "convergeDirtyFromPub s =
     (if length (sh_pub s) < sh_shardBytes s \<or> length (sh_dirty s) < sh_shardBytes s then s
      else if sh_dirtyOverflow s
      then s\<lparr>sh_dirty := foldl (\<lambda>d pg. copy_page d (sh_pub s) pg) (sh_dirty s) (mask_pages 0 (sh_dirtyMask s)),
             sh_dirtyMask := map (\<lambda>_. 0) (sh_dirtyMask s), sh_dirtyOverflow := False, sh_dirtyList := []\<rparr>
      else s\<lparr>sh_dirty := foldl (\<lambda>d pg. copy_page d (sh_pub s) pg) (sh_dirty s) (sh_dirtyList s),
             sh_dirtyMask := foldl clear_bit (sh_dirtyMask s) (sh_dirtyList s), sh_dirtyList := []\<rparr>)"

text \<open>Payloads of put and delete records of the journal. Panics on lengths over 16 bits are None.\<close>

definition txFlagStandalone :: byte where "txFlagStandalone = 0"
definition txFlagTransactional :: byte where "txFlagTransactional = 1"

definition packKVWithFlag :: "byte \<Rightarrow> bytes \<Rightarrow> bytes \<Rightarrow> bytes option" where
  "packKVWithFlag flag key val =
     (if length key > 0xffff \<or> length val > 0xffff then None
      else Some (flag # le_put16 (of_nat (length key)) @ le_put16 (of_nat (length val)) @ key @ val))"

definition packKV :: "bytes \<Rightarrow> bytes \<Rightarrow> bytes option" where
  "packKV key val = packKVWithFlag txFlagStandalone key val"

definition packTxKV :: "bytes \<Rightarrow> bytes \<Rightarrow> bytes option" where
  "packTxKV key val = packKVWithFlag txFlagTransactional key val"

definition unpackKV :: "bytes \<Rightarrow> (byte \<times> bytes \<times> bytes) option" where
  "unpackKV p =
     (if length p < 5
      then (if length p \<ge> 4
            then let klen = unat (le_get16 p); vlen = unat (le_get16 (drop 2 p))
              in if length p - 4 \<ge> klen + vlen then Some (txFlagStandalone, bslice p 4 klen, bslice p (4 + klen) vlen) else None
            else None)
      else let flag = p ! 0; klen = unat (le_get16 (drop 1 p)); vlen = unat (le_get16 (drop 3 p)); rest = length p - 5
      in if klen > rest \<or> vlen > rest - klen then None
         else Some (flag, bslice p 5 klen, bslice p (5 + klen) vlen))"

section \<open>The set of diverging pages\<close>

definition marked :: "Shard \<Rightarrow> nat \<Rightarrow> bool" where
  "marked s pg \<longleftrightarrow> pg div 64 < length (sh_dirtyMask s) \<and> bit (sh_dirtyMask s ! (pg div 64)) (pg mod 64)"

definition heap_page :: "bytes \<Rightarrow> nat \<Rightarrow> bytes" where
  "heap_page h pg = bslice h (pg * pageN) pageN"

text \<open>The shape of a shard: both images have the size of the heap, the mask has a bit for every page, and
  while the list has not overflowed it holds every marked page.\<close>

definition shard_ok :: "Shard \<Rightarrow> bool" where
  "shard_ok s \<longleftrightarrow> sh_shardBytes s = sh_heapPages s * pageN \<and> length (sh_pub s) = sh_shardBytes s \<and> length (sh_dirty s) = sh_shardBytes s
     \<and> sh_heapPages s \<le> 64 * length (sh_dirtyMask s)
     \<and> (\<forall>pg. marked s pg \<longrightarrow> pg < sh_heapPages s \<and> (sh_dirtyOverflow s \<or> pg \<in> set (sh_dirtyList s)))
     \<and> (\<forall>pg \<in> set (sh_dirtyList s). pg < sh_heapPages s)"

definition diverging_marked :: "Shard \<Rightarrow> bool" where
  "diverging_marked s \<longleftrightarrow> (\<forall>pg < sh_heapPages s. heap_page (sh_dirty s) pg \<noteq> heap_page (sh_pub s) pg \<longrightarrow> marked s pg)"

lemma mask_bit: "(w :: u64) AND 2 ^ k = 0 \<longleftrightarrow> \<not> bit w k"
  by (simp add: and_exp_eq_0_iff_not_bit)

lemma bit_or_push: "k < 64 \<Longrightarrow> bit ((w :: u64) OR 2 ^ k) j \<longleftrightarrow> bit w j \<or> j = k"
  by (auto simp: bit_simps)

lemma bit_and_not_push: "k < 64 \<Longrightarrow> bit ((w :: u64) AND NOT (2 ^ k)) j \<longleftrightarrow> bit w j \<and> j \<noteq> k"
  using bit_imp_le_length [of w j] by (auto simp: bit_simps)

lemma div_mod_eq: "(a :: nat) div 64 = b div 64 \<Longrightarrow> a mod 64 = b mod 64 \<Longrightarrow> a = b"
  by (metis div_mult_mod_eq)

lemma marked_markDirty:
  assumes "pg < sh_heapPages s" "sh_heapPages s \<le> 64 * length (sh_dirtyMask s)"
  shows "marked (markDirty s pg) p \<longleftrightarrow> marked s p \<or> p = pg"
proof -
  have "pg div 64 < length (sh_dirtyMask s)" using assms by (simp add: less_mult_imp_div_less mult.commute)
  then show ?thesis
    using assms(1) div_mod_eq [of p pg]
    by (auto simp: markDirty_def marked_def mask_bit Let_def nth_list_update bit_or_push)
qed

lemma markDirty_keeps [simp]:
  "sh_pub (markDirty s pg) = sh_pub s" "sh_dirty (markDirty s pg) = sh_dirty s" "sh_heapPages (markDirty s pg) = sh_heapPages s"
  "sh_shardBytes (markDirty s pg) = sh_shardBytes s" "length (sh_dirtyMask (markDirty s pg)) = length (sh_dirtyMask s)"
  "sh_heapUsed (markDirty s pg) = sh_heapUsed s" "sh_heapWatermark (markDirty s pg) = sh_heapWatermark s" "sh_heapRoot (markDirty s pg) = sh_heapRoot s"
  "sh_heapGen (markDirty s pg) = sh_heapGen s"
  by (simp_all add: markDirty_def Let_def)

lemma markDirty_outside: "sh_heapPages s \<le> pg \<Longrightarrow> markDirty s pg = s"
  by (simp add: markDirty_def)

lemma markDirty_list:
  "set (sh_dirtyList s) \<subseteq> set (sh_dirtyList (markDirty s pg))" "set (sh_dirtyList (markDirty s pg)) \<subseteq> insert pg (set (sh_dirtyList s))"
  "sh_dirtyOverflow s \<Longrightarrow> sh_dirtyOverflow (markDirty s pg)"
  by (auto simp: markDirty_def Let_def)

lemma markDirty_listed:
  assumes "pg < sh_heapPages s" "sh_heapPages s \<le> 64 * length (sh_dirtyMask s)" "\<not> marked s pg"
  shows "sh_dirtyOverflow (markDirty s pg) \<or> pg \<in> set (sh_dirtyList (markDirty s pg))"
proof -
  have "pg div 64 < length (sh_dirtyMask s)" using assms by (simp add: less_mult_imp_div_less mult.commute)
  then show ?thesis using assms(1,3) by (auto simp: markDirty_def marked_def mask_bit Let_def)
qed

lemma markDirty_ok:
  assumes "shard_ok s"
  shows "shard_ok (markDirty s pg)"
proof (cases "pg < sh_heapPages s")
  case True
  have cap: "sh_heapPages s \<le> 64 * length (sh_dirtyMask s)" using assms by (simp add: shard_ok_def)
  note m = marked_markDirty [OF True cap]
  have "p < sh_heapPages s \<and> (sh_dirtyOverflow (markDirty s pg) \<or> p \<in> set (sh_dirtyList (markDirty s pg)))" if "marked (markDirty s pg) p" for p
    using that assms True markDirty_list [of s pg] markDirty_listed [OF True cap] unfolding m shard_ok_def by blast
  moreover have "\<forall>p \<in> set (sh_dirtyList (markDirty s pg)). p < sh_heapPages s"
    using assms True markDirty_list(2) [of s pg] unfolding shard_ok_def by blast
  ultimately show ?thesis using assms by (simp add: shard_ok_def)
qed (use assms in \<open>simp add: markDirty_outside\<close>)

section \<open>Rolling back to the published image\<close>

lemma page_disjoint: "p \<noteq> (pg :: nat) \<Longrightarrow> p * pageN + pageN \<le> pg * pageN \<or> pg * pageN + pageN \<le> p * pageN"
proof -
  assume "p \<noteq> pg"
  then consider "p + 1 \<le> pg" | "pg + 1 \<le> p" by linarith
  then show ?thesis
  proof cases
    case 1
    then have "(p + 1) * pageN \<le> pg * pageN" by (rule mult_le_mono1)
    then show ?thesis by simp
  next
    case 2
    then have "(pg + 1) * pageN \<le> p * pageN" by (rule mult_le_mono1)
    then show ?thesis by simp
  qed
qed

lemma page_inside: "pg < m \<Longrightarrow> pg * pageN + pageN \<le> m * pageN"
  using mult_le_mono1 [of "pg + 1" m pageN] by simp

lemma heap_page_put:
  assumes "length d = m * pageN" "pg < m" "p < m" "length xs = pageN"
  shows "heap_page (put_at d (pg * pageN) xs) p = (if p = pg then xs else heap_page d p)"
  using assms page_inside [of pg m] page_inside [of p m] page_disjoint [of p pg] by (auto simp: heap_page_def)

lemma copy_page_page:
  assumes "length d = m * pageN" "length src = m * pageN" "pg < m" "p < m"
  shows "heap_page (copy_page d src pg) p = (if p = pg then heap_page src p else heap_page d p)"
proof -
  have "length (bslice src (pg * pageN) pageN) = pageN" using assms page_inside [of pg m] by simp
  then show ?thesis
    using heap_page_put [OF assms(1,3,4), of "bslice src (pg * pageN) pageN"] assms page_inside [of pg m]
    by (simp add: copy_page_def heap_page_def)
qed

lemma copy_page_length [simp]: "length (copy_page d src pg) = length d"
  by (simp add: copy_page_def)

lemma copy_pages_page:
  "length d = m * pageN \<Longrightarrow> length src = m * pageN \<Longrightarrow> \<forall>pg \<in> set pgs. pg < m \<Longrightarrow> p < m
    \<Longrightarrow> length (foldl (\<lambda>d pg. copy_page d src pg) d pgs) = length d
      \<and> heap_page (foldl (\<lambda>d pg. copy_page d src pg) d pgs) p = (if p \<in> set pgs then heap_page src p else heap_page d p)"
proof (induction pgs arbitrary: d)
  case (Cons pg pgs)
  then show ?case using Cons.IH [of "copy_page d src pg"] copy_page_page [of d m src pg p] by auto
qed simp

lemma copy_pages_length: "length (foldl (\<lambda>d pg. copy_page d src pg) d pgs) = length d"
  by (induction pgs arbitrary: d) auto

lemma heap_eqI:
  assumes "length a = m * pageN" "length b = m * pageN" "\<And>pg. pg < m \<Longrightarrow> heap_page a pg = heap_page b pg"
  shows "a = b"
proof (rule nth_equalityI)
  fix i assume i: "i < length a"
  have pos: "0 < pageN" by (simp add: pageN_def)
  have pg: "i div pageN < m" using i assms(1) by (simp add: less_mult_imp_div_less)
  have e: "i div pageN * pageN + i mod pageN = i" by simp
  have "a ! i = heap_page a (i div pageN) ! (i mod pageN)" using i pos e by (simp add: heap_page_def)
  moreover have "b ! i = heap_page b (i div pageN) ! (i mod pageN)" using i pos e assms(1,2) by (simp add: heap_page_def)
  ultimately show "a ! i = b ! i" using assms(3) [OF pg] by simp
qed (use assms in simp)

lemma converge_copies:
  assumes ok: "shard_ok s" and div: "diverging_marked s" and pgs: "\<And>pg. marked s pg \<Longrightarrow> pg \<in> set pgs" "\<forall>pg \<in> set pgs. pg < sh_heapPages s"
  shows "foldl (\<lambda>d pg. copy_page d (sh_pub s) pg) (sh_dirty s) pgs = sh_pub s"
proof (rule heap_eqI [of _ "sh_heapPages s"])
  have l: "length (sh_dirty s) = sh_heapPages s * pageN" "length (sh_pub s) = sh_heapPages s * pageN" using ok by (auto simp: shard_ok_def)
  note c = copy_pages_page [OF l pgs(2)]
  show "length (sh_pub s) = sh_heapPages s * pageN" by (rule l)
  show "length (foldl (\<lambda>d pg. copy_page d (sh_pub s) pg) (sh_dirty s) pgs) = sh_heapPages s * pageN"
    using l copy_pages_length by simp
  fix p assume p: "p < sh_heapPages s"
  show "heap_page (foldl (\<lambda>d pg. copy_page d (sh_pub s) pg) (sh_dirty s) pgs) p = heap_page (sh_pub s) p"
    using c [OF p] div p pgs(1) [of p] by (auto simp: diverging_marked_def)
qed

lemma set_bits_mem: "k < 64 \<Longrightarrow> k \<in> set (set_bits w) \<longleftrightarrow> bit w k"
  by (auto simp: set_bits_def)

lemma mask_pages_mem: "pg \<in> set (mask_pages w ms) \<longleftrightarrow> w * 64 \<le> pg \<and> pg div 64 - w < length ms \<and> bit (ms ! (pg div 64 - w)) (pg mod 64)"
proof (induction ms arbitrary: w)
  case (Cons m ms)
  have "pg \<in> set (map (\<lambda>b. w * 64 + b) (set_bits m)) \<longleftrightarrow> pg div 64 = w \<and> bit m (pg mod 64)"
  proof
    assume "pg \<in> set (map (\<lambda>b. w * 64 + b) (set_bits m))"
    then obtain b where "pg = w * 64 + b" "b < 64" "bit m b" by (auto simp: set_bits_def)
    then show "pg div 64 = w \<and> bit m (pg mod 64)" by simp
  next
    assume a: "pg div 64 = w \<and> bit m (pg mod 64)"
    then have "pg = w * 64 + pg mod 64" using div_mult_mod_eq [of pg 64] by simp
    then show "pg \<in> set (map (\<lambda>b. w * 64 + b) (set_bits m))" using a by (auto simp: set_bits_def image_iff intro!: exI [of _ "pg mod 64"])
  qed
  moreover have "Suc w * 64 \<le> pg \<longleftrightarrow> w < pg div 64" by (simp add: less_eq_div_iff_mult_less_eq Suc_le_eq [symmetric])
  moreover have "w * 64 \<le> pg \<longleftrightarrow> w \<le> pg div 64" by (simp add: less_eq_div_iff_mult_less_eq)
  ultimately show ?case using Cons.IH [of "Suc w"]
    by (cases "pg div 64 = w") (auto simp: nth_Cons' Suc_diff_Suc)
qed simp

lemma marked_pages: "marked s pg \<longleftrightarrow> pg \<in> set (mask_pages 0 (sh_dirtyMask s))"
  by (simp add: marked_def mask_pages_mem)

lemma clear_bits:
  "length (foldl clear_bit m pgs) = length m \<and>
   (pg div 64 < length m \<longrightarrow> (bit (foldl clear_bit m pgs ! (pg div 64)) (pg mod 64) \<longleftrightarrow> bit (m ! (pg div 64)) (pg mod 64) \<and> pg \<notin> set pgs))"
proof (induction pgs arbitrary: m)
  case (Cons p pgs)
  have "length (clear_bit m p) = length m" by (simp add: clear_bit_def)
  moreover have "pg div 64 < length m \<Longrightarrow> bit (clear_bit m p ! (pg div 64)) (pg mod 64) \<longleftrightarrow> bit (m ! (pg div 64)) (pg mod 64) \<and> pg \<noteq> p"
    using div_mod_eq [of pg p] by (cases "pg div 64 = p div 64") (auto simp: clear_bit_def bit_and_not_push)
  ultimately show ?case using Cons.IH [of "clear_bit m p"] by auto
qed simp

text \<open>C33: Rolling back restores the published image: while every page in which the working image differs
  from the published one is marked, converging makes the two images equal byte by byte and leaves no page
  marked, also when the list of marked pages had overflowed and the mask is scanned instead.\<close>

theorem converge_restores:
  assumes "shard_ok s" "diverging_marked s"
  shows "sh_dirty (convergeDirtyFromPub s) = sh_pub s \<and> sh_pub (convergeDirtyFromPub s) = sh_pub s
    \<and> (\<forall>pg. \<not> marked (convergeDirtyFromPub s) pg) \<and> shard_ok (convergeDirtyFromPub s)"
proof -
  have l: "length (sh_pub s) = sh_shardBytes s" "length (sh_dirty s) = sh_shardBytes s" using assms(1) by (auto simp: shard_ok_def)
  have m: "marked s pg \<Longrightarrow> pg < sh_heapPages s" for pg using assms(1) by (auto simp: shard_ok_def)
  show ?thesis
  proof (cases "sh_dirtyOverflow s")
    case True
    have d: "foldl (\<lambda>d pg. copy_page d (sh_pub s) pg) (sh_dirty s) (mask_pages 0 (sh_dirtyMask s)) = sh_pub s"
      using m by (intro converge_copies assms) (auto simp: marked_pages)
    show ?thesis using assms(1) l d True by (auto simp: convergeDirtyFromPub_def marked_def shard_ok_def)
  next
    case False
    have d: "foldl (\<lambda>d pg. copy_page d (sh_pub s) pg) (sh_dirty s) (sh_dirtyList s) = sh_pub s"
      using assms(1) False by (intro converge_copies assms) (auto simp: shard_ok_def)
    have "\<not> marked (convergeDirtyFromPub s) pg" for pg
      using clear_bits [of "sh_dirtyMask s" "sh_dirtyList s" pg] assms(1) False l
      by (auto simp: convergeDirtyFromPub_def marked_def shard_ok_def)
    then show ?thesis using assms(1) l d False clear_bits [of "sh_dirtyMask s" "sh_dirtyList s"]
      by (auto simp: convergeDirtyFromPub_def shard_ok_def)
  qed
qed

theorem converge_restores_witness:
  "sh_dirty (convergeDirtyFromPub \<lparr>sh_pub = replicate 16384 0, sh_dirty = replicate 16384 1, sh_heapRoot = 0, sh_heapUsed = 1, sh_heapGen = 0, sh_heapPages = 1,
     sh_shardBytes = 16384, sh_heapWatermark = 1, sh_dirtyMask = [1], sh_dirtyList = [0], sh_dirtyListCap = 1, sh_dirtyOverflow = False\<rparr>) = replicate 16384 0"
proof -
  define s where "s = \<lparr>sh_pub = replicate 16384 0, sh_dirty = replicate 16384 1, sh_heapRoot = 0, sh_heapUsed = 1, sh_heapGen = 0, sh_heapPages = 1,
     sh_shardBytes = 16384, sh_heapWatermark = 1, sh_dirtyMask = [1], sh_dirtyList = [0], sh_dirtyListCap = 1, sh_dirtyOverflow = False\<rparr>"
  have "marked s pg \<longleftrightarrow> pg = 0" for pg by (auto simp: s_def marked_def bit_1_iff)
  then have "shard_ok s" "diverging_marked s" by (auto simp: shard_ok_def diverging_marked_def s_def pageN_def)
  then have "sh_dirty (convergeDirtyFromPub s) = sh_pub s" using converge_restores [of s] by simp
  then show ?thesis by (simp add: s_def)
qed

end
