(* ===== verification/Overflow.thy ===== *)
theory Overflow
  imports Shard Btree_Walk
begin

text \<open>
  Values longer than 2048 bytes, \<^verbatim>\<open>src/pkg/c2db/overflow.go\<close>: the cell holds a 13-byte descriptor, the value
  lies in a chain of overflow pages. Encoding, decoding, the streaming reader, and what a deletion does
  with the chains of the cells it removes. Automatic compaction is an argument of the allocation: it
  belongs to the rebuild procedures of the engine.
\<close>

datatype heap_error = ErrPayloadTooLarge | ErrHeapFull | ErrTreeFull | errInsert | ErrMmap
  | ErrCorruptedOverflowChain | ErrOverflowOutOfBounds | IoEOF | IoUnexpectedEOF | CompactFailed string

definition cellKindInline :: byte where "cellKindInline = 0"
definition cellKindOverflow :: byte where "cellKindOverflow = 1"
definition TypeOverflow :: byte where "TypeOverflow = 3"
definition InlineCutoff :: nat where "InlineCutoff = 2048"
definition OverflowDescLen :: nat where "OverflowDescLen = 13"
definition OverflowChunkCapacity :: nat where "OverflowChunkCapacity = pageN - 64"

definition chain_pages :: "nat \<Rightarrow> nat" where
  "chain_pages totalLen = (totalLen + OverflowChunkCapacity - 1) div OverflowChunkCapacity"

section \<open>Allocation\<close>

definition overflow_page :: "bytes \<Rightarrow> nat \<Rightarrow> bytes \<Rightarrow> nat \<Rightarrow> bytes" where
  "overflow_page pageBuf nextPage chunk seq =
     (let p = put_at pageBuf 0 (replicate 64 0);
          p = p[20 := TypeOverflow];
          p = put_at p 32 (le_put64 (of_nat nextPage));
          p = put_at p 40 (le_put32 (of_nat (length chunk)));
          p = put_at p 44 (le_put32 (of_nat seq));
          p = put_at p 64 chunk
      in snd (C2db_crc32c_fullpage_store p pageN))"

fun alloc_loop :: "bytes \<Rightarrow> nat \<Rightarrow> Shard \<Rightarrow> nat \<Rightarrow> nat \<Rightarrow> nat \<Rightarrow> nat \<Rightarrow> Shard" where
  "alloc_loop val numPages s currPage valOffset seq 0 = s"
| "alloc_loop val numPages s currPage valOffset seq (Suc k) =
     (let nextPage = (if seq + 1 < numPages then currPage + 1 else 0);
          chunkLen = (if length val - valOffset < OverflowChunkCapacity then length val - valOffset else OverflowChunkCapacity);
          page = overflow_page (bslice (sh_dirty s) (currPage * pageN) pageN) nextPage (bslice val valOffset chunkLen) seq;
          s = s\<lparr>sh_dirty := put_at (sh_dirty s) (currPage * pageN) page\<rparr>
      in alloc_loop val numPages (markDirty s currPage) nextPage (valOffset + chunkLen) (Suc seq) k)"

definition heap_short :: "Shard \<Rightarrow> nat \<Rightarrow> bool" where
  "heap_short s numPages \<longleftrightarrow> sh_heapUsed s \<ge> sh_heapWatermark s \<or> numPages > sh_heapWatermark s - sh_heapUsed s"

definition alloc_write :: "Shard \<Rightarrow> bytes \<Rightarrow> nat \<Rightarrow> (heap_error + nat \<times> nat) \<times> Shard" where
  "alloc_write s val numPages =
     (let headPage = sh_heapUsed s; s = alloc_loop val numPages s headPage 0 0 numPages
      in (Inr (headPage, numPages), s\<lparr>sh_heapUsed := sh_heapUsed s + numPages\<rparr>))"

definition allocOverflowPages ::
    "(Shard \<Rightarrow> (heap_error + bool) \<times> Shard) \<Rightarrow> Shard \<Rightarrow> bytes \<Rightarrow> (heap_error + nat \<times> nat) \<times> Shard" where
  "allocOverflowPages tryAutoCompact s val =
     (let numPages = chain_pages (length val)
      in if heap_short s numPages
         then (case tryAutoCompact s of
             (Inl e, s) \<Rightarrow> (Inl e, s)
           | (Inr ok, s) \<Rightarrow>
               if \<not> ok then (Inl ErrHeapFull, s)
               else if heap_short s numPages then (Inl ErrHeapFull, s)
               else alloc_write s val numPages)
         else alloc_write s val numPages)"

definition overflow_desc :: "nat \<Rightarrow> nat \<Rightarrow> bytes" where
  "overflow_desc totalLen head = cellKindOverflow # le_put32 (of_nat totalLen) @ le_put64 (of_nat head)"

text \<open>The cell value, whether it overflows, the head page and the number of pages.\<close>

definition encodeValue ::
    "(Shard \<Rightarrow> (heap_error + bool) \<times> Shard) \<Rightarrow> Shard \<Rightarrow> bytes \<Rightarrow> (heap_error + bytes \<times> bool \<times> nat \<times> nat) \<times> Shard" where
  "encodeValue tryAutoCompact s val =
     (if length val \<le> InlineCutoff then (Inr (cellKindInline # val, False, 0, 0), s)
      else if length val > 0xffffffff then (Inl ErrPayloadTooLarge, s)
      else case allocOverflowPages tryAutoCompact s val of
        (Inl e, s) \<Rightarrow> (Inl e, s)
      | (Inr (head, nPages), s) \<Rightarrow> (Inr (overflow_desc (length val) head, True, head, nPages), s))"

section \<open>Reading a chain\<close>

definition page_next :: "bytes \<Rightarrow> nat" where "page_next p = unat (le_get64 (drop 32 p))"
definition page_chunk :: "bytes \<Rightarrow> nat" where "page_chunk p = unat (le_get32 (drop 40 p))"
definition page_seq :: "bytes \<Rightarrow> nat" where "page_seq p = unat (le_get32 (drop 44 p))"

fun chain_loop :: "bytes \<Rightarrow> nat \<Rightarrow> nat \<Rightarrow> bytes \<Rightarrow> nat \<Rightarrow> nat \<Rightarrow> nat \<Rightarrow> nat \<Rightarrow> heap_error + bytes \<times> nat" where
  "chain_loop heap heapPages totalLen out currPage walked valOffset 0 = Inr (out, valOffset)"
| "chain_loop heap heapPages totalLen out currPage walked valOffset (Suc k) =
     (if currPage = 0 \<or> valOffset \<ge> totalLen then Inr (out, valOffset)
      else if currPage \<ge> heapPages then Inl ErrOverflowOutOfBounds
      else let pageOff = currPage * pageN
      in if pageOff + pageN > length heap then Inl ErrOverflowOutOfBounds
         else let pageBuf = bslice heap pageOff pageN
      in if pageBuf ! 20 \<noteq> TypeOverflow then Inl ErrCorruptedOverflowChain
         else let nextPage = page_next pageBuf; chunkLen = page_chunk pageBuf; seq = page_seq pageBuf
      in if seq \<noteq> walked then Inl ErrCorruptedOverflowChain
         else if chunkLen > OverflowChunkCapacity then Inl ErrCorruptedOverflowChain
         else if 64 + chunkLen > pageN then Inl ErrCorruptedOverflowChain
         else if valOffset > totalLen \<or> chunkLen > totalLen - valOffset then Inl ErrCorruptedOverflowChain
         else chain_loop heap heapPages totalLen (put_at out valOffset (bslice pageBuf 64 chunkLen))
                nextPage (Suc walked) (valOffset + chunkLen) k)"

definition readOverflowChain :: "bytes \<Rightarrow> nat \<Rightarrow> nat \<Rightarrow> nat \<Rightarrow> heap_error + bytes" where
  "readOverflowChain heap heapPages headPage totalLen =
     (if headPage = 0 \<or> headPage \<ge> heapPages then Inl ErrOverflowOutOfBounds
      else case chain_loop heap heapPages totalLen (replicate totalLen 0) headPage 0 0 (chain_pages totalLen + 1) of
        Inl e \<Rightarrow> Inl e
      | Inr (out, valOffset) \<Rightarrow> if valOffset \<noteq> totalLen then Inl ErrCorruptedOverflowChain else Inr out)"

definition isOverflowDescriptor :: "bytes \<Rightarrow> (nat \<times> nat) option" where
  "isOverflowDescriptor rawVal =
     (if length rawVal = OverflowDescLen \<and> rawVal ! 0 = cellKindOverflow
      then Some (unat (le_get32 (bslice rawVal 1 4)), unat (le_get64 (bslice rawVal 5 8))) else None)"

definition decodeValue :: "bytes \<Rightarrow> nat \<Rightarrow> bytes \<Rightarrow> heap_error + bytes" where
  "decodeValue heap heapPages rawVal =
     (if length rawVal = 0 then Inr rawVal
      else if length rawVal = OverflowDescLen \<and> rawVal ! 0 = cellKindOverflow
      then readOverflowChain heap heapPages (unat (le_get64 (bslice rawVal 5 8))) (unat (le_get32 (bslice rawVal 1 4)))
      else if rawVal ! 0 = cellKindInline then Inr (drop 1 rawVal)
      else Inr rawVal)"

definition checkOverflowDesc :: "bytes \<Rightarrow> bool \<times> nat \<times> nat" where
  "checkOverflowDesc rawVal =
     (case isOverflowDescriptor rawVal of Some (tLen, hPage) \<Rightarrow> (True, hPage, chain_pages tLen) | None \<Rightarrow> (False, 0, 0))"

definition getAsOfHeap :: "bytes \<Rightarrow> nat \<Rightarrow> bytes \<Rightarrow> bytes \<Rightarrow> heap_error + bytes option" where
  "getAsOfHeap heap root key snap =
     (case getRawAsOfHeap heap root key snap of
       None \<Rightarrow> Inr None
     | Some raw \<Rightarrow> (case decodeValue heap (length heap div pageN) raw of Inl e \<Rightarrow> Inl e | Inr v \<Rightarrow> Inr (Some v)))"

section \<open>The streaming reader\<close>

record overflowStreamReader =
  rd_heap :: bytes
  rd_heapPages :: nat
  rd_currPage :: nat
  rd_activePage :: nat
  rd_totalLen :: nat
  rd_valOffset :: nat
  rd_pageOff :: nat
  rd_chunkLen :: nat
  rd_walked :: nat
  rd_maxPages :: nat

text \<open>The reader a cursor opens on an overflow descriptor; the pin it takes on the heap keeps \<open>heap\<close> unchanged while it is open.\<close>

definition open_stream :: "bytes \<Rightarrow> nat \<Rightarrow> nat \<Rightarrow> nat \<Rightarrow> overflowStreamReader" where
  "open_stream heap npages totalLen headPage =
     \<lparr>rd_heap = heap, rd_heapPages = npages, rd_currPage = headPage, rd_activePage = 0, rd_totalLen = totalLen, rd_valOffset = 0,
      rd_pageOff = 0, rd_chunkLen = 0, rd_walked = 0, rd_maxPages = chain_pages totalLen\<rparr>"

text \<open>One turn of the loop that moves to the next page: its error, or the reader with the page as active page.\<close>

definition next_page :: "overflowStreamReader \<Rightarrow> heap_error + overflowStreamReader" where
  "next_page r =
     (if rd_currPage r = 0 \<or> rd_walked r \<ge> rd_maxPages r
      then Inl (if rd_valOffset r < rd_totalLen r then IoUnexpectedEOF else IoEOF)
      else if rd_currPage r \<ge> rd_heapPages r then Inl ErrOverflowOutOfBounds
      else let base = rd_currPage r * pageN
      in if base + pageN > length (rd_heap r) then Inl ErrOverflowOutOfBounds
         else let pageBuf = bslice (rd_heap r) base pageN
      in if pageBuf ! 20 \<noteq> TypeOverflow then Inl ErrCorruptedOverflowChain
         else let thisChunkLen = page_chunk pageBuf; seq = page_seq pageBuf
      in if thisChunkLen > OverflowChunkCapacity then Inl ErrCorruptedOverflowChain
         else if 64 + thisChunkLen > pageN then Inl ErrCorruptedOverflowChain
         else if rd_valOffset r > rd_totalLen r \<or> thisChunkLen > rd_totalLen r - rd_valOffset r then Inl ErrCorruptedOverflowChain
         else if seq \<noteq> rd_walked r then Inl ErrCorruptedOverflowChain
         else Inr (r\<lparr>rd_activePage := rd_currPage r, rd_currPage := page_next pageBuf, rd_chunkLen := thisChunkLen, rd_pageOff := 0, rd_walked := rd_walked r + 1\<rparr>))"

lemma next_page_walked: "next_page r = Inr r' \<Longrightarrow> rd_maxPages r' - rd_walked r' < rd_maxPages r - rd_walked r"
  by (auto simp: next_page_def Let_def split: if_splits)

function next_chunk :: "overflowStreamReader \<Rightarrow> heap_error option \<times> overflowStreamReader" where
  "next_chunk r =
     (if rd_pageOff r \<ge> rd_chunkLen r
      then (case next_page r of Inl e \<Rightarrow> (Some e, r) | Inr r' \<Rightarrow> next_chunk r')
      else (None, r))"
  by pat_completeness auto
termination
  by (relation "measure (\<lambda>r. rd_maxPages r - rd_walked r)") (auto dest: next_page_walked)

declare next_chunk.simps [simp del]

text \<open>A read into a buffer of \<open>plen\<close> bytes returns the bytes it copied to its front.\<close>

definition stream_Read :: "overflowStreamReader \<Rightarrow> nat \<Rightarrow> (heap_error + bytes) \<times> overflowStreamReader" where
  "stream_Read r plen =
     (if rd_valOffset r \<ge> rd_totalLen r then (Inl IoEOF, r)
      else case next_chunk r of
        (Some e, r) \<Rightarrow> (Inl e, r)
      | (None, r) \<Rightarrow>
          if rd_pageOff r \<ge> rd_chunkLen r then (Inl IoUnexpectedEOF, r)
          else let base = rd_activePage r * pageN + 64 + rd_pageOff r;
                   available = rd_chunkLen r - rd_pageOff r;
                   available = (if plen mod 2 ^ 32 < available then plen mod 2 ^ 32 else available);
                   available = (if rd_valOffset r + available > rd_totalLen r then rd_totalLen r - rd_valOffset r else available)
          in if available > OverflowChunkCapacity \<or> 64 + rd_pageOff r + available > pageN then (Inl ErrCorruptedOverflowChain, r)
             else if base + available > length (rd_heap r) then (Inl ErrOverflowOutOfBounds, r)
             else if base + available > (rd_activePage r + 1) * pageN then (Inl ErrCorruptedOverflowChain, r)
             else (Inr (bslice (rd_heap r) base available),
                   r\<lparr>rd_pageOff := rd_pageOff r + available, rd_valOffset := rd_valOffset r + available\<rparr>))"

section \<open>Deletion\<close>

fun target_loop :: "bytes \<Rightarrow> nat \<Rightarrow> bytes \<Rightarrow> nat \<Rightarrow> nat \<Rightarrow> nat option" where
  "target_loop heap npages key page 0 = None"
| "target_loop heap npages key page (Suc k) =
     (let base = page * pageN
      in if base + 20 \<ge> length heap then None
         else let typ = heap ! (base + 20)
      in if typ = 1 then Some page
         else if typ \<noteq> 2 then None
         else let chosen = bt_internal_child heap (length heap) base key
      in if chosen \<ge> npages \<or> chosen = page then None else target_loop heap npages key chosen k)"

definition findTargetLeaf :: "bytes \<Rightarrow> nat \<Rightarrow> bytes \<Rightarrow> nat option" where
  "findTargetLeaf heap root key =
     (let npages = length heap div pageN
      in if npages = 0 \<or> root \<ge> npages then None else target_loop heap npages key root npages)"

definition maxBTreeDepth :: nat where "maxBTreeDepth = 4"

fun write_path :: "bytes \<Rightarrow> bytes \<Rightarrow> Shard \<Rightarrow> nat \<Rightarrow> nat \<Rightarrow> Shard" where
  "write_path src key s pg 0 = s"
| "write_path src key s pg (Suc d) =
     (let base = pg * pageN
      in if base + 20 + 1 > length src then s
         else if src ! (base + 20) \<noteq> 2 then s
         else let child = bt_internal_child src (length src) base key
      in if child \<ge> sh_heapPages s \<or> child \<ge> sh_heapUsed s \<or> child = pg then s
         else write_path src key (markDirty s child) child d)"

definition markWritePath :: "Shard \<Rightarrow> bytes \<Rightarrow> bytes \<Rightarrow> Shard" where
  "markWritePath s src key =
     (if length src < sh_shardBytes s \<or> length key = 0 then s
      else let root = sh_heapRoot s
      in if root \<ge> sh_heapPages s \<or> root \<ge> sh_heapUsed s then s
         else write_path src key (markDirty s root) root (maxBTreeDepth + 1))"

text \<open>The overflow chains of the cells of a key in a leaf: slots and cells out of bounds are skipped.\<close>

fun chain_refs :: "bytes \<Rightarrow> bytes \<Rightarrow> nat \<Rightarrow> nat \<Rightarrow> (nat \<times> nat) list" where
  "chain_refs page key i 0 = []"
| "chain_refs page key i (Suc k) =
     (let slotOff = 64 + i * 2
      in if slotOff + 2 > pageN then []
         else let cellOff = unat (le_get16 (drop slotOff page))
      in if cellOff + 4 > pageN then chain_refs page key (Suc i) k
         else let cklen = unat (le_get16 (drop cellOff page)); cvlen = unat (le_get16 (drop (cellOff + 2) page))
      in if cklen \<noteq> length key \<or> cellOff + 4 + cklen + 16 + cvlen > pageN then chain_refs page key (Suc i) k
         else if bslice page (cellOff + 4) cklen \<noteq> key then chain_refs page key (Suc i) k
         else if cvlen \<noteq> OverflowDescLen then chain_refs page key (Suc i) k
         else case isOverflowDescriptor (bslice page (cellOff + 4 + cklen + 16) OverflowDescLen) of
           Some (tLen, hPage) \<Rightarrow> (hPage, chain_pages tLen) # chain_refs page key (Suc i) k
         | None \<Rightarrow> chain_refs page key (Suc i) k)"

definition collectOverflowChainsForDelete :: "Shard \<Rightarrow> bytes \<Rightarrow> bytes \<Rightarrow> (nat \<times> nat) list" where
  "collectOverflowChainsForDelete s src key =
     (if length key = 0 \<or> length src < sh_shardBytes s then []
      else case findTargetLeaf src (sh_heapRoot s) key of
        None \<Rightarrow> []
      | Some leaf \<Rightarrow>
          if leaf \<ge> sh_heapPages s then []
          else if leaf * pageN + pageN > length src then []
          else let page = bslice src (leaf * pageN) pageN
          in if page ! 20 \<noteq> 1 then [] else chain_refs page key 0 (unat (le_get16 (drop 22 page))))"

fun retire_loop :: "Shard \<Rightarrow> nat \<Rightarrow> nat \<Rightarrow> Shard" where
  "retire_loop s cur 0 = s"
| "retire_loop s cur (Suc k) =
     (if cur = 0 then s
      else if cur \<ge> sh_heapPages s \<or> cur \<ge> sh_heapUsed s then s
      else if cur * pageN + pageN > length (sh_dirty s) then s
      else let page = bslice (sh_dirty s) (cur * pageN) pageN
      in if page ! 20 \<noteq> TypeOverflow then s
         else let dead = snd (C2db_crc32c_fullpage_store (replicate pageN 0) pageN);
                  s = s\<lparr>sh_dirty := put_at (sh_dirty s) (cur * pageN) dead\<rparr>
         in retire_loop (markDirty s cur) (page_next page) k)"

definition retireOverflowChain :: "Shard \<Rightarrow> nat \<Rightarrow> nat \<Rightarrow> Shard" where
  "retireOverflowChain s headPage numPages =
     (if headPage = 0 \<or> headPage \<ge> sh_heapPages s \<or> numPages = 0 then s else retire_loop s headPage numPages)"

fun trim_loop :: "bytes \<Rightarrow> nat \<Rightarrow> nat" where
  "trim_loop dirty 0 = 0"
| "trim_loop dirty (Suc pg) =
     (if pg = 0 then Suc pg
      else if pg * pageN + pageN > length dirty then Suc pg
      else if dirty ! (pg * pageN + 20) \<noteq> 0 then Suc pg
      else trim_loop dirty pg)"

definition trimDeadOverflowTail :: "Shard \<Rightarrow> Shard" where
  "trimDeadOverflowTail s = s\<lparr>sh_heapUsed := trim_loop (sh_dirty s) (sh_heapUsed s)\<rparr>"

definition retireDeletedOverflow :: "Shard \<Rightarrow> (nat \<times> nat) list \<Rightarrow> Shard" where
  "retireDeletedOverflow s refs =
     (if refs = [] then s
      else trimDeadOverflowTail (foldl (\<lambda>s (h, n). retireOverflowChain s h n) s refs))"

definition ensureDirty :: "bool \<Rightarrow> Shard \<Rightarrow> heap_error option \<times> Shard" where
  "ensureDirty mmap_ok s =
     (if length (sh_dirty s) \<ge> sh_shardBytes s then (None, s)
      else if mmap_ok then (None, s\<lparr>sh_dirty := replicate (sh_shardBytes s) 0\<rparr>) else (Some ErrMmap, s))"

text \<open>The source image of a write is the published one or the working one itself.\<close>

datatype write_src = SrcPub | SrcDirty

definition src_of :: "write_src \<Rightarrow> Shard \<Rightarrow> bytes" where
  "src_of w s = (case w of SrcPub \<Rightarrow> sh_pub s | SrcDirty \<Rightarrow> sh_dirty s)"

definition applyDelete :: "bool \<Rightarrow> Shard \<Rightarrow> write_src \<Rightarrow> bytes \<Rightarrow> heap_error option \<times> Shard" where
  "applyDelete mmap_ok s w key =
     (case ensureDirty mmap_ok s of
       (Some e, s) \<Rightarrow> (Some e, s)
     | (None, s) \<Rightarrow>
         let src = src_of w s;
             refs = collectOverflowChainsForDelete s src key;
             hst = heapState s;
             s = markWritePath s src key
         in case Db_bt_del_heap src (sh_dirty s) (sh_shardBytes s) (sh_heapPages s) hst key of (st, dirty) \<Rightarrow>
            let s = s\<lparr>sh_dirty := dirty\<rparr>
            in if hs_Ok st
               then (None, retireDeletedOverflow (adoptHeap (recordDirtyPages s hst st) st) refs)
               else let s = convergeDirtyFromPub s
                 in (Some (if hs_Used hst \<ge> sh_heapPages s \<or> sh_heapUsed s \<ge> sh_heapPages s \<or> sh_heapUsed s \<ge> sh_heapWatermark s
                           then ErrHeapFull else errInsert), s))"

end
