(* ===== verification/Overflow_Props.thy ===== *)
theory Overflow_Props
  imports Overflow
begin

text \<open>
  What is written as an overflow chain is read back: at once by the decoder, and piece by piece, with
  buffers of any size, by the streaming reader.
\<close>

section \<open>Chains\<close>

function chunk_list :: "bytes \<Rightarrow> bytes list" where
  "chunk_list val = (if val = [] then [] else take OverflowChunkCapacity val # chunk_list (drop OverflowChunkCapacity val))"
  by pat_completeness auto
termination
  by (relation "measure length") (auto simp: OverflowChunkCapacity_def pageN_def)

declare chunk_list.simps [simp del]

lemma capacity: "OverflowChunkCapacity = 16320" "pageN = 16384"
  by (simp_all add: OverflowChunkCapacity_def pageN_def)

lemma chunk_list_Nil [simp]: "chunk_list [] = []"
  by (simp add: chunk_list.simps)

lemma chunk_list_Cons: "val \<noteq> [] \<Longrightarrow> chunk_list val = take OverflowChunkCapacity val # chunk_list (drop OverflowChunkCapacity val)"
  by (subst chunk_list.simps) simp

lemma chunk_list_concat: "concat (chunk_list val) = val"
  by (induction val rule: chunk_list.induct) (subst chunk_list.simps, simp)

lemma chunk_list_length: "length (chunk_list val) = chain_pages (length val)"
proof (induction val rule: chunk_list.induct)
  case (1 val)
  show ?case
  proof (cases "val = []")
    case False
    then have IH: "length (chunk_list (drop OverflowChunkCapacity val)) = chain_pages (length val - OverflowChunkCapacity)" using 1 by simp
    have "chain_pages (length val) = Suc (chain_pages (length val - OverflowChunkCapacity))"
      using False by (cases "length val \<le> 16320") (auto simp: chain_pages_def capacity Suc_le_eq le_div_geq div_if)
    then show ?thesis using IH False by (simp add: chunk_list_Cons)
  qed (simp add: chain_pages_def capacity)
qed

fun chain :: "bytes \<Rightarrow> nat \<Rightarrow> nat \<Rightarrow> nat \<Rightarrow> bytes list \<Rightarrow> bool" where
  "chain heap hp p w [] \<longleftrightarrow> p = 0"
| "chain heap hp p w (c # cs) \<longleftrightarrow> 0 < p \<and> p < hp \<and> p * pageN + pageN \<le> length heap
     \<and> heap_page heap p ! 20 = TypeOverflow \<and> page_chunk (heap_page heap p) = length c \<and> page_seq (heap_page heap p) = w
     \<and> c \<noteq> [] \<and> length c \<le> OverflowChunkCapacity \<and> bslice (heap_page heap p) 64 (length c) = c
     \<and> chain heap hp (page_next (heap_page heap p)) (Suc w) cs"

section \<open>The decoder\<close>

lemma chain_loop_reads:
  "chain heap hp p w cs \<Longrightarrow> off + length (concat cs) = tot \<Longrightarrow> length out = tot \<Longrightarrow> length cs \<le> k
    \<Longrightarrow> chain_loop heap hp tot out p w off k = Inr (put_at out off (concat cs), tot)"
proof (induction cs arbitrary: p w off out k)
  case Nil
  then show ?case by (cases k) auto
next
  case (Cons c cs)
  obtain k' where k: "k = Suc k'" "length cs \<le> k'" using Cons.prems(4) by (cases k) auto
  have c: "p \<noteq> 0" "\<not> p \<ge> hp" "\<not> p * pageN + pageN > length heap" "\<not> off \<ge> tot" "length c \<le> 16320" "length c \<le> tot - off"
    using Cons.prems(1,2) by (auto simp: capacity)
  note P = Cons.prems(1) [unfolded chain.simps heap_page_def]
  have IH: "chain_loop heap hp tot (put_at out off c) (page_next (bslice heap (p * pageN) pageN)) (Suc w) (off + length c) k'
      = Inr (put_at (put_at out off c) (off + length c) (concat cs), tot)"
    using P Cons.prems(2,3) k(2) by (intro Cons.IH) (auto simp: heap_page_def)
  have "put_at (put_at out off c) (off + length c) (concat cs) = put_at out off (concat (c # cs))"
    using Cons.prems(2,3) by (simp add: put_at_append)
  then show ?case using c P IH by (simp add: k Let_def capacity)
qed

lemma readOverflowChain_chain:
  assumes "chain heap hp p 0 (chunk_list val)" "val \<noteq> []"
  shows "readOverflowChain heap hp p (length val) = Inr val"
proof -
  have "chain_loop heap hp (length val) (replicate (length val) 0) p 0 0 (chain_pages (length val) + 1) = Inr (put_at (replicate (length val) 0) 0 val, length val)"
    using chain_loop_reads [OF assms(1), of 0 "length val" "replicate (length val) 0" "chain_pages (length val) + 1"]
    by (simp add: chunk_list_concat chunk_list_length)
  moreover have "p \<noteq> 0" "\<not> p \<ge> hp" using assms by (auto simp: chunk_list_Cons)
  ultimately show ?thesis by (simp add: readOverflowChain_def put_at_0)
qed

section \<open>Allocation\<close>

lemma overflow_page_fields:
  assumes "length buf = pageN" "length chunk \<le> OverflowChunkCapacity" "next < 2 ^ 64" "seq < 2 ^ 32"
  defines "p \<equiv> overflow_page buf next chunk seq"
  shows "length p = pageN" "p ! 20 = TypeOverflow" "page_next p = next" "page_chunk p = length chunk" "page_seq p = seq"
    "bslice p 64 (length chunk) = chunk"
proof -
  define q where "q = put_at (put_at (put_at (put_at ((put_at buf 0 (replicate 64 0))[20 := TypeOverflow]) 32 (le_put64 (of_nat next)))
    40 (le_put32 (of_nat (length chunk)))) 44 (le_put32 (of_nat seq))) 64 chunk"
  have p: "p = put_at q 28 (le_put32 (C2db_crc32c_fullpage q 16384))"
    using assms(1) by (simp add: p_def overflow_page_def q_def C2db_crc32c_fullpage_store_def Let_def capacity)
  have l: "length q = 16384" using assms(1) by (simp add: q_def capacity)
  have c: "length chunk \<le> 16320" using assms(2) by (simp add: capacity)
  show "length p = pageN" by (simp add: p l capacity)
  have b: "bslice p a k = bslice q a k" if "a + k \<le> 28 \<or> 32 \<le> a" "a + k \<le> 16384" for a k
    unfolding p using that l by (intro bslice_put_at_other) auto
  show "bslice p 64 (length chunk) = chunk" using b [of 64 "length chunk"] c assms(1) by (simp add: q_def capacity)
  have g: "le_get64 (drop 32 p) = le_get64 (bslice p 32 8)" "le_get32 (drop 40 p) = le_get32 (bslice p 40 4)" "le_get32 (drop 44 p) = le_get32 (bslice p 44 4)"
    by (simp_all add: bslice_def)
  have s: "bslice p 32 8 = le_put64 (of_nat next)" "bslice p 40 4 = le_put32 (of_nat (length chunk))" "bslice p 44 4 = le_put32 (of_nat seq)"
    using c assms(1) by (subst b; simp add: q_def capacity)+
  have u: "unat (of_nat next :: u64) = next" "unat (of_nat (length chunk) :: u32) = length chunk" "unat (of_nat seq :: u32) = seq"
    using assms(3,4) c by (simp_all add: unsigned_of_nat take_bit_nat_eq_self)
  show "page_next p = next" "page_chunk p = length chunk" "page_seq p = seq"
    unfolding page_next_def page_chunk_def page_seq_def g s le_get_put u by simp_all
  have "p ! 20 = q ! 20" using l by (simp add: p put_at_nth)
  also have "\<dots> = TypeOverflow" using assms(1) c by (simp add: q_def put_at_nth capacity)
  finally show "p ! 20 = TypeOverflow" .
qed

lemma alloc_loop_keeps:
  "length (sh_dirty (alloc_loop val np s p off w k)) = length (sh_dirty s)"
  "sh_pub (alloc_loop val np s p off w k) = sh_pub s" "sh_heapPages (alloc_loop val np s p off w k) = sh_heapPages s"
  "sh_heapUsed (alloc_loop val np s p off w k) = sh_heapUsed s" "sh_heapWatermark (alloc_loop val np s p off w k) = sh_heapWatermark s"
  by (induction k arbitrary: s p off w) (simp_all add: Let_def)

lemma alloc_loop_chain:
  assumes "length (sh_dirty s) = sh_heapPages s * pageN" "sh_heapPages s < 2 ^ 32" "np < 2 ^ 32"
  shows "w + k = np \<Longrightarrow> length (chunk_list (drop off val)) = k \<Longrightarrow> 0 < p \<Longrightarrow> p + k \<le> sh_heapPages s \<Longrightarrow>
    (0 < k \<longrightarrow> chain (sh_dirty (alloc_loop val np s p off w k)) (sh_heapPages s) p w (chunk_list (drop off val)))
    \<and> (\<forall>q < sh_heapPages s. q < p \<or> p + k \<le> q \<longrightarrow> heap_page (sh_dirty (alloc_loop val np s p off w k)) q = heap_page (sh_dirty s) q)"
  using assms
proof (induction k arbitrary: s p off w)
  case (Suc k)
  let ?C = OverflowChunkCapacity
  define nxt where "nxt = (if w + 1 < np then p + 1 else 0)"
  define chunk where "chunk = take ?C (drop off val)"
  define page where "page = overflow_page (heap_page (sh_dirty s) p) nxt chunk w"
  define s1 where "s1 = markDirty (s\<lparr>sh_dirty := put_at (sh_dirty s) (p * pageN) page\<rparr>) p"
  have hp: "sh_heapPages s1 = sh_heapPages s" "length (sh_dirty s1) = sh_heapPages s * pageN" using Suc.prems by (simp_all add: s1_def)
  have pp: "p < sh_heapPages s" "p * pageN + pageN \<le> length (sh_dirty s)" using Suc.prems page_inside [of p "sh_heapPages s"] by auto
  have ne: "drop off val \<noteq> []" using Suc.prems(2) by auto
  have cl: "chunk_list (drop off val) = chunk # chunk_list (drop (off + length chunk) val)"
    using ne by (auto simp: chunk_list_Cons chunk_def drop_drop min_def capacity add.commute)
  have ch: "chunk \<noteq> []" "length chunk \<le> ?C" using ne by (auto simp: chunk_def capacity)
  have lb: "length (heap_page (sh_dirty s) p) = pageN" using pp by (simp add: heap_page_def)
  have fields: "length page = pageN" "page ! 20 = TypeOverflow" "page_next page = nxt" "page_chunk page = length chunk" "page_seq page = w"
    "bslice page 64 (length chunk) = chunk"
    using overflow_page_fields [OF lb ch(2), of nxt w] Suc.prems by (auto simp: page_def nxt_def)
  have pg1: "heap_page (sh_dirty s1) q = (if q = p then page else heap_page (sh_dirty s) q)" if "q < sh_heapPages s" for q
    using heap_page_put [OF Suc.prems(5) pp(1) that fields(1)] by (simp add: s1_def)
  have step: "alloc_loop val np s p off w (Suc k) = alloc_loop val np s1 nxt (off + length chunk) (Suc w) k"
    by (simp add: Let_def s1_def page_def nxt_def chunk_def heap_page_def bslice_def min_def)
  define h' where "h' = sh_dirty (alloc_loop val np s1 nxt (off + length chunk) (Suc w) k)"
  have lh: "length h' = length (sh_dirty s)" using alloc_loop_keeps(1) hp Suc.prems(5) by (simp add: h'_def)
  have IH: "0 < k \<Longrightarrow> chain h' (sh_heapPages s) nxt (Suc w) (chunk_list (drop (off + length chunk) val))"
    "\<And>q. 0 < k \<Longrightarrow> q < sh_heapPages s \<Longrightarrow> q < nxt \<or> nxt + k \<le> q \<Longrightarrow> heap_page h' q = heap_page (sh_dirty s1) q"
    using Suc.IH [of "Suc w" "off + length chunk" nxt s1] Suc.prems hp cl by (auto simp: h'_def nxt_def)
  have fr: "heap_page h' q = heap_page (sh_dirty s1) q" if "q < sh_heapPages s" "q \<le> p \<or> p + Suc k \<le> q" for q
  proof (cases k)
    case 0
    then show ?thesis by (simp add: h'_def)
  next
    case (Suc k')
    then show ?thesis using IH(2) [of q] that Suc.prems(1) by (auto simp: nxt_def)
  qed
  have tail: "chain h' (sh_heapPages s) nxt (Suc w) (chunk_list (drop (off + length chunk) val))"
  proof (cases "k = 0")
    case True
    then show ?thesis using Suc.prems(1,2) cl by (simp add: nxt_def)
  qed (use IH(1) in simp)
  have "heap_page h' p = page" using fr [of p] pg1 [of p] pp by simp
  then have "chain h' (sh_heapPages s) p w (chunk_list (drop off val))"
    unfolding cl using Suc.prems(3) pp lh fields ch tail by simp
  moreover have "heap_page h' q = heap_page (sh_dirty s) q" if "q < sh_heapPages s" "q < p \<or> p + Suc k \<le> q" for q
    using that fr [of q] pg1 [of q] by auto
  ultimately show ?case unfolding step h'_def [symmetric] by blast
qed simp

lemma encode_overflow:
  assumes "shard_ok s" "sh_heapPages s < 2 ^ 32" "0 < sh_heapUsed s" "sh_heapWatermark s \<le> sh_heapPages s" "length val < 2 ^ 32"
    and "InlineCutoff < length val" "\<not> heap_short s (chain_pages (length val))"
  shows "\<exists>s'. encodeValue tryAutoCompact s val = (Inr (overflow_desc (length val) (sh_heapUsed s), True, sh_heapUsed s, chain_pages (length val)), s')
    \<and> chain (sh_dirty s') (sh_heapPages s') (sh_heapUsed s) 0 (chunk_list val) \<and> sh_heapUsed s' = sh_heapUsed s + chain_pages (length val)
    \<and> sh_heapPages s' = sh_heapPages s \<and> length (sh_dirty s') = length (sh_dirty s) \<and> sh_pub s' = sh_pub s
    \<and> (\<forall>q < sh_heapPages s. q < sh_heapUsed s \<or> sh_heapUsed s + chain_pages (length val) \<le> q \<longrightarrow> heap_page (sh_dirty s') q = heap_page (sh_dirty s) q)"
proof -
  let ?n = "chain_pages (length val)"
  define s1 where "s1 = alloc_loop val ?n s (sh_heapUsed s) 0 0 ?n"
  have room: "sh_heapUsed s + ?n \<le> sh_heapPages s" using assms(4,7) by (auto simp: heap_short_def)
  have n: "0 < ?n" "?n < 2 ^ 32"
    using assms(5,6) by (auto simp: chain_pages_def capacity InlineCutoff_def div_greater_zero_iff intro: le_less_trans [OF div_le_dividend])
  have dirty: "length (sh_dirty s) = sh_heapPages s * pageN" using assms(1) by (simp add: shard_ok_def)
  note C = alloc_loop_chain [OF dirty assms(2) n(2), of 0 ?n 0 val "sh_heapUsed s", simplified chunk_list_length drop_0, folded s1_def]
  have ch: "chain (sh_dirty s1) (sh_heapPages s) (sh_heapUsed s) 0 (chunk_list val)" and
    fr: "\<And>q. q < sh_heapPages s \<Longrightarrow> q < sh_heapUsed s \<or> sh_heapUsed s + ?n \<le> q \<Longrightarrow> heap_page (sh_dirty s1) q = heap_page (sh_dirty s) q"
    using C assms(3) room n by auto
  have "encodeValue tryAutoCompact s val
      = (Inr (overflow_desc (length val) (sh_heapUsed s), True, sh_heapUsed s, ?n), s1\<lparr>sh_heapUsed := sh_heapUsed s1 + ?n\<rparr>)"
    using assms(5-7) by (simp add: encodeValue_def allocOverflowPages_def alloc_write_def s1_def Let_def)
  then show ?thesis
    using ch fr alloc_loop_keeps(1-4) [of val ?n s "sh_heapUsed s" 0 0 ?n, folded s1_def] by simp
qed

lemma overflow_desc_fields:
  assumes "a < 2 ^ 32" "b < 2 ^ 64"
  shows "length (overflow_desc a b) = 13" "overflow_desc a b ! 0 = 1" "unat (le_get32 (bslice (overflow_desc a b) 1 4)) = a"
    "unat (le_get64 (bslice (overflow_desc a b) 5 8)) = b"
proof -
  show "length (overflow_desc a b) = 13" "overflow_desc a b ! 0 = 1" by (simp_all add: overflow_desc_def cellKindOverflow_def)
  have "bslice (overflow_desc a b) 1 4 = le_put32 (of_nat a)" "bslice (overflow_desc a b) 5 8 = le_put64 (of_nat b)"
    by (simp_all add: overflow_desc_def bslice_def)
  then show "unat (le_get32 (bslice (overflow_desc a b) 1 4)) = a" "unat (le_get64 (bslice (overflow_desc a b) 5 8)) = b"
    using assms by (simp_all add: unsigned_of_nat take_bit_nat_eq_self)
qed

text \<open>C31: Values are read back: in a well-formed shard with room in the heap, the cell value that encoding returns
  decodes to the value over the new working image, inline values and chains of overflow pages alike. Encoding
  takes exactly the pages of the chain, which begin at the first free page, and leaves every other page of
  the working image and the published image as they were.\<close>

theorem decode_encode:
  assumes "shard_ok s" "sh_heapPages s < 2 ^ 32" "0 < sh_heapUsed s" "sh_heapWatermark s \<le> sh_heapPages s" "length val < 2 ^ 32"
    and "length val \<le> InlineCutoff \<or> \<not> heap_short s (chain_pages (length val))"
  shows "case encodeValue tryAutoCompact s val of
      (Inr (cell, ov, head, n), s') \<Rightarrow>
        decodeValue (sh_dirty s') (sh_heapPages s') cell = Inr val
        \<and> checkOverflowDesc cell = (ov, head, n) \<and> sh_heapUsed s' = sh_heapUsed s + n
        \<and> (if length val \<le> InlineCutoff then \<not> ov \<and> n = 0 else ov \<and> head = sh_heapUsed s \<and> n = chain_pages (length val))
        \<and> length (sh_dirty s') = length (sh_dirty s) \<and> sh_pub s' = sh_pub s
        \<and> (\<forall>q < sh_heapPages s. q < sh_heapUsed s \<or> sh_heapUsed s + n \<le> q \<longrightarrow> heap_page (sh_dirty s') q = heap_page (sh_dirty s) q)
    | (Inl e, s') \<Rightarrow> False"
proof (cases "length val \<le> InlineCutoff")
  case True
  then show ?thesis
    by (simp add: encodeValue_def decodeValue_def cellKindInline_def cellKindOverflow_def checkOverflowDesc_def isOverflowDescriptor_def)
next
  case False
  then have room: "\<not> heap_short s (chain_pages (length val))" "InlineCutoff < length val" using assms(6) by auto
  then have used: "sh_heapUsed s < 2 ^ 64" using assms(2,4) by (auto simp: heap_short_def)
  obtain s' where e: "encodeValue tryAutoCompact s val = (Inr (overflow_desc (length val) (sh_heapUsed s), True, sh_heapUsed s, chain_pages (length val)), s')"
      "chain (sh_dirty s') (sh_heapPages s') (sh_heapUsed s) 0 (chunk_list val)" "sh_heapUsed s' = sh_heapUsed s + chain_pages (length val)"
      "length (sh_dirty s') = length (sh_dirty s)" "sh_pub s' = sh_pub s"
      "\<And>q. q < sh_heapPages s \<Longrightarrow> q < sh_heapUsed s \<or> sh_heapUsed s + chain_pages (length val) \<le> q \<Longrightarrow> heap_page (sh_dirty s') q = heap_page (sh_dirty s) q"
    using encode_overflow [OF assms(1-5) room(2,1)] by blast
  have "readOverflowChain (sh_dirty s') (sh_heapPages s') (sh_heapUsed s) (length val) = Inr val"
    using room(2) by (intro readOverflowChain_chain e(2)) auto
  moreover have "overflow_desc a b \<noteq> []" for a b by (simp add: overflow_desc_def)
  ultimately show ?thesis
    using e(1,3-6) False overflow_desc_fields [OF assms(5) used]
    by (simp add: decodeValue_def checkOverflowDesc_def isOverflowDescriptor_def OverflowDescLen_def cellKindOverflow_def)
qed

definition shard4 :: Shard where
  "shard4 = \<lparr>sh_pub = replicate 65536 0, sh_dirty = replicate 65536 0, sh_heapRoot = 0, sh_heapUsed = 1, sh_heapGen = 0,
     sh_heapPages = 4, sh_shardBytes = 65536, sh_heapWatermark = 4, sh_dirtyMask = [0], sh_dirtyList = [], sh_dirtyListCap = 4, sh_dirtyOverflow = False\<rparr>"

lemma shard4_ok: "shard_ok shard4" "sh_heapPages shard4 < 2 ^ 32" "0 < sh_heapUsed shard4" "sh_heapWatermark shard4 \<le> sh_heapPages shard4"
  "\<not> heap_short shard4 (chain_pages 20000)"
  by (auto simp: shard4_def shard_ok_def marked_def capacity heap_short_def chain_pages_def)

theorem decode_encode_witness:
  "case encodeValue (\<lambda>s. (Inr False, s)) shard4 (replicate 20000 7) of
    (Inr (cell, ov, head, n), s') \<Rightarrow> decodeValue (sh_dirty s') (sh_heapPages s') cell = Inr (replicate 20000 7)
  | (Inl e, s') \<Rightarrow> False"
  using decode_encode [OF shard4_ok(1-4), of "replicate 20000 7" "\<lambda>s. (Inr False, s)"] shard4_ok(5)
  by (auto split: prod.splits sum.splits)

section \<open>The streaming reader\<close>

text \<open>The bytes a reader still has to deliver: the rest of the active chunk and the chunks of the pages ahead.\<close>

definition stream_inv :: "overflowStreamReader \<Rightarrow> bytes \<Rightarrow> bool" where
  "stream_inv r rest \<longleftrightarrow> (\<exists>cs. chain (rd_heap r) (rd_heapPages r) (rd_currPage r) (rd_walked r) cs
     \<and> rd_walked r + length cs = rd_maxPages r \<and> rd_pageOff r \<le> rd_chunkLen r \<and> rd_chunkLen r \<le> OverflowChunkCapacity
     \<and> rd_activePage r * pageN + pageN \<le> length (rd_heap r) \<and> rd_valOffset r + length rest = rd_totalLen r
     \<and> rest = bslice (rd_heap r) (rd_activePage r * pageN + 64 + rd_pageOff r) (rd_chunkLen r - rd_pageOff r) @ concat cs)"

lemma bslice_zero [simp]: "bslice h a 0 = []"
  by (simp add: bslice_def)

lemma stream_inv_len: "stream_inv r rest \<Longrightarrow> rd_valOffset r + length rest = rd_totalLen r"
  unfolding stream_inv_def by blast

lemma page_chunk_slice:
  "p * pageN + pageN \<le> length h \<Longrightarrow> k \<le> OverflowChunkCapacity \<Longrightarrow> bslice (heap_page h p) 64 k = bslice h (p * pageN + 64) k"
  by (simp add: heap_page_def bslice_def capacity drop_take min_def add.commute)

lemma next_chunk_inv:
  assumes "stream_inv r rest" "rest \<noteq> []"
  shows "\<exists>r'. next_chunk r = (None, r') \<and> stream_inv r' rest \<and> rd_pageOff r' < rd_chunkLen r' \<and> rd_totalLen r' = rd_totalLen r"
proof (cases "rd_pageOff r \<ge> rd_chunkLen r")
  case True
  obtain cs where cs: "chain (rd_heap r) (rd_heapPages r) (rd_currPage r) (rd_walked r) cs" "rd_walked r + length cs = rd_maxPages r"
      "rd_activePage r * pageN + pageN \<le> length (rd_heap r)" "rd_valOffset r + length rest = rd_totalLen r" "rest = concat cs"
    using assms(1) True unfolding stream_inv_def by auto
  obtain c cs' where c: "cs = c # cs'" using cs(5) assms(2) by (cases cs) auto
  note P = cs(1) [unfolded c chain.simps]
  define r' where "r' = r\<lparr>rd_activePage := rd_currPage r, rd_currPage := page_next (heap_page (rd_heap r) (rd_currPage r)), rd_chunkLen := length c,
    rd_pageOff := 0, rd_walked := rd_walked r + 1\<rparr>"
  have np: "next_page r = Inr r'"
    using P cs(2,4,5) by (auto simp: next_page_def r'_def Let_def c heap_page_def capacity)
  have "rd_pageOff r' < rd_chunkLen r'" using P by (simp add: r'_def)
  then have "next_chunk r = (None, r')" using True np by (subst next_chunk.simps, simp, subst next_chunk.simps, simp)
  moreover have "bslice (rd_heap r) (rd_currPage r * pageN + 64) (length c) = c" using P page_chunk_slice [of "rd_currPage r" "rd_heap r" "length c"] by simp
  then have "stream_inv r' rest"
    unfolding stream_inv_def using P cs(2,4,5) by (intro exI [of _ cs']) (simp add: r'_def c)
  ultimately show ?thesis using P by (auto simp: r'_def)
next
  case False
  then have "next_chunk r = (None, r)" by (subst next_chunk.simps) simp
  then show ?thesis using assms(1) False by auto
qed

lemma stream_Read_inv:
  assumes "stream_inv r rest" "rest \<noteq> []"
  shows "\<exists>b r'. stream_Read r plen = (Inr b, r') \<and> (b = [] \<longleftrightarrow> plen mod 2 ^ 32 = 0) \<and> b = take (length b) rest \<and> stream_inv r' (drop (length b) rest)"
proof -
  have v: "rd_valOffset r < rd_totalLen r" using stream_inv_len [OF assms(1)] assms(2) by (cases rest) auto
  obtain r1 where r1: "next_chunk r = (None, r1)" "stream_inv r1 rest" "rd_pageOff r1 < rd_chunkLen r1" using next_chunk_inv [OF assms(1,2)] by blast
  obtain cs where cs: "chain (rd_heap r1) (rd_heapPages r1) (rd_currPage r1) (rd_walked r1) cs" "rd_walked r1 + length cs = rd_maxPages r1"
      "rd_chunkLen r1 \<le> OverflowChunkCapacity" "rd_activePage r1 * pageN + pageN \<le> length (rd_heap r1)" "rd_valOffset r1 + length rest = rd_totalLen r1"
      "rest = bslice (rd_heap r1) (rd_activePage r1 * pageN + 64 + rd_pageOff r1) (rd_chunkLen r1 - rd_pageOff r1) @ concat cs"
    using r1(2) unfolding stream_inv_def by blast
  define base where "base = rd_activePage r1 * pageN + 64 + rd_pageOff r1"
  define left where "left = rd_chunkLen r1 - rd_pageOff r1"
  define av where "av = min (plen mod 2 ^ 32) left"
  have in_heap: "base + left \<le> length (rd_heap r1)" "base + left \<le> rd_activePage r1 * pageN + pageN"
    using cs(3,4) r1(3) by (auto simp: base_def left_def capacity)
  then have lr: "length rest = left + length (concat cs)" by (simp add: cs(6) base_def [symmetric] left_def [symmetric])
  have m: "(if plen mod 2 ^ 32 < left then plen mod 2 ^ 32 else left) = av" by (simp add: av_def min_def)
  have b: "av \<le> left" "av = 0 \<longleftrightarrow> plen mod 2 ^ 32 = 0" "\<not> rd_valOffset r1 + av > rd_totalLen r1" "\<not> (av > OverflowChunkCapacity \<or> 64 + rd_pageOff r1 + av > pageN)"
    "\<not> base + av > length (rd_heap r1)" "\<not> base + av > (rd_activePage r1 + 1) * pageN"
    using r1(3) cs(3,5) lr in_heap by (auto simp: av_def left_def capacity)
  have rd: "stream_Read r plen = (Inr (bslice (rd_heap r1) base av), r1\<lparr>rd_pageOff := rd_pageOff r1 + av, rd_valOffset := rd_valOffset r1 + av\<rparr>)"
    unfolding stream_Read_def r1(1) Let_def prod.case option.case base_def [symmetric] left_def [symmetric] m
    using v r1(3) b(3-6) by simp
  have len: "length (bslice (rd_heap r1) base av) = av" using in_heap b(1) by simp
  have sp: "bslice (rd_heap r1) base left = bslice (rd_heap r1) base av @ bslice (rd_heap r1) (base + av) (left - av)"
    using bslice_append [of "rd_heap r1" base av "left - av"] b(1) by simp
  have rest: "rest = bslice (rd_heap r1) base av @ bslice (rd_heap r1) (base + av) (left - av) @ concat cs"
    using cs(6) sp by (simp add: base_def [symmetric] left_def [symmetric])
  have "stream_inv (r1\<lparr>rd_pageOff := rd_pageOff r1 + av, rd_valOffset := rd_valOffset r1 + av\<rparr>) (drop av rest)"
    unfolding stream_inv_def
    using cs(1-5) r1(3) b(1) lr rest len
    by (intro exI [of _ cs]) (auto simp: base_def left_def add.assoc)
  moreover have "bslice (rd_heap r1) base av = take av rest" using rest len by simp
  ultimately show ?thesis using rd len b(2) by auto
qed

fun stream_all :: "overflowStreamReader \<Rightarrow> nat list \<Rightarrow> bytes \<times> heap_error option" where
  "stream_all r [] = ([], None)"
| "stream_all r (n # ns) = (case stream_Read r n of
     (Inl e, r') \<Rightarrow> ([], Some e)
   | (Inr b, r') \<Rightarrow> (case stream_all r' ns of (bs, e) \<Rightarrow> (b @ bs, e)))"

lemma stream_all_inv:
  "stream_inv r rest \<Longrightarrow> \<forall>n \<in> set ns. n mod 2 ^ 32 \<noteq> 0 \<Longrightarrow> length rest < length ns \<Longrightarrow> stream_all r ns = (rest, Some IoEOF)"
proof (induction ns arbitrary: r rest)
  case (Cons n ns)
  show ?case
  proof (cases "rest = []")
    case True
    then have "rd_totalLen r \<le> rd_valOffset r" using stream_inv_len [OF Cons.prems(1)] by simp
    then show ?thesis by (simp add: stream_Read_def True)
  next
    case False
    obtain b r' where b: "stream_Read r n = (Inr b, r')" "b \<noteq> []" "b = take (length b) rest" "stream_inv r' (drop (length b) rest)"
      using stream_Read_inv [OF Cons.prems(1) False, of n] Cons.prems(2) by fastforce
    have "length (drop (length b) rest) < length ns" using Cons.prems(3) b(2) False by (cases b; cases rest) auto
    then have "stream_all r' ns = (drop (length b) rest, Some IoEOF)" using Cons.IH [OF b(4)] Cons.prems(2) by simp
    then show ?thesis using b(1,3) append_take_drop_id [of "length b" rest] by simp
  qed
qed simp

text \<open>A buffer of a multiple of 4 GiB looks empty to the reader, which truncates its length to 32 bits.\<close>

lemma stream_all_stuck:
  "stream_inv r rest \<Longrightarrow> rest \<noteq> [] \<Longrightarrow> stream_all r (replicate k (2 ^ 32)) = ([], None)"
proof (induction k arbitrary: r)
  case (Suc k)
  obtain b r' where "stream_Read r (2 ^ 32) = (Inr b, r')" "b = []" "stream_inv r' (drop (length b) rest)"
    using stream_Read_inv [OF Suc.prems, of "2 ^ 32"] by auto
  then show ?case using Suc.IH [of r'] Suc.prems(2) by simp
qed simp

text \<open>C32: The streaming reader delivers the value: over a chain that encoding wrote in a well-formed shard, reads
  into buffers of any sizes that are not multiples of 4 GiB return, one after the other, exactly the bytes of the
  value and then end of file, and no other error. With a buffer of 4 GiB, whose length the code truncates to 32
  bits, every read returns no byte and no error, however often it is repeated.\<close>

theorem stream_delivers:
  assumes "shard_ok s" "sh_heapPages s < 2 ^ 32" "0 < sh_heapUsed s" "sh_heapWatermark s \<le> sh_heapPages s" "length val < 2 ^ 32"
    and "InlineCutoff < length val" "\<not> heap_short s (chain_pages (length val))"
    and "\<forall>n \<in> set ns. n mod 2 ^ 32 \<noteq> 0" "length val < length ns"
  shows "case encodeValue tryAutoCompact s val of
      (Inr (cell, ov, head, n), s') \<Rightarrow>
        stream_all (open_stream (sh_dirty s') (sh_heapPages s') (length val) head) ns = (val, Some IoEOF) \<and>
        stream_all (open_stream (sh_dirty s') (sh_heapPages s') (length val) head) (replicate k (2 ^ 32)) = ([], None)
    | (Inl e, s') \<Rightarrow> False"
proof -
  obtain s' where e: "encodeValue tryAutoCompact s val = (Inr (overflow_desc (length val) (sh_heapUsed s), True, sh_heapUsed s, chain_pages (length val)), s')"
      "chain (sh_dirty s') (sh_heapPages s') (sh_heapUsed s) 0 (chunk_list val)"
    using encode_overflow [OF assms(1-7)] by blast
  have ne: "val \<noteq> []" using assms(6) by auto
  then have "pageN \<le> length (sh_dirty s')" using e(2) by (auto simp: chunk_list_Cons)
  then have "stream_inv (open_stream (sh_dirty s') (sh_heapPages s') (length val) (sh_heapUsed s)) val"
    unfolding stream_inv_def using e(2)
    by (intro exI [of _ "chunk_list val"]) (simp add: open_stream_def chunk_list_length chunk_list_concat bslice_def)
  then show ?thesis using stream_all_inv [OF _ assms(8,9)] stream_all_stuck [OF _ ne] e(1) by simp
qed

theorem stream_delivers_witness:
  "case encodeValue (\<lambda>s. (Inr False, s)) shard4 (replicate 20000 7) of
    (Inr (cell, ov, head, n), s') \<Rightarrow> stream_all (open_stream (sh_dirty s') (sh_heapPages s') 20000 head) (replicate 20001 4096) = (replicate 20000 7, Some IoEOF)
  | (Inl e, s') \<Rightarrow> False"
  using stream_delivers [OF shard4_ok(1-4), where val = "replicate 20000 7" and ns = "replicate 20001 4096" and tryAutoCompact = "\<lambda>s. (Inr False, s)"] shard4_ok(5)
  by (auto simp: InlineCutoff_def split: prod.splits sum.splits)

end
