(* ===== verification/C2ql.thy ===== *)
theory C2ql
  imports Record_Id Blake3 Go_Std
begin

text \<open>
  The query language, \<^verbatim>\<open>src/pkg/c2db/c2ql.go\<close>: lots of operations under a capability, their validation and
  their execution over a store. A Go string is its bytes. The store is the record of functions of the
  source; the functions that write also return the next state. The JSON codec of the standard library is a
  record of functions too: objects as maps from field names to raw values (empty for the text \<^verbatim>\<open>null\<close>), strings, filters, lots.

  A result is an error or a value; \<open>GoPanic\<close> is the run-time panic of \<^verbatim>\<open>make\<close> with a capacity beyond the address space.
\<close>

datatype ql_error = ErrQLLimitAbsente | ErrQLProjAbsente | ErrQLQuota | ErrQLPrefix | ErrQLOp | ErrQLCap | ErrQLExpect
  | ErrQLJoinSansMax | ErrQLJoinSansOn | ErrQLDepth | ErrQLOpInconnue | ErrQLChamp | ErrQLID | ErrNotFound | KvErr nat | GoPanic

definition c2qlMaxDocBytes :: u64 where "c2qlMaxDocBytes = 4096"
definition c2qlMaxProj :: nat where "c2qlMaxProj = 64"

record C2QLMeta =
  m_Hash :: bytes
  m_ID :: bytes

record C2QLDoc =
  d_Doc :: bytes
  d_Meta :: C2QLMeta

record C2QLResult =
  r_Docs :: "C2QLDoc list"
  r_NextFrom :: bytes
  r_N :: u64

record qlCap =
  cap_Prefix :: bytes
  cap_QuotaBytes :: u64
  cap_QuotaOps :: u64

record qlScan =
  sc_Coll :: bytes
  sc_Limit :: u64
  sc_Proj :: "bytes list"
  sc_Filter :: bytes
  sc_Kind :: "byte option"
  sc_CollID :: "byte option"
  sc_FromID :: bytes
  sc_ToID :: bytes

datatype qlFilter = QlFilter (f_Eq: "bytes list") (f_Ge: "bytes list") (f_And: "qlFilter list")

record qlGet =
  g_Coll :: bytes
  g_ID :: bytes

record qlGets =
  gs_Coll :: bytes
  gs_IDs :: "bytes list"
  gs_Limit :: u64
  gs_Proj :: "bytes list"

record qlCount =
  ct_Coll :: bytes
  ct_Limit :: u64
  ct_FromID :: bytes
  ct_ToID :: bytes

record qlMutOp =
  mo_Op :: u64
  mo_F :: bytes
  mo_V :: bytes

record qlCas =
  cs_Coll :: bytes
  cs_ID :: bytes
  cs_Expect :: bytes
  cs_Doc :: bytes
  cs_Ops :: "qlMutOp list"

record qlDel =
  dl_Coll :: bytes
  dl_ID :: bytes
  dl_Expect :: bytes

record qlIns =
  in_Coll :: bytes
  in_Doc :: bytes

record qlJoinRight =
  jr_Coll :: bytes
  jr_FromLeft :: bytes
  jr_Limit :: u64
  jr_Proj :: "bytes list"

record qlJoin =
  jn_On :: bytes
  jn_LeftMax :: u64
  jn_RightMax :: u64
  jn_Left :: "qlScan option"
  jn_Right :: "qlJoinRight option"

record qlGroup =
  gr_By :: "bytes list"
  gr_Limit :: u64
  gr_Sum :: bytes
  gr_Src :: "qlScan option"

datatype qlOp = QlOp (op_Get: "qlGet option") (op_Gets: "qlGets option") (op_Scan: "qlScan option") (op_Count: "qlCount option")
    (op_Cas: "qlCas option") (op_Del: "qlDel option") (op_Ins: "qlIns option") (op_Join: "qlJoin option") (op_Group: "qlGroup option")
    (op_Nest: "qlNest option")
  and qlNest = QlNest (ns_Depth: u64) (ns_Src: "qlOp option") (ns_Then: "qlOp option")

record qlLot =
  lot_Cap :: qlCap
  lot_AsOf :: bytes
  lot_Op :: qlOp
  lot_Ops :: "qlOp list"

text \<open>The JSON codec and the store.\<close>

record json_std =
  js_lot :: "bytes \<Rightarrow> qlLot option"
  js_object :: "bytes \<Rightarrow> (bytes \<rightharpoonup> bytes) option"
  js_null :: "bytes \<Rightarrow> bool"
  js_string :: "bytes \<Rightarrow> bytes option"
  js_filter :: "bytes \<Rightarrow> qlFilter option"
  js_marshal :: "(bytes \<rightharpoonup> bytes) \<Rightarrow> bytes option"
  js_group :: "u64 \<Rightarrow> u64 \<Rightarrow> bytes"

record 's kvFns =
  kv_get :: "bytes \<Rightarrow> UUID \<Rightarrow> 's \<Rightarrow> ql_error + bytes"
  kv_scan :: "bytes \<Rightarrow> u64 \<Rightarrow> 's \<Rightarrow> ql_error + bytes list"
  kv_put :: "bytes \<Rightarrow> UUID \<Rightarrow> bytes \<Rightarrow> 's \<Rightarrow> ql_error option \<times> 's"
  kv_ins :: "bytes \<Rightarrow> bytes \<Rightarrow> 's \<Rightarrow> (ql_error + UUID) \<times> 's"
  kv_mut :: "(bytes \<Rightarrow> UUID \<Rightarrow> bytes \<Rightarrow> qlMutOp list \<Rightarrow> 's \<Rightarrow> ql_error option \<times> 's) option"
  kv_del :: "bytes \<Rightarrow> UUID \<Rightarrow> 's \<Rightarrow> ql_error option \<times> 's"

section \<open>Numbers and hexadecimal text of the standard library\<close>

definition hex_digit :: "byte \<Rightarrow> byte option" where
  "hex_digit c = (if 48 \<le> c \<and> c \<le> 57 then Some (c - 48) else if 97 \<le> c \<and> c \<le> 102 then Some (c - 87)
     else if 65 \<le> c \<and> c \<le> 70 then Some (c - 55) else None)"

fun hex_DecodeString :: "bytes \<Rightarrow> bytes option" where
  "hex_DecodeString [] = Some []"
| "hex_DecodeString [c] = None"
| "hex_DecodeString (c # d # s) =
     (case (hex_digit c, hex_digit d, hex_DecodeString s) of
       (Some a, Some b, Some r) \<Rightarrow> Some ((push_bit 4 a OR b) # r) | _ \<Rightarrow> None)"

definition hex_EncodeToString :: "bytes \<Rightarrow> bytes" where
  "hex_EncodeToString bs = concat (map hex_pair bs)"

definition parseUUIDHex :: "bytes \<Rightarrow> ql_error + UUID" where
  "parseUUIDHex s = (case hex_DecodeString s of None \<Rightarrow> Inl ErrQLID | Some b \<Rightarrow> if length b \<noteq> 16 then Inl ErrQLID else Inr b)"

datatype num_error = ErrSyntax | ErrRange

fun parse_digits :: "nat \<Rightarrow> bytes \<Rightarrow> num_error + nat" where
  "parse_digits n [] = Inr n"
| "parse_digits n (c # s) =
     (if \<not> (48 \<le> c \<and> c \<le> 57) then Inl ErrSyntax
      else let n1 = n * 10 + unat (c - 48) in if n1 \<ge> 2 ^ 64 then Inl ErrRange else parse_digits n1 s)"

definition ParseUint64 :: "bytes \<Rightarrow> num_error + nat" where
  "ParseUint64 s = (if s = [] then Inl ErrSyntax else parse_digits 0 s)"

text \<open>The value ParseUint returns beside its error: 0 on bad syntax, the maximum out of range.\<close>

definition uint_or_err :: "bytes \<Rightarrow> u64" where
  "uint_or_err s = (case ParseUint64 s of Inr n \<Rightarrow> of_nat n | Inl ErrSyntax \<Rightarrow> 0 | Inl ErrRange \<Rightarrow> - 1)"

definition ParseInt64 :: "bytes \<Rightarrow> int option" where
  "ParseInt64 s =
     (if s = [] then None
      else let neg = (s ! 0 = 45); digits = (if s ! 0 = 43 \<or> s ! 0 = 45 then drop 1 s else s)
      in case ParseUint64 digits of
        Inl _ \<Rightarrow> None
      | Inr un \<Rightarrow> if \<not> neg \<and> un \<ge> 2 ^ 63 then None else if neg \<and> un > 2 ^ 63 then None
                 else Some (if neg then - int un else int un))"

fun format_nat :: "nat \<Rightarrow> bytes" where
  "format_nat n = (if n < 10 then [of_nat (48 + n)] else format_nat (n div 10) @ [of_nat (48 + n mod 10)])"

declare format_nat.simps [simp del]

text \<open>Space at the ends of a raw JSON value, which starts and ends with an ASCII byte.\<close>

definition is_space :: "byte \<Rightarrow> bool" where
  "is_space c \<longleftrightarrow> c = 32 \<or> (9 \<le> c \<and> c \<le> 13)"

definition TrimSpace :: "bytes \<Rightarrow> bytes" where
  "TrimSpace s = rev (dropWhile is_space (rev (dropWhile is_space s)))"

section \<open>Validation\<close>

definition opVerbs :: "qlOp \<Rightarrow> nat" where
  "opVerbs op =
     (if op_Get op \<noteq> None then 1 else 0) + (if op_Gets op \<noteq> None then 1 else 0) + (if op_Scan op \<noteq> None then 1 else 0)
     + (if op_Count op \<noteq> None then 1 else 0) + (if op_Cas op \<noteq> None then 1 else 0) + (if op_Del op \<noteq> None then 1 else 0)
     + (if op_Ins op \<noteq> None then 1 else 0) + (if op_Join op \<noteq> None then 1 else 0) + (if op_Group op \<noteq> None then 1 else 0)
     + (if op_Nest op \<noteq> None then 1 else 0)"

definition lotOps :: "qlLot \<Rightarrow> qlOp list" where
  "lotOps lot = (if length (lot_Ops lot) > 0 then lot_Ops lot else if opVerbs (lot_Op lot) = 0 then [] else [lot_Op lot])"

definition HasPrefix :: "bytes \<Rightarrow> bytes \<Rightarrow> bool" where
  "HasPrefix s p \<longleftrightarrow> length p \<le> length s \<and> take (length p) s = p"

definition capColl :: "qlCap \<Rightarrow> bytes \<Rightarrow> ql_error option" where
  "capColl cap coll = (if coll = [] \<or> \<not> HasPrefix coll (cap_Prefix cap) then Some ErrQLPrefix else None)"

text \<open>The first error of a sequence of checks.\<close>

fun checks :: "ql_error option list \<Rightarrow> ql_error option" where
  "checks [] = None"
| "checks (c # cs) = (case c of Some e \<Rightarrow> Some e | None \<Rightarrow> checks cs)"

definition need :: "bool \<Rightarrow> ql_error \<Rightarrow> ql_error option" where
  "need b e = (if b then None else Some e)"

definition needID :: "bytes \<Rightarrow> ql_error option" where
  "needID s = (case parseUUIDHex s of Inl e \<Rightarrow> Some e | Inr _ \<Rightarrow> None)"

definition validateOptionalID :: "bytes \<Rightarrow> ql_error option" where
  "validateOptionalID s = (if s = [] then None else needID s)"

definition validateScan :: "qlCap \<Rightarrow> qlScan \<Rightarrow> ql_error option" where
  "validateScan cap sc = checks
     [need (sc_Limit sc \<noteq> 0) ErrQLLimitAbsente,
      need (\<not> (length (sc_Proj sc) = 0 \<or> length (sc_Proj sc) > c2qlMaxProj)) ErrQLProjAbsente,
      capColl cap (sc_Coll sc),
      need (\<not> sc_Limit sc * c2qlMaxDocBytes > cap_QuotaBytes cap) ErrQLQuota,
      validateOptionalID (sc_FromID sc),
      validateOptionalID (sc_ToID sc)]"

definition opt_check :: "'a option \<Rightarrow> ('a \<Rightarrow> ql_error option) \<Rightarrow> ql_error option" where
  "opt_check x f = (case x of None \<Rightarrow> None | Some y \<Rightarrow> f y)"

text \<open>The checks of every verb but \<open>nest\<close>, in the order of the code.\<close>

definition validateFlat :: "qlCap \<Rightarrow> qlOp \<Rightarrow> bool \<Rightarrow> ql_error option" where
  "validateFlat cap op nested = checks
     [opt_check (op_Get op) (\<lambda>g. checks [capColl cap (g_Coll g), needID (g_ID g)]),
      opt_check (op_Scan op) (validateScan cap),
      opt_check (op_Count op) (\<lambda>c. checks [need (ct_Limit c \<noteq> 0) ErrQLLimitAbsente, capColl cap (ct_Coll c),
        validateOptionalID (ct_FromID c), validateOptionalID (ct_ToID c)]),
      opt_check (op_Cas op) (\<lambda>c. checks [capColl cap (cs_Coll c),
        if cs_ID c = [] then need nested ErrQLID else needID (cs_ID c)]),
      opt_check (op_Del op) (\<lambda>d. checks [capColl cap (dl_Coll d), needID (dl_ID d)]),
      opt_check (op_Ins op) (\<lambda>i. checks [capColl cap (in_Coll i), need (length (in_Doc i) \<noteq> 0) ErrQLOp]),
      opt_check (op_Gets op) (\<lambda>g. checks ([need (gs_Limit g \<noteq> 0) ErrQLLimitAbsente, capColl cap (gs_Coll g),
        need (\<not> of_nat (length (gs_IDs g)) > gs_Limit g) ErrQLQuota] @ map needID (gs_IDs g))),
      opt_check (op_Join op) (\<lambda>j. checks [need (jn_On j \<noteq> []) ErrQLJoinSansOn,
        need (\<not> (jn_LeftMax j = 0 \<or> jn_RightMax j = 0)) ErrQLJoinSansMax,
        (case jn_Left j of None \<Rightarrow> Some ErrQLLimitAbsente | Some l \<Rightarrow> validateScan cap l),
        opt_check (jn_Right j) (\<lambda>r. capColl cap (jr_Coll r))]),
      opt_check (op_Group op) (\<lambda>g. checks [need (gr_Limit g \<noteq> 0) ErrQLLimitAbsente,
        (case gr_Src g of None \<Rightarrow> need nested ErrQLLimitAbsente | Some sc \<Rightarrow> validateScan cap sc)])]"

function validateOp :: "qlCap \<Rightarrow> qlOp \<Rightarrow> nat \<Rightarrow> bool \<Rightarrow> ql_error option" where
  "validateOp cap op depth nested =
     (if opVerbs op \<noteq> 1 then Some ErrQLOp
      else case validateFlat cap op nested of
        Some e \<Rightarrow> Some e
      | None \<Rightarrow>
          (case op_Nest op of
            None \<Rightarrow> None
          | Some nst \<Rightarrow>
              if depth + 1 > 4 \<or> ns_Depth nst > 4 \<or> ns_Depth nst = 0 then Some ErrQLDepth
              else case (ns_Src nst, ns_Then nst) of
                (Some src, Some thn) \<Rightarrow>
                  (case validateOp cap src (depth + 1) True of Some e \<Rightarrow> Some e | None \<Rightarrow> validateOp cap thn (depth + 1) True)
              | _ \<Rightarrow> Some ErrQLOp))"
  by pat_completeness auto
termination
  by (relation "measure (\<lambda>(cap, op, depth, nested). 5 - depth)") auto

declare validateOp.simps [simp del]

definition ValidateC2QL :: "json_std \<Rightarrow> bytes \<Rightarrow> ql_error option" where
  "ValidateC2QL J raw =
     (case js_lot J raw of
       None \<Rightarrow> Some ErrQLOp
     | Some lot \<Rightarrow>
         if cap_Prefix (lot_Cap lot) = [] \<or> cap_QuotaBytes (lot_Cap lot) = 0 \<or> cap_QuotaOps (lot_Cap lot) = 0 then Some ErrQLCap
         else checks ([validateOptionalID (lot_AsOf lot),
           need (length (lotOps lot) \<noteq> 0) ErrQLOp,
           need (\<not> of_nat (length (lotOps lot)) > cap_QuotaOps (lot_Cap lot)) ErrQLQuota]
           @ map (\<lambda>op. validateOp (lot_Cap lot) op 0 False) (lotOps lot)))"

section \<open>Documents\<close>

definition docHash :: "bytes \<Rightarrow> bytes" where
  "docHash val = (case Sum256 val of Some h \<Rightarrow> hex_EncodeToString h | None \<Rightarrow> [])"

definition metaID :: "UUID \<Rightarrow> bytes \<Rightarrow> C2QLMeta" where
  "metaID uid val = \<lparr>m_Hash = docHash val, m_ID = hex_EncodeToString uid\<rparr>"

definition projectJSON :: "json_std \<Rightarrow> bytes \<Rightarrow> bytes list \<Rightarrow> bytes" where
  "projectJSON J val proj =
     (if length proj = 0 then val
      else case js_object J val of
        None \<Rightarrow> val
      | Some m \<Rightarrow> (case js_marshal J (m |` set proj) of None \<Rightarrow> bytes_of ''{}'' | Some b \<Rightarrow> b))"

definition jsonScalar :: "json_std \<Rightarrow> bytes \<Rightarrow> bytes" where
  "jsonScalar J raw = (case js_string J raw of Some s \<Rightarrow> s | None \<Rightarrow> TrimSpace raw)"

definition jsonField :: "json_std \<Rightarrow> bytes \<Rightarrow> bytes \<Rightarrow> bytes" where
  "jsonField J doc field =
     (case js_object J doc of None \<Rightarrow> [] | Some m \<Rightarrow> (case m field of None \<Rightarrow> [] | Some raw \<Rightarrow> jsonScalar J raw))"

definition ge_fails :: "bytes \<Rightarrow> bytes \<Rightarrow> bool" where
  "ge_fails got want =
     (case (ParseInt64 got, ParseInt64 want) of (Some gi, Some wi) \<Rightarrow> gi < wi | _ \<Rightarrow> bytes_Compare got want < 0)"

fun evalFilter :: "json_std \<Rightarrow> bytes \<Rightarrow> qlFilter \<Rightarrow> bool" where
  "evalFilter J val (QlFilter eq ge an) =
     (if \<not> list_all (evalFilter J val) an then False
      else if length eq = 2 \<and> jsonField J val (jsonScalar J (eq ! 0)) \<noteq> jsonScalar J (eq ! 1) then False
      else if length ge = 2 \<and> ge_fails (jsonField J val (jsonScalar J (ge ! 0))) (jsonScalar J (ge ! 1)) then False
      else True)"

definition matchFilter :: "json_std \<Rightarrow> bytes \<Rightarrow> bytes \<Rightarrow> bool" where
  "matchFilter J val raw =
     (if length raw = 0 then True else case js_filter J raw of None \<Rightarrow> False | Some f \<Rightarrow> evalFilter J val f)"

text \<open>The bounds of identifiers: from is inclusive, to is exclusive, an unreadable bound matches nothing.\<close>

definition id_in_range :: "UUID \<Rightarrow> bytes \<Rightarrow> bytes \<Rightarrow> bool" where
  "id_in_range uid from to \<longleftrightarrow>
     (from = [] \<or> (case parseUUIDHex from of Inl _ \<Rightarrow> False | Inr lo \<Rightarrow> \<not> bytes_Compare uid lo < 0))
     \<and> (to = [] \<or> (case parseUUIDHex to of Inl _ \<Rightarrow> False | Inr hi \<Rightarrow> \<not> bytes_Compare uid hi \<ge> 0))"

definition matchIDPred :: "UUID \<Rightarrow> qlScan \<Rightarrow> bool" where
  "matchIDPred uid sc \<longleftrightarrow>
     (case sc_Kind sc of None \<Rightarrow> True | Some k \<Rightarrow> KindOf uid = k) \<and> (case sc_CollID sc of None \<Rightarrow> True | Some c \<Rightarrow> CollOf uid = c)
     \<and> id_in_range uid (sc_FromID sc) (sc_ToID sc)"

text \<open>Keys of collections, \<^verbatim>\<open>src/pkg/c2db/collection.go\<close>: the name, a separator, the key.\<close>

definition CollectionSep :: byte where "CollectionSep = 0x1F"

definition collectionPrefix :: "bytes \<Rightarrow> bytes" where
  "collectionPrefix name = name @ [CollectionSep]"

definition collectionKey :: "bytes \<Rightarrow> bytes \<Rightarrow> bytes" where
  "collectionKey name key = name @ CollectionSep # key"

definition StripCollectionPrefix :: "bytes \<Rightarrow> bytes \<Rightarrow> bytes option" where
  "StripCollectionPrefix name rawKey =
     (if HasPrefix rawKey (collectionPrefix name) then Some (drop (length (collectionPrefix name)) rawKey) else None)"

definition idFromCollKey :: "bytes \<Rightarrow> bytes \<Rightarrow> UUID option" where
  "idFromCollKey name raw =
     (case StripCollectionPrefix name raw of None \<Rightarrow> None | Some suf \<Rightarrow> if length suf \<noteq> 16 then None else Some suf)"

section \<open>Mutations of a document\<close>

text \<open>The map of the fields is None when the document is the JSON \<^verbatim>\<open>null\<close>, which sets the Go map to nil: reading and
  deleting then find nothing, storing a field panics, and the nil map is written back as \<^verbatim>\<open>null\<close>.\<close>

definition store_field :: "bytes \<Rightarrow> bytes \<Rightarrow> (bytes \<rightharpoonup> bytes) option \<Rightarrow> ql_error + (bytes \<rightharpoonup> bytes) option" where
  "store_field f v mm = (case mm of None \<Rightarrow> Inl GoPanic | Some m \<Rightarrow> Inr (Some (m(f \<mapsto> v))))"

definition field_of :: "(bytes \<rightharpoonup> bytes) option \<Rightarrow> bytes \<Rightarrow> bytes option" where
  "field_of mm f = (case mm of None \<Rightarrow> None | Some m \<Rightarrow> m f)"

definition incr_field :: "bytes option \<Rightarrow> bytes \<Rightarrow> bytes" where
  "incr_field cur v =
     (let n = (case cur of Some raw \<Rightarrow> uint_or_err (TrimSpace raw) | None \<Rightarrow> 0); add = uint_or_err (TrimSpace v)
      in format_nat (unat (n + add)))"

definition mut_op :: "(bytes \<rightharpoonup> bytes) option \<Rightarrow> qlMutOp \<Rightarrow> ql_error + (bytes \<rightharpoonup> bytes) option" where
  "mut_op mm op =
     (if mo_F op = [] then Inl ErrQLChamp
      else if mo_Op op = 1 then store_field (mo_F op) (mo_V op) mm
      else if mo_Op op = 2 then (if field_of mm (mo_F op) = None then store_field (mo_F op) (mo_V op) mm else Inr mm)
      else if mo_Op op = 3 then store_field (mo_F op) (incr_field (field_of mm (mo_F op)) (mo_V op)) mm
      else if mo_Op op = 8 then Inr (map_option (\<lambda>m. m(mo_F op := None)) mm)
      else Inl ErrQLOpInconnue)"

fun mut_ops :: "(bytes \<rightharpoonup> bytes) option \<Rightarrow> qlMutOp list \<Rightarrow> ql_error + (bytes \<rightharpoonup> bytes) option" where
  "mut_ops mm [] = Inr mm"
| "mut_ops mm (op # ops) = (case mut_op mm op of Inl e \<Rightarrow> Inl e | Inr mm \<Rightarrow> mut_ops mm ops)"

definition applyMutOps :: "json_std \<Rightarrow> bytes \<Rightarrow> qlMutOp list \<Rightarrow> ql_error + bytes" where
  "applyMutOps J cur ops =
     (case (if length cur > 0 then js_object J cur else Some Map.empty) of
       None \<Rightarrow> Inl ErrQLOp
     | Some m \<Rightarrow>
         (case mut_ops (if length cur > 0 \<and> js_null J cur then None else Some m) ops of
           Inl e \<Rightarrow> Inl e
         | Inr None \<Rightarrow> Inr (bytes_of ''null'')
         | Inr (Some m) \<Rightarrow> (case js_marshal J m of None \<Rightarrow> Inl ErrQLOp | Some b \<Rightarrow> Inr b)))"

section \<open>Execution\<close>

definition one_doc :: "bytes \<Rightarrow> C2QLMeta \<Rightarrow> u64 \<Rightarrow> C2QLResult" where
  "one_doc doc meta n = \<lparr>r_Docs = [\<lparr>d_Doc = doc, d_Meta = meta\<rparr>], r_NextFrom = [], r_N = n\<rparr>"

definition docs_result :: "C2QLDoc list \<Rightarrow> bytes \<Rightarrow> C2QLResult" where
  "docs_result docs next = \<lparr>r_Docs = docs, r_NextFrom = next, r_N = of_nat (length docs)\<rparr>"

definition execGetKV :: "qlGet \<Rightarrow> 's kvFns \<Rightarrow> 's \<Rightarrow> ql_error + C2QLResult" where
  "execGetKV g kv s =
     (case parseUUIDHex (g_ID g) of
       Inl e \<Rightarrow> Inl e
     | Inr uid \<Rightarrow> (case kv_get kv (g_Coll g) uid s of Inl e \<Rightarrow> Inl e | Inr val \<Rightarrow> Inr (one_doc val (metaID uid val) 0)))"

definition scanFetchN :: "qlScan \<Rightarrow> u64" where
  "scanFetchN sc =
     (if length (sc_Filter sc) > 0 \<or> sc_Kind sc \<noteq> None \<or> sc_CollID sc \<noteq> None \<or> sc_FromID sc \<noteq> [] \<or> sc_ToID sc \<noteq> []
      then (if sc_Limit sc > 32768 then 1048576 else sc_Limit sc * 32 + 1)
      else sc_Limit sc + 1)"

text \<open>The loop over the keys: the documents found and the identifier of the first one beyond the limit.\<close>

fun scan_keys :: "json_std \<Rightarrow> qlScan \<Rightarrow> 's kvFns \<Rightarrow> 's \<Rightarrow> C2QLDoc list \<Rightarrow> bytes list \<Rightarrow> ql_error + C2QLDoc list \<times> bytes" where
  "scan_keys J sc kv s docs [] = Inr (docs, [])"
| "scan_keys J sc kv s docs (k # ks) =
     (case idFromCollKey (sc_Coll sc) k of
       None \<Rightarrow> scan_keys J sc kv s docs ks
     | Some uid \<Rightarrow>
         if \<not> matchIDPred uid sc then scan_keys J sc kv s docs ks
         else (case kv_get kv (sc_Coll sc) uid s of
             Inl e \<Rightarrow> Inl e
           | Inr val \<Rightarrow>
               if \<not> matchFilter J val (sc_Filter sc) then scan_keys J sc kv s docs ks
               else if of_nat (length docs) \<ge> sc_Limit sc then Inr (docs, hex_EncodeToString uid)
               else scan_keys J sc kv s (docs @ [\<lparr>d_Doc = projectJSON J val (sc_Proj sc), d_Meta = metaID uid val\<rparr>]) ks))"

text \<open>\<^verbatim>\<open>make([]C2QLDoc, 0, lim)\<close>: an entry is 56 bytes, the address space 2^48.\<close>

definition makeslice_panics :: "u64 \<Rightarrow> bool" where
  "makeslice_panics lim \<longleftrightarrow> unat lim * 56 > 2 ^ 48"

definition execScanKV :: "json_std \<Rightarrow> qlScan \<Rightarrow> 's kvFns \<Rightarrow> 's \<Rightarrow> ql_error + C2QLResult" where
  "execScanKV J sc kv s =
     (case kv_scan kv (sc_Coll sc) (scanFetchN sc) s of
       Inl e \<Rightarrow> Inl e
     | Inr keys \<Rightarrow>
         if makeslice_panics (sc_Limit sc) then Inl GoPanic
         else (case scan_keys J sc kv s [] keys of Inl e \<Rightarrow> Inl e | Inr (docs, next) \<Rightarrow> Inr (docs_result docs next)))"

definition count_key :: "qlCount \<Rightarrow> bytes \<Rightarrow> bool" where
  "count_key c k = (case idFromCollKey (ct_Coll c) k of None \<Rightarrow> False | Some uid \<Rightarrow> id_in_range uid (ct_FromID c) (ct_ToID c))"

definition execCountKV :: "qlCount \<Rightarrow> 's kvFns \<Rightarrow> 's \<Rightarrow> ql_error + C2QLResult" where
  "execCountKV c kv s =
     (case kv_scan kv (ct_Coll c) (ct_Limit c) s of
       Inl e \<Rightarrow> Inl e
     | Inr keys \<Rightarrow> (let n = of_nat (length (filter (count_key c) keys))
         in Inr \<lparr>r_Docs = [], r_NextFrom = [], r_N = (if n > ct_Limit c then ct_Limit c else n)\<rparr>))"

text \<open>The current document of a conditional write: None when it is not found, and its hash.\<close>

definition current_doc :: "'s kvFns \<Rightarrow> bytes \<Rightarrow> UUID \<Rightarrow> 's \<Rightarrow> ql_error + bytes option" where
  "current_doc kv coll uid s =
     (case kv_get kv coll uid s of Inr v \<Rightarrow> Inr (Some v) | Inl e \<Rightarrow> if e = ErrNotFound then Inr None else Inl e)"

definition current_hash :: "bytes option \<Rightarrow> bytes" where
  "current_hash cur = (case cur of None \<Rightarrow> [] | Some v \<Rightarrow> docHash v)"

definition execCasKV :: "json_std \<Rightarrow> qlCas \<Rightarrow> 's kvFns \<Rightarrow> 's \<Rightarrow> (ql_error + C2QLResult) \<times> 's" where
  "execCasKV J c kv s =
     (case parseUUIDHex (cs_ID c) of
       Inl e \<Rightarrow> (Inl e, s)
     | Inr uid \<Rightarrow>
         (case current_doc kv (cs_Coll c) uid s of
           Inl e \<Rightarrow> (Inl e, s)
         | Inr cur \<Rightarrow>
             if current_hash cur \<noteq> cs_Expect c then (Inl ErrQLExpect, s)
             else (case (if length (cs_Ops c) > 0 then applyMutOps J (case cur of None \<Rightarrow> [] | Some v \<Rightarrow> v) (cs_Ops c) else Inr (cs_Doc c)) of
                 Inl e \<Rightarrow> (Inl e, s)
               | Inr nxt \<Rightarrow>
                   if length nxt = 0 then (Inl ErrQLOp, s)
                   else (case (if length (cs_Ops c) > 0 \<and> kv_mut kv \<noteq> None then the (kv_mut kv) (cs_Coll c) uid nxt (cs_Ops c) s
                               else kv_put kv (cs_Coll c) uid nxt s) of
                       (Some e, s) \<Rightarrow> (Inl e, s)
                     | (None, s) \<Rightarrow> (Inr (one_doc nxt (metaID uid nxt) 0), s)))))"

definition execDelKV :: "qlDel \<Rightarrow> 's kvFns \<Rightarrow> 's \<Rightarrow> (ql_error + C2QLResult) \<times> 's" where
  "execDelKV d kv s =
     (case parseUUIDHex (dl_ID d) of
       Inl e \<Rightarrow> (Inl e, s)
     | Inr uid \<Rightarrow>
         (case current_doc kv (dl_Coll d) uid s of
           Inl e \<Rightarrow> (Inl e, s)
         | Inr cur \<Rightarrow>
             if current_hash cur \<noteq> dl_Expect d then (Inl ErrQLExpect, s)
             else (case (if cur \<noteq> None then kv_del kv (dl_Coll d) uid s else (None, s)) of
                 (Some e, s) \<Rightarrow> (Inl e, s)
               | (None, s) \<Rightarrow> (Inr (one_doc [] \<lparr>m_Hash = [], m_ID = hex_EncodeToString uid\<rparr> 1), s))))"

definition execInsKV :: "qlIns \<Rightarrow> 's kvFns \<Rightarrow> 's \<Rightarrow> (ql_error + C2QLResult) \<times> 's" where
  "execInsKV i kv s =
     (case kv_ins kv (in_Coll i) (in_Doc i) s of
       (Inl e, s) \<Rightarrow> (Inl e, s)
     | (Inr uid, s) \<Rightarrow> (Inr (one_doc (in_Doc i) (metaID uid (in_Doc i)) 1), s))"

fun gets_loop :: "json_std \<Rightarrow> qlGets \<Rightarrow> 's kvFns \<Rightarrow> 's \<Rightarrow> C2QLDoc list \<Rightarrow> nat \<Rightarrow> bytes list \<Rightarrow> ql_error + C2QLDoc list" where
  "gets_loop J g kv s docs i [] = Inr docs"
| "gets_loop J g kv s docs i (raw # ids) =
     (if of_nat i \<ge> gs_Limit g then Inr docs
      else case parseUUIDHex raw of
        Inl e \<Rightarrow> Inl e
      | Inr uid \<Rightarrow>
          (case kv_get kv (gs_Coll g) uid s of
            Inl e \<Rightarrow> Inl e
          | Inr val \<Rightarrow> gets_loop J g kv s (docs @ [\<lparr>d_Doc = projectJSON J val (gs_Proj g), d_Meta = metaID uid val\<rparr>]) (Suc i) ids))"

definition execGetsKV :: "json_std \<Rightarrow> qlGets \<Rightarrow> 's kvFns \<Rightarrow> 's \<Rightarrow> ql_error + C2QLResult" where
  "execGetsKV J g kv s = (case gets_loop J g kv s [] 0 (gs_IDs g) of Inl e \<Rightarrow> Inl e | Inr docs \<Rightarrow> Inr (docs_result docs []))"

text \<open>A join reads one document of the right collection for every document of the left scan that names one; a name that
  does not parse and a document that is not found are skipped.\<close>

definition join_key :: "json_std \<Rightarrow> qlJoin \<Rightarrow> bytes \<Rightarrow> bytes" where
  "join_key J j doc =
     (let rk = jsonField J doc (jn_On j)
      in case jn_Right j of
        Some r \<Rightarrow> if rk = [] \<and> jr_FromLeft r \<noteq> [] then jsonField J doc (jr_FromLeft r) else rk
      | None \<Rightarrow> rk)"

definition join_coll :: "qlJoin \<Rightarrow> bytes" where
  "join_coll j = (case jn_Right j of Some r \<Rightarrow> jr_Coll r | None \<Rightarrow> [])"

definition join_proj :: "qlJoin \<Rightarrow> qlScan \<Rightarrow> bytes list" where
  "join_proj j l = (case jn_Right j of Some r \<Rightarrow> if length (jr_Proj r) > 0 then jr_Proj r else sc_Proj l | None \<Rightarrow> sc_Proj l)"

fun join_loop :: "json_std \<Rightarrow> qlJoin \<Rightarrow> qlScan \<Rightarrow> 's kvFns \<Rightarrow> 's \<Rightarrow> C2QLDoc list \<Rightarrow> u64 \<Rightarrow> C2QLDoc list \<Rightarrow> C2QLDoc list" where
  "join_loop J j l kv s docs nRight [] = docs"
| "join_loop J j l kv s docs nRight (d # ds) =
     (if nRight \<ge> jn_RightMax j then docs
      else let rk = join_key J j (d_Doc d)
      in if rk = [] then join_loop J j l kv s docs nRight ds
         else case parseUUIDHex rk of
           Inl _ \<Rightarrow> join_loop J j l kv s docs nRight ds
         | Inr rid \<Rightarrow>
             (case kv_get kv (join_coll j) rid s of
               Inl _ \<Rightarrow> join_loop J j l kv s docs nRight ds
             | Inr val \<Rightarrow> join_loop J j l kv s (docs @ [\<lparr>d_Doc = projectJSON J val (join_proj j l), d_Meta = metaID rid val\<rparr>]) (nRight + 1) ds))"

text \<open>A missing left scan is a nil dereference.\<close>

definition execJoinKV :: "json_std \<Rightarrow> qlJoin \<Rightarrow> 's kvFns \<Rightarrow> 's \<Rightarrow> ql_error + C2QLResult" where
  "execJoinKV J j kv s =
     (case jn_Left j of
       None \<Rightarrow> Inl GoPanic
     | Some l \<Rightarrow>
         (case execScanKV J (if sc_Limit l > jn_LeftMax j then l\<lparr>sc_Limit := jn_LeftMax j\<rparr> else l) kv s of
           Inl e \<Rightarrow> Inl e
         | Inr left \<Rightarrow> Inr (docs_result (join_loop J j l kv s [] 0 (r_Docs left)) [])))"

text \<open>Groups in the order of their first document: key, number of documents, sum.\<close>

fun group_add :: "u64 \<Rightarrow> bytes \<Rightarrow> u64 \<Rightarrow> (bytes \<times> u64 \<times> u64) list \<Rightarrow> nat \<Rightarrow> (bytes \<times> u64 \<times> u64) list" where
  "group_add limit k u [] seen = (if of_nat seen \<ge> limit then [] else [(k, 1, u)])"
| "group_add limit k u ((k', n, t) # gs) seen =
     (if k' = k then (k', n + 1, t + u) # gs else (k', n, t) # group_add limit k u gs (Suc seen))"

definition execGroupFromDocs :: "json_std \<Rightarrow> qlGroup \<Rightarrow> C2QLDoc list \<Rightarrow> C2QLResult" where
  "execGroupFromDocs J g docs =
     (let by = (if length (gr_By g) > 0 then gr_By g ! 0 else []);
          add = (\<lambda>gs d. group_add (gr_Limit g) (jsonField J (d_Doc d) by)
                   (if gr_Sum g \<noteq> [] then uint_or_err (jsonField J (d_Doc d) (gr_Sum g)) else 0) gs 0);
          groups = foldl add [] docs
      in docs_result (map (\<lambda>(k, n, t). let body = js_group J n t in \<lparr>d_Doc = body, d_Meta = \<lparr>m_Hash = docHash body, m_ID = []\<rparr>\<rparr>) groups) [])"

definition execGroupKV :: "json_std \<Rightarrow> qlGroup \<Rightarrow> 's kvFns \<Rightarrow> 's \<Rightarrow> ql_error + C2QLResult" where
  "execGroupKV J g kv s =
     (case gr_Src g of
       None \<Rightarrow> Inr (execGroupFromDocs J g [])
     | Some sc \<Rightarrow> (case execScanKV J sc kv s of Inl e \<Rightarrow> Inl e | Inr src \<Rightarrow> Inr (execGroupFromDocs J g (r_Docs src))))"

text \<open>A conditional write for every document of a source, against the hash the source saw.\<close>

fun nest_cas :: "json_std \<Rightarrow> qlCas \<Rightarrow> 's kvFns \<Rightarrow> C2QLDoc list \<Rightarrow> C2QLDoc list \<Rightarrow> 's \<Rightarrow> (ql_error + C2QLResult) \<times> 's" where
  "nest_cas J c kv docs [] s = (Inr (docs_result docs []), s)"
| "nest_cas J c kv docs (d # ds) s =
     (case execCasKV J (c\<lparr>cs_ID := m_ID (d_Meta d), cs_Expect := m_Hash (d_Meta d)\<rparr>) kv s of
       (Inl e, s) \<Rightarrow> (Inl e, s)
     | (Inr one, s) \<Rightarrow> nest_cas J c kv (docs @ r_Docs one) ds s)"

text \<open>Every verb but \<open>nest\<close>, in the order of the switch.\<close>

definition execFlat :: "json_std \<Rightarrow> qlOp \<Rightarrow> 's kvFns \<Rightarrow> 's \<Rightarrow> ((ql_error + C2QLResult) \<times> 's) option" where
  "execFlat J op kv s =
     (case op_Get op of Some g \<Rightarrow> Some (execGetKV g kv s, s) | None \<Rightarrow>
      case op_Scan op of Some sc \<Rightarrow> Some (execScanKV J sc kv s, s) | None \<Rightarrow>
      case op_Count op of Some c \<Rightarrow> Some (execCountKV c kv s, s) | None \<Rightarrow>
      case op_Cas op of Some c \<Rightarrow> Some (execCasKV J c kv s) | None \<Rightarrow>
      case op_Del op of Some d \<Rightarrow> Some (execDelKV d kv s) | None \<Rightarrow>
      case op_Ins op of Some i \<Rightarrow> Some (execInsKV i kv s) | None \<Rightarrow>
      case op_Gets op of Some g \<Rightarrow> Some (execGetsKV J g kv s, s) | None \<Rightarrow>
      case op_Join op of Some j \<Rightarrow> Some (execJoinKV J j kv s, s) | None \<Rightarrow>
      case op_Group op of Some g \<Rightarrow> Some (execGroupKV J g kv s, s) | None \<Rightarrow> None)"

text \<open>\<^verbatim>\<open>execOp\<close> with \<^verbatim>\<open>execNestKV\<close> as its last case; a missing source or continuation is a nil dereference.\<close>

fun execOp :: "json_std \<Rightarrow> qlOp \<Rightarrow> 's kvFns \<Rightarrow> 's \<Rightarrow> (ql_error + C2QLResult) \<times> 's" where
  "execOp J (QlOp a b c d e f g h i nst) kv s =
     (case execFlat J (QlOp a b c d e f g h i nst) kv s of
       Some r \<Rightarrow> r
     | None \<Rightarrow>
         (case nst of
           None \<Rightarrow> (Inl ErrQLOp, s)
         | Some (QlNest depth None thn) \<Rightarrow> (Inl GoPanic, s)
         | Some (QlNest depth (Some src) thn) \<Rightarrow>
             (case execOp J src kv s of
               (Inl e, s) \<Rightarrow> (Inl e, s)
             | (Inr res, s) \<Rightarrow>
                 (case thn of
                   None \<Rightarrow> (Inl GoPanic, s)
                 | Some t \<Rightarrow>
                     (case op_Group t of
                       Some g \<Rightarrow> (Inr (execGroupFromDocs J g (r_Docs res)), s)
                     | None \<Rightarrow>
                         (case op_Cas t of
                           Some c \<Rightarrow> nest_cas J c kv [] (r_Docs res) s
                         | None \<Rightarrow> execOp J t kv s))))))"

fun lot_loop :: "json_std \<Rightarrow> 's kvFns \<Rightarrow> C2QLResult \<Rightarrow> qlOp list \<Rightarrow> 's \<Rightarrow> (ql_error + C2QLResult) \<times> 's" where
  "lot_loop J kv res [] s = (Inr res, s)"
| "lot_loop J kv res (op # ops) s =
     (case execOp J op kv s of
       (Inl e, s) \<Rightarrow> (Inl e, s)
     | (Inr one, s) \<Rightarrow>
         lot_loop J kv \<lparr>r_Docs = r_Docs res @ r_Docs one, r_NextFrom = (if r_NextFrom one \<noteq> [] then r_NextFrom one else r_NextFrom res),
           r_N = r_N res + r_N one\<rparr> ops s)"

definition execLotKV :: "json_std \<Rightarrow> qlLot \<Rightarrow> 's kvFns \<Rightarrow> 's \<Rightarrow> (ql_error + C2QLResult) \<times> 's" where
  "execLotKV J lot kv s =
     (case lot_loop J kv \<lparr>r_Docs = [], r_NextFrom = [], r_N = 0\<rparr> (lotOps lot) s of
       (Inl e, s) \<Rightarrow> (Inl e, s)
     | (Inr res, s) \<Rightarrow> (Inr (if r_N res = 0 then res\<lparr>r_N := of_nat (length (r_Docs res))\<rparr> else res), s))"

end
