(* ===== verification/C2ql_Props.thy ===== *)
theory C2ql_Props
  imports C2ql
begin

text \<open>
  What validation guarantees of execution: a lot stays inside its capability; a scan returns the first matching
  documents of what it fetched; a product of two 64-bit numbers escapes the quota.
\<close>

section \<open>Confinement\<close>

text \<open>The store cut down to some collections: any access to another one panics.\<close>

definition inside :: "qlCap \<Rightarrow> bytes \<Rightarrow> bool" where
  "inside cap coll \<longleftrightarrow> coll \<noteq> [] \<and> HasPrefix coll (cap_Prefix cap)"

definition guard_kv :: "(bytes \<Rightarrow> bool) \<Rightarrow> 's kvFns \<Rightarrow> 's kvFns" where
  "guard_kv P kv =
     \<lparr>kv_get = (\<lambda>coll uid s. if P coll then kv_get kv coll uid s else Inl GoPanic),
      kv_scan = (\<lambda>coll n s. if P coll then kv_scan kv coll n s else Inl GoPanic),
      kv_put = (\<lambda>coll uid v s. if P coll then kv_put kv coll uid v s else (Some GoPanic, s)),
      kv_ins = (\<lambda>coll v s. if P coll then kv_ins kv coll v s else (Inl GoPanic, s)),
      kv_mut = map_option (\<lambda>f coll uid v ops s. if P coll then f coll uid v ops s else (Some GoPanic, s)) (kv_mut kv),
      kv_del = (\<lambda>coll uid s. if P coll then kv_del kv coll uid s else (Some GoPanic, s))\<rparr>"

text \<open>A join that names its right side; nests included.\<close>

fun rights_named :: "qlOp \<Rightarrow> bool" where
  "rights_named (QlOp a b c d e f g h i nst) \<longleftrightarrow>
     (case h of None \<Rightarrow> True | Some j \<Rightarrow> jn_Right j \<noteq> None)
     \<and> (case nst of None \<Rightarrow> True | Some (QlNest depth src thn) \<Rightarrow>
          (case src of None \<Rightarrow> True | Some q \<Rightarrow> rights_named q) \<and> (case thn of None \<Rightarrow> True | Some q \<Rightarrow> rights_named q))"

lemma capColl_inside: "capColl cap coll = None \<longleftrightarrow> inside cap coll"
  by (auto simp: capColl_def inside_def)

lemmas [simp del] = checks.simps(2)

lemma checks_None: "checks cs = None \<longleftrightarrow> (\<forall>c \<in> set cs. c = None)"
  by (induction cs) (auto simp: checks.simps split: option.splits)

lemma opt_check_None: "opt_check x f = None \<longleftrightarrow> (\<forall>y. x = Some y \<longrightarrow> f y = None)"
  by (simp add: opt_check_def split: option.splits)

lemma guard_get [simp]: "P coll \<Longrightarrow> kv_get (guard_kv P kv) coll = kv_get kv coll"
  and guard_scan [simp]: "P coll \<Longrightarrow> kv_scan (guard_kv P kv) coll = kv_scan kv coll"
  and guard_put [simp]: "P coll \<Longrightarrow> kv_put (guard_kv P kv) coll = kv_put kv coll"
  and guard_ins [simp]: "P coll \<Longrightarrow> kv_ins (guard_kv P kv) coll = kv_ins kv coll"
  and guard_del [simp]: "P coll \<Longrightarrow> kv_del (guard_kv P kv) coll = kv_del kv coll"
  by (simp_all add: guard_kv_def fun_eq_iff)

lemma scan_keys_guard: "P (sc_Coll sc) \<Longrightarrow> scan_keys J sc (guard_kv P kv) s docs ks = scan_keys J sc kv s docs ks"
  by (induction ks arbitrary: docs) (auto split: option.splits sum.splits)

lemma scan_guard: "P (sc_Coll sc) \<Longrightarrow> execScanKV J sc (guard_kv P kv) s = execScanKV J sc kv s"
  by (simp add: execScanKV_def scan_keys_guard split: sum.splits)

lemma cas_guard:
  assumes "P (cs_Coll c)"
  shows "execCasKV J c (guard_kv P kv) s = execCasKV J c kv s"
proof (cases "kv_mut kv")
  case None
  then have "kv_mut (guard_kv P kv) = None" by (simp add: guard_kv_def)
  with assms None show ?thesis by (auto simp: execCasKV_def current_doc_def split: sum.splits)
next
  case (Some f)
  then have "kv_mut (guard_kv P kv) = Some (\<lambda>coll uid v ops s. if P coll then f coll uid v ops s else (Some GoPanic, s))"
    by (simp add: guard_kv_def)
  with assms Some show ?thesis by (auto simp: execCasKV_def current_doc_def split: sum.splits)
qed

lemma reads_guard:
  "P (g_Coll g) \<Longrightarrow> execGetKV g (guard_kv P kv) s = execGetKV g kv s"
  "P (ct_Coll c) \<Longrightarrow> execCountKV c (guard_kv P kv) s = execCountKV c kv s"
  "P (dl_Coll d) \<Longrightarrow> execDelKV d (guard_kv P kv) s = execDelKV d kv s"
  "P (in_Coll i) \<Longrightarrow> execInsKV i (guard_kv P kv) s = execInsKV i kv s"
  by (auto simp: execGetKV_def execCountKV_def execDelKV_def execInsKV_def current_doc_def split: sum.splits)

lemma gets_guard: "P (gs_Coll g) \<Longrightarrow> gets_loop J g (guard_kv P kv) s docs i ids = gets_loop J g kv s docs i ids"
  by (induction ids arbitrary: docs i) (auto split: sum.splits)

lemma join_guard: "P (join_coll j) \<Longrightarrow> join_loop J j l (guard_kv P kv) s docs n ds = join_loop J j l kv s docs n ds"
  by (induction ds arbitrary: docs n) (auto simp: Let_def split: sum.splits)

lemma nest_cas_guard: "P (cs_Coll c) \<Longrightarrow> nest_cas J c (guard_kv P kv) docs ds s = nest_cas J c kv docs ds s"
  by (induction ds arbitrary: docs s) (simp_all add: cas_guard split: sum.splits prod.splits)

lemma validateScan_inside: "validateScan cap sc = None \<Longrightarrow> inside cap (sc_Coll sc)"
  by (auto simp: validateScan_def checks_None capColl_inside)

lemma flat_guard:
  assumes "validateFlat cap op nested = None" and P: "\<And>c. inside cap c \<Longrightarrow> P c" and "\<And>j. op_Join op = Some j \<Longrightarrow> jn_Right j = None \<Longrightarrow> P []"
  shows "execFlat J op (guard_kv P kv) s = execFlat J op kv s"
proof -
  note v = assms(1)[unfolded validateFlat_def checks_None opt_check_None, simplified]
  have g: "op_Get op = Some x \<Longrightarrow> P (g_Coll x)" for x
    using v by (auto simp: checks_None capColl_inside opt_check_None intro: P)
  have sc: "op_Scan op = Some x \<Longrightarrow> P (sc_Coll x)" for x
    using v by (auto simp: opt_check_None validateScan_inside intro: P)
  have ct: "op_Count op = Some x \<Longrightarrow> P (ct_Coll x)" for x
    using v by (auto simp: checks_None capColl_inside opt_check_None intro: P)
  have cs: "op_Cas op = Some x \<Longrightarrow> P (cs_Coll x)" for x
    using v by (auto simp: checks_None capColl_inside opt_check_None intro: P)
  have dl: "op_Del op = Some x \<Longrightarrow> P (dl_Coll x)" for x
    using v by (auto simp: checks_None capColl_inside opt_check_None intro: P)
  have ins: "op_Ins op = Some x \<Longrightarrow> P (in_Coll x)" for x
    using v by (auto simp: checks_None capColl_inside opt_check_None intro: P)
  have gs: "op_Gets op = Some x \<Longrightarrow> P (gs_Coll x)" for x
    using v by (auto simp: checks_None capColl_inside opt_check_None intro: P)
  have jn: "op_Join op = Some x \<Longrightarrow> P (join_coll x) \<and> (\<forall>l. jn_Left x = Some l \<longrightarrow> P (sc_Coll l))" for x
    using v assms(3)[of x] by (auto simp: checks_None capColl_inside opt_check_None join_coll_def validateScan_inside split: option.splits intro: P)
  have gr: "op_Group op = Some x \<Longrightarrow> gr_Src x = Some l \<Longrightarrow> P (sc_Coll l)" for x l
    using v by (auto simp: checks_None capColl_inside opt_check_None validateScan_inside split: option.splits intro: P)
  have joins: "op_Join op = Some x \<Longrightarrow> execJoinKV J x (guard_kv P kv) s = execJoinKV J x kv s" for x
    using jn[of x] by (auto simp: execJoinKV_def scan_guard join_guard split: option.splits sum.splits)
  have groups: "op_Group op = Some x \<Longrightarrow> execGroupKV J x (guard_kv P kv) s = execGroupKV J x kv s" for x
    using gr[of x] by (simp add: execGroupKV_def scan_guard split: option.splits)
  have getss: "op_Gets op = Some x \<Longrightarrow> execGetsKV J x (guard_kv P kv) s = execGetsKV J x kv s" for x
    using gs[of x] by (simp add: execGetsKV_def gets_guard)
  show ?thesis
    unfolding execFlat_def
    by (simp add: joins groups getss g sc ct cs dl ins reads_guard scan_guard cas_guard split: option.split)
qed
lemma rights_simps: "rights_named op \<Longrightarrow> op_Join op = Some j \<Longrightarrow> jn_Right j \<noteq> None"
  by (cases op) auto

lemma validateOp_flat: "validateOp cap op depth nested = None \<Longrightarrow> validateFlat cap op nested = None"
  by (subst (asm) validateOp.simps) (auto split: if_splits option.splits)

lemma validateOp_nest:
  "validateOp cap op depth nested = None \<Longrightarrow> op_Nest op = Some nst \<Longrightarrow>
    \<exists>src thn. ns_Src nst = Some src \<and> ns_Then nst = Some thn
      \<and> validateOp cap src (depth + 1) True = None \<and> validateOp cap thn (depth + 1) True = None"
  by (subst (asm) validateOp.simps) (auto split: if_splits option.splits)

lemma exec_confined:
  "validateOp cap op depth nested = None \<Longrightarrow> rights_named op \<or> P [] \<Longrightarrow> (\<And>c. inside cap c \<Longrightarrow> P c) \<Longrightarrow> execOp J op (guard_kv P kv) s = execOp J op kv s"
proof (induction J op kv s arbitrary: depth nested rule: execOp.induct)
  case (1 J a b c d e f g h i nst kv s)
  let ?op = "QlOp a b c d e f g h i nst"
  have flat: "execFlat J ?op (guard_kv P kv) s = execFlat J ?op kv s"
    by (rule flat_guard[OF validateOp_flat[OF 1(3)]]) (use rights_simps[of ?op] 1(4,5) in blast)+
  show ?case
  proof (cases "execFlat J ?op kv s")
    case (Some r) then show ?thesis using flat by simp
  next
    case fl: None
    show ?thesis
    proof (cases nst)
      case None then show ?thesis using flat fl by simp
    next
      case nst: (Some q)
      obtain src thn where q: "ns_Src q = Some src" "ns_Then q = Some thn"
        and vs: "validateOp cap src (depth + 1) True = None" and vt: "validateOp cap thn (depth + 1) True = None"
        using validateOp_nest[OF 1(3), of q] nst by auto
      obtain dp where qq: "q = QlNest dp (Some src) (Some thn)" using q by (cases q) auto
      have rs: "rights_named src \<or> P []" "rights_named thn \<or> P []" using 1(4) nst qq by auto
      have src: "execOp J src (guard_kv P kv) s = execOp J src kv s"
        using 1(1)[OF fl nst qq refl vs rs(1) 1(5)] .
      have cas: "op_Cas thn = Some c \<Longrightarrow> P (cs_Coll c)" for c
        using validateOp_flat[OF vt] by (auto simp: validateFlat_def checks_None opt_check_None capColl_inside intro: 1(5))
      show ?thesis
      proof (cases "execOp J src kv s")
        case (Pair r s')
        show ?thesis
        proof (cases r)
          case Inl with Pair src show ?thesis using flat fl unfolding nst qq by simp
        next
          case (Inr res)
          have thn: "op_Group thn = None \<Longrightarrow> op_Cas thn = None \<Longrightarrow> execOp J thn (guard_kv P kv) s' = execOp J thn kv s'"
            using 1(2)[OF fl nst qq refl Pair[symmetric] Inr refl _ _ vt rs(2) 1(5)] by simp
          show ?thesis using Pair Inr src flat fl unfolding nst qq by (simp add: thn cas nest_cas_guard split: option.split)
        qed
      qed
    qed
  qed
qed
lemma lot_loop_confined:
  "\<forall>op \<in> set ops. validateOp cap op 0 False = None \<and> (rights_named op \<or> P []) \<Longrightarrow> (\<And>c. inside cap c \<Longrightarrow> P c) \<Longrightarrow>
    lot_loop J (guard_kv P kv) res ops s = lot_loop J kv res ops s"
proof (induction ops arbitrary: res s)
  case (Cons op ops)
  then have "execOp J op (guard_kv P kv) s = execOp J op kv s" by (intro exec_confined) auto
  moreover have "lot_loop J (guard_kv P kv) res ops s = lot_loop J kv res ops s" for res s using Cons by simp
  ultimately show ?case by (auto split: prod.splits sum.splits)
qed simp

lemma ValidateC2QL_ops:
  "ValidateC2QL J raw = None \<Longrightarrow> js_lot J raw = Some lot \<Longrightarrow> \<forall>op \<in> set (lotOps lot). validateOp (lot_Cap lot) op 0 False = None"
  by (auto simp: ValidateC2QL_def checks_None split: if_splits)

text \<open>The collections a lot may touch: those of its capability, and the one with the empty name if one of its joins,
  at any depth, has no right side, which no check looks at.\<close>

definition reach :: "qlLot \<Rightarrow> bytes \<Rightarrow> bool" where
  "reach lot coll \<longleftrightarrow> inside (lot_Cap lot) coll \<or> coll = [] \<and> \<not> list_all rights_named (lotOps lot)"

text \<open>C34: what a lot that passes validation touches, whatever its nesting: executed over the store cut down to the
  collections with the capability's prefix, where any other access panics, it returns the same result and the same state
  as over the whole store, provided that each of its joins names a right side. A lot with a join that does not may
  also reach the collection with the empty name, which lies outside every capability, but still no other.\<close>

theorem lot_confined:
  assumes "ValidateC2QL J raw = None" and "js_lot J raw = Some lot"
  shows "execLotKV J lot (guard_kv (reach lot) kv) s = execLotKV J lot kv s \<and>
    (list_all rights_named (lotOps lot) \<longrightarrow> execLotKV J lot (guard_kv (inside (lot_Cap lot)) kv) s = execLotKV J lot kv s)"
proof -
  have "\<forall>op \<in> set (lotOps lot). validateOp (lot_Cap lot) op 0 False = None \<and> (rights_named op \<or> reach lot [])"
    using ValidateC2QL_ops[OF assms] by (auto simp: reach_def list_all_iff)
  then have "execLotKV J lot (guard_kv (reach lot) kv) s = execLotKV J lot kv s"
    using lot_loop_confined[where ops = "lotOps lot" and cap = "lot_Cap lot" and P = "reach lot" and kv = kv] by (simp add: execLotKV_def reach_def)
  moreover have "execLotKV J lot (guard_kv (inside (lot_Cap lot)) kv) s = execLotKV J lot kv s" if "list_all rights_named (lotOps lot)"
    using lot_loop_confined[where ops = "lotOps lot" and cap = "lot_Cap lot" and P = "inside (lot_Cap lot)" and kv = kv] ValidateC2QL_ops[OF assms] that
    by (simp add: execLotKV_def list_all_iff)
  ultimately show ?thesis by blast
qed

section \<open>Scans\<close>

lemma unat_of_small: "n \<le> unat (w :: u64) \<Longrightarrow> unat (of_nat n :: u64) = n"
  using unsigned_less [of w, where ?'a = nat] by (simp add: unat_of_nat take_bit_nat_eq_self)

definition hit :: "json_std \<Rightarrow> qlScan \<Rightarrow> 's kvFns \<Rightarrow> 's \<Rightarrow> bytes \<Rightarrow> (UUID \<times> bytes) list" where
  "hit J sc kv s k =
     (case idFromCollKey (sc_Coll sc) k of
       None \<Rightarrow> []
     | Some uid \<Rightarrow> if \<not> matchIDPred uid sc then []
         else case kv_get kv (sc_Coll sc) uid s of Inl _ \<Rightarrow> [] | Inr val \<Rightarrow> if matchFilter J val (sc_Filter sc) then [(uid, val)] else [])"

definition hits :: "json_std \<Rightarrow> qlScan \<Rightarrow> 's kvFns \<Rightarrow> 's \<Rightarrow> bytes list \<Rightarrow> (UUID \<times> bytes) list" where
  "hits J sc kv s keys = concat (map (hit J sc kv s) keys)"

definition scan_doc :: "json_std \<Rightarrow> qlScan \<Rightarrow> UUID \<times> bytes \<Rightarrow> C2QLDoc" where
  "scan_doc J sc h = \<lparr>d_Doc = projectJSON J (snd h) (sc_Proj sc), d_Meta = metaID (fst h) (snd h)\<rparr>"

text \<open>The error of the read that a key asks for, if it asks for one and the read fails.\<close>

definition key_error :: "qlScan \<Rightarrow> 's kvFns \<Rightarrow> 's \<Rightarrow> bytes \<Rightarrow> ql_error option" where
  "key_error sc kv s k =
     (case idFromCollKey (sc_Coll sc) k of
       None \<Rightarrow> None
     | Some uid \<Rightarrow> if \<not> matchIDPred uid sc then None else (case kv_get kv (sc_Coll sc) uid s of Inl e \<Rightarrow> Some e | Inr _ \<Rightarrow> None))"

definition readable :: "qlScan \<Rightarrow> 's kvFns \<Rightarrow> 's \<Rightarrow> bytes list \<Rightarrow> bytes list" where
  "readable sc kv s keys = takeWhile (\<lambda>k. key_error sc kv s k = None) keys"

lemma scan_keys_hits:
  "length docs \<le> unat (sc_Limit sc) \<Longrightarrow>
    scan_keys J sc kv s docs keys =
      (let hs = hits J sc kv s (readable sc kv s keys); n = unat (sc_Limit sc) - length docs
       in if length hs > n then Inr (docs @ map (scan_doc J sc) (take n hs), hex_EncodeToString (fst (hs ! n)))
          else if readable sc kv s keys = keys then Inr (docs @ map (scan_doc J sc) hs, [])
          else Inl (the (key_error sc kv s (keys ! length (readable sc kv s keys)))))"
proof (induction keys arbitrary: docs)
  case Nil
  then show ?case by (simp add: hits_def readable_def)
next
  case (Cons k keys)
  show ?case
  proof (cases "key_error sc kv s k")
    case (Some e)
    then have "readable sc kv s (k # keys) = []" "scan_keys J sc kv s docs (k # keys) = Inl e"
      by (auto simp: readable_def key_error_def split: option.splits sum.splits if_splits)
    with Some show ?thesis by (simp add: hits_def)
  next
    case ok: None
    then have r: "readable sc kv s (k # keys) = k # readable sc kv s keys" by (simp add: readable_def)
    have h: "hits J sc kv s (k # readable sc kv s keys) = hit J sc kv s k @ hits J sc kv s (readable sc kv s keys)" by (simp add: hits_def)
    show ?thesis
    proof (cases "hit J sc kv s k")
      case Nil
      with ok have "scan_keys J sc kv s docs (k # keys) = scan_keys J sc kv s docs keys"
        by (auto simp: hit_def key_error_def split: option.splits sum.splits if_splits)
      with Nil h r Cons.IH[OF Cons.prems] show ?thesis by (simp add: Let_def)
    next
      case (Cons x xs)
      then obtain uid val where x: "idFromCollKey (sc_Coll sc) k = Some uid" "matchIDPred uid sc"
          "kv_get kv (sc_Coll sc) uid s = Inr val" "matchFilter J val (sc_Filter sc)" "hit J sc kv s k = [(uid, val)]"
        by (auto simp: hit_def split: option.splits sum.splits if_splits)
      have le: "of_nat (length docs) \<ge> sc_Limit sc \<longleftrightarrow> length docs = unat (sc_Limit sc)"
        using Cons.prems by (auto simp: word_le_nat_alt unat_of_small)
      show ?thesis
      proof (cases "length docs = unat (sc_Limit sc)")
        case True with x h r le show ?thesis by simp
      next
        case False
        with Cons.prems have lt: "Suc (length docs) \<le> unat (sc_Limit sc)" by simp
        then obtain d where d: "unat (sc_Limit sc) - length docs = Suc d" "unat (sc_Limit sc) - Suc (length docs) = d"
          by (metis Suc_diff_le diff_Suc_Suc)
        have "docs @ [\<lparr>d_Doc = projectJSON J val (sc_Proj sc), d_Meta = metaID uid val\<rparr>] = docs @ [scan_doc J sc (uid, val)]"
          by (simp add: scan_doc_def)
        with Cons.IH[of "docs @ [scan_doc J sc (uid, val)]"] lt d x h r le False
        show ?thesis by (simp add: Let_def)
      qed
    qed
  qed
qed

text \<open>C35: what a scan returns over a store that lists a collection's first \<open>n\<close> keys in order. It looks at the first
  \<open>L + 1\<close> keys, for a limit \<open>L\<close>; if it has a filter, a kind, a collection identifier or a bound, at the first \<open>32 * L + 1\<close>, or
  the first \<open>2 ^ 20\<close> when \<open>L\<close> is above 32768. Among these keys it finds the matching documents, up to the first
  read that fails. If there are more than \<open>L\<close>, it returns the first \<open>L\<close>, in key order and projected, with the
  identifier of the next one as \<^verbatim>\<open>NextFrom\<close>; otherwise it returns them all with an empty \<^verbatim>\<open>NextFrom\<close>, or the error of the
  read that failed. A limit whose result slice exceeds the address space panics.\<close>

theorem scan_first_hits:
  assumes "\<forall>n. kv_scan kv (sc_Coll sc) n s = Inr (take (unat n) keys)"
  shows "execScanKV J sc kv s =
    (let L = unat (sc_Limit sc);
         plain = (sc_Filter sc = [] \<and> sc_Kind sc = None \<and> sc_CollID sc = None \<and> sc_FromID sc = [] \<and> sc_ToID sc = []);
         got = take (if plain then L + 1 else if L > 32768 then 2 ^ 20 else 32 * L + 1) keys;
         hs = hits J sc kv s (readable sc kv s got)
     in if L * 56 > 2 ^ 48 then Inl GoPanic
        else if length hs > L then Inr (docs_result (map (scan_doc J sc) (take L hs)) (hex_EncodeToString (fst (hs ! L))))
        else if readable sc kv s got = got then Inr (docs_result (map (scan_doc J sc) hs) [])
        else Inl (the (key_error sc kv s (got ! length (readable sc kv s got)))))"
proof (cases "unat (sc_Limit sc) * 56 > 2 ^ 48")
  case True then show ?thesis using assms by (simp add: execScanKV_def makeslice_panics_def)
next
  case False
  let ?L = "unat (sc_Limit sc)"
  have L: "unat (of_nat n :: u64) = n" if "n \<le> 32 * ?L + 1" for n
    using that False by (simp add: unat_of_nat take_bit_nat_eq_self)
  have w: "sc_Limit sc + 1 = of_nat (?L + 1)" "sc_Limit sc * 32 + 1 = of_nat (32 * ?L + 1)" by (simp_all add: mult.commute)
  have big: "sc_Limit sc > 32768 \<longleftrightarrow> ?L > 32768" by (simp add: word_less_nat_alt)
  have n: "unat (scanFetchN sc) = (if sc_Filter sc = [] \<and> sc_Kind sc = None \<and> sc_CollID sc = None \<and> sc_FromID sc = [] \<and> sc_ToID sc = []
      then ?L + 1 else if ?L > 32768 then 2 ^ 20 else 32 * ?L + 1)"
    unfolding scanFetchN_def w big by (auto simp: L simp del: of_nat_add of_nat_mult of_nat_Suc)
  show ?thesis
    using False assms scan_keys_hits[of "[]" sc J kv s]
    unfolding n [symmetric] by (simp add: execScanKV_def makeslice_panics_def Let_def n [symmetric])
qed

text \<open>A product that wraps: the quota is checked on \<^verbatim>\<open>Limit*4096\<close> in 64 bits.\<close>

text \<open>The quota check of a scan multiplies in 64 bits: a limit of 2^52 passes it under every quota, and the scan then
  panics on the allocation of its result.\<close>

theorem scan_quota_wraps:
  assumes "sc_Limit sc = 2 ^ 52" and "sc_Proj sc = [f]" and "inside cap (sc_Coll sc)" and "sc_FromID sc = []" and "sc_ToID sc = []"
    and "kv_scan kv (sc_Coll sc) (scanFetchN sc) s = Inr keys"
  shows "validateScan cap sc = None \<and> execScanKV J sc kv s = Inl GoPanic"
proof -
  have u: "unat ((2::u64) ^ 52) = 2 ^ 52" by simp
  have w: "(2::u64) ^ 52 * 4096 = 0" "(2::u64) ^ 52 \<noteq> 0" by simp_all
  have "capColl cap (sc_Coll sc) = None" using assms(3) by (simp add: capColl_inside)
  moreover have "\<not> sc_Limit sc * c2qlMaxDocBytes > cap_QuotaBytes cap"
    unfolding assms(1) c2qlMaxDocBytes_def w(1) by simp
  moreover have "makeslice_panics (sc_Limit sc)" using assms(1) u by (simp add: makeslice_panics_def)
  ultimately show ?thesis
    using assms w(2) by (simp add: validateScan_def checks.simps need_def validateOptionalID_def c2qlMaxProj_def execScanKV_def)
qed

section \<open>Groups\<close>

definition firsts :: "'a list \<Rightarrow> 'a list" where
  "firsts xs = rev (remdups (rev xs))"

lemma firsts_simps [simp]: "firsts [] = []" "firsts (xs @ [x]) = (if x \<in> set xs then firsts xs else firsts xs @ [x])"
  by (auto simp: firsts_def)

lemma set_firsts [simp]: "set (firsts xs) = set xs" "distinct (firsts xs)"
  by (auto simp: firsts_def)

definition group_entry :: "('d \<Rightarrow> bytes) \<Rightarrow> ('d \<Rightarrow> u64) \<Rightarrow> 'd list \<Rightarrow> bytes \<Rightarrow> bytes \<times> u64 \<times> u64" where
  "group_entry key amount ds k =
     (let own = filter (\<lambda>d. key d = k) ds in (k, of_nat (length own), sum_list (map amount own)))"

lemma group_entry_snoc:
  "group_entry key amount (ds @ [d]) k =
    (case group_entry key amount ds k of (k', n, t) \<Rightarrow> if key d = k then (k', n + 1, t + amount d) else (k', n, t))"
  by (auto simp: group_entry_def Let_def)

definition bump :: "bytes \<Rightarrow> u64 \<Rightarrow> bytes \<times> u64 \<times> u64 \<Rightarrow> bytes \<times> u64 \<times> u64" where
  "bump k u e = (if fst e = k then (k, fst (snd e) + 1, snd (snd e) + u) else e)"

lemma bump_id: "k \<notin> fst ` set es \<Longrightarrow> map (bump k u) es = es"
  by (induction es) (auto simp: bump_def)

lemma group_add_bump:
  "distinct (map fst es) \<Longrightarrow>
    group_add limit k u es seen =
      (if k \<in> fst ` set es then map (bump k u) es
       else if of_nat (seen + length es) \<ge> limit then es else es @ [(k, 1, u)])"
proof (induction es arbitrary: seen)
  case (Cons e es)
  obtain k' n t where e: "e = (k', n, t)" by (cases e) auto
  show ?case
  proof (cases "k' = k")
    case True
    then have "k \<notin> fst ` set es" using Cons.prems e by (simp add: image_set del: set_map)
    with True show ?thesis by (simp add: e bump_def[of _ _ "(_, _)"] bump_id)
  next
    case False
    with Cons show ?thesis by (auto simp: e bump_def[of _ _ "(_, _)"])
  qed
qed simp

text \<open>The groups after a list of documents: the first keys up to the limit, each with all its documents.\<close>

lemma foldl_groups:
  fixes limit :: u64
  shows "foldl (\<lambda>gs d. group_add limit (key d) (amount d) gs 0) [] ds
    = map (group_entry key amount ds) (take (unat limit) (firsts (map key ds)))"
proof (induction ds rule: rev_induct)
  case (snoc d ds)
  let ?es = "map (group_entry key amount ds) (take (unat limit) (firsts (map key ds)))"
  have keys: "map fst ?es = take (unat limit) (firsts (map key ds))"
    by (simp add: group_entry_def Let_def comp_def)
  have dist: "distinct (map fst ?es)" unfolding keys by (simp add: distinct_take)
  have ks: "fst ` set ?es = set (take (unat limit) (firsts (map key ds)))"
    using keys by (metis set_map)
  have le: "of_nat (length ?es) \<ge> limit \<longleftrightarrow> length (firsts (map key ds)) \<ge> unat limit"
  proof -
    have "length ?es \<le> unat limit" by simp
    then have "unat (of_nat (length ?es) :: u64) = length ?es"
      by (rule unat_of_small)
    then show ?thesis by (auto simp: word_le_nat_alt)
  qed
  have bump: "map (bump (key d) (amount d)) ?es
      = map (group_entry key amount (ds @ [d])) (take (unat limit) (firsts (map key ds)))"
    by (auto simp: bump_def group_entry_snoc group_entry_def Let_def)
  have old: "?es = map (group_entry key amount (ds @ [d])) (take (unat limit) (firsts (map key ds)))"
    if "key d \<notin> set (take (unat limit) (firsts (map key ds)))"
    using that by (auto simp: group_entry_snoc group_entry_def Let_def)
  have new: "group_entry key amount (ds @ [d]) (key d) = (key d, 1, amount d)" if "key d \<notin> set (map key ds)"
  proof -
    have "filter (\<lambda>d'. key d' = key d) ds = []" using that by (metis (mono_tags, lifting) filter_False image_eqI list.set_map)
    then show ?thesis by (simp add: group_entry_def Let_def)
  qed
  have step: "foldl (\<lambda>gs d. group_add limit (key d) (amount d) gs 0) [] (ds @ [d]) = group_add limit (key d) (amount d) ?es 0"
    by (simp add: snoc.IH)
  show ?case
  proof (cases "key d \<in> set (take (unat limit) (firsts (map key ds)))")
    case True
    then have "key d \<in> set (map key ds)" by (metis in_set_takeD set_firsts(1))
    with True show ?thesis unfolding step group_add_bump[OF dist] ks bump by simp
  next
    case False
    show ?thesis
    proof (cases "length (firsts (map key ds)) \<ge> unat limit")
      case True
      then have t: "take (unat limit) (firsts (map key (ds @ [d]))) = take (unat limit) (firsts (map key ds))" by simp
      show ?thesis unfolding step group_add_bump[OF dist] ks t using False True le old by simp
    next
      case small: False
      then have "key d \<notin> set (map key ds)" using False by (metis nle_le set_firsts(1) take_all)
      moreover then have t: "take (unat limit) (firsts (map key (ds @ [d]))) = take (unat limit) (firsts (map key ds)) @ [key d]"
        using small by simp
      ultimately show ?thesis unfolding step group_add_bump[OF dist] ks t using False small le old new by simp
    qed
  qed
qed simp

text \<open>Grouping counts every document: the result has one row for each of the first \<^verbatim>\<open>Limit\<close> distinct values of the
  group field, in the order they first appear, and a row's count and sum, both modulo 2^64, run over all the documents
  with that value - a value first seen after the limit gets no row, but no row loses a document.\<close>

theorem group_totals:
  "r_Docs (execGroupFromDocs J g docs) =
    (let key = (\<lambda>d. jsonField J (d_Doc d) (if gr_By g = [] then [] else gr_By g ! 0));
         amount = (\<lambda>d. if gr_Sum g = [] then 0 else uint_or_err (jsonField J (d_Doc d) (gr_Sum g)));
         row = (\<lambda>k. let own = filter (\<lambda>d. key d = k) docs in js_group J (of_nat (length own)) (sum_list (map amount own)))
     in map (\<lambda>k. \<lparr>d_Doc = row k, d_Meta = \<lparr>m_Hash = docHash (row k), m_ID = []\<rparr>\<rparr>)
          (take (unat (gr_Limit g)) (firsts (map key docs))))"
proof -
  have by_field: "(if length (gr_By g) > 0 then gr_By g ! 0 else []) = (if gr_By g = [] then [] else gr_By g ! 0)" by simp
  have sum_field: "(if gr_Sum g \<noteq> [] then uint_or_err (jsonField J (d_Doc d) (gr_Sum g)) else 0)
      = (if gr_Sum g = [] then 0 else uint_or_err (jsonField J (d_Doc d) (gr_Sum g)))" for d by simp
  show ?thesis
    unfolding execGroupFromDocs_def Let_def by_field sum_field
    unfolding foldl_groups[where key = "\<lambda>d. jsonField J (d_Doc d) _" and amount = "\<lambda>d. if gr_Sum g = [] then 0 else _ d"]
    by (simp add: docs_result_def group_entry_def Let_def comp_def)
qed
section \<open>Samples\<close>

text \<open>A store of a list of keys, all with the document \<^verbatim>\<open>null\<close>, and a codec that reads one lot.\<close>

definition keys_kv :: "bytes list \<Rightarrow> unit kvFns" where
  "keys_kv keys =
     \<lparr>kv_get = (\<lambda>coll uid s. Inr (bytes_of ''null'')), kv_scan = (\<lambda>coll n s. Inr (take (unat n) keys)),
      kv_put = (\<lambda>coll uid v s. (None, s)), kv_ins = (\<lambda>coll v s. (Inl ErrNotFound, s)), kv_mut = None, kv_del = (\<lambda>coll uid s. (None, s))\<rparr>"

definition null_json :: "qlLot \<Rightarrow> json_std" where
  "null_json lot = \<lparr>js_lot = (\<lambda>_. Some lot), js_object = (\<lambda>_. Some Map.empty), js_null = (\<lambda>_. True), js_string = (\<lambda>_. None),
     js_filter = (\<lambda>_. None), js_marshal = (\<lambda>_. None), js_group = (\<lambda>_ _. [])\<rparr>"

definition sample_cap :: qlCap where
  "sample_cap = \<lparr>cap_Prefix = [97], cap_QuotaBytes = 8192, cap_QuotaOps = 1\<rparr>"

definition kind_scan :: qlScan where
  "kind_scan = \<lparr>sc_Coll = [97], sc_Limit = 1, sc_Proj = [[98]], sc_Filter = [], sc_Kind = Some 1, sc_CollID = None, sc_FromID = [], sc_ToID = []\<rparr>"

definition sample_lot :: qlLot where
  "sample_lot = \<lparr>lot_Cap = sample_cap, lot_AsOf = [],
     lot_Op = QlOp None None None None None None None None None
       (Some (QlNest 1 (Some (QlOp None None (Some kind_scan) None None None None None None None))
         (Some (QlOp None None None None (Some \<lparr>cs_Coll = [97, 98], cs_ID = [], cs_Expect = [], cs_Doc = [49], cs_Ops = []\<rparr>) None None None None None)))),
     lot_Ops = []\<rparr>"

definition kind0 :: UUID where "kind0 = replicate 16 0"

definition kind1 :: UUID where "kind1 = [0, 0, 0, 0, 0, 0, 0, 0, 4] @ replicate 7 0"

lemma kinds: "KindOf kind0 = 0" "KindOf kind1 = 1"
  by code_simp+
lemma sample_valid:
  "ValidateC2QL (null_json sample_lot) raw = None" "list_all rights_named (lotOps sample_lot)" "js_lot (null_json sample_lot) raw = Some sample_lot"
proof -
  have "checks ([validateOptionalID (lot_AsOf sample_lot), need (length (lotOps sample_lot) \<noteq> 0) ErrQLOp,
      need (\<not> of_nat (length (lotOps sample_lot)) > cap_QuotaOps (lot_Cap sample_lot)) ErrQLQuota]
      @ map (\<lambda>op. validateOp (lot_Cap sample_lot) op 0 False) (lotOps sample_lot)) = None"
    by code_simp
  then show "ValidateC2QL (null_json sample_lot) raw = None"
    by (simp add: ValidateC2QL_def null_json_def) (simp add: sample_lot_def sample_cap_def)
  show "list_all rights_named (lotOps sample_lot)" by code_simp
qed (simp add: null_json_def)

text \<open>Thirty-three keys of kind 0 and one of kind 1, which the scan for kind 1 with limit 1 asks for: it fetches the first
  thirty-three and returns nothing, and no key to go on from.\<close>

definition kind_keys :: "bytes list" where
  "kind_keys = replicate 33 (collectionKey [97] kind0) @ [collectionKey [97] kind1]"

lemma kind_ids: "idFromCollKey [97] (collectionKey [97] kind0) = Some kind0" "idFromCollKey [97] (collectionKey [97] kind1) = Some kind1"
  by code_simp+

lemma kind_hits:
  "hit J kind_scan (keys_kv kind_keys) () (collectionKey [97] kind0) = []"
  "hit J kind_scan (keys_kv kind_keys) () (collectionKey [97] kind1) = [(kind1, bytes_of ''null'')]"
  by (simp_all add: hit_def kind_scan_def kind_ids matchIDPred_def kinds id_in_range_def keys_kv_def matchFilter_def)

lemma kind_readable: "readable kind_scan (keys_kv kind_keys) () ks = ks"
  by (auto simp: readable_def key_error_def keys_kv_def takeWhile_eq_all_conv split: option.splits)

theorem lot_confined_witness:
  "execLotKV (null_json sample_lot) sample_lot (guard_kv (inside sample_cap) (keys_kv kind_keys)) () =
     execLotKV (null_json sample_lot) sample_lot (keys_kv kind_keys) ()"
proof -
  have "lot_Cap sample_lot = sample_cap" by (simp add: sample_lot_def)
  then show ?thesis using lot_confined[OF sample_valid(1,3), of "keys_kv kind_keys" "()"] sample_valid(2) by simp
qed

theorem scan_first_hits_witness:
  "execScanKV (null_json sample_lot) kind_scan (keys_kv kind_keys) () = Inr (docs_result [] [])
    \<and> hits (null_json sample_lot) kind_scan (keys_kv kind_keys) () kind_keys = [(kind1, bytes_of ''null'')]"
proof -
  have k: "sc_Kind kind_scan \<noteq> None" "unat (sc_Limit kind_scan) = 1" by (simp_all add: kind_scan_def)
  have t: "take 33 kind_keys = replicate 33 (collectionKey [97] kind0)" by (simp add: kind_keys_def)
  have h: "hits (null_json sample_lot) kind_scan (keys_kv kind_keys) () (take 33 kind_keys) = []"
    unfolding t by (simp add: hits_def kind_hits)
  have "hits (null_json sample_lot) kind_scan (keys_kv kind_keys) () kind_keys = [(kind1, bytes_of ''null'')]"
    unfolding hits_def by (subst (2) kind_keys_def) (simp add: kind_hits)
  moreover have "\<forall>n. kv_scan (keys_kv kind_keys) (sc_Coll kind_scan) n () = Inr (take (unat n) kind_keys)"
    by (simp add: keys_kv_def)
  ultimately show ?thesis
    using scan_first_hits[of "keys_kv kind_keys" kind_scan "()" kind_keys "null_json sample_lot"] k h by (simp add: kind_readable Let_def)
qed

theorem scan_quota_wraps_witness:
  "validateScan sample_cap (kind_scan\<lparr>sc_Limit := 2 ^ 52\<rparr>) = None
    \<and> execScanKV (null_json sample_lot) (kind_scan\<lparr>sc_Limit := 2 ^ 52\<rparr>) (keys_kv []) () = Inl GoPanic"
proof (rule scan_quota_wraps)
  show "inside sample_cap (sc_Coll (kind_scan\<lparr>sc_Limit := 2 ^ 52\<rparr>))" by (simp add: inside_def sample_cap_def kind_scan_def HasPrefix_def)
  show "kv_scan (keys_kv []) (sc_Coll (kind_scan\<lparr>sc_Limit := 2 ^ 52\<rparr>)) (scanFetchN (kind_scan\<lparr>sc_Limit := 2 ^ 52\<rparr>)) () = Inr []"
    by (simp add: keys_kv_def)
qed (simp_all add: kind_scan_def)

end
