(* ===== verification/Btree_Split.thy ===== *)
theory Btree_Split
  imports Btree_Walk
begin

text \<open>
  Splits of leaves and internal pages, the growth of the root, and the insertion of a key in a tree
  (\<^verbatim>\<open>src/pkg/c2db/db_btree_gen.go\<close>). A function that fails has changed some of the heap: it returns
  False beside the bytes it leaves. \<open>heap[v:]\<close> in the source is a slice of the heap from \<open>v\<close> on: it is read as
  \<open>drop v heap\<close> and written through \<open>on_slice\<close>. A copy within the heap reads the bytes the heap had before
  the copy; source and destination lie in different pages. The slice a key is compared with may reach
  behind its page; it is in the heap whenever the cell is.

  Leaves of keys and of versioned keys are split by two functions that differ in the 16 bytes of the
  identifier; \<open>idlen\<close> is 0 or 16 in the loops they share.
\<close>

definition on_slice :: "bytes \<Rightarrow> nat \<Rightarrow> (bytes \<Rightarrow> bytes) \<Rightarrow> bytes" where
  "on_slice heap base f = take base heap @ f (drop base heap)"

section \<open>Rewriting a page without gaps\<close>

definition repack_put :: "bytes \<Rightarrow> bytes \<Rightarrow> nat \<Rightarrow> nat \<Rightarrow> nat \<Rightarrow> nat \<Rightarrow> nat \<Rightarrow> nat \<Rightarrow> bytes" where
  "repack_put page v3 n v5 v61 v81 v92 v113 =
     (let p = bt_copy_bytes page n v113 v3 0x4000 v61 v81;
          p = bt_write16 p n (64 + v5 * 2) (of_nat v113);
          p = bt_write16 p n 22 (of_nat (v5 + 1));
          p = bt_write16 p n 24 (of_nat (v92 + 2))
      in bt_write16 p n 26 (of_nat v113))"

fun repack_loop :: "bytes \<Rightarrow> nat \<Rightarrow> nat \<Rightarrow> bytes \<Rightarrow> nat \<Rightarrow> nat \<Rightarrow> bool \<times> bytes" where
  "repack_loop v3 n idlen page v5 0 = (True, page)"
| "repack_loop v3 n idlen page v5 (Suc k) =
     (let v61 = unat (bt_read16 v3 0x4000 (64 + v5 * 2))
      in if \<not> bt_bounds v3 0x4000 v61 4 then (False, put_at page 0 v3)
         else let v81 = 4 + unat (bt_read16 v3 0x4000 v61) + idlen + unat (bt_read16 v3 0x4000 (v61 + 2))
      in if \<not> bt_bounds v3 0x4000 v61 v81 then (False, put_at page 0 v3)
         else let v92 = unat (bt_read16 page n 24); v96 = unat (bt_read16 page n 26)
      in if v92 \<ge> 0x4000 then (False, put_at page 0 v3)
         else if 2 > 0x4000 - v92 then (False, put_at page 0 v3)
         else if v81 > v96 then (False, put_at page 0 v3)
         else let v113 = v96 - v81
      in if v92 + 2 > v113 then (False, put_at page 0 v3)
         else repack_loop v3 n idlen (repack_put page v3 n v5 v61 v81 v92 v113) (Suc v5) k)"

definition bt_leaf_repack :: "bytes \<Rightarrow> nat \<Rightarrow> nat \<Rightarrow> bool \<times> bytes" where
  "bt_leaf_repack page n idlen =
     (let idlen = min idlen (length page)
      in if page = [] \<or> n \<noteq> 0x4000 then (False, page)
         else let v3 = take 0x4000 page
      in case Db_bt_leaf_init page 0x4000 of (st, p) \<Rightarrow>
         if \<not> bs_Ok st then (False, put_at p 0 v3)
         else let p = bt_write8 p n 20 (bt_read8 v3 0x4000 20);
                  p = bt_write64 p n 8 (bt_read64 v3 0x4000 8)
           in repack_loop v3 n idlen p 0 (unat (bt_read16 v3 0x4000 22)))"

section \<open>Splitting a leaf\<close>

text \<open>Slots, key lengths and sizes with their slot, as the loops read them.\<close>

definition slot_of :: "bytes \<Rightarrow> nat \<Rightarrow> nat" where
  "slot_of page i = unat (bt_read16 page 0x4000 (64 + i * 2))"

definition slot_size :: "nat \<Rightarrow> bytes \<Rightarrow> nat \<Rightarrow> nat" where
  "slot_size idlen page off = 4 + unat (bt_read16 page 0x4000 off) + idlen + unat (bt_read16 page 0x4000 (off + 2)) + 2"

fun sum_loop :: "nat \<Rightarrow> bytes \<Rightarrow> nat \<Rightarrow> nat \<Rightarrow> nat \<Rightarrow> nat option" where
  "sum_loop idlen page v49 v8 0 = Some v49"
| "sum_loop idlen page v49 v8 (Suc k) =
     (let v10 = slot_of page v8
      in if v10 \<ge> 0x4000 \<or> v10 < 64 then None
         else sum_loop idlen page (v49 + slot_size idlen page v10) (Suc v8) k)"

function shrink_loop :: "nat \<Rightarrow> bytes \<Rightarrow> nat \<Rightarrow> nat \<Rightarrow> nat \<Rightarrow> nat \<times> nat" where
  "shrink_loop idlen page v43 v7 v49 =
     (if v7 < v43 - 1 \<and> v49 + 0x9c4 > 0x3fc0
      then shrink_loop idlen page v43 (Suc v7) (v49 - slot_size idlen page (slot_of page v7))
      else (v7, v49))"
  by pat_completeness auto
termination
  by (relation "measure (\<lambda>(idlen, page, v43, v7, v49). v43 - v7)") auto

declare shrink_loop.simps [simp del]

text \<open>Are the keys of the slots before and at \<open>v7\<close> equal?\<close>

definition same_key :: "bytes \<Rightarrow> nat \<Rightarrow> bool" where
  "same_key page v7 =
     (let v138 = slot_of page (v7 - 1); v143 = slot_of page v7;
          v148 = unat (bt_read16 page 0x4000 v138); v153 = unat (bt_read16 page 0x4000 v143)
      in v148 = v153 \<and> bt_keycmp_at page 0x4000 (v138 + 4) v148 (take v153 (drop (v143 + 4) page)) = 0)"

fun forward_loop :: "bytes \<Rightarrow> nat \<Rightarrow> nat \<Rightarrow> nat" where
  "forward_loop page v7 0 = v7"
| "forward_loop page v7 (Suc k) = (if same_key page v7 then forward_loop page (Suc v7) k else v7)"

fun backward_loop :: "bytes \<Rightarrow> nat \<Rightarrow> nat \<Rightarrow> nat option" where
  "backward_loop page v49 0 = Some 0"
| "backward_loop page v49 (Suc v6) =
     (if Suc v6 \<le> 1 then Some (Suc v6)
      else let v203 = slot_size 16 page (slot_of page v6)
      in if v49 + v203 + 0x9c4 > 0x3fc0 then None
         else if \<not> same_key page (Suc v6) then Some (Suc v6)
         else backward_loop page (v49 + v203) v6)"

text \<open>Copy the cells of the slots from \<open>v8\<close> on to the page at \<open>v30\<close>.\<close>

definition move_put :: "bytes \<Rightarrow> nat \<Rightarrow> nat \<Rightarrow> nat \<Rightarrow> nat \<Rightarrow> nat \<Rightarrow> nat \<Rightarrow> nat \<Rightarrow> bytes" where
  "move_put heap v26 v30 v10 v143 v14 v158 v171 =
     on_slice heap v30 (\<lambda>p.
       let p = bt_copy_bytes p 0x4000 v171 (drop v26 heap) 0x4000 v10 v143;
           p = bt_write16 p 0x4000 (64 + v14 * 2) (of_nat v171);
           p = bt_write16 p 0x4000 22 (of_nat (v14 + 1));
           p = bt_write16 p 0x4000 24 (of_nat (v158 + 2))
       in bt_write16 p 0x4000 26 (of_nat v171))"

fun move_loop :: "nat \<Rightarrow> bytes \<Rightarrow> nat \<Rightarrow> nat \<Rightarrow> nat \<Rightarrow> nat \<Rightarrow> bool \<times> bytes" where
  "move_loop idlen heap v26 v30 v8 0 = (True, heap)"
| "move_loop idlen heap v26 v30 v8 (Suc k) =
     (let src = drop v26 heap; dst = drop v30 heap; v10 = slot_of src v8
      in if \<not> bt_bounds src 0x4000 v10 4 then (False, heap)
         else let v11 = unat (bt_read16 src 0x4000 v10); v12 = unat (bt_read16 src 0x4000 (v10 + 2)); v143 = 4 + v11 + idlen + v12
      in if \<not> bt_bounds src 0x4000 v10 v143 then (False, heap)
         else let v14 = unat (bt_read16 dst 0x4000 22); v158 = unat (bt_read16 dst 0x4000 24); v163 = unat (bt_read16 dst 0x4000 26)
      in if v158 \<ge> 0x4000 then (False, heap)
         else if 2 > 0x4000 - v158 then (False, heap)
         else if v143 > v163 then (False, heap)
         else let v171 = v163 - v143
      in if v158 + 2 > v171 then (False, heap)
         else if \<not> bt_bounds dst 0x4000 v171 v143 then (False, heap)
         else if \<not> bt_bounds dst 0x4000 (64 + v14 * 2) 2
         then (False, on_slice heap v30 (\<lambda>p. bt_copy_bytes p 0x4000 v171 src 0x4000 v10 v143))
         else move_loop idlen (move_put heap v26 v30 v10 v143 v14 v158 v171) v26 v30 (Suc v8) k)"

fun min_off :: "bytes \<Rightarrow> nat \<Rightarrow> nat \<Rightarrow> nat \<Rightarrow> nat" where
  "min_off page v19 v8 0 = v19"
| "min_off page v19 v8 (Suc k) = (let v10 = slot_of page v8 in min_off page (if v10 < v19 then v10 else v19) (Suc v8) k)"

text \<open>What both functions do once the first slot \<open>v7\<close> of the right page is known: move, cut, link, rewrite.\<close>

definition split_at :: "nat \<Rightarrow> bytes \<Rightarrow> nat \<Rightarrow> nat \<Rightarrow> nat \<Rightarrow> nat \<Rightarrow> nat \<Rightarrow> bool \<times> bytes" where
  "split_at idlen heap v26 v30 dst v7 v43 =
     (case move_loop idlen heap v26 v30 v7 (v43 - v7) of
       (False, heap) \<Rightarrow> (False, heap)
     | (True, heap) \<Rightarrow>
         let heap = on_slice heap v26 (\<lambda>p. bt_write16 (bt_write16 p 0x4000 22 (of_nat v7)) 0x4000 24 (of_nat (64 + v7 * 2)));
             v19 = min_off (drop v26 heap) 0x4000 0 v7;
             heap = on_slice heap v26 (\<lambda>p. bt_write16 p 0x4000 26 (of_nat v19));
             link = bt_read64 (drop v26 heap) 0x4000 8;
             heap = on_slice heap v30 (\<lambda>p. bt_write64 p 0x4000 8 link);
             heap = on_slice heap v26 (\<lambda>p. bt_write64 p 0x4000 8 (of_nat dst))
         in case bt_leaf_repack (drop v26 heap) 0x4000 idlen of (ok, p) \<Rightarrow> (ok, take v26 heap @ p))"

definition bt_chain_split :: "bytes \<Rightarrow> nat \<Rightarrow> nat \<Rightarrow> nat \<Rightarrow> bool \<times> bytes" where
  "bt_chain_split heap npages src dst =
     (if src \<ge> npages \<or> dst \<ge> npages \<or> src = dst then (False, heap)
      else let v26 = src * 0x4000; v30 = dst * 0x4000
      in case Db_bt_leaf_init (drop v30 heap) 0x4000 of (st, p) \<Rightarrow>
         let heap = take v30 heap @ p
      in if \<not> bs_Ok st then (False, heap)
         else let page = drop v26 heap; v43 = unat (bt_read16 page 0x4000 22); v7 = v43 div 2
      in if v7 = 0 \<or> v7 \<ge> v43 then (False, heap)
         else case sum_loop 0 page 0 v7 (v43 - v7) of
           None \<Rightarrow> (False, heap)
         | Some v49 \<Rightarrow> split_at 0 heap v26 v30 dst (fst (shrink_loop 0 page v43 v7 v49)) v43)"

text \<open>The versions of a key stay on one page: the first slot of the right page moves forward to the next key, or back.\<close>

definition ver_split_point :: "bytes \<Rightarrow> nat \<Rightarrow> nat \<Rightarrow> nat option" where
  "ver_split_point page v43 v49 =
     (case shrink_loop 16 page v43 (v43 div 2) v49 of (v121, v49) \<Rightarrow>
       let v7 = forward_loop page v121 (v43 - v121)
       in case (if v7 \<ge> v43 then backward_loop page v49 v121 else Some v7) of
         None \<Rightarrow> None
       | Some v7 \<Rightarrow> if v7 \<le> 1 \<or> v7 \<ge> v43 then None else Some v7)"

definition bt_chain_split_ver :: "bytes \<Rightarrow> nat \<Rightarrow> nat \<Rightarrow> nat \<Rightarrow> bool \<times> bytes" where
  "bt_chain_split_ver heap npages src dst =
     (if src \<ge> npages \<or> dst \<ge> npages \<or> src = dst then (False, heap)
      else let v26 = src * 0x4000; v30 = dst * 0x4000
      in case Db_bt_leaf_init (drop v30 heap) 0x4000 of (st, p) \<Rightarrow>
         let heap = take v30 heap @ p
      in if \<not> bs_Ok st then (False, heap)
         else let page = drop v26 heap; v43 = unat (bt_read16 page 0x4000 22); v7 = v43 div 2
      in if v7 = 0 \<or> v7 \<ge> v43 then (False, heap)
         else case sum_loop 16 page 0 v7 (v43 - v7) of
           None \<Rightarrow> (False, heap)
         | Some v49 \<Rightarrow>
             (case ver_split_point page v43 v49 of
               None \<Rightarrow> (False, heap)
             | Some v7 \<Rightarrow> split_at 16 heap v26 v30 dst v7 v43))"

section \<open>Internal pages\<close>

text \<open>An empty internal page at \<open>base\<close> with leftmost child \<open>left\<close>.\<close>

definition init_internal :: "bytes \<Rightarrow> nat \<Rightarrow> nat \<Rightarrow> u64 \<Rightarrow> bytes" where
  "init_internal heap nbytes base left =
     (let h = bt_write8 heap nbytes (base + 20) 2;
          h = bt_write16 h nbytes (base + 22) 0;
          h = bt_write16 h nbytes (base + 24) 64;
          h = bt_write16 h nbytes (base + 26) 0x4000
      in bt_write64 h nbytes (base + 8) left)"

text \<open>The cell \<open>klen 0 key child\<close> at \<open>addr\<close>; \<open>copy\<close> writes the key at an address.\<close>

definition put_sep :: "bytes \<Rightarrow> nat \<Rightarrow> nat \<Rightarrow> nat \<Rightarrow> (bytes \<Rightarrow> nat \<Rightarrow> bytes) \<Rightarrow> nat \<Rightarrow> bytes" where
  "put_sep heap nbytes addr cklen copy child =
     (let h = bt_write16 heap nbytes addr (of_nat cklen);
          h = bt_write16 h nbytes (addr + 2) 0;
          h = copy h (addr + 4)
      in bt_write64 h nbytes (addr + 4 + cklen) (of_nat child))"

definition copy_within :: "nat \<Rightarrow> nat \<Rightarrow> nat \<Rightarrow> bytes \<Rightarrow> nat \<Rightarrow> bytes" where
  "copy_within nbytes koff cklen heap addr = bt_copy_bytes heap nbytes addr heap nbytes koff cklen"

definition copy_key :: "nat \<Rightarrow> bytes \<Rightarrow> bytes \<Rightarrow> nat \<Rightarrow> bytes" where
  "copy_key nbytes key heap addr = bt_copy_in heap nbytes addr key"

definition page_out :: "nat \<Rightarrow> nat \<Rightarrow> bool" where
  "page_out nbytes base \<longleftrightarrow> base \<ge> nbytes \<or> 0x4000 > nbytes - base"

text \<open>The header fields of an internal page with a single separator.\<close>

definition one_sep :: "bytes \<Rightarrow> nat \<Rightarrow> nat \<Rightarrow> nat \<Rightarrow> nat \<Rightarrow> bytes" where
  "one_sep heap nbytes base off free =
     (let h = bt_write16 heap nbytes (base + 64) (of_nat off);
          h = bt_write16 h nbytes (base + 22) 1;
          h = bt_write16 h nbytes (base + 24) (of_nat free)
      in bt_write16 h nbytes (base + 26) (of_nat off))"

definition bt_make_internal :: "bytes \<Rightarrow> nat \<Rightarrow> nat \<Rightarrow> nat \<Rightarrow> nat \<Rightarrow> nat \<Rightarrow> bool \<times> bytes" where
  "bt_make_internal heap nbytes npages left right intern =
     (if intern \<ge> npages \<or> left \<ge> npages \<or> right \<ge> npages \<or> intern = left \<or> intern = right then (False, heap)
      else let v23 = intern * 0x4000
      in if page_out nbytes v23 then (False, heap)
         else let heap = init_internal heap nbytes v23 (of_nat left); v48 = right * 0x4000
      in if page_out nbytes v48 then (False, heap)
         else if \<not> bt_off_ok nbytes v48 64 2 then (False, heap)
         else let v60 = unat (bt_read16 heap nbytes (v48 + 64))
      in if \<not> bt_off_ok nbytes v48 v60 4 then (False, heap)
         else let v67 = unat (bt_read16 heap nbytes (v48 + v60))
      in if \<not> bt_off_ok nbytes v48 v60 (4 + v67) then (False, heap)
         else let v76 = 4 + v67 + 8
      in if v76 > 0x4000 then (False, heap)
         else let v86 = 0x4000 - v76
      in if 66 > v86 \<or> \<not> bt_off_ok nbytes v23 v86 v76 then (False, heap)
         else let heap = put_sep heap nbytes (v23 + v86) v67 (copy_within nbytes (v48 + v60 + 4) v67) right
      in if \<not> bt_off_ok nbytes v23 64 2 then (False, heap)
         else (True, one_sep heap nbytes v23 v86 66))"

text \<open>The slot of the separator whose child is \<open>ch\<close>: Inl when a slot or cell is out of bounds.\<close>

fun find_sep :: "bytes \<Rightarrow> nat \<Rightarrow> nat \<Rightarrow> nat \<Rightarrow> nat \<Rightarrow> nat \<Rightarrow> unit + nat option" where
  "find_sep heap nbytes base ch v16 0 = Inr None"
| "find_sep heap nbytes base ch v16 (Suc k) =
     (let v92 = 64 + v16 * 2
      in if \<not> bt_off_ok nbytes base v92 2 then Inl ()
         else let v99 = unat (bt_read16 heap nbytes (base + v92))
      in if \<not> bt_off_ok nbytes base v99 4 then Inl ()
         else let v105 = unat (bt_read16 heap nbytes (base + v99))
      in if \<not> bt_off_ok nbytes base v99 (4 + v105 + 8) then Inl ()
         else if unat (bt_read64 heap nbytes (base + v99 + 4 + v105)) = ch then Inr (Some v16)
         else find_sep heap nbytes base ch (Suc v16) k)"

text \<open>The insertion of a separator behind the child \<open>left\<close>, shared by the two functions that take the key from the heap
  and from a buffer.\<close>

definition internal_insert :: "bytes \<Rightarrow> nat \<Rightarrow> nat \<Rightarrow> nat \<Rightarrow> nat \<Rightarrow> nat \<Rightarrow> (bytes \<Rightarrow> nat \<Rightarrow> bytes) \<Rightarrow> bool \<times> bytes" where
  "internal_insert heap nbytes intern left right cklen copy =
     (let v34 = intern * 0x4000
      in if page_out nbytes v34 then (False, heap)
         else if bt_read8 heap nbytes (v34 + 20) \<noteq> 2 then (False, heap)
         else let v14 = unat (bt_read16 heap nbytes (v34 + 22)); v51 = unat (bt_read16 heap nbytes (v34 + 24)); v55 = unat (bt_read16 heap nbytes (v34 + 26))
      in if v51 < 64 \<or> v55 > 0x4000 \<or> v51 > v55 then (False, heap)
         else let v64 = 4 + cklen + 8
      in if v51 \<ge> 0x4000 \<or> 2 > 0x4000 - v51 then (False, heap)
         else let v72 = v51 + 2
      in if v64 > v55 then (False, heap)
         else let v74 = v55 - v64
      in if v72 > v74 \<or> \<not> bt_off_ok nbytes v34 v74 v64 then (False, heap)
         else case (if unat (bt_read64 heap nbytes (v34 + 8)) = left then Inr (Some 0)
                    else case find_sep heap nbytes v34 left 0 v14 of Inl u \<Rightarrow> Inl u | Inr None \<Rightarrow> Inr None | Inr (Some i) \<Rightarrow> Inr (Some (i + 1))) of
           Inr (Some v15) \<Rightarrow>
             let h = put_sep heap nbytes (v34 + v74) cklen copy right;
                 h = on_slice h v34 (\<lambda>p. bt_slot_insert p 0x4000 v15 v14 (of_nat v74));
                 h = bt_write16 h nbytes (v34 + 22) (of_nat (v14 + 1));
                 h = bt_write16 h nbytes (v34 + 24) (of_nat v72)
             in (True, bt_write16 h nbytes (v34 + 26) (of_nat v74))
         | _ \<Rightarrow> (False, heap))"

definition bt_internal_insert_kv :: "bytes \<Rightarrow> nat \<Rightarrow> nat \<Rightarrow> nat \<Rightarrow> nat \<Rightarrow> nat \<Rightarrow> nat \<Rightarrow> nat \<Rightarrow> bool \<times> bytes" where
  "bt_internal_insert_kv heap nbytes npages intern left right koff cklen =
     (if intern \<ge> npages \<or> right \<ge> npages \<or> left \<ge> npages \<or> intern = right then (False, heap)
      else if cklen = 0 \<or> cklen > 0xffff then (False, heap)
      else if koff \<ge> nbytes \<or> cklen > nbytes - koff then (False, heap)
      else internal_insert heap nbytes intern left right cklen (copy_within nbytes koff cklen))"

definition bt_internal_insert_buf :: "bytes \<Rightarrow> nat \<Rightarrow> nat \<Rightarrow> nat \<Rightarrow> nat \<Rightarrow> nat \<Rightarrow> bytes \<Rightarrow> nat \<Rightarrow> bool \<times> bytes" where
  "bt_internal_insert_buf heap nbytes npages intern left right key cklen =
     (if intern \<ge> npages \<or> right \<ge> npages \<or> left \<ge> npages \<or> intern = right then (False, heap)
      else if key = [] then (False, heap)
      else if cklen = 0 \<or> cklen > 0xffff \<or> cklen > 0x4000 then (False, heap)
      else internal_insert heap nbytes intern left right cklen (copy_key nbytes (take cklen key)))"

definition bt_internal_add_sep :: "bytes \<Rightarrow> nat \<Rightarrow> nat \<Rightarrow> nat \<Rightarrow> nat \<Rightarrow> nat \<Rightarrow> bool \<times> bytes" where
  "bt_internal_add_sep heap nbytes npages intern left right =
     (if right \<ge> npages then (False, heap)
      else let v12 = right * 0x4000
      in if page_out nbytes v12 then (False, heap)
         else if \<not> bt_off_ok nbytes v12 64 2 then (False, heap)
         else let v24 = unat (bt_read16 heap nbytes (v12 + 64))
      in if \<not> bt_off_ok nbytes v12 v24 4 then (False, heap)
         else let v31 = unat (bt_read16 heap nbytes (v12 + v24))
      in if \<not> bt_off_ok nbytes v12 v24 (4 + v31) then (False, heap)
         else bt_internal_insert_kv heap nbytes npages intern left right (v12 + v24 + 4) v31)"

definition bt_internal_has_child :: "bytes \<Rightarrow> nat \<Rightarrow> nat \<Rightarrow> nat \<Rightarrow> nat \<Rightarrow> bool" where
  "bt_internal_has_child heap nbytes intern ch npages =
     (if intern \<ge> npages \<or> ch \<ge> npages then False
      else let v17 = intern * 0x4000
      in if bt_read8 heap nbytes (v17 + 20) \<noteq> 2 then False
         else if unat (bt_read64 heap nbytes (v17 + 8)) = ch then True
         else (case find_sep heap nbytes v17 ch 0 (unat (bt_read16 heap nbytes (v17 + 22))) of Inr (Some _) \<Rightarrow> True | _ \<Rightarrow> False))"

text \<open>Copy the separators from slot \<open>v13\<close> on to the internal page at \<open>v87\<close>.\<close>

fun sep_loop :: "bytes \<Rightarrow> nat \<Rightarrow> nat \<Rightarrow> nat \<Rightarrow> nat \<Rightarrow> nat \<Rightarrow> bool \<times> bytes" where
  "sep_loop heap nbytes v39 v87 v13 0 = (True, heap)"
| "sep_loop heap nbytes v39 v87 v13 (Suc k) =
     (let v14 = 64 + v13 * 2
      in if \<not> bt_off_ok nbytes v39 v14 2 then (False, heap)
         else let v15 = unat (bt_read16 heap nbytes (v39 + v14))
      in if \<not> bt_off_ok nbytes v39 v15 4 then (False, heap)
         else let v17 = 4 + unat (bt_read16 heap nbytes (v39 + v15)) + 8
      in if \<not> bt_off_ok nbytes v39 v15 v17 then (False, heap)
         else let v137 = unat (bt_read16 heap nbytes (v87 + 22)); v19 = unat (bt_read16 heap nbytes (v87 + 24)); v20 = unat (bt_read16 heap nbytes (v87 + 26))
      in if (if v19 \<le> 0x4000 then 2 > 0x4000 - v19 else False) then (False, heap)
         else if v17 > v20 then (False, heap)
         else let v21 = v20 - v17
      in if v19 + 2 > v21 then (False, heap)
         else let h = bt_copy_bytes heap nbytes (v87 + v21) heap nbytes (v39 + v15) v17;
                  h = bt_write16 h nbytes (v87 + (64 + v137 * 2)) (of_nat v21);
                  h = bt_write16 h nbytes (v87 + 22) (of_nat (v137 + 1));
                  h = bt_write16 h nbytes (v87 + 24) (of_nat (v19 + 2));
                  h = bt_write16 h nbytes (v87 + 26) (of_nat v21)
           in sep_loop h nbytes v39 v87 (Suc v13) k)"

text \<open>The page that holds \<open>left\<close> after a split gets the separator; \<open>add\<close> inserts it.\<close>

definition attach :: "bytes \<Rightarrow> nat \<Rightarrow> nat \<Rightarrow> nat \<Rightarrow> nat \<Rightarrow> nat \<Rightarrow> (bytes \<Rightarrow> nat \<Rightarrow> bool \<times> bytes) \<Rightarrow> bool \<times> bytes" where
  "attach heap nbytes npages src dst left add =
     (if bt_internal_has_child heap nbytes dst left npages then add heap dst
      else if \<not> bt_internal_has_child heap nbytes src left npages then (False, heap)
      else add heap src)"

definition bt_elevate_root :: "bytes \<Rightarrow> nat \<Rightarrow> nat \<Rightarrow> nat \<Rightarrow> nat \<Rightarrow> nat \<Rightarrow> nat \<Rightarrow> nat \<Rightarrow> bool \<times> bytes" where
  "bt_elevate_root heap nbytes npages src dst nroot left right =
     (if src \<ge> npages \<or> dst \<ge> npages \<or> nroot \<ge> npages then (False, heap)
      else if src = dst \<or> src = nroot \<or> dst = nroot then (False, heap)
      else let v39 = src * 0x4000
      in if bt_read8 heap nbytes (v39 + 20) \<noteq> 2 then (False, heap)
         else let v48 = unat (bt_read16 heap nbytes (v39 + 22)); v50 = v48 div 2
      in if v50 = 0 \<or> v50 + 1 \<ge> v48 then (False, heap)
         else let v14 = 64 + v50 * 2
      in if \<not> bt_off_ok nbytes v39 v14 2 then (False, heap)
         else let v15 = unat (bt_read16 heap nbytes (v39 + v14))
      in if \<not> bt_off_ok nbytes v39 v15 4 then (False, heap)
         else let v73 = unat (bt_read16 heap nbytes (v39 + v15))
      in if \<not> bt_off_ok nbytes v39 v15 (4 + v73 + 8) then (False, heap)
         else let v87 = dst * 0x4000;
                  child = bt_read64 heap nbytes (v39 + v15 + 4 + v73)
      in case sep_loop (init_internal heap nbytes v87 child) nbytes v39 v87 (v50 + 1) (v48 - (v50 + 1)) of
        (False, heap) \<Rightarrow> (False, heap)
      | (True, heap) \<Rightarrow>
          let v184 = nroot * 0x4000; heap = init_internal heap nbytes v184 (of_nat src); v17 = 4 + v73 + 8
          in if 66 > 0x4000 - v17 then (False, heap)
             else let v21 = 0x4000 - v17; v15 = unat (bt_read16 heap nbytes (v39 + v14));
                      heap = put_sep heap nbytes (v184 + v21) v73 (copy_within nbytes (v39 + v15 + 4) v73) dst;
                      heap = one_sep heap nbytes v184 v21 0x42;
                      heap = bt_write16 heap nbytes (v39 + 22) (of_nat v50)
          in case bt_leaf_repack (drop v39 heap) 0x4000 8 of (ok, p) \<Rightarrow>
             let heap = take v39 heap @ p
             in if \<not> ok then (False, heap)
                else attach heap nbytes npages src dst left (\<lambda>heap v24. bt_internal_add_sep heap nbytes npages v24 left right))"
text \<open>The middle separator of \<open>src\<close> goes to the buffer, the ones behind it to \<open>dst\<close>: the length of the key or 0, the buffer, the heap.\<close>

definition bt_split_internal :: "bytes \<Rightarrow> nat \<Rightarrow> nat \<Rightarrow> nat \<Rightarrow> nat \<Rightarrow> bytes \<Rightarrow> nat \<times> bytes \<times> bytes" where
  "bt_split_internal heap nbytes npages src dst keybuf =
     (if src \<ge> npages \<or> dst \<ge> npages \<or> src = dst \<or> keybuf = [] then (0, keybuf, heap)
      else let v32 = src * 0x4000
      in if bt_read8 heap nbytes (v32 + 20) \<noteq> 2 then (0, keybuf, heap)
         else let v41 = unat (bt_read16 heap nbytes (v32 + 22)); v43 = v41 div 2
      in if v43 = 0 \<or> v43 + 1 \<ge> v41 then (0, keybuf, heap)
         else let v11 = 64 + v43 * 2
      in if \<not> bt_off_ok nbytes v32 v11 2 then (0, keybuf, heap)
         else let v12 = unat (bt_read16 heap nbytes (v32 + v11))
      in if \<not> bt_off_ok nbytes v32 v12 4 then (0, keybuf, heap)
         else let v66 = unat (bt_read16 heap nbytes (v32 + v12))
      in if v66 = 0 \<or> v66 > 0xffff \<or> v66 > 0x4000 then (0, keybuf, heap)
         else if \<not> bt_off_ok nbytes v32 v12 (4 + v66 + 8) then (0, keybuf, heap)
         else let v85 = v32 + v12 + 4; keybuf = bt_copy_out heap nbytes v85 keybuf v66; v93 = dst * 0x4000
      in case sep_loop (init_internal heap nbytes v93 (bt_read64 heap nbytes (v85 + v66))) nbytes v32 v93 (v43 + 1) (v41 - (v43 + 1)) of
        (False, heap) \<Rightarrow> (0, keybuf, heap)
      | (True, heap) \<Rightarrow>
          let heap = bt_write16 heap nbytes (v32 + 22) (of_nat v43)
          in case bt_leaf_repack (drop v32 heap) 0x4000 8 of (ok, p) \<Rightarrow>
             let heap = take v32 heap @ p in if ok then (v66, keybuf, heap) else (0, keybuf, heap))"

definition bt_make_root_buf :: "bytes \<Rightarrow> nat \<Rightarrow> nat \<Rightarrow> nat \<Rightarrow> nat \<Rightarrow> nat \<Rightarrow> bytes \<Rightarrow> nat \<Rightarrow> bool \<times> bytes" where
  "bt_make_root_buf heap nbytes npages left right nroot key cklen =
     (if nroot \<ge> npages \<or> left \<ge> npages \<or> right \<ge> npages then (False, heap)
      else if nroot = left \<or> nroot = right then (False, heap)
      else if key = [] \<or> cklen = 0 \<or> cklen > 0xffff \<or> cklen > 0x4000 then (False, heap)
      else let v36 = nroot * 0x4000
      in if page_out nbytes v36 then (False, heap)
         else let heap = init_internal heap nbytes v36 (of_nat left); v63 = 4 + cklen + 8
      in if v63 > 0x4000 then (False, heap)
         else let v73 = 0x4000 - v63
      in if 66 > v73 \<or> \<not> bt_off_ok nbytes v36 v73 v63 then (False, heap)
         else (True, one_sep (put_sep heap nbytes (v36 + v73) cklen (copy_key nbytes (take cklen key)) right) nbytes v36 v73 66))"

text \<open>The state of a failed and of a full insertion, and of a successful one.\<close>

definition hst_fail :: Db_bt_heap_st_t where
  "hst_fail = \<lparr>hs_Root = 0, hs_Used = 0, hs_Nkeys = 0, hs_Pages = 0, hs_Ok = False, hs_Full = False\<rparr>"

definition hst_full :: Db_bt_heap_st_t where
  "hst_full = hst_fail\<lparr>hs_Full := True\<rparr>"

definition hst_ok :: "nat \<Rightarrow> nat \<Rightarrow> nat \<Rightarrow> u64 \<Rightarrow> Db_bt_heap_st_t" where
  "hst_ok root used nkeys pages = \<lparr>hs_Root = root, hs_Used = used, hs_Nkeys = nkeys, hs_Pages = pages, hs_Ok = True, hs_Full = False\<rparr>"

text \<open>
  A separator that finds no room in its parent splits the parent and goes up: \<open>v18\<close> and \<open>v19\<close> are the halves below, \<open>v14\<close> holds
  the key of \<open>v16\<close> bytes between them. A buffer is a zeroed page; after a further split the key moves from one to the other.
\<close>

fun attach_up :: "bytes \<Rightarrow> nat \<Rightarrow> nat \<Rightarrow> nat list \<Rightarrow> nat \<Rightarrow> bytes \<Rightarrow> u64 \<Rightarrow> nat \<Rightarrow> nat \<Rightarrow> nat \<Rightarrow> bytes \<Rightarrow> bytes \<Rightarrow> nat \<Rightarrow> nat \<Rightarrow> Db_bt_heap_st_t \<times> bytes" where
  "attach_up pub nbytes npages anc root dirty msk used v18 v19 v14 v15 v16 0 =
     (if used + 1 > npages then (hst_full, dirty)
      else case bt_cow_page pub dirty nbytes used msk of (msk, dirty) \<Rightarrow>
        (case bt_make_root_buf dirty nbytes npages v18 v19 used v14 v16 of
          (False, dirty) \<Rightarrow> (hst_fail, dirty)
        | (True, dirty) \<Rightarrow> (hst_ok used (used + 1) 0 msk, dirty)))"
| "attach_up pub nbytes npages anc root dirty msk used v18 v19 v14 v15 v16 (Suc v20) =
     (let v56 = anc ! v20
      in if v56 \<ge> npages then (hst_fail, dirty)
         else case bt_internal_insert_buf dirty nbytes npages v56 v18 v19 v14 v16 of
           (True, dirty) \<Rightarrow> (hst_ok root used 0 msk, dirty)
         | (False, dirty) \<Rightarrow>
             if used + 1 > npages then (hst_full, dirty)
             else case bt_cow_page pub dirty nbytes used msk of (msk, dirty) \<Rightarrow>
               (case bt_split_internal dirty nbytes npages v56 used v15 of (v70, v15, dirty) \<Rightarrow>
                  if v70 = 0 then (hst_fail, dirty)
                  else (case attach dirty nbytes npages v56 used v18 (\<lambda>heap v23. bt_internal_insert_buf heap nbytes npages v23 v18 v19 v14 v16) of
                      (False, dirty) \<Rightarrow> (hst_fail, dirty)
                    | (True, dirty) \<Rightarrow>
                        attach_up pub nbytes npages anc root dirty msk (used + 1) v56 used (bt_copy_bytes v14 0x4000 0 v15 0x4000 0 v70) v15 v70 v20)))"

definition bt_split_attach_deep ::
    "bytes \<Rightarrow> bytes \<Rightarrow> nat \<Rightarrow> nat \<Rightarrow> nat list \<Rightarrow> nat \<Rightarrow> nat \<Rightarrow> nat \<Rightarrow> u64 \<Rightarrow> nat \<Rightarrow> nat \<Rightarrow> nat \<Rightarrow> nat \<Rightarrow> Db_bt_heap_st_t \<times> bytes" where
  "bt_split_attach_deep pub dirty nbytes npages anc level root used msk src dst left right =
     (if anc = [] \<or> level = 0 \<or> level \<ge> 32 then (hst_full, dirty)
      else if pub = [] \<or> dirty = [] then (hst_fail, dirty)
      else case bt_split_internal dirty nbytes npages src dst (replicate 0x4000 0) of (v16, v14, dirty) \<Rightarrow>
        if v16 = 0 then (hst_fail, dirty)
        else (case attach dirty nbytes npages src dst left (\<lambda>heap v23. bt_internal_add_sep heap nbytes npages v23 left right) of
            (False, dirty) \<Rightarrow> (hst_fail, dirty)
          | (True, dirty) \<Rightarrow> attach_up pub nbytes npages anc root dirty msk used src dst v14 (replicate 0x4000 0) v16 level))"

section \<open>Insertion\<close>

definition hst_done :: "bytes \<Rightarrow> nat \<Rightarrow> nat \<Rightarrow> nat \<Rightarrow> nat \<Rightarrow> u64 \<Rightarrow> Db_bt_heap_st_t \<times> bytes" where
  "hst_done dirty nbytes npages root used msk = (hst_ok root used (bt_heap_nkeys dirty nbytes npages root) msk, dirty)"

text \<open>
  The descent to a leaf, every page copied to the dirty heap before it is read: the leaf, its parent, the internal pages of
  the path from the root (at most 32), the mask. None when a child is out of range, the path too long, or no leaf at its end.
\<close>

fun ins_descend ::
    "bytes \<Rightarrow> nat \<Rightarrow> nat \<Rightarrow> bytes \<Rightarrow> bytes \<Rightarrow> u64 \<Rightarrow> nat \<Rightarrow> nat \<Rightarrow> nat list \<Rightarrow> nat \<Rightarrow> (nat \<times> nat \<times> nat list \<times> u64) option \<times> bytes" where
  "ins_descend pub nbytes npages key dirty v23 v14 v24 v28 0 =
     (if bt_read8 dirty nbytes (v14 * 0x4000 + 20) = 2 then (None, dirty) else (Some (v14, v24, v28, v23), dirty))"
| "ins_descend pub nbytes npages key dirty v23 v14 v24 v28 (Suc k) =
     (if bt_read8 dirty nbytes (v14 * 0x4000 + 20) \<noteq> 2 then (Some (v14, v24, v28, v23), dirty)
      else let v87 = bt_internal_child dirty nbytes (v14 * 0x4000) key
      in if v87 \<ge> npages \<or> v87 = v14 then (None, dirty)
         else case bt_cow_page pub dirty nbytes v87 v23 of (v23, dirty) \<Rightarrow>
           if bt_read8 dirty nbytes (v87 * 0x4000 + 20) = 2 \<and> length v28 \<ge> 32 then (None, dirty)
           else ins_descend pub nbytes npages key dirty v23 v87 v14
                  (if bt_read8 dirty nbytes (v87 * 0x4000 + 20) = 2 then v28 @ [v87] else v28) k)"

text \<open>After a leaf split: the half the key belongs to, by the first key of the right page.\<close>

definition right_first_above :: "bytes \<Rightarrow> nat \<Rightarrow> nat \<Rightarrow> bytes \<Rightarrow> bool option" where
  "right_first_above dirty nbytes right key =
     (let v19 = right * 0x4000; v21 = unat (bt_read16 dirty nbytes (v19 + 64))
      in if \<not> bt_off_ok nbytes v19 v21 4 then None
         else Some (bt_keycmp_at dirty nbytes (v19 + v21 + 4) (unat (bt_read16 dirty nbytes (v19 + v21))) key > 0))"

text \<open>The separator of a split leaf: into its parent, or by a split of the root, or up the path.\<close>

definition attach_leaf ::
    "bytes \<Rightarrow> bytes \<Rightarrow> nat \<Rightarrow> nat \<Rightarrow> nat \<Rightarrow> nat \<Rightarrow> u64 \<Rightarrow> nat list \<Rightarrow> nat \<Rightarrow> nat \<Rightarrow> Db_bt_heap_st_t \<times> bytes" where
  "attach_leaf pub dirty nbytes npages root v17 v23 v28 v24 v14 =
     (case bt_internal_add_sep dirty nbytes npages v24 v14 v17 of
       (True, dirty) \<Rightarrow> hst_done dirty nbytes npages root (v17 + 1) v23
     | (False, dirty) \<Rightarrow>
         let v20 = v17 + 1
         in if v24 = root
            then (if v20 + 1 \<ge> npages then (hst_full, dirty)
                  else case bt_cow_page pub dirty nbytes v20 v23 of (v23, dirty) \<Rightarrow>
                    (case bt_cow_page pub dirty nbytes (v20 + 1) v23 of (v23, dirty) \<Rightarrow>
                      (case bt_elevate_root dirty nbytes npages root v20 (v20 + 1) v14 v17 of
                        (False, dirty) \<Rightarrow> (hst_fail, dirty)
                      | (True, dirty) \<Rightarrow> hst_done dirty nbytes npages (v20 + 1) (v17 + 3) v23)))
            else if v20 \<ge> npages then (hst_full, dirty)
            else case bt_cow_page pub dirty nbytes v20 v23 of (v23, dirty) \<Rightarrow>
              (case bt_split_attach_deep pub dirty nbytes npages v28 (length v28 - 1) root (v17 + 2) v23 v24 v20 v14 v17 of (v30, dirty) \<Rightarrow>
                 if \<not> hs_Ok v30 then (hst_fail\<lparr>hs_Full := hs_Full v30\<rparr>, dirty)
                 else hst_done dirty nbytes npages (hs_Root v30) (hs_Used v30) (hs_Pages v30)))"
text \<open>
  With a leaf as root the chain of leaves is walked twice. The first walk looks for the key; \<open>found\<close> tries the leaf that has it
  (Inl with the outcome, or Inr to go on with the second walk), the second one inserts in the first leaf with room. Each gives
  Inl with the outcome of the insertion, or Inr with the last leaf visited and the mask.
\<close>

fun chain_walk1 ::
    "bytes \<Rightarrow> nat \<Rightarrow> nat \<Rightarrow> bytes \<Rightarrow> (bytes \<Rightarrow> nat \<Rightarrow> bool option \<times> bytes) \<Rightarrow> bytes \<Rightarrow> u64 \<Rightarrow> nat \<Rightarrow> nat \<Rightarrow> nat \<Rightarrow> (bool + nat) \<times> u64 \<times> bytes" where
  "chain_walk1 pub nbytes npages key found dirty v23 v14 v18 0 = (Inr v18, v23, dirty)"
| "chain_walk1 pub nbytes npages key found dirty v23 v14 v18 (Suc k) =
     (if v14 \<ge> npages then (Inl False, v23, dirty)
      else case bt_cow_page pub dirty nbytes v14 v23 of (v23, dirty) \<Rightarrow>
        let v19 = v14 * 0x4000
        in if bg_Found (fst (bt_get_at dirty nbytes v19 key None 0))
           then (case found dirty v19 of
               (Some b, dirty) \<Rightarrow> (Inl b, v23, dirty)
             | (None, dirty) \<Rightarrow> (Inr v14, v23, dirty))
           else let v16 = unat (bt_read64 dirty nbytes (v19 + 8))
             in if v16 = 0 \<or> v16 = v14 then (Inr v14, v23, dirty)
                else chain_walk1 pub nbytes npages key found dirty v23 v16 v14 k)"

fun chain_walk2 ::
    "bytes \<Rightarrow> nat \<Rightarrow> nat \<Rightarrow> (bytes \<Rightarrow> nat \<Rightarrow> bool \<times> bytes) \<Rightarrow> bytes \<Rightarrow> u64 \<Rightarrow> nat \<Rightarrow> nat \<Rightarrow> nat \<Rightarrow> (bool + nat) \<times> u64 \<times> bytes" where
  "chain_walk2 pub nbytes npages ins dirty v23 v14 v18 0 = (Inr v18, v23, dirty)"
| "chain_walk2 pub nbytes npages ins dirty v23 v14 v18 (Suc k) =
     (if v14 \<ge> npages then (Inr v18, v23, dirty)
      else case bt_cow_page pub dirty nbytes v14 v23 of (v23, dirty) \<Rightarrow>
        let v19 = v14 * 0x4000
        in case ins dirty v19 of
          (True, dirty) \<Rightarrow> (Inl True, v23, dirty)
        | (False, dirty) \<Rightarrow>
            let v16 = unat (bt_read64 dirty nbytes (v19 + 8))
            in if v16 = 0 \<or> v16 = v14 then (Inr v14, v23, dirty)
               else chain_walk2 pub nbytes npages ins dirty v23 v16 v14 k)"

text \<open>A root leaf without room: split it, insert in one half, and put an internal page above; a heap of two pages keeps the
  chain. \<open>cow_left\<close> is the first of the two copies, which only one of the callers makes.\<close>

definition grow_root ::
    "bytes \<Rightarrow> nat \<Rightarrow> nat \<Rightarrow> nat \<Rightarrow> nat \<Rightarrow> bytes \<Rightarrow> (bytes \<Rightarrow> nat \<Rightarrow> nat \<Rightarrow> nat \<Rightarrow> bool \<times> bytes) \<Rightarrow> (bytes \<Rightarrow> nat \<Rightarrow> bool \<times> bytes) \<Rightarrow> bool
      \<Rightarrow> bytes \<Rightarrow> u64 \<Rightarrow> nat \<Rightarrow> Db_bt_heap_st_t \<times> bytes" where
  "grow_root pub nbytes npages root v17 key split ins cow_left dirty v23 v18 =
     (if v18 \<noteq> root \<or> v17 \<ge> npages \<or> npages > 2 \<and> v17 + 2 > npages then (hst_fail, dirty)
      else case (if cow_left then bt_cow_page pub dirty nbytes v18 v23 else (v23, dirty)) of (v23, dirty) \<Rightarrow>
        (case bt_cow_page pub dirty nbytes v17 v23 of (v23, dirty) \<Rightarrow>
          (case split dirty npages v18 v17 of
            (False, dirty) \<Rightarrow> (hst_fail, dirty)
          | (True, dirty) \<Rightarrow>
              (case right_first_above dirty nbytes v17 key of
                None \<Rightarrow> (hst_fail, dirty)
              | Some abv \<Rightarrow>
                  (case ins dirty ((if abv then v18 else v17) * 0x4000) of
                    (False, dirty) \<Rightarrow> (hst_fail, dirty)
                  | (True, dirty) \<Rightarrow>
                      let v20 = v17 + 1
                      in if v20 < npages
                         then (case bt_cow_page pub dirty nbytes v20 v23 of (v23, dirty) \<Rightarrow>
                             (case bt_make_internal dirty nbytes npages root v17 v20 of
                               (False, dirty) \<Rightarrow> (hst_fail, dirty)
                             | (True, dirty) \<Rightarrow> hst_done dirty nbytes npages v20 (v17 + 2) v23))
                         else if npages = 2 then hst_done dirty nbytes npages root (v17 + 1) v23
                         else (hst_fail, dirty))))))"

definition chain_insert ::
    "bytes \<Rightarrow> nat \<Rightarrow> nat \<Rightarrow> nat \<Rightarrow> nat \<Rightarrow> bytes \<Rightarrow> (bytes \<Rightarrow> nat \<Rightarrow> bool option \<times> bytes) \<Rightarrow> (bytes \<Rightarrow> nat \<Rightarrow> nat \<Rightarrow> nat \<Rightarrow> bool \<times> bytes)
      \<Rightarrow> (bytes \<Rightarrow> nat \<Rightarrow> bool \<times> bytes) \<Rightarrow> bool \<Rightarrow> bytes \<Rightarrow> u64 \<Rightarrow> Db_bt_heap_st_t \<times> bytes" where
  "chain_insert pub nbytes npages root v17 key found split ins cow_left dirty v23 =
     (case chain_walk1 pub nbytes npages key found dirty v23 root root npages of
       (Inl True, v23, dirty) \<Rightarrow> hst_done dirty nbytes npages root v17 v23
     | (Inl False, v23, dirty) \<Rightarrow> (hst_fail, dirty)
     | (Inr v18, v23, dirty) \<Rightarrow>
         (case chain_walk2 pub nbytes npages ins dirty v23 root v18 npages of
           (Inl _, v23, dirty) \<Rightarrow> hst_done dirty nbytes npages root v17 v23
         | (Inr v18, v23, dirty) \<Rightarrow> grow_root pub nbytes npages root v17 key split ins cow_left dirty v23 v18))"

text \<open>The guards the two insertions share; the result is the state with at least one used page.\<close>

definition ins_guard :: "bytes \<Rightarrow> bytes \<Rightarrow> nat \<Rightarrow> nat \<Rightarrow> Db_bt_heap_st_t \<Rightarrow> bytes \<Rightarrow> bytes \<Rightarrow> bool" where
  "ins_guard pub dirty nbytes npages st key val \<longleftrightarrow>
     pub \<noteq> [] \<and> dirty \<noteq> [] \<and> npages \<noteq> 0 \<and> nbytes div 0x4000 = npages \<and> npages * 0x4000 = nbytes
     \<and> key \<noteq> [] \<and> length key \<le> 0xffff \<and> length val \<le> 0xffff \<and> hs_Root st < npages"

definition used_pages :: "Db_bt_heap_st_t \<Rightarrow> nat" where
  "used_pages st = (if hs_Used st = 0 then 1 else hs_Used st)"

section \<open>Insertion of a key\<close>

definition plain_ins :: "nat \<Rightarrow> bytes \<Rightarrow> bytes \<Rightarrow> bytes \<Rightarrow> nat \<Rightarrow> bool \<times> bytes" where
  "plain_ins nbytes key val heap base = (case bt_insert_at heap nbytes base key val of (st, h) \<Rightarrow> (bs_Ok st, h))"

definition plain_found :: "nat \<Rightarrow> bytes \<Rightarrow> bytes \<Rightarrow> bytes \<Rightarrow> nat \<Rightarrow> bool option \<times> bytes" where
  "plain_found nbytes key val heap base = (case plain_ins nbytes key val heap base of (ok, h) \<Rightarrow> (Some ok, h))"

text \<open>The page the right half went to is copied from the published heap once more when the key goes there.\<close>

definition tree_insert ::
    "bytes \<Rightarrow> nat \<Rightarrow> nat \<Rightarrow> nat \<Rightarrow> nat \<Rightarrow> bytes \<Rightarrow> bytes \<Rightarrow> bytes \<Rightarrow> u64 \<Rightarrow> nat list \<Rightarrow> nat \<Rightarrow> nat \<Rightarrow> Db_bt_heap_st_t \<times> bytes" where
  "tree_insert pub nbytes npages root v15 key val dirty v21 v26 v22 v12 =
     (let v17 = v12 * 0x4000
      in if bg_Found (fst (bt_get_at dirty nbytes v17 key None 0))
         then (case plain_ins nbytes key val dirty v17 of
             (False, dirty) \<Rightarrow> (hst_fail, dirty)
           | (True, dirty) \<Rightarrow> hst_done dirty nbytes npages root v15 v21)
         else (case plain_ins nbytes key val dirty v17 of
             (True, dirty) \<Rightarrow> hst_done dirty nbytes npages root v15 v21
           | (False, dirty) \<Rightarrow>
               if v15 \<ge> npages then (hst_fail, dirty)
               else case bt_cow_page pub dirty nbytes v15 v21 of (v21, dirty) \<Rightarrow>
                 (case bt_chain_split dirty npages v12 v15 of
                   (False, dirty) \<Rightarrow> (hst_fail, dirty)
                 | (True, dirty) \<Rightarrow>
                     (case right_first_above dirty nbytes v15 key of
                       None \<Rightarrow> (hst_fail, dirty)
                     | Some abv \<Rightarrow>
                         (case (if abv then (v21, dirty) else bt_cow_page pub dirty nbytes v15 v21) of (v21, dirty) \<Rightarrow>
                           (case plain_ins nbytes key val dirty ((if abv then v12 else v15) * 0x4000) of
                             (False, dirty) \<Rightarrow> (hst_fail, dirty)
                           | (True, dirty) \<Rightarrow> attach_leaf pub dirty nbytes npages root v15 v21 v26 v22 v12))))))"

definition Db_bt_insert_heap ::
    "bytes \<Rightarrow> bytes \<Rightarrow> nat \<Rightarrow> nat \<Rightarrow> Db_bt_heap_st_t \<Rightarrow> bytes \<Rightarrow> bytes \<Rightarrow> Db_bt_heap_st_t \<times> bytes" where
  "Db_bt_insert_heap pub dirty nbytes npages st key val =
     (if \<not> ins_guard pub dirty nbytes npages st key val then (hst_fail, dirty)
      else let v15 = used_pages st; root = hs_Root st
      in case bt_cow_page pub dirty nbytes root 0 of (v21, dirty) \<Rightarrow>
         if bt_read8 dirty nbytes (root * 0x4000 + 20) = 2
         then (case ins_descend pub nbytes npages key dirty v21 root root [root] npages of
             (None, dirty) \<Rightarrow> (hst_fail, dirty)
           | (Some (v12, v22, v26, v21), dirty) \<Rightarrow> tree_insert pub nbytes npages root v15 key val dirty v21 v26 v22 v12)
         else chain_insert pub nbytes npages root v15 key (plain_found nbytes key val) bt_chain_split (plain_ins nbytes key val) False dirty v21)"

section \<open>Insertion of a version\<close>

definition ver_ins :: "nat \<Rightarrow> bytes \<Rightarrow> bytes \<Rightarrow> bytes \<Rightarrow> bytes \<Rightarrow> nat \<Rightarrow> bool \<times> bytes" where
  "ver_ins nbytes key id16 val heap base = (case bt_insert_ver_at heap nbytes base key id16 val of (st, h) \<Rightarrow> (bs_Ok st, h))"

text \<open>A leaf that has the key: replace the newest version when it has the same value and superseded versions are pruned, or insert.\<close>

definition ver_found :: "nat \<Rightarrow> bytes \<Rightarrow> bytes \<Rightarrow> bytes \<Rightarrow> bool \<Rightarrow> bytes \<Rightarrow> nat \<Rightarrow> bool option \<times> bytes" where
  "ver_found nbytes key id16 val prune heap base =
     (case (if prune then bt_replace_same_value_at heap nbytes base key id16 val else (False, heap)) of
       (True, h) \<Rightarrow> (Some True, h)
     | (False, h) \<Rightarrow> (case ver_ins nbytes key id16 val h base of (ok, h) \<Rightarrow> (if ok then Some True else None, h)))"

definition tree_insert_ver ::
    "bytes \<Rightarrow> nat \<Rightarrow> nat \<Rightarrow> nat \<Rightarrow> nat \<Rightarrow> bytes \<Rightarrow> bytes \<Rightarrow> bytes \<Rightarrow> bool \<Rightarrow> bytes \<Rightarrow> u64 \<Rightarrow> nat list \<Rightarrow> nat \<Rightarrow> nat \<Rightarrow> Db_bt_heap_st_t \<times> bytes" where
  "tree_insert_ver pub nbytes npages root v17 key id16 val prune dirty v23 v28 v24 v14 =
     (let v19 = v14 * 0x4000
      in case (if bg_Found (fst (bt_get_at dirty nbytes v19 key None 0)) then ver_found nbytes key id16 val prune dirty v19 else (None, dirty)) of
        (Some _, dirty) \<Rightarrow> hst_done dirty nbytes npages root v17 v23
      | (None, dirty) \<Rightarrow>
          (case ver_ins nbytes key id16 val dirty v19 of
            (True, dirty) \<Rightarrow> hst_done dirty nbytes npages root v17 v23
          | (False, dirty) \<Rightarrow>
              if v17 + 2 > npages then (hst_full, dirty)
              else case bt_cow_page pub dirty nbytes v17 v23 of (v23, dirty) \<Rightarrow>
                (case bt_chain_split_ver dirty npages v14 v17 of
                  (False, dirty) \<Rightarrow> (hst_fail, dirty)
                | (True, dirty) \<Rightarrow>
                    (case right_first_above dirty nbytes v17 key of
                      None \<Rightarrow> (hst_fail, dirty)
                    | Some abv \<Rightarrow>
                        (case ver_ins nbytes key id16 val dirty ((if abv then v14 else v17) * 0x4000) of
                          (False, dirty) \<Rightarrow> (hst_fail, dirty)
                        | (True, dirty) \<Rightarrow> attach_leaf pub dirty nbytes npages root v17 v23 v28 v24 v14)))))"

definition bt_insert_ver_heap_impl ::
    "bytes \<Rightarrow> bytes \<Rightarrow> nat \<Rightarrow> nat \<Rightarrow> Db_bt_heap_st_t \<Rightarrow> bytes \<Rightarrow> bytes \<Rightarrow> bytes \<Rightarrow> bool \<Rightarrow> Db_bt_heap_st_t \<times> bytes" where
  "bt_insert_ver_heap_impl pub dirty nbytes npages st key id16 val prune =
     (if \<not> ins_guard pub dirty nbytes npages st key val \<or> id16 = [] then (hst_fail, dirty)
      else let v17 = used_pages st; root = hs_Root st
      in case bt_cow_page pub dirty nbytes root 0 of (v23, dirty) \<Rightarrow>
         if bt_read8 dirty nbytes (root * 0x4000 + 20) = 2
         then (case ins_descend pub nbytes npages key dirty v23 root root [root] npages of
             (None, dirty) \<Rightarrow> (hst_fail, dirty)
           | (Some (v14, v24, v28, v23), dirty) \<Rightarrow> tree_insert_ver pub nbytes npages root v17 key id16 val prune dirty v23 v28 v24 v14)
         else chain_insert pub nbytes npages root v17 key (ver_found nbytes key id16 val prune) bt_chain_split_ver (ver_ins nbytes key id16 val) True dirty v23)"

definition Db_bt_insert_ver_heap ::
    "bytes \<Rightarrow> bytes \<Rightarrow> nat \<Rightarrow> nat \<Rightarrow> Db_bt_heap_st_t \<Rightarrow> bytes \<Rightarrow> bytes \<Rightarrow> bytes \<Rightarrow> Db_bt_heap_st_t \<times> bytes" where
  "Db_bt_insert_ver_heap pub dirty nbytes npages st key id16 val = bt_insert_ver_heap_impl pub dirty nbytes npages st key id16 val False"

definition Db_bt_insert_ver_heap_prune ::
    "bytes \<Rightarrow> bytes \<Rightarrow> nat \<Rightarrow> nat \<Rightarrow> Db_bt_heap_st_t \<Rightarrow> bytes \<Rightarrow> bytes \<Rightarrow> bytes \<Rightarrow> nat \<Rightarrow> Db_bt_heap_st_t \<times> bytes" where
  "Db_bt_insert_ver_heap_prune pub dirty nbytes npages st key id16 val prune =
     bt_insert_ver_heap_impl pub dirty nbytes npages st key id16 val (prune \<noteq> 0)"

end
