(* ===== verification/Btree_Insert.thy ===== *)
theory Btree_Insert
  imports Btree_Split Btree_Search
begin

text \<open>
  Insertion of a version in a tree of pages whose leaf has room: the tree holds the cells it held, with the
  new one at its place. A leaf without room is split; \<open>two_cells_never_split\<close> states when the split is refused.
\<close>

section \<open>Pages that stay the same\<close>

definition same_page :: "bytes \<Rightarrow> bytes \<Rightarrow> nat \<Rightarrow> bool" where
  "same_page h h' p \<longleftrightarrow> bslice h' (p * 0x4000) 0x4000 = bslice h (p * 0x4000) 0x4000"

lemma same_page_part: "same_page h h' p \<Longrightarrow> a + k \<le> 0x4000 \<Longrightarrow> bslice h' (p * 0x4000 + a) k = bslice h (p * 0x4000 + a) k"
  using bslice_part [of h' "p * 0x4000" "0x4000" "bslice h (p * 0x4000) 0x4000" a k] by (simp add: same_page_def bslice_bslice)

lemma same_page_get:
  assumes "same_page h h' p"
  shows "a + 2 \<le> 0x4000 \<Longrightarrow> get16 h' (p * 0x4000 + a) = get16 h (p * 0x4000 + a)"
    "a + 8 \<le> 0x4000 \<Longrightarrow> get64 h' (p * 0x4000 + a) = get64 h (p * 0x4000 + a)"
  using same_page_part [OF assms] by (simp_all add: get16_def get64_def)

lemma same_page_byte:
  assumes "same_page h h' p" "length h' = length h" "p * 0x4000 + 0x4000 \<le> length h" "a < 0x4000"
  shows "h' ! (p * 0x4000 + a) = h ! (p * 0x4000 + a)"
  using same_page_part [OF assms(1), of a 1] assms(2-4) bslice_nth [of 0 1 "p * 0x4000 + a" h'] bslice_nth [of 0 1 "p * 0x4000 + a" h]
  by simp

lemma leaf_same:
  assumes "same_page h h' p" "length h' = length h" and L: "leaf_layout h n (p * 0x4000)"
  shows "leaf_cells h' (p * 0x4000) = leaf_cells h (p * 0x4000)" "leaf_layout h' n (p * 0x4000)"
proof -
  let ?b = "p * 0x4000"
  note D = leaf_layoutD [OF L] and g = same_page_get [OF assms(1)]
  have hd: "get16 h' (?b + 22) = get16 h (?b + 22)" "get16 h' (?b + 24) = get16 h (?b + 24)" "get16 h' (?b + 26) = get16 h (?b + 26)"
    by (rule g; simp)+
  have sl: "leaf_slot h' ?b i = leaf_slot h ?b i" if "i < get16 h (?b + 22)" for i
    unfolding leaf_slot_def by (rule g(1)) (use D(4,5,6) that in simp)
  have c: "cell_at h' (?b + leaf_slot h ?b i) = cell_at h (?b + leaf_slot h ?b i) \<and> cell_size h' (?b + leaf_slot h ?b i) = cell_size h (?b + leaf_slot h ?b i)"
    if "i < get16 h (?b + 22)" for i
    using D(8) [OF that] by (intro conjI cell_at_cong same_page_part [OF assms(1)]) auto
  show "leaf_cells h' ?b = leaf_cells h ?b"
    unfolding leaf_cells_def hd by (intro map_cong refl) (use sl c in simp)
  have "h' ! (?b + 20) = 1" using same_page_byte [OF assms(1,2), of 20] D(1,2,3) by simp
  then show "leaf_layout h' n ?b"
    using D sl c assms(2) unfolding leaf_layout_def hd by auto
qed

lemma int_same:
  assumes "same_page h h' p" "length h' = length h" and L: "int_layout h n (p * 0x4000)"
  shows "seps h' (p * 0x4000) = seps h (p * 0x4000)" "children h' (p * 0x4000) = children h (p * 0x4000)" "int_layout h' n (p * 0x4000)"
proof -
  let ?b = "p * 0x4000"
  note g = same_page_get [OF assms(1)]
  have D: "?b + 0x4000 \<le> n" "n \<le> length h" "h ! (?b + 20) = 2" "64 + get16 h (?b + 22) * 2 \<le> 0x4000"
    "\<And>i. i < get16 h (?b + 22) \<Longrightarrow> leaf_slot h ?b i + 4 + get16 h (?b + leaf_slot h ?b i) + 8 \<le> 0x4000"
    using L by (auto simp: int_layout_def)
  have hd: "get16 h' (?b + 22) = get16 h (?b + 22)" "get64 h' (?b + 8) = get64 h (?b + 8)" by (rule g; simp)+
  have sl: "leaf_slot h' ?b i = leaf_slot h ?b i" if "i < get16 h (?b + 22)" for i
    unfolding leaf_slot_def by (rule g(1)) (use D(4) that in simp)
  have k: "get16 h' (?b + leaf_slot h ?b i) = get16 h (?b + leaf_slot h ?b i)" if "i < get16 h (?b + 22)" for i
    by (rule g(1)) (use D(5) [OF that] in simp)
  have s: "sep_key h' (?b + leaf_slot h ?b i) = sep_key h (?b + leaf_slot h ?b i)" if "i < get16 h (?b + 22)" for i
    using same_page_part [OF assms(1), of "leaf_slot h ?b i + 4"] D(5) [OF that] by (simp add: sep_key_def k [OF that] add.assoc)
  have c: "sep_child h' (?b + leaf_slot h ?b i) = sep_child h (?b + leaf_slot h ?b i)" if "i < get16 h (?b + 22)" for i
    using g(2) [of "leaf_slot h ?b i + 4 + get16 h (?b + leaf_slot h ?b i)"] D(5) [OF that] by (simp add: sep_child_def k [OF that] add.assoc)
  show "seps h' ?b = seps h ?b" unfolding seps_def hd by (intro map_cong refl) (use sl s in simp)
  show "children h' ?b = children h ?b" unfolding children_def hd by (intro arg_cong2 [where f = Cons] map_cong refl) (use sl c in simp)
  have "h' ! (?b + 20) = 2" using same_page_byte [OF assms(1,2), of 20] D(1,2,3) by simp
  then show "int_layout h' n ?b" using D sl k assms(2) unfolding int_layout_def hd by auto
qed

section \<open>The pages of a tree\<close>

fun tree_pages :: "bytes \<Rightarrow> nat \<Rightarrow> nat \<Rightarrow> nat list" where
  "tree_pages h 0 p = [p]"
| "tree_pages h (Suc d) p = p # concat (map (tree_pages h d) (children h (p * 0x4000)))"

lemma tree_pages_root: "p \<in> set (tree_pages h d p)"
  by (cases d) auto

lemma btree_frame:
  "btree h n np d p cs \<Longrightarrow> length h' = length h \<Longrightarrow> \<forall>r \<in> set (tree_pages h d p). same_page h h' r
    \<Longrightarrow> btree h' n np d p cs \<and> tree_pages h' d p = tree_pages h d p"
proof (induction rule: btree.induct)
  case (leaf p)
  then have "leaf_cells h' (p * 0x4000) = leaf_cells h (p * 0x4000)" "leaf_layout h' n (p * 0x4000)"
    using leaf_same [of h h' p n] by (auto simp: leaf_wf_def)
  then show ?case using leaf btree.leaf [of p np h' n] by (simp add: leaf_wf_def)
next
  case (node p css d)
  have sp: "same_page h h' p" using node.prems(2) by simp
  note S = int_same [OF sp node.prems(1) node.hyps(2)]
  have ch: "btree h' n np d (children h (p * 0x4000) ! i) (css ! i)" "tree_pages h' d (children h (p * 0x4000) ! i) = tree_pages h d (children h (p * 0x4000) ! i)"
    if "i < length css" for i
  proof -
    have "children h (p * 0x4000) ! i \<in> set (children h (p * 0x4000))" using that node.hyps(4) by simp
    then have "\<forall>r \<in> set (tree_pages h d (children h (p * 0x4000) ! i)). same_page h h' r" using node.prems(2) by auto
    then show "btree h' n np d (children h (p * 0x4000) ! i) (css ! i)" "tree_pages h' d (children h (p * 0x4000) ! i) = tree_pages h d (children h (p * 0x4000) ! i)"
      using node.IH [OF that] node.prems(1) by auto
  qed
  have m: "map (tree_pages h' d) (children h (p * 0x4000)) = map (tree_pages h d) (children h (p * 0x4000))"
    using ch(2) node.hyps(4) by (intro nth_equalityI) auto
  have "btree h' n np (Suc d) p (concat css)"
    using node.hyps node.IH ch(1) S by (intro btree.node) auto
  then show ?case unfolding tree_pages.simps S(2) m by simp
qed

section \<open>Insertion in the leaf of a key\<close>

lemma insert_ver_left: "\<forall>d \<in> set xs. ver d \<le> ver c \<Longrightarrow> insert_ver c (xs @ ys) = xs @ insert_ver c ys"
  by (simp add: insert_ver_def)

lemma while_append_false:
  "\<forall>y \<in> set ys. \<not> P y \<Longrightarrow> takeWhile P (xs @ ys) = takeWhile P xs \<and> dropWhile P (xs @ ys) = dropWhile P xs @ ys"
proof (induction xs)
  case Nil
  then show ?case by (cases ys) auto
qed auto

lemma insert_ver_right: "\<forall>d \<in> set ys. \<not> ver d \<le> ver c \<Longrightarrow> insert_ver c (xs @ ys) = insert_ver c xs @ ys"
  using while_append_false [of ys "\<lambda>d. ver d \<le> ver c" xs] by (simp add: insert_ver_def)

lemma insert_ver_concat:
  assumes "i < length css" "\<And>j d. j < i \<Longrightarrow> d \<in> set (css ! j) \<Longrightarrow> fst d < fst c"
    and "\<And>j d. i < j \<Longrightarrow> j < length css \<Longrightarrow> d \<in> set (css ! j) \<Longrightarrow> fst c < fst d"
  shows "insert_ver c (concat css) = concat (css[i := insert_ver c (css ! i)])"
proof -
  have css: "css = take i css @ css ! i # drop (Suc i) css" using assms(1) by (rule id_take_nth_drop)
  have l: "\<forall>d \<in> set (concat (take i css)). ver d \<le> ver c"
    using assms(1,2) by (fastforce simp: in_set_conv_nth less_eq_prod_def)
  have r: "\<forall>d \<in> set (concat (drop (Suc i) css)). \<not> ver d \<le> ver c"
  proof
    fix d assume "d \<in> set (concat (drop (Suc i) css))"
    then obtain xs where xs: "xs \<in> set (drop (Suc i) css)" "d \<in> set xs" by auto
    then obtain j where "j < length css - Suc i" "d \<in> set (css ! (Suc i + j))" by (auto simp: in_set_conv_nth [of xs])
    then have "fst c < fst d" using assms(3) [of "Suc i + j" d] by simp
    then show "\<not> ver d \<le> ver c" by (auto simp: less_eq_prod_def)
  qed
  have "insert_ver c (concat css) = insert_ver c (concat (take i css) @ css ! i @ concat (drop (Suc i) css))"
    using css by (metis concat.simps(2) concat_append)
  also have "\<dots> = concat (take i css) @ insert_ver c (css ! i) @ concat (drop (Suc i) css)"
    using insert_ver_left [OF l] insert_ver_right [OF r] by simp
  also have "\<dots> = concat (css[i := insert_ver c (css ! i)])" using assms(1) by (simp add: upd_conv_take_nth_drop)
  finally show ?thesis .
qed
lemma concat_apart:
  "distinct (concat xss) \<Longrightarrow> i < length xss \<Longrightarrow> j < length xss \<Longrightarrow> i \<noteq> j \<Longrightarrow> x \<in> set (xss ! i) \<Longrightarrow> x \<notin> set (xss ! j)"
proof (induction xss arbitrary: i j)
  case (Cons xs xss)
  have t: "y \<in> set (concat xss)" if "m < length xss" "y \<in> set (xss ! m)" for y m
    using that nth_mem [of m xss] by (simp only: set_concat UN_iff) blast
  have d: "distinct (concat xss)" "set xs \<inter> set (concat xss) = {}" using Cons.prems(1) by simp_all
  consider m where "i = 0" "j = Suc m" | m where "i = Suc m" "j = 0" | m m' where "i = Suc m" "j = Suc m'"
    using Cons.prems(4) by (cases i; cases j) auto
  then show ?case
  proof cases
    case (1 m) then show ?thesis using t [of m x] d(2) Cons.prems(3,5) by auto
  next
    case (2 m) then show ?thesis using t [of m x] d(2) Cons.prems(2,5) by auto
  next
    case (3 m m') then show ?thesis using Cons.IH [OF d(1), of m m'] Cons.prems(2-5) by simp
  qed
qed simp

lemma bslice_take: "a + k \<le> m \<Longrightarrow> bslice h a k = bslice (take m h) a k"
  by (simp add: bslice_def drop_take min_def)

lemma bslice_drop: "m \<le> a \<Longrightarrow> bslice h a k = bslice (drop m h) (a - m) k"
  by (simp add: bslice_def)

lemma other_page:
  assumes "take (q * 0x4000) h' = take (q * 0x4000) h" "drop (q * 0x4000 + 0x4000) h' = drop (q * 0x4000 + 0x4000) h" "r \<noteq> q"
  shows "same_page h h' r"
proof (cases "r < q")
  case True
  then have "r * 0x4000 + 0x4000 \<le> q * 0x4000" using mult_le_mono1 [of "r + 1" q "0x4000"] by simp
  then show ?thesis using assms(1) bslice_take unfolding same_page_def by metis
next
  case False
  then have "q * 0x4000 + 0x4000 \<le> r * 0x4000" using mult_le_mono1 [of "q + 1" r "0x4000"] assms(3) by simp
  then show ?thesis using assms(2) bslice_drop unfolding same_page_def by metis
qed

lemma insert_leaf:
  assumes "leaf_wf h n (q * 0x4000)" "cell_ok (key, id16, val)" "ver_len (key, id16, val) + 2 \<le> leaf_free h (q * 0x4000)"
  defines "h' \<equiv> snd (bt_insert_ver_at h n (q * 0x4000) key id16 val)"
  shows "bs_Ok (fst (bt_insert_ver_at h n (q * 0x4000) key id16 val))" "leaf_wf h' n (q * 0x4000)"
    "leaf_cells h' (q * 0x4000) = insert_ver (key, id16, val) (leaf_cells h (q * 0x4000))"
    "length h' = length h" "r \<noteq> q \<Longrightarrow> same_page h h' r"
proof -
  have L: "leaf_layout h n (q * 0x4000)" using assms(1) by (simp add: leaf_wf_def)
  note R = insert_ver_refines [OF assms(1,2), unfolded case_prod_beta]
  show "bs_Ok (fst (bt_insert_ver_at h n (q * 0x4000) key id16 val))" "leaf_wf h' n (q * 0x4000)"
    "leaf_cells h' (q * 0x4000) = insert_ver (key, id16, val) (leaf_cells h (q * 0x4000))"
    using R assms(3) by (auto simp: h'_def)
  show "length h' = length h" using insert_ver_effect(1) [OF L assms(2,3)] by (simp add: h'_def)
  have t: "take (q * 0x4000 + 22) h' = take (q * 0x4000 + 22) h" and d: "drop (q * 0x4000 + 0x4000) h' = drop (q * 0x4000 + 0x4000) h"
    using R assms(3) by (auto simp: h'_def)
  have "take (q * 0x4000) h' = take (q * 0x4000) h" using arg_cong [OF t, of "take (q * 0x4000)"] by (simp add: min_def)
  then show "r \<noteq> q \<Longrightarrow> same_page h h' r" using d by (rule other_page)
qed

text \<open>The leaf a key belongs to is the one the descent ends at; inserting there inserts in the tree.\<close>

lemma btree_insert:
  assumes "btree h n np d p cs" "distinct (tree_pages h d p)" "cell_ok (key, id16, val)"
  shows "d \<le> k \<Longrightarrow> \<exists>q. descend h n np key p v k = Inr (q, v + d) \<and> q \<in> set (tree_pages h d p) \<and> q < np \<and> leaf_wf h n (q * 0x4000)
    \<and> (d = 0 \<longrightarrow> q = p) \<and>
    (ver_len (key, id16, val) + 2 \<le> leaf_free h (q * 0x4000) \<longrightarrow>
      btree (snd (bt_insert_ver_at h n (q * 0x4000) key id16 val)) n np d p (insert_ver (key, id16, val) cs))"
  using assms(1,2)
proof (induction arbitrary: k v rule: btree.induct)
  case (leaf p)
  have "bt_read8 h n (p * 0x4000 + 20) = 1"
    using leaf(2) leaf_layoutD(1,2,3) [of h n "p * 0x4000"] by (auto simp: leaf_wf_def)
  then have "descend h n np key p v k = Inr (p, v)" by (cases k) auto
  moreover have "btree (snd (bt_insert_ver_at h n (p * 0x4000) key id16 val)) n np 0 p (insert_ver (key, id16, val) (leaf_cells h (p * 0x4000)))"
    if "ver_len (key, id16, val) + 2 \<le> leaf_free h (p * 0x4000)"
    using insert_leaf(2,3) [OF leaf(2) assms(3) that] btree.leaf [OF leaf(1)] by metis
  ultimately show ?case using leaf by auto
next
  case (node p css d)
  let ?b = "p * 0x4000"
  define i where "i = length (takeWhile (\<lambda>s. s \<le> key) (seps h ?b))"
  note pos = takeWhile_pos [OF node.hyps(3), where key = key, folded i_def]
  have len: "length css = Suc (length (seps h ?b))" using node.hyps(4) by (simp add: children_def seps_def)
  have i: "i < length css" using pos(1) len by simp
  define r where "r = children h ?b ! i"
  have ch: "bt_internal_child h n ?b key = r" by (simp add: internal_child [OF node.hyps(2)] i_def r_def)
  have b8: "bt_read8 h n (?b + 20) = 2" using node.hyps(2) by (auto simp: int_layout_def)
  have rp: "r < np" "r \<noteq> p" using node.IH [OF i] unfolding r_def by (auto elim: btree.cases)
  obtain k' where k: "k = Suc k'" "d \<le> k'" using node.prems by (cases k) auto
  have nth: "children h ?b ! j \<in> set (children h ?b)" if "j < length css" for j using that node.hyps(4) by simp
  have dist: "distinct (tree_pages h d (children h ?b ! j))" if "j < length css" for j
    using node.prems(2) nth [OF that] by (auto simp: distinct_concat_iff)
  obtain q where q: "descend h n np key r (Suc v) k' = Inr (q, Suc v + d)" "q \<in> set (tree_pages h d r)" "q < np" "leaf_wf h n (q * 0x4000)"
      "ver_len (key, id16, val) + 2 \<le> leaf_free h (q * 0x4000) \<Longrightarrow>
        btree (snd (bt_insert_ver_at h n (q * 0x4000) key id16 val)) n np d r (insert_ver (key, id16, val) (css ! i))"
    using node.IH [OF i] k(2) dist [OF i] unfolding r_def by blast
  have down: "descend h n np key p v k = descend h n np key r (Suc v) k'" using rp ch b8 by (simp add: k Let_def)
  have "q \<noteq> p" using node.prems(2) q(2) nth [OF i] by (auto simp: r_def)
  have apart: "q \<notin> set (tree_pages h d (children h ?b ! j))" if j: "j < length css" "j \<noteq> i" for j
  proof -
    have "distinct (concat (map (tree_pages h d) (children h ?b)))" using node.prems(2) by simp
    from concat_apart [OF this, of i j] show ?thesis using j i q(2) node.hyps(4) by (auto simp: r_def)
  qed
  have "btree h' n np (Suc d) p (insert_ver (key, id16, val) (concat css))"
    if room: "ver_len (key, id16, val) + 2 \<le> leaf_free h (q * 0x4000)" and h': "h' = snd (bt_insert_ver_at h n (q * 0x4000) key id16 val)" for h'
  proof -
    note I = insert_leaf [OF q(4) assms(3) room, folded h']
    define css' where "css' = css[i := insert_ver (key, id16, val) (css ! i)]"
    have sp: "same_page h h' p" using I(5) [of p] \<open>q \<noteq> p\<close> by auto
    note S = int_same [OF sp I(4) node.hyps(2)]
    have c: "children h ?b ! j \<noteq> p \<and> btree h' n np d (children h ?b ! j) (css' ! j)" if "j < length css" for j
    proof (cases "j = i")
      case True
      then show ?thesis using q(5) [OF room] i rp by (simp add: css'_def r_def h')
    next
      case False
      have "\<forall>x \<in> set (tree_pages h d (children h ?b ! j)). same_page h h' x"
        using apart [OF that False] I(5) by metis
      from btree_frame [OF _ I(4) this] node.IH [OF that] have "btree h' n np d (children h ?b ! j) (css ! j)" by blast
      then show ?thesis using node.IH [OF that] False by (simp add: css'_def)
    qed
    have cset: "set (css' ! j) \<subseteq> (if j = i then insert (key, id16, val) (set (css ! j)) else set (css ! j))" if "j < length css" for j
      using that i by (simp add: css'_def set_insert_ver)
    have cat: "insert_ver (key, id16, val) (concat css) = concat css'"
      unfolding css'_def
    proof (rule insert_ver_concat [OF i])
      fix j c assume "j < i" "c \<in> set (css ! j)"
      then show "fst c < fst (key, id16, val)" using node.hyps(5) [of j c] pos(1) pos(2) [of j] by auto
    next
      fix j c assume j: "i < j" "j < length css" "c \<in> set (css ! j)"
      then obtain j' where "j = Suc j'" "i \<le> j'" by (cases j) auto
      then show "fst (key, id16, val) < fst c" using node.hyps(6) [of j' c] pos(3) [of j'] j(2,3) len by auto
    qed
    show ?thesis
      unfolding cat
    proof (rule btree.node)
      show "length css' = length (children h' ?b)" using node.hyps(4) S by (simp add: css'_def)
      show "children h' ?b ! j \<noteq> p \<and> btree h' n np d (children h' ?b ! j) (css' ! j)" if "j < length css'" for j
        using c [of j] that S by (simp add: css'_def)
      show "fst c < seps h' ?b ! j" if "j < length (seps h' ?b)" "c \<in> set (css' ! j)" for j c
      proof -
        have j: "j < length (seps h ?b)" and cj: "c \<in> set (css' ! j)" using that S by simp_all
        then consider "c \<in> set (css ! j)" | "j = i" "c = (key, id16, val)" using cset [of j] len by (auto split: if_splits)
        then show ?thesis using node.hyps(5) [OF j] pos(3) [of j] j S by cases auto
      qed
      show "seps h' ?b ! j \<le> fst c" if "j < length (seps h' ?b)" "c \<in> set (css' ! Suc j)" for j c
      proof -
        have j: "j < length (seps h ?b)" and cj: "c \<in> set (css' ! Suc j)" using that S by simp_all
        then consider "c \<in> set (css ! Suc j)" | "Suc j = i" "c = (key, id16, val)" using cset [of "Suc j"] len by (auto split: if_splits)
        then show ?thesis using node.hyps(6) [OF j] pos(2) [of j] j S by cases auto
      qed
    qed (use node.hyps(1,3) S in auto)
  qed
  then show ?case using q down nth [OF i] by (auto simp: r_def)
qed
section \<open>Insertion in the heap\<close>

lemma put_at_slice: "a + k \<le> length h \<Longrightarrow> put_at h a (bslice h a k) = h"
  by (rule nth_equalityI) (auto simp: put_at_nth)

text \<open>When both images are equal, or are the same slice, copying a page changes only the mask.\<close>

lemma cow_same: "n \<le> length h \<Longrightarrow> \<exists>m'. bt_cow_page h h n pg m = (m', h)"
  by (auto simp: bt_cow_page_def Let_def put_at_slice)

lemma ins_descend_same:
  assumes "btree h n np d p cs" "n \<le> length h"
  shows "d \<le> k \<Longrightarrow> length path + d \<le> 33 \<Longrightarrow> descend h n np key p v k = Inr (q, v + d) \<Longrightarrow> (d = 0 \<longrightarrow> bt_read8 h n (q * 0x4000 + 20) = 1) \<Longrightarrow>
    \<exists>par path' m'. ins_descend h n np key h m p par0 path k = (Some (q, par, path', m'), h)"
  using assms(1)
proof (induction arbitrary: k v m par0 path rule: btree.induct)
  case (leaf p)
  have "bt_read8 h n (p * 0x4000 + 20) = 1"
    using leaf(2) leaf_layoutD(1,2,3) [of h n "p * 0x4000"] by (auto simp: leaf_wf_def)
  moreover from this leaf have "p = q" by (cases k) auto
  ultimately show ?case by (cases k) auto
next
  case (node p css d)
  let ?b = "p * 0x4000"
  define i where "i = length (takeWhile (\<lambda>s. s \<le> key) (seps h ?b))"
  have i: "i < length css" using takeWhile_pos(1) [OF node.hyps(3)] node.hyps(4) by (simp add: i_def children_def seps_def less_Suc_eq_le)
  define r where "r = children h ?b ! i"
  have ch: "bt_internal_child h n ?b key = r" by (simp add: internal_child [OF node.hyps(2)] i_def r_def)
  have b8: "bt_read8 h n (?b + 20) = 2" using node.hyps(2) by (auto simp: int_layout_def)
  have rp: "r < np" "r \<noteq> p" and br: "btree h n np d r (css ! i)" using node.IH [OF i] unfolding r_def by (auto elim: btree.cases)
  obtain k' where k: "k = Suc k'" "d \<le> k'" using node.prems by (cases k) auto
  have dd: "descend h n np key r (Suc v) k' = Inr (q, Suc v + d)" using node.prems(3) rp ch b8 by (simp add: k Let_def)
  obtain m' where m': "bt_cow_page h h n r m = (m', h)" using cow_same [OF assms(2)] by blast
  have r8: "bt_read8 h n (r * 0x4000 + 20) = (if d = 0 then 1 else 2)"
    using br
  proof (cases rule: btree.cases)
    case leaf
    then show ?thesis using leaf_layoutD(1,2,3) [of h n "r * 0x4000"] by (auto simp: leaf_wf_def)
  next
    case (node css' d')
    then show ?thesis by (auto simp: int_layout_def)
  qed
  have "d = 0 \<Longrightarrow> q = r" using dd br by (cases k') (auto elim!: btree.cases simp: r8)
  then have q8: "d = 0 \<longrightarrow> bt_read8 h n (q * 0x4000 + 20) = 1" using r8 by auto
  have step: "ins_descend h n np key h m p par0 path k = ins_descend h n np key h m' r p (if d = 0 then path else path @ [r]) k'"
    using node.prems(2) rp b8 r8 by (simp add: k ch m' Let_def)
  have IH: "\<exists>par path' m'. ins_descend h n np key h m p' par0 path k = (Some (q, par, path', m'), h)"
    if "p' = r" "d \<le> k" "length path + d \<le> 33" "descend h n np key r v k = Inr (q, v + d)" for k v m p' par0 path
    using node.IH [OF i, folded r_def] that q8 by blast
  show ?case
    unfolding step using node.prems(2) by (intro IH [OF refl k(2) _ dd]) auto
qed
lemma ver_found_ok: "bs_Ok (fst (bt_insert_ver_at h n base key id16 val)) \<Longrightarrow>
    ver_found n key id16 val False h base = (Some True, snd (bt_insert_ver_at h n base key id16 val))"
  and ver_ins_ok: "bs_Ok (fst (bt_insert_ver_at h n base key id16 val)) \<Longrightarrow>
    ver_ins n key id16 val h base = (True, snd (bt_insert_ver_at h n base key id16 val))"
  by (auto simp: ver_found_def ver_ins_def case_prod_beta)

section \<open>A leaf of two cells\<close>

lemma backward_loop_one: "backward_loop page v49 (Suc 0) = Some 1"
  by simp

lemma ver_split_point_two: "ver_split_point page 2 v49 = None"
proof -
  have "shrink_loop 16 page 2 1 v49 = (1, v49)" by (subst shrink_loop.simps) simp
  moreover have "forward_loop page 1 1 = (if same_key page 1 then 2 else 1)" by simp
  ultimately show ?thesis by (simp add: ver_split_point_def numeral_2_eq_2)
qed

lemma put_at_outside:
  "a < off \<or> off + length bs \<le> a \<Longrightarrow> off + length bs \<le> length p \<Longrightarrow> a < length p \<Longrightarrow> put_at p off bs ! a = p ! a"
  by (auto simp: put_at_nth)

lemma leaf_init_drop: "0x4000 \<le> length p \<Longrightarrow> drop 0x4000 (snd (Db_bt_leaf_init p 0x4000)) = drop 0x4000 p"
  and leaf_init_length [simp]: "length (snd (Db_bt_leaf_init p 0x4000)) = length p"
proof -
  show L: "length (snd (Db_bt_leaf_init p 0x4000)) = length p"
    by (simp add: Db_bt_leaf_init_def bt_write8_def Let_def)
  assume "0x4000 \<le> length p"
  moreover from this have "snd (Db_bt_leaf_init p 0x4000) ! i = p ! i" if "0x4000 \<le> i" "i < length p" for i
    using that by (auto simp: Db_bt_leaf_init_def bt_bounds_def bt_write8_def Let_def put_at_nth)
  ultimately show "drop 0x4000 (snd (Db_bt_leaf_init p 0x4000)) = drop 0x4000 p"
    by (intro nth_equalityI) (auto simp: L)
qed

lemma leaf_init_other:
  assumes "dst < np" "np * 0x4000 \<le> length h" "r \<noteq> dst"
  defines "h' \<equiv> take (dst * 0x4000) h @ snd (Db_bt_leaf_init (drop (dst * 0x4000) h) 0x4000)"
  shows "same_page h h' r" "length h' = length h"
proof -
  have b: "dst * 0x4000 + 0x4000 \<le> length h" using mult_le_mono1 [of "dst + 1" np "0x4000"] assms(1,2) by simp
  show "length h' = length h" using b by (simp add: h'_def)
  have "drop (dst * 0x4000 + 0x4000) h' = drop (dst * 0x4000 + 0x4000) h"
    using leaf_init_drop [of "drop (dst * 0x4000) h"] b by (simp add: h'_def add.commute)
  then show "same_page h h' r"
    using b assms(3) by (intro other_page [of dst]) (simp_all add: h'_def)
qed

text \<open>Splitting fails for a leaf of at most two cells, whatever the cells.\<close>

lemma chain_split_ver_two:
  assumes "get16 h (src * 0x4000 + 22) \<le> 2" "np * 0x4000 \<le> length h"
  shows "\<not> fst (bt_chain_split_ver h np src dst)"
proof (cases "src \<ge> np \<or> dst \<ge> np \<or> src = dst")
  case True
  then show ?thesis by (auto simp: bt_chain_split_ver_def)
next
  case False
  define h' where "h' = take (dst * 0x4000) h @ snd (Db_bt_leaf_init (drop (dst * 0x4000) h) 0x4000)"
  have b: "src * 0x4000 + 0x4000 \<le> length h" using mult_le_mono1 [of "src + 1" np "0x4000"] False assms(2) by simp
  note o = leaf_init_other [OF _ assms(2), of dst src, folded h'_def]
  have "get16 (drop (src * 0x4000) h') 22 = get16 h (src * 0x4000 + 22)"
    using same_page_get(1) [OF o(1), of 22] False by (simp add: get16_def bslice_def add.commute)
  then have "unat (bt_read16 (drop (src * 0x4000) h') 0x4000 22) \<le> 2"
    using assms(1) b o(2) False by (subst get16_read) auto
  then consider "unat (bt_read16 (drop (src * 0x4000) h') 0x4000 22) \<le> 1" | "unat (bt_read16 (drop (src * 0x4000) h') 0x4000 22) = 2"
    by linarith
  then show ?thesis
    by cases (use False in \<open>auto simp: bt_chain_split_ver_def h'_def Let_def case_prod_beta ver_split_point_two split: option.splits\<close>)
qed

section \<open>A heap of one leaf\<close>

definition one_leaf :: "bytes \<Rightarrow> cell list \<Rightarrow> nat \<Rightarrow> bool" where
  "one_leaf h cs f \<longleftrightarrow> length h = 0x10000 \<and> leaf_wf h 0x10000 0 \<and> leaf_cells h 0 = cs \<and> leaf_free h 0 = f \<and> get64 h 8 = 0"

definition empty_leaf :: bytes where
  "empty_leaf = snd (Db_bt_leaf_init (replicate 0x4000 0) 0x4000) @ replicate 0xc000 0"

lemma one_leaf_empty: "one_leaf empty_leaf [] 0x3fc0"
proof -
  define p :: bytes where "p = put_at (put_at (put_at ((replicate 0x4000 0)[20 := 1]) 22 (le_put16 0)) 24 (le_put16 64)) 26 (le_put16 0x4000)"
  have e: "empty_leaf = p @ replicate 0xc000 0"
    by (simp add: empty_leaf_def p_def Db_bt_leaf_init_def bt_bounds_def bt_write8_def Let_def)
  have l: "length p = 0x4000" by (simp add: p_def)
  have g: "get16 empty_leaf a = get16 p a" if "a + 2 \<le> 0x4000" for a using that l by (simp add: e get16_def bslice_def)
  have h: "get16 empty_leaf 22 = 0" "get16 empty_leaf 24 = 64" "get16 empty_leaf 26 = 0x4000"
    by (subst g; simp add: p_def)+
  have "empty_leaf ! 20 = 1" using l by (simp add: e nth_append p_def put_at_nth)
  moreover have "bslice empty_leaf 8 8 = replicate 8 0" using l by (intro nth_equalityI) (auto simp: e nth_append p_def put_at_nth)
  then have "get64 empty_leaf 8 = 0" by (simp add: get64_def le_get64_def nth_replicate)
  ultimately show ?thesis using l h by (simp add: one_leaf_def leaf_wf_def leaf_layout_def leaf_cells_def leaf_free_def e)
qed

lemma one_leaf_put:
  assumes "one_leaf h cs f" "cell_ok (k, i, v)" "ver_len (k, i, v) + 2 \<le> f"
  shows "one_leaf (put_ver 0x10000 0 h k i v) (insert_ver (k, i, v) cs) (f - (ver_len (k, i, v) + 2))"
proof -
  have h: "length h = 0x10000" "leaf_wf h 0x10000 0" "leaf_cells h 0 = cs" "leaf_free h 0 = f" "get64 h 8 = 0"
    using assms(1) by (simp_all add: one_leaf_def)
  have L: "leaf_layout h 0x10000 0" using h(2) by (simp add: leaf_wf_def)
  note E = insert_ver_effect [OF L assms(2), unfolded h(4), OF assms(3)]
  have "get64 (put_ver 0x10000 0 h k i v) 8 = 0" using E(6) [of 8 8] h(1,5) by (simp add: put_ver_def get64_def)
  moreover have "leaf_free (put_ver 0x10000 0 h k i v) 0 = f - (ver_len (k, i, v) + 2)"
    using E(3,4) h(4) leaf_layoutD(4) [OF L] by (simp add: put_ver_def leaf_free_def)
  ultimately show ?thesis using put_ver_cells [OF h(2), of k i v] E(1) h assms by (simp add: one_leaf_def ver_fits_def put_ver_def)
qed

lemma one_leaf_tree:
  assumes "one_leaf h cs f"
  shows "btree h (length h) 4 0 0 cs" "distinct (tree_pages h 0 0)" "length h = 4 * 0x4000" "descend h (length h) 4 key 0 0 4 = Inr (0, 0)"
proof -
  have h: "length h = 0x10000" "leaf_wf h 0x10000 0" "leaf_cells h 0 = cs" using assms by (simp_all add: one_leaf_def)
  show "btree h (length h) 4 0 0 cs" using btree.leaf [of 0 4 h "0x10000"] h by simp
  have "bt_read8 h 0x10000 20 = 1" using h(1) leaf_layoutD(3) [of h "0x10000" 0] h(2) by (simp add: leaf_wf_def)
  then show "descend h (length h) 4 key 0 0 4 = Inr (0, 0)" using h(1) descend.simps(2) [of h "length h" 4 key 0 0 3] by simp
qed (use assms in \<open>simp_all add: one_leaf_def\<close>)

text \<open>C27: inserting a version in a tree of pages, with both images equal and room in the leaf the key belongs to, succeeds,
  keeps the root and the number of pages, and leaves a well-formed tree that holds the old cells with the new one at its
  sorted place - so that reads of every key at every snapshot are those of the extended list.\<close>

theorem insert_tree_refines:
  assumes t: "btree h (length h) np d root cs" "distinct (tree_pages h d root)" and n: "length h = np * 0x4000" "d < np" "d \<le> 32"
    and link: "d = 0 \<longrightarrow> get64 h (root * 0x4000 + 8) = 0" and cell: "cell_ok (key, id16, val)"
    and leaf: "descend h (length h) np key root 0 np = Inr (q, d)" and room: "ver_len (key, id16, val) + 2 \<le> leaf_free h (q * 0x4000)"
    and st: "hs_Root st = root"
  shows "case Db_bt_insert_ver_heap h h (length h) np st key id16 val of (st', h') \<Rightarrow>
    hs_Ok st' \<and> hs_Root st' = root \<and> hs_Used st' = used_pages st \<and> length h' = length h
    \<and> btree h' (length h) np d root (insert_ver (key, id16, val) cs)"
proof -
  let ?n = "length h" and ?b = "q * 0x4000"
  define h' where "h' = snd (bt_insert_ver_at h ?n ?b key id16 val)"
  obtain q' where "descend h ?n np key root 0 np = Inr (q', 0 + d)" "q' < np" "leaf_wf h ?n (q' * 0x4000)" "d = 0 \<longrightarrow> q' = root"
      "ver_len (key, id16, val) + 2 \<le> leaf_free h (q' * 0x4000) \<longrightarrow>
        btree (snd (bt_insert_ver_at h ?n (q' * 0x4000) key id16 val)) ?n np d root (insert_ver (key, id16, val) cs)"
    using btree_insert [OF t cell, of np 0] n(2) by auto
  then have q: "q < np" "leaf_wf h ?n ?b" "d = 0 \<Longrightarrow> q = root" "btree h' ?n np d root (insert_ver (key, id16, val) cs)"
    using leaf room by (auto simp: h'_def)
  note I = insert_leaf [OF q(2) cell room, folded h'_def]
  have L: "leaf_layout h ?n ?b" using q(2) by (simp add: leaf_wf_def)
  have q8: "bt_read8 h ?n (?b + 20) = 1" using leaf_layoutD(1,2,3) [OF L] by auto
  note found = ver_found_ok [OF I(1), folded h'_def] and ins = ver_ins_ok [OF I(1), folded h'_def]
  have root: "root < np" using t(1) by (auto elim: btree.cases)
  have guard: "ins_guard h h ?n np st key val" "id16 \<noteq> []"
    using cell n root st leaf_layoutD(1) [OF L] by (auto simp: ins_guard_def cell_ok_def)
  obtain m where m: "bt_cow_page h h ?n root 0 = (m, h)" using cow_same [of ?n h root 0] by auto
  have "\<exists>m'. Db_bt_insert_ver_heap h h ?n np st key id16 val = hst_done h' ?n np root (used_pages st) m'"
  proof (cases "d = 0")
    case False
    then have r8: "bt_read8 h ?n (root * 0x4000 + 20) = 2"
      using t(1) by (auto elim!: btree.cases simp: int_layout_def)
    obtain par path' m' where desc: "ins_descend h ?n np key h m root root [root] np = (Some (q, par, path', m'), h)"
      using ins_descend_same [OF t(1) order_refl, of np "[root]" key 0 q m root] leaf n False by auto
    show ?thesis using guard r8 desc st found ins m
      by (auto simp: Db_bt_insert_ver_heap_def bt_insert_ver_heap_impl_def tree_insert_ver_def Let_def)
  next
    case True
    obtain np' where np': "np = Suc np'" using n(2) by (cases np) auto
    obtain m2 where m2: "bt_cow_page h h ?n root m = (m2, h)" using cow_same [of ?n h root m] by auto
    obtain m3 where m3: "bt_cow_page h h ?n root m2 = (m3, h)" using cow_same [of ?n h root m2] by auto
    have l: "unat (bt_read64 h ?n (root * 0x4000 + 8)) = 0"
      using link True q(3) leaf_layoutD(1,2) [OF L] by (subst get64_read) auto
    show ?thesis using guard st found ins m m2 m3 q(3) [OF True] q8 root l True
      by (auto simp: Db_bt_insert_ver_heap_def bt_insert_ver_heap_impl_def chain_insert_def np' Let_def)
  qed
  then show ?thesis using q(4) I(4) by (auto simp: hst_done_def hst_ok_def)
qed

theorem insert_tree_refines_witness:
  "btree (snd (Db_bt_insert_ver_heap empty_leaf empty_leaf (length empty_leaf) 4 (hst_ok 0 1 0 0) [7] (replicate 16 2) [42])) (length empty_leaf)
    4 0 0 [([7], replicate 16 2, [42])]"
proof -
  note T = one_leaf_tree [OF one_leaf_empty]
  have f: "get64 empty_leaf 8 = 0" "leaf_free empty_leaf 0 = 0x3fc0" using one_leaf_empty by (simp_all add: one_leaf_def)
  have "case Db_bt_insert_ver_heap empty_leaf empty_leaf (length empty_leaf) 4 (hst_ok 0 1 0 0) [7] (replicate 16 2) [42] of (st', h') \<Rightarrow>
      hs_Ok st' \<and> hs_Root st' = 0 \<and> hs_Used st' = used_pages (hst_ok 0 1 0 0) \<and> length h' = length empty_leaf
      \<and> btree h' (length empty_leaf) 4 0 0 (insert_ver ([7], replicate 16 2, [42]) [])"
    by (rule insert_tree_refines [OF T(1,2,3) _ _ _ _ T(4)]) (simp_all add: f cell_ok_def ver_len_def hst_ok_def)
  then show ?thesis by (auto simp: insert_ver_def)
qed

text \<open>A root leaf without room is split.\<close>

lemma full_root_grows:
  assumes wf: "leaf_wf h (length h) (root * 0x4000)" and n: "length h = np * 0x4000" and link: "get64 h (root * 0x4000 + 8) = 0"
    and cell: "cell_ok (key, id16, val)" and full: "\<not> ver_len (key, id16, val) + 2 \<le> leaf_free h (root * 0x4000)" and st: "hs_Root st = root"
  shows "\<exists>m. Db_bt_insert_ver_heap h h (length h) np st key id16 val
    = grow_root h (length h) np root (used_pages st) key bt_chain_split_ver (ver_ins (length h) key id16 val) True h m root"
proof -
  let ?n = "length h" and ?b = "root * 0x4000"
  have L: "leaf_layout h ?n ?b" using wf by (simp add: leaf_wf_def)
  have q8: "bt_read8 h ?n (?b + 20) = 1" using leaf_layoutD(1,2,3) [OF L] by auto
  have ins: "ver_ins ?n key id16 val h ?b = (False, h)"
    using insert_ver_refines [OF wf cell] full by (auto simp: ver_ins_def case_prod_beta)
  then have found: "ver_found ?n key id16 val False h ?b = (None, h)" by (simp add: ver_found_def)
  have root: "root < np" using leaf_layoutD(1) [OF L] n by simp
  obtain np' where np': "np = Suc np'" using root by (cases np) auto
  have guard: "ins_guard h h ?n np st key val" "id16 \<noteq> []"
    using cell n root st leaf_layoutD(1) [OF L] by (auto simp: ins_guard_def cell_ok_def)
  obtain m where m: "bt_cow_page h h ?n root 0 = (m, h)" using cow_same [of ?n h root 0] by auto
  obtain m2 where m2: "bt_cow_page h h ?n root m = (m2, h)" using cow_same [of ?n h root m] by auto
  obtain m3 where m3: "bt_cow_page h h ?n root m2 = (m3, h)" using cow_same [of ?n h root m2] by auto
  have l: "unat (bt_read64 h ?n (?b + 8)) = 0" using link leaf_layoutD(1,2) [OF L] by (subst get64_read) auto
  show ?thesis using guard st found ins m m2 m3 q8 root l
    by (auto simp: Db_bt_insert_ver_heap_def bt_insert_ver_heap_impl_def chain_insert_def np' Let_def)
qed

text \<open>C30: A leaf of two cells is never split: inserting a version that finds no room in it fails, whatever the key, the
  version, and the number of unused pages, although each half would have room.\<close>

theorem two_cells_never_split:
  assumes t: "btree h (length h) np d root cs" "distinct (tree_pages h d root)" and n: "length h = np * 0x4000" "d < np" "d \<le> 32"
    and link: "d = 0 \<longrightarrow> get64 h (root * 0x4000 + 8) = 0" and cell: "cell_ok (key, id16, val)"
    and leaf: "descend h (length h) np key root 0 np = Inr (q, d)" and full: "\<not> ver_len (key, id16, val) + 2 \<le> leaf_free h (q * 0x4000)"
    and two: "length (leaf_cells h (q * 0x4000)) \<le> 2" and st: "hs_Root st = root"
  shows "\<not> hs_Ok (fst (Db_bt_insert_ver_heap h h (length h) np st key id16 val))"
proof -
  let ?n = "length h" and ?b = "q * 0x4000"
  have q: "q < np" "leaf_wf h ?n ?b" "d = 0 \<Longrightarrow> q = root"
    using btree_insert [OF t cell, of np 0] n(2) leaf by auto
  have L: "leaf_layout h ?n ?b" using q(2) by (simp add: leaf_wf_def)
  have q8: "bt_read8 h ?n (?b + 20) = 1" using leaf_layoutD(1,2,3) [OF L] by auto
  have ins: "ver_ins ?n key id16 val h ?b = (False, h)"
    using insert_ver_refines [OF q(2) cell] full by (auto simp: ver_ins_def case_prod_beta)
  then have found: "ver_found ?n key id16 val False h ?b = (None, h)" by (simp add: ver_found_def)
  have split: "\<not> fst (bt_chain_split_ver h np q dst)" for dst
    using two n(1) by (intro chain_split_ver_two) (simp_all add: leaf_cells_def)
  have root: "root < np" using t(1) by (auto elim: btree.cases)
  obtain m where m: "bt_cow_page h h ?n root 0 = (m, h)" using cow_same [of ?n h root 0] by auto
  show ?thesis
  proof (cases "d = 0")
    case False
    then have r8: "bt_read8 h ?n (root * 0x4000 + 20) = 2"
      using t(1) by (auto elim!: btree.cases simp: int_layout_def)
    obtain par path' m' where desc: "ins_descend h ?n np key h m root root [root] np = (Some (q, par, path', m'), h)"
      using ins_descend_same [OF t(1) order_refl, of np "[root]" key 0 q m root] leaf n False by auto
    obtain hs where sp: "bt_chain_split_ver h np q (used_pages st) = (False, hs)"
      using split [of "used_pages st"] by (cases "bt_chain_split_ver h np q (used_pages st)") auto
    obtain m2 where m2: "bt_cow_page h h ?n (used_pages st) m' = (m2, h)" using cow_same [of ?n h] by auto
    show ?thesis using r8 desc st found ins m m2 sp
      by (auto simp: Db_bt_insert_ver_heap_def bt_insert_ver_heap_impl_def tree_insert_ver_def hst_fail_def hst_full_def Let_def split: prod.splits bool.splits if_splits)
  next
    case True
    note sp = split [unfolded q(3) [OF True]]
    have gr: "\<not> hs_Ok (fst (grow_root h ?n np root (used_pages st) key bt_chain_split_ver (ver_ins ?n key id16 val) True h mm root))" for mm
    proof -
      obtain m1 where m1: "bt_cow_page h h ?n root mm = (m1, h)" using cow_same [of ?n h root mm] by auto
      obtain m2 where m2: "bt_cow_page h h ?n (used_pages st) m1 = (m2, h)" using cow_same [of ?n h] by auto
      obtain hs where "bt_chain_split_ver h np root (used_pages st) = (False, hs)"
        using sp [of "used_pages st"] by (cases "bt_chain_split_ver h np root (used_pages st)") auto
      then show ?thesis using m1 m2 by (simp add: grow_root_def hst_fail_def)
    qed
    have "\<exists>m. Db_bt_insert_ver_heap h h ?n np st key id16 val
        = grow_root h ?n np root (used_pages st) key bt_chain_split_ver (ver_ins ?n key id16 val) True h m root"
      using q(2) full link True by (intro full_root_grows [OF _ n(1) _ cell _ st]) (simp_all add: q(3) [OF True])
    then show ?thesis using gr by auto
  qed
qed

text \<open>The witness: three keys of one byte with values of 6000 bytes in a heap of four pages.\<close>

definition two_big :: bytes where
  "two_big = put_ver 0x10000 0 (put_ver 0x10000 0 empty_leaf [1] (replicate 16 0) (replicate 6000 0)) [2] (replicate 16 0) (replicate 6000 0)"

theorem two_cells_never_split_witness:
  "\<not> hs_Ok (fst (Db_bt_insert_ver_heap two_big two_big (length two_big) 4 (hst_ok 0 1 0 0) [3] (replicate 16 0) (replicate 6000 0)))"
proof -
  have ok: "cell_ok ([k], replicate 16 0, replicate 6000 0)" "ver_len ([k], replicate 16 0, replicate 6000 0) = 6021" for k :: byte
    by (simp_all add: cell_ok_def ver_len_def)
  note O1 = one_leaf_put [OF one_leaf_empty ok(1) [of 1]]
  have "one_leaf (put_ver 0x10000 0 empty_leaf [1] (replicate 16 0) (replicate 6000 0)) [([1], replicate 16 0, replicate 6000 0)] 10297"
    using one_leaf_put [OF one_leaf_empty ok(1) [of 1]] by (simp add: ok insert_ver_def)
  from one_leaf_put [OF this ok(1) [of 2]]
  have O: "one_leaf two_big (insert_ver ([2], replicate 16 0, replicate 6000 0) [([1], replicate 16 0, replicate 6000 0)]) 4274"
    by (simp add: ok two_big_def)
  note T = one_leaf_tree [OF O]
  have f: "get64 two_big 8 = 0" "leaf_free two_big 0 = 4274" "length (leaf_cells two_big 0) = 2"
    using O by (simp_all add: one_leaf_def)
  show ?thesis
    by (rule two_cells_never_split [OF T(1,2,3) _ _ _ ok(1) T(4)]) (simp_all only: f ok mult_zero_left add_0, simp_all add: hst_ok_def)
qed

end
