(* ===== verification/Btree_Split_Props.thy ===== *)
theory Btree_Split_Props
  imports Btree_Insert
begin

text \<open>
  The split of a leaf of versioned keys: both loops that copy cells fill a page from its end (\<open>packed\<close>), so that the
  left page keeps a prefix of the cells and the right one gets the rest.
\<close>

section \<open>Pages filled from the top\<close>

definition tot :: "bytes list \<Rightarrow> nat" where
  "tot xs = sum_list (map length xs)"

lemma tot_simps [simp]: "tot [] = 0" "tot (x # xs) = length x + tot xs" "tot (xs @ ys) = tot xs + tot ys"
  by (simp_all add: tot_def)

lemma tot_take_le: "tot (take i xs) \<le> tot xs"
  by (metis append_take_drop_id le_add1 tot_simps(3))

text \<open>A page whose cells, as bytes, lie without gaps below its end, in the order of the slots.\<close>

definition packed :: "bytes \<Rightarrow> bytes list \<Rightarrow> bool" where
  "packed p xs \<longleftrightarrow> 0x4000 \<le> length p \<and> get16 p 22 = length xs \<and> get16 p 24 = 64 + 2 * length xs \<and> get16 p 26 = 0x4000 - tot xs
     \<and> 64 + 2 * length xs + tot xs \<le> 0x4000
     \<and> (\<forall>i < length xs. leaf_slot p 0 i = 0x4000 - tot (take (Suc i) xs) \<and> bslice p (leaf_slot p 0 i) (length (xs ! i)) = xs ! i)"

lemma copy_bytes_put:
  assumes "doff + k \<le> dn" "dn \<le> length dst" "soff + k \<le> sn" "sn \<le> length src"
  shows "bt_copy_bytes dst dn doff src sn soff k = put_at dst doff (bslice src soff k)"
  using assms
proof (induction k arbitrary: dst doff soff)
  case 0
  show ?case by (simp add: bslice_def)
next
  case (Suc k)
  have "bslice src soff (Suc k) = src ! soff # bslice src (Suc soff) k"
    using Suc.prems by (simp add: bslice_def Cons_nth_drop_Suc [symmetric])
  then show ?case using Suc by simp
qed

text \<open>One more cell: the step both copying loops make.\<close>

lemma packed_step:
  assumes P: "packed p xs" and src: "off + length x \<le> 0x4000" "0x4000 \<le> length src" "bslice src off (length x) = x"
    and room: "64 + 2 * Suc (length xs) + tot xs + length x \<le> 0x4000" and x: "x \<noteq> []"
  defines "c \<equiv> 0x4000 - tot xs - length x"
  defines "p' \<equiv> repack_put p src 0x4000 (length xs) off (length x) (64 + 2 * length xs) c"
  shows "packed p' (xs @ [x])" "length p' = length p" "drop 0x4000 p' = drop 0x4000 p" "take 22 p' = take 22 p"
proof -
  let ?m = "length xs"
  have l: "0x4000 \<le> length p" and g: "get16 p 22 = ?m" "get16 p 24 = 64 + 2 * ?m" "get16 p 26 = 0x4000 - tot xs"
    and s: "\<And>i. i < ?m \<Longrightarrow> leaf_slot p 0 i = 0x4000 - tot (take (Suc i) xs) \<and> bslice p (leaf_slot p 0 i) (length (xs ! i)) = xs ! i"
    using P by (auto simp: packed_def)
  have c: "66 + 2 * ?m \<le> c" "c + length x = 0x4000 - tot xs" "c < 0x4000" "c + length x \<le> 0x4000" using room x by (auto simp: c_def)
  define p1 where "p1 = put_at p c x"
  define p2 where "p2 = put_at p1 (64 + ?m * 2) (le_put16 (of_nat c))"
  have p': "p' = put_at (put_at (put_at p2 22 (le_put16 (of_nat (?m + 1)))) 24 (le_put16 (of_nat (64 + 2 * ?m + 2)))) 26 (le_put16 (of_nat c))"
    unfolding p'_def repack_put_def Let_def p2_def p1_def
    using l c src by (simp add: copy_bytes_put del: of_nat_Suc of_nat_add)
  have len: "length p1 = length p" "length p2 = length p" by (simp_all add: p1_def p2_def)
  show L: "length p' = length p" by (simp add: p' len)
  have F: "bslice p' a k = bslice p2 a k" if "a + k \<le> length p" "a + k \<le> 22 \<or> 28 \<le> a" for a k
    unfolding p' using that l len by (auto simp del: of_nat_Suc of_nat_add)
  have G: "bslice p2 a k = bslice p1 a k" if "a + k \<le> length p" "a + k \<le> 64 + ?m * 2 \<or> 66 + ?m * 2 \<le> a" for a k
    unfolding p2_def using that l c len by (subst bslice_put_at_other) auto
  have H: "bslice p1 a k = bslice p a k" if "a + k \<le> length p" "a + k \<le> c \<or> c + length x \<le> a" for a k
    unfolding p1_def using that l c by (subst bslice_put_at_other) auto
  have fr: "bslice p' a k = bslice p a k"
    if "a + k \<le> length p" "a + k \<le> 22 \<or> 28 \<le> a \<and> a + k \<le> 64 + ?m * 2 \<or> c + length x \<le> a" for a k
    using that c F [of a k] G [of a k] H [of a k] by auto
  have "bslice p' 0 22 = bslice p 0 22" using l by (intro fr) auto
  then show "take 22 p' = take 22 p" by (simp add: bslice_def)
  have "bslice p' 0x4000 (length p - 0x4000) = bslice p 0x4000 (length p - 0x4000)" using l c by (intro fr) auto
  then show "drop 0x4000 p' = drop 0x4000 p" using L by (simp add: bslice_def)
  have hd: "get16 p' 22 = Suc ?m" "get16 p' 24 = 64 + 2 * Suc ?m" "get16 p' 26 = c"
    unfolding p' using l c len by (simp_all del: of_nat_Suc of_nat_add)
  have old: "leaf_slot p' 0 i = leaf_slot p 0 i" if "i < ?m" for i
    unfolding leaf_slot_def get16_def using that l c by (subst fr) auto
  have new: "leaf_slot p' 0 ?m = c"
  proof -
    have "get16 p' (64 + ?m * 2) = get16 p2 (64 + ?m * 2)" unfolding get16_def using l c by (subst F) auto
    also have "\<dots> = c" unfolding p2_def using l c len by (subst get16_put) auto
    finally show ?thesis by (simp add: leaf_slot_def)
  qed
  have cell: "bslice p' c (length x) = x"
    using F [of c "length x"] G [of c "length x"] l c by (simp add: p1_def)
  have slots: "leaf_slot p' 0 i = 0x4000 - tot (take (Suc i) (xs @ [x])) \<and> bslice p' (leaf_slot p' 0 i) (length ((xs @ [x]) ! i)) = (xs @ [x]) ! i"
    if i: "i < Suc ?m" for i
  proof (cases "i = ?m")
    case True
    then show ?thesis using new cell by (simp add: c_def)
  next
    case False
    then have i: "i < ?m" using i by simp
    have "tot (take (Suc i) xs) \<le> tot xs" by (rule tot_take_le)
    moreover have "length (xs ! i) \<le> tot (take (Suc i) xs)" using i by (simp add: take_Suc_conv_app_nth)
    moreover have "tot xs \<le> 0x4000" using room by simp
    ultimately have "bslice p' (leaf_slot p 0 i) (length (xs ! i)) = bslice p (leaf_slot p 0 i) (length (xs ! i))"
      using s [OF i] l c(2) by (intro fr) auto
    then show ?thesis using old [OF i] s [OF i, THEN conjunct1] s [OF i, THEN conjunct2] i by (simp add: nth_append)
  qed
  have all: "\<forall>i < length (xs @ [x]). leaf_slot p' 0 i = 0x4000 - tot (take (Suc i) (xs @ [x]))
      \<and> bslice p' (leaf_slot p' 0 i) (length ((xs @ [x]) ! i)) = (xs @ [x]) ! i"
    by (intro allI impI slots) simp
  show "packed p' (xs @ [x])"
    unfolding packed_def by (intro conjI all) (use L l hd room in \<open>simp_all add: c_def\<close>)
qed

text \<open>The cells a page of slots and raw cells holds; a page that holds them may be copied to a packed one.\<close>

definition raw_cell :: "bytes \<Rightarrow> nat \<Rightarrow> bytes" where
  "raw_cell p i = bslice p (leaf_slot p 0 i) (cell_size p (leaf_slot p 0 i))"

definition cells_in :: "bytes \<Rightarrow> nat \<Rightarrow> bool" where
  "cells_in p m \<longleftrightarrow> 0x4000 \<le> length p \<and> 64 + m * 2 \<le> 0x4000
     \<and> (\<forall>i < m. 64 \<le> leaf_slot p 0 i \<and> leaf_slot p 0 i + cell_size p (leaf_slot p 0 i) \<le> 0x4000)"

lemma cells_inD:
  assumes "cells_in p m" "i < m"
  shows "unat (bt_read16 p 0x4000 (64 + i * 2)) = leaf_slot p 0 i" "bt_bounds p 0x4000 (leaf_slot p 0 i) 4"
    "unat (bt_read16 p 0x4000 (leaf_slot p 0 i)) = get16 p (leaf_slot p 0 i)"
    "unat (bt_read16 p 0x4000 (leaf_slot p 0 i + 2)) = get16 p (leaf_slot p 0 i + 2)"
    "cell_size p (leaf_slot p 0 i) = 4 + get16 p (leaf_slot p 0 i) + 16 + get16 p (leaf_slot p 0 i + 2)"
    "bt_bounds p 0x4000 (leaf_slot p 0 i) (cell_size p (leaf_slot p 0 i))" "length (raw_cell p i) = cell_size p (leaf_slot p 0 i)"
    "64 \<le> leaf_slot p 0 i" "leaf_slot p 0 i + cell_size p (leaf_slot p 0 i) \<le> 0x4000"
proof -
  have c: "0x4000 \<le> length p" "64 + i * 2 + 2 \<le> 0x4000" "64 \<le> leaf_slot p 0 i" "leaf_slot p 0 i + cell_size p (leaf_slot p 0 i) \<le> 0x4000"
    using assms by (auto simp: cells_in_def)
  show "cell_size p (leaf_slot p 0 i) = 4 + get16 p (leaf_slot p 0 i) + 16 + get16 p (leaf_slot p 0 i + 2)"
    by (simp add: cell_size_def)
  then show "unat (bt_read16 p 0x4000 (64 + i * 2)) = leaf_slot p 0 i" "bt_bounds p 0x4000 (leaf_slot p 0 i) 4"
    "unat (bt_read16 p 0x4000 (leaf_slot p 0 i)) = get16 p (leaf_slot p 0 i)"
    "unat (bt_read16 p 0x4000 (leaf_slot p 0 i + 2)) = get16 p (leaf_slot p 0 i + 2)"
    "bt_bounds p 0x4000 (leaf_slot p 0 i) (cell_size p (leaf_slot p 0 i))" "length (raw_cell p i) = cell_size p (leaf_slot p 0 i)"
    using c by (auto simp: bt_bounds_def raw_cell_def leaf_slot_def Let_def)
  show "64 \<le> leaf_slot p 0 i" "leaf_slot p 0 i + cell_size p (leaf_slot p 0 i) \<le> 0x4000" by (rule c)+
qed

lemma raw_cells_upt: "v < w \<Longrightarrow> map (raw_cell p) [v..<w] = raw_cell p v # map (raw_cell p) [Suc v..<w]"
  by (simp add: upt_conv_Cons)

lemma packedD:
  assumes "packed p xs"
  shows "0x4000 \<le> length p" "unat (bt_read16 p 0x4000 22) = length xs" "unat (bt_read16 p 0x4000 24) = 64 + 2 * length xs"
    "unat (bt_read16 p 0x4000 26) = 0x4000 - tot xs" "64 + 2 * length xs + tot xs \<le> 0x4000"
  using assms by (simp_all add: packed_def)

lemma repack_loop_packed:
  assumes "cells_in v3 m"
  shows "packed p xs \<Longrightarrow> length xs + k \<le> m \<Longrightarrow> 64 + 2 * (length xs + k) + tot (xs @ map (raw_cell v3) [length xs..<length xs + k]) \<le> 0x4000 \<Longrightarrow>
    \<exists>p'. repack_loop v3 0x4000 16 p (length xs) k = (True, p') \<and> packed p' (xs @ map (raw_cell v3) [length xs..<length xs + k])
      \<and> length p' = length p \<and> drop 0x4000 p' = drop 0x4000 p \<and> take 22 p' = take 22 p"
proof (induction k arbitrary: p xs)
  case (Suc k)
  let ?m = "length xs"
  define x where "x = raw_cell v3 ?m"
  define s where "s = leaf_slot v3 0 ?m"
  have i: "?m < m" using Suc.prems(2) by simp
  note C = cells_inD [OF assms i, folded s_def x_def]
  note P = packedD [OF Suc.prems(1)]
  have xs: "map (raw_cell v3) [?m..<?m + Suc k] = x # map (raw_cell v3) [Suc ?m..<Suc ?m + k]"
    using raw_cells_upt [of ?m "?m + Suc k" v3] by (simp add: x_def)
  have room: "64 + 2 * Suc ?m + tot xs + length x \<le> 0x4000" using Suc.prems(3) unfolding xs by simp
  have src: "s + length x \<le> 0x4000" "0x4000 \<le> length v3" "bslice v3 s (length x) = x"
    using C assms by (simp_all add: x_def raw_cell_def s_def cells_in_def)
  have "x \<noteq> []" using C(5,7) by auto
  define p1 where "p1 = repack_put p v3 0x4000 ?m s (length x) (64 + 2 * ?m) (0x4000 - tot xs - length x)"
  note S = packed_step [OF Suc.prems(1) src room \<open>x \<noteq> []\<close>, folded p1_def]
  have cond: "\<not> 0x4000 \<le> 64 + 2 * ?m" "\<not> 0x4000 - (64 + 2 * ?m) < 2" "\<not> 0x4000 - tot xs < length x"
    "\<not> 0x4000 - tot xs - length x < 64 + 2 * ?m + 2" using room by auto
  have e: "4 + get16 v3 s + 16 + get16 v3 (s + 2) = length x" using C by simp
  have b: "bt_bounds v3 0x4000 s (length x)" using C(6,7) by simp
  have step: "repack_loop v3 0x4000 16 p ?m (Suc k) = repack_loop v3 0x4000 16 p1 (Suc ?m) k"
    by (simp only: repack_loop.simps Let_def C(1-4) e b P cond p1_def if_False not_True_eq_False)
  have "\<exists>p'. repack_loop v3 0x4000 16 p1 (length (xs @ [x])) k = (True, p') \<and> packed p' ((xs @ [x]) @ map (raw_cell v3) [length (xs @ [x])..<length (xs @ [x]) + k])
      \<and> length p' = length p1 \<and> drop 0x4000 p' = drop 0x4000 p1 \<and> take 22 p' = take 22 p1"
    using Suc.prems(2,3) unfolding xs by (intro Suc.IH S(1)) auto
  then show ?case unfolding step xs using S(2-4) by simp
qed simp

text \<open>What is read of a page depends on its bytes only.\<close>

lemma page_cong:
  assumes "take 0x4000 q = take 0x4000 p" "0x4000 \<le> length p" "0x4000 \<le> length q"
  shows "a + k \<le> 0x4000 \<Longrightarrow> bslice q a k = bslice p a k" "a + 2 \<le> 0x4000 \<Longrightarrow> get16 q a = get16 p a"
    "cells_in p m \<Longrightarrow> cells_in q m" "cells_in p m \<Longrightarrow> i < m \<Longrightarrow> raw_cell q i = raw_cell p i"
proof -
  show b: "bslice q a k = bslice p a k" if "a + k \<le> 0x4000" for a k
    using that assms(1) bslice_take [of a k "0x4000" q] bslice_take [of a k "0x4000" p] by simp
  show g: "get16 q a = get16 p a" if "a + 2 \<le> 0x4000" for a using b [OF that] by (simp add: get16_def)
  have c: "leaf_slot q 0 i = leaf_slot p 0 i \<and> cell_size q (leaf_slot p 0 i) = cell_size p (leaf_slot p 0 i)
      \<and> leaf_slot p 0 i + cell_size p (leaf_slot p 0 i) \<le> 0x4000" if "cells_in p m" "i < m" for i
  proof -
    have "64 + i * 2 + 2 \<le> 0x4000" using that by (auto simp: cells_in_def)
    then have "leaf_slot q 0 i = leaf_slot p 0 i" by (simp add: leaf_slot_def g)
    moreover have "leaf_slot p 0 i + cell_size p (leaf_slot p 0 i) \<le> 0x4000" using that by (simp add: cells_in_def)
    ultimately show ?thesis by (simp add: cell_size_def g)
  qed
  show "cells_in p m \<Longrightarrow> cells_in q m" using assms(3) c by (simp add: cells_in_def)
  show "cells_in p m \<Longrightarrow> i < m \<Longrightarrow> raw_cell q i = raw_cell p i" using c b by (simp add: raw_cell_def)
qed

section \<open>Rewriting a page\<close>

lemma bslice_update: "i < a \<or> a + k \<le> i \<Longrightarrow> bslice (p[i := x]) a k = bslice p a k"
  by (rule nth_equalityI) (auto simp: nth_list_update)

lemma put_get64: "8 \<le> length xs \<Longrightarrow> le_put64 (le_get64 xs) = take 8 xs"
proof -
  assume "8 \<le> length xs"
  then have l: "length (take 8 xs) = 8" by simp
  have "le_get64 (take 8 xs) = of_le (take 8 xs)" by (simp only: le_get64_of_le list8_nth [OF l])
  then have "le_get64 xs = of_le (take 8 xs)" by simp
  then show ?thesis using to_le_of_le [of "take 8 xs", where ?'a = 64] l by (simp add: le_put64_to_le)
qed

lemma leaf_init_packed:
  assumes "0x4000 \<le> length p"
  shows "fst (Db_bt_leaf_init p 0x4000) = \<lparr>bs_Nkeys = 0, bs_Ok = True, bs_Copied = False\<rparr>"
    "packed (snd (Db_bt_leaf_init p 0x4000)) []" "snd (Db_bt_leaf_init p 0x4000) ! 20 = 1"
  using assms by (auto simp: packed_def Db_bt_leaf_init_def bt_bounds_def bt_write8_def put_at_nth Let_def)

lemma repack_packed:
  assumes C: "cells_in p m" and m: "get16 p 22 = m" and fit: "64 + 2 * m + tot (map (raw_cell p) [0..<m]) \<le> 0x4000"
  shows "\<exists>p'. bt_leaf_repack p 0x4000 16 = (True, p') \<and> packed p' (map (raw_cell p) [0..<m])
    \<and> length p' = length p \<and> drop 0x4000 p' = drop 0x4000 p \<and> take 22 p' = take 22 p"
proof -
  have l: "0x4000 \<le> length p" using C by (simp add: cells_in_def)
  define v3 where "v3 = take 0x4000 p"
  note V = page_cong [of v3 p, unfolded v3_def, simplified, OF l, folded v3_def]
  have C3: "cells_in v3 m" by (rule V(3) [OF C])
  have raw: "map (raw_cell v3) [0..<m] = map (raw_cell p) [0..<m]" using V(4) [OF C] by simp
  define q where "q = put_at (put_at (put_at (p[20 := 1]) 22 (le_put16 0)) 24 (le_put16 64)) 26 (le_put16 0x4000)"
  have init: "Db_bt_leaf_init p 0x4000 = (\<lparr>bs_Nkeys = 0, bs_Ok = True, bs_Copied = False\<rparr>, q)"
    using l by (auto simp: Db_bt_leaf_init_def bt_bounds_def bt_write8_def q_def Let_def)
  define q2 where "q2 = bt_write64 (bt_write8 q 0x4000 20 (bt_read8 v3 0x4000 20)) 0x4000 8 (bt_read64 v3 0x4000 8)"
  have q2: "q2 = put_at (q[20 := p ! 20]) 8 (bslice p 8 8)"
    using l by (simp add: q2_def q_def v3_def bt_write64_def bt_write8_def bt_read8_def bt_read64_def Let_def bslice_def put_get64 drop_take)
  have lq: "length q2 = length p" by (simp add: q2 q_def)
  have nth: "q2 ! i = p ! i" if "i < 22 \<or> 28 \<le> i" "i < length p" for i
    using that l by (auto simp: q2 q_def put_at_nth nth_list_update)
  have "get16 q2 a = get16 q a" if "22 \<le> a" "a + 2 \<le> 0x4000" for a
    unfolding get16_def q2 using that l by (simp add: bslice_update q_def)
  then have "packed q2 []" using l lq by (simp add: packed_def q_def)
  moreover have "take 22 q2 = take 22 p" "drop 0x4000 q2 = drop 0x4000 p"
    using l lq nth by (auto intro!: nth_equalityI)
  moreover have "unat (bt_read16 v3 0x4000 22) = m" using l m V(2) by (simp add: v3_def)
  moreover have "min 16 (length p) = 16" "p \<noteq> []" using l by auto
  ultimately show ?thesis
    using repack_loop_packed [OF C3, of q2 "[]" m] fit lq
    unfolding bt_leaf_repack_def init Let_def v3_def [symmetric] by (simp add: raw q2_def [symmetric])
qed

section \<open>Moving cells to another page\<close>

text \<open>A step that changes bytes of the page \<open>q\<close> only.\<close>

definition only_page :: "nat \<Rightarrow> bytes \<Rightarrow> bytes \<Rightarrow> bool" where
  "only_page q h h' \<longleftrightarrow> length h' = length h \<and> (\<forall>r. r \<noteq> q \<longrightarrow> same_page h h' r)"

lemma only_page_refl [simp]: "only_page q h h"
  by (simp add: only_page_def same_page_def)

lemma only_page_trans: "only_page q h h' \<Longrightarrow> only_page q h' h'' \<Longrightarrow> only_page q h h''"
  by (simp add: only_page_def same_page_def)

lemma set_page:
  assumes "length p' = length h - q * 0x4000" "drop 0x4000 p' = drop (q * 0x4000 + 0x4000) h" "q * 0x4000 + 0x4000 \<le> length h"
  defines "h' \<equiv> take (q * 0x4000) h @ p'"
  shows "length h' = length h" "drop (q * 0x4000) h' = p'" "take (q * 0x4000) h' = take (q * 0x4000) h" "r \<noteq> q \<Longrightarrow> same_page h h' r"
proof -
  show l: "length h' = length h" "drop (q * 0x4000) h' = p'" "take (q * 0x4000) h' = take (q * 0x4000) h"
    using assms(1,3) by (simp_all add: h'_def)
  have "drop (q * 0x4000 + 0x4000) h' = drop 0x4000 (drop (q * 0x4000) h')" by (simp add: add.commute)
  then have "drop (q * 0x4000 + 0x4000) h' = drop (q * 0x4000 + 0x4000) h" unfolding l(2) assms(2) .
  then show "r \<noteq> q \<Longrightarrow> same_page h h' r" by (rule other_page [OF l(3)])
qed

lemma same_page_cong:
  assumes "same_page h h' r" "length h' = length h" "r * 0x4000 + 0x4000 \<le> length h"
  shows "cells_in (drop (r * 0x4000) h) m \<Longrightarrow> cells_in (drop (r * 0x4000) h') m"
    "cells_in (drop (r * 0x4000) h) m \<Longrightarrow> i < m \<Longrightarrow> raw_cell (drop (r * 0x4000) h') i = raw_cell (drop (r * 0x4000) h) i"
    "a + 2 \<le> 0x4000 \<Longrightarrow> get16 (drop (r * 0x4000) h') a = get16 (drop (r * 0x4000) h) a"
    "a + k \<le> 0x4000 \<Longrightarrow> bslice (drop (r * 0x4000) h') a k = bslice (drop (r * 0x4000) h) a k"
proof -
  have "take 0x4000 (drop (r * 0x4000) h') = take 0x4000 (drop (r * 0x4000) h)" "0x4000 \<le> length (drop (r * 0x4000) h)" "0x4000 \<le> length (drop (r * 0x4000) h')"
    using assms by (simp_all add: same_page_def bslice_def)
  note P = page_cong [OF this]
  show "cells_in (drop (r * 0x4000) h) m \<Longrightarrow> cells_in (drop (r * 0x4000) h') m" by (rule P(3))
  show "cells_in (drop (r * 0x4000) h) m \<Longrightarrow> i < m \<Longrightarrow> raw_cell (drop (r * 0x4000) h') i = raw_cell (drop (r * 0x4000) h) i" by (rule P(4))
  show "a + 2 \<le> 0x4000 \<Longrightarrow> get16 (drop (r * 0x4000) h') a = get16 (drop (r * 0x4000) h) a" by (rule P(2))
  show "a + k \<le> 0x4000 \<Longrightarrow> bslice (drop (r * 0x4000) h') a k = bslice (drop (r * 0x4000) h) a k" by (rule P(1))
qed

lemma move_put_repack: "move_put heap v26 v30 v10 v143 v14 v158 v171 = take v30 heap @ repack_put (drop v30 heap) (drop v26 heap) 0x4000 v14 v10 v143 v158 v171"
  by (simp add: move_put_def on_slice_def repack_put_def Let_def)

lemma move_loop_packed:
  assumes ne: "src \<noteq> dst"
  shows "cells_in (drop (src * 0x4000) heap) m \<Longrightarrow> packed (drop (dst * 0x4000) heap) xs \<Longrightarrow> v8 + k \<le> m
    \<Longrightarrow> src * 0x4000 + 0x4000 \<le> length heap \<Longrightarrow> dst * 0x4000 + 0x4000 \<le> length heap
    \<Longrightarrow> 64 + 2 * (length xs + k) + tot (xs @ map (raw_cell (drop (src * 0x4000) heap)) [v8..<v8 + k]) \<le> 0x4000
    \<Longrightarrow> \<exists>p'. move_loop 16 heap (src * 0x4000) (dst * 0x4000) v8 k = (True, take (dst * 0x4000) heap @ p')
      \<and> packed p' (xs @ map (raw_cell (drop (src * 0x4000) heap)) [v8..<v8 + k])
      \<and> length p' = length heap - dst * 0x4000 \<and> drop 0x4000 p' = drop (dst * 0x4000 + 0x4000) heap
      \<and> take 22 p' = take 22 (drop (dst * 0x4000) heap)"
proof (induction k arbitrary: heap xs v8)
  case 0
  then show ?case by (intro exI [of _ "drop (dst * 0x4000) heap"]) (simp add: add.commute)
next
  case (Suc k)
  let ?m = "length xs" and ?s = "drop (src * 0x4000) heap" and ?d = "drop (dst * 0x4000) heap"
  define x where "x = raw_cell ?s v8"
  define s where "s = leaf_slot ?s 0 v8"
  have i: "v8 < m" using Suc.prems(3) by simp
  note C = cells_inD [OF Suc.prems(1) i, folded s_def x_def]
  note P = packedD [OF Suc.prems(2)]
  have xs: "map (raw_cell ?s) [v8..<v8 + Suc k] = x # map (raw_cell ?s) [Suc v8..<Suc v8 + k]"
    using raw_cells_upt [of v8 "v8 + Suc k" ?s] by (simp add: x_def)
  have room: "64 + 2 * Suc ?m + tot xs + length x \<le> 0x4000" using Suc.prems(6) unfolding xs by simp
  have sl: "0x4000 \<le> length ?s" using Suc.prems(4) by simp
  have xb: "s + length x \<le> 0x4000" "bslice ?s s (length x) = x"
    using C sl by (simp_all add: x_def raw_cell_def s_def)
  have "x \<noteq> []" using C(5,7) by auto
  define p1 where "p1 = repack_put ?d ?s 0x4000 ?m s (length x) (64 + 2 * ?m) (0x4000 - tot xs - length x)"
  note S = packed_step [OF Suc.prems(2) xb(1) sl xb(2) room \<open>x \<noteq> []\<close>, folded p1_def]
  define h1 where "h1 = take (dst * 0x4000) heap @ p1"
  have p1: "length p1 = length heap - dst * 0x4000" "drop 0x4000 p1 = drop (dst * 0x4000 + 0x4000) heap"
    using S(2,3) by (simp_all add: add.commute)
  note H = set_page [OF p1 Suc.prems(5), folded h1_def]
  note K = same_page_cong [OF H(4) [OF ne] H(1) Suc.prems(4)]
  have cond: "\<not> 0x4000 \<le> 64 + 2 * ?m" "\<not> 0x4000 - (64 + 2 * ?m) < 2" "\<not> 0x4000 - tot xs < length x"
    "\<not> 0x4000 - tot xs - length x < 64 + 2 * ?m + 2" using room by auto
  have e: "4 + get16 ?s s + 16 + get16 ?s (s + 2) = length x" using C by simp
  have b: "bt_bounds ?s 0x4000 s (length x)" using C(6,7) by simp
  have db: "bt_bounds ?d 0x4000 (0x4000 - tot xs - length x) (length x)" "bt_bounds ?d 0x4000 (64 + ?m * 2) 2"
    using P(1,5) room \<open>x \<noteq> []\<close> by (auto simp: bt_bounds_def Let_def)
  have so: "slot_of ?s v8 = s" using C(1) by (simp add: slot_of_def)
  have step: "move_loop 16 heap (src * 0x4000) (dst * 0x4000) v8 (Suc k) = move_loop 16 h1 (src * 0x4000) (dst * 0x4000) (Suc v8) k"
    by (simp only: move_loop.simps Let_def so C(2-4) e b P cond db move_put_repack p1_def h1_def if_False not_True_eq_False)
  have m: "map (raw_cell (drop (src * 0x4000) h1)) [Suc v8..<Suc v8 + k] = map (raw_cell ?s) [Suc v8..<Suc v8 + k]"
    using Suc.prems(3) by (intro map_cong refl K(2) [OF Suc.prems(1)]) auto
  have pr: "cells_in (drop (src * 0x4000) h1) m" "packed (drop (dst * 0x4000) h1) (xs @ [x])" "Suc v8 + k \<le> m"
    "src * 0x4000 + 0x4000 \<le> length h1" "dst * 0x4000 + 0x4000 \<le> length h1"
    "64 + 2 * (length (xs @ [x]) + k) + tot ((xs @ [x]) @ map (raw_cell ?s) [Suc v8..<Suc v8 + k]) \<le> 0x4000"
    using Suc.prems(3-6) K(1) [OF Suc.prems(1)] S(1) H(1,2) unfolding xs by auto
  note I = Suc.IH [OF pr(1-5), unfolded m, OF pr(6)]
  have d: "drop (dst * 0x4000 + 0x4000) h1 = drop (dst * 0x4000 + 0x4000) heap"
    using arg_cong [OF H(2), of "drop 0x4000"] p1(2) by (simp add: add.commute)
  show ?case unfolding step xs using I unfolding d H(1,2,3) S(4) by simp
qed

section \<open>Leaves and their pages\<close>

lemma bslice_of_drop [simp]: "bslice (drop b p) a k = bslice p (b + a) k"
  by (simp add: bslice_def add.commute)

lemma get16_of_drop [simp]: "get16 (drop b p) a = get16 p (b + a)"
  by (simp add: get16_def)

lemma cell_drop: "cell_at (drop b p) a = cell_at p (b + a)" "cell_size (drop b p) a = cell_size p (b + a)"
  by (simp_all add: cell_at_def cell_size_def add.assoc Let_def)

lemma cell_shift:
  assumes "bslice q b (cell_size p a) = bslice p a (cell_size p a)"
  shows "cell_at q b = cell_at p a" "cell_size q b = cell_size p a"
  using cell_at_cong [of "drop b q" 0 "drop a p"] assms by (simp_all add: cell_drop)

lemma leaf_slot_drop: "leaf_slot (drop base h) 0 i = leaf_slot h base i"
  by (simp add: leaf_slot_def)

lemma leaf_drop:
  "leaf_cells (drop base h) 0 = leaf_cells h base"
  "base + 0x4000 \<le> n \<Longrightarrow> n \<le> length h \<Longrightarrow> leaf_layout (drop base h) (n - base) 0 \<longleftrightarrow> leaf_layout h n base"
  by (auto simp: leaf_cells_def leaf_layout_def leaf_slot_drop cell_drop)

lemma leaf_cells_in: "leaf_layout p n 0 \<Longrightarrow> cells_in p (get16 p 22)"
  by (force simp: leaf_layout_def cells_in_def)

lemma packed_leaf:
  assumes P: "packed p (map (raw_cell q) is)" and C: "cells_in q m" and "\<forall>i \<in> set is. i < m" and "p ! 20 = 1"
  shows "leaf_layout p (length p) 0" "leaf_cells p 0 = map (\<lambda>i. cell_at q (leaf_slot q 0 i)) is"
proof -
  have l: "0x4000 \<le> length p" and g: "get16 p 22 = length is" "get16 p 24 = 64 + 2 * length is" "get16 p 26 = 0x4000 - tot (map (raw_cell q) is)"
      "64 + 2 * length is + tot (map (raw_cell q) is) \<le> 0x4000"
    and s: "\<And>j. j < length is \<Longrightarrow> leaf_slot p 0 j = 0x4000 - tot (take (Suc j) (map (raw_cell q) is))
      \<and> bslice p (leaf_slot p 0 j) (length (raw_cell q (is ! j))) = raw_cell q (is ! j)"
    using P by (auto simp: packed_def)
  have c: "cell_at p (leaf_slot p 0 j) = cell_at q (leaf_slot q 0 (is ! j)) \<and> get16 p 26 \<le> leaf_slot p 0 j \<and> leaf_slot p 0 j + cell_size p (leaf_slot p 0 j) \<le> 0x4000"
    if j: "j < length is" for j
  proof -
    have i: "is ! j < m" using assms(3) j by simp
    note D = cells_inD [OF C i]
    have "bslice p (leaf_slot p 0 j) (cell_size q (leaf_slot q 0 (is ! j))) = bslice q (leaf_slot q 0 (is ! j)) (cell_size q (leaf_slot q 0 (is ! j)))"
      by (rule s [OF j, THEN conjunct2, unfolded D(7), unfolded raw_cell_def])
    note E = cell_shift [OF this]
    have "tot (take (Suc j) (map (raw_cell q) is)) \<le> tot (map (raw_cell q) is)" by (rule tot_take_le)
    moreover have "length (raw_cell q (is ! j)) \<le> tot (take (Suc j) (map (raw_cell q) is))" using j by (simp add: take_Suc_conv_app_nth take_map)
    ultimately show ?thesis using E s [OF j, THEN conjunct1] g D(7) by auto
  qed
  show "leaf_cells p 0 = map (\<lambda>i. cell_at q (leaf_slot q 0 i)) is"
    using c by (intro nth_equalityI) (simp_all add: leaf_cells_def g)
  show "leaf_layout p (length p) 0"
    using c l g assms(4) unfolding leaf_layout_def by simp
qed

text \<open>Two pages that agree from an offset on.\<close>

definition agree :: "nat \<Rightarrow> bytes \<Rightarrow> bytes \<Rightarrow> bool" where
  "agree lo p q \<longleftrightarrow> 0x4000 \<le> length p \<and> 0x4000 \<le> length q \<and> (\<forall>a k. lo \<le> a \<longrightarrow> a + k \<le> 0x4000 \<longrightarrow> bslice q a k = bslice p a k)"

lemma agree_trans: "agree lo p q \<Longrightarrow> agree lo' q r \<Longrightarrow> agree (max lo lo') p r"
  by (simp add: agree_def)

lemma agree_put: "0x4000 \<le> length p \<Longrightarrow> a + length xs \<le> lo \<Longrightarrow> lo \<le> 0x4000 \<Longrightarrow> agree lo p (put_at p a xs)"
  by (simp add: agree_def)

lemma agree_same_page: "same_page h h' r \<Longrightarrow> length h' = length h \<Longrightarrow> r * 0x4000 + 0x4000 \<le> length h
    \<Longrightarrow> agree 0 (drop (r * 0x4000) h) (drop (r * 0x4000) h')"
  by (simp add: agree_def same_page_part)

lemma agree_get16: "agree lo p q \<Longrightarrow> lo \<le> a \<Longrightarrow> a + 2 \<le> 0x4000 \<Longrightarrow> get16 q a = get16 p a"
  by (simp add: agree_def get16_def)

lemma agree_byte:
  assumes "agree lo p q" "lo \<le> a" "a < 0x4000"
  shows "q ! a = p ! a"
proof -
  have "bslice q a 1 ! 0 = bslice p a 1 ! 0" using assms by (simp add: agree_def)
  moreover have "a < length p" "a < length q" using assms by (auto simp: agree_def)
  ultimately show ?thesis using bslice_nth [of 0 1 a q] bslice_nth [of 0 1 a p] by simp
qed

lemma agree_packed:
  assumes "agree lo p q" "lo \<le> 22" "packed p xs"
  shows "packed q xs"
proof -
  have g: "get16 q 22 = get16 p 22" "get16 q 24 = get16 p 24" "get16 q 26 = get16 p 26"
    using assms(2) by (auto intro!: agree_get16 [OF assms(1)])
  have s: "leaf_slot q 0 i = leaf_slot p 0 i" if "i < length xs" for i
    unfolding leaf_slot_def using assms(2,3) that by (intro agree_get16 [OF assms(1)]) (auto simp: packed_def)
  have b: "bslice q (leaf_slot p 0 i) (length (xs ! i)) = bslice p (leaf_slot p 0 i) (length (xs ! i))" if i: "i < length xs" for i
  proof -
    have "length (xs ! i) \<le> tot (take (Suc i) xs)" using i by (simp add: take_Suc_conv_app_nth)
    then show ?thesis
      using assms i tot_take_le [of "Suc i" xs] unfolding agree_def packed_def by auto
  qed
  have "leaf_slot q 0 i = 0x4000 - tot (take (Suc i) xs) \<and> bslice q (leaf_slot q 0 i) (length (xs ! i)) = xs ! i" if i: "i < length xs" for i
  proof -
    have "leaf_slot p 0 i = 0x4000 - tot (take (Suc i) xs)" "bslice p (leaf_slot p 0 i) (length (xs ! i)) = xs ! i"
      using assms(3) i unfolding packed_def by blast+
    then show ?thesis unfolding s [OF i] b [OF i] by (rule conjI)
  qed
  then show ?thesis using assms(1,3) unfolding packed_def g agree_def by blast
qed

lemma agree_cells:
  assumes "agree lo p q" "lo \<le> 64" "cells_in p m"
  shows "cells_in q m" "i < m \<Longrightarrow> raw_cell q i = raw_cell p i"
proof -
  have c: "leaf_slot q 0 i = leaf_slot p 0 i \<and> cell_size q (leaf_slot p 0 i) = cell_size p (leaf_slot p 0 i) \<and> raw_cell q i = raw_cell p i" if i: "i < m" for i
  proof -
    note D = cells_inD [OF assms(3) i]
    have "leaf_slot q 0 i = leaf_slot p 0 i"
      unfolding leaf_slot_def using assms i by (intro agree_get16) (auto simp: cells_in_def)
    moreover have "get16 q (leaf_slot p 0 i) = get16 p (leaf_slot p 0 i)" "get16 q (leaf_slot p 0 i + 2) = get16 p (leaf_slot p 0 i + 2)"
      using assms(1,2) D(5,8,9) by (auto intro!: agree_get16)
    then have "cell_size q (leaf_slot p 0 i) = cell_size p (leaf_slot p 0 i)" by (simp add: cell_size_def)
    ultimately show ?thesis using assms(1,2) D(8,9) by (simp add: raw_cell_def agree_def)
  qed
  show "cells_in q m" using assms c by (simp add: cells_in_def agree_def)
  show "i < m \<Longrightarrow> raw_cell q i = raw_cell p i" using c by simp
qed

section \<open>Where a leaf is split\<close>

lemma forward_loop_key: "forward_loop page v k < v + k \<Longrightarrow> \<not> same_key page (forward_loop page v k)"
  by (induction k arbitrary: v) (auto split: if_splits)

lemma backward_loop_key: "backward_loop page w v = Some i \<Longrightarrow> 1 < i \<Longrightarrow> \<not> same_key page i"
  by (induction v arbitrary: w) (auto simp: Let_def split: if_splits)

lemma ver_split_point_key:
  assumes "ver_split_point page m w = Some i"
  shows "1 < i" "i < m" "\<not> same_key page i"
proof -
  obtain v w' where s: "shrink_loop 16 page m (m div 2) w = (v, w')" by fastforce
  show i: "1 < i" "i < m" using assms by (auto simp: ver_split_point_def s Let_def split: option.splits if_splits)
  show "\<not> same_key page i"
  proof (cases "m \<le> forward_loop page v (m - v)")
    case True
    then show ?thesis using assms i backward_loop_key [of page w' v i]
      by (auto simp: ver_split_point_def s Let_def split: option.splits if_splits)
  next
    case False
    then have "i = forward_loop page v (m - v)"
      using assms by (auto simp: ver_split_point_def s Let_def split: option.splits if_splits)
    then show ?thesis using forward_loop_key [of page v "m - v"] i by auto
  qed
qed

lemma same_key_iff:
  assumes C: "cells_in p m" and i: "0 < i" "i < m"
  shows "same_key p i \<longleftrightarrow> fst (cell_at p (leaf_slot p 0 (i - 1))) = fst (cell_at p (leaf_slot p 0 i))"
proof -
  have i': "i - 1 < m" using i by simp
  note A = cells_inD [OF C i'] and B = cells_inD [OF C i(2)]
  have l: "0x4000 \<le> length p" using C by (simp add: cells_in_def)
  have s: "slot_of p (i - 1) = leaf_slot p 0 (i - 1)" "slot_of p i = leaf_slot p 0 i" using A(1) B(1) by (simp_all add: slot_of_def)
  have "bt_keycmp_at p 0x4000 (leaf_slot p 0 (i - 1) + 4) (get16 p (leaf_slot p 0 (i - 1))) k = ord3 (bslice p (leaf_slot p 0 (i - 1) + 4) (get16 p (leaf_slot p 0 (i - 1)))) k" for k
    using A(5,9) l by (intro keycmp_at_ord3) auto
  then have "same_key p i \<longleftrightarrow> get16 p (leaf_slot p 0 (i - 1)) = get16 p (leaf_slot p 0 i)
      \<and> fst (cell_at p (leaf_slot p 0 (i - 1))) = fst (cell_at p (leaf_slot p 0 i))"
    unfolding same_key_def Let_def s A(3) B(3) by (simp add: cell_at_def Let_def bslice_def)
  moreover have "length (fst (cell_at p (leaf_slot p 0 (i - 1)))) = get16 p (leaf_slot p 0 (i - 1))" "length (fst (cell_at p (leaf_slot p 0 i))) = get16 p (leaf_slot p 0 i)"
    using A(5,9) B(5,9) l by (simp_all add: cell_at_def Let_def)
  ultimately show ?thesis by auto
qed

section \<open>Cutting the left page and linking the right one\<close>

lemma on_slice_page:
  assumes "f (drop (q * 0x4000) h) = put_at (drop (q * 0x4000) h) a xs" "a + length xs \<le> 0x4000" "q * 0x4000 + 0x4000 \<le> length h"
  defines "h' \<equiv> on_slice h (q * 0x4000) f"
  shows "length h' = length h" "drop (q * 0x4000) h' = put_at (drop (q * 0x4000) h) a xs" "r \<noteq> q \<Longrightarrow> same_page h h' r"
proof -
  have "drop 0x4000 (put_at (drop (q * 0x4000) h) a xs) = drop (q * 0x4000 + 0x4000) h"
    using assms(2,3) by (intro nth_equalityI) (auto simp: put_at_nth add.assoc add.commute)
  note S = set_page [OF _ this assms(3)]
  show "length h' = length h" "drop (q * 0x4000) h' = put_at (drop (q * 0x4000) h) a xs" "r \<noteq> q \<Longrightarrow> same_page h h' r"
    unfolding h'_def on_slice_def assms(1) by (rule S; simp)+
qed

text \<open>The four writes between moving the cells and rewriting the left page.\<close>

definition cut_link :: "bytes \<Rightarrow> nat \<Rightarrow> nat \<Rightarrow> nat \<Rightarrow> nat \<Rightarrow> bytes" where
  "cut_link h2 v26 v30 dst i =
     (let h3 = on_slice h2 v26 (\<lambda>p. bt_write16 (bt_write16 p 0x4000 22 (of_nat i)) 0x4000 24 (of_nat (64 + i * 2)));
          h4 = on_slice h3 v26 (\<lambda>p. bt_write16 p 0x4000 26 (of_nat (min_off (drop v26 h3) 0x4000 0 i)));
          h5 = on_slice h4 v30 (\<lambda>p. bt_write64 p 0x4000 8 (bt_read64 (drop v26 h4) 0x4000 8))
      in on_slice h5 v26 (\<lambda>p. bt_write64 p 0x4000 8 (of_nat dst)))"

lemma split_at_cut:
  "split_at 16 h v26 v30 dst i m =
     (case move_loop 16 h v26 v30 i (m - i) of (False, h2) \<Rightarrow> (False, h2)
      | (True, h2) \<Rightarrow> (case bt_leaf_repack (drop v26 (cut_link h2 v26 v30 dst i)) 0x4000 16 of (ok, p) \<Rightarrow> (ok, take v26 (cut_link h2 v26 v30 dst i) @ p)))"
  by (simp only: split_at_def cut_link_def Let_def)

lemma cut_link_pages:
  assumes ne: "src \<noteq> dst" and b: "src * 0x4000 + 0x4000 \<le> length h" "dst * 0x4000 + 0x4000 \<le> length h" and i: "i < 65536"
  defines "h' \<equiv> cut_link h (src * 0x4000) (dst * 0x4000) dst i"
  shows "length h' = length h" "r \<noteq> src \<Longrightarrow> r \<noteq> dst \<Longrightarrow> same_page h h' r"
    "agree 28 (drop (src * 0x4000) h) (drop (src * 0x4000) h')" "get16 (drop (src * 0x4000) h') 22 = i"
    "drop (src * 0x4000) h' ! 20 = drop (src * 0x4000) h ! 20" "bslice (drop (src * 0x4000) h') 8 8 = le_put64 (of_nat dst)"
    "agree 16 (drop (dst * 0x4000) h) (drop (dst * 0x4000) h')" "bslice (drop (dst * 0x4000) h') 8 8 = bslice (drop (src * 0x4000) h) 8 8"
proof -
  let ?s = "src * 0x4000" and ?d = "dst * 0x4000"
  define f3 where "f3 = (\<lambda>p. bt_write16 (bt_write16 p 0x4000 22 (of_nat i)) 0x4000 24 (of_nat (64 + i * 2)))"
  define h3 where "h3 = on_slice h ?s f3"
  have p3: "f3 (drop ?s h) = put_at (drop ?s h) 22 (le_put16 (of_nat i) @ le_put16 (of_nat (64 + i * 2)))"
    using b put_at_append [of 22 "le_put16 (of_nat i)" "le_put16 (of_nat (64 + i * 2))"] by (simp add: f3_def)
  note H3 = on_slice_page [where f = f3 and q = src and h = h, OF p3, folded h3_def, simplified, OF b(1)]
  define v19 where "v19 = min_off (drop ?s h3) 0x4000 0 i"
  define h4 where "h4 = on_slice h3 ?s (\<lambda>p. bt_write16 p 0x4000 26 (of_nat v19))"
  have "bt_write16 (drop ?s h3) 0x4000 26 (of_nat v19) = put_at (drop ?s h3) 26 (le_put16 (of_nat v19))" using b H3(1) by simp
  note H4 = on_slice_page [where f = "\<lambda>p. bt_write16 p 0x4000 26 (of_nat v19)" and q = src and h = h3, OF this, folded h4_def, simplified, unfolded H3(1), OF b(1)]
  define link where "link = bt_read64 (drop ?s h4) 0x4000 8"
  define h5 where "h5 = on_slice h4 ?d (\<lambda>p. bt_write64 p 0x4000 8 link)"
  have "bt_write64 (drop ?d h4) 0x4000 8 link = put_at (drop ?d h4) 8 (le_put64 link)" using b H4(1) by (simp add: bt_write64_def Let_def)
  note H5 = on_slice_page [where f = "\<lambda>p. bt_write64 p 0x4000 8 link" and q = dst and h = h4, OF this, folded h5_def, simplified, unfolded H4(1), OF b(2)]
  have h': "h' = on_slice h5 ?s (\<lambda>p. bt_write64 p 0x4000 8 (of_nat dst))"
    by (simp add: h'_def cut_link_def f3_def h3_def v19_def h4_def link_def h5_def Let_def)
  have "bt_write64 (drop ?s h5) 0x4000 8 (of_nat dst) = put_at (drop ?s h5) 8 (le_put64 (of_nat dst))" using b H5(1) by (simp add: bt_write64_def Let_def)
  note H6 = on_slice_page [where f = "\<lambda>p. bt_write64 p 0x4000 8 (of_nat dst)" and q = src and h = h5, OF this, folded h', simplified, unfolded H5(1), OF b(1)]
  show len: "length h' = length h" by (rule H6(1))
  show "r \<noteq> src \<Longrightarrow> r \<noteq> dst \<Longrightarrow> same_page h h' r" using H3(3) H4(3) H5(3) H6(3) by (simp add: same_page_def)
  have ne': "dst \<noteq> src" using ne by simp
  have l: "0x4000 \<le> length (drop ?s h)" "0x4000 \<le> length (drop ?s h3)" "0x4000 \<le> length (drop ?s h5)" "0x4000 \<le> length (drop ?d h4)"
    using b H3(1) H4(1) H5(1) by simp_all
  have A3: "agree 26 (drop ?s h) (drop ?s h3)" unfolding H3(2) by (rule agree_put [OF l(1)]) simp_all
  have A4: "agree 28 (drop ?s h3) (drop ?s h4)" unfolding H4(2) by (rule agree_put [OF l(2)]) simp_all
  have A5: "agree 0 (drop ?s h4) (drop ?s h5)" using H5(3) [OF ne] H5(1) H4(1) b(1) by (intro agree_same_page) auto
  have A6: "agree 16 (drop ?s h5) (drop ?s h')" unfolding H6(2) by (rule agree_put [OF l(3)]) simp_all
  show "agree 28 (drop ?s h) (drop ?s h')" using agree_trans [OF A3 agree_trans [OF A4 agree_trans [OF A5 A6]]] by simp
  have "drop ?s h3 = put_at (put_at (drop ?s h) 22 (le_put16 (of_nat i))) 24 (le_put16 (of_nat (64 + i * 2)))"
    unfolding H3(2) using l(1) put_at_append [of 22 "le_put16 (of_nat i)" "le_put16 (of_nat (64 + i * 2))" "drop ?s h"] by simp
  then have "get16 (drop ?s h3) 22 = i" using l(1) i by (simp del: get16_of_drop drop_drop of_nat_add)
  then have "get16 (drop ?s h4) 22 = i" unfolding H4(2) using l(2) by (simp del: get16_of_drop drop_drop)
  then show "get16 (drop ?s h') 22 = i" using agree_get16 [OF A5, of 22] agree_get16 [OF A6, of 22] by simp
  have "drop ?s h4 ! 20 = drop ?s h ! 20" unfolding H4(2) H3(2) using l by (simp add: put_at_nth del: drop_drop nth_drop)
  then show "drop ?s h' ! 20 = drop ?s h ! 20" using agree_byte [OF A5, of 20] agree_byte [OF A6, of 20] by (simp del: nth_drop)
  show "bslice (drop ?s h') 8 8 = le_put64 (of_nat dst)" unfolding H6(2) using l(3) by (simp del: bslice_of_drop drop_drop)
  have "same_page h h4 dst" using H3(3) [OF ne'] H4(3) [OF ne'] by (simp add: same_page_def)
  then have B1: "agree 0 (drop ?d h) (drop ?d h4)" using b(2) H3(1) H4(1) by (intro agree_same_page) auto
  have B2: "agree 16 (drop ?d h4) (drop ?d h5)" unfolding H5(2) by (rule agree_put [OF l(4)]) simp_all
  have B3: "agree 0 (drop ?d h5) (drop ?d h')" using H6(3) [OF ne'] b(2) H5(1) H6(1) by (intro agree_same_page) auto
  show "agree 16 (drop ?d h) (drop ?d h')" using agree_trans [OF B1 agree_trans [OF B2 B3]] by simp
  have "bslice (drop ?s h4) 8 8 = bslice (drop ?s h) 8 8" unfolding H4(2) H3(2) using l by (simp del: bslice_of_drop drop_drop)
  moreover have "?s + 0x4000 \<le> length h4" using b H4(1) by simp
  ultimately have "le_put64 link = bslice (drop ?s h) 8 8"
    using put_get64 [of "drop 8 (drop ?s h4)"] by (simp add: link_def bt_read64_def Let_def bslice_def add.commute)
  moreover have "bslice (drop ?d h') 8 8 = bslice (drop ?d h5) 8 8" using B3 by (simp add: agree_def)
  moreover have "bslice (drop ?d h5) 8 8 = le_put64 link" unfolding H5(2) using l(4) by (simp del: bslice_of_drop drop_drop)
  ultimately show "bslice (drop ?d h') 8 8 = bslice (drop ?s h) 8 8" by simp
qed

text \<open>The pages after a split: the cells before \<open>i\<close> on the left page, those from \<open>i\<close> on on the right one.\<close>

lemma split_at_pages:
  assumes ne: "src \<noteq> dst" and b: "src * 0x4000 + 0x4000 \<le> length h" "dst * 0x4000 + 0x4000 \<le> length h"
    and C: "cells_in (drop (src * 0x4000) h) m" and D: "packed (drop (dst * 0x4000) h) []" "drop (dst * 0x4000) h ! 20 = 1" "drop (src * 0x4000) h ! 20 = 1"
    and i: "i \<le> m" and fit: "64 + 2 * m + tot (map (raw_cell (drop (src * 0x4000) h)) [0..<m]) \<le> 0x4000"
  shows "\<exists>h'. split_at 16 h (src * 0x4000) (dst * 0x4000) dst i m = (True, h') \<and> length h' = length h
    \<and> (\<forall>r. r \<noteq> src \<longrightarrow> r \<noteq> dst \<longrightarrow> same_page h h' r)
    \<and> packed (drop (src * 0x4000) h') (map (raw_cell (drop (src * 0x4000) h)) [0..<i]) \<and> drop (src * 0x4000) h' ! 20 = 1
    \<and> packed (drop (dst * 0x4000) h') (map (raw_cell (drop (src * 0x4000) h)) [i..<m]) \<and> drop (dst * 0x4000) h' ! 20 = 1
    \<and> bslice h' (src * 0x4000 + 8) 8 = le_put64 (of_nat dst) \<and> bslice h' (dst * 0x4000 + 8) 8 = bslice h (src * 0x4000 + 8) 8"
proof -
  let ?s = "src * 0x4000" and ?d = "dst * 0x4000"
  define S where "S = drop ?s h"
  have ne': "dst \<noteq> src" using ne by simp
  have tots: "tot (map (raw_cell S) [0..<i]) + tot (map (raw_cell S) [i..<m]) = tot (map (raw_cell S) [0..<m])"
    using i upt_add_eq_append [of 0 i "m - i"] by (metis le_add_diff_inverse map_append tot_simps(3) zero_le)
  have fit2: "64 + 2 * (length ([] :: bytes list) + (m - i)) + tot ([] @ map (raw_cell (drop ?s h)) [i..<i + (m - i)]) \<le> 0x4000"
    using fit tots i unfolding S_def by simp
  have le: "i + (m - i) \<le> m" using i by simp
  obtain p' where mv: "move_loop 16 h ?s ?d i (m - i) = (True, take ?d h @ p')"
    and p': "packed p' (map (raw_cell S) [i..<m])" "length p' = length h - ?d" "drop 0x4000 p' = drop (?d + 0x4000) h" "take 22 p' = take 22 (drop ?d h)"
    using move_loop_packed [OF ne C D(1) le b fit2] i unfolding S_def by auto
  have p20: "p' ! 20 = 1" using arg_cong [OF p'(4), of "\<lambda>p. p ! 20"] D(2) by simp
  define h2 where "h2 = take ?d h @ p'"
  note H2 = set_page [OF p'(2,3) b(2), folded h2_def]
  have A2: "agree 0 S (drop ?s h2)" unfolding S_def by (rule agree_same_page [OF H2(4) [OF ne] H2(1) b(1)])
  have CS: "cells_in S m" using C by (simp add: S_def)
  have "i < 65536" using i CS by (auto simp: cells_in_def)
  note L = cut_link_pages [OF ne b [folded H2(1)] this]
  define h6 where "h6 = cut_link h2 ?s ?d dst i"
  note L = L [folded h6_def]
  have AS: "agree 28 S (drop ?s h6)" using agree_trans [OF A2 L(3)] by simp
  have m0: "map (raw_cell (drop ?s h6)) [0..<i] = map (raw_cell S) [0..<i]" using agree_cells(2) [OF AS _ CS] i by simp
  have C6: "cells_in (drop ?s h6) i" using agree_cells(1) [OF AS _ CS] i by (simp add: cells_in_def)
  have fit6: "64 + 2 * i + tot (map (raw_cell (drop ?s h6)) [0..<i]) \<le> 0x4000" using fit tots i unfolding m0 S_def by simp
  obtain S7 where rp: "bt_leaf_repack (drop ?s h6) 0x4000 16 = (True, S7)" and S7: "packed S7 (map (raw_cell S) [0..<i])" "length S7 = length h6 - ?s"
      "drop 0x4000 S7 = drop (?s + 0x4000) h6" "take 22 S7 = take 22 (drop ?s h6)"
    using repack_packed [OF C6 L(4) fit6] unfolding m0 by (auto simp: add.commute)
  define h7 where "h7 = take ?s h6 @ S7"
  have res: "split_at 16 h ?s ?d dst i m = (True, h7)" unfolding split_at_cut mv by (simp add: h2_def [symmetric] h6_def [symmetric] rp h7_def)
  have "?s + 0x4000 \<le> length h6" using b(1) L(1) H2(1) by simp
  note H7 = set_page [OF S7(2,3) this, folded h7_def]
  have "agree 0 (drop ?d h6) (drop ?d h7)" using H7(1) H7(4) [OF ne'] b(2) L(1) H2(1) by (intro agree_same_page) auto
  note BD = this
  have AD: "agree 16 p' (drop ?d h7)" using agree_trans [OF L(7) BD] by (simp add: H2(2))
  have lk: "bslice h7 (?s + 8) 8 = le_put64 (of_nat dst)"
  proof -
    have "bslice S7 8 8 = bslice (drop ?s h6) 8 8" using S7(4) bslice_take [of 8 8 22 S7] bslice_take [of 8 8 22 "drop ?s h6"] by simp
    moreover have "bslice S7 8 8 = bslice h7 (?s + 8) 8" unfolding H7(2) [symmetric] by simp
    ultimately show ?thesis using L(6) by simp
  qed
  have link: "bslice h7 (?d + 8) 8 = bslice h (?s + 8) 8" using BD A2 L(8) by (simp add: agree_def S_def)
  have t7: "S7 ! 20 = 1" using arg_cong [OF S7(4), of "\<lambda>p. p ! 20"] L(5) agree_byte [OF A2, of 20] D(3) by (simp add: S_def)
  have oth: "same_page h h7 r" if "r \<noteq> src" "r \<noteq> dst" for r
    using H2(4) [OF that(2)] L(2) [OF that] H7(4) [OF that(1)] by (simp add: same_page_def)
  have "length h7 = length h" using H7(1) L(1) H2(1) by simp
  then show ?thesis
    using res oth S7(1) t7 agree_packed [OF AD _ p'(1)] agree_byte [OF AD, of 20] p20 lk link
    by (intro exI [of _ h7]) (simp only: H7(2) S_def [symmetric], simp)
qed

section \<open>The split of a leaf\<close>

lemma raw_cell_ver_len: "cells_in p m \<Longrightarrow> i < m \<Longrightarrow> length (raw_cell p i) = ver_len (cell_at p (leaf_slot p 0 i))"
proof -
  assume C: "cells_in p m" "i < m"
  then have "0x4000 \<le> length p" by (simp add: cells_in_def)
  then show ?thesis using cells_inD(5,7,9) [OF C] by (simp add: cell_at_def ver_len_def Let_def)
qed

lemma raw_cell_eq:
  assumes "cells_in p m" "cells_in q m" "i < m" "raw_cell q i = raw_cell p i"
  shows "cell_at q (leaf_slot q 0 i) = cell_at p (leaf_slot p 0 i)"
proof -
  have "cell_size q (leaf_slot q 0 i) = cell_size p (leaf_slot p 0 i)"
    using cells_inD(7) [OF assms(1,3)] cells_inD(7) [OF assms(2,3)] assms(4) by metis
  then show ?thesis using assms(4) by (intro cell_shift) (simp add: raw_cell_def)
qed

lemma sum_loop_value:
  "cells_in p m \<Longrightarrow> v + k \<le> m
    \<Longrightarrow> sum_loop 16 p w v k = Some (w + sum_list (map (\<lambda>i. ver_len (cell_at p (leaf_slot p 0 i)) + 2) [v..<v + k]))"
proof (induction k arbitrary: v w)
  case (Suc k)
  have v: "v < m" using Suc.prems(2) by simp
  note C = cells_inD [OF Suc.prems(1) v]
  have "slot_of p v = leaf_slot p 0 v" using C(1) by (simp add: slot_of_def)
  moreover have "leaf_slot p 0 v < 0x4000" using C(5,9) by simp
  moreover have "slot_size 16 p (leaf_slot p 0 v) = ver_len (cell_at p (leaf_slot p 0 v)) + 2"
    using C(3,4,5,7) raw_cell_ver_len [OF Suc.prems(1) v] by (simp add: slot_size_def)
  moreover have "[v..<v + Suc k] = v # [Suc v..<Suc v + k]" by (simp add: upt_conv_Cons)
  ultimately show ?case using C(8) Suc.IH [OF Suc.prems(1), of "Suc v"] Suc.prems(2) by (simp add: Let_def del: upt_Suc)
qed simp

lemma forward_stop: "\<not> same_key page v \<Longrightarrow> forward_loop page v k = v"
  by (cases k) auto

text \<open>A leaf whose upper half leaves room, with different keys around the middle, is split in the middle.\<close>

lemma ver_split_point_middle:
  assumes "2 \<le> m div 2" "w + 0x9c4 \<le> 0x3fc0" "\<not> same_key page (m div 2)"
  shows "ver_split_point page m w = Some (m div 2)"
proof -
  have "shrink_loop 16 page m (m div 2) w = (m div 2, w)" using assms(2) by (subst shrink_loop.simps) simp
  moreover have "forward_loop page (m div 2) (m - m div 2) = m div 2" using assms(3) by (rule forward_stop)
  moreover have "\<not> m \<le> m div 2" "\<not> m div 2 \<le> 1" using assms(1) by auto
  ultimately show ?thesis by (simp add: ver_split_point_def Let_def)
qed

lemma fst_mono: "sorted (map ver cs) \<Longrightarrow> i \<le> j \<Longrightarrow> j < length cs \<Longrightarrow> fst (cs ! i) \<le> fst (cs ! j)"
  using sorted_nth_mono [of "map ver cs" i j] by (auto simp: less_eq_prod_def)

lemma sorted_split_keys:
  assumes "sorted (map ver cs)" "0 < i" "i < length cs" "fst (cs ! (i - 1)) \<noteq> fst (cs ! i)" "c \<in> set (take i cs)" "d \<in> set (drop i cs)"
  shows "fst c < fst d"
proof -
  obtain a where a: "a < i" "c = cs ! a" using assms(3,5) by (auto simp: in_set_conv_nth)
  obtain b where "b < length (drop i cs)" "d = drop i cs ! b" using assms(6) unfolding in_set_conv_nth by blast
  then have b: "i + b < length cs" "d = cs ! (i + b)" by simp_all
  have "fst (cs ! a) \<le> fst (cs ! (i - 1))" "fst (cs ! (i - 1)) \<le> fst (cs ! i)" "fst (cs ! i) \<le> fst (cs ! (i + b))"
    using a b assms(2,3) by (auto intro!: fst_mono [OF assms(1)])
  then show ?thesis using assms(4) a b by simp
qed

text \<open>The bytes of cells with their slots, and the cells of a leaf that do not overlap.\<close>

definition sizes :: "cell list \<Rightarrow> nat" where
  "sizes cs = sum_list (map (\<lambda>c. ver_len c + 2) cs)"

lemma sizes_simps [simp]: "sizes [] = 0" "sizes (c # cs) = ver_len c + 2 + sizes cs" "sizes (cs @ ds) = sizes cs + sizes ds"
  by (simp_all add: sizes_def)

definition leaf_fits :: "cell list \<Rightarrow> bool" where
  "leaf_fits cs \<longleftrightarrow> sizes cs \<le> 0x3fc0"

lemma tot_sizes:
  "cells_in p m \<Longrightarrow> \<forall>i \<in> set is. i < m \<Longrightarrow> tot (map (raw_cell p) is) + 2 * length is = sizes (map (\<lambda>i. cell_at p (leaf_slot p 0 i)) is)"
  by (induction "is") (simp_all add: raw_cell_ver_len)

lemma packed_free:
  assumes "packed p (map (raw_cell q) is)" "cells_in q m" "\<forall>i \<in> set is. i < m"
  shows "leaf_free p 0 = 0x3fc0 - sizes (map (\<lambda>i. cell_at q (leaf_slot q 0 i)) is)"
  using assms(1) tot_sizes [OF assms(2,3)] by (simp add: packed_def leaf_free_def)

text \<open>The keys around the middle differ, and the upper half leaves room for a further cell.\<close>

definition middle_ok :: "cell list \<Rightarrow> bool" where
  "middle_ok cs \<longleftrightarrow> (let k = length cs div 2 in fst (cs ! (k - 1)) \<noteq> fst (cs ! k) \<and> sizes (drop k cs) + 0x9c4 \<le> 0x3fc0)"

text \<open>The outcome of a split: the cells dealt out, all free bytes of both pages in one piece, the links.\<close>

definition split_of :: "bytes \<Rightarrow> bytes \<Rightarrow> nat \<Rightarrow> nat \<Rightarrow> nat \<Rightarrow> bool" where
  "split_of h h' n src dst \<longleftrightarrow>
     leaf_cells h' (src * 0x4000) @ leaf_cells h' (dst * 0x4000) = leaf_cells h (src * 0x4000)
     \<and> 2 \<le> length (leaf_cells h' (src * 0x4000)) \<and> leaf_cells h' (dst * 0x4000) \<noteq> []
     \<and> (\<forall>c \<in> set (leaf_cells h' (src * 0x4000)). \<forall>d \<in> set (leaf_cells h' (dst * 0x4000)). fst c < fst d)
     \<and> leaf_wf h' n (src * 0x4000) \<and> leaf_free h' (src * 0x4000) = 0x3fc0 - sizes (leaf_cells h' (src * 0x4000))
     \<and> leaf_wf h' n (dst * 0x4000) \<and> leaf_free h' (dst * 0x4000) = 0x3fc0 - sizes (leaf_cells h' (dst * 0x4000))
     \<and> get64 h' (src * 0x4000 + 8) = dst mod 2 ^ 64 \<and> get64 h' (dst * 0x4000 + 8) = get64 h (src * 0x4000 + 8)"

text \<open>The first page of a leaf as slots and raw cells.\<close>

lemma leaf_page:
  assumes wf: "leaf_wf h (length h) b"
  shows "cells_in (drop b h) (length (leaf_cells h b))" "get16 h (b + 22) = length (leaf_cells h b)" "drop b h ! 20 = 1" "b + 0x4000 \<le> length h"
    "leaf_cells h b = map (\<lambda>i. cell_at (drop b h) (leaf_slot (drop b h) 0 i)) [0..<length (leaf_cells h b)]"
proof -
  have L: "leaf_layout h (length h) b" using wf by (simp add: leaf_wf_def)
  show b: "b + 0x4000 \<le> length h" by (rule leaf_layoutD(1) [OF L])
  show m: "get16 h (b + 22) = length (leaf_cells h b)" by (simp add: leaf_cells_def)
  have "leaf_layout (drop b h) (length h - b) 0" using L b by (simp add: leaf_drop)
  then show "cells_in (drop b h) (length (leaf_cells h b))" "drop b h ! 20 = 1"
    using leaf_cells_in [of "drop b h"] leaf_layoutD(3) [of "drop b h" _ 0] m by auto
  show "leaf_cells h b = map (\<lambda>i. cell_at (drop b h) (leaf_slot (drop b h) 0 i)) [0..<length (leaf_cells h b)]"
    by (simp add: leaf_cells_def leaf_slot_drop cell_drop)
qed

lemma leaf_page_nth:
  assumes "leaf_wf h (length h) b" "i < length (leaf_cells h b)"
  shows "cell_at (drop b h) (leaf_slot (drop b h) 0 i) = leaf_cells h b ! i"
  using arg_cong [OF leaf_page(5) [OF assms(1)], of "\<lambda>cs. cs ! i"] assms(2) by simp

lemma leaf_page_sum:
  assumes wf: "leaf_wf h (length h) b" and m: "m = length (leaf_cells h b)"
  shows "sum_loop 16 (drop b h) 0 (m div 2) (m - m div 2) = Some (sizes (drop (m div 2) (leaf_cells h b)))"
proof -
  have "map (\<lambda>i. ver_len (cell_at (drop b h) (leaf_slot (drop b h) 0 i)) + 2) [m div 2..<m] = map (\<lambda>c. ver_len c + 2) (drop (m div 2) (leaf_cells h b))"
    using leaf_page_nth [OF wf] m by (intro nth_equalityI) simp_all
  then show ?thesis using sum_loop_value [OF leaf_page(1) [OF wf], of "m div 2" "m - m div 2" 0] m by (simp add: sizes_def)
qed

lemma middle_split:
  assumes wf: "leaf_wf h (length h) b" and cs: "cs = leaf_cells h b" and mid: "4 \<le> length cs" "middle_ok cs"
  shows "ver_split_point (drop b h) (length cs) (sizes (drop (length cs div 2) cs)) = Some (length cs div 2)"
proof -
  have k: "2 \<le> length cs div 2" "length cs div 2 < length cs" "length cs div 2 - 1 < length cs" using mid(1) by auto
  have "\<not> same_key (drop b h) (length cs div 2)"
    using same_key_iff [OF leaf_page(1) [OF wf], of "length cs div 2"] leaf_page_nth [OF wf] k mid(2) cs by (simp add: middle_ok_def Let_def)
  then show ?thesis using mid(2) k by (intro ver_split_point_middle) (auto simp: middle_ok_def Let_def)
qed

text \<open>The two pages of a split are leaves again.\<close>

lemma split_leaf:
  assumes P: "packed (drop b h') (map (raw_cell (drop a h)) is)" "drop b h' ! 20 = 1" and b: "b + 0x4000 \<le> length h'"
    and wf: "leaf_wf h (length h) a" and i: "\<forall>i \<in> set is. i < length (leaf_cells h a)"
  shows "leaf_layout h' (length h') b" "leaf_cells h' b = map (\<lambda>i. leaf_cells h a ! i) is"
    "leaf_free h' b = 0x3fc0 - sizes (leaf_cells h' b)"
proof -
  note C = leaf_page(1) [OF wf]
  note S = packed_leaf [OF P(1) C i P(2)]
  show "leaf_layout h' (length h') b" using S(1) leaf_drop(2) [of b "length h'" h'] b by simp
  show c: "leaf_cells h' b = map (\<lambda>i. leaf_cells h a ! i) is"
    using S(2) leaf_page_nth [OF wf] i unfolding leaf_drop(1) by simp
  show "leaf_free h' b = 0x3fc0 - sizes (leaf_cells h' b)"
    using packed_free [OF P(1) C i] S(2) unfolding leaf_drop(1) by (simp add: leaf_free_def)
qed

lemma split_at_leaves:
  assumes wf: "leaf_wf h (length h) (src * 0x4000)" and cs: "cs = leaf_cells h (src * 0x4000)" and fits: "leaf_fits cs"
    and ne: "src \<noteq> dst" "dst * 0x4000 + 0x4000 \<le> length h" and D: "packed (drop (dst * 0x4000) h) []" "drop (dst * 0x4000) h ! 20 = 1"
    and sp: "ver_split_point (drop (src * 0x4000) h) (length cs) w = Some i"
  shows "\<exists>h'. split_at 16 h (src * 0x4000) (dst * 0x4000) dst i (length cs) = (True, h') \<and> length h' = length h
    \<and> (\<forall>r. r \<noteq> src \<longrightarrow> r \<noteq> dst \<longrightarrow> same_page h h' r) \<and> split_of h h' (length h) src dst \<and> leaf_cells h' (src * 0x4000) = take i cs"
proof -
  let ?s = "src * 0x4000" and ?d = "dst * 0x4000" and ?m = "length cs"
  note K = ver_split_point_key [OF sp] and P = leaf_page [OF wf, folded cs]
  have sorted: "sorted (map ver cs)" using wf by (simp add: leaf_wf_def cs)
  have fit: "64 + 2 * ?m + tot (map (raw_cell (drop ?s h)) [0..<?m]) \<le> 0x4000"
    using fits tot_sizes [OF P(1), of "[0..<?m]"] P(5) by (simp add: leaf_fits_def)
  have im: "i \<le> ?m" using K(2) by simp
  obtain h' where sa: "split_at 16 h ?s ?d dst i ?m = (True, h')" and h': "length h' = length h" "\<forall>r. r \<noteq> src \<longrightarrow> r \<noteq> dst \<longrightarrow> same_page h h' r"
      "packed (drop ?s h') (map (raw_cell (drop ?s h)) [0..<i])" "drop ?s h' ! 20 = 1"
      "packed (drop ?d h') (map (raw_cell (drop ?s h)) [i..<?m])" "drop ?d h' ! 20 = 1"
      "bslice h' (?s + 8) 8 = le_put64 (of_nat dst)" "bslice h' (?d + 8) 8 = bslice h (?s + 8) 8"
    using split_at_pages [OF ne(1) P(4) ne(2) P(1) D P(3) im fit] by blast
  have il: "\<forall>j \<in> set [0..<i]. j < length (leaf_cells h ?s)" "\<forall>j \<in> set [i..<?m]. j < length (leaf_cells h ?s)" using im cs by auto
  note S = split_leaf [OF h'(3,4) _ wf il(1)] and R = split_leaf [OF h'(5,6) _ wf il(2)]
  have cells: "leaf_cells h' ?s = take i cs" "leaf_cells h' ?d = drop i cs"
    using S(2) R(2) P(4) ne(2) h'(1) im by (auto simp: cs intro: nth_equalityI)
  have "\<not> fst (cs ! (i - 1)) = fst (cs ! i)"
    using K same_key_iff [OF P(1), of i] leaf_page_nth [OF wf] cs by simp
  then have "\<forall>c \<in> set (take i cs). \<forall>d \<in> set (drop i cs). fst c < fst d"
    using sorted_split_keys [OF sorted, of i] K(1,2) by auto
  moreover have "sorted (map ver (take i cs))" "sorted (map ver (drop i cs))"
    using sorted sorted_wrt_take [of "(\<le>)" "map ver cs" i] sorted_wrt_drop [of "(\<le>)" "map ver cs" i] by (simp_all add: take_map drop_map)
  moreover have "get64 h' (?s + 8) = dst mod 2 ^ 64" "get64 h' (?d + 8) = get64 h (?s + 8)"
    using h'(7,8) by (simp_all add: get64_def unsigned_of_nat take_bit_eq_mod)
  ultimately have "split_of h h' (length h) src dst"
    using K(1,2) S(1,3) R(1,3) P(4) ne(2) h'(1) cs by (simp add: split_of_def cells leaf_wf_def)
  then show ?thesis using sa h'(1,2) cells(1) by blast
qed

text \<open>What \<open>bt_chain_split_ver\<close> does before it moves cells: an empty leaf on the right page, and the split point.\<close>

lemma split_entry:
  assumes wf: "leaf_wf h (length h) (src * 0x4000)" and n: "length h = np * 0x4000" "src \<noteq> dst" "dst < np"
  shows "\<exists>h1. only_page dst h h1 \<and> packed (drop (dst * 0x4000) h1) [] \<and> drop (dst * 0x4000) h1 ! 20 = 1
    \<and> leaf_wf h1 (length h) (src * 0x4000) \<and> leaf_cells h1 (src * 0x4000) = leaf_cells h (src * 0x4000)
    \<and> (let m = length (leaf_cells h (src * 0x4000)); w = sizes (drop (m div 2) (leaf_cells h (src * 0x4000))) in
       bt_chain_split_ver h np src dst = (if m div 2 = 0 \<or> m \<le> m div 2 then (False, h1)
         else case ver_split_point (drop (src * 0x4000) h1) m w of None \<Rightarrow> (False, h1)
           | Some v \<Rightarrow> split_at 16 h1 (src * 0x4000) (dst * 0x4000) dst v m))"
proof -
  let ?s = "src * 0x4000" and ?d = "dst * 0x4000"
  have b: "?s + 0x4000 \<le> length h" "?d + 0x4000 \<le> length h"
    using leaf_page(4) [OF wf] mult_le_mono1 [of "dst + 1" np "0x4000"] n by simp_all
  define h1 where "h1 = take ?d h @ snd (Db_bt_leaf_init (drop ?d h) 0x4000)"
  have q: "length (snd (Db_bt_leaf_init (drop ?d h) 0x4000)) = length h - ?d"
    "drop 0x4000 (snd (Db_bt_leaf_init (drop ?d h) 0x4000)) = drop (?d + 0x4000) h"
    using b(2) by (simp_all add: leaf_init_drop add.commute)
  note H1 = set_page [OF q b(2), folded h1_def]
  note I = leaf_init_packed [of "drop ?d h", folded H1(2)]
  have D1: "packed (drop ?d h1) []" "drop ?d h1 ! 20 = 1" using I(2,3) b(2) by simp_all
  have ini: "Db_bt_leaf_init (drop ?d h) 0x4000 = (\<lparr>bs_Nkeys = 0, bs_Ok = True, bs_Copied = False\<rparr>, drop ?d h1)"
    using I(1) b(2) by (intro prod_eqI) (simp_all add: H1(2))
  have cat: "take ?d h @ drop ?d h1 = h1" by (simp only: H1(2)) (simp only: h1_def)
  have same: "leaf_cells h1 ?s = leaf_cells h ?s" "leaf_wf h1 (length h) ?s"
    using leaf_same [OF H1(4) [OF n(2)] H1(1), of "length h"] wf by (auto simp: leaf_wf_def)
  define m where "m = length (leaf_cells h ?s)"
  have "sum_loop 16 (drop ?s h1) 0 (m div 2) (m - m div 2) = Some (sizes (drop (m div 2) (leaf_cells h1 ?s)))"
    using same H1(1) by (intro leaf_page_sum) (simp_all add: m_def)
  note w = this [unfolded same(1)]
  have "get16 (drop ?s h1) 22 = m" using leaf_page(2) [of h1 ?s] same H1(1) by (simp add: m_def)
  then have m1: "unat (bt_read16 (drop ?s h1) 0x4000 22) = m" using b(1) H1(1) by (subst get16_read) auto
  have "\<not> (np \<le> src \<or> np \<le> dst \<or> src = dst)" using b(1) n by simp
  then have "bt_chain_split_ver h np src dst = (if m div 2 = 0 \<or> m \<le> m div 2 then (False, h1)
      else case ver_split_point (drop ?s h1) m (sizes (drop (m div 2) (leaf_cells h ?s))) of None \<Rightarrow> (False, h1) | Some v \<Rightarrow> split_at 16 h1 ?s ?d dst v m)"
    by (simp only: bt_chain_split_ver_def Let_def ini prod.case cat m1 w option.case Db_bt_state_t.select_convs if_False not_True_eq_False)
  note this [unfolded m_def]
  moreover have "only_page dst h h1" using H1(1,4) by (simp add: only_page_def)
  ultimately show ?thesis using D1 same unfolding Let_def by blast
qed

text \<open>C28: Splitting a leaf of versioned keys either leaves the leaf as it is, or deals its cells out: the left page keeps a prefix
  of at least two cells, the right one holds the rest, both in order, no key has versions on both pages, and the right page is
  linked in behind the left one. Other pages do not change.\<close>

theorem chain_split_ver_refines:
  assumes wf: "leaf_wf h (length h) (src * 0x4000)" and fits: "leaf_fits (leaf_cells h (src * 0x4000))"
    and n: "length h = np * 0x4000" "src \<noteq> dst" "dst < np"
  shows "case bt_chain_split_ver h np src dst of (ok, h') \<Rightarrow>
    length h' = length h \<and> (\<forall>r. r \<noteq> src \<longrightarrow> r \<noteq> dst \<longrightarrow> same_page h h' r) \<and>
    (4 \<le> length (leaf_cells h (src * 0x4000)) \<and> middle_ok (leaf_cells h (src * 0x4000)) \<longrightarrow>
       ok \<and> leaf_cells h' (src * 0x4000) = take (length (leaf_cells h (src * 0x4000)) div 2) (leaf_cells h (src * 0x4000))) \<and>
    (if ok then split_of h h' (length h) src dst else same_page h h' src)"
proof -
  let ?s = "src * 0x4000" and ?cs = "leaf_cells h (src * 0x4000)"
  obtain h1 where h1: "only_page dst h h1" "packed (drop (dst * 0x4000) h1) []" "drop (dst * 0x4000) h1 ! 20 = 1"
      "leaf_wf h1 (length h) ?s" "leaf_cells h1 ?s = ?cs"
    and U: "bt_chain_split_ver h np src dst = (if length ?cs div 2 = 0 \<or> length ?cs \<le> length ?cs div 2 then (False, h1)
      else case ver_split_point (drop ?s h1) (length ?cs) (sizes (drop (length ?cs div 2) ?cs)) of None \<Rightarrow> (False, h1)
        | Some v \<Rightarrow> split_at 16 h1 ?s (dst * 0x4000) dst v (length ?cs))"
    using split_entry [OF wf n] unfolding Let_def by blast
  have l: "length h1 = length h" and sp: "\<And>r. r \<noteq> dst \<Longrightarrow> same_page h h1 r" using h1(1) by (simp_all add: only_page_def)
  have mid: "ver_split_point (drop ?s h1) (length ?cs) (sizes (drop (length ?cs div 2) ?cs)) = Some (length ?cs div 2)"
    if "4 \<le> length ?cs" "middle_ok ?cs"
    using middle_split [of h1 ?s ?cs] h1(4,5) that by (simp add: l)
  show ?thesis
  proof (cases "if length ?cs div 2 = 0 \<or> length ?cs \<le> length ?cs div 2 then None
      else ver_split_point (drop ?s h1) (length ?cs) (sizes (drop (length ?cs div 2) ?cs))")
    case None
    then have "bt_chain_split_ver h np src dst = (False, h1)" unfolding U by (auto split: if_splits)
    moreover have "\<not> (4 \<le> length ?cs \<and> middle_ok ?cs)" using None mid by (auto split: if_splits)
    ultimately show ?thesis using l sp n(2) by auto
  next
    case (Some i)
    then have v: "ver_split_point (drop ?s h1) (length ?cs) (sizes (drop (length ?cs div 2) ?cs)) = Some i" by (auto split: if_splits)
    have b: "dst * 0x4000 + 0x4000 \<le> length h1" using mult_le_mono1 [of "dst + 1" np "0x4000"] n l by simp
    obtain h' where h': "split_at 16 h1 ?s (dst * 0x4000) dst i (length ?cs) = (True, h')" "length h' = length h"
        "\<forall>r. r \<noteq> src \<longrightarrow> r \<noteq> dst \<longrightarrow> same_page h1 h' r" "split_of h1 h' (length h) src dst" "leaf_cells h' ?s = take i ?cs"
      using split_at_leaves [OF _ h1(5) [symmetric] fits n(2) b h1(2,3) v] h1(4) by (auto simp: l)
    have "get64 h1 (?s + 8) = get64 h (?s + 8)" by (rule same_page_get(2) [OF sp [OF n(2)]]) simp
    then have so: "split_of h h' (length h) src dst" using h'(4) h1(5) by (simp add: split_of_def)
    have "bt_chain_split_ver h np src dst = (True, h')" using Some h'(1) unfolding U by (auto split: if_splits)
    moreover have "length ?cs div 2 = i" if "4 \<le> length ?cs" "middle_ok ?cs" using mid [OF that] v by simp
    ultimately show ?thesis using h'(2,3,5) sp so by (auto simp: same_page_def)
  qed
qed

text \<open>The witness: four keys of one byte with values of 4000 bytes.\<close>

definition big :: "byte \<Rightarrow> cell" where
  "big k = ([k], replicate 16 0, replicate 4000 0)"

lemma big_cell: "cell_ok (big k)" "ver_len (big k) = 4021"
  by (simp_all add: big_def cell_ok_def ver_len_def)

definition four_cells :: bytes where
  "four_cells = foldl (\<lambda>h k. put_ver 0x10000 0 h [k] (replicate 16 0) (replicate 4000 0)) empty_leaf [1, 2, 3, 4]"

lemma one_leaf_four: "one_leaf four_cells (map big [1, 2, 3, 4]) 228"
proof -
  have s: "one_leaf (put_ver 0x10000 0 h [k] (replicate 16 0) (replicate 4000 0)) (cs @ [big k]) f"
    if "one_leaf h cs f'" "\<forall>d \<in> set cs. ver d \<le> ver (big k)" "f' = f + 4023" for h cs f f' k
  proof -
    have "insert_ver (big k) cs = cs @ [big k]" using insert_ver_left [OF that(2), of "[]"] by (simp add: insert_ver_def [of _ "[]"])
    then show ?thesis using one_leaf_put [OF that(1), of "[k]" "replicate 16 0" "replicate 4000 0", folded big_def] that(3) by (simp add: big_cell)
  qed
  have 1: "one_leaf (put_ver 0x10000 0 empty_leaf [1] (replicate 16 0) (replicate 4000 0)) ([] @ [big 1]) 12297"
    by (rule s [OF one_leaf_empty]) simp_all
  have 2: "one_leaf (put_ver 0x10000 0 (put_ver 0x10000 0 empty_leaf [1] (replicate 16 0) (replicate 4000 0)) [2] (replicate 16 0) (replicate 4000 0))
      (([] @ [big 1]) @ [big 2]) 8274"
    by (rule s [OF 1]) (simp_all add: big_def)
  have 3: "one_leaf (put_ver 0x10000 0 (put_ver 0x10000 0 (put_ver 0x10000 0 empty_leaf [1] (replicate 16 0) (replicate 4000 0)) [2] (replicate 16 0) (replicate 4000 0))
      [3] (replicate 16 0) (replicate 4000 0)) ((([] @ [big 1]) @ [big 2]) @ [big 3]) 4251"
    by (rule s [OF 2]) (simp_all add: big_def)
  have "one_leaf four_cells (((([] @ [big 1]) @ [big 2]) @ [big 3]) @ [big 4]) 228"
    unfolding four_cells_def foldl.simps by (rule s [OF 3]) (simp_all add: big_def)
  then show ?thesis by simp
qed

lemma four_cells_split:
  "leaf_fits (map big [1, 2, 3, 4])" "middle_ok (map big [1, 2, 3, 4])"
  by (simp_all add: leaf_fits_def middle_ok_def big_cell) (simp add: big_def)

theorem chain_split_ver_refines_witness:
  "fst (bt_chain_split_ver four_cells 4 0 1)
    \<and> leaf_cells (snd (bt_chain_split_ver four_cells 4 0 1)) 0 = map big [1, 2]
    \<and> leaf_cells (snd (bt_chain_split_ver four_cells 4 0 1)) 0x4000 = map big [3, 4]"
proof -
  have h: "length four_cells = 0x10000" "leaf_wf four_cells (length four_cells) (0 * 0x4000)" "leaf_cells four_cells (0 * 0x4000) = map big [1, 2, 3, 4]"
    using one_leaf_four by (simp_all add: one_leaf_def)
  note f = four_cells_split [folded h(3)]
  show ?thesis
    using chain_split_ver_refines [OF h(2) f(1), of 4 1] h(1,3) f(2) by (auto simp: case_prod_beta split_of_def)
qed

end
