(* ===== verification/Btree_Grow.thy ===== *)
theory Btree_Grow
  imports Btree_Split_Props
begin

text \<open>
  The growth of the root: the internal page \<open>bt_make_internal\<close> puts above the halves of a split leaf, and the insertion that
  needs it.
\<close>

section \<open>An internal page over two leaves\<close>




text \<open>The header, the slot and the cell that \<open>bt_make_internal\<close> writes.\<close>

definition node_head :: "bytes \<Rightarrow> nat \<Rightarrow> nat \<Rightarrow> bytes" where
  "node_head h b left =
     (let h = h[b + 20 := 2]; h = put_at h (b + 22) (le_put16 0); h = put_at h (b + 24) (le_put16 64); h = put_at h (b + 26) (le_put16 0x4000)
      in put_at h (b + 8) (le_put64 (of_nat left)))"



lemma node_head_length [simp]: "length (node_head h b left) = length h"
  by (simp add: node_head_def Let_def)








section \<open>The growth of the root\<close>










end
