(* ===== verification/Cursor.thy ===== *)
theory Cursor
  imports Overflow Btree_Search
begin

text \<open>
  The bidirectional cursor of \<^verbatim>\<open>src/pkg/c2db/cursor.go\<close> over the active pairs of a heap at a snapshot.
  A \<open>liveHeap\<close> that a cursor pins is an index into the reference counts \<open>refs\<close>; the shard pointer, only
  kept and dropped, and the mutex, which makes each method atomic, are not in the record. Leaf and slot
  positions never become negative between two steps of the code: stepping back from the first slot is the
  branch None.
\<close>

record Cursor =
  cu_heap :: bytes
  cu_npages :: nat
  cu_root :: nat
  cu_snap :: bytes
  cu_pin :: "nat option"
  cu_leafPages :: "nat list"
  cu_leafIdx :: nat
  cu_slotIdx :: nat
  cu_valid :: bool
  cu_currKey :: bytes
  cu_currVal :: bytes
  cu_currID :: bytes

section \<open>The sequence of leaves\<close>

definition page_link :: "bytes \<Rightarrow> nat \<Rightarrow> nat" where
  "page_link heap base = unat (le_get64 (bslice heap (base + 8) 8))"

text \<open>The descent to the leftmost leaf: None where the code returns with no leaves.\<close>

fun leftmost_loop :: "bytes \<Rightarrow> nat \<Rightarrow> nat \<Rightarrow> nat \<Rightarrow> nat option" where
  "leftmost_loop heap npages page 0 = Some page"
| "leftmost_loop heap npages page (Suc k) =
     (let base = page * pageN
      in if base + 20 \<ge> length heap then None
         else if heap ! (base + 20) = 1 then Some page
         else if heap ! (base + 20) \<noteq> 2 then None
         else if base + 8 + 8 > length heap then None
         else let next = page_link heap base
      in if next \<ge> npages \<or> next = page then None else leftmost_loop heap npages next k)"

fun leaf_chain_loop :: "bytes \<Rightarrow> nat \<Rightarrow> nat \<Rightarrow> nat \<Rightarrow> nat list" where
  "leaf_chain_loop heap npages page 0 = []"
| "leaf_chain_loop heap npages page (Suc k) =
     (if page \<ge> npages then []
      else page # (let base = page * pageN
        in if base + 8 + 8 > length heap then []
           else let next = page_link heap base
        in if next = 0 \<or> next = page \<or> next \<ge> npages then [] else leaf_chain_loop heap npages next k))"

definition initLeafPages :: "Cursor \<Rightarrow> Cursor" where
  "initLeafPages c =
     (let c = c\<lparr>cu_leafPages := []\<rparr>; heap = cu_heap c; npages = cu_npages c
      in if heap = [] \<or> npages = 0 \<or> cu_root c \<ge> npages then c
         else case leftmost_loop heap npages (cu_root c) npages of
           None \<Rightarrow> c
         | Some page \<Rightarrow> c\<lparr>cu_leafPages := leaf_chain_loop heap npages page npages\<rparr>)"

definition newCursor :: "bytes \<Rightarrow> nat \<Rightarrow> bytes \<Rightarrow> nat option \<Rightarrow> Cursor" where
  "newCursor heap root snap pin =
     initLeafPages \<lparr>cu_heap = heap, cu_npages = length heap div pageN, cu_root = root, cu_snap = snap, cu_pin = pin,
       cu_leafPages = [], cu_leafIdx = 0, cu_slotIdx = 0, cu_valid = False, cu_currKey = [], cu_currVal = [], cu_currID = []\<rparr>"

section \<open>Cells\<close>

definition readSlotCell :: "Cursor \<Rightarrow> nat \<Rightarrow> nat \<Rightarrow> (bytes \<times> bytes \<times> bytes \<times> nat) option" where
  "readSlotCell c leafIdx slotIdx =
     (if leafIdx \<ge> length (cu_leafPages c) then None
      else let base = cu_leafPages c ! leafIdx * pageN; heap = cu_heap c
      in if base + 22 + 2 > length heap then None
         else if slotIdx \<ge> get16 heap (base + 22) then None
         else let slotAddr = base + 64 + slotIdx * 2
      in if slotAddr + 2 > base + pageN then None
         else if slotAddr + 2 > length heap then None
         else let cellOff = get16 heap slotAddr
      in if cellOff < 64 \<or> cellOff > pageN - 4 then None
         else let cellBase = base + cellOff
      in if cellBase + 4 > length heap \<or> cellBase + 4 > base + pageN then None
         else let klen = get16 heap cellBase; vlen = get16 heap (cellBase + 2); cellSize = 4 + klen + 16 + vlen
      in if klen > pageN \<or> vlen > pageN then None
         else if cellSize > OverflowChunkCapacity \<or> cellSize > pageN - cellOff then None
         else if cellBase + cellSize > length heap \<or> cellBase + cellSize > base + pageN then None
         else let kStart = cellBase + 4
      in if kStart + klen > base + pageN \<or> kStart + klen > length heap then None
         else if kStart + klen + 16 > base + pageN \<or> kStart + klen + 16 > length heap then None
         else if kStart + klen + 16 + vlen > base + pageN \<or> kStart + klen + 16 + vlen > length heap then None
         else Some (bslice heap kStart klen, bslice heap (kStart + klen) 16, bslice heap (kStart + klen + 16) vlen, vlen))"

definition leafSlotCount :: "Cursor \<Rightarrow> nat \<Rightarrow> nat" where
  "leafSlotCount c leafIdx =
     (if leafIdx \<ge> length (cu_leafPages c) then 0
      else let base = cu_leafPages c ! leafIdx * pageN
      in if base + 22 + 2 > length (cu_heap c) then 0 else get16 (cu_heap c) (base + 22))"

definition leafFirstKey :: "Cursor \<Rightarrow> nat \<Rightarrow> bytes option" where
  "leafFirstKey c leafIdx = map_option fst (readSlotCell c leafIdx 0)"

text \<open>One slot forward, into the next leaf past the last slot; one slot back, None before the first slot or at an empty leaf.\<close>

definition next_slot :: "Cursor \<Rightarrow> nat \<Rightarrow> nat \<Rightarrow> nat \<times> nat" where
  "next_slot c curL curS = (if curS + 1 \<ge> leafSlotCount c curL then (curL + 1, 0) else (curL, curS + 1))"

definition prev_slot :: "Cursor \<Rightarrow> nat \<Rightarrow> nat \<Rightarrow> (nat \<times> nat) option" where
  "prev_slot c curL curS =
     (if curS > 0 then Some (curL, curS - 1)
      else if curL = 0 then None
      else if leafSlotCount c (curL - 1) = 0 then None
      else Some (curL - 1, leafSlotCount c (curL - 1) - 1))"

section \<open>The versions of a key\<close>

text \<open>The best version so far: its value, identifier and length.\<close>

function resolve_loop ::
    "Cursor \<Rightarrow> bytes \<Rightarrow> (bytes \<times> bytes \<times> nat) option \<Rightarrow> nat \<Rightarrow> nat \<Rightarrow> (bytes \<times> bytes \<times> nat) option \<times> nat \<times> nat" where
  "resolve_loop c key best curL curS =
     (let (nextL, nextS) = next_slot c curL curS
      in if nextL \<ge> length (cu_leafPages c) then (best, curL, curS)
         else case readSlotCell c nextL nextS of
           None \<Rightarrow> (best, curL, curS)
         | Some (nk, nid, nval, nvlen) \<Rightarrow>
             if nk \<noteq> key then (best, curL, curS)
             else resolve_loop c key (if bytes_Compare nid (cu_snap c) \<le> 0 then Some (nval, nid, nvlen) else best) nextL nextS)"
  by pat_completeness auto

text \<open>The distance of a position from the end of the sequence of leaves.\<close>

definition ahead :: "Cursor \<Rightarrow> nat \<Rightarrow> nat \<Rightarrow> nat list" where
  "ahead c curL curS = [length (cu_leafPages c) - curL, leafSlotCount c curL - curS]"

definition ahead_rel :: "(nat list \<times> nat list) set" where
  "ahead_rel = inv_image (less_than <*lex*> less_than) (\<lambda>xs. (xs ! 0, xs ! 1))"

lemma wf_ahead_rel [simp]: "wf ahead_rel"
  by (auto simp: ahead_rel_def)

lemma next_slot_ahead: "l < length (cu_leafPages c) \<Longrightarrow> next_slot c l s = (l', s') \<Longrightarrow> (ahead c l' s', ahead c l s) \<in> ahead_rel"
  by (auto simp: next_slot_def ahead_def ahead_rel_def split: if_splits)

lemma next_slot_fst: "next_slot c l s = (l', s') \<Longrightarrow> l \<le> l'"
  by (auto simp: next_slot_def split: if_splits)

lemma next_slot_step:
  "(l', s') = next_slot c l s \<Longrightarrow> l' < length (cu_leafPages c) \<Longrightarrow> (ahead c l' s', ahead c l s) \<in> ahead_rel"
  by (metis next_slot_ahead next_slot_fst le_less_trans)

termination resolve_loop
  by (relation "inv_image ahead_rel (\<lambda>(c, key, best, l, s). ahead c l s)") (auto split: prod.splits simp: not_le intro: next_slot_step)

declare resolve_loop.simps [simp del]

definition resolveKeyAt :: "Cursor \<Rightarrow> nat \<Rightarrow> nat \<Rightarrow> bytes \<times> bytes \<times> bytes \<times> nat \<times> nat \<times> bool" where
  "resolveKeyAt c leafIdx slotIdx =
     (case readSlotCell c leafIdx slotIdx of
        None \<Rightarrow> ([], [], [], leafIdx, slotIdx, False)
      | Some (key, initID, initVal, initVLen) \<Rightarrow>
          (case resolve_loop c key (if bytes_Compare initID (cu_snap c) \<le> 0 then Some (initVal, initID, initVLen) else None) leafIdx slotIdx of
             (Some (bestVal, bestID, bestVLen), endL, endS) \<Rightarrow>
               if bestVLen > 0 then (key, bestVal, bestID, endL, endS, True) else (key, [], [], endL, endS, False)
           | (None, endL, endS) \<Rightarrow> (key, [], [], endL, endS, False)))"

lemma prev_slot_less: "prev_slot c l s = Some (l', s') \<Longrightarrow> l' < l \<or> l' = l \<and> s' < s"
  by (auto simp: prev_slot_def split: if_splits)

function group_start :: "Cursor \<Rightarrow> bytes \<Rightarrow> nat \<Rightarrow> nat \<Rightarrow> nat \<times> nat" where
  "group_start c initKey curL curS =
     (case prev_slot c curL curS of
        None \<Rightarrow> (curL, curS)
      | Some (prevL, prevS) \<Rightarrow>
          (case readSlotCell c prevL prevS of
             None \<Rightarrow> (curL, curS)
           | Some (pk, _) \<Rightarrow> if pk \<noteq> initKey then (curL, curS) else group_start c initKey prevL prevS))"
  by pat_completeness auto
termination
  by (relation "inv_image (less_than <*lex*> less_than) (\<lambda>(c, k, l, s). (l, s))") (auto dest: prev_slot_less)

declare group_start.simps [simp del]

definition resolveKeyEndingAt :: "Cursor \<Rightarrow> nat \<Rightarrow> nat \<Rightarrow> bytes \<times> bytes \<times> bytes \<times> nat \<times> nat \<times> bool" where
  "resolveKeyEndingAt c leafIdx slotIdx =
     (case readSlotCell c leafIdx slotIdx of
        None \<Rightarrow> ([], [], [], leafIdx, slotIdx, False)
      | Some (initKey, _) \<Rightarrow>
          (case group_start c initKey leafIdx slotIdx of
             (startL, startS) \<Rightarrow>
               (case resolveKeyAt c startL startS of (k, v, id16, _, _, act) \<Rightarrow> (k, v, id16, startL, startS, act))))"

text \<open>The end of a group is its first position or ahead of it; the start of a group is its last position or behind it.\<close>

lemma ahead_trans: "(x, y) \<in> ahead_rel \<Longrightarrow> (y, z) \<in> ahead_rel \<Longrightarrow> (x, z) \<in> ahead_rel"
  by (auto simp: ahead_rel_def)

lemma resolve_loop_ahead:
  "resolve_loop c key best l s = (b, l', s') \<Longrightarrow> (l', s') = (l, s) \<or> (ahead c l' s', ahead c l s) \<in> ahead_rel \<and> l' < length (cu_leafPages c)"
proof (induction c key best l s arbitrary: b l' s' rule: resolve_loop.induct)
  case (1 c key best l s)
  obtain nl ns where n: "next_slot c l s = (nl, ns)" by fastforce
  show ?case
  proof (cases "nl < length (cu_leafPages c) \<and> (\<exists>nid nval nvlen. readSlotCell c nl ns = Some (key, nid, nval, nvlen))")
    case True
    then obtain nid nval nvlen where r: "nl < length (cu_leafPages c)" "readSlotCell c nl ns = Some (key, nid, nval, nvlen)" by blast
    define nb where "nb = (if bytes_Compare nid (cu_snap c) \<le> 0 then Some (nval, nid, nvlen) else best)"
    have e: "resolve_loop c key nb nl ns = (b, l', s')" using "1.prems" n r by (subst (asm) resolve_loop.simps) (simp add: nb_def)
    have a: "(ahead c nl ns, ahead c l s) \<in> ahead_rel" using n r by (simp add: next_slot_step)
    have "(l', s') = (nl, ns) \<or> (ahead c l' s', ahead c nl ns) \<in> ahead_rel \<and> l' < length (cu_leafPages c)"
      using "1.IH" [OF n [symmetric] refl, of "(key, nid, nval, nvlen)"] e r by (simp add: nb_def)
    then show ?thesis using a r ahead_trans by blast
  next
    case False
    then have "(b, l', s') = (best, l, s)"
      using "1.prems" n by (subst (asm) resolve_loop.simps) (auto split: option.splits if_splits)
    then show ?thesis by simp
  qed
qed

lemma resolveKeyAt_ahead:
  "resolveKeyAt c l s = (k, v, i, l', s', act)
   \<Longrightarrow> (l', s') = (l, s) \<or> (ahead c l' s', ahead c l s) \<in> ahead_rel \<and> l' < length (cu_leafPages c)"
  by (auto simp: resolveKeyAt_def split: option.splits prod.splits if_splits dest!: resolve_loop_ahead)

lemma group_start_le: "group_start c key l s = (l', s') \<Longrightarrow> l' < l \<or> l' = l \<and> s' \<le> s"
proof (induction c key l s arbitrary: l' s' rule: group_start.induct)
  case (1 c key l s)
  show ?case
  proof (cases "\<exists>pl ps x. prev_slot c l s = Some (pl, ps) \<and> readSlotCell c pl ps = Some (key, x)")
    case True
    then obtain pl ps x where r: "prev_slot c l s = Some (pl, ps)" "readSlotCell c pl ps = Some (key, x)" by blast
    have "group_start c key pl ps = (l', s')" using "1.prems" r by (subst (asm) group_start.simps) simp
    then have "l' < pl \<or> l' = pl \<and> s' \<le> ps" using "1.IH" [OF r(1) refl r(2) refl] by simp
    then show ?thesis using prev_slot_less [OF r(1)] by auto
  next
    case False
    then have "(l', s') = (l, s)" using "1.prems" by (subst (asm) group_start.simps) (auto split: option.splits if_splits)
    then show ?thesis by simp
  qed
qed

lemma resolveKeyEndingAt_le: "resolveKeyEndingAt c l s = (k, v, i, l', s', act) \<Longrightarrow> l' < l \<or> l' = l \<and> s' \<le> s"
  by (auto simp: resolveKeyEndingAt_def split: option.splits prod.splits if_splits dest!: group_start_le)

section \<open>Steps\<close>

type_synonym place = "nat \<times> nat \<times> bytes \<times> bytes \<times> bytes"

definition put_place :: "place \<Rightarrow> Cursor \<Rightarrow> Cursor" where
  "put_place p c = (case p of (l, s, k, v, i) \<Rightarrow>
     c\<lparr>cu_leafIdx := l, cu_slotIdx := s, cu_currKey := k, cu_currVal := v, cu_currID := i, cu_valid := True\<rparr>)"

definition no_place :: "Cursor \<Rightarrow> Cursor" where
  "no_place c = c\<lparr>cu_valid := False, cu_currKey := [], cu_currVal := [], cu_currID := []\<rparr>"

function forward_loop :: "Cursor \<Rightarrow> nat \<Rightarrow> nat \<Rightarrow> place option" where
  "forward_loop c curL curS =
     (let (curL, curS) = next_slot c curL curS
      in if curL \<ge> length (cu_leafPages c) then None
         else case resolveKeyAt c curL curS of (k, v, id16, endL, endS, active) \<Rightarrow>
           if active then Some (curL, curS, k, v, id16) else forward_loop c endL endS)"
  by pat_completeness auto

lemma forward_step:
  assumes "(l', s') = next_slot c l s" "l' < length (cu_leafPages c)" "(k, v, i, el, es, act) = resolveKeyAt c l' s'"
  shows "(ahead c el es, ahead c l s) \<in> ahead_rel"
  using next_slot_step [OF assms(1,2)] resolveKeyAt_ahead [OF assms(3) [symmetric]] ahead_trans by blast

termination forward_loop
  by (relation "inv_image ahead_rel (\<lambda>(c, l, s). ahead c l s)") (auto split: prod.splits simp: not_le intro: forward_step)

definition stepForward :: "Cursor \<Rightarrow> bool \<times> Cursor" where
  "stepForward c =
     (case forward_loop c (cu_leafIdx c) (cu_slotIdx c) of
        None \<Rightarrow> (False, no_place c)
      | Some p \<Rightarrow> (True, put_place p c))"

text \<open>After an inactive group the code goes on from slot 0 of the leaf where the group starts.\<close>

function backward_loop :: "Cursor \<Rightarrow> nat \<Rightarrow> nat \<Rightarrow> place option" where
  "backward_loop c curL curS =
     (case prev_slot c curL curS of
        None \<Rightarrow> None
      | Some (curL, curS) \<Rightarrow>
          (case resolveKeyEndingAt c curL curS of (k, v, id16, startL, _, active) \<Rightarrow>
             if active then Some (startL, curS, k, v, id16) else backward_loop c startL 0))"
  by pat_completeness auto
termination
  by (relation "inv_image (less_than <*lex*> less_than) (\<lambda>(c, l, s). (l, s))")
     (auto dest!: prev_slot_less resolveKeyEndingAt_le [OF sym])

definition stepBackward :: "Cursor \<Rightarrow> bool \<times> Cursor" where
  "stepBackward c =
     (case backward_loop c (cu_leafIdx c) (cu_slotIdx c) of
        None \<Rightarrow> (False, no_place c)
      | Some p \<Rightarrow> (True, put_place p c))"

declare forward_loop.simps [simp del] backward_loop.simps [simp del]

section \<open>Values\<close>

definition resolveVal :: "Cursor \<Rightarrow> bytes \<Rightarrow> bytes" where
  "resolveVal c raw = (case decodeValue (cu_heap c) (cu_npages c) raw of Inr v \<Rightarrow> v | Inl _ \<Rightarrow> raw)"

section \<open>Positioning\<close>

text \<open>The loop of \<open>First\<close> and \<open>Seek\<close>: the first active key that satisfies the condition.\<close>

function scan_loop :: "Cursor \<Rightarrow> (bytes \<Rightarrow> bool) \<Rightarrow> nat \<Rightarrow> nat \<Rightarrow> place option" where
  "scan_loop c P curL curS =
     (if curL \<ge> length (cu_leafPages c) then None
      else if leafSlotCount c curL = 0 then scan_loop c P (curL + 1) 0
      else case resolveKeyAt c curL curS of (k, v, id16, endL, endS, active) \<Rightarrow>
        if active \<and> P k then Some (curL, curS, k, v, id16)
        else let (curL, curS) = next_slot c endL endS in scan_loop c P curL curS)"
  by pat_completeness auto

lemma scan_step:
  assumes "l < length (cu_leafPages c)" "(k, v, i, el, es, act) = resolveKeyAt c l s" "(l', s') = next_slot c el es"
  shows "(ahead c l' s', ahead c l s) \<in> ahead_rel"
  using resolveKeyAt_ahead [OF assms(2) [symmetric]] next_slot_ahead [OF _ assms(3) [symmetric]] assms(1) ahead_trans by blast

lemma skip_step: "l < length (cu_leafPages c) \<Longrightarrow> (ahead c (Suc l) 0, ahead c l s) \<in> ahead_rel"
  by (auto simp: ahead_def ahead_rel_def)

termination scan_loop
  by (relation "inv_image ahead_rel (\<lambda>(c, P, l, s). ahead c l s)")
     (auto split: prod.splits simp: not_le intro: scan_step skip_step)

declare scan_loop.simps [simp del]

definition arrive :: "Cursor \<Rightarrow> place option \<Rightarrow> (bytes \<times> bytes) option \<times> Cursor" where
  "arrive c r =
     (case r of
        None \<Rightarrow> (None, no_place c)
      | Some (l, s, k, v, id16) \<Rightarrow> (Some (k, resolveVal c v), put_place (l, s, k, v, id16) c))"

definition First :: "Cursor \<Rightarrow> (bytes \<times> bytes) option \<times> Cursor" where
  "First c =
     (if length (cu_leafPages c) = 0 then (None, c\<lparr>cu_valid := False, cu_currID := []\<rparr>)
      else arrive c (scan_loop c (\<lambda>_. True) 0 0))"

text \<open>
  The two loops of \<open>Last\<close>: with a slot, the inner loop at a leaf and a slot; without one, the outer loop
  with the number of leaves not yet left behind.
\<close>

function last_loop :: "Cursor \<Rightarrow> nat \<Rightarrow> nat option \<Rightarrow> place option" where
  "last_loop c 0 None = None"
| "last_loop c (Suc curL) None =
     (if leafSlotCount c curL = 0 then last_loop c curL None
      else last_loop c curL (Some (leafSlotCount c curL - 1)))"
| "last_loop c curL (Some curS) =
     (case resolveKeyEndingAt c curL curS of (k, v, id16, startL, startS, active) \<Rightarrow>
        if active then Some (startL, curS, k, v, id16)
        else if startS = 0 then last_loop c startL None
        else last_loop c startL (Some (startS - 1)))"
  by pat_completeness auto
termination
  by (relation "inv_image (less_than <*lex*> less_than) (\<lambda>(c, l, s). (l, case s of None \<Rightarrow> 0 | Some s \<Rightarrow> Suc s))")
     (auto dest!: resolveKeyEndingAt_le [OF sym])

definition Last :: "Cursor \<Rightarrow> (bytes \<times> bytes) option \<times> Cursor" where
  "Last c =
     (if length (cu_leafPages c) = 0 then (None, c\<lparr>cu_valid := False, cu_currID := []\<rparr>)
      else arrive c (last_loop c (length (cu_leafPages c)) None))"

text \<open>\<open>sort.Search\<close> of the standard library.\<close>

function search_loop :: "(nat \<Rightarrow> bool) \<Rightarrow> nat \<Rightarrow> nat \<Rightarrow> nat" where
  "search_loop f i j =
     (if i < j then let h = (i + j) div 2 in if \<not> f h then search_loop f (h + 1) j else search_loop f i h else i)"
  by pat_completeness auto
termination by (relation "measure (\<lambda>(f, i, j). j - i)") auto

definition sort_Search :: "nat \<Rightarrow> (nat \<Rightarrow> bool) \<Rightarrow> nat" where
  "sort_Search n f = search_loop f 0 n"

declare search_loop.simps [simp del] last_loop.simps [simp del]

definition seek_leaf :: "Cursor \<Rightarrow> bytes \<Rightarrow> nat" where
  "seek_leaf c target =
     sort_Search (length (cu_leafPages c))
       (\<lambda>i. case leafFirstKey c i of None \<Rightarrow> True | Some fk \<Rightarrow> bytes_Compare fk target > 0) - 1"

definition seek_slot :: "Cursor \<Rightarrow> bytes \<Rightarrow> nat \<Rightarrow> nat \<times> nat" where
  "seek_slot c target curL =
     (let cnt = leafSlotCount c curL
      in if cnt > 0
         then let curS = sort_Search cnt (\<lambda>i. case readSlotCell c curL i of None \<Rightarrow> True | Some (k, _) \<Rightarrow> bytes_Compare k target \<ge> 0)
              in if curS \<ge> cnt then (curL + 1, 0) else (curL, curS)
         else (curL, 0))"

definition Seek :: "Cursor \<Rightarrow> bytes \<Rightarrow> (bytes \<times> bytes) option \<times> Cursor" where
  "Seek c target =
     (if length (cu_leafPages c) = 0 then (None, c\<lparr>cu_valid := False, cu_currID := []\<rparr>)
      else let (curL, curS) = seek_slot c target (seek_leaf c target)
           in arrive c (scan_loop c (\<lambda>k. bytes_Compare k target \<ge> 0) curL curS))"

definition Next :: "Cursor \<Rightarrow> (bytes \<times> bytes) option \<times> Cursor" where
  "Next c =
     (if \<not> cu_valid c then (None, c)
      else case resolveKeyAt c (cu_leafIdx c) (cu_slotIdx c) of (_, _, _, endL, endS, _) \<Rightarrow>
        (case stepForward (c\<lparr>cu_leafIdx := endL, cu_slotIdx := endS\<rparr>) of
           (False, c) \<Rightarrow> (None, c)
         | (True, c) \<Rightarrow> (Some (cu_currKey c, resolveVal c (cu_currVal c)), c)))"

definition Prev :: "Cursor \<Rightarrow> (bytes \<times> bytes) option \<times> Cursor" where
  "Prev c =
     (if \<not> cu_valid c then (None, c)
      else case resolveKeyEndingAt c (cu_leafIdx c) (cu_slotIdx c) of (_, _, _, startL, startS, _) \<Rightarrow>
        (case stepBackward (c\<lparr>cu_leafIdx := startL, cu_slotIdx := startS\<rparr>) of
           (False, c) \<Rightarrow> (None, c)
         | (True, c) \<Rightarrow> (Some (cu_currKey c, resolveVal c (cu_currVal c)), c)))"

section \<open>The current pair\<close>

definition cursor_Key :: "Cursor \<Rightarrow> bytes" where
  "cursor_Key c = (if \<not> cu_valid c then [] else cu_currKey c)"

definition VersionID :: "Cursor \<Rightarrow> bytes" where
  "VersionID c = (if \<not> cu_valid c then [] else cu_currID c)"

definition cursor_Value :: "Cursor \<Rightarrow> bytes" where
  "cursor_Value c = (if \<not> cu_valid c then [] else resolveVal c (cu_currVal c))"

definition RawValue :: "Cursor \<Rightarrow> bytes" where
  "RawValue c = (if \<not> cu_valid c then [] else cu_currVal c)"

definition IsOverflow :: "Cursor \<Rightarrow> bool" where
  "IsOverflow c = (if \<not> cu_valid c then False else fst (checkOverflowDesc (cu_currVal c)))"

definition ValueLen :: "Cursor \<Rightarrow> nat" where
  "ValueLen c =
     (if \<not> cu_valid c then 0
      else case isOverflowDescriptor (cu_currVal c) of
        Some (tLen, _) \<Rightarrow> tLen
      | None \<Rightarrow> if length (cu_currVal c) > 0 \<and> cu_currVal c ! 0 = cellKindInline then length (cu_currVal c) - 1
                else length (cu_currVal c))"

definition cursor_Close :: "Cursor \<Rightarrow> (nat \<Rightarrow> int) \<Rightarrow> Cursor \<times> (nat \<Rightarrow> int)" where
  "cursor_Close c refs =
     ((no_place c)\<lparr>cu_pin := None, cu_heap := []\<rparr>,
      case cu_pin c of None \<Rightarrow> refs | Some h \<Rightarrow> refs(h := refs h - 1))"


section \<open>Progress of the steps\<close>

lemma forward_loop_ahead: "forward_loop c l s = Some (l', s', kvi) \<Longrightarrow> (ahead c l' s', ahead c l s) \<in> ahead_rel"
proof (induction c l s rule: forward_loop.induct)
  case (1 c l s)
  obtain nl ns where n: "next_slot c l s = (nl, ns)" by fastforce
  obtain k v i el es act where r: "resolveKeyAt c nl ns = (k, v, i, el, es, act)" by (metis prod_cases6)
  have i: "nl < length (cu_leafPages c)" using "1.prems" n by (subst (asm) forward_loop.simps) (auto split: if_splits)
  show ?case
  proof (cases act)
    case True
    then have "(l', s') = (nl, ns)" using "1.prems" n r i by (subst (asm) forward_loop.simps) auto
    then show ?thesis using next_slot_step [OF n [symmetric] i] by simp
  next
    case False
    then have "forward_loop c el es = Some (l', s', kvi)" using "1.prems" n r i by (subst (asm) forward_loop.simps) auto
    then have "(ahead c l' s', ahead c el es) \<in> ahead_rel"
      using "1.IH" [OF n [symmetric] refl] r i False by auto
    then show ?thesis using forward_step [OF n [symmetric] i r [symmetric]] ahead_trans by blast
  qed
qed

definition behind_rel :: "((nat \<times> nat) \<times> nat \<times> nat) set" where
  "behind_rel = less_than <*lex*> less_than"

lemma wf_behind_rel [simp]: "wf behind_rel"
  by (auto simp: behind_rel_def)

lemma backward_loop_behind: "backward_loop c l s = Some (l', s', kvi) \<Longrightarrow> ((l', s'), (l, s)) \<in> behind_rel"
proof (induction c l s rule: backward_loop.induct)
  case (1 c l s)
  then obtain pl ps where p: "prev_slot c l s = Some (pl, ps)" by (subst (asm) backward_loop.simps) (auto split: option.splits)
  obtain k v i sl ss act where r: "resolveKeyEndingAt c pl ps = (k, v, i, sl, ss, act)" by (metis prod_cases6)
  note le = prev_slot_less [OF p] resolveKeyEndingAt_le [OF r]
  show ?case
  proof (cases act)
    case True
    then have "(l', s') = (sl, ps)" using "1.prems" p r by (subst (asm) backward_loop.simps) auto
    then show ?thesis using le by (auto simp: behind_rel_def)
  next
    case False
    then have "backward_loop c sl 0 = Some (l', s', kvi)" using "1.prems" p r by (subst (asm) backward_loop.simps) auto
    then have "((l', s'), (sl, 0)) \<in> behind_rel" using "1.IH" [OF p refl r [symmetric]] False by auto
    then show ?thesis using le by (auto simp: behind_rel_def)
  qed
qed

text \<open>What a move leaves: the heap, the snapshot, the leaves and the pin.\<close>

definition same_leaves :: "Cursor \<Rightarrow> Cursor \<Rightarrow> bool" where
  "same_leaves c c' \<longleftrightarrow> cu_heap c' = cu_heap c \<and> cu_npages c' = cu_npages c \<and> cu_snap c' = cu_snap c \<and> cu_leafPages c' = cu_leafPages c
     \<and> cu_pin c' = cu_pin c"

lemma same_leaves_refl [simp]: "same_leaves c c"
  by (simp add: same_leaves_def)

lemma same_leaves_trans: "same_leaves a b \<Longrightarrow> same_leaves b c \<Longrightarrow> same_leaves a c"
  by (simp add: same_leaves_def)

lemma same_leaves_move [simp]:
  "same_leaves c (c\<lparr>cu_leafIdx := l, cu_slotIdx := s\<rparr>)"
  "same_leaves c (put_place p c') = same_leaves c c'" "same_leaves c (no_place c') = same_leaves c c'"
  by (auto simp: same_leaves_def put_place_def no_place_def split: prod.splits)

lemma same_leaves_ahead: "same_leaves c c' \<Longrightarrow> ahead c' l s = ahead c l s"
  by (simp add: same_leaves_def leafSlotCount_def ahead_def Let_def cong: if_cong)

lemma Next_ahead:
  assumes "Next c = (Some kv, c')"
  shows "(ahead c' (cu_leafIdx c') (cu_slotIdx c'), ahead c (cu_leafIdx c) (cu_slotIdx c)) \<in> ahead_rel" "same_leaves c c'"
proof -
  obtain k v i el es act where r: "resolveKeyAt c (cu_leafIdx c) (cu_slotIdx c) = (k, v, i, el, es, act)" by (metis prod_cases6)
  define d where "d = c\<lparr>cu_leafIdx := el, cu_slotIdx := es\<rparr>"
  have sd: "same_leaves c d" by (simp add: d_def)
  obtain l s kvi where f: "forward_loop d el es = Some (l, s, kvi)" and c': "c' = put_place (l, s, kvi) d"
    using assms r by (auto simp: Next_def d_def stepForward_def split: if_splits option.splits prod.splits)
  have p: "cu_leafIdx c' = l" "cu_slotIdx c' = s" by (simp_all add: c' put_place_def split: prod.splits)
  show s: "same_leaves c c'" using sd by (simp add: c')
  have "(ahead c l s, ahead c el es) \<in> ahead_rel" using forward_loop_ahead [OF f] by (simp add: same_leaves_ahead [OF sd])
  then show "(ahead c' (cu_leafIdx c') (cu_slotIdx c'), ahead c (cu_leafIdx c) (cu_slotIdx c)) \<in> ahead_rel"
    using resolveKeyAt_ahead [OF r] ahead_trans by (auto simp: p same_leaves_ahead [OF s])
qed

lemma Prev_behind:
  assumes "Prev c = (Some kv, c')"
  shows "((cu_leafIdx c', cu_slotIdx c'), (cu_leafIdx c, cu_slotIdx c)) \<in> behind_rel" "same_leaves c c'"
proof -
  obtain k v i sl ss act where r: "resolveKeyEndingAt c (cu_leafIdx c) (cu_slotIdx c) = (k, v, i, sl, ss, act)" by (metis prod_cases6)
  define d where "d = c\<lparr>cu_leafIdx := sl, cu_slotIdx := ss\<rparr>"
  have sd: "same_leaves c d" by (simp add: d_def)
  obtain l s kvi where f: "backward_loop d sl ss = Some (l, s, kvi)" and c': "c' = put_place (l, s, kvi) d"
    using assms r by (auto simp: Prev_def d_def stepBackward_def split: if_splits option.splits prod.splits)
  have p: "cu_leafIdx c' = l" "cu_slotIdx c' = s" by (simp_all add: c' put_place_def split: prod.splits)
  show "same_leaves c c'" using sd by (simp add: c')
  show "((cu_leafIdx c', cu_slotIdx c'), (cu_leafIdx c, cu_slotIdx c)) \<in> behind_rel"
    using backward_loop_behind [OF f] resolveKeyEndingAt_le [OF r] by (auto simp: p behind_rel_def)
qed

section \<open>Ranges\<close>

text \<open>The callback threads a state of its own and says whether to go on.\<close>

function range_loop ::
    "('a \<Rightarrow> bytes \<Rightarrow> bytes \<Rightarrow> 'a \<times> bool) \<Rightarrow> bytes \<Rightarrow> (bytes \<times> bytes) option \<Rightarrow> Cursor \<Rightarrow> 'a \<Rightarrow> Cursor \<times> 'a" where
  "range_loop fn bound r c st =
     (case r of
        None \<Rightarrow> (c, st)
      | Some (k, v) \<Rightarrow>
          if length bound > 0 \<and> bytes_Compare k bound \<ge> 0 then (c, st)
          else case fn st k v of (st, goon) \<Rightarrow>
            if \<not> goon then (c, st)
            else case Next c of (r, c) \<Rightarrow> range_loop fn bound r c st)"
  by pat_completeness auto
termination
  by (relation "inv_image (less_than <*lex*> ahead_rel) (\<lambda>(fn, bound, r, c, st). (case r of None \<Rightarrow> 0 | Some _ \<Rightarrow> 1, ahead c (cu_leafIdx c) (cu_slotIdx c)))")
     (auto split: option.splits dest: Next_ahead [OF sym])

declare range_loop.simps [simp del]

definition cursor_Range ::
    "('a \<Rightarrow> bytes \<Rightarrow> bytes \<Rightarrow> 'a \<times> bool) \<Rightarrow> bytes \<Rightarrow> bytes \<Rightarrow> Cursor \<Rightarrow> 'a \<Rightarrow> Cursor \<times> 'a" where
  "cursor_Range fn start bound c st =
     (case (if length start = 0 then First c else Seek c start) of (r, c) \<Rightarrow> range_loop fn bound r c st)"

section \<open>Cursors of shards and views\<close>

datatype cursor_error = EBADF | ErrNotFound | NotReady string

record liveHeap =
  lh_buf :: bytes
  lh_root :: nat

record View =
  vw_snap :: bytes
  vw_heap :: "bytes option"
  vw_root :: nat
  vw_pin :: "nat option"

text \<open>
  The live heap of the shard is its index and contents; \<open>pinLive\<close> takes a reference of it. Without a
  committed version the snapshot is the greatest identifier.
\<close>

definition Shard_Cursor ::
    "cursor_error option \<Rightarrow> (nat \<times> liveHeap) option \<Rightarrow> bytes option \<Rightarrow> (nat \<Rightarrow> int) \<Rightarrow> (cursor_error + Cursor) \<times> (nat \<Rightarrow> int)" where
  "Shard_Cursor ready live lastID refs =
     (case ready of
        Some e \<Rightarrow> (Inl e, refs)
      | None \<Rightarrow> (case live of
          None \<Rightarrow> (Inl EBADF, refs)
        | Some (h, lh) \<Rightarrow>
            (Inr (newCursor (lh_buf lh) (lh_root lh) (case lastID of Some i \<Rightarrow> i | None \<Rightarrow> replicate 16 0xff) (Some h)),
             refs(h := refs h + 1))))"

definition View_Cursor :: "View \<Rightarrow> (nat \<Rightarrow> int) \<Rightarrow> (cursor_error + Cursor) \<times> (nat \<Rightarrow> int)" where
  "View_Cursor v refs =
     (case vw_heap v of
        None \<Rightarrow> (Inl EBADF, refs)
      | Some heap \<Rightarrow>
          (Inr (newCursor heap (vw_root v) (vw_snap v) (vw_pin v)),
           case vw_pin v of None \<Rightarrow> refs | Some h \<Rightarrow> refs(h := refs h + 1)))"

text \<open>The range of a shard or of a view: opened, run, and closed on return.\<close>

definition range_open ::
    "('a \<Rightarrow> bytes \<Rightarrow> bytes \<Rightarrow> 'a \<times> bool) \<Rightarrow> bytes \<Rightarrow> bytes \<Rightarrow> (cursor_error + Cursor) \<times> (nat \<Rightarrow> int) \<Rightarrow> 'a
     \<Rightarrow> (cursor_error + 'a) \<times> (nat \<Rightarrow> int)" where
  "range_open fn start bound opened st =
     (case opened of
        (Inl e, refs) \<Rightarrow> (Inl e, refs)
      | (Inr c, refs) \<Rightarrow> (case cursor_Range fn start bound c st of (c, st) \<Rightarrow> (Inr st, snd (cursor_Close c refs))))"

definition Shard_Range where
  "Shard_Range fn start bound ready live lastID refs st = range_open fn start bound (Shard_Cursor ready live lastID refs) st"

definition View_Range where
  "View_Range fn start bound v refs st = range_open fn start bound (View_Cursor v refs) st"

end
