(* ===== verification/Query.thy ===== *)
theory Query
  imports Cursor
begin

text \<open>
  The query builder of \<^verbatim>\<open>src/pkg/c2db/query.go\<close> over a cursor: its options, the predicates it offers, and the loop
  that runs a query and pushes the predicates down to the key and the raw cell. Predicates are functions;
  the callback threads a state of its own. Limit and offset are signed and count far below 64 bits.
\<close>

record Query =
  qr_cursor :: "Cursor option"
  qr_ownsCur :: bool
  qr_prefix :: bytes
  qr_start :: bytes
  qr_end :: bytes
  qr_reverse :: bool
  qr_offset :: int
  qr_limit :: int
  qr_keyPreds :: "(bytes \<Rightarrow> bool) list"
  qr_rawPreds :: "(bytes \<Rightarrow> bool) list"
  qr_allPreds :: "(bytes \<Rightarrow> bytes \<Rightarrow> bool) list"

section \<open>Building a query\<close>

definition newQuery :: "Cursor \<Rightarrow> bool \<Rightarrow> Query" where
  "newQuery c ownsCur = \<lparr>qr_cursor = Some c, qr_ownsCur = ownsCur, qr_prefix = [], qr_start = [], qr_end = [], qr_reverse = False,
     qr_offset = 0, qr_limit = -1, qr_keyPreds = [], qr_rawPreds = [], qr_allPreds = []\<rparr>"

definition query_open :: "(cursor_error + Cursor) \<times> (nat \<Rightarrow> int) \<Rightarrow> (cursor_error + Query) \<times> (nat \<Rightarrow> int)" where
  "query_open opened = (case opened of (Inl e, refs) \<Rightarrow> (Inl e, refs) | (Inr c, refs) \<Rightarrow> (Inr (newQuery c True), refs))"

definition Shard_Query where "Shard_Query ready live lastID refs = query_open (Shard_Cursor ready live lastID refs)"
definition View_Query where "View_Query v refs = query_open (View_Cursor v refs)"
definition Cursor_Query :: "Cursor \<Rightarrow> Query" where "Cursor_Query c = newQuery c False"

text \<open>The bytes up to the last one below 0xff, with that one incremented; none when all are 0xff.\<close>

fun upper_loop :: "bytes \<Rightarrow> nat \<Rightarrow> bytes" where
  "upper_loop bound 0 = []"
| "upper_loop bound (Suc i) = (if bound ! i < 0xff then take (Suc i) (bound[i := bound ! i + 1]) else upper_loop bound i)"

definition prefixUpperBound :: "bytes \<Rightarrow> bytes" where
  "prefixUpperBound prefix = (if length prefix = 0 then [] else upper_loop prefix (length prefix))"

definition Query_Prefix :: "bytes \<Rightarrow> Query \<Rightarrow> Query" where
  "Query_Prefix prefix q = q\<lparr>qr_prefix := prefix, qr_start := prefix, qr_end := prefixUpperBound prefix\<rparr>"

definition Query_Range :: "bytes \<Rightarrow> bytes \<Rightarrow> Query \<Rightarrow> Query" where
  "Query_Range start bound q = q\<lparr>qr_start := start, qr_end := bound\<rparr>"

definition Query_Where where "Query_Where preds q = q\<lparr>qr_allPreds := qr_allPreds q @ preds\<rparr>"
definition Query_WhereKey where "Query_WhereKey preds q = q\<lparr>qr_keyPreds := qr_keyPreds q @ preds\<rparr>"
definition Query_WhereRawVal where "Query_WhereRawVal preds q = q\<lparr>qr_rawPreds := qr_rawPreds q @ preds\<rparr>"
definition Query_Limit where "Query_Limit limit q = q\<lparr>qr_limit := limit\<rparr>"
definition Query_Offset where "Query_Offset offset q = q\<lparr>qr_offset := offset\<rparr>"
definition Query_Reverse where "Query_Reverse q = q\<lparr>qr_reverse := True\<rparr>"

section \<open>Predicates\<close>

definition HasPrefix :: "bytes \<Rightarrow> bytes \<Rightarrow> bool" where
  "HasPrefix s prefix \<longleftrightarrow> length s \<ge> length prefix \<and> take (length prefix) s = prefix"

definition HasSuffix :: "bytes \<Rightarrow> bytes \<Rightarrow> bool" where
  "HasSuffix s suffix \<longleftrightarrow> length s \<ge> length suffix \<and> drop (length s - length suffix) s = suffix"

fun Contains :: "bytes \<Rightarrow> bytes \<Rightarrow> bool" where
  "Contains [] sub \<longleftrightarrow> sub = []"
| "Contains (x # xs) sub \<longleftrightarrow> HasPrefix (x # xs) sub \<or> Contains xs sub"

definition KeyPrefix where "KeyPrefix prefix k = HasPrefix k prefix"
definition KeySuffix where "KeySuffix suffix k = HasSuffix k suffix"
definition KeyContains where "KeyContains sub k = Contains k sub"

definition KeyBetween :: "bytes \<Rightarrow> bytes \<Rightarrow> bytes \<Rightarrow> bool" where
  "KeyBetween start bound k =
     (if length start > 0 \<and> bytes_Compare k start < 0 then False
      else if length bound > 0 \<and> bytes_Compare k bound \<ge> 0 then False
      else True)"

definition ValContains where "ValContains sub (k :: bytes) v = Contains v sub"
definition ValHasPrefix where "ValHasPrefix prefix (k :: bytes) v = HasPrefix v prefix"
definition ValHasSuffix where "ValHasSuffix suffix (k :: bytes) v = HasSuffix v suffix"

definition raw_length :: "bytes \<Rightarrow> int" where
  "raw_length rawVal =
     (case isOverflowDescriptor rawVal of
        Some (tLen, _) \<Rightarrow> int tLen
      | None \<Rightarrow> let l = int (length rawVal) in if l > 0 \<and> rawVal ! 0 = cellKindInline then l - 1 else l)"

definition ValMinLength :: "int \<Rightarrow> bytes \<Rightarrow> bool" where "ValMinLength minLen rawVal \<longleftrightarrow> raw_length rawVal \<ge> minLen"
definition ValMaxLength :: "int \<Rightarrow> bytes \<Rightarrow> bool" where "ValMaxLength maxLen rawVal \<longleftrightarrow> raw_length rawVal \<le> maxLen"

section \<open>The scanner of string fields\<close>

definition json_ws :: "byte \<Rightarrow> bool" where "json_ws b \<longleftrightarrow> b = 32 \<or> b = 9 \<or> b = 13 \<or> b = 10"

definition skip_ws :: "bytes \<Rightarrow> bytes" where "skip_ws = dropWhile json_ws"

text \<open>The string value after its opening quote: the bytes to the next quote that is not escaped, as they are.\<close>

fun value_loop :: "bytes \<Rightarrow> bool \<Rightarrow> bytes \<Rightarrow> bytes option" where
  "value_loop [] esc acc = None"
| "value_loop (b # bs) esc acc =
     (if esc then value_loop bs False (acc @ [b])
      else if b = 92 then value_loop bs True (acc @ [b])
      else if b = 34 then Some acc
      else value_loop bs False (acc @ [b]))"

text \<open>The scan of the rest of the document; a match of the quoted field that no colon follows is skipped as a whole.\<close>

function field_loop :: "bytes \<Rightarrow> bool \<Rightarrow> bool \<Rightarrow> bytes \<Rightarrow> bytes option" where
  "field_loop fBytes inString escaped [] = None"
| "field_loop fBytes inString escaped (b # bs) =
     (if inString
      then if escaped then field_loop fBytes True False bs
           else if b = 92 then field_loop fBytes True True bs
           else if b = 34 then field_loop fBytes False False bs
           else field_loop fBytes True False bs
      else if b \<noteq> 34 then field_loop fBytes False escaped bs
      else if fBytes \<noteq> [] \<and> HasPrefix (b # bs) fBytes
      then (case skip_ws (drop (length fBytes) (b # bs)) of
              c # rest \<Rightarrow>
                if c = 58
                then (case skip_ws rest of
                        d # val \<Rightarrow> if d = 34 then value_loop val False [] else None
                      | [] \<Rightarrow> None)
                else field_loop fBytes False escaped (drop (length fBytes) (b # bs))
            | [] \<Rightarrow> field_loop fBytes False escaped (drop (length fBytes) (b # bs)))
      else field_loop fBytes True escaped bs)"
  by pat_completeness auto
termination by (relation "measure (\<lambda>(f, s, e, bs). length bs)") auto

definition fastExtractJSONField :: "bytes \<Rightarrow> bytes \<Rightarrow> bytes option" where
  "fastExtractJSONField json field = field_loop ([34] @ field @ [34]) False False json"

definition ValJSONFieldString :: "bytes \<Rightarrow> bytes \<Rightarrow> bytes \<Rightarrow> bytes \<Rightarrow> bool" where
  "ValJSONFieldString field expected k v = (case fastExtractJSONField v field of None \<Rightarrow> False | Some val \<Rightarrow> val = expected)"

definition ValJSONFieldContains :: "bytes \<Rightarrow> bytes \<Rightarrow> bytes \<Rightarrow> bytes \<Rightarrow> bool" where
  "ValJSONFieldContains field sub k v = (case fastExtractJSONField v field of None \<Rightarrow> False | Some val \<Rightarrow> Contains val sub)"

section \<open>Readers of values\<close>

datatype value_reader = StreamReader overflowStreamReader | InlineReader bytes

definition take_pin :: "Cursor \<Rightarrow> (nat \<Rightarrow> int) \<Rightarrow> nat \<Rightarrow> int" where
  "take_pin c refs = (case cu_pin c of None \<Rightarrow> refs | Some h \<Rightarrow> refs(h := refs h + 1))"

definition ValueReader :: "Cursor \<Rightarrow> (nat \<Rightarrow> int) \<Rightarrow> value_reader option \<times> (nat \<Rightarrow> int)" where
  "ValueReader c refs =
     (if \<not> cu_valid c then (None, refs)
      else case isOverflowDescriptor (cu_currVal c) of
        Some (totalLen, headPage) \<Rightarrow> (Some (StreamReader (open_stream (cu_heap c) (cu_npages c) totalLen headPage)), take_pin c refs)
      | None \<Rightarrow> (case decodeValue (cu_heap c) (cu_npages c) (cu_currVal c) of
          Inl e \<Rightarrow> (None, refs)
        | Inr val \<Rightarrow> (Some (InlineReader val), take_pin c refs)))"

section \<open>Running a query\<close>

definition advance :: "Query \<Rightarrow> Cursor \<Rightarrow> bytes option \<times> Cursor" where
  "advance q c = (case (if \<not> qr_reverse q then Next c else Prev c) of (r, c) \<Rightarrow> (map_option fst r, c))"

definition query_start :: "Query \<Rightarrow> Cursor \<Rightarrow> bytes option \<times> Cursor" where
  "query_start q c =
     (case (if \<not> qr_reverse q
            then if length (qr_start q) = 0 then First c else Seek c (qr_start q)
            else if length (qr_end q) = 0 then Last c
            else case Seek c (qr_end q) of
              (None, c) \<Rightarrow> Last c
            | (Some (k, v), c) \<Rightarrow> if bytes_Compare k (qr_end q) \<ge> 0 then Prev c else (Some (k, v), c))
      of (r, c) \<Rightarrow> (map_option fst r, c))"

definition past_bound :: "Query \<Rightarrow> bytes \<Rightarrow> bool" where
  "past_bound q k =
     (if \<not> qr_reverse q then length (qr_end q) > 0 \<and> bytes_Compare k (qr_end q) \<ge> 0
      else length (qr_start q) > 0 \<and> bytes_Compare k (qr_start q) < 0)"

definition left_over :: "Query \<Rightarrow> Cursor \<Rightarrow> nat list" where
  "left_over q c = (if qr_reverse q then [cu_leafIdx c, cu_slotIdx c] else ahead c (cu_leafIdx c) (cu_slotIdx c))"

lemma advance_left_over: "advance q c = (Some k, c') \<Longrightarrow> (left_over q c', left_over q c) \<in> ahead_rel"
  using Next_ahead(1) [of c _ c'] Prev_behind(1) [of c _ c']
  by (auto simp: advance_def left_over_def behind_rel_def ahead_rel_def split: prod.splits if_splits)

function iterate_loop ::
    "Query \<Rightarrow> bool \<Rightarrow> bool \<Rightarrow> ('a \<Rightarrow> bytes \<Rightarrow> bytes \<Rightarrow> value_reader option \<Rightarrow> 'a \<times> bool)
     \<Rightarrow> bytes option \<times> Cursor \<Rightarrow> int \<Rightarrow> int \<Rightarrow> 'a \<Rightarrow> (nat \<Rightarrow> int) \<Rightarrow> Cursor \<times> 'a \<times> (nat \<Rightarrow> int)" where
  "iterate_loop q full stream yield (None, c) matched yielded st refs = (c, st, refs)"
| "iterate_loop q full stream yield (Some k, c) matched yielded st refs =
     (if past_bound q k then (c, st, refs)
      else if \<not> list_all (\<lambda>p. p k) (qr_keyPreds q) then iterate_loop q full stream yield (advance q c) matched yielded st refs
      else if \<not> list_all (\<lambda>p. p (RawValue c)) (qr_rawPreds q) then iterate_loop q full stream yield (advance q c) matched yielded st refs
      else let v = (if length (qr_allPreds q) > 0 \<or> full then cursor_Value c else [])
      in if \<not> list_all (\<lambda>p. p k v) (qr_allPreds q) then iterate_loop q full stream yield (advance q c) matched yielded st refs
      else let matched = matched + 1
      in if matched \<le> qr_offset q then iterate_loop q full stream yield (advance q c) matched yielded st refs
      else case (if stream then ValueReader c refs else (None, refs)) of (reader, refs) \<Rightarrow>
        (case yield st k v reader of (st, goon) \<Rightarrow>
          if \<not> goon then (c, st, refs)
          else let yielded = yielded + 1
          in if qr_limit q > 0 \<and> yielded \<ge> qr_limit q then (c, st, refs)
             else iterate_loop q full stream yield (advance q c) matched yielded st refs))"
  by pat_completeness auto

lemma advance_measure:
  "((case fst (advance q c) of None \<Rightarrow> 0 | Some _ \<Rightarrow> 1, left_over q (snd (advance q c))), (1 :: nat, left_over q c)) \<in> less_than <*lex*> ahead_rel"
  by (cases "advance q c") (auto split: option.splits dest: advance_left_over)

termination iterate_loop
  by (relation "inv_image (less_than <*lex*> ahead_rel)
      (\<lambda>(q, full, stream, yield, r, matched, yielded, st, refs). (case fst r of None \<Rightarrow> 0 | Some _ \<Rightarrow> 1, left_over q (snd r)))",
      intro wf_inv_image wf_lex_prod wf_less_than wf_ahead_rel)
     (use advance_measure in \<open>simp_all\<close>)

definition iterate where
  "iterate q full stream yield c st refs = iterate_loop q full stream yield (query_start q c) 0 0 st refs"

text \<open>What the terminal operations share: the nil cursor, and the close on return of a cursor the query owns.\<close>

definition run_query where
  "run_query q full stream yield st refs =
     (case qr_cursor q of
        None \<Rightarrow> (Inl EBADF, q, refs)
      | Some c \<Rightarrow> (case iterate q full stream yield c st refs of (c, st, refs) \<Rightarrow>
          (case (if qr_ownsCur q then cursor_Close c refs else (c, refs)) of (c, refs) \<Rightarrow>
            (Inr st, q\<lparr>qr_cursor := Some c\<rparr>, refs))))"

definition Query_Count :: "Query \<Rightarrow> (nat \<Rightarrow> int) \<Rightarrow> (cursor_error + int) \<times> Query \<times> (nat \<Rightarrow> int)" where
  "Query_Count q refs = run_query q False False (\<lambda>count k v r. (count + 1, True)) 0 refs"

definition Query_First :: "Query \<Rightarrow> (nat \<Rightarrow> int) \<Rightarrow> (cursor_error + bytes \<times> bytes) \<times> Query \<times> (nat \<Rightarrow> int)" where
  "Query_First q refs =
     (case run_query q True False (\<lambda>found k v r. (Some (k, v), False)) None refs of
        (Inl e, rest) \<Rightarrow> (Inl e, rest)
      | (Inr None, rest) \<Rightarrow> (Inl ErrNotFound, rest)
      | (Inr (Some e), rest) \<Rightarrow> (Inr e, rest))"

definition Query_Collect :: "Query \<Rightarrow> (nat \<Rightarrow> int) \<Rightarrow> (cursor_error + (bytes \<times> bytes) list) \<times> Query \<times> (nat \<Rightarrow> int)" where
  "Query_Collect q refs = run_query q True False (\<lambda>results k v r. (results @ [(k, v)], True)) [] refs"

definition Query_CollectKeys :: "Query \<Rightarrow> (nat \<Rightarrow> int) \<Rightarrow> (cursor_error + bytes list) \<times> Query \<times> (nat \<Rightarrow> int)" where
  "Query_CollectKeys q refs = run_query q False False (\<lambda>keys k v r. (keys @ [k], True)) [] refs"

definition Query_Scan where
  "Query_Scan fn q st refs = run_query q True False (\<lambda>st k v r. fn st k v) st refs"

definition Query_ScanKeys where
  "Query_ScanKeys fn q st refs = run_query q False False (\<lambda>st k v r. fn st k) st refs"

definition Query_Stream where
  "Query_Stream fn q st refs = run_query q False True (\<lambda>st k v r. fn st k r) st refs"

text \<open>The mapper fails with None.\<close>

definition Query_Project where
  "Query_Project mapper consumer q st refs =
     run_query q True False (\<lambda>st k v r. case mapper k v of None \<Rightarrow> (st, False) | Some proj \<Rightarrow> consumer st proj) st refs"

end
