(* ===== verification/Cursor_Props.thy ===== *)
theory Cursor_Props
  imports Cursor
begin

text \<open>
  What the cursor visits. A cursor over well-formed leaves reads the cells that the leaves hold; \<open>live\<close> is the list of
  active versions of a sequence of cells, one for each key; \<open>active_pairs\<close> states the same by the keys. A
  range calls its callback on exactly the active pairs of the interval, in order. The last section holds what
  the cursor gets wrong: backward steps over an inactive key and seeks of a key whose versions span leaves.
\<close>

section \<open>The cells under a cursor\<close>

definition over_leaves :: "Cursor \<Rightarrow> cell list list \<Rightarrow> bool" where
  "over_leaves c css \<longleftrightarrow> length css = length (cu_leafPages c) \<and>
     (\<forall>l < length css. leafSlotCount c l = length (css ! l) \<and>
        (\<forall>s < length (css ! l). readSlotCell c l s = (case css ! l ! s of (k, i, v) \<Rightarrow> Some (k, i, v, length v))))"

lemma over_leavesD:
  assumes "over_leaves c css"
  shows "length (cu_leafPages c) = length css" "l < length css \<Longrightarrow> leafSlotCount c l = length (css ! l)"
    "l < length css \<Longrightarrow> s < length (css ! l) \<Longrightarrow> readSlotCell c l s = (case css ! l ! s of (k, i, v) \<Rightarrow> Some (k, i, v, length v))"
  using assms by (auto simp: over_leaves_def)

lemma same_leaves_reads:
  assumes "same_leaves c c'"
  shows "readSlotCell c' = readSlotCell c" "leafSlotCount c' = leafSlotCount c"
proof -
  have e: "cu_heap c' = cu_heap c" "cu_leafPages c' = cu_leafPages c" using assms by (simp_all add: same_leaves_def)
  show "readSlotCell c' = readSlotCell c" by (intro ext) (simp only: readSlotCell_def e)
  show "leafSlotCount c' = leafSlotCount c" by (intro ext) (simp only: leafSlotCount_def e)
qed

lemma over_leaves_same: "same_leaves c c' \<Longrightarrow> over_leaves c css \<Longrightarrow> over_leaves c' css"
  by (simp add: over_leaves_def same_leaves_reads) (simp add: same_leaves_def)

text \<open>A position on a cell, and the cells from it on.\<close>

definition on_cell :: "cell list list \<Rightarrow> nat \<Rightarrow> nat \<Rightarrow> bool" where
  "on_cell css l s \<longleftrightarrow> l < length css \<and> s < length (css ! l)"

definition rest :: "cell list list \<Rightarrow> nat \<Rightarrow> nat \<Rightarrow> cell list" where
  "rest css l s = drop s (css ! l) @ concat (drop (Suc l) css)"

lemma rest_Cons: "on_cell css l s \<Longrightarrow> rest css l s = css ! l ! s # tl (rest css l s)"
  by (simp add: on_cell_def rest_def Cons_nth_drop_Suc [symmetric])

text \<open>A position a loop may stand on: a cell, or the start of an empty leaf.\<close>

definition at_pos :: "cell list list \<Rightarrow> nat \<Rightarrow> nat \<Rightarrow> bool" where
  "at_pos css l s \<longleftrightarrow> l < length css \<and> (s < length (css ! l) \<or> css ! l = [] \<and> s = 0)"

lemma at_pos_cell: "on_cell css l s \<Longrightarrow> at_pos css l s"
  by (simp add: at_pos_def on_cell_def)

lemma at_pos_start: "at_pos css l 0 \<longleftrightarrow> l < length css"
  by (auto simp: at_pos_def)

text \<open>No key has versions on both sides of an empty leaf.\<close>

definition gap_free :: "cell list list \<Rightarrow> bool" where
  "gap_free css \<longleftrightarrow> (\<forall>b < length css. \<forall>m < b. \<forall>a < m. css ! m = [] \<longrightarrow> (\<forall>x \<in> set (css ! a). \<forall>y \<in> set (css ! b). fst x \<noteq> fst y))"

lemma gap_free_full: "[] \<notin> set css \<Longrightarrow> gap_free css"
  unfolding gap_free_def by (metis less_trans nth_mem)

lemma no_slots:
  assumes "leafSlotCount c l = 0" shows "readSlotCell c l s = None"
proof (cases "l < length (cu_leafPages c) \<and> \<not> cu_leafPages c ! l * pageN + 22 + 2 > length (cu_heap c)")
  case True
  then have "get16 (cu_heap c) (cu_leafPages c ! l * pageN + 22) = 0" using assms by (simp add: leafSlotCount_def Let_def)
  then show ?thesis by (simp add: readSlotCell_def Let_def)
next
  case False
  then show ?thesis by (auto simp: readSlotCell_def Let_def)
qed

lemma rest_next:
  assumes "over_leaves c css" "on_cell css l s" "next_slot c l s = (l', s')"
  shows "l' < length css \<Longrightarrow> at_pos css l' s' \<and> rest css l' s' = tl (rest css l s)"
    and "\<not> l' < length css \<Longrightarrow> tl (rest css l s) = []"
    and "l' < length css \<Longrightarrow> css ! l' = [] \<Longrightarrow> l' = Suc l"
proof -
  note D = over_leavesD [OF assms(1)]
  have l: "l < length css" "s < length (css ! l)" using assms(2) by (simp_all add: on_cell_def)
  have t: "tl (rest css l s) = drop (Suc s) (css ! l) @ concat (drop (Suc l) css)"
    using l by (simp add: rest_def Cons_nth_drop_Suc [symmetric])
  show "at_pos css l' s' \<and> rest css l' s' = tl (rest css l s)" if "l' < length css"
  proof (cases "Suc s < length (css ! l)")
    case True
    then have e: "l' = l" "s' = Suc s" using assms(3) l by (auto simp: next_slot_def D)
    then have "rest css l' s' = tl (rest css l s)" by (simp only: t) (simp add: rest_def)
    then show ?thesis using e l True by (simp add: at_pos_def)
  next
    case False
    then have e: "l' = Suc l" "s' = 0" using assms(3) l by (auto simp: next_slot_def D)
    then show ?thesis using that False l by (simp add: at_pos_start t rest_def Cons_nth_drop_Suc [symmetric])
  qed
  show "tl (rest css l s) = []" if "\<not> l' < length css"
    using that assms(3) l by (auto simp: next_slot_def D t split: if_splits)
  show "l' = Suc l" if "l' < length css" "css ! l' = []"
    using that assms(3) l by (auto simp: next_slot_def D split: if_splits)
qed

text \<open>Behind an empty leaf there is no further version of a key in front of it.\<close>

lemma gap_ends_group:
  assumes "gap_free css" "on_cell css l s" "css ! Suc l = []" "Suc l < length css" "e \<in> set (concat (drop (Suc l) css))"
  shows "fst e \<noteq> fst (css ! l ! s)"
proof -
  obtain xs where xs: "xs \<in> set (drop (Suc l) css)" "e \<in> set xs" using assms(5) by auto
  then obtain j where j: "j < length css - Suc l" "xs = css ! (Suc l + j)" by (auto simp: in_set_conv_nth)
  have "j \<noteq> 0"
  proof
    assume "j = 0"
    then show False using j(2) xs(2) assms(3) by simp
  qed
  then have "Suc l < Suc l + j" "Suc l + j < length css" using j(1) by simp_all
  then have "\<forall>x \<in> set (css ! l). \<forall>y \<in> set (css ! (Suc l + j)). fst x \<noteq> fst y"
    using assms(1,3) unfolding gap_free_def by (metis lessI)
  moreover have "css ! l ! s \<in> set (css ! l)" using assms(2) by (simp add: on_cell_def)
  ultimately show ?thesis using xs(2) j(2) by metis
qed

section \<open>Active versions\<close>

definition newest :: "bytes \<Rightarrow> cell list \<Rightarrow> cell option" where
  "newest snap cs = (let vs = filter (\<lambda>d. fst (snd d) \<le> snap) cs in if vs = [] then None else Some (last vs))"

definition active_of :: "cell option \<Rightarrow> cell list" where
  "active_of r = (case r of Some d \<Rightarrow> if snd (snd d) = [] then [] else [d] | None \<Rightarrow> [])"

abbreviation same_key :: "cell \<Rightarrow> cell \<Rightarrow> bool" where
  "same_key d \<equiv> (\<lambda>e. fst e = fst d)"

function live :: "bytes \<Rightarrow> cell list \<Rightarrow> cell list" where
  "live snap [] = []"
| "live snap (d # cs) = active_of (newest snap (d # takeWhile (same_key d) cs)) @ live snap (dropWhile (same_key d) cs)"
  by pat_completeness auto
termination by (relation "measure (\<lambda>(snap, cs). length cs)") (auto simp: le_imp_less_Suc length_dropWhile_le)

declare live.simps(2) [simp del]

definition better :: "bytes \<Rightarrow> (bytes \<times> bytes \<times> nat) option \<Rightarrow> cell \<Rightarrow> (bytes \<times> bytes \<times> nat) option" where
  "better snap b d = (case d of (k, i, v) \<Rightarrow> if bytes_Compare i snap \<le> 0 then Some (v, i, length v) else b)"

lemma newest_Cons: "newest snap (d # cs) = (case newest snap cs of Some e \<Rightarrow> Some e | None \<Rightarrow> if fst (snd d) \<le> snap then Some d else None)"
  by (auto simp: newest_def Let_def)

lemma foldl_better:
  "foldl (better snap) b cs = (case newest snap cs of Some (k, i, v) \<Rightarrow> Some (v, i, length v) | None \<Rightarrow> b)"
proof (induction cs arbitrary: b)
  case (Cons d cs)
  then show ?case by (auto simp: newest_Cons better_def bytes_Compare_simps split: option.splits prod.splits)
qed (simp add: newest_def)

lemma newest_in: "newest snap cs = Some d \<Longrightarrow> d \<in> set cs \<and> fst (snd d) \<le> snap"
  using last_in_set [of "filter (\<lambda>d. fst (snd d) \<le> snap) cs"] by (auto simp: newest_def Let_def split: if_splits)

lemma resolve_loop_rest:
  assumes "over_leaves c css" "gap_free css" "on_cell css l s" "key = fst (css ! l ! s)" "resolve_loop c key b l s = (b', l', s')"
  shows "b' = foldl (better (cu_snap c)) b (takeWhile (\<lambda>e. fst e = key) (tl (rest css l s)))
    \<and> on_cell css l' s' \<and> tl (rest css l' s') = dropWhile (\<lambda>e. fst e = key) (tl (rest css l s))"
  using assms
proof (induction c key b l s arbitrary: b' l' s' rule: resolve_loop.induct)
  case (1 c key b l s)
  note D = over_leavesD [OF "1.prems"(1)]
  obtain nl ns where n: "next_slot c l s = (nl, ns)" by fastforce
  note R = rest_next [OF "1.prems"(1,3) n]
  show ?case
  proof (cases "nl < length css")
    case False
    then show ?thesis using "1.prems"(3,5) n R(2) by (subst (asm) resolve_loop.simps) (auto simp: D)
  next
    case True
    have t: "rest css nl ns = tl (rest css l s)" using R(1) [OF True] by simp
    show ?thesis
    proof (cases "css ! nl = []")
      case empty: True
      have nl: "nl = Suc l" by (rule R(3) [OF True empty])
      have "readSlotCell c nl ns = None" using True empty by (intro no_slots) (simp add: D)
      then have e: "(b', l', s') = (b, l, s)" using "1.prems"(5) n True by (subst (asm) resolve_loop.simps) (simp add: D)
      have "fst e \<noteq> key" if "e \<in> set (tl (rest css l s))" for e
      proof -
        have "tl (rest css l s) = concat (drop (Suc nl) css)" using t empty by (simp add: rest_def)
        moreover have "drop (Suc l) css = css ! nl # drop (Suc nl) css" using True by (simp add: nl Cons_nth_drop_Suc)
        ultimately have "e \<in> set (concat (drop (Suc l) css))" using that by simp
        then show ?thesis using gap_ends_group [OF "1.prems"(2,3), of e] empty True unfolding nl "1.prems"(4) by blast
      qed
      then have "tl (rest css l s) = [] \<or> fst (hd (tl (rest css l s))) \<noteq> key" using hd_in_set by blast
      then have "takeWhile (\<lambda>e. fst e = key) (tl (rest css l s)) = []" "dropWhile (\<lambda>e. fst e = key) (tl (rest css l s)) = tl (rest css l s)"
        by (simp_all only: takeWhile_eq_Nil_iff dropWhile_eq_self_iff simp_thms)
      then show ?thesis using e "1.prems"(3) by simp
    next
      case full: False
      then have on: "on_cell css nl ns" using R(1) [OF True] by (simp add: at_pos_def on_cell_def)
      obtain nk nid nval where d: "css ! nl ! ns = (nk, nid, nval)" by (metis prod_cases3)
      have rd: "readSlotCell c nl ns = Some (nk, nid, nval, length nval)" using on d by (simp add: D on_cell_def)
      have tl: "tl (rest css l s) = (nk, nid, nval) # tl (rest css nl ns)" using rest_Cons [OF on] t d by simp
      show ?thesis
      proof (cases "nk = key")
        case False
        then have "(b', l', s') = (b, l, s)" using "1.prems"(5) n rd True by (subst (asm) resolve_loop.simps) (simp add: D)
        then show ?thesis using False tl "1.prems"(3) by simp
      next
        case same: True
        have bt: "better (cu_snap c) b (key, nid, nval) = (if bytes_Compare nid (cu_snap c) \<le> 0 then Some (nval, nid, length nval) else b)"
          by (simp add: better_def)
        have key: "key = fst (css ! nl ! ns)" using d same by simp
        have "resolve_loop c key (better (cu_snap c) b (nk, nid, nval)) nl ns = (b', l', s')"
          using "1.prems"(5) n rd True same by (subst (asm) resolve_loop.simps) (simp add: D bt)
        then have "b' = foldl (better (cu_snap c)) (better (cu_snap c) b (nk, nid, nval)) (takeWhile (\<lambda>e. fst e = key) (tl (rest css nl ns)))
            \<and> on_cell css l' s' \<and> tl (rest css l' s') = dropWhile (\<lambda>e. fst e = key) (tl (rest css nl ns))"
          using "1.IH" [OF n [symmetric] refl _ rd refl refl refl, folded bt] True same "1.prems"(1,2) on key by (simp add: D(1) bt)
        then show ?thesis by (simp add: tl same)
      qed
    qed
  qed
qed

lemma resolveKeyAt_rest:
  assumes "over_leaves c css" "gap_free css" "on_cell css l s" "rest css l s = d # cs"
    and "resolveKeyAt c l s = (k, v, i, l', s', act)"
  shows "k = fst d" "on_cell css l' s'" "tl (rest css l' s') = dropWhile (same_key d) cs"
    "active_of (newest (cu_snap c) (d # takeWhile (same_key d) cs)) = (if act then [(k, i, v)] else [])"
proof -
  obtain dk di dv where d: "d = (dk, di, dv)" by (metis prod_cases3)
  have cd: "css ! l ! s = d" using rest_Cons [OF assms(3)] assms(4) by simp
  then have rd: "readSlotCell c l s = Some (dk, di, dv, length dv)"
    using over_leavesD(3) [OF assms(1), of l s] assms(3) d by (simp add: on_cell_def)
  obtain b el es where r: "resolve_loop c dk (better (cu_snap c) None d) l s = (b, el, es)" by (metis prod_cases3)
  have "dk = fst (css ! l ! s)" by (simp add: cd d)
  note R = resolve_loop_rest [OF assms(1,2,3) this r]
  have b: "b = (case newest (cu_snap c) (d # takeWhile (same_key d) cs) of Some (k, i, v) \<Rightarrow> Some (v, i, length v) | None \<Rightarrow> None)"
    using R assms(4) d foldl_better [of "cu_snap c" None "d # takeWhile (same_key d) cs"] by simp
  have nk: "fst e = dk" if "newest (cu_snap c) (d # takeWhile (same_key d) cs) = Some e" for e
    using newest_in [OF that] d by (auto dest: set_takeWhileD)
  have res: "resolveKeyAt c l s = (case b of
      Some (bestVal, bestID, bestVLen) \<Rightarrow> if bestVLen > 0 then (dk, bestVal, bestID, el, es, True) else (dk, [], [], el, es, False)
    | None \<Rightarrow> (dk, [], [], el, es, False))"
    using r by (simp add: resolveKeyAt_def rd d better_def cong: option.case_cong)
  have e: "k = dk \<and> l' = el \<and> s' = es" using assms(5) unfolding res by (cases b) (auto split: if_splits)
  then show "k = fst d" "on_cell css l' s'" "tl (rest css l' s') = dropWhile (same_key d) cs"
    using R assms(4) by (simp_all add: d)
  show "active_of (newest (cu_snap c) (d # takeWhile (same_key d) cs)) = (if act then [(k, i, v)] else [])"
  proof (cases "newest (cu_snap c) (d # takeWhile (same_key d) cs)")
    case None
    then show ?thesis using assms(5) unfolding res b by (simp add: active_of_def)
  next
    case (Some x)
    obtain xi xv where x: "x = (dk, xi, xv)" using nk [OF Some] by (metis prod.collapse)
    show ?thesis using assms(5) Some unfolding res b by (auto simp: active_of_def x split: if_splits)
  qed
qed


section \<open>Scans\<close>

text \<open>A place on an active key, with the active versions from there on.\<close>

definition on_live :: "bytes \<Rightarrow> cell list list \<Rightarrow> place \<Rightarrow> cell list \<Rightarrow> bool" where
  "on_live snap css p es \<longleftrightarrow> (case p of (l, s, k, v, i) \<Rightarrow> on_cell css l s \<and> live snap (rest css l s) = es
     \<and> es \<noteq> [] \<and> hd es = (k, i, v)
     \<and> tl es = live snap (dropWhile (same_key (css ! l ! s)) (tl (rest css l s))))"

lemma scan_loop_live:
  assumes "over_leaves c css" "gap_free css" "curL < length css \<Longrightarrow> at_pos css curL curS"
  shows "let es = dropWhile (\<lambda>e. \<not> P (fst e)) (if curL < length css then live (cu_snap c) (rest css curL curS) else [])
    in case scan_loop c P curL curS of None \<Rightarrow> es = [] | Some p \<Rightarrow> on_live (cu_snap c) css p es"
  using assms
proof (induction c P curL curS rule: scan_loop.induct)
  case (1 c P l s)
  note D = over_leavesD [OF "1.prems"(1)]
  show ?case
  proof (cases "l < length css")
    case False
    then show ?thesis by (subst scan_loop.simps) (simp add: D)
  next
    case l: True
    show ?thesis
    proof (cases "css ! l = []")
      case empty: True
      then have e: "scan_loop c P l s = scan_loop c P (l + 1) 0" using l by (subst scan_loop.simps) (simp add: D)
      have "rest css l s = (if Suc l < length css then rest css (Suc l) 0 else [])"
        using empty by (simp add: rest_def Cons_nth_drop_Suc [symmetric])
      then have "live (cu_snap c) (rest css l s) = (if Suc l < length css then live (cu_snap c) (rest css (Suc l) 0) else [])" by simp
      moreover have "let es = dropWhile (\<lambda>e. \<not> P (fst e)) (if Suc l < length css then live (cu_snap c) (rest css (Suc l) 0) else [])
          in case scan_loop c P (Suc l) 0 of None \<Rightarrow> es = [] | Some p \<Rightarrow> on_live (cu_snap c) css p es"
        using "1.IH"(1) [unfolded Suc_eq_plus1 [symmetric]] l empty "1.prems"(1,2) by (simp add: D at_pos_start)
      ultimately show ?thesis using l by (simp only: e Suc_eq_plus1 [symmetric] if_True)
    next
      case full: False
      then have on: "on_cell css l s" using "1.prems"(3) l by (simp add: at_pos_def on_cell_def)
      obtain d cs where r: "rest css l s = d # cs" using rest_Cons [OF on] by blast
      have d: "css ! l ! s = d" using rest_Cons [OF on] r by simp
      obtain k v i el es act where a: "resolveKeyAt c l s = (k, v, i, el, es, act)" by (metis prod_cases6)
      note A = resolveKeyAt_rest [OF "1.prems"(1,2) on r a]
      have lv: "live (cu_snap c) (rest css l s) = (if act then [(k, i, v)] else []) @ live (cu_snap c) (dropWhile (same_key d) cs)"
        by (simp add: r live.simps(2) A(4))
      have cnt: "leafSlotCount c l \<noteq> 0" using on by (auto simp: D on_cell_def)
      show ?thesis
      proof (cases "act \<and> P k")
        case True
        then have "scan_loop c P l s = Some (l, s, k, v, i)" using l a cnt by (subst scan_loop.simps) (simp add: D)
        then show ?thesis using True lv on l d r by (simp add: on_live_def)
      next
        case False
        obtain l' s' where n: "next_slot c el es = (l', s')" by fastforce
        have e: "scan_loop c P l s = scan_loop c P l' s'" using l a cnt n False by (subst scan_loop.simps) (auto simp: D)
        note N = rest_next [OF "1.prems"(1) A(2) n]
        have "(if l' < length css then live (cu_snap c) (rest css l' s') else []) = live (cu_snap c) (dropWhile (same_key d) cs)"
          using N by (cases "l' < length css") (simp_all add: A(3) [symmetric])
        moreover have "dropWhile (\<lambda>e. \<not> P (fst e)) (live (cu_snap c) (rest css l s))
            = dropWhile (\<lambda>e. \<not> P (fst e)) (live (cu_snap c) (dropWhile (same_key d) cs))"
          using False by (auto simp: lv)
        moreover have "let es = dropWhile (\<lambda>e. \<not> P (fst e)) (if l' < length css then live (cu_snap c) (rest css l' s') else [])
            in case scan_loop c P l' s' of None \<Rightarrow> es = [] | Some p \<Rightarrow> on_live (cu_snap c) css p es"
          using "1.IH"(2) [OF _ cnt a [symmetric] refl refl refl refl _ refl n [symmetric]] l False "1.prems"(1,2) N(1) by (simp add: D)
        ultimately show ?thesis using l by (simp add: e Let_def)
      qed
    qed
  qed
qed

lemma dropWhile_none [simp]: "dropWhile (\<lambda>_. False) xs = xs"
  by (cases xs) simp_all

lemma forward_scan: "forward_loop c l s = (case next_slot c l s of (l, s) \<Rightarrow> scan_loop c (\<lambda>_. True) l s)"
proof (induction c l s rule: forward_loop.induct)
  case (1 c l s)
  obtain nl ns where n: "next_slot c l s = (nl, ns)" by fastforce
  obtain k v i el es act where a: "resolveKeyAt c nl ns = (k, v, i, el, es, act)" by (metis prod_cases6)
  show ?case
  proof (cases "nl < length (cu_leafPages c) \<and> \<not> act")
    case True
    then have f: "forward_loop c l s = forward_loop c el es" using n a by (subst forward_loop.simps) simp
    have IH: "forward_loop c el es = (case next_slot c el es of (l, s) \<Rightarrow> scan_loop c (\<lambda>_. True) l s)"
      using "1.IH" [OF n [symmetric] refl] a True by auto
    have z2: "leafSlotCount c nl = 0 \<Longrightarrow> next_slot c el es = (nl + 1, 0)"
      using a no_slots [of c nl ns] by (auto simp: resolveKeyAt_def next_slot_def)
    show ?thesis using n a True z2 by (subst scan_loop.simps) (auto simp: f IH)
  next
    case False
    have z: "act \<Longrightarrow> leafSlotCount c nl \<noteq> 0" using a no_slots [of c nl ns] by (cases "leafSlotCount c nl = 0") (auto simp: resolveKeyAt_def)
    show ?thesis using n a False z by (subst scan_loop.simps, subst forward_loop.simps) auto
  qed
qed

text \<open>The cursor on an active key, with the active versions from there on.\<close>

definition stands :: "Cursor \<Rightarrow> cell list list \<Rightarrow> cell list \<Rightarrow> bool" where
  "stands c css es \<longleftrightarrow> over_leaves c css \<and> cu_valid c
     \<and> on_live (cu_snap c) css (cu_leafIdx c, cu_slotIdx c, cu_currKey c, cu_currVal c, cu_currID c) es"

text \<open>What a method that moves returns, when the active versions from the new place on are \<open>es\<close>.\<close>

definition moved :: "Cursor \<Rightarrow> cell list list \<Rightarrow> cell list \<Rightarrow> (bytes \<times> bytes) option \<times> Cursor \<Rightarrow> bool" where
  "moved c css es r \<longleftrightarrow> same_leaves c (snd r) \<and>
     (case es of [] \<Rightarrow> fst r = None | e # _ \<Rightarrow> fst r = Some (fst e, resolveVal c (snd (snd e))) \<and> stands (snd r) css es)"

lemma put_place_moved:
  assumes "over_leaves c css" "on_live (cu_snap c) css (l, s, k, v, i) es"
  shows "moved c css es (Some (k, resolveVal c v), put_place (l, s, k, v, i) c)"
  using assms over_leaves_same [of c "put_place (l, s, k, v, i) c" css]
  by (cases es) (auto simp: moved_def stands_def on_live_def put_place_def same_leaves_def)

lemma arrive_moved:
  assumes "over_leaves c css" "case r of None \<Rightarrow> es = [] | Some p \<Rightarrow> on_live (cu_snap c) css p es"
  shows "moved c css es (arrive c r)"
  using assms put_place_moved by (cases r) (auto simp: arrive_def moved_def split: prod.splits)

lemma resolveVal_same: "same_leaves c c' \<Longrightarrow> resolveVal c' = resolveVal c"
  by (intro ext) (simp add: same_leaves_def resolveVal_def)

lemma Next_moved:
  assumes "stands c css (e # es)" "gap_free css"
  shows "moved c css es (Next c)"
proof -
  define l s where "l = cu_leafIdx c" and "s = cu_slotIdx c"
  have o: "over_leaves c css" and v: "cu_valid c" and on: "on_cell css l s"
    and t: "es = live (cu_snap c) (dropWhile (same_key (css ! l ! s)) (tl (rest css l s)))"
    using assms(1) by (auto simp: stands_def on_live_def l_def s_def)
  obtain k w i el es' act where a: "resolveKeyAt c l s = (k, w, i, el, es', act)" by (metis prod_cases6)
  define d where "d = c\<lparr>cu_leafIdx := el, cu_slotIdx := es'\<rparr>"
  have sd: "same_leaves c d" by (simp add: d_def)
  have od: "over_leaves d css" using over_leaves_same [OF sd o] .
  have r: "rest css l s = css ! l ! s # tl (rest css l s)" using rest_Cons [OF on] .
  note A = resolveKeyAt_rest [OF o assms(2) on r a]
  obtain l' s' where n: "next_slot d el es' = (l', s')" by fastforce
  note N = rest_next [OF od A(2) n]
  have "(if l' < length css then live (cu_snap d) (rest css l' s') else []) = es"
    using N t sd by (cases "l' < length css") (simp_all add: same_leaves_def A(3) [symmetric])
  then have "case scan_loop d (\<lambda>_. True) l' s' of None \<Rightarrow> es = [] | Some p \<Rightarrow> on_live (cu_snap d) css p es"
    using scan_loop_live [OF od assms(2), of l' s' "\<lambda>_. True"] N(1) by (simp add: Let_def)
  then have f: "case forward_loop d el es' of None \<Rightarrow> es = [] | Some p \<Rightarrow> on_live (cu_snap d) css p es"
    by (simp add: forward_scan n)
  have m: "moved d css es (arrive d (forward_loop d el es'))" by (rule arrive_moved [OF od f])
  have "Next c = arrive d (forward_loop d el es')"
    using a v by (auto simp: Next_def l_def s_def d_def stepForward_def arrive_def put_place_def resolveVal_def split: option.splits prod.splits sum.splits)
  then show ?thesis using m sd same_leaves_trans [OF sd] by (auto simp: moved_def resolveVal_same [OF sd] split: list.splits)
qed

lemma First_moved:
  assumes "over_leaves c css" "gap_free css"
  shows "moved c css (live (cu_snap c) (concat css)) (First c)"
proof (cases "css = []")
  case True
  then show ?thesis using assms(1) by (simp add: First_def over_leaves_def moved_def same_leaves_def)
next
  case False
  then have "rest css 0 0 = concat css" by (cases css) (simp_all add: rest_def)
  moreover have "at_pos css 0 0" using False by (simp add: at_pos_start)
  ultimately have "case scan_loop c (\<lambda>_. True) 0 0 of None \<Rightarrow> live (cu_snap c) (concat css) = [] | Some p \<Rightarrow> on_live (cu_snap c) css p (live (cu_snap c) (concat css))"
    using scan_loop_live [OF assms, of 0 0 "\<lambda>_. True"] False by (simp add: Let_def)
  then show ?thesis using arrive_moved [OF assms(1)] over_leavesD(1) [OF assms(1)] False by (simp add: First_def)
qed


section \<open>Seeking\<close>

lemma search_loop_post:
  "i \<le> j \<Longrightarrow> i \<le> search_loop f i j \<and> search_loop f i j \<le> j
     \<and> (search_loop f i j > i \<longrightarrow> \<not> f (search_loop f i j - 1)) \<and> (search_loop f i j < j \<longrightarrow> f (search_loop f i j))"
proof (induction f i j rule: search_loop.induct)
  case (1 f i j)
  show ?case
  proof (cases "i < j")
    case True
    define h where "h = (i + j) div 2"
    have h: "i \<le> h" "h < j" using True by (auto simp: h_def)
    show ?thesis
    proof (cases "f h")
      case f: True
      have "search_loop f i j = search_loop f i h" using True f by (subst search_loop.simps) (simp add: h_def Let_def)
      then show ?thesis using "1.IH"(2) [OF True h_def] f h by (cases "search_loop f i h = h") auto
    next
      case f: False
      have e: "search_loop f i j = search_loop f (h + 1) j" using True f by (subst search_loop.simps) (simp add: h_def Let_def)
      have I: "h + 1 \<le> search_loop f (h + 1) j \<and> search_loop f (h + 1) j \<le> j
          \<and> (search_loop f (h + 1) j > h + 1 \<longrightarrow> \<not> f (search_loop f (h + 1) j - 1)) \<and> (search_loop f (h + 1) j < j \<longrightarrow> f (search_loop f (h + 1) j))"
        using "1.IH"(1) [OF True h_def f] h by simp
      then show ?thesis using f h e by (cases "search_loop f (h + 1) j = h + 1") auto
    qed
  next
    case False
    then show ?thesis using "1.prems" by (subst search_loop.simps, subst search_loop.simps) (simp add: search_loop.simps)
  qed
qed

lemma group_newest: "newest snap (d # takeWhile (same_key d) cs) = Some e \<Longrightarrow> fst e = fst d \<and> e \<in> set (d # cs)"
  using newest_in [of snap "d # takeWhile (same_key d) cs" e] by (auto dest: set_takeWhileD)

lemma active_key: "e \<in> set (active_of (newest snap (d # takeWhile (same_key d) cs))) \<Longrightarrow> fst e = fst d"
  by (auto simp: active_of_def dest: group_newest [OF sym] split: option.splits if_splits)

lemma live_in: "e \<in> set (live snap cs) \<Longrightarrow> e \<in> set cs"
proof (induction snap cs rule: live.induct)
  case (2 snap d cs)
  consider "e \<in> set (active_of (newest snap (d # takeWhile (same_key d) cs)))" | "e \<in> set (live snap (dropWhile (same_key d) cs))"
    using "2.prems" by (auto simp: live.simps(2))
  then show ?case
  proof cases
    case 1
    then have "newest snap (d # takeWhile (same_key d) cs) = Some e" by (auto simp: active_of_def split: option.splits if_splits)
    then show ?thesis using group_newest by blast
  next
    case 2
    then show ?thesis using "2.IH" set_dropWhileD by fastforce
  qed
qed simp

text \<open>On sorted keys a group is all the cells of its key.\<close>

lemma sorted_group:
  assumes "sorted (map fst (d # cs))"
  shows "takeWhile (same_key d) cs = filter (same_key d) cs" "dropWhile (same_key d) cs = filter (\<lambda>e. fst d < fst e) cs"
proof -
  have "takeWhile (same_key d) cs = filter (same_key d) cs \<and> dropWhile (same_key d) cs = filter (\<lambda>e. fst d < fst e) cs"
    using assms
  proof (induction cs)
    case (Cons e es)
    show ?case
    proof (cases "fst e = fst d")
      case True
      then show ?thesis using Cons by simp
    next
      case False
      then have lt: "fst d < fst e" using Cons.prems by (simp add: less_le)
      then have l: "fst d < fst x" if "x \<in> set es" for x using Cons.prems that by (metis (no_types, lifting) image_eqI less_le_trans list.set_map list.simps(9) sorted_simps(2))
      then have "filter (same_key d) es = []" "filter (\<lambda>e. fst d < fst e) es = es"
        using l by (metis (mono_tags, lifting) filter_False less_irrefl, metis (mono_tags, lifting) filter_True)
      then show ?thesis using False lt by simp
    qed
  qed simp
  then show "takeWhile (same_key d) cs = filter (same_key d) cs" "dropWhile (same_key d) cs = filter (\<lambda>e. fst d < fst e) cs" by simp_all
qed

lemma sorted_filter_fst: "sorted (map fst cs) \<Longrightarrow> sorted (map fst (filter P cs))"
  by (simp add: sorted_filter)

lemma filter_live:
  "sorted (map fst cs) \<Longrightarrow> filter (\<lambda>e. P (fst e)) (live snap cs) = live snap (filter (\<lambda>e. P (fst e)) cs)"
proof (induction snap cs rule: live.induct)
  case (2 snap d cs)
  note G = sorted_group [OF "2.prems"]
  have s: "sorted (map fst (filter (\<lambda>e. fst d < fst e) cs))" using "2.prems" by (simp add: sorted_filter_fst)
  have IH: "filter (\<lambda>e. P (fst e)) (live snap (filter (\<lambda>e. fst d < fst e) cs)) = live snap (filter (\<lambda>e. P (fst e)) (filter (\<lambda>e. fst d < fst e) cs))"
    using "2.IH" s by (simp only: G(2))
  show ?case
  proof (cases "P (fst d)")
    case True
    have "sorted (map fst (filter (\<lambda>e. P (fst e)) (d # cs)))" using "2.prems" by (rule sorted_filter_fst)
    then have "sorted (map fst (d # filter (\<lambda>e. P (fst e)) cs))" using True by simp
    note G' = sorted_group [OF this]
    have t: "takeWhile (same_key d) (filter (\<lambda>e. P (fst e)) cs) = takeWhile (same_key d) cs"
      using True by (simp only: G G' filter_filter) (intro filter_cong, auto)
    have dr: "dropWhile (same_key d) (filter (\<lambda>e. P (fst e)) cs) = filter (\<lambda>e. P (fst e)) (filter (\<lambda>e. fst d < fst e) cs)"
      by (simp only: G' filter_filter) (intro filter_cong, auto)
    have ac: "filter (\<lambda>e. P (fst e)) (active_of (newest snap (d # takeWhile (same_key d) cs))) = active_of (newest snap (d # takeWhile (same_key d) cs))"
      using True by (intro filter_True ballI) (drule active_key, simp)
    have "filter (\<lambda>e. P (fst e)) (d # cs) = d # filter (\<lambda>e. P (fst e)) cs" using True by simp
    then have "live snap (filter (\<lambda>e. P (fst e)) (d # cs))
        = active_of (newest snap (d # takeWhile (same_key d) cs)) @ live snap (filter (\<lambda>e. P (fst e)) (filter (\<lambda>e. fst d < fst e) cs))"
      by (simp only: live.simps(2) t dr)
    also have "\<dots> = filter (\<lambda>e. P (fst e)) (live snap (d # cs))"
      by (simp only: live.simps(2) filter_append ac G(2) IH)
    finally show ?thesis by simp
  next
    case False
    have "filter (\<lambda>e. P (fst e)) (active_of (newest snap (d # takeWhile (same_key d) cs))) = []"
      using False by (intro filter_False ballI) (drule active_key, simp)
    moreover have "filter (\<lambda>e. P (fst e)) (filter (\<lambda>e. fst d < fst e) cs) = filter (\<lambda>e. P (fst e)) cs"
    proof -
      have "fst d \<le> fst e" if "e \<in> set cs" for e using "2.prems" that by auto
      then have "fst d < fst e" if "e \<in> set cs" "P (fst e)" for e using False that by (metis le_less)
      then show ?thesis by (simp only: filter_filter) (intro filter_cong, auto)
    qed
    ultimately show ?thesis using False IH by (simp add: live.simps(2) G(2))
  qed
qed simp

lemma sorted_live: "sorted (map fst cs) \<Longrightarrow> sorted (map fst (live snap cs))"
proof (induction snap cs rule: live.induct)
  case (2 snap d cs)
  note G = sorted_group [OF "2.prems"]
  have "sorted (map fst (dropWhile (same_key d) cs))" using "2.prems" sorted_filter_fst [of cs] by (simp add: G)
  then have s: "sorted (map fst (live snap (dropWhile (same_key d) cs)))" by (rule "2.IH")
  have le: "fst d \<le> fst e" if "e \<in> set (live snap (dropWhile (same_key d) cs))" for e
    using live_in [OF that] by (simp add: G less_imp_le)
  show ?case
  proof (cases "newest snap (d # takeWhile (same_key d) cs)")
    case None
    then show ?thesis using s by (simp add: live.simps(2) active_of_def)
  next
    case (Some e)
    then show ?thesis using s le group_newest [OF Some] by (simp add: live.simps(2) active_of_def)
  qed
qed simp

lemma sorted_dropWhile_filter:
  "sorted (map fst es) \<Longrightarrow> dropWhile (\<lambda>e. \<not> (t::bytes) \<le> fst e) es = filter (\<lambda>e. t \<le> fst e) es"
proof (induction es)
  case (Cons e es)
  show ?case
  proof (cases "t \<le> fst e")
    case True
    then have "t \<le> fst x" if "x \<in> set es" for x using Cons.prems that order_trans [OF True] by simp
    then show ?thesis using True by (simp add: filter_True)
  next
    case False
    then show ?thesis using Cons by simp
  qed
qed simp

lemma sorted_takeWhile_filter: "sorted (map fst es) \<Longrightarrow> takeWhile (\<lambda>e. fst e < (t::bytes)) es = filter (\<lambda>e. fst e < t) es"
proof (induction es)
  case (Cons e es)
  show ?case
  proof (cases "fst e < t")
    case True
    then show ?thesis using Cons by simp
  next
    case False
    then have "\<not> fst x < t" if "x \<in> set es" for x using Cons.prems that le_less_trans [of "fst e" "fst x" t] by auto
    then show ?thesis using False by (simp add: filter_False)
  qed
qed simp

lemma live_skip:
  assumes "sorted (map fst (pre @ cs))" "\<forall>e \<in> set pre. fst e < t"
  shows "dropWhile (\<lambda>e. \<not> t \<le> fst e) (live snap (pre @ cs)) = dropWhile (\<lambda>e. \<not> t \<le> fst e) (live snap cs)"
proof -
  have "filter (\<lambda>e. t \<le> fst e) pre = []" using assms(2) by (auto simp: filter_empty_conv)
  then show ?thesis
    using assms(1) filter_live [of "pre @ cs" "\<lambda>k. t \<le> k" snap] filter_live [of cs "\<lambda>k. t \<le> k" snap]
    by (simp add: sorted_dropWhile_filter sorted_live sorted_append)
qed

text \<open>No key has versions in two leaves.\<close>

definition leaves_apart :: "cell list list \<Rightarrow> bool" where
  "leaves_apart css \<longleftrightarrow> sorted_wrt (\<lambda>xs ys. \<forall>x \<in> set xs. \<forall>y \<in> set ys. fst x < fst y) css"

lemma apart_gap_free: "leaves_apart css \<Longrightarrow> gap_free css"
proof -
  assume "leaves_apart css"
  then have L: "fst x < fst y" if "a < b" "b < length css" "x \<in> set (css ! a)" "y \<in> set (css ! b)" for a b x y
    using sorted_wrt_nth_less [OF _ that(1,2), of "\<lambda>xs ys. \<forall>x \<in> set xs. \<forall>y \<in> set ys. fst x < fst y"] that(3,4)
    by (simp add: leaves_apart_def)
  have "fst x \<noteq> fst y" if "a < m" "m < b" "b < length css" "x \<in> set (css ! a)" "y \<in> set (css ! b)" for a m b x y
    using L [OF less_trans [OF that(1,2)] that(3,4,5)] by simp
  then show ?thesis unfolding gap_free_def by blast
qed

definition before :: "cell list list \<Rightarrow> nat \<Rightarrow> nat \<Rightarrow> cell list" where
  "before css l s = concat (take l css) @ (if l < length css then take s (css ! l) else [])"

lemma before_rest: "l < length css \<Longrightarrow> concat css = before css l s @ rest css l s"
  using arg_cong [OF id_take_nth_drop [of l css], of concat] by (simp add: before_def rest_def)

lemma sorted_nth_before: "sorted (map fst xs) \<Longrightarrow> e \<in> set (take s xs) \<Longrightarrow> 0 < s \<Longrightarrow> s \<le> length xs \<Longrightarrow> fst e \<le> fst (xs ! (s - 1))"
proof -
  assume a: "sorted (map fst xs)" "e \<in> set (take s xs)" "0 < s" "s \<le> length xs"
  then obtain i where i: "i < s" "e = xs ! i" by (auto simp: in_set_conv_nth)
  then show ?thesis using a sorted_nth_mono [OF a(1), of i "s - 1"] by simp
qed

lemma seek_before:
  assumes "over_leaves c css" "sorted (map fst (concat css))" "leaves_apart css" "css \<noteq> []"
    and "seek_slot c t (seek_leaf c t) = (l, s)"
  shows "l < length css \<Longrightarrow> at_pos css l s" "\<forall>e \<in> set (before css l s). fst e < t" "l \<le> length css"
proof -
  note D = over_leavesD [OF assms(1)]
  define f where "f = (\<lambda>i. case leafFirstKey c i of None \<Rightarrow> True | Some fk \<Rightarrow> bytes_Compare fk t > 0)"
  define r where "r = sort_Search (length css) f"
  define m where "m = seek_leaf c t"
  have mr: "m = r - 1" by (simp add: m_def seek_leaf_def r_def f_def D)
  have R: "r \<le> length css" "0 < r \<Longrightarrow> \<not> f (r - 1)" using search_loop_post [of 0 "length css" f] by (simp_all add: r_def sort_Search_def)
  have m: "m < length css" using assms(4) R(1) by (simp add: mr) (cases r; simp)
  have first: "css ! m \<noteq> [] \<and> fst (css ! m ! 0) \<le> t" if "0 < m"
  proof -
    have nf: "\<not> f m" using R(2) mr that by simp
    have ne: "css ! m \<noteq> []"
    proof
      assume "css ! m = []"
      then have "readSlotCell c m 0 = None" using m by (intro no_slots) (simp add: D)
      then show False using nf by (simp add: f_def leafFirstKey_def)
    qed
    obtain k i v where "css ! m ! 0 = (k, i, v)" by (metis prod_cases3)
    then show ?thesis using ne nf D(3) [OF m, of 0] by (simp add: f_def leafFirstKey_def bytes_Compare_simps)
  qed
  have lt1: "fst e < t" if e: "e \<in> set (concat (take m css))" for e
  proof -
    have m0: "0 < m" using e by (cases m) auto
    note F = first [OF m0]
    obtain xs where xs: "xs \<in> set (take m css)" "e \<in> set xs" using e by auto
    then obtain j where j: "j < m" "e \<in> set (css ! j)" using m by (auto simp: in_set_conv_nth [of xs])
    have "css ! m ! 0 \<in> set (css ! m)" using F by simp
    then have "fst e < fst (css ! m ! 0)" using assms(3) j m sorted_wrt_nth_less [of _ css j m] by (fastforce simp: leaves_apart_def)
    then show ?thesis using F by (blast intro: less_le_trans)
  qed
  define g where "g = (\<lambda>i. case readSlotCell c m i of None \<Rightarrow> True | Some (k, _) \<Rightarrow> bytes_Compare k t \<ge> 0)"
  define q where "q = sort_Search (length (css ! m)) g"
  have Q: "q \<le> length (css ! m)" "0 < q \<Longrightarrow> \<not> g (q - 1)" using search_loop_post [of 0 "length (css ! m)" g] by (simp_all add: q_def sort_Search_def)
  have sm: "sorted (map fst (css ! m))"
    using assms(2) before_rest [OF m, of 0] by (simp add: rest_def sorted_append)
  have lt2: "fst e < t" if "e \<in> set (take q (css ! m))" for e
  proof -
    have q0: "0 < q" using that by (cases q) auto
    obtain k i v where kiv: "css ! m ! (q - 1) = (k, i, v)" by (metis prod_cases3)
    have "k < t" using Q(2) q0 D(3) [OF m, of "q - 1"] Q(1) kiv by (simp add: g_def bytes_Compare_simps)
    moreover have "fst e \<le> k" using sorted_nth_before [OF sm that q0 Q(1)] kiv by simp
    ultimately show ?thesis by simp
  qed
  have ls: "(l, s) = (if css ! m = [] then (m, 0) else if q \<ge> length (css ! m) then (m + 1, 0) else (m, q))"
  proof -
    have "(l, s) = seek_slot c t m" using assms(5) by (simp add: m_def)
    then show ?thesis by (simp add: seek_slot_def D m Let_def q_def g_def)
  qed
  show "at_pos css l s" if "l < length css" using that ls by (auto simp: at_pos_def split: if_splits)
  show "l \<le> length css" using ls m by (auto split: if_splits)
  have "set (before css l s) \<subseteq> set (concat (take m css)) \<union> set (take q (css ! m))"
    using ls m Q(1) by (auto simp: before_def take_Suc_conv_app_nth split: if_splits)
  then show "\<forall>e \<in> set (before css l s). fst e < t" using lt1 lt2 by blast
qed

lemma Seek_moved:
  assumes "over_leaves c css" "sorted (map fst (concat css))" "leaves_apart css"
  shows "moved c css (dropWhile (\<lambda>e. \<not> t \<le> fst e) (live (cu_snap c) (concat css))) (Seek c t)"
proof (cases "css = []")
  case True
  then show ?thesis using assms(1) by (simp add: Seek_def over_leaves_def moved_def same_leaves_def)
next
  case False
  obtain l s where ls: "seek_slot c t (seek_leaf c t) = (l, s)" by fastforce
  note B = seek_before [OF assms False ls]
  have "dropWhile (\<lambda>e. \<not> t \<le> fst e) (if l < length css then live (cu_snap c) (rest css l s) else [])
      = dropWhile (\<lambda>e. \<not> t \<le> fst e) (live (cu_snap c) (concat css))"
  proof (cases "l < length css")
    case True
    then show ?thesis using live_skip [of "before css l s" "rest css l s" t] assms(2) B(2) before_rest [OF True, of s] by simp
  next
    case out: False
    then have "before css l s = concat css" using B(3) by (simp add: before_def)
    then have "\<forall>e \<in> set (concat css). fst e < t" using B(2) by simp
    then have "dropWhile (\<lambda>e. \<not> t \<le> fst e) (live (cu_snap c) (concat css)) = []"
      using live_skip [of "concat css" "[]" t "cu_snap c"] assms(2) by simp
    then show ?thesis by (simp only: out if_False dropWhile.simps)
  qed
  then have "case scan_loop c (\<lambda>k. bytes_Compare k t \<ge> 0) l s of
      None \<Rightarrow> dropWhile (\<lambda>e. \<not> t \<le> fst e) (live (cu_snap c) (concat css)) = []
    | Some p \<Rightarrow> on_live (cu_snap c) css p (dropWhile (\<lambda>e. \<not> t \<le> fst e) (live (cu_snap c) (concat css)))"
    using scan_loop_live [OF assms(1) apart_gap_free [OF assms(3)] B(1), of "\<lambda>k. bytes_Compare k t \<ge> 0"] by (simp add: Let_def bytes_Compare_simps)
  then show ?thesis using arrive_moved [OF assms(1)] over_leavesD(1) [OF assms(1)] False ls by (simp add: Seek_def)
qed


section \<open>The active pairs by their keys\<close>

definition newest_of :: "bytes \<Rightarrow> bytes \<Rightarrow> cell list \<Rightarrow> cell option" where
  "newest_of key snap cs = (let vs = visible key snap cs in if vs = [] then None else Some (last vs))"

definition active_pairs :: "(bytes \<Rightarrow> bytes) \<Rightarrow> bytes \<Rightarrow> cell list \<Rightarrow> (bytes \<times> bytes) list" where
  "active_pairs dec snap cs =
     concat (map (\<lambda>k. map (\<lambda>d. (k, dec (snd (snd d)))) (active_of (newest_of k snap cs))) (remdups_adj (map fst cs)))"

lemma newest_of_filter: "newest_of k snap cs = newest snap (filter (\<lambda>e. fst e = k) cs)"
  by (simp add: newest_of_def newest_def visible_def Let_def)

lemma live_active:
  assumes "sorted (map fst cs)"
  shows "map (\<lambda>e. (fst e, dec (snd (snd e)))) (live snap cs) = active_pairs dec snap cs"
  using assms
proof (induction snap cs rule: live.induct)
  case (1 snap)
  then show ?case by (simp add: active_pairs_def)
next
  case (2 snap d cs)
  note G = sorted_group [OF "2.prems"]
  define r where "r = dropWhile (same_key d) cs"
  have sr: "sorted (map fst r)" using "2.prems" sorted_filter_fst [of cs] by (simp add: r_def G)
  have lt: "fst d < k" if "k \<in> set (map fst r)" for k using that by (auto simp: r_def G)
  have adj: "remdups_adj (map fst (d # cs)) = fst d # remdups_adj (map fst r)"
    by (simp add: remdups_adj_Cons' dropWhile_map comp_def r_def)
  have first: "newest_of (fst d) snap (d # cs) = newest snap (d # takeWhile (same_key d) cs)"
    by (simp add: newest_of_filter G)
  have later: "newest_of k snap (d # cs) = newest_of k snap r" if "fst d < k" for k
  proof -
    have "filter (\<lambda>e. fst e = k) (d # cs) = filter (\<lambda>e. fst e = k) r"
      using that by (auto simp: r_def G intro: filter_cong)
    then show ?thesis by (simp only: newest_of_filter)
  qed
  have "active_pairs dec snap (d # cs) = map (\<lambda>e. (fst d, dec (snd (snd e)))) (active_of (newest snap (d # takeWhile (same_key d) cs)))
      @ concat (map (\<lambda>k. map (\<lambda>e. (k, dec (snd (snd e)))) (active_of (newest_of k snap (d # cs)))) (remdups_adj (map fst r)))"
    unfolding active_pairs_def adj by (simp add: first)
  also have "map (\<lambda>k. map (\<lambda>e. (k, dec (snd (snd e)))) (active_of (newest_of k snap (d # cs)))) (remdups_adj (map fst r))
      = map (\<lambda>k. map (\<lambda>e. (k, dec (snd (snd e)))) (active_of (newest_of k snap r))) (remdups_adj (map fst r))"
    using lt by (intro map_cong refl) (simp add: later)
  also have "map (\<lambda>e. (fst d, dec (snd (snd e)))) (active_of (newest snap (d # takeWhile (same_key d) cs)))
      = map (\<lambda>e. (fst e, dec (snd (snd e)))) (active_of (newest snap (d # takeWhile (same_key d) cs)))"
    by (intro map_cong refl) (drule active_key, simp)
  also have "concat (map (\<lambda>k. map (\<lambda>e. (k, dec (snd (snd e)))) (active_of (newest_of k snap r))) (remdups_adj (map fst r)))
      = map (\<lambda>e. (fst e, dec (snd (snd e)))) (live snap r)"
    using "2.IH" sr by (simp add: active_pairs_def r_def)
  finally show ?case by (simp add: live.simps(2) r_def)
qed

text \<open>The pairs agree with point reads where the versions of a key have different identifiers.\<close>

lemma find_last: "vs \<noteq> [] \<Longrightarrow> distinct (map f vs) \<Longrightarrow> find (\<lambda>d. f d = f (last vs)) vs = Some (last vs)"
proof (induction vs)
  case (Cons v vs)
  then show ?case by (cases "vs = []") auto
qed simp

lemma as_of_newest:
  assumes "distinct (map ver cs)"
  shows "as_of key snap cs = newest_of key snap cs"
proof -
  define vs where "vs = visible key snap cs"
  have "distinct (map ver vs)" using assms by (simp add: vs_def visible_def distinct_map_filter)
  then have "inj_on ver (set vs)" "distinct vs" by (auto simp: distinct_map)
  moreover have "fst d = key" if "d \<in> set vs" for d using that by (simp add: vs_def visible_def)
  ultimately have "inj_on (\<lambda>d. fst (snd d)) (set vs)" by (auto simp: inj_on_def)
  then have "distinct (map (\<lambda>d. fst (snd d)) vs)" using \<open>distinct vs\<close> by (simp add: distinct_map)
  then show ?thesis using find_last [of vs "\<lambda>d. fst (snd d)"] by (simp add: as_of_def newest_of_def vs_def [symmetric])
qed

lemma active_pairs_reads:
  assumes "distinct (map ver cs)"
  shows "(k, v) \<in> set (active_pairs dec snap cs) \<longleftrightarrow> (\<exists>i raw. as_of k snap cs = Some (k, i, raw) \<and> raw \<noteq> [] \<and> v = dec raw)"
proof -
  have k: "x = k" "k \<in> fst ` set cs" if "newest_of k snap cs = Some (x, y)" for x y
    using newest_in [of snap "filter (\<lambda>e. fst e = k) cs" "(x, y)"] that by (force simp: newest_of_filter)+
  show ?thesis
  proof
    assume "(k, v) \<in> set (active_pairs dec snap cs)"
    then obtain d where d: "d \<in> set (active_of (newest_of k snap cs))" "v = dec (snd (snd d))" by (auto simp: active_pairs_def)
    obtain x i raw where x: "d = (x, i, raw)" by (metis prod_cases3)
    then have n: "newest_of k snap cs = Some (x, i, raw)" "raw \<noteq> []" using d(1) by (auto simp: active_of_def split: option.splits if_splits)
    then show "\<exists>i raw. as_of k snap cs = Some (k, i, raw) \<and> raw \<noteq> [] \<and> v = dec raw"
      using k(1) [OF n(1)] d(2) x by (simp add: as_of_newest [OF assms])
  next
    assume "\<exists>i raw. as_of k snap cs = Some (k, i, raw) \<and> raw \<noteq> [] \<and> v = dec raw"
    then obtain i raw where n: "newest_of k snap cs = Some (k, i, raw)" "raw \<noteq> []" "v = dec raw"
      by (auto simp: as_of_newest [OF assms])
    obtain e where e: "e \<in> set cs" "fst e = k" using k(2) [OF n(1)] by auto
    have "active_of (newest_of k snap cs) = [(k, i, raw)]" using n by (simp add: active_of_def)
    then show "(k, v) \<in> set (active_pairs dec snap cs)"
      using e n(3) by (auto simp: active_pairs_def intro!: bexI [of _ e])
  qed
qed

section \<open>Ranges\<close>

fun feed :: "('a \<Rightarrow> bytes \<Rightarrow> bytes \<Rightarrow> 'a \<times> bool) \<Rightarrow> (bytes \<times> bytes) list \<Rightarrow> 'a \<Rightarrow> 'a" where
  "feed fn [] st = st"
| "feed fn ((k, v) # kvs) st = (case fn st k v of (st, goon) \<Rightarrow> if goon then feed fn kvs st else st)"

lemma range_loop_feed:
  assumes "gap_free css" "case es of [] \<Rightarrow> r = None | e # _ \<Rightarrow> r = Some (fst e, dec (snd (snd e))) \<and> stands c css es"
    "es \<noteq> [] \<Longrightarrow> resolveVal c = dec"
  shows "snd (range_loop fn bound r c st)
    = feed fn (map (\<lambda>e. (fst e, dec (snd (snd e)))) (takeWhile (\<lambda>e. bound = [] \<or> fst e < bound) es)) st"
  using assms(2,3)
proof (induction es arbitrary: r c st)
  case Nil
  then show ?case by (subst range_loop.simps) simp
next
  case (Cons e es)
  then have r: "r = Some (fst e, dec (snd (snd e)))" and c: "stands c css (e # es)" "resolveVal c = dec" by simp_all
  obtain r' c' where n: "Next c = (r', c')" by fastforce
  have m: "moved c css es (r', c')" using Next_moved [OF c(1) assms(1)] by (simp add: n)
  have sd: "resolveVal c' = dec" using m c(2) resolveVal_same [of c c'] by (simp add: moved_def)
  have IH: "snd (range_loop fn bound r' c' st) = feed fn (map (\<lambda>e. (fst e, dec (snd (snd e)))) (takeWhile (\<lambda>e. bound = [] \<or> fst e < bound) es)) st" for st
    using m sd c(2) by (intro Cons.IH) (auto simp: moved_def split: list.splits)
  show ?case
    using IH by (subst range_loop.simps) (auto simp: r n bytes_Compare_simps split: prod.splits)
qed

lemma sorted_interval:
  assumes "sorted (map fst es)"
  shows "takeWhile (\<lambda>e. bound = [] \<or> fst e < (bound::bytes)) (dropWhile (\<lambda>e. \<not> start \<le> fst e) es)
    = filter (\<lambda>e. start \<le> fst e \<and> (bound = [] \<or> fst e < bound)) es"
proof -
  have "sorted (map fst (filter (\<lambda>e. start \<le> fst e) es))" using assms by (rule sorted_filter_fst)
  then show ?thesis
    using assms by (cases "bound = []") (simp_all add: sorted_dropWhile_filter sorted_takeWhile_filter conj_commute)
qed

lemma Range_visits:
  assumes "over_leaves c css" "sorted (map fst (concat css))" "if start = [] then gap_free css else leaves_apart css"
  shows "snd (cursor_Range fn start bound c st)
    = feed fn (filter (\<lambda>(k, v). start \<le> k \<and> (bound = [] \<or> k < bound)) (active_pairs (resolveVal c) (cu_snap c) (concat css))) st"
proof -
  have gf: "gap_free css" using assms(3) apart_gap_free by (auto split: if_splits)
  define es where "es = dropWhile (\<lambda>e. \<not> start \<le> fst e) (live (cu_snap c) (concat css))"
  obtain r c' where f: "(if length start = 0 then First c else Seek c start) = (r, c')" by fastforce
  have "moved c css es (if length start = 0 then First c else Seek c start)"
    using First_moved [OF assms(1) gf] Seek_moved [OF assms(1,2)] assms(3) by (cases "start = []") (simp_all add: es_def)
  then have m: "moved c css es (r, c')" by (simp only: f)
  have "snd (range_loop fn bound r c' st)
      = feed fn (map (\<lambda>e. (fst e, resolveVal c (snd (snd e)))) (takeWhile (\<lambda>e. bound = [] \<or> fst e < bound) es)) st"
    using m resolveVal_same [of c c'] by (intro range_loop_feed [OF gf]) (auto simp: moved_def split: list.splits)
  also have "takeWhile (\<lambda>e. bound = [] \<or> fst e < bound) es
      = filter (\<lambda>e. start \<le> fst e \<and> (bound = [] \<or> fst e < bound)) (live (cu_snap c) (concat css))"
    unfolding es_def by (rule sorted_interval [OF sorted_live [OF assms(2)]])
  finally show ?thesis
    by (simp add: cursor_Range_def f [unfolded length_0_conv] live_active [OF assms(2), symmetric] filter_map comp_def)
qed


section \<open>Cursors over heaps\<close>

text \<open>The leaves of a heap from the leftmost on, linked to one another, the last to page 0.\<close>

fun linked :: "bytes \<Rightarrow> nat list \<Rightarrow> bool" where
  "linked h [] \<longleftrightarrow> False"
| "linked h [p] \<longleftrightarrow> page_link h (p * pageN) = 0"
| "linked h (p # q # ps) \<longleftrightarrow> page_link h (p * pageN) = q \<and> q \<noteq> 0 \<and> q \<noteq> p \<and> linked h (q # ps)"

lemma fit_pages: "(p + 1) * pageN \<le> np * pageN \<Longrightarrow> length h = np * pageN \<Longrightarrow> \<not> p * pageN + 8 + 8 > length h"
proof -
  assume a: "(p + 1) * pageN \<le> np * pageN" "length h = np * pageN"
  have "p * pageN + pageN \<le> length h" using a by (simp add: distrib_right)
  then show ?thesis by (simp add: pageN_def)
qed

lemma leaf_chain_linked:
  "linked h ps \<Longrightarrow> length h = np * pageN \<Longrightarrow> \<forall>p \<in> set ps. p < np \<Longrightarrow> length ps \<le> k \<Longrightarrow> leaf_chain_loop h np (hd ps) k = ps"
proof (induction ps arbitrary: k rule: linked.induct)
  case (2 h p)
  then obtain j where k: "k = Suc j" by (cases k) auto
  then show ?case using 2 by (simp add: Let_def)
next
  case (3 h p q ps)
  then obtain j where k: "k = Suc j" by (cases k) auto
  have "\<not> p * pageN + 8 + 8 > length h"
  proof -
    have "(p + 1) * pageN \<le> np * pageN" using 3 by (intro mult_le_mono1) simp
    then show ?thesis using "3.prems"(2) by (intro fit_pages)
  qed
  then show ?case using 3 k by (simp add: Let_def)
qed simp

definition heap_leaves :: "bytes \<Rightarrow> nat \<Rightarrow> nat list \<Rightarrow> bool" where
  "heap_leaves heap root ps \<longleftrightarrow> (let np = length heap div pageN in
     np * pageN = length heap \<and> root < np \<and> leftmost_loop heap np root np = Some (hd ps) \<and> linked heap ps \<and> distinct ps
     \<and> (\<forall>p \<in> set ps. p < np \<and> leaf_wf heap (length heap) (p * pageN)))"

definition cells_of :: "bytes \<Rightarrow> nat list \<Rightarrow> cell list list" where
  "cells_of heap ps = map (\<lambda>p. leaf_cells heap (p * pageN)) ps"

lemma leaf_read:
  assumes "leaf_layout h n (p * pageN)" "cu_heap c = h" "l < length (cu_leafPages c)" "cu_leafPages c ! l = p"
    and "s < length (leaf_cells h (p * pageN))"
  shows "readSlotCell c l s = (case leaf_cells h (p * pageN) ! s of (k, i, v) \<Rightarrow> Some (k, i, v, length v))"
proof -
  define base where "base = p * pageN"
  define co where "co = leaf_slot h base s"
  have s: "s < get16 h (base + 22)" using assms(5) by (simp add: leaf_cells_def base_def)
  note D = leaf_layoutD [OF assms(1) [folded base_def]]
  have oo: "66 \<le> co" "co + cell_size h (base + co) \<le> 0x4000" using D(4,5) D(7,8) [OF s] s by (simp_all add: co_def)
  have sl: "64 + s * 2 + 2 \<le> 0x4000" using D(4,5,6) s by simp
  have a: "get16 h (base + 64 + s * 2) = co" by (simp add: co_def leaf_slot_def add.assoc)
  have L: "base + 0x4000 \<le> length h" using D(1,2) by simp
  note sz = oo(2) [unfolded cell_size_def]
  have v: "length (bslice h (base + co + 4 + get16 h (base + co) + 16) (get16 h (base + co + 2))) = get16 h (base + co + 2)"
    using sz L by (simp add: bslice_def)
  have r: "readSlotCell c l s = Some (bslice h (base + co + 4) (get16 h (base + co)), bslice h (base + co + 4 + get16 h (base + co)) 16,
      bslice h (base + co + 4 + get16 h (base + co) + 16) (get16 h (base + co + 2)), get16 h (base + co + 2))"
    unfolding readSlotCell_def Let_def assms(2,4) base_def [symmetric] a
    using assms(3) s sl oo sz L by (simp add: pageN_def OverflowChunkCapacity_def)
  have "leaf_cells h base ! s = cell_at h (base + co)" using s by (simp add: leaf_cells_def co_def)
  then show ?thesis using r v by (simp add: base_def [symmetric] cell_at_def Let_def)
qed

lemma newCursor_leaves:
  assumes "heap_leaves heap root ps"
  shows "over_leaves (newCursor heap root snap pin) (cells_of heap ps)" "cu_heap (newCursor heap root snap pin) = heap"
    "cu_npages (newCursor heap root snap pin) = length heap div pageN" "cu_snap (newCursor heap root snap pin) = snap"
    "cu_pin (newCursor heap root snap pin) = pin"
proof -
  define np where "np = length heap div pageN"
  have H: "np * pageN = length heap" "root < np" "leftmost_loop heap np root np = Some (hd ps)" "linked heap ps" "distinct ps"
    "\<forall>p \<in> set ps. p < np" "\<forall>p \<in> set ps. leaf_wf heap (length heap) (p * pageN)"
    using assms by (auto simp: heap_leaves_def Let_def np_def)
  have "card (set ps) \<le> card {..<np}" using H(6) by (intro card_mono) auto
  then have "length ps \<le> np" using H(5) by (simp add: distinct_card)
  then have ch: "leaf_chain_loop heap np (hd ps) np = ps" using leaf_chain_linked [of heap ps np np] H by simp
  have ne: "heap \<noteq> []" using H(1,2) by (auto simp: pageN_def)
  have c: "newCursor heap root snap pin = \<lparr>cu_heap = heap, cu_npages = np, cu_root = root, cu_snap = snap, cu_pin = pin,
      cu_leafPages = ps, cu_leafIdx = 0, cu_slotIdx = 0, cu_valid = False, cu_currKey = [], cu_currVal = [], cu_currID = []\<rparr>"
    using H(2,3) ne ch by (simp add: newCursor_def initLeafPages_def np_def [symmetric] Let_def)
  show "cu_heap (newCursor heap root snap pin) = heap"
    "cu_npages (newCursor heap root snap pin) = length heap div pageN" "cu_snap (newCursor heap root snap pin) = snap"
    "cu_pin (newCursor heap root snap pin) = pin" by (simp_all add: c np_def)
  have lay: "leaf_layout heap (length heap) (ps ! l * pageN)" if "l < length ps" for l
    using H(7) that by (auto simp: leaf_wf_def)
  have cnt: "leafSlotCount (newCursor heap root snap pin) l = length (leaf_cells heap (ps ! l * pageN))" if "l < length ps" for l
    using leaf_layoutD(1,2) [OF lay [OF that]] that by (simp add: leafSlotCount_def c leaf_cells_def Let_def)
  have rd: "readSlotCell (newCursor heap root snap pin) l s = (case leaf_cells heap (ps ! l * pageN) ! s of (k, i, v) \<Rightarrow> Some (k, i, v, length v))"
    if "l < length ps" "s < length (leaf_cells heap (ps ! l * pageN))" for l s
    using that by (intro leaf_read [OF lay [OF that(1)]]) (simp_all add: c)
  show "over_leaves (newCursor heap root snap pin) (cells_of heap ps)"
    using cnt rd by (simp add: over_leaves_def cells_of_def) (simp add: c)
qed

end
