(* ===== verification/Cursor_Ranges.thy ===== *)
theory Cursor_Ranges
  imports Cursor_Props
begin

text \<open>
  Ranges of views from the heap to the callback, on heaps of linked well-formed leaves, and the two places
  where a cursor does not show what is active.
\<close>

section \<open>Moves keep the heap and the pin\<close>

lemma stepForward_same: "same_leaves c (snd (stepForward c))"
  by (simp add: stepForward_def split: option.splits)

lemma Next_same: "same_leaves c (snd (Next c))"
proof -
  obtain k w i el es act where a: "resolveKeyAt c (cu_leafIdx c) (cu_slotIdx c) = (k, w, i, el, es, act)" by (metis prod_cases6)
  define d where "d = c\<lparr>cu_leafIdx := el, cu_slotIdx := es\<rparr>"
  obtain b e where sf: "stepForward d = (b, e)" by fastforce
  have "Next c = (if \<not> cu_valid c then (None, c) else case stepForward d of
      (False, c) \<Rightarrow> (None, c) | (True, c) \<Rightarrow> (Some (cu_currKey c, resolveVal c (cu_currVal c)), c))"
    by (simp only: Next_def a prod.case d_def)
  then have "snd (Next c) = c \<or> snd (Next c) = snd (stepForward d)"
    unfolding sf by (cases b) simp_all
  moreover have "same_leaves c d" by (simp add: d_def)
  then have "same_leaves c (snd (stepForward d))" by (rule same_leaves_trans [OF _ stepForward_same])
  ultimately show ?thesis by (elim disjE) simp_all
qed

lemma arrive_same: "same_leaves c (snd (arrive c r))"
  by (simp add: arrive_def split: option.splits prod.splits)

lemma First_same: "same_leaves c (snd (First c))"
  by (simp add: First_def arrive_same) (simp add: same_leaves_def)

lemma Seek_same: "same_leaves c (snd (Seek c t))"
  by (simp add: Seek_def arrive_same split: prod.splits) (simp add: same_leaves_def)

lemma range_loop_same: "same_leaves c (fst (range_loop fn bound r c st))"
proof (induction fn bound r c st rule: range_loop.induct)
  case (1 fn bound r c st)
  show ?case
  proof (cases r)
    case None
    then show ?thesis by (subst range_loop.simps) simp
  next
    case (Some kv)
    obtain k v where kv: "kv = (k, v)" by fastforce
    obtain st' goon where f: "fn st k v = (st', goon)" by fastforce
    obtain r' c' where n: "Next c = (r', c')" by fastforce
    have s: "same_leaves c c'" using Next_same [of c] by (simp add: n)
    show ?thesis
    proof (cases "(length bound > 0 \<and> bytes_Compare k bound \<ge> 0) \<or> \<not> goon")
      case True
      then show ?thesis by (subst range_loop.simps) (auto simp: Some kv f)
    next
      case False
      then have "range_loop fn bound r c st = range_loop fn bound r' c' st'"
        by (subst range_loop.simps) (auto simp: Some kv f n)
      moreover have "same_leaves c' (fst (range_loop fn bound r' c' st'))"
        using "1.IH" [OF Some kv [symmetric] _ f [symmetric] _ n [symmetric]] False by auto
      ultimately show ?thesis using same_leaves_trans [OF s] by simp
    qed
  qed
qed

lemma cursor_Range_same: "same_leaves c (fst (cursor_Range fn start bound c st))"
proof -
  obtain r c' where f: "(if length start = 0 then First c else Seek c start) = (r, c')" by fastforce
  have "same_leaves c c'" using First_same [of c] Seek_same [of c start] f by (auto split: if_splits)
  then show ?thesis using same_leaves_trans [OF _ range_loop_same] by (simp add: cursor_Range_def f [unfolded length_0_conv])
qed

section \<open>Ranges of views\<close>

definition decoded :: "bytes \<Rightarrow> bytes \<Rightarrow> bytes" where
  "decoded heap raw = (case decodeValue heap (length heap div pageN) raw of Inr v \<Rightarrow> v | Inl _ \<Rightarrow> raw)"

lemma newCursor_decodes: "heap_leaves heap root ps \<Longrightarrow> resolveVal (newCursor heap root snap pin) = decoded heap"
  by (intro ext) (simp add: resolveVal_def decoded_def newCursor_leaves)

lemma range_open_reads:
  assumes "heap_leaves heap root ps" "sorted (map fst (concat (cells_of heap ps)))"
    and "if start = [] then gap_free (cells_of heap ps) else leaves_apart (cells_of heap ps)"
  shows "range_open fn start bound (Inr (newCursor heap root snap pin), refs) st
    = (Inr (feed fn (filter (\<lambda>(k, v). start \<le> k \<and> (bound = [] \<or> k < bound)) (active_pairs (decoded heap) snap (concat (cells_of heap ps)))) st),
       case pin of None \<Rightarrow> refs | Some h \<Rightarrow> refs(h := refs h - 1))"
proof -
  define c where "c = newCursor heap root snap pin"
  note N = newCursor_leaves [OF assms(1), of snap pin, folded c_def]
  obtain c' st' where r: "cursor_Range fn start bound c st = (c', st')" by fastforce
  have "st' = feed fn (filter (\<lambda>(k, v). start \<le> k \<and> (bound = [] \<or> k < bound)) (active_pairs (decoded heap) snap (concat (cells_of heap ps)))) st"
    using Range_visits [OF N(1) assms(2,3), of fn bound st] r newCursor_decodes [OF assms(1), of snap pin, folded c_def] N(4) by simp
  moreover have "cu_pin c' = pin" using cursor_Range_same [of c fn start bound st] r N(5) by (simp add: same_leaves_def)
  ultimately show ?thesis by (simp add: range_open_def c_def [symmetric] r cursor_Close_def no_place_def)
qed

section \<open>Pages with given cells\<close>

definition leaf_page :: "cell list \<Rightarrow> bytes" where
  "leaf_page cs = foldl (\<lambda>h (k, i, v). put_ver 0x4000 0 h k i v) (snd (Db_bt_leaf_init (replicate 0x4000 0) 0x4000)) cs"

definition cells_size :: "cell list \<Rightarrow> nat" where
  "cells_size cs = sum_list (map (\<lambda>c. ver_len c + 2) cs)"

lemma insert_ver_end: "sorted (map ver (cs @ [c])) \<Longrightarrow> insert_ver c cs = cs @ [c]"
proof -
  assume "sorted (map ver (cs @ [c]))"
  then have "\<forall>d \<in> set cs. ver d \<le> ver c" by (auto simp: sorted_append)
  then show ?thesis by (simp add: insert_ver_def)
qed

lemma leaf_page_cells:
  "sorted (map ver cs) \<Longrightarrow> \<forall>c \<in> set cs. cell_ok c \<Longrightarrow> cells_size cs \<le> 0x3fc0 \<Longrightarrow>
     leaf_wf (leaf_page cs) 0x4000 0 \<and> leaf_cells (leaf_page cs) 0 = cs \<and> length (leaf_page cs) = 0x4000
     \<and> leaf_free (leaf_page cs) 0 = 0x3fc0 - cells_size cs \<and> bslice (leaf_page cs) 8 8 = replicate 8 0"
proof (induction cs rule: rev_induct)
  case Nil
  define e where "e = snd (Db_bt_leaf_init (replicate 0x4000 0) 0x4000)"
  have e: "leaf_wf e 0x4000 0" "leaf_cells e 0 = []" "leaf_free e 0 = 0x3fc0" using leaf_init_wf [of "replicate 0x4000 0"] by (simp_all add: e_def)
  have p: "e = put_at (put_at (put_at ((replicate 0x4000 0)[20 := 1]) 22 (le_put16 0)) 24 (le_put16 64)) 26 (le_put16 0x4000)"
    by (simp add: e_def Db_bt_leaf_init_def bt_bounds_def bt_write8_def Let_def)
  have le: "length e = 0x4000" by (simp add: p)
  have "e ! i = 0" if "8 \<le> i" "i < 16" for i using that by (simp add: p put_at_nth)
  then have "bslice e 8 8 = replicate 8 0" using le by (intro nth_equalityI) auto
  then show ?case using e le by (simp add: leaf_page_def e_def [symmetric] cells_size_def)
next
  case (snoc c cs)
  obtain k i v where c: "c = (k, i, v)" by (metis prod_cases3)
  define h where "h = leaf_page cs"
  have ih: "leaf_wf h 0x4000 0" "leaf_cells h 0 = cs" "length h = 0x4000" "leaf_free h 0 = 0x3fc0 - cells_size cs" "bslice h 8 8 = replicate 8 0"
    using snoc by (auto simp: h_def sorted_append cells_size_def)
  have ok: "cell_ok (k, i, v)" "ver_len (k, i, v) + 2 \<le> leaf_free h 0" using snoc.prems by (simp_all add: c ih cells_size_def)
  have n: "leaf_page (cs @ [c]) = put_ver 0x4000 0 h k i v" by (simp add: leaf_page_def h_def c)
  note P = put_ver_cells [OF ih(1), of k i v, unfolded ver_fits_def]
  have lay: "leaf_layout h 0x4000 0" using ih(1) by (simp add: leaf_wf_def)
  note E = insert_ver_effect [OF lay ok, folded put_ver_def]
  have f: "leaf_free (put_ver 0x4000 0 h k i v) 0 = 0x3fc0 - cells_size (cs @ [c])"
    using E(3,4,9) ok(2) ih(4) leaf_layoutD(4) [OF lay] by (simp add: leaf_free_def cells_size_def c)
  have b: "bslice (put_ver 0x4000 0 h k i v) 8 8 = replicate 8 0" using E(6) [of 8 8] ih(3,5) by simp
  show ?case
    using P ok ih(2,3) E(1) f b insert_ver_end [OF snoc.prems(1)] unfolding n by (simp add: c)
qed

text \<open>The cells of a page depend on its bytes from the type on.\<close>

lemma page_cells_same:
  assumes "leaf_layout h n base" and s: "\<And>a k. 20 \<le> a \<Longrightarrow> a + k \<le> 0x4000 \<Longrightarrow> bslice h' (base' + a) k = bslice h (base + a) k"
    and "base' + 0x4000 \<le> n'" "n' \<le> length h'"
  shows "leaf_layout h' n' base'" "leaf_cells h' base' = leaf_cells h base"
proof -
  note D = leaf_layoutD [OF assms(1)]
  have g: "get16 h' (base' + a) = get16 h (base + a)" if "20 \<le> a" "a + 2 \<le> 0x4000" for a using s [OF that] by (simp add: get16_def)
  have g22: "get16 h' (base' + 22) = get16 h (base + 22)" "get16 h' (base' + 24) = get16 h (base + 24)" "get16 h' (base' + 26) = get16 h (base + 26)"
    using g by simp_all
  have t: "h' ! (base' + 20) = h ! (base + 20)"
  proof -
    have "bslice h' (base' + 20) 1 = bslice h (base + 20) 1" using s by simp
    moreover have "bslice xs a 1 = [xs ! a]" if "a < length xs" for a and xs :: bytes
      using that by (simp add: bslice_def take_Suc_conv_app_nth hd_drop_conv_nth take_Suc drop_eq_Nil)
    ultimately show ?thesis using assms(3,4) D(1,2) by simp
  qed
  have sl: "leaf_slot h' base' i = leaf_slot h base i" if "i < get16 h (base + 22)" for i
    using g [of "64 + i * 2"] D(4,5,6) that by (simp add: leaf_slot_def)
  have cl: "20 \<le> leaf_slot h base i \<and> leaf_slot h base i + cell_size h (base + leaf_slot h base i) \<le> 0x4000" if "i < get16 h (base + 22)" for i
    using D(4,5) D(7,8) [OF that] by simp
  have at: "get16 h' (base' + leaf_slot h base i) = get16 h (base + leaf_slot h base i)"
    "get16 h' (base' + (leaf_slot h base i + 2)) = get16 h (base + (leaf_slot h base i + 2))" if "i < get16 h (base + 22)" for i
    using cl [OF that] g [of "leaf_slot h base i"] g [of "leaf_slot h base i + 2"] by (simp_all add: cell_size_def)
  have cs: "cell_size h' (base' + leaf_slot h base i) = cell_size h (base + leaf_slot h base i)" if "i < get16 h (base + 22)" for i
    using at [OF that] by (simp add: cell_size_def add.assoc)
  have ca: "cell_at h' (base' + leaf_slot h base i) = cell_at h (base + leaf_slot h base i)" if "i < get16 h (base + 22)" for i
    using at [OF that] cl [OF that] s [of "leaf_slot h base i + 4"] s [of "leaf_slot h base i + 4 + get16 h (base + leaf_slot h base i)"]
      s [of "leaf_slot h base i + 4 + get16 h (base + leaf_slot h base i) + 16"]
    by (simp add: cell_at_def Let_def cell_size_def add.assoc)
  show "leaf_layout h' n' base'"
    unfolding leaf_layout_def g22 t using assms(3,4) D sl cs by simp
  show "leaf_cells h' base' = leaf_cells h base" using sl ca by (simp add: leaf_cells_def g22)
qed


text \<open>A heap of one page, and of two linked pages.\<close>

definition heap1 :: "cell list \<Rightarrow> bytes" where "heap1 cs = leaf_page cs"
definition heap2 :: "cell list \<Rightarrow> cell list \<Rightarrow> bytes" where "heap2 cs ds = put_at (leaf_page cs) 8 (le_put64 1) @ leaf_page ds"

definition page_cells :: "cell list \<Rightarrow> bool" where
  "page_cells cs \<longleftrightarrow> sorted (map ver cs) \<and> (\<forall>c \<in> set cs. cell_ok c) \<and> cells_size cs \<le> 0x3fc0"

lemma heap1_leaves:
  assumes "page_cells cs"
  shows "heap_leaves (heap1 cs) 0 [0]" "cells_of (heap1 cs) [0] = [cs]"
proof -
  define h where "h = leaf_page cs"
  have P: "leaf_wf h 0x4000 0" "leaf_cells h 0 = cs" "length h = 0x4000" "bslice h 8 8 = replicate 8 0"
    using leaf_page_cells assms by (simp_all add: page_cells_def h_def)
  have t: "h ! 20 = 1" using leaf_layoutD(3) [of h "0x4000" 0] P(1) by (simp add: leaf_wf_def)
  have "le_get64 (replicate 8 0) = 0" by (simp add: le_get64_def nth_replicate)
  then have "page_link h 0 = 0" using P(4) by (simp add: page_link_def)
  moreover have "leftmost_loop h 1 0 1 = Some 0" using t P(3) by simp
  ultimately show "heap_leaves (heap1 cs) 0 [0]" using P by (simp add: heap_leaves_def heap1_def h_def [symmetric] pageN_def)
  show "cells_of (heap1 cs) [0] = [cs]" using P by (simp add: cells_of_def heap1_def h_def)
qed

lemma heap2_leaves:
  assumes "page_cells cs" "page_cells ds"
  shows "heap_leaves (heap2 cs ds) 0 [0, 1]" "cells_of (heap2 cs ds) [0, 1] = [cs, ds]"
proof -
  define a where "a = leaf_page cs"
  define b where "b = leaf_page ds"
  define h where "h = put_at a 8 (le_put64 1) @ b"
  have A: "leaf_wf a 0x4000 0" "leaf_cells a 0 = cs" "length a = 0x4000"
    using leaf_page_cells [of cs] assms by (simp_all add: page_cells_def a_def)
  have B: "leaf_wf b 0x4000 0" "leaf_cells b 0 = ds" "length b = 0x4000" "bslice b 8 8 = replicate 8 0"
    using leaf_page_cells [of ds] assms by (simp_all add: page_cells_def b_def)
  have l: "length h = 0x8000" using A B by (simp add: h_def)
  have s0: "bslice h (0 + i) k = bslice a (0 + i) k" if "20 \<le> i" "i + k \<le> 0x4000" for i k
  proof (rule nth_equalityI)
    show "length (bslice h (0 + i) k) = length (bslice a (0 + i) k)" using that A l by (simp add: bslice_def)
    fix j assume "j < length (bslice h (0 + i) k)"
    then show "bslice h (0 + i) k ! j = bslice a (0 + i) k ! j" using that A l by (simp add: bslice_def h_def nth_append put_at_nth)
  qed
  have s1: "bslice h (0x4000 + i) k = bslice b (0 + i) k" for i k using A by (simp add: h_def bslice_def)
  note L0 = page_cells_same [of a "0x4000" 0 h 0 "0x8000", OF _ s0] and L1 = page_cells_same [of b "0x4000" 0 h "0x4000" "0x8000", OF _ s1]
  have w: "leaf_wf h 0x8000 0" "leaf_wf h 0x8000 0x4000" "leaf_cells h 0 = cs" "leaf_cells h 0x4000 = ds"
    using L0 L1 A B l by (simp_all add: leaf_wf_def)
  have t: "h ! 20 = 1" using leaf_layoutD(3) [of h "0x8000" 0] w(1) by (simp add: leaf_wf_def)
  have "le_get64 (replicate 8 0) = 0" by (simp add: le_get64_def nth_replicate)
  then have k1: "page_link h 0x4000 = 0" using s1 [of 8 8] B(4) by (simp add: page_link_def)
  have "bslice h 8 8 = le_put64 1"
    using A by (intro nth_equalityI) (simp_all add: bslice_def h_def nth_append put_at_nth)
  then have k0: "page_link h 0 = 1" by (simp add: page_link_def le_get_put)
  have "leftmost_loop h 2 0 2 = Some 0" using t l by (simp add: numeral_2_eq_2)
  then show "heap_leaves (heap2 cs ds) 0 [0, 1]"
    using w k0 k1 l by (simp add: heap_leaves_def heap2_def a_def [symmetric] b_def [symmetric] h_def [symmetric] pageN_def)
  show "cells_of (heap2 cs ds) [0, 1] = [cs, ds]"
    using w by (simp add: cells_of_def heap2_def a_def [symmetric] b_def [symmetric] h_def [symmetric] pageN_def)
qed

section \<open>Range scans\<close>

text \<open>C36: A range scan of a view over a heap of linked well-formed leaves, any of them empty, with the keys in order along
  the leaves, calls the function on exactly the active pairs of the interval in key order, each key once, with
  the decoded value of its newest version at the snapshot, until the function stops it; it leaves the
  reference counts of the live heaps as they were. A scan without a start key needs that no key has versions
  on both sides of an empty leaf, a scan from a start key that none has versions in two leaves.\<close>

theorem View_Range_reads:
  assumes "vw_heap v = Some heap" "heap_leaves heap (vw_root v) ps" "sorted (map fst (concat (cells_of heap ps)))"
    and "if start = [] then gap_free (cells_of heap ps) else leaves_apart (cells_of heap ps)"
  shows "View_Range fn start bound v refs st
    = (Inr (feed fn (filter (\<lambda>(k, w). start \<le> k \<and> (bound = [] \<or> k < bound))
         (active_pairs (decoded heap) (vw_snap v) (concat (cells_of heap ps)))) st), refs)"
  using range_open_reads [OF assms(2-4), where pin = "vw_pin v" and fn = fn and st = st]
  by (cases "vw_pin v") (simp_all add: View_Range_def View_Cursor_def assms(1))

lemma id_less: "a < b \<Longrightarrow> replicate 16 a < replicate 16 (b :: byte)"
proof -
  assume a: "a < b"
  have "(16 :: nat) = Suc 15" by simp
  then show ?thesis using a by (simp only: replicate_Suc) simp
qed

lemmas id_le = id_less [THEN less_imp_le]

text \<open>A seek over two leaves, the first of them empty.\<close>

theorem View_Range_reads_witness:
  "View_Range (\<lambda>st k v. (st @ [(k, v)], True)) [2] [] \<lparr>vw_snap = replicate 16 9,
      vw_heap = Some (heap2 [] [([1], replicate 16 1, [0, 41]), ([2], replicate 16 1, [0, 42]), ([2], replicate 16 2, [0, 43])]), vw_root = 0, vw_pin = Some 7\<rparr> (\<lambda>_. 1) []
    = (Inr [([2], [43])], \<lambda>_. 1)"
proof -
  define cs :: "cell list" where "cs = [([1], replicate 16 1, [0, 41]), ([2], replicate 16 1, [0, 42]), ([2], replicate 16 2, [0, 43])]"
  have lt: "replicate 16 (1 :: byte) < replicate 16 2" "replicate 16 (1 :: byte) \<le> replicate 16 9" "replicate 16 (2 :: byte) \<le> replicate 16 9"
    by (intro id_less id_le, simp)+
  have pc: "page_cells cs" using lt(1) by (simp add: cs_def page_cells_def cells_size_def ver_len_def cell_ok_def)
  have "page_cells []" by (simp add: page_cells_def cells_size_def)
  note H = heap2_leaves [OF this pc]
  have dec: "decoded h [0, 43] = [43]" for h by (simp add: decoded_def decodeValue_def OverflowDescLen_def cellKindInline_def)
  have ap: "filter (\<lambda>(k, w). [2] \<le> k \<and> (([] :: bytes) = [] \<or> k < [])) (active_pairs (decoded (heap2 [] cs)) (replicate 16 9) cs) = [([2], [43])]"
    using lt by (simp add: active_pairs_def cs_def newest_of_def visible_def active_of_def dec)
  show ?thesis
    using View_Range_reads [of "\<lparr>vw_snap = replicate 16 9, vw_heap = Some (heap2 [] cs), vw_root = 0, vw_pin = Some 7\<rparr>" "heap2 [] cs" "[0, 1]" "[2]"
        "\<lambda>st k v. (st @ [(k, v)], True)" "[]" "\<lambda>_. 1" "[]"] H ap
    by (simp add: leaves_apart_def cs_def)
qed

section \<open>A backward step over an inactive key\<close>

lemma three_cells:
  assumes "over_leaves c [[(a, h, u), (b, i, x), (d, j, w)]]" "a < b" "b < d" "j \<le> cu_snap c" "w \<noteq> []" "x = [] \<or> \<not> i \<le> cu_snap c"
  shows "last_loop c 1 None = Some (0, 2, d, w, j)" "backward_loop c 0 2 = None" "resolveKeyEndingAt c 0 2 = (d, w, j, 0, 2, True)"
proof -
  note D = over_leavesD [OF assms(1)]
  have ne: "a \<noteq> b" "b \<noteq> d" "a \<noteq> d" using assms(2,3) by auto
  have cnt: "leafSlotCount c 0 = 3" using D(2) [of 0] by simp
  have r: "readSlotCell c 0 1 = Some (b, i, x, length x)" "readSlotCell c 0 2 = Some (d, j, w, length w)" "readSlotCell c 0 0 = Some (a, h, u, length u)"
    using D(3) [of 0 1] D(3) [of 0 2] D(3) [of 0 0] by simp_all
  have p: "prev_slot c 0 2 = Some (0, 1)" "prev_slot c 0 1 = Some (0, 0)" "prev_slot c 0 0 = None" by (simp_all add: prev_slot_def)
  have n: "next_slot c 0 2 = (1, 0)" "next_slot c 0 1 = (0, 2)" by (simp_all add: next_slot_def cnt)
  have g2: "group_start c d 0 2 = (0, 2)" using ne by (subst group_start.simps) (simp add: p [unfolded One_nat_def] r [unfolded One_nat_def])
  have g1: "group_start c b 0 1 = (0, 1)" using ne by (subst group_start.simps) (simp add: p [unfolded One_nat_def] r [unfolded One_nat_def])
  have l2: "resolve_loop c d z 0 2 = (z, 0, 2)" for z by (subst resolve_loop.simps) (simp add: n [unfolded One_nat_def] D(1))
  have l1: "resolve_loop c b z 0 1 = (z, 0, 1)" for z using ne by (subst resolve_loop.simps) (simp add: n [unfolded One_nat_def] D(1) r [unfolded One_nat_def])
  show e2: "resolveKeyEndingAt c 0 2 = (d, w, j, 0, 2, True)"
    using assms(4,5) by (simp add: resolveKeyEndingAt_def resolveKeyAt_def r [unfolded One_nat_def] g2 l2 bytes_Compare_simps)
  have e1: "\<exists>x y z. resolveKeyEndingAt c 0 1 = (x, y, z, 0, 1, False)"
    using assms(6)
    by (auto simp: resolveKeyEndingAt_def resolveKeyAt_def r [unfolded One_nat_def] g1 [unfolded One_nat_def] l1 [unfolded One_nat_def]
        bytes_Compare_simps)
  have "last_loop c 1 None = last_loop c 0 (Some 2)" by (simp add: last_loop.simps cnt)
  then show "last_loop c 1 None = Some (0, 2, d, w, j)" by (simp add: last_loop.simps e2)
  have b0: "backward_loop c 0 0 = None" by (subst backward_loop.simps) (simp add: p)
  show "backward_loop c 0 2 = None"
    using e1 by (subst backward_loop.simps) (auto simp: p [unfolded One_nat_def] b0)
qed

text \<open>C38: Going back from the last key over an inactive key of the same leaf, deleted or newer than the snapshot, ends
  the iteration: the key before it is skipped, although it is active and a forward scan starts with it.\<close>

theorem Prev_skips_leaf:
  assumes "heap_leaves heap root [p]" "cells_of heap [p] = [[(a, h, u), (b, i, x), (d, j, w)]]" "a < b" "b < d"
    and "h \<le> snap" "j \<le> snap" "u \<noteq> []" "w \<noteq> []" "x = [] \<or> \<not> i \<le> snap"
  shows "active_pairs (decoded heap) snap (concat (cells_of heap [p])) = [(a, decoded heap u), (d, decoded heap w)]
    \<and> fst (First (newCursor heap root snap pin)) = Some (a, decoded heap u)
    \<and> fst (Last (newCursor heap root snap pin)) = Some (d, decoded heap w)
    \<and> fst (Prev (snd (Last (newCursor heap root snap pin)))) = None"
proof -
  define c where "c = newCursor heap root snap pin"
  note N = newCursor_leaves [OF assms(1), of snap pin, folded c_def]
  have o: "over_leaves c [[(a, h, u), (b, i, x), (d, j, w)]]" using N(1) assms(2) by simp
  note T = three_cells [OF o assms(3,4) _ assms(8)]
  have len: "length (cu_leafPages c) = 1" using over_leavesD(1) [OF o] by simp
  have dec: "resolveVal c = decoded heap" using newCursor_decodes [OF assms(1)] by (simp add: c_def)
  have L: "Last c = (Some (d, decoded heap w), put_place (0, 2, d, w, j) c)"
    using T(1) assms(6,9) N(4) len by (simp add: Last_def arrive_def dec)
  then have l: "fst (Last c) = Some (d, decoded heap w)" by simp
  define e where "e = put_place (0, 2, d, w, j) c"
  have oe: "over_leaves e [[(a, h, u), (b, i, x), (d, j, w)]]" using over_leaves_same [OF _ o, of e] by (simp add: e_def)
  have se: "cu_snap e = snap" "cu_leafIdx e = 0" "cu_slotIdx e = 2" "cu_valid e" using N(4) by (simp_all add: e_def put_place_def)
  note Te = three_cells [OF oe assms(3,4) _ assms(8)]
  define f where "f = e\<lparr>cu_leafIdx := 0, cu_slotIdx := 2\<rparr>"
  have "over_leaves f [[(a, h, u), (b, i, x), (d, j, w)]]" using over_leaves_same [OF _ oe, of f] by (simp add: f_def)
  note Tf = three_cells [OF this assms(3,4) _ assms(8)]
  have sf: "cu_snap f = snap" "cu_leafIdx f = 0" "cu_slotIdx f = 2" using se by (simp_all add: f_def)
  have "stepBackward f = (False, no_place f)" using Tf(2) assms(6,9) sf by (simp add: stepBackward_def)
  then have "Prev e = (None, no_place f)" using Te(3) assms(6,9) se by (simp add: Prev_def f_def)
  then have pv: "fst (Prev (snd (Last c))) = None" by (simp add: L e_def)
  have ab: "a \<noteq> b" "b \<noteq> d" "a \<noteq> d" using assms(3,4) by auto
  have ap: "active_pairs (decoded heap) snap (concat (cells_of heap [p])) = [(a, decoded heap u), (d, decoded heap w)]"
    using ab assms(5-9) by (auto simp: assms(2) active_pairs_def newest_of_def visible_def active_of_def)
  have "moved c [[(a, h, u), (b, i, x), (d, j, w)]] (live (cu_snap c) (concat [[(a, h, u), (b, i, x), (d, j, w)]])) (First c)"
    by (rule First_moved [OF o gap_free_full]) simp
  moreover have "live (cu_snap c) (concat [[(a, h, u), (b, i, x), (d, j, w)]]) = [(a, h, u), (d, j, w)]"
    using ab assms(5-9) N(4) by (auto simp: live.simps(2) newest_def active_of_def)
  ultimately have "fst (First c) = Some (a, decoded heap u)" by (simp add: moved_def dec)
  then show ?thesis using ap l pv by (simp add: c_def)
qed


lemma three_cells_page:
  "page_cells [([1], replicate 16 1, [0, 41]), ([2], replicate 16 12, [0, 42]), ([3], replicate 16 1, [0, 43])]"
  by (simp add: page_cells_def cells_size_def ver_len_def cell_ok_def)

theorem Prev_skips_leaf_witness:
  "fst (Prev (snd (Last (newCursor (heap1 [([1], replicate 16 1, [0, 41]), ([2], replicate 16 12, [0, 42]), ([3], replicate 16 1, [0, 43])]) 0 (replicate 16 9) None)))) = None"
proof -
  have le: "replicate 16 (1 :: byte) \<le> replicate 16 9" "replicate 16 (9 :: byte) < replicate 16 12" by (intro id_le id_less, simp)+
  note H = heap1_leaves [OF three_cells_page]
  show ?thesis
    using Prev_skips_leaf [OF H(1) H(2), of "replicate 16 9" None] le by simp
qed

section \<open>A seek of a key whose versions span leaves\<close>

text \<open>A scan from a start key needs that no key has versions in two leaves, which the splits of the tree keep. Where the versions of a key continue in the next leaf, \<open>Seek\<close> starts at the next leaf: a key whose
  visible version is in the first leaf and whose version there is newer than the snapshot is not found,
  although it is active.\<close>

theorem Seek_misses_spanning:
  assumes "heap_leaves heap root [p, q]" "cells_of heap [p, q] = [[(k, i, v)], [(k, j, w)]]" "i \<le> snap" "snap < j" "v \<noteq> []"
  shows "fst (Seek (newCursor heap root snap pin) k) = None
    \<and> active_pairs (decoded heap) snap (concat (cells_of heap [p, q])) = [(k, decoded heap v)]
    \<and> fst (First (newCursor heap root snap pin)) = Some (k, decoded heap v)"
proof -
  define c where "c = newCursor heap root snap pin"
  note N = newCursor_leaves [OF assms(1), of snap pin, folded c_def]
  have o: "over_leaves c [[(k, i, v)], [(k, j, w)]]" using N(1) assms(2) by simp
  note D = over_leavesD [OF o]
  have dec: "resolveVal c = decoded heap" using newCursor_decodes [OF assms(1)] by (simp add: c_def)
  have r: "readSlotCell c 0 0 = Some (k, i, v, length v)" "readSlotCell c 1 0 = Some (k, j, w, length w)" "leafSlotCount c 1 = 1"
    using D(2) [of 1] D(3) [of 0 0] D(3) [of 1 0] by simp_all
  define f where "f = (\<lambda>i. case leafFirstKey c i of None \<Rightarrow> True | Some fk \<Rightarrow> bytes_Compare fk k > 0)"
  have "\<not> f 0" "\<not> f 1" by (simp_all add: f_def leafFirstKey_def r [unfolded One_nat_def] bytes_Compare_simps)
  then have "search_loop f 0 2 = 2"
    using search_loop_post [of 0 2 f] by (metis One_nat_def less_2_cases_iff nat_less_le zero_le)
  then have L: "seek_leaf c k = 1" using D(1) by (simp add: seek_leaf_def sort_Search_def f_def numeral_2_eq_2)
  define g where "g = (\<lambda>i. case readSlotCell c 1 i of None \<Rightarrow> True | Some (k', _) \<Rightarrow> bytes_Compare k' k \<ge> 0)"
  have "g 0" by (simp add: g_def r bytes_Compare_simps del: One_nat_def)
  then have "search_loop g 0 1 = 0"
    using search_loop_post [of 0 1 g] by (metis One_nat_def diff_self_eq_0 le_neq_implies_less less_one zero_le)
  then have S: "seek_slot c k 1 = (1, 0)" by (simp add: seek_slot_def r(3) [unfolded One_nat_def] sort_Search_def g_def [unfolded One_nat_def])
  have nj: "\<not> j \<le> snap" using assms(4) by simp
  have "live snap [(k, j, w)] = []" using nj by (simp add: live.simps(2) newest_def active_of_def)
  then have "scan_loop c (\<lambda>k'. bytes_Compare k' k \<ge> 0) 1 0 = None"
    using scan_loop_live [OF o, of 1 0 "\<lambda>k'. bytes_Compare k' k \<ge> 0"] N(4)
    by (auto simp: at_pos_def gap_free_full rest_def Let_def on_live_def split: option.splits prod.splits)
  then have s: "fst (Seek c k) = None" using D(1) S by (simp add: Seek_def L arrive_def)
  have ap: "active_pairs (decoded heap) snap (concat (cells_of heap [p, q])) = [(k, decoded heap v)]"
    using assms(3,5) nj by (simp add: assms(2) active_pairs_def newest_of_def visible_def active_of_def)
  have "moved c [[(k, i, v)], [(k, j, w)]] (live (cu_snap c) (concat [[(k, i, v)], [(k, j, w)]])) (First c)"
    by (rule First_moved [OF o gap_free_full]) simp
  moreover have "live (cu_snap c) (concat [[(k, i, v)], [(k, j, w)]]) = [(k, i, v)]"
    using assms(3,5) nj N(4) by (simp add: live.simps(2) newest_def active_of_def)
  ultimately have "fst (First c) = Some (k, decoded heap v)" by (simp add: moved_def dec)
  then show ?thesis using s ap by (simp add: c_def)
qed

theorem Seek_misses_spanning_witness:
  "fst (Seek (newCursor (heap2 [([1], replicate 16 1, [0, 41])] [([1], replicate 16 5, [0, 42])]) 0 (replicate 16 3) None) [1]) = None"
proof -
  have le: "replicate 16 (1 :: byte) \<le> replicate 16 3" "replicate 16 (3 :: byte) < replicate 16 5" by (intro id_less id_le, simp)+
  have pc: "page_cells [([1], replicate 16 (b :: byte), [0, x])]" for b x by (simp add: page_cells_def cells_size_def ver_len_def cell_ok_def)
  note H = heap2_leaves [OF pc [of 1 41] pc [of 5 42]]
  show ?thesis using Seek_misses_spanning [OF H(1) H(2), of "replicate 16 3" None] le by simp
qed

end
