(* ===== verification/Query_Props.thy ===== *)
theory Query_Props
  imports Query Cursor_Ranges
begin

text \<open>
  What a query returns: the bound of a prefix, the scanner of string fields, and a forward query against the
  active pairs of its heap.
\<close>

section \<open>The upper bound of a prefix\<close>

lemma upper_loop_Cons:
  "i \<le> length xs \<Longrightarrow> upper_loop (x # xs) (Suc i)
    = (case upper_loop xs i of [] \<Rightarrow> if x < 0xff then [x + 1] else [] | u # us \<Rightarrow> x # u # us)"
proof (induction i)
  case (Suc i)
  then have "xs \<noteq> []" by auto
  then show ?case using Suc by (cases xs) (auto split: list.splits nat.splits)
qed simp

lemma prefixUpperBound_Cons:
  "prefixUpperBound (x # xs) = (case prefixUpperBound xs of [] \<Rightarrow> if x < 0xff then [x + 1] else [] | u # us \<Rightarrow> x # u # us)"
  using upper_loop_Cons [of "length xs" xs x] by (cases "xs = []") (simp_all add: prefixUpperBound_def del: upper_loop.simps(2))

lemma byte_less_Suc: "x < 0xff \<Longrightarrow> (y < x + 1) = (y \<le> (x :: byte))"
proof -
  assume x: "x < 0xff"
  then have "unat x < 255" by (simp add: word_less_nat_alt)
  then have "unat (x + 1) = unat x + 1" by (subst unat_add_lem [THEN iffD1]) simp_all
  then show ?thesis by (simp add: word_less_nat_alt word_le_nat_alt less_Suc_eq_le)
qed

text \<open>C39: A key has a prefix exactly when it lies between the prefix and its computed upper bound, an empty bound
  meaning none.\<close>

theorem prefix_interval:
  "HasPrefix k prefix \<longleftrightarrow> prefix \<le> k \<and> (prefixUpperBound prefix = [] \<or> k < prefixUpperBound prefix)"
proof (induction prefix arbitrary: k)
  case Nil
  then show ?case by (simp add: HasPrefix_def prefixUpperBound_def)
next
  case (Cons x xs)
  show ?case
  proof (cases k)
    case Nil
    then show ?thesis by (simp add: HasPrefix_def)
  next
    case k: (Cons y ys)
    have h: "HasPrefix (y # ys) (x # xs) \<longleftrightarrow> y = x \<and> HasPrefix ys xs" by (auto simp: HasPrefix_def)
    show ?thesis
    proof (cases "prefixUpperBound xs")
      case Nil
      then have hp: "HasPrefix ys xs \<longleftrightarrow> xs \<le> ys" using Cons.IH by simp
      show ?thesis
      proof (cases "x < 0xff")
        case True
        then show ?thesis by (auto simp: h hp prefixUpperBound_Cons Nil k byte_less_Suc)
      next
        case False
        have "y \<le> 0xff" using unsigned_less [of y, where ?'a = nat] by (simp add: word_le_nat_alt)
        then have "\<not> x < y" using False by (simp add: not_less)
        then show ?thesis using False by (auto simp: h hp prefixUpperBound_Cons Nil k)
      qed
    next
      case (Cons u us)
      then show ?thesis using Cons.IH [of ys] by (auto simp: h prefixUpperBound_Cons k)
    qed
  qed
qed

section \<open>String fields of flat objects\<close>

definition plain :: "bytes \<Rightarrow> bool" where
  "plain s \<longleftrightarrow> 34 \<notin> set s \<and> 92 \<notin> set s"

definition quoted :: "bytes \<Rightarrow> bytes" where
  "quoted s = 34 # s @ [34]"

fun fields_text :: "(bytes \<times> bytes) list \<Rightarrow> bytes" where
  "fields_text [] = [125]"
| "fields_text [(k, v)] = quoted k @ [58] @ quoted v @ [125]"
| "fields_text ((k, v) # p # ps) = quoted k @ [58] @ quoted v @ [44] @ fields_text (p # ps)"

definition object_text :: "(bytes \<times> bytes) list \<Rightarrow> bytes" where
  "object_text ps = 123 # fields_text ps"

lemma plain_simps [simp]: "plain []" "plain (b # s) \<longleftrightarrow> b \<noteq> 34 \<and> b \<noteq> 92 \<and> plain s"
  by (auto simp: plain_def)

lemma field_loop_string: "plain s \<Longrightarrow> field_loop fb True False (s @ 34 # r) = field_loop fb False False r"
  by (induction s) auto

lemma value_loop_plain: "plain s \<Longrightarrow> value_loop (s @ 34 # r) False acc = Some (acc @ s)"
  by (induction s arbitrary: acc) auto

lemma HasPrefix_quoted: "plain s \<Longrightarrow> plain f \<Longrightarrow> HasPrefix (34 # s @ 34 # r) (quoted f) \<longleftrightarrow> s = f"
proof -
  have "plain s \<Longrightarrow> plain f \<Longrightarrow> HasPrefix (s @ 34 # r) (f @ [34]) \<longleftrightarrow> s = f"
  proof (induction s arbitrary: f)
    case Nil
    then show ?case by (cases f) (auto simp: HasPrefix_def)
  next
    case (Cons b s)
    then show ?case by (cases f) (auto simp: HasPrefix_def)
  qed
  then show "plain s \<Longrightarrow> plain f \<Longrightarrow> ?thesis" by (simp add: HasPrefix_def quoted_def)
qed

lemma field_loop_quoted:
  assumes "plain s" "plain f" "c \<noteq> 58" "\<not> json_ws c"
  shows "field_loop (quoted f) False False (quoted s @ c # r) = field_loop (quoted f) False False (c # r)"
proof (cases "s = f")
  case True
  then show ?thesis
    using assms HasPrefix_quoted [OF assms(1,2), of "c # r"] by (simp add: quoted_def skip_ws_def)
next
  case False
  then show ?thesis
    using assms HasPrefix_quoted [OF assms(1,2), of "c # r"] by (simp add: quoted_def field_loop_string)
qed

lemma field_loop_pair:
  assumes "plain k" "plain v" "plain f" "c = 44 \<or> c = 125"
  shows "field_loop (quoted f) False False (quoted k @ [58] @ quoted v @ c # r)
    = (if k = f then Some v else field_loop (quoted f) False False r)"
proof (cases "k = f")
  case True
  then show ?thesis
    using assms HasPrefix_quoted [OF assms(1,3), of "58 # 34 # v @ 34 # c # r"] value_loop_plain [OF assms(2), of "c # r" "[]"]
    by (simp add: quoted_def skip_ws_def json_ws_def)
next
  case False
  have "field_loop (quoted f) False False (quoted k @ [58] @ quoted v @ c # r) = field_loop (quoted f) False False (quoted v @ c # r)"
    using False assms HasPrefix_quoted [OF assms(1,3), of "58 # 34 # v @ 34 # c # r"] by (simp add: quoted_def field_loop_string)
  also have "\<dots> = field_loop (quoted f) False False r"
    using field_loop_quoted [OF assms(2,3), of c r] assms(4) by (auto simp: json_ws_def)
  finally show ?thesis using False by simp
qed

text \<open>C40: On the text of a flat object whose fields and values are strings without quotes and backslashes, the
  scanner finds the value of the first field of the name, also where values equal the name.\<close>

theorem extract_object:
  assumes "\<forall>(k, v) \<in> set ps. plain k \<and> plain v" "plain field"
  shows "fastExtractJSONField (object_text ps) field = map_of ps field"
proof -
  have "field_loop (quoted field) False False (fields_text ps) = map_of ps field"
    using assms
  proof (induction ps rule: fields_text.induct)
    case (2 k v)
    then show ?case using field_loop_pair [of k v field 125 "[]"] by simp
  next
    case (3 k v p ps)
    then show ?case using field_loop_pair [of k v field 44 "fields_text (p # ps)"] by simp
  qed simp
  then show ?thesis by (simp add: fastExtractJSONField_def object_text_def quoted_def)
qed

theorem extract_object_witness: "fastExtractJSONField (object_text [([97], [98]), ([98], [99])]) [98] = Some [99]"
  using extract_object [of "[([97], [98]), ([98], [99])]" "[98]"] by simp


section \<open>Forward queries\<close>

definition query_hit :: "Query \<Rightarrow> (bytes \<Rightarrow> bytes) \<Rightarrow> bytes \<times> bytes \<Rightarrow> bool" where
  "query_hit q dec e \<longleftrightarrow> (case e of (k, raw) \<Rightarrow>
     list_all (\<lambda>p. p k) (qr_keyPreds q) \<and> list_all (\<lambda>p. p raw) (qr_rawPreds q) \<and> list_all (\<lambda>p. p k (dec raw)) (qr_allPreds q))"

definition in_interval :: "Query \<Rightarrow> bytes \<Rightarrow> bool" where
  "in_interval q k \<longleftrightarrow> qr_start q \<le> k \<and> (qr_end q = [] \<or> k < qr_end q)"

definition limited :: "int \<Rightarrow> 'b list \<Rightarrow> 'b list" where
  "limited limit xs = (if limit > 0 then take (nat limit) xs else xs)"

text \<open>The pairs of key and raw value that a query returns, of the active pairs of the heap.\<close>

definition query_pairs :: "Query \<Rightarrow> (bytes \<Rightarrow> bytes) \<Rightarrow> (bytes \<times> bytes) list \<Rightarrow> (bytes \<times> bytes) list" where
  "query_pairs q dec kvs =
     limited (qr_limit q) (drop (nat (qr_offset q)) (filter (query_hit q dec) (filter (\<lambda>(k, raw). in_interval q k) kvs)))"

definition pair_at :: "cell \<Rightarrow> bytes \<times> bytes" where
  "pair_at e = (fst e, snd (snd e))"

lemma stands_current:
  assumes "stands c css (e # es)"
  shows "RawValue c = snd (snd e)" "cursor_Value c = resolveVal c (snd (snd e))"
  using assms by (auto simp: stands_def on_live_def RawValue_def cursor_Value_def)

lemma iterate_loop_feed:
  assumes "gap_free css" "\<not> qr_reverse q"
    "case es of [] \<Rightarrow> fst r = None | e # _ \<Rightarrow> fst r = Some (fst e) \<and> stands (snd r) css es \<and> resolveVal (snd r) = dec"
    "0 \<le> m" "0 \<le> y" "qr_limit q > 0 \<Longrightarrow> y < qr_limit q"
  defines "sel \<equiv> \<lambda>es m y. (if qr_limit q > 0 then take (nat (qr_limit q - y)) else (\<lambda>x. x))
      (drop (nat (qr_offset q - m)) (filter (query_hit q dec) (map pair_at (takeWhile (\<lambda>e. qr_end q = [] \<or> fst e < qr_end q) es))))"
  shows "fst (snd (iterate_loop q full False yield r m y st refs))
    = feed (\<lambda>st k v. yield st k v None) (map (\<lambda>(k, raw). (k, if qr_allPreds q \<noteq> [] \<or> full then dec raw else [])) (sel es m y)) st"
  using assms(3-6)
proof (induction es arbitrary: r m y st)
  case Nil
  then obtain c where "r = (None, c)" by (cases r) auto
  then show ?case by (simp add: sel_def)
next
  case (Cons e es)
  obtain c where r: "r = (Some (fst e), c)" using Cons.prems(1) by (cases r) auto
  have c: "stands c css (e # es)" "resolveVal c = dec" using Cons.prems(1) r by simp_all
  define raw where "raw = snd (snd e)"
  note cur = stands_current [OF c(1), unfolded c(2), folded raw_def]
  define k where "k = fst e"
  have p: "pair_at e = (k, raw)" by (simp add: pair_at_def k_def raw_def)
  obtain r' c' where n: "Next c = (r', c')" by fastforce
  have mv: "moved c css es (r', c')" using Next_moved [OF c(1) assms(1)] by (simp add: n)
  have adv: "advance q c = (map_option fst r', c')" using assms(2) by (simp add: advance_def n)
  have inv: "case es of [] \<Rightarrow> fst (advance q c) = None
      | e # _ \<Rightarrow> fst (advance q c) = Some (fst e) \<and> stands (snd (advance q c)) css es \<and> resolveVal (snd (advance q c)) = dec"
    using mv resolveVal_same [of c c'] c(2) by (auto simp: adv moved_def split: list.splits)
  note IH = Cons.IH [OF inv]
  have past: "past_bound q k \<longleftrightarrow> \<not> (qr_end q = [] \<or> k < qr_end q)"
    using assms(2) by (auto simp: past_bound_def bytes_Compare_simps)
  define v where "v = (if qr_allPreds q \<noteq> [] \<or> full then dec raw else [])"
  have hit: "query_hit q dec (k, raw) \<longleftrightarrow> list_all (\<lambda>p. p k) (qr_keyPreds q) \<and> list_all (\<lambda>p. p raw) (qr_rawPreds q)
      \<and> list_all (\<lambda>p. p k v) (qr_allPreds q)"
    by (cases "qr_allPreds q = []") (simp_all add: query_hit_def v_def)
  have vv: "(if length (qr_allPreds q) > 0 \<or> full then cursor_Value c else []) = v" by (simp add: v_def cur)
  have step: "iterate_loop q full False yield r m y st refs =
     (if past_bound q k then (c, st, refs)
      else if \<not> query_hit q dec (k, raw) then iterate_loop q full False yield (advance q c) m y st refs
      else if m + 1 \<le> qr_offset q then iterate_loop q full False yield (advance q c) (m + 1) y st refs
      else case yield st k v None of (st, goon) \<Rightarrow>
        if \<not> goon then (c, st, refs)
        else if qr_limit q > 0 \<and> y + 1 \<ge> qr_limit q then (c, st, refs)
        else iterate_loop q full False yield (advance q c) (m + 1) (y + 1) st refs)"
    unfolding r hit iterate_loop.simps k_def [symmetric] cur(1) vv Let_def by simp
  show ?case
  proof (cases "past_bound q k")
    case True
    then show ?thesis using past by (simp add: step sel_def k_def)
  next
    case False
    then have tw: "takeWhile (\<lambda>e. qr_end q = [] \<or> fst e < qr_end q) (e # es) = e # takeWhile (\<lambda>e. qr_end q = [] \<or> fst e < qr_end q) es"
      using past by (simp add: k_def)
    show ?thesis
    proof (cases "query_hit q dec (k, raw)")
      case nohit: False
      have "sel (e # es) m y = sel es m y" by (simp only: sel_def tw list.map p filter.simps nohit if_False)
      then show ?thesis using IH [of m y] Cons.prems nohit False by (simp add: step)
    next
      case True
      have h: "filter (query_hit q dec) (map pair_at (takeWhile (\<lambda>e. qr_end q = [] \<or> fst e < qr_end q) (e # es)))
          = (k, raw) # filter (query_hit q dec) (map pair_at (takeWhile (\<lambda>e. qr_end q = [] \<or> fst e < qr_end q) es))"
        by (simp only: tw list.map p filter.simps True if_True)
      show ?thesis
      proof (cases "m + 1 \<le> qr_offset q")
        case skip: True
        then have "nat (qr_offset q - m) = Suc (nat (qr_offset q - (m + 1)))" by simp
        then have "sel (e # es) m y = sel es (m + 1) y" by (simp only: sel_def h drop_Suc_Cons)
        then show ?thesis using IH [of "m + 1" y] Cons.prems True skip False by (simp add: step)
      next
        case out: False
        have d0: "nat (qr_offset q - m) = 0" "nat (qr_offset q - (m + 1)) = 0" using out by simp_all
        have s: "sel (e # es) m y = (k, raw) # (if qr_limit q > 0 \<and> y + 1 \<ge> qr_limit q then [] else sel es (m + 1) (y + 1))"
        proof (cases "qr_limit q > 0")
          case lim: True
          then have "nat (qr_limit q - y) = Suc (nat (qr_limit q - (y + 1)))" using Cons.prems(4) by simp
          then show ?thesis using lim by (simp add: sel_def h d0 del: takeWhile.simps list.map filter.simps)
        next
          case nolim: False
          then show ?thesis by (simp add: sel_def h d0 del: takeWhile.simps list.map filter.simps)
        qed
        obtain st' goon where f: "yield st k v None = (st', goon)" by fastforce
        let ?P = "\<lambda>(k, raw). (k, if qr_allPreds q \<noteq> [] \<or> full then dec raw else [])"
        let ?Y = "\<lambda>st k v. yield st k v None"
        have fd: "feed ?Y (map ?P (sel (e # es) m y)) st
            = (if goon then feed ?Y (map ?P (if qr_limit q > 0 \<and> y + 1 \<ge> qr_limit q then [] else sel es (m + 1) (y + 1))) st' else st')"
          by (simp only: s list.map prod.case feed.simps v_def [symmetric] f)
        have it: "iterate_loop q full False yield r m y st refs
            = (if goon \<and> \<not> (qr_limit q > 0 \<and> y + 1 \<ge> qr_limit q) then iterate_loop q full False yield (advance q c) (m + 1) (y + 1) st' refs else (c, st', refs))"
          using True out False by (simp add: step f)
        show ?thesis
        proof (cases "goon \<and> \<not> (qr_limit q > 0 \<and> y + 1 \<ge> qr_limit q)")
          case go: True
          have "fst (snd (iterate_loop q full False yield (advance q c) (m + 1) (y + 1) st' refs)) = feed ?Y (map ?P (sel es (m + 1) (y + 1))) st'"
            using go Cons.prems by (intro IH) auto
          then show ?thesis using go by (simp only: fd it) (simp only: if_True if_False simp_thms)
        next
          case False
          then show ?thesis unfolding fd it by auto
        qed
      qed
    qed
  qed
qed


lemma stepBackward_same: "same_leaves c (snd (stepBackward c))"
  by (simp add: stepBackward_def split: option.splits)

lemma Prev_same: "same_leaves c (snd (Prev c))"
proof -
  obtain k w i sl ss act where a: "resolveKeyEndingAt c (cu_leafIdx c) (cu_slotIdx c) = (k, w, i, sl, ss, act)" by (metis prod_cases6)
  define d where "d = c\<lparr>cu_leafIdx := sl, cu_slotIdx := ss\<rparr>"
  obtain b e where sf: "stepBackward d = (b, e)" by fastforce
  have "Prev c = (if \<not> cu_valid c then (None, c) else case stepBackward d of
      (False, c) \<Rightarrow> (None, c) | (True, c) \<Rightarrow> (Some (cu_currKey c, resolveVal c (cu_currVal c)), c))"
    by (simp only: Prev_def a prod.case d_def)
  then have "snd (Prev c) = c \<or> snd (Prev c) = snd (stepBackward d)"
    unfolding sf by (cases b) simp_all
  moreover have "same_leaves c d" by (simp add: d_def)
  then have "same_leaves c (snd (stepBackward d))" by (rule same_leaves_trans [OF _ stepBackward_same])
  ultimately show ?thesis by (elim disjE) simp_all
qed

lemma advance_same: "same_leaves c (snd (advance q c))"
  using Next_same [of c] Prev_same [of c] by (cases "Next c"; cases "Prev c") (simp add: advance_def)

lemma iterate_loop_same:
  "same_leaves (snd r) (fst (iterate_loop q full False yield r m y st refs)) \<and> snd (snd (iterate_loop q full False yield r m y st refs)) = refs"
proof (induction q full "False" yield r m y st refs rule: iterate_loop.induct)
  case (2 q full yield k c matched yielded st refs)
  let ?I = "\<lambda>m y st. iterate_loop q full False yield (advance q c) m y st refs"
  have T: "same_leaves (snd (advance q c)) (fst x) \<Longrightarrow> same_leaves c (fst x)" for x :: "Cursor \<times> 'a \<times> (nat \<Rightarrow> int)"
    using same_leaves_trans [OF advance_same] .
  show ?case
  proof (cases "past_bound q k \<or> \<not> list_all (\<lambda>p. p k) (qr_keyPreds q) \<or> \<not> list_all (\<lambda>p. p (RawValue c)) (qr_rawPreds q)")
    case True
    then show ?thesis using "2.hyps"(1,2) T by auto
  next
    case pass: False
    define v where "v = (if length (qr_allPreds q) > 0 \<or> full then cursor_Value c else [])"
    note H = "2.hyps"(3,4,5) [OF _ _ _ v_def]
    obtain st' goon where f: "yield st k v None = (st', goon)" by fastforce
    have e: "iterate_loop q full False yield (Some k, c) matched yielded st refs =
      (if \<not> list_all (\<lambda>p. p k v) (qr_allPreds q) then ?I matched yielded st
       else if matched + 1 \<le> qr_offset q then ?I (matched + 1) yielded st
       else if \<not> goon \<or> qr_limit q > 0 \<and> yielded + 1 \<ge> qr_limit q then (c, st', refs)
       else ?I (matched + 1) (yielded + 1) st')"
      using pass unfolding iterate_loop.simps v_def [symmetric] Let_def by (auto simp: f)
    show ?thesis unfolding e using H pass T f by auto
  qed
qed simp

lemma query_start_same: "\<not> qr_reverse q \<Longrightarrow> same_leaves c (snd (query_start q c))"
  using First_same [of c] Seek_same [of c "qr_start q"] by (cases "First c"; cases "Seek c (qr_start q)") (simp add: query_start_def)


section \<open>Queries over heaps\<close>

lemma feed_collect: "feed (\<lambda>res k v. (res @ [(k, v)], True)) kvs acc = acc @ kvs"
  by (induction kvs arbitrary: acc) auto

lemma feed_keys: "feed (\<lambda>keys k v. (keys @ [k], True)) kvs acc = acc @ map fst kvs"
  by (induction kvs arbitrary: acc) auto

lemma feed_count: "feed (\<lambda>n k v. (n + 1, True)) kvs (i :: int) = i + int (length kvs)"
  by (induction kvs arbitrary: i) auto

lemma feed_first: "feed (\<lambda>found k v. (Some (k, v), False)) kvs None = (if kvs = [] then None else Some (hd kvs))"
  by (cases kvs) auto

lemma iterate_feed:
  assumes "over_leaves c css" "sorted (map fst (concat css))" "\<not> qr_reverse q" "if qr_start q = [] then gap_free css else leaves_apart css"
  shows "fst (snd (iterate q full False yield c st refs))
    = feed (\<lambda>st k v. yield st k v None) (map (\<lambda>(k, raw). (k, if qr_allPreds q \<noteq> [] \<or> full then resolveVal c raw else []))
        (query_pairs q (resolveVal c) (active_pairs (\<lambda>x. x) (cu_snap c) (concat css)))) st"
proof -
  have gf: "gap_free css" using assms(4) apart_gap_free by (auto split: if_splits)
  define es where "es = dropWhile (\<lambda>e. \<not> qr_start q \<le> fst e) (live (cu_snap c) (concat css))"
  define sr where "sr = (if length (qr_start q) = 0 then First c else Seek c (qr_start q))"
  have m: "moved c css es sr"
    using First_moved [OF assms(1) gf] Seek_moved [OF assms(1,2)] assms(4) by (cases "qr_start q = []") (simp_all add: es_def sr_def)
  have qs: "query_start q c = (map_option fst (fst sr), snd sr)"
    using assms(3) by (cases sr) (simp add: query_start_def sr_def)
  have inv: "case es of [] \<Rightarrow> fst (query_start q c) = None
      | e # _ \<Rightarrow> fst (query_start q c) = Some (fst e) \<and> stands (snd (query_start q c)) css es \<and> resolveVal (snd (query_start q c)) = resolveVal c"
    using m resolveVal_same [of c "snd sr"] by (auto simp: qs moved_def split: list.splits)
  have iv: "takeWhile (\<lambda>e. qr_end q = [] \<or> fst e < qr_end q) es = filter (\<lambda>e. in_interval q (fst e)) (live (cu_snap c) (concat css))"
    unfolding es_def in_interval_def by (rule sorted_interval [OF sorted_live [OF assms(2)]])
  have ap: "map pair_at (filter (\<lambda>e. in_interval q (fst e)) (live (cu_snap c) (concat css)))
      = filter (\<lambda>(k, raw). in_interval q k) (active_pairs (\<lambda>x. x) (cu_snap c) (concat css))"
    by (simp add: live_active [OF assms(2), symmetric] filter_map comp_def pair_at_def)
  show ?thesis
    using iterate_loop_feed [OF gf assms(3) inv, of 0 0 full yield st refs]
    by (simp add: iterate_def iv ap query_pairs_def limited_def split: if_splits)
qed

lemma run_query_feed:
  fixes yield :: "'a \<Rightarrow> bytes \<Rightarrow> bytes \<Rightarrow> value_reader option \<Rightarrow> 'a \<times> bool"
  assumes "heap_leaves heap root ps" "sorted (map fst (concat (cells_of heap ps)))"
    and "qr_cursor q = Some (newCursor heap root snap pin)" "\<not> qr_reverse q"
    and "if qr_start q = [] then gap_free (cells_of heap ps) else leaves_apart (cells_of heap ps)"
  defines "hits \<equiv> query_pairs q (decoded heap) (active_pairs (\<lambda>x. x) snap (concat (cells_of heap ps)))"
  shows "fst (run_query q full False yield st refs)
      = Inr (feed (\<lambda>st k v. yield st k v None) (map (\<lambda>(k, raw). (k, if qr_allPreds q \<noteq> [] \<or> full then decoded heap raw else [])) hits) st)"
    "snd (snd (run_query q full False yield st refs))
      = (case (if qr_ownsCur q then pin else None) of None \<Rightarrow> refs | Some h \<Rightarrow> refs(h := refs h - 1))"
proof -
  define c where "c = newCursor heap root snap pin"
  note N = newCursor_leaves [OF assms(1), of snap pin, folded c_def]
  have dec: "resolveVal c = decoded heap" using newCursor_decodes [OF assms(1)] by (simp add: c_def)
  obtain c' st' refs' where i: "iterate q full False yield c st refs = (c', st', refs')" by (metis prod_cases3)
  have st': "st' = feed (\<lambda>st k v. yield st k v None) (map (\<lambda>(k, raw). (k, if qr_allPreds q \<noteq> [] \<or> full then decoded heap raw else [])) hits) st"
    using iterate_feed [OF N(1) assms(2,4,5), of full yield st refs] unfolding dec by (simp add: i N(4) hits_def)
  have "same_leaves c c' \<and> refs' = refs"
    using iterate_loop_same [of "query_start q c" q full yield 0 0 st refs] query_start_same [OF assms(4), of c] i same_leaves_trans
    by (auto simp: iterate_def)
  then have p: "cu_pin c' = pin" "refs' = refs" using N(5) by (simp_all add: same_leaves_def)
  show "fst (run_query q full False yield st refs)
      = Inr (feed (\<lambda>st k v. yield st k v None) (map (\<lambda>(k, raw). (k, if qr_allPreds q \<noteq> [] \<or> full then decoded heap raw else [])) hits) st)"
    by (simp add: run_query_def assms(3) c_def [symmetric] i st' cursor_Close_def)
  show "snd (snd (run_query q full False yield st refs))
      = (case (if qr_ownsCur q then pin else None) of None \<Rightarrow> refs | Some h \<Rightarrow> refs(h := refs h - 1))"
    using p by (simp add: run_query_def assms(3) c_def [symmetric] i cursor_Close_def no_place_def)
qed

text \<open>C37: The terminal operations of a forward query agree with one another and with the heap, a heap of linked
  well-formed leaves, any of them empty, with the keys in order along the leaves: the pairs that
  \<open>Collect\<close> returns are the active pairs of the interval that satisfy every predicate, without the first
  \<open>offset\<close> of them and at most \<open>limit\<close> when the limit is positive; \<open>CollectKeys\<close> returns their keys,
  \<open>Count\<close> their number, and \<open>First\<close> the first of them or not found. A query without a start key needs that no
  key has versions on both sides of an empty leaf, one with a start key that none has versions in two leaves.\<close>

theorem query_results:
  assumes "heap_leaves heap root ps" "sorted (map fst (concat (cells_of heap ps)))"
    and "qr_cursor q = Some (newCursor heap root snap pin)" "\<not> qr_reverse q"
    and "if qr_start q = [] then gap_free (cells_of heap ps) else leaves_apart (cells_of heap ps)"
    and "hits = map (\<lambda>(k, raw). (k, decoded heap raw)) (query_pairs q (decoded heap) (active_pairs (\<lambda>x. x) snap (concat (cells_of heap ps))))"
  shows "fst (Query_Collect q refs) = Inr hits \<and> fst (Query_CollectKeys q refs) = Inr (map fst hits)
    \<and> fst (Query_Count q refs) = Inr (int (length hits))
    \<and> fst (Query_First q refs) = (if hits = [] then Inl ErrNotFound else Inr (hd hits))"
proof -
  note R = run_query_feed(1) [OF assms(1-5)]
  have "fst (Query_Collect q refs) = Inr hits" unfolding Query_Collect_def R by (simp add: feed_collect assms(6) case_prod_beta)
  moreover have "fst (Query_CollectKeys q refs) = Inr (map fst hits)"
    unfolding Query_CollectKeys_def R by (simp add: feed_keys assms(6) case_prod_beta comp_def)
  moreover have "fst (Query_Count q refs) = Inr (int (length hits))"
    unfolding Query_Count_def R by (simp add: feed_count assms(6))
  moreover have "fst (run_query q True False (\<lambda>found k v r. (Some (k, v), False)) None refs) = Inr (if hits = [] then None else Some (hd hits))"
    unfolding R by (simp add: feed_first assms(6) case_prod_beta)
  then have "fst (Query_First q refs) = (if hits = [] then Inl ErrNotFound else Inr (hd hits))"
    by (cases "run_query q True False (\<lambda>found k v r. (Some (k, v), False)) None refs") (auto simp: Query_First_def)
  ultimately show ?thesis by blast
qed

theorem query_results_witness:
  "fst (Query_Collect (Query_Limit 1 (Query_Offset 1 (newQuery (newCursor
      (heap1 [([1], replicate 16 1, [0, 41]), ([2], replicate 16 1, [0, 42]), ([3], replicate 16 1, [0, 43])]) 0 (replicate 16 9) None) False))) (\<lambda>_. 0))
    = Inr [([2], [42])]"
proof -
  define cs :: "cell list" where "cs = [([1], replicate 16 1, [0, 41]), ([2], replicate 16 1, [0, 42]), ([3], replicate 16 1, [0, 43])]"
  have le: "replicate 16 (1 :: byte) \<le> replicate 16 9" by (intro id_le) simp
  have pc: "page_cells cs" by (simp add: cs_def page_cells_def cells_size_def ver_len_def cell_ok_def)
  note H = heap1_leaves [OF pc]
  have dec: "decoded h [0, x] = [x]" for h x by (simp add: decoded_def decodeValue_def OverflowDescLen_def cellKindInline_def)
  define q where "q = Query_Limit 1 (Query_Offset 1 (newQuery (newCursor (heap1 cs) 0 (replicate 16 9) None) False))"
  have q: "qr_cursor q = Some (newCursor (heap1 cs) 0 (replicate 16 9) None)" "\<not> qr_reverse q" "qr_start q = []" "qr_end q = []"
    "qr_limit q = 1" "qr_offset q = 1" "qr_keyPreds q = []" "qr_rawPreds q = []" "qr_allPreds q = []"
    by (simp_all add: q_def Query_Limit_def Query_Offset_def newQuery_def)
  have ap: "active_pairs (\<lambda>x. x) (replicate 16 9) cs = [([1], [0, 41]), ([2], [0, 42]), ([3], [0, 43])]"
    using le by (simp add: active_pairs_def cs_def newest_of_def visible_def active_of_def)
  have "map (\<lambda>(k, raw). (k, decoded (heap1 cs) raw)) (query_pairs q (decoded (heap1 cs)) (active_pairs (\<lambda>x. x) (replicate 16 9) (concat (cells_of (heap1 cs) [0])))) = [([2], [42])]"
    by (simp add: H ap query_pairs_def limited_def query_hit_def in_interval_def q dec)
  moreover have "sorted (map fst (concat (cells_of (heap1 cs) [0])))" "gap_free (cells_of (heap1 cs) [0])"
    by (simp_all add: H(2) gap_free_def) (simp_all add: cs_def)
  ultimately have "fst (Query_Collect q (\<lambda>_. 0)) = Inr [([2], [42])]"
    using query_results [OF H(1) _ q(1,2) _ refl, of "\<lambda>_. 0"] q(3) by simp
  then show ?thesis by (simp only: q_def cs_def)
qed

end
