(* ===== verification/Spec2Isabelle.thy ===== *)
theory Spec2Isabelle
  imports Poly1305 Blake3 Kdf Device Device_Live Wal_Block Wal Wal_Log Wal_Codec Wal_Refine Wal_Props Wal_Compact Wal_Repair Locks Uuid Record_Id Topo Go_Std Segments Txnlog History Pager_Cache Page Cas Lz4 Delta Btree_Search Overflow_Props C2ql_Props Btree_Grow Query_Props
begin

text \<open>
  Verification of c2db, an embedded storage engine written in Go (\<^verbatim>\<open>src/pkg\<close>). A database is a set of shards. A shard
  keeps its records in a B+tree of 16-KiB pages with two images, the published one that readers see and the working
  one that a writer changes; it records every change in a write-ahead log on a device of 4096-byte blocks before it
  publishes it; values that do not fit a leaf go to chains of overflow pages; superseded versions are kept under
  the identifier of their write, so that a read as of an identifier sees the past. Beside the shards stand segmented
  logs (transaction events, history), a content-addressed store with page deltas, a journal of artifacts, a page cache
  with per-page seals, the file locks of the VFS, and a query language of lots of operations under a capability.

  \<^bold>\<open>Conventions.\<close> A Go byte slice is a list of bytes, a sized integer is a word of that size where wrap-around can
  matter and a natural number where the code's own checks keep it in range (offsets, counts, page numbers). A struct is
  a record with the fields of the source, an enumeration a datatype. Code that returns an error is a function to
  \<open>error + value\<close>; a method that also changes its receiver returns the next state beside it, also on the error
  paths (\<open>op_bind\<close> in the prelude sequences such calls). Every loop is structural recursion or has a termination proof;
  there is no partial function. A run-time panic is an explicit branch where the code can reach it. System calls are
  not code of the repository: the kernel's answers are a stream of outcomes in the device state, over which every
  theorem quantifies. Concurrency is modelled where the source handles it without a lock around the call: the
  identifier generator as interleaved turns of its loop, the file locks as interleaved calls.

  \<^bold>\<open>Foundations.\<close>
  \<^item> \<^verbatim>\<open>C2_Prelude\<close>: byte and word types, little-endian codecs, slices and their updates (\<open>bslice\<close>, \<open>put_at\<close>), the
    state-and-error sequencing, the collection \<open>word_nat\<close> and the lemmas the components share.
  \<^item> \<^verbatim>\<open>Go_Std\<close>: what the code uses of Go's library (CRC-32C, byte comparison) as definitions.

  \<^bold>\<open>Cryptography.\<close>
  \<^item> \<^verbatim>\<open>Poly1305\<close> models \<^verbatim>\<open>c2poly1305/poly1305_gen.go\<close>: the context, the limb arithmetic, update and final. Shown: the tag is
    the one of RFC 8439, through the bounds on every limb and carry.
  \<^item> \<^verbatim>\<open>Blake3\<close> models \<^verbatim>\<open>blake3/blake3.go\<close> and the scalar compression. Shown: the incremental hasher with its stack of subtree
    values computes the recursive tree hash. \<^verbatim>\<open>Blake3_Empty\<close> evaluates it on the empty string.
  \<^item> \<^verbatim>\<open>Kdf\<close> models \<^verbatim>\<open>c2db/kdf.go\<close>: the derivations and the ring of eight key epochs. Shown: which epochs resolve after any
    sequence of installs and after a revocation.

  \<^bold>\<open>Block device and journal.\<close>
  \<^item> \<^verbatim>\<open>Device\<close>, \<^verbatim>\<open>Device_Live\<close> model \<^verbatim>\<open>c2db/device.go\<close>: the transfer loops over short counts, growth, barriers, poisoning. The locales
    \<open>block_store\<close> and \<open>live_store\<close> are what the logs rely on; both are interpreted on the device.
  \<^item> \<^verbatim>\<open>Wal_Block\<close> models the block codec (\<^verbatim>\<open>db_wal_gen.go\<close>); \<^verbatim>\<open>Wal\<close> models \<^verbatim>\<open>wal.go\<close>: \<open>Append\<close> on its four paths, \<open>Flush\<close>, packs,
    checkpoints, truncation, replay, opening, repair. \<^verbatim>\<open>Wal_Codec\<close>, \<^verbatim>\<open>Wal_Log\<close>, \<^verbatim>\<open>Wal_Refine\<close> relate a handle to the list of
    records it stands for (\<open>log_rep\<close>) and show that the operations act on that list; \<^verbatim>\<open>Wal_Props\<close> shows that flushed
    records survive a crash, which records an append refuses and that it appends every other; \<^verbatim>\<open>Wal_Compact\<close> shows what a
    truncation keeps (relative to the recorded checkpoint position, which \<^verbatim>\<open>Checkpoint\<close> on a full log can leave behind the last
    marker) and in which states the nested calls end; \<^verbatim>\<open>Wal_Repair\<close> treats opening on damage and repair.
  \<^item> \<^verbatim>\<open>Topo\<close> models \<^verbatim>\<open>topo.go\<close>, the sealed journal of artifacts, with its durability.

  \<^bold>\<open>Identifiers, logs, locks.\<close>
  \<^item> \<^verbatim>\<open>Uuid\<close> and \<^verbatim>\<open>Record_Id\<close> model \<^verbatim>\<open>c2uuidv7\<close> and \<^verbatim>\<open>id.go\<close>: layout, text, and the strict growth of the generator's output under every
    interleaving.
  \<^item> \<^verbatim>\<open>Segments\<close> holds what \<^verbatim>\<open>txnlog.go\<close> and \<^verbatim>\<open>history.go\<close> share (the locales \<open>record_codec\<close>, \<open>seg_naming\<close> and their extension
    \<open>seg_records\<close>); \<^verbatim>\<open>Txnlog\<close> and \<^verbatim>\<open>History\<close> interpret them, and show refinement of a list of events, recovery of a torn tail and
    resolution of a key at a snapshot.
  \<^item> \<^verbatim>\<open>Locks\<close> models \<^verbatim>\<open>vfs_locks.go\<close> as a transition system, with mutual exclusion as its invariant.

  \<^bold>\<open>Pages and their storage.\<close>
  \<^item> \<^verbatim>\<open>Page\<close> models \<^verbatim>\<open>db_page_gen.go\<close> and \<^verbatim>\<open>c2db_crc32c_fullpage_gen.go\<close>; the table-driven checksums compute CRC-32C.
  \<^item> \<^verbatim>\<open>Pager\<close> models \<^verbatim>\<open>pager.go\<close> and \<^verbatim>\<open>pager_seal.go\<close>; \<^verbatim>\<open>Pager_Cache\<close> shows that through hits, misses, evictions and device failures it
    behaves as a memory of pages, and when a flush is durable.
  \<^item> \<^verbatim>\<open>Lz4\<close> models \<^verbatim>\<open>c2lz4\<close>: round trip of the compressor, safety of the decompressor on any input; every read of the
    source and every match of the decompressor is checked (\<open>None\<close> is an index out of range or negative). \<^verbatim>\<open>Delta\<close> models
    \<^verbatim>\<open>delta.go\<close> over the locale \<open>content_store\<close>, interpreted on \<^verbatim>\<open>Cas\<close>, the model of \<^verbatim>\<open>cas.go\<close>, where stored blobs, the empty one
    included, survive a crash.

  \<^bold>\<open>The tree and the shard.\<close>
  \<^item> \<^verbatim>\<open>Btree\<close> models the leaf kernels of \<^verbatim>\<open>db_btree_gen.go\<close> on the bytes of a heap, one definition per Go function and one per
    loop. \<^verbatim>\<open>Btree_Leaf\<close> gives well-formed leaves (\<open>leaf_wf\<close>) and the list of cells they hold (\<open>leaf_cells\<close>); \<^verbatim>\<open>Btree_Versions\<close> states
    the contract of a store of versions (locale \<open>version_store\<close>, interpreted on the leaf kernels); \<^verbatim>\<open>Btree_Del\<close> treats deletion.
  \<^item> \<^verbatim>\<open>Btree_Walk\<close> models internal pages, the descent from the root, chains of leaves and deletion in a tree; \<^verbatim>\<open>Btree_Search\<close>
    shows that on a well-formed tree the read of a key at a snapshot returns what the tree holds.
  \<^item> \<^verbatim>\<open>Shard\<close> models the two images of a shard and the set of pages in which they differ (\<^verbatim>\<open>engine.go\<close>): marking,
    roll-back, the heap header, the payloads of journal records. \<^verbatim>\<open>Overflow\<close> models \<^verbatim>\<open>overflow.go\<close> and the deletion of a key in a shard;
    \<^verbatim>\<open>Overflow_Props\<close> shows that encoded values are read back, at once and by the streaming reader (which never moves with a
    buffer of a multiple of 4 GiB), and that encoding changes no page outside the new chain.
  \<^item> \<^verbatim>\<open>Btree_Split\<close> models splits of leaves and internal pages, the growth of the root and the insertion in a tree, every loop and
    every early return, with the bytes a failed call leaves; the plain and the versioned insertion share \<open>chain_insert\<close> and
    \<open>attach_leaf\<close>. \<^verbatim>\<open>Btree_Insert\<close> shows that an insertion with room in the leaf gives the tree with the new cell at its sorted
    place (through \<open>btree_frame\<close>: a tree depends only on its own pages), and when a full leaf refuses to split.
    \<^verbatim>\<open>Btree_Split_Props\<close> shows that the split of a leaf deals its cells out over two well-formed leaves (through \<open>packed\<close>, the
    pages both copying loops fill from the end); \<^verbatim>\<open>Btree_Grow\<close> that a split root leaf becomes a tree of two leaves.
    The attachment of a separator to an inner page (\<open>attach_leaf\<close>, \<open>bt_split_attach_deep\<close>) is modelled, without a theorem.
  \<^item> \<^verbatim>\<open>Cursor\<close> models \<^verbatim>\<open>cursor.go\<close>: the leaves of a heap in order, the versions of a key, every move, ranges of shards and views.
    \<^verbatim>\<open>Cursor_Props\<close> relates positions to the list of cells under the cursor (\<open>stands\<close>, \<open>moved\<close>), whose active versions \<open>live\<close>
    groups and \<open>active_pairs\<close> states by the keys, the same that point reads give (\<open>active_pairs_reads\<close>);
    \<^verbatim>\<open>Cursor_Ranges\<close> shows what a range visits on a heap of linked leaves, empty ones among them, and what backward steps miss.
    Scans from a start key need that no key has versions in two leaves (\<open>leaves_apart\<close>), which splits keep; scans
    without one that none has versions on both sides of an empty leaf (\<open>gap_free\<close>).
  \<^item> \<^verbatim>\<open>Query\<close> models \<^verbatim>\<open>query.go\<close>, the query builder over a cursor, and \<^verbatim>\<open>Cursor.ValueReader\<close> of \<^verbatim>\<open>overflow.go\<close>; \<^verbatim>\<open>Query_Props\<close>
    shows what forward queries return, the interval of a prefix, and the scanner of string fields. The reverse direction is
    modelled, without a theorem beyond termination.
  \<^bold>\<open>Queries.\<close>
  \<^item> \<^verbatim>\<open>C2ql\<close> models \<^verbatim>\<open>c2ql.go\<close>: validation and execution of lots over a store given as functions (\<open>kvFns\<close>, as in the source), and the
    keys of collections (\<^verbatim>\<open>collection.go\<close>). \<^verbatim>\<open>C2ql_Props\<close> shows that a validated lot stays inside its capability (with the collection
    of the empty name if a join has no right side), which keys a scan fetches and what scans and groups return.
  \<^bold>\<open>Bounds and fuel.\<close> \<^verbatim>\<open>writeOne\<close>, \<^verbatim>\<open>flushPending\<close> and \<^verbatim>\<open>TruncateCheckpoint\<close> of the journal call each other; the model
    nests them to the depth \<open>walDepth = 2\<close>, and \<open>write_nesting\<close> shows that this is enough for all three, unless records are pending in
    a full log with a checkpoint, where no depth is. A chain of overflow pages is
    walked for at most the number of pages of its value and one turn, as in the source; the descent in a tree for at most
    the number of pages of the heap, the bound the source has. Every other recursion is over the data or has a measure.

  \<^bold>\<open>Parameters.\<close> Outcomes of system calls, clocks and random bytes; automatic compaction of the heap (\<open>tryAutoCompact\<close>), called
    when overflow pages do not fit; the JSON codec (\<open>json_std\<close>) and the store (\<open>kvFns\<close>) of the query language.

  \<^bold>\<open>Not modelled.\<close> The procedures of the engine above the shard heap (opening, publication under views, transactions, compaction
    and rebuild), the routing over shards, snapshots, archives, migration and replication
    (file-level procedures over the engine), the VFS bridge and its files, key files and probes, the vector variants of
    kernels that have a scalar one here, the shadow oracle (a test oracle), the web console and the CI hook (I/O only).
\<close>

end
